(* ===== verification/Tda_Prelude.thy ===== *)
theory Tda_Prelude
  imports Main "HOL-Library.Word" "HOL-Library.Multiset" "HOL-Library.Monad_Syntax"
begin

text \<open>
  Shared vocabulary of the development: the status of a fallible operation
  (\<open>include/tda/core/status.h\<close>), checked and wrapping \<open>size_t\<close> arithmetic, the C
  \<open>assert\<close> as a step of the option monad (\<open>None\<close> is an aborted program), and the list
  operations \<open>slice\<close> and \<open>blit\<close> that \<open>memcpy\<close>, \<open>memmove\<close> and \<open>memset\<close> amount to.
  A \<open>size_t\<close> is a \<open>nat\<close> bounded by \<open>SIZE_MAX\<close>; every place where the code relies on
  the bound writes the check (\<open>ckd_add\<close>, \<open>ckd_mul\<close>) or the wrap (\<open>size_add\<close>,
  \<open>size_mul\<close>) out.
\<close>

named_theorems slice_simps \<open>length, index and composition of slices and blits\<close>
named_theorems c_simps \<open>unfolding of the C-level checks when their condition holds\<close>

section \<open>Status\<close>

datatype tda_Status = TDA_STATUS_OK | TDA_STATUS_ERR_NO_MEM

definition TDA_STATUS_IS_OK :: "tda_Status \<Rightarrow> bool" where
  "TDA_STATUS_IS_OK st = (st = TDA_STATUS_OK)"

definition TDA_STATUS_IS_ERR :: "tda_Status \<Rightarrow> bool" where
  "TDA_STATUS_IS_ERR st = (st \<noteq> TDA_STATUS_OK)"

definition tda_status_to_str :: "tda_Status \<Rightarrow> string" where
  "tda_status_to_str st = (case st of
      TDA_STATUS_OK \<Rightarrow> ''TDA_STATUS_OK''
    | TDA_STATUS_ERR_NO_MEM \<Rightarrow> ''TDA_STATUS_ERR_NO_MEM'')"

lemma status_is_simps [simp]:
  "TDA_STATUS_IS_OK TDA_STATUS_OK" "\<not> TDA_STATUS_IS_OK TDA_STATUS_ERR_NO_MEM"
  "\<not> TDA_STATUS_IS_ERR TDA_STATUS_OK" "TDA_STATUS_IS_ERR TDA_STATUS_ERR_NO_MEM"
  by (simp_all add: TDA_STATUS_IS_OK_def TDA_STATUS_IS_ERR_def)

section \<open>Sizes\<close>

definition SIZE_MAX :: nat where
  "SIZE_MAX = 2 ^ 64 - 1"

definition ckd_add :: "nat \<Rightarrow> nat \<Rightarrow> nat option" where
  "ckd_add a b = (if a + b \<le> SIZE_MAX then Some (a + b) else None)"

definition ckd_mul :: "nat \<Rightarrow> nat \<Rightarrow> nat option" where
  "ckd_mul a b = (if a * b \<le> SIZE_MAX then Some (a * b) else None)"

definition size_add :: "nat \<Rightarrow> nat \<Rightarrow> nat" where
  "size_add a b = (a + b) mod (SIZE_MAX + 1)"

definition size_mul :: "nat \<Rightarrow> nat \<Rightarrow> nat" where
  "size_mul a b = (a * b) mod (SIZE_MAX + 1)"

lemma size_mul_exact [c_simps]: "a * b \<le> SIZE_MAX \<Longrightarrow> size_mul a b = a * b"
  by (simp add: size_mul_def)

lemma size_add_exact [c_simps]: "a + b \<le> SIZE_MAX \<Longrightarrow> size_add a b = a + b"
  by (simp add: size_add_def)

lemma size_mul_0 [simp]: "size_mul 0 b = 0" "size_mul a 0 = 0"
  by (simp_all add: size_mul_def)

lemma ckd_mul_Some: "ckd_mul a b = Some c \<longleftrightarrow> c = a * b \<and> a * b \<le> SIZE_MAX"
  by (auto simp: ckd_mul_def)

lemma ckd_mul_None: "ckd_mul a b = None \<longleftrightarrow> SIZE_MAX < a * b"
  by (auto simp: ckd_mul_def)

lemma ckd_add_Some: "ckd_add a b = Some c \<longleftrightarrow> c = a + b \<and> a + b \<le> SIZE_MAX"
  by (auto simp: ckd_add_def)

lemma ckd_add_None: "ckd_add a b = None \<longleftrightarrow> SIZE_MAX < a + b"
  by (auto simp: ckd_add_def)

section \<open>Assertions\<close>

text \<open>A failed \<open>assert\<close> ends the program: the model's operation then has no result.\<close>

definition c_assert :: "bool \<Rightarrow> unit option" where
  "c_assert b = (if b then Some () else None)"

lemma c_assert_True [simp]: "c_assert True = Some ()"
  by (simp add: c_assert_def)

lemma c_assert_False [simp]: "c_assert False = None"
  by (simp add: c_assert_def)

lemma c_assert_ok [c_simps]: "b \<Longrightarrow> c_assert b = Some ()"
  by simp

lemma c_assert_Some [simp]: "c_assert b = Some u \<longleftrightarrow> b"
  by (cases b) auto

lemma bind_c_assert_Some [simp]:
  "Option.bind (c_assert b) f = Some r \<longleftrightarrow> b \<and> f () = Some r"
  by (cases b) auto

section \<open>Slices and blits\<close>

definition slice :: "nat \<Rightarrow> nat \<Rightarrow> 'a list \<Rightarrow> 'a list" where
  "slice i n xs = take n (drop i xs)"

definition blit :: "nat \<Rightarrow> 'a list \<Rightarrow> 'a list \<Rightarrow> 'a list" where
  "blit i ys xs = take i xs @ ys @ drop (i + length ys) xs"

lemma length_slice [slice_simps]: "i + n \<le> length xs \<Longrightarrow> length (slice i n xs) = n"
  by (simp add: slice_def)

lemma nth_slice [slice_simps]: "i + n \<le> length xs \<Longrightarrow> k < n \<Longrightarrow> slice i n xs ! k = xs ! (i + k)"
  by (simp add: slice_def)

lemma slice_0 [simp]: "slice i 0 xs = []"
  by (simp add: slice_def)

lemma slice_all [simp]: "n = length xs \<Longrightarrow> slice 0 n xs = xs"
  by (simp add: slice_def)

lemma slice_one: "i < length xs \<Longrightarrow> slice i 1 xs = [xs ! i]"
  by (simp add: slice_def take_Suc_conv_app_nth)

lemma slice_slice: "j + m \<le> n \<Longrightarrow> slice j m (slice i n xs) = slice (i + j) m xs"
  by (simp add: slice_def drop_take min_def add.commute)

lemma length_blit [slice_simps]: "i + length ys \<le> length xs \<Longrightarrow> length (blit i ys xs) = length xs"
  by (simp add: blit_def)

lemma blit_Nil [simp]: "blit i [] xs = xs"
  by (simp add: blit_def)

lemma nth_blit [slice_simps]:
  "i + length ys \<le> length xs \<Longrightarrow> k < length xs \<Longrightarrow>
    blit i ys xs ! k = (if k < i then xs ! k else if k < i + length ys then ys ! (k - i) else xs ! k)"
  by (auto simp: blit_def nth_append)

lemma blit_one: "i < length xs \<Longrightarrow> blit i [x] xs = xs[i := x]"
  by (simp add: blit_def upd_conv_take_nth_drop)

lemma slice_blit_same: "i + length ys \<le> length xs \<Longrightarrow> slice i (length ys) (blit i ys xs) = ys"
  by (simp add: slice_def blit_def)

lemma take_blit_ge: "n \<le> i \<Longrightarrow> i \<le> length xs \<Longrightarrow> take n (blit i ys xs) = take n xs"
  by (simp add: blit_def)

lemma take_blit_full:
  "i + length ys \<le> length xs \<Longrightarrow> take (i + length ys) (blit i ys xs) = take i xs @ ys"
  by (simp add: blit_def)

lemma blit_whole: "length ys = length xs \<Longrightarrow> blit 0 ys xs = ys"
  by (simp add: blit_def)

lemma blit_slice_id: "i + n \<le> length xs \<Longrightarrow> blit i (slice i n xs) xs = xs"
  by (rule nth_equalityI) (auto simp: slice_simps)

text \<open>Making room for a run and filling it; closing the gap a removed run leaves.\<close>

lemma blit_insert_run:
  assumes "idx \<le> len" "len + length ys \<le> length c"
  shows "take (len + length ys) (blit idx ys (blit (idx + length ys) (slice idx (len - idx) c) c))
    = take idx (take len c) @ ys @ drop idx (take len c)"
proof -
  obtain k where k: "len = idx + k" using assms(1) le_Suc_ex by blast
  define B where "B = slice idx k c"
  have B: "length B = k" "drop idx (take (idx + k) c) = B"
    using assms k by (simp_all add: B_def slice_def drop_take)
  have "blit (idx + length ys) B c = take (idx + length ys) c @ B @ drop (idx + length ys + k) c"
    using B by (simp add: blit_def)
  then have "blit idx ys (blit (idx + length ys) B c) = take idx c @ ys @ B @ drop (idx + length ys + k) c"
    using assms k by (simp add: blit_def)
  then show ?thesis
    using assms k B by (simp add: B_def [symmetric])
qed

lemma blit_remove_run:
  assumes "idx + n \<le> len" "len \<le> length c"
  shows "take (len - n) (blit idx (slice (idx + n) (len - idx - n) c) c)
    = take idx (take len c) @ drop (idx + n) (take len c)"
proof -
  obtain k where k: "len = idx + n + k" using assms(1) le_Suc_ex by blast
  define B where "B = slice (idx + n) k c"
  have B: "length B = k" "drop (idx + n) (take (idx + n + k) c) = B"
    using assms k by (simp_all add: B_def slice_def drop_take)
  have "len - idx - n = k" "len - n = idx + k" using k by simp_all
  then show ?thesis
    using assms k B by (simp add: B_def [symmetric] blit_def)
qed

section \<open>Loops\<close>

text \<open>
  A C \<open>for\<close> loop over a known range of indices is a walk over the list of its indices.
  \<open>for_find\<close> is the loop that returns the index at which its test holds; \<open>for_loop\<close> threads
  a state and runs to the end. A step that fails an assertion ends the loop without result.
\<close>

primrec for_find :: "nat list \<Rightarrow> (nat \<Rightarrow> bool option) \<Rightarrow> nat option option" where
  "for_find [] f = Some None"
| "for_find (i # is) f = do { b \<leftarrow> f i; if b then Some (Some i) else for_find is f }"

primrec for_loop :: "nat list \<Rightarrow> (nat \<Rightarrow> 's \<Rightarrow> 's option) \<Rightarrow> 's \<Rightarrow> 's option" where
  "for_loop [] f s = Some s"
| "for_loop (i # is) f s = do { s1 \<leftarrow> f i s; for_loop is f s1 }"

lemma for_find_pure: "(\<And>i. i \<in> set is \<Longrightarrow> f i = Some (P i)) \<Longrightarrow> for_find is f = Some (List.find P is)"
  by (induction "is") auto

lemma for_loop_append: "for_loop (is @ js) f s = Option.bind (for_loop is f s) (for_loop js f)"
proof (induction "is" arbitrary: s)
  case (Cons i "is")
  then show ?case by (cases "f i s") auto
qed simp

lemma for_loop_fold: "(\<And>i s. i \<in> set is \<Longrightarrow> f i s = Some (g i s)) \<Longrightarrow> for_loop is f s = Some (fold g is s)"
  by (induction "is" arbitrary: s) auto

text \<open>An invariant that every step keeps holds of the state after the first \<open>n\<close> steps.\<close>

lemma for_loop_inv:
  assumes "Q 0 s" "\<And>i s. i < n \<Longrightarrow> Q i s \<Longrightarrow> \<exists>s'. f i s = Some s' \<and> Q (Suc i) s'"
  shows "\<exists>s'. for_loop [0..<n] f s = Some s' \<and> Q n s'"
  using assms(2)
proof (induction n)
  case 0
  then show ?case using assms(1) by simp
next
  case (Suc n)
  then obtain s1 where s1: "for_loop [0..<n] f s = Some s1" "Q n s1" by auto
  then obtain s2 where "f n s1 = Some s2" "Q (Suc n) s2" using Suc.prems [of n s1] by auto
  then show ?case using s1 by (simp add: for_loop_append)
qed

text \<open>The same for a range that starts elsewhere.\<close>

lemma for_loop_inv_from:
  assumes "m \<le> n" "Q m s" "\<And>i s. m \<le> i \<Longrightarrow> i < n \<Longrightarrow> Q i s \<Longrightarrow> \<exists>s'. f i s = Some s' \<and> Q (Suc i) s'"
  shows "\<exists>s'. for_loop [m..<n] f s = Some s' \<and> Q n s'"
  using assms(1,3)
proof (induction n rule: dec_induct)
  case base
  then show ?case using assms(2) by simp
next
  case (step n)
  then obtain s1 where s1: "for_loop [m..<n] f s = Some s1" "Q n s1" by auto
  then obtain s2 where "f n s1 = Some s2" "Q (Suc n) s2" using step.prems(1) [of n s1] step.hyps by auto
  then show ?case using s1 step.hyps by (simp add: for_loop_append)
qed

text \<open>A loop that counts down: from \<open>n\<close> to 1, its body at \<open>i - 1\<close>.\<close>

lemma for_loop_rev_inv:
  assumes "Q n s" "\<And>i s. i < n \<Longrightarrow> Q (Suc i) s \<Longrightarrow> \<exists>s'. f i s = Some s' \<and> Q i s'"
  shows "\<exists>s'. for_loop (rev [0..<n]) f s = Some s' \<and> Q 0 s'"
  using assms
proof (induction n arbitrary: s)
  case (Suc n)
  obtain s1 where s1: "f n s = Some s1" "Q n s1" using Suc.prems(2) [OF _ Suc.prems(1)] by auto
  have "\<exists>s'. for_loop (rev [0..<n]) f s1 = Some s' \<and> Q 0 s'"
    by (rule Suc.IH [OF s1(2)]) (use Suc.prems(2) in auto)
  then show ?case using s1 by simp
qed simp

lemma for_loop_rev_inv_to:
  assumes "m \<le> n" "Q n s" "\<And>i s. m \<le> i \<Longrightarrow> i < n \<Longrightarrow> Q (Suc i) s \<Longrightarrow> \<exists>s'. f i s = Some s' \<and> Q i s'"
  shows "\<exists>s'. for_loop (rev [m..<n]) f s = Some s' \<and> Q m s'"
  using assms
proof (induction n arbitrary: s rule: dec_induct)
  case (step n)
  obtain s1 where s1: "f n s = Some s1" "Q n s1" using step.prems(2) [of n s] step.prems(1) step.hyps by auto
  have "\<exists>s'. for_loop (rev [m..<n]) f s1 = Some s' \<and> Q m s'"
    by (rule step.IH [OF s1(2)]) (use step.prems(2) in auto)
  then show ?case using s1 step.hyps by simp
qed simp

lemma find_None_upt: "List.find P [m..<n] = None \<longleftrightarrow> (\<forall>i. m \<le> i \<longrightarrow> i < n \<longrightarrow> \<not> P i)"
  by (auto simp: find_None_iff)

lemma find_Some_upt:
  "List.find P [m..<n] = Some i \<longleftrightarrow> m \<le> i \<and> i < n \<and> P i \<and> (\<forall>j. m \<le> j \<longrightarrow> j < i \<longrightarrow> \<not> P j)"
proof
  assume "List.find P [m..<n] = Some i"
  then obtain k where k: "k < n - m" "P (m + k)" "i = m + k" "\<forall>j<k. \<not> P (m + j)"
    by (auto simp: find_Some_iff)
  then have "\<not> P j" if "m \<le> j" "j < i" for j using that by (metis add_less_cancel_left le_add_diff_inverse)
  then show "m \<le> i \<and> i < n \<and> P i \<and> (\<forall>j. m \<le> j \<longrightarrow> j < i \<longrightarrow> \<not> P j)" using k by auto
next
  assume r: "m \<le> i \<and> i < n \<and> P i \<and> (\<forall>j. m \<le> j \<longrightarrow> j < i \<longrightarrow> \<not> P j)"
  then show "List.find P [m..<n] = Some i"
    by (auto simp: find_Some_iff intro!: exI [of _ "i - m"])
qed

end
