(* ===== verification/Tda_Bytes.thy ===== *)
theory Tda_Bytes
  imports Tda_Prelude
begin

text \<open>
  Bytes and elements. A container keeps its elements as runs of \<open>elem_size\<close> bytes; the
  element view of a byte block is \<open>elems\<close>. The lemmas say that a \<open>memcpy\<close> or \<open>memmove\<close>
  of whole elements is the same blit on the element view, which is how the byte-level
  models of the containers are related to lists of elements.
  The second half models \<open>src/internal/ptr.h\<close>: byte offsets, pointer distance, the
  power-of-two alignment arithmetic and the byte-wise swap.
\<close>

unbundle bit_operations_syntax

type_synonym byte = "8 word"

section \<open>The element view of a byte block\<close>

fun elems :: "nat \<Rightarrow> 'a list \<Rightarrow> 'a list list" where
  "elems es bs = (if es = 0 \<or> length bs < es then [] else take es bs # elems es (drop es bs))"

declare elems.simps [simp del]

lemma elems_short [simp]: "length bs < es \<Longrightarrow> elems es bs = []"
  by (subst elems.simps) auto

lemma elems_Nil [simp]: "elems es [] = []"
  by (subst elems.simps) auto

lemma elems_step: "0 < es \<Longrightarrow> length x = es \<Longrightarrow> elems es (x @ bs) = x # elems es bs"
  by (subst elems.simps) auto

lemma elems_single [simp]: "0 < es \<Longrightarrow> length x = es \<Longrightarrow> elems es x = [x]"
  using elems_step [of es x "[]"] by simp

lemma elems_append:
  "0 < es \<Longrightarrow> length a = m * es \<Longrightarrow> elems es (a @ b) = elems es a @ elems es b"
proof (induction m arbitrary: a)
  case 0
  then show ?case by simp
next
  case (Suc m)
  define x and r where "x = take es a" and "r = drop es a"
  have "length x = es" and "length r = m * es" and a: "a = x @ r"
    using Suc.prems by (simp_all add: x_def r_def)
  then show ?case
    using Suc.IH [OF Suc.prems(1), of r] Suc.prems(1) by (simp add: elems_step)
qed

lemma length_elems: "0 < es \<Longrightarrow> length (elems es bs) = length bs div es"
proof (induction es bs rule: elems.induct)
  case (1 es bs)
  show ?case
  proof (cases "length bs < es")
    case False
    with 1 have "length (elems es (drop es bs)) = (length bs - es) div es" by simp
    with False "1.prems" show ?thesis
      by (subst elems.simps) (simp add: le_div_geq)
  qed simp
qed

lemma length_elems_mult [slice_simps]: "0 < es \<Longrightarrow> length bs = n * es \<Longrightarrow> length (elems es bs) = n"
  by (simp add: length_elems)

lemma elems_in_length: "x \<in> set (elems es bs) \<Longrightarrow> length x = es"
proof (induction es bs rule: elems.induct)
  case (1 es bs)
  then show ?case
    by (subst (asm) elems.simps) (auto split: if_splits)
qed

lemma elems_split:
  assumes "0 < es" "k * es \<le> length bs"
  shows "elems es bs = elems es (take (k * es) bs) @ elems es (drop (k * es) bs)"
proof -
  have "length (take (k * es) bs) = k * es" using assms(2) by simp
  from elems_append [OF assms(1) this, of "drop (k * es) bs"] show ?thesis by simp
qed

lemma take_elems:
  assumes "0 < es" "k * es \<le> length bs"
  shows "elems es (take (k * es) bs) = take k (elems es bs)"
proof -
  have "length (elems es (take (k * es) bs)) = k"
    using assms by (simp add: length_elems min_def)
  then show ?thesis using elems_split [OF assms] by simp
qed

lemma drop_elems:
  assumes "0 < es" "k * es \<le> length bs"
  shows "elems es (drop (k * es) bs) = drop k (elems es bs)"
proof -
  have "length (elems es (take (k * es) bs)) = k"
    using assms by (simp add: length_elems min_def)
  then show ?thesis using elems_split [OF assms] by simp
qed

lemma elems_slice:
  assumes "0 < es" "(k + n) * es \<le> length bs"
  shows "elems es (slice (k * es) (n * es) bs) = slice k n (elems es bs)"
proof -
  have "k * es \<le> length bs" and "n * es \<le> length (drop (k * es) bs)"
    using assms(2) by (simp_all add: add_mult_distrib)
  then show ?thesis using assms(1) by (simp add: slice_def take_elems drop_elems)
qed

lemma elems_blit:
  assumes es: "0 < es" and src: "length src = n * es" and fit: "(k + n) * es \<le> length bs"
  shows "elems es (blit (k * es) src bs) = blit k (elems es src) (elems es bs)"
proof -
  have k: "k * es \<le> length bs" using fit by (simp add: add_mult_distrib)
  have "elems es (blit (k * es) src bs)
      = elems es (take (k * es) bs) @ elems es (src @ drop ((k + n) * es) bs)"
    unfolding blit_def using es k src
    by (subst elems_append [of es _ k]) (auto simp: add_mult_distrib)
  also have "elems es (src @ drop ((k + n) * es) bs) = elems es src @ elems es (drop ((k + n) * es) bs)"
    using es src by (rule elems_append)
  finally show ?thesis
    using es k fit src by (simp add: blit_def take_elems drop_elems length_elems)
qed

lemma elems_blit1:
  assumes "0 < es" "length x = es" "(k + 1) * es \<le> length bs"
  shows "elems es (blit (k * es) x bs) = (elems es bs)[k := x]"
proof -
  have "k < length (elems es bs)"
    using assms by (simp add: length_elems less_eq_div_iff_mult_less_eq Suc_le_eq [symmetric])
  then show ?thesis
    using elems_blit [of es x 1 k bs] assms by (simp add: blit_one)
qed

lemma nth_elems:
  assumes "0 < es" "(k + 1) * es \<le> length bs"
  shows "elems es bs ! k = slice (k * es) es bs"
proof -
  have k: "k < length (elems es bs)"
    using assms by (simp add: length_elems less_eq_div_iff_mult_less_eq Suc_le_eq [symmetric])
  have "elems es (slice (k * es) es bs) = [slice (k * es) es bs]"
    using assms by (intro elems_single) (simp_all add: length_slice)
  moreover have "elems es (slice (k * es) es bs) = [elems es bs ! k]"
    using elems_slice [of es k 1 bs] assms k slice_one [OF k] by simp
  ultimately show ?thesis by simp
qed

lemma concat_elems: "0 < es \<Longrightarrow> length bs = n * es \<Longrightarrow> concat (elems es bs) = bs"
proof (induction n arbitrary: bs)
  case 0
  then show ?case by simp
next
  case (Suc n)
  then have "concat (elems es (drop es bs)) = drop es bs" by simp
  with Suc.prems show ?case by (subst elems.simps) simp
qed

lemma length_concat_elems: "\<forall>x\<in>set xs. length x = es \<Longrightarrow> length (concat xs) = length xs * es"
  by (induction xs) auto

lemma elems_concat: "0 < es \<Longrightarrow> \<forall>x\<in>set xs. length x = es \<Longrightarrow> elems es (concat xs) = xs"
  by (induction xs) (auto simp: elems_step)

lemma elems_inj:
  "0 < es \<Longrightarrow> length a = n * es \<Longrightarrow> length b = n * es \<Longrightarrow> elems es a = elems es b \<longleftrightarrow> a = b"
  using concat_elems by metis

lemma elems_replicate: "0 < es \<Longrightarrow> elems es (replicate (n * es) x) = replicate n (replicate es x)"
proof (induction n)
  case (Suc n)
  then show ?case
    by (simp add: replicate_add elems_step)
qed simp

section \<open>Pointer arithmetic and alignment (\<open>internal/ptr.h\<close>)\<close>

text \<open>
  An offset is relative to the start of the block a pointer points into; \<open>has_base\<close> says
  whether the base pointer is not null.
\<close>

definition tda_byte_offset :: "bool \<Rightarrow> nat \<Rightarrow> nat \<Rightarrow> nat option" where
  "tda_byte_offset has_base stride n = do {
     c_assert (has_base \<or> n = 0);
     c_assert (stride > 0);
     Some (size_mul stride n)
   }"

definition tda_ptr_distance :: "nat \<Rightarrow> nat \<Rightarrow> nat \<Rightarrow> nat option" where
  "tda_ptr_distance a b stride = do {
     c_assert (stride > 0);
     let diff = int a - int b;
     c_assert (diff \<ge> 0);
     c_assert (nat diff mod stride = 0);
     Some (nat diff div stride)
   }"

definition TDA_DEFAULT_ALIGNMENT :: nat where
  "TDA_DEFAULT_ALIGNMENT = 16"

definition is_pow2_c :: "nat \<Rightarrow> bool" where
  "is_pow2_c a = ((word_of_nat a :: 64 word) AND word_of_nat (a - 1) = 0)"

definition round_down_c :: "nat \<Rightarrow> nat \<Rightarrow> nat" where
  "round_down_c v a = unat ((word_of_nat v :: 64 word) AND NOT (word_of_nat (a - 1)))"

definition tda_align_up :: "nat \<Rightarrow> nat \<Rightarrow> nat option" where
  "tda_align_up val alignment = do {
     c_assert (alignment > 0);
     c_assert (is_pow2_c alignment);
     c_assert (val \<le> SIZE_MAX - (alignment - 1));
     Some (round_down_c (val + (alignment - 1)) alignment)
   }"

text \<open>The outer option is the assertions, the inner one is \<open>false\<close> with \<open>*out\<close> written.\<close>

definition tda_ckd_align_up :: "nat \<Rightarrow> nat \<Rightarrow> nat option option" where
  "tda_ckd_align_up val alignment = do {
     c_assert (alignment > 0);
     c_assert (is_pow2_c alignment);
     if val > SIZE_MAX - (alignment - 1) then Some None
     else do { r \<leftarrow> tda_align_up val alignment; Some (Some r) }
   }"

definition tda_align_down :: "nat \<Rightarrow> nat \<Rightarrow> nat option" where
  "tda_align_down val alignment = do {
     c_assert (alignment > 0);
     c_assert (is_pow2_c alignment);
     Some (round_down_c val alignment)
   }"

text \<open>Addresses are \<open>uintptr_t\<close>, 64 bits wide as \<open>size_t\<close> is.\<close>

definition tda_ptr_align_up :: "nat \<Rightarrow> nat \<Rightarrow> nat option" where
  "tda_ptr_align_up addr alignment = do {
     c_assert (alignment > 0);
     c_assert (is_pow2_c alignment);
     c_assert (addr \<le> SIZE_MAX - (alignment - 1));
     Some (round_down_c (addr + (alignment - 1)) alignment)
   }"

definition tda_ptr_is_aligned :: "nat \<Rightarrow> nat \<Rightarrow> bool option" where
  "tda_ptr_is_aligned addr alignment = do {
     c_assert (alignment > 0);
     c_assert (is_pow2_c alignment);
     Some ((word_of_nat addr :: 64 word) AND word_of_nat (alignment - 1) = 0)
   }"

text \<open>\<open>tda_bytes_swap\<close>: the loop exchanges one byte of the two runs per step.\<close>

definition bytes_swap_step :: "nat \<Rightarrow> 'a list \<times> 'a list \<Rightarrow> 'a list \<times> 'a list" where
  "bytes_swap_step i ab = (case ab of (a, b) \<Rightarrow> (a[i := b ! i], b[i := a ! i]))"

definition tda_bytes_swap :: "'a list \<Rightarrow> 'a list \<Rightarrow> nat \<Rightarrow> 'a list \<times> 'a list" where
  "tda_bytes_swap a b n = fold bytes_swap_step [0..<n] (a, b)"

lemma bytes_swap_prefix:
  "n \<le> length a \<Longrightarrow> n \<le> length b \<Longrightarrow>
    tda_bytes_swap a b n = (take n b @ drop n a, take n a @ drop n b)"
proof (induction n)
  case 0
  then show ?case by (simp add: tda_bytes_swap_def)
next
  case (Suc n)
  have upd: "(take n ys @ drop n xs)[n := ys ! n] = take (Suc n) ys @ drop (Suc n) xs"
    if "n < length xs" "n < length ys" for xs ys :: "'a list"
    using that by (simp add: list_update_append take_Suc_conv_app_nth Cons_nth_drop_Suc [symmetric])
  have "(take n b @ drop n a) ! n = a ! n" and "(take n a @ drop n b) ! n = b ! n"
    using Suc.prems by (simp_all add: nth_append)
  with Suc upd [of a b] upd [of b a] show ?case
    by (simp add: tda_bytes_swap_def bytes_swap_step_def)
qed

lemma bytes_swap_exchanges: "length a = n \<Longrightarrow> length b = n \<Longrightarrow> tda_bytes_swap a b n = (b, a)"
  by (simp add: bytes_swap_prefix)

subsection \<open>What the alignment arithmetic computes\<close>

lemma mask_word: "k < 64 \<Longrightarrow> (word_of_nat (2 ^ k - 1) :: 64 word) = mask k"
  by (simp add: mask_eq_exp_minus_1 of_nat_diff)

lemma unat_mask_clear:
  "k < 64 \<Longrightarrow> v \<le> SIZE_MAX \<Longrightarrow>
    unat ((word_of_nat v :: 64 word) AND NOT (mask k)) = (v div 2 ^ k) * 2 ^ k"
proof -
  assume k: "k < 64" and v: "v \<le> SIZE_MAX"
  let ?w = "word_of_nat v :: 64 word"
  have uv: "unat ?w = v" using v by (simp add: unat_of_nat SIZE_MAX_def)
  have "?w AND NOT (mask k) = push_bit k (drop_bit k ?w)"
    by (rule bit_word_eqI) (auto simp: bit_simps)
  also have "\<dots> = ?w - take_bit k ?w"
    using bits_ident [of k ?w] by (simp add: algebra_simps)
  finally have e: "?w AND NOT (mask k) = ?w - take_bit k ?w" .
  have t: "unat (take_bit k ?w) = v mod 2 ^ k"
    unfolding unsigned_take_bit_eq uv by (rule take_bit_eq_mod)
  have "take_bit k ?w \<le> ?w"
    using t uv by (simp add: word_le_nat_alt)
  then have "unat (?w - take_bit k ?w) = v - v mod 2 ^ k"
    by (simp add: unat_sub t uv)
  then show ?thesis by (simp add: e minus_mod_eq_div_mult)
qed

lemma round_down_c_pow2:
  "k < 64 \<Longrightarrow> v \<le> SIZE_MAX \<Longrightarrow> round_down_c v (2 ^ k) = (v div 2 ^ k) * 2 ^ k"
  unfolding round_down_c_def by (simp only: mask_word unat_mask_clear)

lemma is_pow2_c_pow2: "k < 64 \<Longrightarrow> is_pow2_c (2 ^ k)"
proof -
  assume k: "k < 64"
  have "(word_of_nat (2 ^ k) :: 64 word) AND mask k = take_bit k (2 ^ k)"
    by (simp add: take_bit_eq_mask)
  also have "\<dots> = 0" by (simp add: take_bit_eq_0_iff)
  finally show ?thesis unfolding is_pow2_c_def mask_word [OF k] .
qed

lemma tda_align_up_pow2:
  assumes "k < 64" "v \<le> SIZE_MAX - (2 ^ k - 1)"
  shows "tda_align_up v (2 ^ k) = Some ((v + (2 ^ k - 1)) div 2 ^ k * 2 ^ k)"
proof -
  have "(2::nat) ^ k \<le> 2 ^ 63" using assms(1) by (intro power_increasing) auto
  then have "v + (2 ^ k - 1) \<le> SIZE_MAX" using assms(2) by (simp add: SIZE_MAX_def)
  then show ?thesis
    using assms by (simp add: tda_align_up_def is_pow2_c_pow2 round_down_c_pow2 c_simps)
qed

lemma tda_ptr_is_aligned_pow2:
  assumes k: "k < 64" and v: "v \<le> SIZE_MAX"
  shows "tda_ptr_is_aligned v (2 ^ k) = Some (2 ^ k dvd v)"
proof -
  let ?w = "word_of_nat v :: 64 word"
  have uv: "unat ?w = v" using v by (simp add: unat_of_nat SIZE_MAX_def)
  have "unat (?w AND mask k) = v mod 2 ^ k"
    unfolding take_bit_eq_mask [symmetric] unsigned_take_bit_eq uv by (rule take_bit_eq_mod)
  then have "(?w AND mask k = 0) = (2 ^ k dvd v)"
    by (metis dvd_eq_mod_eq_0 unat_eq_zero)
  then show ?thesis
    unfolding tda_ptr_is_aligned_def mask_word [OF k] by (simp add: is_pow2_c_pow2 [OF k])
qed

subsection \<open>The alignment every allocator gives\<close>

definition al16 :: "nat \<Rightarrow> nat" where
  "al16 n = (n + 15) div 16 * 16"

lemma al16_ge: "n \<le> al16 n" and al16_dvd [simp]: "16 dvd al16 n" and al16_pos: "0 < n \<Longrightarrow> 0 < al16 n"
  by (simp_all add: al16_def)

lemma SIZE_MAX_num: "SIZE_MAX = 18446744073709551615"
  by (simp add: SIZE_MAX_def)

lemma align_up_16: "n \<le> SIZE_MAX - 15 \<Longrightarrow> tda_align_up n TDA_DEFAULT_ALIGNMENT = Some (al16 n)"
  using tda_align_up_pow2 [of 4 n] by (simp add: TDA_DEFAULT_ALIGNMENT_def al16_def)

lemma ckd_align_up_16:
  "tda_ckd_align_up n TDA_DEFAULT_ALIGNMENT = Some (if n > SIZE_MAX - 15 then None else Some (al16 n))"
proof -
  have "is_pow2_c 16" using is_pow2_c_pow2 [of 4] by simp
  then show ?thesis
    using align_up_16 [of n] by (simp add: tda_ckd_align_up_def TDA_DEFAULT_ALIGNMENT_def)
qed

end
