(* ===== verification/Tda_Alloc.thy ===== *)
theory Tda_Alloc
  imports Tda_Bytes
begin

text \<open>
  The memory, the allocator interface \<open>tda_Al\<close> (\<open>include/tda/alloc/alloc.h\<close>) and its
  wrappers (\<open>src/alloc/alloc.c\<close>), with the contract an allocator keeps as the locale
  \<open>allocator\<close>.

  Memory is a map from live blocks to their bytes. A pointer carries its provenance: a
  block the system hands out is \<open>Base a\<close>, one that an allocator living at \<open>c\<close> carved out
  of its own storage is \<open>In c a\<close>; both have the numeric address \<open>a\<close>. A block is in the
  heap from the call that lends it to the call that gives it back. The control structures
  the allocators keep in memory of their own (\<open>ArenaCtx\<close>, \<open>PoolCtx\<close> and its free-list
  links, \<open>AlignedCtx\<close> and the base pointers it stores in front of its blocks, \<open>LogCtx\<close>)
  are typed stores beside the heap. The field \<open>sys\<close> is the private state of the C library.
\<close>

section \<open>Memory\<close>

datatype ptr = Base nat | In ptr nat

fun addr_of :: "ptr \<Rightarrow> nat" where
  "addr_of (Base a) = a"
| "addr_of (In c a) = a"

record ArenaCtx =
  arena_data :: ptr
  arena_cap :: nat
  arena_offset :: nat

record PoolCtx =
  pool_data :: ptr
  pool_free_head :: "ptr option"
  pool_block_size :: nat
  pool_block_count :: nat
  pool_used :: nat

record 's world =
  heap :: "ptr \<Rightarrow> byte list option"
  arenas :: "ptr \<Rightarrow> ArenaCtx option"
  pools :: "ptr \<Rightarrow> PoolCtx option"
  pool_nodes :: "ptr \<Rightarrow> ptr option option"
  aligneds :: "ptr \<Rightarrow> nat option"
  aligned_bases :: "ptr \<Rightarrow> ptr option"
  logs :: "ptr \<Rightarrow> string list option"
  sys :: 's

definition block_at :: "'s world \<Rightarrow> ptr \<Rightarrow> nat \<Rightarrow> bool" where
  "block_at w p n = (\<exists>bs. heap w p = Some bs \<and> length bs = n)"

definition mem_read :: "'s world \<Rightarrow> ptr \<Rightarrow> nat \<Rightarrow> nat \<Rightarrow> byte list option" where
  "mem_read w p off n = (case heap w p of
      None \<Rightarrow> None
    | Some bs \<Rightarrow> if off + n \<le> length bs then Some (slice off n bs) else None)"

definition mem_write :: "'s world \<Rightarrow> ptr \<Rightarrow> nat \<Rightarrow> byte list \<Rightarrow> 's world option" where
  "mem_write w p off src = (case heap w p of
      None \<Rightarrow> None
    | Some bs \<Rightarrow> if off + length src \<le> length bs
        then Some (w\<lparr>heap := (heap w)(p \<mapsto> blit off src bs)\<rparr>) else None)"

text \<open>\<open>memset\<close>, and \<open>memmove\<close> inside one block (\<open>memcpy\<close> when the runs do not overlap).\<close>

definition mem_set :: "'s world \<Rightarrow> ptr \<Rightarrow> nat \<Rightarrow> byte \<Rightarrow> nat \<Rightarrow> 's world option" where
  "mem_set w p off c n = mem_write w p off (replicate n c)"

definition mem_move :: "'s world \<Rightarrow> ptr \<Rightarrow> nat \<Rightarrow> nat \<Rightarrow> nat \<Rightarrow> 's world option" where
  "mem_move w p dst src n = do { bs \<leftarrow> mem_read w p src n; mem_write w p dst bs }"

lemma mem_read_ok [c_simps]:
  "heap w p = Some bs \<Longrightarrow> off + n \<le> length bs \<Longrightarrow> mem_read w p off n = Some (slice off n bs)"
  by (simp add: mem_read_def)

lemma mem_write_ok [c_simps]:
  "heap w p = Some bs \<Longrightarrow> off + length src \<le> length bs \<Longrightarrow>
    mem_write w p off src = Some (w\<lparr>heap := (heap w)(p \<mapsto> blit off src bs)\<rparr>)"
  by (simp add: mem_write_def)

lemma mem_set_ok [c_simps]:
  "heap w p = Some bs \<Longrightarrow> off + n \<le> length bs \<Longrightarrow>
    mem_set w p off c n = Some (w\<lparr>heap := (heap w)(p \<mapsto> blit off (replicate n c) bs)\<rparr>)"
  by (simp add: mem_set_def mem_write_ok)

lemma mem_move_ok [c_simps]:
  "heap w p = Some bs \<Longrightarrow> src + n \<le> length bs \<Longrightarrow> dst + n \<le> length bs \<Longrightarrow>
    mem_move w p dst src n = Some (w\<lparr>heap := (heap w)(p \<mapsto> blit dst (slice src n bs) bs)\<rparr>)"
  by (simp add: mem_move_def mem_read_ok mem_write_ok length_slice)

section \<open>The interface\<close>

text \<open>
  A callback that fails one of its own assertions has no result (\<open>None\<close>). \<open>al_self\<close> is
  the address of the \<open>tda_Al\<close> object, which is what \<open>self->al == other->al\<close> compares, and
  \<open>al_ctx\<close> its \<open>ctx\<close>; the callbacks below are those of the object, already given it.
\<close>

record 's al =
  al_self :: ptr
  al_ctx :: "ptr option"
  al_alloc :: "'s world \<Rightarrow> nat \<Rightarrow> (ptr option \<times> 's world) option"
  al_calloc :: "('s world \<Rightarrow> nat \<Rightarrow> nat \<Rightarrow> (ptr option \<times> 's world) option) option"
  al_realloc :: "('s world \<Rightarrow> ptr option \<Rightarrow> nat \<Rightarrow> nat \<Rightarrow> (ptr option \<times> 's world) option) option"
  al_dealloc :: "'s world \<Rightarrow> ptr \<Rightarrow> nat \<Rightarrow> 's world option"

definition sizeof_tda_Al :: nat where
  "sizeof_tda_Al = 40"

section \<open>The wrappers\<close>

definition tda_alloc :: "'s al \<Rightarrow> 's world \<Rightarrow> nat \<Rightarrow> (ptr option \<times> 's world) option" where
  "tda_alloc al w sz = (if sz = 0 then Some (None, w) else al_alloc al w sz)"

definition tda_calloc :: "'s al \<Rightarrow> 's world \<Rightarrow> nat \<Rightarrow> nat \<Rightarrow> (ptr option \<times> 's world) option" where
  "tda_calloc al w num sz =
     (if num = 0 \<or> sz = 0 then Some (None, w)
      else case ckd_mul num sz of
        None \<Rightarrow> Some (None, w)
      | Some bytes \<Rightarrow>
          (case al_calloc al of
             None \<Rightarrow> do {
               (r, w1) \<leftarrow> tda_alloc al w bytes;
               (case r of
                  None \<Rightarrow> Some (None, w1)
                | Some p \<Rightarrow> do { w2 \<leftarrow> mem_set w1 p 0 0 bytes; Some (Some p, w2) })
             }
           | Some f \<Rightarrow> f w num sz))"

definition tda_dealloc :: "'s al \<Rightarrow> 's world \<Rightarrow> ptr option \<Rightarrow> nat \<Rightarrow> 's world option" where
  "tda_dealloc al w ptr sz = (case ptr of None \<Rightarrow> Some w | Some p \<Rightarrow> al_dealloc al w p sz)"

definition tda_realloc ::
  "'s al \<Rightarrow> 's world \<Rightarrow> ptr option \<Rightarrow> nat \<Rightarrow> nat \<Rightarrow> (ptr option \<times> 's world) option" where
  "tda_realloc al w ptr old_size new_size = do {
     c_assert (ptr \<noteq> None \<or> old_size = 0);
     if new_size = 0 then do { w1 \<leftarrow> tda_dealloc al w ptr old_size; Some (None, w1) }
     else case al_realloc al of
       None \<Rightarrow> do {
         (r, w1) \<leftarrow> tda_alloc al w new_size;
         (case r of
            None \<Rightarrow> Some (None, w1)
          | Some q \<Rightarrow>
              (case ptr of
                 None \<Rightarrow> Some (Some q, w1)
               | Some p \<Rightarrow> do {
                   let copy_size = (if old_size < new_size then old_size else new_size);
                   bs \<leftarrow> mem_read w1 p 0 copy_size;
                   w2 \<leftarrow> mem_write w1 q 0 bs;
                   w3 \<leftarrow> tda_dealloc al w2 ptr old_size;
                   Some (Some q, w3)
                 }))
       }
     | Some f \<Rightarrow> f w ptr old_size new_size
   }"

section \<open>The contract\<close>

text \<open>What a request for \<open>n > 0\<close> bytes may do: nothing, or lend one fresh block.\<close>

definition alloc_post :: "(ptr \<Rightarrow> bool) \<Rightarrow> 's world \<Rightarrow> nat \<Rightarrow> ptr option \<Rightarrow> 's world \<Rightarrow> bool" where
  "alloc_post owned w n r w' = (case r of
      None \<Rightarrow> heap w' = heap w
    | Some p \<Rightarrow> owned p \<and> heap w p = None \<and>
        (\<exists>bs. length bs = n \<and> heap w' = (heap w)(p \<mapsto> bs)))"

definition calloc_post :: "(ptr \<Rightarrow> bool) \<Rightarrow> 's world \<Rightarrow> nat \<Rightarrow> ptr option \<Rightarrow> 's world \<Rightarrow> bool" where
  "calloc_post owned w n r w' = (case r of
      None \<Rightarrow> heap w' = heap w
    | Some p \<Rightarrow> owned p \<and> heap w p = None \<and> heap w' = (heap w)(p \<mapsto> replicate n 0))"

text \<open>A resize keeps the common prefix and leaves the old block alone when it fails.\<close>

definition realloc_post ::
  "(ptr \<Rightarrow> bool) \<Rightarrow> 's world \<Rightarrow> ptr \<Rightarrow> byte list \<Rightarrow> nat \<Rightarrow> ptr option \<Rightarrow> 's world \<Rightarrow> bool" where
  "realloc_post owned w p old n r w' = (case r of
      None \<Rightarrow> heap w' = heap w
    | Some q \<Rightarrow> owned q \<and> (q = p \<or> heap w q = None) \<and>
        (\<exists>bs. length bs = n \<and> take (min (length old) n) bs = take (min (length old) n) old
           \<and> heap w' = (heap w)(p := None, q \<mapsto> bs)))"

locale allocator =
  fixes al :: "'s al"
    and inv :: "'s world \<Rightarrow> bool"
    and owned :: "ptr \<Rightarrow> bool"
  assumes alloc_law:
    "inv w \<Longrightarrow> 0 < n \<Longrightarrow> n \<le> SIZE_MAX \<Longrightarrow>
      \<exists>r w'. al_alloc al w n = Some (r, w') \<and> inv w' \<and> alloc_post owned w n r w'"
  and calloc_law:
    "al_calloc al = Some f \<Longrightarrow> inv w \<Longrightarrow> 0 < num \<Longrightarrow> 0 < sz \<Longrightarrow> num * sz \<le> SIZE_MAX \<Longrightarrow>
      \<exists>r w'. f w num sz = Some (r, w') \<and> inv w' \<and> calloc_post owned w (num * sz) r w'"
  and realloc_law:
    "al_realloc al = Some g \<Longrightarrow> inv w \<Longrightarrow> owned p \<Longrightarrow> heap w p = Some old \<Longrightarrow> 0 < n \<Longrightarrow> n \<le> SIZE_MAX \<Longrightarrow>
      \<exists>r w'. g w (Some p) (length old) n = Some (r, w') \<and> inv w' \<and> realloc_post owned w p old n r w'"
  and realloc_null_law:
    "al_realloc al = Some g \<Longrightarrow> inv w \<Longrightarrow> 0 < n \<Longrightarrow> n \<le> SIZE_MAX \<Longrightarrow>
      \<exists>r w'. g w None 0 n = Some (r, w') \<and> inv w' \<and> alloc_post owned w n r w'"
  and dealloc_law:
    "inv w \<Longrightarrow> owned p \<Longrightarrow> heap w p = Some bs \<Longrightarrow>
      \<exists>w'. al_dealloc al w p (length bs) = Some w' \<and> inv w' \<and> heap w' = (heap w)(p := None)"
  and write_law:
    "inv w \<Longrightarrow> heap w p = Some bs \<Longrightarrow> length bs' = length bs \<Longrightarrow>
      inv (w\<lparr>heap := (heap w)(p \<mapsto> bs')\<rparr>)"
begin

lemma alloc_cases:
  assumes "inv w" "n \<le> SIZE_MAX"
  obtains (null) w' where "tda_alloc al w n = Some (None, w')" "inv w'" "heap w' = heap w"
  | (ok) p w' bs where "tda_alloc al w n = Some (Some p, w')" "inv w'" "0 < n" "owned p"
      "heap w p = None" "length bs = n" "heap w' = (heap w)(p \<mapsto> bs)"
proof (cases "n = 0")
  case True
  then show ?thesis using assms null by (simp add: tda_alloc_def)
next
  case False
  with alloc_law [OF assms(1) _ assms(2)] obtain r w' where
    r: "tda_alloc al w n = Some (r, w')" "inv w'" "alloc_post owned w n r w'"
    by (auto simp: tda_alloc_def)
  then show ?thesis
    using False null ok by (cases r) (auto simp: alloc_post_def)
qed

lemma dealloc_some:
  assumes "inv w" "owned p" "heap w p = Some bs" "length bs = n"
  obtains w' where "tda_dealloc al w (Some p) n = Some w'" "inv w'" "heap w' = (heap w)(p := None)"
  using dealloc_law [OF assms(1-3)] assms(4) by (auto simp: tda_dealloc_def)

lemma dealloc_null: "tda_dealloc al w None n = Some w"
  by (simp add: tda_dealloc_def)

lemma calloc_cases:
  assumes "inv w"
  obtains (null) w' where "tda_calloc al w num sz = Some (None, w')" "inv w'" "heap w' = heap w"
  | (ok) p w' where "tda_calloc al w num sz = Some (Some p, w')" "inv w'" "0 < num" "0 < sz"
      "num * sz \<le> SIZE_MAX" "owned p" "heap w p = None"
      "heap w' = (heap w)(p \<mapsto> replicate (num * sz) 0)"
proof (cases "num = 0 \<or> sz = 0 \<or> SIZE_MAX < num * sz")
  case True
  then have "tda_calloc al w num sz = Some (None, w)"
    by (auto simp: tda_calloc_def ckd_mul_def)
  then show ?thesis using assms null by blast
next
  case False
  then have pos: "0 < num" "0 < sz" "num * sz \<le> SIZE_MAX" by auto
  show ?thesis
  proof (cases "al_calloc al")
    case None
    then have unf: "tda_calloc al w num sz =
        Option.bind (tda_alloc al w (num * sz)) (\<lambda>(r, w1). case r of None \<Rightarrow> Some (None, w1)
          | Some p \<Rightarrow> Option.bind (mem_set w1 p 0 0 (num * sz)) (\<lambda>w2. Some (Some p, w2)))"
      using pos by (simp add: tda_calloc_def ckd_mul_def)
    show ?thesis
    proof (rule alloc_cases [OF assms pos(3)])
      fix w' assume "tda_alloc al w (num * sz) = Some (None, w')" "inv w'" "heap w' = heap w"
      then show ?thesis using unf null by simp
    next
      fix p w' bs
      assume a: "tda_alloc al w (num * sz) = Some (Some p, w')" "inv w'" "owned p"
        "heap w p = None" "length bs = num * sz" "heap w' = (heap w)(p \<mapsto> bs)"
      let ?w2 = "w'\<lparr>heap := (heap w')(p \<mapsto> replicate (num * sz) 0)\<rparr>"
      have "inv ?w2" using a by (intro write_law) auto
      moreover have "tda_calloc al w num sz = Some (Some p, ?w2)"
        using a unf by (simp add: mem_set_ok blit_whole)
      ultimately show ?thesis using ok [of p ?w2] a pos by simp
    qed
  next
    case (Some f)
    from calloc_law [OF this assms pos] obtain r w' where
      "f w num sz = Some (r, w')" "inv w'" "calloc_post owned w (num * sz) r w'" by blast
    then show ?thesis
      using Some pos null ok by (cases r) (auto simp: tda_calloc_def ckd_mul_def calloc_post_def)
  qed
qed

lemma realloc_null_cases:
  assumes "inv w" "0 < n" "n \<le> SIZE_MAX"
  obtains (null) w' where "tda_realloc al w None 0 n = Some (None, w')" "inv w'" "heap w' = heap w"
  | (ok) p w' bs where "tda_realloc al w None 0 n = Some (Some p, w')" "inv w'" "owned p"
      "heap w p = None" "length bs = n" "heap w' = (heap w)(p \<mapsto> bs)"
proof (cases "al_realloc al")
  case None
  show ?thesis
    by (rule alloc_cases [OF assms(1,3)])
      (use None assms(2) null ok in \<open>auto simp: tda_realloc_def\<close>)
next
  case (Some g)
  from realloc_null_law [OF this assms] obtain r w' where
    "g w None 0 n = Some (r, w')" "inv w'" "alloc_post owned w n r w'" by blast
  then show ?thesis
    using Some assms(2) null ok by (cases r) (auto simp: tda_realloc_def alloc_post_def)
qed

lemma realloc_fallback:
  assumes none: "al_realloc al = None" and w: "inv w" "owned p" "heap w p = Some old"
    and n: "0 < n" "n \<le> SIZE_MAX"
  shows "\<exists>r w'. tda_realloc al w (Some p) (length old) n = Some (r, w') \<and> inv w'
    \<and> realloc_post owned w p old n r w'"
proof -
  define k where "k = (if length old < n then length old else n)"
  show ?thesis
  proof (rule alloc_cases [OF w(1) n(2)])
    fix w' assume "tda_alloc al w n = Some (None, w')" "inv w'" "heap w' = heap w"
    then show ?thesis using none n by (simp add: tda_realloc_def realloc_post_def)
  next
    fix q w1 bs
    assume a: "tda_alloc al w n = Some (Some q, w1)" "inv w1" "owned q" "heap w q = None"
      "length bs = n" "heap w1 = (heap w)(q \<mapsto> bs)"
    have pq: "p \<noteq> q" using a(4) w(3) by auto
    have k: "k \<le> length old" "k \<le> n" by (auto simp: k_def)
    let ?new = "blit 0 (slice 0 k old) bs"
    let ?w2 = "w1\<lparr>heap := (heap w1)(q \<mapsto> ?new)\<rparr>"
    have len: "length ?new = n" using a(5) k by (simp add: slice_simps)
    have rd: "mem_read w1 p 0 k = Some (slice 0 k old)"
      using a pq w(3) k by (simp add: mem_read_ok)
    have wr: "mem_write w1 q 0 (slice 0 k old) = Some ?w2"
      using a k by (simp add: mem_write_ok length_slice)
    have "inv ?w2" using a len by (intro write_law) auto
    then obtain w3 where w3: "tda_dealloc al ?w2 (Some p) (length old) = Some w3" "inv w3"
      "heap w3 = (heap ?w2)(p := None)"
      using dealloc_some [of ?w2 p old "length old"] a pq w by auto
    have "heap w3 = (heap w)(p := None, q \<mapsto> ?new)"
      using w3(3) a(6) pq by (simp add: fun_upd_twist)
    moreover have "take (min (length old) n) ?new = take (min (length old) n) old"
      using k by (auto simp: blit_def slice_def k_def min_def)
    moreover have "tda_realloc al w (Some p) (length old) n = Some (Some q, w3)"
      using none n a(1) rd wr w3(1) by (simp add: tda_realloc_def Let_def k_def [symmetric])
    ultimately show ?thesis
      using a pq w3(2) len by (auto simp: realloc_post_def)
  qed
qed

lemma realloc_some_cases:
  assumes "inv w" "owned p" "heap w p = Some old" "length old = m" "0 < n" "n \<le> SIZE_MAX"
  obtains (null) w' where "tda_realloc al w (Some p) m n = Some (None, w')" "inv w'" "heap w' = heap w"
  | (ok) q w' bs where "tda_realloc al w (Some p) m n = Some (Some q, w')" "inv w'" "owned q"
      "q = p \<or> heap w q = None" "length bs = n"
      "take (min m n) bs = take (min m n) old" "heap w' = (heap w)(p := None, q \<mapsto> bs)"
proof -
  have "\<exists>r w'. tda_realloc al w (Some p) m n = Some (r, w') \<and> inv w' \<and> realloc_post owned w p old n r w'"
  proof (cases "al_realloc al")
    case None
    from realloc_fallback [OF this assms(1-3,5,6)] assms(4) show ?thesis by simp
  next
    case (Some g)
    from realloc_law [OF this assms(1-3,5,6)] assms(4,5) Some show ?thesis
      by (auto simp: tda_realloc_def)
  qed
  then obtain r w' where
    "tda_realloc al w (Some p) m n = Some (r, w')" "inv w'" "realloc_post owned w p old n r w'"
    by blast
  then show ?thesis using null ok assms(4) by (cases r) (auto simp: realloc_post_def)
qed

lemma realloc_to_zero:
  assumes "inv w" "owned p" "heap w p = Some old" "length old = m"
  obtains w' where "tda_realloc al w (Some p) m 0 = Some (None, w')" "inv w'"
    "heap w' = (heap w)(p := None)"
proof -
  from dealloc_some [OF assms] obtain w' where
    "tda_dealloc al w (Some p) m = Some w'" "inv w'" "heap w' = (heap w)(p := None)" .
  then show ?thesis using that by (simp add: tda_realloc_def)
qed

end


section \<open>Clients\<close>

text \<open>
  One step of a program that uses an allocator as its header says: a request, a resize or
  a release of a block it was lent, with the size it has, or a write inside a live block.
\<close>

inductive client_step :: "'s al \<Rightarrow> (ptr \<Rightarrow> bool) \<Rightarrow> 's world \<Rightarrow> 's world \<Rightarrow> bool"
  for al :: "'s al" and owned :: "ptr \<Rightarrow> bool" where
  step_alloc: "n \<le> SIZE_MAX \<Longrightarrow> tda_alloc al w n = Some (r, w') \<Longrightarrow> client_step al owned w w'"
| step_calloc: "tda_calloc al w m n = Some (r, w') \<Longrightarrow> client_step al owned w w'"
| step_realloc: "owned p \<Longrightarrow> heap w p = Some old \<Longrightarrow> n \<le> SIZE_MAX \<Longrightarrow>
    tda_realloc al w (Some p) (length old) n = Some (r, w') \<Longrightarrow> client_step al owned w w'"
| step_dealloc: "owned p \<Longrightarrow> heap w p = Some old \<Longrightarrow>
    tda_dealloc al w (Some p) (length old) = Some w' \<Longrightarrow> client_step al owned w w'"
| step_write: "mem_write w p off bs = Some w' \<Longrightarrow> client_step al owned w w'"

abbreviation client_run :: "'s al \<Rightarrow> (ptr \<Rightarrow> bool) \<Rightarrow> 's world \<Rightarrow> 's world \<Rightarrow> bool" where
  "client_run al owned \<equiv> (client_step al owned)\<^sup>*\<^sup>*"

context allocator
begin

lemma realloc_inv:
  assumes w: "inv w" "owned p" "heap w p = Some old" and n: "n \<le> SIZE_MAX"
    and r: "tda_realloc al w (Some p) (length old) n = Some (r, w')"
  shows "inv w'"
proof (cases "n = 0")
  case True
  then show ?thesis using realloc_to_zero [OF w refl] r by auto
next
  case False
  then show ?thesis using realloc_some_cases [OF w refl _ n, of thesis for thesis] r
    by (cases r) fastforce+
qed

lemma client_step_inv: "client_step al owned w w' \<Longrightarrow> inv w \<Longrightarrow> inv w'"
proof (induction rule: client_step.induct)
  case (step_alloc n w r w')
  then show ?case using alloc_cases [of w n] by fastforce
next
  case (step_calloc w m n r w')
  then show ?case using calloc_cases [of w m n] by fastforce
next
  case (step_realloc p w old n r w')
  then show ?case using realloc_inv by blast
next
  case (step_dealloc p w old w')
  then show ?case using dealloc_some [of w p old "length old"] by fastforce
next
  case (step_write w p off bs w')
  then obtain cs where c: "heap w p = Some cs" "off + length bs \<le> length cs"
    "w' = w\<lparr>heap := (heap w)(p \<mapsto> blit off bs cs)\<rparr>"
    by (auto simp: mem_write_def split: option.splits if_splits)
  then show ?case using write_law [OF step_write(2) c(1)] by (simp add: length_blit)
qed

lemma client_run_inv: "client_run al owned w w' \<Longrightarrow> inv w \<Longrightarrow> inv w'"
  by (induction rule: rtranclp_induct) (auto intro: client_step_inv)

end

text \<open>
  For an allocator that has neither \<open>calloc\<close> nor \<open>realloc\<close> the wrappers build them from the other two:
  a property that requests, releases and writes keep is kept by every step.
\<close>

lemma client_step_plain:
  assumes plain: "al_calloc al = None" "al_realloc al = None"
    and A: "\<And>w n r w'. J w \<Longrightarrow> 0 < n \<Longrightarrow> al_alloc al w n = Some (r, w') \<Longrightarrow>
      J w' \<and> (\<forall>p. owned p \<longrightarrow> heap w p \<noteq> None \<longrightarrow> heap w' p = heap w p)"
    and D: "\<And>w p old w'. J w \<Longrightarrow> owned p \<Longrightarrow> heap w p = Some old \<Longrightarrow> al_dealloc al w p (length old) = Some w' \<Longrightarrow> J w'"
    and W: "\<And>w p off bs w'. J w \<Longrightarrow> mem_write w p off bs = Some w' \<Longrightarrow> J w'"
  shows "client_step al owned w w' \<Longrightarrow> J w \<Longrightarrow> J w'"
proof (induction rule: client_step.induct)
  case (step_alloc n w r w')
  then show ?case using A [of w n r w'] by (cases "n = 0") (auto simp: tda_alloc_def)
next
  case (step_calloc w m n r w')
  show ?case
  proof (cases "m = 0 \<or> n = 0 \<or> SIZE_MAX < m * n")
    case True
    then show ?thesis using step_calloc by (auto simp: tda_calloc_def ckd_mul_def split: if_splits)
  next
    case False
    then obtain q w1 where q: "al_alloc al w (m * n) = Some (q, w1)"
      and r: "(case q of None \<Rightarrow> Some (None, w1) | Some p \<Rightarrow> Option.bind (mem_set w1 p 0 0 (m * n)) (\<lambda>w2. Some (Some p, w2))) = Some (r, w')"
      using step_calloc(1) plain by (auto simp: tda_calloc_def tda_alloc_def ckd_mul_def bind_eq_Some_conv)
    have "J w1" using A [OF step_calloc(2) _ q] False by simp
    then show ?thesis using r W by (cases q) (auto simp: mem_set_def bind_eq_Some_conv)
  qed
next
  case (step_realloc p w old n r w')
  show ?case
  proof (cases "n = 0")
    case True
    then show ?thesis using step_realloc D by (auto simp: tda_realloc_def tda_dealloc_def bind_eq_Some_conv)
  next
    case False
    then obtain q w1 where q: "al_alloc al w n = Some (q, w1)"
      using step_realloc(4) plain by (auto simp: tda_realloc_def tda_alloc_def bind_eq_Some_conv)
    have w1: "J w1" "heap w1 p = Some old" using A [OF step_realloc(5) _ q] False step_realloc(1,2) by simp_all
    show ?thesis
    proof (cases q)
      case None
      then show ?thesis using step_realloc(4) plain q False w1 by (simp add: tda_realloc_def tda_alloc_def)
    next
      case (Some x)
      then obtain src w2 where m: "mem_write w1 x 0 src = Some w2" "al_dealloc al w2 p (length old) = Some w'"
        using step_realloc(4) plain q False by (auto simp: tda_realloc_def tda_alloc_def tda_dealloc_def Let_def bind_eq_Some_conv)
      then obtain old' where "heap w2 p = Some old'" "length old' = length old"
        using w1(2) by (cases "p = x") (auto simp: mem_write_def length_blit split: option.splits if_splits)
      then show ?thesis using D [OF W [OF w1(1) m(1)] step_realloc(1)] m(2) by simp
    qed
  qed
next
  case (step_dealloc p w old w')
  then show ?case using D by (simp add: tda_dealloc_def)
next
  case (step_write w p off bs w')
  then show ?case using W by blast
qed

section \<open>Allocators that sit on another allocator\<close>

text \<open>
  \<open>retire\<close> takes blocks out of the heap; a pointer is \<open>lent_by c\<close> when the allocator at \<open>c\<close>
  handed it out, and \<open>under c\<close> when it lies, at any depth, in storage \<open>c\<close> handed out.
\<close>

definition retire :: "(ptr \<Rightarrow> bool) \<Rightarrow> 's world \<Rightarrow> 's world" where
  "retire gone w = w\<lparr>heap := (\<lambda>p. if gone p then None else heap w p)\<rparr>"

fun lent_by :: "ptr \<Rightarrow> ptr \<Rightarrow> bool" where
  "lent_by c (In c' a) = (c' = c)"
| "lent_by c (Base a) = False"

lemma lent_by_iff: "lent_by c p \<longleftrightarrow> (\<exists>a. p = In c a)"
  by (cases p) auto

fun under :: "ptr \<Rightarrow> ptr \<Rightarrow> bool" where
  "under c (In c' a) = (c' = c \<or> under c c')"
| "under c (Base a) = False"

lemma lent_by_under: "lent_by c p \<Longrightarrow> under c p"
  by (cases p) auto

lemma under_size: "under c p \<Longrightarrow> size c < size p"
  by (induction p) auto

lemma under_In_False [simp]: "\<not> under (In c a) c" "\<not> under c c"
  using under_size [of "In c a" c] under_size [of c c] by auto

lemma heap_retire [simp]: "heap (retire gone w) p = (if gone p then None else heap w p)"
  by (simp add: retire_def)

text \<open>
  Two worlds that differ in nothing but the context at \<open>c\<close> and the blocks it lends.
\<close>

definition same_outside :: "ptr \<Rightarrow> 's world \<Rightarrow> 's world \<Rightarrow> bool" where
  "same_outside c w w' \<longleftrightarrow>
     (\<forall>p. \<not> lent_by c p \<longrightarrow> heap w' p = heap w p \<and> pool_nodes w' p = pool_nodes w p
        \<and> aligned_bases w' p = aligned_bases w p) \<and>
     (\<forall>p. p \<noteq> c \<longrightarrow> arenas w' p = arenas w p \<and> pools w' p = pools w p
        \<and> aligneds w' p = aligneds w p \<and> logs w' p = logs w p) \<and>
     sys w' = sys w"

text \<open>The context at \<open>c\<close> and what it keeps in the blocks it lends are the same in both worlds.\<close>

definition same_child :: "ptr \<Rightarrow> 's world \<Rightarrow> 's world \<Rightarrow> bool" where
  "same_child c w w' \<longleftrightarrow> arenas w' c = arenas w c \<and> pools w' c = pools w c \<and> aligneds w' c = aligneds w c
     \<and> logs w' c = logs w c
     \<and> (\<forall>p. lent_by c p \<longrightarrow> pool_nodes w' p = pool_nodes w p \<and> aligned_bases w' p = aligned_bases w p)"

text \<open>
  What a parent allocator gives on top of the allocator's contract: blocks aligned for any
  type and inside the address space, none of them inside storage a block of its own lends,
  and no interest in the context a child keeps in one of its blocks, which its own calls leave alone.
\<close>

locale host = allocator +
  assumes host_aligned: "inv w \<Longrightarrow> owned p \<Longrightarrow> heap w p = Some bs \<Longrightarrow>
      16 dvd addr_of p \<and> addr_of p + length bs \<le> SIZE_MAX"
    and host_apart: "owned p \<Longrightarrow> owned c \<Longrightarrow> \<not> under c p"
    and host_context: "inv w \<Longrightarrow> owned c \<Longrightarrow> same_outside c w w' \<Longrightarrow> inv w'"
    and host_alloc_child: "inv w \<Longrightarrow> owned c \<Longrightarrow> heap w c \<noteq> None \<Longrightarrow> 0 < n \<Longrightarrow> n \<le> SIZE_MAX \<Longrightarrow>
      al_alloc al w n = Some (r, w') \<Longrightarrow> same_child c w w'"
    and host_calloc_child: "al_calloc al = Some f \<Longrightarrow> inv w \<Longrightarrow> owned c \<Longrightarrow> heap w c \<noteq> None \<Longrightarrow>
      0 < m \<Longrightarrow> 0 < n \<Longrightarrow> m * n \<le> SIZE_MAX \<Longrightarrow> f w m n = Some (r, w') \<Longrightarrow> same_child c w w'"
    and host_realloc_null_child: "al_realloc al = Some g \<Longrightarrow> inv w \<Longrightarrow> owned c \<Longrightarrow> heap w c \<noteq> None \<Longrightarrow>
      0 < n \<Longrightarrow> n \<le> SIZE_MAX \<Longrightarrow> g w None 0 n = Some (r, w') \<Longrightarrow> same_child c w w'"
    and host_realloc_child: "al_realloc al = Some g \<Longrightarrow> inv w \<Longrightarrow> owned c \<Longrightarrow> heap w c \<noteq> None \<Longrightarrow>
      owned p \<Longrightarrow> heap w p = Some old \<Longrightarrow> p \<noteq> c \<Longrightarrow> 0 < n \<Longrightarrow> n \<le> SIZE_MAX \<Longrightarrow>
      g w (Some p) (length old) n = Some (r, w') \<Longrightarrow> same_child c w w'"
    and host_dealloc_child: "inv w \<Longrightarrow> owned c \<Longrightarrow> heap w c \<noteq> None \<Longrightarrow> owned p \<Longrightarrow> p \<noteq> c \<Longrightarrow>
      al_dealloc al w p n = Some w' \<Longrightarrow> same_child c w w'"

lemma same_child_refl [simp]: "same_child c w w"
  by (simp add: same_child_def)

lemma same_child_trans: "same_child c w1 w2 \<Longrightarrow> same_child c w2 w3 \<Longrightarrow> same_child c w1 w3"
  by (simp add: same_child_def)

lemma same_child_write: "mem_write w p off bs = Some w' \<Longrightarrow> same_child c w w'"
  by (auto simp: mem_write_def same_child_def split: option.splits if_splits)

text \<open>The wrappers leave a child alone as the callbacks do.\<close>

context host
begin

lemma tda_alloc_child:
  assumes "inv w" "owned c" "heap w c \<noteq> None" "n \<le> SIZE_MAX" "tda_alloc al w n = Some (r, w')"
  shows "same_child c w w'"
  using assms host_alloc_child [of w c n r w'] by (cases "n = 0") (auto simp: tda_alloc_def)

lemma tda_dealloc_child:
  assumes "inv w" "owned c" "heap w c \<noteq> None" "owned p" "p \<noteq> c" "tda_dealloc al w (Some p) n = Some w'"
  shows "same_child c w w'"
  using assms host_dealloc_child [of w c p n w'] by (simp add: tda_dealloc_def)

lemma tda_calloc_child:
  assumes c: "inv w" "owned c" "heap w c \<noteq> None" and r: "tda_calloc al w m n = Some (r, w')"
  shows "same_child c w w'"
proof (cases "m = 0 \<or> n = 0 \<or> SIZE_MAX < m * n")
  case True
  then show ?thesis using r by (auto simp: tda_calloc_def ckd_mul_def split: if_splits)
next
  case False
  then have pos: "0 < m" "0 < n" "m * n \<le> SIZE_MAX" by auto
  show ?thesis
  proof (cases "al_calloc al")
    case (Some f)
    then show ?thesis
      using pos r host_calloc_child [OF Some c pos] by (simp add: tda_calloc_def ckd_mul_def)
  next
    case None
    obtain q w1 where a: "tda_alloc al w (m * n) = Some (q, w1)"
      using r None pos by (auto simp: tda_calloc_def ckd_mul_def bind_eq_Some_conv)
    have s: "same_child c w w1" by (rule tda_alloc_child [OF c pos(3) a])
    show ?thesis
    proof (cases q)
      case None': None
      then show ?thesis using r None pos a s by (simp add: tda_calloc_def ckd_mul_def)
    next
      case (Some p)
      then have "mem_write w1 p 0 (replicate (m * n) 0) = Some w'"
        using r None pos a by (auto simp: tda_calloc_def ckd_mul_def mem_set_def bind_eq_Some_conv)
      then show ?thesis by (rule same_child_trans [OF s same_child_write])
    qed
  qed
qed

lemma tda_realloc_null_child:
  assumes c: "inv w" "owned c" "heap w c \<noteq> None" and n: "0 < n" "n \<le> SIZE_MAX"
    and r: "tda_realloc al w None 0 n = Some (r, w')"
  shows "same_child c w w'"
proof (cases "al_realloc al")
  case (Some g)
  then show ?thesis using r n host_realloc_null_child [OF Some c n] by (simp add: tda_realloc_def)
next
  case None
  then obtain q w1 where a: "tda_alloc al w n = Some (q, w1)"
    using r n by (auto simp: tda_realloc_def bind_eq_Some_conv)
  then have "w' = w1" using r None n by (auto simp: tda_realloc_def split: option.splits)
  then show ?thesis using tda_alloc_child [OF c n(2) a] by simp
qed

lemma tda_realloc_child:
  assumes c: "inv w" "owned c" "heap w c \<noteq> None" and p: "owned p" "heap w p = Some old" "p \<noteq> c"
    and n: "0 < n" "n \<le> SIZE_MAX" and r: "tda_realloc al w (Some p) (length old) n = Some (r, w')"
  shows "same_child c w w'"
proof (cases "al_realloc al")
  case (Some g)
  then show ?thesis using r n host_realloc_child [OF Some c p n] by (simp add: tda_realloc_def)
next
  case None
  show ?thesis
  proof (rule alloc_cases [OF c(1) n(2)], goal_cases)
    case (1 w1)
    then show ?case using r None n tda_alloc_child [OF c n(2) 1(1)] by (simp add: tda_realloc_def)
  next
    case (2 q w1 bs)
    have s: "same_child c w w1" by (rule tda_alloc_child [OF c n(2) 2(1)])
    obtain k src w2 where m: "mem_read w1 p 0 k = Some src" "mem_write w1 q 0 src = Some w2"
      "tda_dealloc al w2 (Some p) (length old) = Some w'"
      using r None n 2(1) by (auto simp: tda_realloc_def Let_def bind_eq_Some_conv)
    have w2: "w2 = w1\<lparr>heap := (heap w1)(q \<mapsto> blit 0 src bs)\<rparr>" "length src \<le> length bs"
      using m(2) 2(7) by (auto simp: mem_write_def split: if_splits)
    have "inv w2" unfolding w2(1) using 2 w2(2) by (intro write_law) (auto simp: length_blit)
    moreover have "heap w2 c \<noteq> None" using w2(1) 2(7) c(3) by simp
    ultimately have "same_child c w2 w'" using tda_dealloc_child [OF _ c(2) _ p(1,3) m(3)] by simp
    then show ?case by (rule same_child_trans [OF same_child_trans [OF s same_child_write [OF m(2)]]])
  qed
qed

end

text \<open>A parent whose live blocks share no byte.\<close>

locale disjoint_host = host +
  assumes host_disjoint: "inv w \<Longrightarrow> owned p \<Longrightarrow> owned q \<Longrightarrow> p \<noteq> q \<Longrightarrow> heap w p = Some bs \<Longrightarrow> heap w q = Some cs \<Longrightarrow>
      addr_of p + length bs \<le> addr_of q \<or> addr_of q + length cs \<le> addr_of p"

text \<open>Nothing is lent by a context that does not exist.\<close>

definition no_orphans :: "(ptr \<Rightarrow> bool) \<Rightarrow> 's world \<Rightarrow> bool" where
  "no_orphans owned w \<longleftrightarrow> (\<forall>c p. owned c \<longrightarrow> heap w c = None \<longrightarrow> lent_by c p \<longrightarrow> heap w p = None)"

section \<open>No object is too large for a pointer difference\<close>

text \<open>
  C offers no object of more than \<open>PTRDIFF_MAX\<close> bytes, and the allocators of its libraries
  refuse to make one. A ring buffer relies on it: the sum of two of its indices must not wrap.
\<close>

definition PTRDIFF_MAX :: nat where
  "PTRDIFF_MAX = 2 ^ 63 - 1"

lemma PTRDIFF_MAX_num: "PTRDIFF_MAX = 9223372036854775807"
  by (simp add: PTRDIFF_MAX_def)

lemma PTRDIFF_MAX_le: "n \<le> PTRDIFF_MAX \<Longrightarrow> n \<le> SIZE_MAX"
  by (simp add: PTRDIFF_MAX_num SIZE_MAX_def)

locale object_allocator = allocator +
  assumes object_size: "inv w \<Longrightarrow> owned p \<Longrightarrow> heap w p = Some bs \<Longrightarrow> length bs \<le> PTRDIFF_MAX"

end
