(* ===== verification/Tda_Arena.thy ===== *)
theory Tda_Arena
  imports Tda_Alloc
begin

text \<open>
  The arena allocator (\<open>src/alloc/arena.c\<close>). An \<open>ArenaCtx\<close> at address \<open>c\<close> owns one block
  of its parent; the blocks it lends are the pointers \<open>In c a\<close> with \<open>a\<close> inside that block.
  A fresh block holds what the arena's bytes held before, the parameter \<open>junk\<close> of the
  model (by offset). \<open>arena_dealloc\<close> does nothing to the arena: what leaves the heap is
  the right of the caller to use the block, and the same goes for the block a moving
  \<open>arena_realloc\<close> leaves behind and for every block after a reset.
  The parent is a parameter of the constructor and the destructor, the two places where
  \<open>parent_al\<close> is used.
\<close>

section \<open>Operations\<close>

record tda_AlArenaStats =
  arena_stats_cap :: nat
  arena_stats_used :: nat
  arena_stats_available :: nat

definition sizeof_ArenaCtx :: nat where
  "sizeof_ArenaCtx = 32"

definition junk_bytes :: "(nat \<Rightarrow> byte) \<Rightarrow> nat \<Rightarrow> nat \<Rightarrow> byte list" where
  "junk_bytes junk off n = map (\<lambda>i. junk (off + i)) [0..<n]"

definition arena_alloc ::
  "(nat \<Rightarrow> byte) \<Rightarrow> ptr \<Rightarrow> 's world \<Rightarrow> nat \<Rightarrow> (ptr option \<times> 's world) option" where
  "arena_alloc junk c w sz = do {
     ctx \<leftarrow> arenas w c;
     if sz = 0 then Some (None, w)
     else do {
       asz \<leftarrow> tda_ckd_align_up sz TDA_DEFAULT_ALIGNMENT;
       (case Option.bind asz (ckd_add (arena_offset ctx)) of
          None \<Rightarrow> Some (None, w)
        | Some fin \<Rightarrow>
            if fin > arena_cap ctx then Some (None, w)
            else do {
              off \<leftarrow> tda_byte_offset True 1 (arena_offset ctx);
              let p = In c (addr_of (arena_data ctx) + off);
              let aligned_size = the asz;
              Some (Some p, w\<lparr>
                heap := (heap w)(p \<mapsto> junk_bytes junk off sz),
                arenas := (arenas w)(c \<mapsto> ctx\<lparr>arena_offset := arena_offset ctx + aligned_size\<rparr>)\<rparr>)
            })
     }
   }"

text \<open>The subtraction of \<open>tda_byte_diff\<close> converted to \<open>size_t\<close>.\<close>

definition byte_diff_size :: "nat \<Rightarrow> nat \<Rightarrow> nat" where
  "byte_diff_size a b = nat ((int a - int b) mod (int SIZE_MAX + 1))"

definition is_last_block :: "ArenaCtx \<Rightarrow> ptr \<Rightarrow> nat \<Rightarrow> bool option" where
  "is_last_block ctx p sz = do {
     let start = byte_diff_size (addr_of p) (addr_of (arena_data ctx));
     asz \<leftarrow> tda_align_up sz TDA_DEFAULT_ALIGNMENT;
     Some (size_add start asz = arena_offset ctx)
   }"

definition arena_realloc ::
  "(nat \<Rightarrow> byte) \<Rightarrow> ptr \<Rightarrow> 's world \<Rightarrow> ptr option \<Rightarrow> nat \<Rightarrow> nat \<Rightarrow> (ptr option \<times> 's world) option" where
  "arena_realloc junk c w ptr old_size new_size = do {
     ctx \<leftarrow> arenas w c;
     c_assert (new_size > 0);
     (case ptr of
        None \<Rightarrow> arena_alloc junk c w new_size
      | Some p \<Rightarrow> do {
          last \<leftarrow> is_last_block ctx p old_size;
          if last then do {
            aold \<leftarrow> tda_align_up old_size TDA_DEFAULT_ALIGNMENT;
            let start = arena_offset ctx - aold;
            asz \<leftarrow> tda_ckd_align_up new_size TDA_DEFAULT_ALIGNMENT;
            (case Option.bind asz (ckd_add start) of
               None \<Rightarrow> Some (None, w)
             | Some fin \<Rightarrow>
                 if fin > arena_cap ctx then Some (None, w)
                 else do {
                   old \<leftarrow> heap w p;
                   Some (Some p, w\<lparr>
                     heap := (heap w)(p \<mapsto> take new_size old
                       @ junk_bytes junk (start + length old) (new_size - length old)),
                     arenas := (arenas w)(c \<mapsto> ctx\<lparr>arena_offset := fin\<rparr>)\<rparr>)
                 })
          }
          else do {
            (r, w1) \<leftarrow> arena_alloc junk c w new_size;
            (case r of
               None \<Rightarrow> Some (None, w1)
             | Some q \<Rightarrow> do {
                 bs \<leftarrow> mem_read w1 p 0 (if old_size < new_size then old_size else new_size);
                 w2 \<leftarrow> mem_write w1 q 0 bs;
                 Some (Some q, retire (\<lambda>x. x = p) w2)
               })
          }
        })
   }"

definition arena_dealloc :: "ptr \<Rightarrow> 's world \<Rightarrow> ptr \<Rightarrow> nat \<Rightarrow> 's world option" where
  "arena_dealloc c w p sz = Some (retire (\<lambda>x. x = p) w)"

text \<open>The \<open>tda_Al\<close> object at \<open>self\<close> over the context at \<open>c\<close>.\<close>

definition arena_al :: "(nat \<Rightarrow> byte) \<Rightarrow> ptr \<Rightarrow> ptr \<Rightarrow> 's al" where
  "arena_al junk self c = \<lparr>
     al_self = self,
     al_ctx = Some c,
     al_alloc = arena_alloc junk c,
     al_calloc = None,
     al_realloc = Some (arena_realloc junk c),
     al_dealloc = arena_dealloc c\<rparr>"

definition tda_al_arena_new ::
  "(nat \<Rightarrow> byte) \<Rightarrow> 's al \<Rightarrow> nat \<Rightarrow> 's world \<Rightarrow> ('s al option \<times> 's world) option" where
  "tda_al_arena_new junk parent cap w = do {
     c_assert (cap > 0);
     (rd, w1) \<leftarrow> tda_alloc parent w cap;
     (case rd of
        None \<Rightarrow> Some (None, w1)
      | Some d \<Rightarrow> do {
          (rc, w2) \<leftarrow> tda_alloc parent w1 sizeof_ArenaCtx;
          (case rc of
             None \<Rightarrow> do { w3 \<leftarrow> tda_dealloc parent w2 (Some d) cap; Some (None, w3) }
           | Some c \<Rightarrow> do {
               (ro, w3) \<leftarrow> tda_alloc parent w2 sizeof_tda_Al;
               (case ro of
                  None \<Rightarrow> do {
                    w4 \<leftarrow> tda_dealloc parent w3 (Some c) sizeof_ArenaCtx;
                    w5 \<leftarrow> tda_dealloc parent w4 (Some d) cap;
                    Some (None, w5)
                  }
                | Some obj \<Rightarrow> do {
                    aligned \<leftarrow> tda_ptr_is_aligned (addr_of d) TDA_DEFAULT_ALIGNMENT;
                    c_assert aligned;
                    let ctx = \<lparr>arena_data = d, arena_cap = cap, arena_offset = 0\<rparr>;
                    Some (Some (arena_al junk obj c), w3\<lparr>arenas := (arenas w3)(c \<mapsto> ctx)\<rparr>)
                  })
             })
        })
   }"

definition tda_al_arena_drop :: "'s al \<Rightarrow> 's al option \<Rightarrow> 's world \<Rightarrow> 's world option" where
  "tda_al_arena_drop parent self w = (case self of
      None \<Rightarrow> Some w
    | Some al \<Rightarrow> do {
        c \<leftarrow> al_ctx al;
        ctx \<leftarrow> arenas w c;
        let w0 = retire (lent_by c) w;
        w1 \<leftarrow> tda_dealloc parent w0 (Some (arena_data ctx)) (arena_cap ctx);
        w2 \<leftarrow> tda_dealloc parent (w1\<lparr>arenas := (arenas w1)(c := None)\<rparr>) (Some c) sizeof_ArenaCtx;
        tda_dealloc parent w2 (Some (al_self al)) sizeof_tda_Al
      })"

definition tda_al_arena_reset :: "'s al \<Rightarrow> 's world \<Rightarrow> 's world option" where
  "tda_al_arena_reset self w = do {
     c \<leftarrow> al_ctx self;
     ctx \<leftarrow> arenas w c;
     let w1 = retire (lent_by c) w;
     Some (w1\<lparr>arenas := (arenas w1)(c \<mapsto> ctx\<lparr>arena_offset := 0\<rparr>)\<rparr>)
   }"

definition tda_al_arena_stats :: "'s al \<Rightarrow> 's world \<Rightarrow> tda_AlArenaStats option" where
  "tda_al_arena_stats self w = do {
     c \<leftarrow> al_ctx self;
     ctx \<leftarrow> arenas w c;
     Some \<lparr>arena_stats_cap = arena_cap ctx, arena_stats_used = arena_offset ctx,
       arena_stats_available = arena_cap ctx - arena_offset ctx\<rparr>
   }"

section \<open>The invariant\<close>

text \<open>
  The blocks an arena has lent and not taken back lie in its first \<open>offset\<close> bytes, each
  starting at a multiple of 16, and the padded blocks do not overlap.
\<close>

definition arena_blocks :: "ptr \<Rightarrow> nat \<Rightarrow> nat \<Rightarrow> (ptr \<Rightarrow> byte list option) \<Rightarrow> bool" where
  "arena_blocks c d offset h \<longleftrightarrow>
     (\<forall>a bs. h (In c a) = Some bs \<longrightarrow>
        d \<le> a \<and> 16 dvd a - d \<and> bs \<noteq> [] \<and> a + al16 (length bs) \<le> d + offset) \<and>
     (\<forall>a a' bs bs'. h (In c a) = Some bs \<longrightarrow> h (In c a') = Some bs' \<longrightarrow> a < a' \<longrightarrow>
        a + al16 (length bs) \<le> a')"

definition arena_inv :: "ptr \<Rightarrow> 's world \<Rightarrow> bool" where
  "arena_inv c w = (case arenas w c of
      None \<Rightarrow> False
    | Some ctx \<Rightarrow>
        arena_offset ctx \<le> arena_cap ctx \<and> 16 dvd arena_offset ctx
        \<and> 16 dvd addr_of (arena_data ctx) \<and> addr_of (arena_data ctx) + arena_cap ctx \<le> SIZE_MAX
        \<and> arena_blocks c (addr_of (arena_data ctx)) (arena_offset ctx) (heap w)
        \<and> block_at w (arena_data ctx) (arena_cap ctx) \<and> \<not> under c (arena_data ctx))"

lemma arena_blocks_in:
  "arena_blocks c d offset h \<Longrightarrow> h (In c a) = Some bs \<Longrightarrow>
     d \<le> a \<and> 16 dvd a - d \<and> bs \<noteq> [] \<and> a + al16 (length bs) \<le> d + offset"
  by (simp add: arena_blocks_def)

lemma arena_blocks_apart:
  "arena_blocks c d offset h \<Longrightarrow> h (In c a) = Some bs \<Longrightarrow> h (In c a') = Some bs' \<Longrightarrow> a < a' \<Longrightarrow>
     a + al16 (length bs) \<le> a'"
  unfolding arena_blocks_def by blast

lemma arena_blocks_fresh:
  assumes "arena_blocks c d offset h"
  shows "h (In c (d + offset)) = None"
proof (rule ccontr)
  assume "\<not> ?thesis"
  then obtain bs where bs: "h (In c (d + offset)) = Some bs" by auto
  then show False
    using arena_blocks_in [OF assms bs] al16_pos [of "length bs"] by auto
qed

lemma arena_blocks_mono:
  assumes "arena_blocks c d offset h" "offset \<le> offset'"
    "\<And>a bs. h' (In c a) = Some bs \<Longrightarrow> \<exists>bs0. h (In c a) = Some bs0 \<and> length bs0 = length bs"
  shows "arena_blocks c d offset' h'"
proof -
  have "d \<le> a \<and> 16 dvd a - d \<and> bs \<noteq> [] \<and> a + al16 (length bs) \<le> d + offset'"
    if bs: "h' (In c a) = Some bs" for a bs
  proof -
    obtain bs0 where bs0: "h (In c a) = Some bs0" "length bs0 = length bs" using assms(3) [OF bs] by blast
    then show ?thesis using arena_blocks_in [OF assms(1) bs0(1)] assms(2) by auto
  qed
  moreover have "a + al16 (length bs) \<le> a'"
    if bs: "h' (In c a) = Some bs" "h' (In c a') = Some bs'" "a < a'" for a a' bs bs'
  proof -
    obtain b1 b2 where "h (In c a) = Some b1" "length b1 = length bs" "h (In c a') = Some b2"
      using assms(3) [OF bs(1)] assms(3) [OF bs(2)] by blast
    then show ?thesis using arena_blocks_apart [OF assms(1), of a b1 a' b2] that(3) by simp
  qed
  ultimately show ?thesis by (simp add: arena_blocks_def)
qed

text \<open>Putting a block of \<open>n\<close> bytes at the top, in place of whatever stood at that start.\<close>

lemma arena_blocks_top:
  assumes inv: "arena_blocks c d offset h" and n: "0 < length bs" and st: "16 dvd start" "start \<le> offset"
    and top: "\<And>a b. h (In c a) = Some b \<Longrightarrow> a \<noteq> d + start \<Longrightarrow> a + al16 (length b) \<le> d + start"
  shows "arena_blocks c d (start + al16 (length bs)) (h(In c (d + start) \<mapsto> bs))"
proof -
  let ?h = "h(In c (d + start) \<mapsto> bs)"
  have "d \<le> a \<and> 16 dvd a - d \<and> b \<noteq> [] \<and> a + al16 (length b) \<le> d + (start + al16 (length bs))"
    if "?h (In c a) = Some b" for a b
    using that arena_blocks_in [OF inv, of a b] top [of a b] n st
    by (cases "a = d + start") auto
  moreover have "a + al16 (length b) \<le> a'"
    if "?h (In c a) = Some b" "?h (In c a') = Some b'" "a < a'" for a a' b b'
    using that arena_blocks_apart [OF inv, of a b a' b'] top [of a b] top [of a' b'] al16_pos [of "length b'"]
      arena_blocks_in [OF inv, of a' b']
    by (cases "a = d + start"; cases "a' = d + start") auto
  ultimately show ?thesis by (simp add: arena_blocks_def)
qed


section \<open>What the callbacks do\<close>

lemma arena_offset_add:
  "o1 \<le> SIZE_MAX \<Longrightarrow> 0 < n \<Longrightarrow>
     Option.bind (if n > SIZE_MAX - 15 then None else Some (al16 n)) (ckd_add o1)
       = (if o1 + al16 n \<le> SIZE_MAX \<and> n \<le> SIZE_MAX - 15 then Some (o1 + al16 n) else None)"
  by (simp add: ckd_add_def)

text \<open>A request succeeds exactly when the padded block fits in what is left.\<close>

lemma arena_alloc_exact:
  assumes ctx: "arenas w c = Some ctx" "arena_inv c w" and n: "0 < n" "n \<le> SIZE_MAX"
  defines "p \<equiv> In c (addr_of (arena_data ctx) + arena_offset ctx)"
  shows "arena_alloc junk c w n = Some (if arena_offset ctx + al16 n \<le> arena_cap ctx
    then (Some p, w\<lparr>heap := (heap w)(p \<mapsto> junk_bytes junk (arena_offset ctx) n),
            arenas := (arenas w)(c \<mapsto> ctx\<lparr>arena_offset := arena_offset ctx + al16 n\<rparr>)\<rparr>)
    else (None, w))"
proof -
  have b: "arena_offset ctx \<le> arena_cap ctx" "addr_of (arena_data ctx) + arena_cap ctx \<le> SIZE_MAX"
    using ctx by (simp_all add: arena_inv_def)
  have off: "tda_byte_offset True 1 (arena_offset ctx) = Some (arena_offset ctx)"
    using b by (simp add: tda_byte_offset_def c_simps)
  have big: "arena_cap ctx < arena_offset ctx + al16 n" if "n > SIZE_MAX - 15"
  proof -
    have "SIZE_MAX - 15 < n" and "SIZE_MAX + 1 \<le> (n + 15) div 16 * 16"
      using that unfolding SIZE_MAX_num by presburger+
    then show ?thesis using b by (simp add: al16_def)
  qed
  show ?thesis
  proof (cases "arena_offset ctx + al16 n \<le> arena_cap ctx")
    case True
    then have "n \<le> SIZE_MAX - 15" "arena_offset ctx + al16 n \<le> SIZE_MAX" using big b by fastforce+
    then show ?thesis
      using True n off by (simp add: arena_alloc_def ctx(1) ckd_align_up_16 ckd_add_def p_def Let_def)
  next
    case False
    then show ?thesis
      using n by (auto simp: arena_alloc_def ctx(1) ckd_align_up_16 ckd_add_def)
  qed
qed

lemma length_junk_bytes [simp]: "length (junk_bytes junk off n) = n"
  by (simp add: junk_bytes_def)

lemma arena_alloc_law:
  assumes w: "arena_inv c w" and n: "0 < n" "n \<le> SIZE_MAX"
  shows "\<exists>r w'. arena_alloc junk c w n = Some (r, w') \<and> arena_inv c w' \<and> alloc_post (lent_by c) w n r w'"
proof -
  obtain ctx where ctx: "arenas w c = Some ctx" using w by (auto simp: arena_inv_def split: option.splits)
  note ex = arena_alloc_exact [OF ctx w n, of junk]
  let ?d = "addr_of (arena_data ctx)"
  have b: "arena_blocks c ?d (arena_offset ctx) (heap w)" "16 dvd arena_offset ctx"
    "\<not> under c (arena_data ctx)" "block_at w (arena_data ctx) (arena_cap ctx)"
    using w ctx by (simp_all add: arena_inv_def)
  show ?thesis
  proof (cases "arena_offset ctx + al16 n \<le> arena_cap ctx")
    case True
    let ?p = "In c (?d + arena_offset ctx)" and ?bs = "junk_bytes junk (arena_offset ctx) n"
    let ?w = "w\<lparr>heap := (heap w)(?p \<mapsto> ?bs),
      arenas := (arenas w)(c \<mapsto> ctx\<lparr>arena_offset := arena_offset ctx + al16 n\<rparr>)\<rparr>"
    have "arena_blocks c ?d (arena_offset ctx + al16 n) ((heap w)(?p \<mapsto> ?bs))"
      using arena_blocks_top [OF b(1), of ?bs "arena_offset ctx"] arena_blocks_in [OF b(1)] n b(2) by simp
    moreover have "arena_data ctx \<noteq> ?p" using b(3) by (metis under.simps(1))
    ultimately have "arena_inv c ?w"
      using w ctx True b(2,4) by (simp add: arena_inv_def block_at_def)
    then show ?thesis
      using ex True arena_blocks_fresh [OF b(1)] by (auto simp: alloc_post_def intro: exI [of _ ?bs])
  qed (use ex w in \<open>simp add: alloc_post_def\<close>)
qed

lemma is_last_block_eq:
  assumes "arenas w c = Some ctx" "arena_inv c w" "heap w (In c a) = Some bs"
  shows "is_last_block ctx (In c a) (length bs) = Some (a + al16 (length bs) = addr_of (arena_data ctx) + arena_offset ctx)"
    and "tda_align_up (length bs) TDA_DEFAULT_ALIGNMENT = Some (al16 (length bs))"
proof -
  let ?d = "addr_of (arena_data ctx)"
  have b: "?d \<le> a" "a + al16 (length bs) \<le> ?d + arena_offset ctx"
    "arena_offset ctx \<le> arena_cap ctx" "?d + arena_cap ctx \<le> SIZE_MAX" "16 dvd arena_cap ctx \<or> True"
    using arena_blocks_in [of c ?d "arena_offset ctx" "heap w" a bs] assms by (simp_all add: arena_inv_def)
  have "al16 (length bs) \<le> SIZE_MAX" using b by linarith
  then have "length bs \<le> SIZE_MAX - 15" unfolding al16_def SIZE_MAX_num by presburger
  then show au: "tda_align_up (length bs) TDA_DEFAULT_ALIGNMENT = Some (al16 (length bs))"
    by (rule align_up_16)
  have "byte_diff_size a ?d = a - ?d"
    using b by (simp add: byte_diff_size_def of_nat_diff [symmetric] del: of_nat_diff)
  then show "is_last_block ctx (In c a) (length bs) = Some (a + al16 (length bs) = ?d + arena_offset ctx)"
    using au b by (auto simp: is_last_block_def size_add_exact)
qed


text \<open>The last block grows or shrinks in place; the bytes it keeps stay where they are.\<close>

lemma arena_realloc_last:
  fixes junk :: "nat \<Rightarrow> byte"
  assumes ctx: "arenas w c = Some ctx" "arena_inv c w" and blk: "heap w (In c a) = Some old"
    and n: "0 < n" "n \<le> SIZE_MAX" and top: "a + al16 (length old) = addr_of (arena_data ctx) + arena_offset ctx"
  defines "start \<equiv> a - addr_of (arena_data ctx)"
    and "new \<equiv> take n old @ junk_bytes junk (a - addr_of (arena_data ctx) + length old) (n - length old)"
  shows "arena_realloc junk c w (Some (In c a)) (length old) n = Some (if start + al16 n \<le> arena_cap ctx
    then (Some (In c a), w\<lparr>heap := (heap w)(In c a \<mapsto> new),
            arenas := (arenas w)(c \<mapsto> ctx\<lparr>arena_offset := start + al16 n\<rparr>)\<rparr>)
    else (None, w))"
proof -
  let ?d = "addr_of (arena_data ctx)"
  have b: "?d \<le> a" "arena_offset ctx \<le> arena_cap ctx" "?d + arena_cap ctx \<le> SIZE_MAX"
    using arena_blocks_in [of c ?d "arena_offset ctx" "heap w" a old] assms(1-3) by (simp_all add: arena_inv_def)
  have st: "arena_offset ctx - al16 (length old) = start" using top b by (simp add: start_def)
  have big: "arena_cap ctx < start + al16 n" if "n > SIZE_MAX - 15"
  proof -
    have "SIZE_MAX + 1 \<le> (n + 15) div 16 * 16"
      using that unfolding SIZE_MAX_num by presburger
    then show ?thesis using b by (simp add: al16_def)
  qed
  note l = is_last_block_eq [OF ctx blk]
  show ?thesis
  proof (cases "start + al16 n \<le> arena_cap ctx")
    case True
    then have "n \<le> SIZE_MAX - 15" "start + al16 n \<le> SIZE_MAX" using big b by fastforce+
    then show ?thesis
      using True n st top blk l
      by (simp add: arena_realloc_def ctx(1) ckd_align_up_16 ckd_add_def new_def start_def [symmetric])
  next
    case False
    then show ?thesis
      using n st top l by (auto simp: arena_realloc_def ctx(1) ckd_align_up_16 ckd_add_def)
  qed
qed

lemma arena_inv_ctx:
  assumes "arena_inv c w"
  obtains ctx where "arenas w c = Some ctx" "arena_offset ctx \<le> arena_cap ctx" "16 dvd arena_offset ctx"
    "16 dvd addr_of (arena_data ctx)" "addr_of (arena_data ctx) + arena_cap ctx \<le> SIZE_MAX"
    "arena_blocks c (addr_of (arena_data ctx)) (arena_offset ctx) (heap w)"
    "block_at w (arena_data ctx) (arena_cap ctx)" "\<not> under c (arena_data ctx)"
  using assms by (auto simp: arena_inv_def split: option.splits)

lemma arena_realloc_last_law:
  assumes w: "arena_inv c w" "arenas w c = Some ctx" and blk: "heap w (In c a) = Some old"
    and n: "0 < n" "n \<le> SIZE_MAX" and top: "a + al16 (length old) = addr_of (arena_data ctx) + arena_offset ctx"
  shows "\<exists>r w'. arena_realloc junk c w (Some (In c a)) (length old) n = Some (r, w') \<and> arena_inv c w'
    \<and> realloc_post (lent_by c) w (In c a) old n r w'"
proof -
  let ?d = "addr_of (arena_data ctx)"
  define start where "start = a - ?d"
  define new where "new = take n old @ junk_bytes junk (a - ?d + length old) (n - length old)"
  note ex = arena_realloc_last [OF w(2,1) blk n top, of junk, folded start_def new_def]
  have b: "arena_blocks c ?d (arena_offset ctx) (heap w)" "arena_offset ctx \<le> arena_cap ctx"
    "\<not> under c (arena_data ctx)" "block_at w (arena_data ctx) (arena_cap ctx)"
    using w by (simp_all add: arena_inv_def)
  have a: "a = ?d + start" "16 dvd start" "start \<le> arena_offset ctx"
    using arena_blocks_in [OF b(1) blk] top by (auto simp: start_def)
  have new: "length new = n" "take (min (length old) n) new = take (min (length old) n) old"
    by (auto simp: new_def min_def)
  have below: "a' + al16 (length bs) \<le> ?d + start" if h: "heap w (In c a') = Some bs" "a' \<noteq> ?d + start" for a' bs
  proof (cases "a' < a")
    case True
    then show ?thesis using arena_blocks_apart [OF b(1) h(1) blk] a(1) by simp
  next
    case False
    then have "a + al16 (length old) \<le> a'"
      using arena_blocks_apart [OF b(1) blk h(1)] h(2) a(1) by simp
    then show ?thesis
      using top arena_blocks_in [OF b(1) h(1)] al16_pos [of "length bs"] by auto
  qed
  show ?thesis
  proof (cases "start + al16 n \<le> arena_cap ctx")
    case True
    let ?w = "w\<lparr>heap := (heap w)(In c a \<mapsto> new), arenas := (arenas w)(c \<mapsto> ctx\<lparr>arena_offset := start + al16 n\<rparr>)\<rparr>"
    have "arena_blocks c ?d (start + al16 n) ((heap w)(In c a \<mapsto> new))"
      using arena_blocks_top [OF b(1) _ a(2,3) below, of new] new(1) n(1) a(1) by simp
    moreover have "arena_data ctx \<noteq> In c a" using b(3) by (metis under.simps(1))
    ultimately have "arena_inv c ?w"
      using w True a(2) b(4) by (simp add: arena_inv_def block_at_def)
    then show ?thesis
      using ex True new by (auto simp: realloc_post_def intro: exI [of _ new])
  qed (use ex w in \<open>simp add: realloc_post_def\<close>)
qed

lemma arena_inv_write:
  assumes "arena_inv c w" "heap w p = Some bs" "length bs' = length bs"
  shows "arena_inv c (w\<lparr>heap := (heap w)(p \<mapsto> bs')\<rparr>)"
proof -
  obtain ctx where c: "arenas w c = Some ctx" "arena_offset ctx \<le> arena_cap ctx" "16 dvd arena_offset ctx"
    "16 dvd addr_of (arena_data ctx)" "addr_of (arena_data ctx) + arena_cap ctx \<le> SIZE_MAX"
    "arena_blocks c (addr_of (arena_data ctx)) (arena_offset ctx) (heap w)"
    "block_at w (arena_data ctx) (arena_cap ctx)" "\<not> under c (arena_data ctx)"
    using arena_inv_ctx [OF assms(1)] .
  have "arena_blocks c (addr_of (arena_data ctx)) (arena_offset ctx) ((heap w)(p \<mapsto> bs'))"
    by (rule arena_blocks_mono [OF c(6) order_refl]) (use assms in \<open>auto split: if_splits\<close>)
  then show ?thesis using c assms(2,3) by (auto simp: arena_inv_def block_at_def)
qed

lemma arena_inv_retire:
  assumes "arena_inv c w" "\<And>p. gone p \<Longrightarrow> lent_by c p"
  shows "arena_inv c (retire gone w)"
proof -
  obtain ctx where c: "arenas w c = Some ctx" "arena_offset ctx \<le> arena_cap ctx" "16 dvd arena_offset ctx"
    "16 dvd addr_of (arena_data ctx)" "addr_of (arena_data ctx) + arena_cap ctx \<le> SIZE_MAX"
    "arena_blocks c (addr_of (arena_data ctx)) (arena_offset ctx) (heap w)"
    "block_at w (arena_data ctx) (arena_cap ctx)" "\<not> under c (arena_data ctx)"
    using arena_inv_ctx [OF assms(1)] .
  have "arena_blocks c (addr_of (arena_data ctx)) (arena_offset ctx) (\<lambda>p. if gone p then None else heap w p)"
    by (rule arena_blocks_mono [OF c(6) order_refl]) (auto split: if_splits)
  then show ?thesis using c assms(2) lent_by_under by (auto simp: arena_inv_def block_at_def retire_def)
qed

lemma arena_realloc_law:
  assumes w: "arena_inv c w" and p: "lent_by c p" "heap w p = Some old" and n: "0 < n" "n \<le> SIZE_MAX"
  shows "\<exists>r w'. arena_realloc junk c w (Some p) (length old) n = Some (r, w') \<and> arena_inv c w'
    \<and> realloc_post (lent_by c) w p old n r w'"
proof -
  obtain a where a: "p = In c a" using p(1) by (auto simp: lent_by_iff)
  obtain ctx where ctx: "arenas w c = Some ctx" using arena_inv_ctx [OF w] by metis
  note blk = p(2) [unfolded a]
  note l = is_last_block_eq [OF ctx w blk]
  show ?thesis
  proof (cases "a + al16 (length old) = addr_of (arena_data ctx) + arena_offset ctx")
    case True
    then show ?thesis using arena_realloc_last_law [OF w ctx blk n] a by simp
  next
    case False
    define k where "k = (if length old < n then length old else n)"
    obtain r w1 where r: "arena_alloc junk c w n = Some (r, w1)" "arena_inv c w1" "alloc_post (lent_by c) w n r w1"
      using arena_alloc_law [OF w n] by blast
    show ?thesis
    proof (cases r)
      case None
      then show ?thesis
        using False l n r by (simp add: a arena_realloc_def ctx alloc_post_def realloc_post_def)
    next
      case (Some q)
      then obtain bs where q: "lent_by c q" "heap w q = None" "length bs = n" "heap w1 = (heap w)(q \<mapsto> bs)"
        using r(3) by (auto simp: alloc_post_def)
      have pq: "p \<noteq> q" using q(2) p(2) by auto
      let ?new = "blit 0 (slice 0 k old) bs"
      let ?w2 = "w1\<lparr>heap := (heap w1)(q \<mapsto> ?new)\<rparr>"
      have k: "k \<le> length old" "k \<le> n" by (auto simp: k_def)
      have rd: "mem_read w1 p 0 k = Some (slice 0 k old)" using q(4) pq p(2) k by (simp add: mem_read_ok)
      have wr: "mem_write w1 q 0 (slice 0 k old) = Some ?w2"
        using q k by (simp add: mem_write_ok length_slice)
      have new: "length ?new = n" "take (min (length old) n) ?new = take (min (length old) n) old"
        using q(3) k by (auto simp: slice_simps blit_def slice_def k_def min_def)
      have "arena_inv c ?w2" using q new by (intro arena_inv_write [OF r(2)]) auto
      then have "arena_inv c (retire (\<lambda>x. x = p) ?w2)" by (rule arena_inv_retire) (use p in simp)
      moreover have "heap (retire (\<lambda>x. x = p) ?w2) = (heap w)(p := None, q \<mapsto> ?new)"
        using q(4) pq by (auto simp: retire_def)
      moreover have "arena_realloc junk c w (Some p) (length old) n = Some (Some q, retire (\<lambda>x. x = p) ?w2)"
        using False l n r(1) rd wr Some by (simp add: arena_realloc_def ctx a [symmetric] k_def [symmetric] is_last_block_def)
      ultimately show ?thesis using q new by (auto simp: realloc_post_def)
    qed
  qed
qed


section \<open>The contract\<close>

lemma arena_allocator: "allocator (arena_al junk self c) (arena_inv c) (lent_by c)"
proof (unfold_locales, goal_cases)
  case (1 w n)
  then show ?case using arena_alloc_law [of c w n junk] by (simp add: arena_al_def)
next
  case (2 f w num sz)
  then show ?case by (simp add: arena_al_def)
next
  case (3 g w p old n)
  then show ?case using arena_realloc_law [of c w p old n junk] by (auto simp: arena_al_def)
next
  case (4 g w n)
  then obtain ctx where "arenas w c = Some ctx" using arena_inv_ctx [of c w] by metis
  then show ?case
    using 4 arena_alloc_law [of c w n junk] by (auto simp: arena_al_def arena_realloc_def)
next
  case (5 w p bs)
  then show ?case
    using arena_inv_retire [of c w "\<lambda>x. x = p"]
    by (auto simp: arena_al_def arena_dealloc_def retire_def)
next
  case (6 w p bs bs')
  then show ?case by (rule arena_inv_write)
qed

interpretation arena: allocator "arena_al junk self c" "arena_inv c" "lent_by c"
  for junk self c
  by (rule arena_allocator)

lemma arena_inv_context:
  assumes "arena_inv c w" "lent_by c p" "same_outside p w w'"
  shows "arena_inv c w'"
proof -
  obtain b where p: "p = In c b" using assms(2) by (auto simp: lent_by_iff)
  obtain ctx where c: "arenas w c = Some ctx" "arena_offset ctx \<le> arena_cap ctx" "16 dvd arena_offset ctx"
    "16 dvd addr_of (arena_data ctx)" "addr_of (arena_data ctx) + arena_cap ctx \<le> SIZE_MAX"
    "arena_blocks c (addr_of (arena_data ctx)) (arena_offset ctx) (heap w)"
    "block_at w (arena_data ctx) (arena_cap ctx)" "\<not> under c (arena_data ctx)"
    using arena_inv_ctx [OF assms(1)] .
  have same: "heap w' q = heap w q" if "\<not> lent_by p q" for q
    using assms(3) that by (simp add: same_outside_def)
  have "c \<noteq> p" using p under_In_False(1) [of c b] under_size [of c p] by auto
  then have "arenas w' c = Some ctx" using assms(3) c(1) by (simp add: same_outside_def)
  moreover have "\<not> lent_by p (In c a)" for a
    using \<open>c \<noteq> p\<close> by simp
  then have "heap w' (In c a) = heap w (In c a)" for a using same by blast
  then have "arena_blocks c (addr_of (arena_data ctx)) (arena_offset ctx) (heap w')"
    using c(6) by (simp add: arena_blocks_def)
  moreover have "\<not> lent_by p (arena_data ctx)"
    using c(8) p by (auto simp: lent_by_iff)
  then have "block_at w' (arena_data ctx) (arena_cap ctx)"
    using c(7) same by (simp add: block_at_def)
  ultimately show ?thesis using c by (simp add: arena_inv_def)
qed

lemma arena_realloc_child:
  assumes w: "arena_inv c w" and d: "lent_by c d" and p: "lent_by c p" "heap w p = Some old"
    and n: "0 < n" "n \<le> SIZE_MAX" and r: "arena_realloc junk c w (Some p) (length old) n = Some (r, w')"
  shows "same_child d w w'"
proof -
  have dc: "d \<noteq> c" using d under_size [of c d] by (auto simp: lent_by_iff)
  obtain ctx where ctx: "arenas w c = Some ctx" using arena_inv_ctx [OF w] by metis
  obtain a where a: "p = In c a" using p(1) by (auto simp: lent_by_iff)
  note blk = p(2) [unfolded a]
  note l = is_last_block_eq [OF ctx w blk]
  show ?thesis
  proof (cases "a + al16 (length old) = addr_of (arena_data ctx) + arena_offset ctx")
    case True
    then show ?thesis
      using arena_realloc_last [OF ctx w blk n True, of junk] r a dc
      by (auto simp: same_child_def split: if_splits)
  next
    case False
    define k where "k = (if length old < n then length old else n)"
    obtain q w1 where al: "arena_alloc junk c w n = Some (q, w1)"
      using r False l n by (auto simp: arena_realloc_def ctx a bind_eq_Some_conv)
    have s: "same_child d w w1"
      using al arena_alloc_exact [OF ctx w n, of junk] dc by (auto simp: same_child_def split: if_splits)
    show ?thesis
    proof (cases q)
      case None
      then show ?thesis using r False l n al s by (simp add: arena_realloc_def ctx a)
    next
      case (Some x)
      then obtain src w2 where m: "mem_write w1 x 0 src = Some w2" "w' = retire (\<lambda>x. x = p) w2"
        using r False l n al by (auto simp: arena_realloc_def ctx a bind_eq_Some_conv)
      have "same_child d w w2" by (rule same_child_trans [OF s same_child_write [OF m(1)]])
      then show ?thesis using m(2) by (simp add: same_child_def retire_def)
    qed
  qed
qed

interpretation arena: host "arena_al junk self c" "arena_inv c" "lent_by c"
  for junk self c
proof (unfold_locales, goal_cases)
  case (1 w p bs)
  then obtain a where a: "p = In c a" by (auto simp: lent_by_iff)
  obtain ctx where ctx: "arenas w c = Some ctx" "arena_offset ctx \<le> arena_cap ctx"
    "16 dvd addr_of (arena_data ctx)" "addr_of (arena_data ctx) + arena_cap ctx \<le> SIZE_MAX"
    "arena_blocks c (addr_of (arena_data ctx)) (arena_offset ctx) (heap w)"
    using arena_inv_ctx [OF 1(1)] by metis
  then have "addr_of (arena_data ctx) \<le> a" "16 dvd a - addr_of (arena_data ctx)"
    "a + al16 (length bs) \<le> addr_of (arena_data ctx) + arena_offset ctx"
    using arena_blocks_in [OF ctx(5)] 1(3) a by auto
  moreover from this(1,2) have "16 dvd a" using ctx(3) by (metis dvd_diffD)
  ultimately show ?case using ctx al16_ge [of "length bs"] a by auto
next
  case (2 p d)
  then show ?case using under_size by (fastforce simp: lent_by_iff)
next
  case (3 w d w')
  then show ?case by (rule arena_inv_context)
next
  case (4 w d n r w')
  have "d \<noteq> c" using 4(2) under_size [of c d] by (auto simp: lent_by_iff)
  obtain ctx where "arenas w c = Some ctx" using arena_inv_ctx [OF 4(1)] by metis
  then show ?case
    using 4 \<open>d \<noteq> c\<close> arena_alloc_exact [of w c ctx n junk]
    by (auto simp: arena_al_def same_child_def split: if_splits)
next
  case (6 g w d n r w')
  have "d \<noteq> c" using 6(3) under_size [of c d] by (auto simp: lent_by_iff)
  obtain ctx where "arenas w c = Some ctx" using arena_inv_ctx [OF 6(2)] by metis
  then show ?case
    using 6 \<open>d \<noteq> c\<close> arena_alloc_exact [of w c ctx n junk]
    by (auto simp: arena_al_def arena_realloc_def same_child_def split: if_splits)
next
  case (7 g w d p old n r w')
  then show ?case using arena_realloc_child [of c w d p old n junk r w'] by (auto simp: arena_al_def)
next
  case (8 w d p n w')
  then show ?case by (auto simp: arena_al_def arena_dealloc_def retire_def same_child_def)
qed (simp_all add: arena_al_def)

text \<open>The blocks it lends are disjoint, so an arena can be the parent of any other allocator.\<close>

interpretation arena_disjoint: disjoint_host "arena_al junk self c" "arena_inv c" "lent_by c"
  for junk self c
proof
  fix w p q bs cs
  assume w: "arena_inv c w" and l: "lent_by c p" "lent_by c q" "p \<noteq> q" "heap w p = Some bs" "heap w q = Some cs"
  obtain x y where xy: "p = In c x" "q = In c y" using l(1,2) by (auto simp: lent_by_iff)
  obtain ctx where "arenas w c = Some ctx" "arena_blocks c (addr_of (arena_data ctx)) (arena_offset ctx) (heap w)"
    by (rule arena_inv_ctx [OF w]) blast
  then show "addr_of p + length bs \<le> addr_of q \<or> addr_of q + length cs \<le> addr_of p"
    using arena_blocks_apart [of c _ _ "heap w" x bs y cs] arena_blocks_apart [of c _ _ "heap w" y cs x bs] l xy
      al16_ge [of "length bs"] al16_ge [of "length cs"] by (cases "x < y") fastforce+
qed

section \<open>Life cycle\<close>

text \<open>What a successful constructor leaves: an empty arena over a block of the parent.\<close>

definition arena_made :: "(ptr \<Rightarrow> bool) \<Rightarrow> nat \<Rightarrow> 's world \<Rightarrow> ptr \<Rightarrow> ptr \<Rightarrow> 's world \<Rightarrow> bool" where
  "arena_made owned cap w c obj w' \<longleftrightarrow> (\<exists>d bd bc bo.
     arenas w' c = Some \<lparr>arena_data = d, arena_cap = cap, arena_offset = 0\<rparr>
     \<and> owned d \<and> owned c \<and> owned obj \<and> d \<noteq> c \<and> d \<noteq> obj \<and> c \<noteq> obj
     \<and> heap w d = None \<and> heap w c = None \<and> heap w obj = None
     \<and> length bd = cap \<and> length bc = sizeof_ArenaCtx \<and> length bo = sizeof_tda_Al
     \<and> heap w' = (heap w)(d \<mapsto> bd, c \<mapsto> bc, obj \<mapsto> bo))"

lemma dealloc_fresh: "m p = None \<Longrightarrow> m(p := None) = m"
  by auto

context host
begin

lemma arena_new_spec:
  assumes w: "inv w" "no_orphans owned w" and cap: "0 < cap" "cap \<le> SIZE_MAX"
  shows "\<exists>r w'. tda_al_arena_new junk al cap w = Some (r, w') \<and> inv w'
    \<and> (case r of None \<Rightarrow> heap w' = heap w
       | Some a \<Rightarrow> \<exists>c obj. a = arena_al junk obj c \<and> arena_inv c w' \<and> arena_made owned cap w c obj w')"
proof (rule alloc_cases [OF w(1) cap(2)], goal_cases)
  case (1 w1)
  then show ?case using cap by (simp add: tda_al_arena_new_def)
next
  case (2 d w1 bd)
  note d = 2
  have sz: "sizeof_ArenaCtx \<le> SIZE_MAX" "sizeof_tda_Al \<le> SIZE_MAX"
    by (simp_all add: sizeof_ArenaCtx_def sizeof_tda_Al_def SIZE_MAX_num)
  show ?case
  proof (rule alloc_cases [OF d(2) sz(1)], goal_cases)
    case (1 w2)
    have "heap w2 d = Some bd" using 1 d by simp
    then obtain w3 where "tda_dealloc al w2 (Some d) cap = Some w3" "inv w3" "heap w3 = (heap w2)(d := None)"
      using dealloc_some [of w2 d bd cap] 1(2) d by metis
    then show ?case using 1 d cap by (simp add: tda_al_arena_new_def dealloc_fresh)
  next
    case (2 c w2 bc)
    note c = 2
    show ?case
    proof (rule alloc_cases [OF c(2) sz(2)], goal_cases)
      case (1 w3)
      have "heap w3 c = Some bc" using 1 c by simp
      then obtain w4 where w4: "tda_dealloc al w3 (Some c) sizeof_ArenaCtx = Some w4" "inv w4"
        "heap w4 = (heap w3)(c := None)"
        using dealloc_some [of w3 c bc] 1(2) c by metis
      have "heap w4 = heap w1" using w4(3) 1 c by (simp add: dealloc_fresh)
      then have "heap w4 d = Some bd" using d by simp
      then obtain w5 where w5: "tda_dealloc al w4 (Some d) cap = Some w5" "inv w5" "heap w5 = (heap w4)(d := None)"
        using dealloc_some [of w4 d bd cap] w4(2) d by metis
      have "heap w5 = heap w" using w5(3) d \<open>heap w4 = heap w1\<close> by (simp add: dealloc_fresh)
      then show ?case
        using 1(1) d(1) c(1) w4(1) w5(1,2) cap by (simp add: tda_al_arena_new_def)
    next
      case (2 obj w3 bo)
      note o = 2
      let ?ctx = "\<lparr>arena_data = d, arena_cap = cap, arena_offset = 0\<rparr>"
      let ?w = "w3\<lparr>arenas := (arenas w3)(c \<mapsto> ?ctx)\<rparr>"
      have ne: "d \<noteq> c" "d \<noteq> obj" "c \<noteq> obj" "heap w c = None" "heap w obj = None"
        using d c o by (auto split: if_splits)
      have hd: "heap w3 d = Some bd" using d c o ne by simp
      have al: "16 dvd addr_of d" "addr_of d + cap \<le> SIZE_MAX" using host_aligned [OF o(2) d(4) hd] d(6) by auto
      have al_ok: "tda_ptr_is_aligned (addr_of d) TDA_DEFAULT_ALIGNMENT = Some True"
        using tda_ptr_is_aligned_pow2 [of 4 "addr_of d"] al by (simp add: TDA_DEFAULT_ALIGNMENT_def)
      have inv: "inv ?w" by (rule host_context [OF o(2) c(4)]) (simp add: same_outside_def)
      have none: "heap w3 (In c a) = None" for a
      proof -
        have "\<not> under c d" "\<not> under c obj" "\<not> under c c" using host_apart d(4) c(4) o(4) by auto
        then have "In c a \<noteq> d" "In c a \<noteq> obj" "In c a \<noteq> c" by auto
        moreover have "heap w (In c a) = None"
          using w(2) c(4) ne(4) unfolding no_orphans_def by simp
        ultimately show ?thesis using d c o by simp
      qed
      have "arena_inv c ?w"
        using al hd d(6) none host_apart [OF d(4) c(4)]
        by (simp add: arena_inv_def arena_blocks_def block_at_def)
      moreover have "arena_made owned cap w c obj ?w"
        unfolding arena_made_def using d c o ne
        by (intro exI [of _ d] exI [of _ bd] exI [of _ bc] exI [of _ bo]) simp
      ultimately show ?case
        using d c o al_ok inv cap by (simp add: tda_al_arena_new_def) blast
    qed
  qed
qed

lemma arena_drop_spec:
  assumes w: "inv w" "arena_inv c w" and ctx: "arenas w c = Some ctx"
    and own: "owned (arena_data ctx)" "owned c" "owned obj"
    and ne: "arena_data ctx \<noteq> c" "arena_data ctx \<noteq> obj" "c \<noteq> obj"
    and blocks: "block_at w c sizeof_ArenaCtx" "block_at w obj sizeof_tda_Al"
  shows "\<exists>w'. tda_al_arena_drop al (Some (arena_al junk obj c)) w = Some w' \<and> inv w'
    \<and> heap w' = (\<lambda>p. if lent_by c p \<or> p \<in> {arena_data ctx, c, obj} then None else heap w p)"
proof -
  let ?d = "arena_data ctx" and ?w0 = "retire (lent_by c) w"
  have nl: "\<not> lent_by c ?d" "\<not> lent_by c c" "\<not> lent_by c obj"
    using host_apart [OF _ own(2)] own lent_by_under by blast+
  have i0: "inv ?w0"
    by (rule host_context [OF w(1) own(2)]) (simp add: same_outside_def retire_def)
  obtain bd where bd: "heap w ?d = Some bd" "length bd = arena_cap ctx"
    using w(2) ctx by (auto simp: arena_inv_def block_at_def)
  obtain bc bo where b: "heap w c = Some bc" "length bc = sizeof_ArenaCtx"
    "heap w obj = Some bo" "length bo = sizeof_tda_Al"
    using blocks by (auto simp: block_at_def)
  have h0: "heap ?w0 ?d = Some bd" "heap ?w0 c = Some bc" "heap ?w0 obj = Some bo"
    using nl bd b by simp_all
  obtain w1 where w1: "tda_dealloc al ?w0 (Some ?d) (arena_cap ctx) = Some w1" "inv w1"
    "heap w1 = (heap ?w0)(?d := None)"
    using dealloc_some [OF i0 own(1) h0(1) bd(2)] .
  let ?w1 = "w1\<lparr>arenas := (arenas w1)(c := None)\<rparr>"
  have i1: "inv ?w1" by (rule host_context [OF w1(2) own(2)]) (simp add: same_outside_def)
  have h1: "heap ?w1 c = Some bc" "heap ?w1 obj = Some bo" using w1(3) h0 ne by simp_all
  obtain w2 where w2: "tda_dealloc al ?w1 (Some c) sizeof_ArenaCtx = Some w2" "inv w2"
    "heap w2 = (heap ?w1)(c := None)"
    using dealloc_some [OF i1 own(2) h1(1) b(2)] .
  have h2: "heap w2 obj = Some bo" using w2(3) h1 ne by simp
  obtain w3 where w3: "tda_dealloc al w2 (Some obj) sizeof_tda_Al = Some w3" "inv w3"
    "heap w3 = (heap w2)(obj := None)"
    using dealloc_some [OF w2(2) own(3) h2 b(4)] .
  have "heap w3 = (\<lambda>p. if lent_by c p \<or> p \<in> {?d, c, obj} then None else heap w p)"
    using w1(3) w2(3) w3(3) by (auto simp: fun_eq_iff)
  moreover have "arenas ?w0 c = Some ctx" using ctx by (simp add: retire_def)
  ultimately show ?thesis
    using ctx w1(1) w2(1) w3(1,2) by (simp add: tda_al_arena_drop_def arena_al_def)
qed

end

lemma arena_reset_spec:
  assumes w: "arena_inv c w" and ctx: "arenas w c = Some ctx"
  shows "\<exists>w'. tda_al_arena_reset (arena_al junk obj c) w = Some w' \<and> arena_inv c w'
    \<and> arenas w' c = Some (ctx\<lparr>arena_offset := 0\<rparr>)
    \<and> heap w' = (\<lambda>p. if lent_by c p then None else heap w p)"
proof -
  let ?w = "(retire (lent_by c) w)\<lparr>arenas := (arenas (retire (lent_by c) w))(c \<mapsto> ctx\<lparr>arena_offset := 0\<rparr>)\<rparr>"
  have "\<not> lent_by c (arena_data ctx)" using w ctx lent_by_under by (auto simp: arena_inv_def)
  then have "arena_inv c ?w"
    using w ctx by (auto simp: arena_inv_def arena_blocks_def block_at_def retire_def)
  then show ?thesis
    using ctx by (auto simp: tda_al_arena_reset_def arena_al_def retire_def)
qed

text \<open>The number the stats call the room left really is what the next request has to fit in.\<close>

lemma arena_stats_spec:
  assumes "arena_inv c w" "0 < n" "n \<le> SIZE_MAX"
  shows "\<exists>st. tda_al_arena_stats (arena_al junk obj c) w = Some st
    \<and> arena_stats_used st + arena_stats_available st = arena_stats_cap st
    \<and> (al16 n \<le> arena_stats_available st \<longleftrightarrow> (\<exists>p w'. arena_alloc junk c w n = Some (Some p, w')))"
proof -
  obtain ctx where c: "arenas w c = Some ctx" "arena_offset ctx \<le> arena_cap ctx"
    using arena_inv_ctx [OF assms(1)] by metis
  show ?thesis
    using c arena_alloc_exact [OF c(1) assms, of junk]
    by (auto simp: tda_al_arena_stats_def arena_al_def)
qed

end
