(* ===== verification/Tda_Pool.thy ===== *)
theory Tda_Pool
  imports Tda_Alloc
begin

text \<open>
  The pool allocator (\<open>src/alloc/pool.c\<close>). A \<open>PoolCtx\<close> at address \<open>c\<close> cuts one block of its
  parent into \<open>block_count\<close> blocks of \<open>block_size\<close> bytes, the pointers \<open>In c a\<close>. A free block
  holds the link to the next one: the store \<open>pool_nodes\<close> maps it to its \<open>next\<close> field. A
  block that is lent is in the heap instead, as long as the request was. \<open>junk\<close> gives
  the bytes a lent block starts with.
\<close>

section \<open>Operations\<close>

record tda_AlPoolStats =
  pool_stats_block_size :: nat
  pool_stats_block_count :: nat
  pool_stats_used :: nat
  pool_stats_free :: nat

definition sizeof_PoolCtx :: nat where
  "sizeof_PoolCtx = 48"

definition sizeof_PoolNode :: nat where
  "sizeof_PoolNode = 8"

definition pool_alloc ::
  "(nat \<Rightarrow> byte) \<Rightarrow> ptr \<Rightarrow> 's world \<Rightarrow> nat \<Rightarrow> (ptr option \<times> 's world) option" where
  "pool_alloc junk c w sz = do {
     ctx \<leftarrow> pools w c;
     if sz = 0 then Some (None, w)
     else if sz > pool_block_size ctx then Some (None, w)
     else case pool_free_head ctx of
       None \<Rightarrow> Some (None, w)
     | Some node \<Rightarrow> do {
         nxt \<leftarrow> pool_nodes w node;
         Some (Some node, w\<lparr>
           heap := (heap w)(node \<mapsto> map junk [0..<sz]),
           pool_nodes := (pool_nodes w)(node := None),
           pools := (pools w)(c \<mapsto> ctx\<lparr>pool_free_head := nxt, pool_used := pool_used ctx + 1\<rparr>)\<rparr>)
       }
   }"

definition pool_owns :: "PoolCtx \<Rightarrow> ptr \<Rightarrow> bool" where
  "pool_owns ctx p = (
     let addr = addr_of p; start = addr_of (pool_data ctx);
         fin = size_add start (size_mul (pool_block_size ctx) (pool_block_count ctx))
     in addr \<ge> start \<and> addr < fin \<and> (addr - start) mod pool_block_size ctx = 0)"

definition pool_dealloc :: "ptr \<Rightarrow> 's world \<Rightarrow> ptr \<Rightarrow> nat \<Rightarrow> 's world option" where
  "pool_dealloc c w p sz = do {
     ctx \<leftarrow> pools w c;
     c_assert (pool_owns ctx p);
     c_assert (pool_used ctx > 0);
     Some (w\<lparr>
       heap := (heap w)(p := None),
       pool_nodes := (pool_nodes w)(p \<mapsto> pool_free_head ctx),
       pools := (pools w)(c \<mapsto> ctx\<lparr>pool_free_head := Some p, pool_used := pool_used ctx - 1\<rparr>)\<rparr>)
   }"

text \<open>The loop of \<open>pool_build_free_list\<close>, from the last block to the first.\<close>

definition pool_block :: "ptr \<Rightarrow> PoolCtx \<Rightarrow> nat \<Rightarrow> ptr" where
  "pool_block c ctx i = In c (addr_of (pool_data ctx) + size_mul (pool_block_size ctx) i)"

definition pool_link :: "ptr \<Rightarrow> PoolCtx \<Rightarrow> nat \<Rightarrow> (ptr \<Rightarrow> ptr option option) \<times> ptr option
    \<Rightarrow> (ptr \<Rightarrow> ptr option option) \<times> ptr option" where
  "pool_link c ctx i s = (case s of (nodes, head) \<Rightarrow>
     (nodes(pool_block c ctx i \<mapsto> head), Some (pool_block c ctx i)))"

definition pool_build_free_list :: "ptr \<Rightarrow> 's world \<Rightarrow> 's world option" where
  "pool_build_free_list c w = do {
     ctx \<leftarrow> pools w c;
     let (nodes, head) = fold (pool_link c ctx) (rev [0..<pool_block_count ctx]) (pool_nodes w, None);
     Some (w\<lparr>pool_nodes := nodes, pools := (pools w)(c \<mapsto> ctx\<lparr>pool_free_head := head\<rparr>)\<rparr>)
   }"

definition pool_al :: "(nat \<Rightarrow> byte) \<Rightarrow> ptr \<Rightarrow> ptr \<Rightarrow> 's al" where
  "pool_al junk self c = \<lparr>
     al_self = self,
     al_ctx = Some c,
     al_alloc = pool_alloc junk c,
     al_calloc = None,
     al_realloc = None,
     al_dealloc = pool_dealloc c\<rparr>"

text \<open>What the pool kept in its own blocks is gone once they are.\<close>

definition pool_forget :: "ptr \<Rightarrow> 's world \<Rightarrow> 's world" where
  "pool_forget c w = w\<lparr>
     heap := (\<lambda>p. if lent_by c p then None else heap w p),
     pool_nodes := (\<lambda>p. if lent_by c p then None else pool_nodes w p),
     pools := (pools w)(c := None)\<rparr>"

definition tda_al_pool_new ::
  "(nat \<Rightarrow> byte) \<Rightarrow> 's al \<Rightarrow> nat \<Rightarrow> nat \<Rightarrow> 's world \<Rightarrow> ('s al option \<times> 's world) option" where
  "tda_al_pool_new junk parent block_size0 block_count w = do {
     c_assert (block_size0 > 0);
     c_assert (block_count > 0);
     let block_size1 = (if block_size0 < sizeof_PoolNode then sizeof_PoolNode else block_size0);
     rs \<leftarrow> tda_ckd_align_up block_size1 TDA_DEFAULT_ALIGNMENT;
     (case rs of
        None \<Rightarrow> Some (None, w)
      | Some block_size \<Rightarrow>
          (case ckd_mul block_size block_count of
             None \<Rightarrow> Some (None, w)
           | Some total_bytes \<Rightarrow> do {
               (rc, w1) \<leftarrow> tda_alloc parent w sizeof_PoolCtx;
               (case rc of
                  None \<Rightarrow> Some (None, w1)
                | Some c \<Rightarrow> do {
                    (rd, w2) \<leftarrow> tda_alloc parent w1 total_bytes;
                    (case rd of
                       None \<Rightarrow> do {
                         w3 \<leftarrow> tda_dealloc parent w2 (Some c) sizeof_PoolCtx;
                         Some (None, w3)
                       }
                     | Some d \<Rightarrow> do {
                         aligned \<leftarrow> tda_ptr_is_aligned (addr_of d) TDA_DEFAULT_ALIGNMENT;
                         c_assert aligned;
                         let ctx = \<lparr>pool_data = d, pool_free_head = None, pool_block_size = block_size,
                           pool_block_count = block_count, pool_used = 0\<rparr>;
                         w3 \<leftarrow> pool_build_free_list c (w2\<lparr>pools := (pools w2)(c \<mapsto> ctx)\<rparr>);
                         (ro, w4) \<leftarrow> tda_alloc parent w3 sizeof_tda_Al;
                         (case ro of
                            None \<Rightarrow> do {
                              w5 \<leftarrow> tda_dealloc parent (pool_forget c w4) (Some d) total_bytes;
                              w6 \<leftarrow> tda_dealloc parent w5 (Some c) sizeof_PoolCtx;
                              Some (None, w6)
                            }
                          | Some obj \<Rightarrow> Some (Some (pool_al junk obj c), w4))
                       })
                  })
             }))
   }"

definition tda_al_pool_drop :: "'s al \<Rightarrow> 's al option \<Rightarrow> 's world \<Rightarrow> 's world option" where
  "tda_al_pool_drop parent self w = (case self of
      None \<Rightarrow> Some w
    | Some al \<Rightarrow> do {
        c \<leftarrow> al_ctx al;
        ctx \<leftarrow> pools w c;
        w1 \<leftarrow> tda_dealloc parent (pool_forget c w) (Some (pool_data ctx))
          (size_mul (pool_block_size ctx) (pool_block_count ctx));
        w2 \<leftarrow> tda_dealloc parent w1 (Some c) sizeof_PoolCtx;
        tda_dealloc parent w2 (Some (al_self al)) sizeof_tda_Al
      })"

definition tda_al_pool_reset :: "'s al \<Rightarrow> 's world \<Rightarrow> 's world option" where
  "tda_al_pool_reset self w = do {
     c \<leftarrow> al_ctx self;
     ctx \<leftarrow> pools w c;
     let w1 = retire (lent_by c) w;
     pool_build_free_list c (w1\<lparr>pools := (pools w1)(c \<mapsto> ctx\<lparr>pool_used := 0\<rparr>)\<rparr>)
   }"

definition tda_al_pool_stats :: "'s al \<Rightarrow> 's world \<Rightarrow> tda_AlPoolStats option" where
  "tda_al_pool_stats self w = do {
     c \<leftarrow> al_ctx self;
     ctx \<leftarrow> pools w c;
     Some \<lparr>pool_stats_block_size = pool_block_size ctx, pool_stats_block_count = pool_block_count ctx,
       pool_stats_used = pool_used ctx, pool_stats_free = pool_block_count ctx - pool_used ctx\<rparr>
   }"

section \<open>The invariant\<close>

text \<open>\<open>chain nx h ps\<close>: following the links \<open>nx\<close> from \<open>h\<close> visits exactly \<open>ps\<close>.\<close>

fun chain :: "(ptr \<Rightarrow> ptr option option) \<Rightarrow> ptr option \<Rightarrow> ptr list \<Rightarrow> bool" where
  "chain nx h [] = (h = None)"
| "chain nx h (p # ps) = (h = Some p \<and> (case nx p of None \<Rightarrow> False | Some n \<Rightarrow> chain nx n ps))"

lemma chain_cong: "(\<And>p. p \<in> set ps \<Longrightarrow> nx' p = nx p) \<Longrightarrow> chain nx' h ps = chain nx h ps"
  by (induction ps arbitrary: h) (auto split: option.splits)

definition pool_all :: "ptr \<Rightarrow> PoolCtx \<Rightarrow> ptr list" where
  "pool_all c ctx = map (\<lambda>i. In c (addr_of (pool_data ctx) + pool_block_size ctx * i)) [0..<pool_block_count ctx]"

text \<open>
  The free list visits each free block once; every block of the pool is either on it or
  lent, never both; \<open>used\<close> counts the lent ones.
\<close>

definition pool_free :: "ptr \<Rightarrow> 's world \<Rightarrow> PoolCtx \<Rightarrow> ptr list \<Rightarrow> bool" where
  "pool_free c w ctx free \<longleftrightarrow>
     chain (pool_nodes w) (pool_free_head ctx) free \<and> distinct free \<and> set free \<subseteq> set (pool_all c ctx)
     \<and> pool_used ctx + length free = pool_block_count ctx
     \<and> (\<forall>p. lent_by c p \<longrightarrow> (heap w p = None) = (p \<notin> set (pool_all c ctx) \<or> p \<in> set free))
     \<and> (\<forall>p bs. lent_by c p \<longrightarrow> heap w p = Some bs \<longrightarrow> length bs \<le> pool_block_size ctx)"

definition pool_shape :: "ptr \<Rightarrow> 's world \<Rightarrow> PoolCtx \<Rightarrow> bool" where
  "pool_shape c w ctx \<longleftrightarrow>
     0 < pool_block_size ctx \<and> 16 dvd pool_block_size ctx \<and> 0 < pool_block_count ctx
     \<and> 16 dvd addr_of (pool_data ctx)
     \<and> addr_of (pool_data ctx) + pool_block_size ctx * pool_block_count ctx \<le> SIZE_MAX
     \<and> block_at w (pool_data ctx) (pool_block_size ctx * pool_block_count ctx)
     \<and> \<not> under c (pool_data ctx)"

definition pool_inv :: "ptr \<Rightarrow> 's world \<Rightarrow> bool" where
  "pool_inv c w \<longleftrightarrow> (\<exists>ctx free. pools w c = Some ctx \<and> pool_shape c w ctx \<and> pool_free c w ctx free)"

lemma pool_invE:
  assumes "pool_inv c w"
  obtains ctx free where "pools w c = Some ctx" "pool_shape c w ctx" "pool_free c w ctx free"
  using assms by (auto simp: pool_inv_def)

lemma distinct_pool_all: "0 < pool_block_size ctx \<Longrightarrow> distinct (pool_all c ctx)"
  by (auto simp: pool_all_def distinct_map intro: inj_onI)

lemma length_pool_all [simp]: "length (pool_all c ctx) = pool_block_count ctx"
  by (simp add: pool_all_def)

lemma lent_pool_all: "p \<in> set (pool_all c ctx) \<Longrightarrow> lent_by c p"
  by (auto simp: pool_all_def)

lemma pool_all_cong:
  "pool_data ctx' = pool_data ctx \<Longrightarrow> pool_block_size ctx' = pool_block_size ctx \<Longrightarrow>
     pool_block_count ctx' = pool_block_count ctx \<Longrightarrow> pool_all c ctx' = pool_all c ctx"
  by (simp add: pool_all_def)

text \<open>The blocks that are lent are as many as \<open>used\<close> says.\<close>

lemma pool_used_card:
  assumes "pool_free c w ctx free" "0 < pool_block_size ctx"
  shows "card {p. lent_by c p \<and> heap w p \<noteq> None} = pool_used ctx"
proof -
  have "lent_by c p \<Longrightarrow> heap w p \<noteq> None \<longleftrightarrow> p \<in> set (pool_all c ctx) - set free" for p
    using assms(1) by (simp add: pool_free_def del: not_None_eq)
  then have "{p. lent_by c p \<and> heap w p \<noteq> None} = set (pool_all c ctx) - set free"
    using lent_pool_all by blast
  moreover have "distinct free" "set free \<subseteq> set (pool_all c ctx)"
    "pool_used ctx + length free = pool_block_count ctx"
    using assms(1) by (simp_all add: pool_free_def)
  moreover have "card (set (pool_all c ctx)) = pool_block_count ctx"
    using distinct_card [OF distinct_pool_all [OF assms(2), of c]] by simp
  ultimately show ?thesis
    by (simp add: card_Diff_subset distinct_card)
qed

lemma pool_owns_all:
  assumes "pool_shape c w ctx" "p \<in> set (pool_all c ctx)"
  shows "pool_owns ctx p"
proof -
  let ?d = "addr_of (pool_data ctx)" and ?s = "pool_block_size ctx" and ?n = "pool_block_count ctx"
  obtain i where i: "i < ?n" "p = In c (?d + ?s * i)" using assms(2) by (auto simp: pool_all_def)
  have s: "0 < ?s" "?d + ?s * ?n \<le> SIZE_MAX" using assms(1) by (simp_all add: pool_shape_def)
  then have "size_add ?d (size_mul ?s ?n) = ?d + ?s * ?n" by (simp add: c_simps)
  then show ?thesis using i s by (simp add: pool_owns_def Let_def)
qed


section \<open>What the callbacks do\<close>

lemma pool_freeD:
  assumes "pool_free c w ctx free"
  shows "chain (pool_nodes w) (pool_free_head ctx) free" "distinct free" "set free \<subseteq> set (pool_all c ctx)"
    "pool_used ctx + length free = pool_block_count ctx"
    "\<And>p. lent_by c p \<Longrightarrow> heap w p = None \<longleftrightarrow> p \<notin> set (pool_all c ctx) \<or> p \<in> set free"
    "\<And>p bs. lent_by c p \<Longrightarrow> heap w p = Some bs \<Longrightarrow> length bs \<le> pool_block_size ctx"
  using assms unfolding pool_free_def by blast+

lemma pool_freeI:
  assumes "chain (pool_nodes w) (pool_free_head ctx) free" "distinct free" "set free \<subseteq> set (pool_all c ctx)"
    "pool_used ctx + length free = pool_block_count ctx"
    "\<And>p. lent_by c p \<Longrightarrow> heap w p = None \<longleftrightarrow> p \<notin> set (pool_all c ctx) \<or> p \<in> set free"
    "\<And>p bs. lent_by c p \<Longrightarrow> heap w p = Some bs \<Longrightarrow> length bs \<le> pool_block_size ctx"
  shows "pool_free c w ctx free"
  unfolding pool_free_def using assms by blast

lemma pool_shape_cong:
  "pool_shape c w ctx \<Longrightarrow> pool_data ctx' = pool_data ctx \<Longrightarrow> pool_block_size ctx' = pool_block_size ctx \<Longrightarrow>
     pool_block_count ctx' = pool_block_count ctx \<Longrightarrow>
     map_option length (heap w' (pool_data ctx)) = map_option length (heap w (pool_data ctx)) \<Longrightarrow> pool_shape c w' ctx'"
  by (auto simp: pool_shape_def block_at_def)

lemma pool_data_not_lent: "pool_shape c w ctx \<Longrightarrow> \<not> lent_by c (pool_data ctx)"
  using lent_by_under by (auto simp: pool_shape_def)

text \<open>A request fails exactly when it is too big for a block or every block is lent.\<close>

lemma pool_alloc_exact:
  assumes ctx: "pools w c = Some ctx" "pool_shape c w ctx" "pool_free c w ctx free" and n: "0 < n"
  shows "if n > pool_block_size ctx \<or> pool_used ctx = pool_block_count ctx
    then pool_alloc junk c w n = Some (None, w)
    else \<exists>p rest w' ctx'. free = p # rest \<and> pool_alloc junk c w n = Some (Some p, w')
      \<and> heap w' = (heap w)(p \<mapsto> map junk [0..<n]) \<and> heap w p = None \<and> lent_by c p
      \<and> pools w' c = Some ctx' \<and> pool_used ctx' = pool_used ctx + 1
      \<and> pool_shape c w' ctx' \<and> pool_free c w' ctx' rest"
proof -
  note f = pool_freeD [OF ctx(3)]
  show ?thesis
  proof (cases "n > pool_block_size ctx \<or> free = []")
    case True
    then show ?thesis
      using ctx(1) n f(1,4) by (cases free) (auto simp: pool_alloc_def)
  next
    case False
    then obtain p rest where fr: "free = p # rest" by (cases free) auto
    then obtain nxt where nxt: "pool_free_head ctx = Some p" "pool_nodes w p = Some nxt" "chain (pool_nodes w) nxt rest"
      using f(1) by (auto split: option.splits)
    let ?ctx = "ctx\<lparr>pool_free_head := nxt, pool_used := pool_used ctx + 1\<rparr>"
    let ?w = "w\<lparr>heap := (heap w)(p \<mapsto> map junk [0..<n]), pool_nodes := (pool_nodes w)(p := None), pools := (pools w)(c \<mapsto> ?ctx)\<rparr>"
    have lp: "lent_by c p" using f(3) fr by (auto simp: pool_all_def)
    have none: "heap w p = None" using f(5) [OF lp] fr by simp
    have all: "pool_all c ?ctx = pool_all c ctx" by (rule pool_all_cong) simp_all
    have "p \<noteq> pool_data ctx" using lp pool_data_not_lent [OF ctx(2)] by auto
    then have sh: "pool_shape c ?w ?ctx" by (intro pool_shape_cong [OF ctx(2)]) auto
    have fr': "pool_free c ?w ?ctx rest"
    proof (rule pool_freeI, unfold all, goal_cases)
      case 1
      have "chain ((pool_nodes w)(p := None)) nxt rest = chain (pool_nodes w) nxt rest"
        using f(2) fr by (intro chain_cong) auto
      then show ?case using nxt(3) by simp
    next
      case (5 q)
      then show ?case using f(5) [OF 5] f(2,3) fr by auto
    next
      case (6 q bs)
      then show ?case using f(6) False by (auto split: if_splits)
    qed (use f(2-4) fr in auto)
    have r: "pool_alloc junk c w n = Some (Some p, ?w)"
      using False n nxt ctx(1) by (simp add: pool_alloc_def)
    have used: "pool_used ctx \<noteq> pool_block_count ctx" using f(4) fr by simp
    have "\<exists>p rest w' ctx'. free = p # rest \<and> pool_alloc junk c w n = Some (Some p, w')
      \<and> heap w' = (heap w)(p \<mapsto> map junk [0..<n]) \<and> heap w p = None \<and> lent_by c p
      \<and> pools w' c = Some ctx' \<and> pool_used ctx' = pool_used ctx + 1
      \<and> pool_shape c w' ctx' \<and> pool_free c w' ctx' rest"
      by (rule exI [of _ p], rule exI [of _ rest], rule exI [of _ ?w], rule exI [of _ ?ctx])
        (use r fr lp none sh fr' in simp)
    then show ?thesis using False used by auto
  qed
qed

text \<open>A block given back becomes the head of the free list.\<close>

lemma pool_dealloc_exact:
  assumes ctx: "pools w c = Some ctx" "pool_shape c w ctx" "pool_free c w ctx free"
    and p: "lent_by c p" "heap w p = Some bs"
  shows "\<exists>w' ctx'. pool_dealloc c w p n = Some w' \<and> heap w' = (heap w)(p := None)
      \<and> pools w' c = Some ctx' \<and> pool_used ctx' + 1 = pool_used ctx
      \<and> pool_shape c w' ctx' \<and> pool_free c w' ctx' (p # free)"
proof -
  note f = pool_freeD [OF ctx(3)]
  have pin: "p \<in> set (pool_all c ctx)" "p \<notin> set free" using f(5) [OF p(1)] p(2) by auto
  have lt: "length free < pool_block_count ctx"
  proof -
    have "set free \<subset> set (pool_all c ctx)" using f(3) pin by blast
    then have "card (set free) < card (set (pool_all c ctx))" by (intro psubset_card_mono) simp_all
    also have "\<dots> \<le> pool_block_count ctx" using card_length [of "pool_all c ctx"] by simp
    finally show ?thesis using f(2) by (simp add: distinct_card)
  qed
  then have used: "0 < pool_used ctx" using f(4) by simp
  let ?ctx = "ctx\<lparr>pool_free_head := Some p, pool_used := pool_used ctx - 1\<rparr>"
  let ?w = "w\<lparr>heap := (heap w)(p := None), pool_nodes := (pool_nodes w)(p \<mapsto> pool_free_head ctx),
    pools := (pools w)(c \<mapsto> ?ctx)\<rparr>"
  have all: "pool_all c ?ctx = pool_all c ctx" by (rule pool_all_cong) simp_all
  have "p \<noteq> pool_data ctx" using p(1) pool_data_not_lent [OF ctx(2)] by auto
  then have sh: "pool_shape c ?w ?ctx" by (intro pool_shape_cong [OF ctx(2)]) auto
  have fr: "pool_free c ?w ?ctx (p # free)"
  proof (rule pool_freeI, unfold all, goal_cases)
    case 1
    have "chain ((pool_nodes w)(p \<mapsto> pool_free_head ctx)) (pool_free_head ctx) free
        = chain (pool_nodes w) (pool_free_head ctx) free"
      using pin(2) by (intro chain_cong) auto
    then show ?case using f(1) by simp
  next
    case (5 q)
    then show ?case using f(5) [OF 5] by auto
  next
    case (6 q b)
    then show ?case using f(6) by (auto split: if_splits)
  qed (use f(2-4) pin used in auto)
  have "pool_dealloc c w p n = Some ?w"
    using ctx pool_owns_all [OF ctx(2) pin(1)] used by (simp add: pool_dealloc_def)
  then show ?thesis
    by (rule_tac exI [of _ ?w], rule_tac exI [of _ ?ctx]) (use sh fr used in simp)
qed

section \<open>The contract\<close>

lemma pool_alloc_law:
  assumes "pool_inv c w" "0 < n"
  shows "\<exists>r w'. pool_alloc junk c w n = Some (r, w') \<and> pool_inv c w' \<and> alloc_post (lent_by c) w n r w'"
proof -
  obtain ctx free where ctx: "pools w c = Some ctx" "pool_shape c w ctx" "pool_free c w ctx free"
    using assms(1) by (rule pool_invE)
  show ?thesis
  proof (cases "n > pool_block_size ctx \<or> pool_used ctx = pool_block_count ctx")
    case True
    then show ?thesis using pool_alloc_exact [OF ctx assms(2), of junk] assms(1) by (simp add: alloc_post_def)
  next
    case False
    with pool_alloc_exact [OF ctx assms(2), of junk] obtain p rest w' ctx' where
      "pool_alloc junk c w n = Some (Some p, w')" "heap w' = (heap w)(p \<mapsto> map junk [0..<n])" "heap w p = None"
      "lent_by c p" "pools w' c = Some ctx'" "pool_shape c w' ctx'" "pool_free c w' ctx' rest"
      by auto
    then show ?thesis by (auto simp: alloc_post_def pool_inv_def intro: exI [of _ "map junk [0..<n]"])
  qed
qed

lemma pool_free_same:
  assumes "pool_shape c w ctx" "pool_free c w ctx free" "\<And>p. lent_by c p \<Longrightarrow> pool_nodes w' p = pool_nodes w p"
    "\<And>p. p = pool_data ctx \<or> lent_by c p \<Longrightarrow> map_option length (heap w' p) = map_option length (heap w p)"
  shows "pool_shape c w' ctx" "pool_free c w' ctx free"
proof -
  note f = pool_freeD [OF assms(2)]
  show "pool_shape c w' ctx"
    using assms(1) by (intro pool_shape_cong [OF assms(1)] assms(4)) (auto simp: pool_shape_def)
  show "pool_free c w' ctx free"
  proof (rule pool_freeI, goal_cases)
    case 1
    have "pool_nodes w' p = pool_nodes w p" if "p \<in> set free" for p
      using that f(3) assms(3) lent_pool_all by blast
    then show ?case using f(1) by (simp cong: chain_cong)
  next
    case (5 p)
    have "heap w' p = None \<longleftrightarrow> heap w p = None" using assms(4) [of p] 5 by (metis option.map_disc_iff)
    then show ?case using f(5) [OF 5] by simp
  next
    case (6 p bs)
    then have "map_option length (heap w p) = Some (length bs)" using assms(4) [of p] by simp
    then show ?case using f(6) [OF 6(1)] by auto
  qed (use f(2-4) in auto)
qed

lemma pool_inv_same:
  assumes "pool_inv c w" "pools w' c = pools w c" "\<And>p. lent_by c p \<Longrightarrow> pool_nodes w' p = pool_nodes w p"
    "\<And>p. \<not> under c p \<or> lent_by c p \<Longrightarrow> map_option length (heap w' p) = map_option length (heap w p)"
  shows "pool_inv c w'"
proof -
  obtain ctx free where ctx: "pools w c = Some ctx" "pool_shape c w ctx" "pool_free c w ctx free"
    using assms(1) by (rule pool_invE)
  show ?thesis
    using pool_free_same [OF ctx(2,3) assms(3) assms(4)] assms(2) ctx(1,2) unfolding pool_inv_def pool_shape_def by metis
qed

lemma pool_allocator: "allocator (pool_al junk self c) (pool_inv c) (lent_by c)"
proof (unfold_locales, goal_cases)
  case (1 w n)
  then show ?case using pool_alloc_law [of c w n junk] by (simp add: pool_al_def)
next
  case (5 w p bs)
  obtain ctx free where "pools w c = Some ctx" "pool_shape c w ctx" "pool_free c w ctx free"
    using 5(1) by (rule pool_invE)
  from pool_dealloc_exact [OF this 5(2,3), of "length bs"] show ?case
    unfolding pool_al_def pool_inv_def by fastforce
next
  case (6 w p bs bs')
  then show ?case by (intro pool_inv_same [OF 6(1)]) auto
qed (simp_all add: pool_al_def)

interpretation pool: allocator "pool_al junk self c" "pool_inv c" "lent_by c"
  for junk self c
  by (rule pool_allocator)

lemma pool_inv_context:
  assumes "pool_inv c w" "lent_by c p" "same_outside p w w'"
  shows "pool_inv c w'"
proof -
  have p: "p \<noteq> c" "\<And>a. p \<noteq> In (In c a) a" using assms(2) under_size [of c p] by (auto simp: lent_by_iff)
  have out: "heap w' q = heap w q" "pool_nodes w' q = pool_nodes w q" if "\<not> lent_by p q" for q
    using assms(3) that by (simp_all add: same_outside_def)
  have "\<not> lent_by p q" if "\<not> under c q \<or> lent_by c q" for q
    using that assms(2) p(1) by (cases q) (auto simp: lent_by_iff)
  moreover have "pools w' c = pools w c" using assms(3) p(1) by (simp add: same_outside_def)
  ultimately show ?thesis
    using out p(1) by (intro pool_inv_same [OF assms(1)]) auto
qed

lemma pool_host: "host (pool_al junk self c) (pool_inv c) (lent_by c)"
proof (rule host.intro [OF pool_allocator], unfold_locales, goal_cases)
  case (1 w p bs)
  obtain ctx free where ctx: "pools w c = Some ctx" "pool_shape c w ctx" "pool_free c w ctx free"
    using 1(1) by (rule pool_invE)
  note f = pool_freeD [OF ctx(3)]
  let ?d = "addr_of (pool_data ctx)" and ?s = "pool_block_size ctx"
  have "p \<in> set (pool_all c ctx)" using f(5) [OF 1(2)] 1(3) by auto
  then obtain i where i: "i < pool_block_count ctx" "p = In c (?d + ?s * i)" by (auto simp: pool_all_def)
  have "?s * i + ?s \<le> ?s * pool_block_count ctx"
    using i(1) by (metis Suc_leI add.commute mult_Suc_right mult_le_mono2)
  then show ?case using i(2) ctx(2) f(6) [OF 1(2,3)] by (auto simp: pool_shape_def)
next
  case (2 p d)
  then show ?case using under_size by (fastforce simp: lent_by_iff)
next
  case (3 w d w')
  then show ?case by (rule pool_inv_context)
next
  case (4 w d n r w')
  have d: "d \<noteq> c" using 4(2) under_size [of c d] by (auto simp: lent_by_iff)
  obtain ctx free where ctx: "pools w c = Some ctx" "pool_shape c w ctx" "pool_free c w ctx free"
    using 4(1) by (rule pool_invE)
  have "lent_by c q" if "pool_free_head ctx = Some q" for q
    using that pool_freeD(1,3) [OF ctx(3)] lent_pool_all [of q c ctx] by (cases free) (auto split: option.splits)
  then have "\<not> lent_by d q" if "pool_free_head ctx = Some q" for q
    using that d by (auto simp: lent_by_iff)
  then show ?case
    using 4 d ctx(1) by (auto simp: pool_al_def pool_alloc_def same_child_def bind_eq_Some_conv
        split: if_splits option.splits)
next
  case (8 w d p n w')
  have d: "d \<noteq> c" using 8(2) under_size [of c d] by (auto simp: lent_by_iff)
  have "\<not> lent_by d p" using 8(4) d by (auto simp: lent_by_iff)
  then show ?case
    using 8 d by (auto simp: pool_al_def pool_dealloc_def same_child_def bind_eq_Some_conv)
qed (simp_all add: pool_al_def)

interpretation pool: host "pool_al junk self c" "pool_inv c" "lent_by c"
  for junk self c
  by (rule pool_host)

text \<open>The blocks it lends are disjoint, so a pool can be the parent of any other allocator.\<close>

interpretation pool_disjoint: disjoint_host "pool_al junk self c" "pool_inv c" "lent_by c"
  for junk self c
proof
  fix w p q bs cs
  assume w: "pool_inv c w" and l: "lent_by c p" "lent_by c q" "p \<noteq> q" "heap w p = Some bs" "heap w q = Some cs"
  obtain ctx free where ctx: "pools w c = Some ctx" "pool_shape c w ctx" "pool_free c w ctx free" using pool_invE [OF w] .
  let ?d = "addr_of (pool_data ctx)" and ?s = "pool_block_size ctx"
  have blk: "(\<exists>i. t = In c (?d + ?s * i)) \<and> length b \<le> ?s" if "lent_by c t" "heap w t = Some b" for t b
    using pool_freeD(5,6) [OF ctx(3), of t] that by (auto simp: pool_all_def)
  obtain i j where ij: "p = In c (?d + ?s * i)" "q = In c (?d + ?s * j)" using blk [OF l(1,4)] blk [OF l(2,5)] by blast
  have step: "?s * u + ?s \<le> ?s * v" if "u < v" for u v :: nat using mult_le_mono2 [of "Suc u" v ?s] that by simp
  have "i \<noteq> j" using ij l(3) by auto
  then consider "i < j" | "j < i" by linarith
  then show "addr_of p + length bs \<le> addr_of q \<or> addr_of q + length cs \<le> addr_of p"
    using step [of i j] step [of j i] blk [OF l(1,4)] blk [OF l(2,5)] ij by cases auto
qed

section \<open>Building the free list\<close>

lemma pool_link_chain:
  assumes "distinct (map (pool_block c ctx) is)"
  shows "\<exists>nodes' head. fold (pool_link c ctx) (rev is) (nodes, None) = (nodes', head)
    \<and> chain nodes' head (map (pool_block c ctx) is)
    \<and> (\<forall>p. p \<notin> set (map (pool_block c ctx) is) \<longrightarrow> nodes' p = nodes p)"
  using assms
proof (induction "is")
  case (Cons i js)
  let ?b = "pool_block c ctx"
  obtain n' head where IH: "fold (pool_link c ctx) (rev js) (nodes, None) = (n', head)"
    "chain n' head (map ?b js)" "\<And>p. p \<notin> set (map ?b js) \<Longrightarrow> n' p = nodes p"
    using Cons by auto
  have "chain (n'(?b i \<mapsto> head)) head (map ?b js) = chain n' head (map ?b js)"
  proof (rule chain_cong)
    fix p
    assume "p \<in> set (map ?b js)"
    then have "p \<noteq> ?b i" using Cons.prems by fastforce
    then show "(n'(?b i \<mapsto> head)) p = n' p" by simp
  qed
  moreover have "pool_link c ctx i (n', head) = (n'(?b i \<mapsto> head), Some (?b i))" by (simp add: pool_link_def)
  ultimately show ?case using IH by simp
qed simp

lemma pool_build_spec:
  assumes ctx: "pools w c = Some ctx" "pool_shape c w ctx" "pool_used ctx = 0"
    and none: "\<And>p. lent_by c p \<Longrightarrow> heap w p = None"
  shows "\<exists>w' ctx'. pool_build_free_list c w = Some w' \<and> heap w' = heap w
    \<and> pools w' c = Some ctx' \<and> pool_used ctx' = 0 \<and> pool_data ctx' = pool_data ctx
    \<and> pool_block_size ctx' = pool_block_size ctx \<and> pool_block_count ctx' = pool_block_count ctx
    \<and> pool_shape c w' ctx' \<and> pool_free c w' ctx' (pool_all c ctx') \<and> same_outside c w w'"
proof -
  let ?d = "addr_of (pool_data ctx)" and ?s = "pool_block_size ctx" and ?n = "pool_block_count ctx"
  have s: "0 < ?s" "?d + ?s * ?n \<le> SIZE_MAX" using ctx(2) by (simp_all add: pool_shape_def)
  have blk: "pool_block c ctx i = In c (?d + ?s * i)" if "i < ?n" for i
  proof -
    have "?s * i \<le> ?s * ?n" using that by (intro mult_le_mono2) simp
    then have "size_mul ?s i = ?s * i" using s by (intro size_mul_exact) linarith
    then show ?thesis by (simp add: pool_block_def)
  qed
  then have all: "map (pool_block c ctx) [0..<?n] = pool_all c ctx" by (simp add: pool_all_def)
  obtain nodes head where l: "fold (pool_link c ctx) (rev [0..<?n]) (pool_nodes w, None) = (nodes, head)"
    "chain nodes head (pool_all c ctx)" "\<And>p. p \<notin> set (pool_all c ctx) \<Longrightarrow> nodes p = pool_nodes w p"
    using pool_link_chain [of c ctx "[0..<?n]" "pool_nodes w"] distinct_pool_all [OF s(1), of c]
    unfolding all by blast
  let ?ctx = "ctx\<lparr>pool_free_head := head\<rparr>"
  let ?w = "w\<lparr>pool_nodes := nodes, pools := (pools w)(c \<mapsto> ?ctx)\<rparr>"
  have all': "pool_all c ?ctx = pool_all c ctx" by (rule pool_all_cong) simp_all
  have sh: "pool_shape c ?w ?ctx" by (rule pool_shape_cong [OF ctx(2)]) simp_all
  have fr: "pool_free c ?w ?ctx (pool_all c ?ctx)"
    by (rule pool_freeI)
      (use l(2) none ctx(3) distinct_pool_all [OF s(1), of c] in \<open>simp_all add: all'\<close>)
  have so: "same_outside c w ?w"
    using l(3) lent_pool_all [of _ c ctx] by (auto simp: same_outside_def)
  have r: "pool_build_free_list c w = Some ?w"
    using l(1) ctx(1) by (simp add: pool_build_free_list_def)
  show ?thesis
    by (rule exI [of _ ?w], rule exI [of _ ?ctx]) (use r sh fr so ctx(3) in simp)
qed

lemma pool_reset_spec:
  assumes w: "pool_inv c w" and ctx: "pools w c = Some ctx"
  shows "\<exists>w' ctx'. tda_al_pool_reset (pool_al junk obj c) w = Some w' \<and> pool_inv c w'
    \<and> heap w' = (\<lambda>p. if lent_by c p then None else heap w p)
    \<and> pools w' c = Some ctx' \<and> pool_used ctx' = 0 \<and> pool_block_count ctx' = pool_block_count ctx
    \<and> pool_free c w' ctx' (pool_all c ctx')"
proof -
  have sh: "pool_shape c w ctx" using w ctx by (auto simp: pool_inv_def)
  let ?ctx = "ctx\<lparr>pool_used := 0\<rparr>"
  let ?w1 = "(retire (lent_by c) w)\<lparr>pools := (pools (retire (lent_by c) w))(c \<mapsto> ?ctx)\<rparr>"
  have "pool_shape c ?w1 ?ctx"
    using pool_data_not_lent [OF sh] by (intro pool_shape_cong [OF sh]) auto
  then obtain w' ctx' where r: "pool_build_free_list c ?w1 = Some w'" "heap w' = heap ?w1"
    "pools w' c = Some ctx'" "pool_used ctx' = 0" "pool_block_count ctx' = pool_block_count ctx"
    "pool_shape c w' ctx'" "pool_free c w' ctx' (pool_all c ctx')"
    using pool_build_spec [of ?w1 c ?ctx] by auto
  moreover have "pool_inv c w'" using r by (auto simp: pool_inv_def)
  ultimately show ?thesis
    using ctx by (auto simp: tda_al_pool_reset_def pool_al_def retire_def)
qed

lemma pool_stats_spec:
  assumes "pool_inv c w"
  shows "\<exists>st. tda_al_pool_stats (pool_al junk obj c) w = Some st
    \<and> pool_stats_used st = card {p. lent_by c p \<and> heap w p \<noteq> None}
    \<and> pool_stats_used st + pool_stats_free st = pool_stats_block_count st
    \<and> (\<forall>n. 0 < n \<longrightarrow> n \<le> pool_stats_block_size st \<longrightarrow>
         (0 < pool_stats_free st \<longleftrightarrow> (\<exists>p w'. pool_alloc junk c w n = Some (Some p, w'))))"
proof -
  obtain ctx free where ctx: "pools w c = Some ctx" "pool_shape c w ctx" "pool_free c w ctx free"
    using assms(1) by (rule pool_invE)
  have u: "card {p. lent_by c p \<and> heap w p \<noteq> None} = pool_used ctx"
    using pool_used_card [OF ctx(3)] ctx(2) by (simp add: pool_shape_def)
  have le: "pool_used ctx + length free = pool_block_count ctx" by (rule pool_freeD(4) [OF ctx(3)])
  have "0 < pool_block_count ctx - pool_used ctx \<longleftrightarrow> (\<exists>p w'. pool_alloc junk c w n = Some (Some p, w'))"
    if "0 < n" "n \<le> pool_block_size ctx" for n
    using pool_alloc_exact [OF ctx that(1), of junk] that le by (auto split: if_splits)
  then show ?thesis using ctx(1) u le by (simp add: tda_al_pool_stats_def pool_al_def)
qed


section \<open>Life cycle\<close>

definition pool_made :: "(ptr \<Rightarrow> bool) \<Rightarrow> nat \<Rightarrow> nat \<Rightarrow> 's world \<Rightarrow> ptr \<Rightarrow> ptr \<Rightarrow> 's world \<Rightarrow> bool" where
  "pool_made owned bs cnt w c obj w' \<longleftrightarrow> (\<exists>ctx bd bc bo.
     pools w' c = Some ctx \<and> pool_block_size ctx = bs \<and> pool_block_count ctx = cnt \<and> pool_used ctx = 0
     \<and> pool_free c w' ctx (pool_all c ctx)
     \<and> owned (pool_data ctx) \<and> owned c \<and> owned obj
     \<and> pool_data ctx \<noteq> c \<and> pool_data ctx \<noteq> obj \<and> c \<noteq> obj
     \<and> heap w (pool_data ctx) = None \<and> heap w c = None \<and> heap w obj = None
     \<and> length bd = bs * cnt \<and> length bc = sizeof_PoolCtx \<and> length bo = sizeof_tda_Al
     \<and> heap w' = (heap w)(c \<mapsto> bc, pool_data ctx \<mapsto> bd, obj \<mapsto> bo))"

lemma none_upd: "m p = None \<Longrightarrow> m(p := None) = m"
  by auto

definition pool_round :: "nat \<Rightarrow> nat" where
  "pool_round n = al16 (if n < sizeof_PoolNode then sizeof_PoolNode else n)"

lemma pool_round_ge: "n \<le> pool_round n" "16 dvd pool_round n" "0 < pool_round n"
  using al16_ge [of n] by (auto simp: pool_round_def sizeof_PoolNode_def al16_def)

text \<open>Nothing the parent keeps depends on what the pool stores about itself.\<close>

lemma same_outside_forget: "same_outside c w (pool_forget c w)"
  by (auto simp: same_outside_def pool_forget_def)

lemma tda_al_pool_new_unfold:
  assumes n: "0 < n" "0 < cnt" "pool_round n * cnt \<le> SIZE_MAX"
  shows "tda_al_pool_new junk al n cnt w = do {
     (rc, w1) \<leftarrow> tda_alloc al w sizeof_PoolCtx;
     (case rc of None \<Rightarrow> Some (None, w1) | Some c \<Rightarrow> do {
        (rd, w2) \<leftarrow> tda_alloc al w1 (pool_round n * cnt);
        (case rd of
           None \<Rightarrow> do { w3 \<leftarrow> tda_dealloc al w2 (Some c) sizeof_PoolCtx; Some (None, w3) }
         | Some d \<Rightarrow> do {
             aligned \<leftarrow> tda_ptr_is_aligned (addr_of d) TDA_DEFAULT_ALIGNMENT;
             c_assert aligned;
             let ctx = \<lparr>pool_data = d, pool_free_head = None, pool_block_size = pool_round n,
               pool_block_count = cnt, pool_used = 0\<rparr>;
             w3 \<leftarrow> pool_build_free_list c (w2\<lparr>pools := (pools w2)(c \<mapsto> ctx)\<rparr>);
             (ro, w4) \<leftarrow> tda_alloc al w3 sizeof_tda_Al;
             (case ro of
                None \<Rightarrow> do {
                  w5 \<leftarrow> tda_dealloc al (pool_forget c w4) (Some d) (pool_round n * cnt);
                  w6 \<leftarrow> tda_dealloc al w5 (Some c) sizeof_PoolCtx;
                  Some (None, w6)
                }
              | Some obj \<Rightarrow> Some (Some (pool_al junk obj c), w4))
           }) })
   }"
proof -
  have le: "pool_round n * 1 \<le> pool_round n * cnt" using n(2) by (intro mult_le_mono2) simp
  have r: "pool_round n \<le> SIZE_MAX" by (rule order_trans [OF _ n(3)]) (use le in simp)
  define m where "m = (if n < sizeof_PoolNode then sizeof_PoolNode else n)"
  have "m \<le> SIZE_MAX - 15"
    using r unfolding pool_round_def m_def [symmetric] al16_def SIZE_MAX_num by presburger
  then have "tda_ckd_align_up m TDA_DEFAULT_ALIGNMENT = Some (Some (pool_round n))"
    by (simp add: ckd_align_up_16 pool_round_def m_def)
  then show ?thesis
    using n by (simp add: tda_al_pool_new_def m_def [symmetric] ckd_mul_def)
qed

context host
begin

lemma pool_new_spec:
  assumes w: "inv w" "no_orphans owned w" and n: "0 < n" "0 < cnt" "pool_round n * cnt \<le> SIZE_MAX"
  shows "\<exists>r w'. tda_al_pool_new junk al n cnt w = Some (r, w') \<and> inv w'
    \<and> (case r of None \<Rightarrow> heap w' = heap w
       | Some a \<Rightarrow> \<exists>c obj. a = pool_al junk obj c \<and> pool_inv c w'
           \<and> pool_made owned (pool_round n) cnt w c obj w')"
proof -
  let ?bs = "pool_round n" and ?tot = "pool_round n * cnt"
  note unf = tda_al_pool_new_unfold [OF n, of junk al w]
  have sz: "sizeof_PoolCtx \<le> SIZE_MAX" "sizeof_tda_Al \<le> SIZE_MAX"
    by (simp_all add: sizeof_PoolCtx_def sizeof_tda_Al_def SIZE_MAX_num)
  show ?thesis
  proof (rule alloc_cases [OF w(1) sz(1)], goal_cases)
    case (1 w1)
    then show ?case by (simp add: unf)
  next
    case (2 c w1 bc)
    note c = 2
    show ?case
    proof (rule alloc_cases [OF c(2) n(3)], goal_cases)
      case (1 w2)
      have "heap w2 c = Some bc" using 1 c by simp
      then obtain w3 where w3: "tda_dealloc al w2 (Some c) sizeof_PoolCtx = Some w3" "inv w3"
        "heap w3 = (heap w2)(c := None)"
        using dealloc_some [of w2 c bc] 1(2) c by metis
      have "heap w3 = heap w" using w3(3) 1 c by (simp add: none_upd)
      then show ?case using 1(1) c(1) w3(1,2) by (simp add: unf)
    next
      case (2 d w2 bd)
      note d = 2
      have hc: "heap w2 c = Some bc" "heap w2 d = Some bd" "d \<noteq> c" using d c by (auto split: if_splits)
      have al: "16 dvd addr_of d" "addr_of d + ?tot \<le> SIZE_MAX"
        using host_aligned [OF d(2,4) hc(2)] d(6) by auto
      have al_ok: "tda_ptr_is_aligned (addr_of d) TDA_DEFAULT_ALIGNMENT = Some True"
        using tda_ptr_is_aligned_pow2 [of 4 "addr_of d"] al by (simp add: TDA_DEFAULT_ALIGNMENT_def)
      let ?ctx = "\<lparr>pool_data = d, pool_free_head = None, pool_block_size = ?bs, pool_block_count = cnt, pool_used = 0\<rparr>"
      let ?w2 = "w2\<lparr>pools := (pools w2)(c \<mapsto> ?ctx)\<rparr>"
      have ap: "\<not> under c d" "\<not> lent_by c c" using host_apart d(4) c(4) lent_by_under by blast+
      have i2: "inv ?w2" by (rule host_context [OF d(2) c(4)]) (simp add: same_outside_def)
      have sh: "pool_shape c ?w2 ?ctx"
        using pool_round_ge [of n] n al ap hc d(6) by (simp add: pool_shape_def block_at_def)
      have none: "heap ?w2 p = None" if "lent_by c p" for p
      proof -
        have "p \<noteq> c" "p \<noteq> d" using that ap lent_by_under by auto
        moreover have "heap w p = None" using that w(2) c(4,5) by (auto simp: no_orphans_def)
        ultimately show ?thesis using c d by simp
      qed
      obtain w3 ctx where b: "pool_build_free_list c ?w2 = Some w3" "heap w3 = heap ?w2" "pools w3 c = Some ctx"
        "pool_used ctx = 0" "pool_data ctx = d" "pool_block_size ctx = ?bs" "pool_block_count ctx = cnt"
        "pool_shape c w3 ctx" "pool_free c w3 ctx (pool_all c ctx)" "same_outside c ?w2 w3"
        using pool_build_spec [OF _ sh _ none] by auto
      have i3: "inv w3" by (rule host_context [OF i2 c(4) b(10)])
      have h3: "heap w3 = (heap w)(c \<mapsto> bc, d \<mapsto> bd)" using b(2) c d by simp
      show ?case
      proof (rule alloc_cases [OF i3 sz(2)], goal_cases)
        case (1 w4)
        let ?w4 = "pool_forget c w4"
        have i4: "inv ?w4" by (rule host_context [OF 1(2) c(4) same_outside_forget])
        have none4: "heap w4 p = None" if "lent_by c p" for p using none [OF that] 1(3) b(2) by simp
        then have h4: "heap ?w4 = heap w3" using 1(3) by (auto simp: pool_forget_def)
        then have "heap ?w4 d = Some bd" using h3 by simp
        then obtain w5 where w5: "tda_dealloc al ?w4 (Some d) ?tot = Some w5" "inv w5" "heap w5 = (heap ?w4)(d := None)"
          using dealloc_some [OF i4 d(4) _ d(6)] by blast
        have h5: "heap w5 = (heap w)(c \<mapsto> bc)" using w5(3) h4 h3 d(5) c(7) hc(3) by (simp add: none_upd)
        then have "heap w5 c = Some bc" by simp
        then obtain w6 where w6: "tda_dealloc al w5 (Some c) sizeof_PoolCtx = Some w6" "inv w6"
          "heap w6 = (heap w5)(c := None)"
          using dealloc_some [OF w5(2) c(4) _ c(6)] by blast
        have "heap w6 = heap w" using w6(3) h5 c(5) by (simp add: none_upd)
        then show ?case using 1(1) c(1) d(1) al_ok b(1) w5(1) w6(1,2) by (simp add: unf)
      next
        case (2 obj w4 bo)
        note o = 2
        have ne: "heap w obj = None" "obj \<noteq> c" "obj \<noteq> d" "heap w d = None"
          using o(5) h3 d(5) c(7) by (auto split: if_splits)
        have live: "heap w3 c \<noteq> None" using h3 by simp
        have al4: "al_alloc al w3 sizeof_tda_Al = Some (Some obj, w4)"
          using o(1) by (simp add: tda_alloc_def split: if_splits)
        have ch: "same_child c w3 w4" by (rule host_alloc_child [OF i3 c(4) live _ sz(2) al4]) (simp add: sizeof_tda_Al_def)
        have "\<not> under c obj" using host_apart o(4) c(4) by blast
        have nobj: "\<not> lent_by c obj" using host_apart o(4) c(4) lent_by_under by blast
        have all: "pool_data ctx \<noteq> obj" using b(5) ne by simp
        have keep: "heap w4 p = heap w3 p" if "p = pool_data ctx \<or> lent_by c p" for p
          using that all nobj o(7) by auto
        have nodes: "pool_nodes w4 p = pool_nodes w3 p" if "lent_by c p" for p
          using ch that by (simp add: same_child_def)
        note pf = pool_free_same [OF b(8,9) nodes]
        have sh4: "pool_shape c w4 ctx" "pool_free c w4 ctx (pool_all c ctx)"
          using pf keep by simp_all
        have pc: "pools w4 c = Some ctx" using ch b(3) by (simp add: same_child_def)
        have "heap w4 = (heap w)(c \<mapsto> bc, d \<mapsto> bd, obj \<mapsto> bo)" using o(7) h3 by simp
        then have "pool_made owned ?bs cnt w c obj w4"
          unfolding pool_made_def using b(4-7) sh4 pc d c o ne hc
          by (intro exI [of _ ctx] exI [of _ bd] exI [of _ bc] exI [of _ bo]) simp
        moreover have "pool_inv c w4" using pc sh4 by (auto simp: pool_inv_def)
        ultimately show ?case
          using o(1,2) c(1) d(1) al_ok b(1) by (simp add: unf) blast
      qed
    qed
  qed
qed

lemma pool_drop_spec:
  assumes w: "inv w" "pool_inv c w" and ctx: "pools w c = Some ctx"
    and own: "owned (pool_data ctx)" "owned c" "owned obj"
    and ne: "pool_data ctx \<noteq> c" "pool_data ctx \<noteq> obj" "c \<noteq> obj"
    and blocks: "block_at w c sizeof_PoolCtx" "block_at w obj sizeof_tda_Al"
  shows "\<exists>w'. tda_al_pool_drop al (Some (pool_al junk obj c)) w = Some w' \<and> inv w'
    \<and> heap w' = (\<lambda>p. if lent_by c p \<or> p \<in> {pool_data ctx, c, obj} then None else heap w p)"
proof -
  let ?d = "pool_data ctx" and ?w0 = "pool_forget c w"
  have nl: "\<not> lent_by c ?d" "\<not> lent_by c c" "\<not> lent_by c obj"
    using host_apart [OF _ own(2)] own lent_by_under by blast+
  have i0: "inv ?w0" by (rule host_context [OF w(1) own(2) same_outside_forget])
  have sh: "pool_shape c w ctx" using w(2) ctx by (auto simp: pool_inv_def)
  then have sz: "size_mul (pool_block_size ctx) (pool_block_count ctx) = pool_block_size ctx * pool_block_count ctx"
    by (intro size_mul_exact) (simp add: pool_shape_def)
  obtain bd where bd: "heap w ?d = Some bd" "length bd = pool_block_size ctx * pool_block_count ctx"
    using sh by (auto simp: pool_shape_def block_at_def)
  obtain bc bo where b: "heap w c = Some bc" "length bc = sizeof_PoolCtx"
    "heap w obj = Some bo" "length bo = sizeof_tda_Al"
    using blocks by (auto simp: block_at_def)
  have h0: "heap ?w0 ?d = Some bd" "heap ?w0 c = Some bc" "heap ?w0 obj = Some bo"
    using nl bd b by (simp_all add: pool_forget_def)
  obtain w1 where w1: "tda_dealloc al ?w0 (Some ?d) (pool_block_size ctx * pool_block_count ctx) = Some w1" "inv w1"
    "heap w1 = (heap ?w0)(?d := None)"
    using dealloc_some [OF i0 own(1) h0(1) bd(2)] .
  have h1: "heap w1 c = Some bc" "heap w1 obj = Some bo" using w1(3) h0 ne by simp_all
  obtain w2 where w2: "tda_dealloc al w1 (Some c) sizeof_PoolCtx = Some w2" "inv w2" "heap w2 = (heap w1)(c := None)"
    using dealloc_some [OF w1(2) own(2) h1(1) b(2)] .
  have h2: "heap w2 obj = Some bo" using w2(3) h1 ne by simp
  obtain w3 where w3: "tda_dealloc al w2 (Some obj) sizeof_tda_Al = Some w3" "inv w3" "heap w3 = (heap w2)(obj := None)"
    using dealloc_some [OF w2(2) own(3) h2 b(4)] .
  have "heap w3 = (\<lambda>p. if lent_by c p \<or> p \<in> {?d, c, obj} then None else heap w p)"
    using w1(3) w2(3) w3(3) by (auto simp: fun_eq_iff pool_forget_def)
  then show ?thesis
    using ctx w1(1) w2(1) w3(1,2) sz by (simp add: tda_al_pool_drop_def pool_al_def)
qed

end

end
