(* ===== verification/Tda_Log.thy ===== *)
theory Tda_Log
  imports Tda_Alloc
begin

text \<open>
  The logging allocator (\<open>src/alloc/log.c\<close>): every call goes to the wrapped allocator and
  leaves one line. \<open>logs\<close> maps the address of a \<open>LogCtx\<close> to the lines written through it.
  How \<open>%p\<close> prints a pointer is the C library's choice, the parameter \<open>show_ptr\<close>.
  Over any host the log keeps the host's contract, answers as the host does, and writes
  exactly one line a call.
\<close>

definition sizeof_LogCtx :: nat where
  "sizeof_LogCtx = 16"

text \<open>\<open>%zu\<close>.\<close>

fun show_size :: "nat \<Rightarrow> string" where
  "show_size n = (if n < 10 then [char_of (48 + n)] else show_size (n div 10) @ [char_of (48 + n mod 10)])"

declare show_size.simps [simp del]

definition newline :: string where
  "newline = [char_of (10::nat)]"

definition log_line :: "ptr \<Rightarrow> string \<Rightarrow> 's world \<Rightarrow> 's world option" where
  "log_line c line w = do {
     ls \<leftarrow> logs w c;
     Some (w\<lparr>logs := (logs w)(c \<mapsto> ls @ [line])\<rparr>)
   }"

definition alloc_line :: "(ptr option \<Rightarrow> string) \<Rightarrow> nat \<Rightarrow> ptr option \<Rightarrow> string" where
  "alloc_line show_ptr sz p = ''[TDA] alloc size = '' @ show_size sz @ '' -> '' @ show_ptr p @ newline"

definition calloc_line :: "(ptr option \<Rightarrow> string) \<Rightarrow> nat \<Rightarrow> nat \<Rightarrow> ptr option \<Rightarrow> string" where
  "calloc_line show_ptr num sz p =
     ''[TDA] calloc num = '' @ show_size num @ '' size = '' @ show_size sz @ '' -> '' @ show_ptr p @ newline"

definition realloc_line ::
  "(ptr option \<Rightarrow> string) \<Rightarrow> ptr option \<Rightarrow> nat \<Rightarrow> nat \<Rightarrow> ptr option \<Rightarrow> string" where
  "realloc_line show_ptr old old_size new_size p =
     ''[TDA] realloc '' @ show_ptr old @ '' old size = '' @ show_size old_size
       @ '' new_size = '' @ show_size new_size @ '' -> '' @ show_ptr p @ newline"

definition dealloc_line :: "(ptr option \<Rightarrow> string) \<Rightarrow> ptr \<Rightarrow> nat \<Rightarrow> string" where
  "dealloc_line show_ptr p sz = ''[TDA] dealloc '' @ show_ptr (Some p) @ '' size = '' @ show_size sz @ newline"

definition log_alloc ::
  "(ptr option \<Rightarrow> string) \<Rightarrow> 's al \<Rightarrow> ptr \<Rightarrow> 's world \<Rightarrow> nat \<Rightarrow> (ptr option \<times> 's world) option" where
  "log_alloc show_ptr wrapped c w sz = do {
     (p, w1) \<leftarrow> tda_alloc wrapped w sz;
     w2 \<leftarrow> log_line c (alloc_line show_ptr sz p) w1;
     Some (p, w2)
   }"

definition log_calloc ::
  "(ptr option \<Rightarrow> string) \<Rightarrow> 's al \<Rightarrow> ptr \<Rightarrow> 's world \<Rightarrow> nat \<Rightarrow> nat \<Rightarrow> (ptr option \<times> 's world) option" where
  "log_calloc show_ptr wrapped c w num sz = do {
     (p, w1) \<leftarrow> tda_calloc wrapped w num sz;
     w2 \<leftarrow> log_line c (calloc_line show_ptr num sz p) w1;
     Some (p, w2)
   }"

definition log_realloc ::
  "(ptr option \<Rightarrow> string) \<Rightarrow> 's al \<Rightarrow> ptr \<Rightarrow> 's world \<Rightarrow> ptr option \<Rightarrow> nat \<Rightarrow> nat \<Rightarrow> (ptr option \<times> 's world) option" where
  "log_realloc show_ptr wrapped c w old old_size new_size = do {
     (p, w1) \<leftarrow> tda_realloc wrapped w old old_size new_size;
     w2 \<leftarrow> log_line c (realloc_line show_ptr old old_size new_size p) w1;
     Some (p, w2)
   }"

definition log_dealloc ::
  "(ptr option \<Rightarrow> string) \<Rightarrow> 's al \<Rightarrow> ptr \<Rightarrow> 's world \<Rightarrow> ptr \<Rightarrow> nat \<Rightarrow> 's world option" where
  "log_dealloc show_ptr wrapped c w p sz = do {
     w1 \<leftarrow> log_line c (dealloc_line show_ptr p sz) w;
     tda_dealloc wrapped w1 (Some p) sz
   }"

definition log_al :: "(ptr option \<Rightarrow> string) \<Rightarrow> 's al \<Rightarrow> ptr \<Rightarrow> ptr \<Rightarrow> 's al" where
  "log_al show_ptr wrapped self c = \<lparr>
     al_self = self,
     al_ctx = Some c,
     al_alloc = log_alloc show_ptr wrapped c,
     al_calloc = Some (log_calloc show_ptr wrapped c),
     al_realloc = Some (log_realloc show_ptr wrapped c),
     al_dealloc = log_dealloc show_ptr wrapped c\<rparr>"

definition tda_al_log_new ::
  "(ptr option \<Rightarrow> string) \<Rightarrow> 's al \<Rightarrow> 's world \<Rightarrow> ('s al option \<times> 's world) option" where
  "tda_al_log_new show_ptr wrapped w = do {
     (rc, w1) \<leftarrow> tda_alloc wrapped w sizeof_LogCtx;
     (case rc of
        None \<Rightarrow> Some (None, w1)
      | Some c \<Rightarrow> do {
          let w2 = w1\<lparr>logs := (logs w1)(c \<mapsto> [])\<rparr>;
          (ro, w3) \<leftarrow> tda_alloc wrapped w2 sizeof_tda_Al;
          (case ro of
             None \<Rightarrow> do { w4 \<leftarrow> tda_dealloc wrapped w3 (Some c) sizeof_LogCtx; Some (None, w4) }
           | Some obj \<Rightarrow> do {
               w4 \<leftarrow> log_line c (''[TDA] log allocator created (wrapping '' @ show_ptr (Some (al_self wrapped)) @ '')'' @ newline) w3;
               Some (Some (log_al show_ptr wrapped obj c), w4)
             })
        })
   }"

definition tda_al_log_drop ::
  "(ptr option \<Rightarrow> string) \<Rightarrow> 's al \<Rightarrow> 's al option \<Rightarrow> 's world \<Rightarrow> 's world option" where
  "tda_al_log_drop show_ptr wrapped self w = (case self of
      None \<Rightarrow> Some w
    | Some al \<Rightarrow> do {
        c \<leftarrow> al_ctx al;
        w1 \<leftarrow> log_line c (''[TDA] log allocator destroyed (wrapping '' @ show_ptr (Some (al_self wrapped)) @ '')'' @ newline) w;
        w2 \<leftarrow> tda_dealloc wrapped w1 (Some c) sizeof_LogCtx;
        tda_dealloc wrapped w2 (Some (al_self al)) sizeof_tda_Al
      })"

text \<open>
  A call through the log answers as the wrapped allocator's call and leaves the heap as it does, and
  the log has exactly one line more, the line of that answer.
\<close>

definition answers_and_logs ::
  "'s world \<Rightarrow> ptr \<Rightarrow> (ptr option \<Rightarrow> string) \<Rightarrow> (ptr option \<times> 's world) option \<Rightarrow> (ptr option \<times> 's world) option \<Rightarrow> bool" where
  "answers_and_logs w c line out wrapped \<longleftrightarrow> (\<exists>r w' w1. out = Some (r, w') \<and> wrapped = Some (r, w1) \<and> heap w' = heap w1
     \<and> logs w' c = Some (the (logs w c) @ [line r]))"

text \<open>The wrappers of \<open>alloc.c\<close> hand such calls to the callbacks.\<close>

lemma log_calls:
  "0 < n \<Longrightarrow> tda_alloc (log_al sp al self c) w n = log_alloc sp al c w n"
  "0 < m \<Longrightarrow> 0 < n \<Longrightarrow> m * n \<le> SIZE_MAX \<Longrightarrow> tda_calloc (log_al sp al self c) w m n = log_calloc sp al c w m n"
  "0 < n \<Longrightarrow> tda_realloc (log_al sp al self c) w None 0 n = log_realloc sp al c w None 0 n"
  "0 < n \<Longrightarrow> tda_realloc (log_al sp al self c) w (Some p) k n = log_realloc sp al c w (Some p) k n"
  "tda_dealloc (log_al sp al self c) w (Some p) k = log_dealloc sp al c w p k"
  by (simp_all add: tda_alloc_def tda_calloc_def tda_realloc_def tda_dealloc_def log_al_def ckd_mul_def)

section \<open>The contract\<close>

definition log_inv :: "('s world \<Rightarrow> bool) \<Rightarrow> ptr \<Rightarrow> 's world \<Rightarrow> bool" where
  "log_inv I c w \<longleftrightarrow> I w \<and> heap w c \<noteq> None \<and> logs w c \<noteq> None"

text \<open>The blocks of the log's clients: all of the host's but the one with the log's context.\<close>

definition log_owned :: "(ptr \<Rightarrow> bool) \<Rightarrow> ptr \<Rightarrow> ptr \<Rightarrow> bool" where
  "log_owned owned c p \<longleftrightarrow> owned p \<and> p \<noteq> c"

context host
begin

lemma log_line_ok:
  assumes "inv w" "owned c" "logs w c = Some ls"
  obtains w' where "log_line c line w = Some w'" "inv w'" "heap w' = heap w" "logs w' c = Some (ls @ [line])"
proof
  let ?w = "w\<lparr>logs := (logs w)(c \<mapsto> ls @ [line])\<rparr>"
  show "log_line c line w = Some ?w" using assms(3) by (simp add: log_line_def)
  show "inv ?w" by (rule host_context [OF assms(1,2)]) (simp add: same_outside_def)
qed simp_all

text \<open>One call: what the host does, and one more line.\<close>

lemma log_after:
  assumes c: "owned c" and w: "log_inv inv c w" and w1: "inv w1" "heap w1 c \<noteq> None" "same_child c w w1"
  obtains w2 where "log_line c line w1 = Some w2" "log_inv inv c w2" "heap w2 = heap w1"
    "logs w2 c = Some (the (logs w c) @ [line])"
proof -
  obtain ls where ls: "logs w c = Some ls" using w by (auto simp: log_inv_def)
  then have "logs w1 c = Some ls" using w1(3) by (simp add: same_child_def)
  from log_line_ok [OF w1(1) c this] obtain w2 where
    "log_line c line w1 = Some w2" "inv w2" "heap w2 = heap w1" "logs w2 c = Some (ls @ [line])" .
  then show ?thesis using w1(2) ls that by (simp add: log_inv_def)
qed

lemma log_alloc_spec:
  assumes c: "owned c" and w: "log_inv inv c w" and n: "n \<le> SIZE_MAX"
  shows "\<exists>r w'. log_alloc sp al c w n = Some (r, w') \<and> log_inv inv c w'
    \<and> (0 < n \<longrightarrow> alloc_post (log_owned owned c) w n r w')
    \<and> logs w' c = Some (the (logs w c) @ [alloc_line sp n r])"
proof -
  have i: "inv w" "heap w c \<noteq> None" using w by (auto simp: log_inv_def)
  show ?thesis
  proof (rule alloc_cases [OF i(1) n], goal_cases)
    case (1 w1)
    have "heap w1 c \<noteq> None" using 1(3) i(2) by simp
    from log_after [OF c w 1(2) this tda_alloc_child [OF i(1) c i(2) n 1(1)], of "alloc_line sp n None"]
    obtain w2 where "log_line c (alloc_line sp n None) w1 = Some w2" "log_inv inv c w2" "heap w2 = heap w1"
      "logs w2 c = Some (the (logs w c) @ [alloc_line sp n None])" .
    then show ?case using 1 by (auto simp: log_alloc_def alloc_post_def)
  next
    case (2 p w1 bs)
    have "heap w1 c \<noteq> None" "p \<noteq> c" using 2(5,7) i(2) by auto
    from log_after [OF c w 2(2) this(1) tda_alloc_child [OF i(1) c i(2) n 2(1)], of "alloc_line sp n (Some p)"]
    obtain w2 where "log_line c (alloc_line sp n (Some p)) w1 = Some w2" "log_inv inv c w2" "heap w2 = heap w1"
      "logs w2 c = Some (the (logs w c) @ [alloc_line sp n (Some p)])" .
    then show ?case using 2 \<open>p \<noteq> c\<close> by (auto simp: log_alloc_def alloc_post_def log_owned_def)
  qed
qed

lemma log_calloc_spec:
  assumes c: "owned c" and w: "log_inv inv c w"
  shows "\<exists>r w'. log_calloc sp al c w m n = Some (r, w') \<and> log_inv inv c w'
    \<and> calloc_post (log_owned owned c) w (m * n) r w'
    \<and> logs w' c = Some (the (logs w c) @ [calloc_line sp m n r])"
proof -
  have i: "inv w" "heap w c \<noteq> None" using w by (auto simp: log_inv_def)
  show ?thesis
  proof (rule calloc_cases [OF i(1), where num = m and sz = n], goal_cases)
    case (1 w1)
    have "heap w1 c \<noteq> None" using 1(3) i(2) by simp
    from log_after [OF c w 1(2) this tda_calloc_child [OF i(1) c i(2) 1(1)], of "calloc_line sp m n None"]
    obtain w2 where "log_line c (calloc_line sp m n None) w1 = Some w2" "log_inv inv c w2" "heap w2 = heap w1"
      "logs w2 c = Some (the (logs w c) @ [calloc_line sp m n None])" .
    then show ?case using 1 by (auto simp: log_calloc_def calloc_post_def)
  next
    case (2 p w1)
    have "heap w1 c \<noteq> None" "p \<noteq> c" using 2(7,8) i(2) by auto
    from log_after [OF c w 2(2) this(1) tda_calloc_child [OF i(1) c i(2) 2(1)], of "calloc_line sp m n (Some p)"]
    obtain w2 where "log_line c (calloc_line sp m n (Some p)) w1 = Some w2" "log_inv inv c w2" "heap w2 = heap w1"
      "logs w2 c = Some (the (logs w c) @ [calloc_line sp m n (Some p)])" .
    then show ?case using 2 \<open>p \<noteq> c\<close> by (auto simp: log_calloc_def calloc_post_def log_owned_def)
  qed
qed

lemma log_realloc_null_spec:
  assumes c: "owned c" and w: "log_inv inv c w" and n: "0 < n" "n \<le> SIZE_MAX"
  shows "\<exists>r w'. log_realloc sp al c w None 0 n = Some (r, w') \<and> log_inv inv c w'
    \<and> alloc_post (log_owned owned c) w n r w'
    \<and> logs w' c = Some (the (logs w c) @ [realloc_line sp None 0 n r])"
proof -
  have i: "inv w" "heap w c \<noteq> None" using w by (auto simp: log_inv_def)
  show ?thesis
  proof (rule realloc_null_cases [OF i(1) n], goal_cases)
    case (1 w1)
    have "heap w1 c \<noteq> None" using 1(3) i(2) by simp
    from log_after [OF c w 1(2) this tda_realloc_null_child [OF i(1) c i(2) n 1(1)], of "realloc_line sp None 0 n None"]
    obtain w2 where "log_line c (realloc_line sp None 0 n None) w1 = Some w2" "log_inv inv c w2" "heap w2 = heap w1"
      "logs w2 c = Some (the (logs w c) @ [realloc_line sp None 0 n None])" .
    then show ?case using 1 by (auto simp: log_realloc_def alloc_post_def)
  next
    case (2 p w1 bs)
    have "heap w1 c \<noteq> None" "p \<noteq> c" using 2(4,6) i(2) by auto
    from log_after [OF c w 2(2) this(1) tda_realloc_null_child [OF i(1) c i(2) n 2(1)], of "realloc_line sp None 0 n (Some p)"]
    obtain w2 where "log_line c (realloc_line sp None 0 n (Some p)) w1 = Some w2" "log_inv inv c w2" "heap w2 = heap w1"
      "logs w2 c = Some (the (logs w c) @ [realloc_line sp None 0 n (Some p)])" .
    then show ?case using 2 \<open>p \<noteq> c\<close> by (auto simp: log_realloc_def alloc_post_def log_owned_def)
  qed
qed

lemma log_realloc_spec:
  assumes c: "owned c" and w: "log_inv inv c w" and p: "log_owned owned c p" "heap w p = Some old"
    and n: "0 < n" "n \<le> SIZE_MAX"
  shows "\<exists>r w'. log_realloc sp al c w (Some p) (length old) n = Some (r, w') \<and> log_inv inv c w'
    \<and> realloc_post (log_owned owned c) w p old n r w'
    \<and> logs w' c = Some (the (logs w c) @ [realloc_line sp (Some p) (length old) n r])"
proof -
  have i: "inv w" "heap w c \<noteq> None" and o: "owned p" "p \<noteq> c" using w p by (auto simp: log_inv_def log_owned_def)
  note child = tda_realloc_child [OF i(1) c i(2) o(1) p(2) o(2) n]
  let ?line = "\<lambda>r. realloc_line sp (Some p) (length old) n r"
  show ?thesis
  proof (rule realloc_some_cases [OF i(1) o(1) p(2) refl n], goal_cases)
    case (1 w1)
    have "heap w1 c \<noteq> None" using 1(3) i(2) by simp
    from log_after [OF c w 1(2) this child [OF 1(1)], of "?line None"]
    obtain w2 where "log_line c (?line None) w1 = Some w2" "log_inv inv c w2" "heap w2 = heap w1"
      "logs w2 c = Some (the (logs w c) @ [?line None])" .
    then show ?case using 1 by (auto simp: log_realloc_def realloc_post_def)
  next
    case (2 q w1 bs)
    have "heap w1 c \<noteq> None" "q \<noteq> c" using 2(4,7) i(2) o(2) by auto
    from log_after [OF c w 2(2) this(1) child [OF 2(1)], of "?line (Some q)"]
    obtain w2 where "log_line c (?line (Some q)) w1 = Some w2" "log_inv inv c w2" "heap w2 = heap w1"
      "logs w2 c = Some (the (logs w c) @ [?line (Some q)])" .
    then show ?case using 2 \<open>q \<noteq> c\<close> by (auto simp: log_realloc_def realloc_post_def log_owned_def)
  qed
qed

lemma log_dealloc_spec:
  assumes c: "owned c" and w: "log_inv inv c w" and p: "log_owned owned c p" "heap w p = Some bs"
  shows "\<exists>w'. log_dealloc sp al c w p (length bs) = Some w' \<and> log_inv inv c w' \<and> heap w' = (heap w)(p := None)
    \<and> logs w' c = Some (the (logs w c) @ [dealloc_line sp p (length bs)])"
proof -
  have i: "inv w" "heap w c \<noteq> None" and o: "owned p" "p \<noteq> c" using w p by (auto simp: log_inv_def log_owned_def)
  from log_after [OF c w i same_child_refl, of "dealloc_line sp p (length bs)"] obtain w1 where
    l: "log_line c (dealloc_line sp p (length bs)) w = Some w1" "log_inv inv c w1" "heap w1 = heap w"
      "logs w1 c = Some (the (logs w c) @ [dealloc_line sp p (length bs)])" .
  have i1: "inv w1" "heap w1 p = Some bs" "heap w1 c \<noteq> None" using l p i by (auto simp: log_inv_def)
  obtain w2 where d: "tda_dealloc al w1 (Some p) (length bs) = Some w2" "inv w2" "heap w2 = (heap w1)(p := None)"
    using dealloc_some [OF i1(1) o(1) i1(2) refl] .
  have "same_child c w1 w2" using tda_dealloc_child [OF i1(1) c i1(3) o d(1)] .
  then have "logs w2 c = logs w1 c" by (simp add: same_child_def)
  moreover have "heap w2 c \<noteq> None" using d(3) i1(3) o(2) by auto
  ultimately show ?thesis using l d by (simp add: log_dealloc_def log_inv_def)
qed

lemma log_inv_write:
  assumes "log_inv inv c w" "heap w p = Some bs" "length bs' = length bs"
  shows "log_inv inv c (w\<lparr>heap := (heap w)(p \<mapsto> bs')\<rparr>)"
  using assms write_law by (simp add: log_inv_def)

lemma log_allocator:
  assumes "owned c"
  shows "allocator (log_al sp al self c) (log_inv inv c) (log_owned owned c)"
proof (unfold_locales, goal_cases)
  case (1 w n)
  then show ?case using log_alloc_spec [OF assms, of w n sp] by (auto simp: log_al_def)
next
  case (2 f w m n)
  then show ?case using log_calloc_spec [OF assms, of w sp m n] by (auto simp: log_al_def)
next
  case (3 g w p old n)
  then show ?case using log_realloc_spec [OF assms, of w p old n sp] by (auto simp: log_al_def)
next
  case (4 g w n)
  then show ?case using log_realloc_null_spec [OF assms, of w n sp] by (auto simp: log_al_def)
next
  case (5 w p bs)
  then show ?case using log_dealloc_spec [OF assms, of w p bs sp] by (auto simp: log_al_def)
next
  case (6 w p bs bs')
  then show ?case by (rule log_inv_write)
qed

text \<open>
  Every call in one form: the answer and the heap of the wrapped allocator's call, and one more line.
\<close>

lemma log_line_heap: "log_line c line w = Some w' \<Longrightarrow> heap w' = heap w"
  by (auto simp: log_line_def bind_eq_Some_conv)

lemma log_answers:
  assumes c: "owned c" and w: "log_inv inv c w"
  shows "n \<le> SIZE_MAX \<Longrightarrow> answers_and_logs w c (alloc_line sp n) (log_alloc sp al c w n) (tda_alloc al w n)"
    and "answers_and_logs w c (calloc_line sp m n) (log_calloc sp al c w m n) (tda_calloc al w m n)"
    and "0 < n \<Longrightarrow> n \<le> SIZE_MAX \<Longrightarrow>
      answers_and_logs w c (realloc_line sp None 0 n) (log_realloc sp al c w None 0 n) (tda_realloc al w None 0 n)"
    and "log_owned owned c p \<Longrightarrow> heap w p = Some old \<Longrightarrow> 0 < n \<Longrightarrow> n \<le> SIZE_MAX \<Longrightarrow>
      answers_and_logs w c (realloc_line sp (Some p) (length old) n) (log_realloc sp al c w (Some p) (length old) n)
        (tda_realloc al w (Some p) (length old) n)"
proof -
  have a: "answers_and_logs w c (alloc_line sp n) (log_alloc sp al c w n) (tda_alloc al w n)"
    if "log_alloc sp al c w n = Some (r, w')" "logs w' c = Some (the (logs w c) @ [alloc_line sp n r])" for r w'
    using that by (auto simp: answers_and_logs_def log_alloc_def bind_eq_Some_conv dest: log_line_heap)
  show "n \<le> SIZE_MAX \<Longrightarrow> answers_and_logs w c (alloc_line sp n) (log_alloc sp al c w n) (tda_alloc al w n)"
    using log_alloc_spec [OF c w, of n sp] a by blast
  have z: "answers_and_logs w c (calloc_line sp m n) (log_calloc sp al c w m n) (tda_calloc al w m n)"
    if "log_calloc sp al c w m n = Some (r, w')" "logs w' c = Some (the (logs w c) @ [calloc_line sp m n r])" for r w'
    using that by (auto simp: answers_and_logs_def log_calloc_def bind_eq_Some_conv dest: log_line_heap)
  show "answers_and_logs w c (calloc_line sp m n) (log_calloc sp al c w m n) (tda_calloc al w m n)"
    using log_calloc_spec [OF c w, of sp m n] z by blast
  have g: "answers_and_logs w c (realloc_line sp q k n) (log_realloc sp al c w q k n) (tda_realloc al w q k n)"
    if "log_realloc sp al c w q k n = Some (r, w')" "logs w' c = Some (the (logs w c) @ [realloc_line sp q k n r])" for q k r w'
    using that by (auto simp: answers_and_logs_def log_realloc_def bind_eq_Some_conv dest: log_line_heap)
  show "0 < n \<Longrightarrow> n \<le> SIZE_MAX \<Longrightarrow>
      answers_and_logs w c (realloc_line sp None 0 n) (log_realloc sp al c w None 0 n) (tda_realloc al w None 0 n)"
    using log_realloc_null_spec [OF c w, of n sp] g by blast
  show "log_owned owned c p \<Longrightarrow> heap w p = Some old \<Longrightarrow> 0 < n \<Longrightarrow> n \<le> SIZE_MAX \<Longrightarrow>
      answers_and_logs w c (realloc_line sp (Some p) (length old) n) (log_realloc sp al c w (Some p) (length old) n)
        (tda_realloc al w (Some p) (length old) n)"
    using log_realloc_spec [OF c w, of p old n sp] g by blast
qed

text \<open>A log made and dropped: two lines, and the host's blocks as they were.\<close>

lemma log_new_spec:
  assumes w: "inv w"
  shows "\<exists>r w'. tda_al_log_new sp al w = Some (r, w') \<and> inv w'
    \<and> (case r of None \<Rightarrow> heap w' = heap w
       | Some a \<Rightarrow> \<exists>c obj bc bo line. a = log_al sp al obj c \<and> owned c \<and> log_inv inv c w' \<and> logs w' c = Some [line]
           \<and> log_owned owned c obj \<and> heap w c = None \<and> heap w obj = None
           \<and> length bc = sizeof_LogCtx \<and> length bo = sizeof_tda_Al \<and> heap w' = (heap w)(c \<mapsto> bc, obj \<mapsto> bo))"
proof -
  have sz: "sizeof_LogCtx \<le> SIZE_MAX" "sizeof_tda_Al \<le> SIZE_MAX"
    by (simp_all add: sizeof_LogCtx_def sizeof_tda_Al_def SIZE_MAX_num)
  show ?thesis
  proof (rule alloc_cases [OF w sz(1)], goal_cases)
    case (1 w1)
    then show ?case by (simp add: tda_al_log_new_def)
  next
    case (2 c w1 bc)
    note c = 2
    let ?w2 = "w1\<lparr>logs := (logs w1)(c \<mapsto> [])\<rparr>"
    have i2: "inv ?w2" by (rule host_context [OF c(2,4)]) (simp add: same_outside_def)
    show ?case
    proof (rule alloc_cases [OF i2 sz(2)], goal_cases)
      case (1 w3)
      have "heap w3 c = Some bc" using 1 c by simp
      then obtain w4 where w4: "tda_dealloc al w3 (Some c) sizeof_LogCtx = Some w4" "inv w4" "heap w4 = (heap w3)(c := None)"
        using dealloc_some [OF 1(2) c(4) _ c(6)] by blast
      have "heap w4 = heap w" using w4(3) 1(3) c(5,7) by auto
      then show ?case using 1(1) c(1) w4(1,2) by (simp add: tda_al_log_new_def)
    next
      case (2 obj w3 bo)
      let ?line = "''[TDA] log allocator created (wrapping '' @ sp (Some (al_self al)) @ '')'' @ newline"
      have ne: "obj \<noteq> c" "heap w obj = None" using 2(5) c by (auto split: if_splits)
      have live: "heap ?w2 c \<noteq> None" "heap w3 c \<noteq> None" using 2(7) c ne by auto
      have "same_child c ?w2 w3" by (rule tda_alloc_child [OF i2 c(4) live(1) sz(2) 2(1)])
      then have ls: "logs w3 c = Some []" by (simp add: same_child_def)
      obtain w4 where w4: "log_line c ?line w3 = Some w4" "inv w4" "heap w4 = heap w3" "logs w4 c = Some [?line]"
        using log_line_ok [OF 2(2) c(4) ls, of ?line] by auto
      have "log_inv inv c w4" using w4 live by (simp add: log_inv_def)
      moreover have "heap w4 = (heap w)(c \<mapsto> bc, obj \<mapsto> bo)" using w4(3) 2(7) c by simp
      ultimately show ?case
        using 2(1,4,6) c(1,4-6) w4 ne by (auto simp: tda_al_log_new_def log_owned_def)
    qed
  qed
qed

end

end
