(* ===== verification/Tda_Aligned.thy ===== *)
theory Tda_Aligned
  imports Tda_Alloc
begin

text \<open>
  The over-aligning allocator (\<open>src/alloc/aligned.c\<close>). Each block it lends, \<open>In c a\<close>, lies
  inside a larger block of its parent; the parent's block is found again through the pointer
  stored just below \<open>a\<close>, which is the store \<open>aligned_bases\<close>. \<open>aligneds\<close> holds the alignment
  of the \<open>AlignedCtx\<close> at an address. The parent's block stays in the heap while the inner
  one is lent. The invariant (\<open>aligned_inv\<close>) needs a parent whose blocks are disjoint.
\<close>

definition sizeof_AlignedCtx :: nat where
  "sizeof_AlignedCtx = 16"

definition sizeof_ptr :: nat where
  "sizeof_ptr = 8"

definition parent_size :: "nat \<Rightarrow> nat \<Rightarrow> nat" where
  "parent_size sz alignment = (sz + alignment - 1 + sizeof_ptr) mod (SIZE_MAX + 1)"

definition aligned_alloc_block ::
  "(nat \<Rightarrow> byte) \<Rightarrow> 's al \<Rightarrow> ptr \<Rightarrow> 's world \<Rightarrow> nat \<Rightarrow> (ptr option \<times> 's world) option" where
  "aligned_alloc_block junk parent c w sz = do {
     alignment \<leftarrow> aligneds w c;
     if sz = 0 then Some (None, w)
     else if sz > SIZE_MAX - (alignment - 1 + sizeof_ptr) then Some (None, w)
     else do {
       (rb, w1) \<leftarrow> tda_alloc parent w (parent_size sz alignment);
       (case rb of
          None \<Rightarrow> Some (None, w1)
        | Some base \<Rightarrow> do {
            a \<leftarrow> tda_ptr_align_up (addr_of base + sizeof_ptr) alignment;
            let p = In c a;
            ok \<leftarrow> tda_ptr_is_aligned a alignment;
            c_assert ok;
            Some (Some p, w1\<lparr>
              heap := (heap w1)(p \<mapsto> map junk [0..<sz]),
              aligned_bases := (aligned_bases w1)(p \<mapsto> base)\<rparr>)
          })
     }
   }"

definition aligned_dealloc_block :: "'s al \<Rightarrow> ptr \<Rightarrow> 's world \<Rightarrow> ptr \<Rightarrow> nat \<Rightarrow> 's world option" where
  "aligned_dealloc_block parent c w p sz = do {
     alignment \<leftarrow> aligneds w c;
     base \<leftarrow> aligned_bases w p;
     c_assert (addr_of base \<le> addr_of p);
     tda_dealloc parent (w\<lparr>heap := (heap w)(p := None), aligned_bases := (aligned_bases w)(p := None)\<rparr>)
       (Some base) (parent_size sz alignment)
   }"

definition aligned_al :: "(nat \<Rightarrow> byte) \<Rightarrow> 's al \<Rightarrow> ptr \<Rightarrow> ptr \<Rightarrow> 's al" where
  "aligned_al junk parent self c = \<lparr>
     al_self = self,
     al_ctx = Some c,
     al_alloc = aligned_alloc_block junk parent c,
     al_calloc = None,
     al_realloc = None,
     al_dealloc = aligned_dealloc_block parent c\<rparr>"

definition tda_al_aligned_new ::
  "(nat \<Rightarrow> byte) \<Rightarrow> 's al \<Rightarrow> nat \<Rightarrow> 's world \<Rightarrow> ('s al option \<times> 's world) option" where
  "tda_al_aligned_new junk parent alignment w = do {
     c_assert (alignment > 0);
     c_assert (is_pow2_c alignment);
     c_assert (alignment \<ge> TDA_DEFAULT_ALIGNMENT);
     (rc, w1) \<leftarrow> tda_alloc parent w sizeof_AlignedCtx;
     (case rc of
        None \<Rightarrow> Some (None, w1)
      | Some c \<Rightarrow> do {
          (ro, w2) \<leftarrow> tda_alloc parent w1 sizeof_tda_Al;
          (case ro of
             None \<Rightarrow> do { w3 \<leftarrow> tda_dealloc parent w2 (Some c) sizeof_AlignedCtx; Some (None, w3) }
           | Some obj \<Rightarrow> Some (Some (aligned_al junk parent obj c), w2\<lparr>aligneds := (aligneds w2)(c \<mapsto> alignment)\<rparr>))
        })
   }"

definition tda_al_aligned_drop :: "'s al \<Rightarrow> 's al option \<Rightarrow> 's world \<Rightarrow> 's world option" where
  "tda_al_aligned_drop parent self w = (case self of
      None \<Rightarrow> Some w
    | Some al \<Rightarrow> do {
        c \<leftarrow> al_ctx al;
        alignment \<leftarrow> aligneds w c;
        w1 \<leftarrow> tda_dealloc parent (w\<lparr>aligneds := (aligneds w)(c := None)\<rparr>) (Some c) sizeof_AlignedCtx;
        tda_dealloc parent w1 (Some (al_self al)) sizeof_tda_Al
      })"

section \<open>What the callbacks do\<close>

lemma align_up_bounds:
  assumes "k < 64" "v + (2 ^ k - 1) \<le> SIZE_MAX"
  shows "\<exists>a. tda_ptr_align_up v (2 ^ k) = Some a \<and> 2 ^ k dvd a \<and> v \<le> a \<and> a \<le> v + (2 ^ k - 1)
    \<and> tda_ptr_is_aligned a (2 ^ k) = Some True"
proof -
  let ?m = "(2::nat) ^ k"
  let ?a = "(v + (?m - 1)) div ?m * ?m"
  have m: "0 < ?m" by simp
  have eq: "?a + (v + (?m - 1)) mod ?m = v + (?m - 1)" by (rule div_mult_mod_eq)
  have lt: "(v + (?m - 1)) mod ?m < ?m" using m by (rule mod_less_divisor)
  have b: "v \<le> ?a" "?a \<le> v + (?m - 1)" using eq lt by linarith+
  have c1: "v \<le> SIZE_MAX - (?m - 1)" using assms(2) by linarith
  have "tda_ptr_align_up v ?m = Some ?a"
    using assms c1 unfolding tda_ptr_align_up_def
    by (simp add: is_pow2_c_pow2 round_down_c_pow2 del: div_mult_self4 mult_div_mod_eq)
  moreover have "?a \<le> SIZE_MAX" using b(2) assms(2) by linarith
  then have "tda_ptr_is_aligned ?a ?m = Some True" using assms(1) by (simp add: tda_ptr_is_aligned_pow2)
  ultimately show ?thesis using b by (intro exI [of _ ?a]) simp
qed

text \<open>
  A block lent is aligned as asked and lies, with the pointer kept below it, inside the
  parent's block; giving it back gives the parent exactly that block.
\<close>

definition aligned_lent :: "(ptr \<Rightarrow> bool) \<Rightarrow> ptr \<Rightarrow> nat \<Rightarrow> 's world \<Rightarrow> nat \<Rightarrow> ptr \<Rightarrow> ptr \<Rightarrow> bool" where
  "aligned_lent owned c alignment w n base p \<longleftrightarrow>
     lent_by c p \<and> alignment dvd addr_of p \<and> aligned_bases w p = Some base
     \<and> owned base \<and> block_at w base (n + alignment - 1 + sizeof_ptr)
     \<and> addr_of base + sizeof_ptr \<le> addr_of p
     \<and> addr_of p + n \<le> addr_of base + (n + alignment - 1 + sizeof_ptr)"

context host
begin

lemma aligned_alloc_spec:
  assumes w: "inv w" and c: "owned c" "heap w c \<noteq> None" "aligneds w c = Some (2 ^ k)" and k: "k < 64" and n: "0 < n"
  shows "\<exists>r w'. aligned_alloc_block junk al c w n = Some (r, w') \<and> inv w'
    \<and> (r = None \<longleftrightarrow> SIZE_MAX < n + 2 ^ k - 1 + sizeof_ptr \<or> (\<exists>w'. tda_alloc al w (n + 2 ^ k - 1 + sizeof_ptr) = Some (None, w')))
    \<and> (case r of None \<Rightarrow> heap w' = heap w \<and> same_child c w w'
       | Some p \<Rightarrow> \<exists>base bb. aligned_lent owned c (2 ^ k) w' n base p \<and> aligneds w' c = aligneds w c
           \<and> (\<forall>q. lent_by c q \<longrightarrow> q \<noteq> p \<longrightarrow> aligned_bases w' q = aligned_bases w q)
           \<and> heap w base = None \<and> heap w' = (heap w)(base \<mapsto> bb, p \<mapsto> map junk [0..<n]))"
proof (cases "n > SIZE_MAX - (2 ^ k - 1 + sizeof_ptr)")
  case True
  moreover have "SIZE_MAX < n + 2 ^ k - 1 + sizeof_ptr" using True n by (simp add: sizeof_ptr_def)
  ultimately show ?thesis using c(3) n w by (simp add: aligned_alloc_block_def)
next
  case False
  let ?m = "(2::nat) ^ k"
  have m: "1 \<le> ?m" by simp
  have fit: "n + ?m - 1 + sizeof_ptr \<le> SIZE_MAX" using False m n by linarith
  then have ps: "parent_size n ?m = n + ?m - 1 + sizeof_ptr" by (simp add: parent_size_def)
  show ?thesis
  proof (rule alloc_cases [OF w fit], goal_cases)
    case (1 w1)
    then show ?case using False c(3) n ps tda_alloc_child [OF w c(1,2) fit 1(1)] by (simp add: aligned_alloc_block_def)
  next
    case (2 base w1 bb)
    have lb: "heap w1 base = Some bb" using 2(7) by simp
    have ab: "addr_of base + (n + ?m - 1 + sizeof_ptr) \<le> SIZE_MAX"
      using host_aligned [OF 2(2,4) lb] 2(6) by simp
    then have "addr_of base + sizeof_ptr + (?m - 1) \<le> SIZE_MAX" using m by linarith
    then obtain a where a: "tda_ptr_align_up (addr_of base + sizeof_ptr) ?m = Some a" "?m dvd a"
      "addr_of base + sizeof_ptr \<le> a" "a \<le> addr_of base + sizeof_ptr + (?m - 1)" "tda_ptr_is_aligned a ?m = Some True"
      using align_up_bounds [OF k] by blast
    let ?w = "w1\<lparr>heap := (heap w1)(In c a \<mapsto> map junk [0..<n]), aligned_bases := (aligned_bases w1)(In c a \<mapsto> base)\<rparr>"
    have "inv ?w" by (rule host_context [OF 2(2) c(1)]) (auto simp: same_outside_def)
    moreover have "\<not> under c base" using host_apart 2(4) c(1) by blast
    then have nb: "base \<noteq> In c a" by auto
    have e: "a + n \<le> addr_of base + (n + ?m - 1 + sizeof_ptr)" using a(4) m by linarith
    have "aligned_lent owned c ?m ?w n base (In c a)"
      unfolding aligned_lent_def block_at_def
      by (intro conjI exI [of _ bb]) (use a(2,3) e 2(4,6) lb nb in simp_all)
    moreover have "aligneds w1 c = aligneds w c \<and> (\<forall>q. lent_by c q \<longrightarrow> aligned_bases w1 q = aligned_bases w q)"
      using tda_alloc_child [OF w c(1,2) fit 2(1)] by (simp add: same_child_def)
    moreover have "\<not> SIZE_MAX < n + ?m - 1 + sizeof_ptr" using fit by simp
    ultimately show ?case
      using False c(3) n ps 2(1,5,7) a by (auto simp: aligned_alloc_block_def Let_def)
  qed
qed

lemma aligned_dealloc_spec:
  assumes w: "inv w" and c: "owned c" "aligneds w c = Some (2 ^ k)" "heap w c \<noteq> None"
    and p: "aligned_lent owned c (2 ^ k) w n base p" "base \<noteq> c"
  shows "\<exists>w'. aligned_dealloc_block al c w p n = Some w' \<and> inv w' \<and> heap w' = (heap w)(p := None, base := None)
    \<and> aligneds w' c = aligneds w c \<and> (\<forall>q. lent_by c q \<longrightarrow> q \<noteq> p \<longrightarrow> aligned_bases w' q = aligned_bases w q)"
proof -
  let ?w = "w\<lparr>heap := (heap w)(p := None), aligned_bases := (aligned_bases w)(p := None)\<rparr>"
  have l: "lent_by c p" "aligned_bases w p = Some base" "owned base" "block_at w base (n + 2 ^ k - 1 + sizeof_ptr)"
    "addr_of base \<le> addr_of p"
    using p(1) by (simp_all add: aligned_lent_def)
  have i: "inv ?w" by (rule host_context [OF w c(1)]) (use l in \<open>auto simp: same_outside_def\<close>)
  obtain bb where bb: "heap w base = Some bb" "length bb = n + 2 ^ k - 1 + sizeof_ptr"
    using l(4) by (auto simp: block_at_def)
  have "base \<noteq> p" using host_apart [OF l(3) c(1)] l(1) lent_by_under by blast
  then have "heap ?w base = Some bb" using bb by simp
  from dealloc_some [OF i l(3) this bb(2)] obtain w' where
    d: "tda_dealloc al ?w (Some base) (n + 2 ^ k - 1 + sizeof_ptr) = Some w'" "inv w'" "heap w' = (heap ?w)(base := None)" .
  have "n + 2 ^ k - 1 + sizeof_ptr \<le> SIZE_MAX" using host_aligned [OF w l(3) bb(1)] bb(2) by simp
  moreover have "p \<noteq> c" using l(1) under_In_False(1) [of c] by (auto simp: lent_by_iff)
  then have "same_child c ?w w'" using c(3) p(2) by (intro tda_dealloc_child [OF i c(1) _ l(3) _ d(1)]) simp_all
  ultimately show ?thesis using l c(2) d by (auto simp: aligned_dealloc_block_def parent_size_def same_child_def)
qed

end

section \<open>Runs of a client\<close>

text \<open>
  The invariant of the allocator: every block it has lent lies in a parent's block of its own, with
  the pointer to it kept below.
\<close>

definition aligned_inv :: "('s world \<Rightarrow> bool) \<Rightarrow> (ptr \<Rightarrow> bool) \<Rightarrow> ptr \<Rightarrow> nat \<Rightarrow> 's world \<Rightarrow> bool" where
  "aligned_inv I owned c k w \<longleftrightarrow> I w \<and> owned c \<and> heap w c \<noteq> None \<and> aligneds w c = Some (2 ^ k)
     \<and> (\<forall>p xs. lent_by c p \<longrightarrow> heap w p = Some xs \<longrightarrow>
          xs \<noteq> [] \<and> (\<exists>base. base \<noteq> c \<and> aligned_lent owned c (2 ^ k) w (length xs) base p))
     \<and> (\<forall>p q. lent_by c p \<longrightarrow> lent_by c q \<longrightarrow> heap w p \<noteq> None \<longrightarrow> heap w q \<noteq> None \<longrightarrow>
          aligned_bases w p = aligned_bases w q \<longrightarrow> p = q)"

lemma aligned_invD:
  assumes "aligned_inv I owned c k w"
  shows "I w" "owned c" "heap w c \<noteq> None" "aligneds w c = Some (2 ^ k)"
    "lent_by c p \<Longrightarrow> heap w p = Some xs \<Longrightarrow> xs \<noteq> [] \<and> (\<exists>base. base \<noteq> c \<and> aligned_lent owned c (2 ^ k) w (length xs) base p)"
    "lent_by c p \<Longrightarrow> lent_by c q \<Longrightarrow> heap w p \<noteq> None \<Longrightarrow> heap w q \<noteq> None \<Longrightarrow> aligned_bases w p = aligned_bases w q \<Longrightarrow> p = q"
  using assms unfolding aligned_inv_def by blast+

lemma aligned_lent_cong:
  "aligned_lent owned c a w n base p \<Longrightarrow> aligned_bases w' p = aligned_bases w p \<Longrightarrow>
    map_option length (heap w' base) = map_option length (heap w base) \<Longrightarrow> aligned_lent owned c a w' n base p"
  unfolding aligned_lent_def block_at_def by auto

context disjoint_host
begin

text \<open>Two parent's blocks are disjoint, so no block the parent lends anew holds the start of a block lent.\<close>

lemma aligned_apart:
  assumes w: "inv w" and p: "aligned_lent owned c a w m b p" and q: "aligned_lent owned c a w n d q" and ne: "b \<noteq> d"
  shows "addr_of p + m \<le> addr_of q \<or> addr_of q + n \<le> addr_of p"
proof -
  obtain bs ds where h: "heap w b = Some bs" "length bs = m + a - 1 + sizeof_ptr" "heap w d = Some ds" "length ds = n + a - 1 + sizeof_ptr"
    using p q by (auto simp: aligned_lent_def block_at_def)
  have "addr_of b + length bs \<le> addr_of d \<or> addr_of d + length ds \<le> addr_of b"
    by (rule host_disjoint [OF w _ _ ne h(1,3)]) (use p q in \<open>simp_all add: aligned_lent_def\<close>)
  then show ?thesis using p q h(2,4) by (auto simp: aligned_lent_def)
qed

lemma aligned_alloc_inv:
  assumes i: "aligned_inv inv owned c k w" and k: "k < 64" and n: "0 < n"
  shows "\<exists>r w'. aligned_alloc_block junk al c w n = Some (r, w') \<and> aligned_inv inv owned c k w'
    \<and> (r = None \<longleftrightarrow> SIZE_MAX < n + 2 ^ k - 1 + sizeof_ptr \<or> (\<exists>w'. tda_alloc al w (n + 2 ^ k - 1 + sizeof_ptr) = Some (None, w')))
    \<and> (case r of None \<Rightarrow> heap w' = heap w
       | Some p \<Rightarrow> heap w p = None \<and> (\<exists>base bb. aligned_lent owned c (2 ^ k) w' n base p \<and> base \<noteq> c
           \<and> heap w base = None \<and> heap w' = (heap w)(base \<mapsto> bb, p \<mapsto> map junk [0..<n])))"
proof -
  note I = aligned_invD [OF i]
  obtain r w' where r: "aligned_alloc_block junk al c w n = Some (r, w')" "inv w'"
    "r = None \<longleftrightarrow> SIZE_MAX < n + 2 ^ k - 1 + sizeof_ptr \<or> (\<exists>w'. tda_alloc al w (n + 2 ^ k - 1 + sizeof_ptr) = Some (None, w'))"
    "case r of None \<Rightarrow> heap w' = heap w \<and> same_child c w w'
       | Some p \<Rightarrow> \<exists>base bb. aligned_lent owned c (2 ^ k) w' n base p \<and> aligneds w' c = aligneds w c
           \<and> (\<forall>q. lent_by c q \<longrightarrow> q \<noteq> p \<longrightarrow> aligned_bases w' q = aligned_bases w q)
           \<and> heap w base = None \<and> heap w' = (heap w)(base \<mapsto> bb, p \<mapsto> map junk [0..<n])"
    using aligned_alloc_spec [OF I(1-4) k n, of junk] by blast
  show ?thesis
  proof (cases r)
    case None
    then have s: "heap w' = heap w" "same_child c w w'" using r(4) by simp_all
    have "aligned_lent owned c (2 ^ k) w' m b q" if "aligned_lent owned c (2 ^ k) w m b q" for m b q
      by (rule aligned_lent_cong [OF that]) (use s that in \<open>auto simp: same_child_def aligned_lent_def\<close>)
    then have "aligned_inv inv owned c k w'" using i r(2) s unfolding aligned_inv_def same_child_def by metis
    then show ?thesis using r None s by simp
  next
    case (Some p)
    then obtain base bb where l: "aligned_lent owned c (2 ^ k) w' n base p" "aligneds w' c = aligneds w c"
      "\<And>q. lent_by c q \<Longrightarrow> q \<noteq> p \<Longrightarrow> aligned_bases w' q = aligned_bases w q"
      "heap w base = None" "heap w' = (heap w)(base \<mapsto> bb, p \<mapsto> map junk [0..<n])"
      using r(4) by auto
    have o: "lent_by c p" "owned base" "aligned_bases w' p = Some base" using l(1) by (simp_all add: aligned_lent_def)
    have out: "\<not> lent_by c d" if "owned d" for d using host_apart [OF that I(2)] lent_by_under by blast
    have old: "aligned_lent owned c (2 ^ k) w' m b q \<and> b \<noteq> base"
      if "aligned_lent owned c (2 ^ k) w m b q" "q \<noteq> p" for m b q
    proof -
      have b: "owned b" "heap w b \<noteq> None" using that(1) by (auto simp: aligned_lent_def block_at_def)
      then have "b \<noteq> base" "b \<noteq> p" using l(4) out o(1) by auto
      moreover have "aligned_bases w' q = aligned_bases w q" using l(3) that by (simp add: aligned_lent_def)
      ultimately show ?thesis using aligned_lent_cong [OF that(1), of w'] l(5) by simp
    qed
    have fresh: "heap w p = None"
    proof (rule ccontr)
      assume "heap w p \<noteq> None"
      then obtain xs b where x: "heap w p = Some xs" "xs \<noteq> []" "aligned_lent owned c (2 ^ k) w (length xs) b p" using I(5) [OF o(1)] by blast
      have b: "owned b" "heap w b \<noteq> None" "b \<noteq> base" "b \<noteq> p"
        using x(3) l(4) out o(1) by (auto simp: aligned_lent_def block_at_def)
      obtain cs where cs: "heap w b = Some cs" "length cs = length xs + 2 ^ k - 1 + sizeof_ptr"
        using x(3) by (auto simp: aligned_lent_def block_at_def)
      have "base \<noteq> p" using out [OF o(2)] o(1) by auto
      then have h: "heap w' b = Some cs" "heap w' base = Some bb" using cs(1) b l(5) by simp_all
      have "addr_of b + length cs \<le> addr_of base \<or> addr_of base + length bb \<le> addr_of b"
        by (rule host_disjoint [OF r(2) b(1) o(2) b(3) h(1,2)])
      moreover have "length bb = n + 2 ^ k - 1 + sizeof_ptr" using l(1) h(2) by (auto simp: aligned_lent_def block_at_def)
      moreover have "0 < length xs" using x(2) by simp
      moreover have "addr_of base \<le> addr_of p" "addr_of p + n \<le> addr_of base + (n + 2 ^ k - 1 + sizeof_ptr)"
        "addr_of b \<le> addr_of p" "addr_of p + length xs \<le> addr_of b + (length xs + 2 ^ k - 1 + sizeof_ptr)"
        using l(1) x(3) by (simp_all add: aligned_lent_def)
      ultimately show False using cs(2) n by linarith
    qed
    have ne: "base \<noteq> c" "p \<noteq> c" using l(4) fresh I(3) by auto
    have "aligned_inv inv owned c k w'"
      unfolding aligned_inv_def
    proof (intro conjI allI impI r(2) I(2))
      show "heap w' c \<noteq> None" "aligneds w' c = Some (2 ^ k)" using l(2,5) I(3,4) ne by simp_all
    next
      fix q xs assume q: "lent_by c q" "heap w' q = Some xs"
      have "q \<noteq> base" using out [OF o(2)] q(1) by auto
      then have "if q = p then xs = map junk [0..<n] else heap w q = Some xs" using q(2) l(5) by (auto split: if_splits)
      then show "xs \<noteq> []" "\<exists>base. base \<noteq> c \<and> aligned_lent owned c (2 ^ k) w' (length xs) base q"
        using l(1) ne(1) n I(5) [OF q(1)] old by (auto split: if_splits)
    next
      fix q s assume q: "lent_by c q" "lent_by c s" "heap w' q \<noteq> None" "heap w' s \<noteq> None" "aligned_bases w' q = aligned_bases w' s"
      have live: "t = p \<or> heap w t \<noteq> None" if "lent_by c t" "heap w' t \<noteq> None" for t
        using that l(5) out [OF o(2)] by (auto split: if_splits)
      have "aligned_bases w' t \<noteq> Some base" if "lent_by c t" "heap w t \<noteq> None" "t \<noteq> p" for t
        using I(5) [OF that(1)] that old by (auto simp: aligned_lent_def)
      then show "q = s" using live [OF q(1,3)] live [OF q(2,4)] q o(3) l(3) I(6) by metis
    qed
    then show ?thesis using r(1,3) Some fresh l(1,4,5) ne(1) by auto
  qed
qed

lemma aligned_dealloc_inv:
  assumes i: "aligned_inv inv owned c k w" and p: "lent_by c p" "heap w p = Some xs"
  shows "\<exists>w' base. aligned_dealloc_block al c w p (length xs) = Some w' \<and> aligned_inv inv owned c k w'
    \<and> aligned_bases w p = Some base \<and> heap w' = (heap w)(p := None, base := None)"
proof -
  note I = aligned_invD [OF i]
  obtain base where b: "base \<noteq> c" "aligned_lent owned c (2 ^ k) w (length xs) base p" using I(5) [OF p] by blast
  obtain w' where d: "aligned_dealloc_block al c w p (length xs) = Some w'" "inv w'" "heap w' = (heap w)(p := None, base := None)"
    "aligneds w' c = aligneds w c" "\<And>q. lent_by c q \<Longrightarrow> q \<noteq> p \<Longrightarrow> aligned_bases w' q = aligned_bases w q"
    using aligned_dealloc_spec [OF I(1,2,4,3) b(2,1)] by blast
  have o: "aligned_bases w p = Some base" "owned base" using b(2) by (simp_all add: aligned_lent_def)
  have out: "\<not> lent_by c d" if "owned d" for d using host_apart [OF that I(2)] lent_by_under by blast
  have "p \<noteq> c" using p(1) under_In_False(1) [of c] by (auto simp: lent_by_iff)
  have live: "t \<noteq> p \<and> heap w t = Some ys" if "heap w' t = Some ys" for t ys
    using that d(3) by (auto split: if_splits)
  have "aligned_inv inv owned c k w'"
    unfolding aligned_inv_def
  proof (intro conjI allI impI d(2) I(2))
    show "heap w' c \<noteq> None" "aligneds w' c = Some (2 ^ k)" using d(3,4) I(3,4) b(1) \<open>p \<noteq> c\<close> by simp_all
  next
    fix q ys assume q: "lent_by c q" "heap w' q = Some ys"
    from live [OF q(2)] have h: "q \<noteq> p" "heap w q = Some ys" by simp_all
    obtain b2 where b2: "b2 \<noteq> c" "aligned_lent owned c (2 ^ k) w (length ys) b2 q" using I(5) [OF q(1) h(2)] by blast
    have "aligned_bases w q = Some b2" "owned b2" using b2(2) by (simp_all add: aligned_lent_def)
    then have "b2 \<noteq> base" "b2 \<noteq> p" using I(6) [OF p(1) q(1)] p(2) h o(1) out p(1) by auto
    then have "aligned_lent owned c (2 ^ k) w' (length ys) b2 q"
      using aligned_lent_cong [OF b2(2), of w'] d(3,5) q(1) h(1) by simp
    then show "ys \<noteq> []" "\<exists>base. base \<noteq> c \<and> aligned_lent owned c (2 ^ k) w' (length ys) base q"
      using I(5) [OF q(1) h(2)] b2(1) by blast+
  next
    fix q s assume q: "lent_by c q" "lent_by c s" "heap w' q \<noteq> None" "heap w' s \<noteq> None" "aligned_bases w' q = aligned_bases w' s"
    then have "q \<noteq> p" "heap w q \<noteq> None" "s \<noteq> p" "heap w s \<noteq> None" using live by blast+
    then show "q = s" using I(6) q d(5) by simp
  qed
  then show ?thesis using d(1,3) o(1) by blast
qed

lemma aligned_write_inv:
  assumes i: "aligned_inv inv owned c k w" and m: "mem_write w p off bs = Some w'"
  shows "aligned_inv inv owned c k w'"
proof -
  note I = aligned_invD [OF i]
  obtain cs where c: "heap w p = Some cs" "off + length bs \<le> length cs" "w' = w\<lparr>heap := (heap w)(p \<mapsto> blit off bs cs)\<rparr>"
    using m by (auto simp: mem_write_def split: option.splits if_splits)
  have len: "map_option length (heap w' q) = map_option length (heap w q)" for q using c by (simp add: length_blit)
  have live: "heap w' q \<noteq> None \<longleftrightarrow> heap w q \<noteq> None" for q using len [of q] by (metis map_option_is_None)
  have at: "\<exists>xs. heap w q = Some xs \<and> length xs = length ys" if "heap w' q = Some ys" for q ys
    using len [of q] that by (cases "heap w q") auto
  have "inv w'" unfolding c(3) using c by (intro write_law [OF I(1)]) (simp_all add: length_blit)
  moreover have "aligned_lent owned c (2 ^ k) w' n b q" if "aligned_lent owned c (2 ^ k) w n b q" for n b q
    by (rule aligned_lent_cong [OF that _ len]) (simp add: c(3))
  moreover have "aligned_bases w' = aligned_bases w" "aligneds w' = aligneds w" using c(3) by simp_all
  ultimately show ?thesis unfolding aligned_inv_def live using I at by (metis length_0_conv)
qed

lemma aligned_run_inv:
  assumes run: "client_run (aligned_al junk al self c) (lent_by c) w w'" and i: "aligned_inv inv owned c k w" and k: "k < 64"
  shows "aligned_inv inv owned c k w'"
proof -
  have A: "aligned_inv inv owned c k v' \<and> (\<forall>p. lent_by c p \<longrightarrow> heap v p \<noteq> None \<longrightarrow> heap v' p = heap v p)"
    if v: "aligned_inv inv owned c k v" "0 < n" "al_alloc (aligned_al junk al self c) v n = Some (r, v')" for v n r v'
  proof -
    have "aligned_alloc_block junk al c v n = Some (r, v')" using v(3) by (simp add: aligned_al_def)
    then have "aligned_inv inv owned c k v'" "case r of None \<Rightarrow> heap v' = heap v
       | Some p \<Rightarrow> heap v p = None \<and> (\<exists>base bb. heap v base = None \<and> heap v' = (heap v)(base \<mapsto> bb, p \<mapsto> map junk [0..<n]))"
      using aligned_alloc_inv [OF v(1) k v(2), of junk] by (auto split: option.splits)
    then show ?thesis by (auto split: option.splits)
  qed
  have D: "aligned_inv inv owned c k v'" if "aligned_inv inv owned c k v" "lent_by c p" "heap v p = Some old"
      "al_dealloc (aligned_al junk al self c) v p (length old) = Some v'" for v p old v'
    using aligned_dealloc_inv [OF that(1-3)] that(4) by (auto simp: aligned_al_def)
  have plain: "al_calloc (aligned_al junk al self c) = None" "al_realloc (aligned_al junk al self c) = None"
    by (simp_all add: aligned_al_def)
  have step: "aligned_inv inv owned c k v'" if "client_step (aligned_al junk al self c) (lent_by c) v v'" "aligned_inv inv owned c k v" for v v'
    by (rule client_step_plain [where J = "aligned_inv inv owned c k", OF plain _ _ _ that]) (fact A, fact D, fact aligned_write_inv)
  from run show ?thesis by (induction rule: rtranclp_induct) (rule i, rule step)
qed

lemma aligned_new_spec:
  assumes w: "inv w" "no_orphans owned w" and k: "4 \<le> k" "k < 64"
  shows "\<exists>r w'. tda_al_aligned_new junk al (2 ^ k) w = Some (r, w') \<and> inv w'
    \<and> (case r of None \<Rightarrow> heap w' = heap w | Some a \<Rightarrow> \<exists>c obj. a = aligned_al junk al obj c \<and> aligned_inv inv owned c k w')"
proof -
  have sz: "sizeof_AlignedCtx \<le> SIZE_MAX" "sizeof_tda_Al \<le> SIZE_MAX"
    by (simp_all add: sizeof_AlignedCtx_def sizeof_tda_Al_def SIZE_MAX_num)
  have "(2 :: nat) ^ 4 \<le> 2 ^ k" by (rule power_increasing [OF k(1)]) simp
  then have g: "c_assert (0 < (2 :: nat) ^ k) = Some ()" "c_assert (is_pow2_c (2 ^ k)) = Some ()" "c_assert (TDA_DEFAULT_ALIGNMENT \<le> 2 ^ k) = Some ()"
    using is_pow2_c_pow2 [OF k(2)] by (simp_all add: TDA_DEFAULT_ALIGNMENT_def)
  show ?thesis
  proof (rule alloc_cases [OF w(1) sz(1)], goal_cases)
    case (1 w1)
    then show ?case using g by (simp add: tda_al_aligned_new_def)
  next
    case (2 c w1 bc)
    note c = 2
    show ?case
    proof (rule alloc_cases [OF c(2) sz(2)], goal_cases)
      case (1 w2)
      have "heap w2 c = Some bc" using 1 c by simp
      then obtain w3 where w3: "tda_dealloc al w2 (Some c) sizeof_AlignedCtx = Some w3" "inv w3" "heap w3 = (heap w2)(c := None)"
        using dealloc_some [OF 1(2) c(4) _ c(6)] by blast
      have "heap w3 = heap w" using w3(3) 1(3) c(5,7) by auto
      then show ?case using 1(1) c(1) w3(1,2) g by (simp add: tda_al_aligned_new_def)
    next
      case (2 obj w2 bo)
      let ?w = "w2\<lparr>aligneds := (aligneds w2)(c \<mapsto> 2 ^ k)\<rparr>"
      have "\<not> lent_by c c" "\<not> lent_by c obj"
        using under_In_False(2) [of c] host_apart [OF 2(4) c(4)] lent_by_under by blast+
      then have "heap ?w p = None" if "lent_by c p" for p
        using that w(2) c(4,5,7) 2(7) by (auto simp: no_orphans_def)
      moreover have "inv ?w" by (rule host_context [OF 2(2) c(4)]) (simp add: same_outside_def)
      moreover have "heap ?w c \<noteq> None" using 2(7) c(7) by simp
      ultimately have "aligned_inv inv owned c k ?w" using c(4) by (simp add: aligned_inv_def)
      then show ?case using 2(1) c(1) g by (auto simp: tda_al_aligned_new_def aligned_inv_def)
    qed
  qed
qed

end

end
