(* ===== verification/Tda_Default.thy ===== *)
theory Tda_Default
  imports Tda_Alloc
begin

text \<open>
  The default allocator (\<open>src/alloc/default.c\<close>): the C library's \<open>malloc\<close>, \<open>calloc\<close>,
  \<open>realloc\<close> and \<open>free\<close> behind the interface. The C library is not this program: it is the
  parameter \<open>L\<close>, a record of its four functions, and what its standard documents of them is
  the named hypothesis \<open>libc_contract\<close>. A bump allocator that never reuses an address
  shows that the hypothesis can hold. That live blocks do not overlap is a second documented
  behaviour, \<open>libc_apart_doc\<close>, which the bump allocator has too.
\<close>

record 's libc =
  libc_malloc :: "'s world \<Rightarrow> nat \<Rightarrow> (ptr option \<times> 's world) option"
  libc_calloc :: "'s world \<Rightarrow> nat \<Rightarrow> nat \<Rightarrow> (ptr option \<times> 's world) option"
  libc_realloc :: "'s world \<Rightarrow> ptr option \<Rightarrow> nat \<Rightarrow> (ptr option \<times> 's world) option"
  libc_free :: "'s world \<Rightarrow> ptr option \<Rightarrow> 's world option"

definition malloc_wrapper :: "'s libc \<Rightarrow> 's world \<Rightarrow> nat \<Rightarrow> (ptr option \<times> 's world) option" where
  "malloc_wrapper L w sz = libc_malloc L w sz"

definition calloc_wrapper :: "'s libc \<Rightarrow> 's world \<Rightarrow> nat \<Rightarrow> nat \<Rightarrow> (ptr option \<times> 's world) option" where
  "calloc_wrapper L w num sz = libc_calloc L w num sz"

definition realloc_wrapper ::
  "'s libc \<Rightarrow> 's world \<Rightarrow> ptr option \<Rightarrow> nat \<Rightarrow> nat \<Rightarrow> (ptr option \<times> 's world) option" where
  "realloc_wrapper L w p old_size new_size = libc_realloc L w p new_size"

definition free_wrapper :: "'s libc \<Rightarrow> 's world \<Rightarrow> ptr \<Rightarrow> nat \<Rightarrow> 's world option" where
  "free_wrapper L w p sz = libc_free L w (Some p)"

text \<open>\<open>static_al\<close> is the address of the function's static object.\<close>

definition tda_al_default :: "'s libc \<Rightarrow> ptr \<Rightarrow> 's al" where
  "tda_al_default L static_al = \<lparr>
     al_self = static_al,
     al_ctx = None,
     al_alloc = malloc_wrapper L,
     al_calloc = Some (calloc_wrapper L),
     al_realloc = Some (realloc_wrapper L),
     al_dealloc = free_wrapper L\<rparr>"

section \<open>What the C library promises\<close>

definition libc_owned :: "ptr \<Rightarrow> bool" where
  "libc_owned p = (case p of Base a \<Rightarrow> True | In c a \<Rightarrow> False)"

text \<open>
  \<open>I\<close> is the library's own well-formedness: it looks at its private state and at which
  of its blocks are live and how long they are, not at their bytes nor at other storage.
\<close>

definition libc_state :: "('s world \<Rightarrow> bool) \<Rightarrow> bool" where
  "libc_state I \<longleftrightarrow>
     (\<forall>w w'. I w \<longrightarrow> sys w' = sys w \<longrightarrow>
        (\<forall>a. map_option length (heap w' (Base a)) = map_option length (heap w (Base a))) \<longrightarrow> I w') \<and>
     (\<forall>w a bs. I w \<longrightarrow> heap w (Base a) = Some bs \<longrightarrow> 16 dvd a \<and> a + length bs \<le> SIZE_MAX)"

definition libc_malloc_doc :: "'s libc \<Rightarrow> ('s world \<Rightarrow> bool) \<Rightarrow> bool" where
  "libc_malloc_doc L I \<longleftrightarrow> (\<forall>w n. I w \<longrightarrow> 0 < n \<longrightarrow> n \<le> SIZE_MAX \<longrightarrow>
     (\<exists>r w'. libc_malloc L w n = Some (r, w') \<and> I w' \<and> alloc_post libc_owned w n r w'))"

definition libc_calloc_doc :: "'s libc \<Rightarrow> ('s world \<Rightarrow> bool) \<Rightarrow> bool" where
  "libc_calloc_doc L I \<longleftrightarrow> (\<forall>w m n. I w \<longrightarrow> 0 < m \<longrightarrow> 0 < n \<longrightarrow> m * n \<le> SIZE_MAX \<longrightarrow>
     (\<exists>r w'. libc_calloc L w m n = Some (r, w') \<and> I w' \<and> calloc_post libc_owned w (m * n) r w'))"

definition libc_realloc_doc :: "'s libc \<Rightarrow> ('s world \<Rightarrow> bool) \<Rightarrow> bool" where
  "libc_realloc_doc L I \<longleftrightarrow> (\<forall>w n. I w \<longrightarrow> 0 < n \<longrightarrow> n \<le> SIZE_MAX \<longrightarrow>
     (\<exists>r w'. libc_realloc L w None n = Some (r, w') \<and> I w' \<and> alloc_post libc_owned w n r w') \<and>
     (\<forall>p old. libc_owned p \<longrightarrow> heap w p = Some old \<longrightarrow>
       (\<exists>r w'. libc_realloc L w (Some p) n = Some (r, w') \<and> I w' \<and> realloc_post libc_owned w p old n r w')))"

definition libc_free_doc :: "'s libc \<Rightarrow> ('s world \<Rightarrow> bool) \<Rightarrow> bool" where
  "libc_free_doc L I \<longleftrightarrow> (\<forall>w p bs. I w \<longrightarrow> libc_owned p \<longrightarrow> heap w p = Some bs \<longrightarrow>
     (\<exists>w'. libc_free L w (Some p) = Some w' \<and> I w' \<and> heap w' = (heap w)(p := None)))"

text \<open>The library's calls touch its own blocks and state only.\<close>

definition libc_only :: "'s world \<Rightarrow> 's world \<Rightarrow> bool" where
  "libc_only w w' \<longleftrightarrow> w' = w\<lparr>heap := heap w', sys := sys w'\<rparr>"

definition libc_frame_doc :: "'s libc \<Rightarrow> bool" where
  "libc_frame_doc L \<longleftrightarrow>
     (\<forall>w n r w'. libc_malloc L w n = Some (r, w') \<longrightarrow> libc_only w w') \<and>
     (\<forall>w m n r w'. libc_calloc L w m n = Some (r, w') \<longrightarrow> libc_only w w') \<and>
     (\<forall>w p n r w'. libc_realloc L w p n = Some (r, w') \<longrightarrow> libc_only w w') \<and>
     (\<forall>w p w'. libc_free L w p = Some w' \<longrightarrow> libc_only w w')"

definition libc_contract :: "'s libc \<Rightarrow> ('s world \<Rightarrow> bool) \<Rightarrow> bool" where
  "libc_contract L I \<longleftrightarrow> libc_state I \<and> libc_malloc_doc L I \<and> libc_calloc_doc L I
     \<and> libc_realloc_doc L I \<and> libc_free_doc L I \<and> libc_frame_doc L"

lemma libc_owned_iff: "libc_owned p \<longleftrightarrow> (\<exists>a. p = Base a)"
  by (cases p) (auto simp: libc_owned_def)

lemma libc_state_keep:
  "libc_state I \<Longrightarrow> I w \<Longrightarrow> sys w' = sys w \<Longrightarrow>
     (\<And>a. map_option length (heap w' (Base a)) = map_option length (heap w (Base a))) \<Longrightarrow> I w'"
  unfolding libc_state_def by blast

lemma default_allocator_laws:
  assumes "libc_contract L I"
  shows "allocator (tda_al_default L sa) I libc_owned"
proof -
  have d: "libc_state I" "libc_malloc_doc L I" "libc_calloc_doc L I" "libc_realloc_doc L I" "libc_free_doc L I"
    using assms by (simp_all add: libc_contract_def)
  show ?thesis
  proof (unfold_locales, goal_cases)
    case (1 w n)
    then show ?case using d(2) by (simp add: tda_al_default_def malloc_wrapper_def libc_malloc_doc_def)
  next
    case (2 f w num sz)
    then show ?case using d(3) by (auto simp: tda_al_default_def calloc_wrapper_def libc_calloc_doc_def)
  next
    case (3 g w p old n)
    then show ?case
      using d(4) unfolding tda_al_default_def realloc_wrapper_def libc_realloc_doc_def by force
  next
    case (4 g w n)
    then show ?case
      using d(4) unfolding tda_al_default_def realloc_wrapper_def libc_realloc_doc_def by force
  next
    case (5 w p bs)
    then show ?case using d(5) by (simp add: tda_al_default_def free_wrapper_def libc_free_doc_def)
  next
    case (6 w p bs bs')
    then show ?case by (intro libc_state_keep [OF d(1) 6(1)]) auto
  qed
qed

lemma same_child_libc:
  assumes "libc_only w w'"
  shows "same_child c w w'"
proof -
  obtain h s where "w' = w\<lparr>heap := h, sys := s\<rparr>" using assms unfolding libc_only_def by blast
  then show ?thesis by (simp add: same_child_def)
qed

lemma default_host:
  assumes "libc_contract L I"
  shows "host (tda_al_default L sa) I libc_owned"
proof (rule host.intro [OF default_allocator_laws [OF assms]], unfold_locales, goal_cases)
  case (1 w p bs)
  then show ?case
    using assms by (auto simp: libc_contract_def libc_state_def libc_owned_iff)
next
  case (2 p c)
  then show ?case by (auto simp: libc_owned_iff)
next
  case (3 w c w')
  have "heap w' (Base a) = heap w (Base a)" for a using 3(3) by (simp add: same_outside_def)
  then show ?case
    using 3 assms by (intro libc_state_keep [of I w w']) (auto simp: libc_contract_def same_outside_def)
next
  case (4 w c n r w')
  then have "libc_only w w'"
    using assms unfolding libc_contract_def libc_frame_doc_def tda_al_default_def malloc_wrapper_def by simp
  then show ?case by (simp add: same_child_libc)
next
  case (5 f w c m n r w')
  then have "libc_only w w'"
    using assms unfolding libc_contract_def libc_frame_doc_def tda_al_default_def calloc_wrapper_def by auto
  then show ?case by (simp add: same_child_libc)
next
  case (6 g w c n r w')
  then have "libc_only w w'"
    using assms unfolding libc_contract_def libc_frame_doc_def tda_al_default_def realloc_wrapper_def by auto
  then show ?case by (simp add: same_child_libc)
next
  case (7 g w c p old n r w')
  then have "libc_only w w'"
    using assms unfolding libc_contract_def libc_frame_doc_def tda_al_default_def realloc_wrapper_def by auto
  then show ?case by (simp add: same_child_libc)
next
  case (8 w c p n w')
  then have "libc_only w w'"
    using assms unfolding libc_contract_def libc_frame_doc_def tda_al_default_def free_wrapper_def by auto
  then show ?case by (simp add: same_child_libc)
qed

text \<open>The objects of two allocations are disjoint.\<close>

definition libc_apart_doc :: "('s world \<Rightarrow> bool) \<Rightarrow> bool" where
  "libc_apart_doc I \<longleftrightarrow> (\<forall>w a b xs ys. I w \<longrightarrow> heap w (Base a) = Some xs \<longrightarrow> heap w (Base b) = Some ys \<longrightarrow> a < b \<longrightarrow>
     a + length xs \<le> b)"

lemma default_disjoint_host:
  assumes "libc_contract L I" "libc_apart_doc I"
  shows "disjoint_host (tda_al_default L sa) I libc_owned"
proof (rule disjoint_host.intro [OF default_host [OF assms(1)]], unfold_locales)
  fix w p q bs cs assume a: "I w" "libc_owned p" "libc_owned q" "p \<noteq> q" "heap w p = Some bs" "heap w q = Some cs"
  then obtain x y where xy: "p = Base x" "q = Base y" by (auto simp: libc_owned_iff)
  then have "x < y \<or> y < x" using a(4) by auto
  then show "addr_of p + length bs \<le> addr_of q \<or> addr_of q + length cs \<le> addr_of p"
    using a assms(2) xy unfolding libc_apart_doc_def by auto
qed

section \<open>A library that keeps the contract\<close>

text \<open>Addresses grow and are never reused; \<open>sys\<close> is the next one.\<close>

definition bump_ok :: "nat world \<Rightarrow> bool" where
  "bump_ok w \<longleftrightarrow> 16 dvd sys w \<and> sys w \<le> PTRDIFF_MAX
     \<and> (\<forall>a bs. heap w (Base a) = Some bs \<longrightarrow> 16 dvd a \<and> a < sys w \<and> a + length bs \<le> sys w)"

definition bump_new :: "nat world \<Rightarrow> byte list \<Rightarrow> (ptr option \<times> nat world) option" where
  "bump_new w bs = Some (
     if length bs = 0 \<or> sys w + al16 (length bs) > PTRDIFF_MAX then (None, w)
     else (Some (Base (sys w)), w\<lparr>heap := (heap w)(Base (sys w) \<mapsto> bs), sys := sys w + al16 (length bs)\<rparr>))"

definition bump_free :: "nat world \<Rightarrow> ptr option \<Rightarrow> nat world option" where
  "bump_free w p = (case p of None \<Rightarrow> Some w | Some q \<Rightarrow> Some (retire (\<lambda>x. x = q) w))"

definition bump_realloc :: "nat world \<Rightarrow> ptr option \<Rightarrow> nat \<Rightarrow> (ptr option \<times> nat world) option" where
  "bump_realloc w p n = (case p of
      None \<Rightarrow> bump_new w (replicate n 0)
    | Some q \<Rightarrow> do {
        old \<leftarrow> heap w q;
        (r, w1) \<leftarrow> bump_new w (take n (old @ replicate n 0));
        (case r of None \<Rightarrow> Some (None, w1) | Some x \<Rightarrow> Some (Some x, retire (\<lambda>x. x = q) w1))
      })"

definition bump_libc :: "nat libc" where
  "bump_libc = \<lparr>libc_malloc = (\<lambda>w n. bump_new w (replicate n 0)),
     libc_calloc = (\<lambda>w m n. bump_new w (replicate (m * n) 0)),
     libc_realloc = bump_realloc, libc_free = bump_free\<rparr>"

lemma bump_new_law:
  assumes w: "bump_ok w" and n: "0 < length bs"
  shows "\<exists>r w'. bump_new w bs = Some (r, w') \<and> bump_ok w'
    \<and> (case r of None \<Rightarrow> w' = w
       | Some p \<Rightarrow> libc_owned p \<and> heap w p = None \<and> heap w' = (heap w)(p \<mapsto> bs))"
proof (cases "sys w + al16 (length bs) > PTRDIFF_MAX")
  case True
  then show ?thesis using w by (simp add: bump_new_def)
next
  case False
  let ?w = "w\<lparr>heap := (heap w)(Base (sys w) \<mapsto> bs), sys := sys w + al16 (length bs)\<rparr>"
  have ge: "length bs \<le> al16 (length bs)" "0 < al16 (length bs)" using al16_ge al16_pos n by auto
  have "16 dvd a \<and> a < sys ?w \<and> a + length b \<le> sys ?w" if "heap ?w (Base a) = Some b" for a b
  proof (cases "a = sys w")
    case False
    then have "heap w (Base a) = Some b" using that by simp
    then have "16 dvd a \<and> a < sys w \<and> a + length b \<le> sys w" using w by (simp add: bump_ok_def)
    then show ?thesis by simp
  qed (use that w ge in \<open>auto simp: bump_ok_def\<close>)
  then have "bump_ok ?w" using w False by (simp add: bump_ok_def)
  moreover have "heap w (Base (sys w)) = None"
    using w by (cases "heap w (Base (sys w))") (auto simp: bump_ok_def)
  ultimately show ?thesis
    using False n by (auto simp: bump_new_def libc_owned_def)
qed

lemma bump_ok_retire: "bump_ok w \<Longrightarrow> bump_ok (retire g w)"
  by (auto simp: bump_ok_def retire_def)

lemma bump_realloc_law:
  assumes w: "bump_ok w" and p: "libc_owned p" "heap w p = Some old" and n: "0 < n"
  shows "\<exists>r w'. bump_realloc w (Some p) n = Some (r, w') \<and> bump_ok w' \<and> realloc_post libc_owned w p old n r w'"
proof -
  let ?new = "take n (old @ replicate n 0)"
  have len: "length ?new = n" "take (min (length old) n) ?new = take (min (length old) n) old"
    by (auto simp: min_def)
  obtain r w1 where r: "bump_new w ?new = Some (r, w1)" "bump_ok w1" "case r of None \<Rightarrow> w1 = w
       | Some q \<Rightarrow> libc_owned q \<and> heap w q = None \<and> heap w1 = (heap w)(q \<mapsto> ?new)"
    using bump_new_law [OF w, of ?new] len n by auto
  show ?thesis
  proof (cases r)
    case None
    then show ?thesis using r p by (simp add: bump_realloc_def realloc_post_def)
  next
    case (Some q)
    then have "q \<noteq> p" using r(3) p by auto
    then have "heap (retire (\<lambda>x. x = p) w1) = (heap w)(p := None, q \<mapsto> ?new)"
      using Some r(3) by (auto simp: fun_eq_iff)
    then show ?thesis
      using Some r p len bump_ok_retire [OF r(2)]
      by (auto simp: bump_realloc_def realloc_post_def simp del: take_append intro: exI [of _ ?new])
  qed
qed

lemma bump_contract: "libc_contract bump_libc bump_ok"
proof -
  have a: "\<exists>r w'. bump_new w (replicate n 0) = Some (r, w') \<and> bump_ok w' \<and> calloc_post libc_owned w n r w'
      \<and> alloc_post libc_owned w n r w'" if "bump_ok w" "0 < n" for w n
  proof -
    have "0 < length (replicate n (0::byte))" using that(2) by simp
    from bump_new_law [OF that(1) this] obtain r w' where
      r: "bump_new w (replicate n 0) = Some (r, w')" "bump_ok w'" "case r of None \<Rightarrow> w' = w
        | Some p \<Rightarrow> libc_owned p \<and> heap w p = None \<and> heap w' = (heap w)(p \<mapsto> replicate n 0)"
      by blast
    then show ?thesis
      by (cases r) (auto simp: calloc_post_def alloc_post_def intro: exI [of _ "replicate n 0"])
  qed
  have s: "libc_state bump_ok"
  proof (unfold libc_state_def, intro conjI allI impI, goal_cases)
    case (1 w w')
    have "\<exists>b0. heap w (Base a) = Some b0 \<and> length b0 = length bs" if "heap w' (Base a) = Some bs" for a bs
      using 1(3) [rule_format, of a] that by (cases "heap w (Base a)") auto
    then show ?case using 1(1,2) by (fastforce simp: bump_ok_def)
  qed (force simp: bump_ok_def dest: PTRDIFF_MAX_le)+
  show ?thesis
    unfolding libc_contract_def
  proof (intro conjI)
    have "\<exists>r w'. bump_new w (replicate n 0) = Some (r, w') \<and> bump_ok w' \<and> alloc_post libc_owned w n r w'"
      if "bump_ok w" "0 < n" for w n
      using a [OF that] by blast
    then show "libc_malloc_doc bump_libc bump_ok"
      by (simp add: libc_malloc_doc_def bump_libc_def)
    have "\<exists>r w'. bump_new w (replicate n 0) = Some (r, w') \<and> bump_ok w' \<and> calloc_post libc_owned w n r w'"
      if "bump_ok w" "0 < n" for w n
      using a [OF that] by blast
    then show "libc_calloc_doc bump_libc bump_ok"
      by (simp add: libc_calloc_doc_def bump_libc_def)
    have "\<exists>r w'. bump_realloc w None n = Some (r, w') \<and> bump_ok w' \<and> alloc_post libc_owned w n r w'"
      if "bump_ok w" "0 < n" for w n
      using a [OF that] by (simp add: bump_realloc_def) blast
    then show "libc_realloc_doc bump_libc bump_ok"
      using bump_realloc_law by (simp add: libc_realloc_doc_def bump_libc_def)
    have "bump_ok (retire (\<lambda>x. x = p) w) \<and> heap (retire (\<lambda>x. x = p) w) = (heap w)(p := None)" if "bump_ok w" for w p
      using bump_ok_retire [OF that] by (simp add: fun_eq_iff)
    then show "libc_free_doc bump_libc bump_ok"
      by (simp add: libc_free_doc_def bump_libc_def bump_free_def)
    have "libc_only w w'" if "bump_new w bs = Some (r, w')" for w bs r w'
      using that by (auto simp: bump_new_def libc_only_def split: if_splits)
    moreover have "libc_only w w'" if "bump_realloc w p n = Some (r, w')" for w p n r w'
      using that by (auto simp: bump_realloc_def bump_new_def libc_only_def retire_def bind_eq_Some_conv
          split: option.splits if_splits)
    moreover have "libc_only w w'" if "bump_free w p = Some w'" for w p w'
      using that by (auto simp: bump_free_def libc_only_def retire_def split: option.splits)
    ultimately show "libc_frame_doc bump_libc"
      unfolding libc_frame_doc_def bump_libc_def by simp
  qed (rule s)
qed

text \<open>An empty world for the examples.\<close>

definition empty_world :: "nat world" where
  "empty_world = \<lparr>heap = (\<lambda>p. None), arenas = (\<lambda>p. None), pools = (\<lambda>p. None), pool_nodes = (\<lambda>p. None),
     aligneds = (\<lambda>p. None), aligned_bases = (\<lambda>p. None), logs = (\<lambda>p. None), sys = 4096\<rparr>"

lemma bump_ok_empty: "bump_ok empty_world"
  by (simp add: bump_ok_def empty_world_def PTRDIFF_MAX_num)

interpretation bump: host "tda_al_default bump_libc (Base 8)" bump_ok libc_owned
  by (rule default_host [OF bump_contract])

interpretation bump_object: object_allocator "tda_al_default bump_libc (Base 8)" bump_ok libc_owned
proof unfold_locales
  fix w p bs assume a: "bump_ok w" "libc_owned p" "heap w p = Some bs"
  then obtain b where "p = Base b" by (cases p) (auto simp: libc_owned_def)
  then have "b + length bs \<le> sys w" "sys w \<le> PTRDIFF_MAX" using a by (auto simp: bump_ok_def)
  then show "length bs \<le> PTRDIFF_MAX" by linarith
qed

text \<open>Its blocks are disjoint: a new one starts where all others have ended.\<close>

definition bump_spaced :: "nat world \<Rightarrow> bool" where
  "bump_spaced w \<longleftrightarrow> bump_ok w
     \<and> (\<forall>a b xs ys. heap w (Base a) = Some xs \<longrightarrow> heap w (Base b) = Some ys \<longrightarrow> a < b \<longrightarrow> a + length xs \<le> b)"

lemma bump_new_spaced:
  assumes w: "bump_spaced w" and ok: "bump_ok w'" and n: "bump_new w bs = Some (r, w')"
  shows "bump_spaced w'"
proof (cases r)
  case None
  then show ?thesis using w n by (auto simp: bump_new_def split: if_splits)
next
  case (Some p)
  then have h: "heap w' = (heap w)(Base (sys w) \<mapsto> bs)" using n by (auto simp: bump_new_def split: if_splits)
  have "a < sys w \<and> a + length xs \<le> sys w" if "heap w (Base a) = Some xs" for a xs
    using w that by (auto simp: bump_spaced_def bump_ok_def)
  then show ?thesis using w ok unfolding bump_spaced_def h by (fastforce split: if_splits)
qed

lemma bump_retire_spaced: "bump_spaced w \<Longrightarrow> bump_spaced (retire g w)"
  by (auto simp: bump_spaced_def bump_ok_retire)

lemma bump_realloc_spaced:
  assumes "bump_spaced w" "bump_realloc w p n = Some (r, w')"
  shows "bump_spaced w'"
proof (cases p)
  case None
  then have "bump_new w (replicate n 0) = Some (r, w')" using assms(2) by (simp add: bump_realloc_def)
  moreover have "bump_ok w'" using calculation assms(1) bump_new_law [of w "replicate n 0"]
    by (cases "n = 0") (auto simp: bump_spaced_def bump_new_def)
  ultimately show ?thesis using bump_new_spaced [OF assms(1)] by blast
next
  case (Some q)
  then obtain old x w1 where x: "bump_new w (take n (old @ replicate n 0)) = Some (x, w1)"
    "w' = w1 \<or> w' = retire (\<lambda>y. y = q) w1"
    using assms(2) by (auto simp: bump_realloc_def bind_eq_Some_conv split: option.splits)
  have "bump_ok w1" using x(1) assms(1) bump_new_law [of w "take n (old @ replicate n 0)"]
    by (cases "n = 0") (auto simp: bump_spaced_def bump_new_def)
  then show ?thesis using bump_new_spaced [OF assms(1) _ x(1)] x(2) bump_retire_spaced by blast
qed

lemma bump_spaced_contract: "libc_contract bump_libc bump_spaced"
proof -
  have c: "libc_state bump_ok" "libc_malloc_doc bump_libc bump_ok" "libc_calloc_doc bump_libc bump_ok"
    "libc_realloc_doc bump_libc bump_ok" "libc_free_doc bump_libc bump_ok" "libc_frame_doc bump_libc"
    using bump_contract by (simp_all add: libc_contract_def)
  have ok: "bump_spaced w \<Longrightarrow> bump_ok w" for w by (simp add: bump_spaced_def)
  have m: "bump_spaced w'" if "libc_malloc bump_libc w n = Some (r, w')" "bump_spaced w" "bump_ok w'" for w w' n r
    using bump_new_spaced [OF that(2,3)] that(1) by (simp add: bump_libc_def)
  have z: "bump_spaced w'" if "libc_calloc bump_libc w k n = Some (r, w')" "bump_spaced w" "bump_ok w'" for w w' k n r
    using bump_new_spaced [OF that(2,3)] that(1) by (simp add: bump_libc_def)
  have g: "bump_spaced w'" if "libc_realloc bump_libc w p n = Some (r, w')" "bump_spaced w" for w w' p n r
    using bump_realloc_spaced [OF that(2)] that(1) by (simp add: bump_libc_def)
  have d: "bump_spaced w'" if "libc_free bump_libc w (Some q) = Some w'" "bump_spaced w" for w w' q
    using bump_retire_spaced [OF that(2)] that(1) by (auto simp: bump_libc_def bump_free_def)
  show ?thesis
    unfolding libc_contract_def
  proof (intro conjI)
    have "bump_spaced w'" if "bump_spaced w" "sys w' = sys w"
      "\<And>a. map_option length (heap w' (Base a)) = map_option length (heap w (Base a))" for w w'
    proof -
      have "\<exists>ys. heap w (Base a) = Some ys \<and> length ys = length xs" if h: "heap w' (Base a) = Some xs" for a xs
        using \<open>\<And>a. map_option length (heap w' (Base a)) = map_option length (heap w (Base a))\<close> [of a] h
        by (cases "heap w (Base a)") auto
      then show ?thesis using that libc_state_keep [OF c(1) ok [OF that(1)] that(2,3)]
        unfolding bump_spaced_def by metis
    qed
    moreover have "16 dvd a \<and> a + length bs \<le> SIZE_MAX" if "bump_spaced w" "heap w (Base a) = Some bs" for w a bs
      using c(1) ok [OF that(1)] that(2) unfolding libc_state_def by blast
    ultimately show "libc_state bump_spaced" unfolding libc_state_def by blast
    show "libc_malloc_doc bump_libc bump_spaced"
      using c(2) ok m unfolding libc_malloc_doc_def by blast
    show "libc_calloc_doc bump_libc bump_spaced"
    proof (unfold libc_calloc_doc_def, intro allI impI, goal_cases)
      case (1 w m n)
      from c(3) [unfolded libc_calloc_doc_def, rule_format, OF ok [OF 1(1)] 1(2-4)] obtain r w' where
        "libc_calloc bump_libc w m n = Some (r, w')" "bump_ok w'" "calloc_post libc_owned w (m * n) r w'" by blast
      then show ?case using z [OF _ 1(1)] by blast
    qed
    show "libc_realloc_doc bump_libc bump_spaced"
    proof (unfold libc_realloc_doc_def, intro allI impI conjI, goal_cases)
      case (1 w n)
      then obtain r w' where "libc_realloc bump_libc w None n = Some (r, w')" "alloc_post libc_owned w n r w'"
        using c(4) ok [OF 1(1)] unfolding libc_realloc_doc_def by blast
      then show ?case using g [OF _ 1(1)] by blast
    next
      case (2 w n p old)
      then obtain r w' where "libc_realloc bump_libc w (Some p) n = Some (r, w')" "realloc_post libc_owned w p old n r w'"
        using c(4) ok [OF 2(1)] unfolding libc_realloc_doc_def by blast
      then show ?case using g [OF _ 2(1)] by blast
    qed
    show "libc_free_doc bump_libc bump_spaced"
      using c(5) ok d unfolding libc_free_doc_def by blast
  qed (rule c(6))
qed

lemma bump_spaced_apart: "libc_apart_doc bump_spaced"
  unfolding libc_apart_doc_def bump_spaced_def by blast

interpretation bump_spaced: disjoint_host "tda_al_default bump_libc (Base 8)" bump_spaced libc_owned
  by (rule default_disjoint_host [OF bump_spaced_contract bump_spaced_apart])

abbreviation c_heap :: "nat al" where
  "c_heap \<equiv> tda_al_default bump_libc (Base 8)"

end
