(* ===== verification/Tda_Alloc_Properties.thy ===== *)
theory Tda_Alloc_Properties
  imports Tda_Arena Tda_Pool Tda_Log Tda_Aligned Tda_Default
begin

text \<open>
  What the allocators promise to their clients, over whole runs: the properties of
  \<open>src/alloc/*.c\<close> and of the wrappers of \<open>alloc.c\<close>, each with an instance over the
  default allocator and a small C library.
\<close>

section \<open>Clients of an arena\<close>

text \<open>A step of a client of the arena at \<open>c\<close> touches nothing outside but by its own writes.\<close>

definition arena_fixed :: "ptr \<Rightarrow> 's world \<Rightarrow> 's world \<Rightarrow> bool" where
  "arena_fixed c w w' \<longleftrightarrow> map_option (\<lambda>x. (arena_data x, arena_cap x)) (arenas w' c)
     = map_option (\<lambda>x. (arena_data x, arena_cap x)) (arenas w c)"

lemma arena_fixed_refl [simp]: "arena_fixed c w w"
  by (simp add: arena_fixed_def)

lemma arena_alloc_shape:
  assumes "arena_alloc junk c w n = Some (r, w')"
  obtains (null) "r = None" "w' = w"
  | (ok) a bs ctx off where "r = Some (In c a)" "arenas w c = Some ctx"
      "w' = w\<lparr>heap := (heap w)(In c a \<mapsto> bs), arenas := (arenas w)(c \<mapsto> ctx\<lparr>arena_offset := off\<rparr>)\<rparr>"
proof -
  from assms obtain ctx where ctx: "arenas w c = Some ctx"
    by (auto simp: arena_alloc_def bind_eq_Some_conv)
  show thesis
  proof (cases "n = 0")
    case True
    then show thesis using assms ctx null by (simp add: arena_alloc_def)
  next
    case False
    then obtain asz where asz: "tda_ckd_align_up n TDA_DEFAULT_ALIGNMENT = Some asz"
      using assms ctx by (auto simp: arena_alloc_def bind_eq_Some_conv)
    show thesis
    proof (cases "Option.bind asz (ckd_add (arena_offset ctx))")
      case None
      then show thesis using assms ctx False asz null by (simp add: arena_alloc_def)
    next
      case (Some fin)
      show thesis
      proof (cases "fin > arena_cap ctx")
        case True
        then show thesis using assms ctx False asz Some null by (simp add: arena_alloc_def)
      next
        case fits: False
        have "n > 0" using False by simp
        then obtain off where "Some (Some (In c (addr_of (arena_data ctx) + off)), w\<lparr>
            heap := (heap w)(In c (addr_of (arena_data ctx) + off) \<mapsto> junk_bytes junk off n),
            arenas := (arenas w)(c \<mapsto> ctx\<lparr>arena_offset := arena_offset ctx + the asz\<rparr>)\<rparr>) = Some (r, w')"
          using assms ctx asz Some fits by (auto simp: arena_alloc_def Let_def bind_eq_Some_conv simp del: option.inject)
        then show thesis using ok ctx by blast
      qed
    qed
  qed
qed

lemma arena_alloc_outside:
  assumes "arena_alloc junk c w n = Some (r, w')"
  shows "same_outside c w w'" "arena_fixed c w w'" "r = Some p \<Longrightarrow> lent_by c p"
  by (rule arena_alloc_shape [OF assms]; auto simp: same_outside_def arena_fixed_def)+

lemma same_outside_trans: "same_outside c w1 w2 \<Longrightarrow> same_outside c w2 w3 \<Longrightarrow> same_outside c w1 w3"
  by (simp add: same_outside_def)

lemma arena_realloc_outside:
  assumes r: "arena_realloc junk c w (Some p) m n = Some (r, w')" and p: "lent_by c p"
  shows "same_outside c w w' \<and> arena_fixed c w w'"
proof -
  obtain ctx last where ctx: "arenas w c = Some ctx" "is_last_block ctx p m = Some last"
    using r by (auto simp: arena_realloc_def bind_eq_Some_conv)
  show ?thesis
  proof (cases last)
    case True
    then show ?thesis
      using r p ctx by (auto simp: arena_realloc_def same_outside_def arena_fixed_def bind_eq_Some_conv Let_def
          split: if_splits option.splits)
  next
    case False
    then obtain q w1 where a: "arena_alloc junk c w n = Some (q, w1)"
      using r ctx by (auto simp: arena_realloc_def bind_eq_Some_conv)
    note s = arena_alloc_outside [OF a]
    show ?thesis
    proof (cases q)
      case None
      then show ?thesis using r ctx False a s by (auto simp: arena_realloc_def)
    next
      case (Some x)
      then obtain bs w2 where w2: "mem_write w1 x 0 bs = Some w2" "w' = retire (\<lambda>y. y = p) w2"
        using r ctx False a by (auto simp: arena_realloc_def bind_eq_Some_conv)
      then have "same_outside c w1 w'" "arena_fixed c w1 w'"
        using p s Some by (auto simp: mem_write_def same_outside_def arena_fixed_def retire_def split: option.splits if_splits)
      then show ?thesis using s(1,2) same_outside_trans by (auto simp: arena_fixed_def)
    qed
  qed
qed

lemma arena_step_outside:
  assumes "client_step (arena_al junk self c) (lent_by c) w w'"
  shows "arena_fixed c w w' \<and> (same_outside c w w' \<or> (\<exists>p off bs. mem_write w p off bs = Some w'))"
  using assms
proof cases
  case (step_alloc n r)
  then show ?thesis using arena_alloc_outside(1,2) [of junk c w n r w']
    by (auto simp: tda_alloc_def arena_al_def same_outside_def split: if_splits)
next
  case (step_calloc m n r)
  show ?thesis
  proof (cases "m = 0 \<or> n = 0 \<or> SIZE_MAX < m * n")
    case True
    then show ?thesis using step_calloc by (auto simp: tda_calloc_def ckd_mul_def same_outside_def split: if_splits)
  next
    case False
    then obtain q w1 where a: "arena_alloc junk c w (m * n) = Some (q, w1)"
      using step_calloc by (auto simp: tda_calloc_def tda_alloc_def ckd_mul_def arena_al_def bind_eq_Some_conv)
    then have "w' = w1 \<or> (\<exists>p bs. q = Some p \<and> mem_write w1 p 0 bs = Some w')"
      using step_calloc False by (cases q) (auto simp: tda_calloc_def tda_alloc_def ckd_mul_def arena_al_def bind_eq_Some_conv mem_set_def)
    then show ?thesis using arena_alloc_outside [OF a]
      by (auto simp: mem_write_def same_outside_def arena_fixed_def split: option.splits if_splits)
  qed
next
  case (step_realloc p old n r)
  then show ?thesis using arena_realloc_outside [of junk c w p "length old" n r w']
    by (auto simp: tda_realloc_def tda_dealloc_def arena_al_def arena_dealloc_def same_outside_def arena_fixed_def retire_def
        bind_eq_Some_conv split: if_splits)
next
  case (step_dealloc p old)
  then show ?thesis
    by (auto simp: tda_dealloc_def arena_al_def arena_dealloc_def same_outside_def arena_fixed_def retire_def)
next
  case (step_write p off bs)
  then have "arena_fixed c w w'" by (auto simp: mem_write_def arena_fixed_def split: option.splits if_splits)
  then show ?thesis using step_write by blast
qed

context host
begin

lemma arena_run_host:
  assumes c: "owned c"
  shows "client_run (arena_al junk obj c) (lent_by c) w w' \<Longrightarrow> inv w \<Longrightarrow>
    inv w' \<and> arena_fixed c w w' \<and> (\<forall>p. \<not> lent_by c p \<longrightarrow> map_option length (heap w' p) = map_option length (heap w p))"
proof (induction rule: rtranclp_induct)
  case (step w1 w2)
  have w1: "inv w1" "arena_fixed c w w1" "\<And>p. \<not> lent_by c p \<Longrightarrow> map_option length (heap w1 p) = map_option length (heap w p)"
    using step by blast+
  have fx: "arena_fixed c w w2" using arena_step_outside [OF step(2)] w1(2) by (simp add: arena_fixed_def)
  from arena_step_outside [OF step(2)] consider "same_outside c w1 w2" | p off bs where "mem_write w1 p off bs = Some w2"
    by blast
  then show ?case
  proof cases
    case 1
    then show ?thesis using fx w1 host_context [OF w1(1) c 1] by (auto simp: same_outside_def)
  next
    case 2
    then obtain cs where m: "heap w1 p = Some cs" "off + length bs \<le> length cs"
      "w2 = w1\<lparr>heap := (heap w1)(p \<mapsto> blit off bs cs)\<rparr>"
      by (auto simp: mem_write_def split: option.splits if_splits)
    have l: "length (blit off bs cs) = length cs" using m(2) by (rule length_blit)
    have "map_option length (heap w2 q) = map_option length (heap w1 q)" for q
      by (simp add: m l)
    then show ?thesis using fx w1(3) write_law [OF w1(1) m(1) l] m(3) by simp
  qed
qed auto

end

section \<open>Worlds for the instances\<close>

lemma ptr_is_aligned_16: "v \<le> SIZE_MAX \<Longrightarrow> tda_ptr_is_aligned v TDA_DEFAULT_ALIGNMENT = Some (16 dvd v)"
  using tda_ptr_is_aligned_pow2 [of 4 v] by (simp add: TDA_DEFAULT_ALIGNMENT_def)

named_theorems run_simps \<open>evaluation of allocator calls on concrete worlds\<close>

lemmas [run_simps] = tda_alloc_def tda_dealloc_def tda_al_default_def malloc_wrapper_def free_wrapper_def
  calloc_wrapper_def realloc_wrapper_def bump_libc_def bump_new_def bump_free_def bump_realloc_def
  empty_world_def PTRDIFF_MAX_num SIZE_MAX_num al16_def ptr_is_aligned_16

lemma arena_demo_new:
  "\<exists>w1. tda_al_arena_new (\<lambda>i. 0) c_heap 64 empty_world = Some (Some (arena_al (\<lambda>i. 0) (Base 4192) (Base 4160)), w1)
     \<and> arenas w1 (Base 4160) = Some \<lparr>arena_data = Base 4096, arena_cap = 64, arena_offset = 0\<rparr>
     \<and> (\<forall>p. lent_by (Base 4160) p \<longrightarrow> heap w1 p = None)"
  by (simp add: run_simps tda_al_arena_new_def sizeof_ArenaCtx_def sizeof_tda_Al_def lent_by_iff)

lemma no_orphans_empty: "no_orphans own empty_world"
  by (simp add: no_orphans_def empty_world_def)


lemma arena_demo_alloc:
  "arenas w c = Some \<lparr>arena_data = Base 4096, arena_cap = 64, arena_offset = off\<rparr> \<Longrightarrow> off + al16 n \<le> 64 \<Longrightarrow> 0 < n \<Longrightarrow>
     \<exists>w'. tda_alloc (arena_al (\<lambda>i. 0) self c) w n = Some (Some (In c (4096 + off)), w')
      \<and> arenas w' c = Some \<lparr>arena_data = Base 4096, arena_cap = 64, arena_offset = off + al16 n\<rparr>
      \<and> heap w' = (heap w)(In c (4096 + off) \<mapsto> junk_bytes (\<lambda>i. 0) off n)"
  using al16_ge [of n]
  by (auto simp: tda_alloc_def arena_al_def arena_alloc_def ckd_align_up_16 ckd_add_def tda_byte_offset_def SIZE_MAX_num size_mul_def Let_def)

section \<open>Properties\<close>

text \<open>C6: after any run of requests, resizes, releases and writes on a new arena, every block
  it still lends is 16-aligned, lies inside the one block the arena took from its parent, and
  shares no byte with another.\<close>

theorem arena_blocks_disjoint:
  assumes host: "host al I owned" "I w0" "no_orphans owned w0"
    and new: "0 < cap" "cap \<le> SIZE_MAX" "tda_al_arena_new junk al cap w0 = Some (Some a, w1)" "al_ctx a = Some c"
    and run: "client_run a (lent_by c) w1 w2"
  shows "\<exists>ctx. arenas w2 c = Some ctx \<and> block_at w2 (arena_data ctx) (arena_cap ctx)
    \<and> (\<forall>x bs. heap w2 (In c x) = Some bs \<longrightarrow> 16 dvd x \<and> bs \<noteq> []
         \<and> addr_of (arena_data ctx) \<le> x \<and> x + length bs \<le> addr_of (arena_data ctx) + arena_cap ctx)
    \<and> (\<forall>x y bs cs. heap w2 (In c x) = Some bs \<longrightarrow> heap w2 (In c y) = Some cs \<longrightarrow> x \<noteq> y \<longrightarrow>
         x + length bs \<le> y \<or> y + length cs \<le> x)"
proof -
  from host.arena_new_spec [OF host new(1,2), of junk] new(3,4) obtain obj where
    a: "a = arena_al junk obj c" "arena_inv c w1"
    by (auto simp: arena_al_def)
  have inv: "arena_inv c w2" using run a arena.client_run_inv by blast
  obtain ctx where ctx: "arenas w2 c = Some ctx" "arena_offset ctx \<le> arena_cap ctx" "16 dvd addr_of (arena_data ctx)"
    "arena_blocks c (addr_of (arena_data ctx)) (arena_offset ctx) (heap w2)"
    "block_at w2 (arena_data ctx) (arena_cap ctx)"
    by (rule arena_inv_ctx [OF inv])
  have "16 dvd x \<and> bs \<noteq> [] \<and> addr_of (arena_data ctx) \<le> x \<and> x + length bs \<le> addr_of (arena_data ctx) + arena_cap ctx"
    if "heap w2 (In c x) = Some bs" for x bs
  proof -
    note i = arena_blocks_in [OF ctx(4) that]
    moreover have "16 dvd x" using i ctx(3) by (metis dvd_diffD)
    moreover have "x + length bs \<le> addr_of (arena_data ctx) + arena_cap ctx"
      using i ctx(2) al16_ge [of "length bs"] by linarith
    ultimately show ?thesis by blast
  qed
  moreover have "x + length bs \<le> y \<or> y + length cs \<le> x"
    if "heap w2 (In c x) = Some bs" "heap w2 (In c y) = Some cs" "x \<noteq> y" for x y bs cs
    using arena_blocks_apart [OF ctx(4) that(1,2)] arena_blocks_apart [OF ctx(4) that(2,1)] that(3)
      al16_ge [of "length bs"] al16_ge [of "length cs"] by linarith
  ultimately show ?thesis using ctx(1,5) by (intro exI [of _ ctx]) blast
qed

theorem arena_blocks_disjoint_witness:
  "\<exists>a w1 w2 bs cs. tda_al_arena_new (\<lambda>i. 0) c_heap 64 empty_world = Some (Some a, w1)
     \<and> client_run a (lent_by (Base 4160)) w1 w2
     \<and> heap w2 (In (Base 4160) 4096) = Some bs \<and> heap w2 (In (Base 4160) 4112) = Some cs
     \<and> 16 dvd (4096::nat) \<and> (4096 + length bs \<le> 4112 \<or> 4112 + length cs \<le> 4096)"
proof -
  let ?a = "arena_al (\<lambda>i. 0) (Base 4192) (Base 4160)"
  obtain w1 where w1: "tda_al_arena_new (\<lambda>i. 0) c_heap 64 empty_world = Some (Some ?a, w1)"
    "arenas w1 (Base 4160) = Some \<lparr>arena_data = Base 4096, arena_cap = 64, arena_offset = 0\<rparr>"
    using arena_demo_new by blast
  obtain w2 where w2: "tda_alloc ?a w1 8 = Some (Some (In (Base 4160) 4096), w2)"
    "arenas w2 (Base 4160) = Some \<lparr>arena_data = Base 4096, arena_cap = 64, arena_offset = 16\<rparr>"
    "heap w2 (In (Base 4160) 4096) = Some (junk_bytes (\<lambda>i. 0) 0 8)"
    using arena_demo_alloc [OF w1(2), of 8 "Base 4192"] by (auto simp: al16_def)
  obtain w3 where w3: "tda_alloc ?a w2 20 = Some (Some (In (Base 4160) 4112), w3)"
    "heap w3 (In (Base 4160) 4112) = Some (junk_bytes (\<lambda>i. 0) 16 20)"
    "heap w3 (In (Base 4160) 4096) = Some (junk_bytes (\<lambda>i. 0) 0 8)"
    using arena_demo_alloc [OF w2(2), of 20 "Base 4192"] w2(3) by (auto simp: al16_def)
  have "client_step ?a (lent_by (Base 4160)) w1 w2" "client_step ?a (lent_by (Base 4160)) w2 w3"
    using step_alloc [OF _ w2(1)] step_alloc [OF _ w3(1)] by (simp_all add: SIZE_MAX_num)
  then have run: "client_run ?a (lent_by (Base 4160)) w1 w3" by auto
  show ?thesis
    using arena_blocks_disjoint [OF bump.host_axioms bump_ok_empty no_orphans_empty _ _ w1(1) _ run] w1(1) run w3
    by (fastforce simp: SIZE_MAX_num arena_al_def)
qed

text \<open>C7: dropping an arena after any run of its clients gives its parent back every block the
  arena took: the heap has the shape it had before the arena was made.\<close>

theorem arena_no_leak:
  assumes host: "host al I owned" "I w0" "no_orphans owned w0"
    and new: "0 < cap" "cap \<le> SIZE_MAX" "tda_al_arena_new junk al cap w0 = Some (Some a, w1)" "al_ctx a = Some c"
    and run: "client_run a (lent_by c) w1 w2"
  shows "\<exists>w3. tda_al_arena_drop al (Some a) w2 = Some w3 \<and> I w3
    \<and> (\<forall>p. map_option length (heap w3 p) = map_option length (heap w0 p))"
proof -

  from host.arena_new_spec [OF host new(1,2), of junk] new(3,4) obtain obj where
    a: "a = arena_al junk obj c" "arena_inv c w1" "arena_made owned cap w0 c obj w1" "I w1"
    by (auto simp: arena_al_def)
  then obtain d bd bc bo where m: "arenas w1 c = Some \<lparr>arena_data = d, arena_cap = cap, arena_offset = 0\<rparr>"
    "owned d" "owned c" "owned obj" "d \<noteq> c" "d \<noteq> obj" "c \<noteq> obj"
    "heap w0 d = None" "heap w0 c = None" "heap w0 obj = None"
    "length bd = cap" "length bc = sizeof_ArenaCtx" "length bo = sizeof_tda_Al"
    "heap w1 = (heap w0)(d \<mapsto> bd, c \<mapsto> bc, obj \<mapsto> bo)"
    unfolding arena_made_def by blast
  have r: "I w2" "arena_fixed c w1 w2" "\<And>p. \<not> lent_by c p \<Longrightarrow> map_option length (heap w2 p) = map_option length (heap w1 p)"
    using host.arena_run_host [OF host(1) m(3) run [unfolded a(1)] a(4)] by blast+
  have inv: "arena_inv c w2" using run a arena.client_run_inv by blast
  obtain ctx where ctx: "arenas w2 c = Some ctx" "arena_data ctx = d" "arena_cap ctx = cap"
    using r(2) m(1) by (auto simp: arena_fixed_def)
  have nl: "\<not> lent_by c d" "\<not> lent_by c c" "\<not> lent_by c obj"
    using host.host_apart [OF host(1) m(2,3)] host.host_apart [OF host(1) m(3,3)] host.host_apart [OF host(1) m(4,3)]
      lent_by_under by blast+
  have "block_at w2 c sizeof_ArenaCtx" "block_at w2 obj sizeof_tda_Al"
    using r(3) [OF nl(2)] r(3) [OF nl(3)] m by (auto simp: block_at_def)
  from host.arena_drop_spec [OF host(1) r(1) inv ctx(1) _ m(3,4) _ _ m(7) this, of junk] ctx m
  obtain w3 where w3: "tda_al_arena_drop al (Some a) w2 = Some w3" "I w3"
    "heap w3 = (\<lambda>p. if lent_by c p \<or> p \<in> {d, c, obj} then None else heap w2 p)"
    unfolding a(1) by auto
  have "map_option length (heap w3 p) = map_option length (heap w0 p)" for p
    using w3(3) r(3) [of p] m host(3) by (auto simp: no_orphans_def)
  then show ?thesis using w3(1,2) by blast
qed

theorem arena_no_leak_witness:
  "\<exists>a w1 w3. tda_al_arena_new (\<lambda>i. 0) c_heap 64 empty_world = Some (Some a, w1)
     \<and> tda_al_arena_drop c_heap (Some a) w1 = Some w3 \<and> (\<forall>p. heap w3 p = None)"
proof -
  let ?a = "arena_al (\<lambda>i. 0) (Base 4192) (Base 4160)"
  obtain w1 where w1: "tda_al_arena_new (\<lambda>i. 0) c_heap 64 empty_world = Some (Some ?a, w1)"
    using arena_demo_new by blast
  have c: "al_ctx ?a = Some (Base 4160)" by (simp add: arena_al_def)
  have "0 < (64::nat)" "64 \<le> SIZE_MAX" by (simp_all add: SIZE_MAX_num)
  from arena_no_leak [OF bump.host_axioms bump_ok_empty no_orphans_empty this w1 c rtranclp.rtrancl_refl] w1
  show ?thesis by (fastforce simp: empty_world_def)
qed

text \<open>the block that ends where the arena's next one would start grows and shrinks in
  place, its bytes kept, and is refused without effect when the arena is too small.\<close>

theorem arena_last_block_in_place:
  assumes "arena_inv c w" "arenas w c = Some ctx" "heap w (In c a) = Some old"
    and "a + al16 (length old) = addr_of (arena_data ctx) + arena_offset ctx" "0 < n" "n \<le> SIZE_MAX"
  shows "\<exists>r w'. tda_realloc (arena_al junk self c) w (Some (In c a)) (length old) n = Some (r, w') \<and> arena_inv c w'
    \<and> (if a + al16 n \<le> addr_of (arena_data ctx) + arena_cap ctx
       then r = Some (In c a) \<and> (\<exists>bs. heap w' (In c a) = Some bs \<and> length bs = n \<and> take (length old) bs = take n old)
       else r = None \<and> w' = w)"
proof -
  let ?d = "addr_of (arena_data ctx)"
  obtain ctx' where "arenas w c = Some ctx'" "arena_blocks c (addr_of (arena_data ctx')) (arena_offset ctx') (heap w)"
    by (rule arena_inv_ctx [OF assms(1)])
  then have da: "?d \<le> a" using arena_blocks_in [of c ?d "arena_offset ctx" "heap w" a old] assms(2,3) by auto
  have e: "tda_realloc (arena_al junk self c) w (Some (In c a)) (length old) n
      = arena_realloc junk c w (Some (In c a)) (length old) n"
    using assms(5) by (simp add: tda_realloc_def arena_al_def)
  obtain r w' where rw: "arena_realloc junk c w (Some (In c a)) (length old) n = Some (r, w')" "arena_inv c w'"
    using arena_realloc_last_law [OF assms(1,2,3,5,6,4), of junk] by blast
  then show ?thesis
    using arena_realloc_last [OF assms(2,1,3,5,6,4), of junk] e da by (auto simp: min_def junk_bytes_def split: if_splits)
qed

text \<open>C33: over any allocator, with or without a \<open>realloc\<close> callback, a resize gives back a block
  of the new size that keeps the common prefix, frees the block when the new size is zero,
  and leaves the old block and everything else alone when it is refused.\<close>

theorem realloc_keeps_prefix:
  assumes A: "allocator al I owned" and w: "I w" "owned p" "heap w p = Some old" and n: "n \<le> SIZE_MAX"
  shows "\<exists>r w'. tda_realloc al w (Some p) (length old) n = Some (r, w') \<and> I w'
    \<and> (case r of None \<Rightarrow> heap w' = (if n = 0 then (heap w)(p := None) else heap w)
       | Some q \<Rightarrow> (q = p \<or> heap w q = None) \<and> (\<exists>bs. length bs = n \<and> heap w' = (heap w)(p := None, q \<mapsto> bs)
           \<and> take (min (length old) n) bs = take (min (length old) n) old))"
proof (cases "n = 0")
  case True
  obtain w' where "tda_realloc al w (Some p) (length old) 0 = Some (None, w')" "I w'" "heap w' = (heap w)(p := None)"
    by (rule allocator.realloc_to_zero [OF A w refl])
  then show ?thesis using True by simp
next
  case False
  then have pos: "0 < n" by simp
  show ?thesis
  proof (rule allocator.realloc_some_cases [OF A w refl pos n], goal_cases)
    case (1 w')
    then show ?case using False by simp
  next
    case (2 q w' bs)
    then show ?case by auto
  qed
qed

theorem realloc_keeps_prefix_witness:
  "\<exists>r w'. tda_realloc (pool_al (\<lambda>i. 0) (Base 8) (Base 64))
      (empty_world\<lparr>heap := [Base 4096 \<mapsto> replicate 32 0, In (Base 64) 4096 \<mapsto> [1, 2]],
        pools := [Base 64 \<mapsto> \<lparr>pool_data = Base 4096, pool_free_head = Some (In (Base 64) 4112), pool_block_size = 16,
          pool_block_count = 2, pool_used = 1\<rparr>], pool_nodes := [In (Base 64) 4112 \<mapsto> None]\<rparr>)
      (Some (In (Base 64) 4096)) 2 3 = Some (r, w')"
proof -
  let ?w = "empty_world\<lparr>heap := [Base 4096 \<mapsto> replicate 32 0, In (Base 64) 4096 \<mapsto> [1, 2]],
        pools := [Base 64 \<mapsto> \<lparr>pool_data = Base 4096, pool_free_head = Some (In (Base 64) 4112), pool_block_size = 16,
          pool_block_count = 2, pool_used = 1\<rparr>], pool_nodes := [In (Base 64) 4112 \<mapsto> None]\<rparr>"
  let ?c = "\<lparr>pool_data = Base 4096, pool_free_head = Some (In (Base 64) 4112), pool_block_size = 16,
          pool_block_count = 2, pool_used = 1\<rparr>"
  have "pool_shape (Base 64) ?w ?c" by (simp add: pool_shape_def SIZE_MAX_num block_at_def)
  moreover have "pool_free (Base 64) ?w ?c [In (Base 64) 4112]"
    by (auto simp: pool_free_def pool_all_def lent_by_iff empty_world_def numeral_2_eq_2)
  ultimately have "pool_inv (Base 64) ?w" by (auto simp: pool_inv_def)
  from realloc_keeps_prefix [OF pool.allocator_axioms this, of "In (Base 64) 4096" "[1, 2]" 3 "\<lambda>i. 0" "Base 8"]
  show ?thesis by (auto simp: SIZE_MAX_num numeral_2_eq_2)
qed

text \<open>over any allocator, \<open>tda_calloc\<close> answers a product that overflows \<open>size_t\<close> with null
  and otherwise lends a fresh block of exactly that many zero bytes, or nothing at all.\<close>

lemma calloc_zeroes:
  assumes A: "allocator al I owned" and w: "I w"
  shows "\<exists>r w'. tda_calloc al w m n = Some (r, w') \<and> I w'
    \<and> (case r of None \<Rightarrow> heap w' = heap w
       | Some p \<Rightarrow> m * n \<le> SIZE_MAX \<and> owned p \<and> heap w p = None \<and> heap w' = (heap w)(p \<mapsto> replicate (m * n) 0))"
  by (rule allocator.calloc_cases [OF A w, of m n]) auto

text \<open>C8: after any run of its clients, a pool counts as used exactly the blocks that are lent,
  used and free add up to the number of blocks, and a request that fits in a block is
  served if and only if a block is free.\<close>

theorem pool_accounting:
  assumes host: "host al I owned" "I w0" "no_orphans owned w0"
    and new: "0 < n" "0 < cnt" "pool_round n * cnt \<le> SIZE_MAX"
      "tda_al_pool_new junk al n cnt w0 = Some (Some a, w1)" "al_ctx a = Some c"
    and run: "client_run a (lent_by c) w1 w2"
  shows "\<exists>st. tda_al_pool_stats a w2 = Some st
    \<and> pool_stats_used st = card {p. lent_by c p \<and> heap w2 p \<noteq> None}
    \<and> pool_stats_used st + pool_stats_free st = pool_stats_block_count st
    \<and> (\<forall>m. 0 < m \<longrightarrow> m \<le> pool_stats_block_size st \<longrightarrow>
         (0 < pool_stats_free st \<longleftrightarrow> (\<exists>p w'. tda_alloc a w2 m = Some (Some p, w'))))"
proof -
  from host.pool_new_spec [OF host new(1-3), of junk] new(4,5) obtain obj where
    a: "a = pool_al junk obj c" "pool_inv c w1"
    by (auto simp: pool_al_def)
  then have "pool_inv c w2" using run pool.client_run_inv by blast
  moreover have "tda_alloc a w2 m = pool_alloc junk c w2 m" if "0 < m" for m
    using that by (simp add: a tda_alloc_def pool_al_def)
  ultimately show ?thesis using pool_stats_spec [of c w2 junk obj] a by simp
qed

lemma pool_demo_new:
  "\<exists>w1. tda_al_pool_new (\<lambda>i. 0) c_heap 10 2 empty_world = Some (Some (pool_al (\<lambda>i. 0) (Base 4176) (Base 4096)), w1)
     \<and> pools w1 (Base 4096) = Some \<lparr>pool_data = Base 4144, pool_free_head = Some (In (Base 4096) 4144),
         pool_block_size = 16, pool_block_count = 2, pool_used = 0\<rparr>
     \<and> pool_nodes w1 (In (Base 4096) 4144) = Some (Some (In (Base 4096) 4160))
     \<and> pool_nodes w1 (In (Base 4096) 4160) = Some None"
  by (simp add: run_simps tda_al_pool_new_def sizeof_PoolCtx_def sizeof_tda_Al_def sizeof_PoolNode_def Let_def ckd_align_up_16
      ckd_mul_def pool_build_free_list_def pool_link_def pool_block_def size_mul_def numeral_2_eq_2)

lemma pool_demo_alloc:
  "pools w c = Some ctx \<Longrightarrow> pool_free_head ctx = Some p \<Longrightarrow> pool_nodes w p = Some nx \<Longrightarrow> 0 < n \<Longrightarrow> n \<le> pool_block_size ctx \<Longrightarrow>
     \<exists>w'. tda_alloc (pool_al (\<lambda>i. 0) self c) w n = Some (Some p, w')
      \<and> pools w' c = Some (ctx\<lparr>pool_free_head := nx, pool_used := pool_used ctx + 1\<rparr>)
      \<and> heap w' = (heap w)(p \<mapsto> replicate n 0) \<and> pool_nodes w' = (pool_nodes w)(p := None)"
  by (auto simp: tda_alloc_def pool_al_def pool_alloc_def map_replicate_const)

theorem pool_accounting_witness:
  "\<exists>a w1 st. tda_al_pool_new (\<lambda>i. 0) c_heap 10 2 empty_world = Some (Some a, w1)
     \<and> tda_al_pool_stats a w1 = Some st \<and> pool_stats_used st + pool_stats_free st = 2"
proof -
  let ?a = "pool_al (\<lambda>i. 0) (Base 4176) (Base 4096)"
  obtain w1 where w1: "tda_al_pool_new (\<lambda>i. 0) c_heap 10 2 empty_world = Some (Some ?a, w1)"
    "pools w1 (Base 4096) = Some \<lparr>pool_data = Base 4144, pool_free_head = Some (In (Base 4096) 4144),
         pool_block_size = 16, pool_block_count = 2, pool_used = 0\<rparr>"
    using pool_demo_new by blast
  have h: "0 < (10::nat)" "0 < (2::nat)" "pool_round 10 * 2 \<le> SIZE_MAX" "al_ctx ?a = Some (Base 4096)"
    by (simp_all add: pool_round_def al16_def SIZE_MAX_num sizeof_PoolNode_def pool_al_def)
  from pool_accounting [OF bump.host_axioms bump_ok_empty no_orphans_empty h(1-3) w1(1) h(4) rtranclp.rtrancl_refl]
  obtain st where "tda_al_pool_stats ?a w1 = Some st" "pool_stats_used st + pool_stats_free st = pool_stats_block_count st"
    by blast
  moreover from this(1) have "pool_stats_block_count st = 2"
    using w1(2) by (auto simp: tda_al_pool_stats_def pool_al_def)
  ultimately show ?thesis using w1(1) by auto
qed

text \<open>C9: after any run of its clients, the blocks a pool lends lie inside its storage, each no
  longer than the block size, and no two of them share a byte.\<close>

theorem pool_blocks_disjoint:
  assumes host: "host al I owned" "I w0" "no_orphans owned w0"
    and new: "0 < n" "0 < cnt" "pool_round n * cnt \<le> SIZE_MAX"
      "tda_al_pool_new junk al n cnt w0 = Some (Some a, w1)" "al_ctx a = Some c"
    and run: "client_run a (lent_by c) w1 w2"
    and live: "heap w2 (In c x) = Some bs" "heap w2 (In c y) = Some cs" "x \<noteq> y"
  shows "16 dvd x \<and> (x + length bs \<le> y \<or> y + length cs \<le> x)
    \<and> (\<exists>ctx. pools w2 c = Some ctx \<and> length bs \<le> pool_block_size ctx \<and> addr_of (pool_data ctx) \<le> x
         \<and> x + length bs \<le> addr_of (pool_data ctx) + pool_block_size ctx * pool_block_count ctx)"
proof -
  from host.pool_new_spec [OF host new(1-3), of junk] new(4,5) obtain obj where
    a: "a = pool_al junk obj c" "pool_inv c w1"
    by (auto simp: pool_al_def)
  then have "pool_inv c w2" using run pool.client_run_inv by blast
  then obtain ctx free where ctx: "pools w2 c = Some ctx" "pool_shape c w2 ctx" "pool_free c w2 ctx free"
    by (rule pool_invE)
  let ?d = "addr_of (pool_data ctx)" and ?s = "pool_block_size ctx" and ?n = "pool_block_count ctx"
  have blk: "\<exists>i<?n. z = ?d + ?s * i" "length b \<le> ?s" if "heap w2 (In c z) = Some b" for z b
  proof -
    have "In c z \<in> set (pool_all c ctx)" using pool_freeD(5) [OF ctx(3), of "In c z"] that by auto
    then show "\<exists>i<?n. z = ?d + ?s * i" by (auto simp: pool_all_def)
    show "length b \<le> ?s" using pool_freeD(6) [OF ctx(3), of "In c z"] that by simp
  qed
  obtain i j where ij: "i < ?n" "x = ?d + ?s * i" "j < ?n" "y = ?d + ?s * j"
    using blk(1) [OF live(1)] blk(1) [OF live(2)] by blast
  have sh: "16 dvd ?d" "16 dvd ?s" using ctx(2) by (simp_all add: pool_shape_def)
  have step: "?s * u + ?s \<le> ?s * v" if "u < v" for u v :: nat
    using mult_le_mono2 [of "Suc u" v ?s] that by simp
  have "x + length bs \<le> y \<or> y + length cs \<le> x"
    using step [of i j] step [of j i] blk(2) [OF live(1)] blk(2) [OF live(2)] ij live(3)
    by (cases "i < j") auto
  moreover have "x + length bs \<le> ?d + ?s * ?n" using step [OF ij(1)] ij(2) blk(2) [OF live(1)] by linarith
  ultimately show ?thesis using ctx(1) blk(2) [OF live(1)] ij(2) sh by auto
qed

theorem pool_blocks_disjoint_witness:
  "\<exists>a w1 w2 bs cs. tda_al_pool_new (\<lambda>i. 0) c_heap 10 2 empty_world = Some (Some a, w1)
     \<and> client_run a (lent_by (Base 4096)) w1 w2 \<and> heap w2 (In (Base 4096) 4144) = Some bs
     \<and> heap w2 (In (Base 4096) 4160) = Some cs \<and> (4144 + length bs \<le> 4160 \<or> 4160 + length cs \<le> 4144)"
proof -
  let ?c = "Base 4096" and ?a = "pool_al (\<lambda>i. 0) (Base 4176) (Base 4096)"
  obtain w1 where w1: "tda_al_pool_new (\<lambda>i. 0) c_heap 10 2 empty_world = Some (Some ?a, w1)"
    "pools w1 ?c = Some \<lparr>pool_data = Base 4144, pool_free_head = Some (In ?c 4144),
         pool_block_size = 16, pool_block_count = 2, pool_used = 0\<rparr>"
    "pool_nodes w1 (In ?c 4144) = Some (Some (In ?c 4160))" "pool_nodes w1 (In ?c 4160) = Some None"
    using pool_demo_new by blast
  obtain w2 where w2: "tda_alloc ?a w1 10 = Some (Some (In ?c 4144), w2)"
    "pools w2 ?c = Some \<lparr>pool_data = Base 4144, pool_free_head = Some (In ?c 4160),
         pool_block_size = 16, pool_block_count = 2, pool_used = 1\<rparr>"
    "heap w2 (In ?c 4144) = Some (replicate 10 0)" "pool_nodes w2 (In ?c 4160) = Some None"
    using pool_demo_alloc [OF w1(2) _ w1(3), of 10 "Base 4176"] w1(4) by auto
  obtain w3 where w3: "tda_alloc ?a w2 16 = Some (Some (In ?c 4160), w3)"
    "heap w3 (In ?c 4160) = Some (replicate 16 0)" "heap w3 (In ?c 4144) = Some (replicate 10 0)"
    using pool_demo_alloc [OF w2(2) _ w2(4), of 16 "Base 4176"] w2(3) by auto
  have "client_step ?a (lent_by ?c) w1 w2" "client_step ?a (lent_by ?c) w2 w3"
    using step_alloc [OF _ w2(1)] step_alloc [OF _ w3(1)] by (simp_all add: SIZE_MAX_num)
  then have run: "client_run ?a (lent_by ?c) w1 w3" by auto
  have h: "0 < (10::nat)" "0 < (2::nat)" "pool_round 10 * 2 \<le> SIZE_MAX" "al_ctx ?a = Some ?c"
    by (simp_all add: pool_round_def al16_def SIZE_MAX_num sizeof_PoolNode_def pool_al_def)
  from pool_blocks_disjoint [OF bump.host_axioms bump_ok_empty no_orphans_empty h(1-3) w1(1) h(4) run w3(3,2)]
  show ?thesis using w1(1) run w3 by auto
qed

text \<open>C35: a logging allocator keeps the contract of the allocator it wraps, and every call through it,
  a request for a block or a zeroed one, a resize of a block or of nothing, a release, answers as the same
  call on the wrapped allocator, leaves the heap as that call does, and adds exactly one line to the log.\<close>

theorem log_keeps_contract:
  assumes host: "host al I owned" "owned c" and w: "log_inv I c w"
  shows "allocator (log_al sp al self c) (log_inv I c) (log_owned owned c)
    \<and> (\<forall>n. 0 < n \<longrightarrow> n \<le> SIZE_MAX \<longrightarrow>
        answers_and_logs w c (alloc_line sp n) (tda_alloc (log_al sp al self c) w n) (tda_alloc al w n))
    \<and> (\<forall>m n. 0 < m \<longrightarrow> 0 < n \<longrightarrow> m * n \<le> SIZE_MAX \<longrightarrow>
        answers_and_logs w c (calloc_line sp m n) (tda_calloc (log_al sp al self c) w m n) (tda_calloc al w m n))
    \<and> (\<forall>n. 0 < n \<longrightarrow> n \<le> SIZE_MAX \<longrightarrow>
        answers_and_logs w c (realloc_line sp None 0 n) (tda_realloc (log_al sp al self c) w None 0 n) (tda_realloc al w None 0 n))
    \<and> (\<forall>p old n. log_owned owned c p \<longrightarrow> heap w p = Some old \<longrightarrow> 0 < n \<longrightarrow> n \<le> SIZE_MAX \<longrightarrow>
        answers_and_logs w c (realloc_line sp (Some p) (length old) n) (tda_realloc (log_al sp al self c) w (Some p) (length old) n)
          (tda_realloc al w (Some p) (length old) n)
        \<and> (\<exists>r w'. tda_realloc (log_al sp al self c) w (Some p) (length old) n = Some (r, w') \<and> realloc_post (log_owned owned c) w p old n r w'))
    \<and> (\<forall>p bs. log_owned owned c p \<longrightarrow> heap w p = Some bs \<longrightarrow>
        (\<exists>w'. tda_dealloc (log_al sp al self c) w (Some p) (length bs) = Some w' \<and> heap w' = (heap w)(p := None)
          \<and> logs w' c = Some (the (logs w c) @ [dealloc_line sp p (length bs)])))"
proof -
  have a: "allocator (log_al sp al self c) (log_inv I c) (log_owned owned c)" by (rule host.log_allocator [OF host])
  have g: "\<exists>r w'. log_realloc sp al c w (Some p) (length old) n = Some (r, w') \<and> realloc_post (log_owned owned c) w p old n r w'"
    if "log_owned owned c p" "heap w p = Some old" "0 < n" "n \<le> SIZE_MAX" for p old n
    using host.log_realloc_spec [OF host w that, of sp] by blast
  have d: "\<exists>w'. log_dealloc sp al c w p (length bs) = Some w' \<and> heap w' = (heap w)(p := None)
      \<and> logs w' c = Some (the (logs w c) @ [dealloc_line sp p (length bs)])" if "log_owned owned c p" "heap w p = Some bs" for p bs
    using host.log_dealloc_spec [OF host w that, of sp] by blast
  show ?thesis
    by (intro conjI allI impI a) (simp_all only: log_calls host.log_answers [OF host w] g d)
qed

theorem log_keeps_contract_witness:
  "\<exists>w r w'. tda_alloc (log_al (\<lambda>p. ''p'') c_heap (Base 24) (Base 4096)) w 8 = Some (r, w')
     \<and> logs w' (Base 4096) = Some [alloc_line (\<lambda>p. ''p'') 8 r]"
proof -
  let ?w = "empty_world\<lparr>heap := [Base 4096 \<mapsto> replicate 16 0], sys := 4112, logs := [Base 4096 \<mapsto> []]\<rparr>"
  have "log_inv bump_ok (Base 4096) ?w"
    by (simp add: log_inv_def bump_ok_def empty_world_def PTRDIFF_MAX_num)
  from log_keeps_contract [OF bump.host_axioms _ this, of "\<lambda>p. ''p''" "Base 24"]
  have "answers_and_logs ?w (Base 4096) (alloc_line (\<lambda>p. ''p'') 8)
      (tda_alloc (log_al (\<lambda>p. ''p'') c_heap (Base 24) (Base 4096)) ?w 8) (tda_alloc c_heap ?w 8)"
    by (simp add: libc_owned_def SIZE_MAX_num)
  then show ?thesis by (intro exI [of _ ?w]) (auto simp: answers_and_logs_def)
qed

text \<open>C34: whatever a client of a new over-aligning allocator has done, every block it holds is
  aligned as asked and lies, with the pointer below it, inside a live block of the parent, giving it
  back gives the parent exactly that block, and two blocks never overlap. A request for \<open>n\<close> bytes is
  refused exactly when \<open>n + alignment - 1 + sizeof (void *)\<close> passes \<open>SIZE_MAX\<close> or the parent refuses that
  many; otherwise the block is new, aligned and inside a block the parent has just lent, and
  giving it back restores the heap.\<close>

theorem aligned_round_trip:
  assumes host: "disjoint_host al I owned" and w: "I w0" "no_orphans owned w0" and k: "4 \<le> k" "k < 64"
    and new: "tda_al_aligned_new junk al (2 ^ k) w0 = Some (Some a, w1)" and c: "al_ctx a = Some c"
    and run: "client_run a (lent_by c) w1 w2" and n: "0 < n"
  shows "(\<forall>p xs. lent_by c p \<longrightarrow> heap w2 p = Some xs \<longrightarrow> 2 ^ k dvd addr_of p \<and> (\<exists>base bb.
        owned base \<and> heap w2 base = Some bb \<and> addr_of base + sizeof_ptr \<le> addr_of p
        \<and> addr_of p + length xs \<le> addr_of base + length bb
        \<and> (\<exists>w'. tda_dealloc a w2 (Some p) (length xs) = Some w' \<and> heap w' = (heap w2)(p := None, base := None))))
    \<and> (\<forall>p q xs ys. lent_by c p \<longrightarrow> lent_by c q \<longrightarrow> p \<noteq> q \<longrightarrow> heap w2 p = Some xs \<longrightarrow> heap w2 q = Some ys \<longrightarrow>
        addr_of p + length xs \<le> addr_of q \<or> addr_of q + length ys \<le> addr_of p)
    \<and> (\<exists>r w3. tda_alloc a w2 n = Some (r, w3)
        \<and> (r = None \<longleftrightarrow> SIZE_MAX < n + 2 ^ k - 1 + sizeof_ptr
             \<or> (\<exists>w'. tda_alloc al w2 (n + 2 ^ k - 1 + sizeof_ptr) = Some (None, w')))
        \<and> (case r of
             None \<Rightarrow> heap w3 = heap w2
           | Some p \<Rightarrow> lent_by c p \<and> heap w2 p = None \<and> 2 ^ k dvd addr_of p \<and> block_at w3 p n
               \<and> (\<exists>base bb. owned base \<and> heap w2 base = None \<and> heap w3 base = Some bb
                    \<and> addr_of base + sizeof_ptr \<le> addr_of p \<and> addr_of p + n \<le> addr_of base + length bb)
               \<and> (\<exists>w4. tda_dealloc a w3 (Some p) n = Some w4 \<and> heap w4 = heap w2)))"
    (is "?live \<and> ?apart \<and> ?alloc")
proof (intro conjI)
  note H = disjoint_host.aligned_alloc_inv [OF host] disjoint_host.aligned_dealloc_inv [OF host]
  obtain obj where a: "a = aligned_al junk al obj c" and i1: "aligned_inv I owned c k w1"
    using disjoint_host.aligned_new_spec [OF host w k, of junk] new c by (auto simp: aligned_al_def)
  have call: "tda_alloc a v m = aligned_alloc_block junk al c v m" "tda_dealloc a v (Some p) m = aligned_dealloc_block al c v p m"
    if "0 < m" for v m p
    using that by (simp_all add: a tda_alloc_def tda_dealloc_def aligned_al_def)
  have i: "aligned_inv I owned c k w2"
    by (rule disjoint_host.aligned_run_inv [OF host run [unfolded a] i1 k(2)])
  note I = aligned_invD [OF i]
  show ?live
  proof (intro allI impI)
    fix p xs assume p: "lent_by c p" "heap w2 p = Some xs"
    obtain w' base where d: "aligned_dealloc_block al c w2 p (length xs) = Some w'" "aligned_bases w2 p = Some base"
      "heap w' = (heap w2)(p := None, base := None)" using H(2) [OF i p] by blast
    have "0 < length xs" using I(5) [OF p] by simp
    with I(5) [OF p] d show "2 ^ k dvd addr_of p \<and> (\<exists>base bb.
        owned base \<and> heap w2 base = Some bb \<and> addr_of base + sizeof_ptr \<le> addr_of p
        \<and> addr_of p + length xs \<le> addr_of base + length bb
        \<and> (\<exists>w'. tda_dealloc a w2 (Some p) (length xs) = Some w' \<and> heap w' = (heap w2)(p := None, base := None)))"
      by (auto simp: call aligned_lent_def block_at_def)
  qed
  show ?apart
  proof (intro allI impI)
    fix p q xs ys assume p: "lent_by c p" "lent_by c q" "p \<noteq> q" "heap w2 p = Some xs" "heap w2 q = Some ys"
    obtain b d where bd: "aligned_lent owned c (2 ^ k) w2 (length xs) b p" "aligned_lent owned c (2 ^ k) w2 (length ys) d q"
      using I(5) p by blast
    then have "b \<noteq> d" using I(6) [OF p(1,2)] p(3-5) by (auto simp: aligned_lent_def)
    then show "addr_of p + length xs \<le> addr_of q \<or> addr_of q + length ys \<le> addr_of p"
      by (rule disjoint_host.aligned_apart [OF host I(1) bd])
  qed
  obtain r w3 where r: "aligned_alloc_block junk al c w2 n = Some (r, w3)" "aligned_inv I owned c k w3"
    "r = None \<longleftrightarrow> SIZE_MAX < n + 2 ^ k - 1 + sizeof_ptr \<or> (\<exists>w'. tda_alloc al w2 (n + 2 ^ k - 1 + sizeof_ptr) = Some (None, w'))"
    "case r of None \<Rightarrow> heap w3 = heap w2
       | Some p \<Rightarrow> heap w2 p = None \<and> (\<exists>base bb. aligned_lent owned c (2 ^ k) w3 n base p \<and> base \<noteq> c
           \<and> heap w2 base = None \<and> heap w3 = (heap w2)(base \<mapsto> bb, p \<mapsto> map junk [0..<n]))"
    using H(1) [OF i k(2) n, of junk] by blast
  show ?alloc
  proof (cases r)
    case None
    then show ?thesis using r n by (auto simp: call)
  next
    case (Some p)
    then obtain base bb where l: "heap w2 p = None" "aligned_lent owned c (2 ^ k) w3 n base p"
      "heap w2 base = None" "heap w3 = (heap w2)(base \<mapsto> bb, p \<mapsto> map junk [0..<n])" using r(4) by auto
    have o: "lent_by c p" "aligned_bases w3 p = Some base" using l(2) by (simp_all add: aligned_lent_def)
    obtain w4 where d: "aligned_dealloc_block al c w3 p n = Some w4" "heap w4 = (heap w3)(p := None, base := None)"
      using H(2) [OF r(2) o(1), of "map junk [0..<n]"] l(4) o(2) by auto
    have "heap w4 = heap w2" using d(2) l(1,3,4) by auto
    moreover obtain cs where "heap w3 base = Some cs" "length cs = n + 2 ^ k - 1 + sizeof_ptr"
      using l(2) by (auto simp: aligned_lent_def block_at_def)
    moreover have "block_at w3 p n" using l(4) by (simp add: block_at_def)
    ultimately show ?thesis
      using r(1,3) Some l(1-3) d(1) by (simp add: call [OF n] aligned_lent_def) (intro exI [of _ base], simp)
  qed
qed

theorem aligned_round_trip_witness:
  "\<exists>a w1 c r w3. tda_al_aligned_new (\<lambda>i. 0) c_heap 64 empty_world = Some (Some a, w1) \<and> al_ctx a = Some c
     \<and> tda_alloc a w1 10 = Some (r, w3)
     \<and> (case r of None \<Rightarrow> heap w3 = heap w1
        | Some p \<Rightarrow> heap w1 p = None \<and> 64 dvd addr_of p
            \<and> (\<exists>w4. tda_dealloc a w3 (Some p) 10 = Some w4 \<and> heap w4 = heap w1))"
proof -
  have b: "bump_spaced empty_world" by (simp add: bump_spaced_def bump_ok_def empty_world_def PTRDIFF_MAX_num)
  obtain a w1 where n: "tda_al_aligned_new (\<lambda>i. 0) c_heap 64 empty_world = Some (Some a, w1)" "al_ctx a = Some (Base 4096)"
    using is_pow2_c_pow2 [of 6]
    by (simp add: run_simps tda_al_aligned_new_def sizeof_AlignedCtx_def sizeof_tda_Al_def aligned_al_def TDA_DEFAULT_ALIGNMENT_def)
  from aligned_round_trip [OF bump_spaced.disjoint_host_axioms b no_orphans_empty, of 6 "\<lambda>i. 0" a w1 "Base 4096" w1 10]
  obtain r w3 where "tda_alloc a w1 10 = Some (r, w3)" "case r of None \<Rightarrow> heap w3 = heap w1
        | Some p \<Rightarrow> heap w1 p = None \<and> 64 dvd addr_of p
            \<and> (\<exists>w4. tda_dealloc a w3 (Some p) 10 = Some w4 \<and> heap w4 = heap w1)"
    using n by (fastforce split: option.splits)
  then show ?thesis using n by blast
qed

text \<open>\<open>tda_align_up\<close> gives the least multiple of a power of two at or above its argument,
  and aborts exactly when that needs more than \<open>size_t\<close> holds; the checked variant reports it.\<close>

theorem align_up_least:
  assumes "k < 64" "v \<le> SIZE_MAX"
  shows "(case tda_align_up v (2 ^ k) of
      None \<Rightarrow> SIZE_MAX < v + (2 ^ k - 1) \<and> tda_ckd_align_up v (2 ^ k) = Some None
    | Some a \<Rightarrow> tda_ckd_align_up v (2 ^ k) = Some (Some a) \<and> v \<le> a \<and> 2 ^ k dvd a
        \<and> (\<forall>b. v \<le> b \<longrightarrow> 2 ^ k dvd b \<longrightarrow> a \<le> b))"
proof (cases "v \<le> SIZE_MAX - (2 ^ k - 1)")
  case True
  let ?m = "(2::nat) ^ k"
  let ?a = "(v + (?m - 1)) div ?m * ?m"
  have e: "tda_align_up v ?m = Some ?a" by (rule tda_align_up_pow2 [OF assms(1) True])
  have eq: "?a + (v + (?m - 1)) mod ?m = v + (?m - 1)" by (rule div_mult_mod_eq)
  have lt: "(v + (?m - 1)) mod ?m < ?m" by (rule mod_less_divisor) simp
  have ge: "v \<le> ?a" using eq lt by linarith
  have "?a \<le> b" if b: "v \<le> b" "?m dvd b" for b
  proof -
    obtain j where j: "b = ?m * j" using b(2) by blast
    have "?m * Suc j = ?m + ?m * j" "1 \<le> ?m" by simp_all
    then have "v + (?m - 1) < ?m * Suc j" using b(1) j by linarith
    then have "(v + (?m - 1)) div ?m < Suc j" by (simp add: less_mult_imp_div_less mult.commute)
    then show ?thesis using j by simp
  qed
  moreover have "tda_ckd_align_up v ?m = Some (Some ?a)"
    using True assms(1) by (simp add: tda_ckd_align_up_def e is_pow2_c_pow2)
  ultimately show ?thesis using ge unfolding e by simp
next
  case False
  then have "tda_align_up v (2 ^ k) = None" "tda_ckd_align_up v (2 ^ k) = Some None"
    using assms(1) by (simp_all add: tda_align_up_def tda_ckd_align_up_def is_pow2_c_pow2 c_assert_def)
  moreover have "SIZE_MAX < v + (2 ^ k - 1)" using False by linarith
  ultimately show ?thesis by simp
qed

end
