(* ===== verification/Tda_Span.thy ===== *)
theory Tda_Span
  imports Tda_Alloc
begin

text \<open>
  \<open>include/tda/core/span.h\<close>. A span is a view: a pointer into a block, a length and an
  element size; \<open>tda_Span\<close> and \<open>tda_SpanMut\<close> differ in \<open>const\<close> only and are one record.
  The first part models the operations on the bytes of the memory. The second part is the
  element view the algorithms of \<open>src/algo\<close> are modelled on, a list with checked accesses
  (\<open>span_get\<close>, \<open>span_set\<close>, \<open>span_swap\<close>); the refinement lemmas say that each byte-level
  operation is the list operation on the elements the span shows and touches nothing else.
\<close>

section \<open>Spans over memory\<close>

record tda_Span =
  sp_data :: "(ptr \<times> nat) option"
  sp_len :: nat
  sp_elem_size :: nat

definition TDA_SPAN_ASSERT :: "tda_Span \<Rightarrow> unit option" where
  "TDA_SPAN_ASSERT s = do {
     c_assert (sp_data s \<noteq> None \<or> sp_len s = 0);
     c_assert (sp_elem_size s > 0)
   }"

definition tda_span_from_data :: "(ptr \<times> nat) option \<Rightarrow> nat \<Rightarrow> nat \<Rightarrow> tda_Span option" where
  "tda_span_from_data data len elem_size = do {
     c_assert (data \<noteq> None \<or> len = 0);
     c_assert (elem_size > 0);
     Some \<lparr>sp_data = data, sp_len = len, sp_elem_size = elem_size\<rparr>
   }"

definition tda_span_mut_to_span :: "tda_Span \<Rightarrow> tda_Span option" where
  "tda_span_mut_to_span s = do {
     TDA_SPAN_ASSERT s;
     Some \<lparr>sp_data = sp_data s, sp_len = sp_len s, sp_elem_size = sp_elem_size s\<rparr>
   }"

definition tda_span_sub :: "tda_Span \<Rightarrow> nat \<Rightarrow> nat \<Rightarrow> tda_Span option" where
  "tda_span_sub self idx cnt = do {
     TDA_SPAN_ASSERT self;
     c_assert (idx \<le> sp_len self);
     c_assert (cnt \<le> sp_len self - idx);
     Some \<lparr>sp_data = (case sp_data self of
                 Some (p, off) \<Rightarrow> Some (p, off + size_mul idx (sp_elem_size self))
               | None \<Rightarrow> None),
           sp_len = cnt, sp_elem_size = sp_elem_size self\<rparr>
   }"

definition tda_span_bytes :: "tda_Span \<Rightarrow> nat option" where
  "tda_span_bytes self = do {
     TDA_SPAN_ASSERT self;
     Some (size_mul (sp_len self) (sp_elem_size self))
   }"

definition tda_span_get :: "tda_Span \<Rightarrow> nat \<Rightarrow> (ptr \<times> nat) option" where
  "tda_span_get self idx = do {
     TDA_SPAN_ASSERT self;
     c_assert (idx < sp_len self);
     (p, off) \<leftarrow> sp_data self;
     Some (p, off + size_mul idx (sp_elem_size self))
   }"

definition tda_span_set :: "'s world \<Rightarrow> tda_Span \<Rightarrow> nat \<Rightarrow> byte list \<Rightarrow> 's world option" where
  "tda_span_set w self idx val = do {
     (p, off) \<leftarrow> tda_span_get self idx;
     mem_write w p off (take (sp_elem_size self) val)
   }"

text \<open>The byte loop of \<open>tda_span_swap_elems\<close> is \<open>tda_bytes_swap\<close> over the two elements.\<close>

definition tda_span_swap_elems :: "'s world \<Rightarrow> tda_Span \<Rightarrow> nat \<Rightarrow> nat \<Rightarrow> 's world option" where
  "tda_span_swap_elems w self i j = do {
     TDA_SPAN_ASSERT self;
     c_assert (i < sp_len self);
     c_assert (j < sp_len self);
     if i = j then Some w
     else do {
       (pa, a) \<leftarrow> tda_span_get self i;
       (pb, b) \<leftarrow> tda_span_get self j;
       abs \<leftarrow> mem_read w pa a (sp_elem_size self);
       bbs \<leftarrow> mem_read w pb b (sp_elem_size self);
       let (abs', bbs') = tda_bytes_swap abs bbs (sp_elem_size self);
       w1 \<leftarrow> mem_write w pa a abs';
       mem_write w1 pb b bbs'
     }
   }"

subsection \<open>What a span shows\<close>

definition span_ok :: "'s world \<Rightarrow> tda_Span \<Rightarrow> bool" where
  "span_ok w s = (0 < sp_elem_size s \<and> sp_len s * sp_elem_size s \<le> SIZE_MAX \<and>
     (case sp_data s of None \<Rightarrow> sp_len s = 0
      | Some (p, off) \<Rightarrow> \<exists>bs. heap w p = Some bs \<and> off + sp_len s * sp_elem_size s \<le> length bs))"

definition span_bytes :: "'s world \<Rightarrow> tda_Span \<Rightarrow> byte list" where
  "span_bytes w s = (case sp_data s of None \<Rightarrow> []
      | Some (p, off) \<Rightarrow> slice off (sp_len s * sp_elem_size s) (the (heap w p)))"

definition span_elems :: "'s world \<Rightarrow> tda_Span \<Rightarrow> byte list list" where
  "span_elems w s = elems (sp_elem_size s) (span_bytes w s)"

text \<open>Two spans show different memory: different blocks, or runs of one block that do not meet.\<close>

definition span_apart :: "tda_Span \<Rightarrow> tda_Span \<Rightarrow> bool" where
  "span_apart s t = (case (sp_data s, sp_data t) of
      (Some (p, a), Some (q, b)) \<Rightarrow> p \<noteq> q \<or> a + sp_len s * sp_elem_size s \<le> b
        \<or> b + sp_len t * sp_elem_size t \<le> a
    | _ \<Rightarrow> True)"

lemma length_span_bytes: "span_ok w s \<Longrightarrow> length (span_bytes w s) = sp_len s * sp_elem_size s"
  by (auto simp: span_ok_def span_bytes_def length_slice split: option.splits)

lemma length_span_elems: "span_ok w s \<Longrightarrow> length (span_elems w s) = sp_len s"
  unfolding span_elems_def
  by (rule length_elems_mult [OF _ length_span_bytes]) (simp_all add: span_ok_def)

lemma span_assert_ok [c_simps]: "span_ok w s \<Longrightarrow> TDA_SPAN_ASSERT s = Some ()"
  by (auto simp: span_ok_def TDA_SPAN_ASSERT_def c_simps split: option.splits)

lemma span_elem_bytes:
  assumes "span_ok w s" "i < sp_len s" "sp_data s = Some (p, off)" "heap w p = Some bs"
  shows "size_mul i (sp_elem_size s) = i * sp_elem_size s"
    and "off + i * sp_elem_size s + sp_elem_size s \<le> length bs"
    and "span_elems w s ! i = slice (off + i * sp_elem_size s) (sp_elem_size s) bs"
proof -
  let ?es = "sp_elem_size s"
  have le: "i * ?es + ?es \<le> sp_len s * ?es"
    using assms(2) mult_le_mono1 [of "Suc i" "sp_len s" ?es] by simp
  show "size_mul i ?es = i * ?es"
    using le assms(1) by (simp add: span_ok_def c_simps)
  show b: "off + i * ?es + ?es \<le> length bs"
    using le assms by (auto simp: span_ok_def)
  have "elems ?es (span_bytes w s) ! i = slice (i * ?es) ?es (span_bytes w s)"
    using le assms(1) by (intro nth_elems) (auto simp: length_span_bytes span_ok_def)
  then show "span_elems w s ! i = slice (off + i * ?es) ?es bs"
    using le assms by (simp add: span_elems_def span_bytes_def slice_slice)
qed

lemma span_get_at:
  assumes "span_ok w s" "i < sp_len s" "sp_data s = Some (p, off)" "heap w p = Some bs"
  shows "tda_span_get s i = Some (p, off + i * sp_elem_size s)"
  using assms span_elem_bytes(1) [OF assms]
  by (simp add: tda_span_get_def span_assert_ok [OF assms(1)])

lemma span_get_ok:
  assumes "span_ok w s" "i < sp_len s"
  obtains p off bs where "sp_data s = Some (p, off)" "heap w p = Some bs"
    "tda_span_get s i = Some (p, off + i * sp_elem_size s)"
    "off + i * sp_elem_size s + sp_elem_size s \<le> length bs"
proof -
  from assms obtain p off bs where d: "sp_data s = Some (p, off)" "heap w p = Some bs"
    by (auto simp: span_ok_def split: option.splits)
  show ?thesis
    by (rule that [OF d span_get_at [OF assms d] span_elem_bytes(2) [OF assms d]])
qed

text \<open>Reading the bytes at the pointer \<open>tda_span_get\<close> returns gives the element.\<close>

lemma span_get_reads:
  assumes "span_ok w s" "i < sp_len s"
  shows "\<exists>p off. tda_span_get s i = Some (p, off)
    \<and> mem_read w p off (sp_elem_size s) = Some (span_elems w s ! i)"
proof -
  from span_get_ok [OF assms] obtain p off bs where
    d: "sp_data s = Some (p, off)" "heap w p = Some bs"
    "tda_span_get s i = Some (p, off + i * sp_elem_size s)"
    "off + i * sp_elem_size s + sp_elem_size s \<le> length bs" .
  then show ?thesis
    using span_elem_bytes(3) [OF assms d(1,2)] by (simp add: mem_read_ok)
qed

lemma span_write_elem:
  assumes ok: "span_ok w s" "i < sp_len s" and d: "sp_data s = Some (p, off)" "heap w p = Some bs"
    and val: "length val = sp_elem_size s"
    and w': "w' = w\<lparr>heap := (heap w)(p \<mapsto> blit (off + i * sp_elem_size s) val bs)\<rparr>"
  shows "span_ok w' s" and "span_elems w' s = (span_elems w s)[i := val]"
proof -
  let ?es = "sp_elem_size s"
  have fit: "off + i * ?es + ?es \<le> length bs" by (rule span_elem_bytes(2) [OF ok d])
  show ok': "span_ok w' s"
    using ok d val fit by (simp add: span_ok_def w' length_blit)
  have le: "i * ?es + ?es \<le> sp_len s * ?es"
    using ok(2) mult_le_mono1 [of "Suc i" "sp_len s" ?es] by simp
  have all: "off + sp_len s * ?es \<le> length bs"
    using ok d by (auto simp: span_ok_def)
  have "span_bytes w' s = blit (i * ?es) val (span_bytes w s)"
    using d val le all
    by (intro nth_equalityI) (auto simp: span_bytes_def w' slice_simps)
  then show "span_elems w' s = (span_elems w s)[i := val]"
    using ok le val elems_blit1 [of ?es val i "span_bytes w s"]
    by (simp add: span_elems_def length_span_bytes [OF ok(1)]) (simp add: span_ok_def)
qed

lemma span_set_refines:
  assumes "span_ok w s" "i < sp_len s" "length val = sp_elem_size s"
  shows "\<exists>w'. tda_span_set w s i val = Some w' \<and> span_ok w' s
    \<and> span_elems w' s = (span_elems w s)[i := val]"
proof -
  from span_get_ok [OF assms(1,2)] obtain p off bs where
    d: "sp_data s = Some (p, off)" "heap w p = Some bs"
    "tda_span_get s i = Some (p, off + i * sp_elem_size s)"
    "off + i * sp_elem_size s + sp_elem_size s \<le> length bs" .
  let ?w' = "w\<lparr>heap := (heap w)(p \<mapsto> blit (off + i * sp_elem_size s) val bs)\<rparr>"
  have "tda_span_set w s i val = Some ?w'"
    using d assms(3) by (simp add: tda_span_set_def mem_write_ok)
  with span_write_elem [OF assms(1,2) d(1,2) assms(3), of ?w'] show ?thesis by simp
qed

section \<open>The element view\<close>

text \<open>Checked element access: the assertion of \<open>tda_span_get\<close> is the only way it fails.\<close>

definition span_get :: "'a list \<Rightarrow> nat \<Rightarrow> 'a option" where
  "span_get xs i = (if i < length xs then Some (xs ! i) else None)"

definition span_set :: "'a list \<Rightarrow> nat \<Rightarrow> 'a \<Rightarrow> 'a list option" where
  "span_set xs i x = (if i < length xs then Some (xs[i := x]) else None)"

definition swap_list :: "nat \<Rightarrow> nat \<Rightarrow> 'a list \<Rightarrow> 'a list" where
  "swap_list i j xs = xs[i := xs ! j, j := xs ! i]"

definition span_swap :: "'a list \<Rightarrow> nat \<Rightarrow> nat \<Rightarrow> 'a list option" where
  "span_swap xs i j = (if i < length xs \<and> j < length xs then Some (swap_list i j xs) else None)"

definition span_sub :: "'a list \<Rightarrow> nat \<Rightarrow> nat \<Rightarrow> 'a list option" where
  "span_sub xs i n = (if i \<le> length xs \<and> n \<le> length xs - i then Some (slice i n xs) else None)"

text \<open>Running an operation on a sub-span in place: the rest of the span is untouched.\<close>

definition on_sub :: "nat \<Rightarrow> nat \<Rightarrow> ('a list \<Rightarrow> 'a list option) \<Rightarrow> 'a list \<Rightarrow> 'a list option" where
  "on_sub i n f xs = do { s \<leftarrow> span_sub xs i n; s' \<leftarrow> f s; Some (blit i s' xs) }"

lemma span_get_ok' [c_simps, simp]: "i < length xs \<Longrightarrow> span_get xs i = Some (xs ! i)"
  by (simp add: span_get_def)

lemma span_get_Some [simp]: "span_get xs i = Some x \<longleftrightarrow> i < length xs \<and> x = xs ! i"
  by (auto simp: span_get_def)

lemma span_set_ok [c_simps, simp]: "i < length xs \<Longrightarrow> span_set xs i x = Some (xs[i := x])"
  by (simp add: span_set_def)

lemma span_set_Some [simp]: "span_set xs i x = Some ys \<longleftrightarrow> i < length xs \<and> ys = xs[i := x]"
  by (auto simp: span_set_def)

lemma span_swap_ok [c_simps, simp]:
  "i < length xs \<Longrightarrow> j < length xs \<Longrightarrow> span_swap xs i j = Some (swap_list i j xs)"
  by (simp add: span_swap_def)

lemma span_swap_Some [simp]:
  "span_swap xs i j = Some ys \<longleftrightarrow> i < length xs \<and> j < length xs \<and> ys = swap_list i j xs"
  by (auto simp: span_swap_def)

lemma span_sub_ok [c_simps, simp]: "i + n \<le> length xs \<Longrightarrow> span_sub xs i n = Some (slice i n xs)"
  by (simp add: span_sub_def)

lemma length_swap_list [simp]: "length (swap_list i j xs) = length xs"
  by (simp add: swap_list_def)

lemma nth_swap_list:
  "i < length xs \<Longrightarrow> j < length xs \<Longrightarrow> k < length xs \<Longrightarrow>
    swap_list i j xs ! k = (if k = j then xs ! i else if k = i then xs ! j else xs ! k)"
  by (auto simp: swap_list_def nth_list_update)

lemma mset_swap_list [simp]:
  "i < length xs \<Longrightarrow> j < length xs \<Longrightarrow> mset (swap_list i j xs) = mset xs"
  by (simp add: swap_list_def mset_swap)

lemma swap_list_same [simp]: "swap_list i i xs = xs"
  by (simp add: swap_list_def)

lemma span_swap_refines:
  assumes ok: "span_ok w s" and ij: "i < sp_len s" "j < sp_len s"
  shows "\<exists>w'. tda_span_swap_elems w s i j = Some w' \<and> span_ok w' s
    \<and> span_elems w' s = swap_list i j (span_elems w s)"
proof (cases "i = j")
  case True
  then show ?thesis
    using ok ij by (simp add: tda_span_swap_elems_def span_assert_ok [OF ok])
next
  case False
  let ?es = "sp_elem_size s" and ?xs = "span_elems w s"
  from span_get_ok [OF ok ij(1)] obtain p off bs where
    d: "sp_data s = Some (p, off)" "heap w p = Some bs" "tda_span_get s i = Some (p, off + i * ?es)"
    "off + i * ?es + ?es \<le> length bs" .
  note dj = span_get_at [OF ok ij(2) d(1,2)] span_elem_bytes(2) [OF ok ij(2) d(1,2)]
  have ri: "mem_read w p (off + i * ?es) ?es = Some (?xs ! i)"
    and rj: "mem_read w p (off + j * ?es) ?es = Some (?xs ! j)"
    using d dj span_elem_bytes(3) [OF ok _ d(1,2)] ij by (simp_all add: mem_read_ok)
  have li: "length (?xs ! i) = ?es" and lj: "length (?xs ! j) = ?es"
    using d dj span_elem_bytes(3) [OF ok _ d(1,2)] ij by (simp_all add: length_slice)
  define x y where "x = ?xs ! i" and "y = ?xs ! j"
  define w1 where "w1 = w\<lparr>heap := (heap w)(p \<mapsto> blit (off + i * ?es) y bs)\<rparr>"
  define w2 where "w2 = w1\<lparr>heap := (heap w1)(p \<mapsto> blit (off + j * ?es) x (blit (off + i * ?es) y bs))\<rparr>"
  have lx: "length x = ?es" and ly: "length y = ?es" using li lj by (simp_all add: x_def y_def)
  note s1 = span_write_elem [OF ok ij(1) d(1,2) ly w1_def]
  have h1: "heap w1 p = Some (blit (off + i * ?es) y bs)" by (simp add: w1_def)
  note s2 = span_write_elem [OF s1(1) ij(2) d(1) h1 lx w2_def]
  have m1: "mem_write w p (off + i * ?es) y = Some w1"
    using d(2,4) ly by (simp add: mem_write_ok w1_def)
  have m2: "mem_write w1 p (off + j * ?es) x = Some w2"
    using h1 d(4) dj(2) lx ly by (simp add: mem_write_ok w2_def length_blit)
  have "tda_span_swap_elems w s i j = Some w2"
    using False ij d(3) dj(1) ri rj m1 m2 bytes_swap_exchanges [OF lx ly]
    by (simp add: tda_span_swap_elems_def span_assert_ok [OF ok] x_def [symmetric] y_def [symmetric])
  then show ?thesis
    using s1 s2 by (auto simp: swap_list_def x_def y_def)
qed

lemma span_sub_refines:
  assumes ok: "span_ok w s" and fit: "i + n \<le> sp_len s"
  shows "\<exists>t. tda_span_sub s i n = Some t \<and> span_ok w t
    \<and> span_elems w t = slice i n (span_elems w s)"
proof -
  let ?es = "sp_elem_size s"
  have es: "0 < ?es" using ok by (simp add: span_ok_def)
  have le: "(i + n) * ?es \<le> sp_len s * ?es" using fit by (intro mult_le_mono1)
  then have m: "size_mul i ?es = i * ?es"
    using ok by (simp add: span_ok_def c_simps add_mult_distrib)
  define t where "t = \<lparr>sp_data = (case sp_data s of Some (p, off) \<Rightarrow> Some (p, off + i * ?es) | None \<Rightarrow> None),
    sp_len = n, sp_elem_size = ?es\<rparr>"
  have "tda_span_sub s i n = Some t"
    using fit m by (auto simp: tda_span_sub_def span_assert_ok [OF ok] t_def split: option.splits)
  moreover have "span_ok w t"
    using ok le es fit by (auto simp: span_ok_def t_def add_mult_distrib split: option.splits)
  moreover have "span_bytes w t = slice (i * ?es) (n * ?es) (span_bytes w s)"
    using le by (auto simp: span_bytes_def t_def add_mult_distrib slice_slice split: option.splits)
       (simp add: slice_def)
  then have "span_elems w t = slice i n (span_elems w s)"
    using elems_slice [OF es, of i n "span_bytes w s"] le
    by (simp add: span_elems_def t_def length_span_bytes [OF ok])
  ultimately show ?thesis by blast
qed

end
