(* ===== verification/Tda_Cmp.thy ===== *)
theory Tda_Cmp
  imports Tda_Bytes
begin

text \<open>
  Comparators (\<open>src/core/cmp.c\<close>). A comparator answers with a signed number whose sign is
  the order; the algorithms of the library ask of it what \<open>include/tda/core/cmp.h\<close> states, a total
  preorder, which is the locale \<open>comparator\<close>. The built-in comparators are instances: the
  integers at every width, the floating-point numbers with NaN above all else (the operand is
  the bit pattern of the IEEE 754 format), and C strings with the null pointer below all else.
\<close>

type_synonym 'a cmp_fn = "'a \<Rightarrow> 'a \<Rightarrow> int"

definition c_bool :: "bool \<Rightarrow> int" where
  "c_bool b = (if b then 1 else 0)"

section \<open>The built-in comparators\<close>

text \<open>\<open>DEFINE_CMP_INT\<close> at an unsigned and at a signed type.\<close>

definition cmp_uint :: "('w::len) word cmp_fn" where
  "cmp_uint a b = c_bool (a > b) - c_bool (a < b)"

definition cmp_sint :: "('w::len) word cmp_fn" where
  "cmp_sint a b = c_bool (b <s a) - c_bool (a <s b)"

text \<open>
  \<open>DEFINE_CMP_FLOAT\<close>. A pattern with the exponent all ones and a mantissa is a NaN; the
  others are ordered by sign and magnitude, both zeros being equal.
\<close>

definition f64_isnan :: "64 word \<Rightarrow> bool" where
  "f64_isnan a = (2047 * 2 ^ 52 < unat (take_bit 63 a))"

definition f64_key :: "64 word \<Rightarrow> int" where
  "f64_key a = (if bit a 63 then - int (unat (take_bit 63 a)) else int (unat (take_bit 63 a)))"

definition f32_isnan :: "32 word \<Rightarrow> bool" where
  "f32_isnan a = (255 * 2 ^ 23 < unat (take_bit 31 a))"

definition f32_key :: "32 word \<Rightarrow> int" where
  "f32_key a = (if bit a 31 then - int (unat (take_bit 31 a)) else int (unat (take_bit 31 a)))"

definition cmp_float :: "('a \<Rightarrow> bool) \<Rightarrow> ('a \<Rightarrow> int) \<Rightarrow> 'a cmp_fn" where
  "cmp_float is_nan key a b = (
     let a_nan = is_nan a; b_nan = is_nan b in
     if a_nan \<or> b_nan then
       (if a_nan \<and> b_nan then 0 else if a_nan then 1 else - 1)
     else c_bool (key a > key b) - c_bool (key a < key b))"

definition cmp_f64 :: "64 word cmp_fn" where
  "cmp_f64 = cmp_float f64_isnan f64_key"

definition cmp_f32 :: "32 word cmp_fn" where
  "cmp_f32 = cmp_float f32_isnan f32_key"

text \<open>
  \<open>cmp_cstr\<close>: an operand is a pointer, null or not, and \<open>str p\<close> the bytes of the string at
  \<open>p\<close> before its terminator. Of \<open>strcmp\<close> only the sign is used.
\<close>

fun c_strcmp :: "byte list \<Rightarrow> byte list \<Rightarrow> int" where
  "c_strcmp [] [] = 0"
| "c_strcmp [] (b # bs) = - 1"
| "c_strcmp (a # as) [] = 1"
| "c_strcmp (a # as) (b # bs) = (if a = b then c_strcmp as bs else if a < b then - 1 else 1)"

definition cmp_cstr :: "(nat \<Rightarrow> byte list) \<Rightarrow> nat option cmp_fn" where
  "cmp_cstr str a b = (
     if a = b then 0
     else case (a, b) of
       (None, _) \<Rightarrow> - 1
     | (_, None) \<Rightarrow> 1
     | (Some p, Some q) \<Rightarrow> let c = c_strcmp (str p) (str q) in c_bool (c > 0) - c_bool (c < 0))"

text \<open>\<open>DEFINE_CMP_DESC\<close> and \<open>DEFINE_EQ\<close>.\<close>

definition cmp_desc :: "'a cmp_fn \<Rightarrow> 'a cmp_fn" where
  "cmp_desc cmp a b = cmp b a"

definition eq_of_cmp :: "'a cmp_fn \<Rightarrow> 'a \<Rightarrow> 'a \<Rightarrow> bool" where
  "eq_of_cmp cmp a b = (cmp a b = 0)"

section \<open>What an algorithm asks of a comparator\<close>

definition sorted_by :: "'a cmp_fn \<Rightarrow> 'a list \<Rightarrow> bool" where
  "sorted_by cmp xs = sorted_wrt (\<lambda>a b. cmp a b \<le> 0) xs"

locale comparator =
  fixes cmp :: "'a \<Rightarrow> 'a \<Rightarrow> int"
  assumes cmp_flip: "0 < cmp a b \<longleftrightarrow> cmp b a < 0"
    and cmp_trans: "cmp a b \<le> 0 \<Longrightarrow> cmp b c \<le> 0 \<Longrightarrow> cmp a c \<le> 0"
begin

lemma cmp_refl [simp]: "cmp a a = 0"
  using cmp_flip [of a a] by linarith

lemma cmp_eq_sym: "cmp a b = 0 \<longleftrightarrow> cmp b a = 0"
  using cmp_flip [of a b] cmp_flip [of b a] by linarith

lemma cmp_le_ge: "cmp a b \<le> 0 \<longleftrightarrow> 0 \<le> cmp b a"
  using cmp_flip [of a b] by linarith

lemma cmp_less_trans: "cmp a b < 0 \<Longrightarrow> cmp b c \<le> 0 \<Longrightarrow> cmp a c < 0"
  using cmp_flip [of c a] cmp_flip [of b a] cmp_trans [of b c a] cmp_le_ge by fastforce

lemma cmp_le_less_trans: "cmp a b \<le> 0 \<Longrightarrow> cmp b c < 0 \<Longrightarrow> cmp a c < 0"
  using cmp_flip [of c a] cmp_flip [of c b] cmp_trans [of c a b] cmp_le_ge by fastforce

lemma cmp_total: "cmp a b \<le> 0 \<or> cmp b a \<le> 0"
  using cmp_flip [of a b] by linarith

lemma cmp_le_refl [simp]: "cmp a a \<le> 0"
  by simp

end

text \<open>A comparator that reads a key of a linear order is one.\<close>

lemma comparator_key:
  fixes key :: "'a \<Rightarrow> 'k::linorder"
  assumes "\<And>a b. cmp a b < 0 \<longleftrightarrow> key a < key b" "\<And>a b. 0 < cmp a b \<longleftrightarrow> key b < key a"
  shows "comparator cmp"
proof
  fix a b c :: 'a
  show "0 < cmp a b \<longleftrightarrow> cmp b a < 0" using assms by simp
  have le: "cmp x y \<le> 0 \<longleftrightarrow> key x \<le> key y" for x y using assms(2) [of x y] by (metis not_less)
  show "cmp a b \<le> 0 \<Longrightarrow> cmp b c \<le> 0 \<Longrightarrow> cmp a c \<le> 0" unfolding le by (rule order_trans)
qed

lemma cmp_uint_sign: "cmp_uint a b < 0 \<longleftrightarrow> unat a < unat b" "0 < cmp_uint a b \<longleftrightarrow> unat b < unat a"
  by (auto simp: cmp_uint_def c_bool_def word_less_nat_alt)

lemma cmp_sint_sign: "cmp_sint a b < 0 \<longleftrightarrow> sint a < sint b" "0 < cmp_sint a b \<longleftrightarrow> sint b < sint a"
  by (auto simp: cmp_sint_def c_bool_def word_sless_alt)

interpretation uint: comparator "cmp_uint :: 'w::len word cmp_fn"
  by (rule comparator_key) (rule cmp_uint_sign)+

interpretation sint: comparator "cmp_sint :: 'w::len word cmp_fn"
  by (rule comparator_key) (rule cmp_sint_sign)+

lemma cmp_float_comparator: "comparator (cmp_float is_nan key)"
  by (unfold_locales; auto simp: cmp_float_def c_bool_def Let_def split: if_splits)

interpretation f64: comparator cmp_f64
  unfolding cmp_f64_def by (rule cmp_float_comparator)

interpretation f32: comparator cmp_f32
  unfolding cmp_f32_def by (rule cmp_float_comparator)

lemma strcmp_flip: "0 < c_strcmp a b \<longleftrightarrow> c_strcmp b a < 0"
  by (induction a b rule: c_strcmp.induct) auto

lemma strcmp_eq_0: "c_strcmp a b = 0 \<longleftrightarrow> a = b"
  by (induction a b rule: c_strcmp.induct) auto

lemma strcmp_refl [simp]: "c_strcmp a a = 0"
  by (simp add: strcmp_eq_0)

lemma strcmp_trans: "c_strcmp a b \<le> 0 \<Longrightarrow> c_strcmp b c \<le> 0 \<Longrightarrow> c_strcmp a c \<le> 0"
proof (induction a b arbitrary: c rule: c_strcmp.induct)
  case (4 a as b bs)
  then show ?case by (cases c) (auto split: if_splits)
next
  case (2 b bs)
  then show ?case by (cases c) auto
qed auto

lemma cmp_cstr_comparator: "comparator (cmp_cstr str)"
proof
  fix a b c
  show "0 < cmp_cstr str a b \<longleftrightarrow> cmp_cstr str b a < 0"
    using strcmp_flip by (auto simp: cmp_cstr_def c_bool_def Let_def split: option.splits)
  have le: "cmp_cstr str a b \<le> 0 \<longleftrightarrow> (case (a, b) of (None, _) \<Rightarrow> True | (Some p, None) \<Rightarrow> False
      | (Some p, Some q) \<Rightarrow> c_strcmp (str p) (str q) \<le> 0)" for a b
    using strcmp_eq_0 by (auto simp: cmp_cstr_def c_bool_def Let_def split: option.splits)
  show "cmp_cstr str a b \<le> 0 \<Longrightarrow> cmp_cstr str b c \<le> 0 \<Longrightarrow> cmp_cstr str a c \<le> 0"
    unfolding le using strcmp_trans by (auto split: option.splits)
qed

interpretation cstr: comparator "cmp_cstr str" for str
  by (rule cmp_cstr_comparator)

lemma comparator_desc:
  assumes "comparator cmp"
  shows "comparator (cmp_desc cmp)"
  unfolding comparator_def cmp_desc_def
  using comparator.cmp_flip [OF assms] comparator.cmp_trans [OF assms] by metis

end
