(* ===== verification/Tda_Search.thy ===== *)
theory Tda_Search
  imports Tda_Span Tda_Cmp
begin

text \<open>
  Searching, counting and extremes (\<open>src/algo/search.c\<close>) on the element view of a span.
  An operation with an \<open>out_idx\<close> parameter and a \<open>bool\<close> result answers \<open>Some i\<close> for
  \<open>true\<close> with \<open>*out_idx = i\<close> and \<open>None\<close> for \<open>false\<close>; the outer option is the assertions.
  A predicate or equality is a function of the elements (its \<open>ctx\<close> is what it closes over).
\<close>

section \<open>Find\<close>

definition tda_span_find :: "'a list \<Rightarrow> 'k \<Rightarrow> ('a \<Rightarrow> 'k \<Rightarrow> bool) \<Rightarrow> nat option option" where
  "tda_span_find s key eq = for_find [0..<length s] (\<lambda>i. do { x \<leftarrow> span_get s i; Some (eq x key) })"

definition tda_span_find_if :: "'a list \<Rightarrow> ('a \<Rightarrow> bool) \<Rightarrow> nat option option" where
  "tda_span_find_if s pred = for_find [0..<length s] (\<lambda>i. do { x \<leftarrow> span_get s i; Some (pred x) })"

definition matches_at :: "'a list \<Rightarrow> 'b list \<Rightarrow> nat \<Rightarrow> ('a \<Rightarrow> 'b \<Rightarrow> bool) \<Rightarrow> bool option" where
  "matches_at s sub at eq = do {
     c_assert (at + length sub \<le> length s);
     miss \<leftarrow> for_find [0..<length sub] (\<lambda>j. do {
       x \<leftarrow> span_get s (at + j);
       y \<leftarrow> span_get sub j;
       Some (\<not> eq x y)
     });
     Some (miss = None)
   }"

definition tda_span_find_sub :: "'a list \<Rightarrow> 'b list \<Rightarrow> ('a \<Rightarrow> 'b \<Rightarrow> bool) \<Rightarrow> nat option option" where
  "tda_span_find_sub s sub eq =
     (if length sub = 0 then Some (Some 0)
      else if length sub > length s then Some None
      else for_find [0..<length s - length sub + 1] (\<lambda>i. matches_at s sub i eq))"

definition tda_span_find_sub_last :: "'a list \<Rightarrow> 'b list \<Rightarrow> ('a \<Rightarrow> 'b \<Rightarrow> bool) \<Rightarrow> nat option option" where
  "tda_span_find_sub_last s sub eq =
     (if length sub = 0 then Some (Some (length s))
      else if length sub > length s then Some None
      else for_find (rev [0..<length s - length sub + 1]) (\<lambda>i. matches_at s sub i eq))"

text \<open>\<open>run\<close> is the loop's counter; the loop stops at the index where it reaches \<open>count\<close>.\<close>

function find_run_loop :: "'a list \<Rightarrow> 'k \<Rightarrow> nat \<Rightarrow> ('a \<Rightarrow> 'k \<Rightarrow> bool) \<Rightarrow> nat \<Rightarrow> nat \<Rightarrow> nat option option" where
  "find_run_loop s key cnt eq i run =
     (if i < length s then do {
        x \<leftarrow> span_get s i;
        let run' = (if eq x key then run + 1 else 0);
        if run' = cnt then Some (Some (i + 1 - cnt))
        else find_run_loop s key cnt eq (i + 1) run'
      } else Some None)"
  by pat_completeness auto
termination by (relation "measure (\<lambda>(s, key, cnt, eq, i, run). length s - i)") auto

definition tda_span_find_run :: "'a list \<Rightarrow> 'k \<Rightarrow> nat \<Rightarrow> ('a \<Rightarrow> 'k \<Rightarrow> bool) \<Rightarrow> nat option option" where
  "tda_span_find_run s key cnt eq = (if cnt = 0 then Some (Some 0) else find_run_loop s key cnt eq 0 0)"

definition tda_span_find_any_of :: "'a list \<Rightarrow> 'b list \<Rightarrow> ('a \<Rightarrow> 'b \<Rightarrow> bool) \<Rightarrow> nat option option" where
  "tda_span_find_any_of s cands eq = for_find [0..<length s] (\<lambda>i. do {
     elem \<leftarrow> span_get s i;
     hit \<leftarrow> for_find [0..<length cands] (\<lambda>j. do { y \<leftarrow> span_get cands j; Some (eq elem y) });
     Some (hit \<noteq> None)
   })"

definition tda_span_find_adjacent :: "'a list \<Rightarrow> ('a \<Rightarrow> 'a \<Rightarrow> bool) \<Rightarrow> nat option option" where
  "tda_span_find_adjacent s eq = do {
     r \<leftarrow> for_find [1..<length s] (\<lambda>i. do { x \<leftarrow> span_get s (i - 1); y \<leftarrow> span_get s i; Some (eq x y) });
     Some (map_option (\<lambda>i. i - 1) r)
   }"

definition tda_span_contains :: "'a list \<Rightarrow> 'k \<Rightarrow> ('a \<Rightarrow> 'k \<Rightarrow> bool) \<Rightarrow> bool option" where
  "tda_span_contains s key eq = do { r \<leftarrow> tda_span_find s key eq; Some (r \<noteq> None) }"

section \<open>Count\<close>

definition tda_span_count :: "'a list \<Rightarrow> 'k \<Rightarrow> ('a \<Rightarrow> 'k \<Rightarrow> bool) \<Rightarrow> nat option" where
  "tda_span_count s key eq = for_loop [0..<length s] (\<lambda>i cnt. do {
     x \<leftarrow> span_get s i; Some (if eq x key then cnt + 1 else cnt) }) 0"

definition tda_span_count_if :: "'a list \<Rightarrow> ('a \<Rightarrow> bool) \<Rightarrow> nat option" where
  "tda_span_count_if s pred = for_loop [0..<length s] (\<lambda>i cnt. do {
     x \<leftarrow> span_get s i; Some (if pred x then cnt + 1 else cnt) }) 0"

section \<open>Binary search\<close>

text \<open>The loop the three binary searches share, with the test that moves \<open>lo\<close>.\<close>

function bisect_loop :: "'a list \<Rightarrow> ('a \<Rightarrow> bool) \<Rightarrow> nat \<Rightarrow> nat \<Rightarrow> nat option" where
  "bisect_loop s test lo hi =
     (if lo < hi then do {
        let mid = lo + (hi - lo) div 2;
        midp \<leftarrow> span_get s mid;
        if test midp then bisect_loop s test (mid + 1) hi else bisect_loop s test lo mid
      } else Some lo)"
  by pat_completeness auto
termination by (relation "measure (\<lambda>(s, test, lo, hi). hi - lo)") auto

definition tda_span_lower_bound :: "'a list \<Rightarrow> 'k \<Rightarrow> ('a \<Rightarrow> 'k \<Rightarrow> int) \<Rightarrow> nat option" where
  "tda_span_lower_bound s key cmp = bisect_loop s (\<lambda>midp. cmp midp key < 0) 0 (length s)"

definition tda_span_upper_bound :: "'a list \<Rightarrow> 'k \<Rightarrow> ('a \<Rightarrow> 'k \<Rightarrow> int) \<Rightarrow> nat option" where
  "tda_span_upper_bound s key cmp = bisect_loop s (\<lambda>midp. cmp midp key \<le> 0) 0 (length s)"

definition tda_span_partition_point :: "'a list \<Rightarrow> ('a \<Rightarrow> bool) \<Rightarrow> nat option" where
  "tda_span_partition_point s pred = bisect_loop s pred 0 (length s)"

definition tda_span_binary_search :: "'a list \<Rightarrow> 'k \<Rightarrow> ('a \<Rightarrow> 'k \<Rightarrow> int) \<Rightarrow> nat option option" where
  "tda_span_binary_search s key cmp = do {
     pos \<leftarrow> tda_span_lower_bound s key cmp;
     if pos \<ge> length s then Some None
     else do {
       p \<leftarrow> span_get s pos;
       if cmp p key = 0 then Some (Some pos) else Some None
     }
   }"

definition tda_span_equal_range :: "'a list \<Rightarrow> 'k \<Rightarrow> ('a \<Rightarrow> 'k \<Rightarrow> int) \<Rightarrow> (nat \<times> nat) option" where
  "tda_span_equal_range s key cmp = do {
     lo \<leftarrow> tda_span_lower_bound s key cmp;
     tail \<leftarrow> span_sub s lo (length s - lo);
     n \<leftarrow> tda_span_upper_bound tail key cmp;
     Some (lo, lo + n)
   }"

section \<open>Predicates\<close>

definition tda_span_all_of :: "'a list \<Rightarrow> ('a \<Rightarrow> bool) \<Rightarrow> bool option" where
  "tda_span_all_of s pred = do {
     r \<leftarrow> for_find [0..<length s] (\<lambda>i. do { x \<leftarrow> span_get s i; Some (\<not> pred x) });
     Some (r = None)
   }"

definition tda_span_any_of :: "'a list \<Rightarrow> ('a \<Rightarrow> bool) \<Rightarrow> bool option" where
  "tda_span_any_of s pred = do { r \<leftarrow> tda_span_find_if s pred; Some (r \<noteq> None) }"

definition tda_span_none_of :: "'a list \<Rightarrow> ('a \<Rightarrow> bool) \<Rightarrow> bool option" where
  "tda_span_none_of s pred = do { b \<leftarrow> tda_span_any_of s pred; Some (\<not> b) }"

section \<open>Extremes\<close>

definition tda_span_min_elem :: "'a list \<Rightarrow> 'a cmp_fn \<Rightarrow> nat option" where
  "tda_span_min_elem s cmp = do {
     c_assert (length s > 0);
     best_p \<leftarrow> span_get s 0;
     (best, p) \<leftarrow> for_loop [1..<length s] (\<lambda>i (best, best_p). do {
       cur \<leftarrow> span_get s i;
       Some (if cmp cur best_p < 0 then (i, cur) else (best, best_p)) }) (0, best_p);
     Some best
   }"

definition tda_span_max_elem :: "'a list \<Rightarrow> 'a cmp_fn \<Rightarrow> nat option" where
  "tda_span_max_elem s cmp = do {
     c_assert (length s > 0);
     best_p \<leftarrow> span_get s 0;
     (best, p) \<leftarrow> for_loop [1..<length s] (\<lambda>i (best, best_p). do {
       cur \<leftarrow> span_get s i;
       Some (if cmp cur best_p > 0 then (i, cur) else (best, best_p)) }) (0, best_p);
     Some best
   }"

definition tda_span_minmax_elem :: "'a list \<Rightarrow> 'a cmp_fn \<Rightarrow> (nat \<times> nat) option" where
  "tda_span_minmax_elem s cmp = do {
     c_assert (length s > 0);
     p0 \<leftarrow> span_get s 0;
     (mi, mnp, ma, mxp) \<leftarrow> for_loop [1..<length s] (\<lambda>i (mi, mnp, ma, mxp). do {
       cur \<leftarrow> span_get s i;
       let (mi', mnp') = (if cmp cur mnp < 0 then (i, cur) else (mi, mnp));
       let (ma', mxp') = (if cmp cur mxp > 0 then (i, cur) else (ma, mxp));
       Some (mi', mnp', ma', mxp') }) (0, p0, 0, p0);
     Some (mi, ma)
   }"

section \<open>What the linear searches find\<close>

text \<open>\<open>first_at P n r\<close>: \<open>r\<close> is the least index below \<open>n\<close> with \<open>P\<close>, or nothing when there is none.\<close>

definition first_at :: "(nat \<Rightarrow> bool) \<Rightarrow> nat \<Rightarrow> nat option \<Rightarrow> bool" where
  "first_at P n r = (case r of None \<Rightarrow> \<forall>i<n. \<not> P i | Some i \<Rightarrow> i < n \<and> P i \<and> (\<forall>j<i. \<not> P j))"

lemma for_find_first:
  assumes "\<And>i. i < n \<Longrightarrow> f i = Some (P i)"
  shows "\<exists>r. for_find [0..<n] f = Some r \<and> first_at P n r"
proof -
  have "for_find [0..<n] f = Some (List.find P [0..<n])" using assms by (intro for_find_pure) simp
  then show ?thesis
    by (cases "List.find P [0..<n]") (auto simp: first_at_def find_None_upt find_Some_upt)
qed

lemma first_at_None:
  assumes "first_at (\<lambda>i. P (s ! i)) (length s) r"
  shows "r = None \<longleftrightarrow> (\<forall>x\<in>set s. \<not> P x)"
proof (cases r)
  case None
  then show ?thesis using assms by (auto simp: first_at_def in_set_conv_nth)
next
  case (Some i)
  then have "s ! i \<in> set s" "P (s ! i)" using assms by (simp_all add: first_at_def)
  then show ?thesis using Some by auto
qed

lemma find_first: "\<exists>r. tda_span_find s key eq = Some r \<and> first_at (\<lambda>i. eq (s ! i) key) (length s) r"
  unfolding tda_span_find_def by (rule for_find_first) simp

lemma find_if_first: "\<exists>r. tda_span_find_if s pred = Some r \<and> first_at (\<lambda>i. pred (s ! i)) (length s) r"
  unfolding tda_span_find_if_def by (rule for_find_first) simp

definition occurs_at :: "'a list \<Rightarrow> 'b list \<Rightarrow> ('a \<Rightarrow> 'b \<Rightarrow> bool) \<Rightarrow> nat \<Rightarrow> bool" where
  "occurs_at s sub eq i \<longleftrightarrow> i + length sub \<le> length s \<and> (\<forall>j<length sub. eq (s ! (i + j)) (sub ! j))"

lemma matches_at_occurs:
  assumes "i + length sub \<le> length s"
  shows "matches_at s sub i eq = Some (occurs_at s sub eq i)"
proof -
  let ?f = "\<lambda>j. do { x \<leftarrow> span_get s (i + j); y \<leftarrow> span_get sub j; Some (\<not> eq x y) }"
  have "\<exists>r. for_find [0..<length sub] ?f = Some r
    \<and> first_at (\<lambda>j. \<not> eq (s ! (i + j)) (sub ! j)) (length sub) r"
    by (rule for_find_first) (use assms in simp)
  then obtain r where r: "for_find [0..<length sub] ?f = Some r"
    "first_at (\<lambda>j. \<not> eq (s ! (i + j)) (sub ! j)) (length sub) r" by blast
  have "matches_at s sub i eq = Some (r = None)"
    using assms r(1) by (simp add: matches_at_def)
  moreover have "(r = None) = occurs_at s sub eq i"
    using assms r(2) by (cases r) (auto simp: occurs_at_def first_at_def)
  ultimately show ?thesis by simp
qed

lemma find_sub_first:
  "\<exists>r. tda_span_find_sub s sub eq = Some r \<and> first_at (occurs_at s sub eq) (length s + 1) r"
proof (cases "length sub = 0 \<or> length sub > length s")
  case True
  then show ?thesis
    by (auto simp: tda_span_find_sub_def first_at_def occurs_at_def)
next
  case False
  then obtain r where r: "for_find [0..<length s - length sub + 1] (\<lambda>i. matches_at s sub i eq) = Some r"
    "first_at (occurs_at s sub eq) (length s - length sub + 1) r"
    using for_find_first [of "length s - length sub + 1" "\<lambda>i. matches_at s sub i eq" "occurs_at s sub eq"]
    by (force simp: matches_at_occurs)
  have "\<not> occurs_at s sub eq i" if "length s - length sub + 1 \<le> i" for i
    using that False by (auto simp: occurs_at_def)
  then have "first_at (occurs_at s sub eq) (length s + 1) r"
    using r(2) False by (cases r) (auto simp: first_at_def, metis not_le)
  then show ?thesis using False r(1) by (auto simp: tda_span_find_sub_def)
qed

lemma find_sub_last_last:
  "\<exists>r. tda_span_find_sub_last s sub eq = Some r
    \<and> (case r of None \<Rightarrow> \<forall>i. \<not> occurs_at s sub eq i
       | Some i \<Rightarrow> occurs_at s sub eq i \<and> (\<forall>j. occurs_at s sub eq j \<longrightarrow> j \<le> i))"
proof (cases "length sub = 0 \<or> length sub > length s")
  case True
  then show ?thesis
    by (auto simp: tda_span_find_sub_last_def occurs_at_def)
next
  case False
  let ?n = "length s - length sub + 1" and ?P = "occurs_at s sub eq"
  have e: "for_find (rev [0..<?n]) (\<lambda>i. matches_at s sub i eq) = Some (List.find ?P (rev [0..<?n]))"
    using False by (intro for_find_pure) (auto simp: matches_at_occurs)
  have out: "\<not> ?P i" if "?n \<le> i" for i
    using that False by (auto simp: occurs_at_def)
  have "case List.find ?P (rev [0..<n]) of None \<Rightarrow> \<forall>i<n. \<not> ?P i | Some i \<Rightarrow> i < n \<and> ?P i \<and> (\<forall>j<n. ?P j \<longrightarrow> j \<le> i)" for n
    by (induction n) (auto simp: less_Suc_eq split: option.splits)
  from this [of ?n] show ?thesis
    using False e out
    by (cases "List.find ?P (rev [0..<?n])") (auto simp: tda_span_find_sub_last_def not_le intro: leI)
qed

lemma find_adjacent_first:
  "\<exists>r. tda_span_find_adjacent s eq = Some r \<and> first_at (\<lambda>i. eq (s ! i) (s ! (i + 1))) (length s - 1) r"
proof -
  let ?P = "\<lambda>i. eq (s ! (i - 1)) (s ! i)"
  have e: "tda_span_find_adjacent s eq = Some (map_option (\<lambda>i. i - 1) (List.find ?P [1..<length s]))"
    unfolding tda_span_find_adjacent_def by (subst for_find_pure [where P = ?P]) auto
  show ?thesis
  proof (cases "List.find ?P [1..<length s]")
    case None
    then have "\<not> ?P (Suc i)" if "i < length s - 1" for i
      using that unfolding find_None_upt by (metis One_nat_def Suc_leI Suc_less_eq less_diff_conv add.commute plus_1_eq_Suc zero_less_Suc)
    then show ?thesis using None e by (simp add: first_at_def)
  next
    case (Some i)
    then have i: "1 \<le> i" "i < length s" "?P i" "\<And>j. 1 \<le> j \<Longrightarrow> j < i \<Longrightarrow> \<not> ?P j"
      unfolding find_Some_upt by auto
    have "\<not> eq (s ! j) (s ! (j + 1))" if "j < i - 1" for j
      using i(4) [of "j + 1"] that by simp
    then show ?thesis using Some e i(1-3) by (simp add: first_at_def)
  qed
qed

lemma find_any_of_first:
  "\<exists>r. tda_span_find_any_of s cands eq = Some r \<and> first_at (\<lambda>i. \<exists>y\<in>set cands. eq (s ! i) y) (length s) r"
  unfolding tda_span_find_any_of_def
proof (rule for_find_first)
  fix i assume i: "i < length s"
  obtain r where r: "for_find [0..<length cands] (\<lambda>j. do { y \<leftarrow> span_get cands j; Some (eq (s ! i) y) }) = Some r"
    "first_at (\<lambda>j. eq (s ! i) (cands ! j)) (length cands) r"
    using for_find_first [of "length cands" "\<lambda>j. do { y \<leftarrow> span_get cands j; Some (eq (s ! i) y) }"
        "\<lambda>j. eq (s ! i) (cands ! j)"] by auto
  have "(r \<noteq> None) = (\<exists>y\<in>set cands. eq (s ! i) y)"
    using first_at_None [OF r(2)] by auto
  then show "do { elem \<leftarrow> span_get s i;
      hit \<leftarrow> for_find [0..<length cands] (\<lambda>j. do { y \<leftarrow> span_get cands j; Some (eq elem y) });
      Some (hit \<noteq> None) } = Some (\<exists>y\<in>set cands. eq (s ! i) y)"
    using i r(1) by simp
qed

text \<open>The run counter is the length of the run of hits that ends just before \<open>i\<close>.\<close>

definition run_at :: "'a list \<Rightarrow> 'k \<Rightarrow> nat \<Rightarrow> ('a \<Rightarrow> 'k \<Rightarrow> bool) \<Rightarrow> nat \<Rightarrow> bool" where
  "run_at s key cnt eq i \<longleftrightarrow> i + cnt \<le> length s \<and> (\<forall>j<cnt. eq (s ! (i + j)) key)"

definition run_ends :: "'a list \<Rightarrow> 'k \<Rightarrow> nat \<Rightarrow> ('a \<Rightarrow> 'k \<Rightarrow> bool) \<Rightarrow> nat \<Rightarrow> nat \<Rightarrow> bool" where
  "run_ends s key cnt eq i run \<longleftrightarrow> run \<le> i \<and> run < cnt \<and> (\<forall>j. i - run \<le> j \<longrightarrow> j < i \<longrightarrow> eq (s ! j) key)
     \<and> (run < i \<longrightarrow> \<not> eq (s ! (i - run - 1)) key)"

declare find_run_loop.simps [simp del]

lemma find_run_loop_spec:
  assumes "run_ends s key cnt eq i run" "i \<le> length s" "\<And>k. run_at s key cnt eq k \<Longrightarrow> i - run \<le> k"
  shows "\<exists>r. find_run_loop s key cnt eq i run = Some r \<and> first_at (run_at s key cnt eq) (length s + 1) r"
  using assms
proof (induction s key cnt eq i run rule: find_run_loop.induct)
  case (1 s key cnt eq i run)
  note r = "1.prems"(1) [unfolded run_ends_def]
  show ?case
  proof (cases "i < length s")
    case False
    have "\<not> run_at s key cnt eq k" for k
    proof
      assume "run_at s key cnt eq k"
      then have "i - run \<le> k" "k + cnt \<le> length s" using "1.prems"(3) by (auto simp: run_at_def)
      then show False using False r "1.prems"(2) by linarith
    qed
    then show ?thesis using False by (simp add: find_run_loop.simps first_at_def)
  next
    case True
    show ?thesis
    proof (cases "eq (s ! i) key")
      case False
      have no: "i + 1 \<le> k" if "run_at s key cnt eq k" for k
      proof (rule ccontr)
        assume "\<not> i + 1 \<le> k"
        then have "i - k < cnt" "k \<le> i" using "1.prems"(3) [OF that] r by linarith+
        then have "eq (s ! (k + (i - k))) key" using that unfolding run_at_def by blast
        then show False using \<open>k \<le> i\<close> False by simp
      qed
      have "run_ends s key cnt eq (i + 1) 0" using r False by (auto simp: run_ends_def)
      moreover have "cnt \<noteq> 0" using r by simp
      ultimately show ?thesis
        using "1.IH" [OF True, of "s ! i" 0] no True False by (simp add: find_run_loop.simps [of s key cnt eq i run])
    next
      case hit: True
      show ?thesis
      proof (cases "run + 1 = cnt")
        case full: True
        have "run_at s key cnt eq (i + 1 - cnt)"
          unfolding run_at_def
        proof (intro conjI allI impI)
          fix j assume j: "j < cnt"
          show "eq (s ! (i + 1 - cnt + j)) key"
          proof (cases "i + 1 - cnt + j = i")
            case True
            then show ?thesis using hit by simp
          next
            case False
            then have "i - run \<le> i + 1 - cnt + j" "i + 1 - cnt + j < i" using j full r by linarith+
            then show ?thesis using r by blast
          qed
        qed (use full r True in linarith)
        moreover have "\<not> run_at s key cnt eq k" if "k < i + 1 - cnt" for k
          using "1.prems"(3) [of k] that full by linarith
        ultimately show ?thesis
          using True hit full by (simp add: find_run_loop.simps [of s key cnt eq i run] first_at_def)
      next
        case False
        have eqd: "i + 1 - (run + 1) = i - run" by simp
        have "run_ends s key cnt eq (i + 1) (run + 1)"
          using r hit False unfolding run_ends_def eqd by (auto simp: less_Suc_eq)
        moreover have "\<And>k. run_at s key cnt eq k \<Longrightarrow> i + 1 - (run + 1) \<le> k"
          using "1.prems"(3) unfolding eqd .
        ultimately show ?thesis
          using "1.IH" [OF True, of "s ! i" "run + 1"] True hit False
          by (simp add: find_run_loop.simps [of s key cnt eq i run])
      qed
    qed
  qed
qed

lemma find_run_first:
  "\<exists>r. tda_span_find_run s key cnt eq = Some r \<and> first_at (run_at s key cnt eq) (length s + 1) r"
proof (cases "cnt = 0")
  case True
  then show ?thesis by (simp add: tda_span_find_run_def first_at_def run_at_def)
next
  case False
  then have "run_ends s key cnt eq 0 0" by (simp add: run_ends_def)
  from find_run_loop_spec [OF this] False show ?thesis by (simp add: tda_span_find_run_def)
qed

section \<open>What counting and the predicates compute\<close>

lemma count_loop:
  "for_loop [0..<n] (\<lambda>i cnt. do { x \<leftarrow> span_get s i; Some (if P x then cnt + 1 else cnt) }) c
    = Some (c + length (filter P (take n s)))" if "n \<le> length s"
  using that
proof (induction n)
  case (Suc n)
  then show ?case by (simp add: for_loop_append take_Suc_conv_app_nth)
qed simp

lemma count_filter: "tda_span_count s key eq = Some (length (filter (\<lambda>x. eq x key) s))"
  using count_loop [of "length s" s "\<lambda>x. eq x key" 0] by (simp add: tda_span_count_def)

lemma count_if_filter: "tda_span_count_if s pred = Some (length (filter pred s))"
  using count_loop [of "length s" s pred 0] by (simp add: tda_span_count_if_def)

lemma all_of_ball: "tda_span_all_of s pred = Some (\<forall>x\<in>set s. pred x)"
proof -
  obtain r where "for_find [0..<length s] (\<lambda>i. do { x \<leftarrow> span_get s i; Some (\<not> pred x) }) = Some r"
    "first_at (\<lambda>i. \<not> pred (s ! i)) (length s) r"
    using for_find_first [of "length s" "\<lambda>i. do { x \<leftarrow> span_get s i; Some (\<not> pred x) }" "\<lambda>i. \<not> pred (s ! i)"] by auto
  then show ?thesis
    using first_at_None [of "\<lambda>x. \<not> pred x" s r] by (auto simp: tda_span_all_of_def)
qed

lemma any_of_bex: "tda_span_any_of s pred = Some (\<exists>x\<in>set s. pred x)"
proof -
  obtain r where "tda_span_find_if s pred = Some r" "first_at (\<lambda>i. pred (s ! i)) (length s) r"
    using find_if_first [of s pred] by blast
  then show ?thesis
    using first_at_None [of pred s r] by (auto simp: tda_span_any_of_def)
qed

lemma none_of_ball: "tda_span_none_of s pred = Some (\<forall>x\<in>set s. \<not> pred x)"
  by (simp add: tda_span_none_of_def any_of_bex)

lemma contains_bex: "tda_span_contains s key eq = Some (\<exists>x\<in>set s. eq x key)"
proof -
  obtain r where "tda_span_find s key eq = Some r" "first_at (\<lambda>i. eq (s ! i) key) (length s) r"
    using find_first [of s key eq] by blast
  then show ?thesis
    using first_at_None [of "\<lambda>x. eq x key" s r] by (auto simp: tda_span_contains_def)
qed

section \<open>What the binary searches find\<close>

declare bisect_loop.simps [simp del]

text \<open>
  On a span partitioned by the test the loop finds the border; on any span it stays in range
  and never reads past the end.
\<close>

lemma bisect_loop_total:
  "hi \<le> length s \<Longrightarrow> lo \<le> hi \<Longrightarrow> \<exists>r. bisect_loop s test lo hi = Some r \<and> lo \<le> r \<and> r \<le> hi"
proof (induction s test lo hi rule: bisect_loop.induct)
  case (1 s test lo hi)
  let ?mid = "lo + (hi - lo) div 2"
  show ?case
  proof (cases "lo < hi")
    case True
    then have m: "?mid < hi" "?mid < length s" "lo \<le> ?mid" using "1.prems" by linarith+
    show ?thesis
    proof (cases "test (s ! ?mid)")
      case t: True
      obtain r where "bisect_loop s test (?mid + 1) hi = Some r" "?mid + 1 \<le> r" "r \<le> hi"
        using "1.IH"(1) [OF True refl span_get_ok' [OF m(2)] t] "1.prems"(1) m by auto
      then show ?thesis using True t m by (simp add: bisect_loop.simps [of s test lo hi])
    next
      case f: False
      obtain r where "bisect_loop s test lo ?mid = Some r" "lo \<le> r" "r \<le> ?mid"
        using "1.IH"(2) [OF True refl span_get_ok' [OF m(2)] f] m by auto
      then show ?thesis using True f m by (simp add: bisect_loop.simps [of s test lo hi])
    qed
  qed (use "1.prems" in \<open>subst bisect_loop.simps, simp\<close>)
qed

lemma bisect_loop_border:
  assumes "hi \<le> length s" "lo \<le> hi" "lo \<le> b" "b \<le> hi"
    "\<And>i. i < b \<Longrightarrow> test (s ! i)" "\<And>i. b \<le> i \<Longrightarrow> i < length s \<Longrightarrow> \<not> test (s ! i)"
  shows "bisect_loop s test lo hi = Some b"
  using assms
proof (induction s test lo hi rule: bisect_loop.induct)
  case (1 s test lo hi)
  let ?mid = "lo + (hi - lo) div 2"
  show ?case
  proof (cases "lo < hi")
    case True
    then have m: "?mid < hi" "?mid < length s" "lo \<le> ?mid" using "1.prems"(1,2) by linarith+
    show ?thesis
    proof (cases "test (s ! ?mid)")
      case t: True
      then have "?mid < b" using "1.prems"(6) [of ?mid] m(2) by (metis not_le)
      then have "bisect_loop s test (?mid + 1) hi = Some b"
        using "1.IH"(1) [OF True refl span_get_ok' [OF m(2)] t] "1.prems" m by auto
      then show ?thesis using True t m by (simp add: bisect_loop.simps [of s test lo hi])
    next
      case f: False
      then have "b \<le> ?mid" using "1.prems"(5) [of ?mid] by (metis not_le)
      then have "bisect_loop s test lo ?mid = Some b"
        using "1.IH"(2) [OF True refl span_get_ok' [OF m(2)] f] "1.prems" m by auto
      then show ?thesis using True f m by (simp add: bisect_loop.simps [of s test lo hi])
    qed
  qed (use "1.prems"(2-4) in \<open>subst bisect_loop.simps, simp\<close>)
qed

text \<open>Partitioned: no element that fails the test comes before one that passes it.\<close>

definition partitioned :: "('a \<Rightarrow> bool) \<Rightarrow> 'a list \<Rightarrow> bool" where
  "partitioned test s \<longleftrightarrow> sorted_wrt (\<lambda>a b. test b \<longrightarrow> test a) s"

lemma partitioned_border:
  assumes "partitioned test s"
  defines "b \<equiv> length (filter test s)"
  shows "(\<forall>i<b. test (s ! i)) \<and> (\<forall>i. b \<le> i \<longrightarrow> i < length s \<longrightarrow> \<not> test (s ! i))"
  using assms(1) unfolding b_def
proof (induction s)
  case (Cons x s)
  then have IH: "(\<forall>i<length (filter test s). test (s ! i)) \<and> (\<forall>i. length (filter test s) \<le> i \<longrightarrow> i < length s \<longrightarrow> \<not> test (s ! i))"
    and x: "\<forall>y\<in>set s. test y \<longrightarrow> test x"
    by (simp_all add: partitioned_def)
  show ?case
  proof (cases "test x")
    case True
    then show ?thesis using IH by (auto simp: nth_Cons split: nat.splits)
  next
    case False
    then have "filter test s = []" using x by (auto simp: filter_empty_conv)
    then show ?thesis using IH False by (auto simp: nth_Cons split: nat.splits)
  qed
qed simp

lemma bisect_partitioned:
  assumes "partitioned test s"
  shows "bisect_loop s test 0 (length s) = Some (length (filter test s))"
  using partitioned_border [OF assms] by (intro bisect_loop_border) auto

lemma partition_point_filter:
  "partitioned pred s \<Longrightarrow> tda_span_partition_point s pred = Some (length (filter pred s))"
  by (simp add: tda_span_partition_point_def bisect_partitioned)

section \<open>Binary search and extremes over a comparator\<close>

context comparator
begin

lemma sorted_partitioned:
  assumes "sorted_by cmp s"
  shows "partitioned (\<lambda>x. cmp x key < 0) s" "partitioned (\<lambda>x. cmp x key \<le> 0) s"
  using assms cmp_le_less_trans cmp_trans unfolding sorted_by_def partitioned_def
  by (auto elim!: sorted_wrt_mono_rel [rotated])

lemma lower_bound_count:
  "sorted_by cmp s \<Longrightarrow> tda_span_lower_bound s key cmp = Some (length (filter (\<lambda>x. cmp x key < 0) s))"
  by (simp add: tda_span_lower_bound_def bisect_partitioned sorted_partitioned)

lemma upper_bound_count:
  "sorted_by cmp s \<Longrightarrow> tda_span_upper_bound s key cmp = Some (length (filter (\<lambda>x. cmp x key \<le> 0) s))"
  by (simp add: tda_span_upper_bound_def bisect_partitioned sorted_partitioned)

text \<open>A sorted span is the smaller elements, the equal ones and the greater ones, in this order.\<close>

lemma sorted_three_parts:
  "sorted_by cmp s \<Longrightarrow> s = filter (\<lambda>x. cmp x key < 0) s @ filter (\<lambda>x. cmp x key = 0) s @ filter (\<lambda>x. 0 < cmp x key) s"
proof (induction s)
  case (Cons x s)
  then have IH: "s = filter (\<lambda>x. cmp x key < 0) s @ filter (\<lambda>x. cmp x key = 0) s @ filter (\<lambda>x. 0 < cmp x key) s"
    and x: "\<And>y. y \<in> set s \<Longrightarrow> cmp x y \<le> 0" by (simp_all add: sorted_by_def)
  consider "cmp x key < 0" | "cmp x key = 0" | "0 < cmp x key" by linarith
  then show ?case
  proof cases
    case 2
    then have "\<not> cmp y key < 0" if "y \<in> set s" for y
      using cmp_le_less_trans [OF x [OF that], of key] by linarith
    then have "filter (\<lambda>x. cmp x key < 0) s = []" by (simp add: filter_empty_conv)
    then show ?thesis using IH 2 by simp
  next
    case 3
    then have "\<not> cmp y key \<le> 0" if "y \<in> set s" for y
      using cmp_trans [OF x [OF that], of key] by linarith
    then have "filter (\<lambda>x. cmp x key < 0) s = []" "filter (\<lambda>x. cmp x key = 0) s = []"
      by (force simp: filter_empty_conv)+
    then show ?thesis using IH 3 by simp
  qed (use IH in simp)
qed simp

lemma equal_range_spec:
  assumes s: "sorted_by cmp s"
  shows "\<exists>lo hi. tda_span_equal_range s key cmp = Some (lo, hi) \<and> lo \<le> hi \<and> hi \<le> length s
    \<and> take lo s = filter (\<lambda>x. cmp x key < 0) s \<and> slice lo (hi - lo) s = filter (\<lambda>x. cmp x key = 0) s
    \<and> drop hi s = filter (\<lambda>x. 0 < cmp x key) s"
proof -
  define A B C where "A = filter (\<lambda>x. cmp x key < 0) s" and "B = filter (\<lambda>x. cmp x key = 0) s"
    and "C = filter (\<lambda>x. 0 < cmp x key) s"
  have e: "s = A @ B @ C" using sorted_three_parts [OF s, of key] by (simp add: A_def B_def C_def)
  have lo: "tda_span_lower_bound s key cmp = Some (length A)" using lower_bound_count [OF s] by (simp add: A_def)
  have tl: "span_sub s (length A) (length s - length A) = Some (B @ C)"
  proof -
    have "drop (length A) s = B @ C" "length s = length A + length (B @ C)" by (subst e, simp)+
    then show ?thesis by (simp add: slice_def)
  qed
  have "sorted_by cmp (B @ C)" using s e by (metis sorted_by_def sorted_wrt_append)
  then have "tda_span_upper_bound (B @ C) key cmp = Some (length (filter (\<lambda>x. cmp x key \<le> 0) (B @ C)))"
    by (rule upper_bound_count)
  moreover have "filter (\<lambda>x. cmp x key \<le> 0) B = B" "filter (\<lambda>x. cmp x key \<le> 0) C = []"
    by (auto simp: filter_id_conv filter_empty_conv B_def C_def simp del: filter_filter)
  ultimately have r: "tda_span_equal_range s key cmp = Some (length A, length A + length B)"
    using lo tl by (simp add: tda_span_equal_range_def)
  have "take (length A) s = A" "slice (length A) (length B) s = B" "drop (length A + length B) s = C"
    "length A + length B \<le> length s"
    by (subst e, simp add: slice_def)+
  then show ?thesis using r unfolding A_def B_def C_def by simp
qed

lemma binary_search_spec:
  assumes s: "sorted_by cmp s"
  shows "\<exists>r. tda_span_binary_search s key cmp = Some r \<and> first_at (\<lambda>i. cmp (s ! i) key = 0) (length s) r"
proof -
  define A B C where "A = filter (\<lambda>x. cmp x key < 0) s" and "B = filter (\<lambda>x. cmp x key = 0) s"
    and "C = filter (\<lambda>x. 0 < cmp x key) s"
  have e: "s = A @ B @ C" using sorted_three_parts [OF s, of key] by (simp add: A_def B_def C_def)
  have lo: "tda_span_lower_bound s key cmp = Some (length A)" using lower_bound_count [OF s] by (simp add: A_def)
  have A: "cmp (s ! i) key < 0" if "i < length A" for i
  proof -
    have "s ! i = A ! i" using that by (subst e) (simp add: nth_append)
    then show ?thesis using that nth_mem [OF that] by (auto simp: A_def)
  qed
  show ?thesis
  proof (cases B)
    case Nil
    then have "\<not> cmp x key = 0" if "x \<in> set s" for x using that by (auto simp: B_def filter_empty_conv)
    then have "first_at (\<lambda>i. cmp (s ! i) key = 0) (length s) None" by (simp add: first_at_def)
    moreover have "tda_span_binary_search s key cmp = Some None"
      using lo \<open>\<And>x. x \<in> set s \<Longrightarrow> \<not> cmp x key = 0\<close> by (simp add: tda_span_binary_search_def)
    ultimately show ?thesis by blast
  next
    case (Cons b bs)
    then have l: "length A < length s" "s ! length A = b" by (subst e, simp)+
    have "b \<in> set B" using Cons by simp
    then have "cmp b key = 0" by (simp add: B_def)
    then have "tda_span_binary_search s key cmp = Some (Some (length A))"
      using lo l by (simp add: tda_span_binary_search_def)
    moreover have "first_at (\<lambda>i. cmp (s ! i) key = 0) (length s) (Some (length A))"
      using l \<open>cmp b key = 0\<close> A by (fastforce simp: first_at_def)
    ultimately show ?thesis by blast
  qed
qed

lemma min_elem_spec:
  assumes "s \<noteq> []"
  shows "\<exists>m. tda_span_min_elem s cmp = Some m \<and> m < length s
    \<and> (\<forall>i<length s. cmp (s ! m) (s ! i) \<le> 0) \<and> (\<forall>i<m. cmp (s ! m) (s ! i) < 0)"
proof -
  let ?Q = "\<lambda>i (m, p). m < i \<and> p = s ! m \<and> (\<forall>j<i. cmp (s ! m) (s ! j) \<le> 0) \<and> (\<forall>j<m. cmp (s ! m) (s ! j) < 0)"
  let ?f = "\<lambda>i (best, best_p). do { cur \<leftarrow> span_get s i;
    Some (if cmp cur best_p < 0 then (i, cur) else (best, best_p)) }"
  have "\<exists>r. for_loop [1..<length s] ?f (0, s ! 0) = Some r \<and> ?Q (length s) r"
  proof (rule for_loop_inv_from)
    show "1 \<le> length s" using assms by (cases s) auto
    show "?Q 1 (0, s ! 0)" by simp
    fix i st
    assume i: "1 \<le> i" "i < length s" and "?Q i st"
    then obtain m where m: "st = (m, s ! m)" "m < i" "\<And>j. j < i \<Longrightarrow> cmp (s ! m) (s ! j) \<le> 0"
      "\<And>j. j < m \<Longrightarrow> cmp (s ! m) (s ! j) < 0" by (cases st) auto
    show "\<exists>st'. ?f i st = Some st' \<and> ?Q (Suc i) st'"
    proof (cases "cmp (s ! i) (s ! m) < 0")
      case True
      have "cmp (s ! i) (s ! j) < 0" if "j < i" for j using cmp_less_trans [OF True m(3) [OF that]] .
      with i m(1) True show ?thesis by (auto simp: less_Suc_eq less_imp_le)
    next
      case False
      then have "cmp (s ! m) (s ! i) \<le> 0" using cmp_le_ge [of "s ! m" "s ! i"] by linarith
      then show ?thesis using i m False by (auto simp: less_Suc_eq)
    qed
  qed
  then show ?thesis using assms by (auto simp: tda_span_min_elem_def)
qed

lemma max_elem_spec:
  assumes "s \<noteq> []"
  shows "\<exists>m. tda_span_max_elem s cmp = Some m \<and> m < length s
    \<and> (\<forall>i<length s. cmp (s ! i) (s ! m) \<le> 0) \<and> (\<forall>i<m. cmp (s ! i) (s ! m) < 0)"
proof -
  let ?Q = "\<lambda>i (m, p). m < i \<and> p = s ! m \<and> (\<forall>j<i. cmp (s ! j) (s ! m) \<le> 0) \<and> (\<forall>j<m. cmp (s ! j) (s ! m) < 0)"
  let ?f = "\<lambda>i (best, best_p). do { cur \<leftarrow> span_get s i;
    Some (if cmp cur best_p > 0 then (i, cur) else (best, best_p)) }"
  have "\<exists>r. for_loop [1..<length s] ?f (0, s ! 0) = Some r \<and> ?Q (length s) r"
  proof (rule for_loop_inv_from)
    show "1 \<le> length s" using assms by (cases s) auto
    show "?Q 1 (0, s ! 0)" by simp
    fix i st
    assume i: "1 \<le> i" "i < length s" and "?Q i st"
    then obtain m where m: "st = (m, s ! m)" "m < i" "\<And>j. j < i \<Longrightarrow> cmp (s ! j) (s ! m) \<le> 0"
      "\<And>j. j < m \<Longrightarrow> cmp (s ! j) (s ! m) < 0" by (cases st) auto
    show "\<exists>st'. ?f i st = Some st' \<and> ?Q (Suc i) st'"
    proof (cases "cmp (s ! i) (s ! m) > 0")
      case True
      then have lt: "cmp (s ! m) (s ! i) < 0" using cmp_flip by blast
      have "cmp (s ! j) (s ! i) < 0" if "j < i" for j using cmp_le_less_trans [OF m(3) [OF that] lt] .
      with i m(1) True show ?thesis by (auto simp: less_Suc_eq less_imp_le)
    next
      case False
      then show ?thesis using i m by (auto simp: less_Suc_eq)
    qed
  qed
  then show ?thesis using assms by (auto simp: tda_span_max_elem_def)
qed

end

text \<open>One pass of \<open>minmax_elem\<close> is the two passes.\<close>

lemma minmax_elem_both:
  assumes "tda_span_min_elem s cmp = Some m" "tda_span_max_elem s cmp = Some k"
  shows "tda_span_minmax_elem s cmp = Some (m, k)"
proof -
  let ?f = "\<lambda>i (best, best_p). do { cur \<leftarrow> span_get s i; Some (if cmp cur best_p < 0 then (i, cur) else (best, best_p)) }"
  let ?g = "\<lambda>i (best, best_p). do { cur \<leftarrow> span_get s i; Some (if cmp cur best_p > 0 then (i, cur) else (best, best_p)) }"
  let ?h = "\<lambda>i (mi, mnp, ma, mxp). do {
       cur \<leftarrow> span_get s i;
       let (mi', mnp') = (if cmp cur mnp < 0 then (i, cur) else (mi, mnp));
       let (ma', mxp') = (if cmp cur mxp > 0 then (i, cur) else (ma, mxp));
       Some (mi', mnp', ma', mxp') }"
  have l: "0 < length s" using assms(1) by (auto simp: tda_span_min_elem_def)
  obtain p q where pq: "for_loop [1..<length s] ?f (0, s ! 0) = Some (m, p)"
    "for_loop [1..<length s] ?g (0, s ! 0) = Some (k, q)"
    using assms l by (auto simp: tda_span_min_elem_def tda_span_max_elem_def bind_eq_Some_conv)
  have h: "for_loop is ?h (a, b, c, d) = Some (a', b', c', d')"
    if "for_loop is ?f (a, b) = Some (a', b')" "for_loop is ?g (c, d) = Some (c', d')" for "is" a b c d a' b' c' d'
    using that
  proof (induction "is" arbitrary: a b c d)
    case (Cons i js)
    then show ?case
      by (cases "span_get s i") (auto split: if_splits simp: Let_def)
  qed simp
  show ?thesis
    using h [OF pq] l by (simp add: tda_span_minmax_elem_def)
qed

end
