(* ===== verification/Tda_Heap.thy ===== *)
theory Tda_Heap
  imports Tda_Span Tda_Cmp
begin

text \<open>
  Binary heaps in a span (\<open>src/algo/heap.c\<close>) on the element view. The root is the largest
  element; the children of \<open>i\<close> are \<open>2 i + 1\<close> and \<open>2 i + 2\<close>.
\<close>

section \<open>Operations\<close>

function sift_up :: "'a list \<Rightarrow> nat \<Rightarrow> 'a cmp_fn \<Rightarrow> 'a list option" where
  "sift_up s idx cmp =
     (if idx > 0 then do {
        let parent = (idx - 1) div 2;
        x \<leftarrow> span_get s parent;
        y \<leftarrow> span_get s idx;
        if cmp x y \<ge> 0 then Some s
        else do {
          s1 \<leftarrow> span_swap s parent idx;
          sift_up s1 parent cmp
        }
      } else Some s)"
  by pat_completeness auto
termination by (relation "measure (\<lambda>(s, idx, cmp). idx)") auto

text \<open>The child that may go up: the left one unless the right one is greater.\<close>

definition best_child :: "'a list \<Rightarrow> nat \<Rightarrow> nat \<Rightarrow> 'a cmp_fn \<Rightarrow> nat option" where
  "best_child s left len cmp =
     (if left + 1 < len then do {
        x \<leftarrow> span_get s left;
        y \<leftarrow> span_get s (left + 1);
        Some (if cmp x y < 0 then left + 1 else left)
      } else Some left)"

lemma best_child_ge: "best_child s left len cmp = Some b \<Longrightarrow> left \<le> b"
  by (auto simp: best_child_def bind_eq_Some_conv split: if_splits)

function sift_down_loop :: "'a list \<Rightarrow> nat \<Rightarrow> nat \<Rightarrow> 'a cmp_fn \<Rightarrow> 'a list option" where
  "sift_down_loop s idx len cmp =
     (let left = 2 * idx + 1 in
      if left \<ge> len then Some s
      else case best_child s left len cmp of
        None \<Rightarrow> None
      | Some best \<Rightarrow> do {
          x \<leftarrow> span_get s idx;
          y \<leftarrow> span_get s best;
          if cmp x y \<ge> 0 then Some s
          else do {
            s1 \<leftarrow> span_swap s idx best;
            sift_down_loop s1 best len cmp
          }
        })"
  by pat_completeness auto
termination
  by (relation "measure (\<lambda>(s, idx, len, cmp). len - idx)") (auto dest: best_child_ge)

definition sift_down :: "'a list \<Rightarrow> nat \<Rightarrow> nat \<Rightarrow> 'a cmp_fn \<Rightarrow> 'a list option" where
  "sift_down s idx len cmp = do {
     c_assert (len \<le> length s);
     sift_down_loop s idx len cmp
   }"

definition tda_span_make_heap :: "'a list \<Rightarrow> 'a cmp_fn \<Rightarrow> 'a list option" where
  "tda_span_make_heap s cmp = for_loop (rev [0..<length s div 2]) (\<lambda>i s. sift_down s i (length s) cmp) s"

definition tda_span_push_heap :: "'a list \<Rightarrow> 'a cmp_fn \<Rightarrow> 'a list option" where
  "tda_span_push_heap s cmp = do {
     c_assert (length s > 0);
     sift_up s (length s - 1) cmp
   }"

definition tda_span_pop_heap :: "'a list \<Rightarrow> 'a cmp_fn \<Rightarrow> 'a list option" where
  "tda_span_pop_heap s cmp = do {
     c_assert (length s > 0);
     if length s = 1 then Some s
     else do {
       s1 \<leftarrow> span_swap s 0 (length s - 1);
       sift_down s1 0 (length s - 1) cmp
     }
   }"

definition tda_span_sort_heap :: "'a list \<Rightarrow> 'a cmp_fn \<Rightarrow> 'a list option" where
  "tda_span_sort_heap s cmp =
     for_loop (rev [2..<length s + 1]) (\<lambda>len s. on_sub 0 len (\<lambda>t. tda_span_pop_heap t cmp) s) s"

definition tda_span_is_heap_until :: "'a list \<Rightarrow> 'a cmp_fn \<Rightarrow> nat option" where
  "tda_span_is_heap_until s cmp = do {
     r \<leftarrow> for_find [1..<length s] (\<lambda>child. do {
       let parent = (child - 1) div 2;
       x \<leftarrow> span_get s parent;
       y \<leftarrow> span_get s child;
       Some (cmp x y < 0) });
     Some (case r of Some child \<Rightarrow> child | None \<Rightarrow> length s)
   }"

definition tda_span_is_heap :: "'a list \<Rightarrow> 'a cmp_fn \<Rightarrow> bool option" where
  "tda_span_is_heap s cmp = do { n \<leftarrow> tda_span_is_heap_until s cmp; Some (n = length s) }"

declare sift_up.simps [simp del] sift_down_loop.simps [simp del]

section \<open>Any comparator: no access out of range, and the elements only move\<close>

lemma sift_up_perm:
  "idx < length s \<Longrightarrow> \<exists>t. sift_up s idx cmp = Some t \<and> mset t = mset s \<and> length t = length s"
proof (induction s idx cmp rule: sift_up.induct)
  case (1 s idx cmp)
  let ?p = "(idx - 1) div 2"
  show ?case
  proof (cases "idx = 0 \<or> cmp (s ! ?p) (s ! idx) \<ge> 0")
    case True
    then show ?thesis using "1.prems" by (auto simp: sift_up.simps [of s idx cmp])
  next
    case False
    then have p: "0 < idx" "?p < length s" using "1.prems" by auto
    have "\<exists>t. sift_up (swap_list ?p idx s) ?p cmp = Some t \<and> mset t = mset (swap_list ?p idx s)
        \<and> length t = length (swap_list ?p idx s)"
      by (rule "1.IH" [OF p(1) refl]) (use p "1.prems" False in simp_all)
    then show ?thesis using False p "1.prems" by (auto simp: sift_up.simps [of s idx cmp])
  qed
qed

lemma best_child_ok:
  assumes "left < len" "len \<le> length s"
  obtains b where "best_child s left len cmp = Some b" "b = left \<or> b = left + 1" "b < len"
proof (cases "left + 1 < len \<and> cmp (s ! left) (s ! (left + 1)) < 0")
  case True
  then show ?thesis using assms that [of "left + 1"] by (simp add: best_child_def)
next
  case False
  then show ?thesis using assms that [of left] by (auto simp: best_child_def)
qed

lemma sift_down_loop_perm:
  "len \<le> length s \<Longrightarrow> \<exists>t. sift_down_loop s idx len cmp = Some t \<and> mset t = mset s \<and> length t = length s
     \<and> drop len t = drop len s \<and> take idx t = take idx s"
proof (induction s idx len cmp rule: sift_down_loop.induct)
  case (1 s idx len cmp)
  let ?l = "2 * idx + 1"
  show ?case
  proof (cases "?l < len")
    case False
    then show ?thesis by (simp add: sift_down_loop.simps [of s idx len cmp])
  next
    case True
    then obtain b where b: "best_child s ?l len cmp = Some b" "b = ?l \<or> b = ?l + 1" "b < len"
      using best_child_ok "1.prems" by blast
    have ib: "idx < length s" "b < length s" using b True "1.prems" by auto
    show ?thesis
    proof (cases "cmp (s ! idx) (s ! b) \<ge> 0")
      case ge: True
      then show ?thesis using True b ib by (simp add: sift_down_loop.simps [of s idx len cmp])
    next
      case False
      have "\<exists>t. sift_down_loop (swap_list idx b s) b len cmp = Some t \<and> mset t = mset (swap_list idx b s)
          \<and> length t = length (swap_list idx b s) \<and> drop len t = drop len (swap_list idx b s)
          \<and> take b t = take b (swap_list idx b s)"
        by (rule "1.IH" [OF refl _ b(1)]) (use True False ib "1.prems" in simp_all)
      then obtain t where t: "sift_down_loop (swap_list idx b s) b len cmp = Some t" "mset t = mset (swap_list idx b s)"
          "length t = length (swap_list idx b s)" "drop len t = drop len (swap_list idx b s)"
          "take b t = take b (swap_list idx b s)" by blast
      have "drop len (swap_list idx b s) = drop len s"
        using b True by (simp add: swap_list_def drop_update_cancel)
      moreover have bi: "idx \<le> b" using b by auto
      then have "take idx t = take idx (take b t)" by (simp add: min_def)
      then have "take idx t = take idx s"
        using t(5) bi by (simp add: min_def swap_list_def take_update_cancel)
      ultimately show ?thesis
        using True b ib False t by (simp add: sift_down_loop.simps [of s idx len cmp])
    qed
  qed
qed

lemma sift_down_perm:
  "len \<le> length s \<Longrightarrow> \<exists>t. sift_down s idx len cmp = Some t \<and> mset t = mset s \<and> length t = length s
     \<and> drop len t = drop len s \<and> take idx t = take idx s"
  using sift_down_loop_perm by (simp add: sift_down_def)

lemma make_heap_perm: "\<exists>t. tda_span_make_heap s cmp = Some t \<and> mset t = mset s"
proof -
  let ?f = "\<lambda>i s. sift_down s i (length s) cmp"
  have "\<exists>t. for_loop (rev [0..<length s div 2]) ?f s = Some t \<and> mset t = mset s"
  proof (rule for_loop_rev_inv)
    fix i t assume "mset t = mset s"
    then show "\<exists>s'. ?f i t = Some s' \<and> mset s' = mset s" using sift_down_perm [of "length t" t i cmp] by auto
  qed simp
  then show ?thesis by (simp add: tda_span_make_heap_def)
qed

lemma pop_heap_perm:
  "s \<noteq> [] \<Longrightarrow> \<exists>t. tda_span_pop_heap s cmp = Some t \<and> mset t = mset s \<and> length t = length s"
  using sift_down_perm [of "length s - 1" "swap_list 0 (length s - 1) s" 0 cmp]
  by (auto simp: tda_span_pop_heap_def)

lemma on_sub_perm:
  assumes "i + n \<le> length s" "\<exists>t. f (slice i n s) = Some t \<and> mset t = mset (slice i n s)"
  shows "\<exists>u. on_sub i n f s = Some u \<and> mset u = mset s \<and> length u = length s"
proof -
  obtain t where t: "f (slice i n s) = Some t" "mset t = mset (slice i n s)" using assms(2) by blast
  have l: "length t = n" using t(2) assms(1) by (metis length_slice size_mset)
  have "s = take i s @ slice i n s @ drop (i + n) s"
    by (metis append_take_drop_id drop_drop slice_def add.commute)
  then have "mset s = mset (take i s) + mset (slice i n s) + mset (drop (i + n) s)"
    by (metis mset_append union_assoc)
  then have "mset (blit i t s) = mset s" using t(2) l by (simp add: blit_def)
  then show ?thesis using t l assms(1) by (simp add: on_sub_def length_blit)
qed

section \<open>With a comparator: heaps\<close>

definition par :: "nat \<Rightarrow> nat" where
  "par i = (i - 1) div 2"

text \<open>\<open>heap_from cmp k n s\<close>: among the first \<open>n\<close>, every child of a node from \<open>k\<close> on is at most its parent.\<close>

definition heap_from :: "'a cmp_fn \<Rightarrow> nat \<Rightarrow> nat \<Rightarrow> 'a list \<Rightarrow> bool" where
  "heap_from cmp k n s \<longleftrightarrow> (\<forall>i. 0 < i \<longrightarrow> i < n \<longrightarrow> k \<le> par i \<longrightarrow> cmp (s ! i) (s ! par i) \<le> 0)"

definition is_heap_list :: "'a cmp_fn \<Rightarrow> 'a list \<Rightarrow> bool" where
  "is_heap_list cmp s = heap_from cmp 0 (length s) s"

text \<open>A heap but for the element at \<open>idx\<close>, which may be too small for its place.\<close>

definition heap_hole :: "'a cmp_fn \<Rightarrow> nat \<Rightarrow> nat \<Rightarrow> nat \<Rightarrow> 'a list \<Rightarrow> bool" where
  "heap_hole cmp k n idx s \<longleftrightarrow>
     (\<forall>i. 0 < i \<longrightarrow> i < n \<longrightarrow> k \<le> par i \<longrightarrow> par i \<noteq> idx \<longrightarrow> cmp (s ! i) (s ! par i) \<le> 0) \<and>
     (0 < idx \<longrightarrow> k \<le> par idx \<longrightarrow> (\<forall>c. c < n \<longrightarrow> 0 < c \<longrightarrow> par c = idx \<longrightarrow> cmp (s ! c) (s ! par idx) \<le> 0))"

lemma par_less: "0 < i \<Longrightarrow> par i < i"
  by (simp add: par_def)

lemma par_child: "0 < c \<Longrightarrow> par c = i \<longleftrightarrow> c = 2 * i + 1 \<or> c = 2 * i + 2"
  unfolding par_def by presburger

context comparator
begin

lemma best_child_max:
  assumes "left < len" "len \<le> length s" "best_child s left len cmp = Some b"
  shows "cmp (s ! left) (s ! b) \<le> 0" "left + 1 < len \<Longrightarrow> cmp (s ! (left + 1)) (s ! b) \<le> 0"
  using assms cmp_le_ge [of "s ! (left + 1)" "s ! left"] by (auto simp: best_child_def split: if_splits)

lemma heap_hole_swap_down:
  assumes len: "len \<le> length s" and k: "k \<le> idx" and hole: "heap_hole cmp k len idx s"
    and b: "best_child s (2 * idx + 1) len cmp = Some b" "b = 2 * idx + 1 \<or> b = 2 * idx + 2" "b < len"
    and lt: "cmp (s ! idx) (s ! b) < 0"
  shows "heap_hole cmp k len b (swap_list idx b s)"
proof -
  let ?t = "swap_list idx b s"
  have ib: "idx < b" "idx < length s" "b < length s" "2 * idx + 1 < len" using b len by auto
  have nth: "?t ! j = (if j = b then s ! idx else if j = idx then s ! b else s ! j)" if "j < length s" for j
    using nth_swap_list [OF ib(2,3) that] .
  have edge: "cmp (s ! i) (s ! par i) \<le> 0" if "0 < i" "i < len" "k \<le> par i" "par i \<noteq> idx" for i
    using hole that unfolding heap_hole_def by blast
  have parb: "par b = idx" using b(2) par_child [of b idx] by auto
  note bm = best_child_max [OF ib(4) len b(1)]
  have A: "cmp (?t ! i) (?t ! par i) \<le> 0" if i: "0 < i" "i < len" "k \<le> par i" "par i \<noteq> b" for i
  proof -
    have il: "i < length s" "par i < i" using i(1,2) len par_less [OF i(1)] by auto
    then have pl: "par i < length s" by simp
    show ?thesis
    proof (cases "par i = idx")
      case True
      then have ci: "i = 2 * idx + 1 \<or> i = 2 * idx + 2" using par_child [OF i(1)] by simp
      then have "i \<noteq> idx" by auto
      moreover have "cmp (s ! i) (s ! b) \<le> 0" using ci bm i(2) by auto
      ultimately show ?thesis
        using lt nth [OF il(1)] nth [OF pl] True ib(1) by auto
    next
      case False
      show ?thesis
      proof (cases "i = idx")
        case True
        have "0 < b" using ib(1) by simp
        have "cmp (s ! b) (s ! par idx) \<le> 0"
          using hole i b(3) parb True \<open>0 < b\<close> unfolding heap_hole_def by auto
        then show ?thesis
          using nth [OF il(1)] nth [OF pl] True ib(1) il(2) by auto
      next
        case False
        moreover have "i \<noteq> b" using \<open>par i \<noteq> idx\<close> parb by auto
        ultimately show ?thesis
          using nth [OF il(1)] nth [OF pl] edge [OF i(1-3)] \<open>par i \<noteq> idx\<close> i(4) by auto
      qed
    qed
  qed
  have B: "cmp (?t ! c) (?t ! par b) \<le> 0" if c: "c < len" "0 < c" "par c = b" for c
  proof -
    have "b < c" using par_less [OF c(2)] c(3) by simp
    moreover have "cmp (s ! c) (s ! b) \<le> 0" using edge [OF c(2,1)] c(3) k ib(1) by auto
    ultimately show ?thesis using nth [of c] nth [of idx] c(1) len ib parb by auto
  qed
  show ?thesis unfolding heap_hole_def using A B by blast
qed

lemma heap_hole_done:
  assumes "heap_hole cmp k len idx s"
    "\<And>c. 0 < c \<Longrightarrow> c < len \<Longrightarrow> par c = idx \<Longrightarrow> cmp (s ! c) (s ! idx) \<le> 0"
  shows "heap_from cmp k len s"
  unfolding heap_from_def
proof (intro allI impI)
  fix i assume i: "0 < i" "i < len" "k \<le> par i"
  show "cmp (s ! i) (s ! par i) \<le> 0"
  proof (cases "par i = idx")
    case True
    then show ?thesis using assms(2) i by simp
  next
    case False
    then show ?thesis using assms(1) i by (simp add: heap_hole_def)
  qed
qed

lemma sift_down_loop_heap:
  "len \<le> length s \<Longrightarrow> k \<le> idx \<Longrightarrow> heap_hole cmp k len idx s \<Longrightarrow>
     \<exists>t. sift_down_loop s idx len cmp = Some t \<and> heap_from cmp k len t"
proof (induction "len - idx" arbitrary: s idx rule: less_induct)
  case less
  let ?l = "2 * idx + 1"
  show ?case
  proof (cases "?l < len")
    case False
    have "heap_from cmp k len s"
      by (rule heap_hole_done [OF less.prems(3)]) (use False par_child in auto)
    then show ?thesis using False by (simp add: sift_down_loop.simps [of s idx len cmp])
  next
    case True
    then obtain b where b: "best_child s ?l len cmp = Some b" "b = ?l \<or> b = ?l + 1" "b < len"
      using best_child_ok less.prems(1) by blast
    have ib: "idx < length s" "b < length s" "idx < len" "idx < b" using b True less.prems(1) by auto
    note bm = best_child_max [OF True less.prems(1) b(1)]
    show ?thesis
    proof (cases "cmp (s ! idx) (s ! b) \<ge> 0")
      case ge: True
      have "heap_from cmp k len s"
      proof (rule heap_hole_done [OF less.prems(3)])
        fix c assume c: "0 < c" "c < len" "par c = idx"
        then have "c = ?l \<or> c = ?l + 1" using par_child [OF c(1), of idx] by auto
        then have "cmp (s ! c) (s ! b) \<le> 0" using bm c(2) by auto
        moreover have "cmp (s ! b) (s ! idx) \<le> 0" using ge cmp_le_ge by blast
        ultimately show "cmp (s ! c) (s ! idx) \<le> 0" by (rule cmp_trans)
      qed
      then show ?thesis using True b ib ge by (simp add: sift_down_loop.simps [of s idx len cmp])
    next
      case False
      then have lt: "cmp (s ! idx) (s ! b) < 0" by simp
      have b2: "b = 2 * idx + 1 \<or> b = 2 * idx + 2" using b(2) by auto
      have "\<exists>t. sift_down_loop (swap_list idx b s) b len cmp = Some t \<and> heap_from cmp k len t"
        by (rule less.hyps)
          (use ib less.prems heap_hole_swap_down [OF less.prems b(1) b2 b(3) lt] in auto)
      then show ?thesis using True b ib False by (simp add: sift_down_loop.simps [of s idx len cmp])
    qed
  qed
qed

lemma make_heap_heap:
  "\<exists>t. tda_span_make_heap s cmp = Some t \<and> mset t = mset s \<and> is_heap_list cmp t"
proof -
  let ?f = "\<lambda>i s. sift_down s i (length s) cmp"
  let ?Q = "\<lambda>k t. mset t = mset s \<and> heap_from cmp k (length s) t"
  have "\<exists>t. for_loop (rev [0..<length s div 2]) ?f s = Some t \<and> ?Q 0 t"
  proof (rule for_loop_rev_inv)
    have "par i < length s div 2" if "0 < i" "i < length s" for i using that unfolding par_def by presburger
    then show "?Q (length s div 2) s" unfolding heap_from_def by (meson leD)
    fix i t assume i: "i < length s div 2" "?Q (Suc i) t"
    then have l: "length t = length s" by (metis size_mset)
    have "heap_hole cmp i (length t) i t"
      unfolding heap_hole_def
    proof (intro conjI allI impI)
      fix j assume "0 < j" "j < length t" "i \<le> par j" "par j \<noteq> i"
      then show "cmp (t ! j) (t ! par j) \<le> 0" using i(2) l by (simp add: heap_from_def)
    next
      fix c assume "0 < i" "i \<le> par i"
      then show "cmp (t ! c) (t ! par i) \<le> 0" using par_less [of i] by simp
    qed
    then obtain u where "sift_down_loop t i (length t) cmp = Some u" "heap_from cmp i (length t) u"
      using sift_down_loop_heap [of "length t" t i i] by auto
    moreover obtain u' where "sift_down t i (length t) cmp = Some u'" "mset u' = mset t"
      using sift_down_perm [of "length t" t i cmp] by auto
    ultimately show "\<exists>s'. ?f i t = Some s' \<and> ?Q i s'" using i(2) l by (auto simp: sift_down_def)
  qed
  then obtain t where t: "for_loop (rev [0..<length s div 2]) ?f s = Some t" "?Q 0 t" by blast
  then have "length t = length s" by (metis size_mset)
  then show ?thesis using t by (simp add: tda_span_make_heap_def is_heap_list_def)
qed

lemma heap_root_max:
  assumes "heap_from cmp 0 n s" "i < n"
  shows "cmp (s ! i) (s ! 0) \<le> 0"
  using assms(2)
proof (induction i rule: less_induct)
  case (less i)
  show ?case
  proof (cases "i = 0")
    case False
    then have "cmp (s ! i) (s ! par i) \<le> 0" "par i < i"
      using assms(1) less.prems par_less by (auto simp: heap_from_def)
    then show ?thesis using less.IH [of "par i"] less.prems cmp_trans by auto
  qed simp
qed

text \<open>The popped element is a greatest one and the rest is a heap.\<close>

lemma pop_heap_spec:
  assumes "s \<noteq> []" "is_heap_list cmp s"
  shows "\<exists>t. tda_span_pop_heap s cmp = Some t \<and> mset t = mset s \<and> length t = length s
    \<and> heap_from cmp 0 (length s - 1) t \<and> last t = s ! 0 \<and> (\<forall>x\<in>set t. cmp x (last t) \<le> 0)"
proof -
  let ?n = "length s - 1"
  have max: "cmp x (s ! 0) \<le> 0" if "x \<in> set s" for x
    using that heap_root_max [of "length s" s] assms(2) by (auto simp: is_heap_list_def in_set_conv_nth)
  show ?thesis
  proof (cases "length s = 1")
    case True
    then obtain x where "s = [x]" by (cases s) auto
    then show ?thesis by (simp add: tda_span_pop_heap_def heap_from_def)
  next
    case False
    then have n: "0 < ?n" "?n < length s" using assms(1) by (cases s; simp)+
    let ?t = "swap_list 0 ?n s"
    have nth: "?t ! i = s ! i" if "0 < i" "i < ?n" for i
      using that n assms(1) nth_swap_list [of 0 s ?n i] by simp
    have "heap_hole cmp 0 ?n 0 ?t"
      unfolding heap_hole_def
    proof (intro conjI allI impI)
      fix i assume i: "0 < i" "i < ?n" "0 \<le> par i" "par i \<noteq> 0"
      then show "cmp (?t ! i) (?t ! par i) \<le> 0"
        using nth [OF i(1,2)] nth [of "par i"] par_less [OF i(1)] assms(2)
        by (auto simp: is_heap_list_def heap_from_def)
    qed auto
    then obtain u where u: "sift_down_loop ?t 0 ?n cmp = Some u" "heap_from cmp 0 ?n u"
      using sift_down_loop_heap [of ?n ?t 0 0] n by auto
    have p: "mset u = mset ?t" "length u = length ?t" "drop ?n u = drop ?n ?t"
      using sift_down_loop_perm [of ?n ?t 0 cmp] u(1) n by auto
    have m: "mset u = mset s" using p(1) n assms(1) by simp
    have "u ! ?n = ?t ! ?n"
      using p(2,3) n by (metis add.right_neutral length_swap_list less_imp_le nth_drop)
    then have "last u = s ! 0"
      using p(2) n nth_swap_list [of 0 s ?n ?n] by (metis last_conv_nth length_0_conv length_swap_list less_nat_zero_code less_trans)
    then show ?thesis
      using u p m n max mset_eq_setD [OF m] False assms(1)
      by (auto simp: tda_span_pop_heap_def sift_down_def)
  qed
qed

lemma heap_from_cong:
  "heap_from cmp k n s \<Longrightarrow> (\<And>i. i < n \<Longrightarrow> t ! i = s ! i) \<Longrightarrow> heap_from cmp k n t"
  unfolding heap_from_def by (metis par_less less_trans)

text \<open>What the loop of \<open>sort_heap\<close> keeps: a heap in front, the sorted greatest elements behind.\<close>

definition half_sorted :: "nat \<Rightarrow> 'a list \<Rightarrow> bool" where
  "half_sorted l t \<longleftrightarrow> heap_from cmp 0 l t \<and> sorted_by cmp (drop l t)
     \<and> (\<forall>x\<in>set (take l t). \<forall>y\<in>set (drop l t). cmp x y \<le> 0)"

lemma sort_heap_step:
  assumes i: "2 \<le> i" "i \<le> length t" and h: "half_sorted i t"
  shows "\<exists>u. on_sub 0 i (\<lambda>t. tda_span_pop_heap t cmp) t = Some u \<and> mset u = mset t \<and> half_sorted (i - 1) u"
proof -
  let ?a = "take i t"
  have a: "length ?a = i" "?a \<noteq> []" using i by auto
  have "is_heap_list cmp ?a"
    unfolding is_heap_list_def a(1) using h by (auto simp: half_sorted_def intro: heap_from_cong)
  then obtain b where b: "tda_span_pop_heap ?a cmp = Some b" "mset b = mset ?a" "length b = i"
    "heap_from cmp 0 (i - 1) b" "\<forall>x\<in>set b. cmp x (last b) \<le> 0"
    using pop_heap_spec [OF a(2)] a(1) by auto
  let ?u = "b @ drop i t"
  have u: "on_sub 0 i (\<lambda>t. tda_span_pop_heap t cmp) t = Some ?u"
    using b(1,3) i by (simp add: on_sub_def slice_def blit_def)
  have m: "mset ?u = mset t" using b(2) by (metis append_take_drop_id mset_append)
  have bne: "b \<noteq> []" using b(3) i by auto
  have sb: "b = butlast b @ [last b]" using bne by simp
  have dr: "drop (i - 1) ?u = last b # drop i t" "take (i - 1) ?u = butlast b"
    using b(3) i by (subst sb, simp)+
  have le: "cmp x y \<le> 0" if "x \<in> set b" "y \<in> set (drop i t)" for x y
    using that h mset_eq_setD [OF b(2)] by (simp add: half_sorted_def)
  have "sorted_by cmp (last b # drop i t)"
    using h le bne by (simp add: half_sorted_def sorted_by_def)
  moreover have "\<forall>x\<in>set (butlast b). \<forall>y\<in>set (last b # drop i t). cmp x y \<le> 0"
    using b(5) le by (auto dest: in_set_butlastD)
  moreover have "heap_from cmp 0 (i - 1) ?u"
    by (rule heap_from_cong [OF b(4)]) (use b(3) in \<open>auto simp: nth_append\<close>)
  ultimately have "half_sorted (i - 1) ?u" unfolding half_sorted_def dr by blast
  then show ?thesis using u m by blast
qed

lemma sort_heap_spec:
  assumes "is_heap_list cmp s"
  shows "\<exists>t. tda_span_sort_heap s cmp = Some t \<and> mset t = mset s \<and> sorted_by cmp t"
proof (cases "s = []")
  case True
  then show ?thesis by (simp add: tda_span_sort_heap_def sorted_by_def)
next
  case False
  let ?n = "length s"
  let ?f = "\<lambda>len s. on_sub 0 len (\<lambda>t. tda_span_pop_heap t cmp) s"
  let ?Q = "\<lambda>k t. mset t = mset s \<and> half_sorted (k - 1) t"
  have n: "2 \<le> ?n + 1" using False by (cases s) auto
  have "\<exists>t. for_loop (rev [2..<?n + 1]) ?f s = Some t \<and> ?Q 2 t"
  proof (rule for_loop_rev_inv_to [OF n])
    show "?Q (?n + 1) s" using assms by (simp add: half_sorted_def is_heap_list_def sorted_by_def)
    fix i t assume i: "2 \<le> i" "i < ?n + 1" "?Q (Suc i) t"
    then have "length t = ?n" by (metis size_mset)
    then show "\<exists>u. ?f i t = Some u \<and> ?Q i u" using sort_heap_step [of i t] i by auto
  qed
  then obtain t where t: "for_loop (rev [2..<?n + 1]) ?f s = Some t" "mset t = mset s" "half_sorted 1 t" by auto
  have "t \<noteq> []" using t(2) False by auto
  then obtain x xs where "t = x # xs" by (cases t) auto
  then have "sorted_by cmp t" using t(3) by (simp add: half_sorted_def sorted_by_def)
  then show ?thesis using t by (simp add: tda_span_sort_heap_def)
qed

subsection \<open>Pushing\<close>

definition up_hole :: "nat \<Rightarrow> 'a list \<Rightarrow> bool" where
  "up_hole idx s \<longleftrightarrow>
     (\<forall>i. 0 < i \<longrightarrow> i < length s \<longrightarrow> i \<noteq> idx \<longrightarrow> cmp (s ! i) (s ! par i) \<le> 0) \<and>
     (0 < idx \<longrightarrow> (\<forall>c. 0 < c \<longrightarrow> c < length s \<longrightarrow> par c = idx \<longrightarrow> cmp (s ! c) (s ! par idx) \<le> 0))"

lemma up_hole_swap:
  assumes idx: "0 < idx" "idx < length s" and hole: "up_hole idx s" and lt: "cmp (s ! par idx) (s ! idx) < 0"
  shows "up_hole (par idx) (swap_list (par idx) idx s)"
proof -
  let ?p = "par idx" and ?t = "swap_list (par idx) idx s"
  have p: "?p < idx" "?p < length s" using par_less [OF idx(1)] idx(2) by auto
  have nth: "?t ! j = (if j = idx then s ! ?p else if j = ?p then s ! idx else s ! j)" if "j < length s" for j
    using nth_swap_list [OF p(2) idx(2) that] .
  have edge: "cmp (s ! i) (s ! par i) \<le> 0" if "0 < i" "i < length s" "i \<noteq> idx" for i
    using hole that by (simp add: up_hole_def)
  have A: "cmp (?t ! i) (?t ! par i) \<le> 0" if i: "0 < i" "i < length s" "i \<noteq> ?p" for i
  proof -
    have pi: "par i < i" "par i < length s" using par_less [OF i(1)] i(2) by auto
    consider "i = idx" | "i \<noteq> idx" "par i = ?p" | "i \<noteq> idx" "par i = idx" | "i \<noteq> idx" "par i \<noteq> ?p" "par i \<noteq> idx" by blast
    then show ?thesis
    proof cases
      case 1
      then show ?thesis using nth [OF i(2)] nth [OF p(2)] lt p(1) by auto
    next
      case 2
      then have "cmp (s ! i) (s ! ?p) \<le> 0" using edge [OF i(1,2)] by simp
      then have "cmp (s ! i) (s ! idx) < 0" using cmp_le_less_trans lt by blast
      then show ?thesis using nth [OF i(2)] nth [OF pi(2)] 2 i(3) p(1) by auto
    next
      case 3
      then have "cmp (s ! i) (s ! ?p) \<le> 0" using hole i(1,2) idx(1) by (simp add: up_hole_def)
      then show ?thesis using nth [OF i(2)] nth [OF pi(2)] 3 i(3) by auto
    next
      case 4
      then show ?thesis using nth [OF i(2)] nth [OF pi(2)] edge [OF i(1,2)] i(3) by auto
    qed
  qed
  have B: "cmp (?t ! c) (?t ! par ?p) \<le> 0" if c: "0 < ?p" "0 < c" "c < length s" "par c = ?p" for c
  proof -
    have pp: "par ?p < ?p" "par ?p < length s" using par_less [OF c(1)] p by auto
    have e: "cmp (s ! ?p) (s ! par ?p) \<le> 0" using edge [OF c(1) p(2)] p(1) by simp
    have cp: "c \<noteq> ?p" using par_less [OF c(2)] c(4) by auto
    show ?thesis
    proof (cases "c = idx")
      case True
      then show ?thesis using nth [OF c(3)] nth [OF pp(2)] e pp p(1) by auto
    next
      case False
      then have "cmp (s ! c) (s ! ?p) \<le> 0" using edge [OF c(2,3)] c(4) by simp
      then have "cmp (s ! c) (s ! par ?p) \<le> 0" using e cmp_trans by blast
      then show ?thesis using nth [OF c(3)] nth [OF pp(2)] cp False pp p(1) by auto
    qed
  qed
  show ?thesis unfolding up_hole_def using A B by simp
qed

lemma sift_up_heap:
  "idx < length s \<Longrightarrow> up_hole idx s \<Longrightarrow>
     \<exists>t. sift_up s idx cmp = Some t \<and> mset t = mset s \<and> is_heap_list cmp t"
proof (induction idx arbitrary: s rule: less_induct)
  case (less idx)
  have fold_par: "(idx - Suc 0) div 2 = par idx" by (simp add: par_def)
  show ?case
  proof (cases "idx = 0")
    case True
    then have "is_heap_list cmp s" using less.prems by (simp add: up_hole_def is_heap_list_def heap_from_def)
    then show ?thesis using True by (subst sift_up.simps) simp
  next
    case False
    then have i: "0 < idx" "par idx < idx" "par idx < length s" using par_less [of idx] less.prems(1) by auto
    show ?thesis
    proof (cases "cmp (s ! par idx) (s ! idx) \<ge> 0")
      case True
      then have "cmp (s ! idx) (s ! par idx) \<le> 0" using cmp_le_ge by blast
      then have "is_heap_list cmp s"
        using less.prems(2) unfolding up_hole_def is_heap_list_def heap_from_def by metis
      then show ?thesis using True i less.prems(1) by (simp add: sift_up.simps [of s idx cmp] fold_par Let_def)
    next
      case lt: False
      have "\<exists>t. sift_up (swap_list (par idx) idx s) (par idx) cmp = Some t
          \<and> mset t = mset (swap_list (par idx) idx s) \<and> is_heap_list cmp t"
        by (rule less.IH [OF i(2)]) (use i lt less.prems up_hole_swap in auto)
      then show ?thesis using lt i less.prems(1) by (simp add: sift_up.simps [of s idx cmp] fold_par Let_def)
    qed
  qed
qed

text \<open>Pushing the last element onto the heap before it.\<close>

lemma push_heap_spec:
  assumes "s \<noteq> []" "is_heap_list cmp (butlast s)"
  shows "\<exists>t. tda_span_push_heap s cmp = Some t \<and> mset t = mset s \<and> is_heap_list cmp t"
proof -
  let ?n = "length s - 1"
  have n: "?n < length s" using assms(1) by (cases s) auto
  have "up_hole ?n s"
    unfolding up_hole_def
  proof (intro conjI allI impI)
    fix i assume i: "0 < i" "i < length s" "i \<noteq> ?n"
    then have "i < ?n" "par i < ?n" using par_less [OF i(1)] by auto
    moreover have "cmp (butlast s ! i) (butlast s ! par i) \<le> 0"
      using assms(2) i(1) \<open>i < ?n\<close> by (simp add: is_heap_list_def heap_from_def)
    ultimately show "cmp (s ! i) (s ! par i) \<le> 0" by (simp add: nth_butlast)
  next
    fix c assume c: "0 < c" "c < length s" "par c = ?n"
    then show "cmp (s ! c) (s ! par ?n) \<le> 0" using par_less [OF c(1)] by auto
  qed
  then show ?thesis using sift_up_heap [OF n] assms(1) by (simp add: tda_span_push_heap_def)
qed

lemma is_heap_until_spec:
  "\<exists>n. tda_span_is_heap_until s cmp = Some n \<and> n \<le> length s \<and> heap_from cmp 0 n s
     \<and> (n < length s \<longrightarrow> \<not> heap_from cmp 0 (n + 1) s)"
proof -
  let ?P = "\<lambda>c. cmp (s ! par c) (s ! c) < 0"
  let ?f = "\<lambda>child. do { let parent = (child - 1) div 2; x \<leftarrow> span_get s parent; y \<leftarrow> span_get s child; Some (cmp x y < 0) }"
  have e: "for_find [1..<length s] ?f = Some (List.find ?P [1..<length s])"
    by (rule for_find_pure) (auto simp: par_def)
  have edge: "cmp (s ! c) (s ! par c) \<le> 0 \<longleftrightarrow> \<not> ?P c" for c using cmp_le_ge by force
  show ?thesis
  proof (cases "List.find ?P [1..<length s]")
    case None
    then have "heap_from cmp 0 (length s) s" by (auto simp: find_None_upt heap_from_def edge)
    then show ?thesis using e None by (simp add: tda_span_is_heap_until_def)
  next
    case (Some c)
    then have c: "1 \<le> c" "c < length s" "?P c" "\<forall>j. 1 \<le> j \<longrightarrow> j < c \<longrightarrow> \<not> ?P j"
      unfolding find_Some_upt by auto
    have "heap_from cmp 0 c s" using c(4) by (auto simp: heap_from_def edge)
    moreover have "\<not> heap_from cmp 0 (c + 1) s" using c edge by (auto simp: heap_from_def intro!: exI [of _ c])
    ultimately show ?thesis using e Some c(2) by (simp add: tda_span_is_heap_until_def)
  qed
qed

end

end
