(* ===== verification/Tda_Permute.thy ===== *)
theory Tda_Permute
  imports Tda_Search
begin

text \<open>
  Reordering (\<open>src/algo/permute.c\<close>) on the element view: reverse, rotate, swap of ranges,
  the two partitions and the permutation steps. \<open>tda_span_partition_stable\<close> asks an allocator
  for its buffer, so it runs over a world; the buffer's first contents are the parameter
  \<open>junk\<close>. The shuffles are in \<open>Tda_Rng\<close>.
\<close>

section \<open>Operations\<close>

function reverse_loop :: "'a list \<Rightarrow> nat \<Rightarrow> nat \<Rightarrow> 'a list option" where
  "reverse_loop s left right =
     (if left < right then do {
        s1 \<leftarrow> span_swap s left right;
        reverse_loop s1 (left + 1) (right - 1)
      } else Some s)"
  by pat_completeness auto
termination by (relation "measure (\<lambda>(s, left, right). right - left)") auto

definition tda_span_reverse :: "'a list \<Rightarrow> 'a list option" where
  "tda_span_reverse s = (if length s < 2 then Some s else reverse_loop s 0 (length s - 1))"

definition tda_span_rotate :: "'a list \<Rightarrow> nat \<Rightarrow> 'a list option" where
  "tda_span_rotate s mid = do {
     c_assert (mid \<le> length s);
     if mid = 0 \<or> mid = length s then Some s
     else do {
       s1 \<leftarrow> on_sub 0 mid tda_span_reverse s;
       s2 \<leftarrow> on_sub mid (length s - mid) tda_span_reverse s1;
       tda_span_reverse s2
     }
   }"

text \<open>Two spans at different places; \<open>same\<close> says whether their pointers are equal.\<close>

definition tda_span_swap_ranges :: "bool \<Rightarrow> 'a list \<Rightarrow> 'a list \<Rightarrow> ('a list \<times> 'a list) option" where
  "tda_span_swap_ranges same a b = do {
     c_assert (length a = length b);
     if length a = 0 \<or> same then Some (a, b)
     else for_loop [0..<length a] (\<lambda>i (a, b). do {
       x \<leftarrow> span_get a i;
       y \<leftarrow> span_get b i;
       a' \<leftarrow> span_set a i y;
       b' \<leftarrow> span_set b i x;
       Some (a', b') }) (a, b)
   }"

definition tda_span_partition :: "'a list \<Rightarrow> ('a \<Rightarrow> bool) \<Rightarrow> ('a list \<times> nat) option" where
  "tda_span_partition s pred = for_loop [0..<length s] (\<lambda>i (s, boundary). do {
     x \<leftarrow> span_get s i;
     if pred x then do {
       s1 \<leftarrow> (if i \<noteq> boundary then span_swap s i boundary else Some s);
       Some (s1, boundary + 1)
     } else Some (s, boundary) }) (s, 0)"

text \<open>The state of the stable partition's loop: the span, the buffer, \<open>kept\<close> and \<open>dropped\<close>.\<close>

definition stable_step ::
  "('a \<Rightarrow> bool) \<Rightarrow> nat \<Rightarrow> 'a list \<times> 'a list \<times> nat \<times> nat \<Rightarrow> ('a list \<times> 'a list \<times> nat \<times> nat) option" where
  "stable_step pred i st = (case st of (s, rejected, kept, dropped) \<Rightarrow> do {
     elem \<leftarrow> span_get s i;
     if pred elem then do {
       s1 \<leftarrow> (if kept \<noteq> i then span_set s kept elem else Some s);
       Some (s1, rejected, kept + 1, dropped)
     } else do {
       r1 \<leftarrow> span_set rejected dropped elem;
       Some (s, r1, kept, dropped + 1)
     } })"

definition tda_span_partition_stable ::
  "(nat \<Rightarrow> 'a) \<Rightarrow> 's world \<Rightarrow> nat \<Rightarrow> 'a list \<Rightarrow> ('a \<Rightarrow> bool) \<Rightarrow> 's al \<Rightarrow> (tda_Status \<times> 's world \<times> 'a list \<times> nat) option" where
  "tda_span_partition_stable junk w elem_size s pred al =
     (if length s = 0 then Some (TDA_STATUS_OK, w, s, 0)
      else do {
        let bytes = size_mul (length s) elem_size;
        (buf, w1) \<leftarrow> tda_alloc al w bytes;
        (case buf of
           None \<Rightarrow> Some (TDA_STATUS_ERR_NO_MEM, w1, s, 0)
         | Some p \<Rightarrow> do {
             (s1, rejected, kept, dropped) \<leftarrow>
               for_loop [0..<length s] (stable_step pred) (s, map junk [0..<length s], 0, 0);
             dst \<leftarrow> span_sub s1 kept dropped;
             src \<leftarrow> span_sub rejected 0 dropped;
             let s2 = blit kept src s1;
             w2 \<leftarrow> tda_dealloc al w1 (Some p) bytes;
             Some (TDA_STATUS_OK, w2, s2, kept)
           })
      })"

function skip_while :: "('a \<Rightarrow> bool) \<Rightarrow> 'a list \<Rightarrow> nat \<Rightarrow> nat option" where
  "skip_while p s i =
     (if i < length s then do { x \<leftarrow> span_get s i; if p x then skip_while p s (i + 1) else Some i }
      else Some i)"
  by pat_completeness auto
termination by (relation "measure (\<lambda>(p, s, i). length s - i)") auto

definition tda_span_is_partitioned :: "'a list \<Rightarrow> ('a \<Rightarrow> bool) \<Rightarrow> bool option" where
  "tda_span_is_partitioned s pred = do {
     i \<leftarrow> skip_while pred s 0;
     j \<leftarrow> skip_while (\<lambda>x. \<not> pred x) s i;
     Some (j = length s)
   }"

text \<open>\<open>asc ? c < 0 : c > 0\<close>.\<close>

definition climbs :: "bool \<Rightarrow> int \<Rightarrow> bool" where
  "climbs asc c = (if asc then c < 0 else c > 0)"

fun pivot_loop :: "'a list \<Rightarrow> 'a cmp_fn \<Rightarrow> bool \<Rightarrow> nat \<Rightarrow> nat option" where
  "pivot_loop s cmp asc 0 = Some 0"
| "pivot_loop s cmp asc (Suc p) = do {
     x \<leftarrow> span_get s p;
     y \<leftarrow> span_get s (Suc p);
     if climbs asc (cmp x y) then Some (Suc p) else pivot_loop s cmp asc p
   }"

text \<open>At \<open>mate = 0\<close> the decrement wraps and the next access fails its assertion.\<close>

fun mate_loop :: "'a list \<Rightarrow> 'a cmp_fn \<Rightarrow> bool \<Rightarrow> nat \<Rightarrow> nat \<Rightarrow> nat option" where
  "mate_loop s cmp asc pivot mate = do {
     x \<leftarrow> span_get s mate;
     y \<leftarrow> span_get s pivot;
     if climbs (\<not> asc) (cmp x y) then Some mate
     else case mate of 0 \<Rightarrow> None | Suc m \<Rightarrow> mate_loop s cmp asc pivot m
   }"

definition permute_step :: "'a list \<Rightarrow> 'a cmp_fn \<Rightarrow> bool \<Rightarrow> (bool \<times> 'a list) option" where
  "permute_step s cmp asc =
     (if length s < 2 then Some (False, s)
      else do {
        pivot \<leftarrow> pivot_loop s cmp asc (length s - 1);
        if pivot = 0 then do { s1 \<leftarrow> tda_span_reverse s; Some (False, s1) }
        else do {
          let pivot = pivot - 1;
          mate \<leftarrow> mate_loop s cmp asc pivot (length s - 1);
          s1 \<leftarrow> span_swap s pivot mate;
          s2 \<leftarrow> on_sub (pivot + 1) (length s - pivot - 1) tda_span_reverse s1;
          Some (True, s2)
        }
      })"

definition tda_span_next_permutation :: "'a list \<Rightarrow> 'a cmp_fn \<Rightarrow> (bool \<times> 'a list) option" where
  "tda_span_next_permutation s cmp = permute_step s cmp True"

definition tda_span_prev_permutation :: "'a list \<Rightarrow> 'a cmp_fn \<Rightarrow> (bool \<times> 'a list) option" where
  "tda_span_prev_permutation s cmp = permute_step s cmp False"

declare reverse_loop.simps [simp del] skip_while.simps [simp del] mate_loop.simps [simp del]

section \<open>Reverse and rotate\<close>

lemma reverse_loop_nth:
  "right < length s \<Longrightarrow> \<exists>t. reverse_loop s left right = Some t \<and> length t = length s
     \<and> (\<forall>k<length s. t ! k = (if left \<le> k \<and> k \<le> right then s ! (left + right - k) else s ! k))"
proof (induction s left right rule: reverse_loop.induct)
  case (1 s l r)
  show ?case
  proof (cases "l < r")
    case False
    then have "l + r - k = k" if "l \<le> k" "k \<le> r" for k using that by linarith
    then show ?thesis using False by (subst reverse_loop.simps) auto
  next
    case True
    let ?s = "swap_list l r s"
    have b: "l < length s" "r - 1 < length ?s" using True "1.prems" by auto
    obtain t where t: "reverse_loop ?s (l + 1) (r - 1) = Some t" "length t = length ?s"
      "\<And>k. k < length ?s \<Longrightarrow> t ! k = (if l + 1 \<le> k \<and> k \<le> r - 1 then ?s ! (l + 1 + (r - 1) - k) else ?s ! k)"
      using "1.IH" [OF True _ b(2)] b(1) "1.prems" by auto
    have "t ! k = (if l \<le> k \<and> k \<le> r then s ! (l + r - k) else s ! k)" if k: "k < length s" for k
    proof (cases "l + 1 \<le> k \<and> k \<le> r - 1")
      case mid: True
      then have "l + 1 + (r - 1) - k = l + r - k" "l < l + r - k" "l + r - k < r" "k \<le> r" using True by linarith+
      then show ?thesis using t(3) [of k] k mid True "1.prems" b(1) by (simp add: nth_swap_list)
    next
      case False
      then show ?thesis using t(3) [of k] k True "1.prems" b(1) by (auto simp: nth_swap_list)
    qed
    then show ?thesis using t True b(1) "1.prems" by (subst reverse_loop.simps) simp
  qed
qed

lemma reverse_spec [simp]: "tda_span_reverse s = Some (rev s)"
proof (cases "length s < 2")
  case True
  then have "rev s = s" by (cases s) (auto simp: neq_Nil_conv less_Suc_eq)
  then show ?thesis using True by (simp add: tda_span_reverse_def)
next
  case False
  then have "length s - 1 < length s" by linarith
  from reverse_loop_nth [OF this, of 0] obtain t where t: "reverse_loop s 0 (length s - 1) = Some t"
    "length t = length s" "\<And>k. k < length s \<Longrightarrow> t ! k = (if k \<le> length s - 1 then s ! (length s - 1 - k) else s ! k)"
    by auto
  have "t = rev s"
    by (rule nth_equalityI) (use t(2,3) in \<open>auto simp: rev_nth\<close>)
  then show ?thesis using False t(1) by (simp add: tda_span_reverse_def)
qed

lemma on_sub_reverse:
  "i + n \<le> length s \<Longrightarrow> on_sub i n tda_span_reverse s = Some (take i s @ rev (slice i n s) @ drop (i + n) s)"
  by (simp add: on_sub_def blit_def length_slice)

lemma rotate_spec: "mid \<le> length s \<Longrightarrow> tda_span_rotate s mid = Some (drop mid s @ take mid s)"
  by (auto simp: tda_span_rotate_def on_sub_reverse slice_def)

lemma rotate_aborts: "length s < mid \<Longrightarrow> tda_span_rotate s mid = None"
  by (simp add: tda_span_rotate_def)

lemma swap_ranges_spec:
  assumes "length a = length b"
  shows "tda_span_swap_ranges same a b = Some (if same then (a, b) else (b, a))"
proof (cases "length a = 0 \<or> same")
  case True
  then show ?thesis using assms by (auto simp: tda_span_swap_ranges_def)
next
  case False
  let ?f = "\<lambda>i (a, b). do { x \<leftarrow> span_get a i; y \<leftarrow> span_get b i; a' \<leftarrow> span_set a i y;
       b' \<leftarrow> span_set b i x; Some (a', b') }"
  let ?Q = "\<lambda>i (x, y). x = take i b @ drop i a \<and> y = take i a @ drop i b"
  have "\<exists>st. for_loop [0..<length a] ?f (a, b) = Some st \<and> ?Q (length a) st"
  proof (rule for_loop_inv)
    show "?Q 0 (a, b)" by simp
    fix i st assume i: "i < length a" and "?Q i st"
    then have st: "st = (take i b @ drop i a, take i a @ drop i b)" by (cases st) auto
    have upd: "(take i ys @ drop i xs)[i := ys ! i] = take (Suc i) ys @ drop (Suc i) xs"
      if "i < length xs" "i < length ys" for xs ys :: "'a list"
      using that by (simp add: list_update_append take_Suc_conv_app_nth Cons_nth_drop_Suc [symmetric])
    have "(take i b @ drop i a) ! i = a ! i" "(take i a @ drop i b) ! i = b ! i"
      using i assms by (simp_all add: nth_append)
    then show "\<exists>st'. ?f i st = Some st' \<and> ?Q (Suc i) st'"
      using i assms upd [of a b] upd [of b a] by (simp add: st)
  qed
  then show ?thesis using False assms by (auto simp: tda_span_swap_ranges_def)
qed

section \<open>Partitions\<close>

lemma partition_spec:
  "\<exists>t. tda_span_partition s pred = Some (t, length (filter pred s)) \<and> mset t = mset s
    \<and> take (length (filter pred s)) t = filter pred s
    \<and> (\<forall>x\<in>set (drop (length (filter pred s)) t). \<not> pred x)"
proof -
  let ?f = "\<lambda>i (s, boundary). do {
     x \<leftarrow> span_get s i;
     if pred x then do {
       s1 \<leftarrow> (if i \<noteq> boundary then span_swap s i boundary else Some s);
       Some (s1, boundary + 1)
     } else Some (s, boundary) }"
  let ?Q = "\<lambda>i (t, b). b = length (filter pred (take i s)) \<and> mset t = mset s \<and> take b t = filter pred (take i s)
      \<and> (\<forall>k. b \<le> k \<longrightarrow> k < i \<longrightarrow> \<not> pred (t ! k)) \<and> drop i t = drop i s"
  have "\<exists>st. for_loop [0..<length s] ?f (s, 0) = Some st \<and> ?Q (length s) st"
  proof (rule for_loop_inv)
    show "?Q 0 (s, 0)" by simp
    fix i st assume i: "i < length s" and Q: "?Q i st"
    obtain t b where st: "st = (t, b)" by (cases st)
    have b: "b = length (filter pred (take i s))" and m: "mset t = mset s" and tb: "take b t = filter pred (take i s)"
      and rej: "\<And>k. b \<le> k \<Longrightarrow> k < i \<Longrightarrow> \<not> pred (t ! k)" and dr: "drop i t = drop i s"
      using Q by (auto simp: st)
    have l: "length t = length s" using m by (metis size_mset)
    have bi: "b \<le> i" using b i length_filter_le [of pred "take i s"] by simp
    have ti: "t ! i = s ! i" using dr i l by (metis add.right_neutral less_imp_le nth_drop)
    have step: "filter pred (take (Suc i) s) = filter pred (take i s) @ (if pred (s ! i) then [s ! i] else [])"
      using i by (simp add: take_Suc_conv_app_nth)
    have dr': "drop (Suc i) t = drop (Suc i) s" using dr by (metis drop_Suc tl_drop)
    show "\<exists>st'. ?f i st = Some st' \<and> ?Q (Suc i) st'"
    proof (cases "pred (s ! i)")
      case False
      have f: "?f i st = Some (t, b)" using False i l ti by (simp add: st)
      have "\<not> pred (t ! k)" if "b \<le> k" "k < Suc i" for k
        using that rej [of k] False ti by (cases "k = i") auto
      then show ?thesis using f b m tb dr' step False by simp
    next
      case True
      define u where "u = swap_list i b t"
      have bl: "b < length t" "i < length t" using bi i l by auto
      have f: "?f i st = Some (u, b + 1)"
        using True ti bl by (auto simp: st u_def)
      have "mset u = mset s" using m bl by (simp add: u_def)
      moreover have "take (b + 1) u = filter pred (take (Suc i) s)"
      proof -
        have "take b u = take b t" using bi by (simp add: u_def swap_list_def take_update_cancel)
        moreover have "u ! b = s ! i" using bl ti by (simp add: u_def nth_swap_list)
        ultimately show ?thesis using tb step True bl by (simp add: take_Suc_conv_app_nth u_def)
      qed
      moreover have "\<not> pred (u ! k)" if "b + 1 \<le> k" "k < Suc i" for k
        using that rej [of k] rej [of b] bl bi by (cases "k = i") (auto simp: u_def nth_swap_list)
      moreover have "drop (Suc i) u = drop (Suc i) s"
        using dr' bi by (simp add: u_def swap_list_def drop_update_cancel)
      moreover have "b + 1 = length (filter pred (take (Suc i) s))" using b step True by simp
      ultimately show ?thesis using f by simp
    qed
  qed
  then obtain t b where r: "for_loop [0..<length s] ?f (s, 0) = Some (t, b)" "?Q (length s) (t, b)" by auto
  from r(2) have r2: "b = length (filter pred s) \<and> mset t = mset s \<and> take b t = filter pred s
    \<and> (\<forall>k. b \<le> k \<longrightarrow> k < length s \<longrightarrow> \<not> pred (t ! k))" by auto
  have q: "b = length (filter pred s)" "mset t = mset s" "take b t = filter pred s"
    "\<And>k. b \<le> k \<Longrightarrow> k < length s \<Longrightarrow> \<not> pred (t ! k)" using r2 by blast+
  have l: "length t = length s" using q(2) by (metis size_mset)
  have "\<not> pred x" if x: "x \<in> set (drop b t)" for x
  proof -
    obtain k where "k < length t - b" "x = t ! (b + k)" using x by (auto simp: in_set_conv_nth)
    then show ?thesis using q(4) [of "b + k"] l by simp
  qed
  then have "\<forall>x\<in>set (drop (length (filter pred s)) t). \<not> pred x" using q(1) by blast
  moreover have "tda_span_partition s pred = Some (t, length (filter pred s))"
    unfolding tda_span_partition_def r(1) using q(1) by simp
  ultimately show ?thesis using q(1-3) by metis
qed

lemma stable_step_keeps:
  assumes i: "i < length s" and l: "length u = length s" "length rej = length s"
    and k: "k = length (filter pred (take i s))" "take k u = filter pred (take i s)" "drop i u = drop i s"
    and d: "d = length (filter (\<lambda>x. \<not> pred x) (take i s))" "take d rej = filter (\<lambda>x. \<not> pred x) (take i s)"
  shows "\<exists>u' rej' k' d'. stable_step pred i (u, rej, k, d) = Some (u', rej', k', d')
    \<and> length u' = length s \<and> length rej' = length s
    \<and> k' = length (filter pred (take (Suc i) s)) \<and> take k' u' = filter pred (take (Suc i) s)
    \<and> drop (Suc i) u' = drop (Suc i) s \<and> d' = length (filter (\<lambda>x. \<not> pred x) (take (Suc i) s))
    \<and> take d' rej' = filter (\<lambda>x. \<not> pred x) (take (Suc i) s)"
proof -
  have ti: "u ! i = s ! i" using k(3) i l by (metis add.right_neutral less_imp_le nth_drop)
  have dr: "drop (Suc i) u = drop (Suc i) s" using k(3) by (metis drop_Suc tl_drop)
  have ki: "k \<le> i" using k(1) i length_filter_le [of pred "take i s"] by simp
  have di: "d \<le> i" using d(1) i length_filter_le [of "\<lambda>x. \<not> pred x" "take i s"] by simp
  have tk: "take (Suc i) s = take i s @ [s ! i]" using i by (simp add: take_Suc_conv_app_nth)
  show ?thesis
  proof (cases "pred (s ! i)")
    case True
    define u' where "u' = u[k := s ! i]"
    have "stable_step pred i (u, rej, k, d) = Some (u', rej, k + 1, d)"
      using True i l ti ki list_update_id [of u i] by (auto simp: stable_step_def u'_def)
    moreover have "take (k + 1) u' = take k u @ [s ! i]"
      using ki i l by (simp add: u'_def take_Suc_conv_app_nth take_update_cancel)
    moreover have "drop (Suc i) u' = drop (Suc i) s" using dr ki by (simp add: u'_def drop_update_cancel)
    ultimately show ?thesis using True l k(1,2) d tk by (simp add: u'_def)
  next
    case False
    define r' where "r' = rej[d := s ! i]"
    have "stable_step pred i (u, rej, k, d) = Some (u, r', k, d + 1)"
      using False i l ti di by (simp add: stable_step_def r'_def)
    moreover have "take (d + 1) r' = take d rej @ [s ! i]"
      using di i l by (simp add: r'_def take_Suc_conv_app_nth take_update_cancel)
    ultimately show ?thesis using False l k(1,2) dr d tk by (simp add: r'_def)
  qed
qed

lemma stable_loop:
  assumes "length rej = length s"
  shows "\<exists>u rej' k d. for_loop [0..<length s] (stable_step pred) (s, rej, 0, 0) = Some (u, rej', k, d)
    \<and> length u = length s \<and> length rej' = length s
    \<and> k = length (filter pred s) \<and> take k u = filter pred s
    \<and> d = length (filter (\<lambda>x. \<not> pred x) s) \<and> take d rej' = filter (\<lambda>x. \<not> pred x) s"
proof -
  let ?Q = "\<lambda>i st. \<exists>u rej' k d. st = (u, rej', k, d) \<and> length u = length s \<and> length rej' = length s
    \<and> k = length (filter pred (take i s)) \<and> take k u = filter pred (take i s) \<and> drop i u = drop i s
    \<and> d = length (filter (\<lambda>x. \<not> pred x) (take i s)) \<and> take d rej' = filter (\<lambda>x. \<not> pred x) (take i s)"
  have "\<exists>st. for_loop [0..<length s] (stable_step pred) (s, rej, 0, 0) = Some st \<and> ?Q (length s) st"
  proof (rule for_loop_inv [where Q = ?Q])
    show "?Q 0 (s, rej, 0, 0)" using assms by simp
    fix i st assume "i < length s" and "?Q i st"
    then show "\<exists>st'. stable_step pred i st = Some st' \<and> ?Q (Suc i) st'"
      using stable_step_keeps [of i s] by metis
  qed
  then show ?thesis by auto
qed

context allocator
begin

lemma partition_stable_spec:
  assumes w: "inv w" and fit: "length s * es \<le> SIZE_MAX"
  shows "\<exists>st w' t b. tda_span_partition_stable junk w es s pred al = Some (st, w', t, b) \<and> inv w' \<and> heap w' = heap w
    \<and> (if st = TDA_STATUS_OK then t = filter pred s @ filter (\<lambda>x. \<not> pred x) s \<and> b = length (filter pred s)
       else t = s)"
proof (cases "length s = 0")
  case True
  then show ?thesis using w by (simp add: tda_span_partition_stable_def)
next
  case False
  have sm: "size_mul (length s) es = length s * es" using fit by (rule size_mul_exact)
  show ?thesis
  proof (rule alloc_cases [OF w fit], goal_cases)
    case (1 w1)
    then show ?case using False sm by (simp add: tda_span_partition_stable_def)
  next
    case (2 p w1 bs)
    obtain u rej k d where l: "for_loop [0..<length s] (stable_step pred) (s, map junk [0..<length s], 0, 0) = Some (u, rej, k, d)"
      "length u = length s" "length rej = length s" "k = length (filter pred s)" "take k u = filter pred s"
      "d = length (filter (\<lambda>x. \<not> pred x) s)" "take d rej = filter (\<lambda>x. \<not> pred x) s"
      using stable_loop [of "map junk [0..<length s]" s pred] by auto
    have kd: "k + d = length s" using l(4,6) by (simp add: sum_length_filter_compl)
    have hp: "heap w1 p = Some bs" using 2(7) by simp
    obtain w2 where w2: "tda_dealloc al w1 (Some p) (length s * es) = Some w2" "inv w2" "heap w2 = (heap w1)(p := None)"
      using dealloc_some [OF 2(2,4) hp 2(6)] .
    have "heap w2 = heap w" using w2(3) 2(5,7) by auto
    moreover have "blit k (slice 0 d rej) u = filter pred s @ filter (\<lambda>x. \<not> pred x) s"
      using kd l by (simp add: blit_def slice_def)
    moreover have "tda_span_partition_stable junk w es s pred al
        = Some (TDA_STATUS_OK, w2, blit k (slice 0 d rej) u, k)"
      using False sm 2(1) l(1-3) kd w2(1) by (simp add: tda_span_partition_stable_def Let_def)
    ultimately show ?case using w2(2) l(4) by auto
  qed
qed

end

lemma skip_while_spec:
  "i \<le> length s \<Longrightarrow> skip_while p s i = Some (i + length (takeWhile p (drop i s)))"
proof (induction p s i rule: skip_while.induct)
  case (1 p s i)
  show ?case
  proof (cases "i < length s")
    case True
    then have "drop i s = s ! i # drop (i + 1) s" by (simp add: Cons_nth_drop_Suc)
    then show ?thesis using 1 True by (subst skip_while.simps) simp
  next
    case False
    then show ?thesis using 1 by (subst skip_while.simps) simp
  qed
qed

lemma is_partitioned_spec: "tda_span_is_partitioned s pred = Some (partitioned pred s)"
proof -
  define a where "a = takeWhile pred s"
  define b where "b = dropWhile pred s"
  have s: "s = a @ b" by (simp add: a_def b_def)
  have da: "drop (length a) s = b" "length a \<le> length s" by (simp_all add: s)
  have "tda_span_is_partitioned s pred = Some (length a + length (takeWhile (\<lambda>x. \<not> pred x) b) = length s)"
    using skip_while_spec [of 0 s pred] skip_while_spec [OF da(2), of "\<lambda>x. \<not> pred x"]
    by (simp add: tda_span_is_partitioned_def a_def [symmetric] da)
  also have "(length a + length (takeWhile (\<lambda>x. \<not> pred x) b) = length s) = (\<forall>x\<in>set b. \<not> pred x)"
  proof -
    have "length b = length (takeWhile (\<lambda>x. \<not> pred x) b) + length (dropWhile (\<lambda>x. \<not> pred x) b)"
      by (metis length_append takeWhile_dropWhile_id)
    moreover have "dropWhile (\<lambda>x. \<not> pred x) b = [] \<longleftrightarrow> (\<forall>x\<in>set b. \<not> pred x)" by simp
    ultimately show ?thesis by (auto simp: s)
  qed
  also have "(\<forall>x\<in>set b. \<not> pred x) = partitioned pred s"
  proof
    assume r: "\<forall>x\<in>set b. \<not> pred x"
    have "\<forall>x\<in>set a. pred x" by (auto simp: a_def dest: set_takeWhileD)
    then have "sorted_wrt (\<lambda>a b. pred b \<longrightarrow> pred a) a" by (auto simp: sorted_wrt_iff_nth_less)
    moreover have "sorted_wrt (\<lambda>a b. pred b \<longrightarrow> pred a) b" using r by (auto simp: sorted_wrt_iff_nth_less)
    ultimately show "partitioned pred s" using r by (simp add: partitioned_def s sorted_wrt_append)
  next
    assume "partitioned pred s"
    then have "sorted_wrt (\<lambda>a b. pred b \<longrightarrow> pred a) b" by (simp add: partitioned_def s sorted_wrt_append)
    moreover have "b \<noteq> [] \<Longrightarrow> \<not> pred (hd b)" unfolding b_def by (rule hd_dropWhile)
    ultimately show "\<forall>x\<in>set b. \<not> pred x" by (cases b) auto
  qed
  finally show ?thesis .
qed

section \<open>Permutation steps\<close>

lemma pivot_loop_spec:
  "p < length s \<Longrightarrow> \<exists>r. pivot_loop s cmp asc p = Some r \<and> r \<le> p
     \<and> (\<forall>i. r \<le> i \<longrightarrow> i < p \<longrightarrow> \<not> climbs asc (cmp (s ! i) (s ! (i + 1))))
     \<and> (0 < r \<longrightarrow> climbs asc (cmp (s ! (r - 1)) (s ! r)))"
proof (induction p)
  case (Suc p)
  show ?case
  proof (cases "climbs asc (cmp (s ! p) (s ! Suc p))")
    case True
    then show ?thesis using Suc.prems by simp
  next
    case False
    obtain r where r: "pivot_loop s cmp asc p = Some r" "r \<le> p"
      "\<And>i. r \<le> i \<Longrightarrow> i < p \<Longrightarrow> \<not> climbs asc (cmp (s ! i) (s ! (i + 1)))"
      "0 < r \<Longrightarrow> climbs asc (cmp (s ! (r - 1)) (s ! r))"
      using Suc by auto
    have "\<not> climbs asc (cmp (s ! i) (s ! (i + 1)))" if "r \<le> i" "i < Suc p" for i
      using that r(3) [of i] False by (cases "i = p") auto
    then show ?thesis using r False Suc.prems by simp
  qed
qed simp

lemma mate_loop_spec:
  assumes "m < length s" "pivot < length s" "k \<le> m" "climbs (\<not> asc) (cmp (s ! k) (s ! pivot))"
  shows "\<exists>r. mate_loop s cmp asc pivot m = Some r \<and> k \<le> r \<and> r \<le> m \<and> climbs (\<not> asc) (cmp (s ! r) (s ! pivot))
    \<and> (\<forall>i. r < i \<longrightarrow> i \<le> m \<longrightarrow> \<not> climbs (\<not> asc) (cmp (s ! i) (s ! pivot)))"
  using assms
proof (induction m)
  case 0
  then show ?case by (subst mate_loop.simps) simp
next
  case (Suc m)
  show ?case
  proof (cases "climbs (\<not> asc) (cmp (s ! Suc m) (s ! pivot))")
    case True
    then show ?thesis using Suc.prems by (subst mate_loop.simps) simp
  next
    case False
    then have "k \<le> m" using Suc.prems(3,4) by (cases "k = Suc m") auto
    then obtain r where r: "mate_loop s cmp asc pivot m = Some r" "k \<le> r" "r \<le> m"
      "climbs (\<not> asc) (cmp (s ! r) (s ! pivot))"
      "\<And>i. r < i \<Longrightarrow> i \<le> m \<Longrightarrow> \<not> climbs (\<not> asc) (cmp (s ! i) (s ! pivot))"
      using Suc by auto
    have "\<not> climbs (\<not> asc) (cmp (s ! i) (s ! pivot))" if "r < i" "i \<le> Suc m" for i
      using that r(5) [of i] False by (cases "i = Suc m") auto
    then show ?thesis using r False Suc.prems(1,2) by (subst mate_loop.simps) simp
  qed
qed

definition lex_less :: "'a cmp_fn \<Rightarrow> 'a list \<Rightarrow> 'a list \<Rightarrow> bool" where
  "lex_less cmp s t \<longleftrightarrow> length s = length t \<and>
     (\<exists>i<length s. (\<forall>j<i. s ! j = t ! j) \<and> cmp (s ! i) (t ! i) < 0)"

context comparator
begin

lemma climbs_flip: "climbs (\<not> asc) (cmp a b) \<longleftrightarrow> climbs asc (cmp b a)"
  using cmp_flip [of a b] cmp_flip [of b a] by (auto simp: climbs_def)

text \<open>
  The step forward: a permutation that is greater in the lexicographic order, or, when the
  span descends and no greater one exists, \<open>false\<close> and the span reversed, the least one.
\<close>

lemma next_permutation_spec:
  "\<exists>b t. tda_span_next_permutation s cmp = Some (b, t) \<and> mset t = mset s
    \<and> (b \<longrightarrow> lex_less cmp s t)
    \<and> (\<not> b \<longrightarrow> t = rev s \<and> (\<forall>i. i + 1 < length s \<longrightarrow> cmp (s ! (i + 1)) (s ! i) \<le> 0))"
proof (cases "length s < 2")
  case True
  then have "rev s = s" by (cases s) (auto simp: neq_Nil_conv less_Suc_eq)
  then show ?thesis
    using True by (intro exI [of _ False] exI [of _ s]) (simp add: tda_span_next_permutation_def permute_step_def)
next
  case False
  let ?n = "length s"
  have n: "?n - 1 < ?n" using False by linarith
  obtain r where r: "pivot_loop s cmp True (?n - 1) = Some r" "r \<le> ?n - 1"
    "\<And>i. r \<le> i \<Longrightarrow> i < ?n - 1 \<Longrightarrow> \<not> climbs True (cmp (s ! i) (s ! (i + 1)))"
    "0 < r \<Longrightarrow> climbs True (cmp (s ! (r - 1)) (s ! r))"
    using pivot_loop_spec [OF n, of cmp True] by auto
  show ?thesis
  proof (cases "r = 0")
    case True
    have "cmp (s ! (i + 1)) (s ! i) \<le> 0" if "i + 1 < ?n" for i
    proof -
      have "i < ?n - 1" using that by linarith
      then have "\<not> cmp (s ! i) (s ! (i + 1)) < 0" using r(3) [of i] True by (simp add: climbs_def)
      then show ?thesis using cmp_le_ge [of "s ! (i + 1)" "s ! i"] by linarith
    qed
    then show ?thesis
      using False r(1) True
      by (intro exI [of _ False] exI [of _ "rev s"]) (simp add: tda_span_next_permutation_def permute_step_def)
  next
    case pos: False
    let ?p = "r - 1"
    have p: "?p < ?n" "r < ?n" "?p < r" using pos r(2) n by linarith+
    have "climbs False (cmp (s ! r) (s ! ?p))"
      using r(4) pos climbs_flip [of True "s ! r" "s ! ?p"] by simp
    then obtain m where m: "mate_loop s cmp True ?p (?n - 1) = Some m" "r \<le> m" "m \<le> ?n - 1"
      "climbs False (cmp (s ! m) (s ! ?p))"
      using mate_loop_spec [OF n p(1) r(2), of True cmp] by auto
    let ?u = "swap_list ?p m s"
    let ?t = "take r ?u @ rev (slice r (?n - r) ?u)"
    have ml: "m < ?n" using m(3) n by linarith
    have os: "on_sub r (?n - r) tda_span_reverse ?u = Some ?t"
      using p by (simp add: on_sub_reverse)
    have "tda_span_next_permutation s cmp = Some (True, ?t)"
      using False r(1) pos m(1) p ml os
      by (simp add: tda_span_next_permutation_def permute_step_def Let_def)
    moreover have "mset ?t = mset s"
    proof -
      have "mset ?t = mset (take r ?u) + mset (drop r ?u)" by (simp add: slice_def)
      also have "\<dots> = mset ?u" by (metis append_take_drop_id mset_append)
      finally show ?thesis using p(1) ml by simp
    qed
    moreover have "lex_less cmp s ?t"
    proof -
      have "?t ! j = ?u ! j" if "j < r" for j using that p(2) by (simp add: nth_append)
      then have "?t ! j = s ! j" if "j < ?p" for j
        using that p ml m(2) by (simp add: nth_swap_list)
      moreover have "?t ! ?p = s ! m"
        using \<open>\<And>j. j < r \<Longrightarrow> ?t ! j = ?u ! j\<close> [of ?p] p ml m(2) by (auto simp: nth_swap_list)
      moreover have "cmp (s ! ?p) (s ! m) < 0" using m(4) cmp_flip by (simp add: climbs_def)
      moreover have "length ?t = ?n" using p(2) by (simp add: length_slice)
      ultimately show ?thesis using p(1) by (auto simp: lex_less_def intro!: exI [of _ ?p])
    qed
    ultimately show ?thesis by blast
  qed
qed

text \<open>The step back is the step forward over the reversed order.\<close>

lemma pivot_loop_desc: "pivot_loop s cmp False p = pivot_loop s (cmp_desc cmp) True p"
proof (induction p)
  case (Suc p)
  have "climbs False (cmp x y) = climbs True (cmp_desc cmp x y)" for x y
    using climbs_flip [of True x y] by (simp add: cmp_desc_def)
  then show ?case using Suc by (simp cong: if_cong)
qed simp

lemma mate_loop_desc: "mate_loop s cmp False p m = mate_loop s (cmp_desc cmp) True p m"
proof (induction m)
  case 0
  have "climbs True (cmp x y) = climbs False (cmp_desc cmp x y)" for x y
    using climbs_flip [of False x y] by (simp add: cmp_desc_def)
  then show ?case by (simp add: mate_loop.simps [of _ _ _ _ 0] cong: if_cong)
next
  case (Suc m)
  have "climbs True (cmp x y) = climbs False (cmp_desc cmp x y)" for x y
    using climbs_flip [of False x y] by (simp add: cmp_desc_def)
  then show ?case using Suc by (simp add: mate_loop.simps [of _ _ _ _ "Suc m"] cong: if_cong)
qed

lemma prev_permutation_desc:
  "tda_span_prev_permutation s cmp = tda_span_next_permutation s (cmp_desc cmp)"
  by (simp add: tda_span_prev_permutation_def tda_span_next_permutation_def permute_step_def
      pivot_loop_desc mate_loop_desc cong: if_cong)

end

end
