(* ===== verification/Tda_Merge.thy ===== *)
theory Tda_Merge
  imports Tda_Permute
begin

text \<open>
  Merging (\<open>src/algo/merge.c\<close>, with the two helpers of \<open>src/internal/emit.h\<close> and
  \<open>tda_span_copy\<close>'s family from \<open>src/algo/copy.c\<close>) on the element view. All three ways to merge two
  sorted runs, into another span, in place by rotations, and in place with the shorter run
  parked in a buffer, are proved to compute the one stable merge \<open>merge_by\<close>.
\<close>

section \<open>Operations\<close>

text \<open>A copy checks the lengths; that the bytes fit in \<open>dst\<close> is what \<open>memcpy\<close> needs.\<close>

definition tda_emit :: "'a list \<Rightarrow> nat \<Rightarrow> 'a \<Rightarrow> ('a list \<times> nat) option" where
  "tda_emit dst out elem = do { d \<leftarrow> span_set dst out elem; Some (d, out + 1) }"

definition tda_emit_rest :: "'a list \<Rightarrow> nat \<Rightarrow> 'a list \<Rightarrow> nat \<Rightarrow> ('a list \<times> nat) option" where
  "tda_emit_rest dst out src start =
     (if start \<ge> length src then Some (dst, out)
      else do {
        let n = length src - start;
        c_assert (out < length dst);
        c_assert (out + n \<le> length dst);
        Some (blit out (slice start n src) dst, out + n)
      })"

text \<open>\<open>dst\<close> and \<open>src\<close> are apart, or \<open>same\<close> says that they are one span.\<close>

definition tda_span_copy :: "bool \<Rightarrow> 'a list \<Rightarrow> 'a list \<Rightarrow> 'a list option" where
  "tda_span_copy same dst src = do {
     c_assert (length dst = length src);
     if length dst = 0 \<or> same then Some dst else Some src
   }"

definition tda_span_copy_if :: "'a list \<Rightarrow> 'a list \<Rightarrow> ('a \<Rightarrow> bool) \<Rightarrow> ('a list \<times> nat) option" where
  "tda_span_copy_if dst src pred = do {
     c_assert (length dst \<ge> length src);
     for_loop [0..<length src] (\<lambda>i (dst, wr). do {
       cur \<leftarrow> span_get src i;
       if pred cur then do { d \<leftarrow> span_set dst wr cur; Some (d, wr + 1) } else Some (dst, wr) }) (dst, 0)
   }"

text \<open>\<open>memmove\<close> inside one span: \<open>n\<close> elements from \<open>src\<close> on to \<open>dst\<close> on.\<close>

definition tda_span_copy_overlapping :: "'a list \<Rightarrow> nat \<Rightarrow> nat \<Rightarrow> nat \<Rightarrow> 'a list option" where
  "tda_span_copy_overlapping s dst src n = do {
     x \<leftarrow> span_sub s src n;
     y \<leftarrow> span_sub s dst n;
     if n = 0 \<or> dst = src then Some s else Some (blit dst x s)
   }"

function merge_loop ::
  "'a list \<Rightarrow> 'a list \<Rightarrow> 'a list \<Rightarrow> 'a cmp_fn \<Rightarrow> nat \<Rightarrow> nat \<Rightarrow> nat \<Rightarrow> ('a list \<times> nat \<times> nat \<times> nat) option" where
  "merge_loop dst a b cmp i j out =
     (if i < length a \<and> j < length b then do {
        l \<leftarrow> span_get a i;
        r \<leftarrow> span_get b j;
        if cmp l r \<le> 0 then do { (d, out') \<leftarrow> tda_emit dst out l; merge_loop d a b cmp (i + 1) j out' }
        else do { (d, out') \<leftarrow> tda_emit dst out r; merge_loop d a b cmp i (j + 1) out' }
      } else Some (dst, i, j, out))"
  by pat_completeness auto
termination
  by (relation "measure (\<lambda>(dst, a, b, cmp, i, j, out). (length a - i) + (length b - j))") auto

definition tda_span_merge :: "'a list \<Rightarrow> 'a list \<Rightarrow> 'a list \<Rightarrow> 'a cmp_fn \<Rightarrow> 'a list option" where
  "tda_span_merge dst a b cmp = do {
     c_assert (length dst = length a + length b);
     (d1, i, j, out) \<leftarrow> merge_loop dst a b cmp 0 0 0;
     (d2, out) \<leftarrow> tda_emit_rest d1 out a i;
     (d3, out) \<leftarrow> tda_emit_rest d2 out b j;
     c_assert (out = length dst);
     Some d3
   }"

text \<open>Where \<open>merge_in_place\<close> cuts the two runs.\<close>

definition merge_cuts :: "'a list \<Rightarrow> nat \<Rightarrow> 'a cmp_fn \<Rightarrow> (nat \<times> nat) option" where
  "merge_cuts s mid cmp = (
     let left_len = mid; right_len = length s - mid in
     if left_len > right_len then do {
       let left_cut = left_len div 2;
       t \<leftarrow> span_sub s mid right_len;
       key \<leftarrow> span_get s left_cut;
       k \<leftarrow> tda_span_lower_bound t key cmp;
       Some (left_cut, mid + k)
     } else do {
       let right_cut = mid + right_len div 2;
       t \<leftarrow> span_sub s 0 mid;
       key \<leftarrow> span_get s right_cut;
       k \<leftarrow> tda_span_upper_bound t key cmp;
       Some (k, right_cut)
     })"

lemma merge_cuts_left:
  assumes "mid < length s" "length s - mid < mid"
  shows "merge_cuts s mid cmp = map_option (\<lambda>k. (mid div 2, mid + k))
    (tda_span_lower_bound (slice mid (length s - mid) s) (s ! (mid div 2)) cmp)"
proof -
  have "mid div 2 < length s" using assms by linarith
  then show ?thesis
    using assms by (simp add: merge_cuts_def Let_def map_option_case bind_split_asm split: bind_splits option.splits)
qed

lemma merge_cuts_right:
  assumes "mid < length s" "\<not> length s - mid < mid"
  shows "merge_cuts s mid cmp = map_option (\<lambda>k. (k, mid + (length s - mid) div 2))
    (tda_span_upper_bound (slice 0 mid s) (s ! (mid + (length s - mid) div 2)) cmp)"
proof -
  have "mid + (length s - mid) div 2 < length s" using assms by linarith
  then show ?thesis
    using assms by (simp add: merge_cuts_def Let_def map_option_case split: bind_splits option.splits)
qed

lemma merge_cuts_bounds:
  assumes c: "merge_cuts s mid cmp = Some (l, r)" and m: "0 < mid" "mid < length s" "length s \<noteq> 2"
  shows "l \<le> mid" "mid \<le> r" "r \<le> length s" "0 < l + (r - mid)" "l + (r - mid) < length s"
proof -
  have bound: "k \<le> length t" if "bisect_loop t p 0 (length t) = Some k" for t :: "'a list" and p k
    using bisect_loop_total [of "length t" t 0 p] that by auto
  have "l \<le> mid \<and> mid \<le> r \<and> r \<le> length s \<and> 0 < l + (r - mid) \<and> l + (r - mid) < length s"
  proof (cases "length s - mid < mid")
    case True
    obtain k where k: "tda_span_lower_bound (slice mid (length s - mid) s) (s ! (mid div 2)) cmp = Some k"
      "l = mid div 2" "r = mid + k"
      using c unfolding merge_cuts_left [OF m(2) True] map_option_eq_Some prod.inject by blast
    have "k \<le> length s - mid"
      using bound [OF k(1) [unfolded tda_span_lower_bound_def]] m(2) by (simp add: length_slice)
    moreover have "0 < mid div 2" "mid div 2 + (length s - mid) < length s" using True m by linarith+
    ultimately show ?thesis using m(2) unfolding k(2,3) by (intro conjI; linarith)
  next
    case False
    obtain k where k: "tda_span_upper_bound (slice 0 mid s) (s ! (mid + (length s - mid) div 2)) cmp = Some k"
      "l = k" "r = mid + (length s - mid) div 2"
      using c unfolding merge_cuts_right [OF m(2) False] map_option_eq_Some prod.inject by blast
    have "k \<le> mid"
      using bound [OF k(1) [unfolded tda_span_upper_bound_def]] m(2) by (simp add: length_slice)
    moreover have "2 \<le> length s - mid" using False m by presburger
    moreover define h where "h = (length s - mid) div 2"
    ultimately have h: "k \<le> mid" "0 < h" "h < length s - mid"
      by (simp_all add: div_greater_zero_iff)
    have "mid + h - mid = h" by simp
    then show ?thesis using h m(2) unfolding k(2,3) h_def [symmetric] by (intro conjI; linarith)
  qed
  then show "l \<le> mid" "mid \<le> r" "r \<le> length s" "0 < l + (r - mid)" "l + (r - mid) < length s" by auto
qed

lemma on_sub_cong [fundef_cong]:
  assumes "i = i'" "n = n'" "xs = xs'" "i' + n' \<le> length xs' \<Longrightarrow> f (slice i' n' xs') = g (slice i' n' xs')"
  shows "on_sub i n f xs = on_sub i' n' g xs'"
  using assms by (auto simp: on_sub_def span_sub_def)

declare bind_option_cong [fundef_cong]

function merge_in_place :: "'a list \<Rightarrow> nat \<Rightarrow> 'a cmp_fn \<Rightarrow> 'a list option" where
  "merge_in_place s mid cmp =
     (if mid > length s then None
      else if mid = 0 \<or> length s - mid = 0 then Some s
      else if length s = 2 then do {
        y \<leftarrow> span_get s 1;
        x \<leftarrow> span_get s 0;
        if cmp y x < 0 then span_swap s 0 1 else Some s
      } else do {
        cuts \<leftarrow> merge_cuts s mid cmp;
        let left_cut = fst cuts;
        let right_cut = snd cuts;
        s1 \<leftarrow> on_sub left_cut (right_cut - left_cut) (\<lambda>t. tda_span_rotate t (mid - left_cut)) s;
        let new_mid = left_cut + (right_cut - mid);
        s2 \<leftarrow> on_sub 0 new_mid (\<lambda>t. merge_in_place t left_cut cmp) s1;
        on_sub new_mid (length s - new_mid) (\<lambda>t. merge_in_place t (right_cut - new_mid) cmp) s2
      })"
  by pat_completeness auto
termination
proof (relation "measure (\<lambda>(s, mid, cmp). length s)", goal_cases)
  case 1
  then show ?case by simp
next
  case (2 s mid cmp cuts l r s1 new_mid)
  then have "l + (r - mid) < length s" using merge_cuts_bounds(5) [of s mid cmp l r] by auto
  then show ?case using 2 by (simp add: length_slice)
next
  case (3 s mid cmp cuts l r s1 new_mid s2)
  then have "0 < l + (r - mid)" using merge_cuts_bounds(4) [of s mid cmp l r] by auto
  then have "0 < new_mid" using 3 by simp
  moreover have "length (slice new_mid (length s - new_mid) s2) = length s - new_mid"
    using 3 by (simp add: length_slice)
  moreover have "0 < length s" using 3 by linarith
  ultimately show ?case by simp
qed

declare bind_option_cong [fundef_cong del]

text \<open>
  The buffered merge. The loops write into the span they read; \<open>parked\<close> is the buffer's
  view of the shorter run.
\<close>

function forward_loop :: "'a list \<Rightarrow> 'a list \<Rightarrow> 'a cmp_fn \<Rightarrow> nat \<Rightarrow> nat \<Rightarrow> nat \<Rightarrow> ('a list \<times> nat \<times> nat) option" where
  "forward_loop s parked cmp w b r =
     (if b < length parked \<and> r < length s then do {
        x \<leftarrow> span_get s r;
        y \<leftarrow> span_get parked b;
        let take_right = (cmp x y < 0);
        s1 \<leftarrow> span_set s w (if take_right then x else y);
        if take_right then forward_loop s1 parked cmp (w + 1) b (r + 1)
        else forward_loop s1 parked cmp (w + 1) (b + 1) r
      } else Some (s, w, b))"
  by pat_completeness auto
termination
  by (relation "measure (\<lambda>(s, parked, cmp, w, b, r). (length parked - b) + (length s - r))")
    (auto simp: span_set_def split: if_splits)

function drain_loop :: "'a list \<Rightarrow> 'a list \<Rightarrow> nat \<Rightarrow> nat \<Rightarrow> 'a list option" where
  "drain_loop s parked w b =
     (if b < length parked then do {
        y \<leftarrow> span_get parked b;
        s1 \<leftarrow> span_set s w y;
        drain_loop s1 parked (w + 1) (b + 1)
      } else Some s)"
  by pat_completeness auto
termination by (relation "measure (\<lambda>(s, parked, w, b). length parked - b)") auto

text \<open>Backward, the loop variables are the C ones; \<open>w\<close> is one past the position to write.\<close>

function backward_loop :: "'a list \<Rightarrow> 'a list \<Rightarrow> 'a cmp_fn \<Rightarrow> nat \<Rightarrow> nat \<Rightarrow> nat \<Rightarrow> ('a list \<times> nat \<times> nat) option" where
  "backward_loop s parked cmp w l b =
     (if l > 0 \<and> b > 0 then do {
        x \<leftarrow> span_get s (l - 1);
        y \<leftarrow> span_get parked (b - 1);
        let take_left = (cmp x y > 0);
        let w = w - 1;
        if take_left then do {
          s1 \<leftarrow> span_set s w x;
          backward_loop s1 parked cmp w (l - 1) b
        } else do {
          s1 \<leftarrow> span_set s w y;
          backward_loop s1 parked cmp w l (b - 1)
        }
      } else Some (s, w, b))"
  by pat_completeness auto
termination
  by (relation "measure (\<lambda>(s, parked, cmp, w, l, b). l + b)") auto

fun drain_back :: "'a list \<Rightarrow> 'a list \<Rightarrow> nat \<Rightarrow> nat \<Rightarrow> 'a list option" where
  "drain_back s parked w 0 = Some s"
| "drain_back s parked w (Suc b) = do {
     y \<leftarrow> span_get parked b;
     s1 \<leftarrow> span_set s (w - 1) y;
     drain_back s1 parked (w - 1) b
   }"

definition merge_buffered :: "'a list \<Rightarrow> nat \<Rightarrow> 'a cmp_fn \<Rightarrow> 'a list option" where
  "merge_buffered s mid cmp = (
     let left_len = mid; right_len = length s - mid in
     if left_len \<le> right_len then do {
       parked \<leftarrow> span_sub s 0 left_len;
       (s1, w, b) \<leftarrow> forward_loop s parked cmp 0 0 mid;
       drain_loop s1 parked w b
     } else do {
       parked \<leftarrow> span_sub s mid right_len;
       (s1, w, b) \<leftarrow> backward_loop s parked cmp (length s) mid right_len;
       drain_back s1 parked w b
     })"

definition tda_span_inplace_merge ::
  "'s world \<Rightarrow> nat \<Rightarrow> 'a list \<Rightarrow> nat \<Rightarrow> 'a cmp_fn \<Rightarrow> 's al option \<Rightarrow> ('s world \<times> 'a list) option" where
  "tda_span_inplace_merge w elem_size s mid cmp al = do {
     c_assert (mid \<le> length s);
     let left_len = mid;
     let right_len = length s - mid;
     if left_len = 0 \<or> right_len = 0 then Some (w, s)
     else do {
       let buf_len = (if left_len < right_len then left_len else right_len);
       (buf, w1) \<leftarrow> (case al of
           Some a \<Rightarrow> tda_alloc a w (size_mul buf_len elem_size)
         | None \<Rightarrow> Some (None, w));
       (case (buf, al) of
          (Some p, Some a) \<Rightarrow> do {
            s1 \<leftarrow> merge_buffered s mid cmp;
            w2 \<leftarrow> tda_dealloc a w1 (Some p) (size_mul buf_len elem_size);
            Some (w2, s1)
          }
        | _ \<Rightarrow> do { s1 \<leftarrow> merge_in_place s mid cmp; Some (w1, s1) })
     }
   }"

declare merge_loop.simps [simp del] merge_in_place.simps [simp del] forward_loop.simps [simp del]
  drain_loop.simps [simp del] backward_loop.simps [simp del]

section \<open>The stable merge\<close>

fun merge_by :: "'a cmp_fn \<Rightarrow> 'a list \<Rightarrow> 'a list \<Rightarrow> 'a list" where
  "merge_by cmp [] ys = ys"
| "merge_by cmp xs [] = xs"
| "merge_by cmp (x # xs) (y # ys) =
     (if cmp x y \<le> 0 then x # merge_by cmp xs (y # ys) else y # merge_by cmp (x # xs) ys)"

lemma merge_by_Nil2 [simp]: "merge_by cmp xs [] = xs"
  by (cases xs) auto

lemma merge_by_induct [case_names 1 2 3]:
  fixes cmp :: "'a cmp_fn"
  assumes "\<And>ys. P [] ys" "\<And>x xs. P (x # xs) []"
    "\<And>x xs y ys. (cmp x y \<le> 0 \<Longrightarrow> P xs (y # ys)) \<Longrightarrow> (\<not> cmp x y \<le> 0 \<Longrightarrow> P (x # xs) ys) \<Longrightarrow> P (x # xs) (y # ys)"
  shows "P xs ys"
  using assms by (induction cmp xs ys rule: merge_by.induct) auto

lemma mset_merge_by [simp]: "mset (merge_by cmp xs ys) = mset xs + mset ys"
  by (induction cmp xs ys rule: merge_by.induct) auto

lemma length_merge_by [simp]: "length (merge_by cmp xs ys) = length xs + length ys"
  by (induction cmp xs ys rule: merge_by.induct) auto

lemma set_merge_by [simp]: "set (merge_by cmp xs ys) = set xs \<union> set ys"
  by (induction cmp xs ys rule: merge_by.induct) auto

text \<open>
  \<open>t\<close> is the stable arrangement of \<open>s\<close>: sorted, with the elements of every class of equal ones
  in the order they have in \<open>s\<close>. There is only one.
\<close>

definition stable_of :: "'a cmp_fn \<Rightarrow> 'a list \<Rightarrow> 'a list \<Rightarrow> bool" where
  "stable_of cmp s t \<longleftrightarrow> sorted_by cmp t \<and> (\<forall>k. filter (\<lambda>x. cmp x k = 0) t = filter (\<lambda>x. cmp x k = 0) s)"

context comparator
begin

lemma stable_unique:
  "stable_of cmp s t \<Longrightarrow> stable_of cmp s u \<Longrightarrow> t = u"
proof (induction t arbitrary: s u)
  case Nil
  have f: "filter (\<lambda>x. cmp x k = 0) u = []" for k using Nil by (simp add: stable_of_def)
  show ?case
  proof (cases u)
    case (Cons y v)
    then show ?thesis using f [of y] by simp
  qed simp
next
  case (Cons x t)
  have f: "filter (\<lambda>z. cmp z k = 0) (x # t) = filter (\<lambda>z. cmp z k = 0) u" for k
    using Cons.prems by (simp add: stable_of_def)
  have so: "sorted_by cmp (x # t)" "sorted_by cmp u" using Cons.prems by (simp_all add: stable_of_def)
  have "u \<noteq> []" using f [of x] by (auto split: if_splits)
  then obtain y v where u: "u = y # v" by (cases u) auto
  have "x \<in> set (filter (\<lambda>z. cmp z x = 0) (x # t))" by simp
  then have "x \<in> set u" unfolding f by simp
  moreover have "y \<in> set (filter (\<lambda>z. cmp z y = 0) u)" using u by simp
  then have "y \<in> set (x # t)" unfolding f [symmetric] by (auto split: if_splits)
  ultimately have "cmp y x \<le> 0" "cmp x y \<le> 0" using so u by (auto simp: sorted_by_def)
  then have e: "cmp y x = 0" using cmp_le_ge [of x y] by simp
  then have xy: "x = y" using f [of x] u by simp
  have "filter (\<lambda>z. cmp z k = 0) t = filter (\<lambda>z. cmp z k = 0) v" for k
    using f [of k] u xy by (auto split: if_splits)
  then have "stable_of cmp t t" "stable_of cmp t v" using so u by (simp_all add: stable_of_def sorted_by_def)
  then show ?case using Cons.IH [of t v] u xy by simp
qed

lemma merge_by_sorted: "sorted_by cmp xs \<Longrightarrow> sorted_by cmp ys \<Longrightarrow> sorted_by cmp (merge_by cmp xs ys)"
  unfolding sorted_by_def
proof (induction xs ys rule: merge_by_induct [where cmp = cmp])
  case (3 x xs y ys)
  show ?case
  proof (cases "cmp x y \<le> 0")
    case True
    then have "cmp x z \<le> 0" if "z \<in> set ys" for z using 3(4) that cmp_trans by auto
    then show ?thesis using 3 True by auto
  next
    case False
    then have "cmp y x \<le> 0" using cmp_total by blast
    then have "cmp y z \<le> 0" if "z \<in> set xs" for z using 3(3) that cmp_trans by auto
    then show ?thesis using 3 False \<open>cmp y x \<le> 0\<close> by auto
  qed
qed auto

lemma merge_by_filter:
  "sorted_by cmp xs \<Longrightarrow> sorted_by cmp ys \<Longrightarrow>
     filter (\<lambda>z. cmp z k = 0) (merge_by cmp xs ys) = filter (\<lambda>z. cmp z k = 0) xs @ filter (\<lambda>z. cmp z k = 0) ys"
  unfolding sorted_by_def
proof (induction xs ys rule: merge_by_induct [where cmp = cmp])
  case (3 x xs y ys)
  show ?case
  proof (cases "cmp x y \<le> 0")
    case True
    then show ?thesis using 3 by auto
  next
    case False
    then have lt: "cmp y x < 0" using cmp_flip by (metis not_le)
    have "filter (\<lambda>z. cmp z k = 0) (x # xs) = []" if "cmp y k = 0"
    proof -
      have "cmp k x < 0" using that lt cmp_eq_sym [of y k] cmp_le_less_trans [of k y x] by simp
      then have "cmp k z < 0" if "z \<in> set (x # xs)" for z
        using that 3(3) cmp_less_trans [of k x z] by auto
      then have "cmp z k \<noteq> 0" if "z \<in> set (x # xs)" for z using cmp_eq_sym [of z k] that by fastforce
      then show ?thesis by (auto simp: filter_empty_conv)
    qed
    then show ?thesis using 3 False by auto
  qed
qed auto

text \<open>Merging adjacent sorted runs is the stable arrangement of the two together.\<close>

lemma merge_by_stable:
  "sorted_by cmp xs \<Longrightarrow> sorted_by cmp ys \<Longrightarrow> stable_of cmp (xs @ ys) (merge_by cmp xs ys)"
  by (simp add: stable_of_def merge_by_sorted merge_by_filter)

lemma merge_by_eqI:
  assumes "sorted_by cmp xs" "sorted_by cmp ys" "sorted_by cmp t"
    "\<And>k. filter (\<lambda>z. cmp z k = 0) t = filter (\<lambda>z. cmp z k = 0) xs @ filter (\<lambda>z. cmp z k = 0) ys"
  shows "t = merge_by cmp xs ys"
  using stable_unique [of "xs @ ys" t "merge_by cmp xs ys"] merge_by_stable [OF assms(1,2)] assms(3,4)
  by (simp add: stable_of_def)

lemma merge_by_snoc:
  assumes "sorted_by cmp (xs @ [x])" "sorted_by cmp (ys @ [y])"
  shows "merge_by cmp (xs @ [x]) (ys @ [y])
    = (if cmp x y > 0 then merge_by cmp xs (ys @ [y]) @ [x] else merge_by cmp (xs @ [x]) ys @ [y])"
proof -
  have s: "sorted_by cmp xs" "sorted_by cmp ys" "\<And>z. z \<in> set xs \<Longrightarrow> cmp z x \<le> 0" "\<And>z. z \<in> set ys \<Longrightarrow> cmp z y \<le> 0"
    using assms by (simp_all add: sorted_by_def sorted_wrt_append)
  show ?thesis
  proof (cases "cmp x y > 0")
    case True
    then have lt: "cmp y x < 0" using cmp_flip by blast
    then have le: "cmp z x < 0" if "z \<in> set (ys @ [y])" for z using that s(4) cmp_le_less_trans by auto
    have "merge_by cmp xs (ys @ [y]) @ [x] = merge_by cmp (xs @ [x]) (ys @ [y])"
    proof (rule merge_by_eqI [OF assms])
      show "sorted_by cmp (merge_by cmp xs (ys @ [y]) @ [x])"
        using merge_by_sorted [OF s(1) assms(2)] s(3) le by (auto simp: sorted_by_def sorted_wrt_append less_imp_le)
      fix k
      have "filter (\<lambda>z. cmp z k = 0) (ys @ [y]) = []" if "cmp x k = 0"
      proof -
        have "cmp z k < 0" if "z \<in> set (ys @ [y])" for z using le [OF that] \<open>cmp x k = 0\<close> cmp_less_trans by fastforce
        then show ?thesis by (fastforce simp: filter_empty_conv)
      qed
      then show "filter (\<lambda>z. cmp z k = 0) (merge_by cmp xs (ys @ [y]) @ [x])
          = filter (\<lambda>z. cmp z k = 0) (xs @ [x]) @ filter (\<lambda>z. cmp z k = 0) (ys @ [y])"
        using merge_by_filter [OF s(1) assms(2), of k] by auto
    qed
    then show ?thesis using True by simp
  next
    case False
    then have xy: "cmp x y \<le> 0" by simp
    have le: "cmp z y \<le> 0" if "z \<in> set (xs @ [x])" for z using that s(3) cmp_trans [OF _ xy] xy by auto
    have "merge_by cmp (xs @ [x]) ys @ [y] = merge_by cmp (xs @ [x]) (ys @ [y])"
    proof (rule merge_by_eqI [OF assms])
      show "sorted_by cmp (merge_by cmp (xs @ [x]) ys @ [y])"
        using merge_by_sorted [OF assms(1) s(2)] s(4) le by (auto simp: sorted_by_def sorted_wrt_append)
      fix k
      show "filter (\<lambda>z. cmp z k = 0) (merge_by cmp (xs @ [x]) ys @ [y])
          = filter (\<lambda>z. cmp z k = 0) (xs @ [x]) @ filter (\<lambda>z. cmp z k = 0) (ys @ [y])"
        using merge_by_filter [OF assms(1) s(2), of k] by simp
    qed
    then show ?thesis using False by simp
  qed
qed

end

section \<open>Merging into another span\<close>

lemma emit_at:
  "out < length dst \<Longrightarrow> tda_emit dst out x = Some (dst[out := x], out + 1)"
  by (simp add: tda_emit_def)

lemma take_update_last: "out < length dst \<Longrightarrow> take (Suc out) (dst[out := x]) = take out dst @ [x]"
  by (simp add: take_Suc_conv_app_nth take_update_cancel)

text \<open>What is written so far and the merge of what is left.\<close>

lemma merge_loop_spec:
  assumes "i \<le> length a" "j \<le> length b" "out = i + j" "length dst = length a + length b"
  shows "\<exists>d i' j' out'. merge_loop dst a b cmp i j out = Some (d, i', j', out') \<and> length d = length dst
    \<and> i' \<le> length a \<and> j' \<le> length b \<and> out' = i' + j' \<and> (i' = length a \<or> j' = length b)
    \<and> take out' d @ drop i' a @ drop j' b = take out dst @ merge_by cmp (drop i a) (drop j b)"
  using assms
proof (induction dst a b cmp i j out rule: merge_loop.induct)
  case (1 dst a b cmp i j out)
  show ?case
  proof (cases "i < length a \<and> j < length b")
    case False
    then have "drop i a @ drop j b = merge_by cmp (drop i a) (drop j b)" by auto
    then show ?thesis using "1.prems" False by (subst merge_loop.simps) auto
  next
    case True
    let ?x = "a ! i" and ?y = "b ! j"
    have o: "out < length dst" using True "1.prems" by linarith
    have da: "drop i a = ?x # drop (i + 1) a" "drop j b = ?y # drop (j + 1) b"
      using True by (simp_all add: Cons_nth_drop_Suc)
    note g = span_get_ok' [of i a] span_get_ok' [of j b]
    show ?thesis
    proof (cases "cmp ?x ?y \<le> 0")
      case le: True
      have "merge_by cmp (drop i a) (drop j b) = ?x # merge_by cmp (drop (i + 1) a) (drop j b)"
        using le unfolding da by simp
      then have m: "take out dst @ merge_by cmp (drop i a) (drop j b)
          = take (out + 1) (dst[out := ?x]) @ merge_by cmp (drop (i + 1) a) (drop j b)"
        using o by (simp add: take_update_last)
      show ?thesis
        using "1.IH"(1) [of ?x ?y _ "dst[out := ?x]" "out + 1"] True le "1.prems" o
        unfolding m by (subst merge_loop.simps) (simp add: emit_at)
    next
      case gt: False
      have "merge_by cmp (drop i a) (drop j b) = ?y # merge_by cmp (drop i a) (drop (j + 1) b)"
        using gt unfolding da by simp
      then have m: "take out dst @ merge_by cmp (drop i a) (drop j b)
          = take (out + 1) (dst[out := ?y]) @ merge_by cmp (drop i a) (drop (j + 1) b)"
        using o by (simp add: take_update_last)
      show ?thesis
        using "1.IH"(2) [of ?x ?y _ "dst[out := ?y]" "out + 1"] True gt "1.prems" o
        unfolding m by (subst merge_loop.simps) (simp add: emit_at)
    qed
  qed
qed

lemma emit_rest_spec:
  assumes "start \<le> length src" "out + (length src - start) \<le> length dst"
  shows "tda_emit_rest dst out src start = Some (blit out (drop start src) dst, out + (length src - start))"
  using assms by (auto simp: tda_emit_rest_def slice_def)

lemma merge_spec:
  assumes "length dst = length a + length b"
  shows "tda_span_merge dst a b cmp = Some (merge_by cmp a b)"
proof -
  obtain d i j out where l: "merge_loop dst a b cmp 0 0 0 = Some (d, i, j, out)" "length d = length dst"
    "i \<le> length a" "j \<le> length b" "out = i + j" "i = length a \<or> j = length b"
    "take out d @ drop i a @ drop j b = merge_by cmp a b"
    using merge_loop_spec [of 0 a 0 b 0 dst cmp] assms by auto
  let ?d1 = "blit out (drop i a) d" and ?o1 = "out + (length a - i)"
  have e1: "tda_emit_rest d out a i = Some (?d1, ?o1)"
    using l assms by (intro emit_rest_spec) auto
  have l1: "length ?d1 = length dst" using l assms by (simp add: length_blit)
  let ?d2 = "blit ?o1 (drop j b) ?d1"
  have e2: "tda_emit_rest ?d1 ?o1 b j = Some (?d2, ?o1 + (length b - j))"
    using l l1 assms by (intro emit_rest_spec) auto
  have "?d2 = take out d @ drop i a @ drop j b"
    using l assms by (simp add: blit_def)
  then show ?thesis
    using assms l(1,3-5,7) e1 e2 by (simp add: tda_span_merge_def)
qed

section \<open>The buffered merge\<close>

lemma drain_loop_spec:
  assumes "b \<le> length parked" "w + (length parked - b) = length s"
  shows "drain_loop s parked w b = Some (take w s @ drop b parked)"
  using assms
proof (induction s parked w b rule: drain_loop.induct)
  case (1 s parked w b)
  show ?case
  proof (cases "b < length parked")
    case True
    then have "w < length s" "drop b parked = parked ! b # drop (b + 1) parked"
      using "1.prems" by (auto simp: Cons_nth_drop_Suc)
    then show ?thesis
      using True 1 by (subst drain_loop.simps) (simp add: take_update_last)
  qed (use "1.prems" in \<open>subst drain_loop.simps, simp\<close>)
qed

lemma drain_back_spec:
  assumes "b \<le> length parked" "w = b" "w \<le> length s"
  shows "drain_back s parked w b = Some (take b parked @ drop w s)"
  using assms
proof (induction b arbitrary: s w)
  case (Suc b)
  then have "w - 1 < length s" by simp
  moreover have "drop (w - 1) (s[w - 1 := parked ! b]) = parked ! b # drop w s"
    using Suc.prems by (simp add: Cons_nth_drop_Suc [symmetric] drop_update_cancel)
  ultimately show ?case
    using Suc.prems Suc.IH [of "w - 1" "s[w - 1 := parked ! b]"] by (simp add: take_Suc_conv_app_nth)
qed simp

context comparator
begin

lemma forward_loop_spec:
  assumes "b \<le> length parked" "r \<le> length s" "w + (length parked - b) = r"
  shows "\<exists>t w' b'. forward_loop s parked cmp w b r = Some (t, w', b')
    \<and> drain_loop t parked w' b' = Some (take w s @ merge_by cmp (drop b parked) (drop r s))"
  using assms
proof (induction "(length parked - b) + (length s - r)" arbitrary: s w b r rule: less_induct)
  case less
  show ?case
  proof (cases "b < length parked \<and> r < length s")
    case False
    show ?thesis
    proof (cases "b < length parked")
      case True
      then have r: "r = length s" using False less.prems by simp
      then show ?thesis
        using drain_loop_spec [of b parked w s] less.prems by (subst forward_loop.simps) simp
    next
      case dn: False
      then have "w = r" using less.prems by simp
      then show ?thesis using dn less.prems by (subst forward_loop.simps) (simp add: drain_loop.simps)
    qed
  next
    case True
    let ?x = "s ! r" and ?y = "parked ! b"
    have w: "w < length s" "w < r" using True less.prems by linarith+
    have d: "drop b parked = ?y # drop (b + 1) parked" "drop r s = ?x # drop (r + 1) s"
      using True by (simp_all add: Cons_nth_drop_Suc)
    show ?thesis
    proof (cases "cmp ?x ?y < 0")
      case lt: True
      then have n: "\<not> cmp ?y ?x \<le> 0" using cmp_flip by (metis not_le)
      let ?s = "s[w := ?x]"
      have m: "take w s @ merge_by cmp (drop b parked) (drop r s)
          = take (w + 1) ?s @ merge_by cmp (drop b parked) (drop (r + 1) ?s)"
        using n w unfolding d by (simp add: take_update_last drop_update_cancel)
      have "\<exists>t w' b'. forward_loop ?s parked cmp (w + 1) b (r + 1) = Some (t, w', b')
          \<and> drain_loop t parked w' b' = Some (take (w + 1) ?s @ merge_by cmp (drop b parked) (drop (r + 1) ?s))"
        by (rule less.hyps) (use True less.prems in auto)
      then show ?thesis
        unfolding m using True lt w by (subst forward_loop.simps) simp
    next
      case ge: False
      then have n: "cmp ?y ?x \<le> 0" using cmp_flip by (metis not_le)
      let ?s = "s[w := ?y]"
      have m: "take w s @ merge_by cmp (drop b parked) (drop r s)
          = take (w + 1) ?s @ merge_by cmp (drop (b + 1) parked) (drop r ?s)"
        using n w d by (simp add: take_update_last drop_update_cancel)
      have "\<exists>t w' b'. forward_loop ?s parked cmp (w + 1) (b + 1) r = Some (t, w', b')
          \<and> drain_loop t parked w' b' = Some (take (w + 1) ?s @ merge_by cmp (drop (b + 1) parked) (drop r ?s))"
        by (rule less.hyps) (use True less.prems in auto)
      then show ?thesis
        unfolding m using True ge w by (subst forward_loop.simps) simp
    qed
  qed
qed

lemma backward_loop_spec:
  assumes "b \<le> length parked" "l \<le> length s" "w = l + b" "w \<le> length s"
    "sorted_by cmp (take l s)" "sorted_by cmp (take b parked)"
  shows "\<exists>t w' b'. backward_loop s parked cmp w l b = Some (t, w', b')
    \<and> drain_back t parked w' b' = Some (merge_by cmp (take l s) (take b parked) @ drop w s)"
  using assms
proof (induction "l + b" arbitrary: s w l b rule: less_induct)
  case less
  show ?case
  proof (cases "l > 0 \<and> b > 0")
    case False
    show ?thesis
    proof (cases "l = 0")
      case True
      then show ?thesis
        using less.prems drain_back_spec [of b parked w s] by (subst backward_loop.simps) simp
    next
      case l: False
      then have "b = 0" using False by simp
      then show ?thesis using l less.prems by (subst backward_loop.simps) simp
    qed
  next
    case True
    let ?x = "s ! (l - 1)" and ?y = "parked ! (b - 1)"
    have w: "w - 1 < length s" "l \<le> w - 1" "b - 1 < length parked" "l - 1 < length s"
      using True less.prems(1-4) by linarith+
    have tl: "take l s = take (l - 1) s @ [?x]" "take b parked = take (b - 1) parked @ [?y]"
      using True less.prems(1,2) by (cases l; cases b; simp add: take_Suc_conv_app_nth)+
    have st: "sorted_by cmp (take (l - 1) s)" "sorted_by cmp (take (b - 1) parked)"
      using less.prems(5,6) unfolding tl by (simp_all add: sorted_by_def sorted_wrt_append)
    note sn = merge_by_snoc [OF less.prems(5,6) [unfolded tl]]
    have dr: "drop (w - 1) (s[w - 1 := z]) = z # drop w s" for z
      using w True less.prems(3) by (simp add: Cons_nth_drop_Suc [symmetric] drop_update_cancel)
    show ?thesis
    proof (cases "cmp ?x ?y > 0")
      case gt: True
      let ?s = "s[w - 1 := ?x]"
      have tk: "take (l - 1) ?s = take (l - 1) s" using w by (simp add: take_update_cancel)
      have m: "merge_by cmp (take l s) (take b parked) @ drop w s
          = merge_by cmp (take (l - 1) ?s) (take b parked) @ drop (w - 1) ?s"
        using sn gt unfolding dr tk tl by simp
      have "\<exists>t w' b'. backward_loop ?s parked cmp (w - 1) (l - 1) b = Some (t, w', b')
          \<and> drain_back t parked w' b' = Some (merge_by cmp (take (l - 1) ?s) (take b parked) @ drop (w - 1) ?s)"
        by (rule less.hyps) (use True less.prems st tk w in auto)
      then show ?thesis
        unfolding m using True gt w less.prems by (subst backward_loop.simps) (simp add: Let_def)
    next
      case le: False
      let ?s = "s[w - 1 := ?y]"
      have tk: "take l ?s = take l s" using w by (simp add: take_update_cancel)
      have m: "merge_by cmp (take l s) (take b parked) @ drop w s
          = merge_by cmp (take l ?s) (take (b - 1) parked) @ drop (w - 1) ?s"
        using sn le unfolding dr tk tl by simp
      have "\<exists>t w' b'. backward_loop ?s parked cmp (w - 1) l (b - 1) = Some (t, w', b')
          \<and> drain_back t parked w' b' = Some (merge_by cmp (take l ?s) (take (b - 1) parked) @ drop (w - 1) ?s)"
        by (rule less.hyps) (use True less.prems st tk w in auto)
      then show ?thesis
        unfolding m using True le w less.prems by (subst backward_loop.simps) (simp add: Let_def)
    qed
  qed
qed

lemma merge_buffered_spec:
  assumes m: "mid \<le> length s" and s: "sorted_by cmp (take mid s)" "sorted_by cmp (drop mid s)"
  shows "merge_buffered s mid cmp = Some (merge_by cmp (take mid s) (drop mid s))"
proof (cases "mid \<le> length s - mid")
  case True
  have p: "slice 0 mid s = take mid s" by (simp add: slice_def)
  obtain t w b where f: "forward_loop s (take mid s) cmp 0 0 mid = Some (t, w, b)"
    "drain_loop t (take mid s) w b = Some (merge_by cmp (take mid s) (drop mid s))"
    using forward_loop_spec [of 0 "take mid s" mid s 0] m by auto
  then show ?thesis using True m p by (simp add: merge_buffered_def Let_def)
next
  case False
  have p: "slice mid (length s - mid) s = drop mid s" by (simp add: slice_def)
  obtain t w b where f: "backward_loop s (drop mid s) cmp (length s) mid (length s - mid) = Some (t, w, b)"
    "drain_back t (drop mid s) w b = Some (merge_by cmp (take mid s) (drop mid s))"
    using backward_loop_spec [of "length s - mid" "drop mid s" mid s "length s"] m s by auto
  then show ?thesis using False m p by (simp add: merge_buffered_def Let_def)
qed

end

section \<open>The merge in place\<close>

context comparator
begin

text \<open>Two smaller merges whose results do not interleave.\<close>

lemma merge_by_split:
  assumes s: "sorted_by cmp (a1 @ a2)" "sorted_by cmp (b1 @ b2)"
    and ab: "\<And>x y. x \<in> set a1 \<Longrightarrow> y \<in> set b2 \<Longrightarrow> cmp x y \<le> 0"
    and ba: "\<And>x y. x \<in> set b1 \<Longrightarrow> y \<in> set a2 \<Longrightarrow> cmp x y < 0"
  shows "merge_by cmp (a1 @ a2) (b1 @ b2) = merge_by cmp a1 b1 @ merge_by cmp a2 b2"
proof (rule sym, rule merge_by_eqI [OF s])
  have p: "sorted_by cmp a1" "sorted_by cmp a2" "sorted_by cmp b1" "sorted_by cmp b2"
    "\<And>x y. x \<in> set a1 \<Longrightarrow> y \<in> set a2 \<Longrightarrow> cmp x y \<le> 0" "\<And>x y. x \<in> set b1 \<Longrightarrow> y \<in> set b2 \<Longrightarrow> cmp x y \<le> 0"
    using s by (simp_all add: sorted_by_def sorted_wrt_append)
  show "sorted_by cmp (merge_by cmp a1 b1 @ merge_by cmp a2 b2)"
    using merge_by_sorted [OF p(1,3)] merge_by_sorted [OF p(2,4)] p(5,6) ab ba
    by (auto simp: sorted_by_def sorted_wrt_append less_imp_le)
  fix k
  have "filter (\<lambda>z. cmp z k = 0) b1 = [] \<or> filter (\<lambda>z. cmp z k = 0) a2 = []"
  proof (rule ccontr)
    assume "\<not> ?thesis"
    then obtain x y where xy: "x \<in> set b1" "cmp x k = 0" "y \<in> set a2" "cmp y k = 0"
      by (auto simp: filter_empty_conv)
    then have "cmp x y < 0" using ba by blast
    moreover have "cmp y x \<le> 0" using xy cmp_trans [of y k x] cmp_eq_sym [of x k] by simp
    ultimately show False using cmp_flip [of y x] cmp_le_ge [of y x] by linarith
  qed
  then show "filter (\<lambda>z. cmp z k = 0) (merge_by cmp a1 b1 @ merge_by cmp a2 b2)
      = filter (\<lambda>z. cmp z k = 0) (a1 @ a2) @ filter (\<lambda>z. cmp z k = 0) (b1 @ b2)"
    using merge_by_filter [OF p(1,3), of k] merge_by_filter [OF p(2,4), of k] by auto
qed

lemma lower_cut:
  assumes "sorted_by cmp t" "tda_span_lower_bound t key cmp = Some k"
  shows "\<And>x. x \<in> set (take k t) \<Longrightarrow> cmp x key < 0" "\<And>x. x \<in> set (drop k t) \<Longrightarrow> cmp key x \<le> 0"
proof -
  have k: "k = length (filter (\<lambda>x. cmp x key < 0) t)" using lower_bound_count [OF assms(1), of key] assms(2) by simp
  define A B where "A = filter (\<lambda>x. cmp x key < 0) t" and "B = filter (\<lambda>x. cmp x key = 0) t @ filter (\<lambda>x. 0 < cmp x key) t"
  have e: "t = A @ B" using sorted_three_parts [OF assms(1), of key] by (simp add: A_def B_def)
  have "take k t = A" "drop k t = B" using k by (subst e, simp add: A_def [symmetric])+
  then show "\<And>x. x \<in> set (take k t) \<Longrightarrow> cmp x key < 0" "\<And>x. x \<in> set (drop k t) \<Longrightarrow> cmp key x \<le> 0"
    using cmp_le_ge by (auto simp: A_def B_def)
qed

lemma upper_cut:
  assumes "sorted_by cmp t" "tda_span_upper_bound t key cmp = Some k"
  shows "\<And>x. x \<in> set (take k t) \<Longrightarrow> cmp x key \<le> 0" "\<And>x. x \<in> set (drop k t) \<Longrightarrow> cmp key x < 0"
proof -
  define A B where "A = filter (\<lambda>x. cmp x key < 0) t @ filter (\<lambda>x. cmp x key = 0) t" and "B = filter (\<lambda>x. 0 < cmp x key) t"
  have e: "t = A @ B" using sorted_three_parts [OF assms(1), of key] by (simp add: A_def B_def)
  have "filter (\<lambda>x. cmp x key \<le> 0) A = A" "filter (\<lambda>x. cmp x key \<le> 0) B = []"
    by (auto simp: filter_id_conv filter_empty_conv A_def B_def simp del: filter_filter)
  then have "filter (\<lambda>x. cmp x key \<le> 0) t = A" by (subst e) simp
  then have k: "k = length A" using upper_bound_count [OF assms(1), of key] assms(2) by simp
  have "take k t = A" "drop k t = B" unfolding k by (subst e, simp)+
  then show "\<And>x. x \<in> set (take k t) \<Longrightarrow> cmp x key \<le> 0" "\<And>x. x \<in> set (drop k t) \<Longrightarrow> cmp key x < 0"
    using cmp_flip by (auto simp: A_def B_def)
qed

lemma merge_cuts_spec:
  assumes m: "0 < mid" "mid < length s" and s: "sorted_by cmp a" "sorted_by cmp b"
    and ab: "a = take mid s" "b = drop mid s"
  shows "\<exists>l r. merge_cuts s mid cmp = Some (l, r)
    \<and> (\<forall>x\<in>set (take l a). \<forall>y\<in>set (drop (r - mid) b). cmp x y \<le> 0)
    \<and> (\<forall>x\<in>set (take (r - mid) b). \<forall>y\<in>set (drop l a). cmp x y < 0)"
proof (cases "length s - mid < mid")
  case True
  let ?l = "mid div 2"
  have l: "?l < mid" using m(1) by simp
  have sl: "slice mid (length s - mid) s = b" by (simp add: slice_def ab)
  obtain k where k: "tda_span_lower_bound b (s ! ?l) cmp = Some k"
    using lower_bound_count [OF s(2)] by blast
  have c: "merge_cuts s mid cmp = Some (?l, mid + k)" using merge_cuts_left [OF m(2) True, of cmp] k sl by simp
  have p: "s ! ?l = a ! ?l" "?l < length a" using l m by (simp_all add: ab)
  have d: "drop ?l a = s ! ?l # drop (Suc ?l) a" using p by (simp add: Cons_nth_drop_Suc)
  have sa: "sorted_by cmp (take ?l a @ drop ?l a)" using s(1) by simp
  have 1: "cmp x (s ! ?l) \<le> 0" if "x \<in> set (take ?l a)" for x
    using sa that unfolding d by (simp add: sorted_by_def sorted_wrt_append)
  have 2: "cmp (s ! ?l) y \<le> 0" if "y \<in> set (drop ?l a)" for y
    using sa that unfolding d by (auto simp: sorted_by_def sorted_wrt_append)
  note lc = lower_cut [OF s(2) k]
  have "\<forall>x\<in>set (take ?l a). \<forall>y\<in>set (drop k b). cmp x y \<le> 0" using 1 lc(2) cmp_trans by blast
  moreover have "\<forall>x\<in>set (take k b). \<forall>y\<in>set (drop ?l a). cmp x y < 0" using 2 lc(1) cmp_less_trans by blast
  ultimately show ?thesis using c by simp
next
  case False
  let ?h = "(length s - mid) div 2"
  let ?r = "mid + ?h"
  have sl: "slice 0 mid s = a" by (simp add: slice_def ab)
  obtain k where k: "tda_span_upper_bound a (s ! ?r) cmp = Some k"
    using upper_bound_count [OF s(1)] by blast
  have c: "merge_cuts s mid cmp = Some (k, ?r)" using merge_cuts_right [OF m(2) False, of cmp] k sl by simp
  have p: "s ! ?r = b ! ?h" "?h < length b" using m by (simp_all add: ab)
  have d: "drop ?h b = s ! ?r # drop (Suc ?h) b" using p by (simp add: Cons_nth_drop_Suc)
  have sb: "sorted_by cmp (take ?h b @ drop ?h b)" using s(2) by simp
  have 1: "cmp x (s ! ?r) \<le> 0" if "x \<in> set (take ?h b)" for x
    using sb that unfolding d by (simp add: sorted_by_def sorted_wrt_append)
  have 2: "cmp (s ! ?r) y \<le> 0" if "y \<in> set (drop ?h b)" for y
    using sb that unfolding d by (auto simp: sorted_by_def sorted_wrt_append)
  note uc = upper_cut [OF s(1) k]
  have "\<forall>x\<in>set (take k a). \<forall>y\<in>set (drop ?h b). cmp x y \<le> 0" using 2 uc(1) cmp_trans by blast
  moreover have "\<forall>x\<in>set (take ?h b). \<forall>y\<in>set (drop k a). cmp x y < 0" using 1 uc(2) cmp_le_less_trans by blast
  moreover have "?r - mid = ?h" by simp
  ultimately show ?thesis using c by (intro exI [of _ k] exI [of _ ?r]) simp
qed

lemma merge_in_place_pair:
  assumes "length s = 2" "mid = 1"
  shows "merge_in_place s mid cmp = Some (merge_by cmp (take mid s) (drop mid s))"
proof -
  obtain x y where xy: "s = [x, y]" using assms(1) by (metis One_nat_def Suc_1 length_0_conv length_Suc_conv)
  show ?thesis
    using assms(2) cmp_flip [of x y] by (subst merge_in_place.simps) (auto simp: xy swap_list_def)
qed

lemma merge_in_place_step:
  assumes m: "0 < mid" "mid < length s" "length s \<noteq> 2" and c: "merge_cuts s mid cmp = Some (l, r)"
    and ab: "take mid s = a1 @ a2" "drop mid s = b1 @ b2" "length a1 = l" "length b1 = r - mid"
    and ih: "merge_in_place (a1 @ b1) l cmp = Some t1" "length t1 = l + (r - mid)"
      "merge_in_place (a2 @ b2) (length a2) cmp = Some t2"  "length t2 = length a2 + length b2"
  shows "merge_in_place s mid cmp = Some (t1 @ t2)"
proof -
  note b = merge_cuts_bounds [OF c m]
  have s: "s = a1 @ a2 @ b1 @ b2" using ab(1,2) by (metis append.assoc append_take_drop_id)
  have len: "mid = l + length a2" using ab(1,3) m(2) by (metis length_append length_take min.absorb2 less_imp_le min.commute)
  have rl: "r - l = length (a2 @ b1)" "mid - l = length a2" using len ab(4) b by simp_all
  have "slice l (r - l) s = a2 @ b1" unfolding s rl(1) by (simp add: slice_def ab(3) [symmetric])
  moreover have ll: "l + (r - l) \<le> length s" using b by simp
  ultimately have "on_sub l (r - l) (\<lambda>t. tda_span_rotate t (mid - l)) s = Some (blit l (b1 @ a2) s)"
    using rl by (simp add: on_sub_def rotate_spec)
  moreover have "blit l (b1 @ a2) s = a1 @ b1 @ a2 @ b2"
    unfolding s by (simp add: blit_def ab(3) [symmetric])
  ultimately have rot: "on_sub l (r - l) (\<lambda>t. tda_span_rotate t (mid - l)) s = Some (a1 @ b1 @ a2 @ b2)" by simp
  let ?n = "l + (r - mid)"
  have sl1: "slice 0 ?n (a1 @ b1 @ a2 @ b2) = a1 @ b1" using ab(3,4) by (simp add: slice_def)
  have first: "on_sub 0 ?n (\<lambda>t. merge_in_place t l cmp) (a1 @ b1 @ a2 @ b2) = Some (t1 @ a2 @ b2)"
    using ih(1,2) sl1 ab(3,4) by (simp add: on_sub_def blit_def)
  have ln: "length s - ?n = length a2 + length b2" using s ab(3,4) by simp
  have sl2: "slice ?n (length s - ?n) (t1 @ a2 @ b2) = a2 @ b2" unfolding ln using ih(2) by (simp add: slice_def)
  have "r - ?n = length a2" using len b by simp
  then have second: "on_sub ?n (length s - ?n) (\<lambda>t. merge_in_place t (r - ?n) cmp) (t1 @ a2 @ b2) = Some (t1 @ t2)"
    using ih(2-4) sl2 ln by (simp add: on_sub_def blit_def)
  show ?thesis
    using m c rot first second by (subst merge_in_place.simps) (simp add: Let_def)
qed

lemma merge_in_place_spec:
  assumes "mid \<le> length s" "sorted_by cmp (take mid s)" "sorted_by cmp (drop mid s)"
  shows "merge_in_place s mid cmp = Some (merge_by cmp (take mid s) (drop mid s))"
  using assms
proof (induction "length s" arbitrary: s mid rule: less_induct)
  case less
  show ?case
  proof (cases "mid = 0 \<or> length s - mid = 0")
    case True
    then show ?thesis using less.prems by (subst merge_in_place.simps) auto
  next
    case False
    then have m: "0 < mid" "mid < length s" using less.prems(1) by auto
    show ?thesis
    proof (cases "length s = 2")
      case True
      then have "mid = 1" using m by simp
      then show ?thesis by (rule merge_in_place_pair [OF True])
    next
      case ne: False
      obtain l r where c: "merge_cuts s mid cmp = Some (l, r)"
        "\<And>x y. x \<in> set (take l (take mid s)) \<Longrightarrow> y \<in> set (drop (r - mid) (drop mid s)) \<Longrightarrow> cmp x y \<le> 0"
        "\<And>x y. x \<in> set (take (r - mid) (drop mid s)) \<Longrightarrow> y \<in> set (drop l (take mid s)) \<Longrightarrow> cmp x y < 0"
        using merge_cuts_spec [OF m less.prems(2,3) refl refl] by blast
      define a1 a2 b1 b2 where p: "a1 = take l (take mid s)" "a2 = drop l (take mid s)"
        "b1 = take (r - mid) (drop mid s)" "b2 = drop (r - mid) (drop mid s)"
      have ab: "take mid s = a1 @ a2" "drop mid s = b1 @ b2" unfolding p by (rule append_take_drop_id [symmetric])+
      note b = merge_cuts_bounds [OF c(1) m ne]
      have len: "length a1 = l" "length b1 = r - mid" using b m by (auto simp: p)
      have s: "s = a1 @ a2 @ b1 @ b2" using ab by (metis append.assoc append_take_drop_id)
      have so: "sorted_by cmp a1" "sorted_by cmp a2" "sorted_by cmp b1" "sorted_by cmp b2"
        using less.prems(2,3) unfolding ab by (simp_all add: sorted_by_def sorted_wrt_append)
      have tot: "length s = l + length a2 + (r - mid) + length b2" using s len by simp
      have "length (a1 @ b1) < length s" using b len by simp
      then have 1: "merge_in_place (a1 @ b1) l cmp = Some (merge_by cmp a1 b1)"
        using less.hyps [of "a1 @ b1" l] so len by simp
      have "length (a2 @ b2) < length s" using tot b(4) by simp
      then have 2: "merge_in_place (a2 @ b2) (length a2) cmp = Some (merge_by cmp a2 b2)"
        using less.hyps [of "a2 @ b2" "length a2"] so by simp
      have "merge_in_place s mid cmp = Some (merge_by cmp a1 b1 @ merge_by cmp a2 b2)"
        by (rule merge_in_place_step [OF m ne c(1) ab len 1 _ 2]) (use len in simp_all)
      also have "merge_by cmp a1 b1 @ merge_by cmp a2 b2 = merge_by cmp (a1 @ a2) (b1 @ b2)"
        by (rule sym, rule merge_by_split [OF less.prems(2,3) [unfolded ab]]) (use c(2,3) in \<open>auto simp only: p\<close>)
      finally show ?thesis unfolding ab .
    qed
  qed
qed

end

text \<open>With a buffer or without one, and whether or not the allocator has room, one result.\<close>

lemma inplace_merge_spec:
  assumes A: "allocator al I owned" and C: "comparator cmp" and w: "I w"
    and mid: "mid \<le> length s" "sorted_by cmp (take mid s)" "sorted_by cmp (drop mid s)"
    and fit: "length s * es \<le> SIZE_MAX"
  shows "\<exists>w'. tda_span_inplace_merge w es s mid cmp (Some al) = Some (w', merge_by cmp (take mid s) (drop mid s))
    \<and> I w' \<and> heap w' = heap w"
proof (cases "mid = 0 \<or> length s - mid = 0")
  case True
  then show ?thesis using w mid by (auto simp: tda_span_inplace_merge_def)
next
  case False
  define n where "n = (if mid < length s - mid then mid else length s - mid)"
  have "n \<le> length s" by (auto simp: n_def)
  then have "n * es \<le> length s * es" by (rule mult_le_mono1)
  then have nf: "n * es \<le> SIZE_MAX" using fit by (rule le_trans)
  then have sm: "size_mul n es = n * es" by (rule size_mul_exact)
  note mb = comparator.merge_buffered_spec [OF C mid] and mp = comparator.merge_in_place_spec [OF C mid]
  show ?thesis
  proof (rule allocator.alloc_cases [OF A w nf], goal_cases)
    case (1 w1)
    then show ?case
      using False mid(1) sm mp by (simp add: tda_span_inplace_merge_def n_def [symmetric] Let_def)
  next
    case (2 p w1 bs)
    have "heap w1 p = Some bs" using 2(7) by simp
    then obtain w2 where w2: "tda_dealloc al w1 (Some p) (n * es) = Some w2" "I w2" "heap w2 = (heap w1)(p := None)"
      using allocator.dealloc_some [OF A 2(2,4) _ 2(6)] by blast
    have "heap w2 = heap w" using w2(3) 2(5,7) by auto
    then show ?case
      using False mid(1) sm mb 2(1) w2(1,2) by (simp add: tda_span_inplace_merge_def n_def [symmetric] Let_def)
  qed
qed

lemma inplace_merge_null:
  assumes C: "comparator cmp" and mid: "mid \<le> length s" "sorted_by cmp (take mid s)" "sorted_by cmp (drop mid s)"
  shows "tda_span_inplace_merge w es s mid cmp None = Some (w, merge_by cmp (take mid s) (drop mid s))"
  using comparator.merge_in_place_spec [OF C mid] mid(1)
  by (auto simp: tda_span_inplace_merge_def Let_def)

text \<open>Copies.\<close>

lemma copy_spec: "length dst = length src \<Longrightarrow> tda_span_copy same dst src = Some (if same then dst else src)"
  by (auto simp: tda_span_copy_def)

lemma copy_if_spec:
  assumes "length src \<le> length dst"
  shows "\<exists>t. tda_span_copy_if dst src pred = Some (t, length (filter pred src)) \<and> length t = length dst
    \<and> take (length (filter pred src)) t = filter pred src \<and> drop (length (filter pred src)) t = drop (length (filter pred src)) dst"
proof -
  let ?f = "\<lambda>i (dst, wr). do { cur \<leftarrow> span_get src i;
       if pred cur then do { d \<leftarrow> span_set dst wr cur; Some (d, wr + 1) } else Some (dst, wr) }"
  let ?Q = "\<lambda>i st. \<exists>t. st = (t, length (filter pred (take i src))) \<and> length t = length dst
    \<and> take (length (filter pred (take i src))) t = filter pred (take i src)
    \<and> drop (length (filter pred (take i src))) t = drop (length (filter pred (take i src))) dst"
  have "\<exists>st. for_loop [0..<length src] ?f (dst, 0) = Some st \<and> ?Q (length src) st"
  proof (rule for_loop_inv [where Q = ?Q])
    show "?Q 0 (dst, 0)" by simp
    fix i st assume i: "i < length src" and "?Q i st"
    define n where "n = length (filter pred (take i src))"
    obtain t where t: "st = (t, n)" "length t = length dst" "take n t = filter pred (take i src)" "drop n t = drop n dst"
      using \<open>?Q i st\<close> unfolding n_def by blast
    have ni: "n < length t" using length_filter_le [of pred "take i src"] i assms t(2) by (simp add: n_def)
    have tk: "take (Suc i) src = take i src @ [src ! i]" using i by (simp add: take_Suc_conv_app_nth)
    have dr: "drop (Suc n) t = drop (Suc n) dst" using t(4) by (metis drop_Suc tl_drop)
    show "\<exists>st'. ?f i st = Some st' \<and> ?Q (Suc i) st'"
    proof (cases "pred (src ! i)")
      case True
      then show ?thesis
        using i ni t(1-3) dr take_update_last [OF ni, of "src ! i"] unfolding tk
        by (simp add: n_def [symmetric] drop_update_cancel)
    next
      case False
      then show ?thesis using i t unfolding tk by (simp add: n_def [symmetric])
    qed
  qed
  then show ?thesis using assms by (auto simp: tda_span_copy_if_def)
qed

lemma copy_overlapping_spec:
  "dst + n \<le> length s \<Longrightarrow> src + n \<le> length s \<Longrightarrow>
     tda_span_copy_overlapping s dst src n = Some (blit dst (slice src n s) s)"
  by (auto simp: tda_span_copy_overlapping_def blit_slice_id)

end
