(* ===== verification/Tda_Algo_Properties.thy ===== *)
theory Tda_Algo_Properties
  imports Tda_Search Tda_Heap Tda_Permute Tda_Merge Tda_Default
begin

text \<open>
  What the algorithms of \<open>src/algo\<close> promise, each with an instance on a small span. They
  hold for every comparator that is a total preorder; the ones of \<open>cmp.c\<close> are.
\<close>

abbreviation cmp_u8 :: "8 word cmp_fn" where
  "cmp_u8 \<equiv> cmp_uint"

lemmas u8 = uint.comparator_axioms [where 'w = 8]

text \<open>Over any memory, a swap of two elements of a span exchanges exactly those two in the
  sequence the span shows: the byte loop of \<open>tda_bytes_swap\<close> refines the swap on lists.\<close>

lemma span_swap_elems_refines:
  assumes "span_ok w s" "i < sp_len s" "j < sp_len s"
  shows "\<exists>w'. tda_span_swap_elems w s i j = Some w' \<and> span_ok w' s
    \<and> span_elems w' s = (span_elems w s)[i := span_elems w s ! j, j := span_elems w s ! i]"
  using span_swap_refines [OF assms] by (simp add: swap_list_def)

text \<open>C32: \<open>make_heap\<close> followed by \<open>sort_heap\<close> sorts any span: the result is in order and has
  the elements of the input.\<close>

theorem heap_sort_sorts:
  assumes "comparator cmp"
  shows "\<exists>t u. tda_span_make_heap s cmp = Some t \<and> is_heap_list cmp t \<and> tda_span_sort_heap t cmp = Some u
    \<and> mset u = mset s \<and> sorted_by cmp u"
proof -
  obtain t where t: "tda_span_make_heap s cmp = Some t" "mset t = mset s" "is_heap_list cmp t"
    using comparator.make_heap_heap [OF assms] by blast
  obtain u where "tda_span_sort_heap t cmp = Some u" "mset u = mset t" "sorted_by cmp u"
    using comparator.sort_heap_spec [OF assms t(3)] by blast
  with t show ?thesis by auto
qed

theorem heap_sort_sorts_witness:
  "\<exists>t u. tda_span_make_heap [3, 1, 2] cmp_u8 = Some t \<and> tda_span_sort_heap t cmp_u8 = Some u \<and> sorted_by cmp_u8 u"
  using heap_sort_sorts [OF u8, of "[3, 1, 2]"] by blast

text \<open>\<open>push_heap\<close> after an append and \<open>pop_heap\<close> keep the heap, and \<open>pop_heap\<close> puts a
  greatest element last.\<close>

lemma heap_push_pop:
  assumes C: "comparator cmp" and h: "is_heap_list cmp s"
  shows "\<exists>t u. tda_span_push_heap (s @ [x]) cmp = Some t \<and> mset t = mset (s @ [x]) \<and> is_heap_list cmp t
    \<and> tda_span_pop_heap t cmp = Some u \<and> mset u = mset t \<and> heap_from cmp 0 (length s) u
    \<and> (\<forall>y\<in>set t. cmp y (last u) \<le> 0)"
proof -
  obtain t where t: "tda_span_push_heap (s @ [x]) cmp = Some t" "mset t = mset (s @ [x])" "is_heap_list cmp t"
    using comparator.push_heap_spec [OF C, of "s @ [x]"] h by auto
  then have l: "length t = length s + 1" by (metis size_mset length_append_singleton Suc_eq_plus1)
  then have "t \<noteq> []" by auto
  from comparator.pop_heap_spec [OF C this t(3)] l obtain u where u: "tda_span_pop_heap t cmp = Some u" "mset u = mset t"
    "heap_from cmp 0 (length s) u" "\<forall>y\<in>set u. cmp y (last u) \<le> 0" by auto
  have "set u = set t" by (rule mset_eq_setD [OF u(2)])
  with t u show ?thesis by auto
qed

text \<open>\<open>equal_range\<close> cuts a sorted span into the elements below, equal to and above the key.\<close>

theorem equal_range_cuts:
  assumes "comparator cmp" "sorted_by cmp s"
  shows "\<exists>lo hi. tda_span_equal_range s key cmp = Some (lo, hi) \<and> lo \<le> hi \<and> hi \<le> length s
    \<and> take lo s = filter (\<lambda>x. cmp x key < 0) s \<and> slice lo (hi - lo) s = filter (\<lambda>x. cmp x key = 0) s
    \<and> drop hi s = filter (\<lambda>x. 0 < cmp x key) s"
  by (rule comparator.equal_range_spec [OF assms])

text \<open>\<open>binary_search\<close> on a sorted span finds the first element equal to the key, or reports
  that there is none.\<close>

theorem binary_search_finds_first:
  assumes "comparator cmp" "sorted_by cmp s"
  shows "\<exists>r. tda_span_binary_search s key cmp = Some r
    \<and> (case r of None \<Rightarrow> \<forall>x\<in>set s. cmp x key \<noteq> 0
       | Some i \<Rightarrow> i < length s \<and> cmp (s ! i) key = 0 \<and> (\<forall>j<i. cmp (s ! j) key \<noteq> 0))"
proof -
  obtain r where r: "tda_span_binary_search s key cmp = Some r" "first_at (\<lambda>i. cmp (s ! i) key = 0) (length s) r"
    using comparator.binary_search_spec [OF assms] by blast
  then show ?thesis
    by (cases r) (auto simp: first_at_def in_set_conv_nth)
qed

text \<open>\<open>find_sub\<close> and \<open>find_sub_last\<close> give the first and the last place where the whole
  pattern occurs, and agree on whether there is one.\<close>

theorem find_sub_first_and_last:
  "\<exists>r q. tda_span_find_sub s sub eq = Some r \<and> tda_span_find_sub_last s sub eq = Some q
    \<and> (r = None \<longleftrightarrow> q = None) \<and> (r = None \<longrightarrow> (\<forall>i. \<not> occurs_at s sub eq i))
    \<and> (\<forall>i j k. r = Some i \<longrightarrow> q = Some j \<longrightarrow> occurs_at s sub eq i \<and> occurs_at s sub eq j
         \<and> (occurs_at s sub eq k \<longrightarrow> i \<le> k \<and> k \<le> j))"
proof -
  obtain r where r: "tda_span_find_sub s sub eq = Some r" "first_at (occurs_at s sub eq) (length s + 1) r"
    using find_sub_first by blast
  obtain q where q: "tda_span_find_sub_last s sub eq = Some q" "case q of None \<Rightarrow> \<forall>i. \<not> occurs_at s sub eq i
       | Some i \<Rightarrow> occurs_at s sub eq i \<and> (\<forall>j. occurs_at s sub eq j \<longrightarrow> j \<le> i)"
    using find_sub_last_last by blast
  have bound: "occurs_at s sub eq k \<Longrightarrow> k < length s + 1" for k by (simp add: occurs_at_def)
  have f: "case r of None \<Rightarrow> \<forall>i. \<not> occurs_at s sub eq i
       | Some i \<Rightarrow> occurs_at s sub eq i \<and> (\<forall>j. occurs_at s sub eq j \<longrightarrow> i \<le> j)"
    using r(2) bound by (cases r) (auto simp: first_at_def not_less [symmetric])
  show ?thesis
    using r(1) q f by (cases r; cases q) auto
qed

text \<open>\<open>rotate\<close>, three reversals in place, brings the element at \<open>mid\<close> to the front and
  keeps the order of both parts; a \<open>mid\<close> past the end aborts.\<close>

lemma rotate_rotates:
  "tda_span_rotate s mid = (if mid \<le> length s then Some (drop mid s @ take mid s) else None)"
  by (cases "mid \<le> length s") (simp_all add: rotate_spec rotate_aborts)

text \<open>\<open>partition_stable\<close> moves the accepted elements to the front and keeps the order of both
  groups, gives its buffer back, and reports a refused buffer with the span untouched.\<close>

lemma partition_stable_keeps_order:
  assumes "allocator al I owned" "I w" "length s * es \<le> SIZE_MAX"
  shows "\<exists>st w' t b. tda_span_partition_stable junk w es s pred al = Some (st, w', t, b) \<and> I w' \<and> heap w' = heap w
    \<and> (if st = TDA_STATUS_OK then t = filter pred s @ filter (\<lambda>x. \<not> pred x) s \<and> b = length (filter pred s)
       else t = s)"
  by (rule allocator.partition_stable_spec [OF assms])

text \<open>\<open>next_permutation\<close> goes to a lexicographically greater arrangement of the same elements,
  or reports that the span is at the last one, in descending order, and starts over.\<close>

lemma next_permutation_advances:
  assumes "comparator cmp"
  shows "\<exists>b t. tda_span_next_permutation s cmp = Some (b, t) \<and> mset t = mset s \<and> (b \<longrightarrow> lex_less cmp s t)
    \<and> (\<not> b \<longrightarrow> t = rev s \<and> (\<forall>i. i + 1 < length s \<longrightarrow> cmp (s ! (i + 1)) (s ! i) \<le> 0))"
  by (rule comparator.next_permutation_spec [OF assms])

text \<open>C10: the merge into a second span, the merge in place by rotations and the merge in place
  through a buffer of half the size agree, on success and on a refused buffer, and are the
  stable merge: sorted, with equal elements in the order they had. The heap is as before.\<close>

theorem merges_agree:
  assumes A: "allocator al I owned" and C: "comparator cmp" and w: "I w"
    and mid: "mid \<le> length s" "sorted_by cmp (take mid s)" "sorted_by cmp (drop mid s)"
    and fit: "length s * es \<le> SIZE_MAX" and dst: "length dst = length s"
  shows "\<exists>t w'. tda_span_merge dst (take mid s) (drop mid s) cmp = Some t
    \<and> tda_span_inplace_merge w es s mid cmp (Some al) = Some (w', t) \<and> I w' \<and> heap w' = heap w
    \<and> tda_span_inplace_merge w es s mid cmp None = Some (w, t)
    \<and> mset t = mset s \<and> stable_of cmp s t"
proof -
  let ?t = "merge_by cmp (take mid s) (drop mid s)"
  have "mset ?t = mset s" by (simp flip: mset_append)
  moreover have "stable_of cmp s ?t" using comparator.merge_by_stable [OF C mid(2,3)] by simp
  moreover have "tda_span_merge dst (take mid s) (drop mid s) cmp = Some ?t" using mid(1) dst by (intro merge_spec) simp
  ultimately show ?thesis
    using inplace_merge_spec [OF A C w mid fit] inplace_merge_null [OF C mid] by blast
qed

theorem merges_agree_witness:
  "\<exists>t. tda_span_merge [0, 0, 0, 0] [2, 9] [1, 2] cmp_u8 = Some t \<and> mset t = mset [2, 9, 1, 2]"
proof -
  have "sorted_by cmp_u8 (take 2 [2, 9, 1, 2])" "sorted_by cmp_u8 (drop 2 [2, 9, 1, 2])"
    by (simp_all add: sorted_by_def cmp_uint_def c_bool_def)
  from merges_agree [OF bump.allocator_axioms u8 bump_ok_empty _ this, of 1 "[0, 0, 0, 0]"]
  show ?thesis by (auto simp: SIZE_MAX_num)
qed

end
