(* ===== verification/Tda_Sort.thy ===== *)
theory Tda_Sort
  imports Tda_Heap Tda_Merge
begin

text \<open>
  Sorting (\<open>src/algo/sort.c\<close>) on the element view: insertion sort with its two ways of
  moving an element, the introspective three-way quicksort, the bottom-up stable merge sort,
  \<open>partial_sort\<close> and \<open>nth_elem\<close>. \<open>es\<close> is the element size, which decides how insertion sort
  moves and how large the buffer of the stable sort is. Quicksort and \<open>nth_elem\<close> end because
  every round spends one unit of depth; the loops of the stable sort, whose width doubles in
  \<open>size_t\<close>, are partial functions, with a proof that they return.
\<close>

section \<open>Insertion sort\<close>

definition INSERTION_THRESHOLD :: nat where
  "INSERTION_THRESHOLD = 16"

definition INSERTION_HELD_MAX :: nat where
  "INSERTION_HELD_MAX = 256"

fun slot_loop :: "'a list \<Rightarrow> 'a \<Rightarrow> 'a cmp_fn \<Rightarrow> nat \<Rightarrow> nat option" where
  "slot_loop s val cmp 0 = Some 0"
| "slot_loop s val cmp (Suc slot) = do {
     x \<leftarrow> span_get s slot;
     if cmp x val > 0 then slot_loop s val cmp slot else Some (Suc slot)
   }"

definition insertion_slot :: "'a list \<Rightarrow> nat \<Rightarrow> 'a cmp_fn \<Rightarrow> nat option" where
  "insertion_slot s idx cmp = do {
     val \<leftarrow> span_get s idx;
     slot_loop s val cmp idx
   }"

definition tda_span_insertion_sort :: "nat \<Rightarrow> 'a list \<Rightarrow> 'a cmp_fn \<Rightarrow> 'a list option" where
  "tda_span_insertion_sort es s cmp =
     (if es > INSERTION_HELD_MAX then
        for_loop [1..<length s] (\<lambda>i s. do {
          j \<leftarrow> insertion_slot s i cmp;
          for_loop (rev [j + 1..<i + 1]) (\<lambda>k s. span_swap s (k - 1) k) s
        }) s
      else
        for_loop [1..<length s] (\<lambda>i s. do {
          j \<leftarrow> insertion_slot s i cmp;
          if j = i then Some s
          else do {
            held \<leftarrow> span_get s i;
            run \<leftarrow> span_sub s j (i - j);
            dst \<leftarrow> span_sub s (j + 1) (i - j);
            span_set (blit (j + 1) run s) j held
          }
        }) s)"

section \<open>Pivots and the three-way split\<close>

definition median3 :: "'a list \<Rightarrow> nat \<Rightarrow> nat \<Rightarrow> nat \<Rightarrow> 'a cmp_fn \<Rightarrow> nat option" where
  "median3 s a b c cmp = do {
     x \<leftarrow> span_get s a;
     y \<leftarrow> span_get s b;
     z \<leftarrow> span_get s c;
     let ab = cmp x y;
     let ac = cmp x z;
     let bc = cmp y z;
     Some (if ab \<le> 0 \<and> ac \<ge> 0 \<or> ab \<ge> 0 \<and> ac \<le> 0 then a
           else if ab \<le> 0 \<and> bc \<le> 0 \<or> ab \<ge> 0 \<and> bc \<ge> 0 then b
           else c)
   }"

definition ninther :: "'a list \<Rightarrow> nat \<Rightarrow> nat \<Rightarrow> 'a cmp_fn \<Rightarrow> nat option" where
  "ninther s left right cmp = do {
     let len = right - left + 1;
     let mid = left + len div 2;
     let step = len div 8;
     lo \<leftarrow> median3 s left (left + step) (left + 2 * step) cmp;
     md \<leftarrow> median3 s (mid - step) mid (mid + step) cmp;
     hi \<leftarrow> median3 s (right - 2 * step) (right - step) right cmp;
     median3 s lo md hi cmp
   }"

function split_loop :: "'a list \<Rightarrow> nat \<Rightarrow> nat \<Rightarrow> nat \<Rightarrow> 'a cmp_fn \<Rightarrow> ('a list \<times> nat \<times> nat) option" where
  "split_loop s lo i hi cmp =
     (if i \<le> hi then do {
        x \<leftarrow> span_get s i;
        v \<leftarrow> span_get s lo;
        let c = cmp x v;
        if c < 0 then do { s1 \<leftarrow> span_swap s i lo; split_loop s1 (lo + 1) (i + 1) hi cmp }
        else if c > 0 then (if hi = 0 then None else do { s1 \<leftarrow> span_swap s i hi; split_loop s1 lo i (hi - 1) cmp })
        else split_loop s lo (i + 1) hi cmp
      } else Some (s, lo, hi))"
  by pat_completeness auto
termination by (relation "measure (\<lambda>(s, lo, i, hi, cmp). Suc hi - i)") auto

definition partition3 :: "'a list \<Rightarrow> nat \<Rightarrow> nat \<Rightarrow> nat \<Rightarrow> 'a cmp_fn \<Rightarrow> ('a list \<times> nat \<times> nat) option" where
  "partition3 s left right pivot_idx cmp = do {
     c_assert (left \<le> pivot_idx \<and> pivot_idx \<le> right);
     s1 \<leftarrow> span_swap s left pivot_idx;
     split_loop s1 left (left + 1) right cmp
   }"

section \<open>Quicksort\<close>

fun stdc_bit_width :: "nat \<Rightarrow> nat" where
  "stdc_bit_width n = (if n = 0 then 0 else 1 + stdc_bit_width (n div 2))"

definition depth_limit :: "nat \<Rightarrow> nat option" where
  "depth_limit len = do { c_assert (len > 1); Some (2 * (stdc_bit_width len - 1)) }"

function quicksort :: "nat \<Rightarrow> 'a list \<Rightarrow> nat \<Rightarrow> nat \<Rightarrow> nat \<Rightarrow> 'a cmp_fn \<Rightarrow> 'a list option" where
  "quicksort es s left right depth cmp =
     (if left < right then
        if right - left + 1 \<le> INSERTION_THRESHOLD then
          on_sub left (right - left + 1) (\<lambda>t. tda_span_insertion_sort es t cmp) s
        else if depth = 0 then
          on_sub left (right - left + 1) (\<lambda>t. do { u \<leftarrow> tda_span_make_heap t cmp; tda_span_sort_heap u cmp }) s
        else do {
          pivot_idx \<leftarrow> ninther s left right cmp;
          (s1, lt, gt) \<leftarrow> partition3 s left right pivot_idx cmp;
          if lt - left < right - gt then do {
            s2 \<leftarrow> (if lt > left then quicksort es s1 left (lt - 1) (depth - 1) cmp else Some s1);
            quicksort es s2 (gt + 1) right (depth - 1) cmp
          }
          else do {
            s2 \<leftarrow> (if gt < right then quicksort es s1 (gt + 1) right (depth - 1) cmp else Some s1);
            if lt = left then Some s2 else quicksort es s2 left (lt - 1) (depth - 1) cmp
          }
        }
      else Some s)"
  by pat_completeness auto
termination by (relation "measure (\<lambda>(es, s, left, right, depth, cmp). depth)") auto

declare quicksort.simps [simp del] split_loop.simps [simp del] stdc_bit_width.simps [simp del]

definition tda_span_sort :: "nat \<Rightarrow> 'a list \<Rightarrow> 'a cmp_fn \<Rightarrow> 'a list option" where
  "tda_span_sort es s cmp =
     (if length s < 2 then Some s
      else do { depth \<leftarrow> depth_limit (length s); quicksort es s 0 (length s - 1) depth cmp })"

section \<open>Selection\<close>

function nth_loop :: "nat \<Rightarrow> 'a list \<Rightarrow> nat \<Rightarrow> nat \<Rightarrow> nat \<Rightarrow> nat \<Rightarrow> 'a cmp_fn \<Rightarrow> 'a list option" where
  "nth_loop es s pos left right depth cmp =
     (if left < right then
        if depth = 0 then on_sub left (right - left + 1) (\<lambda>t. tda_span_sort es t cmp) s
        else do {
          pivot_idx \<leftarrow> ninther s left right cmp;
          (s1, lt, gt) \<leftarrow> partition3 s left right pivot_idx cmp;
          if pos < lt then nth_loop es s1 pos left (lt - 1) (depth - 1) cmp
          else if pos > gt then nth_loop es s1 pos (gt + 1) right (depth - 1) cmp
          else Some s1
        }
      else Some s)"
  by pat_completeness auto
termination by (relation "measure (\<lambda>(es, s, pos, left, right, depth, cmp). depth)") auto

declare nth_loop.simps [simp del]

definition tda_span_nth_elem :: "nat \<Rightarrow> 'a list \<Rightarrow> nat \<Rightarrow> 'a cmp_fn \<Rightarrow> 'a list option" where
  "tda_span_nth_elem es s pos cmp = do {
     c_assert (pos < length s);
     if length s < 2 then Some s
     else do { depth \<leftarrow> depth_limit (length s); nth_loop es s pos 0 (length s - 1) depth cmp }
   }"

definition tda_span_partial_sort :: "nat \<Rightarrow> 'a list \<Rightarrow> nat \<Rightarrow> 'a cmp_fn \<Rightarrow> 'a list option" where
  "tda_span_partial_sort es s cnt cmp = do {
     c_assert (cnt \<le> length s);
     if cnt = 0 \<or> length s < 2 then Some s
     else if cnt \<ge> length s then tda_span_sort es s cmp
     else do {
       s1 \<leftarrow> tda_span_nth_elem es s cnt cmp;
       on_sub 0 cnt (\<lambda>t. tda_span_sort es t cmp) s1
     }
   }"

section \<open>Stable sort\<close>

text \<open>The state of the two loops: the span read from, the one written to.\<close>

partial_function (option) merge_pass ::
  "'a cmp_fn \<Rightarrow> nat \<Rightarrow> nat \<Rightarrow> 'a list \<Rightarrow> 'a list \<Rightarrow> 'a list option" where
  "merge_pass cmp width i src dst =
     (if i < length src then do {
        let mid = (if size_add i width < length src then size_add i width else length src);
        let fin = (if size_add i (size_mul 2 width) < length src then size_add i (size_mul 2 width) else length src);
        a \<leftarrow> span_sub src i (mid - i);
        b \<leftarrow> span_sub src mid (fin - mid);
        dst1 \<leftarrow> on_sub i (fin - i) (\<lambda>d. tda_span_merge d a b cmp) dst;
        merge_pass cmp width (size_add i (size_mul 2 width)) src dst1
      } else Some dst)"

text \<open>\<open>in_buf\<close>: whether the span read from is the buffer, after an odd number of swaps.\<close>

partial_function (option) width_loop ::
  "'a cmp_fn \<Rightarrow> nat \<Rightarrow> 'a list \<Rightarrow> 'a list \<Rightarrow> bool \<Rightarrow> ('a list \<times> 'a list \<times> bool) option" where
  "width_loop cmp width src dst in_buf =
     (if width < length src then do {
        dst1 \<leftarrow> merge_pass cmp width 0 src dst;
        width_loop cmp (size_mul width 2) dst1 src (\<not> in_buf)
      } else Some (src, dst, in_buf))"

definition tda_span_sort_stable ::
  "(nat \<Rightarrow> 'a) \<Rightarrow> 's world \<Rightarrow> nat \<Rightarrow> 'a list \<Rightarrow> 'a cmp_fn \<Rightarrow> 's al \<Rightarrow> (tda_Status \<times> 's world \<times> 'a list) option" where
  "tda_span_sort_stable junk w es s cmp al =
     (if length s < 2 then Some (TDA_STATUS_OK, w, s)
      else do {
        let bytes = size_mul (length s) es;
        (buf, w1) \<leftarrow> tda_alloc al w bytes;
        (case buf of
           None \<Rightarrow> Some (TDA_STATUS_ERR_NO_MEM, w1, s)
         | Some p \<Rightarrow> do {
             (src, dst, in_buf) \<leftarrow> width_loop cmp 1 s (map junk [0..<length s]) False;
             s1 \<leftarrow> (if in_buf then tda_span_copy False dst src else Some src);
             w2 \<leftarrow> tda_dealloc al w1 (Some p) bytes;
             Some (TDA_STATUS_OK, w2, s1)
           })
      })"

section \<open>Sortedness\<close>

definition tda_span_is_sorted_until :: "'a list \<Rightarrow> 'a cmp_fn \<Rightarrow> nat option" where
  "tda_span_is_sorted_until s cmp = do {
     r \<leftarrow> for_find [1..<length s] (\<lambda>i. do {
       prev \<leftarrow> span_get s (i - 1);
       cur \<leftarrow> span_get s i;
       Some (cmp prev cur > 0) });
     Some (case r of Some i \<Rightarrow> i | None \<Rightarrow> length s)
   }"

definition tda_span_is_sorted :: "'a list \<Rightarrow> 'a cmp_fn \<Rightarrow> bool option" where
  "tda_span_is_sorted s cmp = do { n \<leftarrow> tda_span_is_sorted_until s cmp; Some (n = length s) }"

section \<open>Ranges\<close>

text \<open>\<open>rperm l n s t\<close>: \<open>t\<close> is \<open>s\<close> with the run of \<open>n\<close> elements from \<open>l\<close> rearranged.\<close>

definition rperm :: "nat \<Rightarrow> nat \<Rightarrow> 'a list \<Rightarrow> 'a list \<Rightarrow> bool" where
  "rperm l n s t \<longleftrightarrow> length t = length s \<and> take l t = take l s \<and> drop (l + n) t = drop (l + n) s \<and> mset t = mset s"

lemma rperm_refl [simp]: "rperm l n s s"
  by (simp add: rperm_def)

lemma rperm_trans: "rperm l n s t \<Longrightarrow> rperm l n t u \<Longrightarrow> rperm l n s u"
  by (simp add: rperm_def)

lemma rperm_length: "rperm l n s t \<Longrightarrow> length t = length s"
  by (simp add: rperm_def)

lemma drop_more: "drop a t = drop a s \<Longrightarrow> a \<le> b \<Longrightarrow> drop b t = drop b s"
  by (metis drop_drop le_add_diff_inverse2)

lemma take_less: "take a t = take a s \<Longrightarrow> b \<le> a \<Longrightarrow> take b t = take b s"
  by (metis min.absorb1 take_take)

lemma rperm_mono: "rperm l n s t \<Longrightarrow> k \<le> l \<Longrightarrow> l + n \<le> k + m \<Longrightarrow> rperm k m s t"
  unfolding rperm_def using drop_more take_less by blast

lemma rperm_slice_out:
  assumes "rperm l n s t" "k + m \<le> l \<or> l + n \<le> k"
  shows "slice k m t = slice k m s"
  using assms(2)
proof
  assume "k + m \<le> l"
  then have "take (k + m) t = take (k + m) s" using assms(1) take_less unfolding rperm_def by blast
  then show ?thesis by (metis slice_def take_drop add.commute)
next
  assume "l + n \<le> k"
  then have "drop k t = drop k s" using assms(1) drop_more unfolding rperm_def by blast
  then show ?thesis by (simp add: slice_def)
qed

lemma slice_split: "l + n \<le> length s \<Longrightarrow> s = take l s @ slice l n s @ drop (l + n) s"
  unfolding slice_def by (metis add.commute append_take_drop_id drop_drop)

lemma rperm_mset:
  assumes "rperm l n s t" "l + n \<le> length s"
  shows "mset (slice l n t) = mset (slice l n s)"
proof -
  have "mset t = mset (take l t) + mset (slice l n t) + mset (drop (l + n) t)"
    using slice_split [of l n t] assms by (metis mset_append add.assoc rperm_length)
  moreover have "mset s = mset (take l s) + mset (slice l n s) + mset (drop (l + n) s)"
    using slice_split [OF assms(2)] by (metis mset_append add.assoc)
  moreover have "take l t = take l s" "drop (l + n) t = drop (l + n) s" "mset t = mset s"
    using assms(1) by (simp_all add: rperm_def)
  ultimately show ?thesis by (metis add_left_cancel add_right_cancel)
qed

lemma rperm_set: "rperm l n s t \<Longrightarrow> l + n \<le> length s \<Longrightarrow> set (slice l n t) = set (slice l n s)"
  using rperm_mset [of l n s t] by (metis set_mset_mset)

lemma rperm_swap:
  assumes "l \<le> i" "i < l + n" "l \<le> j" "j < l + n" "l + n \<le> length s"
  shows "rperm l n s (swap_list i j s)"
proof -
  have "take l (swap_list i j s) = take l s" "drop (l + n) (swap_list i j s) = drop (l + n) s"
    using assms by (simp_all add: swap_list_def)
  then show ?thesis using assms by (simp add: rperm_def)
qed

lemma rperm_on_sub:
  assumes fit: "l + n \<le> length s" and f: "f (slice l n s) = Some u" "mset u = mset (slice l n s)"
  shows "on_sub l n f s = Some (blit l u s)" and "rperm l n s (blit l u s)" and "slice l n (blit l u s) = u"
proof -
  have len: "length u = n" using f(2) fit length_slice by (metis size_mset)
  show "on_sub l n f s = Some (blit l u s)" using fit f by (simp add: on_sub_def)
  have sp: "blit l u s = take l s @ u @ drop (l + n) s" by (simp add: blit_def len)
  have "mset s = mset (take l s) + mset (slice l n s) + mset (drop (l + n) s)"
    using slice_split [OF fit] by (metis mset_append add.assoc)
  then show "rperm l n s (blit l u s)" using fit len f(2) unfolding rperm_def sp by simp
  show "slice l n (blit l u s) = u" using slice_blit_same [of l u s] fit len by simp
qed

lemma slice_all_nth:
  assumes "l + n \<le> length s"
  shows "(\<forall>x\<in>set (slice l n s). P x) \<longleftrightarrow> (\<forall>k. l \<le> k \<longrightarrow> k < l + n \<longrightarrow> P (s ! k))"
proof -
  have "(\<forall>x\<in>set (slice l n s). P x) \<longleftrightarrow> (\<forall>k<n. P (s ! (l + k)))"
    using assms by (simp add: all_set_conv_all_nth slice_simps)
  also have "\<dots> \<longleftrightarrow> (\<forall>k. l \<le> k \<longrightarrow> k < l + n \<longrightarrow> P (s ! k))"
    by (metis add_less_cancel_left le_add1 le_Suc_ex)
  finally show ?thesis .
qed

lemma slice_append: "slice l (a + b) s = slice l a s @ slice (l + a) b s"
  by (simp add: slice_def take_add add.commute)

section \<open>The split\<close>

text \<open>The three runs of \<open>[left, right]\<close> around a pivot value.\<close>

definition three_runs :: "'a cmp_fn \<Rightarrow> 'a \<Rightarrow> nat \<Rightarrow> nat \<Rightarrow> nat \<Rightarrow> nat \<Rightarrow> nat \<Rightarrow> 'a list \<Rightarrow> bool" where
  "three_runs cmp v left lo i hi right s \<longleftrightarrow>
     (\<forall>k. left \<le> k \<longrightarrow> k < lo \<longrightarrow> cmp (s ! k) v < 0) \<and>
     (\<forall>k. lo \<le> k \<longrightarrow> k < i \<longrightarrow> cmp (s ! k) v = 0) \<and>
     (\<forall>k. hi < k \<longrightarrow> k \<le> right \<longrightarrow> 0 < cmp (s ! k) v)"

context comparator
begin

lemma cmp_eq_less: "cmp a v = 0 \<Longrightarrow> cmp x a < 0 \<longleftrightarrow> cmp x v < 0"
  using cmp_less_trans [of x a v] cmp_less_trans [of x v a] cmp_eq_sym [of a v] by auto

lemma cmp_eq_greater: "cmp a v = 0 \<Longrightarrow> 0 < cmp x a \<longleftrightarrow> 0 < cmp x v"
  using cmp_flip [of x a] cmp_flip [of x v] cmp_le_less_trans [of a v x] cmp_le_less_trans [of v a x] cmp_eq_sym [of a v]
  by auto

lemma split_loop_spec:
  assumes "left \<le> lo" "lo < i" "i \<le> Suc hi" "hi \<le> right" "right < length s" "three_runs cmp v left lo i hi right s"
  shows "\<exists>t lt gt. split_loop s lo i hi cmp = Some (t, lt, gt) \<and> rperm left (Suc right - left) s t
    \<and> left \<le> lt \<and> lt \<le> gt \<and> gt \<le> right \<and> three_runs cmp v left lt (Suc gt) gt right t"
  using assms
proof (induction "Suc hi - i" arbitrary: s lo i hi rule: less_induct)
  case less
  note p = less.prems
  let ?goal = "\<lambda>s r. \<exists>t lt gt. r = Some (t, lt, gt) \<and> rperm left (Suc right - left) s t
    \<and> left \<le> lt \<and> lt \<le> gt \<and> gt \<le> right \<and> three_runs cmp v left lt (Suc gt) gt right t"
  have r: "cmp (s ! lo) v = 0" using p(1,2,6) by (simp add: three_runs_def)
  have lift: "?goal s r" if "?goal u r" "rperm left (Suc right - left) s u" for u r
    using that rperm_trans by blast
  show ?case
  proof (cases "i \<le> hi")
    case False
    then have "i = Suc hi" using p(3) by simp
    then have "split_loop s lo i hi cmp = Some (s, lo, hi)" using False by (subst split_loop.simps) simp
    then show ?thesis using p \<open>i = Suc hi\<close> by simp
  next
    case True
    then have in_s: "i < length s" "lo < length s" "hi < length s" using p by auto
    consider "cmp (s ! i) (s ! lo) < 0" | "0 < cmp (s ! i) (s ! lo)" | "cmp (s ! i) (s ! lo) = 0" by linarith
    then show ?thesis
    proof cases
      case 1
      let ?s = "swap_list i lo s"
      have "three_runs cmp v left (lo + 1) (i + 1) hi right ?s"
        using p(6) 1 r in_s p(1,2) True p(4,5) cmp_eq_less [OF r] unfolding three_runs_def
        by (auto simp: nth_swap_list)
      then have "?goal ?s (split_loop ?s (lo + 1) (i + 1) hi cmp)"
        using p(1-5) True by (intro less.hyps) auto
      moreover have "rperm left (Suc right - left) s ?s" using p True by (intro rperm_swap) auto
      moreover have "split_loop s lo i hi cmp = split_loop ?s (lo + 1) (i + 1) hi cmp"
        using True in_s 1 by (simp add: split_loop.simps [of s lo i hi])
      ultimately show ?thesis using lift by simp
    next
      case 2
      let ?s = "swap_list i hi s"
      have h: "0 < hi" using p(2) True by simp
      have "three_runs cmp v left lo i (hi - 1) right ?s"
        using p(6) 2 r in_s p(1,2) True p(4,5) cmp_eq_greater [OF r] h unfolding three_runs_def
        by (auto simp: nth_swap_list)
      then have "?goal ?s (split_loop ?s lo i (hi - 1) cmp)"
        using p(1-5) True h by (intro less.hyps) auto
      moreover have "rperm left (Suc right - left) s ?s" using p True by (intro rperm_swap) auto
      moreover have "split_loop s lo i hi cmp = split_loop ?s lo i (hi - 1) cmp"
        using True in_s 2 h by (simp add: split_loop.simps [of s lo i hi])
      ultimately show ?thesis using lift by simp
    next
      case 3
      have "cmp (s ! i) v = 0" using 3 cmp_eq_less [OF r, of "s ! i"] cmp_eq_greater [OF r, of "s ! i"] by linarith
      then have "three_runs cmp v left lo (i + 1) hi right s"
        using p(6) unfolding three_runs_def by (auto simp: less_Suc_eq)
      then have "?goal s (split_loop s lo (i + 1) hi cmp)"
        using p(1-5) True by (intro less.hyps) auto
      moreover have "split_loop s lo i hi cmp = split_loop s lo (i + 1) hi cmp"
        using True in_s 3 by (simp add: split_loop.simps [of s lo i hi])
      ultimately show ?thesis by simp
    qed
  qed
qed

lemma median3_ok:
  assumes "a < length s" "b < length s" "c < length s"
  shows "\<exists>m. median3 s a b c cmp = Some m \<and> m \<in> {a, b, c}"
  using assms by (simp add: median3_def Let_def)

lemma ninther_ok:
  assumes "left < right" "right < length s"
  shows "\<exists>m. ninther s left right cmp = Some m \<and> left \<le> m \<and> m \<le> right"
proof -
  define n step mid where "n = right - left + 1" and "step = n div 8" and "mid = left + n div 2"
  have n: "2 \<le> n" "right = left + n - 1" using assms(1) by (auto simp: n_def)
  have st: "2 * step \<le> n - 1" "step \<le> n div 2" "n div 2 + step \<le> n - 1" using n(1) by (auto simp: step_def)
  have b: "left + 2 * step \<le> right" "left \<le> mid - step" "mid + step \<le> right" "left \<le> right - 2 * step"
    using st n unfolding mid_def by linarith+
  obtain lo where lo: "median3 s left (left + step) (left + 2 * step) cmp = Some lo" "lo \<in> {left, left + step, left + 2 * step}"
    using median3_ok [of left s "left + step" "left + 2 * step"] b assms by auto
  have "mid - step < length s" "mid < length s" "mid + step < length s" using b(3) assms(2) by linarith+
  from median3_ok [OF this] obtain md where md: "median3 s (mid - step) mid (mid + step) cmp = Some md" "md \<in> {mid - step, mid, mid + step}"
    by blast
  have "right - 2 * step < length s" "right - step < length s" "right < length s" using assms(2) by linarith+
  from median3_ok [OF this] obtain hi where hi: "median3 s (right - 2 * step) (right - step) right cmp = Some hi" "hi \<in> {right - 2 * step, right - step, right}"
    by blast
  have in_r: "left \<le> lo" "lo \<le> right" "left \<le> md" "md \<le> right" "left \<le> hi" "hi \<le> right"
    using lo(2) md(2) hi(2) b by auto
  obtain m where m: "median3 s lo md hi cmp = Some m" "m \<in> {lo, md, hi}"
    using median3_ok [of lo s md hi] in_r assms(2) by auto
  have "ninther s left right cmp = Some m"
    using lo(1) md(1) hi(1) m(1) unfolding ninther_def Let_def step_def mid_def n_def by simp
  then show ?thesis using m(2) in_r by auto
qed

text \<open>One round: some pivot is chosen, and the range is split around it.\<close>

lemma split_round:
  assumes "left < right" "right < length s"
  shows "\<exists>m t lt gt v. ninther s left right cmp = Some m \<and> partition3 s left right m cmp = Some (t, lt, gt)
    \<and> rperm left (Suc right - left) s t \<and> left \<le> lt \<and> lt \<le> gt \<and> gt \<le> right \<and> three_runs cmp v left lt (Suc gt) gt right t"
proof -
  obtain m where m: "ninther s left right cmp = Some m" "left \<le> m" "m \<le> right"
    using ninther_ok [OF assms] by blast
  let ?s = "swap_list left m s"
  have sw: "rperm left (Suc right - left) s ?s" using assms m by (intro rperm_swap) auto
  have "three_runs cmp (?s ! left) left left (left + 1) right right ?s" by (auto simp: three_runs_def less_Suc_eq)
  then have "\<exists>t lt gt. split_loop ?s left (left + 1) right cmp = Some (t, lt, gt) \<and> rperm left (Suc right - left) ?s t
    \<and> left \<le> lt \<and> lt \<le> gt \<and> gt \<le> right \<and> three_runs cmp (?s ! left) left lt (Suc gt) gt right t"
    using assms by (intro split_loop_spec) auto
  moreover have "partition3 s left right m cmp = split_loop ?s left (left + 1) right cmp"
    using assms m by (simp add: partition3_def)
  ultimately show ?thesis using m(1) rperm_trans [OF sw] by metis
qed

lemma cmp_both_eq: "cmp x v = 0 \<Longrightarrow> cmp y v = 0 \<Longrightarrow> cmp x y = 0"
  using cmp_eq_less [of y v x] cmp_eq_greater [of y v x] by linarith

text \<open>The three runs of a split, each rearranged within itself, are still the three runs.\<close>

lemma three_runs_sets:
  assumes "left \<le> lt" "lt \<le> gt" "gt \<le> right" "right < length s" "three_runs cmp v left lt (Suc gt) gt right s"
  shows "\<forall>x\<in>set (slice left (lt - left) s). cmp x v < 0" "\<forall>x\<in>set (slice lt (Suc gt - lt) s). cmp x v = 0"
    "\<forall>x\<in>set (slice (Suc gt) (right - gt) s). 0 < cmp x v"
  using assms by (simp_all add: slice_all_nth three_runs_def less_Suc_eq_le Suc_le_eq)

lemma sorted_three:
  assumes a: "sorted_by cmp a" "\<forall>x\<in>set a. cmp x v < 0" and b: "\<forall>x\<in>set b. cmp x v = 0"
    and c: "sorted_by cmp c" "\<forall>x\<in>set c. 0 < cmp x v"
  shows "sorted_by cmp (a @ b @ c)"
proof -
  have "sorted_by cmp b" unfolding sorted_by_def using b
    by (induction b) (auto dest: cmp_both_eq)
  moreover have "cmp x y \<le> 0" if "x \<in> set a" "y \<in> set b \<union> set c" for x y
    using that a(2) b c(2) cmp_less_trans [of x v y] cmp_le_ge [of y v] cmp_eq_sym [of y v] by force
  moreover have "cmp x y \<le> 0" if "x \<in> set b" "y \<in> set c" for x y
    using that b c(2) cmp_le_less_trans [of x v y] cmp_flip [of y v] by force
  ultimately show ?thesis using a(1) c(1) by (auto simp: sorted_by_def sorted_wrt_append)
qed

end

section \<open>Insertion sort sorts and is stable\<close>

text \<open>Both ways of moving the element at \<open>i\<close> down to \<open>j\<close>.\<close>

definition moved_down :: "nat \<Rightarrow> nat \<Rightarrow> 'a list \<Rightarrow> 'a list" where
  "moved_down j i s = take j s @ s ! i # slice j (i - j) s @ drop (Suc i) s"

lemma moved_down_nth:
  assumes "j \<le> i" "i < length s" "k < length s"
  shows "moved_down j i s ! k = (if k = j then s ! i else if j < k \<and> k \<le> i then s ! (k - 1) else s ! k)"
  using assms by (auto simp: moved_down_def nth_append nth_Cons' slice_def min_def)

lemma length_moved_down: "j \<le> i \<Longrightarrow> i < length s \<Longrightarrow> length (moved_down j i s) = length s"
  by (simp add: moved_down_def slice_def)

lemma move_by_swaps:
  assumes "j \<le> i" "i < length s"
  shows "for_loop (rev [j + 1..<i + 1]) (\<lambda>k s. span_swap s (k - 1) k) s = Some (moved_down j i s)"
proof -
  define Q where "Q k t \<longleftrightarrow> t = moved_down (k - 1) i s" for k :: nat and t
  have "moved_down i i s = s" using assms(2) by (simp add: moved_down_def slice_def id_take_nth_drop [symmetric])
  then have "Q (i + 1) s" by (simp add: Q_def)
  moreover have "\<exists>t'. span_swap t (k - 1) k = Some t' \<and> Q k t'" if "j + 1 \<le> k" "k < i + 1" "Q (Suc k) t" for k t
  proof -
    have t: "t = moved_down k i s" "k \<le> i" "0 < k" using that by (simp_all add: Q_def)
    have len: "length t = length s" using t assms by (simp add: length_moved_down)
    have "swap_list (k - 1) k t = moved_down (k - 1) i s"
    proof (rule nth_equalityI)
      fix x assume "x < length (swap_list (k - 1) k t)"
      then show "swap_list (k - 1) k t ! x = moved_down (k - 1) i s ! x"
        using t assms len by (auto simp: nth_swap_list moved_down_nth)
    qed (use t len assms in \<open>simp add: length_moved_down\<close>)
    then show ?thesis using t len assms by (auto simp: Q_def)
  qed
  ultimately have "\<exists>t. for_loop (rev [j + 1..<i + 1]) (\<lambda>k s. span_swap s (k - 1) k) s = Some t \<and> Q (j + 1) t"
    using assms(1) by (intro for_loop_rev_inv_to [where Q = Q]) auto
  then show ?thesis by (auto simp: Q_def)
qed

lemma move_by_blit:
  assumes "j < i" "i < length s"
  shows "span_set (blit (j + 1) (slice j (i - j) s) s) j (s ! i) = Some (moved_down j i s)"
proof -
  have l: "length (slice j (i - j) s) = i - j" using assms by (simp add: slice_simps)
  have "blit (j + 1) (slice j (i - j) s) s = take j s @ s ! j # slice j (i - j) s @ drop (Suc i) s"
    using assms l by (simp add: blit_def take_Suc_conv_app_nth)
  then show ?thesis using assms l by (simp add: moved_down_def list_update_append)
qed

context comparator
begin

lemma slot_loop_spec:
  assumes "i \<le> length s"
  shows "\<exists>j. slot_loop s v cmp i = Some j \<and> j \<le> i \<and> (\<forall>k. j \<le> k \<longrightarrow> k < i \<longrightarrow> 0 < cmp (s ! k) v)
    \<and> (0 < j \<longrightarrow> cmp (s ! (j - 1)) v \<le> 0)"
  using assms
proof (induction i)
  case (Suc i)
  then show ?case by (cases "0 < cmp (s ! i) v") (auto simp: less_Suc_eq)
qed simp

lemma moved_down_stable:
  assumes i: "i < length s" "j \<le> i" and sorted: "sorted_by cmp (take i s)"
    and above: "\<forall>k. j \<le> k \<longrightarrow> k < i \<longrightarrow> 0 < cmp (s ! k) (s ! i)" and below: "0 < j \<longrightarrow> cmp (s ! (j - 1)) (s ! i) \<le> 0"
  shows "sorted_by cmp (take (Suc i) (moved_down j i s))"
    and "filter (\<lambda>x. cmp x k = 0) (moved_down j i s) = filter (\<lambda>x. cmp x k = 0) s"
    and "mset (moved_down j i s) = mset s" and "drop (Suc i) (moved_down j i s) = drop (Suc i) s"
proof -
  let ?v = "s ! i" and ?A = "take j s" and ?B = "slice j (i - j) s"
  have AB: "take i s = ?A @ ?B" using i by (metis le_add_diff_inverse slice_def take_add)
  have s: "s = ?A @ ?B @ ?v # drop (Suc i) s" using AB i(1) by (metis append.assoc id_take_nth_drop)
  have lenB: "length ?B = i - j" using i by (simp add: slice_simps)
  have B: "\<forall>x\<in>set ?B. 0 < cmp x ?v" using i above by (subst slice_all_nth) auto
  have "cmp x ?v \<le> 0" if "x \<in> set ?A" for x
  proof -
    obtain k where k: "k < j" "x = s ! k" using \<open>x \<in> set ?A\<close> i by (auto simp: in_set_conv_nth)
    then have "cmp (s ! k) (s ! (j - 1)) \<le> 0"
      using sorted i by (cases "k = j - 1") (auto simp: sorted_by_def sorted_wrt_iff_nth_less)
    then show ?thesis using k below cmp_trans by (metis gr_zeroI not_less_zero)
  qed
  then have A: "\<forall>x\<in>set ?A. cmp x ?v \<le> 0" by blast
  have t: "moved_down j i s = ?A @ ?v # ?B @ drop (Suc i) s" by (simp add: moved_down_def)
  have tk: "take (Suc i) (moved_down j i s) = ?A @ ?v # ?B" using i lenB by (simp add: t Suc_diff_le)
  have vB: "\<forall>x\<in>set ?B. cmp ?v x \<le> 0" using B cmp_le_ge by (metis less_imp_le)
  show "sorted_by cmp (take (Suc i) (moved_down j i s))"
    using sorted [unfolded AB] A vB unfolding tk by (auto simp: sorted_by_def sorted_wrt_append)
  show "filter (\<lambda>x. cmp x k = 0) (moved_down j i s) = filter (\<lambda>x. cmp x k = 0) s"
  proof (cases "cmp ?v k = 0")
    case True
    then have "cmp x k \<noteq> 0" if "x \<in> set ?B" for x using B that cmp_both_eq [of x k ?v] by force
    then have "filter (\<lambda>x. cmp x k = 0) ?B = []" by (simp add: filter_empty_conv)
    then show ?thesis by (subst (2) s) (simp add: t)
  next
    case False
    then show ?thesis by (subst (2) s) (simp add: t)
  qed
  show "mset (moved_down j i s) = mset s" by (subst (2) s) (simp add: t)
  show "drop (Suc i) (moved_down j i s) = drop (Suc i) s" using i lenB by (simp add: t Suc_diff_le)
qed

lemma insertion_sort_spec:
  "\<exists>t. tda_span_insertion_sort es s cmp = Some t \<and> mset t = mset s \<and> stable_of cmp s t"
proof -
  define Q where "Q i t \<longleftrightarrow> length t = length s \<and> mset t = mset s \<and> sorted_by cmp (take i t)
      \<and> (\<forall>k. filter (\<lambda>x. cmp x k = 0) t = filter (\<lambda>x. cmp x k = 0) s)" for i t
  have step: "\<exists>j. insertion_slot t i cmp = Some j \<and> j \<le> i \<and> Q (Suc i) (moved_down j i t)" if "i < length s" "Q i t" for i t
  proof -
    have l: "i < length t" using that by (simp add: Q_def)
    then obtain j where j: "slot_loop t (t ! i) cmp i = Some j" "j \<le> i"
      "\<forall>k. j \<le> k \<longrightarrow> k < i \<longrightarrow> 0 < cmp (t ! k) (t ! i)" "0 < j \<longrightarrow> cmp (t ! (j - 1)) (t ! i) \<le> 0"
      using slot_loop_spec [of i t "t ! i"] by auto
    have "sorted_by cmp (take i t)" using that(2) by (simp add: Q_def)
    from moved_down_stable [OF l j(2) this j(3,4)] have "Q (Suc i) (moved_down j i t)"
      using that(2) l j(2) by (simp add: Q_def length_moved_down)
    then show ?thesis using j(1,2) l by (simp add: insertion_slot_def)
  qed
  have start: "Q 0 s" "Q 1 s"
    by (simp_all add: Q_def sorted_by_def) (cases s; simp)
  have "\<exists>t. tda_span_insertion_sort es s cmp = Some t \<and> Q (max 1 (length s)) t"
  proof (cases "es > INSERTION_HELD_MAX")
    case True
    let ?f = "\<lambda>i s. do { j \<leftarrow> insertion_slot s i cmp; for_loop (rev [j + 1..<i + 1]) (\<lambda>k s. span_swap s (k - 1) k) s }"
    have "\<exists>t'. ?f i t = Some t' \<and> Q (Suc i) t'" if "i < length s" "Q i t" for i t
      using step [OF that] that move_by_swaps [of _ i t] by (auto simp: Q_def)
    then have "\<exists>t. for_loop [1..<max 1 (length s)] ?f s = Some t \<and> Q (max 1 (length s)) t"
      by (intro for_loop_inv_from [where Q = Q]) (use start in auto)
    moreover have "[1..<max 1 (length s)] = [1..<length s]" by (simp add: max_def)
    ultimately show ?thesis using True by (simp add: tda_span_insertion_sort_def)
  next
    case False
    let ?f = "\<lambda>i s. do { j \<leftarrow> insertion_slot s i cmp; if j = i then Some s
          else do { held \<leftarrow> span_get s i; run \<leftarrow> span_sub s j (i - j); dst \<leftarrow> span_sub s (j + 1) (i - j);
            span_set (blit (j + 1) run s) j held } }"
    have "\<exists>t'. ?f i t = Some t' \<and> Q (Suc i) t'" if i: "i < length s" "Q i t" for i t
    proof -
      obtain j where j: "insertion_slot t i cmp = Some j" "j \<le> i" "Q (Suc i) (moved_down j i t)"
        using step [OF i] by blast
      have l: "i < length t" using i by (simp add: Q_def)
      show ?thesis
      proof (cases "j = i")
        case True
        have "moved_down i i t = t" using l by (simp add: moved_down_def slice_def id_take_nth_drop [symmetric])
        then show ?thesis using True j by simp
      next
        case False
        then show ?thesis using j l move_by_blit [of j i t] by simp
      qed
    qed
    then have "\<exists>t. for_loop [1..<max 1 (length s)] ?f s = Some t \<and> Q (max 1 (length s)) t"
      by (intro for_loop_inv_from [where Q = Q]) (use start in auto)
    moreover have "[1..<max 1 (length s)] = [1..<length s]" by (simp add: max_def)
    ultimately show ?thesis using False by (simp add: tda_span_insertion_sort_def)
  qed
  then show ?thesis by (auto simp: Q_def stable_of_def)
qed

end

section \<open>Quicksort sorts\<close>

context comparator
begin

lemma stable_of_sorted: "stable_of cmp s t \<Longrightarrow> sorted_by cmp t"
  by (simp add: stable_of_def)

lemma sort_range:
  assumes fit: "l + n \<le> length s" and f: "\<exists>u. f (slice l n s) = Some u \<and> mset u = mset (slice l n s) \<and> sorted_by cmp u"
  shows "\<exists>t. on_sub l n f s = Some t \<and> rperm l n s t \<and> sorted_by cmp (slice l n t)"
  using f rperm_on_sub [OF fit] by metis

lemma heap_sort_fallback:
  "\<exists>u. do { u \<leftarrow> tda_span_make_heap t cmp; tda_span_sort_heap u cmp } = Some u \<and> mset u = mset t \<and> sorted_by cmp u"
proof -
  obtain h where "tda_span_make_heap t cmp = Some h" "mset h = mset t" "is_heap_list cmp h" using make_heap_heap by blast
  moreover from this(3) obtain u where "tda_span_sort_heap h cmp = Some u" "mset u = mset h" "sorted_by cmp u"
    using sort_heap_spec by blast
  ultimately show ?thesis by simp
qed

text \<open>Sorting what lies on both sides of the pivot run sorts the range.\<close>

lemma quicksort_join:
  assumes b: "left \<le> lt" "lt \<le> gt" "gt \<le> right" "right < length s" and three: "three_runs cmp v left lt (Suc gt) gt right s1"
    and p: "rperm left (Suc right - left) s s1"
    and k: "rperm k1 n1 s1 s2" "rperm k2 n2 s2 t"
      "(k1, n1, k2, n2) = (left, lt - left, Suc gt, right - gt) \<or> (k1, n1, k2, n2) = (Suc gt, right - gt, left, lt - left)"
    and sorted: "sorted_by cmp (slice k1 n1 s2)" "sorted_by cmp (slice k2 n2 t)"
  shows "rperm left (Suc right - left) s t \<and> sorted_by cmp (slice left (Suc right - left) t)"
proof -
  have len: "length s1 = length s" "length s2 = length s" using rperm_length [OF p] rperm_length [OF k(1)] by simp_all
  have w: "rperm left (Suc right - left) s1 s2" "rperm left (Suc right - left) s2 t"
    by (rule rperm_mono [OF k(1)]; use b k(3) in auto) (rule rperm_mono [OF k(2)]; use b k(3) in auto)
  note sets = three_runs_sets [OF b(1-3) _ three, unfolded len, OF b(4)]
  have keep: "slice k1 n1 t = slice k1 n1 s2" "slice k2 n2 s2 = slice k2 n2 s1"
    using b k(3) by (auto intro: rperm_slice_out [OF k(2)] rperm_slice_out [OF k(1)])
  have B: "slice lt (Suc gt - lt) t = slice lt (Suc gt - lt) s1"
    using rperm_slice_out [OF k(2), of lt "Suc gt - lt"] rperm_slice_out [OF k(1), of lt "Suc gt - lt"] b k(3) by auto
  have fit: "k1 + n1 \<le> length s1" "k2 + n2 \<le> length s2" using k(3) b len by auto
  have "set (slice k1 n1 t) = set (slice k1 n1 s1)" "set (slice k2 n2 t) = set (slice k2 n2 s1)"
    using rperm_set [OF k(1) fit(1)] rperm_set [OF k(2) fit(2)] keep by simp_all
  then have sa: "set (slice left (lt - left) t) = set (slice left (lt - left) s1)"
    and sc: "set (slice (Suc gt) (right - gt) t) = set (slice (Suc gt) (right - gt) s1)" using k(3) by auto
  have so: "sorted_by cmp (slice left (lt - left) t)" "sorted_by cmp (slice (Suc gt) (right - gt) t)"
    using sorted k(3) keep(1) by auto
  have e: "Suc right - left = (lt - left) + ((Suc gt - lt) + (right - gt))" "left + (lt - left) = lt" "lt + (Suc gt - lt) = Suc gt"
    using b by auto
  have "slice left (Suc right - left) t
      = slice left (lt - left) t @ slice lt (Suc gt - lt) t @ slice (Suc gt) (right - gt) t"
    unfolding e(1) slice_append e(2,3) ..
  moreover have "sorted_by cmp \<dots>"
    using so sets sa sc unfolding B by (intro sorted_three [where v = v]) auto
  ultimately show ?thesis using rperm_trans [OF rperm_trans [OF p w(1)] w(2)] by simp
qed

lemma quicksort_spec:
  assumes "left \<le> Suc right" "right < length s"
  shows "\<exists>t. quicksort es s left right depth cmp = Some t \<and> rperm left (Suc right - left) s t
    \<and> sorted_by cmp (slice left (Suc right - left) t)"
  using assms
proof (induction depth arbitrary: s left right rule: less_induct)
  case (less depth)
  let ?n = "Suc right - left"
  show ?case
  proof (cases "left < right")
    case False
    then have "?n = 0 \<or> ?n = 1" by auto
    then have "length (slice left ?n s) \<le> 1" by (auto simp: slice_def)
    then have "sorted_by cmp (slice left ?n s)" by (cases "slice left ?n s") (auto simp: sorted_by_def)
    then show ?thesis using False by (simp add: quicksort.simps [of es s])
  next
    case lr: True
    then have n: "right - left + 1 = ?n" "left + ?n \<le> length s" using less.prems by auto
    show ?thesis
    proof (cases "?n \<le> INSERTION_THRESHOLD \<or> depth = 0")
      case True
      have i: "\<exists>t. on_sub left ?n (\<lambda>t. tda_span_insertion_sort es t cmp) s = Some t \<and> rperm left ?n s t \<and> sorted_by cmp (slice left ?n t)"
        using insertion_sort_spec stable_of_sorted by (intro sort_range [OF n(2)]) blast
      have h: "\<exists>t. on_sub left ?n (\<lambda>t. do { u \<leftarrow> tda_span_make_heap t cmp; tda_span_sort_heap u cmp }) s = Some t
          \<and> rperm left ?n s t \<and> sorted_by cmp (slice left ?n t)"
        using heap_sort_fallback by (intro sort_range [OF n(2)]) blast
      show ?thesis
        by (subst quicksort.simps) (use True lr i h in \<open>simp only: n(1) if_True if_False simp_thms split: if_splits\<close>; auto)
    next
      case False
      then have depth: "depth - 1 < depth" by simp
      obtain m s1 lt gt v where r: "ninther s left right cmp = Some m" "partition3 s left right m cmp = Some (s1, lt, gt)"
        "rperm left ?n s s1" "left \<le> lt" "lt \<le> gt" "gt \<le> right" "three_runs cmp v left lt (Suc gt) gt right s1"
        using split_round [OF lr less.prems(2)] by blast
      have len: "length s1 = length s" by (rule rperm_length [OF r(3)])
      have lo: "\<exists>t. (if lt > left then quicksort es u left (lt - 1) (depth - 1) cmp else Some u) = Some t
          \<and> rperm left (lt - left) u t \<and> sorted_by cmp (slice left (lt - left) t)" if "length u = length s" for u
        using less.IH [OF depth, of left "lt - 1" u] that r(4-6) less.prems(2)
        by (cases "lt > left") (auto simp: sorted_by_def)
      have hi: "\<exists>t. (if gt < right then quicksort es u (gt + 1) right (depth - 1) cmp else Some u) = Some t
          \<and> rperm (Suc gt) (right - gt) u t \<and> sorted_by cmp (slice (Suc gt) (right - gt) t)" if "length u = length s" for u
        using less.IH [OF depth, of "gt + 1" right u] that r(4-6) less.prems(2)
        by (cases "gt < right") (auto simp: sorted_by_def)
      note join = quicksort_join [OF r(4-6) less.prems(2) r(7,3)]
      have unf: "quicksort es s left right depth cmp =
          (if lt - left < right - gt then do {
             s2 \<leftarrow> (if lt > left then quicksort es s1 left (lt - 1) (depth - 1) cmp else Some s1);
             quicksort es s2 (gt + 1) right (depth - 1) cmp }
           else do {
             s2 \<leftarrow> (if gt < right then quicksort es s1 (gt + 1) right (depth - 1) cmp else Some s1);
             if lt = left then Some s2 else quicksort es s2 left (lt - 1) (depth - 1) cmp })"
        by (subst quicksort.simps) (use lr False n(1) r(1,2) in \<open>simp del: One_nat_def\<close>)
      show ?thesis
      proof (cases "lt - left < right - gt")
        case True
        obtain s2 where s2: "(if lt > left then quicksort es s1 left (lt - 1) (depth - 1) cmp else Some s1) = Some s2"
          "rperm left (lt - left) s1 s2" "sorted_by cmp (slice left (lt - left) s2)" using lo [OF len] by blast
        have "length s2 = length s" using rperm_length [OF s2(2)] len by simp
        moreover have "gt < right" using True by simp
        ultimately obtain t where t: "quicksort es s2 (gt + 1) right (depth - 1) cmp = Some t"
          "rperm (Suc gt) (right - gt) s2 t" "sorted_by cmp (slice (Suc gt) (right - gt) t)"
          using hi [of s2] by (simp only: if_True) blast
        have "quicksort es s left right depth cmp = Some t" unfolding unf using True s2(1) t(1) by simp
        then show ?thesis using join [OF s2(2) t(2) _ s2(3) t(3)] by simp
      next
        case False
        obtain s2 where s2: "(if gt < right then quicksort es s1 (gt + 1) right (depth - 1) cmp else Some s1) = Some s2"
          "rperm (Suc gt) (right - gt) s1 s2" "sorted_by cmp (slice (Suc gt) (right - gt) s2)" using hi [OF len] by blast
        have "length s2 = length s" using rperm_length [OF s2(2)] len by simp
        from lo [OF this] obtain t where t: "(if lt > left then quicksort es s2 left (lt - 1) (depth - 1) cmp else Some s2) = Some t"
          "rperm left (lt - left) s2 t" "sorted_by cmp (slice left (lt - left) t)" by blast
        have "quicksort es s left right depth cmp = Some t" unfolding unf using False s2(1) t(1) r(4) by (auto split: if_splits)
        then show ?thesis using join [OF s2(2) t(2) _ s2(3) t(3)] by simp
      qed
    qed
  qed
qed

lemma sort_spec:
  "\<exists>t. tda_span_sort es s cmp = Some t \<and> mset t = mset s \<and> sorted_by cmp t"
proof (cases "length s < 2")
  case True
  then have "sorted_by cmp s" by (cases s; cases "tl s") (auto simp: sorted_by_def)
  then show ?thesis using True by (simp add: tda_span_sort_def)
next
  case False
  then have l: "Suc (length s - 1) - 0 = length s" "0 \<le> Suc (length s - 1)" "length s - 1 < length s" by auto
  from quicksort_spec [OF l(2,3), of es "2 * (stdc_bit_width (length s) - 1)"] obtain t where
    t: "quicksort es s 0 (length s - 1) (2 * (stdc_bit_width (length s) - 1)) cmp = Some t"
      "rperm 0 (length s) s t" "sorted_by cmp (slice 0 (length s) t)" unfolding l(1) by blast
  then have "sorted_by cmp t" using rperm_length [OF t(2)] by simp
  moreover have "mset t = mset s" using t(2) by (simp add: rperm_def)
  ultimately show ?thesis using t(1) False by (simp add: tda_span_sort_def depth_limit_def)
qed

end

section \<open>Selection places its element\<close>

text \<open>Nothing before position \<open>k\<close> is greater than anything from \<open>k\<close> on.\<close>

definition splits_at :: "'a cmp_fn \<Rightarrow> nat \<Rightarrow> 'a list \<Rightarrow> bool" where
  "splits_at cmp k s \<longleftrightarrow> (\<forall>i j. i < k \<longrightarrow> k \<le> j \<longrightarrow> j < length s \<longrightarrow> cmp (s ! i) (s ! j) \<le> 0)"

lemma splits_at_sets:
  assumes "k \<le> length s"
  shows "splits_at cmp k s \<longleftrightarrow> (\<forall>x\<in>set (take k s). \<forall>y\<in>set (drop k s). cmp x y \<le> 0)"
proof -
  have d: "(\<forall>y\<in>set (drop k s). P y) \<longleftrightarrow> (\<forall>j. k \<le> j \<longrightarrow> j < length s \<longrightarrow> P (s ! j))" for P
    using slice_all_nth [of k "length s - k" s P] assms by (simp add: slice_def)
  have t: "(\<forall>x\<in>set (take k s). P x) \<longleftrightarrow> (\<forall>i<k. P (s ! i))" for P
    using assms by (simp add: all_set_conv_all_nth)
  show ?thesis unfolding splits_at_def t d by blast
qed

lemma splits_at_trivial [simp]: "splits_at cmp 0 s" "length s \<le> k \<Longrightarrow> splits_at cmp k s"
  by (simp_all add: splits_at_def)

lemma splits_at_rperm:
  assumes s: "splits_at cmp k s" and p: "rperm l n s t" and k: "k \<le> l \<or> l + n \<le> k" and fit: "l + n \<le> length s"
  shows "splits_at cmp k t"
proof (cases "k \<le> length s")
  case False
  then show ?thesis using rperm_length [OF p] by simp
next
  case True
  have m: "mset (take k t) + mset (drop k t) = mset (take k s) + mset (drop k s)"
    using p by (simp add: rperm_def flip: mset_append)
  have "mset (take k t) = mset (take k s) \<and> mset (drop k t) = mset (drop k s)"
    using k
  proof
    assume "k \<le> l"
    then have "take k t = take k s" using p take_less unfolding rperm_def by blast
    then show ?thesis using m by simp
  next
    assume "l + n \<le> k"
    then have "drop k t = drop k s" using p drop_more unfolding rperm_def by blast
    then show ?thesis using m by simp
  qed
  then have "set (take k t) = set (take k s)" "set (drop k t) = set (drop k s)" by (auto dest: mset_eq_setD)
  then show ?thesis using s True rperm_length [OF p] by (simp add: splits_at_sets)
qed

context comparator
begin

lemma splits_inside:
  assumes "splits_at cmp left s" "splits_at cmp (Suc right) s"
    and "\<And>i j. left \<le> i \<Longrightarrow> i < k \<Longrightarrow> k \<le> j \<Longrightarrow> j \<le> right \<Longrightarrow> cmp (s ! i) (s ! j) \<le> 0" "left \<le> k" "k \<le> Suc right"
  shows "splits_at cmp k s"
  unfolding splits_at_def
proof (intro allI impI)
  fix i j assume ij: "i < k" "k \<le> j" "j < length s"
  consider "i < left" | "right < j" | "left \<le> i" "j \<le> right" by linarith
  then show "cmp (s ! i) (s ! j) \<le> 0"
  proof cases
    case 1
    then show ?thesis using assms(1) ij \<open>left \<le> k\<close> by (simp add: splits_at_def)
  next
    case 2
    then show ?thesis using assms(2) ij \<open>k \<le> Suc right\<close> by (simp add: splits_at_def)
  qed (use assms(3) ij in blast)
qed

lemma three_runs_le:
  assumes "three_runs cmp v left lt (Suc gt) gt right s" "left \<le> i" "i \<le> gt" "lt \<le> j" "j \<le> right"
  shows "cmp (s ! i) (s ! j) \<le> 0"
proof -
  have "cmp (s ! i) v \<le> 0" using assms(1,2,3) by (cases "i < lt") (auto simp: three_runs_def)
  moreover have "0 \<le> cmp (s ! j) v" using assms(1,4,5) by (cases "j \<le> gt") (auto simp: three_runs_def not_le intro: less_imp_le)
  ultimately show ?thesis using cmp_trans cmp_le_ge by blast
qed

lemma nth_loop_spec:
  assumes "left \<le> pos" "pos \<le> right" "right < length s" "splits_at cmp left s" "splits_at cmp (Suc right) s"
  shows "\<exists>t. nth_loop es s pos left right depth cmp = Some t \<and> mset t = mset s \<and> length t = length s
    \<and> splits_at cmp pos t \<and> splits_at cmp (Suc pos) t"
  using assms
proof (induction depth arbitrary: s left right rule: less_induct)
  case (less depth)
  note p = less.prems
  let ?n = "Suc right - left"
  show ?case
  proof (cases "left < right")
    case False
    then have e: "left = pos" "right = pos" using p by auto
    have "nth_loop es s pos left right depth cmp = Some s" using False by (subst nth_loop.simps) simp
    then show ?thesis using p(4,5) unfolding e by simp
  next
    case lr: True
    then have n: "right - left + 1 = ?n" "left + ?n \<le> length s" using p by auto
    show ?thesis
    proof (cases "depth = 0")
      case True
      obtain t where t: "on_sub left ?n (\<lambda>t. tda_span_sort es t cmp) s = Some t" "rperm left ?n s t" "sorted_by cmp (slice left ?n t)"
        using sort_range [OF n(2), of "\<lambda>t. tda_span_sort es t cmp"] sort_spec by blast
      have len: "length t = length s" by (rule rperm_length [OF t(2)])
      have in_range: "cmp (t ! i) (t ! j) \<le> 0" if "left \<le> i" "i < j" "j \<le> right" for i j
      proof -
        have "length (slice left ?n t) = ?n" using n(2) len by (simp add: slice_simps)
        then have "cmp (slice left ?n t ! (i - left)) (slice left ?n t ! (j - left)) \<le> 0"
          using sorted_wrt_nth_less [OF t(3) [unfolded sorted_by_def], of "i - left" "j - left"] that by auto
        then show ?thesis using that n(2) len by (simp add: nth_slice)
      qed
      have "splits_at cmp left t" "splits_at cmp (Suc right) t"
        by (rule splits_at_rperm [OF p(4) t(2)]; use n p in simp) (rule splits_at_rperm [OF p(5) t(2)]; use n p lr in simp)
      then have "splits_at cmp pos t" "splits_at cmp (Suc pos) t"
        by (rule splits_inside; use in_range p in auto)+
      moreover have "nth_loop es s pos left right depth cmp = Some t"
        by (subst nth_loop.simps) (use lr True t(1) n(1) in simp)
      ultimately show ?thesis using len t(2) by (simp add: rperm_def)
    next
      case False
      then have depth: "depth - 1 < depth" by simp
      obtain m s1 lt gt v where r: "ninther s left right cmp = Some m" "partition3 s left right m cmp = Some (s1, lt, gt)"
        "rperm left ?n s s1" "left \<le> lt" "lt \<le> gt" "gt \<le> right" "three_runs cmp v left lt (Suc gt) gt right s1"
        using split_round [OF lr p(3)] by blast
      have len: "length s1 = length s" and ms: "mset s1 = mset s" using r(3) by (simp_all add: rperm_def)
      have sp: "splits_at cmp left s1" "splits_at cmp (Suc right) s1"
        by (rule splits_at_rperm [OF p(4) r(3)]; use n p in simp) (rule splits_at_rperm [OF p(5) r(3)]; use n p lr in simp)
      have cut: "splits_at cmp k s1" if "lt \<le> k" "k \<le> Suc gt" for k
        by (rule splits_inside [OF sp]) (use three_runs_le [OF r(7)] that r(4-6) in auto)
      have unf: "nth_loop es s pos left right depth cmp =
          (if pos < lt then nth_loop es s1 pos left (lt - 1) (depth - 1) cmp
           else if pos > gt then nth_loop es s1 pos (gt + 1) right (depth - 1) cmp else Some s1)"
        by (subst nth_loop.simps) (use lr False r(1,2) in simp)
      consider "pos < lt" | "gt < pos" | "lt \<le> pos" "pos \<le> gt" by linarith
      then show ?thesis
      proof cases
        case 1
        then have "Suc (lt - 1) = lt" by simp
        then show ?thesis using less.IH [OF depth, of left "lt - 1" s1] 1 p r(4-6) len ms sp(1) cut [of lt] unfolding unf by simp
      next
        case 2
        then show ?thesis using less.IH [OF depth, of "gt + 1" right s1] p r(4-6) len ms sp(2) cut [of "Suc gt"] unfolding unf by simp
      next
        case 3
        then show ?thesis using cut [of pos] cut [of "Suc pos"] len ms unfolding unf by simp
      qed
    qed
  qed
qed

lemma nth_elem_spec:
  assumes "pos < length s"
  shows "\<exists>t. tda_span_nth_elem es s pos cmp = Some t \<and> mset t = mset s \<and> length t = length s
    \<and> splits_at cmp pos t \<and> splits_at cmp (Suc pos) t"
proof (cases "length s < 2")
  case True
  then have "pos = 0" "length s = 1" using assms by auto
  then show ?thesis by (simp add: tda_span_nth_elem_def)
next
  case False
  then have "Suc (length s - 1) = length s" "length s - 1 < length s" by auto
  then show ?thesis
    using nth_loop_spec [of 0 pos "length s - 1" s es "2 * (stdc_bit_width (length s) - 1)"] assms False
    by (simp add: tda_span_nth_elem_def depth_limit_def)
qed

lemma partial_sort_spec:
  assumes "n \<le> length s"
  shows "\<exists>t. tda_span_partial_sort es s n cmp = Some t \<and> mset t = mset s \<and> sorted_by cmp (take n t) \<and> splits_at cmp n t"
proof -
  consider "n = 0 \<or> length s < 2" | "0 < n" "2 \<le> length s" "n = length s" | "0 < n" "n < length s" using assms by linarith
  then show ?thesis
  proof cases
    case 1
    have "sorted_by cmp (take n s)" using 1 assms by (cases s; cases "tl s") (auto simp: sorted_by_def)
    moreover have "splits_at cmp n s" using 1 assms by (cases "n = 0") (auto simp: splits_at_def)
    ultimately show ?thesis using 1 assms by (auto simp: tda_span_partial_sort_def)
  next
    case 2
    obtain t where t: "tda_span_sort es s cmp = Some t" "mset t = mset s" "sorted_by cmp t" using sort_spec by blast
    have "length t = length s" using t(2) by (rule mset_eq_length)
    then show ?thesis using 2 t by (simp add: tda_span_partial_sort_def)
  next
    case 3
    obtain u where u: "tda_span_nth_elem es s n cmp = Some u" "mset u = mset s" "length u = length s" "splits_at cmp n u"
      using nth_elem_spec [OF 3(2)] by blast
    have fit: "0 + n \<le> length u" using 3 u by simp
    obtain t where t: "on_sub 0 n (\<lambda>t. tda_span_sort es t cmp) u = Some t" "rperm 0 n u t" "sorted_by cmp (slice 0 n t)"
      using sort_range [OF fit, of "\<lambda>t. tda_span_sort es t cmp"] sort_spec by blast
    have "splits_at cmp n t" by (rule splits_at_rperm [OF u(4) t(2) _ fit]) simp
    moreover have "mset t = mset s" using t(2) u(2) by (simp add: rperm_def)
    ultimately show ?thesis using 3 u(1) t(1,3) by (simp add: tda_span_partial_sort_def slice_def)
  qed
qed

lemma is_sorted_until_spec:
  "\<exists>n. tda_span_is_sorted_until s cmp = Some n \<and> n \<le> length s \<and> sorted_by cmp (take n s)
     \<and> (n < length s \<longrightarrow> \<not> sorted_by cmp (take (Suc n) s))"
proof -
  let ?P = "\<lambda>i. cmp (s ! (i - 1)) (s ! i) > 0"
  have f: "for_find [1..<length s] (\<lambda>i. do { prev \<leftarrow> span_get s (i - 1); cur \<leftarrow> span_get s i; Some (cmp prev cur > 0) })
      = Some (List.find ?P [1..<length s])"
    by (rule for_find_pure) auto
  have sorted: "sorted_by cmp (take n s)" if n: "n \<le> length s" "\<And>i. 1 \<le> i \<Longrightarrow> i < n \<Longrightarrow> \<not> ?P i" for n
  proof -
    have "\<forall>i. Suc i < length (take n s) \<longrightarrow> cmp (take n s ! i) (take n s ! Suc i) \<le> 0"
      using n(2) n(1) by (fastforce simp: not_less)
    moreover have "transp (\<lambda>a b. cmp a b \<le> 0)" by (rule transpI) (rule cmp_trans)
    ultimately show ?thesis by (simp only: sorted_by_def sorted_wrt_iff_nth_Suc_transp)
  qed
  show ?thesis
  proof (cases "List.find ?P [1..<length s]")
    case None
    then have "\<not> ?P i" if "1 \<le> i" "i < length s" for i using that by (simp add: find_None_upt)
    from sorted [OF le_refl this] show ?thesis using f None by (simp add: tda_span_is_sorted_until_def)
  next
    case (Some n)
    then have n: "1 \<le> n" "n < length s" "?P n" "\<And>i. 1 \<le> i \<Longrightarrow> i < n \<Longrightarrow> \<not> ?P i" by (simp_all add: find_Some_upt)
    have "\<not> sorted_by cmp (take (Suc n) s)"
    proof
      assume "sorted_by cmp (take (Suc n) s)"
      then have "cmp (take (Suc n) s ! (n - 1)) (take (Suc n) s ! n) \<le> 0"
        unfolding sorted_by_def using n(1,2) sorted_wrt_nth_less [of _ "take (Suc n) s" "n - 1" n] by simp
      then show False using n(1-3) by simp
    qed
    then show ?thesis using f Some n(2) sorted [of n] n(4) by (simp add: tda_span_is_sorted_until_def)
  qed
qed

end

section \<open>The stable sort is stable\<close>

lemma slice_clip: "slice i (min m (length xs - i)) xs = slice i m xs"
  by (simp add: slice_def min_def)

context comparator
begin

lemma stable_mset:
  assumes "stable_of cmp s t"
  shows "mset t = mset s"
proof (rule multiset_eqI)
  fix x
  have c: "count (mset u) x = count (mset (filter (\<lambda>y. cmp y x = 0) u)) x" for u by (induction u) auto
  show "count (mset t) x = count (mset s) x"
    using assms unfolding c [of t] c [of s] by (simp add: stable_of_def del: mset_filter count_filter_mset)
qed

lemma stable_merge:
  assumes "stable_of cmp s1 xs" "stable_of cmp s2 ys"
  shows "stable_of cmp (s1 @ s2) (merge_by cmp xs ys)"
  using assms merge_by_stable [of xs ys] by (simp add: stable_of_def)

text \<open>Every run of \<open>w\<close> elements is the stable sort of the run it started as.\<close>

definition runs_sorted :: "nat \<Rightarrow> 'a list \<Rightarrow> 'a list \<Rightarrow> bool" where
  "runs_sorted w s0 s \<longleftrightarrow> length s = length s0 \<and> (\<forall>k. stable_of cmp (slice (k * w) w s0) (slice (k * w) w s))"

lemma merge_pass_spec:
  assumes w: "0 < w" "w < length s0" "4 * length s0 \<le> SIZE_MAX" and src: "runs_sorted w s0 src"
    and dst: "length dst = length s0" "\<forall>k<b. stable_of cmp (slice (k * (2 * w)) (2 * w) s0) (slice (k * (2 * w)) (2 * w) dst)"
  shows "\<exists>t. merge_pass cmp w (b * (2 * w)) src dst = Some t \<and> runs_sorted (2 * w) s0 t"
  using dst
proof (induction "length s0 - b * (2 * w)" arbitrary: b dst rule: less_induct)
  case less
  let ?n = "length s0" and ?i = "b * (2 * w)"
  have len: "length src = ?n" using src by (simp add: runs_sorted_def)
  show ?case
  proof (cases "?i < ?n")
    case False
    have "stable_of cmp (slice (k * (2 * w)) (2 * w) s0) (slice (k * (2 * w)) (2 * w) dst)" for k
    proof (cases "k < b")
      case False
      then have "?i \<le> k * (2 * w)" by (intro mult_le_mono1) simp
      then have "?n \<le> k * (2 * w)" using \<open>\<not> ?i < ?n\<close> by linarith
      then show ?thesis using less.prems(1) by (simp add: slice_def stable_of_def sorted_by_def)
    qed (use less.prems in blast)
    then show ?thesis using False len less.prems(1) by (subst merge_pass.simps) (simp add: runs_sorted_def)
  next
    case True
    define mid fin where "mid = min (?i + w) ?n" and "fin = min (?i + 2 * w) ?n"
    have add: "size_add ?i w = ?i + w" "size_mul 2 w = 2 * w" "size_add ?i (2 * w) = ?i + 2 * w"
      using w True by (simp_all add: size_add_exact size_mul_exact)
    have m: "?i \<le> mid" "mid \<le> fin" "fin \<le> ?n" using True by (auto simp: mid_def fin_def)
    have "mid - ?i = min w (?n - ?i)" by (auto simp: mid_def)
    then have a: "slice ?i (mid - ?i) src = slice ((2 * b) * w) w src"
      using slice_clip [of ?i w src] len by (simp add: mult.commute mult.left_commute)
    have bb: "slice mid (fin - mid) src = slice ((2 * b + 1) * w) w src"
    proof (cases "?i + w \<le> ?n")
      case True
      then have "mid = ?i + w" "fin - mid = min w (?n - (?i + w))" by (auto simp: mid_def fin_def)
      then show ?thesis using slice_clip [of "?i + w" w src] len by (simp add: algebra_simps)
    next
      case False
      then have "fin - mid = 0" "?n \<le> (2 * b + 1) * w" by (auto simp: mid_def fin_def algebra_simps)
      then show ?thesis using len by (simp add: slice_def)
    qed
    let ?m = "merge_by cmp (slice ((2 * b) * w) w src) (slice ((2 * b + 1) * w) w src)"
    have "stable_of cmp (slice ((2 * b) * w) w s0 @ slice ((2 * b + 1) * w) w s0) ?m"
      using src unfolding runs_sorted_def by (intro stable_merge) blast+
    moreover have "slice ((2 * b) * w) w s0 @ slice ((2 * b + 1) * w) w s0 = slice ?i (2 * w) s0"
      using slice_append [of ?i w w s0, folded mult_2] by (simp add: algebra_simps)
    ultimately have st: "stable_of cmp (slice ?i (2 * w) s0) ?m" by simp
    have "length (slice ?i (mid - ?i) src) = mid - ?i" "length (slice mid (fin - mid) src) = fin - mid"
      using m len by (simp_all add: length_slice)
    then have lm: "length ?m = fin - ?i" unfolding a bb using m by simp
    define d1 where "d1 = blit ?i ?m dst"
    have on: "on_sub ?i (fin - ?i) (\<lambda>d. tda_span_merge d (slice ((2 * b) * w) w src) (slice ((2 * b + 1) * w) w src) cmp) dst = Some d1"
      using m less.prems(1) lm by (simp add: on_sub_def d1_def merge_spec length_slice)
    have d1: "length d1 = ?n" using lm m less.prems(1) by (simp add: d1_def length_blit)
    have "slice ?i (fin - ?i) d1 = ?m"
      unfolding d1_def using slice_blit_same [of ?i ?m dst] lm m less.prems(1) by simp
    moreover have "slice ?i (fin - ?i) d1 = slice ?i (2 * w) d1"
    proof -
      have "fin - ?i = min (2 * w) (?n - ?i)" by (auto simp: fin_def)
      then show ?thesis using slice_clip [of ?i "2 * w" d1] d1 by simp
    qed
    ultimately have new: "slice ?i (2 * w) d1 = ?m" by simp
    have "stable_of cmp (slice (k * (2 * w)) (2 * w) s0) (slice (k * (2 * w)) (2 * w) d1)" if "k < Suc b" for k
    proof (cases "k = b")
      case True
      then show ?thesis using st new by simp
    next
      case False
      then have "Suc k * (2 * w) \<le> ?i" using that by (intro mult_le_mono1) simp
      then have le: "k * (2 * w) + 2 * w \<le> ?i" by simp
      have "take ?i d1 = take ?i dst" unfolding d1_def using m less.prems(1) by (intro take_blit_ge) auto
      then have "slice (k * (2 * w)) (2 * w) d1 = slice (k * (2 * w)) (2 * w) dst"
        using le by (metis slice_def take_drop add.commute take_less)
      then show ?thesis using less.prems(2) False that by simp
    qed
    then have "\<exists>t. merge_pass cmp w (Suc b * (2 * w)) src d1 = Some t \<and> runs_sorted (2 * w) s0 t"
      using True w(1) d1 by (intro less.hyps) auto
    moreover have "merge_pass cmp w ?i src dst = merge_pass cmp w (Suc b * (2 * w)) src d1"
    proof -
      have mm: "(if ?i + w < ?n then ?i + w else ?n) = mid" "(if ?i + 2 * w < ?n then ?i + 2 * w else ?n) = fin"
        by (auto simp: mid_def fin_def)
      have "span_sub src ?i (mid - ?i) = Some (slice ((2 * b) * w) w src)" "span_sub src mid (fin - mid) = Some (slice ((2 * b + 1) * w) w src)"
        using m len a bb by simp_all
      then show ?thesis
        by (subst merge_pass.simps) (use True len on in \<open>simp only: add mm if_True Let_def Option.bind.simps; simp add: add.commute\<close>)
    qed
    ultimately show ?thesis by simp
  qed
qed

lemma width_loop_spec:
  assumes "0 < w" "4 * length s0 \<le> SIZE_MAX" "runs_sorted w s0 src" "length dst = length s0"
  shows "\<exists>t d f. width_loop cmp w src dst in_buf = Some (t, d, f) \<and> stable_of cmp s0 t \<and> length t = length s0 \<and> length d = length s0"
  using assms
proof (induction "length s0 - w" arbitrary: w src dst in_buf rule: less_induct)
  case less
  have len: "length src = length s0" using less.prems(3) by (simp add: runs_sorted_def)
  show ?case
  proof (cases "w < length s0")
    case False
    then have "slice 0 w s0 = s0" "slice 0 w src = src" using len by (simp_all add: slice_def)
    moreover have "stable_of cmp (slice (0 * w) w s0) (slice (0 * w) w src)"
      using less.prems(3) unfolding runs_sorted_def by blast
    ultimately have "stable_of cmp s0 src" by simp
    then show ?thesis using False len less.prems(4) by (subst width_loop.simps) simp
  next
    case True
    obtain d where d: "merge_pass cmp w 0 src dst = Some d" "runs_sorted (2 * w) s0 d"
      using merge_pass_spec [OF less.prems(1) True less.prems(2,3,4), of 0] by auto
    have "width_loop cmp w src dst in_buf = width_loop cmp (2 * w) d src (\<not> in_buf)"
      using True len d(1) less.prems(2)
      by (subst width_loop.simps) (simp add: size_mul_exact mult.commute)
    then show ?thesis
      using less.hyps [OF _ _ less.prems(2) d(2) len, of "\<not> in_buf"] True less.prems(1) by simp
  qed
qed

lemma runs_sorted_start: "runs_sorted 1 s s"
proof -
  have "stable_of cmp xs xs" if "length xs \<le> 1" for xs
    using that by (cases xs) (auto simp: stable_of_def sorted_by_def)
  then show ?thesis by (simp add: runs_sorted_def slice_def)
qed

end

lemma sort_stable_spec:
  assumes A: "allocator al I owned" and C: "comparator cmp" and w: "I w"
    and fit: "length s * es \<le> SIZE_MAX" "4 * length s \<le> SIZE_MAX"
  shows "\<exists>st w' t. tda_span_sort_stable junk w es s cmp al = Some (st, w', t) \<and> I w' \<and> heap w' = heap w
    \<and> (if st = TDA_STATUS_OK then stable_of cmp s t \<and> mset t = mset s else t = s)"
proof (cases "length s < 2")
  case True
  then have "stable_of cmp s s" by (cases s; cases "tl s") (auto simp: stable_of_def sorted_by_def)
  then show ?thesis using w True by (simp add: tda_span_sort_stable_def)
next
  case False
  have sm: "size_mul (length s) es = length s * es" using fit(1) by (rule size_mul_exact)
  obtain t d f where wl: "width_loop cmp 1 s (map junk [0..<length s]) False = Some (t, d, f)" "stable_of cmp s t"
    "length t = length s" "length d = length s"
    using comparator.width_loop_spec [OF C _ fit(2) comparator.runs_sorted_start [OF C], of "map junk [0..<length s]" False]
    by auto
  note ms = comparator.stable_mset [OF C wl(2)]
  have cp: "(if f then tda_span_copy False d t else Some t) = Some t" using wl(3,4) False by (auto simp: tda_span_copy_def)
  show ?thesis
  proof (rule allocator.alloc_cases [OF A w fit(1)], goal_cases)
    case (1 w1)
    then show ?case using False sm by (simp add: tda_span_sort_stable_def Let_def)
  next
    case (2 p w1 bs)
    have "heap w1 p = Some bs" using 2(7) by simp
    then obtain w2 where w2: "tda_dealloc al w1 (Some p) (length s * es) = Some w2" "I w2" "heap w2 = (heap w1)(p := None)"
      using allocator.dealloc_some [OF A 2(2,4) _ 2(6)] by blast
    have "heap w2 = heap w" using w2(3) 2(5,7) by auto
    then show ?case
      using False sm wl(1,2) cp ms 2(1) w2(1,2) by (simp add: tda_span_sort_stable_def Let_def)
  qed
qed

end
