(* ===== verification/Tda_Set.thy ===== *)
theory Tda_Set
  imports Tda_Merge
begin

text \<open>
  The operations on sorted spans read as multisets (\<open>src/algo/set.c\<close>), on the element view. The
  four of them walk both spans at once and differ in what they write when the left element is
  less, when the right one is, and when the two are equal; that walk is \<open>set_loop\<close>, with one
  flag for each case. What comes out is described class by class of the comparator: how many
  elements of each class, from which span, in which order.
\<close>

section \<open>Operations\<close>

definition emit_when :: "bool \<Rightarrow> 'a list \<Rightarrow> nat \<Rightarrow> 'a \<Rightarrow> ('a list \<times> nat) option" where
  "emit_when b dst out x = (if b then tda_emit dst out x else Some (dst, out))"

function set_loop :: "bool \<Rightarrow> bool \<Rightarrow> bool \<Rightarrow> 'a list \<Rightarrow> 'a list \<Rightarrow> 'a list \<Rightarrow> 'a cmp_fn \<Rightarrow> nat \<Rightarrow> nat \<Rightarrow> nat
    \<Rightarrow> ('a list \<times> nat \<times> nat \<times> nat) option" where
  "set_loop keep_l keep_r keep_eq dst a b cmp i j out =
     (if i < length a \<and> j < length b then do {
        l \<leftarrow> span_get a i;
        r \<leftarrow> span_get b j;
        let c = cmp l r;
        if c < 0 then do {
          (d, out') \<leftarrow> emit_when keep_l dst out l;
          set_loop keep_l keep_r keep_eq d a b cmp (i + 1) j out'
        } else if c > 0 then do {
          (d, out') \<leftarrow> emit_when keep_r dst out r;
          set_loop keep_l keep_r keep_eq d a b cmp i (j + 1) out'
        } else do {
          (d, out') \<leftarrow> emit_when keep_eq dst out l;
          set_loop keep_l keep_r keep_eq d a b cmp (i + 1) (j + 1) out'
        }
      } else Some (dst, i, j, out))"
  by pat_completeness auto
termination
  by (relation "measure (\<lambda>(p, q, r, dst, a, b, cmp, i, j, out). (length a - i) + (length b - j))") auto

definition tda_span_set_union :: "'a list \<Rightarrow> 'a list \<Rightarrow> 'a list \<Rightarrow> 'a cmp_fn \<Rightarrow> ('a list \<times> nat) option" where
  "tda_span_set_union dst a b cmp = do {
     c_assert (length dst \<ge> size_add (length a) (length b));
     (d, i, j, out) \<leftarrow> set_loop True True True dst a b cmp 0 0 0;
     (d1, out1) \<leftarrow> tda_emit_rest d out a i;
     tda_emit_rest d1 out1 b j
   }"

definition tda_span_set_intersection :: "'a list \<Rightarrow> 'a list \<Rightarrow> 'a list \<Rightarrow> 'a cmp_fn \<Rightarrow> ('a list \<times> nat) option" where
  "tda_span_set_intersection dst a b cmp = do {
     c_assert (length dst \<ge> (if length a < length b then length a else length b));
     (d, i, j, out) \<leftarrow> set_loop False False True dst a b cmp 0 0 0;
     Some (d, out)
   }"

definition tda_span_set_difference :: "'a list \<Rightarrow> 'a list \<Rightarrow> 'a list \<Rightarrow> 'a cmp_fn \<Rightarrow> ('a list \<times> nat) option" where
  "tda_span_set_difference dst a b cmp = do {
     c_assert (length dst \<ge> length a);
     (d, i, j, out) \<leftarrow> set_loop True False False dst a b cmp 0 0 0;
     tda_emit_rest d out a i
   }"

definition tda_span_set_symmetric_difference ::
    "'a list \<Rightarrow> 'a list \<Rightarrow> 'a list \<Rightarrow> 'a cmp_fn \<Rightarrow> ('a list \<times> nat) option" where
  "tda_span_set_symmetric_difference dst a b cmp = do {
     c_assert (length dst \<ge> size_add (length a) (length b));
     (d, i, j, out) \<leftarrow> set_loop True True False dst a b cmp 0 0 0;
     (d1, out1) \<leftarrow> tda_emit_rest d out a i;
     tda_emit_rest d1 out1 b j
   }"

function includes_loop :: "'a list \<Rightarrow> 'a list \<Rightarrow> 'a cmp_fn \<Rightarrow> nat \<Rightarrow> nat \<Rightarrow> bool option" where
  "includes_loop whole sub cmp i j =
     (if j < length sub then do {
        want \<leftarrow> span_get sub j;
        i' \<leftarrow> skip_while (\<lambda>x. cmp x want < 0) whole i;
        past \<leftarrow> (if i' = length whole then Some True else do { x \<leftarrow> span_get whole i'; Some (cmp x want > 0) });
        if past then Some False else includes_loop whole sub cmp (i' + 1) (j + 1)
      } else Some True)"
  by pat_completeness auto
termination by (relation "measure (\<lambda>(whole, sub, cmp, i, j). length sub - j)") auto

definition tda_span_includes :: "'a list \<Rightarrow> 'a list \<Rightarrow> 'a cmp_fn \<Rightarrow> bool option" where
  "tda_span_includes whole sub cmp = includes_loop whole sub cmp 0 0"

declare set_loop.simps [simp del] includes_loop.simps [simp del]

section \<open>The same walk on lists\<close>

fun set_by :: "bool \<Rightarrow> bool \<Rightarrow> bool \<Rightarrow> 'a cmp_fn \<Rightarrow> 'a list \<Rightarrow> 'a list \<Rightarrow> 'a list" where
  "set_by keep_l keep_r keep_eq cmp [] ys = (if keep_r then ys else [])"
| "set_by keep_l keep_r keep_eq cmp xs [] = (if keep_l then xs else [])"
| "set_by keep_l keep_r keep_eq cmp (x # xs) (y # ys) =
     (if cmp x y < 0 then (if keep_l then [x] else []) @ set_by keep_l keep_r keep_eq cmp xs (y # ys)
      else if cmp x y > 0 then (if keep_r then [y] else []) @ set_by keep_l keep_r keep_eq cmp (x # xs) ys
      else (if keep_eq then [x] else []) @ set_by keep_l keep_r keep_eq cmp xs ys)"

lemma set_by_Nil2 [simp]: "set_by p q r cmp xs [] = (if p then xs else [])"
  by (cases xs) auto

lemma set_by_set: "set (set_by p q r cmp xs ys) \<subseteq> set xs \<union> set ys"
  by (induction p q r cmp xs ys rule: set_by.induct) auto

lemma set_by_length:
  "length (set_by p q r cmp xs ys) \<le> length xs + length ys"
  "length (set_by p False r cmp xs ys) \<le> length xs"
  "length (set_by False q r cmp xs ys) \<le> length ys"
proof -
  show "length (set_by p q r cmp xs ys) \<le> length xs + length ys"
    by (induction p q r cmp xs ys rule: set_by.induct) auto
  show "length (set_by p False r cmp xs ys) \<le> length xs"
    by (induction p "False" r cmp xs ys rule: set_by.induct) auto
  show "length (set_by False q r cmp xs ys) \<le> length ys"
    by (induction "False" q r cmp xs ys rule: set_by.induct) auto
qed

text \<open>
  The loop writes a part of that list and stops when one side is used up. The room that the
  whole list needs is enough.
\<close>

definition walks_to :: "'a list \<Rightarrow> nat \<Rightarrow> 'a list \<Rightarrow> 'a list \<Rightarrow> nat \<Rightarrow> 'a list \<Rightarrow> bool" where
  "walks_to dst out L d out' R \<longleftrightarrow> length d = length dst \<and> out \<le> out' \<and> out' + length R \<le> length dst
     \<and> take out' d @ R = take out dst @ L \<and> (\<forall>k\<ge>out'. drop k d = drop k dst)"

lemma walks_to_trans: "walks_to dst out L d1 o1 M \<Longrightarrow> walks_to d1 o1 M d o2 R \<Longrightarrow> walks_to dst out L d o2 R"
  by (auto simp: walks_to_def)

lemma emit_when_walks:
  assumes "out + length L \<le> length dst" "L = (if e then [x] else []) @ R"
  shows "\<exists>d o1. emit_when e dst out x = Some (d, o1) \<and> walks_to dst out L d o1 R"
  using assms by (auto simp: emit_when_def emit_at take_update_last walks_to_def)

lemma set_loop_spec:
  assumes "i \<le> length a" "j \<le> length b" "out + length (set_by p q r cmp (drop i a) (drop j b)) \<le> length dst"
  shows "\<exists>d i' j' out'. set_loop p q r dst a b cmp i j out = Some (d, i', j', out')
    \<and> i' \<le> length a \<and> j' \<le> length b \<and> (i' = length a \<or> j' = length b)
    \<and> walks_to dst out (set_by p q r cmp (drop i a) (drop j b)) d out' (set_by p q r cmp (drop i' a) (drop j' b))"
  using assms
proof (induction p q r dst a b cmp i j out rule: set_loop.induct)
  case (1 p q r dst a b cmp i j out)
  show ?case
  proof (cases "i < length a \<and> j < length b")
    case False
    then show ?thesis using "1.prems" by (subst set_loop.simps) (auto simp: walks_to_def)
  next
    case True
    let ?x = "a ! i" and ?y = "b ! j" and ?L = "set_by p q r cmp (drop i a) (drop j b)"
    have da: "drop i a = ?x # drop (i + 1) a" "drop j b = ?y # drop (j + 1) b"
      using True by (simp_all add: Cons_nth_drop_Suc)
    have le: "i + 1 \<le> length a" "j + 1 \<le> length b" using True by simp_all
    have room: "o1 + length R \<le> length d" if "walks_to dst out ?L d o1 R" for d o1 R
      using that by (simp add: walks_to_def)
    consider (lt) "cmp ?x ?y < 0" | (gt) "cmp ?x ?y > 0" | (eq) "cmp ?x ?y = 0" by linarith
    then show ?thesis
    proof cases
      case lt
      let ?R = "set_by p q r cmp (drop (i + 1) a) (drop j b)"
      have "?L = (if p then [?x] else []) @ ?R" using lt unfolding da by simp
      from emit_when_walks [OF "1.prems"(3) this] obtain d o1
        where e: "emit_when p dst out ?x = Some (d, o1)" "walks_to dst out ?L d o1 ?R" by blast
      show ?thesis
        using "1.IH"(1) [of ?x ?y "cmp ?x ?y" "(d, o1)" d o1] True lt le(1) "1.prems"(2) e(1) room [OF e(2)] walks_to_trans [OF e(2)]
        by (subst set_loop.simps) (auto simp: Let_def)
    next
      case gt
      let ?R = "set_by p q r cmp (drop i a) (drop (j + 1) b)"
      have "?L = (if q then [?y] else []) @ ?R" using gt unfolding da by simp
      from emit_when_walks [OF "1.prems"(3) this] obtain d o1
        where e: "emit_when q dst out ?y = Some (d, o1)" "walks_to dst out ?L d o1 ?R" by blast
      show ?thesis
        using "1.IH"(2) [of ?x ?y "cmp ?x ?y" "(d, o1)" d o1] True gt le(2) "1.prems"(1) e(1) room [OF e(2)] walks_to_trans [OF e(2)]
        by (subst set_loop.simps) (auto simp: Let_def)
    next
      case eq
      let ?R = "set_by p q r cmp (drop (i + 1) a) (drop (j + 1) b)"
      have "?L = (if r then [?x] else []) @ ?R" using eq unfolding da by simp
      from emit_when_walks [OF "1.prems"(3) this] obtain d o1
        where e: "emit_when r dst out ?x = Some (d, o1)" "walks_to dst out ?L d o1 ?R" by blast
      show ?thesis
        using "1.IH"(3) [of ?x ?y "cmp ?x ?y" "(d, o1)" d o1] True eq le e(1) room [OF e(2)] walks_to_trans [OF e(2)]
        by (subst set_loop.simps) (auto simp: Let_def)
    qed
  qed
qed

text \<open>Each operation puts its list at the front of \<open>dst\<close>, leaves the rest and reports the length.\<close>

definition front_of :: "'a list \<Rightarrow> 'a list \<Rightarrow> 'a list \<times> nat" where
  "front_of R dst = (R @ drop (length R) dst, length R)"

lemma walks_end:
  assumes "walks_to dst 0 L d out []"
  shows "(d, out) = front_of L dst"
proof -
  have t: "take out d = L" "length L = out" using assms by (auto simp: walks_to_def)
  have "d = take out d @ drop out d" by simp
  then show ?thesis using assms t by (simp add: walks_to_def front_of_def)
qed

lemma emit_rest_walks:
  assumes "start \<le> length src" "walks_to dst 0 L d out (drop start src @ R)"
  shows "\<exists>d1 o1. tda_emit_rest d out src start = Some (d1, o1) \<and> walks_to dst 0 L d1 o1 R"
proof -
  define r where "r = drop start src"
  have n: "length src - start = length r" by (simp add: r_def)
  have w: "length d = length dst" "out + length r + length R \<le> length dst" "take out d @ r @ R = L"
    "\<And>k. out \<le> k \<Longrightarrow> drop k d = drop k dst" using assms(2) by (simp_all add: walks_to_def flip: r_def)
  have e: "tda_emit_rest d out src start = Some (blit out r d, out + length r)"
    using emit_rest_spec [OF assms(1), of out d] w(1,2) unfolding n by (simp flip: r_def)
  have fit: "out + length r \<le> length d" using w(1,2) by simp
  have "drop k (blit out r d) = drop k dst" if "out + length r \<le> k" for k
  proof -
    have "drop k (blit out r d) = drop k d" using fit that by (simp add: blit_def)
    then show ?thesis using w(4) [of k] that by simp
  qed
  moreover have "take (out + length r) (blit out r d) @ R = L"
    unfolding take_blit_full [OF fit] using w(3) by simp
  moreover have "length (blit out r d) = length dst" using length_blit [OF fit] w(1) by simp
  ultimately have "walks_to dst 0 L (blit out r d) (out + length r) R"
    using w(2) unfolding walks_to_def by (intro conjI allI impI) simp_all
  with e show ?thesis by blast
qed

lemma set_loop_from_0:
  assumes "length (set_by p q r cmp a b) \<le> length dst"
  obtains d i j out where "set_loop p q r dst a b cmp 0 0 0 = Some (d, i, j, out)" "i \<le> length a" "j \<le> length b"
    "walks_to dst 0 (set_by p q r cmp a b) d out ((if p then drop i a else []) @ (if q then drop j b else []))"
proof -
  from set_loop_spec [of 0 a 0 b 0 p q r cmp dst] assms obtain d i j out where
    s: "set_loop p q r dst a b cmp 0 0 0 = Some (d, i, j, out)" "i \<le> length a" "j \<le> length b" "i = length a \<or> j = length b"
      "walks_to dst 0 (set_by p q r cmp a b) d out (set_by p q r cmp (drop i a) (drop j b))" by auto
  have "set_by p q r cmp (drop i a) (drop j b) = (if p then drop i a else []) @ (if q then drop j b else [])"
    using s(4) by auto
  with s show thesis by (intro that [of d i j out]) simp_all
qed

lemma union_spec:
  assumes "length a + length b \<le> SIZE_MAX" "length a + length b \<le> length dst"
  shows "tda_span_set_union dst a b cmp = Some (front_of (set_by True True True cmp a b) dst)"
proof -
  let ?L = "set_by True True True cmp a b"
  have "length ?L \<le> length dst" using set_by_length(1) [of True True True cmp a b] assms by linarith
  then obtain d i j out where s: "set_loop True True True dst a b cmp 0 0 0 = Some (d, i, j, out)" "i \<le> length a"
    "j \<le> length b" "walks_to dst 0 ?L d out (drop i a @ drop j b)" by (auto elim: set_loop_from_0)
  from emit_rest_walks [OF s(2,4)] obtain d1 o1 where
    e1: "tda_emit_rest d out a i = Some (d1, o1)" "walks_to dst 0 ?L d1 o1 (drop j b @ [])" by auto
  from emit_rest_walks [OF s(3) e1(2)] obtain d2 o2 where
    e2: "tda_emit_rest d1 o1 b j = Some (d2, o2)" "walks_to dst 0 ?L d2 o2 []" by auto
  show ?thesis
    using assms s(1) e1(1) e2(1) walks_end [OF e2(2)] by (simp add: tda_span_set_union_def size_add_exact)
qed

lemma symmetric_difference_spec:
  assumes "length a + length b \<le> SIZE_MAX" "length a + length b \<le> length dst"
  shows "tda_span_set_symmetric_difference dst a b cmp = Some (front_of (set_by True True False cmp a b) dst)"
proof -
  let ?L = "set_by True True False cmp a b"
  have "length ?L \<le> length dst" using set_by_length(1) [of True True False cmp a b] assms by linarith
  then obtain d i j out where s: "set_loop True True False dst a b cmp 0 0 0 = Some (d, i, j, out)" "i \<le> length a"
    "j \<le> length b" "walks_to dst 0 ?L d out (drop i a @ drop j b)" by (auto elim: set_loop_from_0)
  from emit_rest_walks [OF s(2,4)] obtain d1 o1 where
    e1: "tda_emit_rest d out a i = Some (d1, o1)" "walks_to dst 0 ?L d1 o1 (drop j b @ [])" by auto
  from emit_rest_walks [OF s(3) e1(2)] obtain d2 o2 where
    e2: "tda_emit_rest d1 o1 b j = Some (d2, o2)" "walks_to dst 0 ?L d2 o2 []" by auto
  show ?thesis
    using assms s(1) e1(1) e2(1) walks_end [OF e2(2)] by (simp add: tda_span_set_symmetric_difference_def size_add_exact)
qed

lemma intersection_spec:
  assumes "min (length a) (length b) \<le> length dst"
  shows "tda_span_set_intersection dst a b cmp = Some (front_of (set_by False False True cmp a b) dst)"
proof -
  let ?L = "set_by False False True cmp a b"
  have "length ?L \<le> length dst"
    using set_by_length(2) [of False True cmp a b] set_by_length(3) [of False True cmp a b] assms by linarith
  then obtain d i j out where s: "set_loop False False True dst a b cmp 0 0 0 = Some (d, i, j, out)"
    "walks_to dst 0 ?L d out []" by (auto elim: set_loop_from_0)
  show ?thesis
    using assms s(1) walks_end [OF s(2)] by (simp add: tda_span_set_intersection_def min_def split: if_splits)
qed

lemma difference_spec:
  assumes "length a \<le> length dst"
  shows "tda_span_set_difference dst a b cmp = Some (front_of (set_by True False False cmp a b) dst)"
proof -
  let ?L = "set_by True False False cmp a b"
  have "length ?L \<le> length dst" using set_by_length(2) [of True False cmp a b] assms by linarith
  then obtain d i j out where s: "set_loop True False False dst a b cmp 0 0 0 = Some (d, i, j, out)" "i \<le> length a"
    "walks_to dst 0 ?L d out (drop i a @ [])" by (auto elim: set_loop_from_0)
  from emit_rest_walks [OF s(2,3)] obtain d1 o1 where
    e1: "tda_emit_rest d out a i = Some (d1, o1)" "walks_to dst 0 ?L d1 o1 []" by auto
  show ?thesis
    using assms s(1) e1(1) walks_end [OF e1(2)] by (simp add: tda_span_set_difference_def)
qed

section \<open>What they compute, class by class\<close>

text \<open>The elements of one class, in order; the operations pair them off from the front.\<close>

definition class_of :: "'a cmp_fn \<Rightarrow> 'a \<Rightarrow> 'a list \<Rightarrow> 'a list" where
  "class_of cmp k xs = filter (\<lambda>x. cmp x k = 0) xs"

definition pair_off :: "bool \<Rightarrow> bool \<Rightarrow> bool \<Rightarrow> 'a list \<Rightarrow> 'a list \<Rightarrow> 'a list" where
  "pair_off p q r A B = (if r then take (length B) A else []) @ (if p then drop (length B) A else [])
     @ (if q then drop (length A) B else [])"

lemma class_of_simps [simp]:
  "class_of cmp k [] = []" "class_of cmp k (x # xs) = (if cmp x k = 0 then x # class_of cmp k xs else class_of cmp k xs)"
  "class_of cmp k (xs @ ys) = class_of cmp k xs @ class_of cmp k ys"
  by (simp_all add: class_of_def)

lemma class_of_empty: "(\<And>x. x \<in> set xs \<Longrightarrow> cmp x k \<noteq> 0) \<Longrightarrow> class_of cmp k xs = []"
  by (simp add: class_of_def filter_empty_conv)

lemma pair_off_simps [simp]:
  "pair_off p q r [] B = (if q then B else [])" "pair_off p q r A [] = (if p then A else [])"
  "pair_off p q r (x # A) (y # B) = (if r then [x] else []) @ pair_off p q r A B"
  by (simp_all add: pair_off_def)

context comparator
begin

lemma cmp_eq_class: "cmp x y = 0 \<Longrightarrow> cmp x k = 0 \<longleftrightarrow> cmp y k = 0"
  using cmp_trans [of x y k] cmp_trans [of y x k] cmp_trans [of k x y] cmp_trans [of k y x] cmp_le_ge cmp_eq_sym [of x y]
  by (metis order_antisym order_refl)

text \<open>Two lists that are not empty: their heads are below their tails, and one head below the other.\<close>

lemma sorted_pair_induct [consumes 2, case_names base lt gt eq]:
  assumes "sorted_by cmp xs" "sorted_by cmp ys"
    and base: "\<And>xs ys. xs = [] \<or> ys = [] \<Longrightarrow> sorted_by cmp xs \<Longrightarrow> sorted_by cmp ys \<Longrightarrow> P xs ys"
    and lt: "\<And>x xs y ys. cmp x y < 0 \<Longrightarrow> (\<And>z. z \<in> set xs \<Longrightarrow> cmp x z \<le> 0) \<Longrightarrow> (\<And>z. z \<in> set (y # ys) \<Longrightarrow> cmp x z < 0)
      \<Longrightarrow> P xs (y # ys) \<Longrightarrow> P (x # xs) (y # ys)"
    and gt: "\<And>x xs y ys. cmp x y > 0 \<Longrightarrow> (\<And>z. z \<in> set ys \<Longrightarrow> cmp y z \<le> 0) \<Longrightarrow> (\<And>z. z \<in> set (x # xs) \<Longrightarrow> cmp y z < 0)
      \<Longrightarrow> P (x # xs) ys \<Longrightarrow> P (x # xs) (y # ys)"
    and eq: "\<And>x xs y ys. cmp x y = 0 \<Longrightarrow> (\<And>z. z \<in> set xs \<Longrightarrow> cmp x z \<le> 0) \<Longrightarrow> (\<And>z. z \<in> set ys \<Longrightarrow> cmp x z \<le> 0)
      \<Longrightarrow> P xs ys \<Longrightarrow> P (x # xs) (y # ys)"
  shows "P xs ys"
  using assms(1,2)
proof (induction "length xs + length ys" arbitrary: xs ys rule: less_induct)
  case less
  show ?case
  proof (cases "xs = [] \<or> ys = []")
    case False
    then obtain x xs' y ys' where e: "xs = x # xs'" "ys = y # ys'" by (metis neq_Nil_conv)
    have s: "sorted_by cmp xs'" "sorted_by cmp ys'" "\<And>z. z \<in> set xs' \<Longrightarrow> cmp x z \<le> 0" "\<And>z. z \<in> set ys' \<Longrightarrow> cmp y z \<le> 0"
      using less.prems unfolding e by (simp_all add: sorted_by_def)
    consider "cmp x y < 0" | "cmp y x < 0" "cmp x y > 0" | "cmp x y = 0" using cmp_flip [of x y] by linarith
    then show ?thesis
    proof cases
      case 1
      have "cmp x z < 0" if "z \<in> set (y # ys')" for z using that 1 s(4) cmp_less_trans [OF 1] by auto
      then show ?thesis using lt [OF 1 s(3)] less.hyps [of xs' ys] s(1) less.prems(2) unfolding e by simp
    next
      case 2
      have "cmp y z < 0" if "z \<in> set (x # xs')" for z using that 2 s(3) cmp_less_trans [OF 2(1)] by auto
      then show ?thesis using gt [OF 2(2) s(4)] less.hyps [of xs ys'] s(2) less.prems(1) unfolding e by simp
    next
      case 3
      have "cmp x z \<le> 0" if "z \<in> set ys'" for z using that 3 s(4) cmp_trans [of x y z] by auto
      then show ?thesis using eq [OF 3 s(3)] less.hyps [of xs' ys'] s(1,2) unfolding e by simp
    qed
  qed (use base less.prems in blast)
qed

lemma set_by_sorted:
  assumes "sorted_by cmp xs" "sorted_by cmp ys"
  shows "sorted_by cmp (set_by p q r cmp xs ys)"
  using assms
proof (induction xs ys rule: sorted_pair_induct)
  case (lt x xs y ys)
  have "cmp x z \<le> 0" if "z \<in> set (set_by p q r cmp xs (y # ys))" for z
    using that set_by_set [of p q r cmp xs "y # ys"] lt(2) lt(3) by fastforce
  with lt show ?case by (cases p) (simp_all add: sorted_by_def)
next
  case (gt x xs y ys)
  have "cmp y z \<le> 0" if "z \<in> set (set_by p q r cmp (x # xs) ys)" for z
    using that set_by_set [of p q r cmp "x # xs" ys] gt(2) gt(3) by fastforce
  with gt show ?case by (cases q) (simp_all add: sorted_by_def)
next
  case (eq x xs y ys)
  have "cmp x z \<le> 0" if "z \<in> set (set_by p q r cmp xs ys)" for z
    using that set_by_set [of p q r cmp xs ys] eq(2,3) by blast
  with eq show ?case by (cases r) (simp_all add: sorted_by_def)
qed (auto simp: sorted_by_def)

text \<open>Of each class come as many elements as the two counts say, those of \<open>a\<close> first.\<close>

lemma class_of_below:
  assumes "cmp u k = 0" "\<And>z. z \<in> set zs \<Longrightarrow> cmp u z < 0"
  shows "class_of cmp k zs = []"
proof (rule class_of_empty)
  fix z assume "z \<in> set zs"
  then have "cmp u z < 0" by (rule assms(2))
  then have "cmp k z < 0" using assms(1) cmp_le_less_trans [of k u z] cmp_eq_sym [of u k] by simp
  then show "cmp z k \<noteq> 0" using cmp_eq_sym [of z k] by simp
qed

lemma set_by_class:
  assumes "sorted_by cmp xs" "sorted_by cmp ys"
  shows "class_of cmp k (set_by p q r cmp xs ys) = pair_off p q r (class_of cmp k xs) (class_of cmp k ys)"
  using assms
proof (induction xs ys rule: sorted_pair_induct)
  case (lt x xs y ys)
  then show ?case using class_of_below [of x k "y # ys"] by auto
next
  case (gt x xs y ys)
  then show ?case using class_of_below [of y k "x # xs"] by auto
next
  case (eq x xs y ys)
  then show ?case using cmp_eq_class [OF eq(1), of k] by auto
qed auto

end

section \<open>Inclusion\<close>

fun includes_by :: "'a cmp_fn \<Rightarrow> 'a list \<Rightarrow> 'a list \<Rightarrow> bool" where
  "includes_by cmp xs [] = True"
| "includes_by cmp xs (y # ys) = (case dropWhile (\<lambda>x. cmp x y < 0) xs of
     [] \<Rightarrow> False | x # xs' \<Rightarrow> cmp x y \<le> 0 \<and> includes_by cmp xs' ys)"

lemma includes_loop_spec:
  "i \<le> length xs \<Longrightarrow> includes_loop xs ys cmp i j = Some (includes_by cmp (drop i xs) (drop j ys))"
proof (induction xs ys cmp i j rule: includes_loop.induct)
  case (1 xs ys cmp i j)
  show ?case
  proof (cases "j < length ys")
    case True
    let ?y = "ys ! j"
    let ?p = "\<lambda>x. cmp x ?y < 0"
    let ?i = "i + length (takeWhile ?p (drop i xs))"
    have d: "drop j ys = ?y # drop (j + 1) ys" using True by (simp add: Cons_nth_drop_Suc)
    have w: "skip_while ?p xs i = Some ?i" by (rule skip_while_spec [OF "1.prems"])
    have dw: "dropWhile ?p (drop i xs) = drop ?i xs"
      by (simp add: dropWhile_eq_drop add.commute)
    have le: "?i \<le> length xs"
      using "1.prems" length_takeWhile_le [of ?p "drop i xs"] by simp
    show ?thesis
    proof (cases "?i = length xs")
      case e: True
      have "\<not> includes_by cmp (drop i xs) (?y # drop (j + 1) ys)" unfolding includes_by.simps dw e by simp
      then show ?thesis unfolding d using True w e by (subst includes_loop.simps) simp
    next
      case False
      then have lt: "?i < length xs" using le by simp
      then have dd: "drop ?i xs = xs ! ?i # drop (?i + 1) xs" by (simp add: Cons_nth_drop_Suc)
      show ?thesis
        unfolding d includes_by.simps dw dd
        using "1.IH" [OF True _ w, of "0 < cmp (xs ! ?i) ?y"] True w lt
        by (subst includes_loop.simps) (auto simp: not_less)
    qed
  qed (subst includes_loop.simps, simp)
qed

context comparator
begin

lemma includes_by_spec:
  "sorted_by cmp xs \<Longrightarrow> sorted_by cmp ys \<Longrightarrow>
     includes_by cmp xs ys \<longleftrightarrow> (\<forall>k. length (class_of cmp k ys) \<le> length (class_of cmp k xs))"
proof (induction ys arbitrary: xs)
  case (Cons y ys)
  define zs where "zs = dropWhile (\<lambda>x. cmp x y < 0) xs"
  have xs: "xs = takeWhile (\<lambda>x. cmp x y < 0) xs @ zs" by (simp add: zs_def)
  have s: "sorted_by cmp ys" "\<And>z. z \<in> set ys \<Longrightarrow> cmp y z \<le> 0" using Cons.prems(2) by (simp_all add: sorted_by_def)
  have sz: "sorted_by cmp zs" using Cons.prems(1) xs unfolding sorted_by_def by (metis sorted_wrt_append)
  text \<open>What is skipped is in no class that \<open>y # ys\<close> has elements of.\<close>
  have skip: "class_of cmp k xs = class_of cmp k zs" if "class_of cmp k (y # ys) \<noteq> []" for k
  proof -
    from that obtain z where z: "z \<in> set (y # ys)" "cmp z k = 0" by (metis class_of_empty)
    then have yz: "cmp y z \<le> 0" using s(2) by auto
    have "class_of cmp k (takeWhile (\<lambda>x. cmp x y < 0) xs) = []"
    proof (rule class_of_empty)
      fix x assume "x \<in> set (takeWhile (\<lambda>x. cmp x y < 0) xs)"
      then have "cmp x y < 0" by (rule set_takeWhileD [THEN conjunct2])
      then have "cmp x z < 0" using yz by (rule cmp_less_trans)
      then have "cmp x k < 0" using cmp_less_trans [of x z k] z(2) by simp
      then show "cmp x k \<noteq> 0" by simp
    qed
    then show ?thesis by (subst xs) simp
  qed
  have inc: "includes_by cmp xs (y # ys) = (case zs of [] \<Rightarrow> False | x # xs' \<Rightarrow> cmp x y \<le> 0 \<and> includes_by cmp xs' ys)"
    by (simp add: zs_def)
  have "(\<forall>k. length (class_of cmp k (y # ys)) \<le> length (class_of cmp k xs))
      \<longleftrightarrow> (\<forall>k. length (class_of cmp k (y # ys)) \<le> length (class_of cmp k zs))"
    using skip xs by (metis le0 list.size(3))
  also have "\<dots> \<longleftrightarrow> includes_by cmp xs (y # ys)"
  proof (cases zs)
    case Nil
    then have "\<not> length (class_of cmp y (y # ys)) \<le> length (class_of cmp y zs)" by simp
    then show ?thesis unfolding inc Nil list.case by blast
  next
    case (Cons x xs')
    have x: "\<not> cmp x y < 0" using Cons unfolding zs_def by (metis hd_dropWhile list.discI list.sel(1))
    have sx: "sorted_by cmp xs'" "\<And>z. z \<in> set xs' \<Longrightarrow> cmp x z \<le> 0" using sz Cons by (simp_all add: sorted_by_def)
    show ?thesis
    proof (cases "cmp x y > 0")
      case True
      then have "cmp y x < 0" using cmp_flip by blast
      then have "cmp y z < 0" if "z \<in> set zs" for z using that Cons sx(2) cmp_less_trans [of y x z] by auto
      then have "class_of cmp y zs = []" using class_of_below [of y y zs] by simp
      then have "\<not> length (class_of cmp y (y # ys)) \<le> length (class_of cmp y zs)" by simp
      then have "\<not> (\<forall>k. length (class_of cmp k (y # ys)) \<le> length (class_of cmp k zs))" by blast
      moreover have "\<not> includes_by cmp xs (y # ys)" using True unfolding inc Cons by simp
      ultimately show ?thesis by blast
    next
      case False
      then have e: "cmp x y = 0" using x by simp
      have "(length (class_of cmp k (y # ys)) \<le> length (class_of cmp k zs))
          \<longleftrightarrow> (length (class_of cmp k ys) \<le> length (class_of cmp k xs'))" for k
        using cmp_eq_class [OF e, of k] Cons by simp
      then show ?thesis using Cons.IH [OF sx(1) s(1)] e unfolding inc by (simp add: Cons)
    qed
  qed
  finally show ?case by blast
qed simp

end

lemma includes_spec: "tda_span_includes xs ys cmp = Some (includes_by cmp xs ys)"
  using includes_loop_spec [of 0 xs ys cmp 0] by (simp add: tda_span_includes_def)

end
