(* ===== verification/Tda_Modify.thy ===== *)
theory Tda_Modify
  imports Tda_Search
begin

text \<open>
  The algorithms that rewrite a span in one pass or read one: \<open>src/algo/modify.c\<close>,
  \<open>fill.c\<close>, \<open>transform.c\<close>, \<open>fold.c\<close> and \<open>compare.c\<close>. The element view is used where the code
  goes element by element (a key or a value that is passed in lies outside the span); the two
  functions that hand the whole run of bytes to \<open>memset\<close> or \<open>memcmp\<close> are on the memory.
\<close>

section \<open>Unique, remove, replace\<close>

definition key_matches :: "'a \<Rightarrow> 'a \<times> ('a \<Rightarrow> 'a \<Rightarrow> bool) \<Rightarrow> bool" where
  "key_matches elem ctx = (case ctx of (key, eq) \<Rightarrow> eq elem key)"

definition unique_step :: "('a \<Rightarrow> 'a \<Rightarrow> bool) \<Rightarrow> nat \<Rightarrow> 'a list \<times> nat \<Rightarrow> ('a list \<times> nat) option" where
  "unique_step eq rd = (\<lambda>(s, wr). do {
     cur \<leftarrow> span_get s rd;
     kept \<leftarrow> span_get s (wr - 1);
     if \<not> eq kept cur then do {
       s' \<leftarrow> (if wr \<noteq> rd then span_set s wr cur else Some s);
       Some (s', wr + 1)
     } else Some (s, wr) })"

definition tda_span_unique :: "'a list \<Rightarrow> ('a \<Rightarrow> 'a \<Rightarrow> bool) \<Rightarrow> ('a list \<times> nat) option" where
  "tda_span_unique s eq =
     (if length s < 2 then Some (s, length s)
      else for_loop [1..<length s] (unique_step eq) (s, 1))"

definition remove_step :: "('a \<Rightarrow> bool) \<Rightarrow> nat \<Rightarrow> 'a list \<times> nat \<Rightarrow> ('a list \<times> nat) option" where
  "remove_step pred rd = (\<lambda>(s, wr). do {
     cur \<leftarrow> span_get s rd;
     if \<not> pred cur then do {
       s' \<leftarrow> (if wr \<noteq> rd then span_set s wr cur else Some s);
       Some (s', wr + 1)
     } else Some (s, wr) })"

definition tda_span_remove_if :: "'a list \<Rightarrow> ('a \<Rightarrow> bool) \<Rightarrow> ('a list \<times> nat) option" where
  "tda_span_remove_if s pred = for_loop [0..<length s] (remove_step pred) (s, 0)"

definition tda_span_remove :: "'a list \<Rightarrow> 'a \<Rightarrow> ('a \<Rightarrow> 'a \<Rightarrow> bool) \<Rightarrow> ('a list \<times> nat) option" where
  "tda_span_remove s key eq = (let match = (key, eq) in tda_span_remove_if s (\<lambda>x. key_matches x match))"

definition tda_span_replace_if :: "'a list \<Rightarrow> ('a \<Rightarrow> bool) \<Rightarrow> 'a \<Rightarrow> 'a list option" where
  "tda_span_replace_if s pred val = for_loop [0..<length s] (\<lambda>i s. do {
     x \<leftarrow> span_get s i;
     if pred x then span_set s i val else Some s }) s"

definition tda_span_replace :: "'a list \<Rightarrow> 'a \<Rightarrow> 'a \<Rightarrow> ('a \<Rightarrow> 'a \<Rightarrow> bool) \<Rightarrow> 'a list option" where
  "tda_span_replace s key val eq = (let match = (key, eq) in tda_span_replace_if s (\<lambda>x. key_matches x match) val)"

section \<open>Fill, generate, transform\<close>

definition tda_span_fill :: "'a list \<Rightarrow> 'a \<Rightarrow> 'a list option" where
  "tda_span_fill s val = for_loop [0..<length s] (\<lambda>i s. span_set s i val) s"

definition tda_span_fill_zero :: "'s world \<Rightarrow> tda_Span \<Rightarrow> 's world option" where
  "tda_span_fill_zero w s = do {
     TDA_SPAN_ASSERT s;
     if sp_len s = 0 then Some w
     else do {
       (p, off) \<leftarrow> sp_data s;
       mem_set w p off 0 (size_mul (sp_len s) (sp_elem_size s))
     }
   }"

text \<open>A generator writes the element at its index, an operation the element at its destination.\<close>

definition tda_span_generate :: "'a list \<Rightarrow> (nat \<Rightarrow> 'a \<Rightarrow> 'a) \<Rightarrow> 'a list option" where
  "tda_span_generate s gen = for_loop [0..<length s] (\<lambda>i s. do {
     old \<leftarrow> span_get s i;
     span_set s i (gen i old) }) s"

definition tda_span_transform :: "'b list \<Rightarrow> 'a list \<Rightarrow> ('a \<Rightarrow> 'b) \<Rightarrow> 'b list option" where
  "tda_span_transform dst src op_fn = do {
     c_assert (length dst = length src);
     for_loop [0..<length src] (\<lambda>i dst. do {
       x \<leftarrow> span_get src i;
       span_set dst i (op_fn x) }) dst
   }"

definition tda_span_zip_with :: "'c list \<Rightarrow> 'a list \<Rightarrow> 'b list \<Rightarrow> ('a \<Rightarrow> 'b \<Rightarrow> 'c) \<Rightarrow> 'c list option" where
  "tda_span_zip_with dst a b op_fn = do {
     c_assert (length dst = length a);
     c_assert (length a = length b);
     for_loop [0..<length a] (\<lambda>i dst. do {
       x \<leftarrow> span_get a i;
       y \<leftarrow> span_get b i;
       span_set dst i (op_fn x y) }) dst
   }"

section \<open>Folds and scans\<close>

definition tda_span_fold :: "'a list \<Rightarrow> 'b \<Rightarrow> ('b \<Rightarrow> 'a \<Rightarrow> 'b) \<Rightarrow> 'b option" where
  "tda_span_fold s acc fold_fn = for_loop [0..<length s] (\<lambda>i acc. do {
     x \<leftarrow> span_get s i;
     Some (fold_fn acc x) }) acc"

definition tda_span_fold_back :: "'a list \<Rightarrow> 'b \<Rightarrow> ('b \<Rightarrow> 'a \<Rightarrow> 'b) \<Rightarrow> 'b option" where
  "tda_span_fold_back s acc fold_fn = for_loop (rev [0..<length s]) (\<lambda>i acc. do {
     x \<leftarrow> span_get s i;
     Some (fold_fn acc x) }) acc"

definition tda_span_partial_sum :: "'a list \<Rightarrow> 'a list \<Rightarrow> ('a \<Rightarrow> 'a \<Rightarrow> 'a) \<Rightarrow> 'a list option" where
  "tda_span_partial_sum dst src op_fn = do {
     c_assert (length dst = length src);
     if length src = 0 then Some dst
     else do {
       x \<leftarrow> span_get src 0;
       d0 \<leftarrow> span_set dst 0 x;
       for_loop [1..<length src] (\<lambda>i dst. do {
         prev \<leftarrow> span_get dst (i - 1);
         cur \<leftarrow> span_get src i;
         span_set dst i (op_fn prev cur) }) d0
     }
   }"

definition tda_span_adjacent_difference :: "'a list \<Rightarrow> 'a list \<Rightarrow> ('a \<Rightarrow> 'a \<Rightarrow> 'a) \<Rightarrow> 'a list option" where
  "tda_span_adjacent_difference dst src op_fn = do {
     c_assert (length dst = length src);
     if length src = 0 then Some dst
     else do {
       x \<leftarrow> span_get src 0;
       d0 \<leftarrow> span_set dst 0 x;
       for_loop [1..<length src] (\<lambda>i dst. do {
         cur \<leftarrow> span_get src i;
         prev \<leftarrow> span_get src (i - 1);
         span_set dst i (op_fn cur prev) }) d0
     }
   }"

section \<open>Comparing spans\<close>

text \<open>\<open>memcmp\<close> compares bytes; equality of the two runs is all that is asked of it.\<close>

definition tda_span_eq :: "'s world \<Rightarrow> tda_Span \<Rightarrow> tda_Span \<Rightarrow> bool option" where
  "tda_span_eq w a b = do {
     TDA_SPAN_ASSERT a;
     TDA_SPAN_ASSERT b;
     c_assert (sp_elem_size a = sp_elem_size b);
     if sp_len a \<noteq> sp_len b then Some False
     else if sp_len a = 0 \<or> sp_data a = sp_data b then Some True
     else do {
       (p, i) \<leftarrow> sp_data a;
       (q, j) \<leftarrow> sp_data b;
       xs \<leftarrow> mem_read w p i (size_mul (sp_len a) (sp_elem_size a));
       ys \<leftarrow> mem_read w q j (size_mul (sp_len a) (sp_elem_size a));
       Some (xs = ys)
     }
   }"

text \<open>In the element view \<open>same\<close> says that the two spans start at one address.\<close>

definition tda_span_eq_by :: "bool \<Rightarrow> 'a list \<Rightarrow> 'a list \<Rightarrow> ('a \<Rightarrow> 'a \<Rightarrow> bool) \<Rightarrow> bool option" where
  "tda_span_eq_by same a b eq =
     (if length a \<noteq> length b then Some False
      else if length a = 0 \<or> same then Some True
      else do {
        r \<leftarrow> for_find [0..<length a] (\<lambda>i. do { x \<leftarrow> span_get a i; y \<leftarrow> span_get b i; Some (\<not> eq x y) });
        Some (r = None)
      })"

text \<open>The result and \<open>*out_idx\<close> in one: the index is written exactly when the answer is true.\<close>

definition tda_span_mismatch :: "bool \<Rightarrow> 'a list \<Rightarrow> 'a list \<Rightarrow> ('a \<Rightarrow> 'a \<Rightarrow> bool) \<Rightarrow> nat option option" where
  "tda_span_mismatch same a b eq =
     (if same \<and> length a = length b then Some None
      else do {
        let common = (if length a < length b then length a else length b);
        for_find [0..<common] (\<lambda>i. do { x \<leftarrow> span_get a i; y \<leftarrow> span_get b i; Some (\<not> eq x y) })
      })"

definition tda_span_cmp :: "bool \<Rightarrow> 'a list \<Rightarrow> 'a list \<Rightarrow> 'a cmp_fn \<Rightarrow> int option" where
  "tda_span_cmp same a b cmp =
     (if same \<and> length a = length b then Some 0
      else do {
        let common = (if length a < length b then length a else length b);
        r \<leftarrow> for_find [0..<common] (\<lambda>i. do { x \<leftarrow> span_get a i; y \<leftarrow> span_get b i; Some (cmp x y \<noteq> 0) });
        case r of
          Some i \<Rightarrow> do { x \<leftarrow> span_get a i; y \<leftarrow> span_get b i; Some (if cmp x y < 0 then - 1 else 1) }
        | None \<Rightarrow> Some (c_bool (length a > length b) - c_bool (length a < length b))
      })"

section \<open>Unique, remove and replace\<close>

text \<open>What is kept: an element that differs from the last one kept.\<close>

fun unique_after :: "('a \<Rightarrow> 'a \<Rightarrow> bool) \<Rightarrow> 'a \<Rightarrow> 'a list \<Rightarrow> 'a list" where
  "unique_after eq k [] = []"
| "unique_after eq k (x # xs) = (if eq k x then unique_after eq k xs else x # unique_after eq x xs)"

definition unique_by :: "('a \<Rightarrow> 'a \<Rightarrow> bool) \<Rightarrow> 'a list \<Rightarrow> 'a list" where
  "unique_by eq xs = (case xs of [] \<Rightarrow> [] | x # xs' \<Rightarrow> x # unique_after eq x xs')"

lemma unique_after_snoc:
  "unique_after eq k (xs @ [x]) = (let us = unique_after eq k xs in
     if eq (last (k # us)) x then us else us @ [x])"
  by (induction eq k xs rule: unique_after.induct) (auto simp: Let_def)

lemma unique_by_snoc:
  "xs \<noteq> [] \<Longrightarrow> unique_by eq (xs @ [x]) = (if eq (last (unique_by eq xs)) x then unique_by eq xs else unique_by eq xs @ [x])"
  by (cases xs) (auto simp: unique_by_def unique_after_snoc Let_def)

lemma unique_spec:
  "\<exists>t. tda_span_unique s eq = Some (t, length (unique_by eq s)) \<and> length t = length s
     \<and> take (length (unique_by eq s)) t = unique_by eq s"
proof (cases "length s < 2")
  case True
  then show ?thesis by (cases s; cases "tl s") (auto simp: tda_span_unique_def unique_by_def)
next
  case False
  define Q where "Q i st \<longleftrightarrow> (case st of (t, wr) \<Rightarrow> length t = length s \<and> drop i t = drop i s \<and> 0 < wr \<and> wr \<le> i
    \<and> take wr t = unique_by eq (take i s))" for i and st :: "'a list \<times> nat"
  have step: "\<exists>st'. unique_step eq i st = Some st' \<and> Q (Suc i) st'" if "1 \<le> i" "i < length s" "Q i st" for i st
  proof -
    obtain t wr where st: "st = (t, wr)" by (cases st)
    have q: "length t = length s" "drop i t = drop i s" "0 < wr" "wr \<le> i" "take wr t = unique_by eq (take i s)"
      using that(3) by (simp_all add: Q_def st)
    have cur: "t ! i = s ! i" using q(1,2) that(2) by (metis hd_drop_conv_nth)
    have d: "drop (Suc i) t = drop (Suc i) s" using q(2) by (metis drop_Suc tl_drop)
    have "last (unique_by eq (take i s)) = t ! (wr - 1)"
      using q(1,3,4) that(2) last_conv_nth [of "take wr t"] by (cases "t = []") (auto simp flip: q(5))
    moreover have ne: "take i s \<noteq> []" using that by auto
    ultimately have u: "unique_by eq (take (Suc i) s) = (if eq (t ! (wr - 1)) (s ! i) then take wr t else take wr t @ [s ! i])"
      using unique_by_snoc [OF ne, of eq "s ! i"] that(2) q(5) by (simp add: take_Suc_conv_app_nth)
    show ?thesis
      using q cur d u that unfolding st
      by (auto simp: unique_step_def Q_def take_Suc_conv_app_nth take_update_cancel)
  qed
  have "Q 1 (s, 1)" using False by (cases s) (auto simp: Q_def unique_by_def)
  moreover have "1 \<le> length s" using False by simp
  ultimately have "\<exists>st. for_loop [1..<length s] (unique_step eq) (s, 1) = Some st \<and> Q (length s) st"
    using step by (intro for_loop_inv_from)
  then obtain st where "for_loop [1..<length s] (unique_step eq) (s, 1) = Some st" "Q (length s) st" by blast
  then obtain t wr where t: "for_loop [1..<length s] (unique_step eq) (s, 1) = Some (t, wr)" "Q (length s) (t, wr)"
    by (cases st) blast
  then have "length t = length s" "wr \<le> length s" "take wr t = unique_by eq s" by (simp_all add: Q_def)
  moreover from this have "wr = length (unique_by eq s)" by (metis length_take min.absorb2)
  ultimately show ?thesis using False t(1) by (auto simp: tda_span_unique_def)
qed

lemma remove_if_spec:
  fixes s :: "'a list" and pred :: "'a \<Rightarrow> bool"
  defines "R \<equiv> filter (\<lambda>x. \<not> pred x) s"
  shows "\<exists>t. tda_span_remove_if s pred = Some (t, length R) \<and> length t = length s \<and> take (length R) t = R"
proof -
  define Q where "Q i st \<longleftrightarrow> (case st of (t, wr) \<Rightarrow> length t = length s \<and> drop i t = drop i s \<and> wr \<le> i
    \<and> take wr t = filter (\<lambda>x. \<not> pred x) (take i s) \<and> wr = length (filter (\<lambda>x. \<not> pred x) (take i s)))"
    for i and st :: "'a list \<times> nat"
  have step: "\<exists>st'. remove_step pred i st = Some st' \<and> Q (Suc i) st'" if "i < length s" "Q i st" for i st
  proof -
    obtain t wr where st: "st = (t, wr)" by (cases st)
    have q: "length t = length s" "drop i t = drop i s" "wr \<le> i" "take wr t = filter (\<lambda>x. \<not> pred x) (take i s)"
      "wr = length (filter (\<lambda>x. \<not> pred x) (take i s))"
      using that(2) unfolding Q_def st prod.case by blast+
    have cur: "t ! i = s ! i" using q(1,2) that(1) by (metis hd_drop_conv_nth)
    have d: "drop (Suc i) t = drop (Suc i) s" using q(2) by (metis drop_Suc tl_drop)
    show ?thesis
      using q(1,3,4) q(5) cur d that(1) unfolding st
      by (auto simp: remove_step_def Q_def take_Suc_conv_app_nth take_update_cancel)
  qed
  have "Q 0 (s, 0)" by (simp add: Q_def)
  from for_loop_inv [where f = "remove_step pred", OF this step]
  obtain st where "for_loop [0..<length s] (remove_step pred) (s, 0) = Some st" "Q (length s) st" by blast
  then show ?thesis by (cases st) (auto simp: tda_span_remove_if_def Q_def R_def)
qed

text \<open>A loop that rewrites each element from what is there, and no other, is a map.\<close>

lemma for_loop_map:
  assumes "\<And>i t. i < length s \<Longrightarrow> length t = length s \<Longrightarrow> t ! i = s ! i \<Longrightarrow> f i t = Some (t[i := g i])" "n = length s"
  shows "for_loop [0..<n] f s = Some (map g [0..<length s])"
proof -
  define Q where "Q i t \<longleftrightarrow> length t = length s \<and> (\<forall>k<length s. t ! k = (if k < i then g k else s ! k))" for i t
  have "\<exists>t'. f i t = Some t' \<and> Q (Suc i) t'" if "i < n" "Q i t" for i t
    using assms(1) [of i t] that assms(2) by (auto simp: Q_def nth_list_update less_Suc_eq)
  moreover have "Q 0 s" by (simp add: Q_def)
  ultimately obtain t where "for_loop [0..<n] f s = Some t" "Q n t"
    using for_loop_inv [where Q = Q and n = n and f = f and s = s] by auto
  then show ?thesis using assms(2) by (auto simp: Q_def intro: nth_equalityI)
qed

lemma replace_if_spec: "tda_span_replace_if s pred val = Some (map (\<lambda>x. if pred x then val else x) s)"
proof -
  have e: "t = t[i := x]" if "t ! i = x" for t :: "'a list" and i x using that list_update_id by metis
  show ?thesis
    unfolding tda_span_replace_if_def
    by (subst for_loop_map [where g = "\<lambda>i. if pred (s ! i) then val else s ! i"])
      (auto intro: nth_equalityI e)
qed

section \<open>Fill, generate and transform\<close>

lemma fill_spec: "tda_span_fill s val = Some (replicate (length s) val)"
  unfolding tda_span_fill_def by (subst for_loop_map [where g = "\<lambda>i. val"]) (auto simp: map_replicate_trivial)

lemma generate_spec: "tda_span_generate s gen = Some (map (\<lambda>i. gen i (s ! i)) [0..<length s])"
  unfolding tda_span_generate_def by (subst for_loop_map [where g = "\<lambda>i. gen i (s ! i)"]) auto

lemma transform_spec:
  "length dst = length src \<Longrightarrow> tda_span_transform dst src f = Some (map f src)"
  unfolding tda_span_transform_def
  by (subst for_loop_map [where g = "\<lambda>i. f (src ! i)"]) (auto intro: nth_equalityI)

lemma zip_with_spec:
  "length dst = length a \<Longrightarrow> length a = length b \<Longrightarrow> tda_span_zip_with dst a b f = Some (map2 f a b)"
  unfolding tda_span_zip_with_def
  by (subst for_loop_map [where g = "\<lambda>i. f (a ! i) (b ! i)"]) (auto intro: nth_equalityI)

section \<open>Folds and scans\<close>

lemma fold_spec: "tda_span_fold s acc f = Some (foldl f acc s)"
proof -
  have "\<exists>r. for_loop [0..<length s] (\<lambda>i acc. do { x \<leftarrow> span_get s i; Some (f acc x) }) acc = Some r
      \<and> r = foldl f acc (take (length s) s)"
    by (rule for_loop_inv [where Q = "\<lambda>i r. r = foldl f acc (take i s)"]) (auto simp: take_Suc_conv_app_nth)
  then show ?thesis by (simp add: tda_span_fold_def)
qed

lemma fold_back_spec: "tda_span_fold_back s acc f = Some (foldr (\<lambda>x r. f r x) s acc)"
proof -
  have "\<exists>r. for_loop (rev [0..<length s]) (\<lambda>i acc. do { x \<leftarrow> span_get s i; Some (f acc x) }) acc = Some r
      \<and> r = foldr (\<lambda>x r. f r x) (drop 0 s) acc"
    by (rule for_loop_rev_inv [where Q = "\<lambda>i r. r = foldr (\<lambda>x r. f r x) (drop i s) acc"])
      (auto simp flip: Cons_nth_drop_Suc)
  then show ?thesis by (simp add: tda_span_fold_back_def)
qed

fun scan :: "('a \<Rightarrow> 'a \<Rightarrow> 'a) \<Rightarrow> 'a \<Rightarrow> 'a list \<Rightarrow> 'a list" where
  "scan f x [] = [x]"
| "scan f x (y # ys) = x # scan f (f x y) ys"

text \<open>\<open>partial_sum\<close> is the list of the folds of the prefixes, and the differences undo it.\<close>

lemma length_scan [simp]: "length (scan f x xs) = Suc (length xs)"
  by (induction f x xs rule: scan.induct) auto

lemma nth_scan: "i \<le> length xs \<Longrightarrow> scan f x xs ! i = foldl f x (take i xs)"
proof (induction f x xs arbitrary: i rule: scan.induct)
  case (2 f x y ys)
  then show ?case by (cases i) auto
qed simp

lemma partial_sum_spec:
  assumes "length dst = length src"
  shows "tda_span_partial_sum dst src f = Some (case src of [] \<Rightarrow> [] | x # xs \<Rightarrow> scan f x xs)"
proof (cases src)
  case (Cons x xs)
  define Q where "Q i t \<longleftrightarrow> length t = length src \<and> (\<forall>k<i. t ! k = scan f x xs ! k)" for i and t :: "'a list"
  have "Q 1 (dst[0 := x])" using assms Cons by (auto simp: Q_def nth_scan)
  moreover have "\<exists>t'. (do { prev \<leftarrow> span_get t (i - 1); cur \<leftarrow> span_get src i; span_set t i (f prev cur) }) = Some t' \<and> Q (Suc i) t'"
    if "1 \<le> i" "i < length src" "Q i t" for i t
  proof -
    define j where "j = i - 1"
    have j: "i = Suc j" using that(1) by (simp add: j_def)
    have "scan f x xs ! i = f (scan f x xs ! j) (src ! i)"
      using that(2) Cons j by (simp add: nth_scan take_Suc_conv_app_nth)
    then show ?thesis using that j by (auto simp: Q_def nth_list_update less_Suc_eq)
  qed
  ultimately have "\<exists>t. for_loop [1..<length src] (\<lambda>i dst. do {
       prev \<leftarrow> span_get dst (i - 1); cur \<leftarrow> span_get src i; span_set dst i (f prev cur) }) (dst[0 := x]) = Some t \<and> Q (length src) t"
    by (intro for_loop_inv_from) (simp_all add: Cons)
  then obtain t where "for_loop [1..<length src] (\<lambda>i dst. do {
       prev \<leftarrow> span_get dst (i - 1); cur \<leftarrow> span_get src i; span_set dst i (f prev cur) }) (dst[0 := x]) = Some t" "Q (length src) t"
    by blast
  moreover from this(2) have "t = scan f x xs" using Cons by (auto simp: Q_def intro: nth_equalityI)
  ultimately show ?thesis using assms Cons by (simp add: tda_span_partial_sum_def del: upt_Suc)
qed (use assms in \<open>simp add: tda_span_partial_sum_def\<close>)

lemma adjacent_difference_spec:
  assumes "length dst = length src"
  shows "\<exists>t. tda_span_adjacent_difference dst src f = Some t \<and> length t = length src
    \<and> (\<forall>k<length src. t ! k = (if k = 0 then src ! 0 else f (src ! k) (src ! (k - 1))))"
proof (cases src)
  case (Cons x xs)
  define Q where "Q i t \<longleftrightarrow> length t = length src \<and> (\<forall>k<i. t ! k = (if k = 0 then src ! 0 else f (src ! k) (src ! (k - 1))))"
    for i and t :: "'a list"
  have "Q 1 (dst[0 := src ! 0])" using assms Cons by (auto simp: Q_def)
  moreover have "\<exists>t'. (do { cur \<leftarrow> span_get src i; prev \<leftarrow> span_get src (i - 1); span_set t i (f cur prev) }) = Some t' \<and> Q (Suc i) t'"
    if "1 \<le> i" "i < length src" "Q i t" for i t
    using that by (auto simp: Q_def nth_list_update less_Suc_eq)
  ultimately have "\<exists>t. for_loop [1..<length src] (\<lambda>i dst. do {
       cur \<leftarrow> span_get src i; prev \<leftarrow> span_get src (i - 1); span_set dst i (f cur prev) }) (dst[0 := src ! 0]) = Some t \<and> Q (length src) t"
    by (intro for_loop_inv_from) (simp_all add: Cons)
  then show ?thesis using assms Cons by (simp add: tda_span_adjacent_difference_def Q_def del: upt_Suc)
qed (use assms in \<open>simp add: tda_span_adjacent_difference_def\<close>)

lemma difference_of_sum:
  assumes "\<And>a b. minus' (plus' a b) a = b" "length dst = length src" "length dst' = length src"
  shows "\<exists>t. tda_span_partial_sum dst src plus' = Some t \<and> tda_span_adjacent_difference dst' t minus' = Some src"
proof (cases src)
  case (Cons x xs)
  let ?t = "scan plus' x xs"
  have t: "tda_span_partial_sum dst src plus' = Some ?t" using partial_sum_spec [OF assms(2)] Cons by simp
  obtain u where u: "tda_span_adjacent_difference dst' ?t minus' = Some u" "length u = length ?t"
    "\<forall>k<length ?t. u ! k = (if k = 0 then ?t ! 0 else minus' (?t ! k) (?t ! (k - 1)))"
    using adjacent_difference_spec [of dst' ?t minus'] assms(3) Cons by auto
  have "u ! k = src ! k" if "k < length src" for k
  proof (cases k)
    case 0
    then show ?thesis using u(3) Cons by (simp add: nth_scan)
  next
    case (Suc j)
    then have "?t ! k = plus' (?t ! j) (src ! k)"
      using that Cons by (simp add: nth_scan take_Suc_conv_app_nth)
    then show ?thesis using u(3) that Suc Cons assms(1) by simp
  qed
  then have "u = src" using u(2) Cons by (auto intro: nth_equalityI)
  then show ?thesis using t u(1) by blast
qed (use assms in \<open>simp add: partial_sum_spec tda_span_adjacent_difference_def\<close>)

section \<open>Comparing spans\<close>

lemma span_nonempty_block:
  assumes "span_ok w s" "sp_len s \<noteq> 0"
  obtains p off bs where "sp_data s = Some (p, off)" "heap w p = Some bs" "off + sp_len s * sp_elem_size s \<le> length bs"
  using assms by (cases "sp_data s") (auto simp: span_ok_def)

lemma span_eq_spec:
  assumes "span_ok w a" "span_ok w b" "sp_elem_size a = sp_elem_size b"
  shows "tda_span_eq w a b = Some (span_elems w a = span_elems w b)"
proof (cases "sp_len a = sp_len b \<and> sp_len a \<noteq> 0 \<and> sp_data a \<noteq> sp_data b")
  case True
  obtain p i bs where da: "sp_data a = Some (p, i)" "heap w p = Some bs" "i + sp_len a * sp_elem_size a \<le> length bs"
    using span_nonempty_block [OF assms(1)] True by blast
  obtain q j cs where db: "sp_data b = Some (q, j)" "heap w q = Some cs" "j + sp_len b * sp_elem_size b \<le> length cs"
    using span_nonempty_block [OF assms(2)] True by metis
  have m: "size_mul (sp_len a) (sp_elem_size a) = sp_len a * sp_elem_size a"
    using assms(1) by (simp add: span_ok_def size_mul_exact)
  have inj: "span_elems w a = span_elems w b \<longleftrightarrow> span_bytes w a = span_bytes w b"
  proof
    assume e: "span_elems w a = span_elems w b"
    have c: "concat (span_elems w s) = span_bytes w s" if "span_ok w s" for s
      using concat_elems [OF _ length_span_bytes [OF that]] that by (simp add: span_elems_def span_ok_def)
    show "span_bytes w a = span_bytes w b" using e c [OF assms(1)] c [OF assms(2)] by simp
  qed (simp add: span_elems_def assms(3))
  show ?thesis
    unfolding inj using True da db assms m
    by (auto simp: tda_span_eq_def span_assert_ok mem_read_ok span_bytes_def)
next
  case False
  note a = span_assert_ok [OF assms(1)] span_assert_ok [OF assms(2)]
  have l: "length (span_elems w a) = sp_len a" "length (span_elems w b) = sp_len b"
    using assms by (simp_all add: length_span_elems)
  consider "sp_len a \<noteq> sp_len b" | "sp_len a = sp_len b" "sp_len a = 0" | "sp_len a = sp_len b" "sp_data a = sp_data b"
    using False by blast
  then show ?thesis
  proof cases
    case 1
    then have "span_elems w a \<noteq> span_elems w b" using l by metis
    then show ?thesis using 1 a assms(3) by (simp add: tda_span_eq_def)
  next
    case 2
    then have "span_elems w a = span_elems w b" using l by simp
    then show ?thesis using 2 a assms(3) by (simp add: tda_span_eq_def)
  next
    case 3
    then have "span_elems w a = span_elems w b" unfolding span_elems_def span_bytes_def assms(3) by (auto split: option.splits)
    then show ?thesis using 3 a assms(3) by (simp add: tda_span_eq_def)
  qed
qed

lemma fill_zero_spec:
  assumes "span_ok w s"
  shows "\<exists>w'. tda_span_fill_zero w s = Some w' \<and> span_ok w' s
    \<and> span_elems w' s = replicate (sp_len s) (replicate (sp_elem_size s) 0)"
proof (cases "sp_len s = 0")
  case True
  then show ?thesis using assms length_span_elems [OF assms] by (simp add: tda_span_fill_zero_def span_assert_ok)
next
  case False
  let ?es = "sp_elem_size s" and ?n = "sp_len s * sp_elem_size s"
  obtain p off bs where d: "sp_data s = Some (p, off)" "heap w p = Some bs" "off + ?n \<le> length bs"
    using span_nonempty_block [OF assms] False by blast
  have m: "size_mul (sp_len s) ?es = ?n" using assms by (simp add: span_ok_def size_mul_exact)
  let ?w = "w\<lparr>heap := (heap w)(p \<mapsto> blit off (replicate ?n 0) bs)\<rparr>"
  have "tda_span_fill_zero w s = Some ?w"
    using assms False d m by (simp add: tda_span_fill_zero_def span_assert_ok mem_set_ok)
  moreover have "span_ok ?w s" using assms d by (simp add: span_ok_def length_blit)
  moreover have "span_bytes ?w s = replicate ?n 0"
    using d slice_blit_same [of off "replicate ?n 0" bs] by (simp add: span_bytes_def)
  then have "span_elems ?w s = replicate (sp_len s) (replicate ?es 0)"
    using assms by (simp add: span_elems_def elems_replicate span_ok_def)
  ultimately show ?thesis by blast
qed

text \<open>The loop all three comparisons run: the first index where the two spans disagree.\<close>

lemma pairs_first:
  assumes "n \<le> length a" "n \<le> length b"
  obtains r where "for_find [0..<n] (\<lambda>i. do { x \<leftarrow> span_get a i; y \<leftarrow> span_get b i; Some (P x y) }) = Some r"
    "first_at (\<lambda>i. P (a ! i) (b ! i)) n r"
proof -
  have "\<exists>r. for_find [0..<n] (\<lambda>i. do { x \<leftarrow> span_get a i; y \<leftarrow> span_get b i; Some (P x y) }) = Some r
      \<and> first_at (\<lambda>i. P (a ! i) (b ! i)) n r"
    by (rule for_find_first) (use assms in simp)
  then show thesis using that by blast
qed

lemma eq_by_spec:
  assumes "same \<Longrightarrow> length a = length b \<Longrightarrow> list_all2 eq a b"
  shows "tda_span_eq_by same a b eq = Some (list_all2 eq a b)"
proof (cases "length a = length b \<and> length a \<noteq> 0 \<and> \<not> same")
  case True
  obtain r where r: "for_find [0..<length a] (\<lambda>i. do { x \<leftarrow> span_get a i; y \<leftarrow> span_get b i; Some (\<not> eq x y) }) = Some r"
    "first_at (\<lambda>i. \<not> eq (a ! i) (b ! i)) (length a) r"
    using pairs_first [of "length a" a b "\<lambda>x y. \<not> eq x y"] True by auto
  have "r = None \<longleftrightarrow> list_all2 eq a b"
    using r(2) True by (auto simp: first_at_def list_all2_conv_all_nth split: option.splits)
  then show ?thesis using True r(1) by (auto simp: tda_span_eq_by_def)
next
  case False
  then show ?thesis using assms by (auto simp: tda_span_eq_by_def dest: list_all2_lengthD)
qed

lemma mismatch_spec:
  assumes "same \<Longrightarrow> length a = length b \<Longrightarrow> \<forall>i<length a. eq (a ! i) (b ! i)"
  shows "\<exists>r. tda_span_mismatch same a b eq = Some r
    \<and> first_at (\<lambda>i. \<not> eq (a ! i) (b ! i)) (min (length a) (length b)) r"
proof (cases "same \<and> length a = length b")
  case True
  then show ?thesis using assms by (auto simp: tda_span_mismatch_def first_at_def)
next
  case False
  define n where "n = min (length a) (length b)"
  have n: "(if length a < length b then length a else length b) = n" by (simp add: n_def)
  have "n \<le> length a" "n \<le> length b" by (simp_all add: n_def)
  from pairs_first [OF this, of "\<lambda>x y. \<not> eq x y"]
  have "\<exists>r. for_find [0..<n] (\<lambda>i. do { x \<leftarrow> span_get a i; y \<leftarrow> span_get b i; Some (\<not> eq x y) }) = Some r
      \<and> first_at (\<lambda>i. \<not> eq (a ! i) (b ! i)) n r" by blast
  moreover have "\<not> (same \<and> length a = length b)" using False by blast
  ultimately show ?thesis unfolding tda_span_mismatch_def n Let_def n_def [symmetric] by (simp only: if_False)
qed

text \<open>The lexicographic order a comparator of the elements gives.\<close>

fun lex_cmp :: "'a cmp_fn \<Rightarrow> 'a list cmp_fn" where
  "lex_cmp cmp [] [] = 0"
| "lex_cmp cmp [] (y # ys) = - 1"
| "lex_cmp cmp (x # xs) [] = 1"
| "lex_cmp cmp (x # xs) (y # ys) = (if cmp x y < 0 then - 1 else if cmp x y > 0 then 1 else lex_cmp cmp xs ys)"

lemma lex_cmp_prefix:
  "n \<le> length xs \<Longrightarrow> n \<le> length ys \<Longrightarrow> \<forall>i<n. cmp (xs ! i) (ys ! i) = 0 \<Longrightarrow> lex_cmp cmp xs ys = lex_cmp cmp (drop n xs) (drop n ys)"
proof (induction n arbitrary: xs ys)
  case (Suc n)
  then obtain x xs' y ys' where e: "xs = x # xs'" "ys = y # ys'" by (metis Suc_le_length_iff)
  have "cmp x y = 0" "\<forall>i<n. cmp (xs' ! i) (ys' ! i) = 0" using Suc.prems(3) e by force+
  then show ?case using Suc e by simp
qed simp

lemma span_cmp_spec:
  assumes "same \<Longrightarrow> length a = length b \<Longrightarrow> \<forall>i<length a. cmp (a ! i) (b ! i) = 0"
  shows "tda_span_cmp same a b cmp = Some (lex_cmp cmp a b)"
proof (cases "same \<and> length a = length b")
  case True
  then show ?thesis using assms lex_cmp_prefix [of "length a" a b cmp] by (simp add: tda_span_cmp_def)
next
  case False
  define n where "n = min (length a) (length b)"
  have n: "(if length a < length b then length a else length b) = n" by (simp add: n_def)
  have le: "n \<le> length a" "n \<le> length b" by (simp_all add: n_def)
  obtain r where r: "for_find [0..<n] (\<lambda>i. do { x \<leftarrow> span_get a i; y \<leftarrow> span_get b i; Some (cmp x y \<noteq> 0) }) = Some r"
    "first_at (\<lambda>i. cmp (a ! i) (b ! i) \<noteq> 0) n r"
    using pairs_first [OF le, of "\<lambda>x y. cmp x y \<noteq> 0"] by blast
  show ?thesis
  proof (cases r)
    case None
    then have "lex_cmp cmp a b = lex_cmp cmp (drop n a) (drop n b)"
      using r(2) le by (intro lex_cmp_prefix) (auto simp: first_at_def)
    also have "\<dots> = c_bool (length a > length b) - c_bool (length a < length b)"
    proof (cases "length a" "length b" rule: linorder_cases)
      case less
      then have "drop n a = []" "drop n b \<noteq> []" by (simp_all add: n_def)
      then show ?thesis using less by (cases "drop n b") (auto simp: c_bool_def)
    next
      case equal
      then show ?thesis by (simp add: n_def c_bool_def)
    next
      case greater
      then have "drop n b = []" "drop n a \<noteq> []" by (simp_all add: n_def)
      then show ?thesis using greater by (cases "drop n a") (auto simp: c_bool_def)
    qed
    finally show ?thesis using False r(1) None unfolding tda_span_cmp_def n Let_def by simp
  next
    case (Some i)
    then have i: "i < n" "cmp (a ! i) (b ! i) \<noteq> 0" "\<forall>j<i. cmp (a ! j) (b ! j) = 0" using r(2) by (auto simp: first_at_def)
    then have "lex_cmp cmp a b = lex_cmp cmp (drop i a) (drop i b)" using le by (intro lex_cmp_prefix) auto
    also have "\<dots> = (if cmp (a ! i) (b ! i) < 0 then - 1 else 1)"
      using i le by (simp flip: Cons_nth_drop_Suc)
    finally show ?thesis using False r(1) Some i(1) le unfolding tda_span_cmp_def n Let_def by simp
  qed
qed

end
