(* ===== verification/Tda_Hash.thy ===== *)
theory Tda_Hash
  imports Tda_Cmp
begin

unbundle bit_operations_syntax

text \<open>
  Hashing (\<open>src/core/hash.c\<close>) on 64-bit words. Every hash ends in the mixer \<open>hash_mix_u64\<close>, which
  is shown to be injective, so the hash of an integer of at most 64 bits never collides. A key
  must hash like every key equal to it; that is proved for each built-in comparator, the
  floating-point ones, where both zeros are equal and so are all NaNs, included.
\<close>

section \<open>Operations\<close>

definition FNV_OFFSET_BASIS_64 :: "64 word" where
  "FNV_OFFSET_BASIS_64 = 14695981039346656037"

definition FNV_PRIME_64 :: "64 word" where
  "FNV_PRIME_64 = 1099511628211"

definition FMIX64_C1 :: "64 word" where
  "FMIX64_C1 = 0xff51afd7ed558ccd"

definition FMIX64_C2 :: "64 word" where
  "FMIX64_C2 = 0xc4ceb9fe1a85ec53"

definition HASH_GOLDEN_64 :: "64 word" where
  "HASH_GOLDEN_64 = 0x9e3779b97f4a7c15"

definition HASH_SEED_64 :: "64 word" where
  "HASH_SEED_64 = 0xa0761d6478bd642f"

definition NAN_CANON_32 :: "32 word" where
  "NAN_CANON_32 = 0x7fc00000"

definition NAN_CANON_64 :: "64 word" where
  "NAN_CANON_64 = 0x7ff8000000000000"

definition hash_mix_u64 :: "64 word \<Rightarrow> 64 word" where
  "hash_mix_u64 x0 = (
     let x = x0 XOR HASH_SEED_64;
         x = x XOR drop_bit 33 x;
         x = x * FMIX64_C1;
         x = x XOR drop_bit 33 x;
         x = x * FMIX64_C2;
         x = x XOR drop_bit 33 x
     in x)"

text \<open>\<open>DEFINE_HASH_INT\<close> at an unsigned type (and \<open>char\<close>) and at a signed one.\<close>

definition hash_uint :: "('w::len) word \<Rightarrow> 64 word" where
  "hash_uint val = hash_mix_u64 (ucast val)"

definition hash_sint :: "('w::len) word \<Rightarrow> 64 word" where
  "hash_sint val = hash_mix_u64 (scast val)"

text \<open>A float is its bit pattern: \<open>f == 0\<close> holds of both zeros, and then \<open>f\<close> becomes the positive one.\<close>

definition tda_hash_f32 :: "32 word \<Rightarrow> 64 word" where
  "tda_hash_f32 val = (
     let f = (if \<not> f32_isnan val \<and> f32_key val = 0 then 0 else val);
         bits = (if f32_isnan f then NAN_CANON_32 else f)
     in hash_mix_u64 (ucast bits))"

definition tda_hash_f64 :: "64 word \<Rightarrow> 64 word" where
  "tda_hash_f64 val = (
     let f = (if \<not> f64_isnan val \<and> f64_key val = 0 then 0 else val);
         bits = (if f64_isnan f then NAN_CANON_64 else f)
     in hash_mix_u64 bits)"

definition fnv_step :: "64 word \<Rightarrow> byte \<Rightarrow> 64 word" where
  "fnv_step h b = (h XOR ucast b) * FNV_PRIME_64"

definition tda_hash_bytes :: "byte list \<Rightarrow> 64 word" where
  "tda_hash_bytes data = hash_mix_u64 (foldl fnv_step FNV_OFFSET_BASIS_64 data)"

definition tda_hash_cstr :: "(nat \<Rightarrow> byte list) \<Rightarrow> nat option \<Rightarrow> 64 word" where
  "tda_hash_cstr str val = (case val of None \<Rightarrow> hash_mix_u64 0 | Some p \<Rightarrow> tda_hash_bytes (str p))"

definition tda_hash_combine :: "64 word \<Rightarrow> 64 word \<Rightarrow> 64 word" where
  "tda_hash_combine a b = hash_mix_u64 (a XOR (b + HASH_GOLDEN_64 + push_bit 6 a + drop_bit 2 a))"

section \<open>The steps of a mixer are injective\<close>

lemma xor_drop_bit_inj:
  fixes x y :: "'w::len word"
  assumes "x XOR drop_bit n x = y XOR drop_bit n y" "0 < n"
  shows "x = y"
proof (rule bit_eqI)
  fix i
  show "bit x i = bit y i"
  proof (induction "LENGTH('w) - i" arbitrary: i rule: less_induct)
    case less
    show ?case
    proof (cases "i < LENGTH('w)")
      case True
      then have "bit x (n + i) = bit y (n + i)" using less.hyps [of "n + i"] assms(2) by simp
      moreover have "bit (x XOR drop_bit n x) i = bit (y XOR drop_bit n y) i" using assms(1) by simp
      ultimately show ?thesis by (simp add: bit_xor_iff bit_drop_bit_eq) blast
    qed (simp add: bit_word.rep_eq)
  qed
qed

lemma xor_right_inj:
  fixes x y c :: "'w::len word"
  assumes "x XOR c = y XOR c"
  shows "x = y"
proof -
  have "(x XOR c) XOR c = (y XOR c) XOR c" using assms by simp
  then show ?thesis by (simp add: ac_simps)
qed

lemma mult_unit_inj:
  fixes x y c d :: "'w::len word"
  assumes "c * d = 1" "x * c = y * c"
  shows "x = y"
proof -
  have "x * c * d = y * c * d" using assms(2) by simp
  then show ?thesis using assms(1) by (simp add: mult.assoc)
qed

lemma fmix_units: "FMIX64_C1 * 0x4f74430c22a54005 = 1" "FMIX64_C2 * 0x9cb4b2f8129337db = 1"
  by (simp_all add: FMIX64_C1_def FMIX64_C2_def)

lemma hash_mix_inj: "hash_mix_u64 x = hash_mix_u64 y \<Longrightarrow> x = y"
  unfolding hash_mix_u64_def Let_def
  by (blast dest: xor_drop_bit_inj [where n = 33, simplified] mult_unit_inj [OF fmix_units(1)] mult_unit_inj [OF fmix_units(2)] xor_right_inj)

lemma hash_mix_eq_iff [simp]: "hash_mix_u64 x = hash_mix_u64 y \<longleftrightarrow> x = y"
  using hash_mix_inj by blast

section \<open>Integers never collide\<close>

lemma hash_uint_inj:
  fixes a b :: "'w::len word"
  assumes "LENGTH('w) \<le> 64"
  shows "hash_uint a = hash_uint b \<longleftrightarrow> a = b"
proof
  assume "hash_uint a = hash_uint b"
  then have e: "ucast a = (ucast b :: 64 word)" by (simp add: hash_uint_def)
  show "a = b"
  proof (rule bit_word_eqI)
    fix n assume "n < LENGTH('w)"
    moreover have "bit (ucast a :: 64 word) n = bit (ucast b :: 64 word) n" using e by simp
    ultimately show "bit a n = bit b n" using assms by (simp add: bit_ucast_iff)
  qed
qed simp

lemma hash_sint_inj:
  fixes a b :: "'w::len word"
  assumes "LENGTH('w) \<le> 64"
  shows "hash_sint a = hash_sint b \<longleftrightarrow> a = b"
proof
  assume "hash_sint a = hash_sint b"
  then have e: "scast a = (scast b :: 64 word)" by (simp add: hash_sint_def)
  show "a = b"
  proof (rule bit_word_eqI)
    fix n assume "n < LENGTH('w)"
    moreover have "bit (scast a :: 64 word) n = bit (scast b :: 64 word) n" using e by simp
    moreover have "(if LENGTH('w) - Suc 0 \<le> n then LENGTH('w) - Suc 0 else n) = n" using \<open>n < LENGTH('w)\<close> by auto
    ultimately show "bit a n = bit b n" using assms by (simp add: bit_signed_iff min_def)
  qed
qed simp

section \<open>Equal keys hash alike\<close>

lemma sign_magnitude_inj:
  fixes a b :: "'w::len word"
  assumes "take_bit n a = take_bit n b" "bit a n = bit b n" "LENGTH('w) = Suc n"
  shows "a = b"
proof (rule bit_word_eqI)
  fix i assume "i < LENGTH('w)"
  then consider "i < n" | "i = n" using assms(3) by linarith
  then show "bit a i = bit b i"
  proof cases
    case 1
    have "bit (take_bit n a) i = bit (take_bit n b) i" using assms(1) by simp
    then show ?thesis using 1 by (simp add: bit_take_bit_iff)
  qed (simp add: assms(2))
qed

lemma key_parts:
  assumes "(if p then - int m else int m) = (if q then - int k else int k)" "(if p then - int m else int m) \<noteq> 0"
  shows "p = q \<and> m = k"
  using assms by (auto split: if_splits)

text \<open>The pattern that is hashed stands for the whole class of the comparator.\<close>

definition f64_canon :: "64 word \<Rightarrow> 64 word" where
  "f64_canon val = (let f = (if \<not> f64_isnan val \<and> f64_key val = 0 then 0 else val)
     in if f64_isnan f then NAN_CANON_64 else f)"

lemma nan_canon_64: "f64_isnan NAN_CANON_64"
  by (simp add: f64_isnan_def NAN_CANON_64_def)

lemma zero_not_nan [simp]: "\<not> f64_isnan 0" "\<not> f32_isnan 0"
  by (simp_all add: f64_isnan_def f32_isnan_def)

lemma zero_key [simp]: "f64_key 0 = 0" "f32_key 0 = 0"
  by (simp_all add: f64_key_def f32_key_def)

lemma f64_key_inj:
  assumes "f64_key a = f64_key b" "f64_key a \<noteq> 0"
  shows "a = b"
proof -
  have "bit a 63 = bit b 63" "unat (take_bit 63 a) = unat (take_bit 63 b)"
    using key_parts [OF assms [unfolded f64_key_def]] by blast+
  then have "take_bit 63 a = take_bit 63 b" "bit a 63 = bit b 63" using word_unat_eq_iff by blast+
  then show ?thesis by (rule sign_magnitude_inj) simp
qed

lemma f64_canon_eq_iff: "f64_canon a = f64_canon b \<longleftrightarrow> cmp_f64 a b = 0"
proof -
  have c: "f64_canon v = (if f64_isnan v then NAN_CANON_64 else if f64_key v = 0 then 0 else v)" for v
    by (simp add: f64_canon_def)
  have z: "NAN_CANON_64 \<noteq> 0" by (simp add: NAN_CANON_64_def)
  show ?thesis
    using f64_key_inj [of a b] nan_canon_64 z
    by (auto simp: c cmp_f64_def cmp_float_def c_bool_def split: if_splits)
qed

lemma hash_f64_eq_iff: "tda_hash_f64 a = tda_hash_f64 b \<longleftrightarrow> cmp_f64 a b = 0"
  using f64_canon_eq_iff [of a b] by (simp add: tda_hash_f64_def f64_canon_def Let_def)

definition f32_canon :: "32 word \<Rightarrow> 32 word" where
  "f32_canon val = (let f = (if \<not> f32_isnan val \<and> f32_key val = 0 then 0 else val)
     in if f32_isnan f then NAN_CANON_32 else f)"

lemma nan_canon_32: "f32_isnan NAN_CANON_32"
  by (simp add: f32_isnan_def NAN_CANON_32_def)

lemma f32_key_inj:
  assumes "f32_key a = f32_key b" "f32_key a \<noteq> 0"
  shows "a = b"
proof -
  have "bit a 31 = bit b 31" "unat (take_bit 31 a) = unat (take_bit 31 b)"
    using key_parts [OF assms [unfolded f32_key_def]] by blast+
  then have "take_bit 31 a = take_bit 31 b" "bit a 31 = bit b 31" using word_unat_eq_iff by blast+
  then show ?thesis by (rule sign_magnitude_inj) simp
qed

lemma f32_canon_eq_iff: "f32_canon a = f32_canon b \<longleftrightarrow> cmp_f32 a b = 0"
proof -
  have c: "f32_canon v = (if f32_isnan v then NAN_CANON_32 else if f32_key v = 0 then 0 else v)" for v
    by (simp add: f32_canon_def)
  have z: "NAN_CANON_32 \<noteq> 0" by (simp add: NAN_CANON_32_def)
  show ?thesis
    using f32_key_inj [of a b] nan_canon_32 z
    by (auto simp: c cmp_f32_def cmp_float_def c_bool_def split: if_splits)
qed

lemma hash_f32_eq_iff: "tda_hash_f32 a = tda_hash_f32 b \<longleftrightarrow> cmp_f32 a b = 0"
proof -
  have h: "tda_hash_f32 v = hash_uint (f32_canon v)" for v
    by (simp add: tda_hash_f32_def f32_canon_def hash_uint_def Let_def)
  show ?thesis unfolding h by (simp add: hash_uint_inj f32_canon_eq_iff)
qed

text \<open>Strings: the null pointer is a key of its own, and equal strings at two addresses hash alike.\<close>

lemma hash_cstr_eq:
  assumes "cmp_cstr str a b = 0"
  shows "tda_hash_cstr str a = tda_hash_cstr str b"
proof (cases "a = b")
  case False
  then obtain p q where ab: "a = Some p" "b = Some q"
    using assms by (auto simp: cmp_cstr_def c_bool_def Let_def split: option.splits if_splits)
  then have "c_strcmp (str p) (str q) = 0"
    using assms False by (auto simp: cmp_cstr_def c_bool_def Let_def split: if_splits)
  then show ?thesis using ab by (simp add: tda_hash_cstr_def strcmp_eq_0)
qed simp

text \<open>One step of FNV is injective in the state, and so are runs of equal bytes.\<close>

lemma fnv_unit: "FNV_PRIME_64 * 0xce965057aff6957b = 1"
  by (simp add: FNV_PRIME_64_def)

lemma fnv_step_inj: "fnv_step h b = fnv_step h' b \<longleftrightarrow> h = h'"
  unfolding fnv_step_def by (blast dest: mult_unit_inj [OF fnv_unit] xor_right_inj)

lemma fnv_step_byte_inj: "fnv_step h b = fnv_step h b' \<longleftrightarrow> b = b'"
proof
  assume "fnv_step h b = fnv_step h b'"
  then have "ucast b XOR h = (ucast b' XOR h :: 64 word)"
    unfolding fnv_step_def by (metis mult_unit_inj [OF fnv_unit] xor.commute)
  then have "ucast b = (ucast b' :: 64 word)" by (rule xor_right_inj)
  then have "hash_uint b = hash_uint b'" by (simp add: hash_uint_def)
  then show "b = b'" by (simp add: hash_uint_inj)
qed simp

lemma foldl_fnv_inj: "foldl fnv_step h bs = foldl fnv_step h' bs \<longleftrightarrow> h = h'"
  by (induction bs arbitrary: h h') (auto simp: fnv_step_inj)

text \<open>Two runs of bytes that differ in one place only never collide.\<close>

lemma hash_bytes_one_byte:
  "tda_hash_bytes (xs @ b # ys) = tda_hash_bytes (xs @ b' # ys) \<longleftrightarrow> b = b'"
  by (simp add: tda_hash_bytes_def foldl_fnv_inj fnv_step_byte_inj)

lemma hash_combine_second_inj: "tda_hash_combine a b = tda_hash_combine a b' \<longleftrightarrow> b = b'"
proof -
  have "a XOR x = a XOR y \<longleftrightarrow> x = y" for x y :: "64 word"
    using xor_right_inj [of x a y] by (auto simp: xor.commute)
  then show ?thesis by (simp add: tda_hash_combine_def)
qed

end
