(* ===== verification/Tda_Rng.thy ===== *)
theory Tda_Rng
  imports Tda_Hash Tda_Permute Complex_Main
begin

text \<open>
  Random numbers (\<open>src/core/rng.c\<close>) and the two shuffles that draw from them (\<open>src/algo/permute.c\<close>).
  The generator is four 64-bit words. A bounded draw repeats until it is accepted, which no
  argument bounds for a fixed generator, so the loop is a partial function: \<open>None\<close> is a loop
  that does not end, and the lemmas say exactly when that is and what an accepted draw is. A
  drawn float is the multiple of \<open>2 ^ - 24\<close> or \<open>2 ^ - 53\<close> it stands for, as a rational; the
  ranges of floats, where the hardware rounds, are not modelled.
\<close>

section \<open>Generator\<close>

record tda_Rng =
  rng_s0 :: "64 word"
  rng_s1 :: "64 word"
  rng_s2 :: "64 word"
  rng_s3 :: "64 word"

definition SPLITMIX_GAMMA :: "64 word" where
  "SPLITMIX_GAMMA = 0x9e3779b97f4a7c15"

definition SPLITMIX_C1 :: "64 word" where
  "SPLITMIX_C1 = 0xbf58476d1ce4e5b9"

definition SPLITMIX_C2 :: "64 word" where
  "SPLITMIX_C2 = 0x94d049bb133111eb"

text \<open>The value and the state after it.\<close>

definition splitmix64 :: "64 word \<Rightarrow> 64 word \<times> 64 word" where
  "splitmix64 state = (
     let state' = state + SPLITMIX_GAMMA;
         val = state';
         val = (val XOR drop_bit 30 val) * SPLITMIX_C1;
         val = (val XOR drop_bit 27 val) * SPLITMIX_C2
     in (val XOR drop_bit 31 val, state'))"

definition rotl64 :: "64 word \<Rightarrow> nat \<Rightarrow> 64 word" where
  "rotl64 val n = push_bit n val OR drop_bit (64 - n) val"

definition tda_rng_from_seed :: "64 word \<Rightarrow> tda_Rng" where
  "tda_rng_from_seed seed = (
     let (a, st) = splitmix64 seed;
         (b, st) = splitmix64 st;
         (c, st) = splitmix64 st;
         (d, st) = splitmix64 st
     in \<lparr>rng_s0 = a, rng_s1 = b, rng_s2 = c, rng_s3 = d\<rparr>)"

definition next_u64 :: "tda_Rng \<Rightarrow> 64 word \<times> tda_Rng" where
  "next_u64 self = (
     let s0 = rng_s0 self; s1 = rng_s1 self; s2 = rng_s2 self; s3 = rng_s3 self;
         result = rotl64 (s0 + s3) 23 + s0;
         tmp = push_bit 17 s1;
         s2 = s2 XOR s0;
         s3 = s3 XOR s1;
         s1 = s1 XOR s2;
         s0 = s0 XOR s3;
         s2 = s2 XOR tmp;
         s3 = rotl64 s3 45
     in (result, \<lparr>rng_s0 = s0, rng_s1 = s1, rng_s2 = s2, rng_s3 = s3\<rparr>))"

definition tda_rng_u64 :: "tda_Rng \<Rightarrow> 64 word \<times> tda_Rng" where
  "tda_rng_u64 self = next_u64 self"

definition tda_rng_u32 :: "tda_Rng \<Rightarrow> 32 word \<times> tda_Rng" where
  "tda_rng_u32 self = (let (x, g) = next_u64 self in (ucast (drop_bit 32 x), g))"

definition tda_rng_bool :: "tda_Rng \<Rightarrow> bool \<times> tda_Rng" where
  "tda_rng_bool self = (let (x, g) = next_u64 self in (drop_bit 63 x \<noteq> 0, g))"

definition tda_rng_f32 :: "tda_Rng \<Rightarrow> rat \<times> tda_Rng" where
  "tda_rng_f32 self = (let (x, g) = next_u64 self in
     (of_nat (unat (drop_bit 8 (ucast (drop_bit 32 x) :: 32 word))) / 2 ^ 24, g))"

definition tda_rng_f64 :: "tda_Rng \<Rightarrow> rat \<times> tda_Rng" where
  "tda_rng_f64 self = (let (x, g) = next_u64 self in (of_nat (unat (drop_bit 11 x)) / 2 ^ 53, g))"

section \<open>Bounded draws\<close>

text \<open>The product of a draw and the range, at twice the width.\<close>

definition wide32 :: "32 word \<Rightarrow> 64 word \<Rightarrow> 64 word" where
  "wide32 rg x = ucast (ucast (drop_bit 32 x) :: 32 word) * ucast rg"

definition wide64 :: "64 word \<Rightarrow> 64 word \<Rightarrow> 128 word" where
  "wide64 rg x = ucast x * ucast rg"

partial_function (option) reject32 :: "32 word \<Rightarrow> 32 word \<Rightarrow> 64 word \<Rightarrow> tda_Rng \<Rightarrow> (64 word \<times> tda_Rng) option" where
  "reject32 rg threshold wide g =
     (if (ucast wide :: 32 word) < threshold
      then (let (x, g') = next_u64 g in reject32 rg threshold (wide32 rg x) g')
      else Some (wide, g))"

definition tda_rng_u32_max :: "tda_Rng \<Rightarrow> 32 word \<Rightarrow> (32 word \<times> tda_Rng) option" where
  "tda_rng_u32_max self bound =
     (if bound = - 1 then (let (x, g) = next_u64 self in Some (ucast (drop_bit 32 x), g))
      else do {
        let rg = bound + 1;
        let (x, g) = next_u64 self;
        let wide = wide32 rg x;
        (wide, g) \<leftarrow> (if (ucast wide :: 32 word) < rg
          then reject32 rg ((- rg) mod rg) wide g else Some (wide, g));
        Some (ucast (drop_bit 32 wide), g)
      })"

partial_function (option) reject64 :: "64 word \<Rightarrow> 64 word \<Rightarrow> 128 word \<Rightarrow> tda_Rng \<Rightarrow> (128 word \<times> tda_Rng) option" where
  "reject64 rg threshold wide g =
     (if (ucast wide :: 64 word) < threshold
      then (let (x, g') = next_u64 g in reject64 rg threshold (wide64 rg x) g')
      else Some (wide, g))"

definition tda_rng_u64_max :: "tda_Rng \<Rightarrow> 64 word \<Rightarrow> (64 word \<times> tda_Rng) option" where
  "tda_rng_u64_max self bound =
     (if bound = - 1 then Some (next_u64 self)
      else do {
        let rg = bound + 1;
        let (x, g) = next_u64 self;
        let wide = wide64 rg x;
        (wide, g) \<leftarrow> (if (ucast wide :: 64 word) < rg
          then reject64 rg ((- rg) mod rg) wide g else Some (wide, g));
        Some (ucast (drop_bit 64 wide), g)
      })"

definition tda_rng_idx :: "tda_Rng \<Rightarrow> nat \<Rightarrow> (nat \<times> tda_Rng) option" where
  "tda_rng_idx self len = do {
     c_assert (len > 0);
     (v, g) \<leftarrow> tda_rng_u64_max self (of_nat len - 1);
     Some (unat v, g)
   }"

definition tda_rng_i32_range :: "tda_Rng \<Rightarrow> 32 word \<Rightarrow> 32 word \<Rightarrow> (32 word \<times> tda_Rng) option" where
  "tda_rng_i32_range self lo hi = do {
     c_assert (lo \<le>s hi);
     let width = hi - lo;
     (v, g) \<leftarrow> tda_rng_u32_max self width;
     Some (lo + v, g)
   }"

definition tda_rng_i64_range :: "tda_Rng \<Rightarrow> 64 word \<Rightarrow> 64 word \<Rightarrow> (64 word \<times> tda_Rng) option" where
  "tda_rng_i64_range self lo hi = do {
     c_assert (lo \<le>s hi);
     let width = hi - lo;
     (v, g) \<leftarrow> tda_rng_u64_max self width;
     Some (lo + v, g)
   }"

section \<open>Shuffles\<close>

definition tda_span_shuffle :: "'a list \<Rightarrow> tda_Rng \<Rightarrow> ('a list \<times> tda_Rng) option" where
  "tda_span_shuffle s rng = for_loop (rev [2..<length s + 1]) (\<lambda>i (s, g). do {
     (j, g') \<leftarrow> tda_rng_idx g i;
     t \<leftarrow> span_swap s (i - 1) j;
     Some (t, g') }) (s, rng)"

definition tda_span_shuffle_prefix :: "'a list \<Rightarrow> nat \<Rightarrow> tda_Rng \<Rightarrow> ('a list \<times> tda_Rng) option" where
  "tda_span_shuffle_prefix s cnt rng = do {
     c_assert (cnt \<le> length s);
     for_loop [0..<cnt] (\<lambda>i (s, g). do {
       (j, g') \<leftarrow> tda_rng_idx g (length s - i);
       t \<leftarrow> span_swap s i (i + j);
       Some (t, g') }) (s, rng)
   }"

section \<open>The state is never all zeros\<close>

definition rng_ok :: "tda_Rng \<Rightarrow> bool" where
  "rng_ok g = (\<not> (rng_s0 g = 0 \<and> rng_s1 g = 0 \<and> rng_s2 g = 0 \<and> rng_s3 g = 0))"

lemma splitmix_units: "SPLITMIX_C1 * 0x96de1b173f119089 = 1" "SPLITMIX_C2 * 0x319642b2d24d8ec3 = 1"
  by (simp_all add: SPLITMIX_C1_def SPLITMIX_C2_def)

text \<open>SplitMix64 never gives the same word for two states.\<close>

lemma splitmix_inj:
  assumes "fst (splitmix64 a) = fst (splitmix64 b)"
  shows "a = b"
proof -
  define f where "f v = (v XOR drop_bit 30 v) * SPLITMIX_C1" for v :: "64 word"
  define h where "h v = (v XOR drop_bit 27 v) * SPLITMIX_C2" for v :: "64 word"
  have e: "fst (splitmix64 s) = h (f (s + SPLITMIX_GAMMA)) XOR drop_bit 31 (h (f (s + SPLITMIX_GAMMA)))" for s
    by (simp add: splitmix64_def f_def h_def Let_def)
  from assms have "h (f (a + SPLITMIX_GAMMA)) = h (f (b + SPLITMIX_GAMMA))"
    unfolding e by (rule xor_drop_bit_inj) simp
  then have "f (a + SPLITMIX_GAMMA) = f (b + SPLITMIX_GAMMA)"
    unfolding h_def by (rule xor_drop_bit_inj [OF mult_unit_inj [OF splitmix_units(2)]]) simp
  then have "a + SPLITMIX_GAMMA = b + SPLITMIX_GAMMA"
    unfolding f_def by (rule xor_drop_bit_inj [OF mult_unit_inj [OF splitmix_units(1)]]) simp
  then show ?thesis by simp
qed

lemma from_seed_distinct:
  "rng_s0 (tda_rng_from_seed seed) \<noteq> rng_s1 (tda_rng_from_seed seed)"
proof
  have st: "snd (splitmix64 a) = a + SPLITMIX_GAMMA" for a by (simp add: splitmix64_def Let_def)
  assume "rng_s0 (tda_rng_from_seed seed) = rng_s1 (tda_rng_from_seed seed)"
  then have "fst (splitmix64 seed) = fst (splitmix64 (seed + SPLITMIX_GAMMA))"
    by (simp add: tda_rng_from_seed_def case_prod_beta st)
  then have "seed = seed + SPLITMIX_GAMMA" by (rule splitmix_inj)
  then show False by (simp add: SPLITMIX_GAMMA_def)
qed

lemma from_seed_ok: "rng_ok (tda_rng_from_seed seed)"
  using from_seed_distinct [of seed] by (auto simp: rng_ok_def)

lemma rotl64_zero:
  assumes "rotl64 v n = 0" "0 < n" "n < 64"
  shows "v = 0"
proof (rule bit_word_eqI)
  fix i assume "i < LENGTH(64)"
  have z: "\<not> bit (rotl64 v n) k" for k using assms(1) by simp
  show "bit v i = bit (0 :: 64 word) i"
  proof (cases "i + n < 64")
    case True
    then show ?thesis using z [of "i + n"] by (simp add: rotl64_def bit_or_iff bit_push_bit_iff)
  next
    case False
    then show ?thesis
      using z [of "i + n - 64"] \<open>i < LENGTH(64)\<close> assms(2,3) by (simp add: rotl64_def bit_or_iff bit_drop_bit_eq)
  qed
qed

lemma push_bit_fixed:
  fixes v :: "64 word"
  assumes "v = push_bit n v" "0 < n"
  shows "v = 0"
proof (rule bit_word_eqI)
  fix i assume "i < LENGTH(64)"
  show "bit v i = bit (0 :: 64 word) i"
    using \<open>i < LENGTH(64)\<close>
  proof (induction i rule: less_induct)
    case (less i)
    have "bit v i = bit (push_bit n v) i" using assms(1) by simp
    then have "bit v i \<longleftrightarrow> n \<le> i \<and> bit v (i - n)" using less.prems by (simp add: bit_push_bit_iff)
    then show ?case using less.IH [of "i - n"] less.prems assms(2) by auto
  qed
qed

lemma xor_zero_iff: "x XOR y = 0 \<longleftrightarrow> x = (y :: 'w::len word)"
  using xor_right_inj [of x y y] by auto

lemma next_ok:
  assumes "rng_ok g"
  shows "rng_ok (snd (next_u64 g))"
proof (rule ccontr)
  let ?s0 = "rng_s0 g" and ?s1 = "rng_s1 g" and ?s2 = "rng_s2 g" and ?s3 = "rng_s3 g"
  assume "\<not> rng_ok (snd (next_u64 g))"
  then have z: "?s0 XOR (?s3 XOR ?s1) = 0" "?s1 XOR (?s2 XOR ?s0) = 0" "(?s2 XOR ?s0) XOR push_bit 17 ?s1 = 0"
    "rotl64 (?s3 XOR ?s1) 45 = 0"
    by (simp_all add: rng_ok_def next_u64_def Let_def)
  have d: "?s3 XOR ?s1 = 0" by (rule rotl64_zero [OF z(4)]) simp_all
  with z(1) have s0: "?s0 = 0" by simp
  with z(2) have s12: "?s1 = ?s2" by (simp add: xor_zero_iff)
  with z(3) s0 have "?s1 = push_bit 17 ?s1" by (simp add: xor_zero_iff)
  then have "?s1 = 0" by (rule push_bit_fixed) simp
  then show False using d s0 s12 assms by (simp add: rng_ok_def)
qed

section \<open>Rejection is fair\<close>

text \<open>
  The arithmetic of the method, at any width: with \<open>M\<close> draws and \<open>r\<close> results, a draw \<open>x\<close> is
  accepted when the low part of \<open>x * r\<close> is not below \<open>M mod r\<close>, and each of the \<open>r\<close> results then
  has exactly \<open>M div r\<close> draws.
\<close>

lemma multiples_in_window:
  fixes r :: nat
  assumes "0 < r"
  shows "card {x. a \<le> x * r \<and> x * r < a + q * r} = q"
proof -
  define c where "c = (a + r - 1) div r"
  have "a \<le> x * r \<longleftrightarrow> c \<le> x" for x
  proof -
    have "c \<le> x \<longleftrightarrow> a + r - 1 < Suc x * r"
      unfolding c_def by (metis assms div_less_iff_less_mult less_Suc_eq_le)
    then show ?thesis using assms by auto
  qed
  moreover have "x * r < a + q * r \<longleftrightarrow> x < c + q" for x
  proof -
    have "x < c + q \<longleftrightarrow> \<not> (c + q \<le> x)" by (rule not_le [symmetric])
    also have "c + q \<le> x \<longleftrightarrow> q \<le> x \<and> c \<le> x - q" by auto
    also have "\<dots> \<longleftrightarrow> q \<le> x \<and> a \<le> (x - q) * r"
    proof -
      have "c \<le> x - q \<longleftrightarrow> a + r - 1 < Suc (x - q) * r"
        unfolding c_def by (metis assms div_less_iff_less_mult less_Suc_eq_le)
      then show ?thesis using assms by auto
    qed
    also have "\<dots> \<longleftrightarrow> a + q * r \<le> x * r"
    proof (cases "q \<le> x")
      case True
      then have "x * r = (x - q) * r + q * r" by (metis add.commute add_mult_distrib le_add_diff_inverse)
      then show ?thesis using True by simp
    next
      case False
      then have "x * r < q * r" using assms by simp
      then have "\<not> a + q * r \<le> x * r" by linarith
      then show ?thesis using False by blast
    qed
    finally show ?thesis by (simp only: not_le)
  qed
  ultimately have "{x. a \<le> x * r \<and> x * r < a + q * r} = {c..<c + q}" by auto
  then show ?thesis by simp
qed

lemma fair_rejection:
  fixes r M :: nat
  assumes "0 < r" "v < r" "0 < M"
  shows "card {x. x < M \<and> M mod r \<le> (x * r) mod M \<and> (x * r) div M = v} = M div r"
proof -
  have "x < M \<and> M mod r \<le> (x * r) mod M \<and> (x * r) div M = v
      \<longleftrightarrow> v * M + M mod r \<le> x * r \<and> x * r < (v * M + M mod r) + (M div r) * r" for x
  proof -
    have e: "(v * M + M mod r) + (M div r) * r = Suc v * M"
      by (simp add: add.commute)
    show ?thesis unfolding e
    proof (intro iffI conjI; (elim conjE)?)
      assume a: "x < M" "M mod r \<le> (x * r) mod M" "(x * r) div M = v"
      have x: "x * r = v * M + (x * r) mod M" using a(3) by (metis div_mult_mod_eq)
      show "v * M + M mod r \<le> x * r" using x a(2) by linarith
      have "(x * r) mod M < M" using assms(3) by simp
      then show "x * r < Suc v * M" using x unfolding mult_Suc by linarith
    next
      assume b: "v * M + M mod r \<le> x * r" "x * r < Suc v * M"
      have "x * r < r * M" using b(2) assms(2) by (meson Suc_leI le_trans less_le_trans mult_le_mono1)
      then show "x < M" using assms(1) by (metis mult.commute mult_less_cancel1)
      show d: "(x * r) div M = v" using b assms(3) by (intro div_nat_eqI) (simp_all add: mult.commute)
      have "x * r = v * M + (x * r) mod M" using d by (metis div_mult_mod_eq)
      then show "M mod r \<le> (x * r) mod M" using b(1) by linarith
    qed
  qed
  then show ?thesis using multiples_in_window [OF assms(1), of "v * M + M mod r" "M div r"] by simp
qed

section \<open>A bounded draw, one generator step at a time\<close>

lemma wide_parts:
  fixes x r :: "'w::len word"
  assumes "LENGTH('d::len) = 2 * LENGTH('w)"
  defines "wide \<equiv> (ucast x * ucast r :: 'd word)"
  shows "unat (ucast wide :: 'w word) = (unat x * unat r) mod 2 ^ LENGTH('w)"
    and "unat (ucast (drop_bit LENGTH('w) wide) :: 'w word) = (unat x * unat r) div 2 ^ LENGTH('w)"
proof -
  have le: "LENGTH('w) \<le> LENGTH('d)" using assms by simp
  have u: "unat (ucast y :: 'd word) = unat y" for y :: "'w word"
  proof -
    have "unat y < 2 ^ LENGTH('w)" by (rule unsigned_less)
    also have "\<dots> \<le> (2 :: nat) ^ LENGTH('d)" using le by (simp add: power_increasing)
    finally show ?thesis by (simp add: unsigned_ucast_eq take_bit_nat_eq_self)
  qed
  have lt: "unat x * unat r < 2 ^ LENGTH('w) * 2 ^ LENGTH('w)"
    by (intro mult_strict_mono) (simp_all add: unsigned_less)
  then have lt': "unat x * unat r < 2 ^ LENGTH('d)" using assms(1) by (simp add: mult_2 power_add)
  have w: "unat wide = unat x * unat r"
    unfolding wide_def using lt' u by (subst unat_mult_lem [THEN iffD1]) simp_all
  show "unat (ucast wide :: 'w word) = (unat x * unat r) mod 2 ^ LENGTH('w)"
    using w by (simp add: unsigned_ucast_eq unsigned_take_bit_eq take_bit_eq_mod)
  have "(unat x * unat r) div 2 ^ LENGTH('w) < 2 ^ LENGTH('w)"
    using lt by (simp add: less_mult_imp_div_less)
  then show "unat (ucast (drop_bit LENGTH('w) wide) :: 'w word) = (unat x * unat r) div 2 ^ LENGTH('w)"
    unfolding unsigned_ucast_eq unat_drop_bit_eq w drop_bit_eq_div [of "LENGTH('w)" "unat x * unat r"]
    by (rule take_bit_nat_eq_self)
qed

lemma threshold_value:
  fixes rg :: "'w::len word"
  assumes "rg \<noteq> 0"
  shows "unat ((- rg) mod rg) = 2 ^ LENGTH('w) mod unat rg"
proof -
  have pos: "0 < unat rg" using assms unat_eq_0 by (metis gr0I)
  then have "unat (- rg) = 2 ^ LENGTH('w) - unat rg"
    by (simp add: unat_sub_if' flip: diff_0)
  moreover have "unat rg \<le> 2 ^ LENGTH('w)" by (rule less_imp_le [OF unsigned_less])
  ultimately show ?thesis using pos by (simp add: unat_mod_distrib le_mod_geq)
qed

lemma range_value: "b \<noteq> - 1 \<Longrightarrow> unat (b + 1) = unat b + 1" for b :: "'w::len word"
  by (metis Suc_eq_plus1 add.commute add.right_inverse add_cancel_left_right add_eq_0_iff unatSuc)

text \<open>What becomes of one draw: the result, or nothing when it is rejected.\<close>

definition pick32 :: "32 word \<Rightarrow> 64 word \<Rightarrow> 32 word option" where
  "pick32 b x = (if b = - 1 then Some (ucast (drop_bit 32 x))
     else let wide = wide32 (b + 1) x in
       if (ucast wide :: 32 word) < (- (b + 1)) mod (b + 1) then None else Some (ucast (drop_bit 32 wide)))"

definition pick64 :: "64 word \<Rightarrow> 64 word \<Rightarrow> 64 word option" where
  "pick64 b x = (if b = - 1 then Some x
     else let wide = wide64 (b + 1) x in
       if (ucast wide :: 64 word) < (- (b + 1)) mod (b + 1) then None else Some (ucast (drop_bit 64 wide)))"

lemma u64_max_step:
  "tda_rng_u64_max g b = (case next_u64 g of (x, g') \<Rightarrow>
     (case pick64 b x of Some v \<Rightarrow> Some (v, g') | None \<Rightarrow> tda_rng_u64_max g' b))"
proof (cases "b = - 1")
  case True
  then show ?thesis by (simp add: tda_rng_u64_max_def pick64_def case_prod_beta)
next
  case False
  then have "b + 1 \<noteq> 0" by (simp add: add_eq_0_iff2)
  then have lt: "(- (b + 1)) mod (b + 1) < b + 1" by (simp add: word_mod_less_divisor word_gt_0)
  have m: "tda_rng_u64_max h b = (case next_u64 h of (x, h') \<Rightarrow>
      do { (wide, k) \<leftarrow> reject64 (b + 1) ((- (b + 1)) mod (b + 1)) (wide64 (b + 1) x) h';
           Some (ucast (drop_bit 64 wide), k) })" for h
  proof (cases "(ucast (wide64 (b + 1) (fst (next_u64 h))) :: 64 word) < b + 1")
    case True
    then show ?thesis using False by (simp add: tda_rng_u64_max_def Let_def case_prod_beta)
  next
    case large: False
    then have "\<not> (ucast (wide64 (b + 1) (fst (next_u64 h))) :: 64 word) < (- (b + 1)) mod (b + 1)"
      using lt by (meson less_trans)
    then show ?thesis
      using False large by (subst reject64.simps) (simp add: tda_rng_u64_max_def Let_def case_prod_beta)
  qed
  show ?thesis
    unfolding m [of g] using False
    by (subst reject64.simps) (auto simp: pick64_def m Let_def case_prod_beta)
qed

inductive draws_to :: "(64 word \<Rightarrow> 'v option) \<Rightarrow> tda_Rng \<Rightarrow> 'v \<times> tda_Rng \<Rightarrow> bool" for pick where
  accept: "next_u64 g = (x, g') \<Longrightarrow> pick x = Some v \<Longrightarrow> draws_to pick g (v, g')"
| reject: "next_u64 g = (x, g') \<Longrightarrow> pick x = None \<Longrightarrow> draws_to pick g' r \<Longrightarrow> draws_to pick g r"

lemma reject64_draws:
  assumes "reject64 rg threshold wide g = Some (w, h)" "rg = b + 1" "threshold = (- rg) mod rg" "b \<noteq> - 1"
  shows "if (ucast wide :: 64 word) < threshold then draws_to (pick64 b) g (ucast (drop_bit 64 w), h)
    else w = wide \<and> h = g"
proof -
  have "if (ucast wide :: 64 word) < threshold then draws_to (pick64 b) g (ucast (drop_bit 64 (fst r)), snd r)
      else r = (wide, g)"
    if "reject64 rg threshold wide g = Some r" "rg = b + 1" "threshold = (- rg) mod rg" for r
    using that
  proof (induction rule: reject64.raw_induct [rotated, consumes 1, case_names step])
    case (step rej rg threshold wide g r)
    show ?case
    proof (cases "(ucast wide :: 64 word) < threshold")
      case True
      obtain x g' where n: "next_u64 g = (x, g')" by (cases "next_u64 g")
      have r: "rej rg threshold (wide64 rg x) g' = Some r" using step.hyps True n by simp
      have p: "pick64 b x = (if (ucast (wide64 rg x) :: 64 word) < threshold then None
          else Some (ucast (drop_bit 64 (wide64 rg x))))"
        using assms(4) step.prems by (simp add: pick64_def Let_def)
      show ?thesis
        using step.IH [OF r step.prems] True p n draws_to.intros [of g x g' "pick64 b"] by (auto split: if_splits)
    qed (use step.hyps in simp)
  qed
  from this [OF assms(1-3)] show ?thesis by (auto split: if_splits)
qed

lemma u64_max_draws: "tda_rng_u64_max g b = Some r \<longleftrightarrow> draws_to (pick64 b) g r"
proof
  assume "draws_to (pick64 b) g r"
  then show "tda_rng_u64_max g b = Some r" by induction (subst u64_max_step, simp)+
next
  assume s: "tda_rng_u64_max g b = Some r"
  obtain x g' where n: "next_u64 g = (x, g')" by (cases "next_u64 g")
  show "draws_to (pick64 b) g r"
  proof (cases "b = - 1")
    case True
    then show ?thesis using s n by (auto simp: tda_rng_u64_max_def pick64_def intro!: draws_to.accept)
  next
    case False
    define rg where "rg = b + 1"
    define wide where "wide = wide64 rg x"
    have "b + 1 \<noteq> 0" using False by (simp add: add_eq_0_iff2)
    then have lt: "(- rg) mod rg < rg" by (simp add: word_mod_less_divisor word_gt_0 rg_def)
    have p: "pick64 b x = (if (ucast wide :: 64 word) < (- rg) mod rg then None else Some (ucast (drop_bit 64 wide)))"
      using False by (simp add: pick64_def Let_def rg_def wide_def)
    show ?thesis
    proof (cases "(ucast wide :: 64 word) < rg")
      case True
      then obtain w h where j: "reject64 rg ((- rg) mod rg) wide g' = Some (w, h)" "r = (ucast (drop_bit 64 w), h)"
        using s n False by (auto simp: tda_rng_u64_max_def Let_def rg_def wide_def bind_eq_Some_conv)
      show ?thesis
        using reject64_draws [OF j(1) rg_def refl False] p n j(2) draws_to.intros [of g x g' "pick64 b"]
        by (auto split: if_splits)
    next
      case False
      then have "\<not> (ucast wide :: 64 word) < (- rg) mod rg" using lt by (meson less_trans)
      then show ?thesis
        using s n False \<open>b \<noteq> - 1\<close> p draws_to.accept [of g x g' "pick64 b"]
        by (auto simp: tda_rng_u64_max_def Let_def rg_def [symmetric] wide_def [symmetric])
    qed
  qed
qed

text \<open>The same at half the width.\<close>

lemma reject32_draws:
  assumes "reject32 rg threshold wide g = Some (w, h)" "rg = b + 1" "threshold = (- rg) mod rg" "b \<noteq> - 1"
  shows "if (ucast wide :: 32 word) < threshold then draws_to (pick32 b) g (ucast (drop_bit 32 w), h)
    else w = wide \<and> h = g"
proof -
  have "if (ucast wide :: 32 word) < threshold then draws_to (pick32 b) g (ucast (drop_bit 32 (fst r)), snd r)
      else r = (wide, g)"
    if "reject32 rg threshold wide g = Some r" "rg = b + 1" "threshold = (- rg) mod rg" for r
    using that
  proof (induction rule: reject32.raw_induct [rotated, consumes 1, case_names step])
    case (step rej rg threshold wide g r)
    show ?case
    proof (cases "(ucast wide :: 32 word) < threshold")
      case True
      obtain x g' where n: "next_u64 g = (x, g')" by (cases "next_u64 g")
      have r: "rej rg threshold (wide32 rg x) g' = Some r" using step.hyps True n by simp
      have p: "pick32 b x = (if (ucast (wide32 rg x) :: 32 word) < threshold then None
          else Some (ucast (drop_bit 32 (wide32 rg x))))"
        using assms(4) step.prems by (simp add: pick32_def Let_def)
      show ?thesis
        using step.IH [OF r step.prems] True p n draws_to.intros [of g x g' "pick32 b"] by (auto split: if_splits)
    qed (use step.hyps in simp)
  qed
  from this [OF assms(1-3)] show ?thesis by (auto split: if_splits)
qed

lemma u32_max_step:
  "tda_rng_u32_max g b = (case next_u64 g of (x, g') \<Rightarrow>
     (case pick32 b x of Some v \<Rightarrow> Some (v, g') | None \<Rightarrow> tda_rng_u32_max g' b))"
proof (cases "b = - 1")
  case True
  then show ?thesis by (simp add: tda_rng_u32_max_def pick32_def case_prod_beta)
next
  case False
  then have "b + 1 \<noteq> 0" by (simp add: add_eq_0_iff2)
  then have lt: "(- (b + 1)) mod (b + 1) < b + 1" by (simp add: word_mod_less_divisor word_gt_0)
  have m: "tda_rng_u32_max h b = (case next_u64 h of (x, h') \<Rightarrow>
      do { (wide, k) \<leftarrow> reject32 (b + 1) ((- (b + 1)) mod (b + 1)) (wide32 (b + 1) x) h';
           Some (ucast (drop_bit 32 wide), k) })" for h
  proof (cases "(ucast (wide32 (b + 1) (fst (next_u64 h))) :: 32 word) < b + 1")
    case True
    then show ?thesis using False by (simp add: tda_rng_u32_max_def Let_def case_prod_beta)
  next
    case large: False
    then have "\<not> (ucast (wide32 (b + 1) (fst (next_u64 h))) :: 32 word) < (- (b + 1)) mod (b + 1)"
      using lt by (meson less_trans)
    then show ?thesis
      using False large by (subst reject32.simps) (simp add: tda_rng_u32_max_def Let_def case_prod_beta)
  qed
  show ?thesis
    unfolding m [of g] using False
    by (subst reject32.simps) (auto simp: pick32_def m Let_def case_prod_beta)
qed

lemma u32_max_draws: "tda_rng_u32_max g b = Some r \<longleftrightarrow> draws_to (pick32 b) g r"
proof
  assume "draws_to (pick32 b) g r"
  then show "tda_rng_u32_max g b = Some r" by induction (subst u32_max_step, simp)+
next
  assume s: "tda_rng_u32_max g b = Some r"
  obtain x g' where n: "next_u64 g = (x, g')" by (cases "next_u64 g")
  show "draws_to (pick32 b) g r"
  proof (cases "b = - 1")
    case True
    then show ?thesis using s n by (auto simp: tda_rng_u32_max_def pick32_def intro!: draws_to.accept)
  next
    case False
    define rg where "rg = b + 1"
    define wide where "wide = wide32 rg x"
    have "b + 1 \<noteq> 0" using False by (simp add: add_eq_0_iff2)
    then have lt: "(- rg) mod rg < rg" by (simp add: word_mod_less_divisor word_gt_0 rg_def)
    have p: "pick32 b x = (if (ucast wide :: 32 word) < (- rg) mod rg then None else Some (ucast (drop_bit 32 wide)))"
      using False by (simp add: pick32_def Let_def rg_def wide_def)
    show ?thesis
    proof (cases "(ucast wide :: 32 word) < rg")
      case True
      then obtain w h where j: "reject32 rg ((- rg) mod rg) wide g' = Some (w, h)" "r = (ucast (drop_bit 32 w), h)"
        using s n False by (auto simp: tda_rng_u32_max_def Let_def rg_def wide_def bind_eq_Some_conv)
      show ?thesis
        using reject32_draws [OF j(1) rg_def refl False] p n j(2) draws_to.intros [of g x g' "pick32 b"]
        by (auto split: if_splits)
    next
      case False
      then have "\<not> (ucast wide :: 32 word) < (- rg) mod rg" using lt by (meson less_trans)
      then show ?thesis
        using s n False \<open>b \<noteq> - 1\<close> p draws_to.accept [of g x g' "pick32 b"]
        by (auto simp: tda_rng_u32_max_def Let_def rg_def [symmetric] wide_def [symmetric])
    qed
  qed
qed

text \<open>What is picked is in the range, and every value of the range has as many draws as any other.\<close>

lemma card_words: "card {x :: 'w::len word. P (unat x)} = card {n. n < 2 ^ LENGTH('w) \<and> P n}"
proof (rule bij_betw_same_card [where f = unat])
  show "bij_betw unat {x :: 'w word. P (unat x)} {n. n < 2 ^ LENGTH('w) \<and> P n}"
    by (rule bij_betw_byWitness [where f' = "word_of_nat :: nat \<Rightarrow> 'w word"])
      (auto simp: unat_of_nat take_bit_nat_eq_self)
qed

lemma pick64_iff:
  assumes "b \<noteq> - 1"
  shows "pick64 b x = Some v \<longleftrightarrow>
    2 ^ 64 mod (unat b + 1) \<le> (unat x * (unat b + 1)) mod 2 ^ 64 \<and> (unat x * (unat b + 1)) div 2 ^ 64 = unat v"
proof -
  have nz: "b + 1 \<noteq> 0" using assms by (simp add: add_eq_0_iff2)
  note v = wide_parts [where 'w = 64 and 'd = 128, of x "b + 1", folded wide64_def, unfolded range_value [OF assms]]
  have "pick64 b x = (if unat (ucast (wide64 (b + 1) x) :: 64 word) < unat ((- (b + 1)) mod (b + 1)) then None
      else Some (ucast (drop_bit 64 (wide64 (b + 1) x))))"
    using assms by (simp add: pick64_def Let_def word_less_nat_alt)
  then show ?thesis
    unfolding threshold_value [OF nz] using v range_value [OF assms]
    by (simp add: not_less) (metis word_unat_eq_iff)
qed

lemma pick32_iff:
  assumes "b \<noteq> - 1"
  shows "pick32 b x = Some v \<longleftrightarrow>
    2 ^ 32 mod (unat b + 1) \<le> (unat (ucast (drop_bit 32 x) :: 32 word) * (unat b + 1)) mod 2 ^ 32
    \<and> (unat (ucast (drop_bit 32 x) :: 32 word) * (unat b + 1)) div 2 ^ 32 = unat v"
proof -
  have nz: "b + 1 \<noteq> 0" using assms by (simp add: add_eq_0_iff2)
  note v = wide_parts [where 'w = 32 and 'd = 64, of "ucast (drop_bit 32 x)" "b + 1", folded wide32_def, unfolded range_value [OF assms]]
  have "pick32 b x = (if unat (ucast (wide32 (b + 1) x) :: 32 word) < unat ((- (b + 1)) mod (b + 1)) then None
      else Some (ucast (drop_bit 32 (wide32 (b + 1) x))))"
    using assms by (simp add: pick32_def Let_def word_less_nat_alt)
  then show ?thesis
    unfolding threshold_value [OF nz] using v range_value [OF assms]
    by (simp add: not_less) (metis word_unat_eq_iff)
qed

lemma product_div_less: "unat (x :: 'w::len word) * r div 2 ^ LENGTH('w) < r" if "0 < r"
proof -
  have "unat x * r < 2 ^ LENGTH('w) * r" using that by (simp add: unsigned_less)
  then show ?thesis by (simp add: less_mult_imp_div_less mult.commute)
qed

lemma pick64_le: "pick64 b x = Some v \<Longrightarrow> v \<le> b"
proof (cases "b = - 1")
  case False
  assume "pick64 b x = Some v"
  then have "unat v = (unat x * (unat b + 1)) div 2 ^ 64" using pick64_iff [OF False] by simp
  also have "\<dots> < unat b + 1" using product_div_less [of "unat b + 1" x] by simp
  finally show ?thesis by (simp add: word_le_nat_alt)
qed (simp add: pick64_def)

lemma pick32_le: "pick32 b x = Some v \<Longrightarrow> v \<le> b"
proof (cases "b = - 1")
  case False
  let ?y = "ucast (drop_bit 32 x) :: 32 word"
  assume "pick32 b x = Some v"
  then have "unat v = (unat ?y * (unat b + 1)) div 2 ^ 32" using pick32_iff [OF False] by simp
  also have "\<dots> < unat b + 1" using product_div_less [of "unat b + 1" ?y] by simp
  finally show ?thesis by (simp add: word_le_nat_alt)
qed (simp add: pick32_def)

lemma pick64_uniform:
  assumes "v \<le> b"
  shows "card {x. pick64 b x = Some v} = 2 ^ 64 div (unat b + 1)"
proof (cases "b = - 1")
  case True
  then show ?thesis by (simp add: pick64_def unsigned_minus_1_eq_mask mask_eq_exp_minus_1)
next
  case False
  have v: "unat v < unat b + 1" using assms by (simp add: word_le_nat_alt)
  have "{x. pick64 b x = Some v} = {x :: 64 word. 2 ^ 64 mod (unat b + 1) \<le> (unat x * (unat b + 1)) mod 2 ^ 64
      \<and> (unat x * (unat b + 1)) div 2 ^ 64 = unat v}"
    using pick64_iff [OF False] by auto
  also have "card \<dots> = 2 ^ 64 div (unat b + 1)"
    using fair_rejection [OF _ v, of "2 ^ 64"]
      card_words [where 'w = 64, of "\<lambda>n. 2 ^ 64 mod (unat b + 1) \<le> (n * (unat b + 1)) mod 2 ^ 64
      \<and> (n * (unat b + 1)) div 2 ^ 64 = unat v"] by simp
  finally show ?thesis .
qed

text \<open>A 32-bit draw uses the top half of the word, so each of its values stands for \<open>2 ^ 32\<close> words.\<close>

lemma card_high_part:
  fixes K M :: nat
  assumes "0 < K"
  shows "card {n. n < K * M \<and> P (n div K)} = K * card {m. m < M \<and> P m}"
proof -
  have "{n. n < K * M \<and> P (n div K)} = (\<lambda>(m, k). m * K + k) ` ({m. m < M \<and> P m} \<times> {..<K})"
  proof (intro equalityI subsetI)
    fix n assume n: "n \<in> {n. n < K * M \<and> P (n div K)}"
    then have "n div K < M" using assms by (simp add: less_mult_imp_div_less mult.commute)
    then have "(n div K, n mod K) \<in> {m. m < M \<and> P m} \<times> {..<K}" using n assms by simp
    then show "n \<in> (\<lambda>(m, k). m * K + k) ` ({m. m < M \<and> P m} \<times> {..<K})"
      by (rule rev_image_eqI) simp
  next
    fix n assume "n \<in> (\<lambda>(m, k). m * K + k) ` ({m. m < M \<and> P m} \<times> {..<K})"
    then obtain m k where mk: "n = m * K + k" "m < M" "P m" "k < K" by auto
    have "n < Suc m * K" using mk by simp
    also have "\<dots> \<le> K * M" using mk(2) by (metis Suc_leI mult.commute mult_le_mono2)
    finally show "n \<in> {n. n < K * M \<and> P (n div K)}" using mk by simp
  qed
  moreover have "inj_on (\<lambda>(m, k). m * K + k) ({m. m < M \<and> P m} \<times> {..<K})"
  proof (rule inj_onI, clarsimp)
    fix m k m' k' assume e: "k < K" "k' < K" "m * K + k = m' * K + k'"
    have "m = (m * K + k) div K" using e(1) by simp
    moreover have "m' = (m' * K + k') div K" using e(2) by simp
    ultimately have "m = m'" using e(3) by simp
    then show "m = m' \<and> k = k'" using e(3) by simp
  qed
  ultimately show ?thesis by (simp add: card_image card_cartesian_product mult.commute)
qed

lemma top_half: "unat (ucast (drop_bit 32 x) :: 32 word) = unat (x :: 64 word) div 2 ^ 32"
proof -
  have "unat x < 2 ^ 32 * 2 ^ 32" using unsigned_less [of x] by simp
  then have "unat x div 2 ^ 32 < 2 ^ 32" by (simp add: less_mult_imp_div_less)
  then show ?thesis
    unfolding unsigned_ucast_eq unat_drop_bit_eq drop_bit_eq_div [of 32 "unat x"] by (simp add: take_bit_nat_eq_self)
qed

lemma pick32_uniform:
  assumes "v \<le> b"
  shows "card {x. pick32 b x = Some v} = 2 ^ 32 * (2 ^ 32 div (unat b + 1))"
proof -
  have v: "unat v < unat b + 1" using assms by (simp add: word_le_nat_alt)
  define P where "P m \<longleftrightarrow> (if b = - 1 then m = unat v else 2 ^ 32 mod (unat b + 1) \<le> (m * (unat b + 1)) mod 2 ^ 32
      \<and> (m * (unat b + 1)) div 2 ^ 32 = unat v)" for m
  have "{x. pick32 b x = Some v} = {x :: 64 word. P (unat x div 2 ^ 32)}"
  proof (cases "b = - 1")
    case True
    then show ?thesis unfolding P_def top_half [symmetric] by (auto simp: pick32_def simp flip: word_unat_eq_iff)
  next
    case False
    then show ?thesis using pick32_iff [OF False] unfolding P_def top_half by simp
  qed
  then have "card {x. pick32 b x = Some v} = card {n. n < 2 ^ 32 * 2 ^ 32 \<and> P (n div 2 ^ 32)}"
    using card_words [where 'w = 64, of "\<lambda>n. P (n div 2 ^ 32)"] by simp
  also have "\<dots> = 2 ^ 32 * card {m. m < 2 ^ 32 \<and> P m}"
    by (rule card_high_part) simp
  also have "card {m. m < 2 ^ 32 \<and> P m} = 2 ^ 32 div (unat b + 1)"
  proof (cases "b = - 1")
    case True
    have "{m. m < 2 ^ 32 \<and> P m} = {unat v}" using unsigned_less [of v] True by (auto simp: P_def)
    then show ?thesis using True by (simp add: unsigned_minus_1_eq_mask mask_eq_exp_minus_1)
  next
    case False
    then show ?thesis using fair_rejection [OF _ v, of "2 ^ 32"] by (simp add: P_def)
  qed
  finally show ?thesis .
qed

lemma draws_pick: "draws_to pick g (v, h) \<Longrightarrow> \<exists>x. pick x = Some v"
  by (induction g "(v, h)" rule: draws_to.induct) auto

lemma u64_max_le: "tda_rng_u64_max g b = Some (v, h) \<Longrightarrow> v \<le> b"
  using draws_pick [of "pick64 b" g v h] pick64_le [of b _ v] u64_max_draws [of g b "(v, h)"] by auto

lemma u32_max_le: "tda_rng_u32_max g b = Some (v, h) \<Longrightarrow> v \<le> b"
  using draws_pick [of "pick32 b" g v h] pick32_le [of b _ v] u32_max_draws [of g b "(v, h)"] by auto

lemma idx_less:
  assumes "tda_rng_idx g len = Some (j, h)" "len \<le> SIZE_MAX + 1"
  shows "j < len"
proof -
  from assms(1) obtain v where v: "0 < len" "tda_rng_u64_max g (of_nat len - 1) = Some (v, h)" "j = unat v"
    by (auto simp: tda_rng_idx_def bind_eq_Some_conv)
  have "(of_nat len - 1 :: 64 word) = of_nat (len - 1)" using v(1) by (simp add: of_nat_diff)
  moreover have "len - 1 < 2 ^ 64" using assms(2) v(1) by (simp add: SIZE_MAX_def)
  ultimately have "unat (of_nat len - 1 :: 64 word) = len - 1" by (simp add: unat_of_nat take_bit_nat_eq_self)
  then show ?thesis using u64_max_le [OF v(2)] v(1,3) by (simp add: word_le_nat_alt)
qed

text \<open>A signed range: its width fits the unsigned type, and adding to the low end does not leave it.\<close>

lemma range_add:
  fixes lo hi v :: "'w::len word"
  assumes "lo \<le>s hi" "v \<le> hi - lo"
  shows "lo \<le>s lo + v \<and> lo + v \<le>s hi"
proof -
  let ?h = "2 ^ (LENGTH('w) - 1) :: int"
  have h: "2 * ?h = 2 ^ LENGTH('w)" by (simp flip: power_Suc)
  have r: "- ?h \<le> sint x \<and> sint x < ?h" for x :: "'w word"
    using sint_greater_eq [of x] sint_less [of x] by simp
  have le: "sint lo \<le> sint hi" using assms(1) by (simp add: word_sle_eq)
  have "hi - lo = word_of_int (sint hi - sint lo)" by simp
  then have "uint (hi - lo) = (sint hi - sint lo) mod 2 ^ LENGTH('w)" by (metis uint_word_of_int)
  then have w: "uint (hi - lo) = sint hi - sint lo" using le r [of hi] r [of lo] h by simp
  have v: "uint v \<le> sint hi - sint lo" "0 \<le> uint v" using assms(2) w by (simp_all add: word_le_def)
  have "lo + v = word_of_int (sint lo + uint v)" by simp
  then have "sint (lo + v) = (sint lo + uint v + ?h) mod 2 ^ LENGTH('w) - ?h" by (metis int_word_sint)
  also have "(sint lo + uint v + ?h) mod 2 ^ LENGTH('w) = sint lo + uint v + ?h"
    using v r [of hi] r [of lo] h by (intro mod_pos_pos_trivial) linarith+
  finally have "sint (lo + v) = sint lo + uint v" by simp
  then show ?thesis using v by (simp add: word_sle_eq)
qed

section \<open>Shuffles\<close>

text \<open>A shuffle as a function of the indices it draws: position \<open>n\<close> swaps with \<open>js ! n \<le> n\<close>.\<close>

primrec fy :: "nat \<Rightarrow> 'a list \<Rightarrow> nat list \<Rightarrow> 'a list" where
  "fy 0 s js = s"
| "fy (Suc n) s js = fy n (swap_list n (js ! n) s) js"

definition fy_choices :: "nat \<Rightarrow> nat list set" where
  "fy_choices n = {js. length js = n \<and> (\<forall>i<n. js ! i \<le> i)}"

lemma fy_append: "length js = n \<Longrightarrow> fy n s (js @ ks) = fy n s js"
proof -
  have "m \<le> length js \<Longrightarrow> fy m s (js @ ks) = fy m s js" for m
    by (induction m arbitrary: s) (auto simp: nth_append)
  then show "length js = n \<Longrightarrow> fy n s (js @ ks) = fy n s js" by simp
qed

lemma fy_choices_Suc: "ks \<in> fy_choices (Suc n) \<longleftrightarrow> (\<exists>js j. ks = js @ [j] \<and> js \<in> fy_choices n \<and> j \<le> n)"
proof
  assume k: "ks \<in> fy_choices (Suc n)"
  then have "ks = take n ks @ [ks ! n]" by (simp add: fy_choices_def take_Suc_conv_app_nth [symmetric])
  moreover have "take n ks \<in> fy_choices n" "ks ! n \<le> n" using k by (simp_all add: fy_choices_def)
  ultimately show "\<exists>js j. ks = js @ [j] \<and> js \<in> fy_choices n \<and> j \<le> n" by blast
qed (auto simp: fy_choices_def nth_append less_Suc_eq)

lemma fy_mset: "n \<le> length s \<Longrightarrow> js \<in> fy_choices n \<Longrightarrow> mset (fy n s js) = mset s \<and> drop n (fy n s js) = drop n s"
proof (induction n arbitrary: s js)
  case (Suc n)
  then obtain ks j where k: "js = ks @ [j]" "ks \<in> fy_choices n" "j \<le> n" by (auto simp: fy_choices_Suc)
  have l: "length ks = n" using k(2) by (simp add: fy_choices_def)
  let ?s = "swap_list n j s"
  have "js ! n = j" using k(1) l by (simp add: nth_append)
  then have e: "fy (Suc n) s js = fy n ?s ks" unfolding k(1) by (simp add: fy_append [OF l])
  have i: "mset (fy n ?s ks) = mset ?s" "drop n (fy n ?s ks) = drop n ?s"
    using Suc.IH [OF _ k(2), of ?s] Suc.prems(1) by simp_all
  have "drop (Suc n) ?s = drop (Suc n) s" using k(3) by (simp add: swap_list_def)
  then have "drop (Suc n) (fy n ?s ks) = drop (Suc n) s" using i(2) by (metis drop_Suc tl_drop)
  then show ?case using i(1) Suc.prems(1) k(3) unfolding e by simp
qed simp

lemma fy_inj:
  "distinct s \<Longrightarrow> n \<le> length s \<Longrightarrow> js \<in> fy_choices n \<Longrightarrow> ks \<in> fy_choices n \<Longrightarrow> fy n s js = fy n s ks \<Longrightarrow> js = ks"
proof (induction n arbitrary: s js ks)
  case (Suc n)
  obtain js' j where j: "js = js' @ [j]" "js' \<in> fy_choices n" "j \<le> n" using Suc.prems(3) by (auto simp: fy_choices_Suc)
  obtain ks' k where k: "ks = ks' @ [k]" "ks' \<in> fy_choices n" "k \<le> n" using Suc.prems(4) by (auto simp: fy_choices_Suc)
  have l: "length js' = n" "length ks' = n" using j(2) k(2) by (simp_all add: fy_choices_def)
  have e: "fy n (swap_list n j s) js' = fy n (swap_list n k s) ks'"
    using Suc.prems(5) l unfolding j(1) k(1) by (simp add: fy_append nth_append)
  have d: "drop n (swap_list n j s) = drop n (swap_list n k s)"
    using fy_mset [OF _ j(2), of "swap_list n j s"] fy_mset [OF _ k(2), of "swap_list n k s"] Suc.prems(2) e by simp
  then have "swap_list n j s ! n = swap_list n k s ! n"
    using Suc.prems(2) by (metis hd_drop_conv_nth length_swap_list Suc_le_eq)
  then have "s ! j = s ! k" using Suc.prems(2) j(3) k(3) by (auto simp: nth_swap_list split: if_splits)
  then have jk: "j = k" using Suc.prems(1,2) j(3) k(3) by (simp add: nth_eq_iff_index_eq)
  have "distinct (swap_list n j s)"
    using Suc.prems(1,2) j(3) by (metis distinct_count_atmost_1 mset_swap_list Suc_le_eq le_less_trans mset_eq_imp_distinct_iff)
  then have "js' = ks'" using Suc.IH [OF _ _ j(2) k(2)] e jk Suc.prems(2) by simp
  then show ?case using j(1) k(1) jk by simp
qed (simp add: fy_choices_def)

lemma fy_surj:
  "distinct s \<Longrightarrow> n \<le> length s \<Longrightarrow> mset t = mset s \<Longrightarrow> drop n t = drop n s \<Longrightarrow> \<exists>js\<in>fy_choices n. fy n s js = t"
proof (induction n arbitrary: s)
  case 0
  then show ?case by (simp add: fy_choices_def)
next
  case (Suc n)
  have lt: "length t = length s" using Suc.prems(3) by (metis size_mset)
  have dt: "distinct t" using Suc.prems(1,3) by (metis mset_eq_imp_distinct_iff)
  have n: "n < length s" using Suc.prems(2) by simp
  have "t ! n \<in> set s" using lt n Suc.prems(3) by (metis mset_eq_setD nth_mem)
  then obtain j where j: "j < length s" "s ! j = t ! n" by (auto simp: in_set_conv_nth)
  have jn: "j \<le> n"
  proof (rule ccontr)
    assume "\<not> j \<le> n"
    then have "drop (Suc n) t ! (j - Suc n) = t ! j" "drop (Suc n) s ! (j - Suc n) = s ! j" using j(1) lt by simp_all
    then have "t ! j = t ! n" using Suc.prems(4) j(2) by simp
    then show False using dt \<open>\<not> j \<le> n\<close> j(1) lt n by (simp add: nth_eq_iff_index_eq)
  qed
  let ?s = "swap_list n j s"
  have m: "mset ?s = mset s" using j(1) n by simp
  have "drop n t = t ! n # drop (Suc n) t" using n lt by (simp add: Cons_nth_drop_Suc)
  moreover have "drop n ?s = s ! j # drop (Suc n) s"
  proof -
    have "drop n ?s = ?s ! n # drop (Suc n) ?s" using n by (simp add: Cons_nth_drop_Suc)
    moreover have "drop (Suc n) ?s = drop (Suc n) s" using jn by (simp add: swap_list_def)
    moreover have "?s ! n = s ! j" using n j(1) by (simp add: nth_swap_list)
    ultimately show ?thesis by simp
  qed
  ultimately have "drop n t = drop n ?s" using Suc.prems(4) j(2) by simp
  moreover have "distinct ?s" using m Suc.prems(1) by (metis mset_eq_imp_distinct_iff)
  ultimately obtain js where js: "js \<in> fy_choices n" "fy n ?s js = t"
    using Suc.IH [of ?s] m Suc.prems(3) n by auto
  have "length js = n" using js(1) by (simp add: fy_choices_def)
  then have "fy (Suc n) s (js @ [j]) = t" using js(2) by (simp add: fy_append nth_append)
  moreover have "js @ [j] \<in> fy_choices (Suc n)" using js(1) jn by (auto simp: fy_choices_Suc)
  ultimately show ?case by blast
qed

text \<open>Every arrangement comes from exactly one choice of indices.\<close>

lemma fy_bij:
  assumes "distinct s"
  shows "bij_betw (fy (length s) s) (fy_choices (length s)) {t. mset t = mset s}"
  unfolding bij_betw_def
proof (intro conjI inj_onI equalityI subsetI)
  fix js ks assume "js \<in> fy_choices (length s)" "ks \<in> fy_choices (length s)" "fy (length s) s js = fy (length s) s ks"
  then show "js = ks" by (rule fy_inj [OF assms order_refl])
next
  fix t assume "t \<in> fy (length s) s ` fy_choices (length s)"
  then show "t \<in> {t. mset t = mset s}" using fy_mset [of "length s" s] by auto
next
  fix t assume "t \<in> {t. mset t = mset s}"
  then have "mset t = mset s" "length t = length s" by (auto dest: mset_eq_length)
  then show "t \<in> fy (length s) s ` fy_choices (length s)" using fy_surj [OF assms, of "length s" t] by auto
qed

text \<open>The code's loop is that function of the indices the generator gives it.\<close>

lemma shuffle_loop:
  assumes "n \<le> length s" "length s \<le> SIZE_MAX"
    "for_loop (rev [2..<n + 1]) (\<lambda>i (s, g). do {
       (j, g') \<leftarrow> tda_rng_idx g i; t \<leftarrow> span_swap s (i - 1) j; Some (t, g') }) (s, g) = Some (t, h)"
  shows "\<exists>js\<in>fy_choices n. t = fy n s js"
  using assms
proof (induction n arbitrary: s g)
  case (Suc n)
  show ?case
  proof (cases "n = 0")
    case True
    then have "[0] \<in> fy_choices (Suc n)" "t = fy (Suc n) s [0]" using Suc.prems by (simp_all add: fy_choices_def)
    then show ?thesis by blast
  next
    case False
    then have r: "rev [2..<Suc n + 1] = Suc n # rev [2..<n + 1]" by simp
    from Suc.prems(3) obtain j g' where j: "tda_rng_idx g (Suc n) = Some (j, g')" "j < length s"
      and rest: "for_loop (rev [2..<n + 1]) (\<lambda>i (s, g). do {
       (j, g') \<leftarrow> tda_rng_idx g i; t \<leftarrow> span_swap s (i - 1) j; Some (t, g') }) (swap_list n j s, g') = Some (t, h)"
      unfolding r by (auto simp: bind_eq_Some_conv)
    have jn: "j \<le> n" using idx_less [OF j(1)] Suc.prems(1,2) by simp
    from Suc.IH [OF _ _ rest] Suc.prems(1,2) obtain js where js: "js \<in> fy_choices n" "t = fy n (swap_list n j s) js"
      by auto
    have "length js = n" using js(1) by (simp add: fy_choices_def)
    then have "t = fy (Suc n) s (js @ [j])" using js(2) by (simp add: fy_append nth_append)
    moreover have "js @ [j] \<in> fy_choices (Suc n)" using js(1) jn by (auto simp: fy_choices_Suc)
    ultimately show ?thesis by blast
  qed
qed (simp add: fy_choices_def)

lemma shuffle_choices:
  assumes "tda_span_shuffle s g = Some (t, h)" "length s \<le> SIZE_MAX"
  shows "\<exists>js\<in>fy_choices (length s). t = fy (length s) s js"
  using shuffle_loop [OF order_refl assms(2)] assms(1) by (simp add: tda_span_shuffle_def)

text \<open>It fails in no other way than a draw that does not end.\<close>

lemma shuffle_returns:
  assumes "length s \<le> SIZE_MAX" "\<And>i g. 2 \<le> i \<Longrightarrow> i \<le> length s \<Longrightarrow> tda_rng_idx g i \<noteq> None"
  shows "tda_span_shuffle s g \<noteq> None"
proof -
  have "n \<le> length u \<Longrightarrow> length u = length s \<Longrightarrow> for_loop (rev [2..<n + 1]) (\<lambda>i (s, g). do {
       (j, g') \<leftarrow> tda_rng_idx g i; t \<leftarrow> span_swap s (i - 1) j; Some (t, g') }) (u, g) \<noteq> None" for n u g
  proof (induction n arbitrary: u g)
    case (Suc n)
    show ?case
    proof (cases "n = 0")
      case False
      then have r: "rev [2..<Suc n + 1] = Suc n # rev [2..<n + 1]" by simp
      obtain j g' where j: "tda_rng_idx g (Suc n) = Some (j, g')"
        using assms(2) [of "Suc n" g] False Suc.prems by fastforce
      have "j < length u" using idx_less [OF j] assms(1) Suc.prems by simp
      then show ?thesis
        using Suc.IH [of "swap_list n j u" g'] Suc.prems j unfolding r by simp
    qed simp
  qed simp
  from this [of "length s" s g] show ?thesis by (simp add: tda_span_shuffle_def)
qed

text \<open>A draw from a power of two rejects nothing.\<close>

lemma idx_pow2:
  assumes "k \<le> 63"
  shows "tda_rng_idx g (2 ^ k) \<noteq> None"
proof -
  have p: "(2 :: nat) ^ k < 2 ^ 64" using assms by (intro power_strict_increasing) simp_all
  have b: "(of_nat (2 ^ k) - 1 :: 64 word) = of_nat (2 ^ k - 1)" by (simp add: of_nat_diff)
  have "(2 :: nat) ^ k - 1 < 2 ^ LENGTH(64)" using p by simp
  then have u: "unat (of_nat (2 ^ k) - 1 :: 64 word) = 2 ^ k - 1"
    unfolding b unat_of_nat by (rule mod_less)
  have nm: "(of_nat (2 ^ k) - 1 :: 64 word) \<noteq> - 1"
  proof
    assume "(of_nat (2 ^ k) - 1 :: 64 word) = - 1"
    then have "(2 :: nat) ^ k - 1 = unat (- 1 :: 64 word)" using u by metis
    moreover have "unat (- 1 :: 64 word) = 2 ^ 64 - 1" by (simp add: unsigned_minus_1_eq_mask mask_eq_exp_minus_1)
    moreover have "1 \<le> (2 :: nat) ^ k" by simp
    ultimately show False using p by linarith
  qed
  obtain x g' where n: "next_u64 g = (x, g')" by (cases "next_u64 g")
  have "(2 :: nat) ^ 64 = 2 ^ (64 - k) * 2 ^ k" using assms by (simp flip: power_add)
  then have "(2 :: nat) ^ 64 mod 2 ^ k = 0" by (metis mod_mult_self2_is_0)
  moreover have r: "unat (of_nat (2 ^ k) - 1 :: 64 word) + 1 = 2 ^ k" unfolding u by simp
  moreover have "(unat x * 2 ^ k) div 2 ^ 64 = unat (word_of_nat ((unat x * 2 ^ k) div 2 ^ 64) :: 64 word)"
  proof -
    have "(unat x * 2 ^ k) div 2 ^ 64 < 2 ^ 64" using less_trans [OF product_div_less [of "2 ^ k" x] p [simplified]] by simp
    then show ?thesis by (simp add: unat_of_nat)
  qed
  ultimately have "pick64 (of_nat (2 ^ k) - 1) x = Some (word_of_nat ((unat x * 2 ^ k) div 2 ^ 64))"
    unfolding pick64_iff [OF nm] r by simp
  then show ?thesis
    using n by (subst tda_rng_idx_def, subst u64_max_step) simp
qed

lemma shuffle_prefix_mset:
  assumes "tda_span_shuffle_prefix s cnt g = Some (t, h)"
  shows "mset t = mset s"
proof -
  have "for_loop is (\<lambda>i (s', g). do {
       (j, g') \<leftarrow> tda_rng_idx g (length s' - i); t \<leftarrow> span_swap s' i (i + j); Some (t, g') }) (u, g) = Some (t, h)
     \<Longrightarrow> mset t = mset u" for "is" u g
    by (induction "is" arbitrary: u g) (auto simp: bind_eq_Some_conv)
  then show ?thesis using assms by (auto simp: tda_span_shuffle_prefix_def)
qed

end
