(* ===== verification/Tda_Core_Properties.thy ===== *)
theory Tda_Core_Properties
  imports Tda_Sort Tda_Set Tda_Modify Tda_Rng Tda_Default
begin

text \<open>
  What sorting, the set operations, the one-pass rewrites, hashing and the random draws
  promise, each with an instance on a small input.
\<close>

abbreviation order_u8 :: "8 word cmp_fn" where
  "order_u8 \<equiv> cmp_uint"

lemmas order_u8_comparator = uint.comparator_axioms [where 'w = 8]

text \<open>C36: \<open>tda_span_sort\<close>, with its three-way partition, its insertion sort for short runs and
  its fall back to the heap sort when the recursion gets too deep, sorts any span, whatever the
  element size that picks the insertion sort: it ends, in order, with the elements it was given.\<close>

theorem sort_sorts:
  assumes "comparator cmp"
  shows "\<exists>t. tda_span_sort es s cmp = Some t \<and> mset t = mset s \<and> sorted_by cmp t"
  by (rule comparator.sort_spec [OF assms])

theorem sort_sorts_witness:
  "\<exists>t. tda_span_sort 1 [3, 1, 2] order_u8 = Some t \<and> mset t = mset [3, 1, 2] \<and> sorted_by order_u8 t"
  by (rule sort_sorts [OF order_u8_comparator])

text \<open>C37: \<open>tda_span_sort_stable\<close> over any allocator sorts and keeps equal elements in the order
  they had, or reports that its buffer was refused and leaves the span as it was; the buffer does
  not leak.\<close>

theorem sort_stable_sorts:
  assumes "allocator al I owned" "comparator cmp" "I w" "length s * es \<le> SIZE_MAX" "4 * length s \<le> SIZE_MAX"
  shows "\<exists>st w' t. tda_span_sort_stable junk w es s cmp al = Some (st, w', t) \<and> I w' \<and> heap w' = heap w
    \<and> (if st = TDA_STATUS_OK then stable_of cmp s t \<and> mset t = mset s else t = s)"
  by (rule sort_stable_spec [OF assms])

theorem sort_stable_sorts_witness:
  "\<exists>st w' t. tda_span_sort_stable (\<lambda>i. 0) empty_world 8 [3, 1, 2] order_u8 c_heap = Some (st, w', t)
     \<and> heap w' = heap empty_world"
  using sort_stable_sorts [OF bump.allocator_axioms order_u8_comparator bump_ok_empty, of "[3, 1, 2]" 8 "\<lambda>i. 0"]
  by (auto simp: SIZE_MAX_num)

text \<open>\<open>partial_sort\<close> puts the smallest \<open>n\<close> elements first and in order, and the insertion sort
  on its own is stable.\<close>

lemma partial_sort_sorts_prefix:
  assumes "comparator cmp" "n \<le> length s"
  shows "\<exists>t. tda_span_partial_sort es s n cmp = Some t \<and> mset t = mset s \<and> sorted_by cmp (take n t)
    \<and> (\<forall>x\<in>set (take n t). \<forall>y\<in>set (drop n t). cmp x y \<le> 0)"
proof -
  obtain t where t: "tda_span_partial_sort es s n cmp = Some t" "mset t = mset s" "sorted_by cmp (take n t)" "splits_at cmp n t"
    using comparator.partial_sort_spec [OF assms] by blast
  have "length t = length s" by (rule mset_eq_length [OF t(2)])
  then show ?thesis using t assms(2) splits_at_sets [of n t cmp] by auto
qed

text \<open>C38: on sorted spans the four set operations give a sorted result that holds, of each class
  of equal elements with the runs \<open>A\<close> in \<open>a\<close> and \<open>B\<close> in \<open>b\<close>: all of \<open>A\<close> and what \<open>B\<close> has more;
  as many of \<open>A\<close> as both have; what \<open>A\<close> has more; what either has more.\<close>

theorem set_operations_by_class:
  assumes C: "comparator cmp" and s: "sorted_by cmp a" "sorted_by cmp b"
    and fit: "length a + length b \<le> SIZE_MAX" "length a + length b \<le> length dst"
  shows "\<exists>u i d x. tda_span_set_union dst a b cmp = Some (front_of u dst) \<and> sorted_by cmp u
    \<and> tda_span_set_intersection dst a b cmp = Some (front_of i dst) \<and> sorted_by cmp i
    \<and> tda_span_set_difference dst a b cmp = Some (front_of d dst) \<and> sorted_by cmp d
    \<and> tda_span_set_symmetric_difference dst a b cmp = Some (front_of x dst) \<and> sorted_by cmp x
    \<and> (\<forall>k. let A = class_of cmp k a; B = class_of cmp k b in
         class_of cmp k u = A @ drop (length A) B \<and> class_of cmp k i = take (length B) A
         \<and> class_of cmp k d = drop (length B) A \<and> class_of cmp k x = drop (length B) A @ drop (length A) B)"
proof (intro exI conjI allI)
  note cls = comparator.set_by_class [OF C s]
  show "tda_span_set_union dst a b cmp = Some (front_of (set_by True True True cmp a b) dst)"
    "tda_span_set_symmetric_difference dst a b cmp = Some (front_of (set_by True True False cmp a b) dst)"
    by (rule union_spec symmetric_difference_spec, rule fit(1), rule fit(2))+
  show "tda_span_set_intersection dst a b cmp = Some (front_of (set_by False False True cmp a b) dst)"
    by (rule intersection_spec) (use fit in simp)
  show "tda_span_set_difference dst a b cmp = Some (front_of (set_by True False False cmp a b) dst)"
    by (rule difference_spec) (use fit in simp)
  show "let A = class_of cmp k a; B = class_of cmp k b in
         class_of cmp k (set_by True True True cmp a b) = A @ drop (length A) B
         \<and> class_of cmp k (set_by False False True cmp a b) = take (length B) A
         \<and> class_of cmp k (set_by True False False cmp a b) = drop (length B) A
         \<and> class_of cmp k (set_by True True False cmp a b) = drop (length B) A @ drop (length A) B" for k
    by (auto simp: cls pair_off_def Let_def)
qed (rule comparator.set_by_sorted [OF C s])+

theorem set_operations_by_class_witness:
  "\<exists>u i. tda_span_set_union [0, 0, 0, 0, 0] [1, 2, 2] [2, 3] order_u8 = Some (front_of u [0, 0, 0, 0, 0]) \<and> sorted_by order_u8 u
    \<and> tda_span_set_intersection [0, 0, 0, 0, 0] [1, 2, 2] [2, 3] order_u8 = Some (front_of i [0, 0, 0, 0, 0]) \<and> sorted_by order_u8 i"
proof -
  have "sorted_by order_u8 [1, 2, 2]" "sorted_by order_u8 [2, 3]" by (simp_all add: sorted_by_def cmp_uint_def c_bool_def)
  from set_operations_by_class [OF order_u8_comparator this, of "[0, 0, 0, 0, 0]"] show ?thesis
    by (auto simp: SIZE_MAX_num)
qed

text \<open>\<open>tda_span_includes\<close> on sorted spans answers whether every class has at least as many
  elements in the first as in the second.\<close>

theorem includes_counts_classes:
  assumes "comparator cmp" "sorted_by cmp a" "sorted_by cmp b"
  shows "tda_span_includes a b cmp = Some (\<forall>k. length (class_of cmp k b) \<le> length (class_of cmp k a))"
  using comparator.includes_by_spec [OF assms] by (simp add: includes_spec)

text \<open>A bounded draw is at most its bound, and of the \<open>2 ^ 64\<close> words the generator can give,
  each value of the range is picked by exactly as many as any other; a draw that returns is the
  pick of the first word that is accepted.\<close>

lemma bounded_draws_are_fair:
  assumes "v \<le> b"
  shows "card {x. pick64 b x = Some v} = 2 ^ 64 div (unat b + 1)
    \<and> (tda_rng_u64_max g b = Some r \<longleftrightarrow> draws_to (pick64 b) g r)
    \<and> (tda_rng_u64_max g b = Some r \<longrightarrow> fst r \<le> b)"
  using pick64_uniform [OF assms] u64_max_draws [of g b r] u64_max_le [of g b "fst r" "snd r"] by auto

text \<open>a draw from a signed range lies in the range, to the full width of the type, and the
  32-bit draw it rests on is fair in the same sense.\<close>

theorem signed_ranges_hold:
  assumes "lo \<le>s hi" "v \<le> b"
  shows "(tda_rng_i32_range g lo hi = Some r \<longrightarrow> lo \<le>s fst r \<and> fst r \<le>s hi)
    \<and> card {x. pick32 b x = Some v} = 2 ^ 32 * (2 ^ 32 div (unat b + 1))"
proof (intro conjI impI)
  assume "tda_rng_i32_range g lo hi = Some r"
  then obtain u h where u: "tda_rng_u32_max g (hi - lo) = Some (u, h)" "fst r = lo + u"
    by (auto simp: tda_rng_i32_range_def bind_eq_Some_conv)
  from range_add [OF assms(1) u32_max_le [OF u(1)]]
  show "lo \<le>s fst r" "fst r \<le>s hi" unfolding u(2) by blast+
qed (rule pick32_uniform [OF assms(2)])

text \<open>C39: a generator made from any seed and advanced any number of times is never in the state
  of all zeros, which it could not leave.\<close>

theorem rng_never_all_zero:
  "rng_ok (((\<lambda>g. snd (next_u64 g)) ^^ n) (tda_rng_from_seed seed))"
  by (induction n) (simp_all add: from_seed_ok next_ok)

text \<open>A shuffle that returns is the arrangement its drawn indices choose, and every
  arrangement of distinct elements comes from exactly one choice of indices; it returns whenever
  its draws do.\<close>

lemma shuffle_is_unbiased:
  assumes "distinct s" "length s \<le> SIZE_MAX" "\<And>i g. 2 \<le> i \<Longrightarrow> i \<le> length s \<Longrightarrow> tda_rng_idx g i \<noteq> None"
  shows "\<exists>js g' t. tda_span_shuffle s g = Some (t, g') \<and> js \<in> fy_choices (length s) \<and> t = fy (length s) s js
    \<and> bij_betw (fy (length s) s) (fy_choices (length s)) {u. mset u = mset s}"
  using shuffle_returns [OF assms(2,3), of g] shuffle_choices [OF _ assms(2), of g] fy_bij [OF assms(1)] by fast

text \<open>C40: keys that a built-in comparator calls equal hash alike, for floats exactly those, with
  both zeros one key and all NaNs another; integers of up to 64 bits never collide.\<close>

theorem hash_respects_equality:
  fixes m n :: "'u::len word" and i j :: "'s::len word"
  assumes "LENGTH('u) \<le> 64" "LENGTH('s) \<le> 64"
  shows "(tda_hash_f64 a = tda_hash_f64 b \<longleftrightarrow> cmp_f64 a b = 0)
   \<and> (tda_hash_f32 c = tda_hash_f32 d \<longleftrightarrow> cmp_f32 c d = 0)
   \<and> (cmp_cstr str p q = 0 \<longrightarrow> tda_hash_cstr str p = tda_hash_cstr str q)
   \<and> (hash_uint m = hash_uint n \<longleftrightarrow> m = n) \<and> (hash_sint i = hash_sint j \<longleftrightarrow> i = j)"
  using hash_f64_eq_iff [of a b] hash_f32_eq_iff [of c d] hash_cstr_eq [of str p q]
    hash_uint_inj [OF assms(1), of m n] hash_sint_inj [OF assms(2), of i j]
  by simp

theorem hash_respects_equality_witness:
  "hash_uint (200 :: 8 word) \<noteq> hash_uint (72 :: 8 word) \<and> hash_sint (- 1 :: 16 word) \<noteq> hash_sint (255 :: 16 word)
   \<and> tda_hash_cstr (\<lambda>p. [104, 105]) (Some 3) = tda_hash_cstr (\<lambda>p. [104, 105]) (Some 8)"
  using hash_respects_equality [where m = "200 :: 8 word" and n = 72 and i = "- 1 :: 16 word" and j = 255
      and a = 0 and b = 0 and c = 0 and d = 0 and str = "\<lambda>p. [104, 105]" and p = "Some 3" and q = "Some 8"]
  by (simp add: cmp_cstr_def c_bool_def)

text \<open>with an operation and the one that undoes it, the adjacent differences of the partial
  sums are the span again.\<close>

theorem differences_undo_sums:
  assumes "\<And>a b. minus' (plus' a b) a = b" "length dst = length src" "length dst' = length src"
  shows "\<exists>t. tda_span_partial_sum dst src plus' = Some t \<and> tda_span_adjacent_difference dst' t minus' = Some src"
  using assms by (intro difference_of_sum)

text \<open>\<open>unique\<close> leaves at the front the elements that differ from the one kept before them,
  \<open>remove_if\<close> those the predicate does not accept, in their order; the length they report is the
  number kept, and nothing is written past the end.\<close>

theorem unique_and_remove_keep:
  "\<exists>t u. tda_span_unique s eq = Some (t, length (unique_by eq s)) \<and> length t = length s
     \<and> take (length (unique_by eq s)) t = unique_by eq s
     \<and> tda_span_remove_if s pred = Some (u, length (filter (\<lambda>x. \<not> pred x) s)) \<and> length u = length s
     \<and> take (length (filter (\<lambda>x. \<not> pred x) s)) u = filter (\<lambda>x. \<not> pred x) s"
  using unique_spec [of s eq] remove_if_spec [of s pred] by blast

end
