(* ===== verification/Tda_Vec.thy ===== *)
theory Tda_Vec
  imports Tda_Span
begin

text \<open>
  \<open>src/ds/vec.c\<close>: the growable array. \<open>vec\<close> is \<open>struct tda_Vec\<close> together with its own
  address \<open>vec_self\<close>; its elements are the first \<open>vec_len\<close> runs of \<open>vec_elem_size\<close> bytes
  of the block \<open>vec_data\<close> points at. Every operation threads the memory and returns
  \<open>None\<close> exactly where an assertion of the code fails or an access leaves its block. An
  argument \<open>val\<close> is the bytes it points at: the caller's memory, which the header forbids
  to lie in the vec's own block.

  \<open>vec_inv\<close> is the well-formedness every operation keeps, \<open>vec_list\<close> the sequence the vec
  stands for; the lemmas of the second half give each operation's effect on it, the
  blocks it lends and gives back, and that a refused allocation leaves everything as it was.
\<close>

section \<open>The struct and its checks\<close>

record 's vec =
  vec_self :: ptr
  vec_data :: "ptr option"
  vec_len :: nat
  vec_cap :: nat
  vec_elem_size :: nat
  vec_al :: "'s al"

definition sizeof_tda_Vec :: nat where
  "sizeof_tda_Vec = 40"

definition VEC_GROWTH_BASE :: nat where
  "VEC_GROWTH_BASE = 1"

definition VEC_GROWTH_FACTOR :: nat where
  "VEC_GROWTH_FACTOR = 2"

definition ASSERT_VEC :: "'s vec \<Rightarrow> unit option" where
  "ASSERT_VEC v = do {
     c_assert (vec_elem_size v > 0);
     c_assert (vec_len v \<le> vec_cap v);
     c_assert (vec_cap v = 0 \<or> vec_data v \<noteq> None);
     c_assert (vec_data v = None \<or> vec_cap v > 0)
   }"

section \<open>Internals\<close>

definition vec_len_bytes :: "'s vec \<Rightarrow> nat" where
  "vec_len_bytes v = size_mul (vec_len v) (vec_elem_size v)"

definition vec_cap_bytes :: "'s vec \<Rightarrow> nat" where
  "vec_cap_bytes v = size_mul (vec_cap v) (vec_elem_size v)"

definition vec_offset :: "'s vec \<Rightarrow> nat \<Rightarrow> (ptr \<times> nat) option" where
  "vec_offset v idx = do {
     off \<leftarrow> tda_byte_offset (vec_data v \<noteq> None) (vec_elem_size v) idx;
     p \<leftarrow> vec_data v;
     Some (p, off)
   }"

definition vec_set_fields :: "ptr \<Rightarrow> ptr option \<Rightarrow> nat \<Rightarrow> nat \<Rightarrow> nat \<Rightarrow> 's al \<Rightarrow> 's vec" where
  "vec_set_fields obj data len cap elem_size al =
     \<lparr>vec_self = obj, vec_data = data, vec_len = len, vec_cap = cap,
      vec_elem_size = elem_size, vec_al = al\<rparr>"

text \<open>The two \<open>goto fail\<close> paths give the struct back and report \<open>ERR_NO_MEM\<close>.\<close>

definition vec_new_fail :: "'s al \<Rightarrow> 's world \<Rightarrow> ptr \<Rightarrow> (tda_Status \<times> 's vec option \<times> 's world) option" where
  "vec_new_fail al w obj = do {
     w1 \<leftarrow> tda_dealloc al w (Some obj) sizeof_tda_Vec;
     Some (TDA_STATUS_ERR_NO_MEM, None, w1)
   }"

definition vec_new_impl ::
  "bool \<Rightarrow> nat \<Rightarrow> nat \<Rightarrow> nat \<Rightarrow> 's al \<Rightarrow> 's world \<Rightarrow> (tda_Status \<times> 's vec option \<times> 's world) option" where
  "vec_new_impl zeroed len cap elem_size al w = do {
     c_assert (len \<le> cap);
     c_assert (elem_size > 0);
     (r, w1) \<leftarrow> tda_alloc al w sizeof_tda_Vec;
     (case r of
        None \<Rightarrow> Some (TDA_STATUS_ERR_NO_MEM, None, w1)
      | Some obj \<Rightarrow>
          if cap > 0 then
            (case ckd_mul cap elem_size of
               None \<Rightarrow> vec_new_fail al w1 obj
             | Some bytes \<Rightarrow> do {
                 (d, w2) \<leftarrow> tda_alloc al w1 bytes;
                 (case d of
                    None \<Rightarrow> vec_new_fail al w2 obj
                  | Some data \<Rightarrow> do {
                      w3 \<leftarrow> (if zeroed then mem_set w2 data 0 0 (size_mul len elem_size) else Some w2);
                      let v = vec_set_fields obj (Some data) len cap elem_size al;
                      ASSERT_VEC v;
                      Some (TDA_STATUS_OK, Some v, w3)
                    })
               })
          else do {
            let v = vec_set_fields obj None len cap elem_size al;
            ASSERT_VEC v;
            Some (TDA_STATUS_OK, Some v, w1)
          })
   }"

definition vec_release_data :: "'s world \<Rightarrow> 's vec \<Rightarrow> ('s world \<times> 's vec) option" where
  "vec_release_data w v = do {
     w1 \<leftarrow> tda_dealloc (vec_al v) w (vec_data v) (vec_cap_bytes v);
     Some (w1, v\<lparr>vec_data := None, vec_len := 0, vec_cap := 0\<rparr>)
   }"

definition vec_next_cap :: "'s vec \<Rightarrow> nat" where
  "vec_next_cap v =
     (if vec_cap v = 0 then VEC_GROWTH_BASE
      else case ckd_mul (vec_cap v) VEC_GROWTH_FACTOR of
        None \<Rightarrow> SIZE_MAX
      | Some grown \<Rightarrow> grown)"

definition tda_vec_reserve :: "'s world \<Rightarrow> 's vec \<Rightarrow> nat \<Rightarrow> (tda_Status \<times> 's world \<times> 's vec) option" where
  "tda_vec_reserve w v new_cap = do {
     ASSERT_VEC v;
     if new_cap \<le> vec_cap v then Some (TDA_STATUS_OK, w, v)
     else case ckd_mul new_cap (vec_elem_size v) of
       None \<Rightarrow> Some (TDA_STATUS_ERR_NO_MEM, w, v)
     | Some new_bytes \<Rightarrow> do {
         (r, w1) \<leftarrow> tda_realloc (vec_al v) w (vec_data v) (vec_cap_bytes v) new_bytes;
         (case r of
            None \<Rightarrow> Some (TDA_STATUS_ERR_NO_MEM, w1, v)
          | Some data \<Rightarrow> Some (TDA_STATUS_OK, w1, v\<lparr>vec_data := Some data, vec_cap := new_cap\<rparr>))
       }
   }"

definition vec_grow :: "'s world \<Rightarrow> 's vec \<Rightarrow> (tda_Status \<times> 's world \<times> 's vec) option" where
  "vec_grow w v = do {
     c_assert (vec_len v = vec_cap v);
     if vec_cap v = SIZE_MAX then Some (TDA_STATUS_ERR_NO_MEM, w, v)
     else do {
       let wanted = vec_next_cap v;
       (st, w1, v1) \<leftarrow> tda_vec_reserve w v wanted;
       if TDA_STATUS_IS_OK st \<or> wanted \<le> vec_cap v1 + 1 then Some (st, w1, v1)
       else tda_vec_reserve w1 v1 (vec_cap v1 + 1)
     }
   }"

definition vec_reserve_one :: "'s world \<Rightarrow> 's vec \<Rightarrow> (tda_Status \<times> 's world \<times> 's vec) option" where
  "vec_reserve_one w v =
     (if vec_len v = vec_cap v then vec_grow w v else Some (TDA_STATUS_OK, w, v))"

definition vec_reserve_for :: "'s world \<Rightarrow> 's vec \<Rightarrow> nat \<Rightarrow> (tda_Status \<times> 's world \<times> 's vec) option" where
  "vec_reserve_for w v new_len = do {
     c_assert (new_len > vec_cap v);
     let eager = vec_next_cap v;
     if eager > new_len then do {
       (st, w1, v1) \<leftarrow> tda_vec_reserve w v eager;
       if TDA_STATUS_IS_OK st then Some (st, w1, v1) else tda_vec_reserve w1 v1 new_len
     }
     else tda_vec_reserve w v new_len
   }"

section \<open>Lifetime\<close>

definition tda_vec_new :: "nat \<Rightarrow> 's al \<Rightarrow> 's world \<Rightarrow> (tda_Status \<times> 's vec option \<times> 's world) option" where
  "tda_vec_new elem_size al w = do {
     c_assert (elem_size > 0);
     vec_new_impl False 0 0 elem_size al w
   }"

definition tda_vec_new_len ::
  "nat \<Rightarrow> nat \<Rightarrow> 's al \<Rightarrow> 's world \<Rightarrow> (tda_Status \<times> 's vec option \<times> 's world) option" where
  "tda_vec_new_len len elem_size al w = do {
     c_assert (elem_size > 0);
     vec_new_impl True len len elem_size al w
   }"

definition tda_vec_new_cap ::
  "nat \<Rightarrow> nat \<Rightarrow> 's al \<Rightarrow> 's world \<Rightarrow> (tda_Status \<times> 's vec option \<times> 's world) option" where
  "tda_vec_new_cap cap elem_size al w = do {
     c_assert (elem_size > 0);
     vec_new_impl False 0 cap elem_size al w
   }"

definition tda_vec_from_data ::
  "(ptr \<times> nat) option \<Rightarrow> nat \<Rightarrow> nat \<Rightarrow> 's al \<Rightarrow> 's world \<Rightarrow> (tda_Status \<times> 's vec option \<times> 's world) option"
where
  "tda_vec_from_data data len elem_size al w = do {
     c_assert (data \<noteq> None \<or> len = 0);
     c_assert (elem_size > 0);
     (st, r, w1) \<leftarrow> vec_new_impl False len len elem_size al w;
     (case r of
        None \<Rightarrow> Some (st, None, w1)
      | Some vec \<Rightarrow>
          if len > 0 then do {
            (q, off) \<leftarrow> data;
            bs \<leftarrow> mem_read w1 q off (vec_len_bytes vec);
            p \<leftarrow> vec_data vec;
            w2 \<leftarrow> mem_write w1 p 0 bs;
            Some (TDA_STATUS_OK, Some vec, w2)
          }
          else Some (TDA_STATUS_OK, Some vec, w1))
   }"

definition tda_vec_from_span ::
  "tda_Span \<Rightarrow> 's al \<Rightarrow> 's world \<Rightarrow> (tda_Status \<times> 's vec option \<times> 's world) option" where
  "tda_vec_from_span s al w = do {
     TDA_SPAN_ASSERT s;
     tda_vec_from_data (sp_data s) (sp_len s) (sp_elem_size s) al w
   }"

text \<open>Dropping a null vec is a no-op.\<close>

definition tda_vec_drop :: "'s world \<Rightarrow> 's vec option \<Rightarrow> 's world option" where
  "tda_vec_drop w self = (case self of
      None \<Rightarrow> Some w
    | Some v \<Rightarrow> do {
        ASSERT_VEC v;
        w1 \<leftarrow> tda_dealloc (vec_al v) w (vec_data v) (vec_cap_bytes v);
        tda_dealloc (vec_al v) w1 (Some (vec_self v)) sizeof_tda_Vec
      })"

section \<open>Views, information, access\<close>

definition tda_vec_to_span :: "'s vec \<Rightarrow> tda_Span option" where
  "tda_vec_to_span v = do {
     ASSERT_VEC v;
     tda_span_from_data (map_option (\<lambda>p. (p, 0)) (vec_data v)) (vec_len v) (vec_elem_size v)
   }"

definition tda_vec_len :: "'s vec \<Rightarrow> nat option" where
  "tda_vec_len v = do { ASSERT_VEC v; Some (vec_len v) }"

definition tda_vec_cap :: "'s vec \<Rightarrow> nat option" where
  "tda_vec_cap v = do { ASSERT_VEC v; Some (vec_cap v) }"

definition tda_vec_elem_size :: "'s vec \<Rightarrow> nat option" where
  "tda_vec_elem_size v = do { ASSERT_VEC v; Some (vec_elem_size v) }"

definition tda_vec_bytes :: "'s vec \<Rightarrow> nat option" where
  "tda_vec_bytes v = do { ASSERT_VEC v; Some (vec_len_bytes v) }"

definition tda_vec_al :: "'s vec \<Rightarrow> 's al option" where
  "tda_vec_al v = do { ASSERT_VEC v; Some (vec_al v) }"

definition tda_vec_front :: "'s vec \<Rightarrow> (ptr \<times> nat) option" where
  "tda_vec_front v = do { ASSERT_VEC v; c_assert (vec_len v > 0); vec_offset v 0 }"

definition tda_vec_back :: "'s vec \<Rightarrow> (ptr \<times> nat) option" where
  "tda_vec_back v = do { ASSERT_VEC v; c_assert (vec_len v > 0); vec_offset v (vec_len v - 1) }"

definition tda_vec_get :: "'s vec \<Rightarrow> nat \<Rightarrow> (ptr \<times> nat) option" where
  "tda_vec_get v idx = do { ASSERT_VEC v; c_assert (idx < vec_len v); vec_offset v idx }"

definition tda_vec_set :: "'s world \<Rightarrow> 's vec \<Rightarrow> nat \<Rightarrow> byte list \<Rightarrow> 's world option" where
  "tda_vec_set w v idx val = do {
     ASSERT_VEC v;
     c_assert (idx < vec_len v);
     (p, off) \<leftarrow> vec_offset v idx;
     mem_write w p off (take (vec_elem_size v) val)
   }"

definition tda_vec_data :: "'s vec \<Rightarrow> ptr option option" where
  "tda_vec_data v = do { ASSERT_VEC v; Some (vec_data v) }"

section \<open>Modifications\<close>

definition tda_vec_push :: "'s world \<Rightarrow> 's vec \<Rightarrow> byte list \<Rightarrow> (tda_Status \<times> 's world \<times> 's vec) option" where
  "tda_vec_push w v val = do {
     ASSERT_VEC v;
     (st, w1, v1) \<leftarrow> vec_reserve_one w v;
     if TDA_STATUS_IS_ERR st then Some (st, w1, v1)
     else do {
       (p, off) \<leftarrow> vec_offset v1 (vec_len v1);
       w2 \<leftarrow> mem_write w1 p off (take (vec_elem_size v1) val);
       Some (TDA_STATUS_OK, w2, v1\<lparr>vec_len := vec_len v1 + 1\<rparr>)
     }
   }"

definition tda_vec_pop :: "'s vec \<Rightarrow> 's vec option" where
  "tda_vec_pop v = do {
     ASSERT_VEC v;
     c_assert (vec_len v > 0);
     Some (v\<lparr>vec_len := vec_len v - 1\<rparr>)
   }"

definition tda_vec_insert ::
  "'s world \<Rightarrow> 's vec \<Rightarrow> nat \<Rightarrow> byte list \<Rightarrow> (tda_Status \<times> 's world \<times> 's vec) option" where
  "tda_vec_insert w v idx val = do {
     ASSERT_VEC v;
     c_assert (idx \<le> vec_len v);
     (st, w1, v1) \<leftarrow> vec_reserve_one w v;
     if TDA_STATUS_IS_ERR st then Some (st, w1, v1)
     else do {
       let tail = vec_len v1 - idx;
       (p, src) \<leftarrow> vec_offset v1 idx;
       w2 \<leftarrow> (if tail > 0 then do {
                (q, dst) \<leftarrow> vec_offset v1 (idx + 1);
                mem_move w1 q dst src (size_mul tail (vec_elem_size v1))
              } else Some w1);
       w3 \<leftarrow> mem_write w2 p src (take (vec_elem_size v1) val);
       Some (TDA_STATUS_OK, w3, v1\<lparr>vec_len := vec_len v1 + 1\<rparr>)
     }
   }"

definition tda_vec_remove :: "'s world \<Rightarrow> 's vec \<Rightarrow> nat \<Rightarrow> ('s world \<times> 's vec) option" where
  "tda_vec_remove w v idx = do {
     ASSERT_VEC v;
     c_assert (idx < vec_len v);
     let tail = vec_len v - idx - 1;
     w1 \<leftarrow> (if tail > 0 then do {
              (p, dst) \<leftarrow> vec_offset v idx;
              (q, src) \<leftarrow> vec_offset v (idx + 1);
              mem_move w p dst src (size_mul tail (vec_elem_size v))
            } else Some w);
     Some (w1, v\<lparr>vec_len := vec_len v - 1\<rparr>)
   }"

definition tda_vec_clear :: "'s vec \<Rightarrow> 's vec option" where
  "tda_vec_clear v = do { ASSERT_VEC v; Some (v\<lparr>vec_len := 0\<rparr>) }"

definition tda_vec_shrink_to_fit :: "'s world \<Rightarrow> 's vec \<Rightarrow> (tda_Status \<times> 's world \<times> 's vec) option" where
  "tda_vec_shrink_to_fit w v = do {
     ASSERT_VEC v;
     if vec_len v = vec_cap v then Some (TDA_STATUS_OK, w, v)
     else if vec_len v = 0 then do {
       w1 \<leftarrow> tda_dealloc (vec_al v) w (vec_data v) (vec_cap_bytes v);
       let v1 = v\<lparr>vec_data := None, vec_cap := 0\<rparr>;
       ASSERT_VEC v1;
       Some (TDA_STATUS_OK, w1, v1)
     }
     else do {
       (r, w1) \<leftarrow> tda_realloc (vec_al v) w (vec_data v) (vec_cap_bytes v) (vec_len_bytes v);
       (case r of
          None \<Rightarrow> Some (TDA_STATUS_ERR_NO_MEM, w1, v)
        | Some data \<Rightarrow> do {
            let v1 = v\<lparr>vec_data := Some data, vec_cap := vec_len v\<rparr>;
            ASSERT_VEC v1;
            Some (TDA_STATUS_OK, w1, v1)
          })
     }
   }"

definition tda_vec_resize :: "'s world \<Rightarrow> 's vec \<Rightarrow> nat \<Rightarrow> (tda_Status \<times> 's world \<times> 's vec) option" where
  "tda_vec_resize w v new_len = do {
     ASSERT_VEC v;
     if new_len \<le> vec_len v then Some (TDA_STATUS_OK, w, v\<lparr>vec_len := new_len\<rparr>)
     else do {
       (st, w1, v1) \<leftarrow> (if new_len > vec_cap v then vec_reserve_for w v new_len
                        else Some (TDA_STATUS_OK, w, v));
       if TDA_STATUS_IS_ERR st then Some (st, w1, v1)
       else do {
         let add_bytes = size_mul (new_len - vec_len v1) (vec_elem_size v1);
         (p, off) \<leftarrow> vec_offset v1 (vec_len v1);
         w2 \<leftarrow> mem_set w1 p off 0 add_bytes;
         Some (TDA_STATUS_OK, w2, v1\<lparr>vec_len := new_len\<rparr>)
       }
     }
   }"

text \<open>\<open>TDA_SWAP\<close> of two structs: everything but where they live changes hands.\<close>

definition vec_swap_structs :: "'s vec \<Rightarrow> 's vec \<Rightarrow> 's vec \<times> 's vec" where
  "vec_swap_structs a b = (b\<lparr>vec_self := vec_self a\<rparr>, a\<lparr>vec_self := vec_self b\<rparr>)"

definition tda_vec_swap :: "'s vec \<Rightarrow> 's vec \<Rightarrow> ('s vec \<times> 's vec) option" where
  "tda_vec_swap self other = do {
     ASSERT_VEC self;
     ASSERT_VEC other;
     c_assert (vec_elem_size self = vec_elem_size other);
     c_assert (al_self (vec_al self) = al_self (vec_al other));
     if vec_self self = vec_self other then Some (self, other)
     else do {
       let (self', other') = vec_swap_structs self other;
       ASSERT_VEC self';
       ASSERT_VEC other';
       Some (self', other')
     }
   }"

definition tda_vec_swap_elems :: "'s world \<Rightarrow> 's vec \<Rightarrow> nat \<Rightarrow> nat \<Rightarrow> 's world option" where
  "tda_vec_swap_elems w v i j = do {
     ASSERT_VEC v;
     s \<leftarrow> tda_vec_to_span v;
     tda_span_swap_elems w s i j
   }"

section \<open>Bulk modifications\<close>

definition tda_vec_insert_span ::
  "'s world \<Rightarrow> 's vec \<Rightarrow> nat \<Rightarrow> tda_Span \<Rightarrow> (tda_Status \<times> 's world \<times> 's vec) option" where
  "tda_vec_insert_span w v idx src = do {
     ASSERT_VEC v;
     TDA_SPAN_ASSERT src;
     c_assert (sp_elem_size src = vec_elem_size v);
     c_assert (idx \<le> vec_len v);
     if sp_len src = 0 then Some (TDA_STATUS_OK, w, v)
     else case ckd_add (vec_len v) (sp_len src) of
       None \<Rightarrow> Some (TDA_STATUS_ERR_NO_MEM, w, v)
     | Some new_len \<Rightarrow> do {
         (st, w1, v1) \<leftarrow> (if new_len > vec_cap v then vec_reserve_for w v new_len
                          else Some (TDA_STATUS_OK, w, v));
         if TDA_STATUS_IS_ERR st then Some (st, w1, v1)
         else do {
           let tail = vec_len v1 - idx;
           (p, at) \<leftarrow> vec_offset v1 idx;
           w2 \<leftarrow> (if tail > 0 then do {
                    (q, dst) \<leftarrow> vec_offset v1 (idx + sp_len src);
                    mem_move w1 q dst at (size_mul tail (vec_elem_size v1))
                  } else Some w1);
           (sp, so) \<leftarrow> sp_data src;
           bs \<leftarrow> mem_read w2 sp so (size_mul (sp_len src) (vec_elem_size v1));
           w3 \<leftarrow> mem_write w2 p at bs;
           Some (TDA_STATUS_OK, w3, v1\<lparr>vec_len := new_len\<rparr>)
         }
       }
   }"

definition tda_vec_extend ::
  "'s world \<Rightarrow> 's vec \<Rightarrow> tda_Span \<Rightarrow> (tda_Status \<times> 's world \<times> 's vec) option" where
  "tda_vec_extend w v src = do {
     ASSERT_VEC v;
     TDA_SPAN_ASSERT src;
     c_assert (sp_elem_size src = vec_elem_size v);
     tda_vec_insert_span w v (vec_len v) src
   }"

definition tda_vec_remove_range :: "'s world \<Rightarrow> 's vec \<Rightarrow> nat \<Rightarrow> nat \<Rightarrow> ('s world \<times> 's vec) option" where
  "tda_vec_remove_range w v idx cnt = do {
     ASSERT_VEC v;
     c_assert (idx \<le> vec_len v);
     c_assert (cnt \<le> vec_len v - idx);
     if cnt = 0 then Some (w, v)
     else do {
       let tail = vec_len v - idx - cnt;
       w1 \<leftarrow> (if tail > 0 then do {
                (p, dst) \<leftarrow> vec_offset v idx;
                (q, src) \<leftarrow> vec_offset v (idx + cnt);
                mem_move w p dst src (size_mul tail (vec_elem_size v))
              } else Some w);
       Some (w1, v\<lparr>vec_len := vec_len v - cnt\<rparr>)
     }
   }"

section \<open>Copies and moves\<close>

definition tda_vec_copy_with ::
  "'s vec \<Rightarrow> 's al \<Rightarrow> 's world \<Rightarrow> (tda_Status \<times> 's vec option \<times> 's world) option" where
  "tda_vec_copy_with self al w = do {
     ASSERT_VEC self;
     s \<leftarrow> tda_vec_to_span self;
     tda_vec_from_span s al w
   }"

definition tda_vec_copy :: "'s vec \<Rightarrow> 's world \<Rightarrow> (tda_Status \<times> 's vec option \<times> 's world) option" where
  "tda_vec_copy self w = do { ASSERT_VEC self; tda_vec_copy_with self (vec_al self) w }"

definition tda_vec_copy_assign ::
  "'s world \<Rightarrow> 's vec \<Rightarrow> 's vec \<Rightarrow> (tda_Status \<times> 's world \<times> 's vec) option" where
  "tda_vec_copy_assign w self other = do {
     ASSERT_VEC self;
     ASSERT_VEC other;
     c_assert (vec_elem_size self = vec_elem_size other);
     if vec_self self = vec_self other then Some (TDA_STATUS_OK, w, other)
     else do {
       (st, w1, o1) \<leftarrow> tda_vec_reserve w other (vec_len self);
       if TDA_STATUS_IS_ERR st then Some (st, w1, o1)
       else do {
         w2 \<leftarrow> (if vec_len self > 0 then do {
                  q \<leftarrow> vec_data self;
                  bs \<leftarrow> mem_read w1 q 0 (vec_len_bytes self);
                  p \<leftarrow> vec_data o1;
                  mem_write w1 p 0 bs
                } else Some w1);
         let o2 = o1\<lparr>vec_len := vec_len self\<rparr>;
         ASSERT_VEC o2;
         Some (TDA_STATUS_OK, w2, o2)
       }
     }
   }"

definition tda_vec_move_assign ::
  "'s world \<Rightarrow> 's vec \<Rightarrow> 's vec \<Rightarrow> (tda_Status \<times> 's world \<times> 's vec \<times> 's vec) option" where
  "tda_vec_move_assign w self other = do {
     ASSERT_VEC self;
     ASSERT_VEC other;
     c_assert (vec_elem_size self = vec_elem_size other);
     if vec_self self = vec_self other then Some (TDA_STATUS_OK, w, self, other)
     else if al_self (vec_al self) = al_self (vec_al other) then do {
       let (self1, other1) = vec_swap_structs self other;
       (w1, self2) \<leftarrow> vec_release_data w self1;
       ASSERT_VEC self2;
       ASSERT_VEC other1;
       Some (TDA_STATUS_OK, w1, self2, other1)
     }
     else do {
       (st, r, w1) \<leftarrow> tda_vec_copy_with self (vec_al other) w;
       (case r of
          None \<Rightarrow> Some (st, w1, self, other)
        | Some obj \<Rightarrow> do {
            let (other1, obj1) = vec_swap_structs other obj;
            w2 \<leftarrow> tda_vec_drop w1 (Some obj1);
            (w3, self1) \<leftarrow> vec_release_data w2 self;
            ASSERT_VEC self1;
            ASSERT_VEC other1;
            Some (TDA_STATUS_OK, w3, self1, other1)
          })
     }
   }"

section \<open>Well-formedness and the sequence a vec stands for\<close>

definition vec_inv :: "(ptr \<Rightarrow> bool) \<Rightarrow> 's world \<Rightarrow> 's vec \<Rightarrow> bool" where
  "vec_inv owned w v = (0 < vec_elem_size v \<and> vec_len v \<le> vec_cap v
     \<and> vec_cap v * vec_elem_size v \<le> SIZE_MAX
     \<and> owned (vec_self v) \<and> block_at w (vec_self v) sizeof_tda_Vec
     \<and> (case vec_data v of None \<Rightarrow> vec_cap v = 0
        | Some p \<Rightarrow> 0 < vec_cap v \<and> owned p \<and> p \<noteq> vec_self v
            \<and> block_at w p (vec_cap v * vec_elem_size v)))"

definition vec_cells :: "'s world \<Rightarrow> 's vec \<Rightarrow> byte list list" where
  "vec_cells w v = (case vec_data v of None \<Rightarrow> []
     | Some p \<Rightarrow> elems (vec_elem_size v) (the (heap w p)))"

definition vec_list :: "'s world \<Rightarrow> 's vec \<Rightarrow> byte list list" where
  "vec_list w v = take (vec_len v) (vec_cells w v)"

definition vec_blocks :: "'s vec \<Rightarrow> ptr set" where
  "vec_blocks v = insert (vec_self v) (set_option (vec_data v))"

text \<open>
  What an operation on one vec may do to the rest of the world: blocks that are not the
  vec's are as they were, a block it acquired was free before, a block it no longer holds
  is free now.
\<close>

definition vec_frame :: "'s world \<Rightarrow> 's vec \<Rightarrow> 's world \<Rightarrow> 's vec \<Rightarrow> bool" where
  "vec_frame w v w' v' = (vec_self v' = vec_self v \<and> vec_elem_size v' = vec_elem_size v
     \<and> vec_al v' = vec_al v
     \<and> (\<forall>q. q \<notin> vec_blocks v \<union> vec_blocks v' \<longrightarrow> heap w' q = heap w q)
     \<and> (\<forall>q. q \<in> vec_blocks v' - vec_blocks v \<longrightarrow> heap w q = None)
     \<and> (\<forall>q. q \<in> vec_blocks v - vec_blocks v' \<longrightarrow> heap w' q = None))"

definition vec_kept :: "(ptr \<Rightarrow> bool) \<Rightarrow> 's world \<Rightarrow> 's vec \<Rightarrow> 's world \<Rightarrow> 's vec \<Rightarrow> bool" where
  "vec_kept owned w v w' v' = (vec_inv owned w' v' \<and> vec_frame w v w' v'
     \<and> vec_list w' v' = vec_list w v \<and> vec_len v' = vec_len v \<and> vec_cap v \<le> vec_cap v')"

lemma vec_frame_refl: "heap w' = heap w \<Longrightarrow> vec_frame w v w' v"
  by (simp add: vec_frame_def)

lemma vec_frame_trans:
  assumes f: "vec_frame w v w1 v1" and g: "vec_frame w1 v1 w2 v2"
  shows "vec_frame w v w2 v2"
proof -
  have same: "heap w2 q = heap w q" if "q \<notin> vec_blocks v \<union> vec_blocks v2" for q
    using f g that by (cases "q \<in> vec_blocks v1") (simp_all add: vec_frame_def)
  have fresh: "heap w q = None" if "q \<in> vec_blocks v2 - vec_blocks v" for q
    using f g that by (cases "q \<in> vec_blocks v1") (force simp: vec_frame_def)+
  have gone: "heap w2 q = None" if "q \<in> vec_blocks v - vec_blocks v2" for q
    using f g that by (cases "q \<in> vec_blocks v1") (force simp: vec_frame_def)+
  have "vec_self v2 = vec_self v \<and> vec_elem_size v2 = vec_elem_size v \<and> vec_al v2 = vec_al v"
    using f g unfolding vec_frame_def by metis
  with same fresh gone show ?thesis unfolding vec_frame_def by blast
qed

lemma vec_inv_cong: "heap w' = heap w \<Longrightarrow> vec_inv owned w' v = vec_inv owned w v"
  by (simp add: vec_inv_def block_at_def split: option.splits)

lemma vec_list_cong: "heap w' = heap w \<Longrightarrow> vec_list w' v = vec_list w v"
  by (simp add: vec_list_def vec_cells_def split: option.splits)

lemma vec_kept_refl: "vec_inv owned w v \<Longrightarrow> heap w' = heap w \<Longrightarrow> vec_kept owned w v w' v"
  using vec_inv_cong [of w' w owned v] vec_list_cong [of w' w v]
  by (simp add: vec_kept_def vec_frame_refl)

lemma vec_kept_trans:
  "vec_kept owned w v w1 v1 \<Longrightarrow> vec_kept owned w1 v1 w2 v2 \<Longrightarrow> vec_kept owned w v w2 v2"
  by (auto simp: vec_kept_def intro: vec_frame_trans)

lemma assert_vec_ok [c_simps]: "vec_inv owned w v \<Longrightarrow> ASSERT_VEC v = Some ()"
  by (auto simp: vec_inv_def ASSERT_VEC_def c_simps split: option.splits)

lemma vec_inv_len: "vec_inv owned w v \<Longrightarrow> n \<le> vec_cap v \<Longrightarrow> vec_inv owned w (v\<lparr>vec_len := n\<rparr>)"
  by (simp add: vec_inv_def split: option.splits)

lemma vec_frame_len: "vec_frame w v w' v' \<Longrightarrow> vec_frame w v w' (v'\<lparr>vec_len := n\<rparr>)"
  by (simp add: vec_frame_def vec_blocks_def)

lemma vec_cells_len [simp]: "vec_cells w (v\<lparr>vec_len := n\<rparr>) = vec_cells w v"
  by (simp add: vec_cells_def split: option.splits)

lemma vec_inv_len_le: "vec_inv owned w v \<Longrightarrow> vec_len v \<le> vec_cap v"
  by (simp add: vec_inv_def)

lemma vec_inv_bytes:
  assumes "vec_inv owned w v" "n \<le> vec_cap v"
  shows "n * vec_elem_size v \<le> vec_cap v * vec_elem_size v"
    and "size_mul n (vec_elem_size v) = n * vec_elem_size v"
    and "size_mul (vec_elem_size v) n = n * vec_elem_size v"
proof -
  show le: "n * vec_elem_size v \<le> vec_cap v * vec_elem_size v" using assms(2) by (rule mult_le_mono1)
  have "vec_cap v * vec_elem_size v \<le> SIZE_MAX" using assms(1) by (simp add: vec_inv_def)
  with le have "n * vec_elem_size v \<le> SIZE_MAX" by (rule le_trans)
  then show "size_mul n (vec_elem_size v) = n * vec_elem_size v"
    and "size_mul (vec_elem_size v) n = n * vec_elem_size v"
    by (simp_all add: size_mul_exact mult.commute [of "vec_elem_size v"])
qed

lemma vec_cap_le_max:
  assumes "vec_inv owned w v"
  shows "vec_cap v \<le> SIZE_MAX"
proof -
  have "0 < vec_elem_size v" and le: "vec_cap v * vec_elem_size v \<le> SIZE_MAX"
    using assms by (simp_all add: vec_inv_def)
  then have "vec_cap v \<le> vec_cap v * vec_elem_size v" by simp
  then show ?thesis using le by (rule le_trans)
qed

lemma vec_cap_bytes_eq: "vec_inv owned w v \<Longrightarrow> vec_cap_bytes v = vec_cap v * vec_elem_size v"
  by (simp add: vec_cap_bytes_def vec_inv_bytes)

lemma vec_len_bytes_eq: "vec_inv owned w v \<Longrightarrow> vec_len_bytes v = vec_len v * vec_elem_size v"
  by (simp add: vec_len_bytes_def vec_inv_bytes vec_inv_len_le)

lemma vec_block:
  assumes "vec_inv owned w v" "0 < vec_cap v"
  obtains p bs where "vec_data v = Some p" "owned p" "p \<noteq> vec_self v"
    "heap w p = Some bs" "length bs = vec_cap v * vec_elem_size v"
  using assms by (auto simp: vec_inv_def block_at_def split: option.splits)

lemma length_vec_cells: "vec_inv owned w v \<Longrightarrow> length (vec_cells w v) = vec_cap v"
  by (auto simp: vec_inv_def vec_cells_def block_at_def length_elems_mult split: option.splits)

lemma length_vec_list: "vec_inv owned w v \<Longrightarrow> length (vec_list w v) = vec_len v"
  by (simp add: vec_list_def length_vec_cells vec_inv_len_le)

lemma vec_list_elem_length: "x \<in> set (vec_list w v) \<Longrightarrow> length x = vec_elem_size v"
  by (auto simp: vec_list_def vec_cells_def dest!: in_set_takeD elems_in_length split: option.splits)

lemma vec_offset_ok:
  assumes "vec_inv owned w v" "vec_data v = Some p" "k \<le> vec_cap v"
  shows "vec_offset v k = Some (p, k * vec_elem_size v)"
  using assms vec_inv_bytes(3) [OF assms(1,3)]
  by (simp add: vec_offset_def tda_byte_offset_def) (simp add: vec_inv_def)

text \<open>Writing, moving and clearing whole elements in the block, seen on the cells.\<close>

lemma vec_write_cells:
  assumes v: "vec_inv owned w v" "vec_data v = Some p" "heap w p = Some bs"
    and src: "length src = m * vec_elem_size v" "k + m \<le> vec_cap v"
  defines "w' \<equiv> w\<lparr>heap := (heap w)(p \<mapsto> blit (k * vec_elem_size v) src bs)\<rparr>"
  shows "mem_write w p (k * vec_elem_size v) src = Some w'"
    and "vec_inv owned w' v" and "vec_frame w v w' v"
    and "vec_cells w' v = blit k (elems (vec_elem_size v) src) (vec_cells w v)"
proof -
  let ?es = "vec_elem_size v"
  have es: "0 < ?es" and len: "length bs = vec_cap v * ?es" and ps: "p \<noteq> vec_self v"
    using v by (auto simp: vec_inv_def block_at_def)
  have fit: "(k + m) * ?es \<le> length bs" using src(2) len by simp
  then have fit': "k * ?es + length src \<le> length bs" using src(1) by (simp add: add_mult_distrib)
  show "mem_write w p (k * ?es) src = Some w'"
    using v(3) fit' by (simp add: mem_write_ok w'_def)
  show "vec_inv owned w' v"
    using v len ps fit' by (simp add: vec_inv_def block_at_def w'_def length_blit)
  show "vec_frame w v w' v"
    using v(2) by (simp add: vec_frame_def vec_blocks_def w'_def)
  show "vec_cells w' v = blit k (elems ?es src) (vec_cells w v)"
    using v elems_blit [OF es src(1) fit] by (simp add: vec_cells_def w'_def)
qed

lemma vec_move_cells:
  assumes v: "vec_inv owned w v" "vec_data v = Some p" "heap w p = Some bs"
    and fit: "i + n \<le> vec_cap v" "k + n \<le> vec_cap v"
  defines "w' \<equiv> w\<lparr>heap := (heap w)(p \<mapsto>
      blit (k * vec_elem_size v) (slice (i * vec_elem_size v) (n * vec_elem_size v) bs) bs)\<rparr>"
  shows "mem_move w p (k * vec_elem_size v) (i * vec_elem_size v) (n * vec_elem_size v) = Some w'"
    and "vec_inv owned w' v" and "vec_frame w v w' v"
    and "vec_cells w' v = blit k (slice i n (vec_cells w v)) (vec_cells w v)"
proof -
  let ?es = "vec_elem_size v" and ?src = "slice (i * vec_elem_size v) (n * vec_elem_size v) bs"
  have es: "0 < ?es" and len: "length bs = vec_cap v * ?es"
    using v by (auto simp: vec_inv_def block_at_def)
  have f: "(i + n) * ?es \<le> length bs" using fit(1) len by simp
  then have f': "i * ?es + n * ?es \<le> length bs" by (simp add: add_mult_distrib)
  have src: "length ?src = n * ?es" using f' by (rule length_slice)
  note wr = vec_write_cells [OF v src fit(2), folded w'_def]
  show "mem_move w p (k * ?es) (i * ?es) (n * ?es) = Some w'"
    using wr(1) v(3) f' by (simp add: mem_move_def mem_read_ok)
  show "vec_inv owned w' v" and "vec_frame w v w' v" by (fact wr(2), fact wr(3))
  show "vec_cells w' v = blit k (slice i n (vec_cells w v)) (vec_cells w v)"
    using wr(4) elems_slice [OF es f] v by (simp add: vec_cells_def)
qed

section \<open>Reserving room\<close>

text \<open>Either the vec is kept and has room for \<open>n\<close> elements, or nothing happened.\<close>

definition vec_reserved ::
  "(ptr \<Rightarrow> bool) \<Rightarrow> 's world \<Rightarrow> 's vec \<Rightarrow> nat \<Rightarrow> tda_Status \<Rightarrow> 's world \<Rightarrow> 's vec \<Rightarrow> bool" where
  "vec_reserved owned w v n st w' v' =
     (if st = TDA_STATUS_OK then vec_kept owned w v w' v' \<and> n \<le> vec_cap v'
      else v' = v \<and> heap w' = heap w)"

lemma vec_reserved_weaken: "vec_reserved owned w v n st w' v' \<Longrightarrow> m \<le> n \<Longrightarrow> vec_reserved owned w v m st w' v'"
  by (auto simp: vec_reserved_def split: if_splits)

lemma vec_reserved_retry:
  assumes "vec_reserved owned w v n TDA_STATUS_ERR_NO_MEM w1 v1" "vec_reserved owned w1 v1 m st w' v'"
  shows "vec_reserved owned w v m st w' v'"
proof -
  have e: "v1 = v" "heap w1 = heap w" using assms(1) by (simp_all add: vec_reserved_def)
  have "vec_kept owned w v w' v'" if "vec_kept owned w1 v w' v'"
    using that e(2) vec_list_cong [OF e(2), of v] by (simp add: vec_kept_def vec_frame_def)
  then show ?thesis using assms(2) e by (simp add: vec_reserved_def split: if_splits)
qed

text \<open>A block that moved with its contents, grown or cut down to \<open>n\<close> elements.\<close>

lemma vec_moved_block:
  assumes v: "vec_inv owned w v" "vec_data v = Some p" "heap w p = Some old"
    and q: "owned q" "q = p \<or> heap w q = None" "length bs = n * vec_elem_size v"
    and pre: "take (min (length old) (length bs)) bs = take (min (length old) (length bs)) old"
    and h: "heap w' = (heap w)(p := None, q \<mapsto> bs)"
    and n: "vec_len v \<le> n" "0 < n" "n * vec_elem_size v \<le> SIZE_MAX"
  defines "v' \<equiv> v\<lparr>vec_data := Some q, vec_cap := n\<rparr>"
  shows "vec_inv owned w' v'" and "vec_frame w v w' v'" and "vec_list w' v' = vec_list w v"
proof -
  let ?es = "vec_elem_size v" and ?k = "min (vec_cap v) n"
  have es: "0 < ?es" and lc: "vec_len v \<le> vec_cap v" and lo: "length old = vec_cap v * ?es"
    and ps: "p \<noteq> vec_self v" and live: "block_at w (vec_self v) sizeof_tda_Vec"
    using v by (auto simp: vec_inv_def block_at_def)
  have qs: "q \<noteq> vec_self v" using q(2) ps live by (auto simp: block_at_def)
  show "vec_inv owned w' v'"
    using v q ps qs n h by (auto simp: vec_inv_def block_at_def v'_def)
  have hq: "heap w' r = (if r = q then Some bs else if r = p then None else heap w r)" for r
    using h by simp
  show "vec_frame w v w' v'"
    using v(2) q(2) by (auto simp: vec_frame_def vec_blocks_def v'_def hq)
  have k: "min (length old) (length bs) = ?k * ?es"
    using lo q(3) by (simp add: min_def)
  have fits: "?k * ?es \<le> length bs" "?k * ?es \<le> length old"
    using lo q(3) by (simp_all add: mult_le_mono1)
  have same: "take ?k (elems ?es bs) = take ?k (elems ?es old)"
    using take_elems [OF es fits(1)] take_elems [OF es fits(2)] pre [unfolded k] by metis
  have cut: "take (vec_len v) (take ?k xs) = take (vec_len v) xs" for xs :: "byte list list"
    using n(1) lc by (simp add: min_def)
  have "take (vec_len v) (elems ?es bs) = take (vec_len v) (elems ?es old)"
    using arg_cong [OF same, of "take (vec_len v)"] by (simp only: cut)
  then show "vec_list w' v' = vec_list w v"
    using v h by (simp add: vec_list_def vec_cells_def v'_def)
qed

context allocator
begin

lemma vec_reserve_spec:
  assumes w: "inv w" and v: "vec_inv owned w v" "vec_al v = al"
  shows "\<exists>st w' v'. tda_vec_reserve w v n = Some (st, w', v') \<and> inv w' \<and> vec_reserved owned w v n st w' v'"
proof -
  let ?es = "vec_elem_size v"
  have kept: "vec_kept owned w v w v" using v(1) by (simp add: vec_kept_refl)
  note unf = tda_vec_reserve_def assert_vec_ok [OF v(1)] v(2) vec_cap_bytes_eq [OF v(1)]
  consider (fits) "n \<le> vec_cap v" | (over) "vec_cap v < n" "SIZE_MAX < n * ?es"
    | (ask) "vec_cap v < n" "n * ?es \<le> SIZE_MAX" by linarith
  then show ?thesis
  proof cases
    case fits
    then show ?thesis using w kept by (simp add: unf vec_reserved_def)
  next
    case over
    then show ?thesis using w by (simp add: unf vec_reserved_def ckd_mul_def)
  next
    case ask
    have pos: "0 < n * ?es" using ask(1) v(1) by (simp add: vec_inv_def)
    show ?thesis
    proof (cases "vec_data v")
      case None
      then have c0: "vec_cap v = 0" using v(1) by (simp add: vec_inv_def)
      show ?thesis
      proof (rule realloc_null_cases [OF w pos ask(2)])
        fix w' assume "tda_realloc al w None 0 (n * ?es) = Some (None, w')" "inv w'" "heap w' = heap w"
        then show ?thesis using ask c0 None by (simp add: unf vec_reserved_def ckd_mul_def)
      next
        fix p w' bs assume a: "tda_realloc al w None 0 (n * ?es) = Some (Some p, w')" "inv w'"
          "owned p" "heap w p = None" "length bs = n * ?es" "heap w' = (heap w)(p \<mapsto> bs)"
        let ?v' = "v\<lparr>vec_data := Some p, vec_cap := n\<rparr>"
        have "p \<noteq> vec_self v" using a(4) v(1) by (auto simp: vec_inv_def block_at_def)
        then have "vec_kept owned w v w' ?v'"
          using v(1) None c0 a ask pos
          by (auto simp: vec_kept_def vec_inv_def vec_frame_def vec_blocks_def vec_list_def block_at_def)
        then show ?thesis using a ask c0 None by (simp add: unf vec_reserved_def ckd_mul_def)
      qed
    next
      case (Some p)
      then obtain old where o: "owned p" "heap w p = Some old" "length old = vec_cap v * ?es"
        using v(1) by (auto simp: vec_inv_def block_at_def)
      show ?thesis
      proof (rule realloc_some_cases [OF w o pos ask(2)])
        fix w' assume "tda_realloc al w (Some p) (vec_cap v * ?es) (n * ?es) = Some (None, w')"
          "inv w'" "heap w' = heap w"
        then show ?thesis using ask Some by (simp add: unf vec_reserved_def ckd_mul_def)
      next
        fix q w' bs assume a: "tda_realloc al w (Some p) (vec_cap v * ?es) (n * ?es) = Some (Some q, w')"
          "inv w'" "owned q" "q = p \<or> heap w q = None" "length bs = n * ?es"
          "take (min (vec_cap v * ?es) (n * ?es)) bs = take (min (vec_cap v * ?es) (n * ?es)) old"
          "heap w' = (heap w)(p := None, q \<mapsto> bs)"
        have "vec_len v \<le> n" "0 < n" using ask(1) vec_inv_len_le [OF v(1)] by simp_all
        with a o ask vec_moved_block [OF v(1) Some o(2) a(3,4,5) _ a(7)]
        have "vec_kept owned w v w' (v\<lparr>vec_data := Some q, vec_cap := n\<rparr>)"
          by (simp add: vec_kept_def)
        then show ?thesis using a ask Some by (simp add: unf vec_reserved_def ckd_mul_def)
      qed
    qed
  qed
qed

lemma vec_reserved_inv:
  assumes "vec_inv owned w v" "vec_al v = al" "vec_reserved owned w v n st w' v'"
  shows "vec_inv owned w' v'" and "vec_al v' = al"
  using assms vec_inv_cong [of w' w owned v]
  by (auto simp: vec_reserved_def vec_kept_def vec_frame_def split: if_splits)

lemma vec_grow_spec:
  assumes w: "inv w" and v: "vec_inv owned w v" "vec_al v = al" and full: "vec_len v = vec_cap v"
  shows "\<exists>st w' v'. vec_grow w v = Some (st, w', v') \<and> inv w'
    \<and> vec_reserved owned w v (vec_len v + 1) st w' v'"
proof (cases "vec_cap v = SIZE_MAX")
  case True
  then show ?thesis using w full by (simp add: vec_grow_def vec_reserved_def)
next
  case False
  from False vec_cap_le_max [OF v(1)] have next_cap: "vec_cap v + 1 \<le> vec_next_cap v"
    by (auto simp: vec_next_cap_def VEC_GROWTH_BASE_def VEC_GROWTH_FACTOR_def ckd_mul_def)
  obtain st1 w1 v1 where r1: "tda_vec_reserve w v (vec_next_cap v) = Some (st1, w1, v1)" "inv w1"
    "vec_reserved owned w v (vec_next_cap v) st1 w1 v1"
    using vec_reserve_spec [OF w v] by blast
  note v1 = vec_reserved_inv [OF v r1(3)]
  show ?thesis
  proof (cases "TDA_STATUS_IS_OK st1 \<or> vec_next_cap v \<le> vec_cap v1 + 1")
    case True
    then show ?thesis
      using False full r1 vec_reserved_weaken [OF r1(3)] next_cap by (simp add: vec_grow_def)
  next
    case retry: False
    then have st1: "st1 = TDA_STATUS_ERR_NO_MEM" by (cases st1) auto
    then have "v1 = v" using r1(3) by (simp add: vec_reserved_def)
    obtain st2 w2 v2 where r2: "tda_vec_reserve w1 v1 (vec_cap v1 + 1) = Some (st2, w2, v2)" "inv w2"
      "vec_reserved owned w1 v1 (vec_cap v1 + 1) st2 w2 v2"
      using vec_reserve_spec [OF r1(2) v1] by blast
    show ?thesis
      using False retry full r1(1) r2 vec_reserved_retry [OF r1(3) [unfolded st1] r2(3)] \<open>v1 = v\<close>
      by (simp add: vec_grow_def)
  qed
qed

lemma vec_reserve_one_spec:
  assumes "inv w" "vec_inv owned w v" "vec_al v = al"
  shows "\<exists>st w' v'. vec_reserve_one w v = Some (st, w', v') \<and> inv w'
    \<and> vec_reserved owned w v (vec_len v + 1) st w' v'"
proof (cases "vec_len v = vec_cap v")
  case True
  with vec_grow_spec [OF assms] show ?thesis by (simp add: vec_reserve_one_def)
next
  case False
  then have "vec_len v + 1 \<le> vec_cap v" using vec_inv_len_le [OF assms(2)] by simp
  then show ?thesis
    using False assms by (simp add: vec_reserve_one_def vec_reserved_def vec_kept_refl)
qed

lemma vec_reserve_for_spec:
  assumes w: "inv w" and v: "vec_inv owned w v" "vec_al v = al" and n: "vec_cap v < n"
  shows "\<exists>st w' v'. vec_reserve_for w v n = Some (st, w', v') \<and> inv w' \<and> vec_reserved owned w v n st w' v'"
proof (cases "n < vec_next_cap v")
  case False
  with vec_reserve_spec [OF w v, of n] n show ?thesis by (simp add: vec_reserve_for_def)
next
  case True
  obtain st1 w1 v1 where r1: "tda_vec_reserve w v (vec_next_cap v) = Some (st1, w1, v1)" "inv w1"
    "vec_reserved owned w v (vec_next_cap v) st1 w1 v1"
    using vec_reserve_spec [OF w v] by blast
  note v1 = vec_reserved_inv [OF v r1(3)]
  show ?thesis
  proof (cases st1)
    case TDA_STATUS_OK
    then show ?thesis
      using True n r1 vec_reserved_weaken [OF r1(3)] by (simp add: vec_reserve_for_def)
  next
    case TDA_STATUS_ERR_NO_MEM
    obtain st2 w2 v2 where r2: "tda_vec_reserve w1 v1 n = Some (st2, w2, v2)" "inv w2"
      "vec_reserved owned w1 v1 n st2 w2 v2"
      using vec_reserve_spec [OF r1(2) v1] by blast
    show ?thesis
      using True n TDA_STATUS_ERR_NO_MEM r1(1) r2
        vec_reserved_retry [OF r1(3) [unfolded TDA_STATUS_ERR_NO_MEM] r2(3)]
      by (simp add: vec_reserve_for_def)
  qed
qed

end

section \<open>Effects of the operations\<close>

definition vec_updated ::
  "(ptr \<Rightarrow> bool) \<Rightarrow> 's world \<Rightarrow> 's vec \<Rightarrow> 's world \<Rightarrow> 's vec \<Rightarrow> byte list list \<Rightarrow> bool" where
  "vec_updated owned w v w' v' xs =
     (vec_inv owned w' v' \<and> vec_frame w v w' v' \<and> vec_list w' v' = xs)"

text \<open>A fallible operation either has its effect or, refused, leaves memory and vec as they were.\<close>

definition vec_outcome ::
  "(ptr \<Rightarrow> bool) \<Rightarrow> 's world \<Rightarrow> 's vec \<Rightarrow> tda_Status \<Rightarrow> 's world \<Rightarrow> 's vec \<Rightarrow> byte list list \<Rightarrow> bool"
where
  "vec_outcome owned w v st w' v' xs =
     (if st = TDA_STATUS_OK then vec_updated owned w v w' v' xs else v' = v \<and> heap w' = heap w)"

lemma vec_updated_len:
  assumes "vec_inv owned w' v'" "vec_frame w v w' v'" "n \<le> vec_cap v'"
  shows "vec_updated owned w v w' (v'\<lparr>vec_len := n\<rparr>) (take n (vec_cells w' v'))"
  using assms by (simp add: vec_updated_def vec_inv_len vec_frame_len vec_list_def)

lemma vec_reserved_ok:
  assumes "vec_inv owned w v" "vec_reserved owned w v n TDA_STATUS_OK w1 v1"
  shows "vec_inv owned w1 v1" and "vec_frame w v w1 v1" and "vec_len v1 = vec_len v"
    and "n \<le> vec_cap v1" and "take (vec_len v) (vec_cells w1 v1) = vec_list w v"
    and "vec_elem_size v1 = vec_elem_size v" and "vec_self v1 = vec_self v" and "vec_al v1 = vec_al v"
    and "vec_cap v \<le> vec_cap v1"
  using assms by (auto simp: vec_reserved_def vec_kept_def vec_frame_def vec_list_def)

text \<open>A block of someone else's is still there, unchanged, after the vec has reserved room.\<close>

lemma vec_frame_other:
  "vec_frame w v w1 v1 \<Longrightarrow> heap w q = Some bs \<Longrightarrow> q \<notin> vec_blocks v \<Longrightarrow> heap w1 q = Some bs \<and> q \<notin> vec_blocks v1"
  by (force simp: vec_frame_def)

lemma vec_reserved_err:
  "vec_reserved owned w v n TDA_STATUS_ERR_NO_MEM w1 v1 \<Longrightarrow> v1 = v \<and> heap w1 = heap w"
  by (simp add: vec_reserved_def)

context allocator
begin

lemma vec_write:
  assumes w: "inv w" and v: "vec_inv owned w v" "vec_data v = Some p"
    and src: "length src = m * vec_elem_size v" "k + m \<le> vec_cap v"
  obtains w' where "mem_write w p (k * vec_elem_size v) src = Some w'" "inv w'" "vec_inv owned w' v"
    "vec_frame w v w' v" "vec_cells w' v = blit k (elems (vec_elem_size v) src) (vec_cells w v)"
proof -
  from v obtain bs where b: "heap w p = Some bs" by (auto simp: vec_inv_def block_at_def)
  note wr = vec_write_cells [OF v b src]
  have "length (blit (k * vec_elem_size v) src bs) = length bs"
    using wr(1) b by (simp add: mem_write_def length_blit split: if_splits)
  with w b have "inv (w\<lparr>heap := (heap w)(p \<mapsto> blit (k * vec_elem_size v) src bs)\<rparr>)"
    by (intro write_law)
  with wr that show ?thesis by blast
qed

lemma vec_zero:
  assumes w: "inv w" and v: "vec_inv owned w v" "vec_data v = Some p" and fit: "k + m \<le> vec_cap v"
  obtains w' where "mem_set w p (k * vec_elem_size v) 0 (m * vec_elem_size v) = Some w'" "inv w'"
    "vec_inv owned w' v" "vec_frame w v w' v"
    "vec_cells w' v = blit k (replicate m (replicate (vec_elem_size v) 0)) (vec_cells w v)"
proof -
  let ?src = "replicate (m * vec_elem_size v) (0 :: byte)"
  have "length ?src = m * vec_elem_size v" by simp
  from vec_write [OF w v this fit] obtain w' where "mem_write w p (k * vec_elem_size v) ?src = Some w'"
    "inv w'" "vec_inv owned w' v" "vec_frame w v w' v"
    "vec_cells w' v = blit k (elems (vec_elem_size v) ?src) (vec_cells w v)" .
  moreover have "0 < vec_elem_size v" using v(1) by (simp add: vec_inv_def)
  ultimately show ?thesis using that by (simp add: mem_set_def elems_replicate)
qed

lemma vec_move:
  assumes w: "inv w" and v: "vec_inv owned w v" "vec_data v = Some p"
    and fit: "i + n \<le> vec_cap v" "k + n \<le> vec_cap v"
  obtains w' where "mem_move w p (k * vec_elem_size v) (i * vec_elem_size v) (n * vec_elem_size v) = Some w'"
    "inv w'" "vec_inv owned w' v" "vec_frame w v w' v"
    "vec_cells w' v = blit k (slice i n (vec_cells w v)) (vec_cells w v)"
proof -
  from v obtain bs where b: "heap w p = Some bs" "length bs = vec_cap v * vec_elem_size v"
    by (auto simp: vec_inv_def block_at_def)
  note mv = vec_move_cells [OF v b(1) fit]
  have f: "(i + n) * vec_elem_size v \<le> length bs" "(k + n) * vec_elem_size v \<le> length bs"
    using fit b(2) by (simp_all add: mult_le_mono1)
  have "inv (w\<lparr>heap := (heap w)(p \<mapsto> blit (k * vec_elem_size v)
      (slice (i * vec_elem_size v) (n * vec_elem_size v) bs) bs)\<rparr>)"
    using w b(1) f by (intro write_law) (auto simp: slice_simps add_mult_distrib)
  with mv that show ?thesis by blast
qed

text \<open>The optional \<open>memmove\<close> of the tail, as insertion and removal write it.\<close>

lemma vec_shift:
  assumes w: "inv w" and v: "vec_inv owned w v" "vec_data v = Some p"
    and fit: "i + n \<le> vec_cap v" "k + n \<le> vec_cap v"
  obtains w' where "(if n > 0 then mem_move w p (k * vec_elem_size v) (i * vec_elem_size v)
      (size_mul n (vec_elem_size v)) else Some w) = Some w'"
    "inv w'" "vec_inv owned w' v" "vec_frame w v w' v"
    "vec_cells w' v = blit k (slice i n (vec_cells w v)) (vec_cells w v)"
proof (cases "n = 0")
  case True
  then show ?thesis using that [of w] w v by (simp add: vec_frame_refl)
next
  case False
  have "n \<le> vec_cap v" using fit(1) by simp
  then have "size_mul n (vec_elem_size v) = n * vec_elem_size v" by (rule vec_inv_bytes(2) [OF v(1)])
  with False show ?thesis using vec_move [OF w v fit] that by (metis not_gr_zero)
qed

lemma vec_push_spec:
  assumes w: "inv w" and v: "vec_inv owned w v" "vec_al v = al" and x: "length x = vec_elem_size v"
  shows "\<exists>st w' v'. tda_vec_push w v x = Some (st, w', v') \<and> inv w'
    \<and> vec_outcome owned w v st w' v' (vec_list w v @ [x])"
proof -
  obtain st w1 v1 where r: "vec_reserve_one w v = Some (st, w1, v1)" "inv w1"
    "vec_reserved owned w v (vec_len v + 1) st w1 v1"
    using vec_reserve_one_spec [OF w v] by blast
  show ?thesis
  proof (cases st)
    case TDA_STATUS_ERR_NO_MEM
    then show ?thesis
      using r by (simp add: tda_vec_push_def assert_vec_ok [OF v(1)] vec_outcome_def vec_reserved_def)
  next
    case ok: TDA_STATUS_OK
    note k = vec_reserved_ok [OF v(1) r(3) [unfolded ok]]
    have "0 < vec_cap v1" using k(4) by simp
    then obtain p where p: "vec_data v1 = Some p" using vec_block [OF k(1)] by blast
    have x1: "length x = 1 * vec_elem_size v1" using x k(6) by simp
    obtain w2 where w2: "mem_write w1 p (vec_len v * vec_elem_size v1) x = Some w2" "inv w2"
      "vec_inv owned w2 v1" "vec_frame w1 v1 w2 v1"
      "vec_cells w2 v1 = blit (vec_len v) (elems (vec_elem_size v1) x) (vec_cells w1 v1)"
      by (rule vec_write [OF r(2) k(1) p x1 k(4)])
    have "tda_vec_push w v x = Some (TDA_STATUS_OK, w2, v1\<lparr>vec_len := vec_len v + 1\<rparr>)"
      using ok r(1) k(3,4,6) w2(1) x vec_offset_ok [OF k(1) p, of "vec_len v"]
      by (simp add: tda_vec_push_def assert_vec_ok [OF v(1)])
    moreover have "take (vec_len v + 1) (vec_cells w2 v1) = vec_list w v @ [x]"
    proof -
      have e: "elems (vec_elem_size v1) x = [x]" using x1 k(1) by (simp add: vec_inv_def)
      show ?thesis
        using w2(5) k(4,5) take_blit_full [of "vec_len v" "[x]" "vec_cells w1 v1"]
        by (simp add: e length_vec_cells [OF k(1)])
    qed
    ultimately show ?thesis
      using vec_updated_len [OF w2(3) vec_frame_trans [OF k(2) w2(4)] k(4)] w2(2)
      by (simp add: vec_outcome_def)
  qed
qed

lemma vec_insert_spec:
  assumes w: "inv w" and v: "vec_inv owned w v" "vec_al v = al" and x: "length x = vec_elem_size v"
    and idx: "idx \<le> vec_len v"
  shows "\<exists>st w' v'. tda_vec_insert w v idx x = Some (st, w', v') \<and> inv w'
    \<and> vec_outcome owned w v st w' v' (take idx (vec_list w v) @ x # drop idx (vec_list w v))"
proof -
  obtain st w1 v1 where r: "vec_reserve_one w v = Some (st, w1, v1)" "inv w1"
    "vec_reserved owned w v (vec_len v + 1) st w1 v1"
    using vec_reserve_one_spec [OF w v] by blast
  show ?thesis
  proof (cases st)
    case TDA_STATUS_ERR_NO_MEM
    then show ?thesis
      using r idx by (simp add: tda_vec_insert_def assert_vec_ok [OF v(1)] vec_outcome_def vec_reserved_def)
  next
    case ok: TDA_STATUS_OK
    note k = vec_reserved_ok [OF v(1) r(3) [unfolded ok]]
    have "0 < vec_cap v1" using k(4) by simp
    then obtain p where p: "vec_data v1 = Some p" using vec_block [OF k(1)] by blast
    have f: "idx + (vec_len v - idx) \<le> vec_cap v1" "idx + 1 + (vec_len v - idx) \<le> vec_cap v1"
      "idx + 1 \<le> vec_cap v1" "idx \<le> vec_cap v1" using idx k(4) by simp_all
    obtain w2 where w2: "(if vec_len v - idx > 0 then mem_move w1 p ((idx + 1) * vec_elem_size v1)
        (idx * vec_elem_size v1) (size_mul (vec_len v - idx) (vec_elem_size v1)) else Some w1) = Some w2"
      "inv w2" "vec_inv owned w2 v1" "vec_frame w1 v1 w2 v1"
      "vec_cells w2 v1 = blit (idx + 1) (slice idx (vec_len v - idx) (vec_cells w1 v1)) (vec_cells w1 v1)"
      by (rule vec_shift [OF r(2) k(1) p f(1,2)])
    have x1: "length x = 1 * vec_elem_size v1" using x k(6) by simp
    obtain w3 where w3: "mem_write w2 p (idx * vec_elem_size v1) x = Some w3" "inv w3"
      "vec_inv owned w3 v1" "vec_frame w2 v1 w3 v1"
      "vec_cells w3 v1 = blit idx (elems (vec_elem_size v1) x) (vec_cells w2 v1)"
      by (rule vec_write [OF w2(2,3) p x1 f(3)])
    have "tda_vec_insert w v idx x = Some (TDA_STATUS_OK, w3, v1\<lparr>vec_len := vec_len v + 1\<rparr>)"
      using ok r(1) k(3,6) w2(1) w3(1) x idx vec_offset_ok [OF k(1) p f(4)] vec_offset_ok [OF k(1) p f(3)]
      by (simp add: tda_vec_insert_def assert_vec_ok [OF v(1)] Let_def split: if_splits)
    moreover have "take (vec_len v + 1) (vec_cells w3 v1)
        = take idx (vec_list w v) @ x # drop idx (vec_list w v)"
    proof -
      have e: "elems (vec_elem_size v1) x = [x]" using x1 k(1) by (simp add: vec_inv_def)
      show ?thesis
        using w2(5) w3(5) k(4,5) blit_insert_run [OF idx, of "[x]" "vec_cells w1 v1"]
        by (simp add: e length_vec_cells [OF k(1)])
    qed
    ultimately show ?thesis
      using vec_updated_len [OF w3(3) vec_frame_trans [OF k(2) vec_frame_trans [OF w2(4) w3(4)]] k(4)] w3(2)
      by (simp add: vec_outcome_def)
  qed
qed

lemma vec_remove_range_spec:
  assumes w: "inv w" and v: "vec_inv owned w v" and idx: "idx + n \<le> vec_len v"
  shows "\<exists>w' v'. tda_vec_remove_range w v idx n = Some (w', v') \<and> inv w'
    \<and> vec_updated owned w v w' v' (take idx (vec_list w v) @ drop (idx + n) (vec_list w v))"
proof (cases "n = 0")
  case True
  then show ?thesis
    using w v idx by (simp add: tda_vec_remove_range_def assert_vec_ok [OF v] vec_updated_def vec_frame_refl)
next
  case False
  let ?t = "vec_len v - idx - n"
  have lc: "vec_len v \<le> vec_cap v" by (rule vec_inv_len_le [OF v])
  have "0 < vec_cap v" using False idx lc by simp
  then obtain p where p: "vec_data v = Some p" using vec_block [OF v] by blast
  have f: "idx + n + ?t \<le> vec_cap v" "idx + ?t \<le> vec_cap v" "idx \<le> vec_cap v" "idx + n \<le> vec_cap v"
    using idx lc by simp_all
  obtain w1 where w1: "(if ?t > 0 then mem_move w p (idx * vec_elem_size v)
      ((idx + n) * vec_elem_size v) (size_mul ?t (vec_elem_size v)) else Some w) = Some w1"
    "inv w1" "vec_inv owned w1 v" "vec_frame w v w1 v"
    "vec_cells w1 v = blit idx (slice (idx + n) ?t (vec_cells w v)) (vec_cells w v)"
    by (rule vec_shift [OF w v p f(1,2)])
  have "tda_vec_remove_range w v idx n = Some (w1, v\<lparr>vec_len := vec_len v - n\<rparr>)"
    using False idx w1(1) vec_offset_ok [OF v p f(3)] vec_offset_ok [OF v p f(4)]
    by (simp add: tda_vec_remove_range_def assert_vec_ok [OF v] Let_def split: if_splits)
  moreover have "take (vec_len v - n) (vec_cells w1 v)
      = take idx (vec_list w v) @ drop (idx + n) (vec_list w v)"
    using blit_remove_run [OF idx, of "vec_cells w v"] lc w1(5)
    by (simp add: vec_list_def length_vec_cells [OF v])
  ultimately show ?thesis
    using vec_updated_len [OF w1(3,4), of "vec_len v - n"] lc w1(2) by simp
qed

lemma vec_remove_spec:
  assumes w: "inv w" and v: "vec_inv owned w v" and idx: "idx < vec_len v"
  shows "\<exists>w' v'. tda_vec_remove w v idx = Some (w', v') \<and> inv w'
    \<and> vec_updated owned w v w' v' (take idx (vec_list w v) @ drop (idx + 1) (vec_list w v))"
proof -
  have "Suc 0 \<le> vec_len v - idx" using idx by simp
  then have "tda_vec_remove w v idx = tda_vec_remove_range w v idx 1"
    using idx by (simp add: tda_vec_remove_def tda_vec_remove_range_def assert_vec_ok [OF v])
  then show ?thesis using vec_remove_range_spec [OF w v, of idx 1] idx by simp
qed

lemma vec_resize_spec:
  assumes w: "inv w" and v: "vec_inv owned w v" "vec_al v = al"
  shows "\<exists>st w' v'. tda_vec_resize w v n = Some (st, w', v') \<and> inv w'
    \<and> vec_outcome owned w v st w' v'
        (take n (vec_list w v) @ replicate (n - vec_len v) (replicate (vec_elem_size v) 0))"
proof (cases "n \<le> vec_len v")
  case True
  then have "n \<le> vec_cap v" using vec_inv_len_le [OF v(1)] by simp
  from vec_updated_len [OF v(1) vec_frame_refl [OF refl] this] True show ?thesis
    using w by (simp add: tda_vec_resize_def assert_vec_ok [OF v(1)] vec_outcome_def vec_list_def min_def)
next
  case False
  let ?r = "if n > vec_cap v then vec_reserve_for w v n else Some (TDA_STATUS_OK, w, v)"
  have "\<exists>st w1 v1. ?r = Some (st, w1, v1) \<and> inv w1 \<and> vec_reserved owned w v n st w1 v1"
    using vec_reserve_for_spec [OF w v, of n] w vec_kept_refl [OF v(1) refl]
    by (auto simp: vec_reserved_def)
  then obtain st w1 v1 where r: "?r = Some (st, w1, v1)" "inv w1" "vec_reserved owned w v n st w1 v1"
    by blast
  show ?thesis
  proof (cases st)
    case TDA_STATUS_ERR_NO_MEM
    then show ?thesis
      using r False
      by (simp add: tda_vec_resize_def assert_vec_ok [OF v(1)] vec_outcome_def vec_reserved_def split: if_splits)
  next
    case ok: TDA_STATUS_OK
    note k = vec_reserved_ok [OF v(1) r(3) [unfolded ok]]
    have f: "vec_len v + (n - vec_len v) \<le> vec_cap v1" "vec_len v \<le> vec_cap v1" "n - vec_len v \<le> vec_cap v1"
      using False k(4) by simp_all
    have "0 < vec_cap v1" using False k(4) by simp
    then obtain p where p: "vec_data v1 = Some p" using vec_block [OF k(1)] by blast
    obtain w2 where w2: "mem_set w1 p (vec_len v * vec_elem_size v1) 0 ((n - vec_len v) * vec_elem_size v1) = Some w2"
      "inv w2" "vec_inv owned w2 v1" "vec_frame w1 v1 w2 v1"
      "vec_cells w2 v1 = blit (vec_len v) (replicate (n - vec_len v) (replicate (vec_elem_size v1) 0)) (vec_cells w1 v1)"
      by (rule vec_zero [OF r(2) k(1) p f(1)])
    have "tda_vec_resize w v n = Some (TDA_STATUS_OK, w2, v1\<lparr>vec_len := n\<rparr>)"
      using ok r(1) k(3) w2(1) False vec_offset_ok [OF k(1) p f(2)] vec_inv_bytes(2) [OF k(1) f(3)]
      by (simp add: tda_vec_resize_def assert_vec_ok [OF v(1)] Let_def split: if_splits)
    moreover have "take n (vec_cells w2 v1)
        = take n (vec_list w v) @ replicate (n - vec_len v) (replicate (vec_elem_size v) 0)"
      using take_blit_full [of "vec_len v" "replicate (n - vec_len v) (replicate (vec_elem_size v) 0)" "vec_cells w1 v1"]
        False f w2(5) k(5,6) by (simp add: length_vec_cells [OF k(1)] length_vec_list [OF v(1)])
    ultimately show ?thesis
      using vec_updated_len [OF w2(3) vec_frame_trans [OF k(2) w2(4)] k(4)] w2(2)
      by (simp add: vec_outcome_def)
  qed
qed

text \<open>The source span must not show the vec's own block, which growing may move.\<close>

lemma vec_insert_span_spec:
  assumes w: "inv w" and v: "vec_inv owned w v" "vec_al v = al"
    and src: "span_ok w src" "sp_elem_size src = vec_elem_size v"
    and own: "\<And>q off. sp_data src = Some (q, off) \<Longrightarrow> q \<notin> vec_blocks v"
    and idx: "idx \<le> vec_len v"
  shows "\<exists>st w' v'. tda_vec_insert_span w v idx src = Some (st, w', v') \<and> inv w'
    \<and> vec_outcome owned w v st w' v'
        (take idx (vec_list w v) @ span_elems w src @ drop idx (vec_list w v))"
proof -
  note unf = tda_vec_insert_span_def assert_vec_ok [OF v(1)] span_assert_ok [OF src(1)] src(2)
  consider (none) "sp_len src = 0" | (over) "0 < sp_len src" "SIZE_MAX < vec_len v + sp_len src"
    | (ask) "0 < sp_len src" "vec_len v + sp_len src \<le> SIZE_MAX" by linarith
  then show ?thesis
  proof cases
    case none
    then have "span_elems w src = []" using length_span_elems [OF src(1)] by simp
    then show ?thesis
      using none w v(1) idx by (simp add: unf vec_outcome_def vec_updated_def vec_frame_refl)
  next
    case over
    then show ?thesis using w idx by (simp add: unf vec_outcome_def ckd_add_def)
  next
    case ask
    let ?n = "vec_len v + sp_len src" and ?m = "sp_len src"
    let ?r = "if ?n > vec_cap v then vec_reserve_for w v ?n else Some (TDA_STATUS_OK, w, v)"
    have "\<exists>st w1 v1. ?r = Some (st, w1, v1) \<and> inv w1 \<and> vec_reserved owned w v ?n st w1 v1"
      using vec_reserve_for_spec [OF w v, of ?n] w vec_kept_refl [OF v(1) refl]
      by (auto simp: vec_reserved_def)
    then obtain st w1 v1 where r: "?r = Some (st, w1, v1)" "inv w1" "vec_reserved owned w v ?n st w1 v1"
      by blast
    show ?thesis
    proof (cases st)
      case TDA_STATUS_ERR_NO_MEM
      then show ?thesis
        using r ask idx by (simp add: unf vec_outcome_def vec_reserved_def ckd_add_def split: if_splits)
    next
      case ok: TDA_STATUS_OK
      note k = vec_reserved_ok [OF v(1) r(3) [unfolded ok]]
      have "0 < vec_cap v1" using k(4) ask by simp
      then obtain p where p: "vec_data v1 = Some p" using vec_block [OF k(1)] by blast
      have f: "idx + (vec_len v - idx) \<le> vec_cap v1" "idx + ?m + (vec_len v - idx) \<le> vec_cap v1"
        "idx + ?m \<le> vec_cap v1" "idx \<le> vec_cap v1" "?m \<le> vec_cap v1" using idx k(4) by simp_all
      obtain w2 where w2: "(if vec_len v - idx > 0 then mem_move w1 p ((idx + ?m) * vec_elem_size v1)
          (idx * vec_elem_size v1) (size_mul (vec_len v - idx) (vec_elem_size v1)) else Some w1) = Some w2"
        "inv w2" "vec_inv owned w2 v1" "vec_frame w1 v1 w2 v1"
        "vec_cells w2 v1 = blit (idx + ?m) (slice idx (vec_len v - idx) (vec_cells w1 v1)) (vec_cells w1 v1)"
        by (rule vec_shift [OF r(2) k(1) p f(1,2)])
      obtain q off sbs where s: "sp_data src = Some (q, off)" "heap w q = Some sbs"
        "off + ?m * sp_elem_size src \<le> length sbs"
        using src(1) ask(1) by (auto simp: span_ok_def split: option.splits)
      have "heap w1 q = Some sbs \<and> q \<notin> vec_blocks v1"
        using vec_frame_other [OF k(2) s(2) own [OF s(1)]] .
      then have "heap w2 q = Some sbs" using vec_frame_other [OF w2(4)] by blast
      then have rd: "mem_read w2 q off (?m * vec_elem_size v1) = Some (span_bytes w src)"
        using s src(2) k(6) by (simp add: mem_read_ok span_bytes_def)
      have len: "length (span_bytes w src) = ?m * vec_elem_size v1"
        using length_span_bytes [OF src(1)] src(2) k(6) by simp
      obtain w3 where w3: "mem_write w2 p (idx * vec_elem_size v1) (span_bytes w src) = Some w3" "inv w3"
        "vec_inv owned w3 v1" "vec_frame w2 v1 w3 v1"
        "vec_cells w3 v1 = blit idx (elems (vec_elem_size v1) (span_bytes w src)) (vec_cells w2 v1)"
        by (rule vec_write [OF w2(2,3) p len f(3)])
      have "tda_vec_insert_span w v idx src = Some (TDA_STATUS_OK, w3, v1\<lparr>vec_len := ?n\<rparr>)"
        using ok r(1) k(3) w2(1) w3(1) rd s(1) ask idx vec_offset_ok [OF k(1) p f(4)]
          vec_offset_ok [OF k(1) p f(3)] vec_inv_bytes(2) [OF k(1) f(5)]
        by (simp add: unf ckd_add_def Let_def split: if_splits)
      moreover have "elems (vec_elem_size v1) (span_bytes w src) = span_elems w src"
        using src(2) k(6) by (simp add: span_elems_def)
      then have "take ?n (vec_cells w3 v1)
          = take idx (vec_list w v) @ span_elems w src @ drop idx (vec_list w v)"
        using w2(5) w3(5) k(4,5) blit_insert_run [OF idx, of "span_elems w src" "vec_cells w1 v1"]
        by (simp add: length_span_elems [OF src(1)] length_vec_cells [OF k(1)])
      ultimately show ?thesis
        using vec_updated_len [OF w3(3) vec_frame_trans [OF k(2) vec_frame_trans [OF w2(4) w3(4)]] k(4)] w3(2)
        by (simp add: vec_outcome_def)
    qed
  qed
qed

lemma vec_extend_spec:
  assumes w: "inv w" and v: "vec_inv owned w v" "vec_al v = al"
    and src: "span_ok w src" "sp_elem_size src = vec_elem_size v"
    and own: "\<And>q off. sp_data src = Some (q, off) \<Longrightarrow> q \<notin> vec_blocks v"
  shows "\<exists>st w' v'. tda_vec_extend w v src = Some (st, w', v') \<and> inv w'
    \<and> vec_outcome owned w v st w' v' (vec_list w v @ span_elems w src)"
  using vec_insert_span_spec [OF w v src own le_refl] src(2)
  by (simp add: tda_vec_extend_def assert_vec_ok [OF v(1)] span_assert_ok [OF src(1)] length_vec_list [OF v(1)])

lemma vec_shrink_spec:
  assumes w: "inv w" and v: "vec_inv owned w v" "vec_al v = al"
  shows "\<exists>st w' v'. tda_vec_shrink_to_fit w v = Some (st, w', v') \<and> inv w'
    \<and> vec_outcome owned w v st w' v' (vec_list w v) \<and> (st = TDA_STATUS_OK \<longrightarrow> vec_cap v' = vec_len v)"
proof -
  let ?es = "vec_elem_size v"
  note unf = tda_vec_shrink_to_fit_def assert_vec_ok [OF v(1)] v(2) vec_cap_bytes_eq [OF v(1)]
    vec_len_bytes_eq [OF v(1)]
  have lc: "vec_len v \<le> vec_cap v" by (rule vec_inv_len_le [OF v(1)])
  show ?thesis
  proof (cases "vec_len v = vec_cap v")
    case True
    then show ?thesis
      using w v(1) by (simp add: unf vec_outcome_def vec_updated_def vec_frame_refl)
  next
    case False
    then have "0 < vec_cap v" using lc by simp
    then obtain p bs where b: "vec_data v = Some p" "owned p" "p \<noteq> vec_self v" "heap w p = Some bs"
      "length bs = vec_cap v * ?es" using vec_block [OF v(1)] by blast
    show ?thesis
    proof (cases "vec_len v = 0")
      case True
      obtain w' where w': "tda_dealloc al w (Some p) (vec_cap v * ?es) = Some w'" "inv w'"
        "heap w' = (heap w)(p := None)" by (rule dealloc_some [OF w b(2,4,5)])
      let ?v' = "v\<lparr>vec_data := None, vec_cap := 0\<rparr>"
      have inv': "vec_inv owned w' ?v'" using v(1) True b w'(3) by (simp add: vec_inv_def block_at_def)
      moreover have "vec_frame w v w' ?v'" using b w'(3) by (auto simp: vec_frame_def vec_blocks_def)
      moreover have "vec_list w' ?v' = vec_list w v" using True by (simp add: vec_list_def)
      ultimately show ?thesis
        using True False b(1) w' assert_vec_ok [OF inv'] by (simp add: unf vec_outcome_def vec_updated_def)
    next
      case nonempty: False
      have pos: "0 < vec_len v * ?es" using nonempty v(1) by (simp add: vec_inv_def)
      have "vec_len v * ?es \<le> vec_cap v * ?es" using lc by (rule mult_le_mono1)
      then have max: "vec_len v * ?es \<le> SIZE_MAX"
        by (rule le_trans) (use v(1) in \<open>simp add: vec_inv_def\<close>)
      show ?thesis
      proof (rule realloc_some_cases [OF w b(2,4,5) pos max])
        fix w' assume "tda_realloc al w (Some p) (vec_cap v * ?es) (vec_len v * ?es) = Some (None, w')"
          "inv w'" "heap w' = heap w"
        then show ?thesis using False nonempty b(1) by (simp add: unf vec_outcome_def)
      next
        fix q w' bs' assume a: "tda_realloc al w (Some p) (vec_cap v * ?es) (vec_len v * ?es) = Some (Some q, w')"
          "inv w'" "owned q" "q = p \<or> heap w q = None" "length bs' = vec_len v * ?es"
          "take (min (vec_cap v * ?es) (vec_len v * ?es)) bs' = take (min (vec_cap v * ?es) (vec_len v * ?es)) bs"
          "heap w' = (heap w)(p := None, q \<mapsto> bs')"
        let ?v' = "v\<lparr>vec_data := Some q, vec_cap := vec_len v\<rparr>"
        note mv = vec_moved_block [OF v(1) b(1,4) a(3,4,5) _ a(7) le_refl _ max]
        have "vec_inv owned w' ?v'" "vec_frame w v w' ?v'" "vec_list w' ?v' = vec_list w v"
          using mv a(5,6) b(5) nonempty by simp_all
        then show ?thesis
          using False nonempty b(1) a(1,2) assert_vec_ok [of owned w' ?v']
          by (simp add: unf vec_outcome_def vec_updated_def)
      qed
    qed
  qed
qed

end

section \<open>Birth, death and copies\<close>

text \<open>A constructor lends a whole new vec, or reports the failure and leaves no block behind.\<close>

definition vec_created ::
  "(ptr \<Rightarrow> bool) \<Rightarrow> 's al \<Rightarrow> 's world \<Rightarrow> tda_Status \<Rightarrow> 's vec option \<Rightarrow> 's world \<Rightarrow> bool" where
  "vec_created owned al w st r w' = (case r of
      None \<Rightarrow> st = TDA_STATUS_ERR_NO_MEM \<and> heap w' = heap w
    | Some v \<Rightarrow> st = TDA_STATUS_OK \<and> vec_inv owned w' v \<and> vec_al v = al
        \<and> (\<forall>q \<in> vec_blocks v. heap w q = None) \<and> (\<forall>q. q \<notin> vec_blocks v \<longrightarrow> heap w' q = heap w q))"

lemma vec_to_span_ok:
  assumes v: "vec_inv owned w v"
  shows "\<exists>s. tda_vec_to_span v = Some s \<and> span_ok w s \<and> sp_elem_size s = vec_elem_size v
    \<and> sp_len s = vec_len v \<and> sp_data s = map_option (\<lambda>p. (p, 0)) (vec_data v)
    \<and> span_elems w s = vec_list w v"
proof -
  let ?es = "vec_elem_size v"
  define s where "s = \<lparr>sp_data = map_option (\<lambda>p. (p, 0::nat)) (vec_data v), sp_len = vec_len v, sp_elem_size = ?es\<rparr>"
  have es: "0 < ?es" and lc: "vec_len v \<le> vec_cap v" using v by (simp_all add: vec_inv_def)
  have lb: "vec_len v * ?es \<le> vec_cap v * ?es" by (rule vec_inv_bytes(1) [OF v lc])
  have "vec_cap v * ?es \<le> SIZE_MAX" using v by (simp add: vec_inv_def)
  with lb have lm: "vec_len v * ?es \<le> SIZE_MAX" by (rule le_trans)
  have "vec_data v \<noteq> None \<or> vec_len v = 0" using v by (auto simp: vec_inv_def split: option.splits)
  then have "tda_vec_to_span v = Some s"
    using es by (simp add: tda_vec_to_span_def assert_vec_ok [OF v] tda_span_from_data_def s_def c_assert_def)
  moreover have "span_ok w s"
    using v lb lm by (auto simp: vec_inv_def block_at_def span_ok_def s_def split: option.splits)
  moreover have "span_elems w s = vec_list w v"
  proof (cases "vec_data v")
    case None
    then show ?thesis by (simp add: span_elems_def span_bytes_def s_def vec_list_def vec_cells_def)
  next
    case (Some p)
    then obtain bs where b: "heap w p = Some bs" "length bs = vec_cap v * ?es"
      using v by (auto simp: vec_inv_def block_at_def)
    then have "vec_len v * ?es \<le> length bs" using lb by simp
    from take_elems [OF es this] show ?thesis
      using Some b(1) by (simp add: span_elems_def span_bytes_def s_def vec_list_def vec_cells_def slice_def)
  qed
  ultimately show ?thesis by (auto simp: s_def)
qed

context allocator
begin

lemma vec_new_fail_spec:
  assumes "inv w1" "owned obj" "heap w1 obj = Some bs" "length bs = sizeof_tda_Vec"
    and "heap w obj = None" "heap w1 = (heap w)(obj \<mapsto> bs)"
  shows "\<exists>st r w'. vec_new_fail al w1 obj = Some (st, r, w') \<and> inv w'
    \<and> r = None \<and> st = TDA_STATUS_ERR_NO_MEM \<and> heap w' = heap w"
proof -
  obtain w' where "tda_dealloc al w1 (Some obj) sizeof_tda_Vec = Some w'" "inv w'"
    "heap w' = (heap w1)(obj := None)" by (rule dealloc_some [OF assms(1-4)])
  then show ?thesis using assms(5,6) by (auto simp: vec_new_fail_def fun_upd_idem)
qed

lemma vec_new_impl_spec:
  assumes w: "inv w" and es: "0 < es" and lc: "len \<le> cap"
  shows "\<exists>st r w'. vec_new_impl z len cap es al w = Some (st, r, w') \<and> inv w' \<and> vec_created owned al w st r w'
    \<and> (\<forall>v. r = Some v \<longrightarrow> vec_elem_size v = es \<and> vec_len v = len \<and> vec_cap v = cap
        \<and> (z \<longrightarrow> vec_list w' v = replicate len (replicate es 0)))"
proof -
  have sz: "sizeof_tda_Vec \<le> SIZE_MAX" by (simp add: sizeof_tda_Vec_def SIZE_MAX_def)
  show ?thesis
  proof (rule alloc_cases [OF w sz])
    fix w1 assume "tda_alloc al w sizeof_tda_Vec = Some (None, w1)" "inv w1" "heap w1 = heap w"
    then show ?thesis using es lc by (simp add: vec_new_impl_def vec_created_def)
  next
    fix obj w1 ob assume o: "tda_alloc al w sizeof_tda_Vec = Some (Some obj, w1)" "inv w1" "owned obj"
      "heap w obj = None" "length ob = sizeof_tda_Vec" "heap w1 = (heap w)(obj \<mapsto> ob)"
    have fail: "\<exists>st r w'. vec_new_fail al w2 obj = Some (st, r, w') \<and> inv w'
        \<and> r = None \<and> st = TDA_STATUS_ERR_NO_MEM \<and> heap w' = heap w"
      if "inv w2" "heap w2 = heap w1" for w2
      using vec_new_fail_spec [OF that(1) o(3) _ o(5) o(4)] that(2) o(6) by simp
    consider (empty) "cap = 0" | (over) "0 < cap" "SIZE_MAX < cap * es" | (ask) "0 < cap" "cap * es \<le> SIZE_MAX"
      by linarith
    then show ?thesis
    proof cases
      case empty
      define v where "v = vec_set_fields obj None len cap es al"
      have "vec_inv owned w1 v"
        using empty lc es o by (simp add: vec_inv_def v_def vec_set_fields_def block_at_def)
      then show ?thesis
        using empty lc es o assert_vec_ok [of owned w1 v]
        by (simp add: vec_new_impl_def vec_created_def v_def vec_set_fields_def vec_blocks_def vec_list_def)
    next
      case over
      then show ?thesis
        using fail [OF o(2) refl] es lc o(1)
        by (fastforce simp: vec_new_impl_def vec_created_def ckd_mul_def)
    next
      case ask
      show ?thesis
      proof (rule alloc_cases [OF o(2) ask(2)])
        fix w2 assume "tda_alloc al w1 (cap * es) = Some (None, w2)" "inv w2" "heap w2 = heap w1"
        then show ?thesis
          using fail [of w2] ask es lc o(1)
          by (fastforce simp: vec_new_impl_def vec_created_def ckd_mul_def)
      next
        fix d w2 db assume d: "tda_alloc al w1 (cap * es) = Some (Some d, w2)" "inv w2" "owned d"
          "heap w1 d = None" "length db = cap * es" "heap w2 = (heap w1)(d \<mapsto> db)"
        define v where "v = vec_set_fields obj (Some d) len cap es al"
        have flds: "vec_data v = Some d" "vec_elem_size v = es" "vec_len v = len" "vec_cap v = cap"
          "vec_self v = obj" "vec_al v = al" by (simp_all add: v_def vec_set_fields_def)
        have do: "d \<noteq> obj" using d(4) o(6) by auto
        have v2: "vec_inv owned w2 v"
          using ask es lc o d do by (simp add: vec_inv_def flds block_at_def)
        have m: "size_mul len es = len * es"
          using vec_inv_bytes(2) [OF v2, of len] lc by (simp add: flds)
        obtain w3 where w3: "(if z then mem_set w2 d 0 0 (size_mul len es) else Some w2) = Some w3" "inv w3"
          "vec_inv owned w3 v" "vec_frame w2 v w3 v"
          "z \<Longrightarrow> vec_cells w3 v = blit 0 (replicate len (replicate es 0)) (vec_cells w2 v)"
        proof (cases z)
          case True
          have "0 + len \<le> vec_cap v" using lc by (simp add: flds)
          from vec_zero [OF d(2) v2 flds(1) this] that True show ?thesis by (auto simp: flds m)
        qed (use that [of w2] d v2 in \<open>simp add: vec_frame_refl\<close>)
        have "z \<Longrightarrow> vec_list w3 v = replicate len (replicate es 0)"
          using w3(5) take_blit_full [of 0 "replicate len (replicate es 0)" "vec_cells w2 v"] lc
          by (simp add: vec_list_def flds length_vec_cells [OF v2])
        moreover have "vec_new_impl z len cap es al w = Some (TDA_STATUS_OK, Some v, w3)"
          using ask es lc o(1) d(1) w3(1) assert_vec_ok [OF v2]
          by (simp add: vec_new_impl_def ckd_mul_def v_def Let_def)
        moreover have "heap w3 q = heap w q" if "q \<notin> vec_blocks v" for q
          using that w3(4) o(6) d(6) by (simp add: vec_frame_def vec_blocks_def flds)
        moreover have "\<forall>q \<in> vec_blocks v. heap w q = None"
          using o(4,6) d(4) do by (simp add: vec_blocks_def flds)
        ultimately show ?thesis using w3(2,3) by (simp add: vec_created_def flds)
      qed
    qed
  qed
qed

lemma vec_drop_spec:
  assumes w: "inv w" and v: "vec_inv owned w v" "vec_al v = al"
  shows "\<exists>w'. tda_vec_drop w (Some v) = Some w' \<and> inv w'
    \<and> heap w' = (\<lambda>q. if q \<in> vec_blocks v then None else heap w q)"
proof -
  have unf: "tda_vec_drop w (Some v) = Option.bind (tda_dealloc al w (vec_data v) (vec_cap v * vec_elem_size v))
      (\<lambda>w1. tda_dealloc al w1 (Some (vec_self v)) sizeof_tda_Vec)"
    by (simp add: tda_vec_drop_def assert_vec_ok [OF v(1)] v(2) vec_cap_bytes_eq [OF v(1)])
  have "\<exists>w1. tda_dealloc al w (vec_data v) (vec_cap v * vec_elem_size v) = Some w1 \<and> inv w1
    \<and> heap w1 = (\<lambda>q. if q \<in> set_option (vec_data v) then None else heap w q)"
  proof (cases "vec_data v")
    case None
    then show ?thesis using w by (simp add: dealloc_null)
  next
    case (Some p)
    then obtain bs where "owned p" "heap w p = Some bs" "length bs = vec_cap v * vec_elem_size v"
      using v(1) by (auto simp: vec_inv_def block_at_def)
    from dealloc_some [OF w this] Some show ?thesis by (auto simp: fun_upd_def)
  qed
  then obtain w1 where w1: "tda_dealloc al w (vec_data v) (vec_cap v * vec_elem_size v) = Some w1" "inv w1"
    "heap w1 = (\<lambda>q. if q \<in> set_option (vec_data v) then None else heap w q)" by blast
  obtain sb where "owned (vec_self v)" "heap w1 (vec_self v) = Some sb" "length sb = sizeof_tda_Vec"
    using v(1) w1(3) by (auto simp: vec_inv_def block_at_def split: option.splits)
  from dealloc_some [OF w1(2) this] obtain w2 where
    "tda_dealloc al w1 (Some (vec_self v)) sizeof_tda_Vec = Some w2" "inv w2"
    "heap w2 = (heap w1)(vec_self v := None)" .
  then show ?thesis using unf w1(1,3) by (auto simp: vec_blocks_def)
qed

lemma vec_release_spec:
  assumes w: "inv w" and v: "vec_inv owned w v" "vec_al v = al"
  shows "\<exists>w' v'. vec_release_data w v = Some (w', v') \<and> inv w' \<and> vec_updated owned w v w' v' []
    \<and> vec_data v' = None \<and> (\<forall>q. q \<notin> set_option (vec_data v) \<longrightarrow> heap w' q = heap w q)"
proof (cases "vec_data v")
  case None
  then show ?thesis
    using w v by (auto simp: vec_release_data_def dealloc_null vec_updated_def vec_inv_def vec_frame_def
        vec_blocks_def vec_list_def)
next
  case (Some p)
  then obtain bs where b: "owned p" "heap w p = Some bs" "length bs = vec_cap v * vec_elem_size v" "p \<noteq> vec_self v"
    using v(1) by (auto simp: vec_inv_def block_at_def)
  from dealloc_some [OF w b(1-3)] obtain w' where
    w': "tda_dealloc al w (Some p) (vec_cap v * vec_elem_size v) = Some w'" "inv w'" "heap w' = (heap w)(p := None)" .
  then show ?thesis
    using Some v b(4) by (auto simp: vec_release_data_def vec_cap_bytes_eq [OF v(1)] vec_updated_def
        vec_inv_def vec_frame_def vec_blocks_def vec_list_def block_at_def)
qed

lemma vec_from_span_spec:
  assumes w: "inv w" and s: "span_ok w s"
  shows "\<exists>st r w'. tda_vec_from_span s al w = Some (st, r, w') \<and> inv w' \<and> vec_created owned al w st r w'
    \<and> (\<forall>v. r = Some v \<longrightarrow> vec_list w' v = span_elems w s \<and> vec_elem_size v = sp_elem_size s)"
proof -
  let ?es = "sp_elem_size s" and ?n = "sp_len s"
  have es: "0 < ?es" using s by (simp add: span_ok_def)
  obtain st r w1 where c: "vec_new_impl False ?n ?n ?es al w = Some (st, r, w1)" "inv w1"
    "vec_created owned al w st r w1"
    "\<And>v. r = Some v \<Longrightarrow> vec_elem_size v = ?es \<and> vec_len v = ?n \<and> vec_cap v = ?n"
    using vec_new_impl_spec [OF w es le_refl, of False] by blast
  have unf: "tda_vec_from_span s al w = tda_vec_from_data (sp_data s) ?n ?es al w"
    by (simp add: tda_vec_from_span_def span_assert_ok [OF s])
  have null: "sp_data s \<noteq> None \<or> ?n = 0" using s by (auto simp: span_ok_def split: option.splits)
  show ?thesis
  proof (cases r)
    case None
    then show ?thesis using c null es by (auto simp: unf tda_vec_from_data_def c_assert_def vec_created_def)
  next
    case (Some v)
    then have cv: "st = TDA_STATUS_OK" "vec_inv owned w1 v" "vec_al v = al"
      "\<And>q. q \<in> vec_blocks v \<Longrightarrow> heap w q = None" "\<And>q. q \<notin> vec_blocks v \<Longrightarrow> heap w1 q = heap w q"
      "vec_elem_size v = ?es" "vec_len v = ?n" "vec_cap v = ?n"
      using c(3,4) by (auto simp: vec_created_def)
    show ?thesis
    proof (cases "?n = 0")
      case True
      then have "span_elems w s = []" using length_span_elems [OF s] by simp
      then show ?thesis
        using True Some c es cv(1,6,7) by (simp add: unf tda_vec_from_data_def vec_list_def)
    next
      case False
      then obtain q off sbs where d: "sp_data s = Some (q, off)" "heap w q = Some sbs"
        "off + ?n * ?es \<le> length sbs" using s by (auto simp: span_ok_def split: option.splits)
      have "heap w1 q = Some sbs" using cv(4,5) [of q] d(2) by fastforce
      then have rd: "mem_read w1 q off (?n * ?es) = Some (span_bytes w s)"
        using d by (simp add: mem_read_ok span_bytes_def)
      have "0 < vec_cap v" using False cv(8) by simp
      then obtain p where p: "vec_data v = Some p" using vec_block [OF cv(2)] by blast
      have len: "length (span_bytes w s) = ?n * vec_elem_size v"
        using length_span_bytes [OF s] cv(6) by simp
      have fit: "0 + ?n \<le> vec_cap v" using cv(8) by simp
      obtain w2 where w2: "mem_write w1 p (0 * vec_elem_size v) (span_bytes w s) = Some w2" "inv w2"
        "vec_inv owned w2 v" "vec_frame w1 v w2 v"
        "vec_cells w2 v = blit 0 (elems (vec_elem_size v) (span_bytes w s)) (vec_cells w1 v)"
        by (rule vec_write [OF c(2) cv(2) p len fit])
      have "tda_vec_from_span s al w = Some (TDA_STATUS_OK, Some v, w2)"
        using Some c(1) es d(1) False p rd w2(1) vec_len_bytes_eq [OF cv(2)] cv(1,6,7)
        by (simp add: unf tda_vec_from_data_def)
      moreover have "vec_list w2 v = span_elems w s"
      proof -
        have "length (vec_cells w1 v) = ?n" using length_vec_cells [OF cv(2)] cv(8) by simp
        then show ?thesis
          using w2(5) length_span_elems [OF s] cv(6,7)
          by (simp add: vec_list_def span_elems_def [symmetric] blit_whole)
      qed
      moreover have "vec_created owned al w TDA_STATUS_OK (Some v) w2"
        using w2(3,4) cv(3,4,5) by (simp add: vec_created_def vec_frame_def)
      ultimately show ?thesis using w2(2) cv(6) by blast
    qed
  qed
qed

text \<open>The source may belong to any allocator.\<close>

lemma vec_copy_with_spec:
  assumes w: "inv w" and v: "vec_inv owned' w v"
  shows "\<exists>st r w'. tda_vec_copy_with v al w = Some (st, r, w') \<and> inv w' \<and> vec_created owned al w st r w'
    \<and> (\<forall>c. r = Some c \<longrightarrow> vec_list w' c = vec_list w v \<and> vec_elem_size c = vec_elem_size v)"
proof -
  from vec_to_span_ok [OF v] obtain s where s: "tda_vec_to_span v = Some s" "span_ok w s"
    "sp_elem_size s = vec_elem_size v" "span_elems w s = vec_list w v" by blast
  then show ?thesis
    using vec_from_span_spec [OF w s(2)] by (simp add: tda_vec_copy_with_def assert_vec_ok [OF v])
qed

end

section \<open>Two vecs\<close>

text \<open>A vec is unaffected by whatever leaves its own blocks alone.\<close>

lemma vec_stable:
  assumes "vec_inv owned w v" "\<And>q. q \<in> vec_blocks v \<Longrightarrow> heap w' q = heap w q"
  shows "vec_inv owned w' v" and "vec_list w' v = vec_list w v"
  using assms by (auto simp: vec_inv_def block_at_def vec_blocks_def vec_list_def vec_cells_def split: option.splits)

lemma vec_swap_structs_inv:
  assumes "vec_inv owned w a" "vec_inv owned w b" "vec_blocks a \<inter> vec_blocks b = {}"
  shows "vec_inv owned w (b\<lparr>vec_self := vec_self a\<rparr>)"
  using assms by (auto simp: vec_inv_def vec_blocks_def split: option.splits)

lemma vec_list_self [simp]: "vec_list w (v\<lparr>vec_self := p\<rparr>) = vec_list w v"
  by (simp add: vec_list_def vec_cells_def split: option.splits)

lemma vec_blocks_self [simp]:
  "vec_blocks (v\<lparr>vec_self := p\<rparr>) = insert p (set_option (vec_data v))"
  by (simp add: vec_blocks_def)

context allocator
begin

lemma vec_copy_assign_spec:
  assumes w: "inv w" and self: "vec_inv owned' w self" and other: "vec_inv owned w other" "vec_al other = al"
    and es: "vec_elem_size self = vec_elem_size other" and apart: "vec_blocks self \<inter> vec_blocks other = {}"
  shows "\<exists>st w' other'. tda_vec_copy_assign w self other = Some (st, w', other') \<and> inv w'
    \<and> vec_outcome owned w other st w' other' (vec_list w self)"
proof -
  have ne: "vec_self self \<noteq> vec_self other" using apart by (auto simp: vec_blocks_def)
  note unf = tda_vec_copy_assign_def assert_vec_ok [OF self] assert_vec_ok [OF other(1)] es ne
  obtain st w1 o1 where r: "tda_vec_reserve w other (vec_len self) = Some (st, w1, o1)" "inv w1"
    "vec_reserved owned w other (vec_len self) st w1 o1"
    using vec_reserve_spec [OF w other] by blast
  show ?thesis
  proof (cases st)
    case TDA_STATUS_ERR_NO_MEM
    then show ?thesis using r by (simp add: unf vec_outcome_def vec_reserved_def)
  next
    case ok: TDA_STATUS_OK
    note k = vec_reserved_ok [OF other(1) r(3) [unfolded ok]]
    show ?thesis
    proof (cases "vec_len self = 0")
      case True
      then show ?thesis
        using ok r vec_updated_len [OF k(1,2), of 0] assert_vec_ok [OF vec_inv_len [OF k(1), of 0]]
        by (simp add: unf vec_outcome_def vec_list_def)
    next
      case False
      then have c: "0 < vec_cap o1" "0 < vec_cap self" using k(4) vec_inv_len_le [OF self] by simp_all
      obtain p where p: "vec_data o1 = Some p" using vec_block [OF k(1) c(1)] by blast
      obtain q bs where q: "vec_data self = Some q" "heap w q = Some bs"
        "length bs = vec_cap self * vec_elem_size self" using vec_block [OF self c(2)] by blast
      have "q \<notin> vec_blocks other" using apart q(1) by (auto simp: vec_blocks_def)
      then have q1: "heap w1 q = Some bs" using vec_frame_other [OF k(2) q(2)] by blast
      define src where "src = slice 0 (vec_len self * vec_elem_size self) bs"
      have lb: "vec_len self * vec_elem_size self \<le> length bs"
        using q(3) vec_inv_len_le [OF self] by (simp add: mult_le_mono1)
      have rd: "mem_read w1 q 0 (vec_len_bytes self) = Some src"
        using q1 lb by (simp add: mem_read_ok vec_len_bytes_eq [OF self] src_def)
      have len: "length src = vec_len self * vec_elem_size o1"
        using lb es k(6) by (simp add: src_def length_slice)
      have fit: "0 + vec_len self \<le> vec_cap o1" using k(4) by simp
      obtain w2 where w2: "mem_write w1 p (0 * vec_elem_size o1) src = Some w2" "inv w2"
        "vec_inv owned w2 o1" "vec_frame w1 o1 w2 o1"
        "vec_cells w2 o1 = blit 0 (elems (vec_elem_size o1) src) (vec_cells w1 o1)"
        by (rule vec_write [OF r(2) k(1) p len fit])
      have "elems (vec_elem_size o1) src = vec_list w self"
        using take_elems [of "vec_elem_size self" "vec_len self" bs] lb es k(6) q self
        by (simp add: src_def slice_def vec_list_def vec_cells_def vec_inv_def)
      then have "take (vec_len self) (vec_cells w2 o1) = vec_list w self"
        using w2(5) take_blit_full [of 0 "vec_list w self" "vec_cells w1 o1"] fit
        by (simp add: length_vec_list [OF self] length_vec_cells [OF k(1)])
      then show ?thesis
        using ok False r(1) q(1) rd p w2(1,2) assert_vec_ok [OF vec_inv_len [OF w2(3) k(4)]]
          vec_updated_len [OF w2(3) vec_frame_trans [OF k(2) w2(4)] k(4)]
        by (simp add: unf vec_outcome_def Let_def)
    qed
  qed
qed

lemma vec_move_assign_same:
  assumes w: "inv w" and self: "vec_inv owned w self" "vec_al self = al"
    and other: "vec_inv owned w other" "vec_al other = al"
    and es: "vec_elem_size self = vec_elem_size other" and apart: "vec_blocks self \<inter> vec_blocks other = {}"
  shows "\<exists>w' self' other'. tda_vec_move_assign w self other = Some (TDA_STATUS_OK, w', self', other') \<and> inv w'
    \<and> vec_inv owned w' self' \<and> vec_inv owned w' other'
    \<and> vec_list w' other' = vec_list w self \<and> vec_list w' self' = []
    \<and> (\<forall>q. heap w' q = (if q \<in> set_option (vec_data other) then None else heap w q))"
proof -
  have ne: "vec_self self \<noteq> vec_self other" using apart by (auto simp: vec_blocks_def)
  define s1 o1 where "s1 = other\<lparr>vec_self := vec_self self\<rparr>" and "o1 = self\<lparr>vec_self := vec_self other\<rparr>"
  have s1: "vec_inv owned w s1" "vec_al s1 = al" "vec_data s1 = vec_data other"
    using vec_swap_structs_inv [OF self(1) other(1) apart] other(2) by (simp_all add: s1_def)
  have o1: "vec_inv owned w o1"
    using vec_swap_structs_inv [OF other(1) self(1)] apart by (simp add: o1_def Int_commute)
  obtain w' s2 where r: "vec_release_data w s1 = Some (w', s2)" "inv w'" "vec_updated owned w s1 w' s2 []"
    "\<And>q. q \<notin> set_option (vec_data other) \<Longrightarrow> heap w' q = heap w q" "vec_data s2 = None"
    using vec_release_spec [OF w s1(1,2)] s1(3) by auto
  have s2: "vec_inv owned w' s2" "vec_list w' s2 = []" using r(3) by (simp_all add: vec_updated_def)
  have "q \<notin> set_option (vec_data other)" if "q \<in> vec_blocks o1" for q
    using that apart other(1) by (auto simp: o1_def vec_blocks_def vec_inv_def)
  then have o1': "vec_inv owned w' o1" "vec_list w' o1 = vec_list w o1"
    using vec_stable [OF o1, of w'] r(4) by simp_all
  have gone: "heap w' q = None" if "q \<in> set_option (vec_data other)" for q
  proof -
    have "q \<in> vec_blocks s1 - vec_blocks s2"
      using that apart r(3,5) s1(3) other(1) by (auto simp: vec_blocks_def vec_updated_def vec_frame_def s1_def)
    then show ?thesis using r(3) by (simp add: vec_updated_def vec_frame_def)
  qed
  have "tda_vec_move_assign w self other = Some (TDA_STATUS_OK, w', s2, o1)"
    using ne es self other r(1) assert_vec_ok [OF s2(1)] assert_vec_ok [OF o1'(1)]
    by (simp add: tda_vec_move_assign_def assert_vec_ok [OF self(1)] assert_vec_ok [OF other(1)]
        vec_swap_structs_def s1_def o1_def)
  then show ?thesis using r(2,4) s2 o1' gone by (auto simp: o1_def)
qed

end

lemma vec_move_assign_cross:
  assumes A: "allocator al I owned" and B: "allocator al' I owned'" and ids: "al_self al \<noteq> al_self al'"
    and w: "I w" and self: "vec_inv owned' w self" "vec_al self = al'"
    and other: "vec_inv owned w other" "vec_al other = al"
    and es: "vec_elem_size self = vec_elem_size other" and apart: "vec_blocks self \<inter> vec_blocks other = {}"
  shows "\<exists>st w' self' other'. tda_vec_move_assign w self other = Some (st, w', self', other') \<and> I w'
    \<and> (if st = TDA_STATUS_OK then vec_inv owned' w' self' \<and> vec_inv owned w' other'
          \<and> vec_list w' other' = vec_list w self \<and> vec_list w' self' = []
       else self' = self \<and> other' = other \<and> heap w' = heap w)"
proof -
  have ne: "vec_self self \<noteq> vec_self other" using apart by (auto simp: vec_blocks_def)
  have ids': "al_self (vec_al self) \<noteq> al_self (vec_al other)" using ids self(2) other(2) by auto
  note unf = tda_vec_move_assign_def assert_vec_ok [OF self(1)] assert_vec_ok [OF other(1)] es ne ids'
  obtain st r w1 where c: "tda_vec_copy_with self al w = Some (st, r, w1)" "I w1"
    "vec_created owned al w st r w1" "\<And>c. r = Some c \<Longrightarrow> vec_list w1 c = vec_list w self"
    using allocator.vec_copy_with_spec [OF A w self(1)] by blast
  show ?thesis
  proof (cases r)
    case None
    then show ?thesis using c(1-3) other(2) ids' by (simp add: unf vec_created_def)
  next
    case (Some obj)
    have obj: "vec_inv owned w1 obj" "vec_al obj = al" "\<And>q. q \<in> vec_blocks obj \<Longrightarrow> heap w q = None"
      "\<And>q. q \<notin> vec_blocks obj \<Longrightarrow> heap w1 q = heap w q" "st = TDA_STATUS_OK"
      using c(3) Some by (auto simp: vec_created_def)
    have live: "heap w q \<noteq> None" if "q \<in> vec_blocks self \<union> vec_blocks other" for q
      using that self(1) other(1) by (auto simp: vec_blocks_def vec_inv_def block_at_def split: option.splits)
    have d1: "vec_blocks obj \<inter> (vec_blocks self \<union> vec_blocks other) = {}" using live obj(3) by blast
    have other1: "vec_inv owned w1 other" and self1: "vec_inv owned' w1 self"
      using vec_stable(1) [OF other(1), of w1] vec_stable(1) [OF self(1), of w1] obj(4) d1 by blast+
    define o1 b1 where "o1 = obj\<lparr>vec_self := vec_self other\<rparr>" and "b1 = other\<lparr>vec_self := vec_self obj\<rparr>"
    have o1: "vec_inv owned w1 o1" and b1: "vec_inv owned w1 b1" "vec_al b1 = al"
      using vec_swap_structs_inv [OF other1 obj(1)] vec_swap_structs_inv [OF obj(1) other1] d1 other(2)
      by (auto simp: o1_def b1_def)
    obtain w2 where w2: "tda_vec_drop w1 (Some b1) = Some w2" "I w2"
      "heap w2 = (\<lambda>q. if q \<in> vec_blocks b1 then None else heap w1 q)"
      using allocator.vec_drop_spec [OF A c(2) b1] by blast
    have bb: "vec_blocks b1 \<inter> vec_blocks self = {}" "vec_blocks b1 \<inter> vec_blocks o1 = {}"
      using d1 apart obj(1) other(1) by (auto simp: b1_def o1_def vec_blocks_def vec_inv_def)
    have keep: "q \<in> vec_blocks self \<Longrightarrow> heap w2 q = heap w1 q"
      "q \<in> vec_blocks o1 \<Longrightarrow> heap w2 q = heap w1 q" for q
      using w2(3) bb by auto
    have self2: "vec_inv owned' w2 self" "vec_inv owned w2 o1" "vec_list w2 o1 = vec_list w1 o1"
      using vec_stable [OF self1 keep(1)] vec_stable [OF o1 keep(2)] by simp_all
    obtain w3 s1 where r: "vec_release_data w2 self = Some (w3, s1)" "I w3" "vec_updated owned' w2 self w3 s1 []"
      "\<And>q. q \<notin> set_option (vec_data self) \<Longrightarrow> heap w3 q = heap w2 q"
      using allocator.vec_release_spec [OF B w2(2) self2(1) self(2)] by blast
    have "set_option (vec_data self) \<inter> vec_blocks o1 = {}"
      using d1 apart by (auto simp: o1_def vec_blocks_def)
    then have o3: "vec_inv owned w3 o1" "vec_list w3 o1 = vec_list w2 o1"
      using vec_stable [OF self2(2), of w3] r(4) by blast+
    have s3: "vec_inv owned' w3 s1" "vec_list w3 s1 = []" using r(3) by (simp_all add: vec_updated_def)
    have "tda_vec_move_assign w self other = Some (TDA_STATUS_OK, w3, s1, o1)"
      using Some c(1) other(2) w2(1) r(1) assert_vec_ok [OF s3(1)] assert_vec_ok [OF o3(1)] ids'
      by (simp add: unf vec_swap_structs_def o1_def b1_def)
    then show ?thesis
      using r(2) s3 o3 self2(3) c(4) [OF Some] by (simp add: o1_def)
  qed
qed

end
