(* ===== verification/Tda_Vec_Compare.thy ===== *)
theory Tda_Vec_Compare
  imports Tda_Vec Tda_Modify
begin

text \<open>
  Equality of vectors (\<open>tda_vec_eq\<close>, \<open>tda_vec_eq_by\<close> in \<open>src/ds/vec.c\<close>): the spans over both are
  compared, byte by byte or with an equality of the elements. Two vectors are equal when they
  stand for the same sequence, wherever their elements lie and whatever their capacities.
\<close>

definition tda_vec_eq :: "'s world \<Rightarrow> 's vec \<Rightarrow> 's vec \<Rightarrow> bool option" where
  "tda_vec_eq w a b = do {
     s \<leftarrow> tda_vec_to_span a;
     t \<leftarrow> tda_vec_to_span b;
     tda_span_eq w s t
   }"

definition tda_vec_eq_by :: "'s world \<Rightarrow> 's vec \<Rightarrow> 's vec \<Rightarrow> (byte list \<Rightarrow> byte list \<Rightarrow> bool) \<Rightarrow> bool option" where
  "tda_vec_eq_by w a b eq = do {
     s \<leftarrow> tda_vec_to_span a;
     t \<leftarrow> tda_vec_to_span b;
     c_assert (sp_elem_size s = sp_elem_size t);
     tda_span_eq_by (sp_data s = sp_data t) (span_elems w s) (span_elems w t) eq
   }"

lemma vec_eq_spec:
  assumes "vec_inv owned w v" "vec_inv owned2 w u" "vec_elem_size v = vec_elem_size u"
  shows "tda_vec_eq w v u = Some (vec_list w v = vec_list w u)"
proof -
  obtain s t where s: "tda_vec_to_span v = Some s" "span_ok w s" "sp_elem_size s = vec_elem_size v" "span_elems w s = vec_list w v"
    and t: "tda_vec_to_span u = Some t" "span_ok w t" "sp_elem_size t = vec_elem_size u" "span_elems w t = vec_list w u"
    using vec_to_span_ok [OF assms(1)] vec_to_span_ok [OF assms(2)] by blast
  then show ?thesis using span_eq_spec [OF s(2) t(2)] assms(3) by (simp add: tda_vec_eq_def)
qed

lemma vec_eq_by_spec:
  assumes "vec_inv owned w v" "vec_inv owned2 w u" "vec_elem_size v = vec_elem_size u" "\<And>x. eq x x"
  shows "tda_vec_eq_by w v u eq = Some (list_all2 eq (vec_list w v) (vec_list w u))"
proof -
  obtain s t where s: "tda_vec_to_span v = Some s" "span_ok w s" "sp_elem_size s = vec_elem_size v" "span_elems w s = vec_list w v"
    and t: "tda_vec_to_span u = Some t" "span_ok w t" "sp_elem_size t = vec_elem_size u" "span_elems w t = vec_list w u"
    using vec_to_span_ok [OF assms(1)] vec_to_span_ok [OF assms(2)] by blast
  have same: "list_all2 eq (span_elems w s) (span_elems w t)"
    if "sp_data s = sp_data t" "length (span_elems w s) = length (span_elems w t)"
  proof -
    have "sp_len s = sp_len t" using that(2) s(2) t(2) by (simp add: length_span_elems)
    then have "span_elems w s = span_elems w t"
      using that(1) s(3) t(3) assms(3) unfolding span_elems_def span_bytes_def by (auto split: option.splits)
    then show ?thesis using assms(4) by (simp add: list_all2_same)
  qed
  then show ?thesis
    using eq_by_spec [of "sp_data s = sp_data t" "span_elems w s" "span_elems w t" eq] s t assms(3)
    by (simp add: tda_vec_eq_by_def)
qed

end
