(* ===== verification/Tda_Buffer.thy ===== *)
theory Tda_Buffer
  imports Tda_Span
begin

text \<open>
  What the containers that keep their elements in one block share: how a block of whole
  elements is written and cleared, what an operation may do to the blocks that are not its
  own (\<open>frame\<close>), and a ring of cells seen from its first element. Nothing here models code
  of its own; the containers' theories do.
\<close>

section \<open>Which blocks an operation may touch\<close>

text \<open>
  An operation that held the blocks \<open>B\<close> and holds \<open>B'\<close> afterwards: all others are as they
  were, one it acquired was free before, one it no longer holds is free now.
\<close>

definition frame :: "'s world \<Rightarrow> ptr set \<Rightarrow> 's world \<Rightarrow> ptr set \<Rightarrow> bool" where
  "frame w B w' B' \<longleftrightarrow> (\<forall>q. q \<notin> B \<union> B' \<longrightarrow> heap w' q = heap w q)
     \<and> (\<forall>q. q \<in> B' - B \<longrightarrow> heap w q = None) \<and> (\<forall>q. q \<in> B - B' \<longrightarrow> heap w' q = None)"

lemma frame_refl: "heap w' = heap w \<Longrightarrow> frame w B w' B"
  by (simp add: frame_def)

lemma frame_trans:
  assumes "frame w B w1 B1" "frame w1 B1 w2 B2"
  shows "frame w B w2 B2"
  using assms unfolding frame_def by (metis DiffI DiffD1 DiffD2 Un_iff)

lemma frame_other: "frame w B w' B' \<Longrightarrow> heap w q = Some bs \<Longrightarrow> q \<notin> B \<Longrightarrow> heap w' q = Some bs \<and> q \<notin> B'"
  by (force simp: frame_def)

lemma frame_cong: "heap w1 = heap w2 \<Longrightarrow> frame w1 B w' B' = frame w2 B w' B'"
  "heap w1 = heap w2 \<Longrightarrow> frame w B w1 B' = frame w B w2 B'"
  by (simp_all add: frame_def)

lemma frame_write: "p \<in> B \<Longrightarrow> heap w' = (heap w)(p := x) \<Longrightarrow> frame w B w' B"
  by (auto simp: frame_def)

lemma frame_acquire: "heap w p = None \<Longrightarrow> heap w' = (heap w)(p := x) \<Longrightarrow> frame w B w' (insert p B)"
  by (auto simp: frame_def)

lemma frame_release: "p \<in> B \<Longrightarrow> heap w' = (heap w)(p := None) \<Longrightarrow> frame w B w' (B - {p})"
  by (auto simp: frame_def)

section \<open>Writing whole elements\<close>

lemma elems_fit:
  fixes es :: nat
  shows "k + m \<le> n \<Longrightarrow> k * es + m * es \<le> n * es"
  by (metis add_mult_distrib mult_le_mono1)

lemma in_slice: "x \<in> set (slice i n xs) \<Longrightarrow> x \<in> set xs"
  by (auto simp: slice_def dest: in_set_takeD in_set_dropD)

lemma length_concat_slice:
  "\<forall>x\<in>set xs. length x = es \<Longrightarrow> i + n \<le> length xs \<Longrightarrow> length (concat (slice i n xs)) = n * es"
  using length_concat_elems [of "slice i n xs" es] in_slice [of _ i n xs] by (simp add: length_slice)

lemma read_elems:
  assumes "heap w p = Some bs" "length bs = n * es" "0 < es" "k + m \<le> n"
  shows "mem_read w p (k * es) (m * es) = Some (concat (slice k m (elems es bs)))"
proof -
  have f: "k * es + m * es \<le> length bs" using elems_fit [OF assms(4)] assms(2) by simp
  have "elems es (slice (k * es) (m * es) bs) = slice k m (elems es bs)"
    using elems_slice [OF assms(3), of k m bs] f by (simp add: add_mult_distrib)
  moreover have "concat (elems es (slice (k * es) (m * es) bs)) = slice (k * es) (m * es) bs"
    using f by (intro concat_elems [OF assms(3), of _ m]) (simp add: length_slice)
  ultimately show ?thesis using assms(1) f by (simp add: mem_read_ok)
qed

lemma read_elem:
  assumes "heap w p = Some bs" "length bs = n * es" "0 < es" "k < n"
  shows "mem_read w p (k * es) es = Some (elems es bs ! k)"
proof -
  have k: "k < length (elems es bs)" using assms by (simp add: length_elems_mult [OF assms(3,2)])
  show ?thesis using read_elems [OF assms(1-3), of k 1] assms(4) slice_one [OF k] by simp
qed

context allocator
begin

lemma write_elems:
  assumes w: "inv w" "heap w p = Some bs" and n: "length bs = n * es" "0 < es"
    and src: "length src = m * es" "k + m \<le> n"
  obtains w' bs' where "mem_write w p (k * es) src = Some w'" "inv w'" "heap w' = (heap w)(p \<mapsto> bs')"
    "length bs' = n * es" "elems es bs' = blit k (elems es src) (elems es bs)"
proof -
  let ?bs' = "blit (k * es) src bs"
  have f: "k * es + length src \<le> length bs" using elems_fit [OF src(2), of es] n(1) src(1) by simp
  have len: "length ?bs' = length bs" using f by (rule length_blit)
  have "inv (w\<lparr>heap := (heap w)(p \<mapsto> ?bs')\<rparr>)" by (rule write_law [OF w len])
  moreover have "elems es ?bs' = blit k (elems es src) (elems es bs)"
    using elems_blit [OF n(2) src(1), of k bs] f src(1) by (simp add: add_mult_distrib)
  ultimately show ?thesis using that mem_write_ok [OF w(2) f] len n(1) by simp
qed

lemma zero_elems:
  assumes w: "inv w" "heap w p = Some bs" and n: "length bs = n * es" "0 < es" and fit: "k + m \<le> n"
  obtains w' bs' where "mem_set w p (k * es) 0 (m * es) = Some w'" "inv w'" "heap w' = (heap w)(p \<mapsto> bs')"
    "length bs' = n * es" "elems es bs' = blit k (replicate m (replicate es 0)) (elems es bs)"
proof -
  have "length (replicate (m * es) (0 :: byte)) = m * es" by simp
  from write_elems [OF w n this fit] obtain w' bs' where
    "mem_write w p (k * es) (replicate (m * es) 0) = Some w'" "inv w'" "heap w' = (heap w)(p \<mapsto> bs')"
    "length bs' = n * es" "elems es bs' = blit k (elems es (replicate (m * es) 0)) (elems es bs)" .
  then show ?thesis using that n(2) by (simp add: mem_set_def elems_replicate)
qed

text \<open>Giving back a block that may be null.\<close>

lemma dealloc_opt:
  assumes w: "inv w" and p: "\<And>p. data = Some p \<Longrightarrow> owned p \<and> block_at w p n"
  obtains w' where "tda_dealloc al w data n = Some w'" "inv w'"
    "heap w' = (\<lambda>q. if q \<in> set_option data then None else heap w q)"
proof (cases data)
  case None
  then show ?thesis using that [of w] w by (simp add: dealloc_null)
next
  case (Some p)
  then obtain bs where "owned p" "heap w p = Some bs" "length bs = n" using p by (auto simp: block_at_def)
  from dealloc_some [OF w this] obtain w' where
    "tda_dealloc al w (Some p) n = Some w'" "inv w'" "heap w' = (heap w)(p := None)" .
  then show ?thesis using that [of w'] Some by (auto simp: fun_upd_def)
qed

end

section \<open>Moving a run of a list one place, element by element\<close>

lemma fold_shift_down:
  "a \<le> b \<Longrightarrow> b < length R \<Longrightarrow> fold (\<lambda>i R. R[i := R ! (i + 1)]) [a..<b] R = take a R @ slice (a + 1) (b - a) R @ drop b R"
proof (induction b rule: dec_induct)
  case base
  then show ?case by simp
next
  case (step b)
  have s: "slice (a + 1) (Suc b - a) R = slice (a + 1) (b - a) R @ [R ! (b + 1)]"
    using step by (simp add: slice_def Suc_diff_le take_Suc_conv_app_nth)
  have d: "drop b R = R ! b # drop (Suc b) R" using step by (simp add: Cons_nth_drop_Suc)
  have l: "length (slice (a + 1) (b - a) R) = b - a" using step by (intro length_slice) simp
  have n: "(take a R @ slice (a + 1) (b - a) R @ drop b R) ! (b + 1) = R ! (b + 1)"
  proof -
    have "\<not> b + 1 < a" "\<not> b + 1 - a < b - a" "b + 1 - a - (b - a) = 1" "min (length R) a = a" using step by auto
    then show ?thesis using step.prems step.hyps(1) l by (simp add: nth_append)
  qed
  have "fold (\<lambda>i R. R[i := R ! (i + 1)]) [a..<Suc b] R
      = (take a R @ slice (a + 1) (b - a) R @ drop b R)[b := R ! (b + 1)]"
    using step n by simp
  also have "\<dots> = take a R @ slice (a + 1) (Suc b - a) R @ drop (Suc b) R"
    using step.prems step.hyps(1) l s by (simp add: list_update_append d)
  finally show ?case .
qed

lemma fold_shift_up:
  "0 < a \<Longrightarrow> a \<le> b \<Longrightarrow> b \<le> length R \<Longrightarrow>
    fold (\<lambda>i R. R[i := R ! (i - 1)]) (rev [a..<b]) R = take a R @ slice (a - 1) (b - a) R @ drop b R"
proof (induction "b - a" arbitrary: b R)
  case 0
  then show ?case by simp
next
  case (Suc n)
  then obtain m where m: "b = Suc m" "a \<le> m" by (cases b) auto
  let ?R = "R[m := R ! (m - 1)]"
  have "fold (\<lambda>i R. R[i := R ! (i - 1)]) (rev [a..<b]) R = fold (\<lambda>i R. R[i := R ! (i - 1)]) (rev [a..<m]) ?R"
    using m by simp
  also have "\<dots> = take a ?R @ slice (a - 1) (m - a) ?R @ drop m ?R"
    using Suc m by (intro Suc.hyps(1)) auto
  also have "drop m ?R = R ! (m - 1) # drop b R"
    using Suc.prems m by (simp add: drop_update_swap Cons_nth_drop_Suc [symmetric])
  also have "slice (a - 1) (m - a) ?R = slice (a - 1) (m - a) R"
    using Suc.prems m by (intro nth_equalityI) (auto simp: length_slice nth_slice)
  also have "take a ?R = take a R" using m by simp
  also have "slice (a - 1) (m - a) R @ R ! (m - 1) # drop b R = slice (a - 1) (b - a) R @ drop b R"
    using Suc.prems m by (simp add: slice_def Suc_diff_le take_Suc_conv_app_nth)
  finally show ?case .
qed

section \<open>Rings\<close>

text \<open>
  A ring of cells whose first element sits in slot \<open>h\<close> is the rotation of its cells; the
  element at \<open>k\<close> is in slot \<open>h + k\<close>, less one lap when that passes the end.
\<close>

definition ring_slot :: "nat \<Rightarrow> nat \<Rightarrow> nat \<Rightarrow> nat" where
  "ring_slot cap h k = (if h + k < cap then h + k else h + k - cap)"

lemma ring_slot_less: "h < cap \<Longrightarrow> k < cap \<Longrightarrow> ring_slot cap h k < cap"
  by (auto simp: ring_slot_def)

lemma ring_slot_mod: "h < cap \<Longrightarrow> k < cap \<Longrightarrow> ring_slot cap h k = (h + k) mod cap"
  by (auto simp: ring_slot_def mod_if)

lemma nth_ring: "h < length xs \<Longrightarrow> k < length xs \<Longrightarrow> rotate h xs ! k = xs ! ring_slot (length xs) h k"
  by (simp add: nth_rotate ring_slot_mod)

lemma ring_slot_inj: "h < cap \<Longrightarrow> j < cap \<Longrightarrow> k < cap \<Longrightarrow> ring_slot cap h j = ring_slot cap h k \<longleftrightarrow> j = k"
  by (auto simp: ring_slot_def split: if_splits)

lemma ring_update:
  assumes "h < length xs" "k < length xs"
  shows "rotate h (xs[ring_slot (length xs) h k := x]) = (rotate h xs)[k := x]"
  by (rule nth_equalityI)
    (use assms in \<open>auto simp: nth_ring nth_list_update ring_slot_inj ring_slot_less\<close>)

lemma rotate_take_drop: "h \<le> length xs \<Longrightarrow> rotate h xs = drop h xs @ take h xs"
  by (cases "h = length xs") (simp_all add: rotate_drop_take)

text \<open>The slot before the front, and the one after it.\<close>

definition ring_prev :: "nat \<Rightarrow> nat \<Rightarrow> nat" where
  "ring_prev cap h = (if h = 0 then cap - 1 else h - 1)"

definition ring_next :: "nat \<Rightarrow> nat \<Rightarrow> nat" where
  "ring_next cap h = (if h + 1 = cap then 0 else h + 1)"

lemma ring_prev_less: "h < cap \<Longrightarrow> ring_prev cap h < cap" and ring_next_less: "h < cap \<Longrightarrow> ring_next cap h < cap"
  by (auto simp: ring_prev_def ring_next_def)

lemma ring_next:
  assumes "h < length xs"
  shows "rotate (ring_next (length xs) h) xs = rotate1 (rotate h xs)"
proof (cases "Suc h = length xs")
  case True
  have "rotate1 (rotate h xs) = rotate (Suc h) xs" by simp
  also have "\<dots> = xs" unfolding True by (rule rotate_id) simp
  finally show ?thesis using True by (simp only: ring_next_def) simp
qed (simp add: ring_next_def)

lemma ring_prev:
  assumes "h < length xs"
  shows "rotate1 (rotate (ring_prev (length xs) h) xs) = rotate h xs"
proof -
  have "ring_next (length xs) (ring_prev (length xs) h) = h" using assms by (auto simp: ring_next_def ring_prev_def)
  then show ?thesis using ring_next [OF ring_prev_less [OF assms]] by simp
qed

lemma ring_prev_nth:
  assumes "h < length xs" "Suc k < length xs"
  shows "rotate (ring_prev (length xs) h) xs ! Suc k = rotate h xs ! k"
  using assms by (auto simp: nth_ring ring_prev_less ring_prev_def ring_slot_def)

lemma ring_next_nth:
  assumes "h < length xs" "Suc k < length xs"
  shows "rotate (ring_next (length xs) h) xs ! k = rotate h xs ! Suc k"
  using assms ring_next_less [OF assms(1)]
  by (simp add: nth_ring ring_slot_def del: rotate_Suc) (auto simp: ring_next_def simp del: rotate_Suc intro!: arg_cong [of _ _ "(!) xs"])

end
