(* ===== verification/Tda_Calls.thy ===== *)
theory Tda_Calls
  imports Tda_Buffer
begin

text \<open>
  Two contracts the containers share. \<open>refined_calls\<close>: a family of calls on one object, each
  of which reports a status, refines an abstract step relation, and so does every run of
  them, however many of its requests are refused. \<open>container\<close>: an object that owns blocks and
  can be dropped, which is what an adapter that keeps another container needs of it.
\<close>

section \<open>Runs of calls\<close>

fun calls_run ::
  "('op \<Rightarrow> 'w \<Rightarrow> 'c \<Rightarrow> (tda_Status \<times> 'w \<times> 'c) option) \<Rightarrow> 'op list \<Rightarrow> 'w \<Rightarrow> 'c \<Rightarrow> (tda_Status list \<times> 'w \<times> 'c) option"
where
  "calls_run step [] w c = Some ([], w, c)"
| "calls_run step (op # ops) w c = do {
     (st, w1, c1) \<leftarrow> step op w c;
     (sts, w2, c2) \<leftarrow> calls_run step ops w1 c1;
     Some (st # sts, w2, c2)
   }"

text \<open>The abstract run: a call that succeeds takes an abstract step, one that is refused none.\<close>

fun abstract_run :: "('op \<Rightarrow> 'a \<Rightarrow> 'a \<Rightarrow> bool) \<Rightarrow> 'op list \<Rightarrow> tda_Status list \<Rightarrow> 'a \<Rightarrow> 'a \<Rightarrow> bool" where
  "abstract_run rel [] [] a a' = (a' = a)"
| "abstract_run rel (op # ops) (st # sts) a a' =
     (\<exists>b. (if st = TDA_STATUS_OK then rel op a b else b = a) \<and> abstract_run rel ops sts b a')"
| "abstract_run rel _ _ a a' = False"

text \<open>Calls whose arguments the header allows in every state they may be reached in.\<close>

fun calls_allowed :: "('op \<Rightarrow> 'a \<Rightarrow> bool) \<Rightarrow> ('op \<Rightarrow> 'a \<Rightarrow> 'a \<Rightarrow> bool) \<Rightarrow> 'op list \<Rightarrow> 'a \<Rightarrow> bool" where
  "calls_allowed allowed rel [] a = True"
| "calls_allowed allowed rel (op # ops) a =
     (allowed op a \<and> (\<forall>b. rel op a b \<longrightarrow> calls_allowed allowed rel ops b) \<and> calls_allowed allowed rel ops a)"

text \<open>What one call does: an abstract step when it reports success, nothing otherwise.\<close>

definition call_refines ::
  "('op \<Rightarrow> 'a \<Rightarrow> 'a \<Rightarrow> bool) \<Rightarrow> 'op \<Rightarrow> tda_Status \<Rightarrow> 'a \<Rightarrow> 'a \<Rightarrow> bool" where
  "call_refines rel op st a b = (if st = TDA_STATUS_OK then rel op a b else b = a)"

locale refined_calls =
  fixes step :: "'op \<Rightarrow> 'w \<Rightarrow> 'c \<Rightarrow> (tda_Status \<times> 'w \<times> 'c) option"
    and ok :: "'w \<Rightarrow> 'c \<Rightarrow> bool"
    and untouched :: "'w \<Rightarrow> 'c \<Rightarrow> 'w \<Rightarrow> 'c \<Rightarrow> bool"
    and abstr :: "'w \<Rightarrow> 'c \<Rightarrow> 'a"
    and allowed :: "'op \<Rightarrow> 'a \<Rightarrow> bool"
    and rel :: "'op \<Rightarrow> 'a \<Rightarrow> 'a \<Rightarrow> bool"
  assumes untouched_refl: "untouched w c w c"
    and untouched_trans: "untouched w c w1 c1 \<Longrightarrow> untouched w1 c1 w2 c2 \<Longrightarrow> untouched w c w2 c2"
    and step_refines: "ok w c \<Longrightarrow> allowed op (abstr w c) \<Longrightarrow>
      \<exists>st w' c'. step op w c = Some (st, w', c') \<and> ok w' c' \<and> untouched w c w' c'
        \<and> call_refines rel op st (abstr w c) (abstr w' c')"
begin

lemma run_refines:
  "ok w c \<Longrightarrow> calls_allowed allowed rel ops (abstr w c) \<Longrightarrow>
    \<exists>sts w' c'. calls_run step ops w c = Some (sts, w', c') \<and> ok w' c' \<and> untouched w c w' c'
      \<and> abstract_run rel ops sts (abstr w c) (abstr w' c')"
proof (induction ops arbitrary: w c)
  case Nil
  then show ?case by (simp add: untouched_refl)
next
  case (Cons op ops)
  then obtain st w1 c1 where s: "step op w c = Some (st, w1, c1)" "ok w1 c1" "untouched w c w1 c1"
    "call_refines rel op st (abstr w c) (abstr w1 c1)" using step_refines [of w c op] by auto
  have "calls_allowed allowed rel ops (abstr w1 c1)"
    using Cons.prems(2) s(4) by (auto simp: call_refines_def split: if_splits)
  from Cons.IH [OF s(2) this] obtain sts w2 c2 where r: "calls_run step ops w1 c1 = Some (sts, w2, c2)"
    "ok w2 c2" "untouched w1 c1 w2 c2" "abstract_run rel ops sts (abstr w1 c1) (abstr w2 c2)" by blast
  then show ?case
    using s untouched_trans [OF s(3) r(3)] by (auto simp: call_refines_def)
qed

end

text \<open>A call that reports no status; a sequence of elements, with the size of each.\<close>

abbreviation quiet :: "'c option \<Rightarrow> 'w \<Rightarrow> (tda_Status \<times> 'w \<times> 'c) option" where
  "quiet r w \<equiv> Option.bind r (\<lambda>c. Some (TDA_STATUS_OK, w, c))"

type_synonym seq = "nat \<times> byte list list"

section \<open>Containers an adapter can keep\<close>

text \<open>
  \<open>cinv\<close> is the container's well-formedness in the blocks of its allocator, \<open>cblocks\<close> the
  blocks it owns, \<open>cal\<close> its allocator, \<open>cdrop\<close> the call that gives everything back.
\<close>

locale container =
  fixes cinv :: "(ptr \<Rightarrow> bool) \<Rightarrow> 's world \<Rightarrow> 'c \<Rightarrow> bool"
    and cblocks :: "'c \<Rightarrow> ptr set"
    and cal :: "'c \<Rightarrow> 's al"
    and cdrop :: "'s world \<Rightarrow> 'c option \<Rightarrow> 's world option"
  assumes drop_law: "object_allocator al I owned \<Longrightarrow> I w \<Longrightarrow> cinv owned w c \<Longrightarrow> cal c = al \<Longrightarrow>
      \<exists>w'. cdrop w (Some c) = Some w' \<and> I w' \<and> heap w' = (\<lambda>q. if q \<in> cblocks c then None else heap w q)"
    and stable_law: "cinv owned w c \<Longrightarrow> (\<And>q. q \<in> cblocks c \<Longrightarrow> heap w' q = heap w q) \<Longrightarrow> cinv owned w' c"
    and live_law: "cinv owned w c \<Longrightarrow> q \<in> cblocks c \<Longrightarrow> heap w q \<noteq> None"

text \<open>
  An adapter: a struct of \<open>sz\<close> bytes of its own that keeps a container. \<open>adapter_wrap\<close> makes
  one around a container it takes over, which it drops when there is no room for the struct;
  \<open>adapter_drop\<close> gives everything back, \<open>adapter_into\<close> only the struct.
\<close>

definition adapter_wrap ::
  "('c \<Rightarrow> 's al) \<Rightarrow> ('s world \<Rightarrow> 'c option \<Rightarrow> 's world option) \<Rightarrow> nat \<Rightarrow> (ptr \<Rightarrow> 'c \<Rightarrow> 'a) \<Rightarrow>
    's world \<Rightarrow> 'c \<Rightarrow> (tda_Status \<times> 'a option \<times> 's world) option" where
  "adapter_wrap cal cdrop sz mk w c = do {
     (r, w1) \<leftarrow> tda_alloc (cal c) w sz;
     (case r of
        None \<Rightarrow> do { w2 \<leftarrow> cdrop w1 (Some c); Some (TDA_STATUS_ERR_NO_MEM, None, w2) }
      | Some obj \<Rightarrow> Some (TDA_STATUS_OK, Some (mk obj c), w1))
   }"

definition adapter_inv ::
  "((ptr \<Rightarrow> bool) \<Rightarrow> 's world \<Rightarrow> 'c \<Rightarrow> bool) \<Rightarrow> ('c \<Rightarrow> ptr set) \<Rightarrow> nat \<Rightarrow> (ptr \<Rightarrow> bool) \<Rightarrow> 's world \<Rightarrow> ptr \<Rightarrow> 'c \<Rightarrow> bool"
where
  "adapter_inv cinv cblocks sz owned w self c \<longleftrightarrow>
     cinv owned w c \<and> owned self \<and> block_at w self sz \<and> self \<notin> cblocks c"

text \<open>A constructor lends a whole new object, or reports the failure and leaves no block behind.\<close>

definition made ::
  "((ptr \<Rightarrow> bool) \<Rightarrow> 's world \<Rightarrow> 'c \<Rightarrow> bool) \<Rightarrow> ('c \<Rightarrow> ptr set) \<Rightarrow> ('c \<Rightarrow> 's al) \<Rightarrow>
    (ptr \<Rightarrow> bool) \<Rightarrow> 's al \<Rightarrow> 's world \<Rightarrow> tda_Status \<Rightarrow> 'c option \<Rightarrow> 's world \<Rightarrow> bool" where
  "made cinv cblocks cal owned al w st r w' = (case r of
      None \<Rightarrow> st = TDA_STATUS_ERR_NO_MEM \<and> heap w' = heap w
    | Some c \<Rightarrow> st = TDA_STATUS_OK \<and> cinv owned w' c \<and> cal c = al
        \<and> (\<forall>q \<in> cblocks c. heap w q = None) \<and> (\<forall>q. q \<notin> cblocks c \<longrightarrow> heap w' q = heap w q))"

context container
begin

lemma adapter_wrap_spec:
  assumes A: "object_allocator al I owned" and w: "I w" and c: "cinv owned w c" "cal c = al" and sz: "sz \<le> SIZE_MAX"
  shows "\<exists>st r w'. adapter_wrap cal cdrop sz mk w c = Some (st, r, w') \<and> I w'
    \<and> (case r of None \<Rightarrow> st = TDA_STATUS_ERR_NO_MEM \<and> heap w' = (\<lambda>q. if q \<in> cblocks c then None else heap w q)
       | Some a \<Rightarrow> \<exists>obj bs. a = mk obj c \<and> st = TDA_STATUS_OK \<and> heap w obj = None \<and> heap w' = (heap w)(obj \<mapsto> bs)
           \<and> adapter_inv cinv cblocks sz owned w' obj c)"
proof -
  have al: "allocator al I owned" using A by (simp add: object_allocator_def)
  show ?thesis
  proof (rule allocator.alloc_cases [OF al w sz])
    fix w1 assume a: "tda_alloc al w sz = Some (None, w1)" "I w1" "heap w1 = heap w"
    have "cinv owned w1 c" using stable_law [OF c(1)] a(3) by simp
    from drop_law [OF A a(2) this c(2)] obtain w2 where "cdrop w1 (Some c) = Some w2" "I w2"
      "heap w2 = (\<lambda>q. if q \<in> cblocks c then None else heap w1 q)" by blast
    then show ?thesis using a(1,3) c(2) by (auto simp: adapter_wrap_def)
  next
    fix obj w1 bs assume a: "tda_alloc al w sz = Some (Some obj, w1)" "I w1" "owned obj" "heap w obj = None"
      "length bs = sz" "heap w1 = (heap w)(obj \<mapsto> bs)"
    have out: "obj \<notin> cblocks c" using live_law [OF c(1)] a(4) by blast
    then have "heap w1 q = heap w q" if "q \<in> cblocks c" for q using that a(6) by auto
    from stable_law [OF c(1) this] have "cinv owned w1 c" .
    then have "adapter_inv cinv cblocks sz owned w1 obj c" using out a by (simp add: adapter_inv_def block_at_def)
    then show ?thesis using a c(2) by (auto simp: adapter_wrap_def)
  qed
qed

text \<open>Wrapping a container that was just made: the adapter is made, or everything is as before.\<close>

lemma adapter_wrap_made:
  assumes A: "object_allocator al I owned" and w: "I w1" and c: "made cinv cblocks cal owned al w TDA_STATUS_OK (Some c) w1"
    and sz: "sz \<le> SIZE_MAX"
  shows "\<exists>st r w'. adapter_wrap cal cdrop sz mk w1 c = Some (st, r, w') \<and> I w'
    \<and> (case r of None \<Rightarrow> st = TDA_STATUS_ERR_NO_MEM \<and> heap w' = heap w
       | Some a \<Rightarrow> \<exists>obj. a = mk obj c \<and> st = TDA_STATUS_OK \<and> adapter_inv cinv cblocks sz owned w' obj c
           \<and> (\<forall>q \<in> insert obj (cblocks c). heap w q = None)
           \<and> (\<forall>q. q \<notin> insert obj (cblocks c) \<longrightarrow> heap w' q = heap w q)
           \<and> (\<forall>q \<in> cblocks c. heap w' q = heap w1 q))"
proof -
  have m: "cinv owned w1 c" "cal c = al" "\<forall>q \<in> cblocks c. heap w q = None" "\<forall>q. q \<notin> cblocks c \<longrightarrow> heap w1 q = heap w q"
    using c by (simp_all add: made_def)
  obtain st r w' where k: "adapter_wrap cal cdrop sz mk w1 c = Some (st, r, w')" "I w'"
    "case r of None \<Rightarrow> st = TDA_STATUS_ERR_NO_MEM \<and> heap w' = (\<lambda>q. if q \<in> cblocks c then None else heap w1 q)
     | Some a \<Rightarrow> \<exists>obj bs. a = mk obj c \<and> st = TDA_STATUS_OK \<and> heap w1 obj = None \<and> heap w' = (heap w1)(obj \<mapsto> bs)
         \<and> adapter_inv cinv cblocks sz owned w' obj c"
    using adapter_wrap_spec [OF A w m(1,2) sz] by blast
  show ?thesis
  proof (cases r)
    case None
    then show ?thesis using k m(3,4) by (auto simp: fun_eq_iff)
  next
    case (Some a)
    then obtain obj bs where o: "a = mk obj c" "st = TDA_STATUS_OK" "heap w1 obj = None" "heap w' = (heap w1)(obj \<mapsto> bs)"
      "adapter_inv cinv cblocks sz owned w' obj c" using k(3) by auto
    have out: "obj \<notin> cblocks c" using o(5) by (simp add: adapter_inv_def)
    then have "heap w obj = None" using o(3) m(4) by simp
    then show ?thesis using Some k(1,2) o m(3,4) out by (intro exI conjI) auto
  qed
qed

lemma adapter_drop_spec:
  assumes A: "object_allocator al I owned" and w: "I w" and a: "adapter_inv cinv cblocks sz owned w self c" "cal c = al"
  shows "\<exists>w'. Option.bind (cdrop w (Some c)) (\<lambda>w1. tda_dealloc al w1 (Some self) sz) = Some w' \<and> I w'
    \<and> heap w' = (\<lambda>q. if q \<in> insert self (cblocks c) then None else heap w q)"
proof -
  have al: "allocator al I owned" using A by (simp add: object_allocator_def)
  obtain w1 where w1: "cdrop w (Some c) = Some w1" "I w1" "heap w1 = (\<lambda>q. if q \<in> cblocks c then None else heap w q)"
    using drop_law [OF A w _ a(2)] a(1) by (auto simp: adapter_inv_def)
  obtain bs where "owned self" "heap w1 self = Some bs" "length bs = sz"
    using a(1) w1(3) by (auto simp: adapter_inv_def block_at_def)
  from allocator.dealloc_some [OF al w1(2) this] obtain w2 where
    "tda_dealloc al w1 (Some self) sz = Some w2" "I w2" "heap w2 = (heap w1)(self := None)" .
  then show ?thesis using w1(1,3) by (auto simp: fun_upd_def)
qed

lemma adapter_into_spec:
  assumes A: "object_allocator al I owned" and w: "I w" and a: "adapter_inv cinv cblocks sz owned w self c"
  shows "\<exists>w'. tda_dealloc al w (Some self) sz = Some w' \<and> I w' \<and> heap w' = (heap w)(self := None) \<and> cinv owned w' c"
proof -
  have al: "allocator al I owned" using A by (simp add: object_allocator_def)
  obtain bs where b: "owned self" "heap w self = Some bs" "length bs = sz" using a by (auto simp: adapter_inv_def block_at_def)
  from allocator.dealloc_some [OF al w b] obtain w' where
    "tda_dealloc al w (Some self) sz = Some w'" "I w'" "heap w' = (heap w)(self := None)" .
  moreover have "heap w' q = heap w q" if "q \<in> cblocks c" for q
    using that a \<open>heap w' = _\<close> by (auto simp: adapter_inv_def)
  from stable_law [OF _ this] have "cinv owned w' c" using a by (simp add: adapter_inv_def)
  ultimately show ?thesis by blast
qed

text \<open>An operation on the kept container leaves the struct around it as it is.\<close>

lemma adapter_inv_step:
  assumes "adapter_inv cinv cblocks sz owned w self c" "frame w (cblocks c) w' (cblocks c')" "cinv owned w' c'"
  shows "adapter_inv cinv cblocks sz owned w' self c'"
    and "frame w (insert self (cblocks c)) w' (insert self (cblocks c'))"
  using assms by (auto simp: adapter_inv_def frame_def block_at_def)

end

end
