(* ===== verification/Tda_Vec_Calls.thy ===== *)
theory Tda_Vec_Calls
  imports Tda_Vec_Compare Tda_Calls
begin

text \<open>
  The vec as an abstract sequence: \<open>vec_step\<close> runs one call of \<open>src/ds/vec.c\<close> on the model,
  \<open>vseq_step\<close> on the list of elements. The contract \<open>refined_calls\<close> holds of them over every
  allocator, and the vec is a \<open>container\<close> an adapter can keep.
\<close>

datatype vec_op = Push "byte list" | Pop | Insert nat "byte list" | Remove nat | RemoveRange nat nat
  | Clear | Reserve nat | ShrinkToFit | Resize nat

definition vec_step :: "vec_op \<Rightarrow> 's world \<Rightarrow> 's vec \<Rightarrow> (tda_Status \<times> 's world \<times> 's vec) option" where
  "vec_step op w v = (case op of
      Push x \<Rightarrow> tda_vec_push w v x
    | Pop \<Rightarrow> do { v1 \<leftarrow> tda_vec_pop v; Some (TDA_STATUS_OK, w, v1) }
    | Insert i x \<Rightarrow> tda_vec_insert w v i x
    | Remove i \<Rightarrow> do { (w1, v1) \<leftarrow> tda_vec_remove w v i; Some (TDA_STATUS_OK, w1, v1) }
    | RemoveRange i n \<Rightarrow> do { (w1, v1) \<leftarrow> tda_vec_remove_range w v i n; Some (TDA_STATUS_OK, w1, v1) }
    | Clear \<Rightarrow> do { v1 \<leftarrow> tda_vec_clear v; Some (TDA_STATUS_OK, w, v1) }
    | Reserve n \<Rightarrow> tda_vec_reserve w v n
    | ShrinkToFit \<Rightarrow> tda_vec_shrink_to_fit w v
    | Resize n \<Rightarrow> tda_vec_resize w v n)"

text \<open>What the header asks of a call, and what it does to a sequence of elements of \<open>es\<close> bytes.\<close>

definition vseq_allowed :: "vec_op \<Rightarrow> seq \<Rightarrow> bool" where
  "vseq_allowed op s = (case s of (es, xs) \<Rightarrow> (case op of
      Push x \<Rightarrow> length x = es
    | Pop \<Rightarrow> xs \<noteq> []
    | Insert i x \<Rightarrow> length x = es \<and> i \<le> length xs
    | Remove i \<Rightarrow> i < length xs
    | RemoveRange i n \<Rightarrow> i + n \<le> length xs
    | _ \<Rightarrow> True))"

definition vseq_step :: "vec_op \<Rightarrow> seq \<Rightarrow> seq \<Rightarrow> bool" where
  "vseq_step op s s' = (case s of (es, xs) \<Rightarrow> s' = (es, (case op of
      Push x \<Rightarrow> xs @ [x]
    | Pop \<Rightarrow> butlast xs
    | Insert i x \<Rightarrow> take i xs @ x # drop i xs
    | Remove i \<Rightarrow> take i xs @ drop (i + 1) xs
    | RemoveRange i n \<Rightarrow> take i xs @ drop (i + n) xs
    | Clear \<Rightarrow> []
    | Resize n \<Rightarrow> take n xs @ replicate (n - length xs) (replicate es 0)
    | _ \<Rightarrow> xs)))"

definition vec_abs :: "'s world \<Rightarrow> 's vec \<Rightarrow> seq" where
  "vec_abs w v = (vec_elem_size v, vec_list w v)"

definition vec_ok :: "'s al \<Rightarrow> ('s world \<Rightarrow> bool) \<Rightarrow> (ptr \<Rightarrow> bool) \<Rightarrow> 's world \<Rightarrow> 's vec \<Rightarrow> bool" where
  "vec_ok al I owned w v \<longleftrightarrow> I w \<and> vec_inv owned w v \<and> vec_al v = al"

definition vec_simulates :: "(ptr \<Rightarrow> bool) \<Rightarrow> 's world \<Rightarrow> 's vec \<Rightarrow> tda_Status \<Rightarrow> 's world \<Rightarrow> 's vec \<Rightarrow> byte list list \<Rightarrow> bool" where
  "vec_simulates owned w v st w' v' xs \<longleftrightarrow> vec_inv owned w' v' \<and> vec_frame w v w' v'
     \<and> vec_list w' v' = (if st = TDA_STATUS_OK then xs else vec_list w v)"

lemma vec_outcome_simulates:
  "vec_inv owned w v \<Longrightarrow> vec_outcome owned w v st w' v' xs \<Longrightarrow> vec_simulates owned w v st w' v' xs"
  by (auto simp: vec_outcome_def vec_updated_def vec_simulates_def vec_frame_refl vec_inv_cong [of w' w]
      vec_list_cong [of w' w] split: if_splits)

lemma vec_updated_simulates:
  "vec_updated owned w v w' v' xs \<Longrightarrow> vec_simulates owned w v TDA_STATUS_OK w' v' xs"
  by (simp add: vec_updated_def vec_simulates_def)

lemma vec_reserved_simulates:
  "vec_inv owned w v \<Longrightarrow> vec_reserved owned w v n st w' v' \<Longrightarrow> vec_simulates owned w v st w' v' (vec_list w v)"
  by (auto simp: vec_reserved_def vec_kept_def vec_simulates_def vec_frame_refl vec_inv_cong [of w' w]
      vec_list_cong [of w' w] split: if_splits)

lemma vec_cut_simulates:
  assumes "vec_inv owned w v" "n \<le> vec_len v"
  shows "vec_simulates owned w v TDA_STATUS_OK w (v\<lparr>vec_len := n\<rparr>) (take n (vec_list w v))"
proof -
  have "vec_inv owned w (v\<lparr>vec_len := n\<rparr>)"
    using assms vec_inv_len_le [OF assms(1)] by (intro vec_inv_len) auto
  then show ?thesis
    using assms(2) by (simp add: vec_simulates_def vec_frame_len vec_frame_refl vec_list_def min_absorb1)
qed

context allocator
begin

lemma vec_step_refines:
  assumes k: "vec_ok al inv owned w v" and ok: "vseq_allowed op (vec_abs w v)"
  shows "\<exists>st w' v'. vec_step op w v = Some (st, w', v') \<and> vec_ok al inv owned w' v' \<and> vec_frame w v w' v'
    \<and> call_refines vseq_step op st (vec_abs w v) (vec_abs w' v')"
proof -
  have w: "inv w" and v: "vec_inv owned w v" "vec_al v = al" using k by (simp_all add: vec_ok_def)
  note len = length_vec_list [OF v(1)]
  note sim = vec_outcome_simulates [OF v(1)] vec_updated_simulates vec_reserved_simulates [OF v(1)]
  have fin: ?thesis if "vec_step op w v = Some (st, w', v')" "inv w'" "vec_simulates owned w v st w' v' xs"
    "vseq_step op (vec_abs w v) (vec_elem_size v, xs)" for st w' v' xs
    using that v(2) by (auto simp: vec_simulates_def vec_ok_def call_refines_def vec_abs_def vec_frame_def)
  note [simp] = vec_step_def vseq_allowed_def vseq_step_def vec_abs_def len
  show ?thesis
  proof (cases op)
    case (Push x)
    then have "length x = vec_elem_size v" using ok by simp
    from vec_push_spec [OF w v this] show ?thesis using fin sim(1) Push by fastforce
  next
    case Pop
    then have ne: "0 < vec_len v" using ok by (simp flip: len)
    then have "tda_vec_pop v = Some (v\<lparr>vec_len := vec_len v - 1\<rparr>)"
      by (simp add: tda_vec_pop_def assert_vec_ok [OF v(1)])
    then show ?thesis
      using fin [OF _ w vec_cut_simulates [OF v(1), of "vec_len v - 1"]] Pop by (simp add: butlast_conv_take)
  next
    case (Insert i x)
    then have "length x = vec_elem_size v" "i \<le> vec_len v" using ok by simp_all
    from vec_insert_spec [OF w v this] show ?thesis using fin sim(1) Insert by fastforce
  next
    case (Remove i)
    then have "i < vec_len v" using ok by simp
    from vec_remove_spec [OF w v(1) this] show ?thesis using fin sim(2) Remove by fastforce
  next
    case (RemoveRange i n)
    then have "i + n \<le> vec_len v" using ok by simp
    from vec_remove_range_spec [OF w v(1) this] show ?thesis using fin sim(2) RemoveRange by fastforce
  next
    case Clear
    then show ?thesis using fin [OF _ w vec_cut_simulates [OF v(1), of 0]]
      by (simp add: tda_vec_clear_def assert_vec_ok [OF v(1)])
  next
    case (Reserve n)
    from vec_reserve_spec [OF w v, of n] show ?thesis using fin sim(3) Reserve by fastforce
  next
    case ShrinkToFit
    from vec_shrink_spec [OF w v] show ?thesis using fin sim(1) ShrinkToFit by fastforce
  next
    case (Resize n)
    from vec_resize_spec [OF w v, of n] show ?thesis using fin sim(1) Resize by fastforce
  qed
qed

end

sublocale allocator \<subseteq> vec_calls: refined_calls vec_step "vec_ok al inv owned" vec_frame vec_abs vseq_allowed vseq_step
  by unfold_locales (blast intro: vec_frame_refl vec_frame_trans vec_step_refines)+

context allocator
begin

lemmas vec_run_refines = vec_calls.run_refines

end

lemma vec_frame_frame: "vec_frame w v w' v' \<longleftrightarrow> vec_self v' = vec_self v \<and> vec_elem_size v' = vec_elem_size v
    \<and> vec_al v' = vec_al v \<and> frame w (vec_blocks v) w' (vec_blocks v')"
  by (simp add: vec_frame_def frame_def)

lemma vec_live: "vec_inv owned w v \<Longrightarrow> q \<in> vec_blocks v \<Longrightarrow> heap w q \<noteq> None"
  by (auto simp: vec_inv_def block_at_def vec_blocks_def split: option.splits)

interpretation vec_box: container vec_inv vec_blocks vec_al tda_vec_drop
  by unfold_locales (auto intro: vec_stable allocator.vec_drop_spec object_allocator.axioms(1) dest: vec_live)

lemma vec_created_made: "vec_created = made vec_inv vec_blocks vec_al"
  by (simp add: fun_eq_iff vec_created_def made_def split: option.splits)

lemma vec_al_ok: "vec_inv owned w v \<Longrightarrow> tda_vec_al v = Some (vec_al v)"
  by (simp add: tda_vec_al_def assert_vec_ok)

end
