(* ===== verification/Tda_Vec_Properties.thy ===== *)
theory Tda_Vec_Properties
  imports Tda_Vec_Calls Tda_Arena Tda_Default
begin

text \<open>
  The properties of \<open>vec.c\<close>: a run of calls is a run on the abstract sequence, bulk
  insertion, copies, moves between allocators, birth and death, equality.
\<close>

section \<open>Properties\<close>

text \<open>Worlds and vecs for the instances.\<close>

definition demo_world :: "nat world" where
  "demo_world = empty_world\<lparr>heap := [Base 64 \<mapsto> replicate 40 0, Base 112 \<mapsto> [1, 2, 3, 4],
     Base 128 \<mapsto> [7, 8, 9, 10]]\<rparr>"

definition demo_vec :: "nat vec" where
  "demo_vec = \<lparr>vec_self = Base 64, vec_data = Some (Base 112), vec_len = 1, vec_cap = 2, vec_elem_size = 2, vec_al = c_heap\<rparr>"

lemma demo_ok: "bump_ok demo_world" "vec_inv libc_owned demo_world demo_vec" "vec_al demo_vec = c_heap"
  "vec_list demo_world demo_vec = [[1, 2]]" "vec_elem_size demo_vec = 2" "vec_len demo_vec = 1"
  by (simp_all add: bump_ok_def demo_world_def empty_world_def PTRDIFF_MAX_num SIZE_MAX_num vec_inv_def demo_vec_def libc_owned_def
      block_at_def sizeof_tda_Vec_def vec_list_def vec_cells_def elems.simps)

text \<open>C1: a run of calls on a vec, over any allocator and however many of its requests are
  refused, never aborts, keeps the vec well formed and leaves foreign blocks alone, and the
  elements are those of the abstract sequence after the calls that reported success.\<close>

theorem vec_refines_sequence:
  assumes A: "allocator al I owned" and w: "I w" and v: "vec_inv owned w v" "vec_al v = al"
    and ok: "calls_allowed vseq_allowed vseq_step ops (vec_abs w v)"
  shows "\<exists>sts w' v'. calls_run vec_step ops w v = Some (sts, w', v') \<and> I w' \<and> vec_inv owned w' v' \<and> vec_frame w v w' v'
    \<and> abstract_run vseq_step ops sts (vec_abs w v) (vec_abs w' v')"
  using allocator.vec_run_refines [OF A, of w v ops] w v ok
  by (simp add: vec_ok_def) blast

theorem vec_refines_sequence_witness:
  "\<exists>sts w' v'. calls_run vec_step [Push [3, 4], Insert 0 [5, 6], Remove 0] demo_world demo_vec = Some (sts, w', v')
     \<and> abstract_run vseq_step [Push [3, 4], Insert 0 [5, 6], Remove 0] sts (2, [[1, 2]]) (vec_abs w' v')"
  using vec_refines_sequence [OF bump.allocator_axioms demo_ok(1-3), of "[Push [3, 4], Insert 0 [5, 6], Remove 0]"]
  by (simp add: demo_ok vec_abs_def vseq_allowed_def vseq_step_def) blast

text \<open>\<open>insert_span\<close> opens a gap at any position and fills it with the elements another span
  shows, growing when it must; refused room leaves memory and vec as they were.\<close>

lemma vec_insert_span_inserts:
  assumes A: "allocator al I owned" and w: "I w" and v: "vec_inv owned w v" "vec_al v = al"
    and src: "span_ok w src" "sp_elem_size src = vec_elem_size v" "\<forall>q off. sp_data src = Some (q, off) \<longrightarrow> q \<notin> vec_blocks v"
    and idx: "idx \<le> vec_len v"
  shows "\<exists>st w' v'. tda_vec_insert_span w v idx src = Some (st, w', v') \<and> I w'
    \<and> (if st = TDA_STATUS_OK then vec_inv owned w' v' \<and> vec_frame w v w' v'
         \<and> vec_list w' v' = take idx (vec_list w v) @ span_elems w src @ drop idx (vec_list w v)
       else v' = v \<and> heap w' = heap w)"
proof -
  have "sp_data src = Some (q, off) \<Longrightarrow> q \<notin> vec_blocks v" for q off using src(3) by blast
  from allocator.vec_insert_span_spec [OF A w v src(1,2) this idx] show ?thesis
    unfolding vec_outcome_def vec_updated_def by simp
qed

text \<open>a copy made with any allocator has the elements of the original in blocks of its own;
  the original is as it was, and a failed copy leaves no block behind.\<close>

lemma vec_copy_is_independent:
  assumes A: "allocator al I owned" and w: "I w" and v: "vec_inv owned' w v"
  shows "\<exists>st r w'. tda_vec_copy_with v al w = Some (st, r, w') \<and> I w' \<and> vec_inv owned' w' v \<and> vec_list w' v = vec_list w v
    \<and> (case r of None \<Rightarrow> st = TDA_STATUS_ERR_NO_MEM \<and> heap w' = heap w
       | Some c \<Rightarrow> st = TDA_STATUS_OK \<and> vec_inv owned w' c \<and> vec_list w' c = vec_list w v
           \<and> vec_al c = al \<and> vec_blocks c \<inter> vec_blocks v = {})"
proof -
  obtain st r w' where c: "tda_vec_copy_with v al w = Some (st, r, w')" "I w'" "vec_created owned al w st r w'"
    "\<And>x. r = Some x \<Longrightarrow> vec_list w' x = vec_list w v"
    using allocator.vec_copy_with_spec [OF A w v] by blast
  have live: "heap w q \<noteq> None" if "q \<in> vec_blocks v" for q
    using that v by (auto simp: vec_blocks_def vec_inv_def block_at_def split: option.splits)
  have same: "heap w' q = heap w q" if q: "q \<in> vec_blocks v" for q
  proof (cases r)
    case None
    then show ?thesis using c(3) by (simp add: vec_created_def)
  next
    case (Some x)
    then have "q \<notin> vec_blocks x" using c(3) live [OF q] by (auto simp: vec_created_def)
    then show ?thesis using c(3) Some by (simp add: vec_created_def)
  qed
  note k = vec_stable [OF v same]
  show ?thesis
  proof (cases r)
    case None
    then show ?thesis using c k by (simp add: vec_created_def)
  next
    case (Some x)
    then have "heap w q = None" if "q \<in> vec_blocks x" for q using c(3) that by (simp add: vec_created_def)
    then have "vec_blocks x \<inter> vec_blocks v = {}" using live by blast
    then show ?thesis using Some c k by (auto simp: vec_created_def)
  qed
qed

text \<open>A move assignment between vecs of different allocators carries the elements over and
  empties the source, or fails and changes neither; blocks are never shared.\<close>

lemma vec_move_between_allocators:
  assumes A: "allocator al I owned" and B: "allocator al' I owned'" and ids: "al_self al \<noteq> al_self al'"
    and w: "I w" and self: "vec_inv owned' w self" "vec_al self = al'"
    and other: "vec_inv owned w other" "vec_al other = al"
    and es: "vec_elem_size self = vec_elem_size other" and apart: "vec_blocks self \<inter> vec_blocks other = {}"
  shows "\<exists>st w' self' other'. tda_vec_move_assign w self other = Some (st, w', self', other') \<and> I w'
    \<and> (if st = TDA_STATUS_OK then vec_inv owned' w' self' \<and> vec_inv owned w' other'
          \<and> vec_list w' other' = vec_list w self \<and> vec_list w' self' = []
       else self' = self \<and> other' = other \<and> heap w' = heap w)"
  by (rule vec_move_assign_cross [OF A B ids w self other es apart])

text \<open>A vec made with a length holds that many zeroed elements, and dropping it gives back
  every block: the heap is as it was before. A refused constructor leaves nothing behind.\<close>

lemma vec_new_drop_round_trip:
  assumes A: "allocator al I owned" and w: "I w" and es: "0 < es"
  shows "\<exists>st r w'. tda_vec_new_len len es al w = Some (st, r, w')
    \<and> (case r of None \<Rightarrow> st = TDA_STATUS_ERR_NO_MEM \<and> heap w' = heap w
       | Some v \<Rightarrow> st = TDA_STATUS_OK \<and> vec_list w' v = replicate len (replicate es 0)
           \<and> (\<exists>w''. tda_vec_drop w' (Some v) = Some w'' \<and> I w'' \<and> heap w'' = heap w))"
proof -
  from allocator.vec_new_impl_spec [OF A w es le_refl, of True len] obtain st r w' where
    c: "tda_vec_new_len len es al w = Some (st, r, w')" "I w'" "vec_created owned al w st r w'"
      "\<And>v. r = Some v \<Longrightarrow> vec_list w' v = replicate len (replicate es 0)"
    using es by (auto simp: tda_vec_new_len_def)
  show ?thesis
  proof (cases r)
    case None
    then show ?thesis using c by (simp add: vec_created_def)
  next
    case (Some v)
    then have v: "vec_inv owned w' v" "vec_al v = al" "\<And>q. q \<in> vec_blocks v \<Longrightarrow> heap w q = None"
      "\<And>q. q \<notin> vec_blocks v \<Longrightarrow> heap w' q = heap w q" "st = TDA_STATUS_OK"
      using c(3) by (auto simp: vec_created_def)
    obtain w'' where d: "tda_vec_drop w' (Some v) = Some w''" "I w''"
      "heap w'' = (\<lambda>q. if q \<in> vec_blocks v then None else heap w' q)"
      using allocator.vec_drop_spec [OF A c(2) v(1,2)] by blast
    have "heap w'' = heap w" using d(3) v(3,4) by (auto simp: fun_eq_iff)
    then show ?thesis using Some c(1) c(4) [OF Some] d(1,2) v(5) by simp
  qed
qed

text \<open>two vectors are equal exactly when they stand for the same sequence of elements,
  whatever their blocks and capacities; with an equality of the elements, when these agree.\<close>

theorem vec_equality_is_on_sequences:
  assumes "vec_inv owned w v" "vec_inv owned2 w u" "vec_elem_size v = vec_elem_size u" "\<And>x. eq x x"
  shows "tda_vec_eq w v u = Some (vec_list w v = vec_list w u)
    \<and> tda_vec_eq_by w v u eq = Some (list_all2 eq (vec_list w v) (vec_list w u))"
  using vec_eq_spec [OF assms(1-3)] vec_eq_by_spec [OF assms(1-3), of eq] assms(4) by blast

end
