(* ===== verification/Tda_Deque.thy ===== *)
theory Tda_Deque
  imports Tda_Buffer
begin

text \<open>
  \<open>src/ds/deque.c\<close>: the double-ended queue, a ring in one block. \<open>deque\<close> is
  \<open>struct tda_Deque\<close> with its own address \<open>deque_self\<close>; the element at \<open>idx\<close> is in the slot
  \<open>deque_slot_of\<close> computes, so the sequence a deque stands for, \<open>deque_list\<close>, is the first
  \<open>deque_len\<close> cells of the block rotated to \<open>deque_head\<close>. Operations thread the memory as
  those of the vec do. \<open>deque_inv\<close> is the well-formedness every operation keeps; it includes
  the bound on an object's size that makes \<open>head + idx\<close> exact.
\<close>

section \<open>The struct and its checks\<close>

record 's deque =
  deque_self :: ptr
  deque_data :: "ptr option"
  deque_len :: nat
  deque_cap :: nat
  deque_head :: nat
  deque_elem_size :: nat
  deque_al :: "'s al"

definition sizeof_tda_Deque :: nat where
  "sizeof_tda_Deque = 48"

definition DEQUE_GROWTH_BASE :: nat where
  "DEQUE_GROWTH_BASE = 1"

definition DEQUE_GROWTH_FACTOR :: nat where
  "DEQUE_GROWTH_FACTOR = 2"

definition ASSERT_DEQUE :: "'s deque \<Rightarrow> unit option" where
  "ASSERT_DEQUE d = do {
     c_assert (deque_elem_size d > 0);
     c_assert (deque_len d \<le> deque_cap d);
     c_assert (deque_cap d = 0 \<or> deque_data d \<noteq> None);
     c_assert (deque_data d = None \<or> deque_cap d > 0);
     c_assert (deque_cap d = 0 \<or> deque_head d < deque_cap d);
     c_assert (deque_cap d > 0 \<or> deque_head d = 0)
   }"

section \<open>Internals\<close>

definition deque_len_bytes :: "'s deque \<Rightarrow> nat" where
  "deque_len_bytes d = size_mul (deque_len d) (deque_elem_size d)"

definition deque_cap_bytes :: "'s deque \<Rightarrow> nat" where
  "deque_cap_bytes d = size_mul (deque_cap d) (deque_elem_size d)"

definition deque_slot_of :: "'s deque \<Rightarrow> nat \<Rightarrow> nat option" where
  "deque_slot_of d idx = do {
     c_assert (deque_cap d > 0);
     c_assert (idx < deque_cap d);
     let raw = size_add (deque_head d) idx;
     Some (if raw < deque_cap d then raw else raw - deque_cap d)
   }"

definition deque_slot_at :: "'s deque \<Rightarrow> nat \<Rightarrow> (ptr \<times> nat) option" where
  "deque_slot_at d slot = do {
     off \<leftarrow> tda_byte_offset (deque_data d \<noteq> None) (deque_elem_size d) slot;
     p \<leftarrow> deque_data d;
     Some (p, off)
   }"

definition deque_elem_at :: "'s deque \<Rightarrow> nat \<Rightarrow> (ptr \<times> nat) option" where
  "deque_elem_at d idx = do { slot \<leftarrow> deque_slot_of d idx; deque_slot_at d slot }"

definition deque_first_run :: "'s deque \<Rightarrow> nat" where
  "deque_first_run d = (let to_end = deque_cap d - deque_head d in
     if to_end < deque_len d then to_end else deque_len d)"

text \<open>Every element in ring order into the bytes at \<open>dst\<close>, and back: at most two \<open>memcpy\<close>.\<close>

definition deque_copy_out :: "'s world \<Rightarrow> 's deque \<Rightarrow> (ptr \<times> nat) option \<Rightarrow> 's world option" where
  "deque_copy_out w d dst =
     (if deque_len d = 0 then Some w
      else do {
        let run = deque_first_run d;
        (q, off) \<leftarrow> dst;
        (p, src) \<leftarrow> deque_slot_at d (deque_head d);
        bs \<leftarrow> mem_read w p src (size_mul run (deque_elem_size d));
        w1 \<leftarrow> mem_write w q off bs;
        if run < deque_len d then do {
          add \<leftarrow> tda_byte_offset True (deque_elem_size d) run;
          (p0, src0) \<leftarrow> deque_slot_at d 0;
          bs0 \<leftarrow> mem_read w1 p0 src0 (size_mul (deque_len d - run) (deque_elem_size d));
          mem_write w1 q (off + add) bs0
        }
        else Some w1
      })"

definition deque_copy_in :: "'s world \<Rightarrow> 's deque \<Rightarrow> (ptr \<times> nat) option \<Rightarrow> 's world option" where
  "deque_copy_in w d src =
     (if deque_len d = 0 then Some w
      else do {
        let run = deque_first_run d;
        (q, off) \<leftarrow> src;
        (p, dst) \<leftarrow> deque_slot_at d (deque_head d);
        bs \<leftarrow> mem_read w q off (size_mul run (deque_elem_size d));
        w1 \<leftarrow> mem_write w p dst bs;
        if run < deque_len d then do {
          (p0, dst0) \<leftarrow> deque_slot_at d 0;
          add \<leftarrow> tda_byte_offset True (deque_elem_size d) run;
          bs0 \<leftarrow> mem_read w1 q (off + add) (size_mul (deque_len d - run) (deque_elem_size d));
          mem_write w1 p0 dst0 bs0
        }
        else Some w1
      })"

definition deque_move_elem :: "'s deque \<Rightarrow> nat \<Rightarrow> nat \<Rightarrow> 's world \<Rightarrow> 's world option" where
  "deque_move_elem d to from w = do {
     (p, dst) \<leftarrow> deque_elem_at d to;
     (q, src) \<leftarrow> deque_elem_at d from;
     bs \<leftarrow> mem_read w q src (deque_elem_size d);
     mem_write w p dst bs
   }"

definition deque_set_fields :: "ptr \<Rightarrow> ptr option \<Rightarrow> nat \<Rightarrow> nat \<Rightarrow> nat \<Rightarrow> 's al \<Rightarrow> 's deque" where
  "deque_set_fields obj data len cap elem_size al =
     \<lparr>deque_self = obj, deque_data = data, deque_len = len, deque_cap = cap, deque_head = 0,
      deque_elem_size = elem_size, deque_al = al\<rparr>"

definition deque_new_fail :: "'s al \<Rightarrow> 's world \<Rightarrow> ptr \<Rightarrow> (tda_Status \<times> 's deque option \<times> 's world) option" where
  "deque_new_fail al w obj = do {
     w1 \<leftarrow> tda_dealloc al w (Some obj) sizeof_tda_Deque;
     Some (TDA_STATUS_ERR_NO_MEM, None, w1)
   }"

definition deque_new_impl ::
  "bool \<Rightarrow> nat \<Rightarrow> nat \<Rightarrow> nat \<Rightarrow> 's al \<Rightarrow> 's world \<Rightarrow> (tda_Status \<times> 's deque option \<times> 's world) option" where
  "deque_new_impl zeroed len cap elem_size al w = do {
     c_assert (len \<le> cap);
     c_assert (elem_size > 0);
     (r, w1) \<leftarrow> tda_alloc al w sizeof_tda_Deque;
     (case r of
        None \<Rightarrow> Some (TDA_STATUS_ERR_NO_MEM, None, w1)
      | Some obj \<Rightarrow>
          if cap > 0 then
            (case ckd_mul cap elem_size of
               None \<Rightarrow> deque_new_fail al w1 obj
             | Some bytes \<Rightarrow> do {
                 (d, w2) \<leftarrow> tda_alloc al w1 bytes;
                 (case d of
                    None \<Rightarrow> deque_new_fail al w2 obj
                  | Some data \<Rightarrow> do {
                      w3 \<leftarrow> (if zeroed then mem_set w2 data 0 0 (size_mul len elem_size) else Some w2);
                      let dq = deque_set_fields obj (Some data) len cap elem_size al;
                      ASSERT_DEQUE dq;
                      Some (TDA_STATUS_OK, Some dq, w3)
                    })
               })
          else do {
            let dq = deque_set_fields obj None len cap elem_size al;
            ASSERT_DEQUE dq;
            Some (TDA_STATUS_OK, Some dq, w1)
          })
   }"

definition deque_release_data :: "'s world \<Rightarrow> 's deque \<Rightarrow> ('s world \<times> 's deque) option" where
  "deque_release_data w d = do {
     w1 \<leftarrow> tda_dealloc (deque_al d) w (deque_data d) (deque_cap_bytes d);
     Some (w1, d\<lparr>deque_data := None, deque_len := 0, deque_cap := 0, deque_head := 0\<rparr>)
   }"

definition deque_next_cap :: "'s deque \<Rightarrow> nat" where
  "deque_next_cap d =
     (if deque_cap d = 0 then DEQUE_GROWTH_BASE
      else case ckd_mul (deque_cap d) DEQUE_GROWTH_FACTOR of
        None \<Rightarrow> SIZE_MAX
      | Some grown \<Rightarrow> grown)"

text \<open>The contents are unrolled into a fresh block, so the ring starts at slot 0 again.\<close>

definition tda_deque_reserve :: "'s world \<Rightarrow> 's deque \<Rightarrow> nat \<Rightarrow> (tda_Status \<times> 's world \<times> 's deque) option" where
  "tda_deque_reserve w d new_cap = do {
     ASSERT_DEQUE d;
     if new_cap \<le> deque_cap d then Some (TDA_STATUS_OK, w, d)
     else case ckd_mul new_cap (deque_elem_size d) of
       None \<Rightarrow> Some (TDA_STATUS_ERR_NO_MEM, w, d)
     | Some new_bytes \<Rightarrow> do {
         (r, w1) \<leftarrow> tda_alloc (deque_al d) w new_bytes;
         (case r of
            None \<Rightarrow> Some (TDA_STATUS_ERR_NO_MEM, w1, d)
          | Some data \<Rightarrow> do {
              w2 \<leftarrow> deque_copy_out w1 d (Some (data, 0));
              w3 \<leftarrow> tda_dealloc (deque_al d) w2 (deque_data d) (deque_cap_bytes d);
              let d1 = d\<lparr>deque_data := Some data, deque_cap := new_cap, deque_head := 0\<rparr>;
              ASSERT_DEQUE d1;
              Some (TDA_STATUS_OK, w3, d1)
            })
       }
   }"

definition deque_grow :: "'s world \<Rightarrow> 's deque \<Rightarrow> (tda_Status \<times> 's world \<times> 's deque) option" where
  "deque_grow w d = do {
     c_assert (deque_len d = deque_cap d);
     if deque_cap d = SIZE_MAX then Some (TDA_STATUS_ERR_NO_MEM, w, d)
     else do {
       let wanted = deque_next_cap d;
       (st, w1, d1) \<leftarrow> tda_deque_reserve w d wanted;
       if TDA_STATUS_IS_OK st \<or> wanted \<le> deque_cap d1 + 1 then Some (st, w1, d1)
       else tda_deque_reserve w1 d1 (deque_cap d1 + 1)
     }
   }"

definition deque_reserve_one :: "'s world \<Rightarrow> 's deque \<Rightarrow> (tda_Status \<times> 's world \<times> 's deque) option" where
  "deque_reserve_one w d =
     (if deque_len d = deque_cap d then deque_grow w d else Some (TDA_STATUS_OK, w, d))"

definition deque_reserve_for :: "'s world \<Rightarrow> 's deque \<Rightarrow> nat \<Rightarrow> (tda_Status \<times> 's world \<times> 's deque) option" where
  "deque_reserve_for w d new_len = do {
     c_assert (new_len > deque_cap d);
     let eager = deque_next_cap d;
     if eager > new_len then do {
       (st, w1, d1) \<leftarrow> tda_deque_reserve w d eager;
       if TDA_STATUS_IS_OK st then Some (st, w1, d1) else tda_deque_reserve w1 d1 new_len
     }
     else tda_deque_reserve w d new_len
   }"

section \<open>Lifetime\<close>

definition tda_deque_new :: "nat \<Rightarrow> 's al \<Rightarrow> 's world \<Rightarrow> (tda_Status \<times> 's deque option \<times> 's world) option" where
  "tda_deque_new elem_size al w = do {
     c_assert (elem_size > 0);
     deque_new_impl False 0 0 elem_size al w
   }"

definition tda_deque_new_len ::
  "nat \<Rightarrow> nat \<Rightarrow> 's al \<Rightarrow> 's world \<Rightarrow> (tda_Status \<times> 's deque option \<times> 's world) option" where
  "tda_deque_new_len len elem_size al w = do {
     c_assert (elem_size > 0);
     deque_new_impl True len len elem_size al w
   }"

definition tda_deque_new_cap ::
  "nat \<Rightarrow> nat \<Rightarrow> 's al \<Rightarrow> 's world \<Rightarrow> (tda_Status \<times> 's deque option \<times> 's world) option" where
  "tda_deque_new_cap cap elem_size al w = do {
     c_assert (elem_size > 0);
     deque_new_impl False 0 cap elem_size al w
   }"

definition tda_deque_from_data ::
  "(ptr \<times> nat) option \<Rightarrow> nat \<Rightarrow> nat \<Rightarrow> 's al \<Rightarrow> 's world \<Rightarrow> (tda_Status \<times> 's deque option \<times> 's world) option"
where
  "tda_deque_from_data data len elem_size al w = do {
     c_assert (data \<noteq> None \<or> len = 0);
     c_assert (elem_size > 0);
     (st, r, w1) \<leftarrow> deque_new_impl False len len elem_size al w;
     (case r of
        None \<Rightarrow> Some (st, None, w1)
      | Some d \<Rightarrow>
          if len > 0 then do {
            (q, off) \<leftarrow> data;
            bs \<leftarrow> mem_read w1 q off (deque_len_bytes d);
            p \<leftarrow> deque_data d;
            w2 \<leftarrow> mem_write w1 p 0 bs;
            Some (TDA_STATUS_OK, Some d, w2)
          }
          else Some (TDA_STATUS_OK, Some d, w1))
   }"

definition tda_deque_from_span ::
  "tda_Span \<Rightarrow> 's al \<Rightarrow> 's world \<Rightarrow> (tda_Status \<times> 's deque option \<times> 's world) option" where
  "tda_deque_from_span s al w = do {
     TDA_SPAN_ASSERT s;
     tda_deque_from_data (sp_data s) (sp_len s) (sp_elem_size s) al w
   }"

definition tda_deque_drop :: "'s world \<Rightarrow> 's deque option \<Rightarrow> 's world option" where
  "tda_deque_drop w self = (case self of
      None \<Rightarrow> Some w
    | Some d \<Rightarrow> do {
        ASSERT_DEQUE d;
        w1 \<leftarrow> tda_dealloc (deque_al d) w (deque_data d) (deque_cap_bytes d);
        tda_dealloc (deque_al d) w1 (Some (deque_self d)) sizeof_tda_Deque
      })"

section \<open>Copies and moves\<close>

definition tda_deque_copy_with ::
  "'s deque \<Rightarrow> 's al \<Rightarrow> 's world \<Rightarrow> (tda_Status \<times> 's deque option \<times> 's world) option" where
  "tda_deque_copy_with self al w = do {
     ASSERT_DEQUE self;
     (st, r, w1) \<leftarrow> deque_new_impl False (deque_len self) (deque_len self) (deque_elem_size self) al w;
     (case r of
        None \<Rightarrow> Some (st, None, w1)
      | Some copy \<Rightarrow> do {
          w2 \<leftarrow> deque_copy_out w1 self (map_option (\<lambda>p. (p, 0)) (deque_data copy));
          Some (TDA_STATUS_OK, Some copy, w2)
        })
   }"

definition tda_deque_copy :: "'s deque \<Rightarrow> 's world \<Rightarrow> (tda_Status \<times> 's deque option \<times> 's world) option" where
  "tda_deque_copy self w = do { ASSERT_DEQUE self; tda_deque_copy_with self (deque_al self) w }"

definition tda_deque_copy_assign ::
  "'s world \<Rightarrow> 's deque \<Rightarrow> 's deque \<Rightarrow> (tda_Status \<times> 's world \<times> 's deque) option" where
  "tda_deque_copy_assign w self other = do {
     ASSERT_DEQUE self;
     ASSERT_DEQUE other;
     c_assert (deque_elem_size self = deque_elem_size other);
     if deque_self self = deque_self other then Some (TDA_STATUS_OK, w, other)
     else do {
       (st, w1, o1) \<leftarrow> tda_deque_reserve w other (deque_len self);
       if TDA_STATUS_IS_ERR st then Some (st, w1, o1)
       else do {
         let o2 = o1\<lparr>deque_head := 0, deque_len := deque_len self\<rparr>;
         w2 \<leftarrow> deque_copy_out w1 self (map_option (\<lambda>p. (p, 0)) (deque_data o2));
         ASSERT_DEQUE o2;
         Some (TDA_STATUS_OK, w2, o2)
       }
     }
   }"

definition deque_swap_structs :: "'s deque \<Rightarrow> 's deque \<Rightarrow> 's deque \<times> 's deque" where
  "deque_swap_structs a b = (b\<lparr>deque_self := deque_self a\<rparr>, a\<lparr>deque_self := deque_self b\<rparr>)"

definition tda_deque_move_assign ::
  "'s world \<Rightarrow> 's deque \<Rightarrow> 's deque \<Rightarrow> (tda_Status \<times> 's world \<times> 's deque \<times> 's deque) option" where
  "tda_deque_move_assign w self other = do {
     ASSERT_DEQUE self;
     ASSERT_DEQUE other;
     c_assert (deque_elem_size self = deque_elem_size other);
     if deque_self self = deque_self other then Some (TDA_STATUS_OK, w, self, other)
     else if al_self (deque_al self) = al_self (deque_al other) then do {
       let (self1, other1) = deque_swap_structs self other;
       (w1, self2) \<leftarrow> deque_release_data w self1;
       ASSERT_DEQUE self2;
       ASSERT_DEQUE other1;
       Some (TDA_STATUS_OK, w1, self2, other1)
     }
     else do {
       (st, r, w1) \<leftarrow> tda_deque_copy_with self (deque_al other) w;
       (case r of
          None \<Rightarrow> Some (st, w1, self, other)
        | Some obj \<Rightarrow> do {
            let (other1, obj1) = deque_swap_structs other obj;
            w2 \<leftarrow> tda_deque_drop w1 (Some obj1);
            (w3, self1) \<leftarrow> deque_release_data w2 self;
            ASSERT_DEQUE self1;
            ASSERT_DEQUE other1;
            Some (TDA_STATUS_OK, w3, self1, other1)
          })
     }
   }"

definition tda_deque_copy_to_span :: "'s world \<Rightarrow> 's deque \<Rightarrow> tda_Span \<Rightarrow> 's world option" where
  "tda_deque_copy_to_span w self dst = do {
     ASSERT_DEQUE self;
     TDA_SPAN_ASSERT dst;
     c_assert (sp_elem_size dst = deque_elem_size self);
     c_assert (sp_len dst = deque_len self);
     deque_copy_out w self (sp_data dst)
   }"

definition tda_deque_copy_from_span :: "'s world \<Rightarrow> 's deque \<Rightarrow> tda_Span \<Rightarrow> 's world option" where
  "tda_deque_copy_from_span w self src = do {
     ASSERT_DEQUE self;
     TDA_SPAN_ASSERT src;
     c_assert (sp_elem_size src = deque_elem_size self);
     c_assert (sp_len src = deque_len self);
     deque_copy_in w self (sp_data src)
   }"

section \<open>Comparison\<close>

text \<open>One step of the loops: the elements at \<open>i\<close> are read and found to differ or not.\<close>

definition deque_differ :: "'s world \<Rightarrow> 's deque \<Rightarrow> 's deque \<Rightarrow> (byte list \<Rightarrow> byte list \<Rightarrow> bool) \<Rightarrow> nat \<Rightarrow> bool option" where
  "deque_differ w a b eq i = do {
     (p, x) \<leftarrow> deque_elem_at a i;
     (q, y) \<leftarrow> deque_elem_at b i;
     xs \<leftarrow> mem_read w p x (deque_elem_size a);
     ys \<leftarrow> mem_read w q y (deque_elem_size a);
     Some (\<not> eq xs ys)
   }"

definition tda_deque_eq :: "'s world \<Rightarrow> 's deque \<Rightarrow> 's deque \<Rightarrow> bool option" where
  "tda_deque_eq w a b = do {
     ASSERT_DEQUE a;
     ASSERT_DEQUE b;
     c_assert (deque_elem_size a = deque_elem_size b);
     if deque_self a = deque_self b then Some True
     else if deque_len a \<noteq> deque_len b then Some False
     else do {
       r \<leftarrow> for_find [0..<deque_len a] (deque_differ w a b (=));
       Some (r = None)
     }
   }"

definition tda_deque_eq_by ::
  "'s world \<Rightarrow> 's deque \<Rightarrow> 's deque \<Rightarrow> (byte list \<Rightarrow> byte list \<Rightarrow> bool) \<Rightarrow> bool option" where
  "tda_deque_eq_by w a b eq = do {
     ASSERT_DEQUE a;
     ASSERT_DEQUE b;
     c_assert (deque_elem_size a = deque_elem_size b);
     if deque_self a = deque_self b then Some True
     else if deque_len a \<noteq> deque_len b then Some False
     else do {
       r \<leftarrow> for_find [0..<deque_len a] (deque_differ w a b eq);
       Some (r = None)
     }
   }"

section \<open>Information and access\<close>

definition tda_deque_len :: "'s deque \<Rightarrow> nat option" where
  "tda_deque_len d = do { ASSERT_DEQUE d; Some (deque_len d) }"

definition tda_deque_cap :: "'s deque \<Rightarrow> nat option" where
  "tda_deque_cap d = do { ASSERT_DEQUE d; Some (deque_cap d) }"

definition tda_deque_elem_size :: "'s deque \<Rightarrow> nat option" where
  "tda_deque_elem_size d = do { ASSERT_DEQUE d; Some (deque_elem_size d) }"

definition tda_deque_bytes :: "'s deque \<Rightarrow> nat option" where
  "tda_deque_bytes d = do { ASSERT_DEQUE d; Some (deque_len_bytes d) }"

definition tda_deque_al :: "'s deque \<Rightarrow> 's al option" where
  "tda_deque_al d = do { ASSERT_DEQUE d; Some (deque_al d) }"

definition tda_deque_front :: "'s deque \<Rightarrow> (ptr \<times> nat) option" where
  "tda_deque_front d = do { ASSERT_DEQUE d; c_assert (deque_len d > 0); deque_elem_at d 0 }"

definition tda_deque_back :: "'s deque \<Rightarrow> (ptr \<times> nat) option" where
  "tda_deque_back d = do { ASSERT_DEQUE d; c_assert (deque_len d > 0); deque_elem_at d (deque_len d - 1) }"

definition tda_deque_get :: "'s deque \<Rightarrow> nat \<Rightarrow> (ptr \<times> nat) option" where
  "tda_deque_get d idx = do { ASSERT_DEQUE d; c_assert (idx < deque_len d); deque_elem_at d idx }"

definition tda_deque_set :: "'s world \<Rightarrow> 's deque \<Rightarrow> nat \<Rightarrow> byte list \<Rightarrow> 's world option" where
  "tda_deque_set w d idx val = do {
     ASSERT_DEQUE d;
     c_assert (idx < deque_len d);
     (p, off) \<leftarrow> deque_elem_at d idx;
     mem_write w p off (take (deque_elem_size d) val)
   }"

section \<open>Modifications\<close>

definition deque_retreat :: "'s deque \<Rightarrow> 's deque" where
  "deque_retreat d = d\<lparr>deque_head := (if deque_head d = 0 then deque_cap d - 1 else deque_head d - 1)\<rparr>"

definition deque_advance :: "'s deque \<Rightarrow> 's deque" where
  "deque_advance d = d\<lparr>deque_head := (if deque_head d + 1 = deque_cap d then 0 else deque_head d + 1)\<rparr>"

definition tda_deque_push_front :: "'s world \<Rightarrow> 's deque \<Rightarrow> byte list \<Rightarrow> (tda_Status \<times> 's world \<times> 's deque) option" where
  "tda_deque_push_front w d val = do {
     ASSERT_DEQUE d;
     (st, w1, d1) \<leftarrow> deque_reserve_one w d;
     if TDA_STATUS_IS_ERR st then Some (st, w1, d1)
     else do {
       let d2 = deque_retreat d1;
       (p, off) \<leftarrow> deque_slot_at d2 (deque_head d2);
       w2 \<leftarrow> mem_write w1 p off (take (deque_elem_size d2) val);
       Some (TDA_STATUS_OK, w2, d2\<lparr>deque_len := deque_len d2 + 1\<rparr>)
     }
   }"

definition tda_deque_push_back :: "'s world \<Rightarrow> 's deque \<Rightarrow> byte list \<Rightarrow> (tda_Status \<times> 's world \<times> 's deque) option" where
  "tda_deque_push_back w d val = do {
     ASSERT_DEQUE d;
     (st, w1, d1) \<leftarrow> deque_reserve_one w d;
     if TDA_STATUS_IS_ERR st then Some (st, w1, d1)
     else do {
       (p, off) \<leftarrow> deque_elem_at d1 (deque_len d1);
       w2 \<leftarrow> mem_write w1 p off (take (deque_elem_size d1) val);
       Some (TDA_STATUS_OK, w2, d1\<lparr>deque_len := deque_len d1 + 1\<rparr>)
     }
   }"

definition tda_deque_pop_front :: "'s deque \<Rightarrow> 's deque option" where
  "tda_deque_pop_front d = do {
     ASSERT_DEQUE d;
     c_assert (deque_len d > 0);
     let d1 = deque_advance d;
     Some (d1\<lparr>deque_len := deque_len d1 - 1\<rparr>)
   }"

definition tda_deque_pop_back :: "'s deque \<Rightarrow> 's deque option" where
  "tda_deque_pop_back d = do {
     ASSERT_DEQUE d;
     c_assert (deque_len d > 0);
     Some (d\<lparr>deque_len := deque_len d - 1\<rparr>)
   }"

text \<open>The shorter side moves: elements before \<open>idx\<close> one back, or those behind it one forward.\<close>

definition tda_deque_insert ::
  "'s world \<Rightarrow> 's deque \<Rightarrow> nat \<Rightarrow> byte list \<Rightarrow> (tda_Status \<times> 's world \<times> 's deque) option" where
  "tda_deque_insert w d idx val = do {
     ASSERT_DEQUE d;
     c_assert (idx \<le> deque_len d);
     (st, w1, d1) \<leftarrow> deque_reserve_one w d;
     if TDA_STATUS_IS_ERR st then Some (st, w1, d1)
     else do {
       (w2, d2) \<leftarrow> (if idx \<le> deque_len d1 div 2 then do {
            let d2 = deque_retreat d1;
            let d2 = d2\<lparr>deque_len := deque_len d2 + 1\<rparr>;
            w2 \<leftarrow> for_loop [0..<idx] (\<lambda>i. deque_move_elem d2 i (i + 1)) w1;
            Some (w2, d2)
          }
          else do {
            let d2 = d1\<lparr>deque_len := deque_len d1 + 1\<rparr>;
            w2 \<leftarrow> for_loop (rev [idx + 1..<deque_len d2]) (\<lambda>i. deque_move_elem d2 i (i - 1)) w1;
            Some (w2, d2)
          });
       (p, off) \<leftarrow> deque_elem_at d2 idx;
       w3 \<leftarrow> mem_write w2 p off (take (deque_elem_size d2) val);
       Some (TDA_STATUS_OK, w3, d2)
     }
   }"

definition tda_deque_remove :: "'s world \<Rightarrow> 's deque \<Rightarrow> nat \<Rightarrow> ('s world \<times> 's deque) option" where
  "tda_deque_remove w d idx = do {
     ASSERT_DEQUE d;
     c_assert (idx < deque_len d);
     (w1, d1) \<leftarrow> (if idx < deque_len d - idx - 1 then do {
          w1 \<leftarrow> for_loop (rev [1..<idx + 1]) (\<lambda>i. deque_move_elem d i (i - 1)) w;
          Some (w1, deque_advance d)
        }
        else do {
          w1 \<leftarrow> for_loop [idx..<deque_len d - 1] (\<lambda>i. deque_move_elem d i (i + 1)) w;
          Some (w1, d)
        });
     Some (w1, d1\<lparr>deque_len := deque_len d1 - 1\<rparr>)
   }"

definition tda_deque_clear :: "'s deque \<Rightarrow> 's deque option" where
  "tda_deque_clear d = do { ASSERT_DEQUE d; Some (d\<lparr>deque_len := 0, deque_head := 0\<rparr>) }"

definition tda_deque_shrink_to_fit :: "'s world \<Rightarrow> 's deque \<Rightarrow> (tda_Status \<times> 's world \<times> 's deque) option" where
  "tda_deque_shrink_to_fit w d = do {
     ASSERT_DEQUE d;
     if deque_len d = deque_cap d then Some (TDA_STATUS_OK, w, d)
     else if deque_len d = 0 then do {
       w1 \<leftarrow> tda_dealloc (deque_al d) w (deque_data d) (deque_cap_bytes d);
       let d1 = d\<lparr>deque_data := None, deque_cap := 0, deque_head := 0\<rparr>;
       ASSERT_DEQUE d1;
       Some (TDA_STATUS_OK, w1, d1)
     }
     else do {
       (r, w1) \<leftarrow> tda_alloc (deque_al d) w (deque_len_bytes d);
       (case r of
          None \<Rightarrow> Some (TDA_STATUS_ERR_NO_MEM, w1, d)
        | Some data \<Rightarrow> do {
            w2 \<leftarrow> deque_copy_out w1 d (Some (data, 0));
            w3 \<leftarrow> tda_dealloc (deque_al d) w2 (deque_data d) (deque_cap_bytes d);
            let d1 = d\<lparr>deque_data := Some data, deque_cap := deque_len d, deque_head := 0\<rparr>;
            ASSERT_DEQUE d1;
            Some (TDA_STATUS_OK, w3, d1)
          })
     }
   }"

definition deque_zero_elem :: "'s deque \<Rightarrow> nat \<Rightarrow> 's world \<Rightarrow> 's world option" where
  "deque_zero_elem d i w = do { (p, off) \<leftarrow> deque_elem_at d i; mem_set w p off 0 (deque_elem_size d) }"

definition tda_deque_resize :: "'s world \<Rightarrow> 's deque \<Rightarrow> nat \<Rightarrow> (tda_Status \<times> 's world \<times> 's deque) option" where
  "tda_deque_resize w d new_len = do {
     ASSERT_DEQUE d;
     if new_len \<le> deque_len d then Some (TDA_STATUS_OK, w, d\<lparr>deque_len := new_len\<rparr>)
     else do {
       (st, w1, d1) \<leftarrow> (if new_len > deque_cap d then deque_reserve_for w d new_len
                        else Some (TDA_STATUS_OK, w, d));
       if TDA_STATUS_IS_ERR st then Some (st, w1, d1)
       else do {
         w2 \<leftarrow> for_loop [deque_len d1..<new_len] (deque_zero_elem d1) w1;
         let d2 = d1\<lparr>deque_len := new_len\<rparr>;
         ASSERT_DEQUE d2;
         Some (TDA_STATUS_OK, w2, d2)
       }
     }
   }"

definition tda_deque_swap :: "'s deque \<Rightarrow> 's deque \<Rightarrow> ('s deque \<times> 's deque) option" where
  "tda_deque_swap self other = do {
     ASSERT_DEQUE self;
     ASSERT_DEQUE other;
     c_assert (deque_elem_size self = deque_elem_size other);
     c_assert (al_self (deque_al self) = al_self (deque_al other));
     if deque_self self = deque_self other then Some (self, other)
     else do {
       let (self', other') = deque_swap_structs self other;
       ASSERT_DEQUE self';
       ASSERT_DEQUE other';
       Some (self', other')
     }
   }"

definition tda_deque_swap_elems :: "'s world \<Rightarrow> 's deque \<Rightarrow> nat \<Rightarrow> nat \<Rightarrow> 's world option" where
  "tda_deque_swap_elems w d i j = do {
     ASSERT_DEQUE d;
     c_assert (i < deque_len d);
     c_assert (j < deque_len d);
     if i = j then Some w
     else do {
       (pa, a) \<leftarrow> deque_elem_at d i;
       (pb, b) \<leftarrow> deque_elem_at d j;
       abs \<leftarrow> mem_read w pa a (deque_elem_size d);
       bbs \<leftarrow> mem_read w pb b (deque_elem_size d);
       let (abs', bbs') = tda_bytes_swap abs bbs (deque_elem_size d);
       w1 \<leftarrow> mem_write w pa a abs';
       mem_write w1 pb b bbs'
     }
   }"

end
