(* ===== verification/Tda_Deque_Laws.thy ===== *)
theory Tda_Deque_Laws
  imports Tda_Deque
begin

text \<open>
  What the operations of \<open>Tda_Deque\<close> do to the sequence a deque stands for. The block is a
  ring of cells (\<open>deque_ring\<close>, its cells from the first element on); the primitives are one
  read, one write and one \<open>memcpy\<close> of an element, each a list operation on the ring, and the
  shifting loops fold them. A refused request leaves memory and deque as they were.
\<close>

section \<open>Well-formedness and the sequence a deque stands for\<close>

definition deque_inv :: "(ptr \<Rightarrow> bool) \<Rightarrow> 's world \<Rightarrow> 's deque \<Rightarrow> bool" where
  "deque_inv owned w d = (0 < deque_elem_size d \<and> deque_len d \<le> deque_cap d
     \<and> deque_cap d * deque_elem_size d \<le> PTRDIFF_MAX
     \<and> owned (deque_self d) \<and> block_at w (deque_self d) sizeof_tda_Deque
     \<and> (case deque_data d of None \<Rightarrow> deque_cap d = 0 \<and> deque_head d = 0
        | Some p \<Rightarrow> deque_head d < deque_cap d \<and> owned p \<and> p \<noteq> deque_self d
            \<and> block_at w p (deque_cap d * deque_elem_size d)))"

definition deque_cells :: "'s world \<Rightarrow> 's deque \<Rightarrow> byte list list" where
  "deque_cells w d = (case deque_data d of None \<Rightarrow> []
     | Some p \<Rightarrow> elems (deque_elem_size d) (the (heap w p)))"

definition deque_ring :: "'s world \<Rightarrow> 's deque \<Rightarrow> byte list list" where
  "deque_ring w d = rotate (deque_head d) (deque_cells w d)"

definition deque_list :: "'s world \<Rightarrow> 's deque \<Rightarrow> byte list list" where
  "deque_list w d = take (deque_len d) (deque_ring w d)"

definition deque_blocks :: "'s deque \<Rightarrow> ptr set" where
  "deque_blocks d = insert (deque_self d) (set_option (deque_data d))"

definition deque_frame :: "'s world \<Rightarrow> 's deque \<Rightarrow> 's world \<Rightarrow> 's deque \<Rightarrow> bool" where
  "deque_frame w d w' d' = (deque_self d' = deque_self d \<and> deque_elem_size d' = deque_elem_size d
     \<and> deque_al d' = deque_al d \<and> frame w (deque_blocks d) w' (deque_blocks d'))"

lemma deque_frame_refl: "heap w' = heap w \<Longrightarrow> deque_frame w d w' d"
  by (simp add: deque_frame_def frame_refl)

lemma deque_frame_trans: "deque_frame w d w1 d1 \<Longrightarrow> deque_frame w1 d1 w2 d2 \<Longrightarrow> deque_frame w d w2 d2"
  by (auto simp: deque_frame_def intro: frame_trans)

lemma deque_frame_fields [simp]:
  "deque_frame w d w' (d'\<lparr>deque_len := n\<rparr>) = deque_frame w d w' d'"
  "deque_frame w d w' (d'\<lparr>deque_head := h\<rparr>) = deque_frame w d w' d'"
  "deque_frame w (d\<lparr>deque_len := n\<rparr>) w' d' = deque_frame w d w' d'"
  "deque_frame w (d\<lparr>deque_head := h\<rparr>) w' d' = deque_frame w d w' d'"
  by (simp_all add: deque_frame_def deque_blocks_def)

lemma deque_inv_cong: "heap w' = heap w \<Longrightarrow> deque_inv owned w' d = deque_inv owned w d"
  by (simp add: deque_inv_def block_at_def split: option.splits)

lemma deque_ring_cong: "heap w' = heap w \<Longrightarrow> deque_ring w' d = deque_ring w d"
  by (simp add: deque_ring_def deque_cells_def split: option.splits)

lemma deque_list_cong: "heap w' = heap w \<Longrightarrow> deque_list w' d = deque_list w d"
  by (simp add: deque_list_def deque_ring_cong [of w' w])

text \<open>A deque is unaffected by whatever leaves its own blocks alone.\<close>

lemma deque_stable:
  assumes "deque_inv owned w d" "\<And>q. q \<in> deque_blocks d \<Longrightarrow> heap w' q = heap w q"
  shows "deque_inv owned w' d" and "deque_list w' d = deque_list w d" and "deque_ring w' d = deque_ring w d"
  using assms
  by (auto simp: deque_inv_def block_at_def deque_blocks_def deque_list_def deque_ring_def deque_cells_def split: option.splits)

lemma deque_live: "deque_inv owned w d \<Longrightarrow> q \<in> deque_blocks d \<Longrightarrow> heap w q \<noteq> None"
  by (auto simp: deque_inv_def block_at_def deque_blocks_def split: option.splits)

lemma assert_deque_ok: "deque_inv owned w d \<Longrightarrow> ASSERT_DEQUE d = Some ()"
  by (auto simp: deque_inv_def ASSERT_DEQUE_def c_simps split: option.splits)

lemma deque_ring_len [simp]: "deque_ring w (d\<lparr>deque_len := n\<rparr>) = deque_ring w d"
  by (simp add: deque_ring_def deque_cells_def split: option.splits)

lemma deque_cells_head [simp]: "deque_cells w (d\<lparr>deque_head := h\<rparr>) = deque_cells w d"
  by (simp add: deque_cells_def split: option.splits)

lemma deque_inv_len: "deque_inv owned w d \<Longrightarrow> n \<le> deque_cap d \<Longrightarrow> deque_inv owned w (d\<lparr>deque_len := n\<rparr>)"
  by (simp add: deque_inv_def split: option.splits)

lemma deque_len_le: "deque_inv owned w d \<Longrightarrow> deque_len d \<le> deque_cap d"
  by (simp add: deque_inv_def)

lemma deque_cap_le:
  assumes "deque_inv owned w d"
  shows "deque_cap d \<le> PTRDIFF_MAX"
proof -
  have "0 < deque_elem_size d" and le: "deque_cap d * deque_elem_size d \<le> PTRDIFF_MAX"
    using assms by (simp_all add: deque_inv_def)
  then have "deque_cap d \<le> deque_cap d * deque_elem_size d" by simp
  then show ?thesis using le by (rule le_trans)
qed

lemma deque_bytes_exact:
  assumes "deque_inv owned w d" "n \<le> deque_cap d"
  shows "size_mul n (deque_elem_size d) = n * deque_elem_size d"
    and "size_mul (deque_elem_size d) n = n * deque_elem_size d"
    and "n * deque_elem_size d \<le> deque_cap d * deque_elem_size d"
proof -
  show le: "n * deque_elem_size d \<le> deque_cap d * deque_elem_size d" using assms(2) by (rule mult_le_mono1)
  have "deque_cap d * deque_elem_size d \<le> SIZE_MAX"
    using assms(1) by (simp add: deque_inv_def PTRDIFF_MAX_le)
  with le have "n * deque_elem_size d \<le> SIZE_MAX" by (rule le_trans)
  then show "size_mul n (deque_elem_size d) = n * deque_elem_size d"
    and "size_mul (deque_elem_size d) n = n * deque_elem_size d"
    by (simp_all add: size_mul_exact mult.commute [of "deque_elem_size d"])
qed

lemma deque_len_bytes_eq: "deque_inv owned w d \<Longrightarrow> deque_len_bytes d = deque_len d * deque_elem_size d"
  by (simp add: deque_len_bytes_def deque_bytes_exact(1) deque_len_le)

lemma deque_cap_bytes_eq: "deque_inv owned w d \<Longrightarrow> deque_cap_bytes d = deque_cap d * deque_elem_size d"
  by (simp add: deque_cap_bytes_def deque_bytes_exact(1))

lemma length_deque_cells: "deque_inv owned w d \<Longrightarrow> length (deque_cells w d) = deque_cap d"
  by (auto simp: deque_inv_def deque_cells_def block_at_def length_elems_mult split: option.splits)

lemma length_deque_ring: "deque_inv owned w d \<Longrightarrow> length (deque_ring w d) = deque_cap d"
  by (simp add: deque_ring_def length_deque_cells)

lemma length_deque_list: "deque_inv owned w d \<Longrightarrow> length (deque_list w d) = deque_len d"
  by (simp add: deque_list_def length_deque_ring deque_len_le)

lemma deque_ring_elem_length: "x \<in> set (deque_ring w d) \<Longrightarrow> length x = deque_elem_size d"
  by (auto simp: deque_ring_def deque_cells_def dest!: elems_in_length split: option.splits)

lemma deque_list_elem_length: "x \<in> set (deque_list w d) \<Longrightarrow> length x = deque_elem_size d"
  by (auto simp: deque_list_def dest: in_set_takeD deque_ring_elem_length)

lemma deque_block:
  assumes "deque_inv owned w d" "0 < deque_cap d"
  obtains p bs where "deque_data d = Some p" "owned p" "p \<noteq> deque_self d" "deque_head d < deque_cap d"
    "heap w p = Some bs" "length bs = deque_cap d * deque_elem_size d"
    "deque_cells w d = elems (deque_elem_size d) bs"
  using assms by (auto simp: deque_inv_def block_at_def deque_cells_def split: option.splits)

section \<open>One element\<close>

lemma deque_slot_of_ok:
  assumes "deque_inv owned w d" "k < deque_cap d"
  shows "deque_slot_of d k = Some (ring_slot (deque_cap d) (deque_head d) k)"
proof -
  have "0 < deque_cap d" using assms(2) by simp
  from deque_block [OF assms(1) this] have "deque_head d < deque_cap d" by blast
  then have "deque_head d + k \<le> SIZE_MAX"
    using deque_cap_le [OF assms(1)] assms(2) by (simp add: PTRDIFF_MAX_num SIZE_MAX_num)
  then show ?thesis using assms(2) by (simp add: deque_slot_of_def size_add_exact ring_slot_def)
qed

lemma deque_slot_at_ok:
  assumes "deque_inv owned w d" "deque_data d = Some p" "k \<le> deque_cap d"
  shows "deque_slot_at d k = Some (p, k * deque_elem_size d)"
  using assms deque_bytes_exact(2) [OF assms(1,3)]
  by (simp add: deque_slot_at_def tda_byte_offset_def) (simp add: deque_inv_def)

lemma deque_elem_at_ok:
  assumes "deque_inv owned w d" "deque_data d = Some p" "k < deque_cap d"
  shows "deque_elem_at d k = Some (p, ring_slot (deque_cap d) (deque_head d) k * deque_elem_size d)"
proof -
  have "deque_head d < deque_cap d" using assms by (simp add: deque_inv_def)
  then have "ring_slot (deque_cap d) (deque_head d) k \<le> deque_cap d"
    using ring_slot_less assms(3) less_imp_le by blast
  then show ?thesis
    using deque_slot_of_ok [OF assms(1,3)] deque_slot_at_ok [OF assms(1,2)] by (simp add: deque_elem_at_def)
qed

text \<open>Reading at the pointer to the element at \<open>k\<close> gives cell \<open>k\<close> of the ring.\<close>

lemma deque_elem_reads:
  assumes "deque_inv owned w d" "k < deque_cap d"
  obtains p off where "deque_data d = Some p" "deque_elem_at d k = Some (p, off)"
    "mem_read w p off (deque_elem_size d) = Some (deque_ring w d ! k)"
proof -
  have "0 < deque_cap d" using assms(2) by simp
  then obtain p bs where b: "deque_data d = Some p" "deque_head d < deque_cap d" "heap w p = Some bs"
    "length bs = deque_cap d * deque_elem_size d" "deque_cells w d = elems (deque_elem_size d) bs"
    by (metis deque_block [OF assms(1)])
  let ?s = "ring_slot (deque_cap d) (deque_head d) k"
  have es: "0 < deque_elem_size d" using assms(1) by (simp add: deque_inv_def)
  have "?s < deque_cap d" using b(2) assms(2) by (rule ring_slot_less)
  then have "mem_read w p (?s * deque_elem_size d) (deque_elem_size d) = Some (deque_cells w d ! ?s)"
    using read_elem [OF b(3,4) es] b(5) by simp
  moreover have "deque_ring w d ! k = deque_cells w d ! ?s"
    using nth_ring [of "deque_head d" "deque_cells w d" k] b(2) assms(2)
    by (simp add: deque_ring_def length_deque_cells [OF assms(1)])
  ultimately show ?thesis using that [OF b(1) deque_elem_at_ok [OF assms(1) b(1) assms(2)]] by simp
qed

text \<open>One more step of a deque whose struct stays as it is: what the block holds, seen as a ring.\<close>

definition deque_rung :: "(ptr \<Rightarrow> bool) \<Rightarrow> 's world \<Rightarrow> 's deque \<Rightarrow> 's world \<Rightarrow> byte list list \<Rightarrow> bool" where
  "deque_rung owned w d w' R = (deque_inv owned w' d \<and> deque_frame w d w' d \<and> deque_ring w' d = R)"

lemma deque_rung_start: "deque_inv owned w d \<Longrightarrow> deque_rung owned w d w (deque_ring w d)"
  by (simp add: deque_rung_def deque_frame_refl)

lemma deque_block_written:
  assumes d: "deque_inv owned w d" "deque_data d = Some p"
    and h: "heap w' = (heap w)(p \<mapsto> bs)" "length bs = deque_cap d * deque_elem_size d"
  shows "deque_inv owned w' d" and "deque_frame w d w' d" and "deque_cells w' d = elems (deque_elem_size d) bs"
proof -
  show "deque_inv owned w' d" using d h by (auto simp: deque_inv_def block_at_def)
  show "deque_frame w d w' d"
    using frame_write [of p "deque_blocks d" w' w] d(2) h(1) by (simp add: deque_frame_def deque_blocks_def)
  show "deque_cells w' d = elems (deque_elem_size d) bs" using d(2) h(1) by (simp add: deque_cells_def)
qed

context allocator
begin

lemma deque_write_elem:
  assumes w: "inv w" and d: "deque_inv owned' w d" "k < deque_cap d" and x: "length x = deque_elem_size d"
  obtains p off w' where "deque_data d = Some p" "deque_elem_at d k = Some (p, off)"
    "mem_write w p off x = Some w'" "inv w'" "deque_rung owned' w d w' ((deque_ring w d)[k := x])"
proof -
  have "0 < deque_cap d" using d(2) by simp
  then obtain p bs where b: "deque_data d = Some p" "deque_head d < deque_cap d" "heap w p = Some bs"
    "length bs = deque_cap d * deque_elem_size d" "deque_cells w d = elems (deque_elem_size d) bs"
    by (metis deque_block [OF d(1)])
  let ?s = "ring_slot (deque_cap d) (deque_head d) k"
  have es: "0 < deque_elem_size d" using d(1) by (simp add: deque_inv_def)
  have s: "?s < deque_cap d" using b(2) d(2) by (rule ring_slot_less)
  have x1: "length x = 1 * deque_elem_size d" and s1: "?s + 1 \<le> deque_cap d" using x s by simp_all
  obtain w' bs' where w': "mem_write w p (?s * deque_elem_size d) x = Some w'" "inv w'"
    "heap w' = (heap w)(p \<mapsto> bs')" "length bs' = deque_cap d * deque_elem_size d"
    "elems (deque_elem_size d) bs' = blit ?s (elems (deque_elem_size d) x) (elems (deque_elem_size d) bs)"
    by (rule write_elems [OF w b(3,4) es x1 s1])
  note k = deque_block_written [OF d(1) b(1) w'(3,4)]
  note lc = length_deque_cells [OF d(1)]
  have "deque_cells w' d = (deque_cells w d)[?s := x]"
    using k(3) w'(5) b(5) es x s lc by (simp add: blit_one)
  then have "deque_ring w' d = (deque_ring w d)[k := x]"
    using ring_update [of "deque_head d" "deque_cells w d" k x] b(2) d(2) lc by (simp add: deque_ring_def)
  then show ?thesis
    using that [OF b(1) deque_elem_at_ok [OF d(1) b(1) d(2)] w'(1,2)] k(1,2) by (simp add: deque_rung_def)
qed

lemma deque_move_elem_ok:
  assumes w: "inv w1" "deque_rung owned' w d w1 R" and k: "to < deque_cap d" "from < deque_cap d"
  shows "\<exists>w2. deque_move_elem d to from w1 = Some w2 \<and> inv w2 \<and> deque_rung owned' w d w2 (R[to := R ! from])"
proof -
  have d: "deque_inv owned' w1 d" "deque_frame w d w1 d" "deque_ring w1 d = R" using w(2) by (simp_all add: deque_rung_def)
  obtain p off where r: "deque_elem_at d from = Some (p, off)"
    "mem_read w1 p off (deque_elem_size d) = Some (R ! from)"
    using deque_elem_reads [OF d(1) k(2)] d(3) by metis
  have "R ! from \<in> set (deque_ring w1 d)" using k(2) length_deque_ring [OF d(1)] d(3) by simp
  then have "length (R ! from) = deque_elem_size d" by (rule deque_ring_elem_length)
  from deque_write_elem [OF w(1) d(1) k(1) this] obtain q off' w2 where wr: "deque_elem_at d to = Some (q, off')"
    "mem_write w1 q off' (R ! from) = Some w2" "inv w2" "deque_rung owned' w1 d w2 ((deque_ring w1 d)[to := R ! from])" .
  then show ?thesis
    using r d deque_frame_trans [OF d(2)] by (simp add: deque_move_elem_def deque_rung_def)
qed

text \<open>A loop of moves is the fold of its list updates.\<close>

lemma deque_move_loop:
  assumes "inv w1" "deque_rung owned' w d w1 R" "\<And>i. i \<in> set is \<Longrightarrow> i < deque_cap d \<and> g i < deque_cap d"
  shows "\<exists>w2. for_loop is (\<lambda>i. deque_move_elem d i (g i)) w1 = Some w2 \<and> inv w2
    \<and> deque_rung owned' w d w2 (fold (\<lambda>i R. R[i := R ! g i]) is R)"
  using assms
proof (induction "is" arbitrary: w1 R)
  case Nil
  then show ?case by simp
next
  case (Cons i "is")
  have "i < deque_cap d" "g i < deque_cap d" using Cons.prems(3) by simp_all
  from deque_move_elem_ok [OF Cons.prems(1,2) this] obtain w2 where
    s: "deque_move_elem d i (g i) w1 = Some w2" "inv w2" "deque_rung owned' w d w2 (R[i := R ! g i])" by blast
  show ?case using Cons.IH [OF s(2,3)] Cons.prems(3) s(1) by simp
qed

end

section \<open>The whole contents\<close>

text \<open>The first run goes from the head to the end of the block, the second starts at slot 0.\<close>

lemma deque_runs:
  assumes "deque_inv owned w d"
  defines "run \<equiv> deque_first_run d"
  shows "run \<le> deque_len d" and "deque_head d + run \<le> deque_cap d" and "deque_len d - run \<le> deque_head d"
    and "deque_list w d = slice (deque_head d) run (deque_cells w d) @ slice 0 (deque_len d - run) (deque_cells w d)"
proof -
  have h: "deque_head d \<le> deque_cap d" using assms(1) by (auto simp: deque_inv_def split: option.splits)
  have len: "deque_len d \<le> deque_cap d" by (rule deque_len_le [OF assms(1)])
  show "run \<le> deque_len d" and "deque_head d + run \<le> deque_cap d" and a: "deque_len d - run \<le> deque_head d"
    using h len by (auto simp: run_def deque_first_run_def Let_def)
  have lc: "length (deque_cells w d) = deque_cap d" by (rule length_deque_cells [OF assms(1)])
  have "deque_ring w d = drop (deque_head d) (deque_cells w d) @ take (deque_head d) (deque_cells w d)"
    using h lc by (simp add: deque_ring_def rotate_take_drop)
  then show "deque_list w d = slice (deque_head d) run (deque_cells w d) @ slice 0 (deque_len d - run) (deque_cells w d)"
    using h len lc by (auto simp: deque_list_def slice_def run_def deque_first_run_def Let_def min_def)
qed

lemma deque_copy_out_spec:
  assumes d: "deque_inv owned w d" and A: "allocator al I owned'" and w: "I w"
    and q: "heap w q = Some dbs" "off + deque_len d * deque_elem_size d \<le> length dbs" "q \<notin> deque_blocks d"
  shows "\<exists>w'. deque_copy_out w d (Some (q, off)) = Some w' \<and> I w'
    \<and> heap w' = (heap w)(q \<mapsto> blit off (concat (deque_list w d)) dbs)"
proof (cases "deque_len d = 0")
  case True
  then show ?thesis using w q(1) by (simp add: deque_copy_out_def deque_list_def fun_upd_idem)
next
  case False
  let ?es = "deque_elem_size d" and ?run = "deque_first_run d" and ?c = "deque_cells w d" and ?h = "deque_head d"
  have len: "deque_len d \<le> deque_cap d" by (rule deque_len_le [OF d])
  have "0 < deque_cap d" using False len by simp
  then obtain p bs where b: "deque_data d = Some p" "?h < deque_cap d" "heap w p = Some bs"
    "length bs = deque_cap d * ?es" "?c = elems ?es bs" by (metis deque_block [OF d])
  have es: "0 < ?es" using d by (simp add: deque_inv_def)
  note runs = deque_runs [OF d]
  have pq: "p \<noteq> q" using q(3) b(1) by (auto simp: deque_blocks_def)
  define x y where "x = concat (slice ?h ?run ?c)" and "y = concat (slice 0 (deque_len d - ?run) ?c)"
  have all: "concat (deque_list w d) = x @ y" using runs(4) by (simp add: x_def y_def)
  have el: "\<forall>e\<in>set ?c. length e = ?es" using elems_in_length b(5) by fastforce
  have lx: "length x = ?run * ?es" and ly: "length y = (deque_len d - ?run) * ?es"
    using length_concat_slice [OF el] runs(2) len length_deque_cells [OF d] by (simp_all add: x_def y_def)
  have "?run * ?es + (deque_len d - ?run) * ?es = deque_len d * ?es"
    using runs(1) by (simp flip: add_mult_distrib)
  then have tot: "off + length x + length y \<le> length dbs" using q(2) lx ly by linarith
  have m: "size_mul ?run ?es = ?run * ?es" "size_mul ?es ?run = ?run * ?es"
    "size_mul (deque_len d - ?run) ?es = (deque_len d - ?run) * ?es"
    using deque_bytes_exact [OF d, of ?run] deque_bytes_exact [OF d, of "deque_len d - ?run"] runs(1) len by simp_all
  have r1: "mem_read w p (?h * ?es) (?run * ?es) = Some x"
    using read_elems [OF b(3,4) es runs(2)] b(5) by (simp add: x_def)
  let ?w1 = "w\<lparr>heap := (heap w)(q \<mapsto> blit off x dbs)\<rparr>"
  have w1: "mem_write w q off x = Some ?w1" using tot q(1) by (simp add: mem_write_ok)
  have I1: "I ?w1" using allocator.write_law [OF A w q(1)] tot by (simp add: length_blit)
  have at: "deque_slot_at d ?h = Some (p, ?h * ?es)" "deque_slot_at d 0 = Some (p, 0)"
    using deque_slot_at_ok [OF d b(1)] b(2) by (simp_all add: less_imp_le)
  show ?thesis
  proof (cases "?run < deque_len d")
    case seam: False
    then have "y = []" using runs(1) by (simp add: y_def)
    then show ?thesis
      using False seam at r1 w1 I1 m all by (simp add: deque_copy_out_def Let_def)
  next
    case True
    have "heap ?w1 p = Some bs" using b(3) pq by simp
    from read_elems [OF this b(4) es, of 0 "deque_len d - ?run"] have r2:
      "mem_read ?w1 p 0 ((deque_len d - ?run) * ?es) = Some y" using len b(5) by (simp add: y_def)
    have lb: "length (blit off x dbs) = length dbs" using tot by (simp add: length_blit)
    let ?w2 = "?w1\<lparr>heap := (heap ?w1)(q \<mapsto> blit (off + length x) y (blit off x dbs))\<rparr>"
    have w2: "mem_write ?w1 q (off + ?run * ?es) y = Some ?w2"
      using tot lb lx by (simp add: mem_write_ok)
    have "I ?w2" using allocator.write_law [OF A I1, of q] tot lb by (simp add: length_blit)
    moreover have "blit (off + length x) y (blit off x dbs) = blit off (x @ y) dbs"
      using tot by (simp add: blit_def ac_simps)
    ultimately show ?thesis
      using False True at r1 w1 r2 w2 m all es by (simp add: deque_copy_out_def Let_def tda_byte_offset_def)
  qed
qed

lemma deque_take_ring: "deque_inv owned w d \<Longrightarrow> n \<le> deque_cap d \<Longrightarrow>
    deque_list w (d\<lparr>deque_len := n\<rparr>) = take n (deque_ring w d)"
  by (simp add: deque_list_def)

text \<open>Filling the ring: the first run from the head on, the rest from slot 0.\<close>

lemma ring_fill:
  assumes "h < length c" "length xs \<le> length c" "run = (if length c - h < length xs then length c - h else length xs)"
  shows "take (length xs) (rotate h (blit 0 (drop run xs) (blit h (take run xs) c))) = xs"
proof (cases "length c - h < length xs")
  case True
  then have "blit h (take run xs) c = take h c @ take run xs"
    using assms by (simp add: blit_def)
  moreover have "length (drop run xs) \<le> h" using assms True by simp
  ultimately have e: "blit 0 (drop run xs) (blit h (take run xs) c)
      = (drop run xs @ drop (length xs - run) (take h c)) @ take run xs"
    using assms True by (simp add: blit_def)
  have l: "length (drop run xs @ drop (length xs - run) (take h c)) = h" using assms True by simp
  have "rotate h (blit 0 (drop run xs) (blit h (take run xs) c))
      = take run xs @ drop run xs @ drop (length xs - run) (take h c)"
    unfolding e using assms True l by (subst rotate_take_drop) auto
  also have "\<dots> = xs @ drop (length xs - run) (take h c)" by (simp flip: append_assoc)
  finally show ?thesis by simp
next
  case False
  then show ?thesis
    using assms by (simp add: blit_def rotate_take_drop)
qed

context allocator
begin

lemma deque_copy_in_spec:
  assumes d: "deque_inv owned' w d" and w: "inv w"
    and q: "heap w q = Some sbs" "off + deque_len d * deque_elem_size d \<le> length sbs" "q \<notin> deque_blocks d"
  shows "\<exists>w'. deque_copy_in w d (Some (q, off)) = Some w' \<and> inv w' \<and> deque_inv owned' w' d \<and> deque_frame w d w' d
    \<and> deque_list w' d = elems (deque_elem_size d) (slice off (deque_len d * deque_elem_size d) sbs)"
proof (cases "deque_len d = 0")
  case True
  then show ?thesis using w d by (simp add: deque_copy_in_def deque_list_def deque_frame_refl)
next
  case False
  let ?es = "deque_elem_size d" and ?run = "deque_first_run d" and ?h = "deque_head d" and ?n = "deque_len d"
  have len: "?n \<le> deque_cap d" by (rule deque_len_le [OF d])
  have "0 < deque_cap d" using False len by simp
  then obtain p bs where b: "deque_data d = Some p" "?h < deque_cap d" "heap w p = Some bs"
    "length bs = deque_cap d * ?es" by (metis deque_block [OF d])
  have es: "0 < ?es" using d by (simp add: deque_inv_def)
  note runs = deque_runs [OF d]
  have pq: "p \<noteq> q" using q(3) b(1) by (auto simp: deque_blocks_def)
  define src xs where "src = slice off (?n * ?es) sbs" and "xs = elems ?es src"
  have ls: "length src = ?n * ?es" using q(2) by (simp add: src_def length_slice)
  have lxs: "length xs = ?n" using length_elems_mult [OF es ls] by (simp add: xs_def)
  have sum: "?run * ?es + (?n - ?run) * ?es = ?n * ?es" using runs(1) by (simp flip: add_mult_distrib)
  define x y where "x = take (?run * ?es) src" and "y = drop (?run * ?es) src"
  have lx: "length x = ?run * ?es" and ly: "length y = (?n - ?run) * ?es" using ls sum by (simp_all add: x_def y_def)
  have lr: "?run * ?es \<le> length src" using ls runs(1) by (simp add: mult_le_mono1)
  have ex: "elems ?es x = take ?run xs" and ey: "elems ?es y = drop ?run xs"
    using take_elems [OF es lr] drop_elems [OF es lr] by (simp_all add: x_def y_def xs_def)
  have m: "size_mul ?run ?es = ?run * ?es" "size_mul ?es ?run = ?run * ?es"
    "size_mul (?n - ?run) ?es = (?n - ?run) * ?es"
    using deque_bytes_exact [OF d, of ?run] deque_bytes_exact [OF d, of "?n - ?run"] runs(1) len by simp_all
  have r1: "mem_read w q off (?run * ?es) = Some x"
    using q(1,2) sum runs(1) by (simp add: mem_read_ok x_def src_def slice_def min_def)
  obtain w1 bs1 where w1: "mem_write w p (?h * ?es) x = Some w1" "inv w1" "heap w1 = (heap w)(p \<mapsto> bs1)"
    "length bs1 = deque_cap d * ?es" "elems ?es bs1 = blit ?h (elems ?es x) (elems ?es bs)"
    by (rule write_elems [OF w b(3,4) es lx runs(2)])
  have at: "deque_slot_at d ?h = Some (p, ?h * ?es)" "deque_slot_at d 0 = Some (p, 0)"
    using deque_slot_at_ok [OF d b(1)] b(2) by (simp_all add: less_imp_le)
  have "\<exists>w2 bs2. (if ?run < ?n then Option.bind (mem_read w1 q (off + ?run * ?es) ((?n - ?run) * ?es)) (\<lambda>bs0. mem_write w1 p 0 bs0)
      else Some w1) = Some w2 \<and> inv w2 \<and> heap w2 = (heap w)(p \<mapsto> bs2) \<and> length bs2 = deque_cap d * ?es
      \<and> elems ?es bs2 = blit 0 (drop ?run xs) (elems ?es bs1)"
  proof (cases "?run < ?n")
    case True
    have "off + ?run * ?es + (?n - ?run) * ?es \<le> length sbs" using q(2) sum by linarith
    moreover have "heap w1 q = Some sbs" using q(1) pq w1(3) by simp
    moreover have "y = slice (off + ?run * ?es) ((?n - ?run) * ?es) sbs"
      by (simp add: y_def src_def slice_def drop_take diff_mult_distrib add.commute)
    ultimately have r2: "mem_read w1 q (off + ?run * ?es) ((?n - ?run) * ?es) = Some y" by (simp add: mem_read_ok)
    have p1: "heap w1 p = Some bs1" and fit: "0 + (?n - ?run) \<le> deque_cap d" using w1(3) len by simp_all
    obtain w2 bs2 where "mem_write w1 p (0 * ?es) y = Some w2" "inv w2" "heap w2 = (heap w1)(p \<mapsto> bs2)"
      "length bs2 = deque_cap d * ?es" "elems ?es bs2 = blit 0 (elems ?es y) (elems ?es bs1)"
      by (rule write_elems [OF w1(2) p1 w1(4) es ly fit])
    then show ?thesis using True r2 w1(3) ey by auto
  next
    case False
    then show ?thesis using w1 runs(1) lxs by auto
  qed
  then obtain w2 bs2 where w2: "(if ?run < ?n then Option.bind (mem_read w1 q (off + ?run * ?es) ((?n - ?run) * ?es))
      (\<lambda>bs0. mem_write w1 p 0 bs0) else Some w1) = Some w2" "inv w2" "heap w2 = (heap w)(p \<mapsto> bs2)"
    "length bs2 = deque_cap d * ?es" "elems ?es bs2 = blit 0 (drop ?run xs) (elems ?es bs1)" by blast
  have "deque_copy_in w d (Some (q, off)) = Some w2"
    using False at r1 w1(1) w2(1) m es by (simp add: deque_copy_in_def Let_def tda_byte_offset_def split: if_splits)
  moreover note k = deque_block_written [OF d b(1) w2(3,4)]
  moreover have "deque_list w2 d = xs"
  proof -
    have lc: "length (elems ?es bs) = deque_cap d" by (rule length_elems_mult [OF es b(4)])
    have "deque_cells w2 d = blit 0 (drop ?run xs) (blit ?h (take ?run xs) (elems ?es bs))"
      using k(3) w2(5) w1(5) ex by simp
    moreover have "?run = (if length (elems ?es bs) - ?h < length xs then length (elems ?es bs) - ?h else length xs)"
      by (simp only: deque_first_run_def Let_def lc lxs)
    then have "take (length xs) (rotate ?h (blit 0 (drop ?run xs) (blit ?h (take ?run xs) (elems ?es bs)))) = xs"
      using b(2) lc lxs len by (intro ring_fill) simp_all
    ultimately show ?thesis by (simp add: deque_list_def deque_ring_def lxs)
  qed
  ultimately show ?thesis using w2(2) by (auto simp: xs_def src_def)
qed

end

section \<open>Reserving room\<close>

definition deque_kept :: "(ptr \<Rightarrow> bool) \<Rightarrow> 's world \<Rightarrow> 's deque \<Rightarrow> 's world \<Rightarrow> 's deque \<Rightarrow> bool" where
  "deque_kept owned w d w' d' = (deque_inv owned w' d' \<and> deque_frame w d w' d'
     \<and> deque_list w' d' = deque_list w d \<and> deque_len d' = deque_len d \<and> deque_cap d \<le> deque_cap d')"

definition deque_reserved ::
  "(ptr \<Rightarrow> bool) \<Rightarrow> 's world \<Rightarrow> 's deque \<Rightarrow> nat \<Rightarrow> tda_Status \<Rightarrow> 's world \<Rightarrow> 's deque \<Rightarrow> bool" where
  "deque_reserved owned w d n st w' d' =
     (if st = TDA_STATUS_OK then deque_kept owned w d w' d' \<and> n \<le> deque_cap d' else d' = d \<and> heap w' = heap w)"

lemma deque_kept_refl: "deque_inv owned w d \<Longrightarrow> heap w' = heap w \<Longrightarrow> deque_kept owned w d w' d"
  using deque_inv_cong [of w' w owned d] deque_list_cong [of w' w d] by (simp add: deque_kept_def deque_frame_refl)

lemma deque_reserved_weaken:
  "deque_reserved owned w d n st w' d' \<Longrightarrow> m \<le> n \<Longrightarrow> deque_reserved owned w d m st w' d'"
  by (auto simp: deque_reserved_def split: if_splits)

lemma deque_reserved_retry:
  assumes "deque_reserved owned w d n TDA_STATUS_ERR_NO_MEM w1 d1" "deque_reserved owned w1 d1 m st w' d'"
  shows "deque_reserved owned w d m st w' d'"
proof -
  have e: "d1 = d" "heap w1 = heap w" using assms(1) by (simp_all add: deque_reserved_def)
  have "deque_kept owned w d w' d'" if "deque_kept owned w1 d w' d'"
    using that e(2) deque_list_cong [OF e(2), of d] by (simp add: deque_kept_def deque_frame_def frame_def)
  then show ?thesis using assms(2) e by (simp add: deque_reserved_def split: if_splits)
qed

lemma deque_reserved_ok:
  assumes "deque_reserved owned w d n TDA_STATUS_OK w1 d1"
  shows "deque_inv owned w1 d1" "deque_frame w d w1 d1" "deque_len d1 = deque_len d" "n \<le> deque_cap d1"
    "deque_list w1 d1 = deque_list w d" "deque_elem_size d1 = deque_elem_size d" "deque_self d1 = deque_self d"
    "deque_al d1 = deque_al d" "deque_cap d \<le> deque_cap d1"
  using assms by (auto simp: deque_reserved_def deque_kept_def deque_frame_def)

lemma deque_reserved_inv:
  "deque_inv owned w d \<Longrightarrow> deque_al d = al \<Longrightarrow> deque_reserved owned w d n st w' d' \<Longrightarrow>
    deque_inv owned w' d' \<and> deque_al d' = al"
  using deque_inv_cong [of w' w owned d]
  by (auto simp: deque_reserved_def deque_kept_def deque_frame_def split: if_splits)

text \<open>The contents unrolled into a fresh block of \<open>n\<close> elements, the old block given back.\<close>

context object_allocator
begin

lemma deque_unroll:
  assumes w: "inv w" and d: "deque_inv owned w d" "deque_al d = al" and n: "deque_len d \<le> n" "0 < n"
    and a: "inv w1" "owned q" "heap w q = None" "length qs = n * deque_elem_size d" "heap w1 = (heap w)(q \<mapsto> qs)"
  defines "d' \<equiv> d\<lparr>deque_data := Some q, deque_cap := n, deque_head := 0\<rparr>"
  shows "\<exists>w2 w3. deque_copy_out w1 d (Some (q, 0)) = Some w2
    \<and> tda_dealloc al w2 (deque_data d) (deque_cap_bytes d) = Some w3 \<and> inv w3
    \<and> deque_inv owned w3 d' \<and> deque_frame w d w3 d' \<and> deque_list w3 d' = deque_list w d"
proof -
  let ?es = "deque_elem_size d"
  have es: "0 < ?es" using d(1) by (simp add: deque_inv_def)
  have qb: "q \<notin> deque_blocks d" using deque_live [OF d(1)] a(3) by blast
  have keep: "heap w1 r = heap w r" if "r \<in> deque_blocks d" for r using that qb a(5) by auto
  note d1 = deque_stable [OF d(1) keep]
  have fit: "0 + deque_len d * ?es \<le> length qs" using a(4) n(1) by simp
  define new where "new = blit 0 (concat (deque_list w d)) qs"
  obtain w2 where w2: "deque_copy_out w1 d (Some (q, 0)) = Some w2" "inv w2" "heap w2 = (heap w)(q \<mapsto> new)"
    using deque_copy_out_spec [OF d1(1) allocator_axioms a(1) _ fit qb] a(5) d1(2) by (auto simp: new_def)
  have lc: "length (concat (deque_list w d)) = deque_len d * ?es"
    using length_concat_elems [of "deque_list w d" ?es] deque_list_elem_length [of _ w d]
    by (simp add: length_deque_list [OF d(1)])
  have ln: "length new = n * ?es" using lc fit a(4) by (simp add: new_def length_blit)
  have en: "take (deque_len d) (elems ?es new) = deque_list w d"
  proof -
    have "0 * ?es + length (concat (deque_list w d)) \<le> length qs" using lc fit by simp
    then have "elems ?es new = blit 0 (deque_list w d) (elems ?es qs)"
      using elems_blit [OF es lc, of 0 qs] elems_concat [OF es, of "deque_list w d"] deque_list_elem_length [of _ w d] lc
      by (simp add: new_def)
    then show ?thesis by (simp add: blit_def length_deque_list [OF d(1)])
  qed
  have "owned p \<and> block_at w2 p (deque_cap_bytes d)" if "deque_data d = Some p" for p
    using that d(1) qb w2(3) by (auto simp: deque_inv_def deque_cap_bytes_eq [OF d(1)] block_at_def deque_blocks_def)
  from dealloc_opt [OF w2(2) this] obtain w3 where w3: "tda_dealloc al w2 (deque_data d) (deque_cap_bytes d) = Some w3"
    "inv w3" "heap w3 = (\<lambda>r. if r \<in> set_option (deque_data d) then None else heap w2 r)" by blast
  have h3: "heap w3 r = (if r \<in> set_option (deque_data d) then None else if r = q then Some new else heap w r)" for r
    using w2(3) w3(3) by simp
  have q3: "heap w3 q = Some new" using h3 qb by (simp add: deque_blocks_def)
  have "n * ?es \<le> PTRDIFF_MAX" using object_size [OF w3(2) a(2) q3] ln by simp
  moreover have "q \<noteq> deque_self d" using qb by (simp add: deque_blocks_def)
  moreover have "deque_self d \<notin> set_option (deque_data d)" using d(1) by (auto simp: deque_inv_def)
  ultimately have "deque_inv owned w3 d'"
    using d(1) a(2) n ln q3 h3 [of "deque_self d"] by (auto simp: deque_inv_def d'_def block_at_def)
  moreover have "deque_frame w d w3 d'"
    using qb a(3) h3 d(1)
    by (auto simp: deque_frame_def frame_def d'_def deque_blocks_def deque_inv_def split: option.splits if_splits)
  moreover have "deque_list w3 d' = deque_list w d"
    using en q3 by (simp add: deque_list_def deque_ring_def deque_cells_def d'_def)
  ultimately show ?thesis using w2(1) w3(1,2) by blast
qed

lemma deque_reserve_spec:
  assumes w: "inv w" and d: "deque_inv owned w d" "deque_al d = al"
  shows "\<exists>st w' d'. tda_deque_reserve w d n = Some (st, w', d') \<and> inv w' \<and> deque_reserved owned w d n st w' d'"
proof -
  let ?es = "deque_elem_size d"
  note unf = tda_deque_reserve_def assert_deque_ok [OF d(1)] d(2)
  consider (fits) "n \<le> deque_cap d" | (over) "deque_cap d < n" "SIZE_MAX < n * ?es"
    | (ask) "deque_cap d < n" "n * ?es \<le> SIZE_MAX" by linarith
  then show ?thesis
  proof cases
    case fits
    then show ?thesis using w deque_kept_refl [OF d(1) refl] by (simp add: unf deque_reserved_def)
  next
    case over
    then show ?thesis using w by (simp add: unf deque_reserved_def ckd_mul_def)
  next
    case ask
    have n: "deque_len d \<le> n" "0 < n" using ask(1) deque_len_le [OF d(1)] by simp_all
    show ?thesis
    proof (rule alloc_cases [OF w ask(2)])
      fix w1 assume "tda_alloc al w (n * ?es) = Some (None, w1)" "inv w1" "heap w1 = heap w"
      then show ?thesis using ask by (simp add: unf deque_reserved_def ckd_mul_def)
    next
      fix q w1 qs assume a: "tda_alloc al w (n * ?es) = Some (Some q, w1)" "inv w1" "owned q" "heap w q = None"
        "length qs = n * ?es" "heap w1 = (heap w)(q \<mapsto> qs)"
      define d' where "d' = d\<lparr>deque_data := Some q, deque_cap := n, deque_head := 0\<rparr>"
      obtain w2 w3 where u: "deque_copy_out w1 d (Some (q, 0)) = Some w2"
        "tda_dealloc al w2 (deque_data d) (deque_cap_bytes d) = Some w3" "inv w3"
        "deque_inv owned w3 d'" "deque_frame w d w3 d'" "deque_list w3 d' = deque_list w d"
        using deque_unroll [OF w d n a(2-6)] unfolding d'_def by blast
      then show ?thesis
        using ask a(1) assert_deque_ok [OF u(4)] by (simp add: unf deque_reserved_def deque_kept_def ckd_mul_def d'_def)
    qed
  qed
qed

lemma deque_grow_spec:
  assumes w: "inv w" and d: "deque_inv owned w d" "deque_al d = al" and full: "deque_len d = deque_cap d"
  shows "\<exists>st w' d'. deque_grow w d = Some (st, w', d') \<and> inv w' \<and> deque_reserved owned w d (deque_len d + 1) st w' d'"
proof -
  have cap: "deque_cap d \<noteq> SIZE_MAX" using deque_cap_le [OF d(1)] by (auto simp: PTRDIFF_MAX_num SIZE_MAX_num)
  have next_cap: "deque_cap d + 1 \<le> deque_next_cap d"
    using cap deque_cap_le [OF d(1)]
    by (auto simp: deque_next_cap_def DEQUE_GROWTH_BASE_def DEQUE_GROWTH_FACTOR_def ckd_mul_def PTRDIFF_MAX_num SIZE_MAX_num)
  obtain st1 w1 d1 where r1: "tda_deque_reserve w d (deque_next_cap d) = Some (st1, w1, d1)" "inv w1"
    "deque_reserved owned w d (deque_next_cap d) st1 w1 d1"
    using deque_reserve_spec [OF w d] by blast
  have d1: "deque_inv owned w1 d1" "deque_al d1 = al" using deque_reserved_inv [OF d r1(3)] by simp_all
  show ?thesis
  proof (cases "TDA_STATUS_IS_OK st1 \<or> deque_next_cap d \<le> deque_cap d1 + 1")
    case True
    then show ?thesis
      using cap full r1 deque_reserved_weaken [OF r1(3)] next_cap by (simp add: deque_grow_def)
  next
    case retry: False
    then have st1: "st1 = TDA_STATUS_ERR_NO_MEM" by (cases st1) auto
    then have "d1 = d" using r1(3) by (simp add: deque_reserved_def)
    obtain st2 w2 d2 where r2: "tda_deque_reserve w1 d1 (deque_cap d1 + 1) = Some (st2, w2, d2)" "inv w2"
      "deque_reserved owned w1 d1 (deque_cap d1 + 1) st2 w2 d2"
      using deque_reserve_spec [OF r1(2) d1] by blast
    show ?thesis
      using cap retry full r1(1) r2 deque_reserved_retry [OF r1(3) [unfolded st1] r2(3)] \<open>d1 = d\<close>
      by (simp add: deque_grow_def)
  qed
qed

lemma deque_reserve_one_spec:
  assumes "inv w" "deque_inv owned w d" "deque_al d = al"
  shows "\<exists>st w' d'. deque_reserve_one w d = Some (st, w', d') \<and> inv w' \<and> deque_reserved owned w d (deque_len d + 1) st w' d'"
proof (cases "deque_len d = deque_cap d")
  case True
  with deque_grow_spec [OF assms] show ?thesis by (simp add: deque_reserve_one_def)
next
  case False
  then have "deque_len d + 1 \<le> deque_cap d" using deque_len_le [OF assms(2)] by simp
  then show ?thesis
    using False assms by (simp add: deque_reserve_one_def deque_reserved_def deque_kept_refl)
qed

lemma deque_reserve_for_spec:
  assumes w: "inv w" and d: "deque_inv owned w d" "deque_al d = al" and n: "deque_cap d < n"
  shows "\<exists>st w' d'. deque_reserve_for w d n = Some (st, w', d') \<and> inv w' \<and> deque_reserved owned w d n st w' d'"
proof (cases "n < deque_next_cap d")
  case False
  with deque_reserve_spec [OF w d, of n] n show ?thesis by (simp add: deque_reserve_for_def)
next
  case True
  obtain st1 w1 d1 where r1: "tda_deque_reserve w d (deque_next_cap d) = Some (st1, w1, d1)" "inv w1"
    "deque_reserved owned w d (deque_next_cap d) st1 w1 d1"
    using deque_reserve_spec [OF w d] by blast
  have d1: "deque_inv owned w1 d1" "deque_al d1 = al" using deque_reserved_inv [OF d r1(3)] by simp_all
  show ?thesis
  proof (cases st1)
    case TDA_STATUS_OK
    then show ?thesis
      using True n r1 deque_reserved_weaken [OF r1(3)] by (simp add: deque_reserve_for_def)
  next
    case TDA_STATUS_ERR_NO_MEM
    obtain st2 w2 d2 where r2: "tda_deque_reserve w1 d1 n = Some (st2, w2, d2)" "inv w2"
      "deque_reserved owned w1 d1 n st2 w2 d2"
      using deque_reserve_spec [OF r1(2) d1] by blast
    show ?thesis
      using True n TDA_STATUS_ERR_NO_MEM r1(1) r2
        deque_reserved_retry [OF r1(3) [unfolded TDA_STATUS_ERR_NO_MEM] r2(3)]
      by (simp add: deque_reserve_for_def)
  qed
qed

end

section \<open>Effects of the operations\<close>

definition deque_updated ::
  "(ptr \<Rightarrow> bool) \<Rightarrow> 's world \<Rightarrow> 's deque \<Rightarrow> 's world \<Rightarrow> 's deque \<Rightarrow> byte list list \<Rightarrow> bool" where
  "deque_updated owned w d w' d' xs = (deque_inv owned w' d' \<and> deque_frame w d w' d' \<and> deque_list w' d' = xs)"

definition deque_outcome ::
  "(ptr \<Rightarrow> bool) \<Rightarrow> 's world \<Rightarrow> 's deque \<Rightarrow> tda_Status \<Rightarrow> 's world \<Rightarrow> 's deque \<Rightarrow> byte list list \<Rightarrow> bool"
where
  "deque_outcome owned w d st w' d' xs =
     (if st = TDA_STATUS_OK then deque_updated owned w d w' d' xs else d' = d \<and> heap w' = heap w)"

text \<open>Stepping the head back puts the last cell of the ring in front; forward, the first one last.\<close>

lemma rotate1_back: "rotate1 ys = xs \<Longrightarrow> ys \<noteq> [] \<Longrightarrow> ys = last xs # butlast xs"
  by (cases ys) auto

lemma deque_retreat_ok:
  assumes d: "deque_inv owned w d" "0 < deque_cap d"
  shows "deque_inv owned w (deque_retreat d)" and "deque_frame w d w (deque_retreat d)"
    and "deque_ring w (deque_retreat d) = last (deque_ring w d) # butlast (deque_ring w d)"
proof -
  have h: "deque_head d < deque_cap d" using d by (auto simp: deque_inv_def split: option.splits)
  have lc: "length (deque_cells w d) = deque_cap d" by (rule length_deque_cells [OF d(1)])
  have e: "deque_retreat d = d\<lparr>deque_head := ring_prev (deque_cap d) (deque_head d)\<rparr>"
    by (simp add: deque_retreat_def ring_prev_def)
  show "deque_inv owned w (deque_retreat d)"
    using d ring_prev_less [OF h] by (auto simp: e deque_inv_def split: option.splits)
  show "deque_frame w d w (deque_retreat d)" by (simp add: e deque_frame_refl)
  have "rotate1 (deque_ring w (deque_retreat d)) = deque_ring w d"
    using ring_prev [of "deque_head d" "deque_cells w d"] h lc by (simp add: deque_ring_def e)
  moreover have "deque_ring w (deque_retreat d) \<noteq> []" using lc d(2) by (auto simp: deque_ring_def e)
  ultimately show "deque_ring w (deque_retreat d) = last (deque_ring w d) # butlast (deque_ring w d)"
    by (rule rotate1_back)
qed

lemma deque_advance_ok:
  assumes d: "deque_inv owned w d" "0 < deque_cap d"
  shows "deque_inv owned w (deque_advance d)" and "deque_frame w d w (deque_advance d)"
    and "deque_ring w (deque_advance d) = rotate1 (deque_ring w d)"
proof -
  have h: "deque_head d < deque_cap d" using d by (auto simp: deque_inv_def split: option.splits)
  have lc: "length (deque_cells w d) = deque_cap d" by (rule length_deque_cells [OF d(1)])
  have e: "deque_advance d = d\<lparr>deque_head := ring_next (deque_cap d) (deque_head d)\<rparr>"
    by (simp add: deque_advance_def ring_next_def)
  show "deque_inv owned w (deque_advance d)"
    using d ring_next_less [OF h] by (auto simp: e deque_inv_def split: option.splits)
  show "deque_frame w d w (deque_advance d)" by (simp add: e deque_frame_refl)
  show "deque_ring w (deque_advance d) = rotate1 (deque_ring w d)"
    using ring_next [of "deque_head d" "deque_cells w d"] h lc by (simp add: deque_ring_def e)
qed

lemma deque_retreat_fields [simp]:
  "deque_len (deque_retreat d) = deque_len d" "deque_cap (deque_retreat d) = deque_cap d"
  "deque_elem_size (deque_retreat d) = deque_elem_size d" "deque_al (deque_retreat d) = deque_al d"
  by (simp_all add: deque_retreat_def)

lemma deque_advance_fields [simp]:
  "deque_len (deque_advance d) = deque_len d" "deque_cap (deque_advance d) = deque_cap d"
  "deque_elem_size (deque_advance d) = deque_elem_size d" "deque_al (deque_advance d) = deque_al d"
  by (simp_all add: deque_advance_def)

text \<open>The shifts of insertion and removal on a ring \<open>R\<close>.\<close>

lemma ring_insert_front:
  assumes "idx \<le> len" "len < length R"
  shows "take (len + 1) ((fold (\<lambda>i R. R[i := R ! (i + 1)]) [0..<idx] (last R # butlast R))[idx := x])
    = take idx (take len R) @ x # drop idx (take len R)"
proof -
  obtain k where k: "len = idx + k" using assms(1) le_Suc_ex by blast
  let ?R = "last R # butlast R"
  have R: "length ?R = length R" "slice 1 idx ?R = take idx R" "drop (idx + 1) ?R = drop idx (butlast R)"
    using assms by (auto simp: slice_def take_butlast)
  have "fold (\<lambda>i R. R[i := R ! (i + 1)]) [0..<idx] ?R = take idx R @ drop idx ?R"
    using fold_shift_down [of 0 idx ?R] assms R by simp
  also have "drop idx ?R = ?R ! idx # drop idx (butlast R)"
    using assms R Cons_nth_drop_Suc [of idx ?R] by simp
  finally have "(fold (\<lambda>i R. R[i := R ! (i + 1)]) [0..<idx] ?R)[idx := x] = take idx R @ x # drop idx (butlast R)"
    using assms by (simp add: list_update_append)
  then show ?thesis using assms k by (simp add: drop_take butlast_conv_take min_def)
qed

lemma ring_insert_back:
  assumes "idx \<le> len" "len < length R"
  shows "take (len + 1) ((fold (\<lambda>i R. R[i := R ! (i - 1)]) (rev [idx + 1..<len + 1]) R)[idx := x])
    = take idx (take len R) @ x # drop idx (take len R)"
proof -
  obtain k where k: "len = idx + k" using assms(1) le_Suc_ex by blast
  have "fold (\<lambda>i R. R[i := R ! (i - 1)]) (rev [idx + 1..<len + 1]) R
      = take (idx + 1) R @ slice idx (len - idx) R @ drop (len + 1) R"
    using fold_shift_up [of "idx + 1" "len + 1" R] assms by simp
  also have "take (idx + 1) R = take idx R @ [R ! idx]" using assms by (simp add: take_Suc_conv_app_nth)
  finally have "(fold (\<lambda>i R. R[i := R ! (i - 1)]) (rev [idx + 1..<len + 1]) R)[idx := x]
      = take idx R @ x # slice idx (len - idx) R @ drop (len + 1) R"
    using assms by (simp add: list_update_append)
  then show ?thesis using assms k by (auto simp: slice_def drop_take min_def)
qed

lemma ring_remove_front:
  assumes "idx < len" "len \<le> length R"
  shows "take (len - 1) (rotate1 (fold (\<lambda>i R. R[i := R ! (i - 1)]) (rev [1..<idx + 1]) R))
    = take idx (take len R) @ drop (idx + 1) (take len R)"
proof -
  obtain k where k: "len = Suc (idx + k)" using assms(1) less_imp_Suc_add by blast
  obtain x R' where R: "R = x # R'" using assms by (cases R) auto
  have "fold (\<lambda>i R. R[i := R ! (i - 1)]) (rev [1..<idx + 1]) R = take 1 R @ slice 0 idx R @ drop (idx + 1) R"
    using fold_shift_up [of 1 "idx + 1" R] assms by simp
  then have "rotate1 (fold (\<lambda>i R. R[i := R ! (i - 1)]) (rev [1..<idx + 1]) R) = take idx R @ drop (idx + 1) R @ [x]"
    by (simp add: R slice_def)
  then show ?thesis using assms k by (simp add: drop_take min_def)
qed

lemma ring_remove_back:
  assumes "idx < len" "len \<le> length R"
  shows "take (len - 1) (fold (\<lambda>i R. R[i := R ! (i + 1)]) [idx..<len - 1] R)
    = take idx (take len R) @ drop (idx + 1) (take len R)"
proof -
  obtain k where k: "len = Suc (idx + k)" using assms(1) less_imp_Suc_add by blast
  have "fold (\<lambda>i R. R[i := R ! (i + 1)]) [idx..<len - 1] R
      = take idx R @ slice (idx + 1) (len - 1 - idx) R @ drop (len - 1) R"
    using assms by (intro fold_shift_down) auto
  then show ?thesis using assms k by (auto simp: slice_def drop_take min_def)
qed

end
