(* ===== verification/Tda_Deque_Ops.thy ===== *)
theory Tda_Deque_Ops
  imports Tda_Deque_Laws
begin

text \<open>
  The specifications of the deque's operations (\<open>src/ds/deque.c\<close>): what each does to the
  sequence the deque stands for, which blocks it takes and gives back, and that an operation
  that reports \<open>ERR_NO_MEM\<close> has changed nothing.
\<close>

section \<open>Updates\<close>

lemma deque_updated_from:
  assumes "deque_frame w d w1 d1" "deque_rung owned w1 d1 w' R" "n \<le> deque_cap d1"
  shows "deque_updated owned w d w' (d1\<lparr>deque_len := n\<rparr>) (take n R)"
  using assms by (auto simp: deque_updated_def deque_rung_def deque_list_def intro: deque_inv_len deque_frame_trans)

lemma deque_rung_write:
  "deque_rung owned w d w1 R \<Longrightarrow> deque_rung owned w1 d w2 ((deque_ring w1 d)[k := x]) \<Longrightarrow> deque_rung owned w d w2 (R[k := x])"
  by (auto simp: deque_rung_def intro: deque_frame_trans)

lemma take_ring_room:
  assumes "deque_inv owned w d" "n < deque_cap d"
  shows "n < length (deque_ring w d)"
  using assms by (simp add: length_deque_ring)

context object_allocator
begin

text \<open>After \<open>reserve_one\<close> there is a slot to spare; what follows works on the ring \<open>deque_ring w1 d1\<close>.\<close>

lemma deque_reserve_one_cases:
  assumes w: "inv w" and d: "deque_inv owned w d" "deque_al d = al"
  obtains (refused) w1 where "deque_reserve_one w d = Some (TDA_STATUS_ERR_NO_MEM, w1, d)" "inv w1" "heap w1 = heap w"
  | (room) w1 d1 where "deque_reserve_one w d = Some (TDA_STATUS_OK, w1, d1)" "inv w1" "deque_inv owned w1 d1"
      "deque_frame w d w1 d1" "deque_len d1 = deque_len d" "deque_len d < deque_cap d1"
      "take (deque_len d) (deque_ring w1 d1) = deque_list w d" "deque_elem_size d1 = deque_elem_size d"
proof -
  obtain st w1 d1 where r: "deque_reserve_one w d = Some (st, w1, d1)" "inv w1"
    "deque_reserved owned w d (deque_len d + 1) st w1 d1"
    using deque_reserve_one_spec [OF w d] by blast
  show ?thesis
  proof (cases st)
    case TDA_STATUS_ERR_NO_MEM
    then show ?thesis using refused r by (simp add: deque_reserved_def)
  next
    case TDA_STATUS_OK
    note k = deque_reserved_ok [OF r(3) [unfolded TDA_STATUS_OK]]
    show ?thesis by (rule room [OF r(1,2) [unfolded TDA_STATUS_OK] k(1-3) _ _ k(6)]) (use k in \<open>auto simp: deque_list_def\<close>)
  qed
qed

lemma deque_push_back_spec:
  assumes w: "inv w" and d: "deque_inv owned w d" "deque_al d = al" and x: "length x = deque_elem_size d"
  shows "\<exists>st w' d'. tda_deque_push_back w d x = Some (st, w', d') \<and> inv w'
    \<and> deque_outcome owned w d st w' d' (deque_list w d @ [x])"
proof (cases rule: deque_reserve_one_cases [OF w d])
  case (1 w1)
  then show ?thesis by (simp add: tda_deque_push_back_def assert_deque_ok [OF d(1)] deque_outcome_def)
next
  case (2 w1 d1)
  have x1: "length x = deque_elem_size d1" using x 2 by simp
  obtain p off w2 where w2: "deque_elem_at d1 (deque_len d) = Some (p, off)" "mem_write w1 p off x = Some w2"
    "inv w2" "deque_rung owned w1 d1 w2 ((deque_ring w1 d1)[deque_len d := x])"
    by (rule deque_write_elem [OF 2(2,3,6) x1])
  have "tda_deque_push_back w d x = Some (TDA_STATUS_OK, w2, d1\<lparr>deque_len := deque_len d + 1\<rparr>)"
    using 2(1,5,8) w2(1,2) x by (simp add: tda_deque_push_back_def assert_deque_ok [OF d(1)])
  moreover have "take (deque_len d + 1) ((deque_ring w1 d1)[deque_len d := x]) = deque_list w d @ [x]"
    using 2(7) take_ring_room [OF 2(3,6)] by (simp add: take_Suc_conv_app_nth)
  ultimately show ?thesis
    using deque_updated_from [OF 2(4) w2(4), of "deque_len d + 1"] 2(6) w2(3) by (simp add: deque_outcome_def)
qed

lemma deque_push_front_spec:
  assumes w: "inv w" and d: "deque_inv owned w d" "deque_al d = al" and x: "length x = deque_elem_size d"
  shows "\<exists>st w' d'. tda_deque_push_front w d x = Some (st, w', d') \<and> inv w'
    \<and> deque_outcome owned w d st w' d' (x # deque_list w d)"
proof (cases rule: deque_reserve_one_cases [OF w d])
  case (1 w1)
  then show ?thesis by (simp add: tda_deque_push_front_def assert_deque_ok [OF d(1)] deque_outcome_def)
next
  case (2 w1 d1)
  define d2 where "d2 = deque_retreat d1"
  have c: "0 < deque_cap d1" using 2(6) by simp
  note k = deque_retreat_ok [OF 2(3) c, folded d2_def]
  have flds: "deque_len d2 = deque_len d" "deque_cap d2 = deque_cap d1" "deque_elem_size d2 = deque_elem_size d"
    using 2(5,8) by (simp_all add: d2_def)
  have x2: "length x = deque_elem_size d2" and c2: "0 < deque_cap d2" using x c flds by simp_all
  obtain p off w2 where w2: "deque_data d2 = Some p" "deque_elem_at d2 0 = Some (p, off)" "mem_write w1 p off x = Some w2"
    "inv w2" "deque_rung owned w1 d2 w2 ((deque_ring w1 d2)[0 := x])"
    by (rule deque_write_elem [OF 2(2) k(1) c2 x2])
  have h: "deque_head d2 < deque_cap d2" using k(1) w2(1) by (simp add: deque_inv_def)
  have "deque_slot_at d2 (deque_head d2) = Some (p, off)"
    using deque_slot_at_ok [OF k(1) w2(1), of "deque_head d2"] deque_elem_at_ok [OF k(1) w2(1) c2] h w2(2)
    by (simp add: ring_slot_def)
  then have "tda_deque_push_front w d x = Some (TDA_STATUS_OK, w2, d2\<lparr>deque_len := deque_len d + 1\<rparr>)"
    using 2(1,5,8) w2(3) x flds by (simp add: tda_deque_push_front_def assert_deque_ok [OF d(1)] Let_def d2_def [symmetric])
  moreover have "take (deque_len d + 1) ((deque_ring w1 d2)[0 := x]) = x # deque_list w d"
    using 2(7) take_ring_room [OF 2(3,6)] by (simp add: k(3) take_butlast)
  ultimately show ?thesis
    using deque_updated_from [OF deque_frame_trans [OF 2(4) k(2)] w2(5), of "deque_len d + 1"] 2(6) w2(4) flds(2)
    by (simp add: deque_outcome_def)
qed

lemma deque_insert_spec:
  assumes w: "inv w" and d: "deque_inv owned w d" "deque_al d = al" and x: "length x = deque_elem_size d"
    and idx: "idx \<le> deque_len d"
  shows "\<exists>st w' d'. tda_deque_insert w d idx x = Some (st, w', d') \<and> inv w'
    \<and> deque_outcome owned w d st w' d' (take idx (deque_list w d) @ x # drop idx (deque_list w d))"
proof (cases rule: deque_reserve_one_cases [OF w d])
  case (1 w1)
  then show ?thesis using idx by (simp add: tda_deque_insert_def assert_deque_ok [OF d(1)] deque_outcome_def)
next
  case (2 w1 d1)
  let ?n = "deque_len d" and ?L = "take idx (deque_list w d) @ x # drop idx (deque_list w d)"
  have c: "0 < deque_cap d1" using 2(6) by simp
  have len: "?n < length (deque_ring w1 d1)" by (rule take_ring_room [OF 2(3,6)])
  have step: "\<exists>w3. Option.bind (deque_elem_at d2 idx) (\<lambda>(p, off). mem_write w2 p off (take (deque_elem_size d2) x)) = Some w3
      \<and> inv w3 \<and> deque_updated owned w d w3 d2 ?L"
    if d2: "deque_frame w1 d1 w1 d2" "deque_rung owned w1 d2 w2 R" "inv w2" "take (?n + 1) (R[idx := x]) = ?L"
      "deque_len d2 = ?n + 1" "deque_cap d2 = deque_cap d1" for d2 w2 R
  proof -
    have x2: "length x = deque_elem_size d2" using x d2(1) 2(8) by (simp add: deque_frame_def)
    have i2: "idx < deque_cap d2" using idx 2(6) d2(6) by simp
    have d2': "deque_inv owned w2 d2" using d2(2) by (simp add: deque_rung_def)
    obtain p off w3 where w3: "deque_elem_at d2 idx = Some (p, off)" "mem_write w2 p off x = Some w3" "inv w3"
      "deque_rung owned w2 d2 w3 ((deque_ring w2 d2)[idx := x])"
      by (rule deque_write_elem [OF d2(3) d2' i2 x2])
    have "?n + 1 \<le> deque_cap d2" using 2(6) d2(6) by simp
    from deque_updated_from [OF deque_frame_trans [OF 2(4) d2(1)] deque_rung_write [OF d2(2) w3(4)] this]
    have "deque_updated owned w d w3 (d2\<lparr>deque_len := deque_len d2\<rparr>) ?L" unfolding d2(4,5) .
    then show ?thesis using w3(1-3) x2 by simp
  qed
  show ?thesis
  proof (cases "idx \<le> ?n div 2")
    case True
    define d2 where "d2 = (deque_retreat d1)\<lparr>deque_len := ?n + 1\<rparr>"
    note k = deque_retreat_ok [OF 2(3) c]
    have d2: "deque_inv owned w1 d2" "deque_frame w1 d1 w1 d2"
      "deque_ring w1 d2 = last (deque_ring w1 d1) # butlast (deque_ring w1 d1)"
      using deque_inv_len [OF k(1), of "?n + 1"] k(2,3) 2(6) by (simp_all add: d2_def)
    have flds: "deque_len d2 = ?n + 1" "deque_cap d2 = deque_cap d1" by (simp_all add: d2_def)
    obtain w2 where w2: "for_loop [0..<idx] (\<lambda>i. deque_move_elem d2 i (i + 1)) w1 = Some w2" "inv w2"
      "deque_rung owned w1 d2 w2 (fold (\<lambda>i R. R[i := R ! (i + 1)]) [0..<idx] (deque_ring w1 d2))"
      using deque_move_loop [OF 2(2) deque_rung_start [OF d2(1)], of "[0..<idx]" "\<lambda>i. i + 1"] idx 2(6) flds(2) by auto
    have "take (?n + 1) ((fold (\<lambda>i R. R[i := R ! (i + 1)]) [0..<idx] (deque_ring w1 d2))[idx := x]) = ?L"
      unfolding d2(3) ring_insert_front [OF idx len] 2(7) ..
    from step [OF d2(2) w2(3,2) this flds] obtain w3 where w3: "Option.bind (deque_elem_at d2 idx)
        (\<lambda>(p, off). mem_write w2 p off (take (deque_elem_size d2) x)) = Some w3" "inv w3" "deque_updated owned w d w3 d2 ?L"
      by blast
    have "tda_deque_insert w d idx x = Some (TDA_STATUS_OK, w3, d2)"
      using True idx 2(1,5) w2(1) w3(1)
      by (auto simp: tda_deque_insert_def assert_deque_ok [OF d(1)] d2_def Let_def bind_eq_Some_conv)
    then show ?thesis using w3(2,3) by (simp add: deque_outcome_def)
  next
    case False
    define d2 where "d2 = d1\<lparr>deque_len := ?n + 1\<rparr>"
    have d2: "deque_inv owned w1 d2" "deque_frame w1 d1 w1 d2" "deque_ring w1 d2 = deque_ring w1 d1"
      using deque_inv_len [OF 2(3), of "?n + 1"] 2(6) by (simp_all add: d2_def deque_frame_refl)
    have flds: "deque_len d2 = ?n + 1" "deque_cap d2 = deque_cap d1" by (simp_all add: d2_def)
    have "i < deque_cap d2 \<and> i - 1 < deque_cap d2" if "i \<in> set (rev [idx + 1..<?n + 1])" for i
      using that 2(6) flds(2) by auto
    from deque_move_loop [OF 2(2) deque_rung_start [OF d2(1)] this]
    obtain w2 where w2: "for_loop (rev [idx + 1..<?n + 1]) (\<lambda>i. deque_move_elem d2 i (i - 1)) w1 = Some w2" "inv w2"
      "deque_rung owned w1 d2 w2 (fold (\<lambda>i R. R[i := R ! (i - 1)]) (rev [idx + 1..<?n + 1]) (deque_ring w1 d2))" by blast
    have "take (?n + 1) ((fold (\<lambda>i R. R[i := R ! (i - 1)]) (rev [idx + 1..<?n + 1]) (deque_ring w1 d2))[idx := x]) = ?L"
      unfolding d2(3) ring_insert_back [OF idx len] 2(7) ..
    from step [OF d2(2) w2(3,2) this flds] obtain w3 where w3: "Option.bind (deque_elem_at d2 idx)
        (\<lambda>(p, off). mem_write w2 p off (take (deque_elem_size d2) x)) = Some w3" "inv w3" "deque_updated owned w d w3 d2 ?L"
      by blast
    have "tda_deque_insert w d idx x = Some (TDA_STATUS_OK, w3, d2)"
      using False idx 2(1,5) w2(1) w3(1)
      by (auto simp: tda_deque_insert_def assert_deque_ok [OF d(1)] d2_def Let_def bind_eq_Some_conv simp del: upt_Suc)
    then show ?thesis using w3(2,3) by (simp add: deque_outcome_def)
  qed
qed

end

section \<open>Removal\<close>

lemma deque_cut:
  assumes "deque_inv owned w d" "n \<le> deque_len d"
  shows "deque_updated owned w d w (d\<lparr>deque_len := n\<rparr>) (take n (deque_list w d))"
  using assms deque_len_le [OF assms(1)]
  by (simp add: deque_updated_def deque_inv_len deque_frame_refl deque_list_def min_absorb1)

lemma deque_pop_back_spec:
  assumes d: "deque_inv owned w d" and ne: "0 < deque_len d"
  shows "\<exists>d'. tda_deque_pop_back d = Some d' \<and> deque_updated owned w d w d' (butlast (deque_list w d))"
  using deque_cut [OF d, of "deque_len d - 1"] ne
  by (simp add: tda_deque_pop_back_def assert_deque_ok [OF d] butlast_conv_take length_deque_list [OF d])

lemma deque_pop_front_spec:
  assumes d: "deque_inv owned w d" and ne: "0 < deque_len d"
  shows "\<exists>d'. tda_deque_pop_front d = Some d' \<and> deque_updated owned w d w d' (tl (deque_list w d))"
proof -
  have len: "deque_len d \<le> deque_cap d" by (rule deque_len_le [OF d])
  have c: "0 < deque_cap d" using ne len by simp
  note k = deque_advance_ok [OF d c]
  have "deque_updated owned w d w ((deque_advance d)\<lparr>deque_len := deque_len d - 1\<rparr>) (take (deque_len d - 1) (rotate1 (deque_ring w d)))"
    using deque_updated_from [OF k(2) deque_rung_start [OF k(1)], of "deque_len d - 1"] len by (simp add: k(3))
  moreover have "take (deque_len d - 1) (rotate1 (deque_ring w d)) = tl (deque_list w d)"
    using ne len length_deque_ring [OF d] by (cases "deque_ring w d") (auto simp: deque_list_def take_Cons')
  ultimately show ?thesis using ne by (simp add: tda_deque_pop_front_def assert_deque_ok [OF d] Let_def)
qed

lemma deque_clear_spec:
  assumes d: "deque_inv owned w d"
  shows "\<exists>d'. tda_deque_clear d = Some d' \<and> deque_updated owned w d w d' []"
proof -
  have "deque_inv owned w (d\<lparr>deque_len := 0, deque_head := 0\<rparr>)"
    using d by (auto simp: deque_inv_def split: option.splits)
  then show ?thesis
    by (simp add: tda_deque_clear_def assert_deque_ok [OF d] deque_updated_def deque_frame_refl deque_list_def)
qed

context object_allocator
begin

lemma deque_remove_spec:
  assumes w: "inv w" and d: "deque_inv owned w d" and idx: "idx < deque_len d"
  shows "\<exists>w' d'. tda_deque_remove w d idx = Some (w', d') \<and> inv w'
    \<and> deque_updated owned w d w' d' (take idx (deque_list w d) @ drop (idx + 1) (deque_list w d))"
proof -
  let ?n = "deque_len d" and ?R = "deque_ring w d"
  have len: "?n \<le> deque_cap d" by (rule deque_len_le [OF d])
  have lr: "?n \<le> length ?R" using len length_deque_ring [OF d] by simp
  show ?thesis
  proof (cases "idx < ?n - idx - 1")
    case True
    have "i < deque_cap d \<and> i - 1 < deque_cap d" if "i \<in> set (rev [1..<idx + 1])" for i
      using that idx len by auto
    from deque_move_loop [OF w deque_rung_start [OF d] this]
    obtain w1 where w1: "for_loop (rev [1..<idx + 1]) (\<lambda>i. deque_move_elem d i (i - 1)) w = Some w1" "inv w1"
      "deque_rung owned w d w1 (fold (\<lambda>i R. R[i := R ! (i - 1)]) (rev [1..<idx + 1]) ?R)" by blast
    let ?F = "fold (\<lambda>i R. R[i := R ! (i - 1)]) (rev [1..<idx + 1]) ?R"
    have d1: "deque_inv owned w1 d" "deque_frame w d w1 d" "deque_ring w1 d = ?F" using w1(3) by (simp_all add: deque_rung_def)
    have c: "0 < deque_cap d" using idx len by simp
    note k = deque_advance_ok [OF d1(1) c]
    have "deque_updated owned w d w1 ((deque_advance d)\<lparr>deque_len := ?n - 1\<rparr>) (take (?n - 1) (rotate1 ?F))"
      using deque_updated_from [OF deque_frame_trans [OF d1(2) k(2)] deque_rung_start [OF k(1)], of "?n - 1"] len
      by (simp only: k(3) d1(3) deque_advance_fields)
    moreover have "tda_deque_remove w d idx = Some (w1, (deque_advance d)\<lparr>deque_len := ?n - 1\<rparr>)"
      using True idx w1(1) by (simp add: tda_deque_remove_def assert_deque_ok [OF d] del: upt_Suc)
    ultimately show ?thesis using ring_remove_front [OF idx lr] w1(2) by (simp add: deque_list_def del: upt_Suc)
  next
    case False
    have "i < deque_cap d \<and> i + 1 < deque_cap d" if "i \<in> set [idx..<?n - 1]" for i using that len by auto
    from deque_move_loop [OF w deque_rung_start [OF d] this]
    obtain w1 where w1: "for_loop [idx..<?n - 1] (\<lambda>i. deque_move_elem d i (i + 1)) w = Some w1" "inv w1"
      "deque_rung owned w d w1 (fold (\<lambda>i R. R[i := R ! (i + 1)]) [idx..<?n - 1] ?R)" by blast
    have "?n - 1 \<le> deque_cap d" using len by simp
    from deque_updated_from [OF deque_frame_refl [OF refl] w1(3) this]
    have "deque_updated owned w d w1 (d\<lparr>deque_len := ?n - 1\<rparr>) (take idx (deque_list w d) @ drop (idx + 1) (deque_list w d))"
      unfolding ring_remove_back [OF idx lr] by (simp add: deque_list_def)
    moreover have "tda_deque_remove w d idx = Some (w1, d\<lparr>deque_len := ?n - 1\<rparr>)"
      using False idx w1(1) by (simp add: tda_deque_remove_def assert_deque_ok [OF d])
    ultimately show ?thesis using w1(2) by blast
  qed
qed

section \<open>Capacity\<close>

lemma deque_shrink_spec:
  assumes w: "inv w" and d: "deque_inv owned w d" "deque_al d = al"
  shows "\<exists>st w' d'. tda_deque_shrink_to_fit w d = Some (st, w', d') \<and> inv w'
    \<and> deque_outcome owned w d st w' d' (deque_list w d) \<and> (st = TDA_STATUS_OK \<longrightarrow> deque_cap d' = deque_len d)"
proof -
  let ?es = "deque_elem_size d"
  note unf = tda_deque_shrink_to_fit_def assert_deque_ok [OF d(1)] d(2)
  have len: "deque_len d \<le> deque_cap d" by (rule deque_len_le [OF d(1)])
  consider (full) "deque_len d = deque_cap d" | (empty) "deque_len d \<noteq> deque_cap d" "deque_len d = 0"
    | (cut) "deque_len d \<noteq> deque_cap d" "0 < deque_len d" by linarith
  then show ?thesis
  proof cases
    case full
    then show ?thesis using w d(1) by (simp add: unf deque_outcome_def deque_updated_def deque_frame_refl)
  next
    case empty
    then have "0 < deque_cap d" using len by simp
    then obtain p bs where b: "deque_data d = Some p" "owned p" "p \<noteq> deque_self d" "heap w p = Some bs"
      "length bs = deque_cap d * ?es" using deque_block [OF d(1)] by metis
    have "length bs = deque_cap_bytes d" using b(5) deque_cap_bytes_eq [OF d(1)] by simp
    from dealloc_some [OF w b(2,4) this] obtain w1 where
      w1: "tda_dealloc al w (Some p) (deque_cap_bytes d) = Some w1" "inv w1" "heap w1 = (heap w)(p := None)" .
    define d1 where "d1 = d\<lparr>deque_data := None, deque_cap := 0, deque_head := 0\<rparr>"
    have d1: "deque_inv owned w1 d1" using d(1) empty b(3) w1(3) by (simp add: deque_inv_def d1_def block_at_def)
    moreover have "deque_frame w d w1 d1"
      using b(1,3) w1(3) by (auto simp: deque_frame_def frame_def deque_blocks_def d1_def)
    moreover have "deque_list w1 d1 = deque_list w d" using empty by (simp add: deque_list_def d1_def)
    moreover have "tda_deque_shrink_to_fit w d = Some (TDA_STATUS_OK, w1, d1)"
      using empty b(1) w1(1) assert_deque_ok [OF d1] by (simp add: unf d1_def)
    ultimately show ?thesis using w1(2) empty by (simp add: deque_outcome_def deque_updated_def d1_def)
  next
    case cut
    have bytes: "deque_len_bytes d = deque_len d * ?es" by (rule deque_len_bytes_eq [OF d(1)])
    have sz: "deque_len d * ?es \<le> SIZE_MAX"
      by (rule le_trans [OF deque_bytes_exact(3) [OF d(1) len] PTRDIFF_MAX_le]) (use d(1) in \<open>simp add: deque_inv_def\<close>)
    show ?thesis
    proof (rule alloc_cases [OF w sz])
      fix w1 assume "tda_alloc al w (deque_len d * ?es) = Some (None, w1)" "inv w1" "heap w1 = heap w"
      then show ?thesis using cut bytes by (simp add: unf deque_outcome_def)
    next
      fix q w1 qs assume a: "tda_alloc al w (deque_len d * ?es) = Some (Some q, w1)" "inv w1" "owned q" "heap w q = None"
        "length qs = deque_len d * ?es" "heap w1 = (heap w)(q \<mapsto> qs)"
      define d' where "d' = d\<lparr>deque_data := Some q, deque_cap := deque_len d, deque_head := 0\<rparr>"
      obtain w2 w3 where u: "deque_copy_out w1 d (Some (q, 0)) = Some w2"
        "tda_dealloc al w2 (deque_data d) (deque_cap_bytes d) = Some w3" "inv w3"
        "deque_inv owned w3 d'" "deque_frame w d w3 d'" "deque_list w3 d' = deque_list w d"
        using deque_unroll [OF w d le_refl cut(2) a(2-6)] unfolding d'_def by blast
      then show ?thesis
        using cut a(1) bytes assert_deque_ok [OF u(4)] by (simp add: unf deque_outcome_def deque_updated_def d'_def)
    qed
  qed
qed

text \<open>Clearing the new slots one by one.\<close>

lemma deque_zero_loop:
  assumes "inv w1" "deque_rung owned w d w1 R" "m \<le> n" "n \<le> deque_cap d"
  shows "\<exists>w2. for_loop [m..<n] (deque_zero_elem d) w1 = Some w2 \<and> inv w2
    \<and> deque_rung owned w d w2 (take m R @ replicate (n - m) (replicate (deque_elem_size d) 0) @ drop n R)"
  using assms(3,4)
proof (induction n rule: dec_induct)
  case base
  then show ?case using assms(1,2) by simp
next
  case (step n)
  let ?z = "replicate (deque_elem_size d) 0 :: byte list"
  let ?R = "take m R @ replicate (n - m) ?z @ drop n R"
  obtain w2 where w2: "for_loop [m..<n] (deque_zero_elem d) w1 = Some w2" "inv w2" "deque_rung owned w d w2 ?R"
    using step by auto
  have d2: "deque_inv owned w2 d" "deque_ring w2 d = ?R" using w2(3) by (simp_all add: deque_rung_def)
  have lR: "n < length R" using assms(2) step.prems length_deque_ring [of owned w1 d] by (simp add: deque_rung_def)
  have n: "n < deque_cap d" and lz: "length ?z = deque_elem_size d" using step.prems by simp_all
  obtain p off w3 where w3: "deque_elem_at d n = Some (p, off)" "mem_write w2 p off ?z = Some w3" "inv w3"
    "deque_rung owned w2 d w3 ((deque_ring w2 d)[n := ?z])"
    by (rule deque_write_elem [OF w2(2) d2(1) n lz])
  have "?R[n := ?z] = take m R @ replicate (Suc n - m) ?z @ drop (Suc n) R"
    using lR step.hyps
    by (simp add: list_update_append Suc_diff_le Cons_nth_drop_Suc [symmetric] replicate_append_same)
  then have "deque_rung owned w d w3 (take m R @ replicate (Suc n - m) ?z @ drop (Suc n) R)"
    using deque_rung_write [OF w2(3) w3(4)] by simp
  moreover have "for_loop [m..<Suc n] (deque_zero_elem d) w1 = Some w3"
    using step.hyps w2(1) w3(1,2) by (simp add: for_loop_append deque_zero_elem_def mem_set_def)
  ultimately show ?case using w3(3) by blast
qed

lemma deque_resize_spec:
  assumes w: "inv w" and d: "deque_inv owned w d" "deque_al d = al"
  shows "\<exists>st w' d'. tda_deque_resize w d n = Some (st, w', d') \<and> inv w'
    \<and> deque_outcome owned w d st w' d'
        (take n (deque_list w d) @ replicate (n - deque_len d) (replicate (deque_elem_size d) 0))"
proof (cases "n \<le> deque_len d")
  case True
  then show ?thesis
    using w deque_cut [OF d(1) True] by (simp add: tda_deque_resize_def assert_deque_ok [OF d(1)] deque_outcome_def)
next
  case False
  let ?r = "if n > deque_cap d then deque_reserve_for w d n else Some (TDA_STATUS_OK, w, d)"
  have "\<exists>st w1 d1. ?r = Some (st, w1, d1) \<and> inv w1 \<and> deque_reserved owned w d n st w1 d1"
    using deque_reserve_for_spec [OF w d, of n] w deque_kept_refl [OF d(1) refl] by (auto simp: deque_reserved_def)
  then obtain st w1 d1 where r: "?r = Some (st, w1, d1)" "inv w1" "deque_reserved owned w d n st w1 d1" by blast
  show ?thesis
  proof (cases st)
    case TDA_STATUS_ERR_NO_MEM
    then show ?thesis
      using r False
      by (simp add: tda_deque_resize_def assert_deque_ok [OF d(1)] deque_outcome_def deque_reserved_def split: if_splits)
  next
    case ok: TDA_STATUS_OK
    note k = deque_reserved_ok [OF r(3) [unfolded ok]]
    have le: "deque_len d \<le> n" using False by simp
    obtain w2 where w2: "for_loop [deque_len d..<n] (deque_zero_elem d1) w1 = Some w2" "inv w2"
      "deque_rung owned w1 d1 w2 (take (deque_len d) (deque_ring w1 d1)
         @ replicate (n - deque_len d) (replicate (deque_elem_size d1) 0) @ drop n (deque_ring w1 d1))"
      using deque_zero_loop [OF r(2) deque_rung_start [OF k(1)] le k(4)] by blast
    note up = deque_updated_from [OF k(2) w2(3) k(4)]
    have "take (deque_len d) (deque_ring w1 d1) = deque_list w d" using k(3,5) by (simp add: deque_list_def)
    then have "deque_updated owned w d w2 (d1\<lparr>deque_len := n\<rparr>)
        (deque_list w d @ replicate (n - deque_len d) (replicate (deque_elem_size d) 0))"
      using up le k(6) by (simp add: length_deque_list [OF d(1)])
    moreover have "tda_deque_resize w d n = Some (TDA_STATUS_OK, w2, d1\<lparr>deque_len := n\<rparr>)"
      using False r(1) ok k(3) w2(1) up assert_deque_ok [of owned w2 "d1\<lparr>deque_len := n\<rparr>"]
      by (simp add: tda_deque_resize_def assert_deque_ok [OF d(1)] deque_updated_def)
    ultimately show ?thesis using w2(2) le by (simp add: deque_outcome_def length_deque_list [OF d(1)])
  qed
qed

section \<open>Access\<close>

lemma deque_set_spec:
  assumes w: "inv w" and d: "deque_inv owned' w d" and idx: "idx < deque_len d" and x: "length x = deque_elem_size d"
  shows "\<exists>w'. tda_deque_set w d idx x = Some w' \<and> inv w' \<and> deque_updated owned' w d w' d ((deque_list w d)[idx := x])"
proof -
  have i: "idx < deque_cap d" using idx deque_len_le [OF d] by simp
  obtain p off w' where w': "deque_elem_at d idx = Some (p, off)" "mem_write w p off x = Some w'" "inv w'"
    "deque_rung owned' w d w' ((deque_ring w d)[idx := x])"
    by (rule deque_write_elem [OF w d i x])
  have "deque_updated owned' w d w' d ((deque_list w d)[idx := x])"
    using deque_updated_from [OF deque_frame_refl [OF refl] w'(4) deque_len_le [OF d]] by (simp add: deque_list_def take_update_swap)
  then show ?thesis using w' x idx by (simp add: tda_deque_set_def assert_deque_ok [OF d])
qed

lemma deque_swap_elems_spec:
  assumes w: "inv w" and d: "deque_inv owned' w d" and ij: "i < deque_len d" "j < deque_len d"
  shows "\<exists>w'. tda_deque_swap_elems w d i j = Some w' \<and> inv w' \<and> deque_updated owned' w d w' d (swap_list i j (deque_list w d))"
proof (cases "i = j")
  case True
  then show ?thesis
    using w d ij by (simp add: tda_deque_swap_elems_def assert_deque_ok [OF d] deque_updated_def deque_frame_refl)
next
  case False
  have c: "i < deque_cap d" "j < deque_cap d" using ij deque_len_le [OF d] by simp_all
  obtain p a where ra: "deque_elem_at d i = Some (p, a)" "mem_read w p a (deque_elem_size d) = Some (deque_ring w d ! i)"
    using deque_elem_reads [OF d c(1)] by metis
  obtain q b where rb: "deque_elem_at d j = Some (q, b)" "mem_read w q b (deque_elem_size d) = Some (deque_ring w d ! j)"
    using deque_elem_reads [OF d c(2)] by metis
  define x y where "x = deque_ring w d ! i" and "y = deque_ring w d ! j"
  have l: "length x = deque_elem_size d" "length y = deque_elem_size d"
    using c deque_ring_elem_length [of _ w d] length_deque_ring [OF d] by (simp_all add: x_def y_def)
  obtain w1 where w1: "mem_write w p a y = Some w1" "inv w1" "deque_rung owned' w d w1 ((deque_ring w d)[i := y])"
    using deque_write_elem [OF w d c(1) l(2)] ra(1) by (metis option.inject prod.inject)
  have d1: "deque_inv owned' w1 d" "deque_ring w1 d = (deque_ring w d)[i := y]" using w1(3) by (simp_all add: deque_rung_def)
  obtain w2 where w2: "mem_write w1 q b x = Some w2" "inv w2" "deque_rung owned' w1 d w2 ((deque_ring w1 d)[j := x])"
    using deque_write_elem [OF w1(2) d1(1) c(2) l(1)] rb(1) by (metis option.inject prod.inject)
  have "tda_deque_swap_elems w d i j = Some w2"
    using False ij ra rb w1(1) w2(1) bytes_swap_exchanges [OF l]
    by (simp add: tda_deque_swap_elems_def assert_deque_ok [OF d] x_def [symmetric] y_def [symmetric])
  moreover have "deque_updated owned' w d w2 d (swap_list i j (deque_list w d))"
    using deque_updated_from [OF deque_frame_refl [OF refl] deque_rung_write [OF w1(3) w2(3)] deque_len_le [OF d]] ij
    by (simp add: deque_list_def swap_list_def take_update_swap x_def y_def)
  ultimately show ?thesis using w2(2) by blast
qed

end

section \<open>Birth, death and copies\<close>

definition deque_created ::
  "(ptr \<Rightarrow> bool) \<Rightarrow> 's al \<Rightarrow> 's world \<Rightarrow> tda_Status \<Rightarrow> 's deque option \<Rightarrow> 's world \<Rightarrow> bool" where
  "deque_created owned al w st r w' = (case r of
      None \<Rightarrow> st = TDA_STATUS_ERR_NO_MEM \<and> heap w' = heap w
    | Some d \<Rightarrow> st = TDA_STATUS_OK \<and> deque_inv owned w' d \<and> deque_al d = al
        \<and> (\<forall>q \<in> deque_blocks d. heap w q = None) \<and> (\<forall>q. q \<notin> deque_blocks d \<longrightarrow> heap w' q = heap w q))"

lemma deque_created_frame:
  assumes "deque_created owned al w st (Some d) w1" "deque_frame w1 d w2 d" "deque_inv owned w2 d"
  shows "deque_created owned al w st (Some d) w2"
  using assms by (simp add: deque_created_def deque_frame_def frame_def)

context object_allocator
begin

lemma deque_new_fail_spec:
  assumes "inv w1" "owned obj" "heap w1 obj = Some bs" "length bs = sizeof_tda_Deque"
    and "heap w obj = None" "heap w1 = (heap w)(obj \<mapsto> bs)"
  shows "\<exists>st r w'. deque_new_fail al w1 obj = Some (st, r, w') \<and> inv w'
    \<and> r = None \<and> st = TDA_STATUS_ERR_NO_MEM \<and> heap w' = heap w"
proof -
  obtain w' where "tda_dealloc al w1 (Some obj) sizeof_tda_Deque = Some w'" "inv w'"
    "heap w' = (heap w1)(obj := None)" by (rule dealloc_some [OF assms(1-4)])
  then show ?thesis using assms(5,6) by (auto simp: deque_new_fail_def fun_upd_idem)
qed

lemma deque_new_impl_spec:
  assumes w: "inv w" and es: "0 < es" and lc: "len \<le> cap"
  shows "\<exists>st r w'. deque_new_impl z len cap es al w = Some (st, r, w') \<and> inv w' \<and> deque_created owned al w st r w'
    \<and> (\<forall>d. r = Some d \<longrightarrow> deque_elem_size d = es \<and> deque_len d = len \<and> deque_cap d = cap \<and> deque_head d = 0
        \<and> (z \<longrightarrow> deque_list w' d = replicate len (replicate es 0)))"
proof -
  have sz: "sizeof_tda_Deque \<le> SIZE_MAX" by (simp add: sizeof_tda_Deque_def SIZE_MAX_def)
  show ?thesis
  proof (rule alloc_cases [OF w sz])
    fix w1 assume "tda_alloc al w sizeof_tda_Deque = Some (None, w1)" "inv w1" "heap w1 = heap w"
    then show ?thesis using es lc by (simp add: deque_new_impl_def deque_created_def)
  next
    fix obj w1 ob assume o: "tda_alloc al w sizeof_tda_Deque = Some (Some obj, w1)" "inv w1" "owned obj"
      "heap w obj = None" "length ob = sizeof_tda_Deque" "heap w1 = (heap w)(obj \<mapsto> ob)"
    have fail: "\<exists>st r w'. deque_new_fail al w2 obj = Some (st, r, w') \<and> inv w'
        \<and> r = None \<and> st = TDA_STATUS_ERR_NO_MEM \<and> heap w' = heap w"
      if "inv w2" "heap w2 = heap w1" for w2
      using deque_new_fail_spec [OF that(1) o(3) _ o(5) o(4)] that(2) o(6) by simp
    consider (empty) "cap = 0" | (over) "0 < cap" "SIZE_MAX < cap * es" | (ask) "0 < cap" "cap * es \<le> SIZE_MAX"
      by linarith
    then show ?thesis
    proof cases
      case empty
      define d where "d = deque_set_fields obj None len cap es al"
      have "deque_inv owned w1 d"
        using empty lc es o by (simp add: deque_inv_def d_def deque_set_fields_def block_at_def)
      then show ?thesis
        using empty lc es o assert_deque_ok [of owned w1 d]
        by (simp add: deque_new_impl_def deque_created_def d_def deque_set_fields_def deque_blocks_def deque_list_def)
    next
      case over
      then show ?thesis
        using fail [OF o(2) refl] es lc o(1) by (fastforce simp: deque_new_impl_def deque_created_def ckd_mul_def)
    next
      case ask
      show ?thesis
      proof (rule alloc_cases [OF o(2) ask(2)])
        fix w2 assume "tda_alloc al w1 (cap * es) = Some (None, w2)" "inv w2" "heap w2 = heap w1"
        then show ?thesis
          using fail [of w2] ask es lc o(1) by (fastforce simp: deque_new_impl_def deque_created_def ckd_mul_def)
      next
        fix p w2 pb assume p: "tda_alloc al w1 (cap * es) = Some (Some p, w2)" "inv w2" "owned p"
          "heap w1 p = None" "length pb = cap * es" "heap w2 = (heap w1)(p \<mapsto> pb)"
        define d where "d = deque_set_fields obj (Some p) len cap es al"
        have flds: "deque_data d = Some p" "deque_elem_size d = es" "deque_len d = len" "deque_cap d = cap"
          "deque_self d = obj" "deque_al d = al" "deque_head d = 0" by (simp_all add: d_def deque_set_fields_def)
        have po: "p \<noteq> obj" using p(4) o(6) by auto
        have "heap w2 p = Some pb" using p(6) by simp
        from object_size [OF p(2,3) this] have big: "cap * es \<le> PTRDIFF_MAX" using p(5) by simp
        have d2: "deque_inv owned w2 d"
          using ask es lc o p po big by (simp add: deque_inv_def flds block_at_def)
        have c2: "deque_created owned al w TDA_STATUS_OK (Some d) w2"
          using d2 o(4,6) p(4,6) po by (auto simp: deque_created_def flds deque_blocks_def)
        have m: "size_mul len es = len * es" using deque_bytes_exact(1) [OF d2, of len] lc by (simp add: flds)
        have ok: "deque_new_impl z len cap es al w = Some (TDA_STATUS_OK, Some d, w3)"
          if "(if z then mem_set w2 p 0 0 (size_mul len es) else Some w2) = Some w3" for w3
          using ask es lc o(1) p(1) that assert_deque_ok [OF d2] by (simp add: deque_new_impl_def ckd_mul_def d_def Let_def)
        show ?thesis
        proof (cases z)
          case False
          then show ?thesis using ok [of w2] p(2) c2 by (simp add: flds)
        next
          case True
          have fit: "0 + len \<le> cap" using lc by simp
          obtain w3 bs3 where w3: "mem_set w2 p (0 * es) 0 (len * es) = Some w3" "inv w3" "heap w3 = (heap w2)(p \<mapsto> bs3)"
            "length bs3 = cap * es" "elems es bs3 = blit 0 (replicate len (replicate es 0)) (elems es pb)"
            by (rule zero_elems [OF p(2) \<open>heap w2 p = Some pb\<close> p(5) es fit])
          have len3: "length bs3 = deque_cap d * deque_elem_size d" using w3(4) by (simp add: flds)
          note k = deque_block_written [OF d2 flds(1) w3(3) len3]
          have "deque_list w3 d = replicate len (replicate es 0)"
            using k(3) w3(5) by (simp add: deque_list_def deque_ring_def flds blit_def)
          then show ?thesis
            using ok [of w3] True w3(1,2) m deque_created_frame [OF c2 k(2,1)] by (simp add: flds)
        qed
      qed
    qed
  qed
qed

lemma deque_drop_spec:
  assumes w: "inv w" and d: "deque_inv owned w d" "deque_al d = al"
  shows "\<exists>w'. tda_deque_drop w (Some d) = Some w' \<and> inv w'
    \<and> heap w' = (\<lambda>q. if q \<in> deque_blocks d then None else heap w q)"
proof -
  have "owned p \<and> block_at w p (deque_cap_bytes d)" if "deque_data d = Some p" for p
    using that d(1) by (simp add: deque_inv_def deque_cap_bytes_eq [OF d(1)])
  from dealloc_opt [OF w this] obtain w1 where w1: "tda_dealloc al w (deque_data d) (deque_cap_bytes d) = Some w1"
    "inv w1" "heap w1 = (\<lambda>q. if q \<in> set_option (deque_data d) then None else heap w q)" by blast
  obtain sb where "owned (deque_self d)" "heap w1 (deque_self d) = Some sb" "length sb = sizeof_tda_Deque"
    using d(1) w1(3) by (auto simp: deque_inv_def block_at_def split: option.splits)
  from dealloc_some [OF w1(2) this] obtain w2 where "tda_dealloc al w1 (Some (deque_self d)) sizeof_tda_Deque = Some w2"
    "inv w2" "heap w2 = (heap w1)(deque_self d := None)" .
  then show ?thesis using w1(1,3) by (auto simp: tda_deque_drop_def assert_deque_ok [OF d(1)] d(2) deque_blocks_def)
qed

lemma deque_release_spec:
  assumes w: "inv w" and d: "deque_inv owned w d" "deque_al d = al"
  shows "\<exists>w' d'. deque_release_data w d = Some (w', d') \<and> inv w' \<and> deque_updated owned w d w' d' []
    \<and> deque_data d' = None \<and> (\<forall>q. heap w' q = (if q \<in> set_option (deque_data d) then None else heap w q))"
proof -
  have "owned p \<and> block_at w p (deque_cap_bytes d)" if "deque_data d = Some p" for p
    using that d(1) by (simp add: deque_inv_def deque_cap_bytes_eq [OF d(1)])
  from dealloc_opt [OF w this] obtain w1 where w1: "tda_dealloc al w (deque_data d) (deque_cap_bytes d) = Some w1"
    "inv w1" "heap w1 = (\<lambda>q. if q \<in> set_option (deque_data d) then None else heap w q)" by blast
  then show ?thesis
    using d by (auto simp: deque_release_data_def deque_updated_def deque_inv_def deque_frame_def frame_def deque_blocks_def
        deque_list_def block_at_def split: option.splits)
qed

text \<open>The source of a copy may belong to any allocator.\<close>

lemma deque_copy_with_spec:
  assumes w: "inv w" and d: "deque_inv owned' w d"
  shows "\<exists>st r w'. tda_deque_copy_with d al w = Some (st, r, w') \<and> inv w' \<and> deque_created owned al w st r w'
    \<and> (\<forall>c. r = Some c \<longrightarrow> deque_list w' c = deque_list w d \<and> deque_elem_size c = deque_elem_size d)"
proof -
  let ?es = "deque_elem_size d" and ?n = "deque_len d"
  have es: "0 < ?es" using d by (simp add: deque_inv_def)
  obtain st r w1 where c: "deque_new_impl False ?n ?n ?es al w = Some (st, r, w1)" "inv w1" "deque_created owned al w st r w1"
    "\<And>c. r = Some c \<Longrightarrow> deque_elem_size c = ?es \<and> deque_len c = ?n \<and> deque_cap c = ?n \<and> deque_head c = 0"
    using deque_new_impl_spec [OF w es le_refl, of False] by blast
  show ?thesis
  proof (cases r)
    case None
    then show ?thesis using c by (simp add: tda_deque_copy_with_def assert_deque_ok [OF d] deque_created_def)
  next
    case (Some cp)
    note f = c(4) [OF Some]
    have cp: "st = TDA_STATUS_OK" "deque_inv owned w1 cp" "\<forall>q \<in> deque_blocks cp. heap w q = None"
      "\<forall>q. q \<notin> deque_blocks cp \<longrightarrow> heap w1 q = heap w q" using c(3) Some by (simp_all add: deque_created_def)
    have keep: "heap w1 q = heap w q" if "q \<in> deque_blocks d" for q using that cp(3,4) deque_live [OF d] by blast
    note d1 = deque_stable [OF d keep]
    show ?thesis
    proof (cases "?n = 0")
      case True
      then show ?thesis
        using c(1-3) f Some cp(1) by (simp add: tda_deque_copy_with_def assert_deque_ok [OF d] deque_copy_out_def deque_list_def)
    next
      case False
      then have "0 < deque_cap cp" using f by simp
      then obtain q qs where q: "deque_data cp = Some q" "heap w1 q = Some qs" "length qs = ?n * ?es" "q \<noteq> deque_self cp"
        using deque_block [OF cp(2)] f by metis
      have "heap w q = None" using cp(3) q(1) by (simp add: deque_blocks_def)
      then have qb: "q \<notin> deque_blocks d" using deque_live [OF d] by blast
      define new where "new = blit 0 (concat (deque_list w d)) qs"
      obtain w2 where w2: "deque_copy_out w1 d (Some (q, 0)) = Some w2" "inv w2" "heap w2 = (heap w1)(q \<mapsto> new)"
        using deque_copy_out_spec [OF d1(1) allocator_axioms c(2) q(2) _ qb, of 0] q(3) d1(2) by (auto simp: new_def)
      have lc: "length (concat (deque_list w d)) = ?n * ?es"
        using length_concat_elems [of "deque_list w d" ?es] deque_list_elem_length [of _ w d]
        by (simp add: length_deque_list [OF d])
      then have nw: "new = concat (deque_list w d)" using q(3) by (simp add: new_def blit_whole)
      have "length new = deque_cap cp * deque_elem_size cp" using nw lc f by simp
      note k = deque_block_written [OF cp(2) q(1) w2(3) this]
      have "elems ?es new = deque_list w d"
        using elems_concat [OF es, of "deque_list w d"] deque_list_elem_length [of _ w d] nw by simp
      then have "deque_list w2 cp = deque_list w d"
        using k(3) f by (simp add: deque_list_def [of w2] deque_ring_def length_deque_list [OF d])
      moreover have "tda_deque_copy_with d al w = Some (TDA_STATUS_OK, Some cp, w2)"
        using c(1) Some q(1) w2(1) by (simp add: tda_deque_copy_with_def assert_deque_ok [OF d])
      moreover have "deque_created owned al w TDA_STATUS_OK (Some cp) w2"
        using deque_created_frame [OF _ k(2,1)] c(3) Some cp(1) by simp
      ultimately show ?thesis using w2(2) f by simp
    qed
  qed
qed

end

lemma deque_eq_by_spec:
  assumes a: "deque_inv owned w a" and b: "deque_inv owned2 w b" and es: "deque_elem_size a = deque_elem_size b"
    and ids: "deque_self a = deque_self b \<Longrightarrow> a = b" and refl: "\<And>x. eq x x"
  shows "tda_deque_eq_by w a b eq = Some (list_all2 eq (deque_list w a) (deque_list w b))"
proof -
  note la = length_deque_list [OF a] and lb = length_deque_list [OF b]
  note unf = tda_deque_eq_by_def assert_deque_ok [OF a] assert_deque_ok [OF b] es
  consider (same) "deque_self a = deque_self b" | (len) "deque_self a \<noteq> deque_self b" "deque_len a \<noteq> deque_len b"
    | (walk) "deque_self a \<noteq> deque_self b" "deque_len a = deque_len b" by blast
  then show ?thesis
  proof cases
    case same
    then show ?thesis using ids refl by (simp add: unf list_all2_same)
  next
    case len
    then show ?thesis using la lb by (auto simp: unf dest: list_all2_lengthD)
  next
    case walk
    have d: "deque_differ w a b eq i = Some (\<not> eq (deque_list w a ! i) (deque_list w b ! i))" if i: "i < deque_len a" for i
    proof -
      have ia: "i < deque_cap a" and ib: "i < deque_cap b" using i walk(2) deque_len_le [OF a] deque_len_le [OF b] by simp_all
      from deque_elem_reads [OF a ia] obtain p x where x: "deque_elem_at a i = Some (p, x)"
        "mem_read w p x (deque_elem_size a) = Some (deque_ring w a ! i)" by metis
      from deque_elem_reads [OF b ib] obtain q y where y: "deque_elem_at b i = Some (q, y)"
        "mem_read w q y (deque_elem_size b) = Some (deque_ring w b ! i)" by metis
      show ?thesis using x y es i walk(2) by (simp add: deque_differ_def deque_list_def)
    qed
    have "for_find [0..<deque_len a] (deque_differ w a b eq)
        = Some (List.find (\<lambda>i. \<not> eq (deque_list w a ! i) (deque_list w b ! i)) [0..<deque_len a])"
      using d by (intro for_find_pure) simp
    moreover have "List.find (\<lambda>i. \<not> eq (deque_list w a ! i) (deque_list w b ! i)) [0..<deque_len a] = None
        \<longleftrightarrow> list_all2 eq (deque_list w a) (deque_list w b)"
      using la lb walk(2) by (auto simp: find_None_iff list_all2_conv_all_nth)
    ultimately show ?thesis using walk es by (simp add: unf)
  qed
qed

lemma deque_eq_is_eq_by: "tda_deque_eq w a b = tda_deque_eq_by w a b (=)"
  by (simp add: tda_deque_eq_def tda_deque_eq_by_def)

section \<open>Two deques, and spans\<close>

lemma deque_swap_structs_inv:
  assumes "deque_inv owned w a" "deque_inv owned w b" "deque_blocks a \<inter> deque_blocks b = {}"
  shows "deque_inv owned w (b\<lparr>deque_self := deque_self a\<rparr>)"
  using assms by (auto simp: deque_inv_def deque_blocks_def split: option.splits)

lemma deque_list_self [simp]: "deque_list w (d\<lparr>deque_self := p\<rparr>) = deque_list w d"
  by (simp add: deque_list_def deque_ring_def deque_cells_def split: option.splits)

lemma deque_swap_spec:
  assumes "deque_inv owned w a" "deque_inv owned w b" "deque_blocks a \<inter> deque_blocks b = {}"
    and "deque_elem_size a = deque_elem_size b" "al_self (deque_al a) = al_self (deque_al b)"
  shows "\<exists>a' b'. tda_deque_swap a b = Some (a', b') \<and> deque_inv owned w a' \<and> deque_inv owned w b'
    \<and> deque_list w a' = deque_list w b \<and> deque_list w b' = deque_list w a"
proof -
  have ne: "deque_self a \<noteq> deque_self b" using assms(3) by (auto simp: deque_blocks_def)
  have a': "deque_inv owned w (b\<lparr>deque_self := deque_self a\<rparr>)" and b': "deque_inv owned w (a\<lparr>deque_self := deque_self b\<rparr>)"
    using deque_swap_structs_inv [OF assms(1-3)] deque_swap_structs_inv [OF assms(2,1)] assms(3) by (simp_all add: Int_commute)
  show ?thesis
    using ne assms(4,5) assert_deque_ok [OF a'] assert_deque_ok [OF b'] a' b'
    by (simp add: tda_deque_swap_def assert_deque_ok [OF assms(1)] assert_deque_ok [OF assms(2)] deque_swap_structs_def)
qed

lemma deque_copy_to_span_spec:
  assumes d: "deque_inv owned w d" and A: "allocator al I owned'" and w: "I w"
    and s: "span_ok w s" "sp_elem_size s = deque_elem_size d" "sp_len s = deque_len d"
    and apart: "\<And>q off. sp_data s = Some (q, off) \<Longrightarrow> q \<notin> deque_blocks d"
  shows "\<exists>w'. tda_deque_copy_to_span w d s = Some w' \<and> I w' \<and> span_elems w' s = deque_list w d"
proof -
  note unf = tda_deque_copy_to_span_def assert_deque_ok [OF d] span_assert_ok [OF s(1)] s(2,3)
  have es: "0 < deque_elem_size d" using d by (simp add: deque_inv_def)
  show ?thesis
  proof (cases "sp_data s")
    case None
    then have z: "deque_len d = 0" using s(1,3) by (simp add: span_ok_def)
    then show ?thesis
      using w None by (simp add: unf deque_copy_out_def span_elems_def span_bytes_def deque_list_def)
  next
    case (Some qo)
    then obtain q off dbs where q: "sp_data s = Some (q, off)" "heap w q = Some dbs"
      "off + deque_len d * deque_elem_size d \<le> length dbs"
      using s by (cases qo) (auto simp: span_ok_def)
    let ?xs = "concat (deque_list w d)"
    obtain w' where w': "deque_copy_out w d (Some (q, off)) = Some w'" "I w'" "heap w' = (heap w)(q \<mapsto> blit off ?xs dbs)"
      using deque_copy_out_spec [OF d A w q(2,3) apart [OF q(1)]] by blast
    have lx: "length ?xs = deque_len d * deque_elem_size d"
      using length_concat_elems [of "deque_list w d" "deque_elem_size d"] deque_list_elem_length [of _ w d]
      by (simp add: length_deque_list [OF d])
    have "span_bytes w' s = ?xs"
      using slice_blit_same [of off ?xs dbs] q w'(3) s(2,3) lx by (simp add: span_bytes_def)
    then have "span_elems w' s = deque_list w d"
      using elems_concat [OF es, of "deque_list w d"] deque_list_elem_length [of _ w d] s(2) by (simp add: span_elems_def)
    then show ?thesis using q(1) w'(1,2) by (simp add: unf)
  qed
qed

context object_allocator
begin

lemma deque_copy_from_span_spec:
  assumes w: "inv w" and d: "deque_inv owned' w d"
    and s: "span_ok w s" "sp_elem_size s = deque_elem_size d" "sp_len s = deque_len d"
    and apart: "\<And>q off. sp_data s = Some (q, off) \<Longrightarrow> q \<notin> deque_blocks d"
  shows "\<exists>w'. tda_deque_copy_from_span w d s = Some w' \<and> inv w' \<and> deque_updated owned' w d w' d (span_elems w s)"
proof -
  note unf = tda_deque_copy_from_span_def assert_deque_ok [OF d] span_assert_ok [OF s(1)] s(2,3)
  show ?thesis
  proof (cases "sp_data s")
    case None
    then have z: "deque_len d = 0" using s(1,3) by (simp add: span_ok_def)
    then show ?thesis
      using w d None by (simp add: unf deque_copy_in_def span_elems_def span_bytes_def deque_list_def deque_updated_def deque_frame_refl)
  next
    case (Some qo)
    then obtain q off sbs where q: "sp_data s = Some (q, off)" "heap w q = Some sbs"
      "off + deque_len d * deque_elem_size d \<le> length sbs"
      using s by (cases qo) (auto simp: span_ok_def)
    then show ?thesis
      using deque_copy_in_spec [OF d w q(2,3) apart [OF q(1)]] s(2,3)
      by (simp add: unf deque_updated_def span_elems_def span_bytes_def)
  qed
qed

lemma deque_from_span_spec:
  assumes w: "inv w" and s: "span_ok w s"
  shows "\<exists>st r w'. tda_deque_from_span s al w = Some (st, r, w') \<and> inv w' \<and> deque_created owned al w st r w'
    \<and> (\<forall>d. r = Some d \<longrightarrow> deque_list w' d = span_elems w s \<and> deque_elem_size d = sp_elem_size s)"
proof -
  let ?es = "sp_elem_size s" and ?n = "sp_len s"
  have es: "0 < ?es" using s by (simp add: span_ok_def)
  obtain st r w1 where c: "deque_new_impl False ?n ?n ?es al w = Some (st, r, w1)" "inv w1" "deque_created owned al w st r w1"
    "\<And>c. r = Some c \<Longrightarrow> deque_elem_size c = ?es \<and> deque_len c = ?n \<and> deque_cap c = ?n \<and> deque_head c = 0"
    using deque_new_impl_spec [OF w es le_refl, of False] by blast
  have null: "sp_data s \<noteq> None \<or> ?n = 0" using s by (auto simp: span_ok_def split: option.splits)
  note unf = tda_deque_from_span_def span_assert_ok [OF s] tda_deque_from_data_def
  show ?thesis
  proof (cases r)
    case None
    then show ?thesis using c null es by (auto simp: unf c_assert_def deque_created_def)
  next
    case (Some d)
    note f = c(4) [OF Some]
    have d: "st = TDA_STATUS_OK" "deque_inv owned w1 d" "\<forall>q \<in> deque_blocks d. heap w q = None"
      "\<forall>q. q \<notin> deque_blocks d \<longrightarrow> heap w1 q = heap w q" using c(3) Some by (simp_all add: deque_created_def)
    show ?thesis
    proof (cases "?n = 0")
      case True
      then have "span_elems w s = []" using length_span_elems [OF s] by simp
      then show ?thesis using True Some c(1-3) es f d(1) by (simp add: unf deque_list_def)
    next
      case False
      then obtain q off sbs where q: "sp_data s = Some (q, off)" "heap w q = Some sbs" "off + ?n * ?es \<le> length sbs"
        using s by (auto simp: span_ok_def split: option.splits)
      have "heap w1 q = Some sbs" using d(3,4) q(2) by (metis option.distinct(1))
      then have rd: "mem_read w1 q off (?n * ?es) = Some (span_bytes w s)"
        using q by (simp add: mem_read_ok span_bytes_def)
      have "0 < deque_cap d" using False f by simp
      then obtain p bs where p: "deque_data d = Some p" "heap w1 p = Some bs" "length bs = deque_cap d * deque_elem_size d"
        using deque_block [OF d(2)] by metis
      have ls: "length (span_bytes w s) = ?n * ?es" by (rule length_span_bytes [OF s])
      have esd: "0 < deque_elem_size d" using f es by simp
      have fit: "0 + ?n \<le> deque_cap d" and len: "length (span_bytes w s) = ?n * deque_elem_size d" using f ls by simp_all
      obtain w2 bs2 where w2: "mem_write w1 p (0 * deque_elem_size d) (span_bytes w s) = Some w2" "inv w2"
        "heap w2 = (heap w1)(p \<mapsto> bs2)" "length bs2 = deque_cap d * deque_elem_size d"
        "elems (deque_elem_size d) bs2 = blit 0 (elems (deque_elem_size d) (span_bytes w s)) (elems (deque_elem_size d) bs)"
        by (rule write_elems [OF c(2) p(2,3) esd len fit])
      note k = deque_block_written [OF d(2) p(1) w2(3,4)]
      have "deque_list w2 d = span_elems w s"
        using k(3) w2(5) f length_span_elems [OF s] length_elems_mult [OF es ls] length_elems_mult [OF esd p(3)]
        by (simp add: deque_list_def deque_ring_def span_elems_def blit_whole)
      moreover have "tda_deque_from_span s al w = Some (TDA_STATUS_OK, Some d, w2)"
        using c(1) Some es False q(1) rd p(1) w2(1) deque_len_bytes_eq [OF d(2)] f by (simp add: unf)
      moreover have "deque_created owned al w TDA_STATUS_OK (Some d) w2"
        using deque_created_frame [OF _ k(2,1)] c(3) Some d(1) by simp
      ultimately show ?thesis using w2(2) f by simp
    qed
  qed
qed

lemma deque_copy_assign_spec:
  assumes w: "inv w" and self: "deque_inv owned' w self" and other: "deque_inv owned w other" "deque_al other = al"
    and es: "deque_elem_size self = deque_elem_size other" and apart: "deque_blocks self \<inter> deque_blocks other = {}"
  shows "\<exists>st w' other'. tda_deque_copy_assign w self other = Some (st, w', other') \<and> inv w'
    \<and> deque_outcome owned w other st w' other' (deque_list w self)"
proof -
  have ne: "deque_self self \<noteq> deque_self other" using apart by (auto simp: deque_blocks_def)
  note unf = tda_deque_copy_assign_def assert_deque_ok [OF self] assert_deque_ok [OF other(1)] es ne
  obtain st w1 o1 where r: "tda_deque_reserve w other (deque_len self) = Some (st, w1, o1)" "inv w1"
    "deque_reserved owned w other (deque_len self) st w1 o1"
    using deque_reserve_spec [OF w other] by blast
  show ?thesis
  proof (cases st)
    case TDA_STATUS_ERR_NO_MEM
    then show ?thesis using r by (simp add: unf deque_outcome_def deque_reserved_def)
  next
    case ok: TDA_STATUS_OK
    note k = deque_reserved_ok [OF r(3) [unfolded ok]]
    define o2 where "o2 = o1\<lparr>deque_head := 0, deque_len := deque_len self\<rparr>"
    have o2: "deque_inv owned w1 o2" using k(1,4) by (auto simp: o2_def deque_inv_def split: option.splits)
    have f2: "deque_frame w other w1 o2" using k(2) by (simp add: o2_def)
    have keep: "heap w1 q = heap w q \<and> q \<notin> deque_blocks o2" if "q \<in> deque_blocks self" for q
      using that apart deque_live [OF self that] f2 frame_other [of w "deque_blocks other" w1 "deque_blocks o2" q]
      by (fastforce simp: deque_frame_def)
    then have self1: "deque_inv owned' w1 self" "deque_list w1 self = deque_list w self"
      using deque_stable [OF self, of w1] by simp_all
    show ?thesis
    proof (cases "deque_len self = 0")
      case True
      have "deque_list w1 o2 = deque_list w self" using True by (simp add: deque_list_def o2_def)
      then show ?thesis
        using True ok r(1,2) f2 o2 assert_deque_ok [OF o2] by (simp add: unf deque_outcome_def deque_updated_def deque_copy_out_def o2_def)
    next
      case False
      then have "0 < deque_cap o2" using k(4) by (simp add: o2_def)
      then obtain q qs where q: "deque_data o2 = Some q" "heap w1 q = Some qs" "length qs = deque_cap o2 * deque_elem_size o2"
        using deque_block [OF o2] by metis
      have e2: "deque_elem_size o2 = deque_elem_size self" using k(6) es by (simp add: o2_def)
      have qb: "q \<notin> deque_blocks self" using keep q(1) by (auto simp: deque_blocks_def)
      have fit: "0 + deque_len self * deque_elem_size self \<le> length qs"
        using q(3) k(4) e2 by (simp add: mult_le_mono1 o2_def)
      define new where "new = blit 0 (concat (deque_list w self)) qs"
      obtain w2 where w2: "deque_copy_out w1 self (Some (q, 0)) = Some w2" "inv w2" "heap w2 = (heap w1)(q \<mapsto> new)"
        using deque_copy_out_spec [OF self1(1) allocator_axioms r(2) q(2) fit qb] self1(2) by (auto simp: new_def)
      have lc: "length (concat (deque_list w self)) = deque_len self * deque_elem_size self"
        using length_concat_elems [of "deque_list w self" "deque_elem_size self"] deque_list_elem_length [of _ w self]
        by (simp add: length_deque_list [OF self])
      have "length new = length qs" using lc fit by (simp add: new_def length_blit)
      then have ln: "length new = deque_cap o2 * deque_elem_size o2" using q(3) by simp
      note b = deque_block_written [OF o2 q(1) w2(3) ln]
      have es0: "0 < deque_elem_size self" using self by (simp add: deque_inv_def)
      have "elems (deque_elem_size self) new = blit 0 (deque_list w self) (elems (deque_elem_size self) qs)"
        using elems_blit [OF es0 lc, of 0 qs] fit elems_concat [OF es0, of "deque_list w self"] deque_list_elem_length [of _ w self]
        by (simp add: new_def)
      then have "deque_list w2 o2 = deque_list w self"
        using b(3) e2 by (simp add: deque_list_def [of w2] deque_ring_def o2_def blit_def length_deque_list [OF self])
      then show ?thesis
        using ok r(1) w2(1,2) b(1) deque_frame_trans [OF f2 b(2)] q(1) assert_deque_ok [OF o2]
        by (simp add: unf deque_outcome_def deque_updated_def o2_def)
    qed
  qed
qed

lemma deque_move_assign_same:
  assumes w: "inv w" and self: "deque_inv owned w self" "deque_al self = al"
    and other: "deque_inv owned w other" "deque_al other = al"
    and es: "deque_elem_size self = deque_elem_size other" and apart: "deque_blocks self \<inter> deque_blocks other = {}"
  shows "\<exists>w' self' other'. tda_deque_move_assign w self other = Some (TDA_STATUS_OK, w', self', other') \<and> inv w'
    \<and> deque_inv owned w' self' \<and> deque_inv owned w' other'
    \<and> deque_list w' other' = deque_list w self \<and> deque_list w' self' = []
    \<and> (\<forall>q. heap w' q = (if q \<in> set_option (deque_data other) then None else heap w q))"
proof -
  have ne: "deque_self self \<noteq> deque_self other" using apart by (auto simp: deque_blocks_def)
  define s1 o1 where "s1 = other\<lparr>deque_self := deque_self self\<rparr>" and "o1 = self\<lparr>deque_self := deque_self other\<rparr>"
  have s1: "deque_inv owned w s1" "deque_al s1 = al" "deque_data s1 = deque_data other"
    using deque_swap_structs_inv [OF self(1) other(1) apart] other(2) by (simp_all add: s1_def)
  have o1: "deque_inv owned w o1"
    using deque_swap_structs_inv [OF other(1) self(1)] apart by (simp add: o1_def Int_commute)
  obtain w' s2 where r: "deque_release_data w s1 = Some (w', s2)" "inv w'" "deque_updated owned w s1 w' s2 []"
    "\<And>q. heap w' q = (if q \<in> set_option (deque_data other) then None else heap w q)"
    using deque_release_spec [OF w s1(1,2)] s1(3) by auto
  have s2: "deque_inv owned w' s2" "deque_list w' s2 = []" using r(3) by (simp_all add: deque_updated_def)
  have "q \<notin> set_option (deque_data other)" if "q \<in> deque_blocks o1" for q
    using that apart other(1) by (auto simp: o1_def deque_blocks_def deque_inv_def)
  then have o1': "deque_inv owned w' o1" "deque_list w' o1 = deque_list w o1"
    using deque_stable [OF o1, of w'] r(4) by simp_all
  have "tda_deque_move_assign w self other = Some (TDA_STATUS_OK, w', s2, o1)"
    using ne es self other r(1) assert_deque_ok [OF s2(1)] assert_deque_ok [OF o1'(1)]
    by (simp add: tda_deque_move_assign_def assert_deque_ok [OF self(1)] assert_deque_ok [OF other(1)]
        deque_swap_structs_def s1_def o1_def)
  then show ?thesis using r(2,4) s2 o1' by (auto simp: o1_def)
qed

end

lemma deque_move_assign_cross:
  assumes A: "object_allocator al I owned" and B: "object_allocator al' I owned'" and ids: "al_self al \<noteq> al_self al'"
    and w: "I w" and self: "deque_inv owned' w self" "deque_al self = al'"
    and other: "deque_inv owned w other" "deque_al other = al"
    and es: "deque_elem_size self = deque_elem_size other" and apart: "deque_blocks self \<inter> deque_blocks other = {}"
  shows "\<exists>st w' self' other'. tda_deque_move_assign w self other = Some (st, w', self', other') \<and> I w'
    \<and> (if st = TDA_STATUS_OK then deque_inv owned' w' self' \<and> deque_inv owned w' other'
          \<and> deque_list w' other' = deque_list w self \<and> deque_list w' self' = []
       else self' = self \<and> other' = other \<and> heap w' = heap w)"
proof -
  have ne: "deque_self self \<noteq> deque_self other" using apart by (auto simp: deque_blocks_def)
  have ids': "al_self (deque_al self) \<noteq> al_self (deque_al other)" using ids self(2) other(2) by auto
  note unf = tda_deque_move_assign_def assert_deque_ok [OF self(1)] assert_deque_ok [OF other(1)] es ne ids'
  obtain st r w1 where c: "tda_deque_copy_with self al w = Some (st, r, w1)" "I w1"
    "deque_created owned al w st r w1" "\<And>c. r = Some c \<Longrightarrow> deque_list w1 c = deque_list w self"
    using object_allocator.deque_copy_with_spec [OF A w self(1)] by blast
  show ?thesis
  proof (cases r)
    case None
    then show ?thesis using c(1-3) other(2) ids' by (simp add: unf deque_created_def)
  next
    case (Some obj)
    have obj: "deque_inv owned w1 obj" "deque_al obj = al" "\<And>q. q \<in> deque_blocks obj \<Longrightarrow> heap w q = None"
      "\<And>q. q \<notin> deque_blocks obj \<Longrightarrow> heap w1 q = heap w q" "st = TDA_STATUS_OK"
      using c(3) Some by (auto simp: deque_created_def)
    have d1: "deque_blocks obj \<inter> (deque_blocks self \<union> deque_blocks other) = {}"
      using deque_live [OF self(1)] deque_live [OF other(1)] obj(3) by blast
    have other1: "deque_inv owned w1 other" and self1: "deque_inv owned' w1 self"
      using deque_stable(1) [OF other(1), of w1] deque_stable(1) [OF self(1), of w1] obj(4) d1 by blast+
    define o1 b1 where "o1 = obj\<lparr>deque_self := deque_self other\<rparr>" and "b1 = other\<lparr>deque_self := deque_self obj\<rparr>"
    have o1: "deque_inv owned w1 o1" and b1: "deque_inv owned w1 b1" "deque_al b1 = al"
      using deque_swap_structs_inv [OF other1 obj(1)] deque_swap_structs_inv [OF obj(1) other1] d1 other(2)
      by (auto simp: o1_def b1_def)
    obtain w2 where w2: "tda_deque_drop w1 (Some b1) = Some w2" "I w2"
      "heap w2 = (\<lambda>q. if q \<in> deque_blocks b1 then None else heap w1 q)"
      using object_allocator.deque_drop_spec [OF A c(2) b1] by blast
    have bb: "deque_blocks b1 \<inter> deque_blocks self = {}" "deque_blocks b1 \<inter> deque_blocks o1 = {}"
      using d1 apart obj(1) other(1) by (auto simp: b1_def o1_def deque_blocks_def deque_inv_def)
    have keep: "q \<in> deque_blocks self \<Longrightarrow> heap w2 q = heap w1 q" "q \<in> deque_blocks o1 \<Longrightarrow> heap w2 q = heap w1 q" for q
      using w2(3) bb by auto
    have self2: "deque_inv owned' w2 self" "deque_inv owned w2 o1" "deque_list w2 o1 = deque_list w1 o1"
      using deque_stable [OF self1 keep(1)] deque_stable [OF o1 keep(2)] by simp_all
    obtain w3 s1 where r: "deque_release_data w2 self = Some (w3, s1)" "I w3" "deque_updated owned' w2 self w3 s1 []"
      "\<And>q. heap w3 q = (if q \<in> set_option (deque_data self) then None else heap w2 q)"
      using object_allocator.deque_release_spec [OF B w2(2) self2(1) self(2)] by blast
    have "set_option (deque_data self) \<inter> deque_blocks o1 = {}"
      using d1 apart by (auto simp: o1_def deque_blocks_def)
    then have "heap w3 q = heap w2 q" if "q \<in> deque_blocks o1" for q using that r(4) by auto
    note o3 = deque_stable [OF self2(2) this]
    have s3: "deque_inv owned' w3 s1" "deque_list w3 s1 = []" using r(3) by (simp_all add: deque_updated_def)
    have "tda_deque_move_assign w self other = Some (TDA_STATUS_OK, w3, s1, o1)"
      using Some c(1) other(2) w2(1) r(1) assert_deque_ok [OF s3(1)] assert_deque_ok [OF o3(1)] ids'
      by (simp add: unf deque_swap_structs_def o1_def b1_def)
    then show ?thesis using r(2) s3 o3 self2(3) c(4) [OF Some] by (simp add: o1_def)
  qed
qed

end
