(* ===== verification/Tda_Deque_Calls.thy ===== *)
theory Tda_Deque_Calls
  imports Tda_Deque_Ops Tda_Calls
begin

text \<open>
  The deque as an abstract sequence: \<open>deque_step\<close> runs one call of \<open>src/ds/deque.c\<close> on the
  model, \<open>dseq_step\<close> on the list of elements. The contract \<open>refined_calls\<close> holds of them over
  every allocator that makes no object larger than a pointer difference, and the deque is a
  \<open>container\<close> an adapter can keep.
\<close>

datatype deque_op = DPushFront "byte list" | DPushBack "byte list" | DPopFront | DPopBack
  | DInsert nat "byte list" | DRemove nat | DSet nat "byte list" | DSwapElems nat nat | DClear
  | DReserve nat | DShrink | DResize nat

definition deque_step :: "deque_op \<Rightarrow> 's world \<Rightarrow> 's deque \<Rightarrow> (tda_Status \<times> 's world \<times> 's deque) option" where
  "deque_step op w d = (case op of
      DPushFront x \<Rightarrow> tda_deque_push_front w d x
    | DPushBack x \<Rightarrow> tda_deque_push_back w d x
    | DPopFront \<Rightarrow> quiet (tda_deque_pop_front d) w
    | DPopBack \<Rightarrow> quiet (tda_deque_pop_back d) w
    | DInsert i x \<Rightarrow> tda_deque_insert w d i x
    | DRemove i \<Rightarrow> do { (w1, d1) \<leftarrow> tda_deque_remove w d i; Some (TDA_STATUS_OK, w1, d1) }
    | DSet i x \<Rightarrow> do { w1 \<leftarrow> tda_deque_set w d i x; Some (TDA_STATUS_OK, w1, d) }
    | DSwapElems i j \<Rightarrow> do { w1 \<leftarrow> tda_deque_swap_elems w d i j; Some (TDA_STATUS_OK, w1, d) }
    | DClear \<Rightarrow> quiet (tda_deque_clear d) w
    | DReserve n \<Rightarrow> tda_deque_reserve w d n
    | DShrink \<Rightarrow> tda_deque_shrink_to_fit w d
    | DResize n \<Rightarrow> tda_deque_resize w d n)"

text \<open>A sequence of elements of \<open>es\<close> bytes each: what the header asks of a call, and what it does.\<close>

definition dseq_allowed :: "deque_op \<Rightarrow> seq \<Rightarrow> bool" where
  "dseq_allowed op s = (case s of (es, xs) \<Rightarrow> (case op of
      DPushFront x \<Rightarrow> length x = es
    | DPushBack x \<Rightarrow> length x = es
    | DPopFront \<Rightarrow> xs \<noteq> []
    | DPopBack \<Rightarrow> xs \<noteq> []
    | DInsert i x \<Rightarrow> length x = es \<and> i \<le> length xs
    | DRemove i \<Rightarrow> i < length xs
    | DSet i x \<Rightarrow> length x = es \<and> i < length xs
    | DSwapElems i j \<Rightarrow> i < length xs \<and> j < length xs
    | _ \<Rightarrow> True))"

definition dseq_step :: "deque_op \<Rightarrow> seq \<Rightarrow> seq \<Rightarrow> bool" where
  "dseq_step op s s' = (case s of (es, xs) \<Rightarrow> s' = (es, (case op of
      DPushFront x \<Rightarrow> x # xs
    | DPushBack x \<Rightarrow> xs @ [x]
    | DPopFront \<Rightarrow> tl xs
    | DPopBack \<Rightarrow> butlast xs
    | DInsert i x \<Rightarrow> take i xs @ x # drop i xs
    | DRemove i \<Rightarrow> take i xs @ drop (i + 1) xs
    | DSet i x \<Rightarrow> xs[i := x]
    | DSwapElems i j \<Rightarrow> swap_list i j xs
    | DClear \<Rightarrow> []
    | DResize n \<Rightarrow> take n xs @ replicate (n - length xs) (replicate es 0)
    | _ \<Rightarrow> xs)))"

definition deque_abs :: "'s world \<Rightarrow> 's deque \<Rightarrow> seq" where
  "deque_abs w d = (deque_elem_size d, deque_list w d)"

definition deque_ok :: "'s al \<Rightarrow> ('s world \<Rightarrow> bool) \<Rightarrow> (ptr \<Rightarrow> bool) \<Rightarrow> 's world \<Rightarrow> 's deque \<Rightarrow> bool" where
  "deque_ok al I owned w d \<longleftrightarrow> I w \<and> deque_inv owned w d \<and> deque_al d = al"

definition deque_did ::
  "'s al \<Rightarrow> ('s world \<Rightarrow> bool) \<Rightarrow> (ptr \<Rightarrow> bool) \<Rightarrow> 's world \<Rightarrow> 's deque \<Rightarrow> tda_Status \<Rightarrow> 's world \<Rightarrow> 's deque \<Rightarrow> byte list list \<Rightarrow> bool"
where
  "deque_did al I owned w d st w' d' xs \<longleftrightarrow> deque_ok al I owned w' d' \<and> deque_frame w d w' d'
     \<and> deque_list w' d' = (if st = TDA_STATUS_OK then xs else deque_list w d)"

lemma deque_updated_did:
  "deque_ok al I owned w d \<Longrightarrow> I w' \<Longrightarrow> deque_updated owned w d w' d' xs \<Longrightarrow> deque_did al I owned w d TDA_STATUS_OK w' d' xs"
  by (auto simp: deque_updated_def deque_did_def deque_ok_def deque_frame_def)

lemma deque_outcome_did:
  "deque_ok al I owned w d \<Longrightarrow> I w' \<Longrightarrow> deque_outcome owned w d st w' d' xs \<Longrightarrow> deque_did al I owned w d st w' d' xs"
  by (cases st) (auto simp: deque_outcome_def deque_updated_def deque_did_def deque_ok_def deque_frame_def frame_refl
      deque_inv_cong [of w' w] deque_list_cong [of w' w])

lemma deque_reserved_did:
  "deque_ok al I owned w d \<Longrightarrow> I w' \<Longrightarrow> deque_reserved owned w d n st w' d' \<Longrightarrow> deque_did al I owned w d st w' d' (deque_list w d)"
  using deque_inv_cong [of w' w owned d] deque_list_cong [of w' w d]
  by (auto simp: deque_reserved_def deque_kept_def deque_did_def deque_ok_def frame_refl deque_frame_def split: if_splits)

lemma deque_did_refines:
  assumes "deque_did al I owned w d st w' d' xs" "dseq_step op (deque_abs w d) (deque_elem_size d, xs)"
  shows "deque_ok al I owned w' d' \<and> deque_frame w d w' d' \<and> call_refines dseq_step op st (deque_abs w d) (deque_abs w' d')"
  using assms by (auto simp: deque_did_def call_refines_def deque_abs_def deque_frame_def)

context object_allocator
begin

lemma deque_step_refines:
  assumes k: "deque_ok al inv owned w d" and ok: "dseq_allowed op (deque_abs w d)"
  shows "\<exists>st w' d'. deque_step op w d = Some (st, w', d') \<and> deque_ok al inv owned w' d' \<and> deque_frame w d w' d'
    \<and> call_refines dseq_step op st (deque_abs w d) (deque_abs w' d')"
proof -
  have w: "inv w" and d: "deque_inv owned w d" "deque_al d = al" using k by (simp_all add: deque_ok_def)
  note len = length_deque_list [OF d(1)]
  have fin: ?thesis if "deque_step op w d = Some (st, w', d')" "deque_did al inv owned w d st w' d' xs"
    "dseq_step op (deque_abs w d) (deque_elem_size d, xs)" for st w' d' xs
    using that(1) deque_did_refines [OF that(2,3)] by blast
  note [simp] = deque_step_def dseq_allowed_def dseq_step_def deque_abs_def len
  show ?thesis
  proof (cases op)
    case (DPushFront x)
    then have "length x = deque_elem_size d" using ok by simp
    from deque_push_front_spec [OF w d this] show ?thesis
      using fin deque_outcome_did [OF k] DPushFront by fastforce
  next
    case (DPushBack x)
    then have "length x = deque_elem_size d" using ok by simp
    from deque_push_back_spec [OF w d this] show ?thesis
      using fin deque_outcome_did [OF k] DPushBack by fastforce
  next
    case DPopFront
    then have "0 < deque_len d" using ok by (simp flip: len)
    from deque_pop_front_spec [OF d(1) this] show ?thesis
      using fin deque_updated_did [OF k w] DPopFront by fastforce
  next
    case DPopBack
    then have "0 < deque_len d" using ok by (simp flip: len)
    from deque_pop_back_spec [OF d(1) this] show ?thesis
      using fin deque_updated_did [OF k w] DPopBack by fastforce
  next
    case (DInsert i x)
    then have "length x = deque_elem_size d" "i \<le> deque_len d" using ok by simp_all
    from deque_insert_spec [OF w d this] show ?thesis
      using fin deque_outcome_did [OF k] DInsert by fastforce
  next
    case (DRemove i)
    then have "i < deque_len d" using ok by simp
    from deque_remove_spec [OF w d(1) this] show ?thesis
      using fin deque_updated_did [OF k] DRemove by fastforce
  next
    case (DSet i x)
    then have "i < deque_len d" "length x = deque_elem_size d" using ok by simp_all
    from deque_set_spec [OF w d(1) this] show ?thesis
      using fin deque_updated_did [OF k] DSet by fastforce
  next
    case (DSwapElems i j)
    then have "i < deque_len d" "j < deque_len d" using ok by simp_all
    from deque_swap_elems_spec [OF w d(1) this] show ?thesis
      using fin deque_updated_did [OF k] DSwapElems by fastforce
  next
    case DClear
    from deque_clear_spec [OF d(1)] show ?thesis
      using fin deque_updated_did [OF k w] DClear by fastforce
  next
    case (DReserve n)
    from deque_reserve_spec [OF w d, of n] show ?thesis
      using fin deque_reserved_did [OF k] DReserve by fastforce
  next
    case DShrink
    from deque_shrink_spec [OF w d] show ?thesis
      using fin deque_outcome_did [OF k] DShrink by fastforce
  next
    case (DResize n)
    from deque_resize_spec [OF w d, of n] show ?thesis
      using fin deque_outcome_did [OF k] DResize by fastforce
  qed
qed

end

sublocale object_allocator \<subseteq> deque_calls: refined_calls deque_step "deque_ok al inv owned" deque_frame deque_abs dseq_allowed dseq_step
  by unfold_locales (blast intro: deque_frame_refl deque_frame_trans deque_step_refines)+

context object_allocator
begin

lemmas deque_run_refines = deque_calls.run_refines

end

interpretation deque_box: container deque_inv deque_blocks deque_al tda_deque_drop
  by unfold_locales (auto intro: deque_stable object_allocator.deque_drop_spec dest: deque_live)

lemma deque_created_made: "deque_created = made deque_inv deque_blocks deque_al"
  by (simp add: fun_eq_iff deque_created_def made_def split: option.splits)

lemma deque_al_ok: "deque_inv owned w d \<Longrightarrow> tda_deque_al d = Some (deque_al d)"
  by (simp add: tda_deque_al_def assert_deque_ok)

end
