(* ===== verification/Tda_Queue.thy ===== *)
theory Tda_Queue
  imports Tda_Deque_Calls
begin

text \<open>
  \<open>src/ds/queue.c\<close>: the queue, a deque of which only one end takes elements and only the
  other gives them back. The record is \<open>struct tda_Queue\<close> with its own address and the deque
  its pointer leads to; that the pointers are not null, all \<open>ASSERT_QUEUE\<close> checks, is part of
  the record. Each operation is the deque's it forwards to, with the checks made in front.
  The second half shows that runs of calls are first in, first out.
\<close>

section \<open>Queue\<close>

record 's queue =
  queue_self :: ptr
  queue_deque :: "'s deque"

definition sizeof_tda_Queue :: nat where
  "sizeof_tda_Queue = 8"

definition queue_wrap :: "'s world \<Rightarrow> 's deque \<Rightarrow> (tda_Status \<times> 's queue option \<times> 's world) option" where
  "queue_wrap w c = do {
     al \<leftarrow> tda_deque_al c;
     (r, w1) \<leftarrow> tda_alloc al w sizeof_tda_Queue;
     (case r of
        None \<Rightarrow> do { w2 \<leftarrow> tda_deque_drop w1 (Some c); Some (TDA_STATUS_ERR_NO_MEM, None, w2) }
      | Some obj \<Rightarrow> Some (TDA_STATUS_OK, Some \<lparr>queue_self = obj, queue_deque = c\<rparr>, w1))
   }"

definition tda_queue_new :: "nat \<Rightarrow> 's al \<Rightarrow> 's world \<Rightarrow> (tda_Status \<times> 's queue option \<times> 's world) option" where
  "tda_queue_new elem_size al w = do {
     c_assert (elem_size > 0);
     (st, r, w1) \<leftarrow> tda_deque_new elem_size al w;
     (case r of None \<Rightarrow> Some (st, None, w1) | Some c \<Rightarrow> queue_wrap w1 c)
   }"

definition tda_queue_new_cap ::
  "nat \<Rightarrow> nat \<Rightarrow> 's al \<Rightarrow> 's world \<Rightarrow> (tda_Status \<times> 's queue option \<times> 's world) option" where
  "tda_queue_new_cap cap elem_size al w = do {
     c_assert (elem_size > 0);
     (st, r, w1) \<leftarrow> tda_deque_new_cap cap elem_size al w;
     (case r of None \<Rightarrow> Some (st, None, w1) | Some c \<Rightarrow> queue_wrap w1 c)
   }"

definition tda_queue_from_data ::
  "(ptr \<times> nat) option \<Rightarrow> nat \<Rightarrow> nat \<Rightarrow> 's al \<Rightarrow> 's world \<Rightarrow> (tda_Status \<times> 's queue option \<times> 's world) option"
where
  "tda_queue_from_data data len elem_size al w = do {
     c_assert (elem_size > 0);
     (st, r, w1) \<leftarrow> tda_deque_from_data data len elem_size al w;
     (case r of None \<Rightarrow> Some (st, None, w1) | Some c \<Rightarrow> queue_wrap w1 c)
   }"

definition tda_queue_from_span ::
  "tda_Span \<Rightarrow> 's al \<Rightarrow> 's world \<Rightarrow> (tda_Status \<times> 's queue option \<times> 's world) option" where
  "tda_queue_from_span s al w = do {
     TDA_SPAN_ASSERT s;
     tda_queue_from_data (sp_data s) (sp_len s) (sp_elem_size s) al w
   }"

definition tda_queue_drop :: "'s world \<Rightarrow> 's queue option \<Rightarrow> 's world option" where
  "tda_queue_drop w self = (case self of
      None \<Rightarrow> Some w
    | Some q \<Rightarrow> do {
        al_copy \<leftarrow> tda_deque_al (queue_deque q);
        w1 \<leftarrow> tda_deque_drop w (Some (queue_deque q));
        tda_dealloc al_copy w1 (Some (queue_self q)) sizeof_tda_Queue
      })"

definition tda_queue_into_deque :: "'s world \<Rightarrow> 's queue \<Rightarrow> ('s world \<times> 's deque) option" where
  "tda_queue_into_deque w q = do {
     let c = queue_deque q;
     al \<leftarrow> tda_deque_al c;
     w1 \<leftarrow> tda_dealloc al w (Some (queue_self q)) sizeof_tda_Queue;
     Some (w1, c)
   }"

definition tda_queue_copy_with ::
  "'s queue \<Rightarrow> 's al \<Rightarrow> 's world \<Rightarrow> (tda_Status \<times> 's queue option \<times> 's world) option" where
  "tda_queue_copy_with q al w = do {
     (st, r, w1) \<leftarrow> tda_deque_copy_with (queue_deque q) al w;
     (case r of None \<Rightarrow> Some (st, None, w1) | Some c \<Rightarrow> queue_wrap w1 c)
   }"

definition tda_queue_copy :: "'s queue \<Rightarrow> 's world \<Rightarrow> (tda_Status \<times> 's queue option \<times> 's world) option" where
  "tda_queue_copy q w = do { al \<leftarrow> tda_deque_al (queue_deque q); tda_queue_copy_with q al w }"

definition tda_queue_copy_assign ::
  "'s world \<Rightarrow> 's queue \<Rightarrow> 's queue \<Rightarrow> (tda_Status \<times> 's world \<times> 's queue) option" where
  "tda_queue_copy_assign w self other = do {
     a \<leftarrow> tda_deque_elem_size (queue_deque self);
     b \<leftarrow> tda_deque_elem_size (queue_deque other);
     c_assert (a = b);
     (st, w1, c) \<leftarrow> tda_deque_copy_assign w (queue_deque self) (queue_deque other);
     Some (st, w1, other\<lparr>queue_deque := c\<rparr>)
   }"

definition tda_queue_move_assign ::
  "'s world \<Rightarrow> 's queue \<Rightarrow> 's queue \<Rightarrow> (tda_Status \<times> 's world \<times> 's queue \<times> 's queue) option" where
  "tda_queue_move_assign w self other = do {
     a \<leftarrow> tda_deque_elem_size (queue_deque self);
     b \<leftarrow> tda_deque_elem_size (queue_deque other);
     c_assert (a = b);
     (st, w1, c, d) \<leftarrow> tda_deque_move_assign w (queue_deque self) (queue_deque other);
     Some (st, w1, self\<lparr>queue_deque := c\<rparr>, other\<lparr>queue_deque := d\<rparr>)
   }"

definition tda_queue_copy_to_span :: "'s world \<Rightarrow> 's queue \<Rightarrow> tda_Span \<Rightarrow> 's world option" where
  "tda_queue_copy_to_span w self dst = do { TDA_SPAN_ASSERT dst; tda_deque_copy_to_span w (queue_deque self) dst }"

definition tda_queue_eq :: "'s world \<Rightarrow> 's queue \<Rightarrow> 's queue \<Rightarrow> bool option" where
  "tda_queue_eq w a b = tda_deque_eq w (queue_deque a) (queue_deque b)"

definition tda_queue_eq_by ::
  "'s world \<Rightarrow> 's queue \<Rightarrow> 's queue \<Rightarrow> (byte list \<Rightarrow> byte list \<Rightarrow> bool) \<Rightarrow> bool option" where
  "tda_queue_eq_by w a b eq = tda_deque_eq_by w (queue_deque a) (queue_deque b) eq"

definition tda_queue_len :: "'s queue \<Rightarrow> nat option" where
  "tda_queue_len q = tda_deque_len (queue_deque q)"

definition tda_queue_cap :: "'s queue \<Rightarrow> nat option" where
  "tda_queue_cap q = tda_deque_cap (queue_deque q)"

definition tda_queue_elem_size :: "'s queue \<Rightarrow> nat option" where
  "tda_queue_elem_size q = tda_deque_elem_size (queue_deque q)"

definition tda_queue_al :: "'s queue \<Rightarrow> 's al option" where
  "tda_queue_al q = tda_deque_al (queue_deque q)"

definition tda_queue_front :: "'s queue \<Rightarrow> (ptr \<times> nat) option" where
  "tda_queue_front q = do {
     n \<leftarrow> tda_deque_len (queue_deque q);
     c_assert (n > 0);
     tda_deque_front (queue_deque q)
   }"

definition tda_queue_back :: "'s queue \<Rightarrow> (ptr \<times> nat) option" where
  "tda_queue_back q = do {
     n \<leftarrow> tda_deque_len (queue_deque q);
     c_assert (n > 0);
     tda_deque_back (queue_deque q)
   }"

definition tda_queue_push :: "'s world \<Rightarrow> 's queue \<Rightarrow> byte list \<Rightarrow> (tda_Status \<times> 's world \<times> 's queue) option" where
  "tda_queue_push w q val = do {
     (st, w1, c) \<leftarrow> tda_deque_push_back w (queue_deque q) val;
     Some (st, w1, q\<lparr>queue_deque := c\<rparr>)
   }"

definition tda_queue_pop :: "'s queue \<Rightarrow> 's queue option" where
  "tda_queue_pop q = do {
     n \<leftarrow> tda_deque_len (queue_deque q);
     c_assert (n > 0);
     c \<leftarrow> tda_deque_pop_front (queue_deque q);
     Some (q\<lparr>queue_deque := c\<rparr>)
   }"

definition tda_queue_clear :: "'s queue \<Rightarrow> 's queue option" where
  "tda_queue_clear q = do { c \<leftarrow> tda_deque_clear (queue_deque q); Some (q\<lparr>queue_deque := c\<rparr>) }"

definition tda_queue_reserve :: "'s world \<Rightarrow> 's queue \<Rightarrow> nat \<Rightarrow> (tda_Status \<times> 's world \<times> 's queue) option" where
  "tda_queue_reserve w q new_cap = do {
     (st, w1, c) \<leftarrow> tda_deque_reserve w (queue_deque q) new_cap;
     Some (st, w1, q\<lparr>queue_deque := c\<rparr>)
   }"

definition tda_queue_shrink_to_fit :: "'s world \<Rightarrow> 's queue \<Rightarrow> (tda_Status \<times> 's world \<times> 's queue) option" where
  "tda_queue_shrink_to_fit w q = do {
     (st, w1, c) \<leftarrow> tda_deque_shrink_to_fit w (queue_deque q);
     Some (st, w1, q\<lparr>queue_deque := c\<rparr>)
   }"

definition tda_queue_swap :: "'s queue \<Rightarrow> 's queue \<Rightarrow> ('s queue \<times> 's queue) option" where
  "tda_queue_swap self other = do {
     a \<leftarrow> tda_deque_elem_size (queue_deque self);
     b \<leftarrow> tda_deque_elem_size (queue_deque other);
     c_assert (a = b);
     (c, d) \<leftarrow> tda_deque_swap (queue_deque self) (queue_deque other);
     Some (self\<lparr>queue_deque := c\<rparr>, other\<lparr>queue_deque := d\<rparr>)
   }"

section \<open>Well-formedness\<close>

definition queue_inv :: "(ptr \<Rightarrow> bool) \<Rightarrow> 's world \<Rightarrow> 's queue \<Rightarrow> bool" where
  "queue_inv owned w q = adapter_inv deque_inv deque_blocks sizeof_tda_Queue owned w (queue_self q) (queue_deque q)"

definition queue_blocks :: "'s queue \<Rightarrow> ptr set" where
  "queue_blocks q = insert (queue_self q) (deque_blocks (queue_deque q))"

definition queue_list :: "'s world \<Rightarrow> 's queue \<Rightarrow> byte list list" where
  "queue_list w q = deque_list w (queue_deque q)"

definition queue_frame :: "'s world \<Rightarrow> 's queue \<Rightarrow> 's world \<Rightarrow> 's queue \<Rightarrow> bool" where
  "queue_frame w q w' q' \<longleftrightarrow> queue_self q' = queue_self q \<and> frame w (queue_blocks q) w' (queue_blocks q')"

definition queue_created ::
  "(ptr \<Rightarrow> bool) \<Rightarrow> 's al \<Rightarrow> 's world \<Rightarrow> tda_Status \<Rightarrow> 's queue option \<Rightarrow> 's world \<Rightarrow> bool" where
  "queue_created = made queue_inv queue_blocks (\<lambda>q. deque_al (queue_deque q))"

lemma queue_inv_deque: "queue_inv owned w q \<Longrightarrow> deque_inv owned w (queue_deque q)"
  by (simp add: queue_inv_def adapter_inv_def)

lemma queue_wrap_adapter:
  "deque_inv owned w d \<Longrightarrow> queue_wrap w d
    = adapter_wrap deque_al tda_deque_drop sizeof_tda_Queue (\<lambda>p c. \<lparr>queue_self = p, queue_deque = c\<rparr>) w d"
  by (simp add: queue_wrap_def adapter_wrap_def deque_al_ok)

text \<open>What comes out of a constructor that made the deque first.\<close>

lemma queue_wrap_created:
  assumes A: "object_allocator al I owned" and w: "I w1" and c: "deque_created owned al w st r w1"
  shows "\<exists>st' q w'. (case r of None \<Rightarrow> Some (st, None, w1) | Some d \<Rightarrow> queue_wrap w1 d) = Some (st', q, w')
    \<and> I w' \<and> queue_created owned al w st' q w'
    \<and> (\<forall>x. q = Some x \<longrightarrow> (\<exists>d. r = Some d \<and> queue_deque x = d \<and> queue_list w' x = deque_list w1 d))"
proof (cases r)
  case None
  then show ?thesis using w c by (simp add: queue_created_def made_def deque_created_def)
next
  case (Some d)
  have m: "made deque_inv deque_blocks deque_al owned al w TDA_STATUS_OK (Some d) w1"
    using c Some by (simp add: deque_created_made made_def)
  then have d: "deque_inv owned w1 d" "deque_al d = al" by (simp_all add: made_def)
  have sz: "sizeof_tda_Queue \<le> SIZE_MAX" by (simp add: sizeof_tda_Queue_def SIZE_MAX_def)
  obtain st' q w' where k: "queue_wrap w1 d = Some (st', q, w')" "I w'"
    "case q of None \<Rightarrow> st' = TDA_STATUS_ERR_NO_MEM \<and> heap w' = heap w
       | Some a \<Rightarrow> \<exists>obj. a = \<lparr>queue_self = obj, queue_deque = d\<rparr> \<and> st' = TDA_STATUS_OK
           \<and> adapter_inv deque_inv deque_blocks sizeof_tda_Queue owned w' obj d
           \<and> (\<forall>q \<in> insert obj (deque_blocks d). heap w q = None)
           \<and> (\<forall>q. q \<notin> insert obj (deque_blocks d) \<longrightarrow> heap w' q = heap w q)
           \<and> (\<forall>q \<in> deque_blocks d. heap w' q = heap w1 q)"
    unfolding queue_wrap_adapter [OF d(1)] using deque_box.adapter_wrap_made [OF A w m sz] by blast
  show ?thesis
  proof (cases q)
    case None
    then show ?thesis using Some k by (simp add: queue_created_def made_def)
  next
    case q: (Some x)
    then have "deque_list w' d = deque_list w1 d" using k(3) deque_stable(2) [OF d(1), of w'] by auto
    then show ?thesis
      using Some q k d(2) by (auto simp: queue_created_def made_def queue_inv_def queue_blocks_def queue_list_def)
  qed
qed

lemma queue_from_span_spec:
  assumes A: "object_allocator al I owned" and w: "I w" and s: "span_ok w s"
  shows "\<exists>st r w'. tda_queue_from_span s al w = Some (st, r, w') \<and> I w' \<and> queue_created owned al w st r w'
    \<and> (\<forall>q. r = Some q \<longrightarrow> queue_list w' q = span_elems w s)"
proof -
  obtain st r w1 where c: "tda_deque_from_span s al w = Some (st, r, w1)" "I w1" "deque_created owned al w st r w1"
    "\<And>d. r = Some d \<Longrightarrow> deque_list w1 d = span_elems w s"
    using object_allocator.deque_from_span_spec [OF A w s] by blast
  have "tda_queue_from_span s al w = (case r of None \<Rightarrow> Some (st, None, w1) | Some d \<Rightarrow> queue_wrap w1 d)"
    using c(1) s by (simp add: tda_queue_from_span_def tda_deque_from_span_def span_assert_ok [OF s] tda_queue_from_data_def)
      (simp add: span_ok_def)
  then show ?thesis using queue_wrap_created [OF A c(2,3)] c(4) by fastforce
qed

lemma queue_copy_with_spec:
  assumes A: "object_allocator al I owned" and w: "I w" and q: "queue_inv owned' w q"
  shows "\<exists>st r w'. tda_queue_copy_with q al w = Some (st, r, w') \<and> I w' \<and> queue_created owned al w st r w'
    \<and> (\<forall>c. r = Some c \<longrightarrow> queue_list w' c = queue_list w q)"
proof -
  obtain st r w1 where c: "tda_deque_copy_with (queue_deque q) al w = Some (st, r, w1)" "I w1"
    "deque_created owned al w st r w1" "\<And>d. r = Some d \<Longrightarrow> deque_list w1 d = queue_list w q"
    using object_allocator.deque_copy_with_spec [OF A w queue_inv_deque [OF q]] by (auto simp: queue_list_def)
  then have "tda_queue_copy_with q al w = (case r of None \<Rightarrow> Some (st, None, w1) | Some d \<Rightarrow> queue_wrap w1 d)"
    by (simp add: tda_queue_copy_with_def)
  then show ?thesis using queue_wrap_created [OF A c(2,3)] c(4) by fastforce
qed

lemma queue_drop_spec:
  assumes A: "object_allocator al I owned" and w: "I w" and q: "queue_inv owned w q" "deque_al (queue_deque q) = al"
  shows "\<exists>w'. tda_queue_drop w (Some q) = Some w' \<and> I w' \<and> heap w' = (\<lambda>p. if p \<in> queue_blocks q then None else heap w p)"
  using deque_box.adapter_drop_spec [OF A w q(1) [unfolded queue_inv_def] q(2)] deque_al_ok [OF queue_inv_deque [OF q(1)]] q(2)
  by (simp add: tda_queue_drop_def queue_blocks_def)

lemma queue_into_deque_spec:
  assumes A: "object_allocator al I owned" and w: "I w" and q: "queue_inv owned w q" "deque_al (queue_deque q) = al"
  shows "\<exists>w'. tda_queue_into_deque w q = Some (w', queue_deque q) \<and> I w' \<and> deque_inv owned w' (queue_deque q)
    \<and> heap w' = (heap w)(queue_self q := None)"
  using deque_box.adapter_into_spec [OF A w q(1) [unfolded queue_inv_def]] deque_al_ok [OF queue_inv_deque [OF q(1)]] q(2)
  by (auto simp: tda_queue_into_deque_def)

section \<open>First in, first out\<close>

datatype queue_op = Enqueue "byte list" | Dequeue | QClear | QReserve nat | QShrink

definition queue_step :: "queue_op \<Rightarrow> 's world \<Rightarrow> 's queue \<Rightarrow> (tda_Status \<times> 's world \<times> 's queue) option" where
  "queue_step op w q = (case op of
      Enqueue x \<Rightarrow> tda_queue_push w q x
    | Dequeue \<Rightarrow> quiet (tda_queue_pop q) w
    | QClear \<Rightarrow> quiet (tda_queue_clear q) w
    | QReserve n \<Rightarrow> tda_queue_reserve w q n
    | QShrink \<Rightarrow> tda_queue_shrink_to_fit w q)"

definition fifo_allowed :: "queue_op \<Rightarrow> seq \<Rightarrow> bool" where
  "fifo_allowed op s = (case op of Enqueue x \<Rightarrow> length x = fst s | Dequeue \<Rightarrow> snd s \<noteq> [] | _ \<Rightarrow> True)"

text \<open>Elements join at the back and leave at the front.\<close>

definition fifo_step :: "queue_op \<Rightarrow> seq \<Rightarrow> seq \<Rightarrow> bool" where
  "fifo_step op s s' = (case s of (es, xs) \<Rightarrow> s' = (es, (case op of
      Enqueue x \<Rightarrow> xs @ [x]
    | Dequeue \<Rightarrow> tl xs
    | QClear \<Rightarrow> []
    | _ \<Rightarrow> xs)))"

definition queue_abs :: "'s world \<Rightarrow> 's queue \<Rightarrow> seq" where
  "queue_abs w q = deque_abs w (queue_deque q)"

definition queue_ok :: "'s al \<Rightarrow> ('s world \<Rightarrow> bool) \<Rightarrow> (ptr \<Rightarrow> bool) \<Rightarrow> 's world \<Rightarrow> 's queue \<Rightarrow> bool" where
  "queue_ok al I owned w q \<longleftrightarrow> I w \<and> queue_inv owned w q \<and> deque_al (queue_deque q) = al"

definition queue_forward :: "queue_op \<Rightarrow> deque_op" where
  "queue_forward op = (case op of Enqueue x \<Rightarrow> DPushBack x | Dequeue \<Rightarrow> DPopFront | QClear \<Rightarrow> DClear
      | QReserve n \<Rightarrow> DReserve n | QShrink \<Rightarrow> DShrink)"

lemma queue_step_forwards:
  assumes "queue_inv owned w q" "fifo_allowed op (queue_abs w q)"
  shows "queue_step op w q
    = do { (st, w1, d) \<leftarrow> deque_step (queue_forward op) w (queue_deque q); Some (st, w1, q\<lparr>queue_deque := d\<rparr>) }"
proof (cases op)
  case Dequeue
  note d = queue_inv_deque [OF assms(1)]
  have "0 < deque_len (queue_deque q)"
    using assms(2) Dequeue by (simp add: fifo_allowed_def queue_abs_def deque_abs_def flip: length_deque_list [OF d])
  then show ?thesis
    using Dequeue by (simp add: queue_step_def queue_forward_def deque_step_def tda_queue_pop_def tda_deque_len_def assert_deque_ok [OF d])
qed (simp_all add: queue_step_def queue_forward_def deque_step_def tda_queue_push_def tda_queue_clear_def tda_queue_reserve_def
    tda_queue_shrink_to_fit_def)

lemma fifo_forward:
  "fifo_allowed op s = dseq_allowed (queue_forward op) s" "fifo_step op s s' = dseq_step (queue_forward op) s s'"
  by (cases op; cases s; simp add: fifo_allowed_def dseq_allowed_def fifo_step_def dseq_step_def queue_forward_def)+

context object_allocator
begin

lemma queue_step_refines:
  assumes q: "queue_ok al inv owned w q" and ok: "fifo_allowed op (queue_abs w q)"
  shows "\<exists>st w' q'. queue_step op w q = Some (st, w', q') \<and> queue_ok al inv owned w' q' \<and> queue_frame w q w' q'
    \<and> call_refines fifo_step op st (queue_abs w q) (queue_abs w' q')"
proof -
  have d: "deque_ok al inv owned w (queue_deque q)"
    using q by (simp add: queue_ok_def deque_ok_def queue_inv_deque)
  obtain st w' d' where s: "deque_step (queue_forward op) w (queue_deque q) = Some (st, w', d')" "deque_ok al inv owned w' d'"
    "deque_frame w (queue_deque q) w' d'"
    "call_refines dseq_step (queue_forward op) st (deque_abs w (queue_deque q)) (deque_abs w' d')"
    using deque_step_refines [OF d, of "queue_forward op"] ok by (auto simp: fifo_forward queue_abs_def)
  have a: "adapter_inv deque_inv deque_blocks sizeof_tda_Queue owned w (queue_self q) (queue_deque q)"
    using q by (simp add: queue_ok_def queue_inv_def)
  note k = deque_box.adapter_inv_step [OF a, of w' d']
  have "queue_step op w q = Some (st, w', q\<lparr>queue_deque := d'\<rparr>)"
    using queue_step_forwards [of owned, OF _ ok] q s(1) by (simp add: queue_ok_def)
  moreover have "queue_ok al inv owned w' (q\<lparr>queue_deque := d'\<rparr>)" "queue_frame w q w' (q\<lparr>queue_deque := d'\<rparr>)"
    using k s(2,3) by (simp_all add: queue_ok_def queue_inv_def queue_frame_def queue_blocks_def deque_frame_def deque_ok_def)
  moreover have "call_refines fifo_step op st (queue_abs w q) (queue_abs w' (q\<lparr>queue_deque := d'\<rparr>))"
    using s(4) by (simp add: call_refines_def fifo_forward queue_abs_def)
  ultimately show ?thesis by blast
qed

end

lemma queue_frame_refl: "queue_frame w q w q"
  by (simp add: queue_frame_def frame_refl)

lemma queue_frame_trans: "queue_frame w q w1 q1 \<Longrightarrow> queue_frame w1 q1 w2 q2 \<Longrightarrow> queue_frame w q w2 q2"
  by (auto simp: queue_frame_def intro: frame_trans)

sublocale object_allocator \<subseteq> queue_calls: refined_calls queue_step "queue_ok al inv owned" queue_frame queue_abs fifo_allowed fifo_step
  by unfold_locales (blast intro: queue_frame_refl queue_frame_trans queue_step_refines)+

context object_allocator
begin

lemmas queue_run_refines = queue_calls.run_refines

end

end
