(* ===== verification/Tda_Stack.thy ===== *)
theory Tda_Stack
  imports Tda_Vec_Calls
begin

text \<open>
  \<open>src/ds/stack.c\<close>: the stack, a vec of which only the end is touched. The record is
  \<open>struct tda_Stack\<close> with its own address and the vec its pointer leads to; that the pointers
  are not null, all \<open>ASSERT_STACK\<close> checks, is part of the record. Each operation is the
  vec's it forwards to, with the checks made in front. The second half shows that runs of
  calls are last in, first out.
\<close>

section \<open>Stack\<close>

record 's stack =
  stack_self :: ptr
  stack_vec :: "'s vec"

definition sizeof_tda_Stack :: nat where
  "sizeof_tda_Stack = 8"

definition stack_wrap :: "'s world \<Rightarrow> 's vec \<Rightarrow> (tda_Status \<times> 's stack option \<times> 's world) option" where
  "stack_wrap w c = do {
     al \<leftarrow> tda_vec_al c;
     (r, w1) \<leftarrow> tda_alloc al w sizeof_tda_Stack;
     (case r of
        None \<Rightarrow> do { w2 \<leftarrow> tda_vec_drop w1 (Some c); Some (TDA_STATUS_ERR_NO_MEM, None, w2) }
      | Some obj \<Rightarrow> Some (TDA_STATUS_OK, Some \<lparr>stack_self = obj, stack_vec = c\<rparr>, w1))
   }"

definition tda_stack_new :: "nat \<Rightarrow> 's al \<Rightarrow> 's world \<Rightarrow> (tda_Status \<times> 's stack option \<times> 's world) option" where
  "tda_stack_new elem_size al w = do {
     c_assert (elem_size > 0);
     (st, r, w1) \<leftarrow> tda_vec_new elem_size al w;
     (case r of None \<Rightarrow> Some (st, None, w1) | Some c \<Rightarrow> stack_wrap w1 c)
   }"

definition tda_stack_new_cap ::
  "nat \<Rightarrow> nat \<Rightarrow> 's al \<Rightarrow> 's world \<Rightarrow> (tda_Status \<times> 's stack option \<times> 's world) option" where
  "tda_stack_new_cap cap elem_size al w = do {
     c_assert (elem_size > 0);
     (st, r, w1) \<leftarrow> tda_vec_new_cap cap elem_size al w;
     (case r of None \<Rightarrow> Some (st, None, w1) | Some c \<Rightarrow> stack_wrap w1 c)
   }"

definition tda_stack_from_data ::
  "(ptr \<times> nat) option \<Rightarrow> nat \<Rightarrow> nat \<Rightarrow> 's al \<Rightarrow> 's world \<Rightarrow> (tda_Status \<times> 's stack option \<times> 's world) option"
where
  "tda_stack_from_data data len elem_size al w = do {
     c_assert (elem_size > 0);
     (st, r, w1) \<leftarrow> tda_vec_from_data data len elem_size al w;
     (case r of None \<Rightarrow> Some (st, None, w1) | Some c \<Rightarrow> stack_wrap w1 c)
   }"

definition tda_stack_from_span ::
  "tda_Span \<Rightarrow> 's al \<Rightarrow> 's world \<Rightarrow> (tda_Status \<times> 's stack option \<times> 's world) option" where
  "tda_stack_from_span s al w = do {
     TDA_SPAN_ASSERT s;
     tda_stack_from_data (sp_data s) (sp_len s) (sp_elem_size s) al w
   }"

definition tda_stack_drop :: "'s world \<Rightarrow> 's stack option \<Rightarrow> 's world option" where
  "tda_stack_drop w self = (case self of
      None \<Rightarrow> Some w
    | Some q \<Rightarrow> do {
        al_copy \<leftarrow> tda_vec_al (stack_vec q);
        w1 \<leftarrow> tda_vec_drop w (Some (stack_vec q));
        tda_dealloc al_copy w1 (Some (stack_self q)) sizeof_tda_Stack
      })"

definition tda_stack_into_vec :: "'s world \<Rightarrow> 's stack \<Rightarrow> ('s world \<times> 's vec) option" where
  "tda_stack_into_vec w q = do {
     let c = stack_vec q;
     al \<leftarrow> tda_vec_al c;
     w1 \<leftarrow> tda_dealloc al w (Some (stack_self q)) sizeof_tda_Stack;
     Some (w1, c)
   }"

definition tda_stack_copy_with ::
  "'s stack \<Rightarrow> 's al \<Rightarrow> 's world \<Rightarrow> (tda_Status \<times> 's stack option \<times> 's world) option" where
  "tda_stack_copy_with q al w = do {
     (st, r, w1) \<leftarrow> tda_vec_copy_with (stack_vec q) al w;
     (case r of None \<Rightarrow> Some (st, None, w1) | Some c \<Rightarrow> stack_wrap w1 c)
   }"

definition tda_stack_copy :: "'s stack \<Rightarrow> 's world \<Rightarrow> (tda_Status \<times> 's stack option \<times> 's world) option" where
  "tda_stack_copy q w = do { al \<leftarrow> tda_vec_al (stack_vec q); tda_stack_copy_with q al w }"

definition tda_stack_copy_assign ::
  "'s world \<Rightarrow> 's stack \<Rightarrow> 's stack \<Rightarrow> (tda_Status \<times> 's world \<times> 's stack) option" where
  "tda_stack_copy_assign w self other = do {
     a \<leftarrow> tda_vec_elem_size (stack_vec self);
     b \<leftarrow> tda_vec_elem_size (stack_vec other);
     c_assert (a = b);
     (st, w1, c) \<leftarrow> tda_vec_copy_assign w (stack_vec self) (stack_vec other);
     Some (st, w1, other\<lparr>stack_vec := c\<rparr>)
   }"

definition tda_stack_move_assign ::
  "'s world \<Rightarrow> 's stack \<Rightarrow> 's stack \<Rightarrow> (tda_Status \<times> 's world \<times> 's stack \<times> 's stack) option" where
  "tda_stack_move_assign w self other = do {
     a \<leftarrow> tda_vec_elem_size (stack_vec self);
     b \<leftarrow> tda_vec_elem_size (stack_vec other);
     c_assert (a = b);
     (st, w1, c, d) \<leftarrow> tda_vec_move_assign w (stack_vec self) (stack_vec other);
     Some (st, w1, self\<lparr>stack_vec := c\<rparr>, other\<lparr>stack_vec := d\<rparr>)
   }"

definition tda_stack_eq :: "'s world \<Rightarrow> 's stack \<Rightarrow> 's stack \<Rightarrow> bool option" where
  "tda_stack_eq w a b = tda_vec_eq w (stack_vec a) (stack_vec b)"

definition tda_stack_eq_by ::
  "'s world \<Rightarrow> 's stack \<Rightarrow> 's stack \<Rightarrow> (byte list \<Rightarrow> byte list \<Rightarrow> bool) \<Rightarrow> bool option" where
  "tda_stack_eq_by w a b eq = tda_vec_eq_by w (stack_vec a) (stack_vec b) eq"

definition tda_stack_len :: "'s stack \<Rightarrow> nat option" where
  "tda_stack_len q = tda_vec_len (stack_vec q)"

definition tda_stack_cap :: "'s stack \<Rightarrow> nat option" where
  "tda_stack_cap q = tda_vec_cap (stack_vec q)"

definition tda_stack_elem_size :: "'s stack \<Rightarrow> nat option" where
  "tda_stack_elem_size q = tda_vec_elem_size (stack_vec q)"

definition tda_stack_al :: "'s stack \<Rightarrow> 's al option" where
  "tda_stack_al q = tda_vec_al (stack_vec q)"

definition tda_stack_top :: "'s stack \<Rightarrow> (ptr \<times> nat) option" where
  "tda_stack_top q = do {
     n \<leftarrow> tda_vec_len (stack_vec q);
     c_assert (n > 0);
     tda_vec_back (stack_vec q)
   }"

definition tda_stack_to_span :: "'s stack \<Rightarrow> tda_Span option" where
  "tda_stack_to_span q = tda_vec_to_span (stack_vec q)"

definition tda_stack_push :: "'s world \<Rightarrow> 's stack \<Rightarrow> byte list \<Rightarrow> (tda_Status \<times> 's world \<times> 's stack) option" where
  "tda_stack_push w q val = do {
     (st, w1, c) \<leftarrow> tda_vec_push w (stack_vec q) val;
     Some (st, w1, q\<lparr>stack_vec := c\<rparr>)
   }"

definition tda_stack_pop :: "'s stack \<Rightarrow> 's stack option" where
  "tda_stack_pop q = do {
     n \<leftarrow> tda_vec_len (stack_vec q);
     c_assert (n > 0);
     c \<leftarrow> tda_vec_pop (stack_vec q);
     Some (q\<lparr>stack_vec := c\<rparr>)
   }"

definition tda_stack_clear :: "'s stack \<Rightarrow> 's stack option" where
  "tda_stack_clear q = do { c \<leftarrow> tda_vec_clear (stack_vec q); Some (q\<lparr>stack_vec := c\<rparr>) }"

definition tda_stack_reserve :: "'s world \<Rightarrow> 's stack \<Rightarrow> nat \<Rightarrow> (tda_Status \<times> 's world \<times> 's stack) option" where
  "tda_stack_reserve w q new_cap = do {
     (st, w1, c) \<leftarrow> tda_vec_reserve w (stack_vec q) new_cap;
     Some (st, w1, q\<lparr>stack_vec := c\<rparr>)
   }"

definition tda_stack_shrink_to_fit :: "'s world \<Rightarrow> 's stack \<Rightarrow> (tda_Status \<times> 's world \<times> 's stack) option" where
  "tda_stack_shrink_to_fit w q = do {
     (st, w1, c) \<leftarrow> tda_vec_shrink_to_fit w (stack_vec q);
     Some (st, w1, q\<lparr>stack_vec := c\<rparr>)
   }"

definition tda_stack_swap :: "'s stack \<Rightarrow> 's stack \<Rightarrow> ('s stack \<times> 's stack) option" where
  "tda_stack_swap self other = do {
     a \<leftarrow> tda_vec_elem_size (stack_vec self);
     b \<leftarrow> tda_vec_elem_size (stack_vec other);
     c_assert (a = b);
     (c, d) \<leftarrow> tda_vec_swap (stack_vec self) (stack_vec other);
     Some (self\<lparr>stack_vec := c\<rparr>, other\<lparr>stack_vec := d\<rparr>)
   }"

section \<open>Well-formedness\<close>

definition stack_inv :: "(ptr \<Rightarrow> bool) \<Rightarrow> 's world \<Rightarrow> 's stack \<Rightarrow> bool" where
  "stack_inv owned w q = adapter_inv vec_inv vec_blocks sizeof_tda_Stack owned w (stack_self q) (stack_vec q)"

definition stack_blocks :: "'s stack \<Rightarrow> ptr set" where
  "stack_blocks q = insert (stack_self q) (vec_blocks (stack_vec q))"

definition stack_list :: "'s world \<Rightarrow> 's stack \<Rightarrow> byte list list" where
  "stack_list w q = vec_list w (stack_vec q)"

definition stack_frame :: "'s world \<Rightarrow> 's stack \<Rightarrow> 's world \<Rightarrow> 's stack \<Rightarrow> bool" where
  "stack_frame w q w' q' \<longleftrightarrow> stack_self q' = stack_self q \<and> frame w (stack_blocks q) w' (stack_blocks q')"

definition stack_created ::
  "(ptr \<Rightarrow> bool) \<Rightarrow> 's al \<Rightarrow> 's world \<Rightarrow> tda_Status \<Rightarrow> 's stack option \<Rightarrow> 's world \<Rightarrow> bool" where
  "stack_created = made stack_inv stack_blocks (\<lambda>q. vec_al (stack_vec q))"

lemma stack_inv_vec: "stack_inv owned w q \<Longrightarrow> vec_inv owned w (stack_vec q)"
  by (simp add: stack_inv_def adapter_inv_def)

lemma stack_wrap_adapter:
  "vec_inv owned w d \<Longrightarrow> stack_wrap w d
    = adapter_wrap vec_al tda_vec_drop sizeof_tda_Stack (\<lambda>p c. \<lparr>stack_self = p, stack_vec = c\<rparr>) w d"
  by (simp add: stack_wrap_def adapter_wrap_def vec_al_ok)

text \<open>What comes out of a constructor that made the vec first.\<close>

lemma stack_wrap_created:
  assumes A: "object_allocator al I owned" and w: "I w1" and c: "vec_created owned al w st r w1"
  shows "\<exists>st' q w'. (case r of None \<Rightarrow> Some (st, None, w1) | Some d \<Rightarrow> stack_wrap w1 d) = Some (st', q, w')
    \<and> I w' \<and> stack_created owned al w st' q w'
    \<and> (\<forall>x. q = Some x \<longrightarrow> (\<exists>d. r = Some d \<and> stack_vec x = d \<and> stack_list w' x = vec_list w1 d))"
proof (cases r)
  case None
  then show ?thesis using w c by (simp add: stack_created_def made_def vec_created_def)
next
  case (Some d)
  have m: "made vec_inv vec_blocks vec_al owned al w TDA_STATUS_OK (Some d) w1"
    using c Some by (simp add: vec_created_made made_def)
  then have d: "vec_inv owned w1 d" "vec_al d = al" by (simp_all add: made_def)
  have sz: "sizeof_tda_Stack \<le> SIZE_MAX" by (simp add: sizeof_tda_Stack_def SIZE_MAX_def)
  obtain st' q w' where k: "stack_wrap w1 d = Some (st', q, w')" "I w'"
    "case q of None \<Rightarrow> st' = TDA_STATUS_ERR_NO_MEM \<and> heap w' = heap w
       | Some a \<Rightarrow> \<exists>obj. a = \<lparr>stack_self = obj, stack_vec = d\<rparr> \<and> st' = TDA_STATUS_OK
           \<and> adapter_inv vec_inv vec_blocks sizeof_tda_Stack owned w' obj d
           \<and> (\<forall>q \<in> insert obj (vec_blocks d). heap w q = None)
           \<and> (\<forall>q. q \<notin> insert obj (vec_blocks d) \<longrightarrow> heap w' q = heap w q)
           \<and> (\<forall>q \<in> vec_blocks d. heap w' q = heap w1 q)"
    unfolding stack_wrap_adapter [OF d(1)] using vec_box.adapter_wrap_made [OF A w m sz] by blast
  show ?thesis
  proof (cases q)
    case None
    then show ?thesis using Some k by (simp add: stack_created_def made_def)
  next
    case q: (Some x)
    then have "vec_list w' d = vec_list w1 d" using k(3) vec_stable(2) [OF d(1), of w'] by auto
    then show ?thesis
      using Some q k d(2) by (auto simp: stack_created_def made_def stack_inv_def stack_blocks_def stack_list_def)
  qed
qed

lemma stack_from_span_spec:
  assumes A: "object_allocator al I owned" and w: "I w" and s: "span_ok w s"
  shows "\<exists>st r w'. tda_stack_from_span s al w = Some (st, r, w') \<and> I w' \<and> stack_created owned al w st r w'
    \<and> (\<forall>q. r = Some q \<longrightarrow> stack_list w' q = span_elems w s)"
proof -
  obtain st r w1 where c: "tda_vec_from_span s al w = Some (st, r, w1)" "I w1" "vec_created owned al w st r w1"
    "\<And>d. r = Some d \<Longrightarrow> vec_list w1 d = span_elems w s"
    using allocator.vec_from_span_spec [OF object_allocator.axioms(1) [OF A] w s] by blast
  have "tda_stack_from_span s al w = (case r of None \<Rightarrow> Some (st, None, w1) | Some d \<Rightarrow> stack_wrap w1 d)"
    using c(1) s by (simp add: tda_stack_from_span_def tda_vec_from_span_def span_assert_ok [OF s] tda_stack_from_data_def)
      (simp add: span_ok_def)
  then show ?thesis using stack_wrap_created [OF A c(2,3)] c(4) by fastforce
qed

lemma stack_copy_with_spec:
  assumes A: "object_allocator al I owned" and w: "I w" and q: "stack_inv owned' w q"
  shows "\<exists>st r w'. tda_stack_copy_with q al w = Some (st, r, w') \<and> I w' \<and> stack_created owned al w st r w'
    \<and> (\<forall>c. r = Some c \<longrightarrow> stack_list w' c = stack_list w q)"
proof -
  obtain st r w1 where c: "tda_vec_copy_with (stack_vec q) al w = Some (st, r, w1)" "I w1"
    "vec_created owned al w st r w1" "\<And>d. r = Some d \<Longrightarrow> vec_list w1 d = stack_list w q"
    using allocator.vec_copy_with_spec [OF object_allocator.axioms(1) [OF A] w stack_inv_vec [OF q]] by (auto simp: stack_list_def)
  then have "tda_stack_copy_with q al w = (case r of None \<Rightarrow> Some (st, None, w1) | Some d \<Rightarrow> stack_wrap w1 d)"
    by (simp add: tda_stack_copy_with_def)
  then show ?thesis using stack_wrap_created [OF A c(2,3)] c(4) by fastforce
qed

lemma stack_drop_spec:
  assumes A: "object_allocator al I owned" and w: "I w" and q: "stack_inv owned w q" "vec_al (stack_vec q) = al"
  shows "\<exists>w'. tda_stack_drop w (Some q) = Some w' \<and> I w' \<and> heap w' = (\<lambda>p. if p \<in> stack_blocks q then None else heap w p)"
  using vec_box.adapter_drop_spec [OF A w q(1) [unfolded stack_inv_def] q(2)] vec_al_ok [OF stack_inv_vec [OF q(1)]] q(2)
  by (simp add: tda_stack_drop_def stack_blocks_def)

lemma stack_into_vec_spec:
  assumes A: "object_allocator al I owned" and w: "I w" and q: "stack_inv owned w q" "vec_al (stack_vec q) = al"
  shows "\<exists>w'. tda_stack_into_vec w q = Some (w', stack_vec q) \<and> I w' \<and> vec_inv owned w' (stack_vec q)
    \<and> heap w' = (heap w)(stack_self q := None)"
  using vec_box.adapter_into_spec [OF A w q(1) [unfolded stack_inv_def]] vec_al_ok [OF stack_inv_vec [OF q(1)]] q(2)
  by (auto simp: tda_stack_into_vec_def)

section \<open>Last in, first out\<close>

datatype stack_op = SPush "byte list" | SPop | SClear | SReserve nat | SShrink

definition stack_step :: "stack_op \<Rightarrow> 's world \<Rightarrow> 's stack \<Rightarrow> (tda_Status \<times> 's world \<times> 's stack) option" where
  "stack_step op w q = (case op of
      SPush x \<Rightarrow> tda_stack_push w q x
    | SPop \<Rightarrow> quiet (tda_stack_pop q) w
    | SClear \<Rightarrow> quiet (tda_stack_clear q) w
    | SReserve n \<Rightarrow> tda_stack_reserve w q n
    | SShrink \<Rightarrow> tda_stack_shrink_to_fit w q)"

definition lifo_allowed :: "stack_op \<Rightarrow> seq \<Rightarrow> bool" where
  "lifo_allowed op s = (case op of SPush x \<Rightarrow> length x = fst s | SPop \<Rightarrow> snd s \<noteq> [] | _ \<Rightarrow> True)"

text \<open>Elements join and leave at the end.\<close>

definition lifo_step :: "stack_op \<Rightarrow> seq \<Rightarrow> seq \<Rightarrow> bool" where
  "lifo_step op s s' = (case s of (es, xs) \<Rightarrow> s' = (es, (case op of
      SPush x \<Rightarrow> xs @ [x]
    | SPop \<Rightarrow> butlast xs
    | SClear \<Rightarrow> []
    | _ \<Rightarrow> xs)))"

definition stack_abs :: "'s world \<Rightarrow> 's stack \<Rightarrow> seq" where
  "stack_abs w q = vec_abs w (stack_vec q)"

definition stack_ok :: "'s al \<Rightarrow> ('s world \<Rightarrow> bool) \<Rightarrow> (ptr \<Rightarrow> bool) \<Rightarrow> 's world \<Rightarrow> 's stack \<Rightarrow> bool" where
  "stack_ok al I owned w q \<longleftrightarrow> I w \<and> stack_inv owned w q \<and> vec_al (stack_vec q) = al"

definition stack_forward :: "stack_op \<Rightarrow> vec_op" where
  "stack_forward op = (case op of SPush x \<Rightarrow> Push x | SPop \<Rightarrow> Pop | SClear \<Rightarrow> Clear
      | SReserve n \<Rightarrow> Reserve n | SShrink \<Rightarrow> ShrinkToFit)"

lemma stack_step_forwards:
  assumes "stack_inv owned w q" "lifo_allowed op (stack_abs w q)"
  shows "stack_step op w q
    = do { (st, w1, d) \<leftarrow> vec_step (stack_forward op) w (stack_vec q); Some (st, w1, q\<lparr>stack_vec := d\<rparr>) }"
proof (cases op)
  case SPop
  note d = stack_inv_vec [OF assms(1)]
  have "0 < vec_len (stack_vec q)"
    using assms(2) SPop by (simp add: lifo_allowed_def stack_abs_def vec_abs_def flip: length_vec_list [OF d])
  then show ?thesis
    using SPop by (simp add: stack_step_def stack_forward_def vec_step_def tda_stack_pop_def tda_vec_len_def assert_vec_ok [OF d])
qed (simp_all add: stack_step_def stack_forward_def vec_step_def tda_stack_push_def tda_stack_clear_def tda_stack_reserve_def
    tda_stack_shrink_to_fit_def)

lemma lifo_forward:
  "lifo_allowed op s = vseq_allowed (stack_forward op) s" "lifo_step op s s' = vseq_step (stack_forward op) s s'"
  by (cases op; cases s; simp add: lifo_allowed_def vseq_allowed_def lifo_step_def vseq_step_def stack_forward_def)+

context object_allocator
begin

lemma stack_step_refines:
  assumes q: "stack_ok al inv owned w q" and ok: "lifo_allowed op (stack_abs w q)"
  shows "\<exists>st w' q'. stack_step op w q = Some (st, w', q') \<and> stack_ok al inv owned w' q' \<and> stack_frame w q w' q'
    \<and> call_refines lifo_step op st (stack_abs w q) (stack_abs w' q')"
proof -
  have d: "vec_ok al inv owned w (stack_vec q)"
    using q by (simp add: stack_ok_def vec_ok_def stack_inv_vec)
  obtain st w' d' where s: "vec_step (stack_forward op) w (stack_vec q) = Some (st, w', d')" "vec_ok al inv owned w' d'"
    "vec_frame w (stack_vec q) w' d'"
    "call_refines vseq_step (stack_forward op) st (vec_abs w (stack_vec q)) (vec_abs w' d')"
    using vec_step_refines [OF d, of "stack_forward op"] ok by (auto simp: lifo_forward stack_abs_def)
  have a: "adapter_inv vec_inv vec_blocks sizeof_tda_Stack owned w (stack_self q) (stack_vec q)"
    using q by (simp add: stack_ok_def stack_inv_def)
  note k = vec_box.adapter_inv_step [OF a, of w' d']
  have "stack_step op w q = Some (st, w', q\<lparr>stack_vec := d'\<rparr>)"
    using stack_step_forwards [of owned, OF _ ok] q s(1) by (simp add: stack_ok_def)
  moreover have "stack_ok al inv owned w' (q\<lparr>stack_vec := d'\<rparr>)" "stack_frame w q w' (q\<lparr>stack_vec := d'\<rparr>)"
    using k s(2,3) by (simp_all add: stack_ok_def stack_inv_def stack_frame_def stack_blocks_def vec_frame_frame vec_ok_def)
  moreover have "call_refines lifo_step op st (stack_abs w q) (stack_abs w' (q\<lparr>stack_vec := d'\<rparr>))"
    using s(4) by (simp add: call_refines_def lifo_forward stack_abs_def)
  ultimately show ?thesis by blast
qed

end

lemma stack_frame_refl: "stack_frame w q w q"
  by (simp add: stack_frame_def frame_refl)

lemma stack_frame_trans: "stack_frame w q w1 q1 \<Longrightarrow> stack_frame w1 q1 w2 q2 \<Longrightarrow> stack_frame w q w2 q2"
  by (auto simp: stack_frame_def intro: frame_trans)

sublocale object_allocator \<subseteq> stack_calls: refined_calls stack_step "stack_ok al inv owned" stack_frame stack_abs lifo_allowed lifo_step
  by unfold_locales (blast intro: stack_frame_refl stack_frame_trans stack_step_refines)+

context object_allocator
begin

lemmas stack_run_refines = stack_calls.run_refines

end

end
