(* ===== verification/Tda_PQueue.thy ===== *)
theory Tda_PQueue
  imports Tda_Vec_Calls Tda_Heap
begin

text \<open>
  \<open>src/ds/pqueue.c\<close>: the priority queue, a vec kept in heap order under a comparator. The
  record is \<open>struct tda_PQueue\<close> with its own address and the vec its pointer leads to. The
  heap algorithms of \<open>Tda_Heap\<close> work on the elements of the vec's span: \<open>on_span\<close> runs one on
  the elements a span shows in memory. The second half shows that the elements are always a
  heap and that runs of calls take out a greatest element each time.
\<close>

text \<open>
  An algorithm of \<open>src/algo\<close>, in the element view, on the memory a span shows: its reads and
  swaps touch nothing else (\<open>span_swap_refines\<close>, \<open>span_set_refines\<close>).
\<close>

definition on_span :: "'s world \<Rightarrow> tda_Span \<Rightarrow> (byte list list \<Rightarrow> byte list list option) \<Rightarrow> 's world option" where
  "on_span w s f = do {
     TDA_SPAN_ASSERT s;
     xs \<leftarrow> f (span_elems w s);
     (case sp_data s of None \<Rightarrow> Some w | Some (p, off) \<Rightarrow> mem_write w p off (concat xs))
   }"

section \<open>PQueue\<close>

record 's pqueue =
  pqueue_self :: ptr
  pqueue_vec :: "'s vec"
  pqueue_cmp :: "byte list cmp_fn"

definition sizeof_tda_PQueue :: nat where
  "sizeof_tda_PQueue = 16"

definition pqueue_wrap ::
  "'s world \<Rightarrow> 's vec \<Rightarrow> byte list cmp_fn \<Rightarrow> (tda_Status \<times> 's pqueue option \<times> 's world) option"
where
  "pqueue_wrap w c cmp = do {
     al \<leftarrow> tda_vec_al c;
     (r, w1) \<leftarrow> tda_alloc al w sizeof_tda_PQueue;
     (case r of
        None \<Rightarrow> do { w2 \<leftarrow> tda_vec_drop w1 (Some c); Some (TDA_STATUS_ERR_NO_MEM, None, w2) }
      | Some obj \<Rightarrow> Some (TDA_STATUS_OK, Some \<lparr>pqueue_self = obj, pqueue_vec = c, pqueue_cmp = cmp\<rparr>, w1))
   }"

definition tda_pqueue_new ::
  "nat \<Rightarrow> byte list cmp_fn \<Rightarrow> 's al \<Rightarrow> 's world \<Rightarrow> (tda_Status \<times> 's pqueue option \<times> 's world) option" where
  "tda_pqueue_new elem_size cmp al w = do {
     c_assert (elem_size > 0);
     (st, r, w1) \<leftarrow> tda_vec_new elem_size al w;
     (case r of None \<Rightarrow> Some (st, None, w1) | Some c \<Rightarrow> pqueue_wrap w1 c cmp)
   }"

definition tda_pqueue_new_cap ::
  "nat \<Rightarrow> nat \<Rightarrow> byte list cmp_fn \<Rightarrow> 's al \<Rightarrow> 's world \<Rightarrow> (tda_Status \<times> 's pqueue option \<times> 's world) option" where
  "tda_pqueue_new_cap cap elem_size cmp al w = do {
     c_assert (elem_size > 0);
     (st, r, w1) \<leftarrow> tda_vec_new_cap cap elem_size al w;
     (case r of None \<Rightarrow> Some (st, None, w1) | Some c \<Rightarrow> pqueue_wrap w1 c cmp)
   }"

definition tda_pqueue_from_data ::
  "(ptr \<times> nat) option \<Rightarrow> nat \<Rightarrow> nat \<Rightarrow> byte list cmp_fn \<Rightarrow> 's al \<Rightarrow> 's world \<Rightarrow> (tda_Status \<times> 's pqueue option \<times> 's world) option"
where
  "tda_pqueue_from_data data len elem_size cmp al w = do {
     c_assert (elem_size > 0);
     (st, r, w1) \<leftarrow> tda_vec_from_data data len elem_size al w;
     (case r of
        None \<Rightarrow> Some (st, None, w1)
      | Some c \<Rightarrow> do {
          s \<leftarrow> tda_vec_to_span c;
          w2 \<leftarrow> on_span w1 s (\<lambda>xs. tda_span_make_heap xs cmp);
          pqueue_wrap w2 c cmp
        })
   }"

definition tda_pqueue_from_span ::
  "tda_Span \<Rightarrow> byte list cmp_fn \<Rightarrow> 's al \<Rightarrow> 's world \<Rightarrow> (tda_Status \<times> 's pqueue option \<times> 's world) option" where
  "tda_pqueue_from_span s cmp al w = do {
     TDA_SPAN_ASSERT s;
     tda_pqueue_from_data (sp_data s) (sp_len s) (sp_elem_size s) cmp al w
   }"

definition tda_pqueue_drop :: "'s world \<Rightarrow> 's pqueue option \<Rightarrow> 's world option" where
  "tda_pqueue_drop w self = (case self of
      None \<Rightarrow> Some w
    | Some q \<Rightarrow> do {
        al_copy \<leftarrow> tda_vec_al (pqueue_vec q);
        w1 \<leftarrow> tda_vec_drop w (Some (pqueue_vec q));
        tda_dealloc al_copy w1 (Some (pqueue_self q)) sizeof_tda_PQueue
      })"

definition tda_pqueue_into_vec :: "'s world \<Rightarrow> 's pqueue \<Rightarrow> ('s world \<times> 's vec) option" where
  "tda_pqueue_into_vec w q = do {
     let c = pqueue_vec q;
     al \<leftarrow> tda_vec_al c;
     w1 \<leftarrow> tda_dealloc al w (Some (pqueue_self q)) sizeof_tda_PQueue;
     Some (w1, c)
   }"

definition tda_pqueue_copy_with ::
  "'s pqueue \<Rightarrow> 's al \<Rightarrow> 's world \<Rightarrow> (tda_Status \<times> 's pqueue option \<times> 's world) option" where
  "tda_pqueue_copy_with q al w = do {
     (st, r, w1) \<leftarrow> tda_vec_copy_with (pqueue_vec q) al w;
     (case r of None \<Rightarrow> Some (st, None, w1) | Some c \<Rightarrow> pqueue_wrap w1 c (pqueue_cmp q))
   }"

definition tda_pqueue_copy :: "'s pqueue \<Rightarrow> 's world \<Rightarrow> (tda_Status \<times> 's pqueue option \<times> 's world) option" where
  "tda_pqueue_copy q w = do { al \<leftarrow> tda_vec_al (pqueue_vec q); tda_pqueue_copy_with q al w }"

definition tda_pqueue_copy_assign ::
  "'s world \<Rightarrow> 's pqueue \<Rightarrow> 's pqueue \<Rightarrow> (tda_Status \<times> 's world \<times> 's pqueue) option" where
  "tda_pqueue_copy_assign w self other = do {
     a \<leftarrow> tda_vec_elem_size (pqueue_vec self);
     b \<leftarrow> tda_vec_elem_size (pqueue_vec other);
     c_assert (a = b);
     if pqueue_self self = pqueue_self other then Some (TDA_STATUS_OK, w, other)
     else do {
       (st, w1, c) \<leftarrow> tda_vec_copy_assign w (pqueue_vec self) (pqueue_vec other);
       if TDA_STATUS_IS_ERR st then Some (st, w1, other\<lparr>pqueue_vec := c\<rparr>)
       else Some (TDA_STATUS_OK, w1, other\<lparr>pqueue_vec := c, pqueue_cmp := pqueue_cmp self\<rparr>)
     }
   }"

definition tda_pqueue_move_assign ::
  "'s world \<Rightarrow> 's pqueue \<Rightarrow> 's pqueue \<Rightarrow> (tda_Status \<times> 's world \<times> 's pqueue \<times> 's pqueue) option" where
  "tda_pqueue_move_assign w self other = do {
     a \<leftarrow> tda_vec_elem_size (pqueue_vec self);
     b \<leftarrow> tda_vec_elem_size (pqueue_vec other);
     c_assert (a = b);
     if pqueue_self self = pqueue_self other then Some (TDA_STATUS_OK, w, self, other)
     else do {
       (st, w1, c, d) \<leftarrow> tda_vec_move_assign w (pqueue_vec self) (pqueue_vec other);
       if TDA_STATUS_IS_ERR st then Some (st, w1, self\<lparr>pqueue_vec := c\<rparr>, other\<lparr>pqueue_vec := d\<rparr>)
       else Some (TDA_STATUS_OK, w1, self\<lparr>pqueue_vec := c\<rparr>, other\<lparr>pqueue_vec := d, pqueue_cmp := pqueue_cmp self\<rparr>)
     }
   }"

definition tda_pqueue_len :: "'s pqueue \<Rightarrow> nat option" where
  "tda_pqueue_len q = tda_vec_len (pqueue_vec q)"

definition tda_pqueue_cap :: "'s pqueue \<Rightarrow> nat option" where
  "tda_pqueue_cap q = tda_vec_cap (pqueue_vec q)"

definition tda_pqueue_elem_size :: "'s pqueue \<Rightarrow> nat option" where
  "tda_pqueue_elem_size q = tda_vec_elem_size (pqueue_vec q)"

definition tda_pqueue_al :: "'s pqueue \<Rightarrow> 's al option" where
  "tda_pqueue_al q = tda_vec_al (pqueue_vec q)"

definition tda_pqueue_cmp :: "'s pqueue \<Rightarrow> byte list cmp_fn" where
  "tda_pqueue_cmp q = pqueue_cmp q"

definition tda_pqueue_top :: "'s pqueue \<Rightarrow> (ptr \<times> nat) option" where
  "tda_pqueue_top q = do {
     n \<leftarrow> tda_vec_len (pqueue_vec q);
     c_assert (n > 0);
     tda_vec_front (pqueue_vec q)
   }"

definition tda_pqueue_push :: "'s world \<Rightarrow> 's pqueue \<Rightarrow> byte list \<Rightarrow> (tda_Status \<times> 's world \<times> 's pqueue) option" where
  "tda_pqueue_push w q val = do {
     (st, w1, c) \<leftarrow> tda_vec_push w (pqueue_vec q) val;
     if TDA_STATUS_IS_ERR st then Some (st, w1, q\<lparr>pqueue_vec := c\<rparr>)
     else do {
       s \<leftarrow> tda_vec_to_span c;
       w2 \<leftarrow> on_span w1 s (\<lambda>xs. tda_span_push_heap xs (pqueue_cmp q));
       Some (TDA_STATUS_OK, w2, q\<lparr>pqueue_vec := c\<rparr>)
     }
   }"

definition tda_pqueue_pop :: "'s world \<Rightarrow> 's pqueue \<Rightarrow> ('s world \<times> 's pqueue) option" where
  "tda_pqueue_pop w q = do {
     n \<leftarrow> tda_vec_len (pqueue_vec q);
     c_assert (n > 0);
     s \<leftarrow> tda_vec_to_span (pqueue_vec q);
     w1 \<leftarrow> on_span w s (\<lambda>xs. tda_span_pop_heap xs (pqueue_cmp q));
     c \<leftarrow> tda_vec_pop (pqueue_vec q);
     Some (w1, q\<lparr>pqueue_vec := c\<rparr>)
   }"

definition tda_pqueue_to_span :: "'s pqueue \<Rightarrow> tda_Span option" where
  "tda_pqueue_to_span q = tda_vec_to_span (pqueue_vec q)"

definition tda_pqueue_clear :: "'s pqueue \<Rightarrow> 's pqueue option" where
  "tda_pqueue_clear q = do { c \<leftarrow> tda_vec_clear (pqueue_vec q); Some (q\<lparr>pqueue_vec := c\<rparr>) }"

definition tda_pqueue_reserve :: "'s world \<Rightarrow> 's pqueue \<Rightarrow> nat \<Rightarrow> (tda_Status \<times> 's world \<times> 's pqueue) option" where
  "tda_pqueue_reserve w q new_cap = do {
     (st, w1, c) \<leftarrow> tda_vec_reserve w (pqueue_vec q) new_cap;
     Some (st, w1, q\<lparr>pqueue_vec := c\<rparr>)
   }"

definition tda_pqueue_shrink_to_fit :: "'s world \<Rightarrow> 's pqueue \<Rightarrow> (tda_Status \<times> 's world \<times> 's pqueue) option" where
  "tda_pqueue_shrink_to_fit w q = do {
     (st, w1, c) \<leftarrow> tda_vec_shrink_to_fit w (pqueue_vec q);
     Some (st, w1, q\<lparr>pqueue_vec := c\<rparr>)
   }"

definition tda_pqueue_swap :: "'s pqueue \<Rightarrow> 's pqueue \<Rightarrow> ('s pqueue \<times> 's pqueue) option" where
  "tda_pqueue_swap self other = do {
     a \<leftarrow> tda_vec_elem_size (pqueue_vec self);
     b \<leftarrow> tda_vec_elem_size (pqueue_vec other);
     c_assert (a = b);
     if pqueue_self self = pqueue_self other then Some (self, other)
     else do {
       (c, d) \<leftarrow> tda_vec_swap (pqueue_vec self) (pqueue_vec other);
       Some (self\<lparr>pqueue_vec := c, pqueue_cmp := pqueue_cmp other\<rparr>, other\<lparr>pqueue_vec := d, pqueue_cmp := pqueue_cmp self\<rparr>)
     }
   }"

section \<open>Algorithms on the elements of a vec\<close>

context allocator
begin

lemma vec_on_span:
  assumes w: "inv w" and v: "vec_inv owned w v" and f: "f (vec_list w v) = Some ys" "mset ys = mset (vec_list w v)"
  shows "\<exists>s w'. tda_vec_to_span v = Some s \<and> on_span w s f = Some w' \<and> inv w' \<and> vec_updated owned w v w' v ys"
proof -
  obtain s where s: "tda_vec_to_span v = Some s" "span_ok w s" "sp_data s = map_option (\<lambda>p. (p, 0)) (vec_data v)"
    "span_elems w s = vec_list w v" using vec_to_span_ok [OF v] by blast
  have el: "\<forall>x\<in>set ys. length x = vec_elem_size v"
    using f(2) vec_list_elem_length [of _ w v] by (metis mset_eq_setD)
  have len: "length ys = vec_len v" using f(2) length_vec_list [OF v] by (metis size_mset)
  show ?thesis
  proof (cases "vec_data v")
    case None
    then have "ys = []" using len v by (auto simp: vec_inv_def)
    then have "vec_updated owned w v w v ys" using v f(2) by (simp add: vec_updated_def vec_frame_refl)
    then show ?thesis using None s f(1) w by (auto simp: on_span_def span_assert_ok [OF s(2)])
  next
    case (Some p)
    have es: "0 < vec_elem_size v" using v by (simp add: vec_inv_def)
    have lc: "length (concat ys) = vec_len v * vec_elem_size v" using length_concat_elems [OF el] len by simp
    have fit: "0 + vec_len v \<le> vec_cap v" using vec_inv_len_le [OF v] by simp
    obtain w' where w': "mem_write w p (0 * vec_elem_size v) (concat ys) = Some w'" "inv w'" "vec_inv owned w' v"
      "vec_frame w v w' v" "vec_cells w' v = blit 0 (elems (vec_elem_size v) (concat ys)) (vec_cells w v)"
      by (rule vec_write [OF w v Some lc fit])
    have "vec_list w' v = ys"
      using w'(5) elems_concat [OF es el] len by (simp add: vec_list_def blit_def)
    then show ?thesis
      using Some s f(1) w' by (auto simp: on_span_def span_assert_ok [OF s(2)] vec_updated_def)
  qed
qed

end

section \<open>Well-formedness: the elements are a heap\<close>

definition pqueue_inv :: "(ptr \<Rightarrow> bool) \<Rightarrow> 's world \<Rightarrow> 's pqueue \<Rightarrow> bool" where
  "pqueue_inv owned w q \<longleftrightarrow> adapter_inv vec_inv vec_blocks sizeof_tda_PQueue owned w (pqueue_self q) (pqueue_vec q)
     \<and> is_heap_list (pqueue_cmp q) (vec_list w (pqueue_vec q))"

definition pqueue_blocks :: "'s pqueue \<Rightarrow> ptr set" where
  "pqueue_blocks q = insert (pqueue_self q) (vec_blocks (pqueue_vec q))"

definition pqueue_list :: "'s world \<Rightarrow> 's pqueue \<Rightarrow> byte list list" where
  "pqueue_list w q = vec_list w (pqueue_vec q)"

definition pqueue_frame :: "'s world \<Rightarrow> 's pqueue \<Rightarrow> 's world \<Rightarrow> 's pqueue \<Rightarrow> bool" where
  "pqueue_frame w q w' q' \<longleftrightarrow> pqueue_self q' = pqueue_self q \<and> pqueue_cmp q' = pqueue_cmp q
     \<and> frame w (pqueue_blocks q) w' (pqueue_blocks q')"

definition pqueue_ok :: "'s al \<Rightarrow> ('s world \<Rightarrow> bool) \<Rightarrow> (ptr \<Rightarrow> bool) \<Rightarrow> byte list cmp_fn \<Rightarrow> 's world \<Rightarrow> 's pqueue \<Rightarrow> bool" where
  "pqueue_ok al I owned cmp w q \<longleftrightarrow> I w \<and> pqueue_inv owned w q \<and> vec_al (pqueue_vec q) = al \<and> pqueue_cmp q = cmp"

lemma pqueue_inv_vec: "pqueue_inv owned w q \<Longrightarrow> vec_inv owned w (pqueue_vec q)"
  by (simp add: pqueue_inv_def adapter_inv_def)

text \<open>An operation on the vec that leaves a heap is one on the queue.\<close>

lemma pqueue_step_inv:
  assumes q: "pqueue_inv owned w q" and u: "vec_inv owned w' v'" "vec_frame w (pqueue_vec q) w' v'"
    and h: "is_heap_list (pqueue_cmp q) (vec_list w' v')"
  shows "pqueue_inv owned w' (q\<lparr>pqueue_vec := v'\<rparr>)" and "pqueue_frame w q w' (q\<lparr>pqueue_vec := v'\<rparr>)"
proof -
  have a: "adapter_inv vec_inv vec_blocks sizeof_tda_PQueue owned w (pqueue_self q) (pqueue_vec q)"
    using q by (simp add: pqueue_inv_def)
  have "frame w (vec_blocks (pqueue_vec q)) w' (vec_blocks v')" using u(2) by (simp add: vec_frame_frame)
  note k = vec_box.adapter_inv_step [OF a this u(1)]
  show "pqueue_inv owned w' (q\<lparr>pqueue_vec := v'\<rparr>)" "pqueue_frame w q w' (q\<lparr>pqueue_vec := v'\<rparr>)"
    using k h by (simp_all add: pqueue_inv_def pqueue_frame_def pqueue_blocks_def)
qed

lemma pqueue_frame_refl: "pqueue_frame w q w q"
  by (simp add: pqueue_frame_def frame_refl)

lemma pqueue_frame_trans: "pqueue_frame w q w1 q1 \<Longrightarrow> pqueue_frame w1 q1 w2 q2 \<Longrightarrow> pqueue_frame w q w2 q2"
  by (auto simp: pqueue_frame_def intro: frame_trans)

section \<open>A greatest element comes out\<close>

datatype pq_op = PPush "byte list" | PPop | PClear | PReserve nat | PShrink

definition pq_step :: "pq_op \<Rightarrow> 's world \<Rightarrow> 's pqueue \<Rightarrow> (tda_Status \<times> 's world \<times> 's pqueue) option" where
  "pq_step op w q = (case op of
      PPush x \<Rightarrow> tda_pqueue_push w q x
    | PPop \<Rightarrow> do { (w1, q1) \<leftarrow> tda_pqueue_pop w q; Some (TDA_STATUS_OK, w1, q1) }
    | PClear \<Rightarrow> quiet (tda_pqueue_clear q) w
    | PReserve n \<Rightarrow> tda_pqueue_reserve w q n
    | PShrink \<Rightarrow> tda_pqueue_shrink_to_fit w q)"

type_synonym bag = "nat \<times> byte list multiset"

definition pqueue_abs :: "'s world \<Rightarrow> 's pqueue \<Rightarrow> bag" where
  "pqueue_abs w q = (vec_elem_size (pqueue_vec q), mset (pqueue_list w q))"

definition pq_allowed :: "pq_op \<Rightarrow> bag \<Rightarrow> bool" where
  "pq_allowed op s = (case op of PPush x \<Rightarrow> length x = fst s | PPop \<Rightarrow> snd s \<noteq> {#} | _ \<Rightarrow> True)"

text \<open>A bag of elements: what is taken out is at least as great as all there is.\<close>

definition pq_rel :: "byte list cmp_fn \<Rightarrow> pq_op \<Rightarrow> bag \<Rightarrow> bag \<Rightarrow> bool" where
  "pq_rel cmp op s s' = (case s of (es, M) \<Rightarrow> (case op of
      PPush x \<Rightarrow> s' = (es, add_mset x M)
    | PPop \<Rightarrow> (\<exists>x \<in># M. (\<forall>y \<in># M. cmp y x \<le> 0) \<and> s' = (es, M - {#x#}))
    | PClear \<Rightarrow> s' = (es, {#})
    | _ \<Rightarrow> s' = (es, M)))"

locale ordered_allocator = object_allocator al inv owned + comparator cmp
  for al :: "'s al" and inv :: "'s world \<Rightarrow> bool" and owned :: "ptr \<Rightarrow> bool" and cmp :: "byte list \<Rightarrow> byte list \<Rightarrow> int"
begin

lemma pqueue_push_spec:
  assumes w: "inv w" and q: "pqueue_inv owned w q" "vec_al (pqueue_vec q) = al" "pqueue_cmp q = cmp"
    and x: "length x = vec_elem_size (pqueue_vec q)"
  shows "\<exists>st w' v'. tda_pqueue_push w q x = Some (st, w', q\<lparr>pqueue_vec := v'\<rparr>) \<and> inv w'
    \<and> (if st = TDA_STATUS_OK then vec_inv owned w' v' \<and> vec_frame w (pqueue_vec q) w' v'
         \<and> mset (vec_list w' v') = add_mset x (mset (pqueue_list w q)) \<and> is_heap_list cmp (vec_list w' v')
       else v' = pqueue_vec q \<and> heap w' = heap w)"
proof -
  let ?v = "pqueue_vec q" and ?xs = "vec_list w (pqueue_vec q)"
  note v = pqueue_inv_vec [OF q(1)]
  obtain st w1 v1 where p: "tda_vec_push w ?v x = Some (st, w1, v1)" "inv w1" "vec_outcome owned w ?v st w1 v1 (?xs @ [x])"
    using vec_push_spec [OF w v q(2) x] by blast
  show ?thesis
  proof (cases st)
    case TDA_STATUS_ERR_NO_MEM
    then show ?thesis using p by (auto simp: tda_pqueue_push_def vec_outcome_def)
  next
    case TDA_STATUS_OK
    then have u: "vec_inv owned w1 v1" "vec_frame w ?v w1 v1" "vec_list w1 v1 = ?xs @ [x]"
      using p(3) by (simp_all add: vec_outcome_def vec_updated_def)
    have "is_heap_list cmp (butlast (vec_list w1 v1))" using q(1,3) u(3) by (simp add: pqueue_inv_def)
    moreover have "vec_list w1 v1 \<noteq> []" using u(3) by simp
    ultimately obtain t where t: "tda_span_push_heap (vec_list w1 v1) cmp = Some t" "mset t = mset (vec_list w1 v1)" "is_heap_list cmp t"
      using push_heap_spec by blast
    obtain s w2 where o: "tda_vec_to_span v1 = Some s" "on_span w1 s (\<lambda>xs. tda_span_push_heap xs cmp) = Some w2" "inv w2"
      "vec_updated owned w1 v1 w2 v1 t"
      using vec_on_span [OF p(2) u(1), of "\<lambda>xs. tda_span_push_heap xs cmp"] t(1,2) by blast
    then have "vec_inv owned w2 v1" "vec_frame w ?v w2 v1" "vec_list w2 v1 = t"
      using vec_frame_trans [OF u(2)] by (simp_all add: vec_updated_def)
    then show ?thesis
      using p(1) o(1-3) TDA_STATUS_OK t(2,3) u(3) q(3) by (auto simp: tda_pqueue_push_def pqueue_list_def)
  qed
qed

text \<open>The element at the top is the one that is taken out.\<close>

lemma pqueue_pop_spec:
  assumes w: "inv w" and q: "pqueue_inv owned w q" "pqueue_cmp q = cmp" and ne: "pqueue_list w q \<noteq> []"
  shows "\<exists>w' v'. tda_pqueue_pop w q = Some (w', q\<lparr>pqueue_vec := v'\<rparr>) \<and> inv w' \<and> vec_inv owned w' v'
    \<and> vec_frame w (pqueue_vec q) w' v' \<and> is_heap_list cmp (vec_list w' v')
    \<and> mset (vec_list w' v') = mset (pqueue_list w q) - {#hd (pqueue_list w q)#}
    \<and> (\<forall>y \<in> set (pqueue_list w q). cmp y (hd (pqueue_list w q)) \<le> 0)"
proof -
  let ?v = "pqueue_vec q" and ?xs = "vec_list w (pqueue_vec q)"
  note v = pqueue_inv_vec [OF q(1)]
  have ne': "?xs \<noteq> []" and h: "is_heap_list cmp ?xs" using ne q by (simp_all add: pqueue_list_def pqueue_inv_def)
  obtain t where t: "tda_span_pop_heap ?xs cmp = Some t" "mset t = mset ?xs" "length t = length ?xs"
    "heap_from cmp 0 (length ?xs - 1) t" "last t = ?xs ! 0" "\<forall>x\<in>set t. cmp x (last t) \<le> 0"
    using pop_heap_spec [OF ne' h] by blast
  obtain s w1 where o: "tda_vec_to_span ?v = Some s" "on_span w s (\<lambda>xs. tda_span_pop_heap xs cmp) = Some w1" "inv w1"
    "vec_updated owned w ?v w1 ?v t"
    using vec_on_span [OF w v, of "\<lambda>xs. tda_span_pop_heap xs cmp"] t(1,2) by blast
  have u: "vec_inv owned w1 ?v" "vec_frame w ?v w1 ?v" "vec_list w1 ?v = t" using o(4) by (simp_all add: vec_updated_def)
  have n: "0 < vec_len ?v" using ne' length_vec_list [OF v] by (metis length_greater_0_conv)
  define v' where "v' = ?v\<lparr>vec_len := vec_len ?v - 1\<rparr>"
  have lt: "length t = vec_len ?v" using t(3) length_vec_list [OF v] by simp
  have v': "vec_inv owned w1 v'" "vec_frame w ?v w1 v'"
    using vec_inv_len [OF u(1), of "vec_len ?v - 1"] vec_frame_len [OF u(2)] vec_inv_len_le [OF v] by (simp_all add: v'_def)
  have l': "vec_list w1 v' = butlast t"
    using u(3) lt by (simp add: v'_def vec_list_def butlast_conv_take min_def flip: take_take)
      (metis diff_le_self min.absorb1 take_take)
  have "t \<noteq> []" using t(3) ne' by auto
  then have bl: "mset t = add_mset (last t) (mset (butlast t))" by (metis add_mset_add_single append_butlast_last_id mset.simps mset_append)
  have "is_heap_list cmp (butlast t)"
    using t(4) lt length_vec_list [OF v] by (auto simp: is_heap_list_def heap_from_def nth_butlast par_def)
  moreover have "tda_pqueue_pop w q = Some (w1, q\<lparr>pqueue_vec := v'\<rparr>)"
    using n o(1,2) q(2) assert_vec_ok [OF v] by (simp add: tda_pqueue_pop_def tda_vec_len_def tda_vec_pop_def v'_def)
  moreover have "hd (pqueue_list w q) = last t" using t(5) ne' by (simp add: pqueue_list_def hd_conv_nth)
  moreover have "set (pqueue_list w q) = set t" using t(2) by (metis mset_eq_setD pqueue_list_def)
  moreover have "mset (pqueue_list w q) = mset t" using t(2) by (simp add: pqueue_list_def)
  ultimately show ?thesis using o(3) v' l' bl t(6) by (intro exI [of _ w1] exI [of _ v']) simp
qed

lemma pq_step_refines:
  assumes k: "pqueue_ok al inv owned cmp w q" and ok: "pq_allowed op (pqueue_abs w q)"
  shows "\<exists>st w' q'. pq_step op w q = Some (st, w', q') \<and> pqueue_ok al inv owned cmp w' q' \<and> pqueue_frame w q w' q'
    \<and> call_refines (pq_rel cmp) op st (pqueue_abs w q) (pqueue_abs w' q')"
proof -
  let ?v = "pqueue_vec q"
  have w: "inv w" and q: "pqueue_inv owned w q" "vec_al ?v = al" "pqueue_cmp q = cmp" using k by (simp_all add: pqueue_ok_def)
  note v = pqueue_inv_vec [OF q(1)]
  have h: "is_heap_list cmp (vec_list w ?v)" using q(1,3) by (simp add: pqueue_inv_def)
  have fin: ?thesis
    if "pq_step op w q = Some (st, w', q\<lparr>pqueue_vec := v'\<rparr>)" "inv w'" "vec_inv owned w' v'" "vec_frame w ?v w' v'"
      "is_heap_list cmp (vec_list w' v')"
      "call_refines (pq_rel cmp) op st (pqueue_abs w q) (vec_elem_size ?v, mset (vec_list w' v'))" for st w' v'
  proof -
    have "is_heap_list (pqueue_cmp q) (vec_list w' v')" using that(5) q(3) by simp
    note s = pqueue_step_inv [OF q(1) that(3,4) this]
    have "vec_elem_size v' = vec_elem_size ?v" "vec_al v' = al" using that(4) q(2) by (simp_all add: vec_frame_def)
    then show ?thesis using that(1,2,6) s q(3)
      by (intro exI [of _ st] exI [of _ w'] exI [of _ "q\<lparr>pqueue_vec := v'\<rparr>"]) (simp add: pqueue_ok_def pqueue_abs_def pqueue_list_def)
  qed
  have same: ?thesis if "pq_step op w q = Some (st, w', q\<lparr>pqueue_vec := ?v\<rparr>)" "inv w'" "heap w' = heap w"
    "st \<noteq> TDA_STATUS_OK" for st w'
    using fin [OF that(1,2), of] that(3,4) v h vec_inv_cong [of w' w] vec_list_cong [of w' w] vec_frame_refl [OF that(3)]
    by (simp add: call_refines_def pqueue_abs_def pqueue_list_def)
  note [simp] = pq_step_def pq_allowed_def pqueue_abs_def pq_rel_def call_refines_def pqueue_list_def
  show ?thesis
  proof (cases op)
    case (PPush x)
    then have "length x = vec_elem_size ?v" using ok by simp
    from pqueue_push_spec [OF w q this] obtain st w' v' where
      p: "tda_pqueue_push w q x = Some (st, w', q\<lparr>pqueue_vec := v'\<rparr>)" "inv w'"
      "if st = TDA_STATUS_OK then vec_inv owned w' v' \<and> vec_frame w ?v w' v'
         \<and> mset (vec_list w' v') = add_mset x (mset (pqueue_list w q)) \<and> is_heap_list cmp (vec_list w' v')
       else v' = ?v \<and> heap w' = heap w" by blast
    show ?thesis
    proof (cases "st = TDA_STATUS_OK")
      case True
      then show ?thesis using fin [of st w' v'] p PPush by simp
    next
      case False
      then show ?thesis using same [of st w'] p PPush by simp
    qed
  next
    case PPop
    then have ne: "pqueue_list w q \<noteq> []" using ok by simp
    from pqueue_pop_spec [OF w q(1,3) ne] obtain w' v' where
      p: "tda_pqueue_pop w q = Some (w', q\<lparr>pqueue_vec := v'\<rparr>)" "inv w'" "vec_inv owned w' v'" "vec_frame w ?v w' v'"
      "is_heap_list cmp (vec_list w' v')" "mset (vec_list w' v') = mset (pqueue_list w q) - {#hd (pqueue_list w q)#}"
      "\<forall>y \<in> set (pqueue_list w q). cmp y (hd (pqueue_list w q)) \<le> 0" by blast
    have "hd (pqueue_list w q) \<in> set (pqueue_list w q)" using ne by simp
    then show ?thesis using fin [of TDA_STATUS_OK w' v'] p PPop by auto
  next
    case PClear
    have "vec_simulates owned w ?v TDA_STATUS_OK w (?v\<lparr>vec_len := 0\<rparr>) []"
      using vec_cut_simulates [OF v, of 0] by simp
    moreover have "is_heap_list cmp []" by (simp add: is_heap_list_def heap_from_def)
    ultimately show ?thesis using fin [of TDA_STATUS_OK w "?v\<lparr>vec_len := 0\<rparr>"] w PClear assert_vec_ok [OF v]
      by (simp add: tda_pqueue_clear_def tda_vec_clear_def vec_simulates_def)
  next
    case (PReserve n)
    obtain st w' v' where r: "tda_vec_reserve w ?v n = Some (st, w', v')" "inv w'" "vec_reserved owned w ?v n st w' v'"
      using vec_reserve_spec [OF w v q(2)] by blast
    have "vec_simulates owned w ?v st w' v' (vec_list w ?v)" by (rule vec_reserved_simulates [OF v r(3)])
    then show ?thesis
      by (intro fin [of st w' v']) (use r PReserve h in \<open>simp_all add: tda_pqueue_reserve_def vec_simulates_def\<close>)
  next
    case PShrink
    obtain st w' v' where r: "tda_vec_shrink_to_fit w ?v = Some (st, w', v')" "inv w'" "vec_outcome owned w ?v st w' v' (vec_list w ?v)"
      using vec_shrink_spec [OF w v q(2)] by blast
    have "vec_simulates owned w ?v st w' v' (vec_list w ?v)" by (rule vec_outcome_simulates [OF v r(3)])
    then show ?thesis
      by (intro fin [of st w' v']) (use r PShrink h in \<open>simp_all add: tda_pqueue_shrink_to_fit_def vec_simulates_def\<close>)
  qed
qed

end

sublocale ordered_allocator \<subseteq> pq_calls: refined_calls pq_step "pqueue_ok al inv owned cmp" pqueue_frame pqueue_abs pq_allowed "pq_rel cmp"
  by unfold_locales (blast intro: pqueue_frame_refl pqueue_frame_trans pq_step_refines)+

context ordered_allocator
begin

lemmas pqueue_run_refines = pq_calls.run_refines

end

section \<open>Birth and death\<close>

definition pqueue_created ::
  "(ptr \<Rightarrow> bool) \<Rightarrow> 's al \<Rightarrow> 's world \<Rightarrow> tda_Status \<Rightarrow> 's pqueue option \<Rightarrow> 's world \<Rightarrow> bool" where
  "pqueue_created = made pqueue_inv pqueue_blocks (\<lambda>q. vec_al (pqueue_vec q))"

lemma pqueue_wrap_adapter:
  "vec_inv owned w v \<Longrightarrow> pqueue_wrap w v cmp
    = adapter_wrap vec_al tda_vec_drop sizeof_tda_PQueue (\<lambda>p c. \<lparr>pqueue_self = p, pqueue_vec = c, pqueue_cmp = cmp\<rparr>) w v"
  by (simp add: pqueue_wrap_def adapter_wrap_def vec_al_ok)

lemma pqueue_wrap_created:
  assumes A: "object_allocator al I owned" and w: "I w1" and c: "vec_created owned al w TDA_STATUS_OK (Some v) w1"
    and h: "is_heap_list cmp (vec_list w1 v)"
  shows "\<exists>st q w'. pqueue_wrap w1 v cmp = Some (st, q, w') \<and> I w' \<and> pqueue_created owned al w st q w'
    \<and> (\<forall>x. q = Some x \<longrightarrow> pqueue_list w' x = vec_list w1 v \<and> pqueue_cmp x = cmp)"
proof -
  have m: "made vec_inv vec_blocks vec_al owned al w TDA_STATUS_OK (Some v) w1" using c by (simp add: vec_created_made)
  then have v: "vec_inv owned w1 v" "vec_al v = al" by (simp_all add: made_def)
  have sz: "sizeof_tda_PQueue \<le> SIZE_MAX" by (simp add: sizeof_tda_PQueue_def SIZE_MAX_def)
  obtain st q w' where k: "pqueue_wrap w1 v cmp = Some (st, q, w')" "I w'"
    "case q of None \<Rightarrow> st = TDA_STATUS_ERR_NO_MEM \<and> heap w' = heap w
       | Some a \<Rightarrow> \<exists>obj. a = \<lparr>pqueue_self = obj, pqueue_vec = v, pqueue_cmp = cmp\<rparr> \<and> st = TDA_STATUS_OK
           \<and> adapter_inv vec_inv vec_blocks sizeof_tda_PQueue owned w' obj v
           \<and> (\<forall>q \<in> insert obj (vec_blocks v). heap w q = None)
           \<and> (\<forall>q. q \<notin> insert obj (vec_blocks v) \<longrightarrow> heap w' q = heap w q)
           \<and> (\<forall>q \<in> vec_blocks v. heap w' q = heap w1 q)"
    unfolding pqueue_wrap_adapter [OF v(1)] using vec_box.adapter_wrap_made [OF A w m sz] by blast
  show ?thesis
  proof (cases q)
    case None
    then show ?thesis using k by (simp add: pqueue_created_def made_def)
  next
    case (Some x)
    then have "vec_list w' v = vec_list w1 v" using k(3) vec_stable(2) [OF v(1), of w'] by auto
    then show ?thesis
      using Some k v(2) h by (auto simp: pqueue_created_def made_def pqueue_inv_def pqueue_blocks_def pqueue_list_def)
  qed
qed

context ordered_allocator
begin

lemma pqueue_from_span_spec:
  assumes w: "inv w" and s: "span_ok w s"
  shows "\<exists>st r w'. tda_pqueue_from_span s cmp al w = Some (st, r, w') \<and> inv w' \<and> pqueue_created owned al w st r w'
    \<and> (\<forall>q. r = Some q \<longrightarrow> mset (pqueue_list w' q) = mset (span_elems w s) \<and> pqueue_cmp q = cmp)"
proof -
  have es: "0 < sp_elem_size s" using s by (simp add: span_ok_def)
  obtain st r w1 where c: "tda_vec_from_span s al w = Some (st, r, w1)" "inv w1" "vec_created owned al w st r w1"
    "\<And>v. r = Some v \<Longrightarrow> vec_list w1 v = span_elems w s"
    using vec_from_span_spec [OF w s] by blast
  have d: "tda_vec_from_data (sp_data s) (sp_len s) (sp_elem_size s) al w = Some (st, r, w1)"
    using c(1) by (simp add: tda_vec_from_span_def span_assert_ok [OF s])
  show ?thesis
  proof (cases r)
    case None
    then show ?thesis using c(2,3) d es
      by (simp add: tda_pqueue_from_span_def span_assert_ok [OF s] tda_pqueue_from_data_def pqueue_created_def made_def vec_created_def)
  next
    case (Some v)
    have v: "vec_inv owned w1 v" using c(3) Some by (simp add: vec_created_def)
    obtain t where t: "tda_span_make_heap (vec_list w1 v) cmp = Some t" "mset t = mset (vec_list w1 v)" "is_heap_list cmp t"
      using make_heap_heap by blast
    obtain s1 w2 where o: "tda_vec_to_span v = Some s1" "on_span w1 s1 (\<lambda>xs. tda_span_make_heap xs cmp) = Some w2" "inv w2"
      "vec_updated owned w1 v w2 v t"
      using vec_on_span [OF c(2) v, of "\<lambda>xs. tda_span_make_heap xs cmp"] t(1,2) by blast
    have "vec_created owned al w TDA_STATUS_OK (Some v) w2" and l: "vec_list w2 v = t"
      using c(3) Some o(4) by (simp_all add: vec_created_def vec_updated_def vec_frame_def)
    from pqueue_wrap_created [OF object_allocator_axioms o(3) this(1), of cmp] show ?thesis
      using l t Some d es o(1,2) c(4)
      by (fastforce simp: tda_pqueue_from_span_def span_assert_ok [OF s] tda_pqueue_from_data_def)
  qed
qed

end

lemma pqueue_copy_with_spec:
  assumes A: "object_allocator al I owned" and w: "I w" and q: "pqueue_inv owned' w q"
  shows "\<exists>st r w'. tda_pqueue_copy_with q al w = Some (st, r, w') \<and> I w' \<and> pqueue_created owned al w st r w'
    \<and> (\<forall>c. r = Some c \<longrightarrow> pqueue_list w' c = pqueue_list w q \<and> pqueue_cmp c = pqueue_cmp q)"
proof -
  have al: "allocator al I owned" using A by (simp add: object_allocator_def)
  obtain st r w1 where c: "tda_vec_copy_with (pqueue_vec q) al w = Some (st, r, w1)" "I w1"
    "vec_created owned al w st r w1" "\<And>v. r = Some v \<Longrightarrow> vec_list w1 v = pqueue_list w q"
    using allocator.vec_copy_with_spec [OF al w pqueue_inv_vec [OF q]] by (auto simp: pqueue_list_def)
  show ?thesis
  proof (cases r)
    case None
    then show ?thesis using c by (simp add: tda_pqueue_copy_with_def pqueue_created_def made_def vec_created_def)
  next
    case (Some v)
    have st: "st = TDA_STATUS_OK" using c(3) Some by (simp add: vec_created_def)
    have "is_heap_list (pqueue_cmp q) (vec_list w1 v)"
      using q c(4) [OF Some] by (simp add: pqueue_inv_def pqueue_list_def)
    from pqueue_wrap_created [OF A c(2) c(3) [unfolded Some st] this] show ?thesis
      using c(1,4) Some by (fastforce simp: tda_pqueue_copy_with_def)
  qed
qed

lemma pqueue_drop_spec:
  assumes A: "object_allocator al I owned" and w: "I w" and q: "pqueue_inv owned w q" "vec_al (pqueue_vec q) = al"
  shows "\<exists>w'. tda_pqueue_drop w (Some q) = Some w' \<and> I w' \<and> heap w' = (\<lambda>p. if p \<in> pqueue_blocks q then None else heap w p)"
proof -
  have "adapter_inv vec_inv vec_blocks sizeof_tda_PQueue owned w (pqueue_self q) (pqueue_vec q)"
    using q(1) by (simp add: pqueue_inv_def)
  from vec_box.adapter_drop_spec [OF A w this q(2)] show ?thesis
    using vec_al_ok [OF pqueue_inv_vec [OF q(1)]] q(2) by (simp add: tda_pqueue_drop_def pqueue_blocks_def)
qed

end
