(* ===== verification/Tda_Arr.thy ===== *)
theory Tda_Arr
  imports Tda_Calls Tda_Modify
begin

text \<open>
  \<open>src/ds/arr.c\<close>: the array of fixed length. \<open>arr\<close> is \<open>struct tda_Arr\<close> with its own
  address; its elements are the whole block \<open>arr_data\<close> points at. The second half gives what
  each operation does to the list of elements, which an assignment alone may make longer or
  shorter, and shows that the array is a \<open>container\<close>.
\<close>

record 's arr =
  arr_self :: ptr
  arr_data :: "ptr option"
  arr_len :: nat
  arr_elem_size :: nat
  arr_al :: "'s al"

definition sizeof_tda_Arr :: nat where
  "sizeof_tda_Arr = 32"

definition ASSERT_ARR :: "'s arr \<Rightarrow> unit option" where
  "ASSERT_ARR a = do {
     c_assert (arr_elem_size a > 0);
     c_assert (arr_len a = 0 \<or> arr_data a \<noteq> None);
     c_assert (arr_data a = None \<or> arr_len a > 0)
   }"

definition arr_len_bytes :: "'s arr \<Rightarrow> nat" where
  "arr_len_bytes a = size_mul (arr_len a) (arr_elem_size a)"

definition arr_offset :: "'s arr \<Rightarrow> nat \<Rightarrow> (ptr \<times> nat) option" where
  "arr_offset a idx = do {
     off \<leftarrow> tda_byte_offset (arr_data a \<noteq> None) (arr_elem_size a) idx;
     p \<leftarrow> arr_data a;
     Some (p, off)
   }"

definition arr_set_fields :: "ptr \<Rightarrow> ptr option \<Rightarrow> nat \<Rightarrow> nat \<Rightarrow> 's al \<Rightarrow> 's arr" where
  "arr_set_fields obj data len elem_size al =
     \<lparr>arr_self = obj, arr_data = data, arr_len = len, arr_elem_size = elem_size, arr_al = al\<rparr>"

definition arr_new_fail :: "'s al \<Rightarrow> 's world \<Rightarrow> ptr \<Rightarrow> (tda_Status \<times> 's arr option \<times> 's world) option" where
  "arr_new_fail al w obj = do {
     w1 \<leftarrow> tda_dealloc al w (Some obj) sizeof_tda_Arr;
     Some (TDA_STATUS_ERR_NO_MEM, None, w1)
   }"

definition arr_new_impl ::
  "bool \<Rightarrow> nat \<Rightarrow> nat \<Rightarrow> 's al \<Rightarrow> 's world \<Rightarrow> (tda_Status \<times> 's arr option \<times> 's world) option" where
  "arr_new_impl zeroed len elem_size al w = do {
     c_assert (elem_size > 0);
     (r, w1) \<leftarrow> tda_alloc al w sizeof_tda_Arr;
     (case r of
        None \<Rightarrow> Some (TDA_STATUS_ERR_NO_MEM, None, w1)
      | Some obj \<Rightarrow>
          if len > 0 then
            (case ckd_mul len elem_size of
               None \<Rightarrow> arr_new_fail al w1 obj
             | Some bytes \<Rightarrow> do {
                 (d, w2) \<leftarrow> (if zeroed then tda_calloc al w1 len elem_size else tda_alloc al w1 bytes);
                 (case d of
                    None \<Rightarrow> arr_new_fail al w2 obj
                  | Some data \<Rightarrow> do {
                      let a = arr_set_fields obj (Some data) len elem_size al;
                      ASSERT_ARR a;
                      Some (TDA_STATUS_OK, Some a, w2)
                    })
               })
          else do {
            let a = arr_set_fields obj None len elem_size al;
            ASSERT_ARR a;
            Some (TDA_STATUS_OK, Some a, w1)
          })
   }"

definition arr_release_data :: "'s world \<Rightarrow> 's arr \<Rightarrow> ('s world \<times> 's arr) option" where
  "arr_release_data w a = do {
     w1 \<leftarrow> tda_dealloc (arr_al a) w (arr_data a) (arr_len_bytes a);
     Some (w1, a\<lparr>arr_data := None, arr_len := 0\<rparr>)
   }"

section \<open>Lifetime\<close>

definition tda_arr_new_len ::
  "nat \<Rightarrow> nat \<Rightarrow> 's al \<Rightarrow> 's world \<Rightarrow> (tda_Status \<times> 's arr option \<times> 's world) option" where
  "tda_arr_new_len len elem_size al w = do {
     c_assert (elem_size > 0);
     arr_new_impl True len elem_size al w
   }"

definition tda_arr_from_data ::
  "(ptr \<times> nat) option \<Rightarrow> nat \<Rightarrow> nat \<Rightarrow> 's al \<Rightarrow> 's world \<Rightarrow> (tda_Status \<times> 's arr option \<times> 's world) option"
where
  "tda_arr_from_data data len elem_size al w = do {
     c_assert (data \<noteq> None \<or> len = 0);
     c_assert (elem_size > 0);
     (st, r, w1) \<leftarrow> arr_new_impl False len elem_size al w;
     (case r of
        None \<Rightarrow> Some (st, None, w1)
      | Some a \<Rightarrow>
          if len > 0 then do {
            (q, off) \<leftarrow> data;
            bs \<leftarrow> mem_read w1 q off (arr_len_bytes a);
            p \<leftarrow> arr_data a;
            w2 \<leftarrow> mem_write w1 p 0 bs;
            Some (TDA_STATUS_OK, Some a, w2)
          }
          else Some (TDA_STATUS_OK, Some a, w1))
   }"

definition tda_arr_from_span ::
  "tda_Span \<Rightarrow> 's al \<Rightarrow> 's world \<Rightarrow> (tda_Status \<times> 's arr option \<times> 's world) option" where
  "tda_arr_from_span s al w = do {
     TDA_SPAN_ASSERT s;
     tda_arr_from_data (sp_data s) (sp_len s) (sp_elem_size s) al w
   }"

definition tda_arr_drop :: "'s world \<Rightarrow> 's arr option \<Rightarrow> 's world option" where
  "tda_arr_drop w self = (case self of
      None \<Rightarrow> Some w
    | Some a \<Rightarrow> do {
        ASSERT_ARR a;
        w1 \<leftarrow> tda_dealloc (arr_al a) w (arr_data a) (arr_len_bytes a);
        tda_dealloc (arr_al a) w1 (Some (arr_self a)) sizeof_tda_Arr
      })"

section \<open>Views, information, access\<close>

definition tda_arr_to_span :: "'s arr \<Rightarrow> tda_Span option" where
  "tda_arr_to_span a = do {
     ASSERT_ARR a;
     tda_span_from_data (map_option (\<lambda>p. (p, 0)) (arr_data a)) (arr_len a) (arr_elem_size a)
   }"

definition tda_arr_len :: "'s arr \<Rightarrow> nat option" where
  "tda_arr_len a = do { ASSERT_ARR a; Some (arr_len a) }"

definition tda_arr_elem_size :: "'s arr \<Rightarrow> nat option" where
  "tda_arr_elem_size a = do { ASSERT_ARR a; Some (arr_elem_size a) }"

definition tda_arr_bytes :: "'s arr \<Rightarrow> nat option" where
  "tda_arr_bytes a = do { ASSERT_ARR a; Some (arr_len_bytes a) }"

definition tda_arr_al :: "'s arr \<Rightarrow> 's al option" where
  "tda_arr_al a = do { ASSERT_ARR a; Some (arr_al a) }"

definition tda_arr_front :: "'s arr \<Rightarrow> (ptr \<times> nat) option" where
  "tda_arr_front a = do { ASSERT_ARR a; c_assert (arr_len a > 0); arr_offset a 0 }"

definition tda_arr_back :: "'s arr \<Rightarrow> (ptr \<times> nat) option" where
  "tda_arr_back a = do { ASSERT_ARR a; c_assert (arr_len a > 0); arr_offset a (arr_len a - 1) }"

definition tda_arr_get :: "'s arr \<Rightarrow> nat \<Rightarrow> (ptr \<times> nat) option" where
  "tda_arr_get a idx = do { ASSERT_ARR a; c_assert (idx < arr_len a); arr_offset a idx }"

definition tda_arr_set :: "'s world \<Rightarrow> 's arr \<Rightarrow> nat \<Rightarrow> byte list \<Rightarrow> 's world option" where
  "tda_arr_set w a idx val = do {
     ASSERT_ARR a;
     c_assert (idx < arr_len a);
     (p, off) \<leftarrow> arr_offset a idx;
     mem_write w p off (take (arr_elem_size a) val)
   }"

definition tda_arr_data :: "'s arr \<Rightarrow> ptr option option" where
  "tda_arr_data a = do { ASSERT_ARR a; Some (arr_data a) }"

section \<open>Copies, moves, comparison\<close>

definition tda_arr_copy_with ::
  "'s arr \<Rightarrow> 's al \<Rightarrow> 's world \<Rightarrow> (tda_Status \<times> 's arr option \<times> 's world) option" where
  "tda_arr_copy_with self al w = do {
     ASSERT_ARR self;
     s \<leftarrow> tda_arr_to_span self;
     tda_arr_from_span s al w
   }"

definition tda_arr_copy :: "'s arr \<Rightarrow> 's world \<Rightarrow> (tda_Status \<times> 's arr option \<times> 's world) option" where
  "tda_arr_copy self w = do { ASSERT_ARR self; tda_arr_copy_with self (arr_al self) w }"

text \<open>The block is resized when the lengths differ; the bytes follow when it is there.\<close>

definition arr_copy_bytes :: "'s world \<Rightarrow> 's arr \<Rightarrow> 's arr \<Rightarrow> (tda_Status \<times> 's world \<times> 's arr) option" where
  "arr_copy_bytes w self other = do {
     w1 \<leftarrow> (if arr_len_bytes self > 0 then do {
              q \<leftarrow> arr_data self;
              bs \<leftarrow> mem_read w q 0 (arr_len_bytes self);
              p \<leftarrow> arr_data other;
              mem_write w p 0 bs
            } else Some w);
     ASSERT_ARR other;
     Some (TDA_STATUS_OK, w1, other)
   }"

definition tda_arr_copy_assign ::
  "'s world \<Rightarrow> 's arr \<Rightarrow> 's arr \<Rightarrow> (tda_Status \<times> 's world \<times> 's arr) option" where
  "tda_arr_copy_assign w self other = do {
     ASSERT_ARR self;
     ASSERT_ARR other;
     c_assert (arr_elem_size self = arr_elem_size other);
     if arr_self self = arr_self other then Some (TDA_STATUS_OK, w, other)
     else do {
       let self_bytes = arr_len_bytes self;
       let other_bytes = arr_len_bytes other;
       if self_bytes \<noteq> other_bytes then do {
         (r, w1) \<leftarrow> tda_realloc (arr_al other) w (arr_data other) other_bytes self_bytes;
         if self_bytes > 0 \<and> r = None then Some (TDA_STATUS_ERR_NO_MEM, w1, other)
         else arr_copy_bytes w1 self (other\<lparr>arr_data := r, arr_len := arr_len self\<rparr>)
       }
       else arr_copy_bytes w self other
     }
   }"

definition arr_swap_structs :: "'s arr \<Rightarrow> 's arr \<Rightarrow> 's arr \<times> 's arr" where
  "arr_swap_structs a b = (b\<lparr>arr_self := arr_self a\<rparr>, a\<lparr>arr_self := arr_self b\<rparr>)"

definition tda_arr_move_assign ::
  "'s world \<Rightarrow> 's arr \<Rightarrow> 's arr \<Rightarrow> (tda_Status \<times> 's world \<times> 's arr \<times> 's arr) option" where
  "tda_arr_move_assign w self other = do {
     ASSERT_ARR self;
     ASSERT_ARR other;
     c_assert (arr_elem_size self = arr_elem_size other);
     if arr_self self = arr_self other then Some (TDA_STATUS_OK, w, self, other)
     else if al_self (arr_al self) = al_self (arr_al other) then do {
       let (self1, other1) = arr_swap_structs self other;
       (w1, self2) \<leftarrow> arr_release_data w self1;
       ASSERT_ARR self2;
       ASSERT_ARR other1;
       Some (TDA_STATUS_OK, w1, self2, other1)
     }
     else do {
       (st, r, w1) \<leftarrow> tda_arr_copy_with self (arr_al other) w;
       (case r of
          None \<Rightarrow> Some (st, w1, self, other)
        | Some obj \<Rightarrow> do {
            let (other1, obj1) = arr_swap_structs other obj;
            w2 \<leftarrow> tda_arr_drop w1 (Some obj1);
            (w3, self1) \<leftarrow> arr_release_data w2 self;
            ASSERT_ARR self1;
            ASSERT_ARR other1;
            Some (TDA_STATUS_OK, w3, self1, other1)
          })
     }
   }"

definition tda_arr_eq :: "'s world \<Rightarrow> 's arr \<Rightarrow> 's arr \<Rightarrow> bool option" where
  "tda_arr_eq w a b = do {
     s \<leftarrow> tda_arr_to_span a;
     t \<leftarrow> tda_arr_to_span b;
     tda_span_eq w s t
   }"

definition tda_arr_eq_by :: "'s world \<Rightarrow> 's arr \<Rightarrow> 's arr \<Rightarrow> (byte list \<Rightarrow> byte list \<Rightarrow> bool) \<Rightarrow> bool option" where
  "tda_arr_eq_by w a b eq = do {
     s \<leftarrow> tda_arr_to_span a;
     t \<leftarrow> tda_arr_to_span b;
     c_assert (sp_elem_size s = sp_elem_size t);
     tda_span_eq_by (sp_data s = sp_data t) (span_elems w s) (span_elems w t) eq
   }"

definition tda_arr_swap :: "'s arr \<Rightarrow> 's arr \<Rightarrow> ('s arr \<times> 's arr) option" where
  "tda_arr_swap self other = do {
     ASSERT_ARR self;
     ASSERT_ARR other;
     c_assert (arr_elem_size self = arr_elem_size other);
     c_assert (al_self (arr_al self) = al_self (arr_al other));
     if arr_self self = arr_self other then Some (self, other)
     else do {
       let (self', other') = arr_swap_structs self other;
       ASSERT_ARR self';
       ASSERT_ARR other';
       Some (self', other')
     }
   }"

definition tda_arr_swap_elems :: "'s world \<Rightarrow> 's arr \<Rightarrow> nat \<Rightarrow> nat \<Rightarrow> 's world option" where
  "tda_arr_swap_elems w a i j = do {
     ASSERT_ARR a;
     s \<leftarrow> tda_arr_to_span a;
     tda_span_swap_elems w s i j
   }"

section \<open>Well-formedness and the elements\<close>

definition arr_inv :: "(ptr \<Rightarrow> bool) \<Rightarrow> 's world \<Rightarrow> 's arr \<Rightarrow> bool" where
  "arr_inv owned w a = (0 < arr_elem_size a \<and> arr_len a * arr_elem_size a \<le> SIZE_MAX
     \<and> owned (arr_self a) \<and> block_at w (arr_self a) sizeof_tda_Arr
     \<and> (case arr_data a of None \<Rightarrow> arr_len a = 0
        | Some p \<Rightarrow> 0 < arr_len a \<and> owned p \<and> p \<noteq> arr_self a \<and> block_at w p (arr_len a * arr_elem_size a)))"

definition arr_list :: "'s world \<Rightarrow> 's arr \<Rightarrow> byte list list" where
  "arr_list w a = (case arr_data a of None \<Rightarrow> [] | Some p \<Rightarrow> elems (arr_elem_size a) (the (heap w p)))"

definition arr_blocks :: "'s arr \<Rightarrow> ptr set" where
  "arr_blocks a = insert (arr_self a) (set_option (arr_data a))"

definition arr_frame :: "'s world \<Rightarrow> 's arr \<Rightarrow> 's world \<Rightarrow> 's arr \<Rightarrow> bool" where
  "arr_frame w a w' a' = (arr_self a' = arr_self a \<and> arr_elem_size a' = arr_elem_size a \<and> arr_al a' = arr_al a
     \<and> frame w (arr_blocks a) w' (arr_blocks a'))"

definition arr_updated :: "(ptr \<Rightarrow> bool) \<Rightarrow> 's world \<Rightarrow> 's arr \<Rightarrow> 's world \<Rightarrow> 's arr \<Rightarrow> byte list list \<Rightarrow> bool" where
  "arr_updated owned w a w' a' xs = (arr_inv owned w' a' \<and> arr_frame w a w' a' \<and> arr_list w' a' = xs)"

definition arr_created ::
  "(ptr \<Rightarrow> bool) \<Rightarrow> 's al \<Rightarrow> 's world \<Rightarrow> tda_Status \<Rightarrow> 's arr option \<Rightarrow> 's world \<Rightarrow> bool" where
  "arr_created = made arr_inv arr_blocks arr_al"

lemma assert_arr_ok: "arr_inv owned w a \<Longrightarrow> ASSERT_ARR a = Some ()"
  by (auto simp: arr_inv_def ASSERT_ARR_def c_simps split: option.splits)

lemma arr_bytes_eq: "arr_inv owned w a \<Longrightarrow> arr_len_bytes a = arr_len a * arr_elem_size a"
  by (simp add: arr_inv_def arr_len_bytes_def size_mul_exact)

lemma length_arr_list: "arr_inv owned w a \<Longrightarrow> length (arr_list w a) = arr_len a"
  by (auto simp: arr_inv_def arr_list_def block_at_def length_elems_mult split: option.splits)

lemma arr_live: "arr_inv owned w a \<Longrightarrow> q \<in> arr_blocks a \<Longrightarrow> heap w q \<noteq> None"
  by (auto simp: arr_inv_def block_at_def arr_blocks_def split: option.splits)

lemma arr_stable:
  assumes "arr_inv owned w a" "\<And>q. q \<in> arr_blocks a \<Longrightarrow> heap w' q = heap w q"
  shows "arr_inv owned w' a" and "arr_list w' a = arr_list w a"
  using assms by (auto simp: arr_inv_def block_at_def arr_blocks_def arr_list_def split: option.splits)

lemma arr_offset_ok:
  assumes "arr_inv owned w a" "arr_data a = Some p" "k \<le> arr_len a"
  shows "arr_offset a k = Some (p, k * arr_elem_size a)"
proof -
  have "k * arr_elem_size a \<le> arr_len a * arr_elem_size a" using assms(3) by (rule mult_le_mono1)
  moreover have "arr_len a * arr_elem_size a \<le> SIZE_MAX" using assms(1) by (simp add: arr_inv_def)
  ultimately have "arr_elem_size a * k \<le> SIZE_MAX" unfolding mult.commute [of _ k] by (rule le_trans)
  then show ?thesis using assms(1,2) by (simp add: arr_inv_def arr_offset_def tda_byte_offset_def size_mul_exact mult.commute)
qed

lemma arr_to_span_ok:
  assumes a: "arr_inv owned w a"
  shows "\<exists>s. tda_arr_to_span a = Some s \<and> span_ok w s \<and> sp_elem_size s = arr_elem_size a
    \<and> sp_data s = map_option (\<lambda>p. (p, 0)) (arr_data a) \<and> span_elems w s = arr_list w a"
proof -
  define s where "s = \<lparr>sp_data = map_option (\<lambda>p. (p, 0::nat)) (arr_data a), sp_len = arr_len a, sp_elem_size = arr_elem_size a\<rparr>"
  have "arr_data a \<noteq> None \<or> arr_len a = 0" using a by (auto simp: arr_inv_def split: option.splits)
  then have "tda_arr_to_span a = Some s"
    using a by (simp add: tda_arr_to_span_def assert_arr_ok [OF a] tda_span_from_data_def s_def c_assert_def)
      (simp add: arr_inv_def)
  moreover have "span_ok w s"
    using a by (auto simp: arr_inv_def block_at_def span_ok_def s_def split: option.splits)
  moreover have "span_elems w s = arr_list w a"
    using a by (auto simp: span_elems_def span_bytes_def s_def arr_list_def arr_inv_def block_at_def split: option.splits)
  ultimately show ?thesis by (auto simp: s_def)
qed

lemma arr_block_written:
  assumes a: "arr_inv owned w a" "arr_data a = Some p"
    and h: "heap w' = (heap w)(p \<mapsto> bs)" "length bs = arr_len a * arr_elem_size a"
  shows "arr_updated owned w a w' a (elems (arr_elem_size a) bs)"
proof -
  have "arr_inv owned w' a" using a h by (auto simp: arr_inv_def block_at_def)
  moreover have "arr_frame w a w' a"
    using frame_write [of p "arr_blocks a" w' w] a(2) h(1) by (simp add: arr_frame_def arr_blocks_def)
  ultimately show ?thesis using a(2) h(1) by (simp add: arr_updated_def arr_list_def)
qed

section \<open>Effects of the operations\<close>

context allocator
begin

lemma arr_write_elem:
  assumes w: "inv w" and a: "arr_inv owned' w a" "idx < arr_len a" and x: "length x = arr_elem_size a"
  obtains p w' where "arr_offset a idx = Some (p, idx * arr_elem_size a)" "mem_write w p (idx * arr_elem_size a) x = Some w'"
    "inv w'" "arr_updated owned' w a w' a ((arr_list w a)[idx := x])"
proof -
  obtain p bs where b: "arr_data a = Some p" "heap w p = Some bs" "length bs = arr_len a * arr_elem_size a"
    using a by (auto simp: arr_inv_def block_at_def split: option.splits)
  have es: "0 < arr_elem_size a" and x1: "length x = 1 * arr_elem_size a" and fit: "idx + 1 \<le> arr_len a"
    using a x by (simp_all add: arr_inv_def)
  obtain w' bs' where w': "mem_write w p (idx * arr_elem_size a) x = Some w'" "inv w'" "heap w' = (heap w)(p \<mapsto> bs')"
    "length bs' = arr_len a * arr_elem_size a"
    "elems (arr_elem_size a) bs' = blit idx (elems (arr_elem_size a) x) (elems (arr_elem_size a) bs)"
    by (rule write_elems [OF w b(2,3) es x1 fit])
  have "elems (arr_elem_size a) bs' = (arr_list w a)[idx := x]"
    using w'(5) b es x a(2) length_elems_mult [OF es b(3)] by (simp add: arr_list_def blit_one)
  then show ?thesis
    using that [OF arr_offset_ok [OF a(1) b(1)] w'(1,2)] arr_block_written [OF a(1) b(1) w'(3,4)] a(2) by simp
qed

lemma arr_set_spec:
  assumes w: "inv w" and a: "arr_inv owned' w a" "idx < arr_len a" and x: "length x = arr_elem_size a"
  shows "\<exists>w'. tda_arr_set w a idx x = Some w' \<and> inv w' \<and> arr_updated owned' w a w' a ((arr_list w a)[idx := x])"
proof -
  obtain p w' where "arr_offset a idx = Some (p, idx * arr_elem_size a)" "mem_write w p (idx * arr_elem_size a) x = Some w'"
    "inv w'" "arr_updated owned' w a w' a ((arr_list w a)[idx := x])" by (rule arr_write_elem [OF w a x])
  then show ?thesis using a(2) x by (simp add: tda_arr_set_def assert_arr_ok [OF a(1)])
qed

lemma arr_new_fail_spec:
  assumes "inv w1" "owned obj" "heap w1 obj = Some bs" "length bs = sizeof_tda_Arr"
    and "heap w obj = None" "heap w1 = (heap w)(obj \<mapsto> bs)"
  shows "\<exists>st r w'. arr_new_fail al w1 obj = Some (st, r, w') \<and> inv w'
    \<and> r = None \<and> st = TDA_STATUS_ERR_NO_MEM \<and> heap w' = heap w"
proof -
  obtain w' where "tda_dealloc al w1 (Some obj) sizeof_tda_Arr = Some w'" "inv w'"
    "heap w' = (heap w1)(obj := None)" by (rule dealloc_some [OF assms(1-4)])
  then show ?thesis using assms(5,6) by (auto simp: arr_new_fail_def fun_upd_idem)
qed

text \<open>The block comes zeroed or not; either way it is fresh and of the size asked for.\<close>

lemma arr_new_block:
  assumes "inv w1" "len * es \<le> SIZE_MAX"
  obtains (null) w2 where "(if z then tda_calloc al w1 len es else tda_alloc al w1 (len * es)) = Some (None, w2)"
    "inv w2" "heap w2 = heap w1"
  | (ok) p w2 bs where "(if z then tda_calloc al w1 len es else tda_alloc al w1 (len * es)) = Some (Some p, w2)"
    "inv w2" "owned p" "heap w1 p = None" "length bs = len * es" "heap w2 = (heap w1)(p \<mapsto> bs)"
    "z \<Longrightarrow> bs = replicate (len * es) 0"
proof (cases z)
  case True
  show ?thesis
    by (rule calloc_cases [OF assms(1), of len es]) (use True null ok in \<open>auto\<close>)
next
  case False
  show ?thesis
    by (rule alloc_cases [OF assms]) (use False null ok in \<open>auto\<close>)
qed

lemma arr_new_impl_spec:
  assumes w: "inv w" and es: "0 < es"
  shows "\<exists>st r w'. arr_new_impl z len es al w = Some (st, r, w') \<and> inv w' \<and> arr_created owned al w st r w'
    \<and> (\<forall>a. r = Some a \<longrightarrow> arr_elem_size a = es \<and> arr_len a = len \<and> (z \<longrightarrow> arr_list w' a = replicate len (replicate es 0)))"
proof -
  have sz: "sizeof_tda_Arr \<le> SIZE_MAX" by (simp add: sizeof_tda_Arr_def SIZE_MAX_def)
  show ?thesis
  proof (rule alloc_cases [OF w sz])
    fix w1 assume "tda_alloc al w sizeof_tda_Arr = Some (None, w1)" "inv w1" "heap w1 = heap w"
    then show ?thesis using es by (simp add: arr_new_impl_def arr_created_def made_def)
  next
    fix obj w1 ob assume o: "tda_alloc al w sizeof_tda_Arr = Some (Some obj, w1)" "inv w1" "owned obj"
      "heap w obj = None" "length ob = sizeof_tda_Arr" "heap w1 = (heap w)(obj \<mapsto> ob)"
    have fail: "\<exists>st r w'. arr_new_fail al w2 obj = Some (st, r, w') \<and> inv w'
        \<and> r = None \<and> st = TDA_STATUS_ERR_NO_MEM \<and> heap w' = heap w"
      if "inv w2" "heap w2 = heap w1" for w2
      using arr_new_fail_spec [OF that(1) o(3) _ o(5) o(4)] that(2) o(6) by simp
    note unf = arr_new_impl_def arr_created_def made_def ckd_mul_def
    consider (empty) "len = 0" | (over) "0 < len" "SIZE_MAX < len * es" | (ask) "0 < len" "len * es \<le> SIZE_MAX"
      by linarith
    then show ?thesis
    proof cases
      case empty
      define a where "a = arr_set_fields obj None len es al"
      have "arr_inv owned w1 a"
        using empty es o by (simp add: arr_inv_def a_def arr_set_fields_def block_at_def)
      then show ?thesis
        using empty es o assert_arr_ok [of owned w1 a]
        by (simp add: unf a_def arr_set_fields_def arr_blocks_def arr_list_def)
    next
      case over
      then show ?thesis using fail [OF o(2) refl] es o(1) by (fastforce simp: unf)
    next
      case ask
      show ?thesis
      proof (rule arr_new_block [OF o(2) ask(2), of z])
        fix w2 assume "(if z then tda_calloc al w1 len es else tda_alloc al w1 (len * es)) = Some (None, w2)"
          "inv w2" "heap w2 = heap w1"
        then show ?thesis using fail [of w2] ask es o(1) by (fastforce simp: unf)
      next
        fix p w2 bs assume p: "(if z then tda_calloc al w1 len es else tda_alloc al w1 (len * es)) = Some (Some p, w2)"
          "inv w2" "owned p" "heap w1 p = None" "length bs = len * es" "heap w2 = (heap w1)(p \<mapsto> bs)"
          "z \<Longrightarrow> bs = replicate (len * es) 0"
        define a where "a = arr_set_fields obj (Some p) len es al"
        have flds: "arr_data a = Some p" "arr_elem_size a = es" "arr_len a = len" "arr_self a = obj" "arr_al a = al"
          by (simp_all add: a_def arr_set_fields_def)
        have po: "p \<noteq> obj" using p(4) o(6) by auto
        have a2: "arr_inv owned w2 a" using ask es o p po by (simp add: arr_inv_def flds block_at_def)
        have "arr_created owned al w TDA_STATUS_OK (Some a) w2"
          using a2 o(4,6) p(4,6) po by (auto simp: arr_created_def made_def flds arr_blocks_def)
        moreover have "z \<Longrightarrow> arr_list w2 a = replicate len (replicate es 0)"
          using p(6,7) es by (simp add: arr_list_def flds elems_replicate)
        moreover have "arr_new_impl z len es al w = Some (TDA_STATUS_OK, Some a, w2)"
          using ask es o(1) p(1) assert_arr_ok [OF a2] by (simp add: arr_new_impl_def ckd_mul_def a_def Let_def)
        ultimately show ?thesis using p(2) by (simp add: flds)
      qed
    qed
  qed
qed

lemma arr_drop_spec:
  assumes w: "inv w" and a: "arr_inv owned w a" "arr_al a = al"
  shows "\<exists>w'. tda_arr_drop w (Some a) = Some w' \<and> inv w'
    \<and> heap w' = (\<lambda>q. if q \<in> arr_blocks a then None else heap w q)"
proof -
  have "owned p \<and> block_at w p (arr_len_bytes a)" if "arr_data a = Some p" for p
    using that a(1) by (simp add: arr_inv_def arr_bytes_eq [OF a(1)])
  from dealloc_opt [OF w this] obtain w1 where w1: "tda_dealloc al w (arr_data a) (arr_len_bytes a) = Some w1"
    "inv w1" "heap w1 = (\<lambda>q. if q \<in> set_option (arr_data a) then None else heap w q)" by blast
  obtain sb where "owned (arr_self a)" "heap w1 (arr_self a) = Some sb" "length sb = sizeof_tda_Arr"
    using a(1) w1(3) by (auto simp: arr_inv_def block_at_def split: option.splits)
  from dealloc_some [OF w1(2) this] obtain w2 where "tda_dealloc al w1 (Some (arr_self a)) sizeof_tda_Arr = Some w2"
    "inv w2" "heap w2 = (heap w1)(arr_self a := None)" .
  then show ?thesis using w1(1,3) by (auto simp: tda_arr_drop_def assert_arr_ok [OF a(1)] a(2) arr_blocks_def)
qed

lemma arr_release_spec:
  assumes w: "inv w" and a: "arr_inv owned w a" "arr_al a = al"
  shows "\<exists>w' a'. arr_release_data w a = Some (w', a') \<and> inv w' \<and> arr_updated owned w a w' a' []
    \<and> (\<forall>q. heap w' q = (if q \<in> set_option (arr_data a) then None else heap w q))"
proof -
  have "owned p \<and> block_at w p (arr_len_bytes a)" if "arr_data a = Some p" for p
    using that a(1) by (simp add: arr_inv_def arr_bytes_eq [OF a(1)])
  from dealloc_opt [OF w this] obtain w1 where w1: "tda_dealloc al w (arr_data a) (arr_len_bytes a) = Some w1"
    "inv w1" "heap w1 = (\<lambda>q. if q \<in> set_option (arr_data a) then None else heap w q)" by blast
  then show ?thesis
    using a by (auto simp: arr_release_data_def arr_updated_def arr_inv_def arr_frame_def frame_def arr_blocks_def
        arr_list_def block_at_def split: option.splits)
qed

lemma arr_from_span_spec:
  assumes w: "inv w" and s: "span_ok w s"
  shows "\<exists>st r w'. tda_arr_from_span s al w = Some (st, r, w') \<and> inv w' \<and> arr_created owned al w st r w'
    \<and> (\<forall>a. r = Some a \<longrightarrow> arr_list w' a = span_elems w s \<and> arr_elem_size a = sp_elem_size s)"
proof -
  let ?es = "sp_elem_size s" and ?n = "sp_len s"
  have es: "0 < ?es" using s by (simp add: span_ok_def)
  obtain st r w1 where c: "arr_new_impl False ?n ?es al w = Some (st, r, w1)" "inv w1" "arr_created owned al w st r w1"
    "\<And>a. r = Some a \<Longrightarrow> arr_elem_size a = ?es \<and> arr_len a = ?n"
    using arr_new_impl_spec [OF w es, of False] by blast
  have null: "sp_data s \<noteq> None \<or> ?n = 0" using s by (auto simp: span_ok_def split: option.splits)
  note unf = tda_arr_from_span_def span_assert_ok [OF s] tda_arr_from_data_def
  show ?thesis
  proof (cases r)
    case None
    then show ?thesis using c null es by (auto simp: unf c_assert_def arr_created_def made_def)
  next
    case (Some a)
    note f = c(4) [OF Some]
    have a: "st = TDA_STATUS_OK" "arr_inv owned w1 a" "arr_al a = al" "\<forall>q \<in> arr_blocks a. heap w q = None"
      "\<forall>q. q \<notin> arr_blocks a \<longrightarrow> heap w1 q = heap w q" using c(3) Some by (simp_all add: arr_created_def made_def)
    show ?thesis
    proof (cases "?n = 0")
      case True
      then have "span_elems w s = []" using length_span_elems [OF s] by simp
      moreover have "arr_list w1 a = []" using length_arr_list [OF a(2)] f True by simp
      ultimately show ?thesis using True Some c(1-3) es f a(1) by (simp add: unf)
    next
      case False
      then obtain q off sbs where q: "sp_data s = Some (q, off)" "heap w q = Some sbs" "off + ?n * ?es \<le> length sbs"
        using s by (auto simp: span_ok_def split: option.splits)
      have "heap w1 q = Some sbs" using a(4,5) q(2) by (metis option.distinct(1))
      then have rd: "mem_read w1 q off (?n * ?es) = Some (span_bytes w s)"
        using q by (simp add: mem_read_ok span_bytes_def)
      obtain p bs where p: "arr_data a = Some p" "heap w1 p = Some bs" "length bs = ?n * ?es"
        using a(2) f False by (auto simp: arr_inv_def block_at_def split: option.splits)
      have ls: "length (span_bytes w s) = ?n * ?es" by (rule length_span_bytes [OF s])
      have fit: "0 + ?n \<le> ?n" by simp
      obtain w2 bs2 where w2: "mem_write w1 p (0 * ?es) (span_bytes w s) = Some w2" "inv w2"
        "heap w2 = (heap w1)(p \<mapsto> bs2)" "length bs2 = ?n * ?es"
        "elems ?es bs2 = blit 0 (elems ?es (span_bytes w s)) (elems ?es bs)"
        by (rule write_elems [OF c(2) p(2,3) es ls fit])
      have "length bs2 = arr_len a * arr_elem_size a" using w2(4) f by simp
      from arr_block_written [OF a(2) p(1) w2(3) this] have u: "arr_updated owned w1 a w2 a (span_elems w s)"
        using w2(5) f length_elems_mult [OF es ls] length_elems_mult [OF es p(3)] by (simp add: span_elems_def blit_whole)
      moreover have "tda_arr_from_span s al w = Some (TDA_STATUS_OK, Some a, w2)"
        using c(1) Some es False q(1) rd p(1) w2(1) arr_bytes_eq [OF a(2)] f by (simp add: unf)
      moreover have "arr_created owned al w TDA_STATUS_OK (Some a) w2"
        using u a(3-5) by (simp add: arr_created_def made_def arr_updated_def arr_frame_def frame_def)
      ultimately show ?thesis using w2(2) f by (simp add: arr_updated_def)
    qed
  qed
qed

lemma arr_copy_with_spec:
  assumes w: "inv w" and a: "arr_inv owned' w a"
  shows "\<exists>st r w'. tda_arr_copy_with a al w = Some (st, r, w') \<and> inv w' \<and> arr_created owned al w st r w'
    \<and> (\<forall>c. r = Some c \<longrightarrow> arr_list w' c = arr_list w a \<and> arr_elem_size c = arr_elem_size a)"
proof -
  from arr_to_span_ok [OF a] obtain s where s: "tda_arr_to_span a = Some s" "span_ok w s"
    "sp_elem_size s = arr_elem_size a" "span_elems w s = arr_list w a" by blast
  then show ?thesis
    using arr_from_span_spec [OF w s(2)] by (simp add: tda_arr_copy_with_def assert_arr_ok [OF a])
qed

text \<open>Once the target has the length of the source, the bytes are copied over.\<close>

lemma arr_copy_bytes_spec:
  assumes w: "inv w" and self: "arr_inv owned' w self" and other: "arr_inv owned w other"
    and same: "arr_len other = arr_len self" "arr_elem_size other = arr_elem_size self"
    and apart: "arr_blocks self \<inter> arr_blocks other = {}"
  shows "\<exists>w'. arr_copy_bytes w self other = Some (TDA_STATUS_OK, w', other) \<and> inv w'
    \<and> arr_updated owned w other w' other (arr_list w self)"
proof (cases "arr_len self = 0")
  case True
  then have "arr_list w self = []" "arr_list w other = []"
    using length_arr_list [OF self] length_arr_list [OF other] same(1) by simp_all
  then show ?thesis
    using True w other same(1) by (simp add: arr_copy_bytes_def arr_bytes_eq [OF self] assert_arr_ok [OF other]
        arr_updated_def arr_frame_def frame_refl)
next
  case False
  let ?es = "arr_elem_size self" and ?n = "arr_len self"
  have es: "0 < ?es" using self by (simp add: arr_inv_def)
  obtain q qs where q: "arr_data self = Some q" "heap w q = Some qs" "length qs = ?n * ?es"
    using self False by (auto simp: arr_inv_def block_at_def split: option.splits)
  obtain p bs where p: "arr_data other = Some p" "heap w p = Some bs" "length bs = ?n * ?es"
    using other False same by (auto simp: arr_inv_def block_at_def split: option.splits)
  have fit: "0 + ?n \<le> ?n" by simp
  obtain w2 bs2 where w2: "mem_write w p (0 * ?es) qs = Some w2" "inv w2" "heap w2 = (heap w)(p \<mapsto> bs2)"
    "length bs2 = ?n * ?es" "elems ?es bs2 = blit 0 (elems ?es qs) (elems ?es bs)"
    by (rule write_elems [OF w p(2,3) es q(3) fit])
  have "length bs2 = arr_len other * arr_elem_size other" using w2(4) same by simp
  from arr_block_written [OF other p(1) w2(3) this] have u: "arr_updated owned w other w2 other (arr_list w self)"
    using w2(5) same q length_elems_mult [OF es q(3)] length_elems_mult [OF es p(3)] by (simp add: arr_list_def blit_whole)
  have "arr_copy_bytes w self other = Some (TDA_STATUS_OK, w2, other)"
    using False es q p(1) w2(1) assert_arr_ok [OF other] by (simp add: arr_copy_bytes_def arr_bytes_eq [OF self] mem_read_ok)
  then show ?thesis using w2(2) u by blast
qed

text \<open>A resize of the target's block to \<open>n > 0\<close> elements, or down to nothing.\<close>

lemma arr_resized:
  assumes w: "inv w" and a: "arr_inv owned w a" "arr_al a = al" and n: "n * arr_elem_size a \<le> SIZE_MAX" "n \<noteq> arr_len a"
  obtains (refused) w1 where "tda_realloc al w (arr_data a) (arr_len_bytes a) (n * arr_elem_size a) = Some (None, w1)"
      "inv w1" "heap w1 = heap w" "0 < n"
  | (ok) r w1 where "tda_realloc al w (arr_data a) (arr_len_bytes a) (n * arr_elem_size a) = Some (r, w1)" "inv w1"
      "r \<noteq> None \<or> n = 0" "arr_inv owned w1 (a\<lparr>arr_data := r, arr_len := n\<rparr>)" "arr_frame w a w1 (a\<lparr>arr_data := r, arr_len := n\<rparr>)"
proof -
  have es: "0 < arr_elem_size a" using a(1) by (simp add: arr_inv_def)
  note bytes = arr_bytes_eq [OF a(1)]
  show ?thesis
  proof (cases "arr_data a")
    case None
    then have z: "arr_len a = 0" using a(1) by (simp add: arr_inv_def)
    then have pos: "0 < n * arr_elem_size a" using n(2) es by simp
    show ?thesis
    proof (rule realloc_null_cases [OF w pos n(1)])
      fix w1 assume "tda_realloc al w None 0 (n * arr_elem_size a) = Some (None, w1)" "inv w1" "heap w1 = heap w"
      then show ?thesis using refused [of w1] None z bytes pos by simp
    next
      fix p w1 bs assume r: "tda_realloc al w None 0 (n * arr_elem_size a) = Some (Some p, w1)" "inv w1" "owned p"
        "heap w p = None" "length bs = n * arr_elem_size a" "heap w1 = (heap w)(p \<mapsto> bs)"
      have "p \<noteq> arr_self a" using r(4) a(1) by (auto simp: arr_inv_def block_at_def)
      then show ?thesis
        using ok [of "Some p" w1] r None z bytes pos a es n(1)
        by (auto simp: arr_inv_def block_at_def arr_frame_def frame_def arr_blocks_def)
    qed
  next
    case (Some p)
    obtain bs where p: "owned p" "heap w p = Some bs" "length bs = arr_len a * arr_elem_size a" "p \<noteq> arr_self a"
      using a(1) Some by (auto simp: arr_inv_def block_at_def)
    show ?thesis
    proof (cases "n = 0")
      case True
      obtain w1 where w1: "tda_realloc al w (Some p) (arr_len a * arr_elem_size a) 0 = Some (None, w1)" "inv w1"
        "heap w1 = (heap w)(p := None)" by (rule realloc_to_zero [OF w p(1-3)])
      then show ?thesis
        using ok [of None w1] True Some bytes a p(4)
        by (auto simp: arr_inv_def block_at_def arr_frame_def frame_def arr_blocks_def)
    next
      case False
      then have pos: "0 < n * arr_elem_size a" using es by simp
      show ?thesis
      proof (rule realloc_some_cases [OF w p(1-3) pos n(1)])
        fix w1 assume "tda_realloc al w (Some p) (arr_len a * arr_elem_size a) (n * arr_elem_size a) = Some (None, w1)"
          "inv w1" "heap w1 = heap w"
        then show ?thesis using refused [of w1] Some bytes False by simp
      next
        fix q w1 qs assume r: "tda_realloc al w (Some p) (arr_len a * arr_elem_size a) (n * arr_elem_size a) = Some (Some q, w1)"
          "inv w1" "owned q" "q = p \<or> heap w q = None" "length qs = n * arr_elem_size a" "heap w1 = (heap w)(p := None, q \<mapsto> qs)"
        have qs: "q \<noteq> arr_self a" using r(4) p(4) a(1) by (auto simp: arr_inv_def block_at_def)
        have h: "heap w1 x = (if x = q then Some qs else if x = p then None else heap w x)" for x using r(6) by simp
        have "arr_inv owned w1 (a\<lparr>arr_data := Some q, arr_len := n\<rparr>)"
          using a(1) es False n(1) r(3,5) qs p(4) h by (simp add: arr_inv_def block_at_def)
        moreover have "arr_frame w a w1 (a\<lparr>arr_data := Some q, arr_len := n\<rparr>)"
          using Some r(4) h p(4) qs by (auto simp: arr_frame_def frame_def arr_blocks_def)
        ultimately show ?thesis using ok [of "Some q" w1] r(1,2) Some bytes by simp
      qed
    qed
  qed
qed

lemma arr_copy_assign_spec:
  assumes w: "inv w" and self: "arr_inv owned' w self" and other: "arr_inv owned w other" "arr_al other = al"
    and es: "arr_elem_size self = arr_elem_size other" and apart: "arr_blocks self \<inter> arr_blocks other = {}"
  shows "\<exists>st w' other'. tda_arr_copy_assign w self other = Some (st, w', other') \<and> inv w'
    \<and> (if st = TDA_STATUS_OK then arr_updated owned w other w' other' (arr_list w self)
       else other' = other \<and> heap w' = heap w)"
proof -
  have ne: "arr_self self \<noteq> arr_self other" using apart by (auto simp: arr_blocks_def)
  have es0: "0 < arr_elem_size other" using other(1) by (simp add: arr_inv_def)
  note unf = tda_arr_copy_assign_def assert_arr_ok [OF self] assert_arr_ok [OF other(1)] es ne Let_def other(2)
    arr_bytes_eq [OF self]
  show ?thesis
  proof (cases "arr_len self = arr_len other")
    case True
    then show ?thesis
      using arr_copy_bytes_spec [OF w self other(1) _ _ apart] es by (fastforce simp: unf arr_bytes_eq [OF other(1)])
  next
    case False
    have n: "arr_len self * arr_elem_size other \<le> SIZE_MAX" using self es by (simp add: arr_inv_def)
    have ne': "arr_len self * arr_elem_size other \<noteq> arr_len_bytes other"
      using False es0 by (simp add: arr_bytes_eq [OF other(1)])
    show ?thesis
    proof (cases rule: arr_resized [OF w other n False, case_names refused ok])
      case (refused w1)
      then show ?thesis using ne' es0 by (auto simp: unf)
    next
      case (ok r w1)
      define o1 where "o1 = other\<lparr>arr_data := r, arr_len := arr_len self\<rparr>"
      have o1: "arr_inv owned w1 o1" "arr_frame w other w1 o1" using ok(4,5) by (simp_all add: o1_def)
      have keep: "heap w1 q = heap w q \<and> q \<notin> arr_blocks o1" if "q \<in> arr_blocks self" for q
        using that apart arr_live [OF self that] o1(2) frame_other [of w "arr_blocks other" w1 "arr_blocks o1" q]
        by (fastforce simp: arr_frame_def)
      then have s1: "arr_inv owned' w1 self" "arr_list w1 self = arr_list w self"
        using arr_stable [OF self, of w1] by simp_all
      have ap: "arr_blocks self \<inter> arr_blocks o1 = {}" using keep by blast
      obtain w2 where c: "arr_copy_bytes w1 self o1 = Some (TDA_STATUS_OK, w2, o1)" "inv w2"
        "arr_updated owned w1 o1 w2 o1 (arr_list w self)"
        using arr_copy_bytes_spec [OF ok(2) s1(1) o1(1) _ _ ap] es s1(2) by (auto simp: o1_def)
      have "arr_updated owned w other w2 o1 (arr_list w self)"
        using c(3) o1(2) by (auto simp: arr_updated_def arr_frame_def intro: frame_trans)
      moreover have "tda_arr_copy_assign w self other = Some (TDA_STATUS_OK, w2, o1)"
        using ok(1,3) ne' c(1) by (auto simp: unf o1_def)
      ultimately show ?thesis using c(2) by auto
    qed
  qed
qed

end

interpretation arr_box: container arr_inv arr_blocks arr_al tda_arr_drop
  by unfold_locales (auto intro: arr_stable allocator.arr_drop_spec object_allocator.axioms(1) dest: arr_live)

lemma arr_eq_spec:
  assumes "arr_inv owned w a" "arr_inv owned2 w b" "arr_elem_size a = arr_elem_size b"
  shows "tda_arr_eq w a b = Some (arr_list w a = arr_list w b)"
proof -
  obtain s t where s: "tda_arr_to_span a = Some s" "span_ok w s" "sp_elem_size s = arr_elem_size a" "span_elems w s = arr_list w a"
    and t: "tda_arr_to_span b = Some t" "span_ok w t" "sp_elem_size t = arr_elem_size b" "span_elems w t = arr_list w b"
    using arr_to_span_ok [OF assms(1)] arr_to_span_ok [OF assms(2)] by blast
  then show ?thesis using span_eq_spec [OF s(2) t(2)] assms(3) by (simp add: tda_arr_eq_def)
qed

end
