(* ===== verification/Tda_Bitset.thy ===== *)
theory Tda_Bitset
  imports Tda_Calls
begin

text \<open>
  \<open>src/ds/bitset.c\<close>: sets over a universe of \<open>nbits\<close> indices, 64 to a word. \<open>bitset\<close> is
  \<open>struct tda_BitSet\<close> with its own address; the words are eight bytes each of the block
  \<open>bs_words\<close> points at, lowest byte first (nothing here depends on the order but that it is
  one: whole blocks are copied, zeroed, filled with ones and compared). The operations read
  and write words through \<open>bs_get\<close> and \<open>bs_put\<close>.
\<close>

section \<open>Words in memory\<close>

definition word_bytes :: "64 word \<Rightarrow> byte list" where
  "word_bytes x = map (\<lambda>k. ucast (drop_bit (8 * k) x)) [0..<8]"

definition bytes_word :: "byte list \<Rightarrow> 64 word" where
  "bytes_word bs = foldr (\<lambda>b acc. ucast b OR push_bit 8 acc) bs 0"

lemma length_word_bytes [simp]: "length (word_bytes x) = 8"
  by (simp add: word_bytes_def)

lemma bit_bytes_word:
  "bit (bytes_word bs) n \<longleftrightarrow> n < 64 \<and> n div 8 < length bs \<and> bit (bs ! (n div 8)) (n mod 8)"
proof (induction bs arbitrary: n)
  case Nil
  then show ?case by (simp add: bytes_word_def)
next
  case (Cons b bs)
  have e: "bytes_word (b # bs) = ucast b OR push_bit 8 (bytes_word bs)" by (simp add: bytes_word_def)
  show ?case
  proof (cases "n < 8")
    case True
    then show ?thesis by (auto simp: e bit_simps)
  next
    case False
    then obtain m where m: "n = m + 8" using le_Suc_ex [of 8 n] by (auto simp: add.commute)
    have "\<not> bit b n" using False bit_imp_le_length [of b n] by auto
    moreover have "(m + 8) div 8 = Suc (m div 8)" "(m + 8) mod 8 = m mod 8" by simp_all
    ultimately show ?thesis using Cons.IH [of m] unfolding e m by (auto simp: bit_simps)
  qed
qed

lemma bytes_word_bytes: "bytes_word (word_bytes x) = x"
proof (rule bit_word_eqI)
  fix n assume n: "n < LENGTH(64)"
  then have "n div 8 < 8" by simp
  then have "word_bytes x ! (n div 8) = ucast (drop_bit (8 * (n div 8)) x)" by (simp add: word_bytes_def)
  moreover have "8 * (n div 8) + n mod 8 = n" by simp
  ultimately show "bit (bytes_word (word_bytes x)) n = bit x n"
    using n \<open>n div 8 < 8\<close> by (simp add: bit_bytes_word bit_simps)
qed

lemma word_bytes_word: "length bs = 8 \<Longrightarrow> word_bytes (bytes_word bs) = bs"
proof (rule nth_equalityI)
  fix i assume l: "length bs = 8" and "i < length (word_bytes (bytes_word bs))"
  then have i: "i < 8" by simp
  show "word_bytes (bytes_word bs) ! i = bs ! i"
  proof (rule bit_word_eqI)
    fix n assume n: "n < LENGTH(8)"
    then have "(8 * i + n) div 8 = i" "(8 * i + n) mod 8 = n" "8 * i + n < 64" using i by auto
    then show "bit (word_bytes (bytes_word bs) ! i) n = bit (bs ! i) n"
      using i n l by (simp add: word_bytes_def bit_simps bit_bytes_word)
  qed
qed simp

lemma bytes_word_inj: "length a = 8 \<Longrightarrow> length b = 8 \<Longrightarrow> bytes_word a = bytes_word b \<longleftrightarrow> a = b"
  by (metis word_bytes_word)

lemma bytes_word_zero [simp]: "bytes_word (replicate 8 0) = 0"
  by (rule bit_word_eqI) (simp add: bit_bytes_word)

lemma bytes_word_ones [simp]: "bytes_word (replicate 8 255) = - 1"
proof (rule bit_word_eqI)
  fix n assume n: "n < LENGTH(64)"
  have "(255 :: byte) = - 1" by simp
  moreover have "bit (- 1 :: byte) (n mod 8)" by (simp only: bit_minus_1_iff) simp
  ultimately have "bit (255 :: byte) (n mod 8)" by (simp only:)
  moreover have "n div 8 < 8" using n by simp
  ultimately show "bit (bytes_word (replicate 8 255)) n = bit (- 1 :: 64 word) n"
    using n by (simp add: bit_bytes_word)
qed

text \<open>\<open>stdc_count_ones_ull\<close> and \<open>stdc_first_trailing_one_ull\<close>, which counts from 1, 0 for no bit at all.\<close>

definition stdc_count_ones :: "64 word \<Rightarrow> nat" where
  "stdc_count_ones x = length (filter (bit x) [0..<64])"

definition stdc_first_trailing_one :: "64 word \<Rightarrow> nat" where
  "stdc_first_trailing_one x = (case List.find (bit x) [0..<64] of None \<Rightarrow> 0 | Some i \<Rightarrow> i + 1)"

section \<open>The struct and its checks\<close>

record 's bitset =
  bs_self :: ptr
  bs_words :: "ptr option"
  bs_nbits :: nat
  bs_nwords :: nat
  bs_al :: "'s al"

definition sizeof_tda_BitSet :: nat where
  "sizeof_tda_BitSet = 32"

definition WORD_BITS :: nat where
  "WORD_BITS = 64"

definition words_for :: "nat \<Rightarrow> nat" where
  "words_for nbits = nbits div WORD_BITS + (if nbits mod WORD_BITS \<noteq> 0 then 1 else 0)"

definition words_bytes :: "'s bitset \<Rightarrow> nat" where
  "words_bytes b = size_mul (bs_nwords b) 8"

definition bs_word_of :: "nat \<Rightarrow> nat" where
  "bs_word_of idx = idx div WORD_BITS"

definition bit_of :: "nat \<Rightarrow> 64 word" where
  "bit_of idx = push_bit (idx mod WORD_BITS) 1"

definition tail_mask :: "nat \<Rightarrow> 64 word" where
  "tail_mask nbits = (let rem = nbits mod WORD_BITS in if rem = 0 then NOT 0 else push_bit rem 1 - 1)"

text \<open>Reading and writing \<open>self->words[i]\<close>.\<close>

definition bs_get :: "'s world \<Rightarrow> 's bitset \<Rightarrow> nat \<Rightarrow> 64 word option" where
  "bs_get w b i = do { p \<leftarrow> bs_words b; bs \<leftarrow> mem_read w p (i * 8) 8; Some (bytes_word bs) }"

definition bs_put :: "'s bitset \<Rightarrow> nat \<Rightarrow> 64 word \<Rightarrow> 's world \<Rightarrow> 's world option" where
  "bs_put b i x w = do { p \<leftarrow> bs_words b; mem_write w p (i * 8) (word_bytes x) }"

definition ASSERT_BITSET :: "'s world \<Rightarrow> 's bitset \<Rightarrow> unit option" where
  "ASSERT_BITSET w b = do {
     c_assert (bs_nwords b = words_for (bs_nbits b));
     c_assert (bs_nwords b > 0 \<or> bs_words b = None);
     c_assert (bs_nwords b = 0 \<or> bs_words b \<noteq> None);
     if bs_nwords b = 0 then Some ()
     else do {
       x \<leftarrow> bs_get w b (bs_nwords b - 1);
       c_assert (x AND NOT (tail_mask (bs_nbits b)) = 0)
     }
   }"

definition clear_tail :: "'s bitset \<Rightarrow> 's world \<Rightarrow> 's world option" where
  "clear_tail b w =
     (if bs_nwords b > 0 then do {
        x \<leftarrow> bs_get w b (bs_nwords b - 1);
        bs_put b (bs_nwords b - 1) (x AND tail_mask (bs_nbits b)) w
      }
      else Some w)"

definition word_from :: "64 word \<Rightarrow> nat \<Rightarrow> 64 word" where
  "word_from word from = word AND push_bit (from mod WORD_BITS) (NOT 0)"

definition idx_of_first_one :: "nat \<Rightarrow> 64 word \<Rightarrow> nat option" where
  "idx_of_first_one w word = do {
     c_assert (word \<noteq> 0);
     Some (w * WORD_BITS + (stdc_first_trailing_one word - 1))
   }"

section \<open>Lifetime\<close>

definition tda_bitset_new :: "nat \<Rightarrow> 's al \<Rightarrow> 's world \<Rightarrow> (tda_Status \<times> 's bitset option \<times> 's world) option" where
  "tda_bitset_new nbits al w = do {
     (r, w1) \<leftarrow> tda_alloc al w sizeof_tda_BitSet;
     (case r of
        None \<Rightarrow> Some (TDA_STATUS_ERR_NO_MEM, None, w1)
      | Some obj \<Rightarrow> do {
          let nwords = words_for nbits;
          (d, w2) \<leftarrow> (if nwords > 0 then tda_calloc al w1 nwords 8 else Some (None, w1));
          if nwords > 0 \<and> d = None then do {
            w3 \<leftarrow> tda_dealloc al w2 (Some obj) sizeof_tda_BitSet;
            Some (TDA_STATUS_ERR_NO_MEM, None, w3)
          }
          else do {
            let b = \<lparr>bs_self = obj, bs_words = d, bs_nbits = nbits, bs_nwords = nwords, bs_al = al\<rparr>;
            ASSERT_BITSET w2 b;
            Some (TDA_STATUS_OK, Some b, w2)
          }
        })
   }"

definition tda_bitset_drop :: "'s world \<Rightarrow> 's bitset option \<Rightarrow> 's world option" where
  "tda_bitset_drop w self = (case self of
      None \<Rightarrow> Some w
    | Some b \<Rightarrow> do {
        ASSERT_BITSET w b;
        w1 \<leftarrow> tda_dealloc (bs_al b) w (bs_words b) (words_bytes b);
        tda_dealloc (bs_al b) w1 (Some (bs_self b)) sizeof_tda_BitSet
      })"

definition release_words :: "'s world \<Rightarrow> 's bitset \<Rightarrow> ('s world \<times> 's bitset) option" where
  "release_words w b = do {
     w1 \<leftarrow> tda_dealloc (bs_al b) w (bs_words b) (words_bytes b);
     Some (w1, b\<lparr>bs_words := None, bs_nbits := 0, bs_nwords := 0\<rparr>)
   }"

text \<open>The \<open>memcpy\<close> of all words from one set to the other.\<close>

definition bs_copy_words :: "'s world \<Rightarrow> 's bitset \<Rightarrow> 's bitset \<Rightarrow> 's world option" where
  "bs_copy_words w self other =
     (if bs_nwords self > 0 then do {
        q \<leftarrow> bs_words self;
        bs \<leftarrow> mem_read w q 0 (words_bytes self);
        p \<leftarrow> bs_words other;
        mem_write w p 0 bs
      }
      else Some w)"

definition tda_bitset_copy_with ::
  "'s bitset \<Rightarrow> 's al \<Rightarrow> 's world \<Rightarrow> (tda_Status \<times> 's bitset option \<times> 's world) option" where
  "tda_bitset_copy_with self al w = do {
     ASSERT_BITSET w self;
     (st, r, w1) \<leftarrow> tda_bitset_new (bs_nbits self) al w;
     (case r of
        None \<Rightarrow> Some (st, None, w1)
      | Some copy \<Rightarrow> do { w2 \<leftarrow> bs_copy_words w1 self copy; Some (TDA_STATUS_OK, Some copy, w2) })
   }"

definition tda_bitset_copy :: "'s bitset \<Rightarrow> 's world \<Rightarrow> (tda_Status \<times> 's bitset option \<times> 's world) option" where
  "tda_bitset_copy self w = do { ASSERT_BITSET w self; tda_bitset_copy_with self (bs_al self) w }"

definition tda_bitset_copy_assign ::
  "'s world \<Rightarrow> 's bitset \<Rightarrow> 's bitset \<Rightarrow> (tda_Status \<times> 's world \<times> 's bitset) option" where
  "tda_bitset_copy_assign w self other = do {
     ASSERT_BITSET w self;
     ASSERT_BITSET w other;
     if bs_self self = bs_self other then Some (TDA_STATUS_OK, w, other)
     else do {
       (st, w1, o1) \<leftarrow> (if bs_nwords self \<noteq> bs_nwords other then do {
            (r, w1) \<leftarrow> tda_realloc (bs_al other) w (bs_words other) (words_bytes other) (words_bytes self);
            if bs_nwords self > 0 \<and> r = None then Some (TDA_STATUS_ERR_NO_MEM, w1, other)
            else Some (TDA_STATUS_OK, w1, other\<lparr>bs_words := r, bs_nwords := bs_nwords self\<rparr>)
          }
          else Some (TDA_STATUS_OK, w, other));
       if TDA_STATUS_IS_ERR st then Some (st, w1, o1)
       else do {
         let o2 = o1\<lparr>bs_nbits := bs_nbits self\<rparr>;
         w2 \<leftarrow> bs_copy_words w1 self o2;
         ASSERT_BITSET w2 o2;
         Some (TDA_STATUS_OK, w2, o2)
       }
     }
   }"

definition bs_swap_structs :: "'s bitset \<Rightarrow> 's bitset \<Rightarrow> 's bitset \<times> 's bitset" where
  "bs_swap_structs a b = (b\<lparr>bs_self := bs_self a\<rparr>, a\<lparr>bs_self := bs_self b\<rparr>)"

definition tda_bitset_move_assign ::
  "'s world \<Rightarrow> 's bitset \<Rightarrow> 's bitset \<Rightarrow> (tda_Status \<times> 's world \<times> 's bitset \<times> 's bitset) option" where
  "tda_bitset_move_assign w self other = do {
     ASSERT_BITSET w self;
     ASSERT_BITSET w other;
     if bs_self self = bs_self other then Some (TDA_STATUS_OK, w, self, other)
     else if al_self (bs_al self) = al_self (bs_al other) then do {
       let (self1, other1) = bs_swap_structs self other;
       (w1, self2) \<leftarrow> release_words w self1;
       ASSERT_BITSET w1 self2;
       ASSERT_BITSET w1 other1;
       Some (TDA_STATUS_OK, w1, self2, other1)
     }
     else do {
       (st, r, w1) \<leftarrow> tda_bitset_copy_with self (bs_al other) w;
       (case r of
          None \<Rightarrow> Some (st, w1, self, other)
        | Some obj \<Rightarrow> do {
            let (other1, obj1) = bs_swap_structs other obj;
            w2 \<leftarrow> tda_bitset_drop w1 (Some obj1);
            (w3, self1) \<leftarrow> release_words w2 self;
            ASSERT_BITSET w3 self1;
            ASSERT_BITSET w3 other1;
            Some (TDA_STATUS_OK, w3, self1, other1)
          })
     }
   }"

definition tda_bitset_swap :: "'s world \<Rightarrow> 's bitset \<Rightarrow> 's bitset \<Rightarrow> ('s bitset \<times> 's bitset) option" where
  "tda_bitset_swap w self other = do {
     ASSERT_BITSET w self;
     ASSERT_BITSET w other;
     c_assert (al_self (bs_al self) = al_self (bs_al other));
     if bs_self self = bs_self other then Some (self, other)
     else do {
       let (self', other') = bs_swap_structs self other;
       ASSERT_BITSET w self';
       ASSERT_BITSET w other';
       Some (self', other')
     }
   }"

section \<open>One bit\<close>

definition tda_bitset_test :: "'s world \<Rightarrow> 's bitset \<Rightarrow> nat \<Rightarrow> bool option" where
  "tda_bitset_test w b idx = do {
     ASSERT_BITSET w b;
     c_assert (idx < bs_nbits b);
     x \<leftarrow> bs_get w b (bs_word_of idx);
     Some (x AND bit_of idx \<noteq> 0)
   }"

text \<open>\<open>self->words[i] op= y\<close>\<close>

definition bs_update :: "'s bitset \<Rightarrow> nat \<Rightarrow> (64 word \<Rightarrow> 64 word) \<Rightarrow> 's world \<Rightarrow> 's world option" where
  "bs_update b i f w = do { x \<leftarrow> bs_get w b i; bs_put b i (f x) w }"

definition tda_bitset_set :: "'s world \<Rightarrow> 's bitset \<Rightarrow> nat \<Rightarrow> 's world option" where
  "tda_bitset_set w b idx = do {
     ASSERT_BITSET w b;
     c_assert (idx < bs_nbits b);
     bs_update b (bs_word_of idx) (\<lambda>x. x OR bit_of idx) w
   }"

definition tda_bitset_clear :: "'s world \<Rightarrow> 's bitset \<Rightarrow> nat \<Rightarrow> 's world option" where
  "tda_bitset_clear w b idx = do {
     ASSERT_BITSET w b;
     c_assert (idx < bs_nbits b);
     bs_update b (bs_word_of idx) (\<lambda>x. x AND NOT (bit_of idx)) w
   }"

definition tda_bitset_flip :: "'s world \<Rightarrow> 's bitset \<Rightarrow> nat \<Rightarrow> 's world option" where
  "tda_bitset_flip w b idx = do {
     ASSERT_BITSET w b;
     c_assert (idx < bs_nbits b);
     bs_update b (bs_word_of idx) (\<lambda>x. x XOR bit_of idx) w
   }"

definition tda_bitset_set_to :: "'s world \<Rightarrow> 's bitset \<Rightarrow> nat \<Rightarrow> bool \<Rightarrow> 's world option" where
  "tda_bitset_set_to w b idx val = (if val then tda_bitset_set w b idx else tda_bitset_clear w b idx)"

section \<open>All bits\<close>

definition tda_bitset_set_all :: "'s world \<Rightarrow> 's bitset \<Rightarrow> 's world option" where
  "tda_bitset_set_all w b = do {
     ASSERT_BITSET w b;
     w1 \<leftarrow> (if bs_nwords b > 0 then do { p \<leftarrow> bs_words b; mem_set w p 0 255 (words_bytes b) } else Some w);
     clear_tail b w1
   }"

definition tda_bitset_clear_all :: "'s world \<Rightarrow> 's bitset \<Rightarrow> 's world option" where
  "tda_bitset_clear_all w b = do {
     ASSERT_BITSET w b;
     if bs_nwords b > 0 then do { p \<leftarrow> bs_words b; mem_set w p 0 0 (words_bytes b) } else Some w
   }"

definition tda_bitset_flip_all :: "'s world \<Rightarrow> 's bitset \<Rightarrow> 's world option" where
  "tda_bitset_flip_all w b = do {
     ASSERT_BITSET w b;
     w1 \<leftarrow> for_loop [0..<bs_nwords b] (\<lambda>i. bs_update b i (\<lambda>x. NOT x)) w;
     clear_tail b w1
   }"

section \<open>Information\<close>

definition tda_bitset_count :: "'s world \<Rightarrow> 's bitset \<Rightarrow> nat option" where
  "tda_bitset_count w b = do {
     ASSERT_BITSET w b;
     for_loop [0..<bs_nwords b] (\<lambda>i count. do { x \<leftarrow> bs_get w b i; Some (size_add count (stdc_count_ones x)) }) 0
   }"

definition tda_bitset_any :: "'s world \<Rightarrow> 's bitset \<Rightarrow> bool option" where
  "tda_bitset_any w b = do {
     ASSERT_BITSET w b;
     r \<leftarrow> for_find [0..<bs_nwords b] (\<lambda>i. do { x \<leftarrow> bs_get w b i; Some (x \<noteq> 0) });
     Some (r \<noteq> None)
   }"

definition tda_bitset_all :: "'s world \<Rightarrow> 's bitset \<Rightarrow> bool option" where
  "tda_bitset_all w b = do {
     ASSERT_BITSET w b;
     r \<leftarrow> for_find [0..<bs_nwords b] (\<lambda>i. do {
            let want = (if i + 1 = bs_nwords b then tail_mask (bs_nbits b) else NOT 0);
            x \<leftarrow> bs_get w b i;
            Some (x \<noteq> want)
          });
     Some (r = None)
   }"

definition tda_bitset_none :: "'s world \<Rightarrow> 's bitset \<Rightarrow> bool option" where
  "tda_bitset_none w b = do { ASSERT_BITSET w b; r \<leftarrow> tda_bitset_any w b; Some (\<not> r) }"

definition tda_bitset_len :: "'s world \<Rightarrow> 's bitset \<Rightarrow> nat option" where
  "tda_bitset_len w b = do { ASSERT_BITSET w b; Some (bs_nbits b) }"

definition tda_bitset_al :: "'s world \<Rightarrow> 's bitset \<Rightarrow> 's al option" where
  "tda_bitset_al w b = do { ASSERT_BITSET w b; Some (bs_al b) }"

section \<open>Scans\<close>

text \<open>
  The loop both scans share: \<open>get\<close> reads the next word, complemented or not. It answers the
  word it stopped at, or that it ran past the last one; it may only return by one of these.
\<close>

partial_function (option) scan_loop ::
  "(nat \<Rightarrow> 64 word option) \<Rightarrow> nat \<Rightarrow> nat \<Rightarrow> 64 word \<Rightarrow> (nat \<times> 64 word) option option" where
  "scan_loop get nwords w word =
     (if word \<noteq> 0 then Some (Some (w, word))
      else if w + 1 = nwords then Some None
      else do { word' \<leftarrow> get (w + 1); scan_loop get nwords (w + 1) word' })"

definition tda_bitset_find_next :: "'s world \<Rightarrow> 's bitset \<Rightarrow> nat \<Rightarrow> nat option option" where
  "tda_bitset_find_next w b from = do {
     ASSERT_BITSET w b;
     if from \<ge> bs_nbits b then Some None
     else do {
       x \<leftarrow> bs_get w b (bs_word_of from);
       r \<leftarrow> scan_loop (bs_get w b) (bs_nwords b) (bs_word_of from) (word_from x from);
       (case r of
          None \<Rightarrow> Some None
        | Some (i, word) \<Rightarrow> do { idx \<leftarrow> idx_of_first_one i word; Some (Some idx) })
     }
   }"

definition tda_bitset_find_next_clear :: "'s world \<Rightarrow> 's bitset \<Rightarrow> nat \<Rightarrow> nat option option" where
  "tda_bitset_find_next_clear w b from = do {
     ASSERT_BITSET w b;
     if from \<ge> bs_nbits b then Some None
     else do {
       x \<leftarrow> bs_get w b (bs_word_of from);
       r \<leftarrow> scan_loop (\<lambda>i. do { y \<leftarrow> bs_get w b i; Some (NOT y) }) (bs_nwords b) (bs_word_of from)
              (word_from (NOT x) from);
       (case r of
          None \<Rightarrow> Some None
        | Some (i, word) \<Rightarrow> do {
            idx \<leftarrow> idx_of_first_one i word;
            if idx \<ge> bs_nbits b then Some None else Some (Some idx)
          })
     }
   }"

section \<open>Two sets\<close>

definition tda_bitset_eq :: "'s world \<Rightarrow> 's bitset \<Rightarrow> 's bitset \<Rightarrow> bool option" where
  "tda_bitset_eq w a b = do {
     ASSERT_BITSET w a;
     ASSERT_BITSET w b;
     if bs_self a = bs_self b then Some True
     else if bs_nbits a \<noteq> bs_nbits b then Some False
     else if bs_nwords a = 0 then Some True
     else do {
       p \<leftarrow> bs_words a;
       q \<leftarrow> bs_words b;
       x \<leftarrow> mem_read w p 0 (words_bytes a);
       y \<leftarrow> mem_read w q 0 (words_bytes a);
       Some (x = y)
     }
   }"

text \<open>The loops \<open>self->words[w] op= other->words[w]\<close>.\<close>

definition bs_pairwise ::
  "(64 word \<Rightarrow> 64 word \<Rightarrow> 64 word) \<Rightarrow> 's world \<Rightarrow> 's bitset \<Rightarrow> 's bitset \<Rightarrow> 's world option" where
  "bs_pairwise f w self other = do {
     ASSERT_BITSET w self;
     ASSERT_BITSET w other;
     c_assert (bs_nbits self = bs_nbits other);
     for_loop [0..<bs_nwords self] (\<lambda>i w. do {
       y \<leftarrow> bs_get w other i;
       bs_update self i (\<lambda>x. f x y) w
     }) w
   }"

definition tda_bitset_union :: "'s world \<Rightarrow> 's bitset \<Rightarrow> 's bitset \<Rightarrow> 's world option" where
  "tda_bitset_union = bs_pairwise (\<lambda>x y. x OR y)"

definition tda_bitset_intersect :: "'s world \<Rightarrow> 's bitset \<Rightarrow> 's bitset \<Rightarrow> 's world option" where
  "tda_bitset_intersect = bs_pairwise (\<lambda>x y. x AND y)"

definition tda_bitset_difference :: "'s world \<Rightarrow> 's bitset \<Rightarrow> 's bitset \<Rightarrow> 's world option" where
  "tda_bitset_difference = bs_pairwise (\<lambda>x y. x AND NOT y)"

definition tda_bitset_symmetric_difference :: "'s world \<Rightarrow> 's bitset \<Rightarrow> 's bitset \<Rightarrow> 's world option" where
  "tda_bitset_symmetric_difference = bs_pairwise (\<lambda>x y. x XOR y)"

text \<open>The loops that look for a pair of words with a common bit.\<close>

definition bs_meets ::
  "(64 word \<Rightarrow> 64 word) \<Rightarrow> 's world \<Rightarrow> 's bitset \<Rightarrow> 's bitset \<Rightarrow> bool option" where
  "bs_meets f w self other = do {
     ASSERT_BITSET w self;
     ASSERT_BITSET w other;
     c_assert (bs_nbits self = bs_nbits other);
     r \<leftarrow> for_find [0..<bs_nwords self] (\<lambda>i. do {
            x \<leftarrow> bs_get w self i;
            y \<leftarrow> bs_get w other i;
            Some (x AND f y \<noteq> 0)
          });
     Some (r \<noteq> None)
   }"

definition tda_bitset_is_subset :: "'s world \<Rightarrow> 's bitset \<Rightarrow> 's bitset \<Rightarrow> bool option" where
  "tda_bitset_is_subset w self other = do { r \<leftarrow> bs_meets (\<lambda>y. NOT y) w self other; Some (\<not> r) }"

definition tda_bitset_intersects :: "'s world \<Rightarrow> 's bitset \<Rightarrow> 's bitset \<Rightarrow> bool option" where
  "tda_bitset_intersects w self other = bs_meets (\<lambda>y. y) w self other"

end
