(* ===== verification/Tda_Bitset_Laws.thy ===== *)
theory Tda_Bitset_Laws
  imports Tda_Bitset
begin

text \<open>
  What the operations of \<open>Tda_Bitset\<close> do to the set of indices. A list of words holds the set
  \<open>wbits\<close>; the first section relates the word operations to it. \<open>bs_inv\<close> is the
  well-formedness of the struct, the clear tail included, \<open>bits\<close> the set it holds. The
  sections after it go through single bits, whole words, scans and pairs of sets.
\<close>

section \<open>The set a list of words holds\<close>

definition wbits :: "64 word list \<Rightarrow> nat set" where
  "wbits ws = {i. i div 64 < length ws \<and> bit (ws ! (i div 64)) (i mod 64)}"

lemma wbits_Nil [simp]: "wbits [] = {}"
  by (simp add: wbits_def)

lemma wbits_less: "i \<in> wbits ws \<Longrightarrow> i < 64 * length ws"
  unfolding wbits_def by auto

lemma finite_wbits [simp]: "finite (wbits ws)"
  by (rule finite_subset [of _ "{..<64 * length ws}"]) (auto dest: wbits_less)

lemma wbits_update:
  assumes "k < length ws"
  shows "wbits (ws[k := x]) = {i. if i div 64 = k then bit x (i mod 64) else i \<in> wbits ws}"
  using assms by (auto simp: wbits_def nth_list_update)

lemma wbits_word: "w < length ws \<Longrightarrow> j < 64 \<Longrightarrow> w * 64 + j \<in> wbits ws \<longleftrightarrow> bit (ws ! w) j"
  by (simp add: wbits_def)

lemma wbits_map2:
  assumes "length vs = length ws" "\<And>x y n. n < 64 \<Longrightarrow> bit (f x y) n \<longleftrightarrow> g (bit x n) (bit y n)"
  shows "wbits (map2 f ws vs) = {i. i div 64 < length ws \<and> g (i \<in> wbits ws) (i \<in> wbits vs)}"
  using assms by (auto simp: wbits_def)

lemma wbits_replicate: "wbits (replicate n x) = {i. i div 64 < n \<and> bit x (i mod 64)}"
  by (auto simp: wbits_def)

lemma bit_word_zero_iff: "(x :: 64 word) = 0 \<longleftrightarrow> (\<forall>n<64. \<not> bit x n)"
  by (auto simp: bit_eq_iff dest: bit_imp_le_length)

lemma bit_of_bit: "n < 64 \<Longrightarrow> bit (bit_of i) n \<longleftrightarrow> n = i mod 64"
  by (auto simp: bit_of_def WORD_BITS_def bit_simps)

lemma bit_of_meets: "x AND bit_of i \<noteq> 0 \<longleftrightarrow> bit x (i mod 64)"
  by (auto simp: bit_word_zero_iff bit_and_iff bit_of_bit)

lemma split_index: "i div 64 = k div 64 \<and> i mod 64 = k mod 64 \<longleftrightarrow> i = (k :: nat)"
  by (metis div_mult_mod_eq)

lemma wbits_set_bit:
  assumes "i div 64 < length ws"
  shows "wbits (ws[i div 64 := ws ! (i div 64) OR bit_of i]) = insert i (wbits ws)"
    and "wbits (ws[i div 64 := ws ! (i div 64) AND NOT (bit_of i)]) = wbits ws - {i}"
    and "wbits (ws[i div 64 := ws ! (i div 64) XOR bit_of i]) = (if i \<in> wbits ws then wbits ws - {i} else insert i (wbits ws))"
proof -
  have same: "k div 64 = i div 64 \<Longrightarrow> k mod 64 = i mod 64 \<longleftrightarrow> k = i" for k using split_index [of k i] by blast
  show "wbits (ws[i div 64 := ws ! (i div 64) OR bit_of i]) = insert i (wbits ws)"
    unfolding wbits_update [OF assms] using assms by (auto simp: bit_or_iff bit_of_bit same) (auto simp: wbits_def)
  show "wbits (ws[i div 64 := ws ! (i div 64) AND NOT (bit_of i)]) = wbits ws - {i}"
    unfolding wbits_update [OF assms] using assms by (auto simp: bit_simps bit_of_bit same) (auto simp: wbits_def)
  show "wbits (ws[i div 64 := ws ! (i div 64) XOR bit_of i]) = (if i \<in> wbits ws then wbits ws - {i} else insert i (wbits ws))"
    unfolding wbits_update [OF assms] using assms by (auto simp: bit_xor_iff bit_of_bit same) (auto simp: wbits_def)
qed

section \<open>The tail\<close>

lemma tail_mask_bit: "n < 64 \<Longrightarrow> bit (tail_mask nbits) n \<longleftrightarrow> nbits mod 64 = 0 \<or> n < nbits mod 64"
proof -
  have "push_bit k 1 - 1 = (mask k :: 64 word)" for k by (simp add: mask_eq_exp_minus_1 push_bit_eq_mult)
  then show "n < 64 \<Longrightarrow> ?thesis" by (simp add: tail_mask_def WORD_BITS_def Let_def bit_simps)
qed

lemma words_for_eq: "r < 64 \<Longrightarrow> words_for (64 * q + r) = (if r = 0 then q else q + 1)"
  by (simp add: words_for_def WORD_BITS_def)

lemma split_nbits:
  obtains q r where "n = 64 * q + r" "r < (64 :: nat)"
  by (rule that [of "n div 64" "n mod 64"]) simp_all

lemma words_for_less:
  assumes "i < n"
  shows "i div 64 < words_for n"
proof (rule split_nbits [of n])
  fix q r assume n: "n = 64 * q + r" "r < (64 :: nat)"
  have "i div 64 < q" if "i < 64 * q" using that by (simp add: less_mult_imp_div_less mult.commute)
  moreover have "i div 64 < q + 1" using assms n by (intro less_mult_imp_div_less) simp
  ultimately show ?thesis using assms n by (auto simp: words_for_eq)
qed

lemma words_for_bound: "n \<le> N \<Longrightarrow> words_for n * 64 \<le> N + 63"
  by (rule split_nbits [of n]) (auto simp: words_for_eq)

lemma words_for_zero [simp]: "words_for n = 0 \<longleftrightarrow> n = 0"
  by (rule split_nbits [of n]) (auto simp: words_for_eq)

lemma words_for_none [simp]: "words_for 0 = 0"
  by simp

lemma words_for_pos [simp]: "0 < words_for n \<longleftrightarrow> 0 < n"
  using words_for_zero [of n] by linarith

lemma before_tail:
  assumes "i div 64 < words_for n - 1"
  shows "i < n"
proof (rule split_nbits [of n])
  fix q r assume n: "n = 64 * q + r" "r < (64 :: nat)"
  then have "i div 64 < q" using assms by (auto simp: words_for_eq split: if_splits)
  then have "i < 64 * q" by (simp add: div_less_iff_less_mult mult.commute)
  then show ?thesis using n by simp
qed

lemma tail_index:
  assumes "0 < words_for n" "j < 64"
  shows "(words_for n - 1) * 64 + j < n \<longleftrightarrow> n mod 64 = 0 \<or> j < n mod 64"
proof (rule split_nbits [of n])
  fix q r assume n: "n = 64 * q + r" "r < (64 :: nat)"
  show ?thesis
  proof (cases "r = 0")
    case True
    then obtain k where k: "q = Suc k" using assms(1) n by (cases q) (auto simp: words_for_def)
    then have "words_for n = Suc k" using words_for_eq [of 0 "Suc k"] n True by simp
    then show ?thesis using True n k assms(2) by simp
  next
    case False
    then show ?thesis using n by (simp add: words_for_eq)
  qed
qed

lemma clear_tail_iff:
  assumes "length ws = words_for n" "0 < length ws"
  shows "last ws AND NOT (tail_mask n) = 0 \<longleftrightarrow> wbits ws \<subseteq> {..<n}"
proof -
  let ?k = "length ws - 1"
  have l: "last ws = ws ! ?k" using assms(2) by (simp add: last_conv_nth)
  have "last ws AND NOT (tail_mask n) = 0 \<longleftrightarrow> (\<forall>j<64. bit (ws ! ?k) j \<longrightarrow> ?k * 64 + j < n)"
    using tail_index [of n] assms by (auto simp: bit_word_zero_iff bit_simps tail_mask_bit l)
  also have "\<dots> \<longleftrightarrow> wbits ws \<subseteq> {..<n}"
  proof
    assume j: "\<forall>j<64. bit (ws ! ?k) j \<longrightarrow> ?k * 64 + j < n"
    show "wbits ws \<subseteq> {..<n}"
    proof
      fix i assume i: "i \<in> wbits ws"
      show "i \<in> {..<n}"
      proof (cases "i div 64 = ?k")
        case True
        then have "?k * 64 + i mod 64 = i" by (metis div_mult_mod_eq)
        then show ?thesis using i True j [rule_format, of "i mod 64"] by (simp add: wbits_def)
      next
        case False
        moreover have "i div 64 < length ws" using i by (simp add: wbits_def)
        ultimately show ?thesis using before_tail [of i n] assms(1) by simp
      qed
    qed
  next
    assume s: "wbits ws \<subseteq> {..<n}"
    then show "\<forall>j<64. bit (ws ! ?k) j \<longrightarrow> ?k * 64 + j < n" using wbits_word [of ?k ws] assms(2) by auto
  qed
  finally show ?thesis .
qed

lemma wbits_tail:
  assumes "length ws = words_for n" "0 < length ws"
  shows "wbits (ws[length ws - 1 := ws ! (length ws - 1) AND tail_mask n]) = wbits ws \<inter> {..<n}"
proof -
  let ?k = "length ws - 1"
  have k: "?k < length ws" using assms(2) by simp
  have "i \<in> wbits (ws[?k := ws ! ?k AND tail_mask n]) \<longleftrightarrow> i \<in> wbits ws \<and> i < n" for i
  proof (cases "i div 64 = ?k")
    case True
    then have "?k * 64 + i mod 64 = i" by (metis div_mult_mod_eq)
    then show ?thesis using tail_index [of n "i mod 64"] True assms
      by (auto simp: wbits_update [OF k] bit_and_iff tail_mask_bit wbits_def)
  next
    case False
    have "i < n" if "i \<in> wbits ws"
    proof -
      have "i div 64 < length ws" using that by (simp add: wbits_def)
      then show ?thesis using False before_tail [of i n] assms(1) by simp
    qed
    then show ?thesis unfolding wbits_update [OF k] using False by auto
  qed
  then show ?thesis by auto
qed

section \<open>Well-formedness and the set\<close>

definition bs_list :: "'s world \<Rightarrow> 's bitset \<Rightarrow> 64 word list" where
  "bs_list w b = (case bs_words b of None \<Rightarrow> [] | Some p \<Rightarrow> map bytes_word (elems 8 (the (heap w p))))"

definition bits :: "'s world \<Rightarrow> 's bitset \<Rightarrow> nat set" where
  "bits w b = wbits (bs_list w b)"

definition bs_raw :: "(ptr \<Rightarrow> bool) \<Rightarrow> 's world \<Rightarrow> 's bitset \<Rightarrow> bool" where
  "bs_raw owned w b = (bs_nbits b \<le> SIZE_MAX \<and> bs_nwords b = words_for (bs_nbits b)
     \<and> owned (bs_self b) \<and> block_at w (bs_self b) sizeof_tda_BitSet
     \<and> (case bs_words b of None \<Rightarrow> bs_nwords b = 0
        | Some p \<Rightarrow> 0 < bs_nwords b \<and> owned p \<and> p \<noteq> bs_self b \<and> block_at w p (bs_nwords b * 8)))"

definition bs_inv :: "(ptr \<Rightarrow> bool) \<Rightarrow> 's world \<Rightarrow> 's bitset \<Rightarrow> bool" where
  "bs_inv owned w b = (bs_raw owned w b \<and> bits w b \<subseteq> {..<bs_nbits b})"

definition bs_blocks :: "'s bitset \<Rightarrow> ptr set" where
  "bs_blocks b = insert (bs_self b) (set_option (bs_words b))"

text \<open>An update in place: the struct stays as it is, only the words may change.\<close>

definition bs_updated :: "(ptr \<Rightarrow> bool) \<Rightarrow> 's world \<Rightarrow> 's bitset \<Rightarrow> 's world \<Rightarrow> nat set \<Rightarrow> bool" where
  "bs_updated owned w b w' A = (bs_inv owned w' b \<and> frame w (bs_blocks b) w' (bs_blocks b) \<and> bits w' b = A)"

lemma bs_inv_raw: "bs_inv owned w b \<Longrightarrow> bs_raw owned w b"
  by (simp add: bs_inv_def)

lemma bs_bytes:
  assumes "bs_raw owned w b"
  shows "words_bytes b = bs_nwords b * 8" and "bs_nwords b * 8 \<le> SIZE_MAX"
proof -
  have "bs_nwords b * 64 \<le> SIZE_MAX + 63" using assms words_for_bound [of "bs_nbits b" SIZE_MAX] by (simp add: bs_raw_def)
  then show "bs_nwords b * 8 \<le> SIZE_MAX" unfolding SIZE_MAX_def by simp
  then show "words_bytes b = bs_nwords b * 8" by (simp add: words_bytes_def size_mul_exact)
qed

lemma length_bs_list: "bs_raw owned w b \<Longrightarrow> length (bs_list w b) = bs_nwords b"
  by (auto simp: bs_raw_def bs_list_def block_at_def length_elems_mult split: option.splits)

lemma bs_index:
  assumes "bs_raw owned w b" "i < bs_nbits b"
  shows "i div 64 < length (bs_list w b)"
  using words_for_less [OF assms(2)] assms(1) by (simp add: length_bs_list [OF assms(1)] bs_raw_def)

lemma bs_live: "bs_raw owned w b \<Longrightarrow> q \<in> bs_blocks b \<Longrightarrow> heap w q \<noteq> None"
  by (auto simp: bs_raw_def block_at_def bs_blocks_def split: option.splits)

lemma bs_stable:
  assumes "\<And>q. q \<in> bs_blocks b \<Longrightarrow> heap w' q = heap w q"
  shows "bs_list w' b = bs_list w b" and "bits w' b = bits w b"
    and "bs_raw owned w b \<Longrightarrow> bs_raw owned w' b" and "bs_inv owned w b \<Longrightarrow> bs_inv owned w' b"
proof -
  show l: "bs_list w' b = bs_list w b" using assms by (auto simp: bs_list_def bs_blocks_def split: option.splits)
  then show m: "bits w' b = bits w b" by (simp add: bits_def)
  show r: "bs_raw owned w b \<Longrightarrow> bs_raw owned w' b"
    using assms by (auto simp: bs_raw_def block_at_def bs_blocks_def split: option.splits)
  then show "bs_inv owned w b \<Longrightarrow> bs_inv owned w' b" by (simp add: bs_inv_def m)
qed

lemma bs_block:
  assumes "bs_raw owned w b" "0 < bs_nwords b"
  obtains p bs where "bs_words b = Some p" "heap w p = Some bs" "length bs = bs_nwords b * 8"
    "bs_list w b = map bytes_word (elems 8 bs)"
  using assms by (auto simp: bs_raw_def bs_list_def block_at_def split: option.splits)

lemma bs_get_ok:
  assumes b: "bs_raw owned w b" and i: "i < bs_nwords b"
  shows "bs_get w b i = Some (bs_list w b ! i)"
proof -
  from i have pos: "0 < bs_nwords b" by simp
  obtain p bs where p: "bs_words b = Some p" "heap w p = Some bs" "length bs = bs_nwords b * 8"
    "bs_list w b = map bytes_word (elems 8 bs)" by (rule bs_block [OF b pos])
  have "mem_read w p (i * 8) 8 = Some (elems 8 bs ! i)" by (rule read_elem [OF p(2,3) _ i]) simp
  then show ?thesis using p i by (simp add: bs_get_def length_elems_mult)
qed

lemma assert_bitset_ok:
  assumes "bs_inv owned w b"
  shows "ASSERT_BITSET w b = Some ()"
proof (cases "bs_nwords b = 0")
  case True
  then show ?thesis using assms by (auto simp: bs_inv_def bs_raw_def ASSERT_BITSET_def c_simps split: option.splits)
next
  case False
  have raw: "bs_raw owned w b" using assms by (rule bs_inv_raw)
  have l: "length (bs_list w b) = bs_nwords b" by (rule length_bs_list [OF raw])
  have n: "length (bs_list w b) = words_for (bs_nbits b)" "0 < length (bs_list w b)"
    using raw False l unfolding bs_raw_def by simp_all
  have "bs_list w b \<noteq> []" using n(2) by auto
  then have "last (bs_list w b) = bs_list w b ! (bs_nwords b - 1)" using l by (simp add: last_conv_nth)
  moreover have "last (bs_list w b) AND NOT (tail_mask (bs_nbits b)) = 0"
    using clear_tail_iff [OF n] assms by (simp add: bs_inv_def bits_def)
  moreover have "bs_get w b (bs_nwords b - 1) = Some (bs_list w b ! (bs_nwords b - 1))"
    using False by (intro bs_get_ok [OF raw]) simp
  ultimately show ?thesis
    using False raw by (auto simp: ASSERT_BITSET_def c_simps bs_raw_def split: option.splits)
qed

text \<open>The words of the block replaced by others.\<close>

lemma bs_block_written:
  assumes b: "bs_raw owned w b" "bs_words b = Some p"
    and h: "heap w' = (heap w)(p \<mapsto> bs)" "length bs = bs_nwords b * 8"
  shows "bs_raw owned w' b" "frame w (bs_blocks b) w' (bs_blocks b)" "bs_list w' b = map bytes_word (elems 8 bs)"
  using b h frame_write [of p "bs_blocks b" w' w]
  by (auto simp: bs_raw_def block_at_def bs_blocks_def bs_list_def)

section \<open>Writing words\<close>

context allocator
begin

lemma bs_put_ok:
  assumes w: "inv w" and b: "bs_raw owned' w b" and i: "i < bs_nwords b"
  obtains w' where "bs_put b i x w = Some w'" "inv w'" "bs_raw owned' w' b"
    "frame w (bs_blocks b) w' (bs_blocks b)" "bs_list w' b = (bs_list w b)[i := x]"
proof -
  from i have pos: "0 < bs_nwords b" by simp
  obtain p bs where p: "bs_words b = Some p" "heap w p = Some bs" "length bs = bs_nwords b * 8"
    "bs_list w b = map bytes_word (elems 8 bs)" by (rule bs_block [OF b pos])
  have "length (word_bytes x) = 1 * 8" "i + 1 \<le> bs_nwords b" using i by simp_all
  from write_elems [OF w p(2,3) _ this] obtain w' bs' where w': "mem_write w p (i * 8) (word_bytes x) = Some w'" "inv w'"
    "heap w' = (heap w)(p \<mapsto> bs')" "length bs' = bs_nwords b * 8"
    "elems 8 bs' = blit i (elems 8 (word_bytes x)) (elems 8 bs)" by (auto simp del: One_nat_def)
  have "elems 8 bs' = (elems 8 bs)[i := word_bytes x]"
    using w'(5) i p(3) by (simp add: blit_one length_elems_mult)
  then have "bs_list w' b = (bs_list w b)[i := x]"
    using bs_block_written(3) [OF b p(1) w'(3,4)] p(4) by (simp add: map_update bytes_word_bytes)
  then show ?thesis
    using that [of w'] w'(1,2) bs_block_written(1,2) [OF b p(1) w'(3,4)] p(1) by (simp add: bs_put_def)
qed

lemma bs_update_ok:
  assumes w: "inv w" and b: "bs_raw owned' w b" and i: "i < bs_nwords b"
  obtains w' where "bs_update b i f w = Some w'" "inv w'" "bs_raw owned' w' b"
    "frame w (bs_blocks b) w' (bs_blocks b)" "bs_list w' b = (bs_list w b)[i := f (bs_list w b ! i)]"
  by (rule bs_put_ok [OF w b i, of "f (bs_list w b ! i)"]) (rule that, simp_all add: bs_update_def bs_get_ok [OF b i])

lemma clear_tail_ok:
  assumes w: "inv w" and b: "bs_raw owned' w b"
  obtains w' where "clear_tail b w = Some w'" "inv w'" "bs_updated owned' w b w' (bits w b \<inter> {..<bs_nbits b})"
proof (cases "bs_nwords b = 0")
  case True
  then have "bs_list w b = []" using length_bs_list [OF b] by simp
  then show ?thesis using that [of w] True w b
    by (simp add: clear_tail_def bs_updated_def bs_inv_def bits_def frame_refl)
next
  case False
  let ?k = "bs_nwords b - 1" and ?ws = "bs_list w b"
  from False have i: "?k < bs_nwords b" by simp
  have l: "length ?ws = bs_nwords b" by (rule length_bs_list [OF b])
  obtain w' where w': "bs_put b ?k (?ws ! ?k AND tail_mask (bs_nbits b)) w = Some w'" "inv w'" "bs_raw owned' w' b"
    "frame w (bs_blocks b) w' (bs_blocks b)" "bs_list w' b = ?ws[?k := ?ws ! ?k AND tail_mask (bs_nbits b)]"
    by (rule bs_put_ok [OF w b i])
  have n: "length ?ws = words_for (bs_nbits b)" "0 < length ?ws" using b l False unfolding bs_raw_def by simp_all
  have "bits w' b = bits w b \<inter> {..<bs_nbits b}" using wbits_tail [OF n] w'(5) l by (simp add: bits_def)
  then show ?thesis using that [of w'] w' False bs_get_ok [OF b i]
    by (simp add: clear_tail_def bs_updated_def bs_inv_def)
qed

text \<open>The loop \<open>words[i] = f i (words[i])\<close> over all words.\<close>

lemma bs_loop_ok:
  assumes w: "inv w" and b: "bs_raw owned' w b"
    and step: "\<And>i w1. i < bs_nwords b \<Longrightarrow> inv w1 \<Longrightarrow> frame w (bs_blocks b) w1 (bs_blocks b) \<Longrightarrow>
      body i w1 = bs_update b i (f i) w1"
  obtains w' where "for_loop [0..<bs_nwords b] body w = Some w'" "inv w'" "bs_raw owned' w' b"
    "frame w (bs_blocks b) w' (bs_blocks b)" "bs_list w' b = map (\<lambda>i. f i (bs_list w b ! i)) [0..<bs_nwords b]"
proof -
  let ?n = "bs_nwords b" and ?ws = "bs_list w b"
  define Q where "Q k w' = (inv w' \<and> bs_raw owned' w' b \<and> frame w (bs_blocks b) w' (bs_blocks b)
    \<and> bs_list w' b = map (\<lambda>i. f i (?ws ! i)) [0..<k] @ drop k ?ws)" for k w'
  have l: "length ?ws = ?n" by (rule length_bs_list [OF b])
  have init: "Q 0 w" using w b by (simp add: Q_def frame_refl)
  have step1: "\<exists>s'. body k s = Some s' \<and> Q (Suc k) s'" if k: "k < ?n" "Q k s" for k s
  proof -
    have q: "inv s" "bs_raw owned' s b" "frame w (bs_blocks b) s (bs_blocks b)"
      "bs_list s b = map (\<lambda>i. f i (?ws ! i)) [0..<k] @ drop k ?ws" using k(2) by (simp_all add: Q_def)
    obtain s' where s': "bs_update b k (f k) s = Some s'" "inv s'" "bs_raw owned' s' b"
      "frame s (bs_blocks b) s' (bs_blocks b)" "bs_list s' b = (bs_list s b)[k := f k (bs_list s b ! k)]"
      by (rule bs_update_ok [OF q(1,2) k(1), of "f k"])
    have "drop k ?ws = ?ws ! k # drop (Suc k) ?ws" using k(1) l by (simp add: Cons_nth_drop_Suc)
    then have "bs_list s' b = map (\<lambda>i. f i (?ws ! i)) [0..<Suc k] @ drop (Suc k) ?ws"
      using s'(5) q(4) by (simp add: list_update_append nth_append)
    then show ?thesis
      using s' step [OF k(1) q(1,3)] frame_trans [OF q(3) s'(4)] by (simp add: Q_def)
  qed
  obtain w' where "for_loop [0..<?n] body w = Some w'" "Q ?n w'"
    using for_loop_inv [where Q = Q and n = ?n, OF init] step1 by blast
  then show ?thesis using that [of w'] l by (simp add: Q_def)
qed

section \<open>One bit\<close>

lemma bs_update_bit:
  assumes w: "inv w" and b: "bs_inv owned' w b" and i: "idx < bs_nbits b"
    and f: "wbits ((bs_list w b)[idx div 64 := f (bs_list w b ! (idx div 64))]) = A" and A: "A \<subseteq> {..<bs_nbits b}"
  obtains w' where "bs_update b (idx div 64) f w = Some w'" "inv w'" "bs_updated owned' w b w' A"
proof -
  have raw: "bs_raw owned' w b" using b by (rule bs_inv_raw)
  have "idx div 64 < bs_nwords b" using bs_index [OF raw i] length_bs_list [OF raw] by simp
  from bs_update_ok [OF w raw this, of f] obtain w' where "bs_update b (idx div 64) f w = Some w'" "inv w'"
    "bs_raw owned' w' b" "frame w (bs_blocks b) w' (bs_blocks b)"
    "bs_list w' b = (bs_list w b)[idx div 64 := f (bs_list w b ! (idx div 64))]" by blast
  then show ?thesis using that f A by (simp add: bs_updated_def bs_inv_def bits_def)
qed

lemma bitset_single_spec:
  assumes w: "inv w" and b: "bs_inv owned' w b" and i: "idx < bs_nbits b"
  shows "\<exists>w'. tda_bitset_set w b idx = Some w' \<and> inv w' \<and> bs_updated owned' w b w' (insert idx (bits w b))"
    and "\<exists>w'. tda_bitset_clear w b idx = Some w' \<and> inv w' \<and> bs_updated owned' w b w' (bits w b - {idx})"
    and "\<exists>w'. tda_bitset_flip w b idx = Some w' \<and> inv w'
      \<and> bs_updated owned' w b w' (if idx \<in> bits w b then bits w b - {idx} else insert idx (bits w b))"
proof -
  have raw: "bs_raw owned' w b" using b by (rule bs_inv_raw)
  note k = wbits_set_bit [OF bs_index [OF raw i], folded bits_def]
  have sub: "bits w b \<subseteq> {..<bs_nbits b}" using b by (simp add: bs_inv_def)
  note unf = assert_bitset_ok [OF b] i bs_word_of_def WORD_BITS_def
  have "insert idx (bits w b) \<subseteq> {..<bs_nbits b}" using sub i by simp
  from bs_update_bit [where f = "\<lambda>x. x OR bit_of idx", OF w b i k(1) this]
  show "\<exists>w'. tda_bitset_set w b idx = Some w' \<and> inv w' \<and> bs_updated owned' w b w' (insert idx (bits w b))"
    by (auto simp: tda_bitset_set_def unf)
  have "bits w b - {idx} \<subseteq> {..<bs_nbits b}" using sub by auto
  from bs_update_bit [where f = "\<lambda>x. x AND NOT (bit_of idx)", OF w b i k(2) this]
  show "\<exists>w'. tda_bitset_clear w b idx = Some w' \<and> inv w' \<and> bs_updated owned' w b w' (bits w b - {idx})"
    by (auto simp: tda_bitset_clear_def unf)
  have sub': "(if idx \<in> bits w b then bits w b - {idx} else insert idx (bits w b)) \<subseteq> {..<bs_nbits b}" using sub i by auto
  obtain w' where "bs_update b (idx div 64) (\<lambda>x. x XOR bit_of idx) w = Some w'" "inv w'"
    "bs_updated owned' w b w' (if idx \<in> bits w b then bits w b - {idx} else insert idx (bits w b))"
    by (rule bs_update_bit [where f = "\<lambda>x. x XOR bit_of idx", OF w b i k(3) sub'])
  then show "\<exists>w'. tda_bitset_flip w b idx = Some w' \<and> inv w'
      \<and> bs_updated owned' w b w' (if idx \<in> bits w b then bits w b - {idx} else insert idx (bits w b))"
    by (intro exI conjI) (simp_all only: tda_bitset_flip_def unf, simp_all add: c_simps i)
qed

section \<open>All bits\<close>

lemma bs_fill_ok:
  assumes w: "inv w" and b: "bs_raw owned' w b" "0 < bs_nwords b"
  obtains p w' where "bs_words b = Some p" "mem_set w p 0 c (words_bytes b) = Some w'" "inv w'" "bs_raw owned' w' b"
    "frame w (bs_blocks b) w' (bs_blocks b)" "bs_list w' b = replicate (bs_nwords b) (bytes_word (replicate 8 c))"
proof -
  obtain p bs where p: "bs_words b = Some p" "heap w p = Some bs" "length bs = bs_nwords b * 8"
    "bs_list w b = map bytes_word (elems 8 bs)" by (rule bs_block [OF b])
  let ?src = "replicate (bs_nwords b * 8) c"
  have "length ?src = bs_nwords b * 8" "0 + bs_nwords b \<le> bs_nwords b" by simp_all
  from write_elems [OF w p(2,3) _ this] obtain w' bs' where w': "mem_write w p 0 ?src = Some w'" "inv w'"
    "heap w' = (heap w)(p \<mapsto> bs')" "length bs' = bs_nwords b * 8" "elems 8 bs' = blit 0 (elems 8 ?src) (elems 8 bs)" by auto
  have "elems 8 bs' = replicate (bs_nwords b) (replicate 8 c)"
    using w'(5) p(3) by (simp add: elems_replicate blit_whole length_elems_mult)
  then show ?thesis
    using that [of p w'] w'(1,2) p(1) bs_block_written [OF b(1) p(1) w'(3,4)]
    by (simp add: mem_set_def bs_bytes(1) [OF b(1)])
qed

lemma bitset_clear_all_spec:
  assumes w: "inv w" and b: "bs_inv owned' w b"
  shows "\<exists>w'. tda_bitset_clear_all w b = Some w' \<and> inv w' \<and> bs_updated owned' w b w' {}"
proof (cases "bs_nwords b = 0")
  case True
  then have "bs_list w b = []" using length_bs_list [OF bs_inv_raw [OF b]] by simp
  then show ?thesis
    using True w b by (simp add: tda_bitset_clear_all_def assert_bitset_ok [OF b] bs_updated_def bits_def frame_refl)
next
  case False
  then have "0 < bs_nwords b" by simp
  from bs_fill_ok [OF w bs_inv_raw [OF b] this, of 0] obtain p w' where "bs_words b = Some p"
    "mem_set w p 0 0 (words_bytes b) = Some w'" "inv w'" "bs_raw owned' w' b"
    "frame w (bs_blocks b) w' (bs_blocks b)" "bs_list w' b = replicate (bs_nwords b) 0" by auto
  then show ?thesis
    using False by (simp add: tda_bitset_clear_all_def assert_bitset_ok [OF b] bs_updated_def bs_inv_def bits_def wbits_replicate)
qed

lemma bitset_set_all_spec:
  assumes w: "inv w" and b: "bs_inv owned' w b"
  shows "\<exists>w'. tda_bitset_set_all w b = Some w' \<and> inv w' \<and> bs_updated owned' w b w' {..<bs_nbits b}"
proof (cases "bs_nwords b = 0")
  case True
  then have "bs_list w b = []" "bs_nbits b = 0"
    using length_bs_list [OF bs_inv_raw [OF b]] b by (simp_all add: bs_inv_def bs_raw_def)
  then show ?thesis
    using True w b by (simp add: tda_bitset_set_all_def assert_bitset_ok [OF b] bs_updated_def bits_def frame_refl clear_tail_def)
next
  case False
  then have "0 < bs_nwords b" by simp
  from bs_fill_ok [OF w bs_inv_raw [OF b] this, of 255] obtain p w1 where w1: "bs_words b = Some p"
    "mem_set w p 0 255 (words_bytes b) = Some w1" "inv w1" "bs_raw owned' w1 b"
    "frame w (bs_blocks b) w1 (bs_blocks b)" "bs_list w1 b = replicate (bs_nwords b) (- 1)"
    unfolding bytes_word_ones by blast
  obtain w' where w': "clear_tail b w1 = Some w'" "inv w'" "bs_updated owned' w1 b w' (bits w1 b \<inter> {..<bs_nbits b})"
    by (rule clear_tail_ok [OF w1(3,4)])
  have "{..<bs_nbits b} \<subseteq> bits w1 b"
    using w1(4,6) words_for_less [of _ "bs_nbits b"] by (auto simp: bits_def wbits_replicate bs_raw_def bit_simps)
  then have "bits w1 b \<inter> {..<bs_nbits b} = {..<bs_nbits b}" by blast
  then show ?thesis
    using False w1(1,2) w' frame_trans [OF w1(5)]
    by (simp add: tda_bitset_set_all_def assert_bitset_ok [OF b] bs_updated_def)
qed

lemma bitset_flip_all_spec:
  assumes w: "inv w" and b: "bs_inv owned' w b"
  shows "\<exists>w'. tda_bitset_flip_all w b = Some w' \<and> inv w' \<and> bs_updated owned' w b w' ({..<bs_nbits b} - bits w b)"
proof -
  have raw: "bs_raw owned' w b" using b by (rule bs_inv_raw)
  obtain w1 where w1: "for_loop [0..<bs_nwords b] (\<lambda>i. bs_update b i (\<lambda>x. NOT x)) w = Some w1" "inv w1" "bs_raw owned' w1 b"
    "frame w (bs_blocks b) w1 (bs_blocks b)" "bs_list w1 b = map (\<lambda>i. NOT (bs_list w b ! i)) [0..<bs_nwords b]"
    by (rule bs_loop_ok [OF w raw, of _ "\<lambda>i x. NOT x"]) simp_all
  obtain w' where w': "clear_tail b w1 = Some w'" "inv w'" "bs_updated owned' w1 b w' (bits w1 b \<inter> {..<bs_nbits b})"
    by (rule clear_tail_ok [OF w1(2,3)])
  have "bits w1 b \<inter> {..<bs_nbits b} = {..<bs_nbits b} - bits w b"
    using bs_index [OF raw] length_bs_list [OF raw] by (auto simp: bits_def wbits_def w1(5) bit_simps)
  then show ?thesis
    using w1(1) w' frame_trans [OF w1(4)] by (simp add: tda_bitset_flip_all_def assert_bitset_ok [OF b] bs_updated_def)
qed

section \<open>Two sets\<close>

lemma bs_pairwise_spec:
  assumes w: "inv w" and a: "bs_inv owned' w a" and b: "bs_inv owned'' w b" and n: "bs_nbits a = bs_nbits b"
    and apart: "bs_blocks a \<inter> bs_blocks b = {} \<or> b = a"
    and f: "\<And>x y n. n < 64 \<Longrightarrow> bit (f x y) n \<longleftrightarrow> g (bit x n) (bit y n)" and g: "\<not> g False False"
  shows "\<exists>w'. bs_pairwise f w a b = Some w' \<and> inv w' \<and> bs_updated owned' w a w' {i. g (i \<in> bits w a) (i \<in> bits w b)}"
proof -
  have raw: "bs_raw owned' w a" and rawb: "bs_raw owned'' w b" using a b by (simp_all add: bs_inv_raw)
  have l: "length (bs_list w a) = bs_nwords a" "length (bs_list w b) = bs_nwords a" "bs_nwords b = bs_nwords a"
    using n raw rawb length_bs_list [OF raw] length_bs_list [OF rawb] by (simp_all add: bs_raw_def)
  define body where "body = (\<lambda>i w. Option.bind (bs_get w b i) (\<lambda>y. bs_update a i (\<lambda>x. f x y) w))"
  define h where "h = (\<lambda>i x. f x (if b = a then x else bs_list w b ! i))"
  have step: "body i w1 = bs_update a i (h i) w1"
    if "i < bs_nwords a" "inv w1" "frame w (bs_blocks a) w1 (bs_blocks a)" for i w1
  proof (cases "b = a")
    case True
    then show ?thesis by (cases "bs_get w1 a i") (simp_all add: body_def bs_update_def h_def)
  next
    case False
    have "heap w1 q = heap w q" if "q \<in> bs_blocks b" for q
      using that False apart \<open>frame w (bs_blocks a) w1 (bs_blocks a)\<close> by (auto simp: frame_def)
    from bs_stable(1,3) [OF this] rawb have "bs_raw owned'' w1 b" "bs_list w1 b = bs_list w b" by simp_all
    then show ?thesis using bs_get_ok [of owned'' w1 b i] that(1) l(3) False by (simp add: body_def h_def)
  qed
  obtain w' where w': "for_loop [0..<bs_nwords a] body w = Some w'" "inv w'" "bs_raw owned' w' a"
    "frame w (bs_blocks a) w' (bs_blocks a)" "bs_list w' a = map (\<lambda>i. h i (bs_list w a ! i)) [0..<bs_nwords a]"
    by (rule bs_loop_ok [OF w raw step])
  have h: "h i (bs_list w a ! i) = f (bs_list w a ! i) (bs_list w b ! i)" for i by (simp add: h_def)
  have "bits w' a = {i. g (i \<in> bits w a) (i \<in> bits w b)}"
  proof (rule set_eqI)
    fix i show "i \<in> bits w' a \<longleftrightarrow> i \<in> {i. g (i \<in> bits w a) (i \<in> bits w b)}"
      using l g by (cases "i div 64 < bs_nwords a") (simp_all add: bits_def wbits_def w'(5) h f)
  qed
  moreover have "{i. g (i \<in> bits w a) (i \<in> bits w b)} \<subseteq> {..<bs_nbits a}"
  proof
    fix i assume "i \<in> {i. g (i \<in> bits w a) (i \<in> bits w b)}"
    then have "i \<in> bits w a \<or> i \<in> bits w b" using g by (cases "i \<in> bits w a"; cases "i \<in> bits w b") simp_all
    then show "i \<in> {..<bs_nbits a}" using a b n by (auto simp: bs_inv_def)
  qed
  ultimately show ?thesis
    using w' n by (simp add: bs_pairwise_def assert_bitset_ok [OF a] assert_bitset_ok [OF b] bs_updated_def bs_inv_def body_def)
qed

end

text \<open>Questions about two sets: is there a word of the first that meets \<open>f\<close> of the second's?\<close>

lemma find_index: "List.find P [0..<n] \<noteq> None \<longleftrightarrow> (\<exists>i<n. P i)"
  by (auto simp: find_None_iff)

lemma bs_meets_spec:
  assumes a: "bs_inv owned w a" and b: "bs_inv owned' w b" and n: "bs_nbits a = bs_nbits b"
    and f: "\<And>y n. n < 64 \<Longrightarrow> bit (f y) n \<longleftrightarrow> g (bit y n)"
  shows "bs_meets f w a b = Some (\<exists>i \<in> bits w a. g (i \<in> bits w b))"
proof -
  have raw: "bs_raw owned w a" and rawb: "bs_raw owned' w b" using a b by (simp_all add: bs_inv_raw)
  have l: "length (bs_list w a) = bs_nwords a" "length (bs_list w b) = bs_nwords a" "bs_nwords b = bs_nwords a"
    using n raw rawb length_bs_list [OF raw] length_bs_list [OF rawb] by (simp_all add: bs_raw_def)
  let ?P = "\<lambda>i. bs_list w a ! i AND f (bs_list w b ! i) \<noteq> 0"
  have "for_find [0..<bs_nwords a] (\<lambda>i. do { x \<leftarrow> bs_get w a i; y \<leftarrow> bs_get w b i; Some (x AND f y \<noteq> 0) })
      = Some (List.find ?P [0..<bs_nwords a])"
    by (rule for_find_pure) (simp add: bs_get_ok [OF raw] bs_get_ok [OF rawb] l)
  moreover have "(\<exists>k<bs_nwords a. ?P k) \<longleftrightarrow> (\<exists>i \<in> bits w a. g (i \<in> bits w b))"
  proof
    assume "\<exists>k<bs_nwords a. ?P k"
    then obtain k j where "k < bs_nwords a" "j < 64" "bit (bs_list w a ! k) j" "g (bit (bs_list w b ! k) j)"
      by (auto simp: bit_word_zero_iff bit_and_iff f)
    then show "\<exists>i \<in> bits w a. g (i \<in> bits w b)"
      using l by (intro bexI [of _ "k * 64 + j"]) (simp_all add: bits_def wbits_word)
  next
    assume "\<exists>i \<in> bits w a. g (i \<in> bits w b)"
    then obtain i where "i div 64 < bs_nwords a" "bit (bs_list w a ! (i div 64)) (i mod 64)"
      "g (bit (bs_list w b ! (i div 64)) (i mod 64))" using l by (auto simp: bits_def wbits_def)
    then show "\<exists>k<bs_nwords a. ?P k"
      by (intro exI [of _ "i div 64"]) (auto simp: bit_word_zero_iff bit_and_iff f intro!: exI [of _ "i mod 64"])
  qed
  ultimately show ?thesis
    using n by (simp add: bs_meets_def assert_bitset_ok [OF a] assert_bitset_ok [OF b] find_index [unfolded not_None_eq])
qed

lemma bitset_relation_spec:
  assumes a: "bs_inv owned w a" and b: "bs_inv owned' w b" and n: "bs_nbits a = bs_nbits b"
  shows "tda_bitset_is_subset w a b = Some (bits w a \<subseteq> bits w b)"
    and "tda_bitset_intersects w a b = Some (bits w a \<inter> bits w b \<noteq> {})"
  using bs_meets_spec [OF a b n, of "\<lambda>y. NOT y" Not] bs_meets_spec [OF a b n, of "\<lambda>y. y" "\<lambda>y. y"]
  by (auto simp: tda_bitset_is_subset_def tda_bitset_intersects_def bit_simps)

section \<open>Information\<close>

lemma wbits_inj:
  assumes l: "length ws = length vs"
  shows "wbits ws = wbits vs \<longleftrightarrow> ws = vs"
proof
  assume e: "wbits ws = wbits vs"
  show "ws = vs"
  proof (rule nth_equalityI [OF l], rule bit_word_eqI)
    fix k n assume "k < length ws" "n < LENGTH(64)"
    then show "bit (ws ! k) n = bit (vs ! k) n" using e l wbits_word [of k ws n] wbits_word [of k vs n] by simp
  qed
qed simp

lemma wbits_empty_iff: "wbits ws \<noteq> {} \<longleftrightarrow> (\<exists>i<length ws. ws ! i \<noteq> 0)"
proof -
  have "wbits (replicate (length ws) 0) = {}" by (auto simp: wbits_def)
  then have "wbits ws = {} \<longleftrightarrow> ws = replicate (length ws) 0" using wbits_inj [of ws "replicate (length ws) 0"] by simp
  then show ?thesis by (auto simp: list_eq_iff_nth_eq)
qed

lemma stdc_count_ones_card: "stdc_count_ones x = card {n. n < 64 \<and> bit x n}"
proof -
  have "set (filter (bit x) [0..<64]) = {n. n < 64 \<and> bit x n}" by auto
  then show ?thesis unfolding stdc_count_ones_def by (metis distinct_card distinct_filter distinct_upt)
qed

lemma count_step:
  assumes k: "k < length ws"
  shows "card {i \<in> wbits ws. i div 64 < Suc k} = card {i \<in> wbits ws. i div 64 < k} + stdc_count_ones (ws ! k)"
proof -
  let ?J = "{n. n < 64 \<and> bit (ws ! k) n}" and ?f = "\<lambda>j. k * 64 + j"
  have "{i \<in> wbits ws. i div 64 = k} = ?f ` ?J"
  proof
    show "{i \<in> wbits ws. i div 64 = k} \<subseteq> ?f ` ?J"
    proof
      fix i assume i: "i \<in> {i \<in> wbits ws. i div 64 = k}"
      then have "?f (i mod 64) \<in> ?f ` ?J" by (intro imageI) (auto simp: wbits_def)
      moreover have "?f (i mod 64) = i" using i div_mult_mod_eq [of i 64] by auto
      ultimately show "i \<in> ?f ` ?J" by simp
    qed
    show "?f ` ?J \<subseteq> {i \<in> wbits ws. i div 64 = k}" using k by (auto simp: wbits_word)
  qed
  then have "card {i \<in> wbits ws. i div 64 = k} = stdc_count_ones (ws ! k)"
    by (simp add: card_image inj_on_def stdc_count_ones_card)
  moreover have "{i \<in> wbits ws. i div 64 < Suc k} = {i \<in> wbits ws. i div 64 < k} \<union> {i \<in> wbits ws. i div 64 = k}" by auto
  moreover have "{i \<in> wbits ws. i div 64 < k} \<inter> {i \<in> wbits ws. i div 64 = k} = {}" by auto
  ultimately show ?thesis by (simp add: card_Un_disjoint)
qed

lemma bitset_count_spec:
  assumes b: "bs_inv owned w b"
  shows "tda_bitset_count w b = Some (card (bits w b))"
proof -
  have raw: "bs_raw owned w b" using b by (rule bs_inv_raw)
  have l: "length (bs_list w b) = bs_nwords b" by (rule length_bs_list [OF raw])
  let ?C = "\<lambda>k. card {i \<in> bits w b. i div 64 < k}"
  have le: "?C k \<le> SIZE_MAX" for k
  proof -
    have "?C k \<le> card {..<bs_nbits b}" using b by (intro card_mono) (auto simp: bs_inv_def)
    then show ?thesis using b by (simp add: bs_inv_def bs_raw_def)
  qed
  have "size_add (?C k) (stdc_count_ones (bs_list w b ! k)) = ?C (Suc k)" if "k < bs_nwords b" for k
  proof -
    have "?C k + stdc_count_ones (bs_list w b ! k) = ?C (Suc k)" using count_step [of k "bs_list w b"] that l by (simp add: bits_def)
    then show ?thesis using le [of "Suc k"] by (simp add: size_add_exact)
  qed
  then have "\<exists>s'. for_loop [0..<bs_nwords b] (\<lambda>i count. do { x \<leftarrow> bs_get w b i; Some (size_add count (stdc_count_ones x)) }) 0
      = Some s' \<and> s' = ?C (bs_nwords b)"
    by (intro for_loop_inv) (simp_all add: bs_get_ok [OF raw])
  moreover have "{i \<in> bits w b. i div 64 < bs_nwords b} = bits w b" using l by (auto simp: bits_def wbits_def)
  ultimately show ?thesis by (simp add: tda_bitset_count_def assert_bitset_ok [OF b])
qed

lemma bitset_any_spec:
  assumes b: "bs_inv owned w b"
  shows "tda_bitset_any w b = Some (bits w b \<noteq> {})" and "tda_bitset_none w b = Some (bits w b = {})"
proof -
  have raw: "bs_raw owned w b" using b by (rule bs_inv_raw)
  have "for_find [0..<bs_nwords b] (\<lambda>i. do { x \<leftarrow> bs_get w b i; Some (x \<noteq> 0) })
      = Some (List.find (\<lambda>i. bs_list w b ! i \<noteq> 0) [0..<bs_nwords b])"
    by (rule for_find_pure) (simp add: bs_get_ok [OF raw])
  then show any: "tda_bitset_any w b = Some (bits w b \<noteq> {})"
    using wbits_empty_iff [of "bs_list w b"] length_bs_list [OF raw]
    by (simp add: tda_bitset_any_def assert_bitset_ok [OF b] find_index [unfolded not_None_eq] bits_def)
  then show "tda_bitset_none w b = Some (bits w b = {})" by (simp add: tda_bitset_none_def assert_bitset_ok [OF b])
qed

lemma full_words:
  assumes "n = words_for nbits"
  shows "wbits (map (\<lambda>i. if i + 1 = n then tail_mask nbits else - 1) [0..<n]) = {..<nbits}"
proof (cases "n = 0")
  case False
  let ?r = "replicate n (- 1 :: 64 word)"
  have "map (\<lambda>i. if i + 1 = n then tail_mask nbits else - 1) [0..<n] = ?r[n - 1 := ?r ! (n - 1) AND tail_mask nbits]"
    using False by (auto simp: list_eq_iff_nth_eq nth_list_update)
  moreover have "wbits ?r \<inter> {..<nbits} = {..<nbits}"
    using words_for_less [of _ nbits] assms by (auto simp: wbits_replicate)
  ultimately show ?thesis using wbits_tail [of ?r nbits] False assms by simp
qed (use assms in simp)

lemma bitset_all_spec:
  assumes b: "bs_inv owned w b"
  shows "tda_bitset_all w b = Some (bits w b = {..<bs_nbits b})"
proof -
  have raw: "bs_raw owned w b" using b by (rule bs_inv_raw)
  let ?n = "bs_nwords b" and ?want = "\<lambda>i. if i + 1 = bs_nwords b then tail_mask (bs_nbits b) else - 1"
  have l: "length (bs_list w b) = ?n" "?n = words_for (bs_nbits b)" using raw length_bs_list [OF raw] by (simp_all add: bs_raw_def)
  have "for_find [0..<?n] (\<lambda>i. let want = if i + 1 = bs_nwords b then tail_mask (bs_nbits b) else NOT 0
          in do { x \<leftarrow> bs_get w b i; Some (x \<noteq> want) })
      = Some (List.find (\<lambda>i. bs_list w b ! i \<noteq> ?want i) [0..<?n])"
    by (rule for_find_pure) (simp add: bs_get_ok [OF raw])
  moreover have "bits w b = {..<bs_nbits b} \<longleftrightarrow> bs_list w b = map ?want [0..<?n]"
    using wbits_inj [of "bs_list w b" "map ?want [0..<?n]"] full_words [OF l(2)] l(1) by (simp add: bits_def)
  moreover have "bs_list w b = map ?want [0..<?n] \<longleftrightarrow> List.find (\<lambda>i. bs_list w b ! i \<noteq> ?want i) [0..<?n] = None"
    using l(1) by (auto simp: list_eq_iff_nth_eq find_None_iff)
  ultimately show ?thesis by (simp add: tda_bitset_all_def assert_bitset_ok [OF b])
qed

section \<open>Scans\<close>

text \<open>The scan stops at the first word that is not 0, and always stops.\<close>

lemma scan_loop_stops:
  assumes "w < n" "\<And>i. w < i \<Longrightarrow> i < n \<Longrightarrow> get i = Some (us ! i)"
  shows "\<exists>r. scan_loop get n w (us ! w) = Some r \<and> (case r of
      None \<Rightarrow> \<forall>i. w \<le> i \<and> i < n \<longrightarrow> us ! i = 0
    | Some (i, x) \<Rightarrow> w \<le> i \<and> i < n \<and> x = us ! i \<and> x \<noteq> 0 \<and> (\<forall>k. w \<le> k \<and> k < i \<longrightarrow> us ! k = 0))"
  using assms
proof (induction "n - w" arbitrary: w)
  case 0
  then show ?case by simp
next
  case (Suc d)
  show ?case
  proof (cases "us ! w = 0 \<and> w + 1 < n")
    case False
    then have "us ! w \<noteq> 0 \<or> w + 1 = n" using Suc.prems(1) by linarith
    then show ?thesis using Suc.prems(1) by (subst scan_loop.simps) (auto simp: le_Suc_eq less_Suc_eq_le)
  next
    case True
    have "get (w + 1) = Some (us ! (w + 1))" using True Suc.prems(2) by simp
    then have e: "scan_loop get n w (us ! w) = scan_loop get n (w + 1) (us ! (w + 1))"
      using True by (subst scan_loop.simps) simp
    have "d = n - (w + 1)" using Suc.hyps(2) by simp
    from Suc.hyps(1) [OF this] True Suc.prems(2) obtain r where r: "scan_loop get n (w + 1) (us ! (w + 1)) = Some r"
      "case r of None \<Rightarrow> \<forall>i. w + 1 \<le> i \<and> i < n \<longrightarrow> us ! i = 0
       | Some (i, x) \<Rightarrow> w + 1 \<le> i \<and> i < n \<and> x = us ! i \<and> x \<noteq> 0 \<and> (\<forall>k. w + 1 \<le> k \<and> k < i \<longrightarrow> us ! k = 0)"
      by auto
    have "us ! k = 0" if "w \<le> k" "\<not> w + 1 \<le> k" for k
      using that True by (metis Suc_eq_plus1 antisym not_less_eq_eq)
    then show ?thesis using e r by (auto split: option.splits prod.splits)
  qed
qed

lemma first_trailing_one:
  assumes "x \<noteq> 0"
  obtains j where "stdc_first_trailing_one x = j + 1" "j < 64" "bit x j" "\<forall>n. bit x n \<longrightarrow> j \<le> n"
proof -
  obtain n where n: "n < 64" "bit x n" using assms by (auto simp: bit_word_zero_iff)
  then obtain j where j: "List.find (bit x) [0..<64] = Some j" by (cases "List.find (bit x) [0..<64]") (auto simp: find_None_iff)
  then obtain i where i: "i < length [0..<64]" "bit x ([0..<64] ! i)" "j = [0..<64] ! i"
    "\<forall>k<i. \<not> bit x ([0..<64] ! k)" unfolding find_Some_iff by blast
  have "j \<le> m" if "bit x m" for m using i that by (force simp: not_less [symmetric])
  then show ?thesis using that [of j] j i by (simp add: stdc_first_trailing_one_def)
qed

text \<open>\<open>is_next A from r\<close>: \<open>r\<close> is the least member of \<open>A\<close> from \<open>from\<close> on, if there is one.\<close>

definition is_next :: "nat set \<Rightarrow> nat \<Rightarrow> nat option \<Rightarrow> bool" where
  "is_next A from r = (case r of
      None \<Rightarrow> \<forall>i\<in>A. i < from
    | Some k \<Rightarrow> k \<in> A \<and> from \<le> k \<and> (\<forall>i\<in>A. from \<le> i \<longrightarrow> k \<le> i))"

lemma is_next_cong: "(\<And>i. from \<le> i \<Longrightarrow> i \<in> A \<longleftrightarrow> i \<in> B) \<Longrightarrow> is_next A from r = is_next B from r"
  unfolding is_next_def by (auto split: option.splits simp: not_le [symmetric])

lemma word_from_bit: "n < 64 \<Longrightarrow> bit (word_from x from) n \<longleftrightarrow> bit x n \<and> from mod 64 \<le> n"
  by (auto simp: word_from_def WORD_BITS_def bit_simps)

lemma scan_next:
  assumes l: "length ws = n" "from div 64 < n" and get: "\<And>i. i < n \<Longrightarrow> get i = Some (ws ! i)"
  shows "\<exists>r. scan_loop get n (from div 64) (word_from (ws ! (from div 64)) from) = Some r \<and> (case r of
      None \<Rightarrow> is_next (wbits ws) from None
    | Some (i, x) \<Rightarrow> \<exists>k. idx_of_first_one i x = Some k \<and> is_next (wbits ws) from (Some k))"
proof -
  let ?w = "from div 64"
  define us where "us = ws[?w := word_from (ws ! ?w) from]"
  have len: "length us = n" by (simp add: us_def l)
  have uw: "us ! ?w = word_from (ws ! ?w) from" using l by (simp add: us_def)
  have mem: "from \<le> m \<and> m \<in> wbits ws \<longleftrightarrow> ?w \<le> m div 64 \<and> m \<in> wbits us" for m
  proof (cases "m div 64 = ?w")
    case True
    then have "from \<le> m \<longleftrightarrow> from mod 64 \<le> m mod 64" by (metis add_le_cancel_left mult_div_mod_eq)
    then show ?thesis using True l by (auto simp: us_def wbits_update word_from_bit wbits_def)
  next
    case False
    have "from \<le> m \<longleftrightarrow> ?w \<le> m div 64"
      using False div_le_mono [of "from" m 64] div_le_mono [of m "from" 64] by linarith
    then show ?thesis using False l by (auto simp: us_def wbits_update)
  qed
  obtain r where r: "scan_loop get n ?w (us ! ?w) = Some r" "case r of
      None \<Rightarrow> \<forall>i. ?w \<le> i \<and> i < n \<longrightarrow> us ! i = 0
    | Some (i, x) \<Rightarrow> ?w \<le> i \<and> i < n \<and> x = us ! i \<and> x \<noteq> 0 \<and> (\<forall>k. ?w \<le> k \<and> k < i \<longrightarrow> us ! k = 0)"
    using scan_loop_stops [of ?w n get us] l get by (auto simp: us_def)
  have zero: "?w \<le> m div 64 \<Longrightarrow> m \<in> wbits us \<Longrightarrow> us ! (m div 64) \<noteq> 0" for m by (auto simp: wbits_def)
  show ?thesis
  proof (cases r)
    case None
    have "m < from" if "m \<in> wbits ws" for m
    proof (rule ccontr)
      assume "\<not> m < from"
      then have "?w \<le> m div 64" "m \<in> wbits us" using mem [of m] that by simp_all
      then show False using zero [of m] r(2) None len by (auto simp: wbits_def)
    qed
    then show ?thesis using r(1) None uw by (simp add: is_next_def)
  next
    case (Some p)
    obtain i x where p: "r = Some (i, x)" using Some by (cases p) simp
    then have i: "?w \<le> i" "i < n" "x = us ! i" "x \<noteq> 0" "\<And>k. ?w \<le> k \<Longrightarrow> k < i \<Longrightarrow> us ! k = 0" using r(2) by auto
    obtain j where j: "stdc_first_trailing_one x = j + 1" "j < 64" "bit x j" "\<forall>n. bit x n \<longrightarrow> j \<le> n"
      by (rule first_trailing_one [OF i(4)])
    let ?k = "i * 64 + j"
    have idx: "idx_of_first_one i x = Some ?k" using i(4) j(1) by (simp add: idx_of_first_one_def WORD_BITS_def c_simps)
    have dk: "?k div 64 = i" using j(2) by simp
    have k: "?k \<in> wbits us" using i j len by (simp add: wbits_word)
    have "?k \<le> m" if m: "m \<in> wbits ws" "from \<le> m" for m
    proof -
      have u: "?w \<le> m div 64" "m \<in> wbits us" using mem [of m] m by simp_all
      then have "i \<le> m div 64" using i(5) [of "m div 64"] zero [of m] by (meson not_le)
      moreover have "j \<le> m mod 64" if "i = m div 64" using j(4) u(2) i(3) that by (simp add: wbits_def)
      moreover have "i * 64 + j < m div 64 * 64" if "i < m div 64" using that j(2) by linarith
      moreover have "m div 64 * 64 + m mod 64 = m" by (rule div_mult_mod_eq)
      ultimately show ?thesis by (cases "i = m div 64") linarith+
    qed
    then have "is_next (wbits ws) from (Some ?k)" using mem [of ?k] k dk i(1) by (simp add: is_next_def)
    then show ?thesis using r(1) p uw idx by auto
  qed
qed

lemma bitset_find_next_spec:
  assumes b: "bs_inv owned w b"
  shows "\<exists>r. tda_bitset_find_next w b from = Some r \<and> is_next (bits w b) from r"
proof (cases "from < bs_nbits b")
  case False
  then have "is_next (bits w b) from None" using b by (auto simp: is_next_def bs_inv_def)
  then show ?thesis using False by (simp add: tda_bitset_find_next_def assert_bitset_ok [OF b])
next
  case True
  have raw: "bs_raw owned w b" using b by (rule bs_inv_raw)
  have l: "length (bs_list w b) = bs_nwords b" by (rule length_bs_list [OF raw])
  have f: "from div 64 < bs_nwords b" using bs_index [OF raw True] l by simp
  from scan_next [OF l f, of "bs_get w b"] bs_get_ok [OF raw] obtain r where
    "scan_loop (bs_get w b) (bs_nwords b) (from div 64) (word_from (bs_list w b ! (from div 64)) from) = Some r"
    "case r of None \<Rightarrow> is_next (bits w b) from None
     | Some (i, x) \<Rightarrow> \<exists>k. idx_of_first_one i x = Some k \<and> is_next (bits w b) from (Some k)"
    unfolding bits_def by blast
  then show ?thesis
    using True f by (auto simp: tda_bitset_find_next_def assert_bitset_ok [OF b] bs_word_of_def WORD_BITS_def
        bs_get_ok [OF raw] split: option.splits)
qed

lemma bitset_find_next_clear_spec:
  assumes b: "bs_inv owned w b"
  shows "\<exists>r. tda_bitset_find_next_clear w b from = Some r \<and> is_next ({..<bs_nbits b} - bits w b) from r"
proof (cases "from < bs_nbits b")
  case False
  then have "is_next ({..<bs_nbits b} - bits w b) from None" by (auto simp: is_next_def)
  then show ?thesis using False by (simp add: tda_bitset_find_next_clear_def assert_bitset_ok [OF b])
next
  case True
  have raw: "bs_raw owned w b" using b by (rule bs_inv_raw)
  let ?n = "bs_nwords b" and ?N = "bs_nbits b"
  define vs where "vs = map (\<lambda>x. NOT x) (bs_list w b)"
  have l: "length vs = ?n" by (simp add: vs_def length_bs_list [OF raw])
  have f: "from div 64 < ?n" using bs_index [OF raw True] l by (simp add: vs_def)
  have get: "Option.bind (bs_get w b i) (\<lambda>y. Some (NOT y)) = Some (vs ! i)" if "i < ?n" for i
    using that by (simp add: bs_get_ok [OF raw] vs_def length_bs_list [OF raw])
  from scan_next [OF l f, of "\<lambda>i. Option.bind (bs_get w b i) (\<lambda>y. Some (NOT y))"] get obtain r where
    r: "scan_loop (\<lambda>i. Option.bind (bs_get w b i) (\<lambda>y. Some (NOT y))) ?n (from div 64) (word_from (vs ! (from div 64)) from) = Some r"
    "case r of None \<Rightarrow> is_next (wbits vs) from None
     | Some (i, x) \<Rightarrow> \<exists>k. idx_of_first_one i x = Some k \<and> is_next (wbits vs) from (Some k)" by blast
  have v: "i \<in> wbits vs \<longleftrightarrow> i \<notin> bits w b" if "i < ?N" for i
    using bs_index [OF raw that] by (simp add: vs_def wbits_def bits_def bit_simps)
  have "vs ! (from div 64) = NOT (bs_list w b ! (from div 64))" using f l by (simp add: vs_def)
  then have e: "tda_bitset_find_next_clear w b from = (case r of None \<Rightarrow> Some None
      | Some (i, word) \<Rightarrow> do { idx \<leftarrow> idx_of_first_one i word; if idx \<ge> ?N then Some None else Some (Some idx) })"
    using True f r(1) by (simp add: tda_bitset_find_next_clear_def assert_bitset_ok [OF b] bs_word_of_def WORD_BITS_def
        bs_get_ok [OF raw])
  show ?thesis
  proof (cases r)
    case None
    then show ?thesis using e r(2) v by (auto simp: is_next_def)
  next
    case (Some p)
    then obtain i x k where k: "r = Some (i, x)" "idx_of_first_one i x = Some k" "is_next (wbits vs) from (Some k)"
      using r(2) by (cases p) auto
    show ?thesis
    proof (cases "?N \<le> k")
      case True
      have "i < from" if "i < ?N" "i \<notin> bits w b" for i
        using that v [of i] k(3) True by (auto simp: is_next_def not_le [symmetric])
      then show ?thesis using True e k by (auto simp: is_next_def)
    next
      case False
      then show ?thesis using e k v by (auto simp: is_next_def)
    qed
  qed
qed

section \<open>Equality\<close>

lemma bs_list_inj:
  assumes "length as = n * 8" "length bs = n * 8"
  shows "map bytes_word (elems 8 as) = map bytes_word (elems 8 bs) \<longleftrightarrow> as = bs"
proof
  assume m: "map bytes_word (elems 8 as) = map bytes_word (elems 8 bs)"
  have "map word_bytes (map bytes_word (elems 8 xs)) = elems 8 xs" for xs :: "byte list"
    unfolding map_map by (rule map_idI) (simp add: word_bytes_word elems_in_length)
  then have "elems 8 as = elems 8 bs" using m by metis
  then have "concat (elems 8 as) = concat (elems 8 bs)" by simp
  then show "as = bs" using assms by (simp add: concat_elems [of 8 _ n])
qed simp

lemma bitset_eq_spec:
  assumes a: "bs_inv owned w a" and b: "bs_inv owned' w b" and same: "bs_self a = bs_self b \<Longrightarrow> a = b"
  shows "tda_bitset_eq w a b = Some (bs_nbits a = bs_nbits b \<and> bits w a = bits w b)"
proof -
  have raw: "bs_raw owned w a" "bs_raw owned' w b" using a b by (simp_all add: bs_inv_raw)
  note unf = tda_bitset_eq_def assert_bitset_ok [OF a] assert_bitset_ok [OF b]
  consider "bs_self a = bs_self b" | "bs_self a \<noteq> bs_self b" "bs_nbits a \<noteq> bs_nbits b"
    | (empty) "bs_self a \<noteq> bs_self b" "bs_nbits a = bs_nbits b" "bs_nwords a = 0"
    | (words) "bs_self a \<noteq> bs_self b" "bs_nbits a = bs_nbits b" "0 < bs_nwords a" by blast
  then show ?thesis
  proof cases
    case empty
    then have "bs_list w a = []" "bs_list w b = []"
      using length_bs_list [OF raw(1)] length_bs_list [OF raw(2)] raw by (simp_all add: bs_raw_def)
    then show ?thesis using empty by (simp add: unf bits_def)
  next
    case words
    have n: "bs_nwords b = bs_nwords a" "0 < bs_nwords b" using words raw by (simp_all add: bs_raw_def)
    obtain p as where p: "bs_words a = Some p" "heap w p = Some as" "length as = bs_nwords a * 8"
      "bs_list w a = map bytes_word (elems 8 as)" by (rule bs_block [OF raw(1) words(3)])
    obtain q bs where q: "bs_words b = Some q" "heap w q = Some bs" "length bs = bs_nwords a * 8"
      "bs_list w b = map bytes_word (elems 8 bs)" using bs_block [OF raw(2) n(2)] n(1) by metis
    have "as = bs \<longleftrightarrow> bits w a = bits w b"
      using bs_list_inj [OF p(3) q(3)] wbits_inj [of "bs_list w a" "bs_list w b"] p(3,4) q(3,4)
      by (simp add: bits_def length_elems_mult)
    then show ?thesis
      using words p q by (simp add: unf bs_bytes(1) [OF raw(1)] mem_read_ok slice_def)
  qed (use same in \<open>simp_all add: unf\<close>)
qed

section \<open>Lifetime\<close>

definition bs_created ::
  "(ptr \<Rightarrow> bool) \<Rightarrow> 's al \<Rightarrow> 's world \<Rightarrow> tda_Status \<Rightarrow> 's bitset option \<Rightarrow> 's world \<Rightarrow> bool" where
  "bs_created = made bs_inv bs_blocks bs_al"

context allocator
begin

lemma bitset_new_spec:
  assumes w: "inv w" and n: "nbits \<le> SIZE_MAX"
  shows "\<exists>st r w'. tda_bitset_new nbits al w = Some (st, r, w') \<and> inv w' \<and> bs_created owned al w st r w'
    \<and> (\<forall>b. r = Some b \<longrightarrow> bs_nbits b = nbits \<and> bits w' b = {})"
proof -
  have sz: "sizeof_tda_BitSet \<le> SIZE_MAX" by (simp add: sizeof_tda_BitSet_def SIZE_MAX_def)
  show ?thesis
  proof (rule alloc_cases [OF w sz])
    fix w1 assume "tda_alloc al w sizeof_tda_BitSet = Some (None, w1)" "inv w1" "heap w1 = heap w"
    then show ?thesis by (simp add: tda_bitset_new_def bs_created_def made_def)
  next
    fix obj w1 ob assume o: "tda_alloc al w sizeof_tda_BitSet = Some (Some obj, w1)" "inv w1" "owned obj"
      "heap w obj = None" "length ob = sizeof_tda_BitSet" "heap w1 = (heap w)(obj \<mapsto> ob)"
    let ?n = "words_for nbits"
    define mk where "mk d = \<lparr>bs_self = obj, bs_words = d, bs_nbits = nbits, bs_nwords = ?n, bs_al = al\<rparr>" for d
    show ?thesis
    proof (cases "nbits = 0")
      case True
      have "bs_inv owned w1 (mk None)"
        using o True by (simp add: bs_inv_def bs_raw_def mk_def block_at_def bits_def bs_list_def)
      then show ?thesis
        using o True assert_bitset_ok [of owned w1 "mk None"]
        by (auto simp: tda_bitset_new_def bs_created_def made_def mk_def bs_blocks_def bits_def bs_list_def)
    next
      case False
      show ?thesis
      proof (rule calloc_cases [OF o(2), of ?n 8])
        fix w2 assume n2: "tda_calloc al w1 ?n 8 = Some (None, w2)" "inv w2" "heap w2 = heap w1"
        then have "heap w2 obj = Some ob" using o(6) by simp
        from dealloc_some [OF n2(2) o(3) this o(5)] obtain w3 where "tda_dealloc al w2 (Some obj) sizeof_tda_BitSet = Some w3"
          "inv w3" "heap w3 = (heap w2)(obj := None)" .
        then show ?thesis
          using o n2 False by (auto simp: tda_bitset_new_def bs_created_def made_def fun_upd_idem)
      next
        fix p w2 assume p: "tda_calloc al w1 ?n 8 = Some (Some p, w2)" "inv w2" "0 < ?n" "(0 :: nat) < 8" "?n * 8 \<le> SIZE_MAX"
          "owned p" "heap w1 p = None" "heap w2 = (heap w1)(p \<mapsto> replicate (?n * 8) 0)"
        have po: "p \<noteq> obj" using p(7) o(6) by auto
        have l: "bs_list w2 (mk (Some p)) = replicate ?n 0"
          using p(8) by (simp add: bs_list_def mk_def elems_replicate)
        then have e: "bits w2 (mk (Some p)) = {}" by (simp add: bits_def wbits_replicate)
        then have i: "bs_inv owned w2 (mk (Some p))"
          using n p o po False by (simp add: bs_inv_def bs_raw_def mk_def block_at_def)
        have "bs_created owned al w TDA_STATUS_OK (Some (mk (Some p))) w2"
          using i o(4,6) p(7,8) po by (auto simp: bs_created_def made_def mk_def bs_blocks_def)
        moreover have "tda_bitset_new nbits al w = Some (TDA_STATUS_OK, Some (mk (Some p)), w2)"
          using o(1) p(1) False assert_bitset_ok [OF i] by (simp add: tda_bitset_new_def mk_def)
        ultimately show ?thesis using p(2) e by (simp add: mk_def)
      qed
    qed
  qed
qed

lemma bitset_drop_spec:
  assumes w: "inv w" and b: "bs_inv owned w b" "bs_al b = al"
  shows "\<exists>w'. tda_bitset_drop w (Some b) = Some w' \<and> inv w'
    \<and> heap w' = (\<lambda>q. if q \<in> bs_blocks b then None else heap w q)"
proof -
  have raw: "bs_raw owned w b" using b(1) by (rule bs_inv_raw)
  have "owned p \<and> block_at w p (words_bytes b)" if "bs_words b = Some p" for p
    unfolding bs_bytes(1) [OF raw] using that raw by (auto simp: bs_raw_def)
  from dealloc_opt [OF w this] obtain w1 where w1: "tda_dealloc al w (bs_words b) (words_bytes b) = Some w1"
    "inv w1" "heap w1 = (\<lambda>q. if q \<in> set_option (bs_words b) then None else heap w q)" by blast
  obtain sb where "owned (bs_self b)" "heap w1 (bs_self b) = Some sb" "length sb = sizeof_tda_BitSet"
    using raw w1(3) by (auto simp: bs_raw_def block_at_def split: option.splits)
  from dealloc_some [OF w1(2) this] obtain w2 where "tda_dealloc al w1 (Some (bs_self b)) sizeof_tda_BitSet = Some w2"
    "inv w2" "heap w2 = (heap w1)(bs_self b := None)" .
  then show ?thesis using w1(1,3) by (auto simp: tda_bitset_drop_def assert_bitset_ok [OF b(1)] b(2) bs_blocks_def)
qed

text \<open>Copying the words of one set into another of the same size.\<close>

lemma bs_copy_words_spec:
  assumes w: "inv w" and a: "bs_inv owned' w a" and c: "bs_raw owned w c"
    and n: "bs_nbits c = bs_nbits a" and apart: "bs_blocks a \<inter> bs_blocks c = {}"
  shows "\<exists>w'. bs_copy_words w a c = Some w' \<and> inv w' \<and> bs_updated owned w c w' (bits w a)"
proof (cases "bs_nwords a = 0")
  case True
  have "bs_nwords c = 0" using True a c n by (simp add: bs_raw_def bs_inv_def)
  then have "bs_list w a = []" "bs_list w c = []"
    using True length_bs_list [OF bs_inv_raw [OF a]] length_bs_list [OF c] by simp_all
  then show ?thesis using True w c by (simp add: bs_copy_words_def bs_updated_def bs_inv_def bits_def frame_refl)
next
  case False
  have raw: "bs_raw owned' w a" using a by (rule bs_inv_raw)
  have nw: "bs_nwords c = bs_nwords a" "0 < bs_nwords c" "0 < bs_nwords a" using False raw c n by (simp_all add: bs_raw_def)
  obtain q qs where q: "bs_words a = Some q" "heap w q = Some qs" "length qs = bs_nwords a * 8"
    "bs_list w a = map bytes_word (elems 8 qs)" by (rule bs_block [OF raw nw(3)])
  obtain p ps where p: "bs_words c = Some p" "heap w p = Some ps" "length ps = bs_nwords c * 8"
    "bs_list w c = map bytes_word (elems 8 ps)" by (rule bs_block [OF c nw(2)])
  have "length qs = bs_nwords c * 8" "0 + bs_nwords c \<le> bs_nwords c" using q(3) nw by simp_all
  from write_elems [OF w p(2,3) _ this] obtain w' bs' where w': "mem_write w p 0 qs = Some w'" "inv w'"
    "heap w' = (heap w)(p \<mapsto> bs')" "length bs' = bs_nwords c * 8" "elems 8 bs' = blit 0 (elems 8 qs) (elems 8 ps)" by auto
  have "elems 8 bs' = elems 8 qs" using w'(5) p(3) q(3) nw(1) by (simp add: blit_whole length_elems_mult)
  then have k: "bits w' c = bits w a" using bs_block_written(3) [OF c p(1) w'(3,4)] q(4) by (simp add: bits_def)
  moreover have "bits w a \<subseteq> {..<bs_nbits c}" using a n by (simp add: bs_inv_def)
  ultimately show ?thesis
    using w'(1,2) False p(1) q bs_block_written(1,2) [OF c p(1) w'(3,4)]
    by (simp add: bs_copy_words_def bs_bytes(1) [OF raw] mem_read_ok slice_def bs_updated_def bs_inv_def)
qed

lemma bitset_copy_with_spec:
  assumes w: "inv w" and a: "bs_inv owned' w a"
  shows "\<exists>st r w'. tda_bitset_copy_with a al w = Some (st, r, w') \<and> inv w' \<and> bs_created owned al w st r w'
    \<and> (\<forall>c. r = Some c \<longrightarrow> bs_nbits c = bs_nbits a \<and> bits w' c = bits w a)"
proof -
  have raw: "bs_raw owned' w a" using a by (rule bs_inv_raw)
  have "bs_nbits a \<le> SIZE_MAX" using raw by (simp add: bs_raw_def)
  from bitset_new_spec [OF w this] obtain st r w1 where n: "tda_bitset_new (bs_nbits a) al w = Some (st, r, w1)" "inv w1"
    "bs_created owned al w st r w1" "\<forall>b. r = Some b \<longrightarrow> bs_nbits b = bs_nbits a \<and> bits w1 b = {}" by blast
  show ?thesis
  proof (cases r)
    case None
    then show ?thesis using n by (simp add: tda_bitset_copy_with_def assert_bitset_ok [OF a])
  next
    case (Some c)
    have m: "st = TDA_STATUS_OK" "bs_inv owned w1 c" "bs_al c = al" "\<forall>q \<in> bs_blocks c. heap w q = None"
      "\<forall>q. q \<notin> bs_blocks c \<longrightarrow> heap w1 q = heap w q" using n(3) Some by (simp_all add: bs_created_def made_def)
    have apart: "bs_blocks a \<inter> bs_blocks c = {}" using m(4) bs_live [OF raw] by blast
    then have "heap w1 q = heap w q" if "q \<in> bs_blocks a" for q using that m(5) by auto
    from bs_stable(2,4) [OF this] a have a1: "bs_inv owned' w1 a" "bits w1 a = bits w a" by simp_all
    have sz: "bs_nbits c = bs_nbits a" using n(4) Some by simp
    from bs_copy_words_spec [OF n(2) a1(1) bs_inv_raw [OF m(2)] sz apart] a1(2) obtain w' where
      w': "bs_copy_words w1 a c = Some w'" "inv w'" "bs_updated owned w1 c w' (bits w a)" by auto
    have "bs_created owned al w TDA_STATUS_OK (Some c) w'"
      using m w'(3) by (simp add: bs_created_def made_def bs_updated_def frame_def)
    then show ?thesis
      using n(1) Some w' sz by (simp add: tda_bitset_copy_with_def assert_bitset_ok [OF a] bs_updated_def)
  qed
qed

end

interpretation bitset_box: container bs_inv bs_blocks bs_al tda_bitset_drop
proof
  fix al :: "'s al" and I owned w and b :: "'s bitset"
  assume A: "object_allocator al I owned" and b: "I w" "bs_inv owned w b" "bs_al b = al"
  have "allocator al I owned" using A by (simp add: object_allocator_def)
  from allocator.bitset_drop_spec [OF this b]
  show "\<exists>w'. tda_bitset_drop w (Some b) = Some w' \<and> I w' \<and> heap w' = (\<lambda>q. if q \<in> bs_blocks b then None else heap w q)" .
qed (auto intro: bs_stable(4) dest: bs_live [OF bs_inv_raw])

end
