(* ===== verification/Tda_Bitset_Calls.thy ===== *)
theory Tda_Bitset_Calls
  imports Tda_Bitset_Laws
begin

text \<open>
  Runs of calls on a bitset: \<open>bitset_step\<close> is one call of the header, \<open>set_step\<close> the same call
  on the pair of the universe's size and the set. The struct itself never changes.
\<close>

datatype bitset_op = BSet nat | BClear nat | BFlip nat | BSetTo nat bool | BSetAll | BClearAll | BFlipAll

definition bitset_call :: "bitset_op \<Rightarrow> 's world \<Rightarrow> 's bitset \<Rightarrow> 's world option" where
  "bitset_call op w b = (case op of
      BSet i \<Rightarrow> tda_bitset_set w b i
    | BClear i \<Rightarrow> tda_bitset_clear w b i
    | BFlip i \<Rightarrow> tda_bitset_flip w b i
    | BSetTo i v \<Rightarrow> tda_bitset_set_to w b i v
    | BSetAll \<Rightarrow> tda_bitset_set_all w b
    | BClearAll \<Rightarrow> tda_bitset_clear_all w b
    | BFlipAll \<Rightarrow> tda_bitset_flip_all w b)"

definition bitset_step :: "bitset_op \<Rightarrow> 's world \<Rightarrow> 's bitset \<Rightarrow> (tda_Status \<times> 's world \<times> 's bitset) option" where
  "bitset_step op w b = do { w1 \<leftarrow> bitset_call op w b; Some (TDA_STATUS_OK, w1, b) }"

definition set_allowed :: "bitset_op \<Rightarrow> nat \<times> nat set \<Rightarrow> bool" where
  "set_allowed op s = (case op of BSet i \<Rightarrow> i < fst s | BClear i \<Rightarrow> i < fst s | BFlip i \<Rightarrow> i < fst s
      | BSetTo i v \<Rightarrow> i < fst s | _ \<Rightarrow> True)"

definition set_after :: "bitset_op \<Rightarrow> nat \<Rightarrow> nat set \<Rightarrow> nat set" where
  "set_after op n A = (case op of
      BSet i \<Rightarrow> insert i A
    | BClear i \<Rightarrow> A - {i}
    | BFlip i \<Rightarrow> (if i \<in> A then A - {i} else insert i A)
    | BSetTo i v \<Rightarrow> (if v then insert i A else A - {i})
    | BSetAll \<Rightarrow> {..<n}
    | BClearAll \<Rightarrow> {}
    | BFlipAll \<Rightarrow> {..<n} - A)"

definition set_step :: "bitset_op \<Rightarrow> nat \<times> nat set \<Rightarrow> nat \<times> nat set \<Rightarrow> bool" where
  "set_step op s s' = (s' = (fst s, set_after op (fst s) (snd s)))"

definition bitset_abs :: "'s world \<Rightarrow> 's bitset \<Rightarrow> nat \<times> nat set" where
  "bitset_abs w b = (bs_nbits b, bits w b)"

definition bitset_frame :: "'s world \<Rightarrow> 's bitset \<Rightarrow> 's world \<Rightarrow> 's bitset \<Rightarrow> bool" where
  "bitset_frame w b w' b' \<longleftrightarrow> b' = b \<and> frame w (bs_blocks b) w' (bs_blocks b)"

definition bitset_ok :: "('s world \<Rightarrow> bool) \<Rightarrow> (ptr \<Rightarrow> bool) \<Rightarrow> 's world \<Rightarrow> 's bitset \<Rightarrow> bool" where
  "bitset_ok I owned w b \<longleftrightarrow> I w \<and> bs_inv owned w b"

context allocator
begin

lemma bitset_call_spec:
  assumes w: "inv w" and b: "bs_inv owned' w b" and ok: "set_allowed op (bitset_abs w b)"
  shows "\<exists>w'. bitset_call op w b = Some w' \<and> inv w' \<and> bs_updated owned' w b w' (set_after op (bs_nbits b) (bits w b))"
proof (cases op)
  case (BSet i)
  then show ?thesis using bitset_single_spec(1) [OF w b] ok by (simp add: bitset_call_def set_after_def set_allowed_def bitset_abs_def)
next
  case (BClear i)
  then show ?thesis using bitset_single_spec(2) [OF w b] ok by (simp add: bitset_call_def set_after_def set_allowed_def bitset_abs_def)
next
  case (BFlip i)
  then show ?thesis using bitset_single_spec(3) [OF w b, of i] ok
    unfolding bitset_call_def set_after_def set_allowed_def bitset_abs_def by (simp only: bitset_op.case fst_conv)
next
  case (BSetTo i v)
  then show ?thesis using bitset_single_spec(1,2) [OF w b, of i] ok
    by (cases v) (simp_all add: bitset_call_def set_after_def set_allowed_def bitset_abs_def tda_bitset_set_to_def)
next
  case BSetAll
  then show ?thesis using bitset_set_all_spec [OF w b] by (simp add: bitset_call_def set_after_def)
next
  case BClearAll
  then show ?thesis using bitset_clear_all_spec [OF w b] by (simp add: bitset_call_def set_after_def)
next
  case BFlipAll
  then show ?thesis using bitset_flip_all_spec [OF w b] by (simp add: bitset_call_def set_after_def)
qed

lemma bitset_step_refines:
  assumes b: "bitset_ok inv owned' w b" and ok: "set_allowed op (bitset_abs w b)"
  shows "\<exists>st w' b'. bitset_step op w b = Some (st, w', b') \<and> bitset_ok inv owned' w' b' \<and> bitset_frame w b w' b'
    \<and> call_refines set_step op st (bitset_abs w b) (bitset_abs w' b')"
  using bitset_call_spec [OF _ _ ok] b
  by (fastforce simp: bitset_ok_def bitset_step_def bitset_frame_def bs_updated_def call_refines_def set_step_def bitset_abs_def)

end

lemma bitset_frame_refl: "bitset_frame w b w b"
  by (simp add: bitset_frame_def frame_refl)

lemma bitset_frame_trans: "bitset_frame w b w1 b1 \<Longrightarrow> bitset_frame w1 b1 w2 b2 \<Longrightarrow> bitset_frame w b w2 b2"
  by (auto simp: bitset_frame_def intro: frame_trans)

sublocale allocator \<subseteq> bitset_calls: refined_calls bitset_step "bitset_ok inv owned" bitset_frame bitset_abs set_allowed set_step
  by unfold_locales (blast intro: bitset_frame_refl bitset_frame_trans bitset_step_refines)+

context allocator
begin

lemmas bitset_run_refines = bitset_calls.run_refines

end

text \<open>The four operations that combine one set with another.\<close>

datatype bitset_binop = BUnion | BIntersect | BDifference | BSymmetric

definition bitset_combine :: "bitset_binop \<Rightarrow> 's world \<Rightarrow> 's bitset \<Rightarrow> 's bitset \<Rightarrow> 's world option" where
  "bitset_combine op = (case op of BUnion \<Rightarrow> tda_bitset_union | BIntersect \<Rightarrow> tda_bitset_intersect
      | BDifference \<Rightarrow> tda_bitset_difference | BSymmetric \<Rightarrow> tda_bitset_symmetric_difference)"

definition set_combine :: "bitset_binop \<Rightarrow> nat set \<Rightarrow> nat set \<Rightarrow> nat set" where
  "set_combine op A B = (case op of BUnion \<Rightarrow> A \<union> B | BIntersect \<Rightarrow> A \<inter> B | BDifference \<Rightarrow> A - B | BSymmetric \<Rightarrow> (A - B) \<union> (B - A))"

lemma set_combine_collect:
  "set_combine op A B = {i. (case op of BUnion \<Rightarrow> i \<in> A \<or> i \<in> B | BIntersect \<Rightarrow> i \<in> A \<and> i \<in> B
     | BDifference \<Rightarrow> i \<in> A \<and> i \<notin> B | BSymmetric \<Rightarrow> (i \<in> A) \<noteq> (i \<in> B))}"
  by (cases op) (auto simp: set_combine_def)

context allocator
begin

lemma bitset_combine_spec:
  assumes w: "inv w" and a: "bs_inv owned' w a" and b: "bs_inv owned'' w b" and n: "bs_nbits a = bs_nbits b"
    and apart: "bs_blocks a \<inter> bs_blocks b = {} \<or> b = a"
  shows "\<exists>w'. bitset_combine op w a b = Some w' \<and> inv w' \<and> bs_updated owned' w a w' (set_combine op (bits w a) (bits w b))"
proof (cases op)
  case BUnion
  then show ?thesis
    using bs_pairwise_spec [OF w a b n apart, of "\<lambda>x y. x OR y" "\<lambda>p q. p \<or> q"]
    by (simp add: bitset_combine_def tda_bitset_union_def bit_simps set_combine_collect)
next
  case BIntersect
  then show ?thesis
    using bs_pairwise_spec [OF w a b n apart, of "\<lambda>x y. x AND y" "\<lambda>p q. p \<and> q"]
    by (simp add: bitset_combine_def tda_bitset_intersect_def bit_simps set_combine_collect)
next
  case BDifference
  then show ?thesis
    using bs_pairwise_spec [OF w a b n apart, of "\<lambda>x y. x AND NOT y" "\<lambda>p q. p \<and> \<not> q"]
    by (simp add: bitset_combine_def tda_bitset_difference_def bit_simps set_combine_collect)
next
  case BSymmetric
  then show ?thesis
    using bs_pairwise_spec [OF w a b n apart, of "\<lambda>x y. x XOR y" "\<lambda>p q. p \<noteq> q"]
    by (simp add: bitset_combine_def tda_bitset_symmetric_difference_def bit_simps set_combine_collect)
qed

end

end
