(* ===== verification/Tda_Container_Properties.thy ===== *)
theory Tda_Container_Properties
  imports Tda_Queue Tda_Stack Tda_PQueue Tda_Arr Tda_Bitset_Calls Tda_Default
begin

text \<open>
  The properties of the deque, its adapters, the fixed array and the bitset: runs of calls
  refine runs on a sequence, a queue, a stack, a bag and a set; queues drain in order; spans
  round trip; and what the scans and the operations on two sets find.
\<close>

section \<open>Objects for the instances\<close>

text \<open>\<open>tda_cmp_u8\<close> on elements of one byte; a comparator and an allocator priority queues can use.\<close>

definition cmp_first :: "byte list cmp_fn" where
  "cmp_first a b = cmp_uint (hd a) (hd b)"

interpretation first_byte: comparator cmp_first
  by unfold_locales (unfold cmp_first_def, rule uint.cmp_flip, erule (1) uint.cmp_trans)

interpretation bump_ordered: ordered_allocator "tda_al_default bump_libc (Base 8)" bump_ok libc_owned cmp_first
  by unfold_locales

definition box_world :: "nat world" where
  "box_world = empty_world\<lparr>heap := [
     Base 256 \<mapsto> replicate 48 0, Base 320 \<mapsto> [3, 4, 0, 0, 1, 2], Base 336 \<mapsto> replicate 8 0,
     Base 352 \<mapsto> replicate 40 0, Base 400 \<mapsto> [9, 4, 7], Base 416 \<mapsto> replicate 8 0, Base 432 \<mapsto> replicate 16 0,
     Base 448 \<mapsto> replicate 32 0, Base 480 \<mapsto> [5, 6], Base 496 \<mapsto> replicate 32 0, Base 528 \<mapsto> [8, 1, 2],
     Base 544 \<mapsto> replicate 32 0, Base 576 \<mapsto> [5, 0, 0, 0, 0, 0, 0, 0], Base 592 \<mapsto> [0, 0, 0, 0]]\<rparr>"

text \<open>A deque whose two elements wrap around, a queue around it, a heap, two arrays and a bitset.\<close>

definition box_deque :: "nat deque" where
  "box_deque = \<lparr>deque_self = Base 256, deque_data = Some (Base 320), deque_len = 2, deque_cap = 3, deque_head = 2,
     deque_elem_size = 2, deque_al = c_heap\<rparr>"

definition box_queue :: "nat queue" where
  "box_queue = \<lparr>queue_self = Base 336, queue_deque = box_deque\<rparr>"

definition box_vec :: "nat vec" where
  "box_vec = \<lparr>vec_self = Base 352, vec_data = Some (Base 400), vec_len = 3, vec_cap = 3, vec_elem_size = 1, vec_al = c_heap\<rparr>"

definition box_stack :: "nat stack" where
  "box_stack = \<lparr>stack_self = Base 416, stack_vec = box_vec\<rparr>"

definition box_pqueue :: "nat pqueue" where
  "box_pqueue = \<lparr>pqueue_self = Base 432, pqueue_vec = box_vec, pqueue_cmp = cmp_first\<rparr>"

definition box_arr :: "nat \<Rightarrow> nat \<Rightarrow> nat \<Rightarrow> nat arr" where
  "box_arr self data len = \<lparr>arr_self = Base self, arr_data = Some (Base data), arr_len = len, arr_elem_size = 1, arr_al = c_heap\<rparr>"

definition box_bitset :: "nat bitset" where
  "box_bitset = \<lparr>bs_self = Base 544, bs_words = Some (Base 576), bs_nbits = 10, bs_nwords = 1, bs_al = c_heap\<rparr>"

definition box_span :: tda_Span where
  "box_span = \<lparr>sp_data = Some (Base 592, 0), sp_len = 2, sp_elem_size = 2\<rparr>"

lemmas box_defs = box_world_def empty_world_def libc_owned_def block_at_def PTRDIFF_MAX_num SIZE_MAX_num

lemma box_world_ok: "bump_ok box_world"
  by (simp add: bump_ok_def box_defs)

lemma box_deque_ok: "deque_inv libc_owned box_world box_deque" "deque_al box_deque = c_heap"
  "deque_abs box_world box_deque = (2, [[1, 2], [3, 4]])"
  by (simp_all add: box_deque_def deque_inv_def box_defs sizeof_tda_Deque_def deque_abs_def deque_list_def deque_ring_def
      deque_cells_def elems.simps rotate_drop_take)

lemma box_queue_ok: "queue_inv libc_owned box_world box_queue" "deque_al (queue_deque box_queue) = c_heap"
  "queue_abs box_world box_queue = (2, [[1, 2], [3, 4]])" "queue_list box_world box_queue = [[1, 2], [3, 4]]"
  using box_deque_ok by (simp_all add: box_queue_def queue_inv_def adapter_inv_def deque_blocks_def box_deque_def
      box_defs sizeof_tda_Queue_def queue_abs_def queue_list_def deque_abs_def)

lemma box_vec_ok: "vec_inv libc_owned box_world box_vec" "vec_al box_vec = c_heap" "vec_list box_world box_vec = [[9], [4], [7]]"
  by (simp_all add: box_vec_def vec_inv_def box_defs sizeof_tda_Vec_def vec_list_def vec_cells_def elems.simps)

lemma box_stack_ok: "stack_inv libc_owned box_world box_stack" "vec_al (stack_vec box_stack) = c_heap"
  "stack_abs box_world box_stack = (1, [[9], [4], [7]])"
  using box_vec_ok by (simp_all add: box_stack_def stack_inv_def adapter_inv_def vec_blocks_def box_vec_def
      box_defs sizeof_tda_Stack_def stack_abs_def vec_abs_def)

lemma box_pqueue_ok: "pqueue_inv libc_owned box_world box_pqueue" "vec_al (pqueue_vec box_pqueue) = c_heap"
  "pqueue_cmp box_pqueue = cmp_first" "pqueue_list box_world box_pqueue = [[9], [4], [7]]"
  "pqueue_abs box_world box_pqueue = (1, {#[9], [4], [7]#})"
proof -
  have "is_heap_list cmp_first [[9], [4], [7]]"
    by (auto simp: is_heap_list_def heap_from_def par_def less_Suc_eq numeral_3_eq_3 cmp_first_def cmp_uint_def c_bool_def)
  then show "pqueue_inv libc_owned box_world box_pqueue"
    using box_vec_ok by (simp add: box_pqueue_def pqueue_inv_def adapter_inv_def vec_blocks_def box_vec_def
        box_defs sizeof_tda_PQueue_def)
qed (use box_vec_ok in \<open>simp_all add: box_pqueue_def pqueue_list_def pqueue_abs_def box_vec_def\<close>)

lemma box_arr_ok: "arr_inv libc_owned box_world (box_arr 448 480 2)" "arr_inv libc_owned box_world (box_arr 496 528 3)"
  "arr_blocks (box_arr 448 480 2) \<inter> arr_blocks (box_arr 496 528 3) = {}"
  "arr_list box_world (box_arr 448 480 2) = [[5], [6]]" "arr_al (box_arr a b n) = c_heap" "arr_elem_size (box_arr a b n) = 1"
  by (simp_all add: box_arr_def arr_inv_def box_defs sizeof_tda_Arr_def arr_blocks_def arr_list_def elems.simps)

lemma box_bitset_ok: "bs_inv libc_owned box_world box_bitset" "bits box_world box_bitset = {0, 2}" "bs_nbits box_bitset = 10"
proof -
  have l: "bs_list box_world box_bitset = [5]"
    by (simp add: bs_list_def box_bitset_def box_defs elems.simps bytes_word_def)
  have five: "(5 :: 64 word) = 1 OR push_bit 2 1" by simp
  have "bit (5 :: 64 word) n \<longleftrightarrow> n = 0 \<or> n = 2" for n
    unfolding five bit_or_iff bit_push_bit_iff bit_1_iff by auto
  then have "i \<in> wbits [5] \<longleftrightarrow> i = 0 \<or> i = 2" for i
    using wbits_word [of 0 "[5]" i] wbits_less [of i "[5]"] by (cases "i < 64") auto
  then show b: "bits box_world box_bitset = {0, 2}" unfolding bits_def l by blast
  show "bs_inv libc_owned box_world box_bitset"
    unfolding bs_inv_def b by (simp add: bs_raw_def box_bitset_def box_defs sizeof_tda_BitSet_def words_for_def WORD_BITS_def)
  show "bs_nbits box_bitset = 10" by (simp add: box_bitset_def)
qed

lemma box_span_ok: "span_ok box_world box_span" "span_elems box_world box_span = [[0, 0], [0, 0]]"
  by (simp_all add: span_ok_def box_span_def box_defs span_elems_def span_bytes_def slice_def elems.simps)

section \<open>Taking everything out\<close>

text \<open>\<open>front\<close> and \<open>pop\<close> in turn, \<open>n\<close> times, and what was read at each front.\<close>

fun queue_drain :: "nat \<Rightarrow> 's world \<Rightarrow> 's queue \<Rightarrow> (byte list list \<times> 's queue) option" where
  "queue_drain 0 w q = Some ([], q)"
| "queue_drain (Suc n) w q = do {
     (p, off) \<leftarrow> tda_queue_front q;
     x \<leftarrow> mem_read w p off (deque_elem_size (queue_deque q));
     q1 \<leftarrow> tda_queue_pop q;
     (xs, q2) \<leftarrow> queue_drain n w q1;
     Some (x # xs, q2)
   }"

lemma queue_serve:
  assumes q: "queue_inv owned w q" and l: "queue_list w q = x # xs"
  obtains p off q' where "tda_queue_front q = Some (p, off)" "mem_read w p off (deque_elem_size (queue_deque q)) = Some x"
    "tda_queue_pop q = Some q'" "queue_inv owned w q'" "queue_list w q' = xs"
proof -
  let ?d = "queue_deque q"
  note d = queue_inv_deque [OF q]
  have n: "0 < deque_len ?d" using l by (simp add: queue_list_def flip: length_deque_list [OF d])
  then have c: "0 < deque_cap ?d" using deque_len_le [OF d] by simp
  obtain p off where r: "deque_elem_at ?d 0 = Some (p, off)" "mem_read w p off (deque_elem_size ?d) = Some (deque_ring w ?d ! 0)"
    by (rule deque_elem_reads [OF d c])
  have "deque_ring w ?d ! 0 = deque_list w ?d ! 0" using n by (simp add: deque_list_def)
  then have "deque_ring w ?d ! 0 = x" using l by (simp add: queue_list_def)
  moreover obtain d' where d': "tda_deque_pop_front ?d = Some d'" "deque_updated owned w ?d w d' (tl (deque_list w ?d))"
    using deque_pop_front_spec [OF d n] by blast
  moreover have "queue_inv owned w (q\<lparr>queue_deque := d'\<rparr>)"
    using deque_box.adapter_inv_step(1) [of sizeof_tda_Queue owned w "queue_self q" ?d w d'] q d'(2)
    by (simp add: queue_inv_def deque_updated_def deque_frame_def)
  ultimately show ?thesis
    using that [of p off "q\<lparr>queue_deque := d'\<rparr>"] r n l
    by (simp add: tda_queue_front_def tda_queue_pop_def tda_deque_len_def tda_deque_front_def assert_deque_ok [OF d]
        queue_list_def deque_updated_def)
qed

text \<open>\<open>top\<close> and \<open>pop\<close> of a priority queue in turn.\<close>

fun pqueue_drain :: "nat \<Rightarrow> 's world \<Rightarrow> 's pqueue \<Rightarrow> (byte list list \<times> 's world \<times> 's pqueue) option" where
  "pqueue_drain 0 w q = Some ([], w, q)"
| "pqueue_drain (Suc n) w q = do {
     (p, off) \<leftarrow> tda_pqueue_top q;
     x \<leftarrow> mem_read w p off (vec_elem_size (pqueue_vec q));
     (w1, q1) \<leftarrow> tda_pqueue_pop w q;
     (xs, w2, q2) \<leftarrow> pqueue_drain n w1 q1;
     Some (x # xs, w2, q2)
   }"

lemma pqueue_top_reads:
  assumes q: "pqueue_inv owned w q" and l: "pqueue_list w q \<noteq> []"
  obtains p off where "tda_pqueue_top q = Some (p, off)" "mem_read w p off (vec_elem_size (pqueue_vec q)) = Some (hd (pqueue_list w q))"
proof -
  let ?v = "pqueue_vec q"
  note v = pqueue_inv_vec [OF q]
  have n: "0 < vec_len ?v" using l length_vec_list [OF v] by (metis length_greater_0_conv pqueue_list_def)
  then have c: "0 < vec_cap ?v" using vec_inv_len_le [OF v] by simp
  obtain p bs where p: "vec_data ?v = Some p" "heap w p = Some bs" "length bs = vec_cap ?v * vec_elem_size ?v"
    "vec_cells w ?v = elems (vec_elem_size ?v) bs"
    using v c by (auto simp: vec_inv_def block_at_def vec_cells_def split: option.splits)
  have es: "0 < vec_elem_size ?v" using v by (simp add: vec_inv_def)
  have "mem_read w p (0 * vec_elem_size ?v) (vec_elem_size ?v) = Some (elems (vec_elem_size ?v) bs ! 0)"
    by (rule read_elem [OF p(2,3) es c])
  moreover have "elems (vec_elem_size ?v) bs ! 0 = hd (pqueue_list w q)"
    using l n p(4) by (simp add: pqueue_list_def vec_list_def hd_conv_nth)
  moreover have "tda_pqueue_top q = Some (p, 0 * vec_elem_size ?v)"
    using n assert_vec_ok [OF v] vec_offset_ok [OF v p(1), of 0]
    by (simp add: tda_pqueue_top_def tda_vec_len_def tda_vec_front_def)
  ultimately show ?thesis using that by simp
qed

context ordered_allocator
begin

lemma pqueue_drain_spec:
  "inv w \<Longrightarrow> pqueue_inv owned w q \<Longrightarrow> pqueue_cmp q = cmp \<Longrightarrow> length (pqueue_list w q) = n \<Longrightarrow>
    \<exists>xs w' q'. pqueue_drain n w q = Some (xs, w', q') \<and> inv w' \<and> pqueue_inv owned w' q' \<and> pqueue_list w' q' = []
      \<and> mset xs = mset (pqueue_list w q) \<and> sorted_by (cmp_desc cmp) xs"
proof (induction n arbitrary: w q)
  case 0
  then show ?case by (simp add: sorted_by_def)
next
  case (Suc n)
  have ne: "pqueue_list w q \<noteq> []" using Suc.prems(4) by auto
  obtain p off where t: "tda_pqueue_top q = Some (p, off)"
    "mem_read w p off (vec_elem_size (pqueue_vec q)) = Some (hd (pqueue_list w q))"
    by (rule pqueue_top_reads [OF Suc.prems(2) ne])
  obtain w1 v1 where o: "tda_pqueue_pop w q = Some (w1, q\<lparr>pqueue_vec := v1\<rparr>)" "inv w1" "vec_inv owned w1 v1"
    "vec_frame w (pqueue_vec q) w1 v1" "is_heap_list cmp (vec_list w1 v1)"
    "mset (vec_list w1 v1) = mset (pqueue_list w q) - {#hd (pqueue_list w q)#}"
    "\<forall>y \<in> set (pqueue_list w q). cmp y (hd (pqueue_list w q)) \<le> 0"
    using pqueue_pop_spec [OF Suc.prems(1-3) ne] by blast
  let ?q = "q\<lparr>pqueue_vec := v1\<rparr>" and ?x = "hd (pqueue_list w q)"
  have m: "mset (pqueue_list w q) = add_mset ?x (mset (vec_list w1 v1))" using o(6) ne by simp
  then have len: "length (pqueue_list w1 ?q) = n" using Suc.prems(4) by (metis Suc_inject length_Cons mset.simps(2) pqueue_list_def
        pqueue.select_convs(2) pqueue.simps(2) pqueue.surjective pqueue.update_convs(2) size_mset)
  have q1: "pqueue_inv owned w1 ?q"
    using pqueue_step_inv(1) [OF Suc.prems(2) o(3,4)] o(5) Suc.prems(3) by simp
  obtain xs w2 q2 where r: "pqueue_drain n w1 ?q = Some (xs, w2, q2)" "inv w2" "pqueue_inv owned w2 q2"
    "pqueue_list w2 q2 = []" "mset xs = mset (pqueue_list w1 ?q)" "sorted_by (cmp_desc cmp) xs"
    using Suc.IH [OF o(2) q1 _ len] Suc.prems(3) by auto
  have e: "mset xs = mset (vec_list w1 v1)" using r(5) by (simp add: pqueue_list_def)
  then have "set xs \<subseteq> set (pqueue_list w q)" using m by (metis insert_subset set_mset_add_mset_insert set_mset_mset subset_insertI)
  then have "sorted_by (cmp_desc cmp) (?x # xs)" using r(6) o(7) by (auto simp: sorted_by_def cmp_desc_def)
  then show ?case using t o(1) r(1-4) e m by simp
qed

end

section \<open>Properties\<close>

text \<open>C2: a run of calls on a deque, over any allocator and however many of its requests are refused,
  never aborts, keeps the ring well formed wherever its first element sits, leaves foreign blocks
  alone, and the elements are those of the abstract sequence after the calls that succeeded.\<close>

theorem deque_refines_sequence:
  assumes A: "object_allocator al I owned" and w: "I w" and d: "deque_inv owned w d" "deque_al d = al"
    and ok: "calls_allowed dseq_allowed dseq_step ops (deque_abs w d)"
  shows "\<exists>sts w' d'. calls_run deque_step ops w d = Some (sts, w', d') \<and> I w' \<and> deque_inv owned w' d' \<and> deque_frame w d w' d'
    \<and> abstract_run dseq_step ops sts (deque_abs w d) (deque_abs w' d')"
  using object_allocator.deque_run_refines [OF A, of w d ops] w d ok by (simp add: deque_ok_def) blast

theorem deque_refines_sequence_witness:
  "\<exists>sts w' d'. calls_run deque_step [DPushFront [7, 8], DInsert 1 [5, 6], DPopBack] box_world box_deque = Some (sts, w', d')
     \<and> abstract_run dseq_step [DPushFront [7, 8], DInsert 1 [5, 6], DPopBack] sts (2, [[1, 2], [3, 4]]) (deque_abs w' d')"
  using deque_refines_sequence [OF bump_object.object_allocator_axioms box_world_ok box_deque_ok(1,2),
      of "[DPushFront [7, 8], DInsert 1 [5, 6], DPopBack]"]
  by (simp add: box_deque_ok dseq_allowed_def dseq_step_def) blast

text \<open>C13: a run of calls on a queue, over any allocator, never aborts, keeps it well formed and leaves
  foreign blocks alone; what joins goes to the back, what leaves comes from the front.\<close>

theorem queue_is_fifo:
  assumes A: "object_allocator al I owned" and w: "I w" and q: "queue_inv owned w q" "deque_al (queue_deque q) = al"
    and ok: "calls_allowed fifo_allowed fifo_step ops (queue_abs w q)"
  shows "\<exists>sts w' q'. calls_run queue_step ops w q = Some (sts, w', q') \<and> I w' \<and> queue_inv owned w' q' \<and> queue_frame w q w' q'
    \<and> abstract_run fifo_step ops sts (queue_abs w q) (queue_abs w' q')"
  using object_allocator.queue_run_refines [OF A, of w q ops] w q ok by (simp add: queue_ok_def) blast

theorem queue_is_fifo_witness:
  "\<exists>sts w' q'. calls_run queue_step [Enqueue [7, 8], Dequeue, Enqueue [5, 6]] box_world box_queue = Some (sts, w', q')
     \<and> abstract_run fifo_step [Enqueue [7, 8], Dequeue, Enqueue [5, 6]] sts (2, [[1, 2], [3, 4]]) (queue_abs w' q')"
  using queue_is_fifo [OF bump_object.object_allocator_axioms box_world_ok box_queue_ok(1,2), of "[Enqueue [7, 8], Dequeue, Enqueue [5, 6]]"]
  by (simp add: box_queue_ok fifo_allowed_def fifo_step_def) blast

text \<open>C14: whoever waits in a queue is served: reading the front and popping as often as the queue is
  long never aborts, reads every element in the order they stand, and leaves the queue empty.\<close>

theorem queue_serves_everyone:
  "queue_inv owned w q \<Longrightarrow> \<exists>q'. queue_drain (length (queue_list w q)) w q = Some (queue_list w q, q')
     \<and> queue_inv owned w q' \<and> queue_list w q' = []"
proof (induction "queue_list w q" arbitrary: q)
  case Nil
  then show ?case by (metis list.size(3) queue_drain.simps(1))
next
  case (Cons x xs)
  obtain p off q1 where s: "tda_queue_front q = Some (p, off)" "mem_read w p off (deque_elem_size (queue_deque q)) = Some x"
    "tda_queue_pop q = Some q1" "queue_inv owned w q1" "queue_list w q1 = xs"
    by (rule queue_serve [OF Cons.prems Cons.hyps(2) [symmetric]])
  from Cons.hyps(1) [OF s(5) [symmetric] s(4)] show ?case using s by (auto simp flip: Cons.hyps(2))
qed

theorem queue_serves_everyone_witness:
  "\<exists>q'. queue_drain 2 box_world box_queue = Some ([[1, 2], [3, 4]], q') \<and> queue_list box_world q' = []"
  using queue_serves_everyone [OF box_queue_ok(1)] by (simp add: box_queue_ok numeral_2_eq_2) blast

text \<open>C18: a run of calls on a stack, over any allocator, never aborts, keeps it well formed and leaves
  foreign blocks alone; what was pushed last is popped first.\<close>

theorem stack_is_lifo:
  assumes A: "object_allocator al I owned" and w: "I w" and q: "stack_inv owned w q" "vec_al (stack_vec q) = al"
    and ok: "calls_allowed lifo_allowed lifo_step ops (stack_abs w q)"
  shows "\<exists>sts w' q'. calls_run stack_step ops w q = Some (sts, w', q') \<and> I w' \<and> stack_inv owned w' q' \<and> stack_frame w q w' q'
    \<and> abstract_run lifo_step ops sts (stack_abs w q) (stack_abs w' q')"
  using object_allocator.stack_run_refines [OF A, of w q ops] w q ok by (simp add: stack_ok_def) blast

theorem stack_is_lifo_witness:
  "\<exists>sts w' q'. calls_run stack_step [SPush [1], SPop, SPop] box_world box_stack = Some (sts, w', q')
     \<and> abstract_run lifo_step [SPush [1], SPop, SPop] sts (1, [[9], [4], [7]]) (stack_abs w' q')"
  using stack_is_lifo [OF bump_object.object_allocator_axioms box_world_ok box_stack_ok(1,2), of "[SPush [1], SPop, SPop]"]
  by (simp add: box_stack_ok lifo_allowed_def lifo_step_def) blast

text \<open>C11: a run of calls on a priority queue, over any allocator and any consistent comparator, never
  aborts, keeps the heap and leaves foreign blocks alone; it is a bag from which each pop takes an
  element no other is greater than.\<close>

theorem pqueue_takes_a_greatest:
  assumes A: "ordered_allocator al I owned cmp" and w: "I w"
    and q: "pqueue_inv owned w q" "vec_al (pqueue_vec q) = al" "pqueue_cmp q = cmp"
    and ok: "calls_allowed pq_allowed (pq_rel cmp) ops (pqueue_abs w q)"
  shows "\<exists>sts w' q'. calls_run pq_step ops w q = Some (sts, w', q') \<and> I w' \<and> pqueue_inv owned w' q' \<and> pqueue_frame w q w' q'
    \<and> abstract_run (pq_rel cmp) ops sts (pqueue_abs w q) (pqueue_abs w' q')"
  using ordered_allocator.pqueue_run_refines [OF A, of w q ops] w q ok by (simp add: pqueue_ok_def) blast

theorem pqueue_takes_a_greatest_witness:
  "\<exists>sts w' q'. calls_run pq_step [PPush [8], PPop] box_world box_pqueue = Some (sts, w', q')
     \<and> abstract_run (pq_rel cmp_first) [PPush [8], PPop] sts (1, {#[9], [4], [7]#}) (pqueue_abs w' q')"
  using pqueue_takes_a_greatest [OF bump_ordered.ordered_allocator_axioms box_world_ok box_pqueue_ok(1-3), of "[PPush [8], PPop]"]
  by (simp add: box_pqueue_ok pq_allowed_def pq_rel_def) blast

text \<open>C17: reading the top and popping as often as a priority queue is long gives all its elements,
  greatest first, and leaves it empty.\<close>

theorem pqueue_drains_in_order:
  assumes A: "ordered_allocator al I owned cmp" and w: "I w" and q: "pqueue_inv owned w q" "pqueue_cmp q = cmp"
  shows "\<exists>xs w' q'. pqueue_drain (length (pqueue_list w q)) w q = Some (xs, w', q') \<and> pqueue_list w' q' = []
    \<and> mset xs = mset (pqueue_list w q) \<and> sorted_by (cmp_desc cmp) xs"
  using ordered_allocator.pqueue_drain_spec [OF A w q refl] by blast

theorem pqueue_drains_in_order_witness:
  "\<exists>xs w' q'. pqueue_drain 3 box_world box_pqueue = Some (xs, w', q') \<and> mset xs = {#[9], [4], [7]#}"
  using pqueue_drains_in_order [OF bump_ordered.ordered_allocator_axioms box_world_ok box_pqueue_ok(1,3)]
  by (simp add: box_pqueue_ok numeral_3_eq_3) blast

text \<open>a deque made from a span and copied out to a span of the same shape gives the elements back;
  a refusal on the way leaves no block behind.\<close>

lemma deque_span_round_trip:
  assumes A: "object_allocator al I owned" and w: "I w" and s: "span_ok w s"
  shows "\<exists>st r w'. tda_deque_from_span s al w = Some (st, r, w') \<and> (case r of
      None \<Rightarrow> st = TDA_STATUS_ERR_NO_MEM \<and> heap w' = heap w
    | Some d \<Rightarrow> \<exists>w2. tda_deque_copy_to_span w' d s = Some w2 \<and> span_elems w2 s = span_elems w s)"
proof -
  have al: "allocator al I owned" using A by (simp add: object_allocator_def)
  obtain st r w' where c: "tda_deque_from_span s al w = Some (st, r, w')" "I w'" "deque_created owned al w st r w'"
    "\<And>d. r = Some d \<Longrightarrow> deque_list w' d = span_elems w s \<and> deque_elem_size d = sp_elem_size s"
    using object_allocator.deque_from_span_spec [OF A w s] by blast
  show ?thesis
  proof (cases r)
    case None
    then show ?thesis using c(1,3) by (simp add: deque_created_def)
  next
    case (Some d)
    have d: "deque_inv owned w' d" "\<forall>q \<in> deque_blocks d. heap w q = None" "\<forall>q. q \<notin> deque_blocks d \<longrightarrow> heap w' q = heap w q"
      using c(3) Some by (simp_all add: deque_created_def)
    have apart: "q \<notin> deque_blocks d" if "sp_data s = Some (q, off)" for q off
      using d(2) s that by (auto simp: span_ok_def)
    have s': "span_ok w' s" using s d(3) apart by (auto simp: span_ok_def split: option.splits)
    have n: "sp_len s = deque_len d"
      using c(4) [OF Some] length_span_elems [OF s] length_deque_list [OF d(1)] by simp
    have es: "sp_elem_size s = deque_elem_size d" using c(4) [OF Some] by simp
    obtain w2 where "tda_deque_copy_to_span w' d s = Some w2" "span_elems w2 s = deque_list w' d"
      using deque_copy_to_span_spec [OF d(1) al c(2) s' es n] apart by blast
    then show ?thesis using c(1) Some c(4) [OF Some] by auto
  qed
qed

text \<open>C19: a copy assignment between arrays of different lengths gives the target the length and the
  elements of the source, or fails and leaves target and memory as they were.\<close>

theorem arr_copy_assign_copies:
  assumes A: "allocator al I owned" and w: "I w" and self: "arr_inv owned' w self"
    and other: "arr_inv owned w other" "arr_al other = al" and es: "arr_elem_size self = arr_elem_size other"
    and apart: "arr_blocks self \<inter> arr_blocks other = {}"
  shows "\<exists>st w' other'. tda_arr_copy_assign w self other = Some (st, w', other') \<and> I w'
    \<and> (if st = TDA_STATUS_OK
       then arr_inv owned w' other' \<and> arr_frame w other w' other' \<and> arr_list w' other' = arr_list w self
       else other' = other \<and> heap w' = heap w)"
  using allocator.arr_copy_assign_spec [OF A w self other es apart] unfolding arr_updated_def
  by (metis (mono_tags))

theorem arr_copy_assign_copies_witness:
  "\<exists>st w' a'. tda_arr_copy_assign box_world (box_arr 448 480 2) (box_arr 496 528 3) = Some (st, w', a')
     \<and> (st = TDA_STATUS_OK \<longrightarrow> arr_list w' a' = [[5], [6]])"
proof -
  have "arr_elem_size (box_arr 448 480 2) = arr_elem_size (box_arr 496 528 3)" by (simp add: box_arr_ok)
  from arr_copy_assign_copies [OF bump.allocator_axioms box_world_ok box_arr_ok(1,2) box_arr_ok(5) this box_arr_ok(3)]
  show ?thesis by (auto simp: box_arr_ok split: if_splits)
qed

text \<open>C12: a run of calls that set, clear and flip bits, one or all, is that run on a set of indices; it
  never aborts and the tail of the last word stays clear.\<close>

theorem bitset_refines_set:
  assumes A: "allocator al I owned" and w: "I w" and b: "bs_inv owned w b"
    and ok: "calls_allowed set_allowed set_step ops (bitset_abs w b)"
  shows "\<exists>sts w'. calls_run bitset_step ops w b = Some (sts, w', b) \<and> I w' \<and> bs_inv owned w' b
    \<and> frame w (bs_blocks b) w' (bs_blocks b) \<and> abstract_run set_step ops sts (bitset_abs w b) (bitset_abs w' b)"
  using allocator.bitset_run_refines [OF A, of w b ops] w b ok by (auto simp: bitset_ok_def bitset_frame_def)

theorem bitset_refines_set_witness:
  "\<exists>sts w'. calls_run bitset_step [BSet 9, BFlip 0, BFlipAll] box_world box_bitset = Some (sts, w', box_bitset)
     \<and> abstract_run set_step [BSet 9, BFlip 0, BFlipAll] sts (10, {0, 2}) (bitset_abs w' box_bitset)"
  using bitset_refines_set [OF bump.allocator_axioms box_world_ok box_bitset_ok(1), of "[BSet 9, BFlip 0, BFlipAll]"]
  by (simp add: box_bitset_ok bitset_abs_def set_allowed_def set_step_def) blast

text \<open>C16: union, intersection, difference and symmetric difference, word by word, are those of the sets,
  also when a set is combined with itself; the second set is only read.\<close>

theorem bitset_combines_sets:
  assumes A: "allocator al I owned" and w: "I w" and a: "bs_inv owned w a" and b: "bs_inv owned' w b"
    and n: "bs_nbits a = bs_nbits b" and apart: "b = a \<or> bs_blocks a \<inter> bs_blocks b = {}"
  shows "\<exists>w'. bitset_combine op w a b = Some w' \<and> I w' \<and> bs_inv owned w' a \<and> frame w (bs_blocks a) w' (bs_blocks a)
    \<and> bits w' a = set_combine op (bits w a) (bits w b)"
  using allocator.bitset_combine_spec [OF A w a b n, of op] apart by (auto simp: bs_updated_def)

theorem bitset_combines_sets_witness:
  "\<exists>w'. bitset_combine BSymmetric box_world box_bitset box_bitset = Some w' \<and> bits w' box_bitset = {}"
  using bitset_combines_sets [OF bump.allocator_axioms box_world_ok box_bitset_ok(1) box_bitset_ok(1) refl, of BSymmetric]
  by (simp add: set_combine_def) blast

text \<open>C15: \<open>find_next\<close> always returns, and answers the least member of the set from an index on, or that
  there is none, however far the index lies.\<close>

theorem bitset_find_next_is_least:
  assumes b: "bs_inv owned w b"
  shows "\<exists>r. tda_bitset_find_next w b from = Some r \<and> is_next (bits w b) from r"
  by (rule bitset_find_next_spec [OF b])

theorem bitset_find_next_is_least_witness: "tda_bitset_find_next box_world box_bitset 1 = Some (Some 2)"
  using bitset_find_next_is_least [OF box_bitset_ok(1), of 1] by (auto simp: box_bitset_ok is_next_def split: option.splits)

text \<open>\<open>count\<close> gives the size of the set: no sum of the words' counts wraps around.\<close>

lemma bitset_count_is_card:
  assumes b: "bs_inv owned w b"
  shows "tda_bitset_count w b = Some (card (bits w b))"
  by (rule bitset_count_spec [OF b])

end
