(* ===== verification/Tda_List.thy ===== *)
theory Tda_List
  imports Tda_Calls Tda_Cmp
begin

text \<open>
  \<open>src/ds/list.c\<close>: the doubly linked list. A node is a block of its own: its element is the
  bytes from offset 16 on, its two links are kept in a typed store beside the heap (\<open>nodes\<close>),
  as the contexts of the allocators are; a node that is freed leaves both. \<open>llist\<close> is
  \<open>struct tda_List\<close> with its own address. Operations thread the memory \<open>w\<close> and the links
  \<open>ns\<close>; those that only relink thread the links alone.

  A walk along the links need not end, so every loop over nodes is a \<open>partial_function\<close>:
  \<open>None\<close> is also a loop that runs forever. \<open>len\<close> counts nodes that exist, so \<open>++len\<close> does not
  wrap around and is written \<open>+ 1\<close>.
\<close>

section \<open>The structs\<close>

record tda_ListNode =
  ln_next :: "ptr option"
  ln_prev :: "ptr option"

type_synonym nodes = "ptr \<Rightarrow> tda_ListNode option"

record 's llist =
  list_self :: ptr
  list_head :: "ptr option"
  list_tail :: "ptr option"
  list_len :: nat
  list_elem_size :: nat
  list_al :: "'s al"

definition sizeof_tda_List :: nat where
  "sizeof_tda_List = 40"

definition sizeof_tda_ListNode :: nat where
  "sizeof_tda_ListNode = 16"

definition ASSERT_LIST :: "'s llist \<Rightarrow> unit option" where
  "ASSERT_LIST l = do {
     c_assert (list_elem_size l > 0);
     c_assert ((list_len l > 0) = (list_head l \<noteq> None));
     c_assert ((list_head l \<noteq> None) = (list_tail l \<noteq> None))
   }"

definition ASSERT_NODE :: "nodes \<Rightarrow> ptr \<Rightarrow> unit option" where
  "ASSERT_NODE ns p = do {
     n \<leftarrow> ns p;
     (case ln_prev n of None \<Rightarrow> Some () | Some q \<Rightarrow> do { m \<leftarrow> ns q; c_assert (ln_next m = Some p) });
     (case ln_next n of None \<Rightarrow> Some () | Some q \<Rightarrow> do { m \<leftarrow> ns q; c_assert (ln_prev m = Some p) })
   }"

text \<open>\<open>p->next = v\<close>, \<open>p->prev = v\<close> and \<open>p->elem\<close>.\<close>

definition set_next :: "ptr \<Rightarrow> ptr option \<Rightarrow> nodes \<Rightarrow> nodes option" where
  "set_next p v ns = do { n \<leftarrow> ns p; Some (ns(p \<mapsto> n\<lparr>ln_next := v\<rparr>)) }"

definition set_prev :: "ptr \<Rightarrow> ptr option \<Rightarrow> nodes \<Rightarrow> nodes option" where
  "set_prev p v ns = do { n \<leftarrow> ns p; Some (ns(p \<mapsto> n\<lparr>ln_prev := v\<rparr>)) }"

definition node_elem :: "'s world \<Rightarrow> nat \<Rightarrow> ptr \<Rightarrow> byte list option" where
  "node_elem w es p = mem_read w p sizeof_tda_ListNode es"

section \<open>Loops over nodes\<close>

text \<open>
  \<open>node_loop\<close> runs \<open>step\<close> on each node; the step says which node comes next. \<open>node_try\<close> also
  stops at the first status that is an error. \<open>node_find\<close> stops at the first node that passes.
\<close>

partial_function (option) node_loop ::
  "(ptr \<Rightarrow> 'st \<Rightarrow> ('st \<times> ptr option) option) \<Rightarrow> ptr option \<Rightarrow> 'st \<Rightarrow> 'st option" where
  "node_loop step cur st = (case cur of
      None \<Rightarrow> Some st
    | Some p \<Rightarrow> do { (st1, nxt) \<leftarrow> step p st; node_loop step nxt st1 })"

partial_function (option) node_try ::
  "(ptr \<Rightarrow> 'st \<Rightarrow> (tda_Status \<times> 'st \<times> ptr option) option) \<Rightarrow> ptr option \<Rightarrow> 'st \<Rightarrow> (tda_Status \<times> 'st) option" where
  "node_try step cur st = (case cur of
      None \<Rightarrow> Some (TDA_STATUS_OK, st)
    | Some p \<Rightarrow> do {
        (s, st1, nxt) \<leftarrow> step p st;
        if TDA_STATUS_IS_ERR s then Some (s, st1) else node_try step nxt st1
      })"

partial_function (option) node_find :: "(ptr \<Rightarrow> bool option) \<Rightarrow> nodes \<Rightarrow> ptr option \<Rightarrow> ptr option option" where
  "node_find test ns cur = (case cur of
      None \<Rightarrow> Some None
    | Some p \<Rightarrow> do {
        b \<leftarrow> test p;
        if b then Some (Some p) else do { n \<leftarrow> ns p; node_find test ns (ln_next n) }
      })"

text \<open>The loop over an index range that returns at the first error.\<close>

primrec try_loop :: "nat list \<Rightarrow> (nat \<Rightarrow> 'st \<Rightarrow> (tda_Status \<times> 'st) option) \<Rightarrow> 'st \<Rightarrow> (tda_Status \<times> 'st) option" where
  "try_loop [] f st = Some (TDA_STATUS_OK, st)"
| "try_loop (i # is) f st = do {
     (s, st1) \<leftarrow> f i st;
     if TDA_STATUS_IS_ERR s then Some (s, st1) else try_loop is f st1
   }"

section \<open>Nodes and links\<close>

definition node_bytes :: "nat \<Rightarrow> nat" where
  "node_bytes elem_size = size_add sizeof_tda_ListNode elem_size"

definition node_new ::
  "'s al \<Rightarrow> nat \<Rightarrow> byte list \<Rightarrow> 's world \<Rightarrow> nodes \<Rightarrow> (tda_Status \<times> ptr option \<times> 's world \<times> nodes) option" where
  "node_new al elem_size val w ns = do {
     c_assert (elem_size > 0);
     (case ckd_add sizeof_tda_ListNode elem_size of
        None \<Rightarrow> Some (TDA_STATUS_ERR_NO_MEM, None, w, ns)
      | Some bytes \<Rightarrow> do {
          (r, w1) \<leftarrow> tda_alloc al w bytes;
          (case r of
             None \<Rightarrow> Some (TDA_STATUS_ERR_NO_MEM, None, w1, ns)
           | Some p \<Rightarrow> do {
               aligned \<leftarrow> tda_ptr_is_aligned (addr_of p) 16;
               c_assert aligned;
               let ns1 = ns(p \<mapsto> \<lparr>ln_next = None, ln_prev = None\<rparr>);
               w2 \<leftarrow> mem_write w1 p sizeof_tda_ListNode (take elem_size val);
               Some (TDA_STATUS_OK, Some p, w2, ns1)
             })
        })
   }"

definition node_drop :: "'s al \<Rightarrow> nat \<Rightarrow> ptr \<Rightarrow> 's world \<Rightarrow> nodes \<Rightarrow> ('s world \<times> nodes) option" where
  "node_drop al elem_size p w ns = do {
     w1 \<leftarrow> tda_dealloc al w (Some p) (node_bytes elem_size);
     Some (w1, ns(p := None))
   }"

definition link_node ::
  "'s llist \<Rightarrow> ptr \<Rightarrow> ptr option \<Rightarrow> ptr option \<Rightarrow> nodes \<Rightarrow> (nodes \<times> 's llist) option" where
  "link_node self node prev nxt ns = do {
     ns0 \<leftarrow> set_prev node prev ns;
     ns1 \<leftarrow> set_next node nxt ns0;
     (ns2, l2) \<leftarrow> (case prev of
         Some q \<Rightarrow> do { m \<leftarrow> set_next q (Some node) ns1; Some (m, self) }
       | None \<Rightarrow> Some (ns1, self\<lparr>list_head := Some node\<rparr>));
     (ns3, l3) \<leftarrow> (case nxt of
         Some q \<Rightarrow> do { m \<leftarrow> set_prev q (Some node) ns2; Some (m, l2) }
       | None \<Rightarrow> Some (ns2, l2\<lparr>list_tail := Some node\<rparr>));
     Some (ns3, l3\<lparr>list_len := list_len l3 + 1\<rparr>)
   }"

definition insert_between ::
  "'s llist \<Rightarrow> ptr option \<Rightarrow> ptr option \<Rightarrow> byte list \<Rightarrow> 's world \<Rightarrow> nodes \<Rightarrow>
    (tda_Status \<times> 's world \<times> nodes \<times> 's llist) option" where
  "insert_between self prev nxt val w ns = do {
     (st, r, w1, ns1) \<leftarrow> node_new (list_al self) (list_elem_size self) val w ns;
     (case r of
        None \<Rightarrow> Some (st, w1, ns1, self)
      | Some node \<Rightarrow> do {
          (ns2, l2) \<leftarrow> link_node self node prev nxt ns1;
          ASSERT_LIST l2;
          ASSERT_NODE ns2 node;
          Some (TDA_STATUS_OK, w1, ns2, l2)
        })
   }"

definition unlink_node :: "'s llist \<Rightarrow> ptr \<Rightarrow> nodes \<Rightarrow> (nodes \<times> 's llist) option" where
  "unlink_node self node ns = do {
     ASSERT_NODE ns node;
     c_assert (list_len self > 0);
     n \<leftarrow> ns node;
     (ns1, l1) \<leftarrow> (case ln_prev n of
         Some q \<Rightarrow> do { m \<leftarrow> set_next q (ln_next n) ns; Some (m, self) }
       | None \<Rightarrow> Some (ns, self\<lparr>list_head := ln_next n\<rparr>));
     n1 \<leftarrow> ns1 node;
     (ns2, l2) \<leftarrow> (case ln_next n1 of
         Some q \<Rightarrow> do { m \<leftarrow> set_prev q (ln_prev n1) ns1; Some (m, l1) }
       | None \<Rightarrow> Some (ns1, l1\<lparr>list_tail := ln_prev n1\<rparr>));
     Some (ns2, l2\<lparr>list_len := list_len l2 - 1\<rparr>)
   }"

definition remove_node ::
  "'s llist \<Rightarrow> ptr \<Rightarrow> 's world \<Rightarrow> nodes \<Rightarrow> ('s world \<times> nodes \<times> 's llist) option" where
  "remove_node self node w ns = do {
     (ns1, l1) \<leftarrow> unlink_node self node ns;
     (w2, ns2) \<leftarrow> node_drop (list_al l1) (list_elem_size l1) node w ns1;
     ASSERT_LIST l1;
     Some (w2, ns2, l1)
   }"

definition splice_nodes ::
  "'s llist \<Rightarrow> 's llist \<Rightarrow> bool \<Rightarrow> nodes \<Rightarrow> (nodes \<times> 's llist \<times> 's llist) option" where
  "splice_nodes self src front ns = do {
     c_assert (al_self (list_al self) = al_self (list_al src));
     c_assert (list_elem_size self = list_elem_size src);
     c_assert (list_len src > 0);
     (ns1, l1) \<leftarrow> (if list_len self = 0 then
         Some (ns, self\<lparr>list_head := list_head src, list_tail := list_tail src\<rparr>)
       else if front then do {
         t \<leftarrow> list_tail src;
         m \<leftarrow> set_next t (list_head self) ns;
         h \<leftarrow> list_head self;
         m1 \<leftarrow> set_prev h (list_tail src) m;
         Some (m1, self\<lparr>list_head := list_head src\<rparr>)
       }
       else do {
         h \<leftarrow> list_head src;
         m \<leftarrow> set_prev h (list_tail self) ns;
         t \<leftarrow> list_tail self;
         m1 \<leftarrow> set_next t (list_head src) m;
         Some (m1, self\<lparr>list_tail := list_tail src\<rparr>)
       });
     let l2 = l1\<lparr>list_len := list_len l1 + list_len src\<rparr>;
     let s2 = src\<lparr>list_head := None, list_tail := None, list_len := 0\<rparr>;
     ASSERT_LIST l2;
     ASSERT_LIST s2;
     Some (ns1, l2, s2)
   }"

definition swap_contents :: "'s llist \<Rightarrow> 's llist \<Rightarrow> 's llist \<times> 's llist" where
  "swap_contents a b =
     (a\<lparr>list_head := list_head b, list_tail := list_tail b, list_len := list_len b\<rparr>,
      b\<lparr>list_head := list_head a, list_tail := list_tail a, list_len := list_len a\<rparr>)"

definition find_node :: "'s world \<Rightarrow> nodes \<Rightarrow> 's llist \<Rightarrow> byte list \<Rightarrow> (byte list \<Rightarrow> byte list \<Rightarrow> bool) \<Rightarrow> ptr option option" where
  "find_node w ns self key eq =
     node_find (\<lambda>p. do { x \<leftarrow> node_elem w (list_elem_size self) p; Some (eq x key) }) ns (list_head self)"

definition clear_nodes :: "'s world \<Rightarrow> nodes \<Rightarrow> 's llist \<Rightarrow> ('s world \<times> nodes \<times> 's llist) option" where
  "clear_nodes w ns self = do {
     (w1, ns1) \<leftarrow> node_loop (\<lambda>p (w, ns). do {
         n \<leftarrow> ns p;
         s \<leftarrow> node_drop (list_al self) (list_elem_size self) p w ns;
         Some (s, ln_next n)
       }) (list_head self) (w, ns);
     Some (w1, ns1, self\<lparr>list_head := None, list_tail := None, list_len := 0\<rparr>)
   }"

definition owns_node :: "nodes \<Rightarrow> 's llist \<Rightarrow> ptr \<Rightarrow> bool option" where
  "owns_node ns self node = do { r \<leftarrow> node_find (\<lambda>p. Some (p = node)) ns (list_head self); Some (r \<noteq> None) }"

section \<open>Relinking chains\<close>

text \<open>\<open>*tail = v\<close>, where \<open>tail\<close> is the address of \<open>head\<close> or of the \<open>next\<close> of the last node put.\<close>

definition chain_put :: "ptr option \<Rightarrow> ptr option \<Rightarrow> ptr option \<Rightarrow> nodes \<Rightarrow> (ptr option \<times> nodes) option" where
  "chain_put head lst v ns = (case lst of
      None \<Rightarrow> Some (v, ns)
    | Some q \<Rightarrow> do { m \<leftarrow> set_next q v ns; Some (head, m) })"

partial_function (option) merge_chains_loop ::
  "(ptr \<Rightarrow> byte list option) \<Rightarrow> byte list cmp_fn \<Rightarrow> ptr option \<Rightarrow> ptr option \<Rightarrow> ptr option \<Rightarrow> ptr option \<Rightarrow>
    nodes \<Rightarrow> (ptr option \<times> nodes) option" where
  "merge_chains_loop get cmp a b head lst ns = (case (a, b) of
      (Some x, Some y) \<Rightarrow> do {
        u \<leftarrow> get x;
        v \<leftarrow> get y;
        if cmp u v \<le> 0 then do {
          (h1, m) \<leftarrow> chain_put head lst a ns;
          n \<leftarrow> m x;
          merge_chains_loop get cmp (ln_next n) b h1 a m
        }
        else do {
          (h1, m) \<leftarrow> chain_put head lst b ns;
          n \<leftarrow> m y;
          merge_chains_loop get cmp a (ln_next n) h1 b m
        }
      }
    | _ \<Rightarrow> chain_put head lst (if a \<noteq> None then a else b) ns)"

definition merge_chains ::
  "(ptr \<Rightarrow> byte list option) \<Rightarrow> byte list cmp_fn \<Rightarrow> ptr option \<Rightarrow> ptr option \<Rightarrow> nodes \<Rightarrow> (ptr option \<times> nodes) option" where
  "merge_chains get cmp a b ns = merge_chains_loop get cmp a b None None ns"

text \<open>The two halves share no node, so the order in which the arguments of the merge are made is one.\<close>

fun sort_chain ::
  "(ptr \<Rightarrow> byte list option) \<Rightarrow> byte list cmp_fn \<Rightarrow> nat \<Rightarrow> ptr option \<Rightarrow> nodes \<Rightarrow> (ptr option \<times> nodes) option" where
  "sort_chain get cmp len head ns = do {
     first \<leftarrow> head;
     if len < 2 then Some (head, ns)
     else do {
       let half = len div 2;
       left_tail \<leftarrow> for_loop [1..<half] (\<lambda>i p. do { n \<leftarrow> ns p; ln_next n }) first;
       n \<leftarrow> ns left_tail;
       ns1 \<leftarrow> set_next left_tail None ns;
       (a, ns2) \<leftarrow> sort_chain get cmp half head ns1;
       (b, ns3) \<leftarrow> sort_chain get cmp (len - half) (ln_next n) ns2;
       merge_chains get cmp a b ns3
     }
   }"

declare sort_chain.simps [simp del]

definition relink_prev :: "'s llist \<Rightarrow> nodes \<Rightarrow> (nodes \<times> 's llist) option" where
  "relink_prev self ns = do {
     (lst, ns1) \<leftarrow> node_loop (\<lambda>p (prev, ns). do {
         m \<leftarrow> set_prev p prev ns;
         n \<leftarrow> m p;
         Some ((Some p, m), ln_next n)
       }) (list_head self) (None, ns);
     Some (ns1, self\<lparr>list_tail := lst\<rparr>)
   }"

definition merge_into ::
  "'s world \<Rightarrow> 's llist \<Rightarrow> 's llist \<Rightarrow> byte list cmp_fn \<Rightarrow> nodes \<Rightarrow> (nodes \<times> 's llist \<times> 's llist) option" where
  "merge_into w self src cmp ns = do {
     c_assert (al_self (list_al self) = al_self (list_al src));
     c_assert (list_elem_size self = list_elem_size src);
     c_assert (list_len src > 0);
     (h, ns1) \<leftarrow> merge_chains (node_elem w (list_elem_size self)) cmp (list_head self) (list_head src) ns;
     (ns2, l2) \<leftarrow> relink_prev (self\<lparr>list_head := h, list_len := list_len self + list_len src\<rparr>) ns1;
     let s2 = src\<lparr>list_head := None, list_tail := None, list_len := 0\<rparr>;
     ASSERT_LIST l2;
     ASSERT_LIST s2;
     Some (ns2, l2, s2)
   }"

section \<open>Inserting and removing\<close>

definition tda_list_push_front ::
  "'s world \<Rightarrow> nodes \<Rightarrow> 's llist \<Rightarrow> byte list \<Rightarrow> (tda_Status \<times> 's world \<times> nodes \<times> 's llist) option" where
  "tda_list_push_front w ns self val = do { ASSERT_LIST self; insert_between self None (list_head self) val w ns }"

definition tda_list_push_back ::
  "'s world \<Rightarrow> nodes \<Rightarrow> 's llist \<Rightarrow> byte list \<Rightarrow> (tda_Status \<times> 's world \<times> nodes \<times> 's llist) option" where
  "tda_list_push_back w ns self val = do { ASSERT_LIST self; insert_between self (list_tail self) None val w ns }"

definition tda_list_pop_front :: "'s world \<Rightarrow> nodes \<Rightarrow> 's llist \<Rightarrow> ('s world \<times> nodes \<times> 's llist) option" where
  "tda_list_pop_front w ns self = do {
     ASSERT_LIST self;
     c_assert (list_len self > 0);
     p \<leftarrow> list_head self;
     remove_node self p w ns
   }"

definition tda_list_pop_back :: "'s world \<Rightarrow> nodes \<Rightarrow> 's llist \<Rightarrow> ('s world \<times> nodes \<times> 's llist) option" where
  "tda_list_pop_back w ns self = do {
     ASSERT_LIST self;
     c_assert (list_len self > 0);
     p \<leftarrow> list_tail self;
     remove_node self p w ns
   }"

definition tda_list_insert_before ::
  "'s world \<Rightarrow> nodes \<Rightarrow> 's llist \<Rightarrow> ptr \<Rightarrow> byte list \<Rightarrow> (tda_Status \<times> 's world \<times> nodes \<times> 's llist) option" where
  "tda_list_insert_before w ns self at val = do {
     ASSERT_LIST self;
     ASSERT_NODE ns at;
     mine \<leftarrow> owns_node ns self at;
     c_assert mine;
     n \<leftarrow> ns at;
     insert_between self (ln_prev n) (Some at) val w ns
   }"

definition tda_list_insert_after ::
  "'s world \<Rightarrow> nodes \<Rightarrow> 's llist \<Rightarrow> ptr \<Rightarrow> byte list \<Rightarrow> (tda_Status \<times> 's world \<times> nodes \<times> 's llist) option" where
  "tda_list_insert_after w ns self at val = do {
     ASSERT_LIST self;
     ASSERT_NODE ns at;
     mine \<leftarrow> owns_node ns self at;
     c_assert mine;
     n \<leftarrow> ns at;
     insert_between self (Some at) (ln_next n) val w ns
   }"

definition tda_list_remove :: "'s world \<Rightarrow> nodes \<Rightarrow> 's llist \<Rightarrow> ptr \<Rightarrow> ('s world \<times> nodes \<times> 's llist) option" where
  "tda_list_remove w ns self node = do {
     ASSERT_LIST self;
     ASSERT_NODE ns node;
     mine \<leftarrow> owns_node ns self node;
     c_assert mine;
     remove_node self node w ns
   }"

definition tda_list_clear :: "'s world \<Rightarrow> nodes \<Rightarrow> 's llist \<Rightarrow> ('s world \<times> nodes \<times> 's llist) option" where
  "tda_list_clear w ns self = do {
     ASSERT_LIST self;
     (w1, ns1, l1) \<leftarrow> clear_nodes w ns self;
     ASSERT_LIST l1;
     Some (w1, ns1, l1)
   }"

section \<open>Lifetime and copies\<close>

definition tda_list_new :: "nat \<Rightarrow> 's al \<Rightarrow> 's world \<Rightarrow> (tda_Status \<times> 's llist option \<times> 's world) option" where
  "tda_list_new elem_size al w = do {
     c_assert (elem_size > 0);
     (r, w1) \<leftarrow> tda_alloc al w sizeof_tda_List;
     (case r of
        None \<Rightarrow> Some (TDA_STATUS_ERR_NO_MEM, None, w1)
      | Some obj \<Rightarrow> do {
          let l = \<lparr>list_self = obj, list_head = None, list_tail = None, list_len = 0, list_elem_size = elem_size, list_al = al\<rparr>;
          ASSERT_LIST l;
          Some (TDA_STATUS_OK, Some l, w1)
        })
   }"

definition tda_list_drop :: "'s world \<Rightarrow> nodes \<Rightarrow> 's llist option \<Rightarrow> ('s world \<times> nodes) option" where
  "tda_list_drop w ns self = (case self of
      None \<Rightarrow> Some (w, ns)
    | Some l \<Rightarrow> do {
        ASSERT_LIST l;
        (w1, ns1, l1) \<leftarrow> clear_nodes w ns l;
        w2 \<leftarrow> tda_dealloc (list_al l) w1 (Some (list_self l)) sizeof_tda_List;
        Some (w2, ns1)
      })"

text \<open>After a loop of \<open>push_back\<close> on a new list: hand it over, or drop it and report.\<close>

definition list_built ::
  "(tda_Status \<times> 's world \<times> nodes \<times> 's llist) \<Rightarrow> (tda_Status \<times> 's llist option \<times> 's world \<times> nodes) option" where
  "list_built r = (case r of (st, w, ns, l) \<Rightarrow>
     if TDA_STATUS_IS_ERR st then do { (w1, ns1) \<leftarrow> tda_list_drop w ns (Some l); Some (st, None, w1, ns1) }
     else Some (TDA_STATUS_OK, Some l, w, ns))"

definition tda_list_from_data ::
  "(ptr \<times> nat) option \<Rightarrow> nat \<Rightarrow> nat \<Rightarrow> 's al \<Rightarrow> 's world \<Rightarrow> nodes \<Rightarrow>
    (tda_Status \<times> 's llist option \<times> 's world \<times> nodes) option" where
  "tda_list_from_data data len elem_size al w ns = do {
     c_assert (data \<noteq> None \<or> len = 0);
     c_assert (elem_size > 0);
     (st, r, w1) \<leftarrow> tda_list_new elem_size al w;
     (case r of
        None \<Rightarrow> Some (st, None, w1, ns)
      | Some l \<Rightarrow> do {
          r1 \<leftarrow> try_loop [0..<len] (\<lambda>i (w, ns, l). do {
              add \<leftarrow> tda_byte_offset (data \<noteq> None) elem_size i;
              (p, off) \<leftarrow> data;
              x \<leftarrow> mem_read w p (off + add) elem_size;
              tda_list_push_back w ns l x
            }) (w1, ns, l);
          list_built r1
        })
   }"

definition tda_list_from_span ::
  "tda_Span \<Rightarrow> 's al \<Rightarrow> 's world \<Rightarrow> nodes \<Rightarrow> (tda_Status \<times> 's llist option \<times> 's world \<times> nodes) option" where
  "tda_list_from_span s al w ns = do {
     TDA_SPAN_ASSERT s;
     tda_list_from_data (sp_data s) (sp_len s) (sp_elem_size s) al w ns
   }"

text \<open>\<open>push_back\<close> of the element of a node of another list, and where that list goes on.\<close>

definition push_elem_of ::
  "nat \<Rightarrow> ptr \<Rightarrow> 's world \<times> nodes \<times> 's llist \<Rightarrow> (tda_Status \<times> ('s world \<times> nodes \<times> 's llist) \<times> ptr option) option" where
  "push_elem_of elem_size p st = (case st of (w, ns, l) \<Rightarrow> do {
     x \<leftarrow> node_elem w elem_size p;
     (s, w1, ns1, l1) \<leftarrow> tda_list_push_back w ns l x;
     n \<leftarrow> ns1 p;
     Some (s, (w1, ns1, l1), ln_next n)
   })"

definition tda_list_copy_with ::
  "'s world \<Rightarrow> nodes \<Rightarrow> 's llist \<Rightarrow> 's al \<Rightarrow> (tda_Status \<times> 's llist option \<times> 's world \<times> nodes) option" where
  "tda_list_copy_with w ns self al = do {
     ASSERT_LIST self;
     (st, r, w1) \<leftarrow> tda_list_new (list_elem_size self) al w;
     (case r of
        None \<Rightarrow> Some (st, None, w1, ns)
      | Some obj \<Rightarrow> do {
          r1 \<leftarrow> node_try (push_elem_of (list_elem_size self)) (list_head self) (w1, ns, obj);
          list_built r1
        })
   }"

definition tda_list_copy ::
  "'s world \<Rightarrow> nodes \<Rightarrow> 's llist \<Rightarrow> (tda_Status \<times> 's llist option \<times> 's world \<times> nodes) option" where
  "tda_list_copy w ns self = do { ASSERT_LIST self; tda_list_copy_with w ns self (list_al self) }"

text \<open>The loops of \<open>copy_assign\<close>: past the nodes both lists have, over their elements, off the end.\<close>

partial_function (option) pair_walk :: "nodes \<Rightarrow> ptr option \<Rightarrow> ptr option \<Rightarrow> ptr option option" where
  "pair_walk ns src dst = (case (src, dst) of
      (Some x, Some y) \<Rightarrow> do { n \<leftarrow> ns x; m \<leftarrow> ns y; pair_walk ns (ln_next n) (ln_next m) }
    | _ \<Rightarrow> Some src)"

partial_function (option) pair_copy :: "nat \<Rightarrow> nodes \<Rightarrow> ptr option \<Rightarrow> ptr option \<Rightarrow> 's world \<Rightarrow> 's world option" where
  "pair_copy elem_size ns to from w = (case (to, from) of
      (Some y, Some x) \<Rightarrow> do {
        bs \<leftarrow> node_elem w elem_size x;
        w1 \<leftarrow> mem_write w y sizeof_tda_ListNode bs;
        m \<leftarrow> ns y;
        n \<leftarrow> ns x;
        pair_copy elem_size ns (ln_next m) (ln_next n) w1
      }
    | _ \<Rightarrow> Some w)"

partial_function (option) trim_loop :: "nat \<Rightarrow> 's world \<Rightarrow> nodes \<Rightarrow> 's llist \<Rightarrow> ('s world \<times> nodes \<times> 's llist) option" where
  "trim_loop len w ns other = (if list_len other > len then do {
       t \<leftarrow> list_tail other;
       (w1, ns1, o1) \<leftarrow> remove_node other t w ns;
       trim_loop len w1 ns1 o1
     }
     else Some (w, ns, other))"

text \<open>\<open>spare\<close> is a struct on the stack; its address is never asked for.\<close>

definition tda_list_copy_assign ::
  "'s world \<Rightarrow> nodes \<Rightarrow> 's llist \<Rightarrow> 's llist \<Rightarrow> (tda_Status \<times> 's world \<times> nodes \<times> 's llist) option" where
  "tda_list_copy_assign w ns self other = do {
     ASSERT_LIST self;
     ASSERT_LIST other;
     c_assert (list_elem_size self = list_elem_size other);
     if list_self self = list_self other then Some (TDA_STATUS_OK, w, ns, other)
     else do {
       src \<leftarrow> pair_walk ns (list_head self) (list_head other);
       let spare = other\<lparr>list_head := None, list_tail := None, list_len := 0\<rparr>;
       (st, w1, ns1, sp) \<leftarrow> node_try (push_elem_of (list_elem_size other)) src (w, ns, spare);
       if TDA_STATUS_IS_ERR st then do {
         (w2, ns2, sp2) \<leftarrow> clear_nodes w1 ns1 sp;
         Some (st, w2, ns2, other)
       }
       else do {
         w2 \<leftarrow> pair_copy (list_elem_size other) ns1 (list_head other) (list_head self) w1;
         (w3, ns3, o3) \<leftarrow> trim_loop (list_len self) w2 ns1 other;
         (ns4, o4) \<leftarrow> (if list_len sp > 0
            then do { (m, o4, s4) \<leftarrow> splice_nodes o3 sp False ns3; Some (m, o4) }
            else Some (ns3, o3));
         ASSERT_LIST o4;
         Some (TDA_STATUS_OK, w3, ns4, o4)
       }
     }
   }"

definition list_swap_structs :: "'s llist \<Rightarrow> 's llist \<Rightarrow> 's llist \<times> 's llist" where
  "list_swap_structs a b = (b\<lparr>list_self := list_self a\<rparr>, a\<lparr>list_self := list_self b\<rparr>)"

definition tda_list_move_assign ::
  "'s world \<Rightarrow> nodes \<Rightarrow> 's llist \<Rightarrow> 's llist \<Rightarrow> (tda_Status \<times> 's world \<times> nodes \<times> 's llist \<times> 's llist) option" where
  "tda_list_move_assign w ns self other = do {
     ASSERT_LIST self;
     ASSERT_LIST other;
     c_assert (list_elem_size self = list_elem_size other);
     if list_self self = list_self other then Some (TDA_STATUS_OK, w, ns, self, other)
     else if al_self (list_al self) = al_self (list_al other) then do {
       let (self1, other1) = list_swap_structs self other;
       (w1, ns1, self2) \<leftarrow> clear_nodes w ns self1;
       ASSERT_LIST self2;
       ASSERT_LIST other1;
       Some (TDA_STATUS_OK, w1, ns1, self2, other1)
     }
     else do {
       (st, r, w1, ns1) \<leftarrow> tda_list_copy_with w ns self (list_al other);
       (case r of
          None \<Rightarrow> Some (st, w1, ns1, self, other)
        | Some obj \<Rightarrow> do {
            let (other1, obj1) = list_swap_structs other obj;
            (w2, ns2) \<leftarrow> tda_list_drop w1 ns1 (Some obj1);
            (w3, ns3, self1) \<leftarrow> clear_nodes w2 ns2 self;
            ASSERT_LIST self1;
            ASSERT_LIST other1;
            Some (TDA_STATUS_OK, w3, ns3, self1, other1)
          })
     }
   }"

section \<open>Comparison, information, access\<close>

text \<open>The walk of both comparisons: is there a place where the elements differ?\<close>

partial_function (option) list_differ ::
  "(ptr \<Rightarrow> byte list option) \<Rightarrow> (byte list \<Rightarrow> byte list \<Rightarrow> bool) \<Rightarrow> nodes \<Rightarrow> ptr option \<Rightarrow> ptr option \<Rightarrow> bool option" where
  "list_differ get eq ns x y = (case x of
      None \<Rightarrow> Some False
    | Some p \<Rightarrow> do {
        q \<leftarrow> y;
        u \<leftarrow> get p;
        v \<leftarrow> get q;
        if \<not> eq u v then Some True
        else do { n \<leftarrow> ns p; m \<leftarrow> ns q; list_differ get eq ns (ln_next n) (ln_next m) }
      })"

definition tda_list_eq_by ::
  "'s world \<Rightarrow> nodes \<Rightarrow> 's llist \<Rightarrow> 's llist \<Rightarrow> (byte list \<Rightarrow> byte list \<Rightarrow> bool) \<Rightarrow> bool option" where
  "tda_list_eq_by w ns a b eq = do {
     ASSERT_LIST a;
     ASSERT_LIST b;
     c_assert (list_elem_size a = list_elem_size b);
     if list_self a = list_self b then Some True
     else if list_len a \<noteq> list_len b then Some False
     else do {
       d \<leftarrow> list_differ (node_elem w (list_elem_size a)) eq ns (list_head a) (list_head b);
       Some (\<not> d)
     }
   }"

definition tda_list_eq :: "'s world \<Rightarrow> nodes \<Rightarrow> 's llist \<Rightarrow> 's llist \<Rightarrow> bool option" where
  "tda_list_eq w ns a b = do {
     ASSERT_LIST a;
     ASSERT_LIST b;
     c_assert (list_elem_size a = list_elem_size b);
     if list_self a = list_self b then Some True
     else if list_len a \<noteq> list_len b then Some False
     else do {
       d \<leftarrow> list_differ (node_elem w (list_elem_size a)) (=) ns (list_head a) (list_head b);
       Some (\<not> d)
     }
   }"

definition tda_list_len :: "'s llist \<Rightarrow> nat option" where
  "tda_list_len l = do { ASSERT_LIST l; Some (list_len l) }"

definition tda_list_elem_size :: "'s llist \<Rightarrow> nat option" where
  "tda_list_elem_size l = do { ASSERT_LIST l; Some (list_elem_size l) }"

definition tda_list_al :: "'s llist \<Rightarrow> 's al option" where
  "tda_list_al l = do { ASSERT_LIST l; Some (list_al l) }"

definition tda_list_front :: "'s llist \<Rightarrow> (ptr \<times> nat) option" where
  "tda_list_front l = do {
     ASSERT_LIST l;
     c_assert (list_len l > 0);
     p \<leftarrow> list_head l;
     Some (p, sizeof_tda_ListNode)
   }"

definition tda_list_back :: "'s llist \<Rightarrow> (ptr \<times> nat) option" where
  "tda_list_back l = do {
     ASSERT_LIST l;
     c_assert (list_len l > 0);
     p \<leftarrow> list_tail l;
     Some (p, sizeof_tda_ListNode)
   }"

definition tda_list_front_node :: "'s llist \<Rightarrow> ptr option option" where
  "tda_list_front_node l = do { ASSERT_LIST l; Some (list_head l) }"

definition tda_list_back_node :: "'s llist \<Rightarrow> ptr option option" where
  "tda_list_back_node l = do { ASSERT_LIST l; Some (list_tail l) }"

definition tda_list_node_next :: "nodes \<Rightarrow> ptr \<Rightarrow> ptr option option" where
  "tda_list_node_next ns p = do { ASSERT_NODE ns p; n \<leftarrow> ns p; Some (ln_next n) }"

definition tda_list_node_prev :: "nodes \<Rightarrow> ptr \<Rightarrow> ptr option option" where
  "tda_list_node_prev ns p = do { ASSERT_NODE ns p; n \<leftarrow> ns p; Some (ln_prev n) }"

definition tda_list_node_elem :: "nodes \<Rightarrow> ptr \<Rightarrow> (ptr \<times> nat) option" where
  "tda_list_node_elem ns p = do { ASSERT_NODE ns p; Some (p, sizeof_tda_ListNode) }"

definition tda_list_find ::
  "'s world \<Rightarrow> nodes \<Rightarrow> 's llist \<Rightarrow> byte list \<Rightarrow> (byte list \<Rightarrow> byte list \<Rightarrow> bool) \<Rightarrow> ptr option option" where
  "tda_list_find w ns self key eq = do { ASSERT_LIST self; find_node w ns self key eq }"

section \<open>Splicing\<close>

text \<open>
  What \<open>splice_front\<close> and \<open>splice_back\<close> share, but for the end: the nodes change list, or, when
  the allocators differ, those of a copy do.
\<close>

definition list_splice ::
  "bool \<Rightarrow> 's world \<Rightarrow> nodes \<Rightarrow> 's llist \<Rightarrow> 's llist \<Rightarrow> (tda_Status \<times> 's world \<times> nodes \<times> 's llist \<times> 's llist) option" where
  "list_splice front w ns self src = do {
     ASSERT_LIST self;
     ASSERT_LIST src;
     c_assert (list_self self \<noteq> list_self src);
     c_assert (list_elem_size self = list_elem_size src);
     if list_len src = 0 then Some (TDA_STATUS_OK, w, ns, self, src)
     else if al_self (list_al self) = al_self (list_al src) then do {
       (ns1, l1, s1) \<leftarrow> splice_nodes self src front ns;
       Some (TDA_STATUS_OK, w, ns1, l1, s1)
     }
     else do {
       (st, r, w1, ns1) \<leftarrow> tda_list_copy_with w ns src (list_al self);
       (case r of
          None \<Rightarrow> Some (st, w1, ns1, self, src)
        | Some c \<Rightarrow> do {
            (ns2, l1, c1) \<leftarrow> splice_nodes self c front ns1;
            (w3, ns3) \<leftarrow> tda_list_drop w1 ns2 (Some c1);
            (w4, ns4, s1) \<leftarrow> clear_nodes w3 ns3 src;
            ASSERT_LIST l1;
            ASSERT_LIST s1;
            Some (TDA_STATUS_OK, w4, ns4, l1, s1)
          })
     }
   }"

definition tda_list_splice_front ::
  "'s world \<Rightarrow> nodes \<Rightarrow> 's llist \<Rightarrow> 's llist \<Rightarrow> (tda_Status \<times> 's world \<times> nodes \<times> 's llist \<times> 's llist) option" where
  "tda_list_splice_front = list_splice True"

definition tda_list_splice_back ::
  "'s world \<Rightarrow> nodes \<Rightarrow> 's llist \<Rightarrow> 's llist \<Rightarrow> (tda_Status \<times> 's world \<times> nodes \<times> 's llist \<times> 's llist) option" where
  "tda_list_splice_back = list_splice False"

definition tda_list_swap :: "'s llist \<Rightarrow> 's llist \<Rightarrow> ('s llist \<times> 's llist) option" where
  "tda_list_swap self other = do {
     ASSERT_LIST self;
     ASSERT_LIST other;
     c_assert (list_elem_size self = list_elem_size other);
     c_assert (al_self (list_al self) = al_self (list_al other));
     if list_self self = list_self other then Some (self, other)
     else do {
       let (a, b) = swap_contents self other;
       ASSERT_LIST a;
       ASSERT_LIST b;
       Some (a, b)
     }
   }"

text \<open>The node before \<open>at\<close>, or the last one when there is no \<open>at\<close>.\<close>

definition node_before :: "nodes \<Rightarrow> 's llist \<Rightarrow> ptr option \<Rightarrow> ptr option option" where
  "node_before ns self at = (case at of None \<Rightarrow> Some (list_tail self) | Some a \<Rightarrow> do { n \<leftarrow> ns a; Some (ln_prev n) })"

text \<open>\<open>splice_node\<close> between two lists. Within one list \<open>self\<close> and \<open>src\<close> are the same struct:
  \<open>splice_node_within\<close> is the code with one name for it.\<close>

definition tda_list_splice_node ::
  "'s world \<Rightarrow> nodes \<Rightarrow> 's llist \<Rightarrow> ptr option \<Rightarrow> 's llist \<Rightarrow> ptr \<Rightarrow>
    (tda_Status \<times> 's world \<times> nodes \<times> 's llist \<times> 's llist) option" where
  "tda_list_splice_node w ns self at src node = do {
     ASSERT_LIST self;
     ASSERT_LIST src;
     c_assert (list_elem_size self = list_elem_size src);
     theirs \<leftarrow> owns_node ns src node;
     c_assert theirs;
     mine \<leftarrow> (case at of None \<Rightarrow> Some True | Some a \<Rightarrow> owns_node ns self a);
     c_assert mine;
     c_assert (at \<noteq> Some node);
     if al_self (list_al self) \<noteq> al_self (list_al src) then do {
       prev \<leftarrow> node_before ns self at;
       x \<leftarrow> node_elem w (list_elem_size self) node;
       (st, w1, ns1, l1) \<leftarrow> insert_between self prev at x w ns;
       if TDA_STATUS_IS_ERR st then Some (st, w1, ns1, l1, src)
       else do {
         (w2, ns2, s1) \<leftarrow> remove_node src node w1 ns1;
         ASSERT_LIST l1;
         ASSERT_LIST s1;
         Some (TDA_STATUS_OK, w2, ns2, l1, s1)
       }
     }
     else do {
       (ns1, s1) \<leftarrow> unlink_node src node ns;
       prev \<leftarrow> node_before ns1 self at;
       (ns2, l1) \<leftarrow> link_node self node prev at ns1;
       ASSERT_LIST l1;
       ASSERT_LIST s1;
       ASSERT_NODE ns2 node;
       Some (TDA_STATUS_OK, w, ns2, l1, s1)
     }
   }"

definition splice_node_within ::
  "nodes \<Rightarrow> 's llist \<Rightarrow> ptr option \<Rightarrow> ptr \<Rightarrow> (tda_Status \<times> nodes \<times> 's llist) option" where
  "splice_node_within ns self at node = do {
     ASSERT_LIST self;
     theirs \<leftarrow> owns_node ns self node;
     c_assert theirs;
     mine \<leftarrow> (case at of None \<Rightarrow> Some True | Some a \<Rightarrow> owns_node ns self a);
     c_assert mine;
     c_assert (at \<noteq> Some node);
     (ns1, l1) \<leftarrow> unlink_node self node ns;
     prev \<leftarrow> node_before ns1 l1 at;
     (ns2, l2) \<leftarrow> link_node l1 node prev at ns1;
     ASSERT_LIST l2;
     ASSERT_NODE ns2 node;
     Some (TDA_STATUS_OK, ns2, l2)
   }"

section \<open>Reversing, sorting, merging\<close>

definition tda_list_reverse :: "nodes \<Rightarrow> 's llist \<Rightarrow> (nodes \<times> 's llist) option" where
  "tda_list_reverse ns self = do {
     ASSERT_LIST self;
     ns1 \<leftarrow> node_loop (\<lambda>p ns. do {
         n \<leftarrow> ns p;
         Some (ns(p \<mapsto> \<lparr>ln_next = ln_prev n, ln_prev = ln_next n\<rparr>), ln_next n)
       }) (list_head self) ns;
     let l1 = self\<lparr>list_head := list_tail self, list_tail := list_head self\<rparr>;
     ASSERT_LIST l1;
     Some (ns1, l1)
   }"

definition tda_list_sort :: "'s world \<Rightarrow> nodes \<Rightarrow> 's llist \<Rightarrow> byte list cmp_fn \<Rightarrow> (nodes \<times> 's llist) option" where
  "tda_list_sort w ns self cmp = do {
     ASSERT_LIST self;
     if list_len self < 2 then Some (ns, self)
     else do {
       (h, ns1) \<leftarrow> sort_chain (node_elem w (list_elem_size self)) cmp (list_len self) (list_head self) ns;
       (ns2, l1) \<leftarrow> relink_prev (self\<lparr>list_head := h\<rparr>) ns1;
       ASSERT_LIST l1;
       Some (ns2, l1)
     }
   }"

definition tda_list_merge ::
  "'s world \<Rightarrow> nodes \<Rightarrow> 's llist \<Rightarrow> 's llist \<Rightarrow> byte list cmp_fn \<Rightarrow>
    (tda_Status \<times> 's world \<times> nodes \<times> 's llist \<times> 's llist) option" where
  "tda_list_merge w ns self src cmp = do {
     ASSERT_LIST self;
     ASSERT_LIST src;
     c_assert (list_self self \<noteq> list_self src);
     c_assert (list_elem_size self = list_elem_size src);
     if list_len src = 0 then Some (TDA_STATUS_OK, w, ns, self, src)
     else if al_self (list_al self) = al_self (list_al src) then do {
       (ns1, l1, s1) \<leftarrow> merge_into w self src cmp ns;
       Some (TDA_STATUS_OK, w, ns1, l1, s1)
     }
     else do {
       (st, r, w1, ns1) \<leftarrow> tda_list_copy_with w ns src (list_al self);
       (case r of
          None \<Rightarrow> Some (st, w1, ns1, self, src)
        | Some c \<Rightarrow> do {
            (ns2, l1, c1) \<leftarrow> merge_into w1 self c cmp ns1;
            (w3, ns3) \<leftarrow> tda_list_drop w1 ns2 (Some c1);
            (w4, ns4, s1) \<leftarrow> clear_nodes w3 ns3 src;
            ASSERT_LIST l1;
            ASSERT_LIST s1;
            Some (TDA_STATUS_OK, w4, ns4, l1, s1)
          })
     }
   }"

section \<open>Spans\<close>

definition tda_list_copy_to_span :: "'s world \<Rightarrow> nodes \<Rightarrow> 's llist \<Rightarrow> tda_Span \<Rightarrow> 's world option" where
  "tda_list_copy_to_span w ns self dst = do {
     ASSERT_LIST self;
     TDA_SPAN_ASSERT dst;
     c_assert (sp_elem_size dst = list_elem_size self);
     c_assert (sp_len dst = list_len self);
     (w1, i) \<leftarrow> node_loop (\<lambda>p (w, i). do {
         add \<leftarrow> tda_byte_offset (sp_data dst \<noteq> None) (list_elem_size self) i;
         (q, off) \<leftarrow> sp_data dst;
         x \<leftarrow> node_elem w (list_elem_size self) p;
         w1 \<leftarrow> mem_write w q (off + add) x;
         n \<leftarrow> ns p;
         Some ((w1, i + 1), ln_next n)
       }) (list_head self) (w, 0);
     Some w1
   }"

definition tda_list_copy_from_span :: "'s world \<Rightarrow> nodes \<Rightarrow> 's llist \<Rightarrow> tda_Span \<Rightarrow> 's world option" where
  "tda_list_copy_from_span w ns self src = do {
     ASSERT_LIST self;
     TDA_SPAN_ASSERT src;
     c_assert (sp_elem_size src = list_elem_size self);
     c_assert (sp_len src = list_len self);
     (w1, i) \<leftarrow> node_loop (\<lambda>p (w, i). do {
         add \<leftarrow> tda_byte_offset (sp_data src \<noteq> None) (list_elem_size self) i;
         (q, off) \<leftarrow> sp_data src;
         x \<leftarrow> mem_read w q (off + add) (list_elem_size self);
         w1 \<leftarrow> mem_write w p sizeof_tda_ListNode x;
         n \<leftarrow> ns p;
         Some ((w1, i + 1), ln_next n)
       }) (list_head self) (w, (0 :: nat));
     Some w1
   }"

end
