(* ===== verification/Tda_List_Chains.thy ===== *)
theory Tda_List_Chains
  imports Tda_List Tda_Sort
begin

text \<open>
  Chains of nodes. \<open>links ns pr ps nx\<close>: the nodes \<open>ps\<close> are linked both ways, with \<open>pr\<close> before and
  \<open>nx\<close> behind them; \<open>chain\<close> says so of the \<open>next\<close> links alone. The lemmas give the effect on
  chains of every relinking step of \<open>Tda_List\<close>: linking and unlinking a node, splicing,
  reversing, merging, sorting, and repairing the \<open>prev\<close> links.
\<close>

section \<open>Ends of a list of nodes\<close>

definition hd_or :: "'a list \<Rightarrow> 'a option \<Rightarrow> 'a option" where
  "hd_or xs d = (if xs = [] then d else Some (hd xs))"

definition last_or :: "'a list \<Rightarrow> 'a option \<Rightarrow> 'a option" where
  "last_or xs d = (if xs = [] then d else Some (last xs))"

lemma hd_or_simps [simp]: "hd_or [] d = d" "hd_or (x # xs) d = Some x" "hd_or (xs @ ys) d = hd_or xs (hd_or ys d)"
  by (simp_all add: hd_or_def)

lemma last_or_simps [simp]: "last_or [] d = d" "last_or (x # xs) d = last_or xs (Some x)" "last_or (xs @ ys) d = last_or ys (last_or xs d)"
  by (auto simp: last_or_def)

lemma hd_or_none [simp]: "hd_or xs None = None \<longleftrightarrow> xs = []" "hd_or xs None \<noteq> None \<longleftrightarrow> xs \<noteq> []"
  by (simp_all add: hd_or_def)

lemma last_or_none [simp]: "last_or xs None = None \<longleftrightarrow> xs = []" "last_or xs None \<noteq> None \<longleftrightarrow> xs \<noteq> []"
  by (simp_all add: last_or_def)

lemma last_or_cons: "last_or xs (Some x) = Some (last (x # xs))"
  by (simp add: last_or_def)

lemma hd_or_rev [simp]: "hd_or (rev xs) d = last_or xs d" "last_or (rev xs) d = hd_or xs d"
  by (simp_all add: hd_or_def last_or_def hd_rev last_rev)

section \<open>Chains\<close>

fun links :: "nodes \<Rightarrow> ptr option \<Rightarrow> ptr list \<Rightarrow> ptr option \<Rightarrow> bool" where
  "links ns pr [] nx = True"
| "links ns pr (x # xs) nx = (ns x = Some \<lparr>ln_next = hd_or xs nx, ln_prev = pr\<rparr> \<and> links ns (Some x) xs nx)"

fun chain :: "nodes \<Rightarrow> ptr list \<Rightarrow> ptr option \<Rightarrow> bool" where
  "chain ns [] nx = True"
| "chain ns (x # xs) nx = ((\<exists>n. ns x = Some n \<and> ln_next n = hd_or xs nx) \<and> chain ns xs nx)"

lemma links_append: "links ns pr (xs @ ys) nx \<longleftrightarrow> links ns pr xs (hd_or ys nx) \<and> links ns (last_or xs pr) ys nx"
  by (induction xs arbitrary: pr) auto

lemma chain_append: "chain ns (xs @ ys) nx \<longleftrightarrow> chain ns xs (hd_or ys nx) \<and> chain ns ys nx"
  by (induction xs) auto

lemma links_chain: "links ns pr xs nx \<Longrightarrow> chain ns xs nx"
  by (induction xs arbitrary: pr) auto

lemma links_cong: "(\<And>q. q \<in> set xs \<Longrightarrow> ns' q = ns q) \<Longrightarrow> links ns' pr xs nx = links ns pr xs nx"
  by (induction xs arbitrary: pr) auto

lemma chain_agree: "(\<And>q. q \<in> set xs \<Longrightarrow> ns' q = ns q) \<Longrightarrow> chain ns' xs nx = chain ns xs nx"
  by (induction xs) auto

lemma links_update [simp]: "p \<notin> set xs \<Longrightarrow> links (ns(p := v)) pr xs nx = links ns pr xs nx"
  by (rule links_cong) auto

lemma chain_update [simp]: "p \<notin> set xs \<Longrightarrow> chain (ns(p := v)) xs nx = chain ns xs nx"
  by (rule chain_agree) auto

lemma links_node: "links ns pr xs nx \<Longrightarrow> p \<in> set xs \<Longrightarrow> ns p \<noteq> None"
  by (induction xs arbitrary: pr) auto

lemma chain_node: "chain ns xs nx \<Longrightarrow> p \<in> set xs \<Longrightarrow> ns p \<noteq> None"
  by (induction xs) auto

text \<open>The last node told another successor, the first another predecessor.\<close>

lemma links_set_last:
  assumes "links ns pr (xs @ [x]) nx" "distinct (xs @ [x])"
  obtains ns' where "set_next x v ns = Some ns'" "links ns' pr (xs @ [x]) v" "\<forall>q. q \<noteq> x \<longrightarrow> ns' q = ns q"
  using assms that [of "ns(x \<mapsto> \<lparr>ln_next = v, ln_prev = last_or xs pr\<rparr>)"] by (simp add: links_append set_next_def)

lemma links_set_first:
  assumes "links ns pr (y # ys) nx" "distinct (y # ys)"
  obtains ns' where "set_prev y v ns = Some ns'" "links ns' v (y # ys) nx" "\<forall>q. q \<noteq> y \<longrightarrow> ns' q = ns q"
  using assms that [of "ns(y \<mapsto> \<lparr>ln_next = hd_or ys nx, ln_prev = v\<rparr>)"] by (simp add: set_prev_def)

lemma chain_set_last:
  assumes "chain ns (xs @ [x]) nx" "distinct (xs @ [x])"
  obtains ns' where "set_next x v ns = Some ns'" "chain ns' (xs @ [x]) v" "\<forall>q. q \<noteq> x \<longrightarrow> ns' q = ns q"
proof -
  obtain n where "ns x = Some n" using assms(1) by (auto simp: chain_append)
  then show ?thesis
    using assms that [of "ns(x \<mapsto> n\<lparr>ln_next := v\<rparr>)"] by (simp add: chain_append set_next_def)
qed

text \<open>The same for a neighbour that need not be there: what \<open>link_node\<close> and \<open>unlink_node\<close> do at an end.\<close>

definition put_next :: "ptr option \<Rightarrow> ptr option \<Rightarrow> nodes \<Rightarrow> nodes option" where
  "put_next q v ns = (case q of None \<Rightarrow> Some ns | Some x \<Rightarrow> set_next x v ns)"

definition put_prev :: "ptr option \<Rightarrow> ptr option \<Rightarrow> nodes \<Rightarrow> nodes option" where
  "put_prev q v ns = (case q of None \<Rightarrow> Some ns | Some x \<Rightarrow> set_prev x v ns)"

lemma links_put_next:
  assumes "links ns None xs nx" "distinct xs"
  obtains ns' where "put_next (last_or xs None) v ns = Some ns'" "links ns' None xs v" "\<forall>q. q \<notin> set xs \<longrightarrow> ns' q = ns q"
proof (cases xs rule: rev_cases)
  case Nil
  then show ?thesis using that [of ns] by (simp add: put_next_def)
next
  case (snoc as x)
  obtain ns' where "set_next x v ns = Some ns'" "links ns' None (as @ [x]) v" "\<forall>q. q \<noteq> x \<longrightarrow> ns' q = ns q"
    by (rule links_set_last [OF assms [unfolded snoc], of v])
  then show ?thesis using that [of ns'] snoc by (simp add: put_next_def)
qed

lemma links_put_prev:
  assumes "links ns pr xs None" "distinct xs"
  obtains ns' where "put_prev (hd_or xs None) v ns = Some ns'" "links ns' v xs None" "\<forall>q. q \<notin> set xs \<longrightarrow> ns' q = ns q"
proof (cases xs)
  case Nil
  then show ?thesis using that [of ns] by (simp add: put_prev_def)
next
  case (Cons x as)
  obtain ns' where "set_prev x v ns = Some ns'" "links ns' v (x # as) None" "\<forall>q. q \<noteq> x \<longrightarrow> ns' q = ns q"
    by (rule links_set_first [OF assms [unfolded Cons], of v])
  then show ?thesis using that [of ns'] Cons by (simp add: put_prev_def)
qed

section \<open>Linking and unlinking a node\<close>

text \<open>The list struct around the nodes \<open>ps\<close>.\<close>

definition spans :: "'s llist \<Rightarrow> ptr list \<Rightarrow> bool" where
  "spans l ps \<longleftrightarrow> list_head l = hd_or ps None \<and> list_tail l = last_or ps None \<and> list_len l = length ps"

definition respan :: "'s llist \<Rightarrow> ptr list \<Rightarrow> 's llist" where
  "respan l ps = l\<lparr>list_head := hd_or ps None, list_tail := last_or ps None, list_len := length ps\<rparr>"

lemma respan_simps [simp]: "spans (respan l ps) ps" "list_self (respan l ps) = list_self l"
  "list_elem_size (respan l ps) = list_elem_size l" "list_al (respan l ps) = list_al l"
  "list_head (respan l ps) = hd_or ps None" "list_tail (respan l ps) = last_or ps None" "list_len (respan l ps) = length ps"
  "respan (respan l ps) qs = respan l qs"
  by (simp_all add: respan_def spans_def)

lemma respan_same: "spans l ps \<Longrightarrow> respan l ps = l"
  by (simp add: respan_def spans_def)

lemma eq_respan:
  "list_self l' = list_self l \<Longrightarrow> list_elem_size l' = list_elem_size l \<Longrightarrow> list_al l' = list_al l \<Longrightarrow> spans l' ps \<Longrightarrow>
    l' = respan l ps"
  by (cases l'; cases l) (simp add: respan_def spans_def)

lemma assert_list_ok: "0 < list_elem_size l \<Longrightarrow> spans l ps \<Longrightarrow> ASSERT_LIST l = Some ()"
  by (auto simp: ASSERT_LIST_def spans_def c_simps)

lemma assert_node_ok:
  assumes "links ns None (xs @ p # ys) None"
  shows "ASSERT_NODE ns p = Some ()"
proof -
  have p: "ns p = Some \<lparr>ln_next = hd_or ys None, ln_prev = last_or xs None\<rparr>" using assms by (simp add: links_append)
  have "\<exists>m. ns q = Some m \<and> ln_next m = Some p" if "last_or xs None = Some q" for q
    using that assms by (cases xs rule: rev_cases) (auto simp: links_append)
  moreover have "\<exists>m. ns q = Some m \<and> ln_prev m = Some p" if "hd_or ys None = Some q" for q
    using that assms by (cases ys) (auto simp: links_append)
  ultimately show ?thesis using p by (fastforce simp: ASSERT_NODE_def c_simps split: option.splits)
qed

lemma link_node_ok:
  assumes l: "spans l (xs @ ys)" and k: "links ns None (xs @ ys) None" and d: "distinct (xs @ p # ys)" and p: "ns p \<noteq> None"
  obtains ns' where "link_node l p (last_or xs None) (hd_or ys None) ns = Some (ns', respan l (xs @ p # ys))"
    "links ns' None (xs @ p # ys) None" "\<forall>q. q \<notin> set (xs @ p # ys) \<longrightarrow> ns' q = ns q"
proof -
  let ?n = "\<lparr>ln_next = hd_or ys None, ln_prev = last_or xs None\<rparr>"
  define n1 where "n1 = ns(p \<mapsto> ?n)"
  have pre: "\<exists>m. set_prev p (last_or xs None) ns = Some m \<and> set_next p (hd_or ys None) m = Some n1"
    using p by (cases "ns p") (auto simp: set_prev_def set_next_def n1_def)
  have k1: "links n1 None xs (hd_or ys None)" "links n1 (last_or xs None) ys None"
    using k d by (auto simp: n1_def links_append)
  have out: "set xs \<inter> set ys = {}" "p \<notin> set xs" "p \<notin> set ys" and dd: "distinct xs" "distinct ys" using d by auto
  obtain n2 where n2: "put_next (last_or xs None) (Some p) n1 = Some n2" "links n2 None xs (Some p)"
    "\<forall>q. q \<notin> set xs \<longrightarrow> n2 q = n1 q" by (rule links_put_next [OF k1(1) dd(1), of "Some p"])
  have "links n2 (last_or xs None) ys None = links n1 (last_or xs None) ys None" using n2(3) out by (intro links_cong) auto
  with k1(2) have k2: "links n2 (last_or xs None) ys None" by simp
  obtain n3 where n3: "put_prev (hd_or ys None) (Some p) n2 = Some n3" "links n3 (Some p) ys None"
    "\<forall>q. q \<notin> set ys \<longrightarrow> n3 q = n2 q" by (rule links_put_prev [OF k2 dd(2), of "Some p"])
  have "links n3 None xs (Some p) = links n2 None xs (Some p)" using n3(3) out by (intro links_cong) auto
  then have "links n3 None xs (Some p)" "n3 p = Some ?n" using n3(3) n2(2,3) out by (simp_all add: n1_def)
  then have full: "links n3 None (xs @ p # ys) None" using n3(2) by (simp add: links_append)
  have "\<exists>l'. link_node l p (last_or xs None) (hd_or ys None) ns = Some (n3, l') \<and> list_self l' = list_self l
      \<and> list_elem_size l' = list_elem_size l \<and> list_al l' = list_al l \<and> spans l' (xs @ p # ys)"
    using pre n2(1) n3(1) l
    by (cases xs rule: rev_cases; cases ys) (auto simp: link_node_def put_next_def put_prev_def spans_def)
  then have "link_node l p (last_or xs None) (hd_or ys None) ns = Some (n3, respan l (xs @ p # ys))"
    using eq_respan by blast
  moreover have "n3 q = ns q" if "q \<notin> set (xs @ p # ys)" for q using that n3(3) n2(3) by (simp add: n1_def)
  ultimately show ?thesis using that full by blast
qed

lemma unlink_node_ok:
  assumes l: "spans l (xs @ p # ys)" and k: "links ns None (xs @ p # ys) None" and d: "distinct (xs @ p # ys)"
  obtains ns' where "unlink_node l p ns = Some (ns', respan l (xs @ ys))"
    "links ns' None (xs @ ys) None" "\<forall>q. q \<notin> set (xs @ ys) \<longrightarrow> ns' q = ns q"
proof -
  have p: "ns p = Some \<lparr>ln_next = hd_or ys None, ln_prev = last_or xs None\<rparr>" using k by (simp add: links_append)
  have k1: "links ns None xs (Some p)" "links ns (Some p) ys None" using k by (simp_all add: links_append)
  have out: "set xs \<inter> set ys = {}" "p \<notin> set xs" "p \<notin> set ys" and dd: "distinct xs" "distinct ys" using d by auto
  obtain n2 where n2: "put_next (last_or xs None) (hd_or ys None) ns = Some n2" "links n2 None xs (hd_or ys None)"
    "\<forall>q. q \<notin> set xs \<longrightarrow> n2 q = ns q" by (rule links_put_next [OF k1(1) dd(1), of "hd_or ys None"])
  have "links n2 (Some p) ys None = links ns (Some p) ys None" using n2(3) out by (intro links_cong) auto
  with k1(2) have k2: "links n2 (Some p) ys None" by simp
  obtain n3 where n3: "put_prev (hd_or ys None) (last_or xs None) n2 = Some n3" "links n3 (last_or xs None) ys None"
    "\<forall>q. q \<notin> set ys \<longrightarrow> n3 q = n2 q" by (rule links_put_prev [OF k2 dd(2), of "last_or xs None"])
  have "links n3 None xs (hd_or ys None) = links n2 None xs (hd_or ys None)" using n3(3) out by (intro links_cong) auto
  then have full: "links n3 None (xs @ ys) None" using n3(2) n2(2) by (simp add: links_append)
  have p2: "n2 p = Some \<lparr>ln_next = hd_or ys None, ln_prev = last_or xs None\<rparr>" using n2(3) out(2) p by simp
  have "\<exists>l'. unlink_node l p ns = Some (n3, l') \<and> list_self l' = list_self l
      \<and> list_elem_size l' = list_elem_size l \<and> list_al l' = list_al l \<and> spans l' (xs @ ys)"
    using p p2 n2(1) n3(1) l assert_node_ok [OF k]
    by (cases xs rule: rev_cases; cases ys) (auto simp: unlink_node_def put_next_def put_prev_def spans_def c_simps)
  then have "unlink_node l p ns = Some (n3, respan l (xs @ ys))" using eq_respan by blast
  moreover have "\<forall>q. q \<notin> set (xs @ ys) \<longrightarrow> n3 q = ns q" using n3(3) n2(3) by simp
  ultimately show ?thesis using that full by blast
qed

section \<open>Splicing\<close>

text \<open>Joining two chains: the order of the two stores does not matter.\<close>

lemma links_join:
  assumes k: "links ns None as None" "links ns None bs None" and d: "distinct as" "distinct bs" "set as \<inter> set bs = {}"
    and ne: "as \<noteq> []" "bs \<noteq> []"
  obtains ns' where "Option.bind (set_next (last as) (Some (hd bs)) ns) (set_prev (hd bs) (Some (last as))) = Some ns'"
    "Option.bind (set_prev (hd bs) (Some (last as)) ns) (set_next (last as) (Some (hd bs))) = Some ns'"
    "links ns' None (as @ bs) None" "\<forall>q. q \<notin> set as \<union> set bs \<longrightarrow> ns' q = ns q"
proof -
  obtain n2 where n2: "put_next (last_or as None) (hd_or bs None) ns = Some n2" "links n2 None as (hd_or bs None)"
    "\<forall>q. q \<notin> set as \<longrightarrow> n2 q = ns q" by (rule links_put_next [OF k(1) d(1), of "hd_or bs None"])
  have "links n2 None bs None = links ns None bs None" using n2(3) d(3) by (intro links_cong) auto
  with k(2) have "links n2 None bs None" by simp
  from links_put_prev [OF this d(2), of "last_or as None"] obtain n3 where
    n3: "put_prev (hd_or bs None) (last_or as None) n2 = Some n3" "links n3 (last_or as None) bs None"
    "\<forall>q. q \<notin> set bs \<longrightarrow> n3 q = n2 q" by blast
  have "links n3 None as (hd_or bs None) = links n2 None as (hd_or bs None)" using n3(3) d(3) by (intro links_cong) auto
  then have full: "links n3 None (as @ bs) None" using n3(2) n2(2) by (simp add: links_append)
  have one: "Option.bind (set_next (last as) (Some (hd bs)) ns) (set_prev (hd bs) (Some (last as))) = Some n3"
    using n2(1) n3(1) ne by (simp add: put_next_def put_prev_def hd_or_def last_or_def)
  have "last as \<in> set as" "hd bs \<in> set bs" using ne by simp_all
  then have "last as \<noteq> hd bs" using d(3) by auto
  then have "Option.bind (set_prev (hd bs) (Some (last as)) ns) (set_next (last as) (Some (hd bs))) = Some n3"
    using one by (auto simp: set_next_def set_prev_def bind_eq_Some_conv fun_upd_twist)
  then show ?thesis using that one full n2(3) n3(3) by auto
qed

lemma splice_nodes_ok:
  assumes l: "spans l xs" "spans s ys" and k: "links ns None xs None" "links ns None ys None" and d: "distinct (xs @ ys)" "ys \<noteq> []"
    and same: "list_elem_size l = list_elem_size s" "0 < list_elem_size l" "al_self (list_al l) = al_self (list_al s)"
  obtains ns' where "splice_nodes l s front ns = Some (ns', respan l (if front then ys @ xs else xs @ ys), respan s [])"
    "links ns' None (if front then ys @ xs else xs @ ys) None" "\<forall>q. q \<notin> set (xs @ ys) \<longrightarrow> ns' q = ns q"
proof -
  have out: "set xs \<inter> set ys = {}" and dd: "distinct xs" "distinct ys" using d by auto
  have A: "ASSERT_LIST (respan l zs) = Some ()" "ASSERT_LIST (respan s []) = Some ()" for zs
    using same assert_list_ok [of "respan l zs" zs] assert_list_ok [of "respan s []" "[]"] by simp_all
  have fin: "splice_nodes l s front ns = Some (ns1, respan l zs, respan s [])"
    if "(if list_len l = 0 then Some (ns, l\<lparr>list_head := list_head s, list_tail := list_tail s\<rparr>)
       else if front then do { t \<leftarrow> list_tail s; m \<leftarrow> set_next t (list_head l) ns; h \<leftarrow> list_head l;
         m1 \<leftarrow> set_prev h (list_tail s) m; Some (m1, l\<lparr>list_head := list_head s\<rparr>) }
       else do { h \<leftarrow> list_head s; m \<leftarrow> set_prev h (list_tail l) ns; t \<leftarrow> list_tail l;
         m1 \<leftarrow> set_next t (list_head s) m; Some (m1, l\<lparr>list_tail := list_tail s\<rparr>) })
      = Some (ns1, l1)" "respan l zs = l1\<lparr>list_len := list_len l1 + list_len s\<rparr>" for ns1 l1 zs
  proof -
    have e: "s\<lparr>list_head := None, list_tail := None, list_len := 0\<rparr> = respan s []" by (simp add: respan_def)
    have "list_len s > 0" using l(2) d(2) by (simp add: spans_def)
    then show ?thesis
      using that(1) A(1) [of zs] A(2) same unfolding splice_nodes_def e by (simp add: c_simps that(2) [symmetric])
  qed
  show ?thesis
  proof (cases "xs = []")
    case True
    have "splice_nodes l s front ns = Some (ns, respan l ys, respan s [])"
      by (rule fin [of ns "l\<lparr>list_head := list_head s, list_tail := list_tail s\<rparr>" ys])
        (use l True in \<open>simp_all add: spans_def respan_def\<close>)
    then show ?thesis using that [of ns] True k(2) by simp
  next
    case False
    have e: "list_head l = Some (hd xs)" "list_tail l = Some (last xs)" "list_head s = Some (hd ys)" "list_tail s = Some (last ys)"
      "list_len l \<noteq> 0" "list_len l = length xs" "list_len s = length ys"
      using l False d(2) by (simp_all add: spans_def hd_or_def last_or_def)
    show ?thesis
    proof (cases front)
      case True
      have out': "set ys \<inter> set xs = {}" using out by auto
      obtain n1 where n1: "Option.bind (set_next (last ys) (Some (hd xs)) ns) (set_prev (hd xs) (Some (last ys))) = Some n1"
        "links n1 None (ys @ xs) None" "\<forall>q. q \<notin> set ys \<union> set xs \<longrightarrow> n1 q = ns q"
        using links_join [OF k(2,1) dd(2,1) out' d(2) False] by metis
      have "splice_nodes l s front ns = Some (n1, respan l (ys @ xs), respan s [])"
        by (rule fin [of n1 "l\<lparr>list_head := list_head s\<rparr>"])
          (use n1(1) e True False d(2) in \<open>auto simp: respan_def hd_or_def last_or_def bind_eq_Some_conv intro!: llist.equality\<close>)
      then show ?thesis using that [of n1] n1(2,3) True by auto
    next
      case tail: False
      obtain n1 where n1: "Option.bind (set_prev (hd ys) (Some (last xs)) ns) (set_next (last xs) (Some (hd ys))) = Some n1"
        "links n1 None (xs @ ys) None" "\<forall>q. q \<notin> set xs \<union> set ys \<longrightarrow> n1 q = ns q"
        using links_join [OF k(1,2) dd(1,2) out False d(2)] by metis
      have "splice_nodes l s front ns = Some (n1, respan l (xs @ ys), respan s [])"
        by (rule fin [of n1 "l\<lparr>list_tail := list_tail s\<rparr>"])
          (use n1(1) e tail False d(2) in \<open>auto simp: respan_def hd_or_def last_or_def bind_eq_Some_conv intro!: llist.equality\<close>)
      then show ?thesis using that [of n1] n1(2,3) tail by auto
    qed
  qed
qed

section \<open>Walks\<close>

text \<open>A loop over the nodes of a chain: each step hands over to the rest of the chain.\<close>

lemma node_loop_rule:
  assumes step: "\<And>p rest st. Q (p # rest) st \<Longrightarrow> \<exists>st'. step p st = Some (st', hd_or rest None) \<and> Q rest st'"
  shows "Q ps st \<Longrightarrow> \<exists>st'. node_loop step (hd_or ps None) st = Some st' \<and> Q [] st'"
proof (induction ps arbitrary: st)
  case Nil
  then show ?case by (simp add: node_loop.simps)
next
  case (Cons p rest)
  obtain s1 where s1: "step p st = Some (s1, hd_or rest None)" "Q rest s1" using step [OF Cons.prems] by blast
  from Cons.IH [OF s1(2)] obtain s2 where "node_loop step (hd_or rest None) s1 = Some s2" "Q [] s2" by blast
  then show ?case using s1(1) by (subst node_loop.simps) simp
qed

text \<open>The same for a loop that may stop at an error: \<open>E\<close> is what holds when it does.\<close>

lemma node_try_rule:
  assumes step: "\<And>p rest st. Q (p # rest) st \<Longrightarrow>
      \<exists>s st' nxt. step p st = Some (s, st', nxt) \<and> (if s = TDA_STATUS_OK then nxt = hd_or rest None \<and> Q rest st' else E st')"
  shows "Q ps st \<Longrightarrow> \<exists>s st'. node_try step (hd_or ps None) st = Some (s, st') \<and> (if s = TDA_STATUS_OK then Q [] st' else E st')"
proof (induction ps arbitrary: st)
  case Nil
  then show ?case by (simp add: node_try.simps)
next
  case (Cons p rest)
  obtain s s1 nxt where s1: "step p st = Some (s, s1, nxt)" "if s = TDA_STATUS_OK then nxt = hd_or rest None \<and> Q rest s1 else E s1"
    using step [OF Cons.prems] by blast
  show ?case
  proof (cases s)
    case TDA_STATUS_OK
    then have "Q rest s1" using s1(2) by simp
    from Cons.IH [OF this] obtain s2 st2 where "node_try step (hd_or rest None) s1 = Some (s2, st2)"
      "if s2 = TDA_STATUS_OK then Q [] st2 else E st2" by blast
    then show ?thesis using s1 TDA_STATUS_OK by (subst node_try.simps) simp
  next
    case TDA_STATUS_ERR_NO_MEM
    then show ?thesis using s1 by (subst node_try.simps) simp
  qed
qed

lemma node_find_ok:
  assumes "chain ns ps None" "\<And>p. p \<in> set ps \<Longrightarrow> test p = Some (P p)"
  shows "node_find test ns (hd_or ps None) = Some (List.find P ps)"
  using assms
proof (induction ps)
  case Nil
  then show ?case by (simp add: node_find.simps)
next
  case (Cons p rest)
  then show ?case by (subst node_find.simps) auto
qed

lemma find_eq: "(\<exists>y. List.find (\<lambda>x. x = p) ps = Some y) \<longleftrightarrow> p \<in> set ps"
  by (induction ps) auto

lemma owns_node_ok: "links ns None ps None \<Longrightarrow> spans l ps \<Longrightarrow> owns_node ns l p = Some (p \<in> set ps)"
  by (simp add: owns_node_def spans_def node_find_ok [OF links_chain, where P = "\<lambda>x. x = p"] find_eq)

section \<open>Reversing\<close>

definition turn :: "tda_ListNode \<Rightarrow> tda_ListNode" where
  "turn n = \<lparr>ln_next = ln_prev n, ln_prev = ln_next n\<rparr>"

lemma links_turned:
  "links ns pr ps nx \<Longrightarrow> (\<And>q. q \<in> set ps \<Longrightarrow> ns' q = map_option turn (ns q)) \<Longrightarrow> links ns' nx (rev ps) pr"
  by (induction ps arbitrary: pr) (auto simp: links_append turn_def)

lemma reverse_ok:
  assumes l: "spans l ps" "0 < list_elem_size l" and k: "links ns None ps None" "distinct ps"
  obtains ns' where "tda_list_reverse ns l = Some (ns', respan l (rev ps))" "links ns' None (rev ps) None"
    "\<forall>q. q \<notin> set ps \<longrightarrow> ns' q = ns q"
proof -
  define step where "step = (\<lambda>p ns :: nodes. do { n \<leftarrow> ns p; Some (ns(p \<mapsto> \<lparr>ln_next = ln_prev n, ln_prev = ln_next n\<rparr>), ln_next n) })"
  define Q where "Q rest m \<longleftrightarrow> (\<exists>as. ps = as @ rest \<and> m = (\<lambda>q. if q \<in> set as then map_option turn (ns q) else ns q))" for rest m
  have "\<exists>m'. step p m = Some (m', hd_or rest None) \<and> Q rest m'" if q: "Q (p # rest) m" for p rest m
  proof -
    obtain as where as: "ps = as @ p # rest" "m = (\<lambda>q. if q \<in> set as then map_option turn (ns q) else ns q)" using q by (auto simp: Q_def)
    have n: "ns p = Some \<lparr>ln_next = hd_or rest None, ln_prev = last_or as None\<rparr>" "p \<notin> set as"
      using k as(1) by (auto simp: links_append)
    have "m(p \<mapsto> \<lparr>ln_next = last_or as None, ln_prev = hd_or rest None\<rparr>)
        = (\<lambda>q. if q \<in> set (as @ [p]) then map_option turn (ns q) else ns q)"
      using n by (auto simp: as(2) turn_def)
    then have "Q rest (m(p \<mapsto> \<lparr>ln_next = last_or as None, ln_prev = hd_or rest None\<rparr>))"
      unfolding Q_def using as(1) by (intro exI [of _ "as @ [p]"]) simp
    then show ?thesis using n by (simp add: step_def as(2))
  qed
  moreover have "Q ps ns" by (simp add: Q_def)
  ultimately obtain m where m: "node_loop step (hd_or ps None) ns = Some m" "Q [] m"
    using node_loop_rule [where Q = Q and step = step and ps = ps and st = ns] by blast
  then have t: "m = (\<lambda>q. if q \<in> set ps then map_option turn (ns q) else ns q)" by (auto simp: Q_def)
  have "links m None (rev ps) None" by (rule links_turned [OF k(1)]) (simp add: t)
  moreover have "l\<lparr>list_head := list_tail l, list_tail := list_head l\<rparr> = respan l (rev ps)"
    using l(1) by (simp add: spans_def respan_def)
  moreover have "ASSERT_LIST (respan l (rev ps)) = Some ()" using assert_list_ok [of "respan l (rev ps)" "rev ps"] l(2) by simp
  ultimately show ?thesis
    using that [of m] m(1) l assert_list_ok [OF l(2,1)] t
    by (simp add: tda_list_reverse_def step_def spans_def Let_def)
qed

section \<open>Repairing the previous links\<close>

lemma relink_prev_ok:
  assumes l: "list_head l = hd_or ps None" and k: "chain ns ps None" "distinct ps"
  obtains ns' where "relink_prev l ns = Some (ns', l\<lparr>list_tail := last_or ps None\<rparr>)" "links ns' None ps None"
    "\<forall>q. q \<notin> set ps \<longrightarrow> ns' q = ns q"
proof -
  define step where "step = (\<lambda>p (prev, ns :: nodes). do { m \<leftarrow> set_prev p prev ns; n \<leftarrow> m p; Some ((Some p, m), ln_next n) })"
  define Q where "Q rest st \<longleftrightarrow> (\<exists>as. ps = as @ rest \<and> fst st = last_or as None \<and> links (snd st) None as (hd_or rest None)
    \<and> (\<forall>q. q \<notin> set as \<longrightarrow> snd st q = ns q))" for rest and st :: "ptr option \<times> nodes"
  have "\<exists>st'. step p st = Some (st', hd_or rest None) \<and> Q rest st'" if q: "Q (p # rest) st" for p rest st
  proof -
    obtain as where as: "ps = as @ p # rest" "fst st = last_or as None" "links (snd st) None as (Some p)"
      "\<forall>q. q \<notin> set as \<longrightarrow> snd st q = ns q" using q by (auto simp: Q_def)
    have d: "p \<notin> set as" using k(2) as(1) by simp
    obtain n where n: "ns p = Some n" "ln_next n = hd_or rest None" using k(1) as(1) by (auto simp: chain_append)
    let ?m = "(snd st)(p \<mapsto> \<lparr>ln_next = hd_or rest None, ln_prev = last_or as None\<rparr>)"
    have "set_prev p (fst st) (snd st) = Some ?m" using n d as(2,4) by (cases n) (simp add: set_prev_def)
    then have "step p st = Some ((Some p, ?m), hd_or rest None)" by (simp add: step_def split_beta)
    moreover have "Q rest (Some p, ?m)"
      unfolding Q_def using as d by (intro exI [of _ "as @ [p]"]) (auto simp: links_append)
    ultimately show ?thesis by blast
  qed
  moreover have "Q ps (None, ns)" by (simp add: Q_def)
  ultimately obtain m where m: "node_loop step (hd_or ps None) (None, ns) = Some m" "Q [] m"
    using node_loop_rule [where Q = Q and step = step and ps = ps and st = "(None, ns)"] by blast
  have "relink_prev l ns = Some (snd m, l\<lparr>list_tail := fst m\<rparr>)"
    using m(1) by (simp add: relink_prev_def l step_def split_beta)
  then show ?thesis using that [of "snd m"] m(2) by (auto simp: Q_def)
qed

section \<open>Merging and sorting\<close>

text \<open>The comparison of two nodes is that of their elements.\<close>

definition node_cmp :: "byte list cmp_fn \<Rightarrow> (ptr \<Rightarrow> byte list) \<Rightarrow> ptr cmp_fn" where
  "node_cmp cmp val p q = cmp (val p) (val q)"

lemma node_comparator: "comparator cmp \<Longrightarrow> comparator (node_cmp cmp val)"
  unfolding comparator_def node_cmp_def by blast

lemma chain_put_ok:
  assumes "chain ns os nx" "distinct os"
  obtains m where "chain_put (hd_or os None) (last_or os None) v ns = Some (hd_or os v, m)" "chain m os v"
    "\<forall>q. q \<notin> set os \<longrightarrow> m q = ns q"
proof (cases os rule: rev_cases)
  case Nil
  then show ?thesis using that [of ns] by (simp add: chain_put_def)
next
  case (snoc as x)
  obtain m where "set_next x v ns = Some m" "chain m (as @ [x]) v" "\<forall>q. q \<noteq> x \<longrightarrow> m q = ns q"
    by (rule chain_set_last [OF assms [unfolded snoc], of v])
  then show ?thesis using that [of m] snoc by (simp add: chain_put_def hd_or_def)
qed

lemma merge_chains_loop_ok:
  assumes "chain ns as None" "chain ns bs None" "chain ns os nx" "distinct (os @ as @ bs)"
    and "\<forall>p \<in> set as \<union> set bs. get p = Some (val p)"
  shows "\<exists>ns'. merge_chains_loop get cmp (hd_or as None) (hd_or bs None) (hd_or os None) (last_or os None) ns
      = Some (hd_or (os @ merge_by (node_cmp cmp val) as bs) None, ns')
    \<and> chain ns' (os @ merge_by (node_cmp cmp val) as bs) None \<and> (\<forall>q. q \<notin> set (os @ as @ bs) \<longrightarrow> ns' q = ns q)"
  using assms
proof (induction "length as + length bs" arbitrary: as bs os ns nx)
  case 0
  then obtain m where "chain_put (hd_or os None) (last_or os None) None ns = Some (hd_or os None, m)" "chain m os None"
    "\<forall>q. q \<notin> set os \<longrightarrow> m q = ns q" using chain_put_ok [of ns os nx None] by auto
  then show ?case using 0 by (simp add: merge_chains_loop.simps)
next
  case (Suc k)
  have dos: "distinct os" using Suc.prems(4) by simp
  have step: ?case
    if c: "cs = os @ [x]" "set cs \<union> set as' \<union> set bs' = set (os @ as @ bs)" "distinct (cs @ as' @ bs')" "k = length as' + length bs'"
      "merge_by (node_cmp cmp val) as bs = x # merge_by (node_cmp cmp val) as' bs'"
      and ab: "as = x # as' \<and> bs' = bs \<or> bs = x # bs' \<and> as' = as"
      and ch: "merge_chains_loop get cmp (hd_or as None) (hd_or bs None) (hd_or os None) (last_or os None) ns
        = do { (h1, m) \<leftarrow> chain_put (hd_or os None) (last_or os None) (Some x) ns; n \<leftarrow> m x;
            merge_chains_loop get cmp (if as = x # as' then ln_next n else hd_or as None)
              (if as = x # as' then hd_or bs None else ln_next n) h1 (Some x) m }"
    for x as' bs' cs
  proof -
    have x: "x \<notin> set os" using c(1,3) by simp
    obtain m where m: "chain_put (hd_or os None) (last_or os None) (Some x) ns = Some (hd_or os (Some x), m)" "chain m os (Some x)"
      "\<forall>q. q \<notin> set os \<longrightarrow> m q = ns q" by (rule chain_put_ok [OF Suc.prems(3) dos, of "Some x"])
    have "chain m as None" "chain m bs None"
      using Suc.prems(1,2,4) m(3) chain_agree [of as m ns None] chain_agree [of bs m ns None] by auto
    then have k': "chain m as' None" "chain m bs' None" using ab by auto
    obtain n where n: "m x = Some n" "ln_next n = (if as = x # as' then hd_or as' None else hd_or bs' None)"
      using \<open>chain m as None\<close> \<open>chain m bs None\<close> ab by auto
    have "chain m cs (ln_next n)" using m(2) n(1) c(1) by (simp add: chain_append)
    from Suc.hyps(1) [OF c(4) k' this c(3)] obtain ns' where ns':
      "merge_chains_loop get cmp (hd_or as' None) (hd_or bs' None) (hd_or cs None) (last_or cs None) m
        = Some (hd_or (cs @ merge_by (node_cmp cmp val) as' bs') None, ns')"
      "chain ns' (cs @ merge_by (node_cmp cmp val) as' bs') None" "\<forall>q. q \<notin> set (cs @ as' @ bs') \<longrightarrow> ns' q = m q"
      using Suc.prems(5) ab by auto
    have e: "cs @ merge_by (node_cmp cmp val) as' bs' = os @ merge_by (node_cmp cmp val) as bs" using c(1,5) by simp
    have "merge_chains_loop get cmp (hd_or as None) (hd_or bs None) (hd_or os None) (last_or os None) ns
      = Some (hd_or (os @ merge_by (node_cmp cmp val) as bs) None, ns')"
      using ch m(1) n ns'(1) ab c(1) unfolding e by (auto split: if_splits)
    moreover have "\<forall>q. q \<notin> set (os @ as @ bs) \<longrightarrow> ns' q = ns q" using ns'(3) m(3) c(2) by auto
    ultimately show ?thesis using ns'(2) unfolding e by blast
  qed
  show ?case
  proof (cases as)
    case Nil
    obtain m where m: "chain_put (hd_or os None) (last_or os None) (hd_or bs None) ns = Some (hd_or os (hd_or bs None), m)"
      "chain m os (hd_or bs None)" "\<forall>q. q \<notin> set os \<longrightarrow> m q = ns q" by (rule chain_put_ok [OF Suc.prems(3) dos, of "hd_or bs None"])
    moreover have "chain m bs None" using Suc.prems(2,4) m(3) chain_agree [of bs m ns None] by auto
    ultimately show ?thesis using Nil by (subst merge_chains_loop.simps) (simp add: chain_append)
  next
    case (Cons x xs)
    note a = Cons
    show ?thesis
    proof (cases bs)
      case Nil
      obtain m where m: "chain_put (hd_or os None) (last_or os None) (hd_or as None) ns = Some (hd_or os (hd_or as None), m)"
        "chain m os (hd_or as None)" "\<forall>q. q \<notin> set os \<longrightarrow> m q = ns q" by (rule chain_put_ok [OF Suc.prems(3) dos, of "hd_or as None"])
      moreover have "chain m as None" using Suc.prems(1,4) m(3) chain_agree [of as m ns None] by auto
      ultimately show ?thesis using Nil a by (subst merge_chains_loop.simps) (simp add: chain_append)
    next
      case (Cons y ys)
      have g: "get x = Some (val x)" "get y = Some (val y)" using Suc.prems(5) a Cons by auto
      have ne: "bs \<noteq> y # as" "as \<noteq> y # ys" using Suc.prems(4) a Cons by auto
      show ?thesis
      proof (cases "cmp (val x) (val y) \<le> 0")
        case True
        show ?thesis
          by (rule step [of "os @ [x]" x xs bs])
            (use True a Cons g Suc.prems(4) Suc.hyps(2) in
              \<open>auto simp: node_cmp_def merge_chains_loop.simps [of get cmp "Some x" "Some y"]\<close>)
      next
        case False
        show ?thesis
          by (rule step [of "os @ [y]" y as ys])
            (use False a Cons g ne Suc.prems(4) Suc.hyps(2) in
              \<open>auto simp: node_cmp_def merge_chains_loop.simps [of get cmp "Some x" "Some y"]\<close>)
      qed
    qed
  qed
qed

lemma merge_chains_ok:
  assumes "chain ns as None" "chain ns bs None" "distinct (as @ bs)" "\<forall>p \<in> set as \<union> set bs. get p = Some (val p)"
  shows "\<exists>ns'. merge_chains get cmp (hd_or as None) (hd_or bs None) ns = Some (hd_or (merge_by (node_cmp cmp val) as bs) None, ns')
    \<and> chain ns' (merge_by (node_cmp cmp val) as bs) None \<and> (\<forall>q. q \<notin> set as \<union> set bs \<longrightarrow> ns' q = ns q)"
  using merge_chains_loop_ok [OF assms(1,2), of "[]" None get val cmp] assms(3,4) by (auto simp: merge_chains_def)

lemma chain_nth:
  "chain ns ps nx \<Longrightarrow> i < length ps \<Longrightarrow> \<exists>n. ns (ps ! i) = Some n \<and> ln_next n = hd_or (drop (Suc i) ps) nx"
proof (induction ps arbitrary: i)
  case (Cons p ps)
  then show ?case by (cases i) auto
qed simp

lemma chain_walk:
  assumes k: "chain ns ps None" and n: "0 < n" "n \<le> length ps"
  shows "for_loop [1..<n] (\<lambda>i p. Option.bind (ns p) ln_next) (hd ps) = Some (ps ! (n - 1))"
proof -
  have "\<exists>s'. for_loop [1..<n] (\<lambda>i p. Option.bind (ns p) ln_next) (hd ps) = Some s' \<and> s' = ps ! (n - 1)"
  proof (rule for_loop_inv_from)
    show "hd ps = ps ! (1 - 1)" using n by (cases ps) auto
    fix i s assume i: "1 \<le> i" "i < n" "s = ps ! (i - 1)"
    obtain m where m: "ns (ps ! (i - 1)) = Some m" "ln_next m = hd_or (drop i ps) None"
    proof -
      have "i - 1 < length ps" "Suc (i - 1) = i" using i n by linarith+
      then show ?thesis using chain_nth [OF k, of "i - 1"] that by auto
    qed
    have "drop i ps = ps ! i # drop (Suc i) ps" using i n by (simp add: Cons_nth_drop_Suc)
    then show "\<exists>s'. Option.bind (ns s) ln_next = Some s' \<and> s' = ps ! (Suc i - 1)" using m i(3) by simp
  qed (use n in simp)
  then show ?thesis by simp
qed

lemma sort_chain_ok:
  assumes C: "comparator cmp"
  shows "chain ns ps None \<Longrightarrow> distinct ps \<Longrightarrow> ps \<noteq> [] \<Longrightarrow> length ps = len \<Longrightarrow> \<forall>p \<in> set ps. get p = Some (val p) \<Longrightarrow>
    \<exists>ms ns'. sort_chain get cmp len (hd_or ps None) ns = Some (hd_or ms None, ns') \<and> chain ns' ms None
      \<and> mset ms = mset ps \<and> stable_of (node_cmp cmp val) ps ms \<and> (\<forall>q. q \<notin> set ps \<longrightarrow> ns' q = ns q)"
proof (induction len arbitrary: ps ns rule: less_induct)
  case (less len)
  have head: "hd_or ps None = Some (hd ps)" using less.prems(3) by (simp add: hd_or_def)
  show ?case
  proof (cases "len < 2")
    case True
    then obtain p where "ps = [p]" using less.prems(3,4) by (cases ps) auto
    then show ?thesis
      using True less.prems(1) by (intro exI [of _ ps] exI [of _ ns])
        (simp add: sort_chain.simps [of get cmp len] stable_of_def sorted_by_def)
  next
    case False
    define h where "h = len div 2"
    have h: "0 < h" "h < len" "h \<le> length ps" "0 < len - h" "len - h < len" using False less.prems(4) by (auto simp: h_def)
    let ?xs = "take h ps" and ?ys = "drop h ps" and ?c = "node_cmp cmp val"
    have tail: "?xs = take (h - 1) ps @ [ps ! (h - 1)]" using h(1,3) take_Suc_conv_app_nth [of "h - 1" ps] by simp
    have split: "chain ns ?xs (hd_or ?ys None)" "chain ns ?ys None"
      using less.prems(1) chain_append [of ns ?xs ?ys None] by simp_all
    have dx: "distinct ?xs" "distinct ?ys" "set ?xs \<inter> set ?ys = {}"
      using less.prems(2) by (simp_all add: set_take_disj_set_drop_if_distinct)
    obtain n where n: "ns (ps ! (h - 1)) = Some n" "ln_next n = hd_or ?ys None"
    proof -
      have "h - 1 < length ps" "Suc (h - 1) = h" using h by linarith+
      then show ?thesis using chain_nth [OF less.prems(1), of "h - 1"] that by auto
    qed
    obtain m1 where m1: "set_next (ps ! (h - 1)) None ns = Some m1" "chain m1 ?xs None" "\<forall>q. q \<noteq> ps ! (h - 1) \<longrightarrow> m1 q = ns q"
      using chain_set_last [OF split(1) [unfolded tail], of None] dx(1) unfolding tail by blast
    have "ps ! (h - 1) \<in> set ?xs" unfolding tail by simp
    then have out: "ps ! (h - 1) \<notin> set ?ys" using dx(3) by (metis disjoint_iff)
    have "m1 q = ns q" if "q \<in> set ?ys" for q using m1(3) out that by metis
    from chain_agree [of ?ys m1 ns, OF this] split(2) have y1: "chain m1 ?ys None" by simp
    have px: "?xs \<noteq> []" "length ?xs = h" "?ys \<noteq> []" "length ?ys = len - h" using h less.prems(4) by auto
    have get: "\<forall>p \<in> set ?xs. get p = Some (val p)" "\<forall>p \<in> set ?ys. get p = Some (val p)"
      using less.prems(5) by (auto dest: in_set_takeD in_set_dropD)
    obtain as m2 where a: "sort_chain get cmp h (hd_or ?xs None) m1 = Some (hd_or as None, m2)" "chain m2 as None"
      "mset as = mset ?xs" "stable_of ?c ?xs as" "\<forall>q. q \<notin> set ?xs \<longrightarrow> m2 q = m1 q"
      using less.IH [OF h(2) m1(2) dx(1) px(1,2) get(1)] by blast
    have y2: "chain m2 ?ys None" using y1 a(5) dx(3) chain_agree [of ?ys m2 m1 None] by auto
    obtain bs m3 where b: "sort_chain get cmp (len - h) (hd_or ?ys None) m2 = Some (hd_or bs None, m3)" "chain m3 bs None"
      "mset bs = mset ?ys" "stable_of ?c ?ys bs" "\<forall>q. q \<notin> set ?ys \<longrightarrow> m3 q = m2 q"
      using less.IH [OF h(5) y2 dx(2) px(3,4) get(2)] by blast
    have sets: "set as = set ?xs" "set bs = set ?ys" using a(3) b(3) mset_eq_setD by blast+
    have "distinct as" "distinct bs" using a(3) b(3) dx(1,2) mset_eq_imp_distinct_iff by blast+
    then have d: "distinct (as @ bs)" using sets dx(3) by simp
    have a3: "chain m3 as None" using a(2) b(5) sets(1) dx(3) chain_agree [of as m3 m2 None] by auto
    have "\<forall>p \<in> set as \<union> set bs. get p = Some (val p)" using get sets by auto
    from merge_chains_ok [OF a3 b(2) d this, of cmp] obtain m4 where
      m4: "merge_chains get cmp (hd_or as None) (hd_or bs None) m3 = Some (hd_or (merge_by ?c as bs) None, m4)"
      "chain m4 (merge_by ?c as bs) None" "\<forall>q. q \<notin> set as \<union> set bs \<longrightarrow> m4 q = m3 q" by blast
    have walk: "for_loop [1..<h] (\<lambda>i p. Option.bind (ns p) ln_next) (hd ps) = Some (ps ! (h - 1))"
      by (rule chain_walk [OF less.prems(1) h(1,3)])
    have e: "hd_or ?xs None = Some (hd ps)" using h(1) less.prems(3) by (simp add: hd_or_def)
    have "sort_chain get cmp len (hd_or ps None) ns = Some (hd_or (merge_by ?c as bs) None, m4)"
      unfolding sort_chain.simps [of get cmp len] head
      using False walk n m1(1) a(1) [unfolded e] b(1) m4(1) by (simp add: Let_def flip: h_def)
    moreover have "mset (merge_by ?c as bs) = mset ps"
      by (simp add: a(3) b(3) flip: mset_append)
    moreover have "stable_of ?c ps (merge_by ?c as bs)"
      using comparator.stable_merge [OF node_comparator [OF C] a(4) b(4)] by simp
    moreover have "m4 q = ns q" if "q \<notin> set ps" for q
    proof -
      have "q \<notin> set ?xs" "q \<notin> set ?ys" using that by (auto dest: in_set_takeD in_set_dropD)
      then show ?thesis using m4(3) b(5) a(5) m1(3) sets \<open>ps ! (h - 1) \<in> set ?xs\<close> by (metis UnE)
    qed
    ultimately show ?thesis using m4(2) by blast
  qed
qed

end
