(* ===== verification/Tda_List_Laws.thy ===== *)
theory Tda_List_Laws
  imports Tda_List_Chains
begin

text \<open>
  What the operations of \<open>Tda_List\<close> do to the sequence of elements. \<open>list_rep\<close> says that a list
  struct, the links and the blocks make up a list with the nodes \<open>ps\<close>; \<open>list_vals\<close> are the
  elements in them. The operations need an allocator whose blocks are aligned for any type,
  since a node asserts it (\<open>node_allocator\<close>; every \<open>host\<close> is one).
\<close>

section \<open>Allocators of nodes\<close>

locale node_allocator = allocator +
  assumes block_aligned: "inv w \<Longrightarrow> owned p \<Longrightarrow> heap w p = Some bs \<Longrightarrow> 16 dvd addr_of p \<and> addr_of p \<le> SIZE_MAX"

sublocale host \<subseteq> nodes: node_allocator
  by unfold_locales (use host_aligned in fastforce)

section \<open>Representation\<close>

definition node_val :: "'s world \<Rightarrow> ptr \<Rightarrow> byte list" where
  "node_val w p = drop sizeof_tda_ListNode (the (heap w p))"

definition list_vals :: "'s world \<Rightarrow> ptr list \<Rightarrow> byte list list" where
  "list_vals w ps = map (node_val w) ps"

definition list_rep :: "(ptr \<Rightarrow> bool) \<Rightarrow> 's world \<Rightarrow> nodes \<Rightarrow> 's llist \<Rightarrow> ptr list \<Rightarrow> bool" where
  "list_rep owned w ns l ps \<longleftrightarrow> 0 < list_elem_size l \<and> (ps \<noteq> [] \<longrightarrow> 16 + list_elem_size l \<le> SIZE_MAX)
     \<and> owned (list_self l) \<and> block_at w (list_self l) sizeof_tda_List \<and> list_self l \<notin> set ps
     \<and> distinct ps \<and> spans l ps \<and> links ns None ps None
     \<and> (\<forall>p \<in> set ps. owned p \<and> block_at w p (16 + list_elem_size l))"

definition list_blocks :: "'s llist \<Rightarrow> ptr list \<Rightarrow> ptr set" where
  "list_blocks l ps = insert (list_self l) (set ps)"

text \<open>What a call may touch, of the heap and of the links beside it: its own nodes, before and after.\<close>

definition node_frame :: "'s world \<Rightarrow> (ptr \<Rightarrow> 'n) \<Rightarrow> ptr set \<Rightarrow> 's world \<Rightarrow> (ptr \<Rightarrow> 'n) \<Rightarrow> ptr set \<Rightarrow> bool" where
  "node_frame w ns B w' ns' B' \<longleftrightarrow> frame w B w' B' \<and> (\<forall>q. heap w q \<noteq> None \<longrightarrow> q \<notin> B \<longrightarrow> ns' q = ns q)"

lemma node_frame_refl: "heap w' = heap w \<Longrightarrow> node_frame w ns B w' ns B"
  by (simp add: node_frame_def frame_refl)

lemma node_frame_trans:
  assumes "node_frame w ns B w1 n1 B1" "node_frame w1 n1 B1 w2 n2 B2"
  shows "node_frame w ns B w2 n2 B2"
proof -
  have "n2 q = ns q" if q: "heap w q \<noteq> None" "q \<notin> B" for q
  proof -
    obtain bs where "heap w q = Some bs" using q(1) by auto
    then have "heap w1 q \<noteq> None" "q \<notin> B1" using frame_other [of w B w1 B1 q] assms(1) q(2) by (auto simp: node_frame_def)
    then show ?thesis using assms q by (simp add: node_frame_def)
  qed
  then show ?thesis using assms frame_trans [of w B w1 B1 w2 B2] by (simp add: node_frame_def)
qed

lemma list_rep_assert: "list_rep owned w ns l ps \<Longrightarrow> ASSERT_LIST l = Some ()"
  by (rule assert_list_ok [of l ps]) (simp_all add: list_rep_def)

lemma list_rep_live: "list_rep owned w ns l ps \<Longrightarrow> q \<in> list_blocks l ps \<Longrightarrow> heap w q \<noteq> None"
  by (auto simp: list_rep_def list_blocks_def block_at_def)

lemma list_rep_stable:
  assumes "list_rep owned w ns l ps" "\<And>q. q \<in> list_blocks l ps \<Longrightarrow> heap w' q = heap w q" "\<And>q. q \<in> set ps \<Longrightarrow> ns' q = ns q"
  shows "list_rep owned w' ns' l ps" and "list_vals w' ps = list_vals w ps"
  using assms links_cong [of ps ns' ns None None]
  by (auto simp: list_rep_def list_blocks_def block_at_def list_vals_def node_val_def)

lemma list_rep_cong: "heap w' = heap w \<Longrightarrow> list_rep owned w' ns l ps = list_rep owned w ns l ps"
  and list_vals_cong: "heap w' = heap w \<Longrightarrow> list_vals w' ps = list_vals w ps"
  by (simp_all add: list_rep_def block_at_def list_vals_def node_val_def)

lemma node_elem_ok:
  assumes "list_rep owned w ns l ps" "p \<in> set ps"
  shows "node_elem w (list_elem_size l) p = Some (node_val w p)" and "length (node_val w p) = list_elem_size l"
proof -
  obtain bs where b: "heap w p = Some bs" "length bs = 16 + list_elem_size l"
    using assms by (auto simp: list_rep_def block_at_def)
  then have "slice 16 (list_elem_size l) bs = drop 16 bs" by (simp add: slice_def)
  then show "node_elem w (list_elem_size l) p = Some (node_val w p)" "length (node_val w p) = list_elem_size l"
    using b by (simp_all add: node_elem_def node_val_def sizeof_tda_ListNode_def mem_read_ok)
qed

lemma list_vals_length: "length (list_vals w ps) = length ps"
  by (simp add: list_vals_def)

section \<open>Making and freeing a node\<close>

context node_allocator
begin

lemma node_new_ok:
  assumes w: "inv w" and x: "length x = es" "0 < es"
  obtains (no) w' where "node_new al es x w ns = Some (TDA_STATUS_ERR_NO_MEM, None, w', ns)" "inv w'" "heap w' = heap w"
  | (ok) p w' bs where "node_new al es x w ns = Some (TDA_STATUS_OK, Some p, w', ns(p \<mapsto> \<lparr>ln_next = None, ln_prev = None\<rparr>))"
      "inv w'" "owned p" "heap w p = None" "heap w' = (heap w)(p \<mapsto> bs)" "length bs = 16 + es" "drop 16 bs = x" "16 + es \<le> SIZE_MAX"
proof (cases "16 + es \<le> SIZE_MAX")
  case False
  then show ?thesis using no [of w] w x by (simp add: node_new_def ckd_add_def sizeof_tda_ListNode_def)
next
  case True
  show ?thesis
  proof (rule alloc_cases [OF w True])
    fix w1 assume "tda_alloc al w (16 + es) = Some (None, w1)" "inv w1" "heap w1 = heap w"
    then show ?thesis using no [of w1] x True by (simp add: node_new_def ckd_add_def sizeof_tda_ListNode_def)
  next
    fix p w1 bs assume a: "tda_alloc al w (16 + es) = Some (Some p, w1)" "inv w1" "owned p" "heap w p = None"
      "length bs = 16 + es" "heap w1 = (heap w)(p \<mapsto> bs)"
    have h: "heap w1 p = Some bs" using a(6) by simp
    have "tda_ptr_is_aligned (addr_of p) (2 ^ 4) = Some (2 ^ 4 dvd addr_of p)"
      using block_aligned [OF a(2,3) h] by (intro tda_ptr_is_aligned_pow2) simp_all
    then have al: "tda_ptr_is_aligned (addr_of p) 16 = Some True" using block_aligned [OF a(2,3) h] by simp
    let ?bs = "blit 16 x bs"
    have len: "length ?bs = length bs" using a(5) x(1) by (simp add: length_blit)
    define w2 where "w2 = w1\<lparr>heap := (heap w1)(p \<mapsto> ?bs)\<rparr>"
    have m: "mem_write w1 p 16 (take es x) = Some w2" using a(5) h x(1) by (simp add: mem_write_ok w2_def)
    have i: "inv w2" unfolding w2_def by (rule write_law [OF a(2) h len])
    have "drop 16 ?bs = x" using a(5) x(1) by (simp add: blit_def)
    then show ?thesis
      using ok [of p w2 ?bs] m i a len al True x by (simp add: node_new_def ckd_add_def sizeof_tda_ListNode_def w2_def Let_def)
  qed
qed

lemma node_drop_ok:
  assumes w: "inv w" and p: "owned p" "block_at w p (16 + es)" "16 + es \<le> SIZE_MAX"
  obtains w' where "node_drop al es p w ns = Some (w', ns(p := None))" "inv w'" "heap w' = (heap w)(p := None)"
proof -
  obtain bs where "heap w p = Some bs" "length bs = 16 + es" using p(2) by (auto simp: block_at_def)
  from dealloc_some [OF w p(1) this] obtain w' where "tda_dealloc al w (Some p) (16 + es) = Some w'" "inv w'"
    "heap w' = (heap w)(p := None)" .
  then show ?thesis using that p(3) by (simp add: node_drop_def node_bytes_def sizeof_tda_ListNode_def size_add_exact)
qed

end

section \<open>Inserting and removing\<close>

text \<open>What an insertion reports and leaves behind.\<close>

definition inserted ::
  "(ptr \<Rightarrow> bool) \<Rightarrow> 's world \<Rightarrow> nodes \<Rightarrow> 's llist \<Rightarrow> ptr list \<Rightarrow> ptr list \<Rightarrow> byte list \<Rightarrow>
    tda_Status \<Rightarrow> 's world \<Rightarrow> nodes \<Rightarrow> 's llist \<Rightarrow> bool" where
  "inserted owned w ns l xs ys x st w' ns' l' \<longleftrightarrow> (if st = TDA_STATUS_OK
     then \<exists>p. l' = respan l (xs @ p # ys) \<and> list_rep owned w' ns' l' (xs @ p # ys)
       \<and> node_frame w ns (list_blocks l (xs @ ys)) w' ns' (list_blocks l (xs @ p # ys))
       \<and> list_vals w' (xs @ p # ys) = list_vals w xs @ x # list_vals w ys
     else l' = l \<and> heap w' = heap w \<and> ns' = ns)"

lemma list_rep_node: "list_rep owned w ns l (xs @ p # ys) \<Longrightarrow>
    ns p = Some \<lparr>ln_next = hd_or ys None, ln_prev = last_or xs None\<rparr> \<and> ASSERT_NODE ns p = Some () \<and> owns_node ns l p = Some True"
  using owns_node_ok [of ns "xs @ p # ys" l p] assert_node_ok [of ns xs p ys] by (simp add: list_rep_def links_append)

lemma list_rep_respan:
  assumes "list_rep owned w ns l ps" "distinct qs" "links ns' None qs None" "list_self l \<notin> set qs"
    "block_at w' (list_self l) sizeof_tda_List"
    "\<forall>p \<in> set qs. owned p \<and> block_at w' p (16 + list_elem_size l)" "qs \<noteq> [] \<Longrightarrow> 16 + list_elem_size l \<le> SIZE_MAX"
  shows "list_rep owned w' ns' (respan l qs) qs"
  using assms by (simp add: list_rep_def)

context node_allocator
begin

lemma insert_between_spec:
  assumes w: "inv w" and l: "list_rep owned w ns l (xs @ ys)" "list_al l = al" and x: "length x = list_elem_size l"
  shows "\<exists>st w' ns' l'. insert_between l (last_or xs None) (hd_or ys None) x w ns = Some (st, w', ns', l') \<and> inv w'
    \<and> inserted owned w ns l xs ys x st w' ns' l'"
proof -
  have es: "0 < list_elem_size l" using l(1) by (simp add: list_rep_def)
  show ?thesis
  proof (rule node_new_ok [OF w x es, of ns])
    fix w1 assume "node_new al (list_elem_size l) x w ns = Some (TDA_STATUS_ERR_NO_MEM, None, w1, ns)" "inv w1" "heap w1 = heap w"
    then show ?thesis by (simp add: insert_between_def l(2) inserted_def)
  next
    fix p w1 bs
    let ?n1 = "ns(p \<mapsto> \<lparr>ln_next = None, ln_prev = None\<rparr>)" and ?ps = "xs @ p # ys"
    assume n: "node_new al (list_elem_size l) x w ns = Some (TDA_STATUS_OK, Some p, w1, ?n1)" "inv w1" "owned p" "heap w p = None"
      "heap w1 = (heap w)(p \<mapsto> bs)" "length bs = 16 + list_elem_size l" "drop 16 bs = x" "16 + list_elem_size l \<le> SIZE_MAX"
    have fresh: "p \<notin> list_blocks l (xs @ ys)" using list_rep_live [OF l(1)] n(4) by blast
    have k: "links ?n1 None (xs @ ys) None" and d: "distinct ?ps" and sp: "spans l (xs @ ys)"
      using l(1) fresh by (auto simp: list_rep_def list_blocks_def)
    have "?n1 p \<noteq> None" by simp
    from link_node_ok [OF sp k d this] obtain n2 where
      n2: "link_node l p (last_or xs None) (hd_or ys None) ?n1 = Some (n2, respan l ?ps)" "links n2 None ?ps None"
      "\<forall>q. q \<notin> set ?ps \<longrightarrow> n2 q = ?n1 q" by blast
    have blk: "\<forall>q \<in> set ?ps. owned q \<and> block_at w1 q (16 + list_elem_size l)"
      using l(1) n(3,5,6) by (auto simp: list_rep_def block_at_def)
    have self: "list_self l \<notin> set ?ps" "block_at w1 (list_self l) sizeof_tda_List"
      using l(1) fresh n(5) by (auto simp: list_rep_def list_blocks_def block_at_def)
    have rep: "list_rep owned w1 n2 (respan l ?ps) ?ps" by (rule list_rep_respan [OF l(1) d n2(2) self blk n(8)])
    have "node_val w1 q = node_val w q" if "q \<in> set (xs @ ys)" for q
      using that fresh n(5) by (auto simp: node_val_def list_blocks_def)
    moreover have "node_val w1 p = x" using n(5,7) by (simp add: node_val_def sizeof_tda_ListNode_def)
    ultimately have vals: "list_vals w1 ?ps = list_vals w xs @ x # list_vals w ys" by (simp add: list_vals_def)
    have bl: "list_blocks l ?ps = insert p (list_blocks l (xs @ ys))" by (auto simp: list_blocks_def)
    have "n2 q = ns q" if "heap w q \<noteq> None" "q \<notin> list_blocks l (xs @ ys)" for q
    proof -
      have "q \<noteq> p" "q \<notin> set ?ps" using that n(4) by (auto simp: list_blocks_def)
      then show ?thesis using n2(3) by simp
    qed
    then have "node_frame w ns (list_blocks l (xs @ ys)) w1 n2 (list_blocks l ?ps)"
      unfolding node_frame_def bl using frame_acquire [OF n(4,5)] by blast
    moreover have "ASSERT_NODE n2 p = Some ()" using assert_node_ok [OF n2(2)] .
    ultimately have "inserted owned w ns l xs ys x TDA_STATUS_OK w1 n2 (respan l ?ps)"
      using rep vals by (auto simp: inserted_def)
    then show ?thesis
      using n(1,2) n2(1) list_rep_assert [OF rep] \<open>ASSERT_NODE n2 p = Some ()\<close> by (simp add: insert_between_def l(2))
  qed
qed

lemma remove_node_spec:
  assumes w: "inv w" and l: "list_rep owned w ns l (xs @ p # ys)" "list_al l = al"
  shows "\<exists>w' ns'. remove_node l p w ns = Some (w', ns', respan l (xs @ ys)) \<and> inv w'
    \<and> list_rep owned w' ns' (respan l (xs @ ys)) (xs @ ys) \<and> list_vals w' (xs @ ys) = list_vals w (xs @ ys)
    \<and> heap w' = (heap w)(p := None)
    \<and> node_frame w ns (list_blocks l (xs @ p # ys)) w' ns' (list_blocks l (xs @ ys))"
proof -
  have k: "links ns None (xs @ p # ys) None" "distinct (xs @ p # ys)" "spans l (xs @ p # ys)"
    and sz: "16 + list_elem_size l \<le> SIZE_MAX" and p: "owned p" "block_at w p (16 + list_elem_size l)" "p \<noteq> list_self l"
    using l(1) by (auto simp: list_rep_def)
  obtain n1 where n1: "unlink_node l p ns = Some (n1, respan l (xs @ ys))" "links n1 None (xs @ ys) None"
    "\<forall>q. q \<notin> set (xs @ ys) \<longrightarrow> n1 q = ns q" by (rule unlink_node_ok [OF k(3,1,2)])
  obtain w2 where w2: "node_drop al (list_elem_size l) p w n1 = Some (w2, n1(p := None))" "inv w2" "heap w2 = (heap w)(p := None)"
    by (rule node_drop_ok [OF w p(1,2) sz, of n1])
  have out: "p \<notin> set (xs @ ys)" using k(2) by auto
  have "links (n1(p := None)) None (xs @ ys) None" using n1(2) links_update [OF out] by blast
  then have rep: "list_rep owned w2 (n1(p := None)) (respan l (xs @ ys)) (xs @ ys)"
    using l(1) k(2) out w2(3) by (intro list_rep_respan [OF l(1)]) (auto simp: list_rep_def block_at_def)
  have "node_frame w ns (list_blocks l (xs @ p # ys)) w2 (n1(p := None)) (list_blocks l (xs @ ys))"
    using w2(3) n1(3) p(3) out by (auto simp: node_frame_def frame_def list_blocks_def)
  moreover have "list_vals w2 (xs @ ys) = list_vals w (xs @ ys)" using out w2(3) by (auto simp: list_vals_def node_val_def)
  ultimately show ?thesis
    using n1(1) w2 rep list_rep_assert [OF rep] l(2) by (simp add: remove_node_def)
qed


lemma clear_nodes_spec:
  assumes w: "inv w" and l: "list_rep owned w ns l ps" "list_al l = al"
  shows "\<exists>w' ns'. clear_nodes w ns l = Some (w', ns', respan l []) \<and> inv w' \<and> list_rep owned w' ns' (respan l []) []
    \<and> heap w' = (\<lambda>q. if q \<in> set ps then None else heap w q) \<and> (\<forall>q. q \<notin> set ps \<longrightarrow> ns' q = ns q)"
proof -
  let ?es = "list_elem_size l"
  define step where "step = (\<lambda>p (w, ns). do { n \<leftarrow> ns p; s \<leftarrow> node_drop al ?es p w ns; Some (s, ln_next n) })"
  define Q where "Q rest st \<longleftrightarrow> inv (fst st) \<and> (\<exists>as. ps = as @ rest
    \<and> heap (fst st) = (\<lambda>q. if q \<in> set as then None else heap w q) \<and> (\<forall>q. q \<notin> set as \<longrightarrow> snd st q = ns q))" for rest st
  have k: "links ns None ps None" "distinct ps" and sp: "spans l ps" and sz: "ps \<noteq> [] \<longrightarrow> 16 + ?es \<le> SIZE_MAX"
    and blk: "\<forall>p \<in> set ps. owned p \<and> block_at w p (16 + ?es)" using l(1) by (simp_all add: list_rep_def)
  have "\<exists>st'. step p st = Some (st', hd_or rest None) \<and> Q rest st'" if q: "Q (p # rest) st" for p rest st
  proof -
    obtain as where as: "ps = as @ p # rest" "heap (fst st) = (\<lambda>q. if q \<in> set as then None else heap w q)"
      "\<forall>q. q \<notin> set as \<longrightarrow> snd st q = ns q" "inv (fst st)" using q by (auto simp: Q_def)
    have d: "p \<notin> set as" using k(2) as(1) by simp
    have n: "snd st p = Some \<lparr>ln_next = hd_or rest None, ln_prev = last_or as None\<rparr>"
      using k(1) as(1,3) d by (simp add: links_append)
    have p: "owned p" "block_at (fst st) p (16 + ?es)" "16 + ?es \<le> SIZE_MAX"
      using blk sz as(1,2) d by (simp_all add: block_at_def)
    obtain w1 where w1: "node_drop al ?es p (fst st) (snd st) = Some (w1, (snd st)(p := None))" "inv w1"
      "heap w1 = (heap (fst st))(p := None)" by (rule node_drop_ok [OF as(4) p, of "snd st"])
    have "step p st = Some ((w1, (snd st)(p := None)), hd_or rest None)" using n w1(1) by (simp add: step_def split_beta)
    moreover have "Q rest (w1, (snd st)(p := None))"
      unfolding Q_def using as w1(2,3) by (auto intro!: exI [of _ "as @ [p]"])
    ultimately show ?thesis by blast
  qed
  moreover have "Q ps (w, ns)" using w by (simp add: Q_def)
  ultimately obtain st where st: "node_loop step (hd_or ps None) (w, ns) = Some st" "Q [] st"
    using node_loop_rule [where Q = Q and step = step and ps = ps and st = "(w, ns)"] by blast
  then have h: "inv (fst st)" "heap (fst st) = (\<lambda>q. if q \<in> set ps then None else heap w q)" "\<forall>q. q \<notin> set ps \<longrightarrow> snd st q = ns q"
    by (auto simp: Q_def)
  have "l\<lparr>list_head := None, list_tail := None, list_len := 0\<rparr> = respan l []" by (simp add: respan_def)
  then have "clear_nodes w ns l = Some (fst st, snd st, respan l [])"
    using st(1) sp l(2) by (simp add: clear_nodes_def step_def spans_def split_beta)
  moreover have "list_rep owned (fst st) (snd st) (respan l []) []"
    using l(1) h(2) by (simp add: list_rep_def block_at_def)
  ultimately show ?thesis using h by blast
qed

end

end
