(* ===== verification/Tda_List_Calls.thy ===== *)
theory Tda_List_Calls
  imports Tda_List_Laws
begin

text \<open>
  The list as an abstract sequence: \<open>list_step\<close> runs one call of \<open>src/ds/list.c\<close> on the model, a
  node being named by its place and reached by \<open>tda_list_node_next\<close> from the front, and
  \<open>lseq_step\<close> is what the call does to the list of elements. The contract \<open>refined_calls\<close> holds
  of them over every allocator of nodes.
\<close>

section \<open>The nodes of a list\<close>

primrec walk :: "nodes \<Rightarrow> nat \<Rightarrow> ptr option \<Rightarrow> ptr list" where
  "walk ns 0 cur = []"
| "walk ns (Suc n) cur = (case cur of None \<Rightarrow> [] | Some p \<Rightarrow> p # walk ns n (Option.bind (ns p) ln_next))"

definition list_nodes :: "nodes \<Rightarrow> 's llist \<Rightarrow> ptr list" where
  "list_nodes ns l = walk ns (list_len l) (list_head l)"

lemma walk_chain: "chain ns ps None \<Longrightarrow> walk ns (length ps) (hd_or ps None) = ps"
  by (induction ps) auto

lemma list_nodes_eq: "list_rep owned w ns l ps \<Longrightarrow> list_nodes ns l = ps"
  using walk_chain [of ns ps] links_chain [of ns None ps None] by (auto simp: list_rep_def list_nodes_def spans_def)

text \<open>The handle of the element at \<open>i\<close>, as a caller gets it.\<close>

definition list_handle :: "nodes \<Rightarrow> 's llist \<Rightarrow> nat \<Rightarrow> ptr option" where
  "list_handle ns l i = do {
     r \<leftarrow> tda_list_front_node l;
     p \<leftarrow> r;
     for_loop [0..<i] (\<lambda>_ p. do { r \<leftarrow> tda_list_node_next ns p; r }) p
   }"

lemma list_rep_split:
  assumes "list_rep owned w ns l ps" "i < length ps"
  shows "list_rep owned w ns l (take i ps @ ps ! i # drop (Suc i) ps)"
  using assms id_take_nth_drop [OF assms(2)] by simp

lemma list_handle_ok:
  assumes l: "list_rep owned w ns l ps" and i: "i < length ps"
  shows "list_handle ns l i = Some (ps ! i)"
proof -
  have h: "tda_list_front_node l = Some (Some (ps ! 0))"
    using list_rep_assert [OF l] l i by (cases ps) (auto simp: tda_list_front_node_def list_rep_def spans_def)
  have "\<exists>s. for_loop [0..<i] (\<lambda>_ p. do { r \<leftarrow> tda_list_node_next ns p; r }) (ps ! 0) = Some s \<and> s = ps ! i"
  proof (rule for_loop_inv_from)
    fix j s assume j: "0 \<le> j" "j < i" "s = ps ! j"
    then have "j < length ps" using i by simp
    from list_rep_node [OF list_rep_split [OF l this]] have "ns (ps ! j) = Some \<lparr>ln_next = hd_or (drop (Suc j) ps) None,
      ln_prev = last_or (take j ps) None\<rparr>" "ASSERT_NODE ns (ps ! j) = Some ()" by simp_all
    moreover have "hd_or (drop (Suc j) ps) None = Some (ps ! Suc j)" using i j by (simp add: hd_or_def hd_drop_conv_nth)
    ultimately show "\<exists>s'. (do { r \<leftarrow> tda_list_node_next ns s; r }) = Some s' \<and> s' = ps ! Suc j"
      by (simp add: tda_list_node_next_def j(3))
  qed simp_all
  then show ?thesis using h by (simp add: list_handle_def)
qed

section \<open>Calls\<close>

datatype list_op = LPushFront "byte list" | LPushBack "byte list" | LPopFront | LPopBack
  | LInsertBefore nat "byte list" | LInsertAfter nat "byte list" | LRemove nat | LClear | LReverse | LSort "byte list cmp_fn"

type_synonym 's memory = "'s world \<times> nodes"

definition relinked :: "(nodes \<times> 's llist) option \<Rightarrow> 's world \<Rightarrow> (tda_Status \<times> 's memory \<times> 's llist) option" where
  "relinked r w = do { (ns, l) \<leftarrow> r; Some (TDA_STATUS_OK, (w, ns), l) }"

definition removed :: "('s world \<times> nodes \<times> 's llist) option \<Rightarrow> (tda_Status \<times> 's memory \<times> 's llist) option" where
  "removed r = do { (w, ns, l) \<leftarrow> r; Some (TDA_STATUS_OK, (w, ns), l) }"

definition reported :: "(tda_Status \<times> 's world \<times> nodes \<times> 's llist) option \<Rightarrow> (tda_Status \<times> 's memory \<times> 's llist) option" where
  "reported r = do { (st, w, ns, l) \<leftarrow> r; Some (st, (w, ns), l) }"

lemmas call_forms = relinked_def removed_def reported_def

definition list_step :: "list_op \<Rightarrow> 's memory \<Rightarrow> 's llist \<Rightarrow> (tda_Status \<times> 's memory \<times> 's llist) option" where
  "list_step op m l = (case m of (w, ns) \<Rightarrow> (case op of
      LPushFront x \<Rightarrow> reported (tda_list_push_front w ns l x)
    | LPushBack x \<Rightarrow> reported (tda_list_push_back w ns l x)
    | LPopFront \<Rightarrow> removed (tda_list_pop_front w ns l)
    | LPopBack \<Rightarrow> removed (tda_list_pop_back w ns l)
    | LInsertBefore i x \<Rightarrow> do { p \<leftarrow> list_handle ns l i; reported (tda_list_insert_before w ns l p x) }
    | LInsertAfter i x \<Rightarrow> do { p \<leftarrow> list_handle ns l i; reported (tda_list_insert_after w ns l p x) }
    | LRemove i \<Rightarrow> do { p \<leftarrow> list_handle ns l i; removed (tda_list_remove w ns l p) }
    | LClear \<Rightarrow> removed (tda_list_clear w ns l)
    | LReverse \<Rightarrow> relinked (tda_list_reverse ns l) w
    | LSort cmp \<Rightarrow> relinked (tda_list_sort w ns l cmp) w))"

definition lseq_allowed :: "list_op \<Rightarrow> seq \<Rightarrow> bool" where
  "lseq_allowed op s = (case s of (es, xs) \<Rightarrow> (case op of
      LPushFront x \<Rightarrow> length x = es
    | LPushBack x \<Rightarrow> length x = es
    | LPopFront \<Rightarrow> xs \<noteq> []
    | LPopBack \<Rightarrow> xs \<noteq> []
    | LInsertBefore i x \<Rightarrow> length x = es \<and> i < length xs
    | LInsertAfter i x \<Rightarrow> length x = es \<and> i < length xs
    | LRemove i \<Rightarrow> i < length xs
    | LSort cmp \<Rightarrow> comparator cmp
    | _ \<Rightarrow> True))"

text \<open>A sort is what its result is: sorted, and equal elements in the order they were in.\<close>

definition lseq_step :: "list_op \<Rightarrow> seq \<Rightarrow> seq \<Rightarrow> bool" where
  "lseq_step op s s' = (case s of (es, xs) \<Rightarrow> fst s' = es \<and> (case op of
      LPushFront x \<Rightarrow> snd s' = x # xs
    | LPushBack x \<Rightarrow> snd s' = xs @ [x]
    | LPopFront \<Rightarrow> snd s' = tl xs
    | LPopBack \<Rightarrow> snd s' = butlast xs
    | LInsertBefore i x \<Rightarrow> snd s' = take i xs @ x # drop i xs
    | LInsertAfter i x \<Rightarrow> snd s' = take (i + 1) xs @ x # drop (i + 1) xs
    | LRemove i \<Rightarrow> snd s' = take i xs @ drop (i + 1) xs
    | LClear \<Rightarrow> snd s' = []
    | LReverse \<Rightarrow> snd s' = rev xs
    | LSort cmp \<Rightarrow> mset (snd s') = mset xs \<and> stable_of cmp xs (snd s')))"

definition list_abs :: "'s memory \<Rightarrow> 's llist \<Rightarrow> seq" where
  "list_abs m l = (list_elem_size l, list_vals (fst m) (list_nodes (snd m) l))"

definition list_ok :: "'s al \<Rightarrow> ('s world \<Rightarrow> bool) \<Rightarrow> (ptr \<Rightarrow> bool) \<Rightarrow> 's memory \<Rightarrow> 's llist \<Rightarrow> bool" where
  "list_ok al I owned m l \<longleftrightarrow> I (fst m) \<and> list_rep owned (fst m) (snd m) l (list_nodes (snd m) l) \<and> list_al l = al"

definition list_frame :: "'s memory \<Rightarrow> 's llist \<Rightarrow> 's memory \<Rightarrow> 's llist \<Rightarrow> bool" where
  "list_frame m l m' l' \<longleftrightarrow>
     node_frame (fst m) (snd m) (list_blocks l (list_nodes (snd m) l)) (fst m') (snd m') (list_blocks l' (list_nodes (snd m') l'))
     \<and> list_self l' = list_self l \<and> list_elem_size l' = list_elem_size l \<and> list_al l' = list_al l"

lemma list_frame_refl: "list_frame m l m l"
  by (simp add: list_frame_def node_frame_refl)

lemma list_frame_trans: "list_frame m l m1 l1 \<Longrightarrow> list_frame m1 l1 m2 l2 \<Longrightarrow> list_frame m l m2 l2"
  by (auto simp: list_frame_def intro: node_frame_trans)

text \<open>What is left to show of one call.\<close>

definition list_did ::
  "'s al \<Rightarrow> ('s world \<Rightarrow> bool) \<Rightarrow> (ptr \<Rightarrow> bool) \<Rightarrow> 's memory \<Rightarrow> 's llist \<Rightarrow> tda_Status \<Rightarrow> 's memory \<Rightarrow> 's llist \<Rightarrow> byte list list \<Rightarrow> bool"
where
  "list_did al I owned m l st m' l' xs \<longleftrightarrow> list_ok al I owned m' l' \<and> list_frame m l m' l'
     \<and> snd (list_abs m' l') = (if st = TDA_STATUS_OK then xs else snd (list_abs m l))"

lemma list_did_refines:
  assumes "list_did al I owned m l st m' l' xs" "lseq_step op (list_abs m l) (list_elem_size l, xs)"
  shows "list_ok al I owned m' l' \<and> list_frame m l m' l' \<and> call_refines lseq_step op st (list_abs m l) (list_abs m' l')"
  using assms by (auto simp: list_did_def call_refines_def list_abs_def list_frame_def)

lemma list_did_rep:
  assumes l: "list_rep owned w ns l ps" "list_al l = al" and i: "I w'" and l': "list_rep owned w' ns' (respan l qs) qs"
    and f: "node_frame w ns (list_blocks l ps) w' ns' (list_blocks l qs)" and v: "list_vals w' qs = xs"
  shows "list_did al I owned (w, ns) l TDA_STATUS_OK (w', ns') (respan l qs) xs"
  using list_nodes_eq [OF l(1)] list_nodes_eq [OF l'] assms
  by (simp add: list_did_def list_ok_def list_frame_def list_abs_def list_blocks_def)

lemma list_did_inserted:
  assumes l: "list_rep owned w ns l (xs @ ys)" "list_al l = al" and i: "I w'" and d: "inserted owned w ns l xs ys x st w' ns' l'"
  shows "list_did al I owned (w, ns) l st (w', ns') l' (list_vals w xs @ x # list_vals w ys)"
proof (cases st)
  case TDA_STATUS_OK
  then obtain p where p: "l' = respan l (xs @ p # ys)" "list_rep owned w' ns' l' (xs @ p # ys)"
    "node_frame w ns (list_blocks l (xs @ ys)) w' ns' (list_blocks l (xs @ p # ys))"
    "list_vals w' (xs @ p # ys) = list_vals w xs @ x # list_vals w ys" using d by (auto simp: inserted_def)
  show ?thesis
    unfolding p(1) TDA_STATUS_OK by (rule list_did_rep [OF l]) (use i p in simp_all)
next
  case TDA_STATUS_ERR_NO_MEM
  then have "l' = l" "heap w' = heap w" "ns' = ns" using d by (simp_all add: inserted_def)
  then show ?thesis
    using TDA_STATUS_ERR_NO_MEM l i list_rep_cong [of w' w] list_vals_cong [of w' w] list_nodes_eq [OF l(1)]
    by (simp add: list_did_def list_ok_def list_frame_def list_abs_def node_frame_refl)
qed


lemma stable_of_map:
  assumes C: "comparator cmp" and m: "mset qs = mset ps" and s: "stable_of (node_cmp cmp val) ps qs"
  shows "stable_of cmp (map val ps) (map val qs)"
proof -
  have "filter (\<lambda>x. cmp x k = 0) (map val qs) = filter (\<lambda>x. cmp x k = 0) (map val ps)" for k
  proof (cases "\<exists>p \<in> set ps. cmp (val p) k = 0")
    case True
    then obtain p where p: "cmp (val p) k = 0" by blast
    have "cmp x k = 0 \<longleftrightarrow> cmp x (val p) = 0" for x
      using comparator.cmp_trans [OF C] comparator.cmp_flip [OF C] p by (smt (verit))
    then show ?thesis using s by (simp add: stable_of_def node_cmp_def filter_map comp_def)
  next
    case False
    then show ?thesis using mset_eq_setD [OF m] by (simp add: filter_map comp_def filter_empty_conv)
  qed
  moreover have "sorted_by cmp (map val qs)" using s by (simp add: stable_of_def sorted_by_def node_cmp_def sorted_wrt_map)
  ultimately show ?thesis by (simp add: stable_of_def)
qed

section \<open>Every call\<close>

context node_allocator
begin

lemma list_call_insert:
  assumes w: "inv w" and l: "list_rep owned w ns l (xs @ ys)" "list_al l = al" and x: "length x = list_elem_size l"
  shows "\<exists>st m l'. reported (insert_between l (last_or xs None) (hd_or ys None) x w ns) = Some (st, m, l')
    \<and> list_did al inv owned (w, ns) l st m l' (list_vals w xs @ x # list_vals w ys)"
proof -
  obtain st w' ns' l' where "insert_between l (last_or xs None) (hd_or ys None) x w ns = Some (st, w', ns', l')" "inv w'"
    "inserted owned w ns l xs ys x st w' ns' l'" using insert_between_spec [OF w l x] by blast
  then show ?thesis using list_did_inserted [OF l, of inv w' x st ns' l'] by (simp add: reported_def)
qed

lemma list_call_remove:
  assumes w: "inv w" and l: "list_rep owned w ns l (xs @ p # ys)" "list_al l = al"
  shows "\<exists>m l'. removed (remove_node l p w ns) = Some (TDA_STATUS_OK, m, l')
    \<and> list_did al inv owned (w, ns) l TDA_STATUS_OK m l' (list_vals w xs @ list_vals w ys)"
proof -
  obtain w' ns' where r: "remove_node l p w ns = Some (w', ns', respan l (xs @ ys))" "inv w'"
    "list_rep owned w' ns' (respan l (xs @ ys)) (xs @ ys)" "list_vals w' (xs @ ys) = list_vals w (xs @ ys)"
    "node_frame w ns (list_blocks l (xs @ p # ys)) w' ns' (list_blocks l (xs @ ys))"
    using remove_node_spec [OF w l] by blast
  have "list_did al inv owned (w, ns) l TDA_STATUS_OK (w', ns') (respan l (xs @ ys)) (list_vals w xs @ list_vals w ys)"
    by (rule list_did_rep [OF l]) (use r in \<open>simp_all add: list_vals_def\<close>)
  then show ?thesis using r(1) by (simp add: removed_def)
qed

lemma list_call_clear:
  assumes w: "inv w" and l: "list_rep owned w ns l ps" "list_al l = al"
  shows "\<exists>m l'. removed (tda_list_clear w ns l) = Some (TDA_STATUS_OK, m, l') \<and> list_did al inv owned (w, ns) l TDA_STATUS_OK m l' []"
proof -
  obtain w' ns' where r: "clear_nodes w ns l = Some (w', ns', respan l [])" "inv w'" "list_rep owned w' ns' (respan l []) []"
    "heap w' = (\<lambda>q. if q \<in> set ps then None else heap w q)" "\<forall>q. q \<notin> set ps \<longrightarrow> ns' q = ns q"
    using clear_nodes_spec [OF w l] by blast
  have "node_frame w ns (list_blocks l ps) w' ns' (list_blocks l [])"
    using r(4,5) l(1) by (auto simp: node_frame_def frame_def list_blocks_def list_rep_def)
  then have "list_did al inv owned (w, ns) l TDA_STATUS_OK (w', ns') (respan l []) []"
    by (rule list_did_rep [OF l, rotated 2]) (use r in \<open>simp_all add: list_vals_def\<close>)
  then show ?thesis
    using r(1) list_rep_assert [OF l(1)] list_rep_assert [OF r(3)] by (simp add: removed_def tda_list_clear_def)
qed

text \<open>A relinking: the same nodes in another order.\<close>

lemma list_did_relinked:
  assumes w: "inv w" and l: "list_rep owned w ns l ps" "list_al l = al"
    and r: "links ns' None qs None" "mset qs = mset ps" "\<forall>q. q \<notin> set ps \<longrightarrow> ns' q = ns q"
  shows "list_did al inv owned (w, ns) l TDA_STATUS_OK (w, ns') (respan l qs) (list_vals w qs)"
proof -
  have s: "set qs = set ps" "distinct qs" "qs = [] \<longleftrightarrow> ps = []"
    using r(2) l(1) mset_eq_setD [OF r(2)] mset_eq_imp_distinct_iff [OF r(2)] by (auto simp: list_rep_def)
  show ?thesis
  proof (rule list_did_rep [OF l])
    show "inv w" "list_vals w qs = list_vals w qs" by (simp_all add: w)
    show "list_rep owned w ns' (respan l qs) qs" using s l(1) r(1) by (intro list_rep_respan [OF l(1)]) (auto simp: list_rep_def)
    show "node_frame w ns (list_blocks l ps) w ns' (list_blocks l qs)"
      using s r(3) by (auto simp: node_frame_def list_blocks_def frame_refl)
  qed
qed

lemma list_call_reverse:
  assumes w: "inv w" and l: "list_rep owned w ns l ps" "list_al l = al"
  shows "\<exists>m l'. relinked (tda_list_reverse ns l) w = Some (TDA_STATUS_OK, m, l')
    \<and> list_did al inv owned (w, ns) l TDA_STATUS_OK m l' (rev (list_vals w ps))"
proof -
  obtain ns' where r: "tda_list_reverse ns l = Some (ns', respan l (rev ps))" "links ns' None (rev ps) None"
    "\<forall>q. q \<notin> set ps \<longrightarrow> ns' q = ns q" using l(1) by (auto simp: list_rep_def intro: reverse_ok [of l ps ns])
  have "list_vals w (rev ps) = rev (list_vals w ps)" by (simp add: list_vals_def rev_map)
  then show ?thesis using list_did_relinked [OF w l r(2) _ r(3)] r(1) by (simp add: relinked_def)
qed

lemma list_sort_spec:
  assumes l: "list_rep owned w ns l ps" and C: "comparator cmp"
  obtains ns' qs where "tda_list_sort w ns l cmp = Some (ns', respan l qs)" "links ns' None qs None" "mset qs = mset ps"
    "\<forall>q. q \<notin> set ps \<longrightarrow> ns' q = ns q" "stable_of cmp (list_vals w ps) (list_vals w qs)"
proof (cases "list_len l < 2")
  case True
  have n: "length ps < 2" and k: "links ns None ps None" and sp: "spans l ps" using True l by (simp_all add: list_rep_def spans_def)
  have "sorted_by cmp (list_vals w ps)" using n by (cases ps) (auto simp: sorted_by_def list_vals_def)
  then show ?thesis
    using that [of ns ps] True k list_rep_assert [OF l] respan_same [OF sp] by (simp add: tda_list_sort_def stable_of_def)
next
  case False
  have k: "links ns None ps None" "distinct ps" and sp: "spans l ps" using l by (simp_all add: list_rep_def)
  have ne: "ps \<noteq> []" "length ps = list_len l" using False sp by (auto simp: spans_def)
  have get: "\<forall>p \<in> set ps. node_elem w (list_elem_size l) p = Some (node_val w p)" using node_elem_ok(1) [OF l] by blast
  obtain qs n1 where s: "sort_chain (node_elem w (list_elem_size l)) cmp (list_len l) (hd_or ps None) ns = Some (hd_or qs None, n1)"
    "chain n1 qs None" "mset qs = mset ps" "stable_of (node_cmp cmp (node_val w)) ps qs" "\<forall>q. q \<notin> set ps \<longrightarrow> n1 q = ns q"
    using sort_chain_ok [OF C links_chain [OF k(1)] k(2) ne get] by blast
  have q: "distinct qs" "set qs = set ps" "length qs = list_len l"
    using mset_eq_imp_distinct_iff [OF s(3)] mset_eq_setD [OF s(3)] mset_eq_length [OF s(3)] k(2) ne(2) by auto
  obtain n2 where n2: "relink_prev (l\<lparr>list_head := hd_or qs None\<rparr>) n1 = Some (n2, l\<lparr>list_head := hd_or qs None, list_tail := last_or qs None\<rparr>)"
    "links n2 None qs None" "\<forall>q. q \<notin> set qs \<longrightarrow> n2 q = n1 q"
    using relink_prev_ok [of "l\<lparr>list_head := hd_or qs None\<rparr>" qs n1] s(2) q(1) by auto
  have e: "l\<lparr>list_head := hd_or qs None, list_tail := last_or qs None\<rparr> = respan l qs" using q(3) by (simp add: respan_def)
  have "ASSERT_LIST (respan l qs) = Some ()" using assert_list_ok [of "respan l qs" qs] l by (simp add: list_rep_def)
  then have "tda_list_sort w ns l cmp = Some (n2, respan l qs)"
    using False s(1) n2(1) sp list_rep_assert [OF l] by (simp add: tda_list_sort_def spans_def e)
  moreover have "stable_of cmp (list_vals w ps) (list_vals w qs)" using stable_of_map [OF C s(3,4)] by (simp add: list_vals_def)
  ultimately show ?thesis using that [of n2 qs] n2(2,3) s(3,5) q(2) by simp
qed

lemma list_step_refines:
  assumes k: "list_ok al inv owned m l" and ok: "lseq_allowed op (list_abs m l)"
  shows "\<exists>st m' l'. list_step op m l = Some (st, m', l') \<and> list_ok al inv owned m' l' \<and> list_frame m l m' l'
    \<and> call_refines lseq_step op st (list_abs m l) (list_abs m' l')"
proof -
  obtain w ns where m: "m = (w, ns)" by (cases m)
  define ps where "ps = list_nodes ns l"
  define xs where "xs = list_vals w ps"
  have w: "inv w" and l: "list_rep owned w ns l ps" and a: "list_al l = al" using k by (simp_all add: list_ok_def m ps_def)
  have abs: "list_abs (w, ns) l = (list_elem_size l, xs)" by (simp add: list_abs_def m xs_def ps_def)
  have len: "length xs = length ps" by (simp add: xs_def list_vals_def)
  note A = list_rep_assert [OF l]
  have sp: "list_head l = hd_or ps None" "list_tail l = last_or ps None" "list_len l = length ps"
    using l by (simp_all add: list_rep_def spans_def)
  have fin: ?thesis if "\<exists>st m' l'. list_step op m l = Some (st, m', l') \<and> list_did al inv owned (w, ns) l st m' l' zs"
    "lseq_step op (list_abs m l) (list_elem_size l, zs)" for zs
    using that list_did_refines unfolding m by blast
  have fin_ok: ?thesis if "\<exists>m' l'. list_step op m l = Some (TDA_STATUS_OK, m', l') \<and> list_did al inv owned (w, ns) l TDA_STATUS_OK m' l' zs"
    "lseq_step op (list_abs m l) (list_elem_size l, zs)" for zs
    using that fin by blast
  have vals: "list_vals w (take i ps) = take i xs" "list_vals w (drop i ps) = drop i xs" for i
    by (simp_all add: xs_def list_vals_def take_map drop_map)
  have at: "list_handle ns l i = Some (ps ! i)" "ASSERT_NODE ns (ps ! i) = Some ()" "owns_node ns l (ps ! i) = Some True"
      "ns (ps ! i) = Some \<lparr>ln_next = hd_or (drop (Suc i) ps) None, ln_prev = last_or (take i ps) None\<rparr>"
      "list_rep owned w ns l (take i ps @ ps ! i # drop (Suc i) ps)"
      "drop i ps = ps ! i # drop (Suc i) ps" "take (Suc i) ps = take i ps @ [ps ! i]" if "i < length ps" for i
    using that list_handle_ok [OF l that] list_rep_split [OF l that] list_rep_node [OF list_rep_split [OF l that]]
    by (simp_all add: Cons_nth_drop_Suc take_Suc_conv_app_nth)
  note [simp] = m list_step_def lseq_step_def abs
  show ?thesis
  proof (cases op)
    case (LPushFront x)
    have "length x = list_elem_size l" using ok LPushFront by (simp add: lseq_allowed_def)
    from list_call_insert [OF w, of ns l "[]" ps x] this l a show ?thesis
      using fin [of "x # xs"] LPushFront A sp by (simp add: tda_list_push_front_def xs_def list_vals_def)
  next
    case (LPushBack x)
    have "length x = list_elem_size l" using ok LPushBack by (simp add: lseq_allowed_def)
    from list_call_insert [OF w, of ns l ps "[]" x] this l a show ?thesis
      using fin [of "xs @ [x]"] LPushBack A sp by (simp add: tda_list_push_back_def xs_def list_vals_def)
  next
    case LPopFront
    then have "ps \<noteq> []" using ok len by (auto simp: lseq_allowed_def)
    then obtain p qs where p: "ps = p # qs" by (cases ps) auto
    from list_call_remove [OF w, of ns l "[]" p qs] l a show ?thesis
      using fin_ok [of "tl xs"] LPopFront A sp p by (simp add: tda_list_pop_front_def xs_def list_vals_def c_simps)
  next
    case LPopBack
    then have "ps \<noteq> []" using ok len by (auto simp: lseq_allowed_def)
    then obtain p qs where p: "ps = qs @ [p]" by (cases ps rule: rev_cases) auto
    from list_call_remove [OF w, of ns l qs p "[]"] l a show ?thesis
      using fin_ok [of "butlast xs"] LPopBack A sp p by (simp add: tda_list_pop_back_def xs_def list_vals_def c_simps)
  next
    case (LInsertBefore i x)
    then have x: "length x = list_elem_size l" and i: "i < length ps" using ok len by (auto simp: lseq_allowed_def)
    have l': "list_rep owned w ns l (take i ps @ drop i ps)" using l by simp
    from list_call_insert [OF w l' a x, unfolded vals] show ?thesis
      using fin [of "take i xs @ x # drop i xs"] LInsertBefore A at(1-4,6) [OF i]
      by (simp add: tda_list_insert_before_def c_simps)
  next
    case (LInsertAfter i x)
    then have x: "length x = list_elem_size l" and i: "i < length ps" using ok len by (auto simp: lseq_allowed_def)
    have l': "list_rep owned w ns l (take (Suc i) ps @ drop (Suc i) ps)" using l by simp
    from list_call_insert [OF w l' a x, unfolded vals] show ?thesis
      using fin [of "take (i + 1) xs @ x # drop (i + 1) xs"] LInsertAfter A at(1-4) [OF i] at(7) [OF i]
      by (simp add: tda_list_insert_after_def c_simps)
  next
    case (LRemove i)
    then have i: "i < length ps" using ok len by (auto simp: lseq_allowed_def)
    from list_call_remove [OF w at(5) [OF i] a, unfolded vals] show ?thesis
      using fin_ok [of "take i xs @ drop (i + 1) xs"] LRemove A at(1-3) [OF i]
      by (simp add: tda_list_remove_def c_simps)
  next
    case LClear
    from list_call_clear [OF w l a] show ?thesis using fin_ok [of "[]"] LClear by auto
  next
    case LReverse
    from list_call_reverse [OF w l a] show ?thesis using fin_ok [of "rev xs"] LReverse by (auto simp: xs_def)
  next
    case (LSort cmp)
    then have "comparator cmp" using ok by (simp add: lseq_allowed_def)
    then obtain ns' qs where s: "tda_list_sort w ns l cmp = Some (ns', respan l qs)" "links ns' None qs None" "mset qs = mset ps"
      "\<forall>q. q \<notin> set ps \<longrightarrow> ns' q = ns q" "stable_of cmp (list_vals w ps) (list_vals w qs)" by (rule list_sort_spec [OF l])
    from list_did_relinked [OF w l a s(2-4)] show ?thesis
      using fin_ok [of "list_vals w qs"] LSort s by (simp add: relinked_def xs_def list_vals_def)
  qed
qed

end

sublocale node_allocator \<subseteq> list_calls: refined_calls list_step "list_ok al inv owned" list_frame list_abs lseq_allowed lseq_step
  by unfold_locales (blast intro: list_frame_refl list_frame_trans list_step_refines)+

context node_allocator
begin

lemmas list_run_refines = list_calls.run_refines

end

end
