(* ===== verification/Tda_List_Copies.thy ===== *)
theory Tda_List_Copies
  imports Tda_List_Calls
begin

text \<open>
  What makes lists and what moves elements between them: \<open>new\<close>, \<open>drop\<close>, the copies, the two
  comparisons, \<open>splice\<close> and \<open>merge\<close>. A source may live on an allocator of its own: all that is
  asked of it is that it is a list, which \<open>list_rep_frame\<close> keeps while another list grows.
\<close>

section \<open>A list beside the one that changes\<close>

lemma list_rep_frame:
  assumes s: "list_rep o2 w ns s qs" and f: "node_frame w ns B w' ns' B'" and d: "list_blocks s qs \<inter> B = {}"
  shows "list_rep o2 w' ns' s qs" and "list_vals w' qs = list_vals w qs" and "list_blocks s qs \<inter> B' = {}"
proof -
  have live: "heap w q \<noteq> None" "q \<notin> B" if "q \<in> list_blocks s qs" for q
    using that list_rep_live [OF s] d by auto
  have other: "heap w' q = heap w q \<and> q \<notin> B'" if "q \<in> list_blocks s qs" for q
  proof -
    obtain bs where "heap w q = Some bs" using live [of q] \<open>q \<in> list_blocks s qs\<close> by auto
    then show ?thesis using frame_other [of w B w' B' q] f live [of q] \<open>q \<in> list_blocks s qs\<close> by (simp add: node_frame_def)
  qed
  have n: "ns' q = ns q" if "q \<in> set qs" for q
    using f live [of q] that by (simp add: node_frame_def list_blocks_def)
  show "list_rep o2 w' ns' s qs" "list_vals w' qs = list_vals w qs"
    using list_rep_stable [OF s, of w' ns'] other n by simp_all
  show "list_blocks s qs \<inter> B' = {}" using other by blast
qed

section \<open>Comparison\<close>

lemma list_differ_ok:
  assumes "chain ns ps None" "chain ns qs None" "length ps = length qs"
    and "\<forall>p \<in> set ps \<union> set qs. get p = Some (val p)"
  shows "list_differ get eq ns (hd_or ps None) (hd_or qs None) = Some (\<not> list_all2 eq (map val ps) (map val qs))"
  using assms
proof (induction ps arbitrary: qs)
  case Nil
  then show ?case by (simp add: list_differ.simps)
next
  case (Cons p ps)
  then obtain q qs' where q: "qs = q # qs'" by (cases qs) auto
  with Cons show ?case by (subst list_differ.simps) auto
qed

lemma list_eq_by_spec:
  assumes a: "list_rep o1 w ns a ps" and b: "list_rep o2 w ns b qs" and e: "list_elem_size a = list_elem_size b"
    and same: "list_self a \<noteq> list_self b"
  shows "tda_list_eq_by w ns a b eq = Some (list_all2 eq (list_vals w ps) (list_vals w qs))"
    and "tda_list_eq w ns a b = Some (list_vals w ps = list_vals w qs)"
proof -
  have k: "chain ns ps None" "chain ns qs None" and n: "list_len a = length ps" "list_len b = length qs"
    "list_head a = hd_or ps None" "list_head b = hd_or qs None"
    using a b links_chain by (auto simp: list_rep_def spans_def)
  have get: "\<forall>p \<in> set ps \<union> set qs. node_elem w (list_elem_size a) p = Some (node_val w p)"
    using node_elem_ok(1) [OF a] node_elem_ok(1) [OF b] e by auto
  note D = list_differ_ok [OF k _ get] and A = list_rep_assert [OF a] list_rep_assert [OF b]
  show "tda_list_eq_by w ns a b eq = Some (list_all2 eq (list_vals w ps) (list_vals w qs))"
    using A e same n D by (auto simp: tda_list_eq_by_def c_simps list_vals_def dest: list_all2_lengthD)
  show "tda_list_eq w ns a b = Some (list_vals w ps = list_vals w qs)"
    using A e same n D [of "(=)"]
    by (auto simp: tda_list_eq_def c_simps list_vals_def list.rel_eq dest: map_eq_imp_length_eq)
qed

text \<open>\<open>t\<close> has been filled up from an empty list by a loop of \<open>push_back\<close>.\<close>

definition filled ::
  "('s world \<Rightarrow> bool) \<Rightarrow> (ptr \<Rightarrow> bool) \<Rightarrow> 's world \<Rightarrow> nodes \<Rightarrow> 's llist \<Rightarrow> byte list list \<Rightarrow> 's world \<Rightarrow> nodes \<Rightarrow> 's llist \<Rightarrow> bool"
where
  "filled I owned w ns t xs w' ns' t' \<longleftrightarrow> I w' \<and> (\<exists>ps. t' = respan t ps \<and> list_rep owned w' ns' t' ps
     \<and> node_frame w ns (list_blocks t []) w' ns' (list_blocks t ps) \<and> list_vals w' ps = xs)"

section \<open>Making and dropping\<close>

context node_allocator
begin

lemma list_new_spec:
  assumes w: "inv w" and es: "0 < es"
  obtains (no) w' where "tda_list_new es al w = Some (TDA_STATUS_ERR_NO_MEM, None, w')" "inv w'" "heap w' = heap w"
  | (ok) l w' bs where "tda_list_new es al w = Some (TDA_STATUS_OK, Some l, w')" "inv w'" "heap w (list_self l) = None"
      "heap w' = (heap w)(list_self l \<mapsto> bs)" "list_elem_size l = es" "list_al l = al" "\<forall>ns. list_rep owned w' ns l []"
proof -
  have sz: "sizeof_tda_List \<le> SIZE_MAX" by (simp add: sizeof_tda_List_def SIZE_MAX_num)
  show ?thesis
  proof (rule alloc_cases [OF w sz])
    fix w1 assume "tda_alloc al w sizeof_tda_List = Some (None, w1)" "inv w1" "heap w1 = heap w"
    then show ?thesis using no [of w1] es by (simp add: tda_list_new_def)
  next
    fix p w1 bs assume a: "tda_alloc al w sizeof_tda_List = Some (Some p, w1)" "inv w1" "owned p" "heap w p = None"
      "length bs = sizeof_tda_List" "heap w1 = (heap w)(p \<mapsto> bs)"
    let ?l = "\<lparr>list_self = p, list_head = None, list_tail = None, list_len = 0, list_elem_size = es, list_al = al\<rparr>"
    have r: "list_rep owned w1 ns ?l []" for ns using a(3,5,6) es by (simp add: list_rep_def spans_def block_at_def)
    then show ?thesis using ok [of ?l w1 bs] a es list_rep_assert [OF r] by (simp add: tda_list_new_def Let_def)
  qed
qed

lemma list_drop_spec:
  assumes w: "inv w" and l: "list_rep owned w ns l ps" "list_al l = al"
  shows "\<exists>w' ns'. tda_list_drop w ns (Some l) = Some (w', ns') \<and> inv w'
    \<and> heap w' = (\<lambda>q. if q \<in> list_blocks l ps then None else heap w q) \<and> (\<forall>q. q \<notin> set ps \<longrightarrow> ns' q = ns q)"
proof -
  obtain w1 n1 where c: "clear_nodes w ns l = Some (w1, n1, respan l [])" "inv w1" "list_rep owned w1 n1 (respan l []) []"
    "heap w1 = (\<lambda>q. if q \<in> set ps then None else heap w q)" "\<forall>q. q \<notin> set ps \<longrightarrow> n1 q = ns q"
    using clear_nodes_spec [OF w l] by blast
  obtain bs where b: "owned (list_self l)" "heap w1 (list_self l) = Some bs" "length bs = sizeof_tda_List"
    using c(3) by (auto simp: list_rep_def block_at_def)
  from dealloc_some [OF c(2) b] obtain w2 where "tda_dealloc al w1 (Some (list_self l)) sizeof_tda_List = Some w2" "inv w2"
    "heap w2 = (heap w1)(list_self l := None)" .
  then show ?thesis using c list_rep_assert [OF l(1)] l(2) by (auto simp: tda_list_drop_def list_blocks_def)
qed

section \<open>Appending a row of elements\<close>

lemma list_push_back_spec:
  assumes w: "inv w" and l: "list_rep owned w ns l ps" "list_al l = al" and x: "length x = list_elem_size l"
  shows "\<exists>st w' ns' l'. tda_list_push_back w ns l x = Some (st, w', ns', l') \<and> inv w' \<and> inserted owned w ns l ps [] x st w' ns' l'"
  using insert_between_spec [OF w, of ns l ps "[]" x] l x list_rep_assert [OF l(1)]
  by (simp add: tda_list_push_back_def list_rep_def spans_def)

lemma filled_push:
  assumes f: "filled inv owned w ns t xs w1 n1 t1" and t: "list_al t = al" "length x = list_elem_size t"
  shows "\<exists>st w2 n2 t2. tda_list_push_back w1 n1 t1 x = Some (st, w2, n2, t2)
    \<and> filled inv owned w ns t (if st = TDA_STATUS_OK then xs @ [x] else xs) w2 n2 t2"
proof -
  obtain ps where i: "inv w1" and p: "t1 = respan t ps" "list_rep owned w1 n1 t1 ps"
    "node_frame w ns (list_blocks t []) w1 n1 (list_blocks t ps)" "list_vals w1 ps = xs" using f by (auto simp: filled_def)
  have e: "list_al t1 = al" "length x = list_elem_size t1" using p(1) t by simp_all
  obtain st w2 n2 t2 where s: "tda_list_push_back w1 n1 t1 x = Some (st, w2, n2, t2)" "inv w2"
    "inserted owned w1 n1 t1 ps [] x st w2 n2 t2" using list_push_back_spec [OF i p(2) e] by blast
  have b: "list_blocks t1 qs = list_blocks t qs" for qs by (simp add: list_blocks_def p(1))
  show ?thesis
  proof (cases st)
    case TDA_STATUS_OK
    then obtain q where q: "t2 = respan t1 (ps @ [q])" "list_rep owned w2 n2 t2 (ps @ [q])"
      "node_frame w1 n1 (list_blocks t ps) w2 n2 (list_blocks t (ps @ [q]))" "list_vals w2 (ps @ [q]) = xs @ [x]"
      using s(3) p(4) by (auto simp: inserted_def b list_vals_def)
    have "t2 = respan t (ps @ [q])" using q(1) p(1) by simp
    then show ?thesis
      using s(1,2) TDA_STATUS_OK q(2,4) node_frame_trans [OF p(3) q(3)] by (auto simp: filled_def)
  next
    case TDA_STATUS_ERR_NO_MEM
    then have o: "t2 = t1" "heap w2 = heap w1" "n2 = n1" using s(3) by (simp_all add: inserted_def)
    have "node_frame w ns (list_blocks t []) w2 n1 (list_blocks t ps)"
      using node_frame_trans [OF p(3) node_frame_refl [OF o(2)]] .
    then show ?thesis
      using s(1,2) TDA_STATUS_ERR_NO_MEM o p list_rep_cong [OF o(2)] list_vals_cong [OF o(2)] by (auto simp: filled_def)
  qed
qed

text \<open>A loop over the nodes \<open>rest\<close> of another list.\<close>

lemma push_all_ok:
  assumes w: "inv w" and s: "list_rep o2 w ns s (pre @ rest)" and t: "list_rep owned w ns t []" "list_al t = al" "t = respan t []"
    and e: "list_elem_size t = list_elem_size s" and d: "list_blocks s (pre @ rest) \<inter> list_blocks t [] = {}"
  shows "\<exists>st w' ns' t'. node_try (push_elem_of (list_elem_size s)) (hd_or rest None) (w, ns, t) = Some (st, w', ns', t')
    \<and> (\<exists>xs. filled inv owned w ns t xs w' ns' t' \<and> (st = TDA_STATUS_OK \<longrightarrow> xs = list_vals w rest))"
proof -
  define Q where "Q rs m \<longleftrightarrow> (case m of (w1, n1, t1) \<Rightarrow>
      \<exists>ds. rest = ds @ rs \<and> filled inv owned w ns t (list_vals w ds) w1 n1 t1)" for rs and m :: "'a world \<times> nodes \<times> 'a llist"
  define E where "E m \<longleftrightarrow> (case m of (w1, n1, t1) \<Rightarrow> \<exists>xs. filled inv owned w ns t xs w1 n1 t1)" for m :: "'a world \<times> nodes \<times> 'a llist"
  have "\<exists>st m' nxt. push_elem_of (list_elem_size s) p m = Some (st, m', nxt)
      \<and> (if st = TDA_STATUS_OK then nxt = hd_or rs None \<and> Q rs m' else E m')" if q: "Q (p # rs) m" for p rs m
  proof -
    obtain w1 n1 t1 ds where m: "m = (w1, n1, t1)" "rest = ds @ p # rs" "filled inv owned w ns t (list_vals w ds) w1 n1 t1"
      using q by (cases m) (auto simp: Q_def)
    obtain ps where f1: "node_frame w ns (list_blocks t []) w1 n1 (list_blocks t ps)" using m(3) by (auto simp: filled_def)
    have s1: "list_rep o2 w1 n1 s (pre @ rest)" and v1: "list_vals w1 (pre @ rest) = list_vals w (pre @ rest)"
      by (rule list_rep_frame [OF s f1 d])+
    have pin: "p \<in> set (pre @ rest)" using m(2) by simp
    have "node_val w1 p = node_val w p" using v1 pin by (auto simp: list_vals_def)
    then have x: "node_elem w1 (list_elem_size s) p = Some (node_val w p)" "length (node_val w p) = list_elem_size t"
      using node_elem_ok [OF s1 pin] e by simp_all
    obtain st w2 n2 t2 where b: "tda_list_push_back w1 n1 t1 (node_val w p) = Some (st, w2, n2, t2)"
      "filled inv owned w ns t (if st = TDA_STATUS_OK then list_vals w ds @ [node_val w p] else list_vals w ds) w2 n2 t2"
      using filled_push [OF m(3) t(2) x(2)] by blast
    obtain ps2 where f2: "node_frame w ns (list_blocks t []) w2 n2 (list_blocks t ps2)" using b(2) by (auto simp: filled_def)
    have "list_rep o2 w2 n2 s ((pre @ ds) @ p # rs)" using list_rep_frame(1) [OF s f2 d] m(2) by simp
    from list_rep_node [OF this] have "n2 p = Some \<lparr>ln_next = hd_or rs None, ln_prev = last_or (pre @ ds) None\<rparr>" by simp
    then have step: "push_elem_of (list_elem_size s) p m = Some (st, (w2, n2, t2), hd_or rs None)"
      using x(1) b(1) m(1) by (simp add: push_elem_of_def)
    have "Q rs (w2, n2, t2)" if "st = TDA_STATUS_OK"
      using that b(2) m(2) by (auto simp: Q_def list_vals_def intro!: exI [of _ "ds @ [p]"])
    moreover have "E (w2, n2, t2)" using b(2) by (auto simp: E_def)
    ultimately show ?thesis using step by auto
  qed
  moreover have "Q rest (w, ns, t)" using w t by (simp add: Q_def filled_def list_vals_def node_frame_refl exI [of _ "[]"])
  ultimately obtain st m where r: "node_try (push_elem_of (list_elem_size s)) (hd_or rest None) (w, ns, t) = Some (st, m)"
    "if st = TDA_STATUS_OK then Q [] m else E m"
    using node_try_rule [where Q = Q and E = E and step = "push_elem_of (list_elem_size s)" and ps = rest and st = "(w, ns, t)"] by blast
  obtain w' ns' t' where "m = (w', ns', t')" by (cases m)
  with r show ?thesis by (cases st) (auto simp: Q_def E_def)
qed

text \<open>The end of the two constructors that fill a new list: it is handed over, or nothing is left of it.\<close>

lemma list_built_ok:
  assumes f: "filled inv owned w1 ns t xs w2 n2 t2" and t: "list_al t = al" "t = respan t []"
    and new: "heap w (list_self t) = None" "heap w1 = (heap w)(list_self t \<mapsto> bs)"
  shows "\<exists>r w' ns'. list_built (st, w2, n2, t2) = Some (st, r, w', ns') \<and> inv w' \<and> (case r of
      None \<Rightarrow> st = TDA_STATUS_ERR_NO_MEM \<and> heap w' = heap w \<and> (\<forall>q. heap w q \<noteq> None \<longrightarrow> ns' q = ns q)
    | Some l \<Rightarrow> st = TDA_STATUS_OK \<and> (\<exists>ps. l = respan t ps \<and> list_rep owned w' ns' l ps \<and> list_vals w' ps = xs
        \<and> node_frame w ns {} w' ns' (list_blocks l ps)))"
proof -
  obtain ps where i: "inv w2" and p: "t2 = respan t ps" "list_rep owned w2 n2 t2 ps" "list_vals w2 ps = xs"
    "node_frame w1 ns (list_blocks t []) w2 n2 (list_blocks t ps)" using f by (auto simp: filled_def)
  have b: "list_blocks t [] = {list_self t}" "list_blocks t2 ps = list_blocks t ps" by (simp_all add: list_blocks_def p(1))
  have "node_frame w ns {} w1 ns {list_self t}" using new by (simp add: node_frame_def frame_acquire [OF new(1,2)])
  from node_frame_trans [OF this p(4) [unfolded b]] have fr: "node_frame w ns {} w2 n2 (list_blocks t ps)" .
  show ?thesis
  proof (cases st)
    case TDA_STATUS_OK
    then show ?thesis using i p fr b by (auto simp: list_built_def)
  next
    case TDA_STATUS_ERR_NO_MEM
    have "list_al t2 = al" using p(1) t(1) by simp
    from list_drop_spec [OF i p(2) this] obtain w3 n3 where d: "tda_list_drop w2 n2 (Some t2) = Some (w3, n3)" "inv w3"
      "heap w3 = (\<lambda>q. if q \<in> list_blocks t ps then None else heap w2 q)" "\<forall>q. q \<notin> set ps \<longrightarrow> n3 q = n2 q"
      unfolding b(2) by blast
    have "heap w3 q = heap w q" for q using fr d(3) by (auto simp: node_frame_def frame_def)
    moreover have "n3 q = ns q" if "heap w q \<noteq> None" for q
    proof -
      have "q \<notin> set ps" using fr that by (auto simp: node_frame_def frame_def list_blocks_def)
      then show ?thesis using fr d(4) that by (simp add: node_frame_def)
    qed
    ultimately show ?thesis using d(1,2) TDA_STATUS_ERR_NO_MEM by (auto simp: list_built_def)
  qed
qed

lemma list_copy_with_spec:
  assumes w: "inv w" and s: "list_rep o2 w ns s qs"
  shows "\<exists>st r w' ns'. tda_list_copy_with w ns s al = Some (st, r, w', ns') \<and> inv w' \<and> (case r of
      None \<Rightarrow> st = TDA_STATUS_ERR_NO_MEM \<and> heap w' = heap w \<and> (\<forall>q. heap w q \<noteq> None \<longrightarrow> ns' q = ns q)
    | Some l \<Rightarrow> st = TDA_STATUS_OK \<and> list_elem_size l = list_elem_size s \<and> list_al l = al
        \<and> (\<exists>ps. list_rep owned w' ns' l ps \<and> list_vals w' ps = list_vals w qs
          \<and> node_frame w ns {} w' ns' (list_blocks l ps)))"
proof -
  note A = list_rep_assert [OF s]
  have es: "0 < list_elem_size s" and hd: "list_head s = hd_or qs None" using s by (simp_all add: list_rep_def spans_def)
  show ?thesis
  proof (rule list_new_spec [OF w es])
    fix w1 assume "tda_list_new (list_elem_size s) al w = Some (TDA_STATUS_ERR_NO_MEM, None, w1)" "inv w1" "heap w1 = heap w"
    then show ?thesis using A by (simp add: tda_list_copy_with_def)
  next
    fix t w1 bs assume n: "tda_list_new (list_elem_size s) al w = Some (TDA_STATUS_OK, Some t, w1)" "inv w1" "heap w (list_self t) = None"
      "heap w1 = (heap w)(list_self t \<mapsto> bs)" "list_elem_size t = list_elem_size s" "list_al t = al" "\<forall>ns. list_rep owned w1 ns t []"
    have t: "list_rep owned w1 ns t []" using n(7) by blast
    have t0: "t = respan t []" using respan_same [of t "[]"] t by (simp add: list_rep_def)
    have out: "list_self t \<notin> list_blocks s qs" using list_rep_live [OF s] n(3) by blast
    have "heap w1 q = heap w q" if "q \<in> list_blocks s qs" for q using that out n(4) by auto
    note s1 = list_rep_stable [OF s this refl]
    have s1': "list_rep o2 w1 ns s ([] @ qs)" using s1(1) by simp
    have d: "list_blocks s ([] @ qs) \<inter> list_blocks t [] = {}" using out by (auto simp: list_blocks_def)
    obtain st w2 n2 t2 xs where p: "node_try (push_elem_of (list_elem_size s)) (hd_or qs None) (w1, ns, t) = Some (st, w2, n2, t2)"
      "filled inv owned w1 ns t xs w2 n2 t2" "st = TDA_STATUS_OK \<Longrightarrow> xs = list_vals w1 qs"
      using push_all_ok [OF n(2) s1' t n(6) t0 n(5) d] by blast
    obtain r w' ns' where b: "list_built (st, w2, n2, t2) = Some (st, r, w', ns')" "inv w'" "case r of
      None \<Rightarrow> st = TDA_STATUS_ERR_NO_MEM \<and> heap w' = heap w \<and> (\<forall>q. heap w q \<noteq> None \<longrightarrow> ns' q = ns q)
    | Some l \<Rightarrow> st = TDA_STATUS_OK \<and> (\<exists>ps. l = respan t ps \<and> list_rep owned w' ns' l ps \<and> list_vals w' ps = xs
        \<and> node_frame w ns {} w' ns' (list_blocks l ps))" using list_built_ok [OF p(2) n(6) t0 n(3,4), of st] by blast
    have "tda_list_copy_with w ns s al = Some (st, r, w', ns')"
      using A n(1) p(1) b(1) hd by (simp add: tda_list_copy_with_def)
    then show ?thesis using b(2,3) p(3) n(5,6) s1(2) by (cases r) auto
  qed
qed

end

section \<open>Moving elements between two lists of one allocator\<close>

lemma list_splice_spec:
  assumes l: "list_rep owned w ns l xs" and s: "list_rep owned w ns s ys" and d: "list_blocks l xs \<inter> list_blocks s ys = {}"
    and same: "list_elem_size l = list_elem_size s" "al_self (list_al l) = al_self (list_al s)"
  shows "\<exists>ns'. list_splice front w ns l s = Some (TDA_STATUS_OK, w, ns', respan l (if front then ys @ xs else xs @ ys), respan s [])
    \<and> list_rep owned w ns' (respan l (if front then ys @ xs else xs @ ys)) (if front then ys @ xs else xs @ ys)
    \<and> list_rep owned w ns' (respan s []) [] \<and> (\<forall>q. q \<notin> set (xs @ ys) \<longrightarrow> ns' q = ns q)"
proof -
  note A = list_rep_assert [OF l] list_rep_assert [OF s]
  have self: "list_self l \<noteq> list_self s" using d by (auto simp: list_blocks_def)
  have sp: "spans l xs" "spans s ys" and k: "links ns None xs None" "links ns None ys None" and es: "0 < list_elem_size l"
    using l s by (simp_all add: list_rep_def)
  show ?thesis
  proof (cases "ys = []")
    case True
    then have "respan s [] = s" "respan l xs = l" "list_len s = 0" using sp respan_same by (auto simp: spans_def)
    then show ?thesis
      using True l s A self same by (auto simp: list_splice_def c_simps intro!: exI [of _ ns])
  next
    case False
    have dd: "distinct (xs @ ys)" using l s d by (auto simp: list_rep_def list_blocks_def)
    let ?zs = "if front then ys @ xs else xs @ ys"
    obtain ns' where r: "splice_nodes l s front ns = Some (ns', respan l ?zs, respan s [])" "links ns' None ?zs None"
      "\<forall>q. q \<notin> set (xs @ ys) \<longrightarrow> ns' q = ns q" by (rule splice_nodes_ok [OF sp k dd False same(1) es same(2), of front])
    have "list_rep owned w ns' (respan l ?zs) ?zs"
      by (rule list_rep_respan [OF l _ r(2)]) (use l s d dd same False in \<open>auto simp: list_rep_def list_blocks_def\<close>)
    moreover have "list_rep owned w ns' (respan s []) []"
      by (rule list_rep_respan [OF s]) (use s in \<open>simp_all add: list_rep_def\<close>)
    moreover have "list_len s \<noteq> 0" using sp(2) False by (simp add: spans_def)
    ultimately show ?thesis using r(1,3) A self same by (auto simp: list_splice_def c_simps)
  qed
qed

lemma map_merge_by: "map val (merge_by (node_cmp cmp val) as bs) = merge_by cmp (map val as) (map val bs)"
  by (induction "node_cmp cmp val" as bs rule: merge_by.induct) (simp_all add: node_cmp_def)

lemma list_merge_spec:
  assumes l: "list_rep owned w ns l xs" and s: "list_rep owned w ns s ys" and d: "list_blocks l xs \<inter> list_blocks s ys = {}"
    and same: "list_elem_size l = list_elem_size s" "al_self (list_al l) = al_self (list_al s)"
  shows "\<exists>ns' zs. tda_list_merge w ns l s cmp = Some (TDA_STATUS_OK, w, ns', respan l zs, respan s []) \<and> mset zs = mset (xs @ ys)
    \<and> list_rep owned w ns' (respan l zs) zs \<and> list_vals w zs = merge_by cmp (list_vals w xs) (list_vals w ys)
    \<and> list_rep owned w ns' (respan s []) [] \<and> (\<forall>q. q \<notin> set (xs @ ys) \<longrightarrow> ns' q = ns q)"
proof -
  note A = list_rep_assert [OF l] list_rep_assert [OF s]
  have self: "list_self l \<noteq> list_self s" using d by (auto simp: list_blocks_def)
  have sp: "spans l xs" "spans s ys" and k: "links ns None xs None" "links ns None ys None" and es: "0 < list_elem_size l"
    using l s by (simp_all add: list_rep_def)
  show ?thesis
  proof (cases "ys = []")
    case True
    then have "respan s [] = s" "respan l xs = l" "list_len s = 0" using sp respan_same by (auto simp: spans_def)
    then show ?thesis
      using True l s A self same by (auto simp: tda_list_merge_def c_simps list_vals_def intro!: exI [of _ ns] exI [of _ xs])
  next
    case False
    have dd: "distinct (xs @ ys)" using l s d by (auto simp: list_rep_def list_blocks_def)
    let ?c = "node_cmp cmp (node_val w)"
    let ?zs = "merge_by ?c xs ys"
    have get: "\<forall>p \<in> set xs \<union> set ys. node_elem w (list_elem_size l) p = Some (node_val w p)"
      using node_elem_ok(1) [OF l] node_elem_ok(1) [OF s] same(1) by auto
    obtain n1 where m: "merge_chains (node_elem w (list_elem_size l)) cmp (hd_or xs None) (hd_or ys None) ns = Some (hd_or ?zs None, n1)"
      "chain n1 ?zs None" "\<forall>q. q \<notin> set xs \<union> set ys \<longrightarrow> n1 q = ns q"
      using merge_chains_ok [OF links_chain [OF k(1)] links_chain [OF k(2)] dd get, of cmp] by blast
    have ms: "mset ?zs = mset (xs @ ys)" by simp
    have z: "distinct ?zs" "set ?zs = set (xs @ ys)" "length ?zs = length xs + length ys"
      using mset_eq_imp_distinct_iff [OF ms] mset_eq_setD [OF ms] mset_eq_length [OF ms] dd by simp_all
    let ?l = "l\<lparr>list_head := hd_or ?zs None, list_len := list_len l + list_len s\<rparr>"
    have h: "list_head ?l = hd_or ?zs None" by simp
    obtain n2 where r: "relink_prev ?l n1 = Some (n2, ?l\<lparr>list_tail := last_or ?zs None\<rparr>)" "links n2 None ?zs None"
      "\<forall>q. q \<notin> set ?zs \<longrightarrow> n2 q = n1 q" by (rule relink_prev_ok [OF h m(2) z(1)])
    have e: "?l\<lparr>list_tail := last_or ?zs None\<rparr> = respan l ?zs" "s\<lparr>list_head := None, list_tail := None, list_len := 0\<rparr> = respan s []"
      using z(3) sp by (simp_all add: respan_def spans_def)
    have R: "list_rep owned w n2 (respan l ?zs) ?zs"
      by (rule list_rep_respan [OF l z(1) r(2)]) (use l s d z(2) same False in \<open>auto simp: list_rep_def list_blocks_def\<close>)
    have S: "list_rep owned w n2 (respan s []) []" by (rule list_rep_respan [OF s]) (use s in \<open>simp_all add: list_rep_def\<close>)
    have heads: "list_head l = hd_or xs None" "list_head s = hd_or ys None" "list_len s = length ys" using sp by (simp_all add: spans_def)
    have "merge_into w l s cmp ns = Some (n2, respan l ?zs, respan s [])"
      using same False m(1) r(1) list_rep_assert [OF R] list_rep_assert [OF S]
      by (simp add: merge_into_def heads e(2) c_simps e(1) [unfolded heads])
    moreover have "list_vals w ?zs = merge_by cmp (list_vals w xs) (list_vals w ys)" by (simp add: list_vals_def map_merge_by)
    moreover have "\<forall>q. q \<notin> set (xs @ ys) \<longrightarrow> n2 q = ns q" using m(3) r(3) z(2) by simp
    ultimately show ?thesis
      using A self same False heads(3) R S ms by (auto simp: tda_list_merge_def c_simps)
  qed
qed

text \<open>One node changes list, or its place in one.\<close>

lemma list_splice_node_spec:
  assumes l: "list_rep owned w ns l (xs @ zs)" and s: "list_rep owned w ns s (ys @ p # us)"
    and d: "list_blocks l (xs @ zs) \<inter> list_blocks s (ys @ p # us) = {}"
    and same: "list_elem_size l = list_elem_size s" "al_self (list_al l) = al_self (list_al s)"
  shows "\<exists>ns'. tda_list_splice_node w ns l (hd_or zs None) s p = Some (TDA_STATUS_OK, w, ns', respan l (xs @ p # zs), respan s (ys @ us))
    \<and> list_rep owned w ns' (respan l (xs @ p # zs)) (xs @ p # zs) \<and> list_rep owned w ns' (respan s (ys @ us)) (ys @ us)"
proof -
  note A = list_rep_assert [OF l] list_rep_assert [OF s]
  have sp: "spans l (xs @ zs)" "spans s (ys @ p # us)" and k: "links ns None (xs @ zs) None" "links ns None (ys @ p # us) None"
    and dd: "distinct (xs @ zs)" "distinct (ys @ p # us)" using l s by (simp_all add: list_rep_def)
  have out: "set (xs @ zs) \<inter> set (ys @ p # us) = {}" using d by (auto simp: list_blocks_def)
  obtain n1 where n1: "unlink_node s p ns = Some (n1, respan s (ys @ us))" "links n1 None (ys @ us) None"
    "\<forall>q. q \<notin> set (ys @ us) \<longrightarrow> n1 q = ns q" by (rule unlink_node_ok [OF sp(2) k(2) dd(2)])
  have "n1 q = ns q" if "q \<in> set (xs @ zs)" for q using that n1(3) out by auto
  from links_cong [of "xs @ zs" n1 ns, OF this] k(1) have k1: "links n1 None (xs @ zs) None" by simp
  have p1: "n1 p \<noteq> None" using n1(3) dd(2) list_rep_node [OF s] by simp
  have dp: "distinct (xs @ p # zs)" using dd(1) out by auto
  obtain n2 where n2: "link_node l p (last_or xs None) (hd_or zs None) n1 = Some (n2, respan l (xs @ p # zs))"
    "links n2 None (xs @ p # zs) None" "\<forall>q. q \<notin> set (xs @ p # zs) \<longrightarrow> n2 q = n1 q" by (rule link_node_ok [OF sp(1) k1 dp p1])
  have "n2 q = n1 q" if "q \<in> set (ys @ us)" for q using that n2(3) out dd(2) by auto
  from links_cong [of "ys @ us" n2 n1, OF this] n1(2) have k2: "links n2 None (ys @ us) None" by simp
  have R: "list_rep owned w n2 (respan l (xs @ p # zs)) (xs @ p # zs)"
    by (rule list_rep_respan [OF l dp n2(2)]) (use l s d same in \<open>auto simp: list_rep_def list_blocks_def\<close>)
  have S: "list_rep owned w n2 (respan s (ys @ us)) (ys @ us)"
    by (rule list_rep_respan [OF s _ k2]) (use s in \<open>auto simp: list_rep_def\<close>)
  have theirs: "owns_node ns s p = Some True" using list_rep_node [OF s] by simp
  have mine: "(case hd_or zs None of None \<Rightarrow> Some True | Some a \<Rightarrow> owns_node ns l a) = Some True"
    using owns_node_ok [OF k(1) sp(1)] by (cases zs) auto
  have before: "node_before n1 l (hd_or zs None) = Some (last_or xs None)"
    using k1 sp(1) by (cases zs) (simp_all add: node_before_def spans_def links_append)
  have "hd_or zs None \<noteq> Some p" using out by (cases zs) auto
  then have "tda_list_splice_node w ns l (hd_or zs None) s p = Some (TDA_STATUS_OK, w, n2, respan l (xs @ p # zs), respan s (ys @ us))"
    using A same theirs mine n1(1) before n2(1) list_rep_assert [OF R] list_rep_assert [OF S] assert_node_ok [OF n2(2)]
    by (simp add: tda_list_splice_node_def c_simps)
  then show ?thesis using R S by blast
qed

lemma splice_node_within_spec:
  assumes l: "list_rep owned w ns l (ys @ p # us)" and m: "xs @ zs = ys @ us"
  shows "\<exists>ns'. splice_node_within ns l (hd_or zs None) p = Some (TDA_STATUS_OK, ns', respan l (xs @ p # zs))
    \<and> list_rep owned w ns' (respan l (xs @ p # zs)) (xs @ p # zs)"
proof -
  have sp: "spans l (ys @ p # us)" and k: "links ns None (ys @ p # us) None" and dd: "distinct (ys @ p # us)"
    using l by (simp_all add: list_rep_def)
  obtain n1 where n1: "unlink_node l p ns = Some (n1, respan l (xs @ zs))" "links n1 None (xs @ zs) None"
    "\<forall>q. q \<notin> set (xs @ zs) \<longrightarrow> n1 q = ns q" using unlink_node_ok [OF sp k dd] unfolding m .
  have st: "set (xs @ zs) = set (ys @ us)" "distinct (xs @ zs)" unfolding m using dd by auto
  have dp: "distinct (xs @ p # zs)" using dd st by auto
  have p1: "n1 p \<noteq> None" using n1(3) dp list_rep_node [OF l] by simp
  obtain n2 where n2: "link_node (respan l (xs @ zs)) p (last_or xs None) (hd_or zs None) n1 = Some (n2, respan (respan l (xs @ zs)) (xs @ p # zs))"
    "links n2 None (xs @ p # zs) None" by (rule link_node_ok [OF respan_simps(1) n1(2) dp p1])
  have "set (xs @ p # zs) = set (ys @ p # us)" using st by auto
  then have R: "list_rep owned w n2 (respan l (xs @ p # zs)) (xs @ p # zs)"
    by (intro list_rep_respan [OF l dp n2(2)]) (use l in \<open>auto simp: list_rep_def\<close>)
  have own: "owns_node ns l q = Some (q \<in> set (ys @ p # us))" for q by (rule owns_node_ok [OF k sp])
  have mine: "(case hd_or zs None of None \<Rightarrow> Some True | Some a \<Rightarrow> owns_node ns l a) = Some True"
  proof (cases zs)
    case (Cons z zs')
    then have "z \<in> set (ys @ us)" using st(1) by auto
    then show ?thesis using Cons own by auto
  qed simp
  have before: "node_before n1 (respan l (xs @ zs)) (hd_or zs None) = Some (last_or xs None)"
    using n1(2) by (cases zs) (simp_all add: node_before_def links_append)
  have "hd_or zs None \<noteq> Some p" using dp by (cases zs) auto
  then show ?thesis
    using list_rep_assert [OF l] own mine n1(1) before n2(1) list_rep_assert [OF R] assert_node_ok [OF n2(2)] R
    by (simp add: splice_node_within_def c_simps)
qed

lemma list_swap_spec:
  assumes a: "list_rep owned w ns a xs" and b: "list_rep owned w ns b ys" and d: "list_blocks a xs \<inter> list_blocks b ys = {}"
    and same: "list_elem_size a = list_elem_size b" "al_self (list_al a) = al_self (list_al b)"
  shows "tda_list_swap a b = Some (respan a ys, respan b xs)"
    and "list_rep owned w ns (respan a ys) ys \<and> list_rep owned w ns (respan b xs) xs"
proof -
  show R: "list_rep owned w ns (respan a ys) ys \<and> list_rep owned w ns (respan b xs) xs"
    using a b d same by (auto simp: list_rep_def list_blocks_def)
  have "swap_contents a b = (respan a ys, respan b xs)"
    using a b by (simp add: swap_contents_def list_rep_def spans_def respan_def)
  moreover have "list_self a \<noteq> list_self b" using d by (auto simp: list_blocks_def)
  moreover have "ASSERT_LIST (respan a ys) = Some ()" "ASSERT_LIST (respan b xs) = Some ()"
    using R list_rep_assert by blast+
  ultimately show "tda_list_swap a b = Some (respan a ys, respan b xs)"
    using same list_rep_assert [OF a] list_rep_assert [OF b] by (simp add: tda_list_swap_def c_simps)
qed

end
