(* ===== verification/Tda_List_Assign.thy ===== *)
theory Tda_List_Assign
  imports Tda_List_Copies
begin

text \<open>
  \<open>tda_list_copy_assign\<close> and \<open>tda_list_move_assign\<close>: the target gets the source's elements in its
  own nodes, or nothing of it changes. \<open>node_row\<close> is the part of \<open>list_rep\<close> that does not speak
  of the struct, since the target and the spare list share one.
\<close>

definition node_row :: "(ptr \<Rightarrow> bool) \<Rightarrow> 's world \<Rightarrow> nodes \<Rightarrow> nat \<Rightarrow> ptr list \<Rightarrow> bool" where
  "node_row owned w ns es ps \<longleftrightarrow> distinct ps \<and> links ns None ps None \<and> (\<forall>p \<in> set ps. owned p \<and> block_at w p (16 + es))"

lemma list_rep_row: "list_rep owned w ns l ps \<Longrightarrow> node_row owned w ns (list_elem_size l) ps"
  by (simp add: list_rep_def node_row_def)

lemma list_rep_rowI:
  assumes "list_rep owned w ns l ps" "node_row owned w' ns' (list_elem_size l) qs" "list_self l \<notin> set qs"
    "block_at w' (list_self l) sizeof_tda_List" "qs \<noteq> [] \<Longrightarrow> 16 + list_elem_size l \<le> SIZE_MAX"
  shows "list_rep owned w' ns' (respan l qs) qs"
  using assms by (simp add: list_rep_def node_row_def)

lemma node_row_stable:
  assumes "node_row owned w ns es ps" "\<And>q. q \<in> set ps \<Longrightarrow> heap w' q = heap w q \<and> ns' q = ns q"
  shows "node_row owned w' ns' es ps" and "list_vals w' ps = list_vals w ps"
  using assms links_cong [of ps ns' ns None None] by (auto simp: node_row_def block_at_def list_vals_def node_val_def)

lemma node_row_frame:
  assumes r: "node_row owned w ns es ps" and f: "node_frame w ns B w' ns' B'" and d: "set ps \<inter> B = {}"
  shows "node_row owned w' ns' es ps" and "list_vals w' ps = list_vals w ps" and "set ps \<inter> B' = {}"
proof -
  have other: "heap w' q = heap w q \<and> ns' q = ns q \<and> q \<notin> B'" if q: "q \<in> set ps" for q
  proof -
    obtain bs where "heap w q = Some bs" using r q by (auto simp: node_row_def block_at_def)
    then show ?thesis using frame_other [of w B w' B' q] f d q by (auto simp: node_frame_def)
  qed
  show "node_row owned w' ns' es ps" "list_vals w' ps = list_vals w ps" using node_row_stable [OF r, of w' ns'] other by simp_all
  show "set ps \<inter> B' = {}" using other by blast
qed

section \<open>The loops\<close>

lemma pair_walk_ok:
  assumes "chain ns qs None" "chain ns ps None"
  shows "pair_walk ns (hd_or qs None) (hd_or ps None) = Some (hd_or (drop (length ps) qs) None)"
  using assms
proof (induction qs arbitrary: ps)
  case Nil
  then show ?case by (simp add: pair_walk.simps)
next
  case (Cons q qs)
  then show ?case by (cases ps) (subst pair_walk.simps, auto)+
qed

context node_allocator
begin

lemma pair_copy_ok:
  assumes "inv w" "chain ns ps None" "chain ns qs None" "distinct ps" "set ps \<inter> set qs = {}"
    and "\<forall>p \<in> set ps. owned p \<and> block_at w p (16 + es)" "\<forall>q \<in> set qs. block_at w q (16 + es)"
  shows "\<exists>w'. pair_copy es ns (hd_or ps None) (hd_or qs None) w = Some w' \<and> inv w' \<and> (\<forall>q. q \<notin> set ps \<longrightarrow> heap w' q = heap w q)
    \<and> (\<forall>p \<in> set ps. block_at w' p (16 + es))
    \<and> list_vals w' ps = take (length ps) (list_vals w qs) @ drop (length qs) (list_vals w ps)"
  using assms
proof (induction ps arbitrary: qs w)
  case Nil
  then show ?case by (simp add: pair_copy.simps list_vals_def)
next
  case (Cons p ps)
  show ?case
  proof (cases qs)
    case Nil
    then show ?thesis using Cons.prems by (simp add: pair_copy.simps list_vals_def)
  next
    case q: (Cons q qs')
    obtain bs where b: "heap w q = Some bs" "length bs = 16 + es" using Cons.prems(7) q by (auto simp: block_at_def)
    obtain cs where c: "heap w p = Some cs" "length cs = 16 + es" "owned p" using Cons.prems(6) by (auto simp: block_at_def)
    have e: "slice 16 es bs = drop 16 bs" using b(2) by (simp add: slice_def)
    have rd: "node_elem w es q = Some (node_val w q)" "node_val w q = drop 16 bs"
      using b e by (simp_all add: node_elem_def node_val_def sizeof_tda_ListNode_def mem_read_ok)
    define w1 where "w1 = w\<lparr>heap := (heap w)(p \<mapsto> blit 16 (node_val w q) cs)\<rparr>"
    have len: "length (blit 16 (node_val w q) cs) = length cs" using b(2) c(2) rd(2) by (simp add: length_blit)
    have wr: "mem_write w p sizeof_tda_ListNode (node_val w q) = Some w1"
      using b(2) c rd(2) by (simp add: mem_write_ok w1_def sizeof_tda_ListNode_def)
    have i: "inv w1" unfolding w1_def by (rule write_law [OF Cons.prems(1) c(1) len])
    have h: "heap w1 r = heap w r" if "r \<noteq> p" for r using that by (simp add: w1_def)
    have v: "node_val w1 p = node_val w q" using b(2) c(2) rd(2) by (simp add: w1_def node_val_def blit_def sizeof_tda_ListNode_def)
    have vs: "list_vals w1 rs = list_vals w rs" if r: "p \<notin> set rs" for rs
      unfolding list_vals_def node_val_def by (rule map_cong [OF refl]) (metis h r)
    have out: "p \<notin> set ps" "p \<notin> set qs'" using Cons.prems(4,5) q by auto
    have blk: "\<forall>p \<in> set ps. owned p \<and> block_at w1 p (16 + es)" "\<forall>q \<in> set qs'. block_at w1 q (16 + es)"
    proof -
      have "block_at w1 r n = block_at w r n" if "r \<noteq> p" for r n using h [OF that] by (simp add: block_at_def)
      then show "\<forall>p \<in> set ps. owned p \<and> block_at w1 p (16 + es)" "\<forall>q \<in> set qs'. block_at w1 q (16 + es)"
        using Cons.prems(6,7) q out by (metis list.set_intros(2))+
    qed
    obtain w' where w': "pair_copy es ns (hd_or ps None) (hd_or qs' None) w1 = Some w'" "inv w'"
      "\<forall>q. q \<notin> set ps \<longrightarrow> heap w' q = heap w1 q" "\<forall>p \<in> set ps. block_at w' p (16 + es)"
      "list_vals w' ps = take (length ps) (list_vals w1 qs') @ drop (length qs') (list_vals w1 ps)"
      using Cons.IH [OF i, of qs'] Cons.prems(2-5) q blk by auto
    have "pair_copy es ns (hd_or (p # ps) None) (hd_or qs None) w = Some w'"
      using rd(1) wr w'(1) Cons.prems(2,3) q by (subst pair_copy.simps) auto
    moreover have "node_val w' p = node_val w q" using w'(3) out(1) v by (simp add: node_val_def)
    moreover have "block_at w' p (16 + es)" using w'(3) out(1) len c(2) by (simp add: block_at_def w1_def)
    ultimately show ?thesis
      using w'(2-4) w'(5) [unfolded vs [OF out(1)] vs [OF out(2)]] h q by (auto simp: list_vals_def)
  qed
qed

lemma trim_loop_ok:
  assumes "inv w" "list_rep owned w ns l ps" "list_al l = al"
  shows "\<exists>w' ns'. trim_loop n w ns l = Some (w', ns', respan l (take n ps)) \<and> inv w'
    \<and> list_rep owned w' ns' (respan l (take n ps)) (take n ps) \<and> list_vals w' (take n ps) = list_vals w (take n ps)
    \<and> node_frame w ns (list_blocks l ps) w' ns' (list_blocks l (take n ps))"
  using assms
proof (induction ps arbitrary: w ns l rule: rev_induct)
  case Nil
  then have "respan l [] = l" "list_len l = 0" using respan_same [of l "[]"] by (auto simp: list_rep_def spans_def)
  then show ?case using Nil by (simp add: trim_loop.simps node_frame_refl)
next
  case (snoc p ps)
  have sp: "list_len l = Suc (length ps)" "list_tail l = Some p" and rs: "respan l (ps @ [p]) = l"
    using snoc.prems(2) respan_same [of l "ps @ [p]"] by (auto simp: list_rep_def spans_def)
  show ?case
  proof (cases "n \<le> length ps")
    case False
    then show ?thesis using snoc.prems sp rs by (simp add: trim_loop.simps node_frame_refl)
  next
    case True
    obtain w1 n1 where r: "remove_node l p w ns = Some (w1, n1, respan l ps)" "inv w1" "list_rep owned w1 n1 (respan l ps) ps"
      "list_vals w1 ps = list_vals w ps" "node_frame w ns (list_blocks l (ps @ [p])) w1 n1 (list_blocks l ps)"
      using remove_node_spec [OF snoc.prems(1), of ns l ps p "[]"] snoc.prems(2,3) by auto
    have b: "list_blocks (respan l ps) qs = list_blocks l qs" for qs by (simp add: list_blocks_def)
    obtain w' ns' where t: "trim_loop n w1 n1 (respan l ps) = Some (w', ns', respan l (take n ps))" "inv w'"
      "list_rep owned w' ns' (respan l (take n ps)) (take n ps)" "list_vals w' (take n ps) = list_vals w1 (take n ps)"
      "node_frame w1 n1 (list_blocks l ps) w' ns' (list_blocks l (take n ps))"
      using snoc.IH [OF r(2,3)] snoc.prems(3) unfolding b by auto
    have "trim_loop n w ns l = Some (w', ns', respan l (take n ps))" using True sp r(1) t(1) by (subst trim_loop.simps) simp
    moreover have "list_vals w1 (take n ps) = list_vals w (take n ps)" using r(4) by (auto simp: list_vals_def dest: in_set_takeD)
    ultimately show ?thesis using True t(2-5) node_frame_trans [OF r(5) t(5)] by simp
  qed
qed

end

section \<open>Assignment\<close>

text \<open>The state after an assignment from \<open>s\<close>: the target has its elements, or nothing of the target changed.\<close>

definition assigned ::
  "('s world \<Rightarrow> bool) \<Rightarrow> (ptr \<Rightarrow> bool) \<Rightarrow> 's world \<Rightarrow> nodes \<Rightarrow> 's llist \<Rightarrow> ptr list \<Rightarrow> byte list list \<Rightarrow>
    tda_Status \<Rightarrow> 's world \<Rightarrow> nodes \<Rightarrow> 's llist \<Rightarrow> bool" where
  "assigned I owned w ns t ps xs st w' ns' t' \<longleftrightarrow> I w' \<and> (\<exists>rs. t' = respan t rs \<and> list_rep owned w' ns' t' rs
     \<and> list_vals w' rs = (if st = TDA_STATUS_OK then xs else list_vals w ps) \<and> (st \<noteq> TDA_STATUS_OK \<longrightarrow> rs = ps)
     \<and> node_frame w ns (list_blocks t ps) w' ns' (list_blocks t rs))"

context node_allocator
begin

lemma list_copy_assign_spec:
  assumes w: "inv w" and t: "list_rep owned w ns t ps" "list_al t = al" and s: "list_rep o2 w ns s qs"
    and e: "list_elem_size s = list_elem_size t" and d: "list_blocks s qs \<inter> list_blocks t ps = {}"
  shows "\<exists>st w' ns' t'. tda_list_copy_assign w ns s t = Some (st, w', ns', t')
    \<and> assigned inv owned w ns t ps (list_vals w qs) st w' ns' t'"
proof -
  let ?es = "list_elem_size t" and ?n = "length ps" and ?sp = "respan t []"
  let ?pre = "take ?n qs" and ?rest = "drop ?n qs"
  have A: "ASSERT_LIST s = Some ()" "ASSERT_LIST t = Some ()" using list_rep_assert [OF s] list_rep_assert [OF t(1)] by simp_all
  have ne: "list_self s \<noteq> list_self t" "set ps \<inter> set qs = {}" "list_self t \<notin> set ps" "list_self t \<notin> set qs"
    using d t(1) by (auto simp: list_blocks_def list_rep_def)
  have hd: "list_head s = hd_or qs None" "list_len s = length qs" "list_head t = hd_or ps None" and rt: "respan t ps = t"
    using s t(1) respan_same [of t ps] by (auto simp: list_rep_def spans_def)
  have k: "chain ns qs None" "chain ns ps None" using s t(1) links_chain by (auto simp: list_rep_def)
  note rowt = list_rep_row [OF t(1)] and rows = list_rep_row [OF s, unfolded e]
  have sp: "list_rep owned w ns ?sp []" "list_al ?sp = al" "?sp = respan ?sp []" "list_elem_size ?sp = list_elem_size s"
    "list_blocks ?sp [] = {list_self t}"
    using t e by (simp_all add: list_rep_def list_blocks_def)
  have s1: "list_rep o2 w ns s (?pre @ ?rest)" and d1: "list_blocks s (?pre @ ?rest) \<inter> list_blocks ?sp [] = {}"
    using s ne by (auto simp: list_blocks_def)
  obtain st w1 n1 u xs where p: "node_try (push_elem_of (list_elem_size s)) (hd_or ?rest None) (w, ns, ?sp) = Some (st, w1, n1, u)"
    "filled inv owned w ns ?sp xs w1 n1 u" "st = TDA_STATUS_OK \<Longrightarrow> xs = list_vals w ?rest"
    using push_all_ok [OF w s1 sp(1-4) d1] by blast
  obtain us where i1: "inv w1" and u: "u = respan t us" "list_rep owned w1 n1 u us" "list_vals w1 us = xs"
    "node_frame w ns {list_self t} w1 n1 (list_blocks t us)"
    using p(2) unfolding filled_def sp(5) by (auto simp: list_blocks_def)
  have spare: "t\<lparr>list_head := None, list_tail := None, list_len := 0\<rparr> = ?sp" by (simp add: respan_def)
  have start: "tda_list_copy_assign w ns s t = (if TDA_STATUS_IS_ERR st
      then do { (w2, ns2, sp2) \<leftarrow> clear_nodes w1 n1 u; Some (st, w2, ns2, t) }
      else do { w2 \<leftarrow> pair_copy ?es n1 (list_head t) (list_head s) w1;
         (w3, ns3, o3) \<leftarrow> trim_loop (length qs) w2 n1 t;
         (ns4, o4) \<leftarrow> (if list_len u > 0 then do { (m, o4, s4) \<leftarrow> splice_nodes o3 u False ns3; Some (m, o4) } else Some (ns3, o3));
         ASSERT_LIST o4;
         Some (TDA_STATUS_OK, w3, ns4, o4) })"
    using A e ne(1) p(1) pair_walk_ok [OF k]
    by (simp add: tda_list_copy_assign_def c_simps hd spare)
  have rowt1: "node_row owned w1 n1 ?es ps" "list_vals w1 ps = list_vals w ps" "set ps \<inter> list_blocks t us = {}"
    using node_row_frame [OF rowt u(4)] ne(3) by simp_all
  have rows1: "node_row o2 w1 n1 ?es qs" "list_vals w1 qs = list_vals w qs" "set qs \<inter> list_blocks t us = {}"
    using node_row_frame [OF rows u(4)] ne(4) by simp_all
  have sz: "ps \<noteq> [] \<or> us \<noteq> [] \<Longrightarrow> 16 + ?es \<le> SIZE_MAX" using t(1) u(1,2) by (auto simp: list_rep_def)
  have self1: "block_at w1 (list_self t) sizeof_tda_List" "list_self t \<notin> set us" "distinct us" using u(1,2) by (auto simp: list_rep_def)
  have pushed: "\<forall>q. q \<noteq> list_self t \<longrightarrow> q \<notin> set us \<longrightarrow> heap w1 q = heap w q" "\<forall>q \<in> set us. heap w q = None"
    "\<forall>q. heap w q \<noteq> None \<longrightarrow> q \<noteq> list_self t \<longrightarrow> n1 q = ns q"
    using u(4) self1(2) by (auto simp: node_frame_def frame_def list_blocks_def)
  have alive: "q \<notin> set us \<and> (q \<noteq> list_self t \<longrightarrow> n1 q = ns q)" if "heap w q = Some y" for q y
    using that pushed(2,3) by auto
  show ?thesis
  proof (cases st)
    case TDA_STATUS_ERR_NO_MEM
    have "list_al u = al" using u(1) t(2) by simp
    from clear_nodes_spec [OF i1 u(2) this] obtain w2 n2 where c: "clear_nodes w1 n1 u = Some (w2, n2, respan u [])" "inv w2"
      "list_rep owned w2 n2 (respan u []) []" "heap w2 = (\<lambda>q. if q \<in> set us then None else heap w1 q)"
      "\<forall>q. q \<notin> set us \<longrightarrow> n2 q = n1 q" by blast
    have "heap w2 q = heap w1 q \<and> n2 q = n1 q" if "q \<in> set ps" for q
      using that c(4,5) rowt1(3) by (auto simp: list_blocks_def)
    note rowt2 = node_row_stable [OF rowt1(1) this]
    have "list_rep owned w2 n2 (respan t ps) ps"
      by (rule list_rep_rowI [OF t(1) rowt2(1)]) (use ne(3) sz c(3) u(1) in \<open>simp_all add: list_rep_def\<close>)
    moreover have "node_frame w ns (list_blocks t ps) w2 n2 (list_blocks t ps)"
      using alive pushed(1,2) c(4,5) by (auto simp: node_frame_def frame_def list_blocks_def)
    ultimately have "assigned inv owned w ns t ps (list_vals w qs) st w2 n2 t"
      using c(2) rowt1(2) rowt2(2) rt TDA_STATUS_ERR_NO_MEM by (auto simp: assigned_def)
    then show ?thesis using start c(1) TDA_STATUS_ERR_NO_MEM by simp
  next
    case TDA_STATUS_OK
    have "\<exists>w2. pair_copy ?es n1 (hd_or ps None) (hd_or qs None) w1 = Some w2 \<and> inv w2 \<and> (\<forall>q. q \<notin> set ps \<longrightarrow> heap w2 q = heap w1 q)
      \<and> (\<forall>p \<in> set ps. block_at w2 p (16 + ?es))
      \<and> list_vals w2 ps = take ?n (list_vals w1 qs) @ drop (length qs) (list_vals w1 ps)"
      by (rule pair_copy_ok [OF i1])
        (use rowt1(1) rows1(1) links_chain ne(2) in \<open>auto simp: node_row_def\<close>)
    then obtain w2 where c: "pair_copy ?es n1 (hd_or ps None) (hd_or qs None) w1 = Some w2" "inv w2"
      "\<forall>q. q \<notin> set ps \<longrightarrow> heap w2 q = heap w1 q" "\<forall>p \<in> set ps. block_at w2 p (16 + ?es)"
      "list_vals w2 ps = take ?n (list_vals w1 qs) @ drop (length qs) (list_vals w1 ps)" by blast
    have t2: "list_rep owned w2 n1 t ps"
    proof -
      have "node_row owned w2 n1 ?es ps" using rowt1(1) c(4) by (simp add: node_row_def)
      then have "list_rep owned w2 n1 (respan t ps) ps"
        by (rule list_rep_rowI [OF t(1)]) (use ne(3) sz c(3) self1(1) in \<open>simp_all add: block_at_def\<close>)
      then show ?thesis using rt by simp
    qed
    let ?ts = "take (length qs) ps"
    obtain w3 n3 where r: "trim_loop (length qs) w2 n1 t = Some (w3, n3, respan t ?ts)" "inv w3" "list_rep owned w3 n3 (respan t ?ts) ?ts"
      "list_vals w3 ?ts = list_vals w2 ?ts" "node_frame w2 n1 (list_blocks t ps) w3 n3 (list_blocks t ?ts)"
      using trim_loop_ok [OF c(2) t2 t(2), of "length qs"] by blast
    have dus: "set us \<inter> set ps = {}" "set us \<inter> list_blocks t ps = {}" using rowt1(3) self1(2) by (auto simp: list_blocks_def)
    have rowu2: "node_row owned w2 n1 ?es us" "list_vals w2 us = xs"
      using node_row_stable [of owned w1 n1 ?es us w2 n1] list_rep_row [OF u(2)] u(1,3) c(3) dus(1) by auto
    have rowu3: "node_row owned w3 n3 ?es us" "list_vals w3 us = xs"
      using node_row_frame [OF rowu2(1) r(5) dus(2)] rowu2(2) by simp_all
    let ?rs = "?ts @ us"
    have dist: "distinct ?rs" using dus(1) self1(3) t(1) by (auto simp: list_rep_def dest: in_set_takeD)
    have links3: "links n3 None ?ts None" "links n3 None us None" using r(3) rowu3(1) by (simp_all add: list_rep_def node_row_def)
    have fin: "\<exists>n4. (if list_len u > 0 then do { (m, o4, s4) \<leftarrow> splice_nodes (respan t ?ts) u False n3; Some (m, o4) }
        else Some (n3, respan t ?ts)) = Some (n4, respan t ?rs) \<and> links n4 None ?rs None \<and> (\<forall>q. q \<notin> set ?rs \<longrightarrow> n4 q = n3 q)"
    proof (cases "us = []")
      case True
      then show ?thesis using u(1) links3(1) by simp
    next
      case False
      have es: "0 < list_elem_size (respan t ?ts)" using t(1) by (simp add: list_rep_def)
      obtain n4 where "splice_nodes (respan t ?ts) u False n3 = Some (n4, respan (respan t ?ts) (if False then us @ ?ts else ?rs), respan u [])"
        "links n4 None (if False then us @ ?ts else ?rs) None" "\<forall>q. q \<notin> set ?rs \<longrightarrow> n4 q = n3 q"
        by (rule splice_nodes_ok [of "respan t ?ts" ?ts u us n3 False])
          (use links3 dist False es u(1) in \<open>simp_all\<close>)
      then show ?thesis using False u(1) by simp
    qed
    then obtain n4 where n4: "(if list_len u > 0 then do { (m, o4, s4) \<leftarrow> splice_nodes (respan t ?ts) u False n3; Some (m, o4) }
        else Some (n3, respan t ?ts)) = Some (n4, respan t ?rs)" "links n4 None ?rs None" "\<forall>q. q \<notin> set ?rs \<longrightarrow> n4 q = n3 q" by blast
    have "node_row owned w3 n4 ?es ?rs" using dist n4(2) r(3) rowu3(1) by (auto simp: node_row_def list_rep_def)
    then have R: "list_rep owned w3 n4 (respan t ?rs) ?rs"
      by (rule list_rep_rowI [OF t(1)]) (use r(3) self1(2) sz in \<open>auto simp: list_rep_def dest: in_set_takeD\<close>)
    have "list_vals w2 ?ts = take (length qs) (take ?n (list_vals w qs) @ drop (length qs) (list_vals w ps))"
      unfolding c(5) [unfolded rows1(2) rowt1(2), symmetric] by (simp add: list_vals_def take_map)
    moreover have "list_vals w3 us = drop ?n (list_vals w qs)" using rowu3(2) p(3) TDA_STATUS_OK by (simp add: list_vals_def drop_map)
    ultimately have V: "list_vals w3 ?rs = list_vals w qs"
      using r(4) by (cases "length qs \<le> ?n") (simp_all add: list_vals_def)
    have kept: "heap w3 q = heap w q \<and> (\<forall>y. heap w q = Some y \<longrightarrow> n4 q = ns q)"
      if n: "q \<notin> set ps" "q \<noteq> list_self t" "q \<notin> set us" for q
    proof -
      have o: "q \<notin> list_blocks t ps" "q \<notin> list_blocks t ?ts" "q \<notin> set ?rs"
        using n by (auto simp: list_blocks_def dest: in_set_takeD)
      have "heap w2 q = heap w q" using n c(3) pushed(1) by simp
      then show ?thesis using r(5) n o n4(3) pushed(3) by (simp add: node_frame_def frame_def)
    qed
    have gone: "heap w3 q = None" if "q \<in> set ps" "q \<notin> set ?ts" for q
    proof -
      have "q \<in> list_blocks t ps - list_blocks t ?ts" using that ne(3) by (auto simp: list_blocks_def)
      then show ?thesis using r(5) by (simp add: node_frame_def frame_def)
    qed
    have "node_frame w ns (list_blocks t ps) w3 n4 (list_blocks t ?rs)"
      unfolding node_frame_def frame_def
    proof (intro conjI allI impI ballI)
      fix q
      show "heap w3 q = heap w q" if "q \<notin> list_blocks t ps \<union> list_blocks t ?rs" using that kept [of q] by (auto simp: list_blocks_def)
      show "heap w q = None" if "q \<in> list_blocks t ?rs - list_blocks t ps"
        using that pushed(2) by (auto simp: list_blocks_def dest: in_set_takeD)
      show "heap w3 q = None" if "q \<in> list_blocks t ps - list_blocks t ?rs" using that gone [of q] by (auto simp: list_blocks_def)
      show "n4 q = ns q" if "heap w q \<noteq> None" "q \<notin> list_blocks t ps"
        using that kept [of q] alive [of q] by (auto simp: list_blocks_def)
    qed
    then have "assigned inv owned w ns t ps (list_vals w qs) TDA_STATUS_OK w3 n4 (respan t ?rs)"
      using r(2) R V by (auto simp: assigned_def)
    then show ?thesis
      using start TDA_STATUS_OK c(1) r(1) n4(1) list_rep_assert [OF R] by (simp add: hd)
  qed
qed

end

section \<open>Between two allocators\<close>

text \<open>
  When the source lives on another allocator, its elements are copied first: either the target
  gets them all and the source is left empty, or neither changes. The two allocators keep one
  invariant of the memory.
\<close>

lemma list_rep_away:
  assumes l: "list_rep owned w ns l ps" and h: "heap w' = (\<lambda>q. if q \<in> B then None else heap w q)" "\<forall>q. q \<notin> B \<longrightarrow> ns' q = ns q"
    and d: "list_blocks l ps \<inter> B = {}"
  shows "list_rep owned w' ns' l ps" and "list_vals w' ps = list_vals w ps"
proof -
  have "heap w' q = heap w q" "ns' q = ns q" if "q \<in> list_blocks l ps" for q using that h d by auto
  then show "list_rep owned w' ns' l ps" "list_vals w' ps = list_vals w ps"
    using list_rep_stable [OF l, of w' ns'] by (simp_all add: list_blocks_def)
qed

definition moved ::
  "('s world \<Rightarrow> bool) \<Rightarrow> (ptr \<Rightarrow> bool) \<Rightarrow> (ptr \<Rightarrow> bool) \<Rightarrow> 's world \<Rightarrow> nodes \<Rightarrow> 's llist \<Rightarrow> ptr list \<Rightarrow> 's llist \<Rightarrow> ptr list \<Rightarrow>
    byte list list \<Rightarrow> tda_Status \<Rightarrow> 's world \<Rightarrow> nodes \<Rightarrow> 's llist \<Rightarrow> 's llist \<Rightarrow> bool" where
  "moved I owned o2 w ns l xs s ys zs st w' ns' l' s' \<longleftrightarrow> I w' \<and> (if st = TDA_STATUS_OK
     then (\<exists>ps. l' = respan l ps \<and> list_rep owned w' ns' l' ps \<and> list_vals w' ps = zs) \<and> s' = respan s [] \<and> list_rep o2 w' ns' s' []
     else l' = l \<and> s' = s \<and> list_rep owned w' ns' l xs \<and> list_rep o2 w' ns' s ys
       \<and> list_vals w' xs = list_vals w xs \<and> list_vals w' ys = list_vals w ys)"

lemma moved_failed:
  assumes "list_rep owned w ns l xs" "list_rep o2 w ns s ys" "I w'" "heap w' = heap w" "\<forall>q. heap w q \<noteq> None \<longrightarrow> ns' q = ns q"
  shows "moved I owned o2 w ns l xs s ys zs TDA_STATUS_ERR_NO_MEM w' ns' l s"
proof -
  have "ns' q = ns q" if "q \<in> set xs \<or> q \<in> set ys" for q
    using that assms(5) list_rep_live [OF assms(1)] list_rep_live [OF assms(2)] by (auto simp: list_blocks_def)
  then show ?thesis
    using list_rep_stable [OF assms(1), of w' ns'] list_rep_stable [OF assms(2), of w' ns'] assms(3,4) by (simp add: moved_def)
qed

context node_allocator
begin

text \<open>The copy, a third list beside the two.\<close>

lemma copy_beside:
  assumes w: "inv w" and l: "list_rep owned w ns l xs" and s: "list_rep o2 w ns s ys"
  obtains (no) w' ns' where "tda_list_copy_with w ns s al = Some (TDA_STATUS_ERR_NO_MEM, None, w', ns')" "inv w'" "heap w' = heap w"
      "\<forall>q. heap w q \<noteq> None \<longrightarrow> ns' q = ns q"
  | (ok) c ps w' ns' where "tda_list_copy_with w ns s al = Some (TDA_STATUS_OK, Some c, w', ns')" "inv w'"
      "list_rep owned w' ns' c ps" "list_al c = al" "list_elem_size c = list_elem_size s" "list_vals w' ps = list_vals w ys"
      "list_rep owned w' ns' l xs" "list_vals w' xs = list_vals w xs" "list_rep o2 w' ns' s ys"
      "list_blocks l xs \<inter> list_blocks c ps = {}" "list_blocks s ys \<inter> list_blocks c ps = {}"
proof -
  obtain st r w' ns' where c: "tda_list_copy_with w ns s al = Some (st, r, w', ns')" "inv w'" "case r of
      None \<Rightarrow> st = TDA_STATUS_ERR_NO_MEM \<and> heap w' = heap w \<and> (\<forall>q. heap w q \<noteq> None \<longrightarrow> ns' q = ns q)
    | Some l \<Rightarrow> st = TDA_STATUS_OK \<and> list_elem_size l = list_elem_size s \<and> list_al l = al
        \<and> (\<exists>ps. list_rep owned w' ns' l ps \<and> list_vals w' ps = list_vals w ys
          \<and> node_frame w ns {} w' ns' (list_blocks l ps))" using list_copy_with_spec [OF w s] by blast
  show ?thesis
  proof (cases r)
    case None
    then show ?thesis using no c by simp
  next
    case (Some c')
    then obtain ps where p: "list_rep owned w' ns' c' ps" "list_vals w' ps = list_vals w ys" "node_frame w ns {} w' ns' (list_blocks c' ps)"
      "st = TDA_STATUS_OK" "list_elem_size c' = list_elem_size s" "list_al c' = al" using c(3) by auto
    show ?thesis
      using ok [of c' w' ns' ps] Some c(1,2) p list_rep_frame [OF l p(3)] list_rep_frame [OF s p(3)] by simp
  qed
qed

lemma list_splice_across:
  assumes w: "inv w" and l: "list_rep owned w ns l xs" "list_al l = al" and s: "list_rep o2 w ns s ys"
    and B: "node_allocator (list_al s) inv o2" and es: "list_elem_size l = list_elem_size s"
    and d: "list_blocks l xs \<inter> list_blocks s ys = {}" and ne: "al_self al \<noteq> al_self (list_al s)"
  shows "\<exists>st w' ns' l' s'. list_splice front w ns l s = Some (st, w', ns', l', s')
    \<and> moved inv owned o2 w ns l xs s ys
        (if front then list_vals w ys @ list_vals w xs else list_vals w xs @ list_vals w ys) st w' ns' l' s'"
proof -
  note A = list_rep_assert [OF l(1)] list_rep_assert [OF s]
  have self: "list_self l \<noteq> list_self s" using d by (auto simp: list_blocks_def)
  have sp: "spans l xs" "spans s ys" using l s by (simp_all add: list_rep_def)
  show ?thesis
  proof (cases "ys = []")
    case True
    then have "respan s [] = s" "respan l xs = l" "list_len s = 0" using sp respan_same by (auto simp: spans_def)
    then show ?thesis using True w l s A self es by (auto simp: list_splice_def c_simps moved_def list_vals_def intro!: exI [of _ xs])
  next
    case False
    then have len: "list_len s \<noteq> 0" using sp(2) by (simp add: spans_def)
    show ?thesis
    proof (rule copy_beside [OF w l(1) s])
      fix w' ns' assume "tda_list_copy_with w ns s al = Some (TDA_STATUS_ERR_NO_MEM, None, w', ns')" "inv w'" "heap w' = heap w"
        "\<forall>q. heap w q \<noteq> None \<longrightarrow> ns' q = ns q"
      then show ?thesis
        using moved_failed [OF l(1) s, of inv w' ns'] A self es len ne by (simp add: list_splice_def c_simps l(2))
    next
      fix c ps w1 n1 assume c: "tda_list_copy_with w ns s al = Some (TDA_STATUS_OK, Some c, w1, n1)" "inv w1"
        "list_rep owned w1 n1 c ps" "list_al c = al" "list_elem_size c = list_elem_size s" "list_vals w1 ps = list_vals w ys"
        "list_rep owned w1 n1 l xs" "list_vals w1 xs = list_vals w xs" "list_rep o2 w1 n1 s ys"
        "list_blocks l xs \<inter> list_blocks c ps = {}" "list_blocks s ys \<inter> list_blocks c ps = {}"
      let ?zs = "if front then ps @ xs else xs @ ps"
      have pn: "ps \<noteq> []" using c(6) False by (auto simp: list_vals_def)
      have k: "spans c ps" "links n1 None xs None" "links n1 None ps None" "distinct (xs @ ps)" "0 < list_elem_size l"
        "list_elem_size l = list_elem_size c" "al_self (list_al l) = al_self (list_al c)"
        using c(3,4,5,7,10) l es by (auto simp: list_rep_def list_blocks_def)
      obtain n2 where n2: "splice_nodes l c front n1 = Some (n2, respan l ?zs, respan c [])" "links n2 None ?zs None"
        "\<forall>q. q \<notin> set (xs @ ps) \<longrightarrow> n2 q = n1 q" by (rule splice_nodes_ok [OF sp(1) k(1-4) pn k(6,5,7), of front])
      have R2: "list_rep owned w1 n2 (respan l ?zs) ?zs"
        by (rule list_rep_respan [OF c(7) _ n2(2)]) (use c(3,5,7,10) k(4) es pn in \<open>auto simp: list_rep_def list_blocks_def\<close>)
      have C2: "list_rep owned w1 n2 (respan c []) []" by (rule list_rep_respan [OF c(3)]) (use c(3) in \<open>simp_all add: list_rep_def\<close>)
      have "n2 q = n1 q" if "q \<in> set ys" for q using that d c(11) n2(3) by (auto simp: list_blocks_def)
      from list_rep_stable(1) [OF c(9) refl this] have S2: "list_rep o2 w1 n2 s ys" .
      obtain w3 n3 where w3: "tda_list_drop w1 n2 (Some (respan c [])) = Some (w3, n3)" "inv w3"
        "heap w3 = (\<lambda>q. if q = list_self c then None else heap w1 q)" "\<forall>q. n3 q = n2 q"
        using list_drop_spec [OF c(2) C2] c(4) by (auto simp: list_blocks_def)
      have out: "list_self c \<notin> list_blocks s ys" "list_self c \<notin> list_blocks (respan l ?zs) ?zs"
        using c(3,10,11) by (auto simp: list_blocks_def list_rep_def)
      have "heap w3 q = heap w1 q" "n3 q = n2 q" if "q \<in> list_blocks s ys" for q using that out(1) w3(3,4) by auto
      from list_rep_stable(1) [OF S2 this(1)] w3(4) have S3: "list_rep o2 w3 n3 s ys" by simp
      obtain w4 n4 where w4: "clear_nodes w3 n3 s = Some (w4, n4, respan s [])" "inv w4" "list_rep o2 w4 n4 (respan s []) []"
        "heap w4 = (\<lambda>q. if q \<in> set ys then None else heap w3 q)" "\<forall>q. q \<notin> set ys \<longrightarrow> n4 q = n3 q"
        using node_allocator.clear_nodes_spec [OF B w3(2) S3 refl] by blast
      have same: "heap w4 q = heap w1 q \<and> n4 q = n2 q" if "q \<in> list_blocks (respan l ?zs) ?zs" for q
      proof -
        have "q \<notin> set ys" using that d c(11) by (auto simp: list_blocks_def split: if_splits)
        then show ?thesis using that out(2) w3(3,4) w4(4,5) by auto
      qed
      have R4: "list_rep owned w4 n4 (respan l ?zs) ?zs" "list_vals w4 ?zs = list_vals w1 ?zs"
        using list_rep_stable [OF R2, of w4 n4] same by (simp_all add: list_blocks_def)
      have "list_splice front w ns l s = Some (TDA_STATUS_OK, w4, n4, respan l ?zs, respan s [])"
        using A self es len ne c(1) n2(1) w3(1) w4(1) list_rep_assert [OF R4(1)] list_rep_assert [OF w4(3)]
        by (simp add: list_splice_def c_simps l(2))
      moreover have "list_vals w1 ?zs = (if front then list_vals w ys @ list_vals w xs else list_vals w xs @ list_vals w ys)"
        using c(6,8) by (simp add: list_vals_def)
      ultimately show ?thesis using w4(2,3) R4 by (auto simp: moved_def)
    qed
  qed
qed

text \<open>Move assignment within one allocator: the nodes change list without moving.\<close>

lemma list_move_assign_spec:
  assumes w: "inv w" and s: "list_rep owned w ns s ys" "list_al s = al" and t: "list_rep owned w ns t xs" "list_al t = al"
    and es: "list_elem_size s = list_elem_size t" and d: "list_blocks s ys \<inter> list_blocks t xs = {}"
  shows "\<exists>w' ns'. tda_list_move_assign w ns s t = Some (TDA_STATUS_OK, w', ns', respan s [], respan t ys) \<and> inv w'
    \<and> list_rep owned w' ns' (respan t ys) ys \<and> list_vals w' ys = list_vals w ys \<and> list_rep owned w' ns' (respan s []) []
    \<and> heap w' = (\<lambda>q. if q \<in> set xs then None else heap w q)"
proof -
  note A = list_rep_assert [OF s(1)] list_rep_assert [OF t(1)]
  have self: "list_self s \<noteq> list_self t" "list_self s \<notin> set xs" "list_self t \<notin> set ys" "set ys \<inter> set xs = {}" "list_self t \<notin> set xs"
    using d t(1) by (auto simp: list_blocks_def list_rep_def)
  have sw: "list_swap_structs s t = (respan s xs, respan t ys)"
    using s t es unfolding list_swap_structs_def
    by (cases s; cases t) (simp add: list_rep_def spans_def respan_def)
  have S: "list_rep owned w ns (respan s xs) xs" and T: "list_rep owned w ns (respan t ys) ys"
    using s t es self by (simp_all add: list_rep_def)
  have al: "list_al (respan s xs) = al" using s(2) by simp
  obtain w' ns' where c: "clear_nodes w ns (respan s xs) = Some (w', ns', respan s [])" "inv w'" "list_rep owned w' ns' (respan s []) []"
    "heap w' = (\<lambda>q. if q \<in> set xs then None else heap w q)" "\<forall>q. q \<notin> set xs \<longrightarrow> ns' q = ns q"
    using clear_nodes_spec [OF w S al] by auto
  have T': "list_rep owned w' ns' (respan t ys) ys" "list_vals w' ys = list_vals w ys"
    using list_rep_away [OF T c(4,5)] self d by (auto simp: list_blocks_def)
  then show ?thesis
    using A es self s(2) t(2) c sw list_rep_assert [OF c(3)] list_rep_assert [OF T'(1)]
    by (simp add: tda_list_move_assign_def c_simps)
qed

lemma list_move_assign_across:
  assumes w: "inv w" and t: "list_rep owned w ns t xs" "list_al t = al" and s: "list_rep o2 w ns s ys"
    and B: "node_allocator (list_al s) inv o2" and es: "list_elem_size s = list_elem_size t"
    and d: "list_blocks t xs \<inter> list_blocks s ys = {}" and ne: "al_self (list_al s) \<noteq> al_self al"
  shows "\<exists>st w' ns' s' t'. tda_list_move_assign w ns s t = Some (st, w', ns', s', t')
    \<and> moved inv owned o2 w ns t xs s ys (list_vals w ys) st w' ns' t' s'"
proof -
  note A = list_rep_assert [OF s] list_rep_assert [OF t(1)]
  have self: "list_self s \<noteq> list_self t" using d by (auto simp: list_blocks_def)
  show ?thesis
  proof (rule copy_beside [OF w t(1) s])
    fix w' ns' assume "tda_list_copy_with w ns s al = Some (TDA_STATUS_ERR_NO_MEM, None, w', ns')" "inv w'" "heap w' = heap w"
      "\<forall>q. heap w q \<noteq> None \<longrightarrow> ns' q = ns q"
    then show ?thesis
      using moved_failed [OF t(1) s, of inv w' ns'] A self es ne by (simp add: tda_list_move_assign_def c_simps t(2))
  next
    fix c ps w1 n1 assume c: "tda_list_copy_with w ns s al = Some (TDA_STATUS_OK, Some c, w1, n1)" "inv w1"
      "list_rep owned w1 n1 c ps" "list_al c = al" "list_elem_size c = list_elem_size s" "list_vals w1 ps = list_vals w ys"
      "list_rep owned w1 n1 t xs" "list_vals w1 xs = list_vals w xs" "list_rep o2 w1 n1 s ys"
      "list_blocks t xs \<inter> list_blocks c ps = {}" "list_blocks s ys \<inter> list_blocks c ps = {}"
    have sw: "list_swap_structs t c = (respan t ps, respan c xs)"
      using c(3-5,7) t(2) es unfolding list_swap_structs_def
      by (cases t; cases c) (simp add: list_rep_def spans_def respan_def)
    have C: "list_rep owned w1 n1 (respan c xs) xs" and T: "list_rep owned w1 n1 (respan t ps) ps"
      using c(3,5,7,10) es by (auto simp: list_rep_def list_blocks_def)
    have al: "list_al (respan c xs) = al" using c(4) by simp
    obtain w3 n3 where w3: "tda_list_drop w1 n1 (Some (respan c xs)) = Some (w3, n3)" "inv w3"
      "heap w3 = (\<lambda>q. if q \<in> list_blocks c xs then None else heap w1 q)" "\<forall>q. q \<notin> set xs \<longrightarrow> n3 q = n1 q"
      using list_drop_spec [OF c(2) C al] by (auto simp: list_blocks_def)
    have dS: "list_blocks s ys \<inter> list_blocks c xs = {}" "list_blocks t ps \<inter> list_blocks c xs = {}" "list_blocks t ps \<inter> list_blocks s ys = {}"
      using d c(10,11) c(3,7) by (auto simp: list_blocks_def list_rep_def)
    have n3: "\<forall>q. q \<notin> list_blocks c xs \<longrightarrow> n3 q = n1 q" using w3(4) by (simp add: list_blocks_def)
    have b: "list_blocks (respan t ps) ps = list_blocks t ps" by (simp add: list_blocks_def)
    have S3: "list_rep o2 w3 n3 s ys" and T3: "list_rep owned w3 n3 (respan t ps) ps" "list_vals w3 ps = list_vals w1 ps"
      using list_rep_away [OF c(9) w3(3) n3 dS(1)] list_rep_away [OF T w3(3) n3] dS(2) by (simp_all add: b)
    obtain w4 n4 where w4: "clear_nodes w3 n3 s = Some (w4, n4, respan s [])" "inv w4" "list_rep o2 w4 n4 (respan s []) []"
      "heap w4 = (\<lambda>q. if q \<in> set ys then None else heap w3 q)" "\<forall>q. q \<notin> set ys \<longrightarrow> n4 q = n3 q"
      using node_allocator.clear_nodes_spec [OF B w3(2) S3 refl] by blast
    have T4: "list_rep owned w4 n4 (respan t ps) ps" "list_vals w4 ps = list_vals w3 ps"
      using list_rep_away [OF T3(1) w4(4,5)] dS(3) by (auto simp: list_blocks_def)
    have "tda_list_move_assign w ns s t = Some (TDA_STATUS_OK, w4, n4, respan s [], respan t ps)"
      using A self es ne c(1) sw w3(1) w4(1) list_rep_assert [OF T4(1)] list_rep_assert [OF w4(3)]
      by (simp add: tda_list_move_assign_def c_simps t(2))
    then show ?thesis using w4(2,3) T4 T3(2) c(6) by (auto simp: moved_def)
  qed
qed

end

end
