(* ===== verification/Tda_List_Properties.thy ===== *)
theory Tda_List_Properties
  imports Tda_List_Assign Tda_Default
begin

text \<open>
  The properties of the list: runs of calls refine runs on a sequence, copies compare equal,
  assignment and the moves between two lists do all or nothing, merges and sorts are stable.
\<close>

section \<open>Objects for the instances\<close>

text \<open>Two lists of bytes on the heap, with elements in order by their first byte, and a list of no elements.\<close>

definition row_cmp :: "byte list cmp_fn" where
  "row_cmp a b = cmp_uint (hd a) (hd b)"

interpretation row_byte: comparator row_cmp
  by unfold_locales (unfold row_cmp_def, rule uint.cmp_flip, erule (1) uint.cmp_trans)

interpretation bump_two: host "tda_al_default bump_libc (Base 16)" bump_ok libc_owned
  by (rule default_host [OF bump_contract])

interpretation bump_nodes: node_allocator "tda_al_default bump_libc (Base 8)" bump_ok libc_owned
  by unfold_locales (use bump.host_aligned in fastforce)

definition row_node :: "byte \<Rightarrow> byte list" where
  "row_node x = replicate 16 0 @ [x]"

definition row_world :: "nat world" where
  "row_world = empty_world\<lparr>heap := [
     Base 256 \<mapsto> replicate 40 0, Base 304 \<mapsto> row_node 2, Base 336 \<mapsto> row_node 7,
     Base 384 \<mapsto> replicate 40 0, Base 432 \<mapsto> row_node 3, Base 464 \<mapsto> replicate 40 0]\<rparr>"

definition row_links :: nodes where
  "row_links = [Base 304 \<mapsto> \<lparr>ln_next = Some (Base 336), ln_prev = None\<rparr>,
     Base 336 \<mapsto> \<lparr>ln_next = None, ln_prev = Some (Base 304)\<rparr>, Base 432 \<mapsto> \<lparr>ln_next = None, ln_prev = None\<rparr>]"

definition row_list :: "nat al \<Rightarrow> nat \<Rightarrow> ptr list \<Rightarrow> nat llist" where
  "row_list al self ps = \<lparr>list_self = Base self, list_head = hd_or ps None, list_tail = last_or ps None, list_len = length ps,
     list_elem_size = 1, list_al = al\<rparr>"

abbreviation row_a :: "nat llist" where
  "row_a \<equiv> row_list c_heap 256 [Base 304, Base 336]"

abbreviation row_b :: "nat al \<Rightarrow> nat llist" where
  "row_b al \<equiv> row_list al 384 [Base 432]"

lemmas row_defs = row_world_def row_links_def row_list_def row_node_def empty_world_def libc_owned_def block_at_def
  PTRDIFF_MAX_num SIZE_MAX_num sizeof_tda_List_def sizeof_tda_ListNode_def

lemma row_world_ok: "bump_ok row_world"
  by (simp add: bump_ok_def row_defs)

lemma row_ok: "list_rep libc_owned row_world row_links row_a [Base 304, Base 336]"
  "list_rep libc_owned row_world row_links (row_b al) [Base 432]"
  "list_al (row_list al n ps) = al" "list_elem_size (row_list al n ps) = 1" "list_self (row_list al n ps) = Base n"
  by (simp_all add: list_rep_def spans_def row_defs)

lemma row_vals: "list_vals row_world [Base 304, Base 336] = [[2], [7]]" "list_vals row_world [Base 432] = [[3]]"
  by (simp_all add: list_vals_def node_val_def row_defs)

lemma row_apart: "list_blocks row_a [Base 304, Base 336] \<inter> list_blocks (row_b al) [Base 432] = {}"
  by (simp add: list_blocks_def row_list_def)

section \<open>Properties\<close>

text \<open>C3: any sequence of calls on a list (pushes, pops, insertions around a node and removals of one,
  clearing, reversing, sorting), over any allocator of aligned blocks and whatever of it is refused, never
  aborts and ends; the list stays linked both ways, foreign blocks and links are left alone, and the
  elements are those of the same calls on a sequence, a sort being stable.\<close>

theorem list_refines_sequence:
  assumes A: "node_allocator al I owned" and w: "I w" and l: "list_rep owned w ns l ps" "list_al l = al"
    and ok: "calls_allowed lseq_allowed lseq_step ops (list_elem_size l, list_vals w ps)"
  shows "\<exists>sts w' ns' l' ps'. calls_run list_step ops (w, ns) l = Some (sts, (w', ns'), l') \<and> I w'
    \<and> list_rep owned w' ns' l' ps' \<and> node_frame w ns (list_blocks l ps) w' ns' (list_blocks l' ps')
    \<and> abstract_run lseq_step ops sts (list_elem_size l, list_vals w ps) (list_elem_size l, list_vals w' ps')"
proof -
  have n: "list_nodes ns l = ps" by (rule list_nodes_eq [OF l(1)])
  have k: "list_ok al I owned (w, ns) l" using w l by (simp add: list_ok_def n)
  have "calls_allowed lseq_allowed lseq_step ops (list_abs (w, ns) l)" using ok by (simp add: list_abs_def n)
  from node_allocator.list_run_refines [OF A k this] obtain sts m' l' where
    "calls_run list_step ops (w, ns) l = Some (sts, m', l')" "list_ok al I owned m' l'" "list_frame (w, ns) l m' l'"
    "abstract_run lseq_step ops sts (list_abs (w, ns) l) (list_abs m' l')" by blast
  then show ?thesis
    by (cases m') (auto simp: list_ok_def list_frame_def list_abs_def n)
qed

theorem list_refines_sequence_witness:
  "\<exists>sts w' ns' l' ps'. calls_run list_step [LPushBack [1], LInsertBefore 1 [9], LSort row_cmp, LRemove 0] (row_world, row_links) row_a
       = Some (sts, (w', ns'), l')
     \<and> abstract_run lseq_step [LPushBack [1], LInsertBefore 1 [9], LSort row_cmp, LRemove 0] sts (1, [[2], [7]]) (1, list_vals w' ps')"
proof -
  have "calls_allowed lseq_allowed lseq_step [LPushBack [1], LInsertBefore 1 [9], LSort row_cmp, LRemove 0]
      (list_elem_size row_a, list_vals row_world [Base 304, Base 336])"
    using row_byte.comparator_axioms by (auto simp: row_ok row_vals lseq_allowed_def lseq_step_def dest!: mset_eq_length)
  from list_refines_sequence [OF bump_nodes.node_allocator_axioms row_world_ok row_ok(1,3) this] show ?thesis
    unfolding row_ok row_vals by blast
qed

text \<open>A copy of a list, made on any allocator, compares equal to it by \<open>tda_list_eq\<close> and has nodes of
  its own, while the list that was copied has changed in nothing; a copy that runs out of memory leaves
  no block behind.\<close>

lemma list_copy_compares_equal:
  assumes A: "node_allocator al I owned" and w: "I w" and s: "list_rep o2 w ns s qs"
  shows "\<exists>st r w' ns'. tda_list_copy_with w ns s al = Some (st, r, w', ns') \<and> I w' \<and> list_rep o2 w' ns' s qs
    \<and> list_vals w' qs = list_vals w qs \<and> (case r of
      None \<Rightarrow> st = TDA_STATUS_ERR_NO_MEM \<and> heap w' = heap w
    | Some c \<Rightarrow> st = TDA_STATUS_OK \<and> tda_list_eq w' ns' s c = Some True
        \<and> (\<exists>ps. list_rep owned w' ns' c ps \<and> (\<forall>q \<in> list_blocks c ps. heap w q = None)))"
proof -
  obtain st r w' ns' where c: "tda_list_copy_with w ns s al = Some (st, r, w', ns')" "I w'" "case r of
      None \<Rightarrow> st = TDA_STATUS_ERR_NO_MEM \<and> heap w' = heap w \<and> (\<forall>q. heap w q \<noteq> None \<longrightarrow> ns' q = ns q)
    | Some l \<Rightarrow> st = TDA_STATUS_OK \<and> list_elem_size l = list_elem_size s \<and> list_al l = al
        \<and> (\<exists>ps. list_rep owned w' ns' l ps \<and> list_vals w' ps = list_vals w qs
          \<and> node_frame w ns {} w' ns' (list_blocks l ps))" using node_allocator.list_copy_with_spec [OF A w s] by blast
  show ?thesis
  proof (cases r)
    case None
    then have "moved I o2 o2 w ns s qs s qs [] TDA_STATUS_ERR_NO_MEM w' ns' s s" using moved_failed [OF s s, of I w' ns' "[]"] c(2,3) by simp
    then show ?thesis using None c by (auto simp: moved_def)
  next
    case (Some d)
    then obtain ps where p: "list_rep owned w' ns' d ps" "list_vals w' ps = list_vals w qs" "node_frame w ns {} w' ns' (list_blocks d ps)"
      "list_elem_size s = list_elem_size d" using c(3) by auto
    have keep: "list_rep o2 w' ns' s qs" "list_vals w' qs = list_vals w qs" "list_blocks s qs \<inter> list_blocks d ps = {}"
      by (rule list_rep_frame [OF s p(3)], simp)+
    have "list_self s \<noteq> list_self d" using keep(3) by (auto simp: list_blocks_def)
    from list_eq_by_spec(2) [OF keep(1) p(1,4) this] have "tda_list_eq w' ns' s d = Some True" using p(2) keep(2) by simp
    then show ?thesis using Some c keep(1,2) p(1,3) by (auto simp: node_frame_def frame_def)
  qed
qed

text \<open>C20: after copy assignment of one list to another, whatever their lengths and their allocators, the
  target has the elements of the source, in order; or the allocator refused a node and the target has
  the elements it had. Either way only the target's own blocks and links were touched, so the source is
  as it was.\<close>

theorem list_copy_assign_all_or_nothing:
  assumes A: "node_allocator al I owned" and w: "I w" and t: "list_rep owned w ns t ps" "list_al t = al"
    and s: "list_rep o2 w ns s qs" and e: "list_elem_size s = list_elem_size t" and d: "list_blocks s qs \<inter> list_blocks t ps = {}"
  shows "\<exists>st w' ns' t' rs. tda_list_copy_assign w ns s t = Some (st, w', ns', t') \<and> I w' \<and> list_rep owned w' ns' t' rs
    \<and> list_vals w' rs = (if st = TDA_STATUS_OK then list_vals w qs else list_vals w ps)
    \<and> node_frame w ns (list_blocks t ps) w' ns' (list_blocks t rs) \<and> list_rep o2 w' ns' s qs \<and> list_vals w' qs = list_vals w qs"
proof -
  obtain st w' ns' t' rs where r: "tda_list_copy_assign w ns s t = Some (st, w', ns', t')" "I w'" "list_rep owned w' ns' t' rs"
    "list_vals w' rs = (if st = TDA_STATUS_OK then list_vals w qs else list_vals w ps)"
    "node_frame w ns (list_blocks t ps) w' ns' (list_blocks t rs)"
    using node_allocator.list_copy_assign_spec [OF A w t s e d] unfolding assigned_def by blast
  then show ?thesis using list_rep_frame [OF s r(5) d] by blast
qed

theorem list_copy_assign_all_or_nothing_witness:
  "\<exists>st w' ns' t' rs. tda_list_copy_assign row_world row_links row_a (row_b c_heap) = Some (st, w', ns', t')
     \<and> list_vals w' rs = (if st = TDA_STATUS_OK then [[2], [7]] else [[3]])"
  using list_copy_assign_all_or_nothing [OF bump_nodes.node_allocator_axioms row_world_ok row_ok(2,3,1) _ row_apart]
  unfolding row_ok row_vals by blast

text \<open>C22: merging two lists of one allocator, each in order by the comparator, allocates and moves nothing:
  the target ends with the elements of both in order, equal ones with the target's first and each side's
  in the order they had, and linked both ways; the source ends empty.\<close>

theorem list_merge_is_stable:
  assumes C: "comparator cmp" and l: "list_rep owned w ns l xs" and s: "list_rep owned w ns s ys"
    and d: "list_blocks l xs \<inter> list_blocks s ys = {}"
    and same: "list_elem_size l = list_elem_size s" "al_self (list_al l) = al_self (list_al s)"
    and sorted: "sorted_by cmp (list_vals w xs)" "sorted_by cmp (list_vals w ys)"
  shows "\<exists>ns' l' s' zs. tda_list_merge w ns l s cmp = Some (TDA_STATUS_OK, w, ns', l', s') \<and> mset zs = mset (xs @ ys)
    \<and> list_rep owned w ns' l' zs \<and> stable_of cmp (list_vals w xs @ list_vals w ys) (list_vals w zs)
    \<and> list_rep owned w ns' s' [] \<and> (\<forall>q. q \<notin> set (xs @ ys) \<longrightarrow> ns' q = ns q)"
  using list_merge_spec [OF l s d same, of cmp] comparator.merge_by_stable [OF C sorted] by metis

theorem list_merge_is_stable_witness:
  "\<exists>ns' l' s' zs. tda_list_merge row_world row_links row_a (row_b c_heap) row_cmp = Some (TDA_STATUS_OK, row_world, ns', l', s')
     \<and> stable_of row_cmp ([[2], [7]] @ [[3]]) (list_vals row_world zs)"
  using list_merge_is_stable [OF row_byte.comparator_axioms row_ok(1,2) row_apart]
  by (fastforce simp: row_ok row_vals sorted_by_def row_cmp_def cmp_uint_def c_bool_def)

text \<open>Splicing one list into another of the same allocator, at either end, hands the very nodes over:
  no block is touched, the target has all the elements in order, the source is empty.\<close>

lemma list_splice_moves_nodes:
  assumes l: "list_rep owned w ns l xs" and s: "list_rep owned w ns s ys" and d: "list_blocks l xs \<inter> list_blocks s ys = {}"
    and same: "list_elem_size l = list_elem_size s" "al_self (list_al l) = al_self (list_al s)"
  shows "\<exists>ns' l' s'. (if front then tda_list_splice_front else tda_list_splice_back) w ns l s = Some (TDA_STATUS_OK, w, ns', l', s')
    \<and> list_rep owned w ns' l' (if front then ys @ xs else xs @ ys) \<and> list_rep owned w ns' s' []
    \<and> (\<forall>q. q \<notin> set (xs @ ys) \<longrightarrow> ns' q = ns q)"
  using list_splice_spec [OF l s d same, of front] by (auto simp: tda_list_splice_front_def tda_list_splice_back_def)

text \<open>C21: between two allocators that share the memory, \<open>splice\<close> copies, and does it whole or not at all:
  either the target has its own elements and copies of the source's, and the source is empty and still
  a list of its allocator, or memory ran out and both lists are as they were.\<close>

theorem list_splice_across_allocators:
  assumes A: "node_allocator al I owned" and B: "node_allocator (list_al s) I o2" and w: "I w"
    and l: "list_rep owned w ns l xs" "list_al l = al" and s: "list_rep o2 w ns s ys"
    and es: "list_elem_size l = list_elem_size s" and d: "list_blocks l xs \<inter> list_blocks s ys = {}"
    and ne: "al_self al \<noteq> al_self (list_al s)"
  shows "\<exists>st w' ns' l' s' xs' ys'.
      (if front then tda_list_splice_front else tda_list_splice_back) w ns l s = Some (st, w', ns', l', s') \<and> I w'
    \<and> list_rep owned w' ns' l' xs' \<and> list_rep o2 w' ns' s' ys'
    \<and> (list_vals w' xs', list_vals w' ys') = (if st \<noteq> TDA_STATUS_OK then (list_vals w xs, list_vals w ys)
        else (if front then list_vals w ys @ list_vals w xs else list_vals w xs @ list_vals w ys, []))"
proof -
  let ?zs = "if front then list_vals w ys @ list_vals w xs else list_vals w xs @ list_vals w ys"
  obtain st w' ns' l' s' where r: "list_splice front w ns l s = Some (st, w', ns', l', s')"
    "moved I owned o2 w ns l xs s ys ?zs st w' ns' l' s'"
    using node_allocator.list_splice_across [OF A w l s B es d ne, of front] by blast
  have f: "(if front then tda_list_splice_front else tda_list_splice_back) w ns l s = Some (st, w', ns', l', s')"
    using r(1) by (cases front) (simp_all add: tda_list_splice_front_def tda_list_splice_back_def)
  show ?thesis
  proof (cases st)
    case TDA_STATUS_OK
    then obtain ps where "list_rep owned w' ns' l' ps" "list_vals w' ps = ?zs" "list_rep o2 w' ns' s' []" "I w'"
      using r(2) by (auto simp: moved_def)
    then show ?thesis using f TDA_STATUS_OK by (intro exI [of _ st] exI [of _ w'] exI [of _ ns'] exI [of _ l'] exI [of _ s']
          exI [of _ ps] exI [of _ "[]"]) (simp add: list_vals_def)
  next
    case TDA_STATUS_ERR_NO_MEM
    then show ?thesis using f r(2) by (auto simp: moved_def)
  qed
qed

theorem list_splice_across_allocators_witness:
  "\<exists>st w' ns' l' s' xs' ys'. tda_list_splice_front row_world row_links row_a (row_b (tda_al_default bump_libc (Base 16))) = Some (st, w', ns', l', s')
     \<and> (list_vals w' xs', list_vals w' ys') = (if st \<noteq> TDA_STATUS_OK then ([[2], [7]], [[3]]) else ([[3], [2], [7]], []))"
proof -
  let ?b = "row_b (tda_al_default bump_libc (Base 16))"
  have B: "node_allocator (list_al ?b) bump_ok libc_owned"
    unfolding row_ok by (unfold_locales) (use bump_two.host_aligned in fastforce)
  have ne: "al_self c_heap \<noteq> al_self (list_al ?b)" by (simp add: row_ok tda_al_default_def)
  have es: "list_elem_size row_a = list_elem_size ?b" by (simp add: row_ok)
  from list_splice_across_allocators [OF bump_nodes.node_allocator_axioms B row_world_ok row_ok(1,3,2) es row_apart ne, of True]
  show ?thesis unfolding row_vals by (simp split: if_splits) blast
qed

end
