(* ===== verification/Tda_HMap.thy ===== *)
theory Tda_HMap
  imports Tda_List
begin

text \<open>
  \<open>src/ds/hmap.c\<close>: the hash map, an array of buckets each of which heads a chain of nodes. A
  node is a block of its own: the key is the bytes from offset 16 on, the value those from
  \<open>16 + val_offset\<close> on. What the bytes cannot say is kept beside the heap in \<open>hlinks\<close>: the
  \<open>next\<close> and the \<open>hash\<close> of every node, and the pointers in every bucket array. \<open>hmap\<close> is
  \<open>struct tda_HMap\<close> with its own address. Operations thread the memory \<open>w\<close> and the links \<open>h\<close>.

  The hasher and the equality are functions of the bytes of a key, as their types in
  \<open>include/tda/core/hash.h\<close> and \<open>cmp.h\<close> say. \<open>len\<close> counts nodes that exist, so \<open>++len\<close> is \<open>+ 1\<close>.
\<close>

section \<open>The structs\<close>

type_synonym hasher = "byte list \<Rightarrow> 64 word"

record tda_HMapNode =
  hn_next :: "ptr option"
  hn_hash :: "64 word"

record hlinks =
  hl_nodes :: "ptr \<Rightarrow> tda_HMapNode option"
  hl_arrays :: "ptr \<Rightarrow> ptr option list option"

record 's hmap =
  hm_self :: ptr
  hm_buckets :: "ptr option"
  hm_bucket_count :: nat
  hm_len :: nat
  hm_key_size :: nat
  hm_val_size :: nat
  hm_val_offset :: nat
  hm_hasher :: hasher
  hm_eq :: "byte list \<Rightarrow> byte list \<Rightarrow> bool"
  hm_al :: "'s al"

definition sizeof_tda_HMap :: nat where
  "sizeof_tda_HMap = 72"

definition sizeof_tda_HMapNode :: nat where
  "sizeof_tda_HMapNode = 16"

definition sizeof_bucket :: nat where
  "sizeof_bucket = 8"

definition HMAP_BUCKETS_BASE :: nat where
  "HMAP_BUCKETS_BASE = 8"

definition HMAP_GROWTH_FACTOR :: nat where
  "HMAP_GROWTH_FACTOR = 2"

definition ASSERT_HMAP :: "'s hmap \<Rightarrow> unit option" where
  "ASSERT_HMAP m = do {
     c_assert (hm_key_size m > 0);
     c_assert ((hm_bucket_count m = 0) = (hm_buckets m = None));
     c_assert (hm_bucket_count m = 0 \<or> is_pow2_c (hm_bucket_count m));
     c_assert (hm_len m = 0 \<or> hm_bucket_count m > 0)
   }"

text \<open>\<open>buckets[i]\<close>, \<open>buckets[i] = v\<close> of an array at \<open>b\<close>, \<open>p->next\<close> and \<open>p->next = v\<close>.\<close>

definition slot_get :: "hlinks \<Rightarrow> ptr \<Rightarrow> nat \<Rightarrow> ptr option option" where
  "slot_get h b i = do { xs \<leftarrow> hl_arrays h b; if i < length xs then Some (xs ! i) else None }"

definition slot_set :: "ptr \<Rightarrow> nat \<Rightarrow> ptr option \<Rightarrow> hlinks \<Rightarrow> hlinks option" where
  "slot_set b i v h = do {
     xs \<leftarrow> hl_arrays h b;
     if i < length xs then Some (h\<lparr>hl_arrays := (hl_arrays h)(b \<mapsto> xs[i := v])\<rparr>) else None
   }"

definition bucket_get :: "hlinks \<Rightarrow> 's hmap \<Rightarrow> nat \<Rightarrow> ptr option option" where
  "bucket_get h m i = do { b \<leftarrow> hm_buckets m; slot_get h b i }"

definition hnext :: "hlinks \<Rightarrow> ptr \<Rightarrow> ptr option option" where
  "hnext h p = do { n \<leftarrow> hl_nodes h p; Some (hn_next n) }"

definition set_hnext :: "ptr \<Rightarrow> ptr option \<Rightarrow> hlinks \<Rightarrow> hlinks option" where
  "set_hnext p v h = do { n \<leftarrow> hl_nodes h p; Some (h\<lparr>hl_nodes := (hl_nodes h)(p \<mapsto> n\<lparr>hn_next := v\<rparr>)\<rparr>) }"

section \<open>Loops along a chain\<close>

text \<open>
  \<open>node_seek\<close> stops at the first node that passes; \<open>link_seek\<close> walks the links themselves: a place
  is a link, the bucket (\<open>None\<close>) or the \<open>next\<close> of a node, and what it points to; \<open>node_all\<close> stops at
  the first node that fails.
\<close>

partial_function (option) node_seek ::
  "(ptr \<Rightarrow> bool option) \<Rightarrow> (ptr \<Rightarrow> ptr option option) \<Rightarrow> ptr option \<Rightarrow> ptr option option" where
  "node_seek test nxt cur = (case cur of
      None \<Rightarrow> Some None
    | Some p \<Rightarrow> do {
        b \<leftarrow> test p;
        if b then Some (Some p) else do { q \<leftarrow> nxt p; node_seek test nxt q }
      })"

partial_function (option) link_seek ::
  "(ptr \<Rightarrow> bool option) \<Rightarrow> (ptr \<Rightarrow> ptr option option) \<Rightarrow> ptr option \<times> ptr option \<Rightarrow> (ptr option \<times> ptr option) option" where
  "link_seek test nxt here = (case snd here of
      None \<Rightarrow> Some here
    | Some p \<Rightarrow> do {
        b \<leftarrow> test p;
        if b then Some here else do { q \<leftarrow> nxt p; link_seek test nxt (Some p, q) }
      })"

partial_function (option) node_all ::
  "(ptr \<Rightarrow> bool option) \<Rightarrow> (ptr \<Rightarrow> ptr option option) \<Rightarrow> ptr option \<Rightarrow> bool option" where
  "node_all test nxt cur = (case cur of
      None \<Rightarrow> Some True
    | Some p \<Rightarrow> do {
        b \<leftarrow> test p;
        if b then do { q \<leftarrow> nxt p; node_all test nxt q } else Some False
      })"

text \<open>The loop over a range of buckets that returns at the first \<open>false\<close>, and the one that returns
  at the first bucket that is not empty.\<close>

primrec range_all :: "nat list \<Rightarrow> (nat \<Rightarrow> bool option) \<Rightarrow> bool option" where
  "range_all [] f = Some True"
| "range_all (i # is) f = do { b \<leftarrow> f i; if b then range_all is f else Some False }"

primrec first_bucket :: "nat list \<Rightarrow> (nat \<Rightarrow> ptr option option) \<Rightarrow> ptr option option" where
  "first_bucket [] f = Some None"
| "first_bucket (i # is) f = do { r \<leftarrow> f i; if r \<noteq> None then Some r else first_bucket is f }"

section \<open>Nodes\<close>

definition hm_node_bytes :: "'s hmap \<Rightarrow> nat" where
  "hm_node_bytes m = size_add (size_add sizeof_tda_HMapNode (hm_val_offset m)) (hm_val_size m)"

definition hm_node_key :: "ptr \<Rightarrow> ptr \<times> nat" where
  "hm_node_key p = (p, sizeof_tda_HMapNode)"

definition hm_node_val :: "'s hmap \<Rightarrow> ptr \<Rightarrow> (ptr \<times> nat) option" where
  "hm_node_val m p = do { add \<leftarrow> tda_byte_offset True 1 (hm_val_offset m); Some (p, sizeof_tda_HMapNode + add) }"

text \<open>The bytes a callback reads through the two.\<close>

definition key_bytes :: "'s world \<Rightarrow> 's hmap \<Rightarrow> ptr \<Rightarrow> byte list option" where
  "key_bytes w m p = (case hm_node_key p of (q, off) \<Rightarrow> mem_read w q off (hm_key_size m))"

definition val_bytes :: "'s world \<Rightarrow> 's hmap \<Rightarrow> ptr \<Rightarrow> byte list option" where
  "val_bytes w m p = do { (q, off) \<leftarrow> hm_node_val m p; mem_read w q off (hm_val_size m) }"

definition put_val :: "'s hmap \<Rightarrow> ptr \<Rightarrow> byte list option \<Rightarrow> 's world \<Rightarrow> 's world option" where
  "put_val m p val w = (if hm_val_size m > 0
     then do { (q, off) \<leftarrow> hm_node_val m p; v \<leftarrow> val; mem_write w q off (take (hm_val_size m) v) }
     else Some w)"

definition hm_node_new ::
  "'s hmap \<Rightarrow> byte list \<Rightarrow> byte list option \<Rightarrow> 64 word \<Rightarrow> 's world \<Rightarrow> hlinks \<Rightarrow>
    (tda_Status \<times> ptr option \<times> 's world \<times> hlinks) option" where
  "hm_node_new m key val hash w h = do {
     (r, w1) \<leftarrow> tda_alloc (hm_al m) w (hm_node_bytes m);
     (case r of
        None \<Rightarrow> Some (TDA_STATUS_ERR_NO_MEM, None, w1, h)
      | Some p \<Rightarrow> do {
          aligned \<leftarrow> tda_ptr_is_aligned (addr_of p) 16;
          c_assert aligned;
          let h1 = h\<lparr>hl_nodes := (hl_nodes h)(p \<mapsto> \<lparr>hn_next = None, hn_hash = hash\<rparr>)\<rparr>;
          w2 \<leftarrow> (case hm_node_key p of (q, off) \<Rightarrow> mem_write w1 q off (take (hm_key_size m) key));
          w3 \<leftarrow> put_val m p val w2;
          Some (TDA_STATUS_OK, Some p, w3, h1)
        })
   }"

definition hm_node_drop :: "'s hmap \<Rightarrow> ptr \<Rightarrow> 's world \<Rightarrow> hlinks \<Rightarrow> ('s world \<times> hlinks) option" where
  "hm_node_drop m p w h = do {
     w1 \<leftarrow> tda_dealloc (hm_al m) w (Some p) (hm_node_bytes m);
     Some (w1, h\<lparr>hl_nodes := (hl_nodes h)(p := None)\<rparr>)
   }"

text \<open>\<open>hash & (n - 1)\<close>.\<close>

definition hash_slot :: "nat \<Rightarrow> 64 word \<Rightarrow> nat" where
  "hash_slot n hash = unat (hash AND word_of_nat (n - 1))"

definition bucket_of :: "'s hmap \<Rightarrow> 64 word \<Rightarrow> nat option" where
  "bucket_of m hash = do { c_assert (hm_bucket_count m > 0); Some (hash_slot (hm_bucket_count m) hash) }"

text \<open>\<open>node->hash == hash && eq(node_key(node), key)\<close>.\<close>

definition node_matches :: "'s world \<Rightarrow> hlinks \<Rightarrow> 's hmap \<Rightarrow> byte list \<Rightarrow> 64 word \<Rightarrow> ptr \<Rightarrow> bool option" where
  "node_matches w h m key hash p = do {
     n \<leftarrow> hl_nodes h p;
     if hn_hash n = hash then do { k \<leftarrow> key_bytes w m p; Some (hm_eq m k key) } else Some False
   }"

definition hm_find_node :: "'s world \<Rightarrow> hlinks \<Rightarrow> 's hmap \<Rightarrow> byte list \<Rightarrow> 64 word \<Rightarrow> ptr option option" where
  "hm_find_node w h m key hash = (if hm_bucket_count m = 0 then Some None
     else do {
       i \<leftarrow> bucket_of m hash;
       p \<leftarrow> bucket_get h m i;
       node_seek (node_matches w h m key hash) (hnext h) p
     })"

text \<open>The bucket array goes back to the allocator; what its pointers were is forgotten.\<close>

definition forget_buckets :: "ptr option \<Rightarrow> hlinks \<Rightarrow> hlinks" where
  "forget_buckets r h = (case r of None \<Rightarrow> h | Some b \<Rightarrow> h\<lparr>hl_arrays := (hl_arrays h)(b := None)\<rparr>)"

section \<open>Growing\<close>

partial_function (option) pow2_loop :: "nat \<Rightarrow> nat \<Rightarrow> nat option" where
  "pow2_loop n want = (if n < want
     then (case ckd_mul n HMAP_GROWTH_FACTOR of None \<Rightarrow> Some 0 | Some grown \<Rightarrow> pow2_loop grown want)
     else Some n)"

definition round_up_pow2 :: "nat \<Rightarrow> nat option" where
  "round_up_pow2 want = pow2_loop HMAP_BUCKETS_BASE want"

text \<open>One node moves to the head of its bucket in the new array at \<open>b\<close>.\<close>

definition relink_node :: "ptr \<Rightarrow> nat \<Rightarrow> ptr \<Rightarrow> hlinks \<Rightarrow> (hlinks \<times> ptr option) option" where
  "relink_node b new_count p h = do {
     n \<leftarrow> hl_nodes h p;
     let i = hash_slot new_count (hn_hash n);
     v \<leftarrow> slot_get h b i;
     h1 \<leftarrow> set_hnext p v h;
     h2 \<leftarrow> slot_set b i (Some p) h1;
     Some (h2, hn_next n)
   }"

definition rehash :: "nat \<Rightarrow> 's world \<Rightarrow> hlinks \<Rightarrow> 's hmap \<Rightarrow> (tda_Status \<times> 's world \<times> hlinks \<times> 's hmap) option" where
  "rehash new_count w h m = do {
     c_assert (new_count > 0);
     c_assert (is_pow2_c new_count);
     (r, w1) \<leftarrow> tda_calloc (hm_al m) w new_count sizeof_bucket;
     (case r of
        None \<Rightarrow> Some (TDA_STATUS_ERR_NO_MEM, w1, h, m)
      | Some b \<Rightarrow> do {
          let h0 = h\<lparr>hl_arrays := (hl_arrays h)(b \<mapsto> replicate new_count None)\<rparr>;
          h1 \<leftarrow> for_loop [0..<hm_bucket_count m] (\<lambda>i h. do {
              p \<leftarrow> bucket_get h m i;
              node_loop (relink_node b new_count) p h
            }) h0;
          w2 \<leftarrow> tda_dealloc (hm_al m) w1 (hm_buckets m) (size_mul (hm_bucket_count m) sizeof_bucket);
          let m1 = m\<lparr>hm_buckets := Some b, hm_bucket_count := new_count\<rparr>;
          ASSERT_HMAP m1;
          Some (TDA_STATUS_OK, w2, forget_buckets (hm_buckets m) h1, m1)
        })
   }"

definition hm_reserve_one :: "'s world \<Rightarrow> hlinks \<Rightarrow> 's hmap \<Rightarrow> (tda_Status \<times> 's world \<times> hlinks \<times> 's hmap) option" where
  "hm_reserve_one w h m =
     (if hm_len m < hm_bucket_count m then Some (TDA_STATUS_OK, w, h, m)
      else if hm_bucket_count m = 0 then rehash HMAP_BUCKETS_BASE w h m
      else case ckd_mul (hm_bucket_count m) HMAP_GROWTH_FACTOR of
        None \<Rightarrow> Some (TDA_STATUS_ERR_NO_MEM, w, h, m)
      | Some grown \<Rightarrow> rehash grown w h m)"

definition add_node ::
  "byte list \<Rightarrow> byte list option \<Rightarrow> 64 word \<Rightarrow> 's world \<Rightarrow> hlinks \<Rightarrow> 's hmap \<Rightarrow>
    (tda_Status \<times> ptr option \<times> 's world \<times> hlinks \<times> 's hmap) option" where
  "add_node key val hash w h m = do {
     (st, w1, h1, m1) \<leftarrow> hm_reserve_one w h m;
     if TDA_STATUS_IS_ERR st then Some (st, None, w1, h1, m1)
     else do {
       (st2, r, w2, h2) \<leftarrow> hm_node_new m1 key val hash w1 h1;
       (case r of
          None \<Rightarrow> Some (st2, None, w2, h2, m1)
        | Some p \<Rightarrow> do {
            i \<leftarrow> bucket_of m1 hash;
            v \<leftarrow> bucket_get h2 m1 i;
            h3 \<leftarrow> set_hnext p v h2;
            b \<leftarrow> hm_buckets m1;
            h4 \<leftarrow> slot_set b i (Some p) h3;
            let m2 = m1\<lparr>hm_len := hm_len m1 + 1\<rparr>;
            ASSERT_HMAP m2;
            Some (TDA_STATUS_OK, Some p, w2, h4, m2)
          })
     }
   }"

definition first_from :: "hlinks \<Rightarrow> 's hmap \<Rightarrow> nat \<Rightarrow> ptr option option" where
  "first_from h m idx = first_bucket [idx..<hm_bucket_count m] (bucket_get h m)"

definition hm_clear_nodes :: "'s world \<Rightarrow> hlinks \<Rightarrow> 's hmap \<Rightarrow> ('s world \<times> hlinks) option" where
  "hm_clear_nodes w h m = for_loop [0..<hm_bucket_count m] (\<lambda>i (w, h). do {
     p \<leftarrow> bucket_get h m i;
     node_loop (\<lambda>p (w, h). do {
         q \<leftarrow> hnext h p;
         s \<leftarrow> hm_node_drop m p w h;
         Some (s, q)
       }) p (w, h)
   }) (w, h)"

definition drop_buckets :: "'s world \<Rightarrow> hlinks \<Rightarrow> 's hmap \<Rightarrow> ('s world \<times> hlinks) option" where
  "drop_buckets w h m = do {
     w1 \<leftarrow> tda_dealloc (hm_al m) w (hm_buckets m) (size_mul (hm_bucket_count m) sizeof_bucket);
     Some (w1, forget_buckets (hm_buckets m) h)
   }"

definition release_buckets :: "'s world \<Rightarrow> hlinks \<Rightarrow> 's hmap \<Rightarrow> ('s world \<times> hlinks \<times> 's hmap) option" where
  "release_buckets w h m = do {
     (w1, h1) \<leftarrow> hm_clear_nodes w h m;
     (w2, h2) \<leftarrow> drop_buckets w1 h1 m;
     Some (w2, h2, m\<lparr>hm_buckets := None, hm_bucket_count := 0, hm_len := 0\<rparr>)
   }"

section \<open>Lookup\<close>

definition tda_hmap_get :: "'s world \<Rightarrow> hlinks \<Rightarrow> 's hmap \<Rightarrow> byte list \<Rightarrow> (ptr \<times> nat) option option" where
  "tda_hmap_get w h m key = do {
     ASSERT_HMAP m;
     r \<leftarrow> hm_find_node w h m key (hm_hasher m key);
     (case r of None \<Rightarrow> Some None | Some p \<Rightarrow> do { a \<leftarrow> hm_node_val m p; Some (Some a) })
   }"

definition tda_hmap_contains :: "'s world \<Rightarrow> hlinks \<Rightarrow> 's hmap \<Rightarrow> byte list \<Rightarrow> bool option" where
  "tda_hmap_contains w h m key = do {
     ASSERT_HMAP m;
     r \<leftarrow> hm_find_node w h m key (hm_hasher m key);
     Some (r \<noteq> None)
   }"

definition tda_hmap_find :: "'s world \<Rightarrow> hlinks \<Rightarrow> 's hmap \<Rightarrow> byte list \<Rightarrow> ptr option option" where
  "tda_hmap_find w h m key = do { ASSERT_HMAP m; hm_find_node w h m key (hm_hasher m key) }"

section \<open>Nodes\<close>

definition tda_hmap_first_node :: "hlinks \<Rightarrow> 's hmap \<Rightarrow> ptr option option" where
  "tda_hmap_first_node h m = do { ASSERT_HMAP m; first_from h m 0 }"

definition tda_hmap_node_next :: "hlinks \<Rightarrow> 's hmap \<Rightarrow> ptr \<Rightarrow> ptr option option" where
  "tda_hmap_node_next h m p = do {
     ASSERT_HMAP m;
     n \<leftarrow> hl_nodes h p;
     if hn_next n \<noteq> None then Some (hn_next n)
     else do { i \<leftarrow> bucket_of m (hn_hash n); first_from h m (i + 1) }
   }"

definition tda_hmap_node_key :: "ptr \<Rightarrow> ptr \<times> nat" where
  "tda_hmap_node_key p = hm_node_key p"

definition tda_hmap_node_val :: "'s hmap \<Rightarrow> ptr \<Rightarrow> (ptr \<times> nat) option" where
  "tda_hmap_node_val m p = do { ASSERT_HMAP m; hm_node_val m p }"

section \<open>Information\<close>

definition tda_hmap_len :: "'s hmap \<Rightarrow> nat option" where
  "tda_hmap_len m = do { ASSERT_HMAP m; Some (hm_len m) }"

definition tda_hmap_bucket_count :: "'s hmap \<Rightarrow> nat option" where
  "tda_hmap_bucket_count m = do { ASSERT_HMAP m; Some (hm_bucket_count m) }"

definition tda_hmap_key_size :: "'s hmap \<Rightarrow> nat option" where
  "tda_hmap_key_size m = do { ASSERT_HMAP m; Some (hm_key_size m) }"

definition tda_hmap_val_size :: "'s hmap \<Rightarrow> nat option" where
  "tda_hmap_val_size m = do { ASSERT_HMAP m; Some (hm_val_size m) }"

definition tda_hmap_al :: "'s hmap \<Rightarrow> 's al option" where
  "tda_hmap_al m = do { ASSERT_HMAP m; Some (hm_al m) }"

definition tda_hmap_hasher :: "'s hmap \<Rightarrow> hasher option" where
  "tda_hmap_hasher m = do { ASSERT_HMAP m; Some (hm_hasher m) }"

definition tda_hmap_key_eq :: "'s hmap \<Rightarrow> (byte list \<Rightarrow> byte list \<Rightarrow> bool) option" where
  "tda_hmap_key_eq m = do { ASSERT_HMAP m; Some (hm_eq m) }"

section \<open>Inserting, removing and room\<close>

text \<open>The third component is what was written to \<open>*out_is_new\<close>, if anything was.\<close>

definition tda_hmap_insert ::
  "'s world \<Rightarrow> hlinks \<Rightarrow> 's hmap \<Rightarrow> byte list \<Rightarrow> byte list option \<Rightarrow>
    (tda_Status \<times> bool option \<times> 's world \<times> hlinks \<times> 's hmap) option" where
  "tda_hmap_insert w h m key val = do {
     ASSERT_HMAP m;
     c_assert (val \<noteq> None \<or> hm_val_size m = 0);
     let hash = hm_hasher m key;
     found \<leftarrow> hm_find_node w h m key hash;
     (case found of
        Some p \<Rightarrow> do { w1 \<leftarrow> put_val m p val w; Some (TDA_STATUS_OK, Some False, w1, h, m) }
      | None \<Rightarrow> do {
          (st, r, w1, h1, m1) \<leftarrow> add_node key val hash w h m;
          Some (st, if TDA_STATUS_IS_ERR st then None else Some True, w1, h1, m1)
        })
   }"

definition tda_hmap_get_or_insert ::
  "'s world \<Rightarrow> hlinks \<Rightarrow> 's hmap \<Rightarrow> byte list \<Rightarrow> byte list option \<Rightarrow>
    (tda_Status \<times> ptr option \<times> 's world \<times> hlinks \<times> 's hmap) option" where
  "tda_hmap_get_or_insert w h m key val_if_absent = do {
     ASSERT_HMAP m;
     c_assert (val_if_absent \<noteq> None \<or> hm_val_size m = 0);
     let hash = hm_hasher m key;
     found \<leftarrow> hm_find_node w h m key hash;
     (case found of
        Some p \<Rightarrow> Some (TDA_STATUS_OK, Some p, w, h, m)
      | None \<Rightarrow> add_node key val_if_absent hash w h m)
   }"

text \<open>\<open>*link = dead->next\<close>, the node dropped, \<open>--len\<close>.\<close>

definition store_link :: "'s hmap \<Rightarrow> nat \<Rightarrow> ptr option \<Rightarrow> ptr option \<Rightarrow> hlinks \<Rightarrow> hlinks option" where
  "store_link m i lnk v h = (case lnk of
      None \<Rightarrow> do { b \<leftarrow> hm_buckets m; slot_set b i v h }
    | Some q \<Rightarrow> set_hnext q v h)"

definition cut_node ::
  "'s hmap \<Rightarrow> nat \<Rightarrow> ptr option \<Rightarrow> ptr \<Rightarrow> 's world \<Rightarrow> hlinks \<Rightarrow> ('s world \<times> hlinks \<times> 's hmap) option" where
  "cut_node m i lnk dead w h = do {
     v \<leftarrow> hnext h dead;
     h1 \<leftarrow> store_link m i lnk v h;
     (w2, h2) \<leftarrow> hm_node_drop m dead w h1;
     let m1 = m\<lparr>hm_len := hm_len m - 1\<rparr>;
     ASSERT_HMAP m1;
     Some (w2, h2, m1)
   }"

definition tda_hmap_remove ::
  "'s world \<Rightarrow> hlinks \<Rightarrow> 's hmap \<Rightarrow> byte list \<Rightarrow> (bool \<times> 's world \<times> hlinks \<times> 's hmap) option" where
  "tda_hmap_remove w h m key = do {
     ASSERT_HMAP m;
     if hm_bucket_count m = 0 then Some (False, w, h, m)
     else do {
       let hash = hm_hasher m key;
       i \<leftarrow> bucket_of m hash;
       p \<leftarrow> bucket_get h m i;
       (lnk, cur) \<leftarrow> link_seek (node_matches w h m key hash) (hnext h) (None, p);
       (case cur of
          None \<Rightarrow> Some (False, w, h, m)
        | Some dead \<Rightarrow> do { (w1, h1, m1) \<leftarrow> cut_node m i lnk dead w h; Some (True, w1, h1, m1) })
     }
   }"

definition tda_hmap_remove_node :: "'s world \<Rightarrow> hlinks \<Rightarrow> 's hmap \<Rightarrow> ptr \<Rightarrow> ('s world \<times> hlinks \<times> 's hmap) option" where
  "tda_hmap_remove_node w h m node = do {
     ASSERT_HMAP m;
     c_assert (hm_len m > 0);
     n \<leftarrow> hl_nodes h node;
     i \<leftarrow> bucket_of m (hn_hash n);
     p \<leftarrow> bucket_get h m i;
     (lnk, cur) \<leftarrow> link_seek (\<lambda>q. Some (q = node)) (hnext h) (None, p);
     c_assert (cur = Some node);
     cut_node m i lnk node w h
   }"

definition tda_hmap_clear :: "'s world \<Rightarrow> hlinks \<Rightarrow> 's hmap \<Rightarrow> ('s world \<times> hlinks \<times> 's hmap) option" where
  "tda_hmap_clear w h m = do {
     ASSERT_HMAP m;
     (w1, h1) \<leftarrow> hm_clear_nodes w h m;
     h2 \<leftarrow> for_loop [0..<hm_bucket_count m] (\<lambda>i h. do { b \<leftarrow> hm_buckets m; slot_set b i None h }) h1;
     let m1 = m\<lparr>hm_len := 0\<rparr>;
     ASSERT_HMAP m1;
     Some (w1, h2, m1)
   }"

definition tda_hmap_reserve ::
  "'s world \<Rightarrow> hlinks \<Rightarrow> 's hmap \<Rightarrow> nat \<Rightarrow> (tda_Status \<times> 's world \<times> hlinks \<times> 's hmap) option" where
  "tda_hmap_reserve w h m cap = do {
     ASSERT_HMAP m;
     if cap \<le> hm_bucket_count m then Some (TDA_STATUS_OK, w, h, m)
     else do {
       want \<leftarrow> round_up_pow2 cap;
       if want = 0 then Some (TDA_STATUS_ERR_NO_MEM, w, h, m) else rehash want w h m
     }
   }"

definition tda_hmap_shrink_to_fit ::
  "'s world \<Rightarrow> hlinks \<Rightarrow> 's hmap \<Rightarrow> (tda_Status \<times> 's world \<times> hlinks \<times> 's hmap) option" where
  "tda_hmap_shrink_to_fit w h m = do {
     ASSERT_HMAP m;
     if hm_len m = 0 then do {
       (w1, h1, m1) \<leftarrow> release_buckets w h m;
       ASSERT_HMAP m1;
       Some (TDA_STATUS_OK, w1, h1, m1)
     }
     else do {
       want \<leftarrow> round_up_pow2 (hm_len m);
       if want = 0 \<or> want \<ge> hm_bucket_count m then Some (TDA_STATUS_OK, w, h, m) else rehash want w h m
     }
   }"

text \<open>\<open>TDA_SWAP(*a, *b)\<close>: the contents change place, the two structs stay where they are.\<close>

definition hm_swap_structs :: "'s hmap \<Rightarrow> 's hmap \<Rightarrow> 's hmap \<times> 's hmap" where
  "hm_swap_structs a b = (b\<lparr>hm_self := hm_self a\<rparr>, a\<lparr>hm_self := hm_self b\<rparr>)"

definition tda_hmap_swap :: "'s hmap \<Rightarrow> 's hmap \<Rightarrow> ('s hmap \<times> 's hmap) option" where
  "tda_hmap_swap self other = do {
     ASSERT_HMAP self;
     ASSERT_HMAP other;
     c_assert (hm_key_size self = hm_key_size other);
     c_assert (hm_val_size self = hm_val_size other);
     c_assert (al_self (hm_al self) = al_self (hm_al other));
     if hm_self self = hm_self other then Some (self, other)
     else do {
       let (a, b) = hm_swap_structs self other;
       ASSERT_HMAP a;
       ASSERT_HMAP b;
       Some (a, b)
     }
   }"

section \<open>Lifetime and copies\<close>

definition tda_hmap_new_raw ::
  "nat \<Rightarrow> nat \<Rightarrow> nat \<Rightarrow> hasher \<Rightarrow> (byte list \<Rightarrow> byte list \<Rightarrow> bool) \<Rightarrow> 's al \<Rightarrow> 's world \<Rightarrow> hlinks \<Rightarrow>
    (tda_Status \<times> 's hmap option \<times> 's world \<times> hlinks) option" where
  "tda_hmap_new_raw cap key_size val_size hasher eq al w h = do {
     c_assert (key_size > 0);
     val_offset \<leftarrow> (if val_size = 0 then Some key_size else tda_align_up key_size 16);
     (case ckd_add val_offset val_size of
        None \<Rightarrow> Some (TDA_STATUS_ERR_NO_MEM, None, w, h)
      | Some kv_bytes \<Rightarrow> do {
          (r, w1) \<leftarrow> tda_alloc al w sizeof_tda_HMap;
          (case r of
             None \<Rightarrow> Some (TDA_STATUS_ERR_NO_MEM, None, w1, h)
           | Some obj \<Rightarrow> do {
               let m = \<lparr>hm_self = obj, hm_buckets = None, hm_bucket_count = 0, hm_len = 0, hm_key_size = key_size,
                 hm_val_size = val_size, hm_val_offset = val_offset, hm_hasher = hasher, hm_eq = eq, hm_al = al\<rparr>;
               (st, w2, h2, m2) \<leftarrow> (if cap > 0 then tda_hmap_reserve w1 h m cap else Some (TDA_STATUS_OK, w1, h, m));
               if TDA_STATUS_IS_ERR st then do {
                 w3 \<leftarrow> tda_dealloc al w2 (Some obj) sizeof_tda_HMap;
                 Some (st, None, w3, h2)
               }
               else do { ASSERT_HMAP m2; Some (TDA_STATUS_OK, Some m2, w2, h2) }
             })
        })
   }"

definition tda_hmap_new_cap ::
  "nat \<Rightarrow> nat \<Rightarrow> nat \<Rightarrow> hasher \<Rightarrow> (byte list \<Rightarrow> byte list \<Rightarrow> bool) \<Rightarrow> 's al \<Rightarrow> 's world \<Rightarrow> hlinks \<Rightarrow>
    (tda_Status \<times> 's hmap option \<times> 's world \<times> hlinks) option" where
  "tda_hmap_new_cap cap key_size val_size hasher eq al w h = do {
     c_assert (val_size > 0);
     tda_hmap_new_raw cap key_size val_size hasher eq al w h
   }"

definition tda_hmap_new ::
  "nat \<Rightarrow> nat \<Rightarrow> hasher \<Rightarrow> (byte list \<Rightarrow> byte list \<Rightarrow> bool) \<Rightarrow> 's al \<Rightarrow> 's world \<Rightarrow> hlinks \<Rightarrow>
    (tda_Status \<times> 's hmap option \<times> 's world \<times> hlinks) option" where
  "tda_hmap_new key_size val_size hasher eq al w h = tda_hmap_new_cap 0 key_size val_size hasher eq al w h"

definition tda_hmap_drop :: "'s world \<Rightarrow> hlinks \<Rightarrow> 's hmap option \<Rightarrow> ('s world \<times> hlinks) option" where
  "tda_hmap_drop w h self = (case self of
      None \<Rightarrow> Some (w, h)
    | Some m \<Rightarrow> do {
        ASSERT_HMAP m;
        (w1, h1) \<leftarrow> hm_clear_nodes w h m;
        (w2, h2) \<leftarrow> drop_buckets w1 h1 m;
        w3 \<leftarrow> tda_dealloc (hm_al m) w2 (Some (hm_self m)) sizeof_tda_HMap;
        Some (w3, h2)
      })"

text \<open>One turn of the loop of a copy: the entry at \<open>p\<close> is inserted, and which node of \<open>self\<close> is next.\<close>

definition insert_entry_of ::
  "'s hmap \<Rightarrow> ptr \<Rightarrow> 's world \<times> hlinks \<times> 's hmap \<Rightarrow> (tda_Status \<times> ('s world \<times> hlinks \<times> 's hmap) \<times> ptr option) option" where
  "insert_entry_of self p s = (case s of (w, h, obj) \<Rightarrow> do {
     val \<leftarrow> (if hm_val_size self > 0 then do { v \<leftarrow> val_bytes w self p; Some (Some v) } else Some None);
     key \<leftarrow> key_bytes w self p;
     (st, new, w1, h1, obj1) \<leftarrow> tda_hmap_insert w h obj key val;
     nxt \<leftarrow> tda_hmap_node_next h1 self p;
     Some (st, (w1, h1, obj1), nxt)
   })"

definition tda_hmap_copy_with ::
  "'s world \<Rightarrow> hlinks \<Rightarrow> 's hmap \<Rightarrow> 's al \<Rightarrow> (tda_Status \<times> 's hmap option \<times> 's world \<times> hlinks) option" where
  "tda_hmap_copy_with w h self al = do {
     ASSERT_HMAP self;
     (st, r, w1, h1) \<leftarrow> tda_hmap_new_raw (hm_len self) (hm_key_size self) (hm_val_size self) (hm_hasher self) (hm_eq self) al w h;
     (case r of
        None \<Rightarrow> Some (st, None, w1, h1)
      | Some obj \<Rightarrow> do {
          p \<leftarrow> first_from h1 self 0;
          (st2, w2, h2, obj2) \<leftarrow> node_try (insert_entry_of self) p (w1, h1, obj);
          if TDA_STATUS_IS_ERR st2 then do { (w3, h3) \<leftarrow> tda_hmap_drop w2 h2 (Some obj2); Some (st2, None, w3, h3) }
          else Some (TDA_STATUS_OK, Some obj2, w2, h2)
        })
   }"

definition tda_hmap_copy ::
  "'s world \<Rightarrow> hlinks \<Rightarrow> 's hmap \<Rightarrow> (tda_Status \<times> 's hmap option \<times> 's world \<times> hlinks) option" where
  "tda_hmap_copy w h self = do { ASSERT_HMAP self; tda_hmap_copy_with w h self (hm_al self) }"

definition tda_hmap_copy_assign ::
  "'s world \<Rightarrow> hlinks \<Rightarrow> 's hmap \<Rightarrow> 's hmap \<Rightarrow> (tda_Status \<times> 's world \<times> hlinks \<times> 's hmap) option" where
  "tda_hmap_copy_assign w h self other = do {
     ASSERT_HMAP self;
     ASSERT_HMAP other;
     c_assert (hm_key_size self = hm_key_size other);
     c_assert (hm_val_size self = hm_val_size other);
     if hm_self self = hm_self other then Some (TDA_STATUS_OK, w, h, other)
     else do {
       (st, r, w1, h1) \<leftarrow> tda_hmap_copy_with w h self (hm_al other);
       (case r of
          None \<Rightarrow> Some (st, w1, h1, other)
        | Some clone \<Rightarrow> do {
            let (other1, clone1) = hm_swap_structs other clone;
            (w2, h2) \<leftarrow> tda_hmap_drop w1 h1 (Some clone1);
            ASSERT_HMAP other1;
            Some (TDA_STATUS_OK, w2, h2, other1)
          })
     }
   }"

definition tda_hmap_move_assign ::
  "'s world \<Rightarrow> hlinks \<Rightarrow> 's hmap \<Rightarrow> 's hmap \<Rightarrow> (tda_Status \<times> 's world \<times> hlinks \<times> 's hmap \<times> 's hmap) option" where
  "tda_hmap_move_assign w h self other = do {
     ASSERT_HMAP self;
     ASSERT_HMAP other;
     c_assert (hm_key_size self = hm_key_size other);
     c_assert (hm_val_size self = hm_val_size other);
     if hm_self self = hm_self other then Some (TDA_STATUS_OK, w, h, self, other)
     else if al_self (hm_al self) = al_self (hm_al other) then do {
       let (self1, other1) = hm_swap_structs self other;
       (w1, h1, self2) \<leftarrow> release_buckets w h self1;
       ASSERT_HMAP self2;
       ASSERT_HMAP other1;
       Some (TDA_STATUS_OK, w1, h1, self2, other1)
     }
     else do {
       (st, r, w1, h1) \<leftarrow> tda_hmap_copy_with w h self (hm_al other);
       (case r of
          None \<Rightarrow> Some (st, w1, h1, self, other)
        | Some obj \<Rightarrow> do {
            let (other1, obj1) = hm_swap_structs other obj;
            (w2, h2) \<leftarrow> tda_hmap_drop w1 h1 (Some obj1);
            (w3, h3, self1) \<leftarrow> release_buckets w2 h2 self;
            ASSERT_HMAP self1;
            ASSERT_HMAP other1;
            Some (TDA_STATUS_OK, w3, h3, self1, other1)
          })
     }
   }"

section \<open>Comparison\<close>

text \<open>One turn of the inner loop: the key of \<open>p\<close> is looked up in \<open>b\<close>, by the hasher of \<open>b\<close>.\<close>

definition entry_in ::
  "'s world \<Rightarrow> hlinks \<Rightarrow> 's hmap \<Rightarrow> 's hmap \<Rightarrow> (byte list \<Rightarrow> byte list \<Rightarrow> bool) option \<Rightarrow> ptr \<Rightarrow> bool option" where
  "entry_in w h a b val_eq p = do {
     key \<leftarrow> key_bytes w a p;
     found \<leftarrow> hm_find_node w h b key (hm_hasher b key);
     (case found of
        None \<Rightarrow> Some False
      | Some q \<Rightarrow> do {
          lhs \<leftarrow> val_bytes w a p;
          rhs \<leftarrow> (do { (r, off) \<leftarrow> hm_node_val b q; mem_read w r off (hm_val_size a) });
          Some (case val_eq of Some f \<Rightarrow> f lhs rhs | None \<Rightarrow> lhs = rhs)
        })
   }"

definition eq_impl ::
  "'s world \<Rightarrow> hlinks \<Rightarrow> 's hmap \<Rightarrow> 's hmap \<Rightarrow> (byte list \<Rightarrow> byte list \<Rightarrow> bool) option \<Rightarrow> bool option" where
  "eq_impl w h a b val_eq =
     (if hm_self a = hm_self b then Some True
      else if hm_len a \<noteq> hm_len b then Some False
      else range_all [0..<hm_bucket_count a] (\<lambda>i. do {
          p \<leftarrow> bucket_get h a i;
          node_all (entry_in w h a b val_eq) (hnext h) p
        }))"

definition tda_hmap_eq :: "'s world \<Rightarrow> hlinks \<Rightarrow> 's hmap \<Rightarrow> 's hmap \<Rightarrow> bool option" where
  "tda_hmap_eq w h a b = do {
     ASSERT_HMAP a;
     ASSERT_HMAP b;
     c_assert (hm_key_size a = hm_key_size b);
     c_assert (hm_val_size a = hm_val_size b);
     eq_impl w h a b None
   }"

definition tda_hmap_eq_by ::
  "'s world \<Rightarrow> hlinks \<Rightarrow> 's hmap \<Rightarrow> 's hmap \<Rightarrow> (byte list \<Rightarrow> byte list \<Rightarrow> bool) \<Rightarrow> bool option" where
  "tda_hmap_eq_by w h a b val_eq = do {
     ASSERT_HMAP a;
     ASSERT_HMAP b;
     c_assert (hm_key_size a = hm_key_size b);
     c_assert (hm_val_size a = hm_val_size b);
     eq_impl w h a b (Some val_eq)
   }"

end
