(* ===== verification/Tda_HMap_Chains.thy ===== *)
theory Tda_HMap_Chains
  imports Tda_HMap Tda_List_Chains
begin

text \<open>
  The links of a hash map, without the bytes. \<open>placed h n bs\<close>: the chains \<open>bs\<close> are linked, share no
  node, and every node lies in the chain its hash names among \<open>n\<close>; \<open>headed h b bs\<close>: the array at \<open>b\<close>
  heads them. The lemmas give the effect of putting a node at the head of its bucket, of cutting
  one out, and of moving all of them into another array.
\<close>

section \<open>Slots\<close>

lemma hash_slot_mod: "k < 64 \<Longrightarrow> hash_slot (2 ^ k) x = unat x mod 2 ^ k"
proof -
  assume k: "k < 64"
  show ?thesis
    unfolding hash_slot_def mask_word [OF k] take_bit_eq_mask [symmetric] unsigned_take_bit_eq by (rule take_bit_eq_mod)
qed

definition pow2_size :: "nat \<Rightarrow> bool" where
  "pow2_size n \<longleftrightarrow> (\<exists>k < 64. n = 2 ^ k)"

lemma hash_slot_less: "pow2_size n \<Longrightarrow> hash_slot n x < n"
  by (auto simp: pow2_size_def hash_slot_mod)

lemma pow2_size_facts: "pow2_size n \<Longrightarrow> 0 < n \<and> is_pow2_c n \<and> n \<le> SIZE_MAX"
proof -
  assume "pow2_size n"
  then obtain k where k: "k < 64" "n = 2 ^ k" by (auto simp: pow2_size_def)
  have "(2::nat) ^ k \<le> 2 ^ 63" using k(1) by (intro power_increasing) auto
  then show ?thesis using k is_pow2_c_pow2 [OF k(1)] by (simp add: SIZE_MAX_def)
qed

text \<open>Doubling from the base ends, at the least power of two that is large enough or at zero.\<close>

lemma pow2_loop_ok:
  "pow2_size n \<Longrightarrow> \<exists>r. pow2_loop n want = Some r \<and> (r = 0 \<or> pow2_size r \<and> want \<le> r \<and> n \<le> r \<and> (n < r \<longrightarrow> r < 2 * want))
    \<and> (want \<le> 2 ^ 63 \<longrightarrow> r \<noteq> 0)"
proof (induction "want - n" arbitrary: n rule: less_induct)
  case less
  obtain k where k: "k < 64" "n = 2 ^ k" using less.prems by (auto simp: pow2_size_def)
  show ?case
  proof (cases "n < want")
    case False
    then show ?thesis using less.prems by (subst pow2_loop.simps) (use pow2_size_facts [of n] in auto)
  next
    case True
    show ?thesis
    proof (cases "k = 63")
      case True
      then have "ckd_mul n HMAP_GROWTH_FACTOR = None" "n = 2 ^ 63"
        using k(2) by (simp_all add: ckd_mul_def HMAP_GROWTH_FACTOR_def SIZE_MAX_num)
      then show ?thesis using \<open>n < want\<close> by (subst pow2_loop.simps) simp
    next
      case False
      then have p: "pow2_size (n * 2)" using k by (auto simp: pow2_size_def intro: exI [of _ "Suc k"])
      have "ckd_mul n HMAP_GROWTH_FACTOR = Some (n * 2)"
        using pow2_size_facts [OF p] by (simp add: ckd_mul_def HMAP_GROWTH_FACTOR_def)
      moreover have "want - n * 2 < want - n" using True k by (intro diff_less_mono2) simp_all
      from less.hyps [OF this p] obtain r where "pow2_loop (n * 2) want = Some r"
        "r = 0 \<or> pow2_size r \<and> want \<le> r \<and> n * 2 \<le> r \<and> (n * 2 < r \<longrightarrow> r < 2 * want)" "want \<le> 2 ^ 63 \<longrightarrow> r \<noteq> 0" by blast
      ultimately show ?thesis using True by (subst pow2_loop.simps) (use k in auto)
    qed
  qed
qed

lemma round_up_pow2_ok:
  obtains r where "round_up_pow2 want = Some r" "r = 0 \<or> pow2_size r \<and> want \<le> r \<and> (8 < r \<longrightarrow> r < 2 * want)"
    "want \<le> 2 ^ 63 \<Longrightarrow> r \<noteq> 0"
proof -
  have "pow2_size 8" unfolding pow2_size_def by (rule exI [of _ 3]) simp
  then show ?thesis
    using pow2_loop_ok [of 8 want] that by (auto simp: round_up_pow2_def HMAP_BUCKETS_BASE_def)
qed

section \<open>Chains\<close>

fun hchain :: "hlinks \<Rightarrow> ptr list \<Rightarrow> bool" where
  "hchain h [] = True"
| "hchain h (p # ps) = (hnext h p = Some (hd_or ps None) \<and> hchain h ps)"

definition hash_of :: "hlinks \<Rightarrow> ptr \<Rightarrow> 64 word" where
  "hash_of h p = hn_hash (the (hl_nodes h p))"

lemma hchain_cong: "(\<And>q. q \<in> set ps \<Longrightarrow> hl_nodes h' q = hl_nodes h q) \<Longrightarrow> hchain h' ps = hchain h ps"
  by (induction ps) (auto simp: hnext_def)

lemma hchain_node: "hchain h ps \<Longrightarrow> p \<in> set ps \<Longrightarrow> \<exists>n. hl_nodes h p = Some n"
  by (induction ps) (auto simp: hnext_def bind_eq_Some_conv)

lemma hchain_append: "hchain h (as @ p # bs) \<Longrightarrow> hnext h p = Some (hd_or bs None) \<and> hchain h bs"
  by (induction as) auto

lemma node_seek_ok:
  assumes "hchain h ps" "\<And>p. p \<in> set ps \<Longrightarrow> test p = Some (P p)"
  shows "node_seek test (hnext h) (hd_or ps None) = Some (List.find P ps)"
  using assms
proof (induction ps)
  case Nil
  then show ?case by (simp add: node_seek.simps)
next
  case (Cons p ps)
  then show ?case by (subst node_seek.simps) auto
qed

lemma node_all_ok:
  assumes "hchain h ps" "\<And>p. p \<in> set ps \<Longrightarrow> test p = Some (P p)"
  shows "node_all test (hnext h) (hd_or ps None) = Some (\<forall>p \<in> set ps. P p)"
  using assms
proof (induction ps)
  case Nil
  then show ?case by (simp add: node_all.simps)
next
  case (Cons p ps)
  then show ?case by (subst node_all.simps) auto
qed

lemma link_seek_ok:
  assumes "hchain h ps" "\<And>p. p \<in> set ps \<Longrightarrow> test p = Some (P p)"
  shows "(\<forall>p \<in> set ps. \<not> P p) \<and> link_seek test (hnext h) (lnk, hd_or ps None) = Some (last_or ps lnk, None)
    \<or> (\<exists>as p bs. ps = as @ p # bs \<and> (\<forall>a \<in> set as. \<not> P a) \<and> P p
        \<and> link_seek test (hnext h) (lnk, hd_or ps None) = Some (last_or as lnk, Some p))"
  using assms
proof (induction ps arbitrary: lnk)
  case Nil
  then show ?case by (simp add: link_seek.simps)
next
  case (Cons p ps)
  show ?case
  proof (cases "P p")
    case True
    then have "link_seek test (hnext h) (lnk, hd_or (p # ps) None) = Some (last_or [] lnk, Some p)"
      using Cons.prems by (subst link_seek.simps) simp
    then show ?thesis using True by (intro disjI2 exI [of _ "[]"]) simp
  next
    case False
    then have s: "link_seek test (hnext h) (lnk, hd_or (p # ps) None) = link_seek test (hnext h) (Some p, hd_or ps None)"
      using Cons.prems by (subst link_seek.simps) simp
    have "hchain h ps" "\<And>q. q \<in> set ps \<Longrightarrow> test q = Some (P q)" using Cons.prems by simp_all
    from Cons.IH [OF this, of "Some p"] consider
        "\<forall>q \<in> set ps. \<not> P q" "link_seek test (hnext h) (Some p, hd_or ps None) = Some (last_or ps (Some p), None)"
      | as q bs where "ps = as @ q # bs" "\<forall>a \<in> set as. \<not> P a" "P q"
        "link_seek test (hnext h) (Some p, hd_or ps None) = Some (last_or as (Some p), Some q)" by blast
    then show ?thesis
    proof cases
      case 1
      then show ?thesis unfolding s using False by simp
    next
      case (2 as q bs)
      then show ?thesis unfolding s using False by (intro disjI2 exI [of _ "p # as"] exI [of _ q] exI [of _ bs]) simp
    qed
  qed
qed

section \<open>Chains in the buckets of an array\<close>

definition placed :: "hlinks \<Rightarrow> nat \<Rightarrow> ptr list list \<Rightarrow> bool" where
  "placed h n bs \<longleftrightarrow> length bs = n \<and> distinct (concat bs) \<and> (\<forall>c \<in> set bs. hchain h c)
     \<and> (\<forall>i < n. \<forall>p \<in> set (bs ! i). hash_slot n (hash_of h p) = i)"

definition headed :: "hlinks \<Rightarrow> ptr \<Rightarrow> ptr list list \<Rightarrow> bool" where
  "headed h b bs \<longleftrightarrow> hl_arrays h b = Some (map (\<lambda>c. hd_or c None) bs)"

lemma placed_cong: "(\<And>q. q \<in> set (concat bs) \<Longrightarrow> hl_nodes h' q = hl_nodes h q) \<Longrightarrow> placed h' n bs = placed h n bs"
proof -
  assume e: "\<And>q. q \<in> set (concat bs) \<Longrightarrow> hl_nodes h' q = hl_nodes h q"
  have "hchain h' c = hchain h c" if "c \<in> set bs" for c by (rule hchain_cong) (use that e in auto)
  moreover have "hash_of h' p = hash_of h p" if "i < length bs" "p \<in> set (bs ! i)" for i p
  proof -
    have "p \<in> set (concat bs)" using nth_mem [OF that(1)] that(2) by auto
    then show ?thesis using e [of p] by (simp add: hash_of_def)
  qed
  ultimately show ?thesis by (auto simp: placed_def)
qed

lemma placed_node: "placed h n bs \<Longrightarrow> p \<in> set (concat bs) \<Longrightarrow> \<exists>x. hl_nodes h p = Some x"
  using hchain_node by (fastforce simp: placed_def)

lemma placed_slot: "placed h n bs \<Longrightarrow> p \<in> set (concat bs) \<Longrightarrow> hash_slot n (hash_of h p) < n \<and> p \<in> set (bs ! hash_slot n (hash_of h p))"
proof -
  assume a: "placed h n bs" "p \<in> set (concat bs)"
  then obtain c where "c \<in> set bs" "p \<in> set c" by auto
  then obtain i where "i < length bs" "p \<in> set (bs ! i)" by (metis in_set_conv_nth)
  then show ?thesis using a by (auto simp: placed_def)
qed

lemma slot_get_ok: "headed h b bs \<Longrightarrow> i < length bs \<Longrightarrow> slot_get h b i = Some (hd_or (bs ! i) None)"
  by (simp add: headed_def slot_get_def)

lemma set_concat_update:
  "i < length bs \<Longrightarrow> distinct (concat bs) \<Longrightarrow>
    set (concat (bs[i := c])) = (set (concat bs) - set (bs ! i)) \<union> set c"
proof (induction bs arbitrary: i)
  case (Cons x bs)
  show ?case
  proof (cases i)
    case 0
    then show ?thesis using Cons.prems by auto
  next
    case (Suc j)
    then have "set (bs ! j) \<subseteq> set (concat bs)" "set x \<inter> set (concat bs) = {}" using Cons.prems by auto
    then show ?thesis using Cons.IH [of j] Cons.prems Suc by auto
  qed
qed simp

lemma distinct_concat_update:
  "i < length bs \<Longrightarrow> distinct (concat bs) \<Longrightarrow> distinct c \<Longrightarrow> set c \<inter> (set (concat bs) - set (bs ! i)) = {} \<Longrightarrow>
    distinct (concat (bs[i := c]))"
proof (induction bs arbitrary: i)
  case (Cons x bs)
  show ?case
  proof (cases i)
    case 0
    then show ?thesis using Cons.prems by auto
  next
    case (Suc j)
    have d: "distinct (concat bs)" "j < length bs" "set x \<inter> set (concat bs) = {}" "distinct x" using Cons.prems Suc by auto
    have "set (bs ! j) \<subseteq> set (concat bs)" using nth_mem [OF d(2)] by auto
    then have c: "set c \<inter> (set (concat bs) - set (bs ! j)) = {}" "set c \<inter> set x = {}"
      using Cons.prems(4) d(3) Suc by auto
    have "set x \<inter> set (concat (bs[j := c])) = {}" using set_concat_update [OF d(2,1)] d(3) c(2) by auto
    then show ?thesis using Cons.IH [OF d(2,1) Cons.prems(3) c(1)] d(4) Suc by simp
  qed
qed simp

lemma length_concat_update:
  "i < length bs \<Longrightarrow> length (concat (bs[i := c])) + length (bs ! i) = length (concat bs) + length c"
proof (induction bs arbitrary: i)
  case (Cons x bs)
  then show ?case by (cases i) auto
qed simp

text \<open>A chain is replaced by another, whose nodes have the same hashes or belong there.\<close>

lemma placed_update:
  assumes pl: "placed h n bs" and i: "i < n" and c: "hchain h' c" "distinct c" "set c \<inter> (set (concat bs) - set (bs ! i)) = {}"
    and s: "\<forall>p \<in> set c. hash_slot n (hash_of h' p) = i"
    and o: "\<And>q. q \<in> set (concat bs) - set (bs ! i) \<Longrightarrow> hl_nodes h' q = hl_nodes h q"
  shows "placed h' n (bs[i := c])"
proof -
  have b: "length bs = n" "distinct (concat bs)" "i < length bs" using pl i by (auto simp: placed_def)
  have other: "hl_nodes h' q = hl_nodes h q" if "j < n" "j \<noteq> i" "q \<in> set (bs ! j)" for j q
  proof (rule o)
    have "set (bs ! j) \<inter> set (bs ! i) = {}"
    proof -
      have "set (concat (bs[i := []])) = set (concat bs) - set (bs ! i)" using set_concat_update [OF b(3,2), of "[]"] by simp
      moreover have "bs[i := []] ! j \<in> set (bs[i := []])" using that(1) b(1) by (intro nth_mem) simp
      then have "set (bs ! j) \<subseteq> set (concat (bs[i := []]))" using that(2) by auto
      ultimately show ?thesis by auto
    qed
    then show "q \<in> set (concat bs) - set (bs ! i)" using that b(1) by auto
  qed
  have "hchain h' d" if "d \<in> set (bs[i := c])" for d
  proof -
    obtain j where j: "j < n" "d = bs[i := c] ! j" using \<open>d \<in> _\<close> b(1) by (auto simp: in_set_conv_nth)
    show ?thesis
    proof (cases "j = i")
      case True
      then show ?thesis using j c(1) b by simp
    next
      case False
      then have "d = bs ! j" using j by simp
      moreover have "hchain h' (bs ! j) = hchain h (bs ! j)" by (rule hchain_cong) (use other j(1) False in blast)
      ultimately show ?thesis using pl j b(1) by (auto simp: placed_def)
    qed
  qed
  moreover have "hash_slot n (hash_of h' p) = j" if "j < n" "p \<in> set (bs[i := c] ! j)" for j p
  proof (cases "j = i")
    case True
    then show ?thesis using that s b by simp
  next
    case False
    then have "p \<in> set (bs ! j)" using that by simp
    then show ?thesis using other [OF that(1) False] pl that(1) by (auto simp: placed_def hash_of_def)
  qed
  ultimately show ?thesis using b distinct_concat_update [OF b(3,2) c(2,3)] by (simp add: placed_def)
qed

section \<open>Putting a node at the head of its bucket\<close>

lemma headed_update: "headed h b bs \<Longrightarrow> hl_arrays h' b = Some ((map (\<lambda>c. hd_or c None) bs)[i := hd_or c None]) \<Longrightarrow> headed h' b (bs[i := c])"
  by (simp add: headed_def map_update)

lemma push_head_ok:
  assumes pl: "placed h n bs" and hd: "headed h b bs" and p: "p \<notin> set (concat bs)" "hl_nodes h p = Some x"
    and i: "hash_slot n (hn_hash x) = i" "i < n"
  obtains h1 h2 where "set_hnext p (hd_or (bs ! i) None) h = Some h1" "slot_set b i (Some p) h1 = Some h2"
    "placed h2 n (bs[i := p # bs ! i])" "headed h2 b (bs[i := p # bs ! i])"
    "hl_nodes h2 = (hl_nodes h)(p \<mapsto> x\<lparr>hn_next := hd_or (bs ! i) None\<rparr>)" "\<forall>q. q \<noteq> b \<longrightarrow> hl_arrays h2 q = hl_arrays h q"
proof -
  define h1 where "h1 = h\<lparr>hl_nodes := (hl_nodes h)(p \<mapsto> x\<lparr>hn_next := hd_or (bs ! i) None\<rparr>)\<rparr>"
  define h2 where "h2 = h1\<lparr>hl_arrays := (hl_arrays h1)(b \<mapsto> (map (\<lambda>c. hd_or c None) bs)[i := Some p])\<rparr>"
  have len: "i < length bs" and d: "distinct (concat bs)" using pl i(2) by (simp_all add: placed_def)
  have 1: "set_hnext p (hd_or (bs ! i) None) h = Some h1" using p(2) by (simp add: set_hnext_def h1_def)
  have 2: "slot_set b i (Some p) h1 = Some h2" using hd len by (simp add: slot_set_def headed_def h2_def h1_def)
  have sub: "set (bs ! i) \<subseteq> set (concat bs)" using nth_mem [OF len] by auto
  have ch: "hchain h (bs ! i)" "distinct (bs ! i)"
    using pl nth_mem [OF len] distinct_concat_iff [of bs] by (auto simp: placed_def)
  have same: "hl_nodes h2 q = hl_nodes h q" if "q \<in> set (concat bs)" for q
    using that p(1) by (auto simp: h2_def h1_def)
  have "hchain h2 (bs ! i) = hchain h (bs ! i)" by (rule hchain_cong) (use same sub in blast)
  then have c: "hchain h2 (p # bs ! i)" using ch by (simp add: hnext_def h2_def h1_def)
  have "hash_slot n (hash_of h2 q) = i" if "q \<in> set (p # bs ! i)" for q
  proof (cases "q = p")
    case True
    then show ?thesis using i(1) by (simp add: hash_of_def h2_def h1_def)
  next
    case False
    then have "q \<in> set (bs ! i)" using that by simp
    moreover have "hl_nodes h2 q = hl_nodes h q" using calculation sub by (intro same) blast
    ultimately show ?thesis using pl i(2) by (simp add: placed_def hash_of_def)
  qed
  then have "placed h2 n (bs[i := p # bs ! i])"
    by (intro placed_update [OF pl i(2) c]) (use ch(2) p(1) sub same in auto)
  moreover have "headed h2 b (bs[i := p # bs ! i])" by (rule headed_update [OF hd]) (simp add: h2_def)
  ultimately show ?thesis using that 1 2 by (simp add: h2_def h1_def)
qed

section \<open>Cutting a node out\<close>

lemma hchain_cut:
  "hchain h (as @ q # p # cs) \<Longrightarrow> distinct (as @ q # p # cs) \<Longrightarrow> hl_nodes h q = Some x \<Longrightarrow>
    hl_nodes h' = (hl_nodes h)(q \<mapsto> x\<lparr>hn_next := hd_or cs None\<rparr>) \<Longrightarrow> hchain h' (as @ q # cs)"
proof (induction as)
  case Nil
  have "hchain h' cs = hchain h cs" by (rule hchain_cong) (use Nil.prems in auto)
  then show ?case using Nil.prems by (simp add: hnext_def)
next
  case (Cons a as)
  then have "hnext h' a = hnext h a" by (auto simp: hnext_def)
  then show ?case using Cons by simp
qed

lemma store_link_ok:
  assumes pl: "placed h n bs" and hd: "headed h b bs" and m: "hm_buckets m = Some b" and i: "i < n" and c: "bs ! i = as @ p # cs"
  obtains h' where "hnext h p = Some (hd_or cs None)" "store_link m i (last_or as None) (hd_or cs None) h = Some h'"
    "placed h' n (bs[i := as @ cs])" "headed h' b (bs[i := as @ cs])" "\<forall>q. q \<notin> set as \<longrightarrow> hl_nodes h' q = hl_nodes h q"
    "\<forall>q. hash_of h' q = hash_of h q" "\<forall>q. q \<noteq> b \<longrightarrow> hl_arrays h' q = hl_arrays h q"
proof -
  have len: "i < length bs" and d: "distinct (concat bs)" using pl i by (simp_all add: placed_def)
  have ch: "hchain h (as @ p # cs)" "distinct (as @ p # cs)"
    using pl nth_mem [OF len] distinct_concat_iff [of bs] unfolding c [symmetric] by (auto simp: placed_def)
  have nx: "hnext h p = Some (hd_or cs None)" using hchain_append [OF ch(1)] by simp
  have sub: "set (as @ p # cs) \<subseteq> set (concat bs)" unfolding c [symmetric] using nth_mem [OF len] by auto
  have slot: "hash_slot n (hash_of h q) = i" if "q \<in> set (as @ cs)" for q using that pl i c by (auto simp: placed_def)
  have disj: "set (as @ cs) \<inter> (set (concat bs) - set (bs ! i)) = {}" using c by auto
  show ?thesis
  proof (cases as rule: rev_cases)
    case Nil
    define h' where "h' = h\<lparr>hl_arrays := (hl_arrays h)(b \<mapsto> (map (\<lambda>c. hd_or c None) bs)[i := hd_or cs None])\<rparr>"
    have "store_link m i (last_or as None) (hd_or cs None) h = Some h'"
      using hd len m Nil by (simp add: store_link_def slot_set_def headed_def h'_def)
    moreover have nodes: "hl_nodes h' = hl_nodes h" by (simp add: h'_def)
    have "hchain h' (as @ cs) = hchain h (as @ cs)" by (rule hchain_cong) (simp add: nodes)
    then have "placed h' n (bs[i := as @ cs])"
      using ch Nil slot disj nodes by (intro placed_update [OF pl i]) (simp_all add: hash_of_def)
    moreover have "headed h' b (bs[i := as @ cs])" by (rule headed_update [OF hd]) (simp add: h'_def Nil)
    ultimately show ?thesis using that nx nodes by (simp add: hash_of_def h'_def)
  next
    case (snoc as' q)
    obtain x where x: "hl_nodes h q = Some x" using hchain_node [OF ch(1), of q] snoc by auto
    define h' where "h' = h\<lparr>hl_nodes := (hl_nodes h)(q \<mapsto> x\<lparr>hn_next := hd_or cs None\<rparr>)\<rparr>"
    have "store_link m i (last_or as None) (hd_or cs None) h = Some h'"
      using x snoc by (simp add: store_link_def set_hnext_def h'_def)
    moreover have hash: "hash_of h' r = hash_of h r" for r using x by (simp add: hash_of_def h'_def)
    have "hchain h' (as' @ q # cs)" by (rule hchain_cut [of h as' q p cs x]) (use ch snoc x in \<open>simp_all add: h'_def\<close>)
    then have "placed h' n (bs[i := as @ cs])"
      using ch snoc slot disj hash sub c by (intro placed_update [OF pl i]) (auto simp: h'_def)
    moreover have "headed h' b (bs[i := as @ cs])"
    proof (rule headed_update [OF hd])
      have "map (\<lambda>c. hd_or c None) bs ! i = hd_or (as @ cs) None" using c snoc len by simp
      then have "(map (\<lambda>c. hd_or c None) bs)[i := hd_or (as @ cs) None] = map (\<lambda>c. hd_or c None) bs"
        using len by (simp add: list_update_same_conv)
      then show "hl_arrays h' b = Some ((map (\<lambda>c. hd_or c None) bs)[i := hd_or (as @ cs) None])"
        using hd by (simp add: headed_def h'_def)
    qed
    ultimately show ?thesis using that nx hash snoc by (simp add: h'_def)
  qed
qed

section \<open>Moving every node into another array\<close>

text \<open>The nodes \<open>D\<close> have been moved; nothing else is different from \<open>h0\<close>.\<close>

definition moving :: "hlinks \<Rightarrow> ptr \<Rightarrow> nat \<Rightarrow> ptr set \<Rightarrow> hlinks \<Rightarrow> ptr list list \<Rightarrow> bool" where
  "moving h0 b n D h cs \<longleftrightarrow> placed h n cs \<and> headed h b cs \<and> set (concat cs) = D
     \<and> (\<forall>q. q \<notin> D \<longrightarrow> hl_nodes h q = hl_nodes h0 q) \<and> (\<forall>q. hash_of h q = hash_of h0 q)
     \<and> (\<forall>q. q \<noteq> b \<longrightarrow> hl_arrays h q = hl_arrays h0 q)"

lemma relink_node_ok:
  assumes m: "moving h0 b n D h cs" and n: "pow2_size n" and p: "p \<notin> D" "hl_nodes h0 p = Some x"
  obtains h' cs' where "relink_node b n p h = Some (h', hn_next x)" "moving h0 b n (insert p D) h' cs'"
proof -
  let ?i = "hash_slot n (hn_hash x)"
  have i: "?i < n" by (rule hash_slot_less [OF n])
  have pl: "placed h n cs" and hd: "headed h b cs" and D: "set (concat cs) = D" using m by (simp_all add: moving_def)
  have len: "length cs = n" "distinct (concat cs)" using pl by (simp_all add: placed_def)
  have x: "hl_nodes h p = Some x" using m p by (simp add: moving_def)
  have out: "p \<notin> set (concat cs)" using D p(1) by simp
  obtain h1 h2 where h: "set_hnext p (hd_or (cs ! ?i) None) h = Some h1" "slot_set b ?i (Some p) h1 = Some h2"
    "placed h2 n (cs[?i := p # cs ! ?i])" "headed h2 b (cs[?i := p # cs ! ?i])"
    "hl_nodes h2 = (hl_nodes h)(p \<mapsto> x\<lparr>hn_next := hd_or (cs ! ?i) None\<rparr>)" "\<forall>q. q \<noteq> b \<longrightarrow> hl_arrays h2 q = hl_arrays h q"
    by (rule push_head_ok [OF pl hd out x refl i])
  have "relink_node b n p h = Some (h2, hn_next x)"
    using x h(1,2) slot_get_ok [OF hd, of ?i] i len(1) by (simp add: relink_node_def Let_def)
  moreover have "set (concat (cs[?i := p # cs ! ?i])) = insert p D"
  proof -
    have "cs ! ?i \<in> set cs" by (rule nth_mem) (simp add: i len(1))
    then have "set (cs ! ?i) \<subseteq> set (concat cs)" by auto
    then show ?thesis using set_concat_update [of ?i cs] i len D by auto
  qed
  then have "moving h0 b n (insert p D) h2 (cs[?i := p # cs ! ?i])"
    using m h(3-6) x p(2) by (auto simp: moving_def hash_of_def)
  ultimately show ?thesis using that by blast
qed

lemma relink_chain_ok:
  assumes n: "pow2_size n"
  shows "moving h0 b n D h cs \<Longrightarrow> hchain h0 ps \<Longrightarrow> distinct ps \<Longrightarrow> set ps \<inter> D = {} \<Longrightarrow>
    \<exists>h' cs'. node_loop (relink_node b n) (hd_or ps None) h = Some h' \<and> moving h0 b n (D \<union> set ps) h' cs'"
proof (induction ps arbitrary: D h cs)
  case Nil
  then show ?case by (auto simp: node_loop.simps)
next
  case (Cons p ps)
  obtain x where x: "hl_nodes h0 p = Some x" "hn_next x = hd_or ps None"
    using Cons.prems(2) by (auto simp: hnext_def bind_eq_Some_conv)
  have "p \<notin> D" using Cons.prems(4) by simp
  from relink_node_ok [OF Cons.prems(1) n this x(1)] obtain h1 cs1 where
    r: "relink_node b n p h = Some (h1, hd_or ps None)" "moving h0 b n (insert p D) h1 cs1" unfolding x(2) by blast
  have "hchain h0 ps" "distinct ps" "set ps \<inter> insert p D = {}" using Cons.prems by auto
  from Cons.IH [OF r(2) this] r(1) show ?case by (subst node_loop.simps) simp
qed

lemma rehash_links_ok:
  assumes n: "pow2_size n" and pl: "placed h (hm_bucket_count m) bs"
    and hd: "\<And>b0. hm_buckets m = Some b0 \<Longrightarrow> headed h b0 bs \<and> b0 \<noteq> b" and nb: "hm_bucket_count m = 0 \<or> hm_buckets m \<noteq> None"
    and h0: "h0 = h\<lparr>hl_arrays := (hl_arrays h)(b \<mapsto> replicate n None)\<rparr>"
  shows "\<exists>h' cs. for_loop [0..<hm_bucket_count m] (\<lambda>i h. do { p \<leftarrow> bucket_get h m i; node_loop (relink_node b n) p h }) h0 = Some h'
    \<and> moving h b n (set (concat bs)) h' cs"
proof -
  let ?n = "hm_bucket_count m"
  have len: "length bs = ?n" and d: "distinct (concat bs)" using pl by (simp_all add: placed_def)
  define Q where "Q i h' \<longleftrightarrow> (\<exists>cs. moving h b n (set (concat (take i bs))) h' cs)" for i h'
  have "\<exists>h'. for_loop [0..<?n] (\<lambda>i h. do { p \<leftarrow> bucket_get h m i; node_loop (relink_node b n) p h }) h0 = Some h' \<and> Q ?n h'"
  proof (rule for_loop_inv)
    have "map (\<lambda>c. hd_or c None) (replicate n []) = replicate n None" by simp
    then show "Q 0 h0"
      unfolding Q_def h0 by (intro exI [of _ "replicate n []"]) (auto simp: moving_def placed_def headed_def hash_of_def)
  next
    fix i h' assume i: "i < ?n" and q: "Q i h'"
    then obtain cs where m: "moving h b n (set (concat (take i bs))) h' cs" by (auto simp: Q_def)
    obtain b0 where b0: "hm_buckets m = Some b0" using nb i by (cases "hm_buckets m") auto
    then have "hl_arrays h' b0 = hl_arrays h b0" using hd [OF b0] m by (simp add: moving_def)
    then have g: "bucket_get h' m i = Some (hd_or (bs ! i) None)"
      using slot_get_ok [of h' b0 bs i] hd [OF b0] i len by (simp add: bucket_get_def b0 headed_def)
    have t: "take (Suc i) bs = take i bs @ [bs ! i]" using i len by (simp add: take_Suc_conv_app_nth)
    have "distinct (concat (take (Suc i) bs))" using d concat_append [of "take (Suc i) bs" "drop (Suc i) bs"] by simp
    then have "set (bs ! i) \<inter> set (concat (take i bs)) = {}" "distinct (bs ! i)" unfolding t by auto
    moreover have "hchain h (bs ! i)" using pl i len by (auto simp: placed_def)
    ultimately obtain h2 cs2 where r: "node_loop (relink_node b n) (hd_or (bs ! i) None) h' = Some h2"
      "moving h b n (set (concat (take i bs)) \<union> set (bs ! i)) h2 cs2" using relink_chain_ok [OF n m] by blast
    have "set (concat (take i bs)) \<union> set (bs ! i) = set (concat (take (Suc i) bs))" unfolding t by simp
    then have "Q (Suc i) h2" using r(2) unfolding Q_def by metis
    then show "\<exists>s'. (do { p \<leftarrow> bucket_get h' m i; node_loop (relink_node b n) p h' }) = Some s' \<and> Q (Suc i) s'"
      using g r(1) by simp
  qed
  then show ?thesis unfolding Q_def using len by simp
qed

end
