(* ===== verification/Tda_HMap_Laws.thy ===== *)
theory Tda_HMap_Laws
  imports Tda_HMap_Chains Tda_List_Laws
begin

text \<open>
  What the operations of \<open>Tda_HMap\<close> do to the map from keys to values. \<open>hm_rep\<close> says that a map
  struct, the links and the blocks make up a hash map with the chains \<open>bs\<close>; \<open>hm_map\<close> is the
  function it stands for, from every key, equal keys being those the map's equality takes as
  equal. The hasher must agree with that equality (\<open>agree\<close>), as the header asks.
\<close>

section \<open>Representation\<close>

definition agree :: "hasher \<Rightarrow> (byte list \<Rightarrow> byte list \<Rightarrow> bool) \<Rightarrow> bool" where
  "agree hash eq \<longleftrightarrow> equivp eq \<and> (\<forall>a b. eq a b \<longrightarrow> hash a = hash b)"

definition entry_size :: "'s hmap \<Rightarrow> nat" where
  "entry_size m = 16 + hm_val_offset m + hm_val_size m"

definition hm_key :: "'s world \<Rightarrow> 's hmap \<Rightarrow> ptr \<Rightarrow> byte list" where
  "hm_key w m p = slice 16 (hm_key_size m) (the (heap w p))"

definition hm_val :: "'s world \<Rightarrow> 's hmap \<Rightarrow> ptr \<Rightarrow> byte list" where
  "hm_val w m p = slice (16 + hm_val_offset m) (hm_val_size m) (the (heap w p))"

definition hm_map :: "'s world \<Rightarrow> 's hmap \<Rightarrow> ptr list \<Rightarrow> byte list \<Rightarrow> byte list option" where
  "hm_map w m ps k = map_option (hm_val w m) (List.find (\<lambda>p. hm_eq m (hm_key w m p) k) ps)"

definition hm_shape :: "'s hmap \<Rightarrow> bool" where
  "hm_shape m \<longleftrightarrow> 0 < hm_key_size m \<and> hm_key_size m \<le> hm_val_offset m \<and> entry_size m \<le> SIZE_MAX
     \<and> (if hm_val_size m = 0 then Some (hm_key_size m) else tda_align_up (hm_key_size m) 16) = Some (hm_val_offset m)
     \<and> (hm_bucket_count m = 0 \<or> pow2_size (hm_bucket_count m) \<and> hm_bucket_count m * 8 \<le> SIZE_MAX)
     \<and> (hm_bucket_count m = 0 \<longleftrightarrow> hm_buckets m = None) \<and> agree (hm_hasher m) (hm_eq m)"

text \<open>The nodes \<open>D\<close> hold whole entries under the hashes of their keys, no two keys equal.\<close>

definition entries_ok :: "(ptr \<Rightarrow> bool) \<Rightarrow> 's world \<Rightarrow> hlinks \<Rightarrow> 's hmap \<Rightarrow> ptr set \<Rightarrow> bool" where
  "entries_ok owned w h m D \<longleftrightarrow>
     (\<forall>p \<in> D. owned p \<and> block_at w p (entry_size m) \<and> hash_of h p = hm_hasher m (hm_key w m p))
     \<and> (\<forall>p \<in> D. \<forall>q \<in> D. hm_eq m (hm_key w m p) (hm_key w m q) \<longrightarrow> p = q)"

definition hm_rep :: "(ptr \<Rightarrow> bool) \<Rightarrow> 's world \<Rightarrow> hlinks \<Rightarrow> 's hmap \<Rightarrow> ptr list list \<Rightarrow> bool" where
  "hm_rep owned w h m bs \<longleftrightarrow> hm_shape m \<and> placed h (hm_bucket_count m) bs \<and> hm_len m = length (concat bs)
     \<and> entries_ok owned w h m (set (concat bs))
     \<and> (\<forall>b. hm_buckets m = Some b \<longrightarrow> headed h b bs \<and> owned b \<and> block_at w b (hm_bucket_count m * 8)
         \<and> b \<notin> set (concat bs) \<and> b \<noteq> hm_self m)
     \<and> owned (hm_self m) \<and> block_at w (hm_self m) sizeof_tda_HMap \<and> hm_self m \<notin> set (concat bs)"

definition hm_blocks :: "'s hmap \<Rightarrow> ptr list list \<Rightarrow> ptr set" where
  "hm_blocks m bs = insert (hm_self m) (set (concat bs) \<union> set_option (hm_buckets m))"

text \<open>What only the bucket array and the count of entries change does not matter to an entry.\<close>

lemma entry_frame [simp]:
  "hm_key w (m\<lparr>hm_len := n\<rparr>) = hm_key w m" "hm_key w (m\<lparr>hm_buckets := b, hm_bucket_count := c\<rparr>) = hm_key w m"
  "hm_val w (m\<lparr>hm_len := n\<rparr>) = hm_val w m" "hm_val w (m\<lparr>hm_buckets := b, hm_bucket_count := c\<rparr>) = hm_val w m"
  "entry_size (m\<lparr>hm_len := n\<rparr>) = entry_size m" "entry_size (m\<lparr>hm_buckets := b, hm_bucket_count := c\<rparr>) = entry_size m"
  by (simp_all add: fun_eq_iff hm_key_def hm_val_def entry_size_def)

lemma map_frame [simp]:
  "hm_map w (m\<lparr>hm_len := n\<rparr>) = hm_map w m" "hm_map w (m\<lparr>hm_buckets := b, hm_bucket_count := c\<rparr>) = hm_map w m"
  "entries_ok owned w h (m\<lparr>hm_len := n\<rparr>) = entries_ok owned w h m"
  "entries_ok owned w h (m\<lparr>hm_buckets := b, hm_bucket_count := c\<rparr>) = entries_ok owned w h m"
  by (simp_all add: fun_eq_iff hm_map_def entries_ok_def)

lemma agree_eq: "agree hash eq \<Longrightarrow> eq a b \<Longrightarrow> hash a = hash b"
  and agree_sym: "agree hash eq \<Longrightarrow> eq a b \<longleftrightarrow> eq b a"
  and agree_trans: "agree hash eq \<Longrightarrow> eq a b \<Longrightarrow> eq b c \<Longrightarrow> eq a c"
  and agree_refl: "agree hash eq \<Longrightarrow> eq a a"
  unfolding agree_def by (blast dest: equivp_symp equivp_transp equivp_reflp)+

lemma hm_rep_assert: "hm_rep owned w h m bs \<Longrightarrow> ASSERT_HMAP m = Some ()"
  using pow2_size_facts [of "hm_bucket_count m"]
  by (auto simp: hm_rep_def hm_shape_def ASSERT_HMAP_def placed_def c_simps)

lemma hm_rep_live:
  assumes r: "hm_rep owned w h m bs" and q: "q \<in> hm_blocks m bs"
  shows "\<exists>bs. heap w q = Some bs"
proof (cases "q \<in> set (concat bs)")
  case True
  then have "block_at w q (entry_size m)" using r unfolding hm_rep_def entries_ok_def by blast
  then show ?thesis by (auto simp: block_at_def)
next
  case False
  then have "q = hm_self m \<or> hm_buckets m = Some q" using q by (auto simp: hm_blocks_def)
  then show ?thesis using r by (auto simp: hm_rep_def block_at_def)
qed

lemma entry_cong: "heap w' p = heap w p \<Longrightarrow> hm_key w' m p = hm_key w m p \<and> hm_val w' m p = hm_val w m p"
  by (simp add: hm_key_def hm_val_def)

lemma hm_map_cong:
  "(\<And>p. p \<in> set ps \<Longrightarrow> hm_key w' m p = hm_key w m p) \<Longrightarrow> (\<And>p. p \<in> set ps \<Longrightarrow> hm_val w' m p = hm_val w m p) \<Longrightarrow>
    hm_map w' m ps = hm_map w m ps"
  by (induction ps) (simp_all add: hm_map_def fun_eq_iff)

lemma entries_ok_cong:
  "(\<And>q. q \<in> D \<Longrightarrow> heap w' q = heap w q \<and> hash_of h' q = hash_of h q) \<Longrightarrow> entries_ok owned w' h' m D = entries_ok owned w h m D"
  using entry_cong [of w' _ w m] by (simp add: entries_ok_def block_at_def)

lemma entries_ok_subset: "entries_ok owned w h m D \<Longrightarrow> E \<subseteq> D \<Longrightarrow> entries_ok owned w h m E"
  unfolding entries_ok_def by blast

lemma hm_rep_stable:
  assumes r: "hm_rep owned w h m bs" and q: "\<And>q. q \<in> hm_blocks m bs \<Longrightarrow> heap w' q = heap w q"
    and n: "\<And>q. q \<in> hm_blocks m bs \<Longrightarrow> hl_nodes h' q = hl_nodes h q \<and> hl_arrays h' q = hl_arrays h q"
  shows "hm_rep owned w' h' m bs" and "hm_map w' m (concat bs) = hm_map w m (concat bs)"
proof -
  have c: "heap w' p = heap w p" "hl_nodes h' p = hl_nodes h p" if "p \<in> set (concat bs)" for p
    using q [of p] n [of p] that by (simp_all add: hm_blocks_def)
  have "placed h' (hm_bucket_count m) bs = placed h (hm_bucket_count m) bs" using c(2) by (rule placed_cong)
  moreover have "entries_ok owned w' h' m (set (concat bs)) = entries_ok owned w h m (set (concat bs))"
    by (rule entries_ok_cong) (use c in \<open>simp add: hash_of_def\<close>)
  ultimately show "hm_rep owned w' h' m bs"
    using r q n by (simp add: hm_rep_def hm_blocks_def headed_def block_at_def)
  have "hm_key w' m p = hm_key w m p" "hm_val w' m p = hm_val w m p" if "p \<in> set (concat bs)" for p
    using entry_cong [OF c(1) [OF that]] by simp_all
  then show "hm_map w' m (concat bs) = hm_map w m (concat bs)" by (rule hm_map_cong)
qed

section \<open>Lookup\<close>

lemma find_entry:
  assumes e: "entries_ok owned w h m (set ps)" and a: "agree (hm_hasher m) (hm_eq m)"
    and p: "p \<in> set ps" "hm_eq m (hm_key w m p) k"
  shows "List.find (\<lambda>p. hm_eq m (hm_key w m p) k) ps = Some p"
proof -
  obtain q where q: "List.find (\<lambda>p. hm_eq m (hm_key w m p) k) ps = Some q"
    using p by (cases "List.find (\<lambda>p. hm_eq m (hm_key w m p) k) ps") (auto simp: find_None_iff)
  then have "q \<in> set ps" "hm_eq m (hm_key w m q) k" by (auto simp: find_Some_iff)
  then have "hm_eq m (hm_key w m p) (hm_key w m q)" using p(2) agree_sym [OF a] agree_trans [OF a] by blast
  then show ?thesis using e p(1) q \<open>q \<in> set ps\<close> by (auto simp: entries_ok_def)
qed

lemma find_entry_none: "(\<forall>p \<in> set ps. \<not> hm_eq m (hm_key w m p) k) \<Longrightarrow> List.find (\<lambda>p. hm_eq m (hm_key w m p) k) ps = None"
  by (auto simp: find_None_iff)

lemma hm_map_at:
  assumes "entries_ok owned w h m (set ps)" "agree (hm_hasher m) (hm_eq m)" "p \<in> set ps" "hm_eq m (hm_key w m p) k"
  shows "hm_map w m ps k = Some (hm_val w m p)"
  by (simp add: hm_map_def find_entry [OF assms])

lemma hm_map_none: "(\<forall>p \<in> set ps. \<not> hm_eq m (hm_key w m p) k) \<Longrightarrow> hm_map w m ps k = None"
  by (simp add: hm_map_def find_entry_none)

lemma hm_map_none_iff: "hm_map w m ps k = None \<longleftrightarrow> (\<forall>p \<in> set ps. \<not> hm_eq m (hm_key w m p) k)"
  by (auto simp: hm_map_def find_None_iff)

text \<open>The order of the nodes does not matter to the map.\<close>

lemma hm_map_set:
  assumes e: "entries_ok owned w h m (set ps)" and a: "agree (hm_hasher m) (hm_eq m)" and s: "set qs = set ps"
  shows "hm_map w m qs = hm_map w m ps"
proof
  fix k
  show "hm_map w m qs k = hm_map w m ps k"
  proof (cases "\<exists>p \<in> set ps. hm_eq m (hm_key w m p) k")
    case True
    then show ?thesis using hm_map_at [OF e a] hm_map_at [OF e [folded s] a] s by metis
  next
    case False
    then show ?thesis using s by (simp add: hm_map_none)
  qed
qed

lemma entry_block:
  assumes "entries_ok owned w h m D" "p \<in> D"
  obtains bs where "heap w p = Some bs" "length bs = entry_size m" "owned p" "hash_of h p = hm_hasher m (hm_key w m p)"
  using assms that by (auto simp: entries_ok_def block_at_def)

lemma hm_node_val_ok: "hm_shape m \<Longrightarrow> hm_node_val m p = Some (p, 16 + hm_val_offset m)"
  by (simp add: hm_node_val_def tda_byte_offset_def hm_shape_def entry_size_def sizeof_tda_HMapNode_def size_mul_exact c_simps)

lemma entry_bytes:
  assumes s: "hm_shape m" and e: "entries_ok owned w h m D" "p \<in> D"
  shows "key_bytes w m p = Some (hm_key w m p)" and "val_bytes w m p = Some (hm_val w m p)"
    and "length (hm_key w m p) = hm_key_size m" and "length (hm_val w m p) = hm_val_size m"
proof -
  obtain bs where b: "heap w p = Some bs" "length bs = 16 + hm_val_offset m + hm_val_size m"
    using entry_block [OF e] by (auto simp: entry_size_def)
  have k: "hm_key_size m \<le> hm_val_offset m" using s by (simp add: hm_shape_def)
  show "key_bytes w m p = Some (hm_key w m p)" "val_bytes w m p = Some (hm_val w m p)"
    "length (hm_key w m p) = hm_key_size m" "length (hm_val w m p) = hm_val_size m"
    using b k hm_node_val_ok [OF s, of p]
    by (simp_all add: key_bytes_def val_bytes_def hm_node_key_def hm_key_def hm_val_def sizeof_tda_HMapNode_def mem_read_ok length_slice)
qed

lemma node_matches_ok:
  assumes s: "hm_shape m" and e: "entries_ok owned w h m D" "p \<in> D" and n: "hl_nodes h p \<noteq> None"
  shows "node_matches w h m k (hm_hasher m k) p = Some (hm_eq m (hm_key w m p) k)"
proof -
  have a: "agree (hm_hasher m) (hm_eq m)" using s by (simp add: hm_shape_def)
  obtain x where x: "hl_nodes h p = Some x" using n by auto
  have "hash_of h p = hm_hasher m (hm_key w m p)" using e by (simp add: entries_ok_def)
  then have "hn_hash x = hm_hasher m (hm_key w m p)" using x by (simp add: hash_of_def)
  then show ?thesis using entry_bytes(1) [OF s e] agree_eq [OF a] x by (auto simp: node_matches_def)
qed

lemma bucket_get_ok:
  assumes "hm_rep owned w h m bs" "i < hm_bucket_count m"
  shows "bucket_get h m i = Some (hd_or (bs ! i) None)"
proof -
  obtain b where "hm_buckets m = Some b" "headed h b bs" "length bs = hm_bucket_count m"
    using assms by (auto simp: hm_rep_def hm_shape_def placed_def)
  then show ?thesis using slot_get_ok [of h b bs i] assms(2) by (simp add: bucket_get_def)
qed

text \<open>The chain a key would be in: all that a lookup sees.\<close>

definition key_slot :: "'s hmap \<Rightarrow> byte list \<Rightarrow> nat" where
  "key_slot m k = hash_slot (hm_bucket_count m) (hm_hasher m k)"

lemma key_slot_ok:
  assumes r: "hm_rep owned w h m bs" and n: "hm_bucket_count m \<noteq> 0"
  shows "key_slot m k < hm_bucket_count m" and "bucket_of m (hm_hasher m k) = Some (key_slot m k)"
    and "bucket_get h m (key_slot m k) = Some (hd_or (bs ! key_slot m k) None)" and "hchain h (bs ! key_slot m k)"
    and "set (bs ! key_slot m k) \<subseteq> set (concat bs)"
    and "\<And>p. p \<in> set (concat bs) \<Longrightarrow> hm_eq m (hm_key w m p) k \<Longrightarrow> p \<in> set (bs ! key_slot m k)"
proof -
  show i: "key_slot m k < hm_bucket_count m"
    unfolding key_slot_def by (rule hash_slot_less) (use r n in \<open>simp add: hm_rep_def hm_shape_def\<close>)
  then show "bucket_of m (hm_hasher m k) = Some (key_slot m k)" by (simp add: bucket_of_def key_slot_def)
  show "bucket_get h m (key_slot m k) = Some (hd_or (bs ! key_slot m k) None)" by (rule bucket_get_ok [OF r i])
  have pl: "placed h (hm_bucket_count m) bs" using r by (simp add: hm_rep_def)
  then have "bs ! key_slot m k \<in> set bs" using i by (intro nth_mem) (simp add: placed_def)
  then show "hchain h (bs ! key_slot m k)" "set (bs ! key_slot m k) \<subseteq> set (concat bs)" using pl by (auto simp: placed_def)
  fix p assume p: "p \<in> set (concat bs)" "hm_eq m (hm_key w m p) k"
  then have "hash_of h p = hm_hasher m k"
    using r agree_eq [of "hm_hasher m" "hm_eq m"] by (auto simp: hm_rep_def entries_ok_def hm_shape_def)
  then show "p \<in> set (bs ! key_slot m k)" using placed_slot [OF pl p(1)] by (simp add: key_slot_def)
qed

lemma matches_in_chain:
  assumes r: "hm_rep owned w h m bs" and n: "hm_bucket_count m \<noteq> 0" and p: "p \<in> set (bs ! key_slot m k)"
  shows "node_matches w h m k (hm_hasher m k) p = Some (hm_eq m (hm_key w m p) k)"
proof (rule node_matches_ok)
  show "hm_shape m" "entries_ok owned w h m (set (concat bs))" using r by (simp_all add: hm_rep_def)
  show "p \<in> set (concat bs)" using key_slot_ok(5) [OF r n] p by blast
  show "hl_nodes h p \<noteq> None" using hchain_node [OF key_slot_ok(4) [OF r n] p] by simp
qed

lemma find_node_ok:
  assumes r: "hm_rep owned w h m bs"
  shows "hm_find_node w h m k (hm_hasher m k) = Some (List.find (\<lambda>p. hm_eq m (hm_key w m p) k) (concat bs))"
proof (cases "hm_bucket_count m = 0")
  case True
  then have "bs = []" using r by (simp add: hm_rep_def placed_def)
  then show ?thesis using True by (simp add: hm_find_node_def)
next
  case False
  note K = key_slot_ok [OF r False]
  let ?c = "bs ! key_slot m k" and ?P = "\<lambda>p. hm_eq m (hm_key w m p) k"
  have e: "entries_ok owned w h m (set (concat bs))" and a: "agree (hm_hasher m) (hm_eq m)" using r by (simp_all add: hm_rep_def hm_shape_def)
  have "node_seek (node_matches w h m k (hm_hasher m k)) (hnext h) (hd_or ?c None) = Some (List.find ?P ?c)"
    by (rule node_seek_ok [OF K(4)]) (rule matches_in_chain [OF r False])
  moreover have "List.find ?P ?c = List.find ?P (concat bs)"
  proof (cases "\<exists>p \<in> set (concat bs). ?P p")
    case True
    then obtain p where p: "p \<in> set (concat bs)" "?P p" by blast
    then show ?thesis
      using find_entry [OF e a p] find_entry [OF entries_ok_subset [OF e K(5)] a K(6) [OF p] p(2)] by simp
  next
    case False
    then show ?thesis using K(5) find_entry_none [of "concat bs"] find_entry_none [of ?c] by (metis subsetD)
  qed
  ultimately show ?thesis using False K(2,3) by (simp add: hm_find_node_def)
qed

lemma hm_find_cases:
  assumes r: "hm_rep owned w h m bs"
  obtains (none) "hm_find_node w h m k (hm_hasher m k) = Some None" "hm_map w m (concat bs) k = None"
  | (some) p where "hm_find_node w h m k (hm_hasher m k) = Some (Some p)" "p \<in> set (concat bs)" "hm_eq m (hm_key w m p) k"
      "hm_map w m (concat bs) k = Some (hm_val w m p)"
proof (cases "List.find (\<lambda>p. hm_eq m (hm_key w m p) k) (concat bs)")
  case None
  then show ?thesis using none find_node_ok [OF r, of k] by (simp add: hm_map_def)
next
  case (Some p)
  then have "p \<in> set (concat bs)" "hm_eq m (hm_key w m p) k" by (metis find_Some_iff nth_mem)+
  then show ?thesis using Some some find_node_ok [OF r, of k] by (simp add: hm_map_def)
qed

lemma hmap_lookup_ok:
  assumes r: "hm_rep owned w h m bs"
  shows "tda_hmap_contains w h m k = Some (hm_map w m (concat bs) k \<noteq> None)"
    and "\<exists>r. tda_hmap_get w h m k = Some r \<and> (case r of None \<Rightarrow> hm_map w m (concat bs) k = None
      | Some (p, off) \<Rightarrow> hm_map w m (concat bs) k \<noteq> None \<and> mem_read w p off (hm_val_size m) = hm_map w m (concat bs) k)"
proof -
  note A = hm_rep_assert [OF r] and F = find_node_ok [OF r, of k]
  have s: "hm_shape m" and e: "entries_ok owned w h m (set (concat bs))" using r by (simp_all add: hm_rep_def)
  show "tda_hmap_contains w h m k = Some (hm_map w m (concat bs) k \<noteq> None)"
    using A F by (simp add: tda_hmap_contains_def hm_map_def)
  show "\<exists>r. tda_hmap_get w h m k = Some r \<and> (case r of None \<Rightarrow> hm_map w m (concat bs) k = None
      | Some (p, off) \<Rightarrow> hm_map w m (concat bs) k \<noteq> None \<and> mem_read w p off (hm_val_size m) = hm_map w m (concat bs) k)"
  proof (cases "List.find (\<lambda>p. hm_eq m (hm_key w m p) k) (concat bs)")
    case None
    then show ?thesis using A F by (simp add: tda_hmap_get_def hm_map_def)
  next
    case (Some p)
    then have "p \<in> set (concat bs)" by (metis find_Some_iff nth_mem)
    from entry_bytes(2) [OF s e this] have "mem_read w p (16 + hm_val_offset m) (hm_val_size m) = Some (hm_val w m p)"
      by (simp add: val_bytes_def hm_node_val_ok [OF s])
    then show ?thesis using A F Some hm_node_val_ok [OF s, of p] by (simp add: tda_hmap_get_def hm_map_def)
  qed
qed

end
