(* ===== verification/Tda_HMap_Ops.thy ===== *)
theory Tda_HMap_Ops
  imports Tda_HMap_Laws
begin

text \<open>
  What the operations of \<open>src/ds/hmap.c\<close> that change a map do to it, over any allocator of nodes:
  \<open>hm_did\<close> says that a call has left a well-formed map behind, of the same kind and at the same
  place, which stands for the function given, and has touched nothing but the map's own blocks.
\<close>

section \<open>What a call leaves behind\<close>

definition hlinks_at :: "hlinks \<Rightarrow> ptr \<Rightarrow> tda_HMapNode option \<times> ptr option list option" where
  "hlinks_at h q = (hl_nodes h q, hl_arrays h q)"

abbreviation hm_frame :: "'s world \<Rightarrow> hlinks \<Rightarrow> ptr set \<Rightarrow> 's world \<Rightarrow> hlinks \<Rightarrow> ptr set \<Rightarrow> bool" where
  "hm_frame w h B w' h' B' \<equiv> node_frame w (hlinks_at h) B w' (hlinks_at h') B'"

definition hm_same :: "'s hmap \<Rightarrow> 's hmap \<Rightarrow> bool" where
  "hm_same m' m \<longleftrightarrow> hm_self m' = hm_self m \<and> hm_key_size m' = hm_key_size m \<and> hm_val_size m' = hm_val_size m
     \<and> hm_val_offset m' = hm_val_offset m \<and> hm_hasher m' = hm_hasher m \<and> hm_eq m' = hm_eq m \<and> hm_al m' = hm_al m"

definition hm_did ::
  "(ptr \<Rightarrow> bool) \<Rightarrow> 's world \<Rightarrow> hlinks \<Rightarrow> 's hmap \<Rightarrow> ptr list list \<Rightarrow>
    's world \<Rightarrow> hlinks \<Rightarrow> 's hmap \<Rightarrow> ptr list list \<Rightarrow> (byte list \<Rightarrow> byte list option) \<Rightarrow> bool" where
  "hm_did owned w h m bs w' h' m' bs' f \<longleftrightarrow> hm_rep owned w' h' m' bs' \<and> hm_same m' m
     \<and> hm_frame w h (hm_blocks m bs) w' h' (hm_blocks m' bs') \<and> hm_map w' m' (concat bs') = f"

lemma hm_same_refl: "hm_same m m"
  and hm_same_trans: "hm_same m2 m1 \<Longrightarrow> hm_same m1 m \<Longrightarrow> hm_same m2 m"
  by (simp_all add: hm_same_def)

lemma hm_same_entry:
  assumes "hm_same m' m"
  shows "hm_key w m' = hm_key w m" "hm_val w m' = hm_val w m" "entry_size m' = entry_size m" "hm_map w m' = hm_map w m"
    "entries_ok owned w h m' = entries_ok owned w h m"
proof -
  have k: "hm_key w m' = hm_key w m" and v: "hm_val w m' = hm_val w m" and n: "entry_size m' = entry_size m"
    using assms by (simp_all add: fun_eq_iff hm_same_def hm_key_def hm_val_def entry_size_def)
  have e: "hm_eq m' = hm_eq m" "hm_hasher m' = hm_hasher m" using assms by (simp_all add: hm_same_def)
  show "hm_map w m' = hm_map w m" "entries_ok owned w h m' = entries_ok owned w h m"
    by (intro ext; simp add: hm_map_def entries_ok_def k v n e)+
qed (use assms in \<open>simp_all add: fun_eq_iff hm_same_def hm_key_def hm_val_def entry_size_def\<close>)

lemma hm_map_keep: "(\<And>p. p \<in> set ps \<Longrightarrow> heap w' p = heap w p) \<Longrightarrow> hm_map w' m ps = hm_map w m ps"
  by (rule hm_map_cong) (simp_all add: hm_key_def hm_val_def)

lemma hm_did_refl: "hm_rep owned w h m bs \<Longrightarrow> heap w' = heap w \<Longrightarrow> hm_did owned w h m bs w' h m bs (hm_map w m (concat bs))"
  unfolding hm_did_def by (intro conjI hm_rep_stable(1) [of owned w h m bs w' h] hm_same_refl node_frame_refl hm_map_keep) simp_all

lemma hm_did_trans:
  assumes "hm_did owned w h m bs w1 h1 m1 bs1 f" "hm_did owned w1 h1 m1 bs1 w2 h2 m2 bs2 g"
  shows "hm_did owned w h m bs w2 h2 m2 bs2 g"
  using assms hm_same_trans node_frame_trans unfolding hm_did_def by blast

section \<open>One entry more, less, or with another value\<close>

lemma slice_blit_before: "i + n \<le> j \<Longrightarrow> j \<le> length xs \<Longrightarrow> slice i n (blit j ys xs) = slice i n xs"
  by (simp add: slice_def blit_def drop_take)

lemma slice_blit_after: "j + length ys \<le> i \<Longrightarrow> j \<le> length xs \<Longrightarrow> slice i n (blit j ys xs) = slice i n xs"
  by (simp add: slice_def blit_def)

lemma entries_ok_insert:
  assumes "entries_ok owned w h m D" "agree (hm_hasher m) (hm_eq m)"
    "owned p" "block_at w p (entry_size m)" "hash_of h p = hm_hasher m (hm_key w m p)"
    "\<And>q. q \<in> D \<Longrightarrow> \<not> hm_eq m (hm_key w m q) (hm_key w m p)"
  shows "entries_ok owned w h m (insert p D)"
  using assms agree_sym [OF assms(2)] unfolding entries_ok_def by (metis insert_iff)

lemma hm_map_insert:
  assumes e: "entries_ok owned w h m (insert p (set ps))" and a: "agree (hm_hasher m) (hm_eq m)" and s: "set qs = insert p (set ps)"
  shows "hm_map w m qs = (\<lambda>k. if hm_eq m (hm_key w m p) k then Some (hm_val w m p) else hm_map w m ps k)"
proof -
  have "hm_map w m qs = hm_map w m (p # ps)" by (rule hm_map_set [OF _ a]) (use e s in simp_all)
  then show ?thesis by (simp add: hm_map_def fun_eq_iff)
qed

lemma hm_map_remove:
  assumes e: "entries_ok owned w h m (set ps)" and a: "agree (hm_hasher m) (hm_eq m)" and p: "p \<in> set ps" and s: "set qs = set ps - {p}"
  shows "hm_map w m qs = (\<lambda>k. if hm_eq m (hm_key w m p) k then None else hm_map w m ps k)"
proof -
  have "set ps = insert p (set qs)" using p s by auto
  from hm_map_insert [OF e [unfolded this] a this]
  have i: "hm_map w m ps = (\<lambda>k. if hm_eq m (hm_key w m p) k then Some (hm_val w m p) else hm_map w m qs k)" .
  have "hm_map w m qs k = None" if "hm_eq m (hm_key w m p) k" for k
  proof (rule hm_map_none, intro ballI notI)
    fix q assume q: "q \<in> set qs" "hm_eq m (hm_key w m q) k"
    then have "hm_eq m (hm_key w m p) (hm_key w m q)" using that agree_sym [OF a] agree_trans [OF a] by blast
    then show False using e p q(1) s by (auto simp: entries_ok_def)
  qed
  then show ?thesis unfolding i by (simp add: fun_eq_iff)
qed

lemma hm_map_change:
  assumes e: "entries_ok owned w h m (set ps)" and a: "agree (hm_hasher m) (hm_eq m)" and p: "p \<in> set ps"
    and k: "\<And>q. q \<in> set ps \<Longrightarrow> hm_key w' m q = hm_key w m q" and v: "\<And>q. q \<in> set ps \<Longrightarrow> q \<noteq> p \<Longrightarrow> hm_val w' m q = hm_val w m q"
    and e': "entries_ok owned w' h' m (set ps)"
  shows "hm_map w' m ps = (\<lambda>k. if hm_eq m (hm_key w m p) k then Some (hm_val w' m p) else hm_map w m ps k)"
proof
  fix x
  show "hm_map w' m ps x = (if hm_eq m (hm_key w m p) x then Some (hm_val w' m p) else hm_map w m ps x)"
  proof (cases "\<exists>q \<in> set ps. hm_eq m (hm_key w m q) x")
    case True
    then obtain q where q: "q \<in> set ps" "hm_eq m (hm_key w m q) x" by blast
    have "hm_map w' m ps x = Some (hm_val w' m q)" "hm_map w m ps x = Some (hm_val w m q)"
      using hm_map_at [OF e' a q(1)] hm_map_at [OF e a q] k [OF q(1)] q(2) by simp_all
    moreover have "hm_eq m (hm_key w m p) x \<longleftrightarrow> p = q"
    proof
      assume "hm_eq m (hm_key w m p) x"
      then have "hm_eq m (hm_key w m p) (hm_key w m q)" using q(2) agree_sym [OF a] agree_trans [OF a] by blast
      then show "p = q" using e p q(1) by (simp add: entries_ok_def)
    qed (use q(2) in simp)
    ultimately show ?thesis using v [OF q(1)] by auto
  next
    case False
    then show ?thesis using p k by (auto simp: hm_map_none)
  qed
qed

section \<open>The bucket array\<close>

lemma pow2_double: "pow2_size n \<Longrightarrow> n * 2 \<le> SIZE_MAX \<Longrightarrow> pow2_size (n * 2)"
proof -
  assume n: "pow2_size n" "n * 2 \<le> SIZE_MAX"
  then obtain k where k: "k < 64" "n = 2 ^ k" by (auto simp: pow2_size_def)
  have "k \<noteq> 63" using n(2) k(2) by (auto simp: SIZE_MAX_num)
  then have "Suc k < 64" "n * 2 = 2 ^ Suc k" using k by simp_all
  then show ?thesis unfolding pow2_size_def by blast
qed

lemma hm_buckets_bytes: "hm_shape m \<Longrightarrow> size_mul (hm_bucket_count m) sizeof_bucket = hm_bucket_count m * 8"
  by (auto simp: hm_shape_def sizeof_bucket_def size_mul_exact)

lemma forget_buckets_simps [simp]:
  "hl_nodes (forget_buckets r h) = hl_nodes h"
  "hl_arrays (forget_buckets r h) q = (if r = Some q then None else hl_arrays h q)"
  by (auto simp: forget_buckets_def split: option.splits)

context node_allocator
begin

lemma free_buckets:
  assumes w: "inv w" and s: "hm_shape m" and b: "\<And>b. hm_buckets m = Some b \<Longrightarrow> owned b \<and> block_at w b (hm_bucket_count m * 8)"
  obtains w' where "tda_dealloc al w (hm_buckets m) (size_mul (hm_bucket_count m) sizeof_bucket) = Some w'" "inv w'"
    "heap w' = (\<lambda>q. if q \<in> set_option (hm_buckets m) then None else heap w q)"
  unfolding hm_buckets_bytes [OF s] by (rule dealloc_opt [OF w b]) (use that in auto)

lemma rehash_spec:
  assumes w: "inv w" and r: "hm_rep owned w h m bs" "hm_al m = al" and n: "pow2_size n"
  shows "\<exists>st w' h' m' bs'. rehash n w h m = Some (st, w', h', m') \<and> inv w' \<and> hm_did owned w h m bs w' h' m' bs' (hm_map w m (concat bs))
    \<and> (if st = TDA_STATUS_OK then hm_bucket_count m' = n else heap w' = heap w \<and> h' = h \<and> m' = m)"
proof (rule calloc_cases [OF w, of n sizeof_bucket])
  fix w1 assume "tda_calloc al w n sizeof_bucket = Some (None, w1)" "inv w1" "heap w1 = heap w"
  then show ?thesis using hm_did_refl [OF r(1)] r(2) pow2_size_facts [OF n] by (auto simp: rehash_def c_simps)
next
  fix b w1
  assume a: "tda_calloc al w n sizeof_bucket = Some (Some b, w1)" "inv w1" "n * sizeof_bucket \<le> SIZE_MAX" "owned b" "heap w b = None"
    "heap w1 = (heap w)(b \<mapsto> replicate (n * sizeof_bucket) 0)"
  define D where "D = set (concat bs)"
  have R: "hm_shape m" "placed h (hm_bucket_count m) bs" "hm_len m = length (concat bs)" "entries_ok owned w h m D"
    "owned (hm_self m)" "block_at w (hm_self m) sizeof_tda_HMap" "hm_self m \<notin> D"
    and B: "\<And>b0. hm_buckets m = Some b0 \<Longrightarrow> headed h b0 bs \<and> owned b0 \<and> block_at w b0 (hm_bucket_count m * 8) \<and> b0 \<notin> D \<and> b0 \<noteq> hm_self m"
    using r(1) by (simp_all add: hm_rep_def D_def)
  have live: "b \<notin> hm_blocks m bs" using hm_rep_live [OF r(1), of b] a(5) by auto
  then have fresh: "b \<notin> D" "b \<noteq> hm_self m" "hm_buckets m \<noteq> Some b" by (auto simp: hm_blocks_def D_def)
  define h0 where "h0 = h\<lparr>hl_arrays := (hl_arrays h)(b \<mapsto> replicate n None)\<rparr>"
  have hd: "headed h b0 bs \<and> b0 \<noteq> b" if "hm_buckets m = Some b0" for b0 using B [OF that] fresh(3) that by auto
  have nb: "hm_bucket_count m = 0 \<or> hm_buckets m \<noteq> None" using R(1) by (auto simp: hm_shape_def)
  from rehash_links_ok [OF n R(2) hd nb h0_def] obtain h1 cs where
    l: "for_loop [0..<hm_bucket_count m] (\<lambda>i h. do { p \<leftarrow> bucket_get h m i; node_loop (relink_node b n) p h }) h0 = Some h1"
    and mv: "moving h b n D h1 cs" unfolding D_def by blast
  have o: "owned b0 \<and> block_at w1 b0 (hm_bucket_count m * 8)" if "hm_buckets m = Some b0" for b0
    using B [OF that] hd [OF that] a(6) by (simp add: block_at_def)
  from free_buckets [OF a(2) R(1) this] obtain w2 where
    w2: "tda_dealloc al w1 (hm_buckets m) (size_mul (hm_bucket_count m) sizeof_bucket) = Some w2" "inv w2"
      "heap w2 = (\<lambda>q. if q \<in> set_option (hm_buckets m) then None else heap w1 q)" by auto
  define h2 where "h2 = forget_buckets (hm_buckets m) h1"
  define m1 where "m1 = m\<lparr>hm_buckets := Some b, hm_bucket_count := n\<rparr>"
  have M: "placed h1 n cs" "headed h1 b cs" "set (concat cs) = D" "\<And>q. q \<notin> D \<Longrightarrow> hl_nodes h1 q = hl_nodes h q"
    "\<And>q. hash_of h1 q = hash_of h q" "\<And>q. q \<noteq> b \<Longrightarrow> hl_arrays h1 q = hl_arrays h q" using mv by (simp_all add: moving_def)
  have keep: "heap w2 q = heap w q" if "q \<in> D \<or> q = hm_self m" for q using that fresh B w2(3) a(6) by auto
  have at_b: "heap w2 b = Some (replicate (n * 8) 0)" using fresh(3) w2(3) a(6) by (simp add: sizeof_bucket_def)
  have "placed h2 n cs = placed h1 n cs" by (rule placed_cong) (simp add: h2_def)
  moreover have "headed h2 b cs" using M(2) fresh(3) by (simp add: headed_def h2_def)
  moreover have "hm_len m = length (concat cs)"
    using R(2,3) M(1,3) distinct_card [of "concat bs"] distinct_card [of "concat cs"] by (simp add: placed_def D_def)
  moreover have "entries_ok owned w2 h2 m D = entries_ok owned w h m D"
    by (rule entries_ok_cong) (use keep M(5) in \<open>simp add: h2_def hash_of_def\<close>)
  moreover have "hm_shape m1"
    using R(1) n a(3) pow2_size_facts [OF n] by (auto simp: m1_def hm_shape_def entry_size_def sizeof_bucket_def)
  ultimately have rep: "hm_rep owned w2 h2 m1 cs"
    using R M(1,3) a(4) at_b fresh keep by (simp add: hm_rep_def m1_def block_at_def)
  have bl: "hm_blocks m bs = insert (hm_self m) (D \<union> set_option (hm_buckets m))" "hm_blocks m1 cs = insert (hm_self m) (insert b D)"
    using M(3) by (auto simp: hm_blocks_def D_def m1_def)
  have "frame w (hm_blocks m bs) w2 (hm_blocks m1 cs)"
    unfolding frame_def bl using w2(3) a(5,6) fresh B by auto
  moreover have "hlinks_at h2 q = hlinks_at h q" if "heap w q \<noteq> None" "q \<notin> hm_blocks m bs" for q
  proof -
    have "q \<noteq> b" using that(1) a(5) by auto
    then show ?thesis using that(2) M(4,6) [of q] by (simp add: bl hlinks_at_def h2_def)
  qed
  moreover have "hm_map w2 m (concat cs) = hm_map w m (concat bs)"
  proof -
    have "hm_map w2 m (concat cs) = hm_map w m (concat cs)"
      by (rule hm_map_keep) (use keep M(3) in blast)
    moreover have "hm_map w m (concat cs) = hm_map w m (concat bs)"
      by (rule hm_map_set) (use R(1,4) M(3) in \<open>simp_all add: D_def hm_shape_def\<close>)
    ultimately show ?thesis by simp
  qed
  ultimately have "hm_did owned w h m bs w2 h2 m1 cs (hm_map w m (concat bs))"
    using rep by (simp add: hm_did_def node_frame_def hm_same_def m1_def)
  moreover have "rehash n w h m = Some (TDA_STATUS_OK, w2, h2, m1)"
    using pow2_size_facts [OF n] a(1) r(2) l w2(1) hm_rep_assert [OF rep]
    by (simp add: rehash_def h0_def h2_def m1_def c_simps)
  ultimately show ?thesis using w2(2) by (auto simp: m1_def)
qed


lemma hm_reserve_one_spec:
  assumes w: "inv w" and r: "hm_rep owned w h m bs" "hm_al m = al"
  shows "\<exists>st w' h' m' bs'. hm_reserve_one w h m = Some (st, w', h', m') \<and> inv w' \<and> hm_did owned w h m bs w' h' m' bs' (hm_map w m (concat bs))
    \<and> (st = TDA_STATUS_OK \<longrightarrow> 0 < hm_bucket_count m')"
proof -
  have base: "pow2_size HMAP_BUCKETS_BASE" unfolding pow2_size_def HMAP_BUCKETS_BASE_def by (rule exI [of _ 3]) simp
  have shape: "hm_shape m" using r(1) by (simp add: hm_rep_def)
  consider "hm_len m < hm_bucket_count m" | "\<not> hm_len m < hm_bucket_count m" "hm_bucket_count m = 0"
    | "\<not> hm_len m < hm_bucket_count m" "hm_bucket_count m \<noteq> 0" "hm_bucket_count m * 2 \<le> SIZE_MAX"
    | "\<not> hm_len m < hm_bucket_count m" "hm_bucket_count m \<noteq> 0" "\<not> hm_bucket_count m * 2 \<le> SIZE_MAX" by blast
  then show ?thesis
  proof cases
    case 1
    then show ?thesis using hm_did_refl [OF r(1) refl] w by (auto simp: hm_reserve_one_def)
  next
    case 2
    then show ?thesis using rehash_spec [OF w r base] by (fastforce simp: hm_reserve_one_def HMAP_BUCKETS_BASE_def split: if_splits)
  next
    case 3
    have "pow2_size (hm_bucket_count m * 2)" by (rule pow2_double) (use 3 shape in \<open>auto simp: hm_shape_def\<close>)
    from rehash_spec [OF w r this] 3 show ?thesis
      by (fastforce simp: hm_reserve_one_def ckd_mul_def HMAP_GROWTH_FACTOR_def split: if_splits)
  next
    case 4
    then show ?thesis using hm_did_refl [OF r(1) refl] w by (auto simp: hm_reserve_one_def ckd_mul_def HMAP_GROWTH_FACTOR_def)
  qed
qed

end

section \<open>Nodes\<close>

text \<open>A value as the code takes it: a pointer, or null when values have no size.\<close>

definition val_of :: "byte list option \<Rightarrow> byte list" where
  "val_of v = (case v of None \<Rightarrow> [] | Some x \<Rightarrow> x)"

definition entry_args :: "'s hmap \<Rightarrow> byte list \<Rightarrow> byte list option \<Rightarrow> bool" where
  "entry_args m k v \<longleftrightarrow> length k = hm_key_size m \<and> length (val_of v) = hm_val_size m"

lemma put_val_ok:
  assumes s: "hm_shape m" and p: "heap w p = Some xs" "length xs = entry_size m" and v: "length (val_of v) = hm_val_size m"
  shows "put_val m p v w = Some (w\<lparr>heap := (heap w)(p \<mapsto> blit (16 + hm_val_offset m) (val_of v) xs)\<rparr>)"
proof (cases "hm_val_size m = 0")
  case True
  then have "(heap w)(p \<mapsto> blit (16 + hm_val_offset m) (val_of v) xs) = heap w" using v p(1) by auto
  then show ?thesis using True by (simp add: put_val_def)
next
  case False
  then obtain x where "v = Some x" "length x = hm_val_size m" using v by (cases v) (auto simp: val_of_def)
  then show ?thesis
    using False p hm_node_val_ok [OF s, of p] by (simp add: put_val_def val_of_def mem_write_ok entry_size_def)
qed

context node_allocator
begin

lemma hm_node_new_ok:
  assumes w: "inv w" and s: "hm_shape m" "hm_al m = al" and k: "entry_args m k v"
  obtains (no) w' where "hm_node_new m k v x w h = Some (TDA_STATUS_ERR_NO_MEM, None, w', h)" "inv w'" "heap w' = heap w"
  | (ok) p w' xs where "hm_node_new m k v x w h
        = Some (TDA_STATUS_OK, Some p, w', h\<lparr>hl_nodes := (hl_nodes h)(p \<mapsto> \<lparr>hn_next = None, hn_hash = x\<rparr>)\<rparr>)"
      "inv w'" "owned p" "heap w p = None" "heap w' = (heap w)(p \<mapsto> xs)" "length xs = entry_size m"
      "slice 16 (hm_key_size m) xs = k" "slice (16 + hm_val_offset m) (hm_val_size m) xs = val_of v"
proof -
  have sz: "hm_node_bytes m = entry_size m" "entry_size m \<le> SIZE_MAX" and ko: "hm_key_size m \<le> hm_val_offset m"
    using s(1) by (simp_all add: hm_node_bytes_def hm_shape_def entry_size_def sizeof_tda_HMapNode_def size_add_exact)
  have kv: "length k = hm_key_size m" "length (val_of v) = hm_val_size m" using k by (simp_all add: entry_args_def)
  show ?thesis
  proof (rule alloc_cases [OF w sz(2)])
    fix w1 assume "tda_alloc al w (entry_size m) = Some (None, w1)" "inv w1" "heap w1 = heap w"
    then show ?thesis using no [of w1] s(2) sz(1) by (simp add: hm_node_new_def)
  next
    fix p w1 bs assume a: "tda_alloc al w (entry_size m) = Some (Some p, w1)" "inv w1" "owned p" "heap w p = None"
      "length bs = entry_size m" "heap w1 = (heap w)(p \<mapsto> bs)"
    have h1: "heap w1 p = Some bs" using a(6) by simp
    have "tda_ptr_is_aligned (addr_of p) (2 ^ 4) = Some (2 ^ 4 dvd addr_of p)"
      using block_aligned [OF a(2,3) h1] by (intro tda_ptr_is_aligned_pow2) simp_all
    then have al: "tda_ptr_is_aligned (addr_of p) 16 = Some True" using block_aligned [OF a(2,3) h1] by simp
    let ?bs = "blit 16 k bs" and ?xs = "blit (16 + hm_val_offset m) (val_of v) (blit 16 k bs)"
    have len: "length ?bs = entry_size m" "length ?xs = entry_size m"
      using a(5) kv ko by (simp_all add: length_blit entry_size_def)
    define w2 where "w2 = w1\<lparr>heap := (heap w1)(p \<mapsto> ?bs)\<rparr>"
    define w3 where "w3 = w2\<lparr>heap := (heap w2)(p \<mapsto> ?xs)\<rparr>"
    have m: "mem_write w1 p 16 (take (hm_key_size m) k) = Some w2"
      using a(5) h1 kv ko by (simp add: mem_write_ok w2_def entry_size_def)
    have i2: "inv w2" unfolding w2_def by (rule write_law [OF a(2) h1]) (simp add: len a(5))
    have h2: "heap w2 p = Some ?bs" by (simp add: w2_def)
    have i3: "inv w3" unfolding w3_def by (rule write_law [OF i2 h2]) (simp add: len)
    have pv: "put_val m p v w2 = Some w3" unfolding w3_def by (rule put_val_ok [OF s(1) h2 len(1) kv(2)])
    have "slice 16 (hm_key_size m) ?xs = slice 16 (hm_key_size m) ?bs"
      by (rule slice_blit_before) (use ko len(1) in \<open>simp_all add: entry_size_def\<close>)
    then have 1: "slice 16 (hm_key_size m) ?xs = k" using slice_blit_same [of 16 k bs] a(5) kv ko by (simp add: entry_size_def)
    have 2: "slice (16 + hm_val_offset m) (hm_val_size m) ?xs = val_of v"
      using slice_blit_same [of "16 + hm_val_offset m" "val_of v" ?bs] len(1) kv(2) by (simp add: entry_size_def)
    have "heap w3 = (heap w)(p \<mapsto> ?xs)" using a(6) by (simp add: w3_def w2_def)
    moreover have "hm_node_new m k v x w h
        = Some (TDA_STATUS_OK, Some p, w3, h\<lparr>hl_nodes := (hl_nodes h)(p \<mapsto> \<lparr>hn_next = None, hn_hash = x\<rparr>)\<rparr>)"
      using a(1) s(2) sz(1) al m pv by (simp add: hm_node_new_def hm_node_key_def sizeof_tda_HMapNode_def)
    ultimately show ?thesis using ok [of p w3 ?xs] i3 a(3,4) len(2) 1 2 by blast
  qed
qed

lemma hm_node_drop_ok:
  assumes w: "inv w" and s: "hm_shape m" "hm_al m = al" and p: "owned p" "block_at w p (entry_size m)"
  obtains w' where "hm_node_drop m p w h = Some (w', h\<lparr>hl_nodes := (hl_nodes h)(p := None)\<rparr>)" "inv w'" "heap w' = (heap w)(p := None)"
proof -
  have sz: "hm_node_bytes m = entry_size m"
    using s(1) by (simp add: hm_node_bytes_def hm_shape_def entry_size_def sizeof_tda_HMapNode_def size_add_exact)
  obtain bs where "heap w p = Some bs" "length bs = entry_size m" using p(2) by (auto simp: block_at_def)
  from dealloc_some [OF w p(1) this] obtain w' where "tda_dealloc al w (Some p) (entry_size m) = Some w'" "inv w'"
    "heap w' = (heap w)(p := None)" .
  then show ?thesis using that s(2) sz by (simp add: hm_node_drop_def)
qed

end


section \<open>Inserting\<close>

text \<open>What a map is once the entry of \<open>k\<close> is \<open>v\<close>; keys count as equal when the map says so.\<close>

definition map_put :: "(byte list \<Rightarrow> byte list \<Rightarrow> bool) \<Rightarrow> byte list \<Rightarrow> byte list \<Rightarrow> (byte list \<Rightarrow> byte list option) \<Rightarrow> byte list \<Rightarrow> byte list option" where
  "map_put eq k v f = (\<lambda>k'. if eq k k' then Some v else f k')"

definition map_del :: "(byte list \<Rightarrow> byte list \<Rightarrow> bool) \<Rightarrow> byte list \<Rightarrow> (byte list \<Rightarrow> byte list option) \<Rightarrow> byte list \<Rightarrow> byte list option" where
  "map_del eq k f = (\<lambda>k'. if eq k k' then None else f k')"

text \<open>A node that no chain has yet goes to the head of its bucket.\<close>

lemma push_entry_ok:
  assumes r: "hm_rep owned w h m bs" and n: "0 < hm_bucket_count m" and k: "\<And>q. q \<in> set (concat bs) \<Longrightarrow> \<not> hm_eq m (hm_key w m q) k"
    and p: "owned p" "heap w p = None" "heap w' = (heap w)(p \<mapsto> xs)" "length xs = entry_size m"
      "slice 16 (hm_key_size m) xs = k" "slice (16 + hm_val_offset m) (hm_val_size m) xs = v"
    and h1: "h1 = h\<lparr>hl_nodes := (hl_nodes h)(p \<mapsto> \<lparr>hn_next = None, hn_hash = hm_hasher m k\<rparr>)\<rparr>"
  obtains b h2 h3 bs' where "hm_buckets m = Some b" "bucket_of m (hm_hasher m k) = Some (key_slot m k)"
    "bucket_get h1 m (key_slot m k) = Some (hd_or (bs ! key_slot m k) None)"
    "set_hnext p (hd_or (bs ! key_slot m k) None) h1 = Some h2" "slot_set b (key_slot m k) (Some p) h2 = Some h3"
    "hm_did owned w h m bs w' h3 (m\<lparr>hm_len := hm_len m + 1\<rparr>) bs' (map_put (hm_eq m) k v (hm_map w m (concat bs)))"
    "p \<in> set (concat bs')" "hm_key w' m p = k" "hm_val w' m p = v"
proof -
  let ?i = "key_slot m k" and ?m = "m\<lparr>hm_len := hm_len m + 1\<rparr>"
  define D where "D = set (concat bs)"
  have R: "hm_shape m" "placed h (hm_bucket_count m) bs" "hm_len m = length (concat bs)" "entries_ok owned w h m D"
    "owned (hm_self m)" "block_at w (hm_self m) sizeof_tda_HMap" "hm_self m \<notin> D" using r by (simp_all add: hm_rep_def D_def)
  have a: "agree (hm_hasher m) (hm_eq m)" using R(1) by (simp add: hm_shape_def)
  obtain b where b: "hm_buckets m = Some b" "headed h b bs" "owned b" "block_at w b (hm_bucket_count m * 8)" "b \<notin> D" "b \<noteq> hm_self m"
    using r n by (auto simp: hm_rep_def hm_shape_def D_def)
  have n0: "hm_bucket_count m \<noteq> 0" using n by simp
  note K = key_slot_ok [where k = k, OF r n0]
  have "p \<notin> hm_blocks m bs" using hm_rep_live [OF r, of p] p(2) by auto
  then have out: "p \<notin> D" "p \<noteq> b" "p \<noteq> hm_self m" using b(1) by (auto simp: hm_blocks_def D_def)
  have "placed h1 (hm_bucket_count m) bs = placed h (hm_bucket_count m) bs"
    by (rule placed_cong) (use out(1) in \<open>auto simp: h1 D_def\<close>)
  then have pl: "placed h1 (hm_bucket_count m) bs" using R(2) by simp
  have hd: "headed h1 b bs" using b(2) by (simp add: headed_def h1)
  have node: "hl_nodes h1 p = Some \<lparr>hn_next = None, hn_hash = hm_hasher m k\<rparr>" by (simp add: h1)
  have slot: "hash_slot (hm_bucket_count m) (hn_hash \<lparr>hn_next = None, hn_hash = hm_hasher m k\<rparr>) = ?i" by (simp add: key_slot_def)
  define bs' where "bs' = bs[?i := p # bs ! ?i]"
  from push_head_ok [OF pl hd out(1) [unfolded D_def] node slot K(1)] obtain h2 h3 where
    h: "set_hnext p (hd_or (bs ! ?i) None) h1 = Some h2" "slot_set b ?i (Some p) h2 = Some h3"
      "placed h3 (hm_bucket_count m) bs'" "headed h3 b bs'"
      "hl_nodes h3 = (hl_nodes h1)(p \<mapsto> \<lparr>hn_next = hd_or (bs ! ?i) None, hn_hash = hm_hasher m k\<rparr>)"
      "\<forall>q. q \<noteq> b \<longrightarrow> hl_arrays h3 q = hl_arrays h1 q" unfolding bs'_def by auto
  have i: "?i < length bs" "distinct (concat bs)" using R(2) K(1) by (simp_all add: placed_def)
  have D': "set (concat bs') = insert p D"
    using set_concat_update [OF i, of "p # bs ! ?i"] K(5) by (auto simp: bs'_def D_def)
  have len: "length (concat bs') = Suc (length (concat bs))"
    using length_concat_update [OF i(1), of "p # bs ! ?i"] by (simp add: bs'_def)
  have keep: "heap w' q = heap w q" if "q \<noteq> p" for q using that p(3) by simp
  have kv: "hm_key w' m p = k" "hm_val w' m p = v" using p(3,5,6) by (simp_all add: hm_key_def hm_val_def)
  have keys: "hm_key w' m q = hm_key w m q" if "q \<in> D" for q
  proof -
    have "q \<noteq> p" using out(1) that by auto
    then show ?thesis using keep by (simp add: hm_key_def)
  qed
  have "entries_ok owned w' h3 m D = entries_ok owned w h m D"
    by (rule entries_ok_cong) (use keep out(1) h(5) in \<open>auto simp: hash_of_def h1\<close>)
  then have e: "entries_ok owned w' h3 m (insert p D)"
    using R(4) a p(1,3,4) h(5) keys k kv(1) by (intro entries_ok_insert) (auto simp: block_at_def hash_of_def D_def)
  have f: "hm_map w' m (concat bs') = map_put (hm_eq m) k v (hm_map w m (concat bs))"
  proof -
    have "hm_map w' m (concat bs) = hm_map w m (concat bs)" by (rule hm_map_keep, rule keep) (use out(1) in \<open>auto simp: D_def\<close>)
    then show ?thesis using hm_map_insert [OF e [unfolded D_def] a D' [unfolded D_def]] kv by (simp add: map_put_def fun_eq_iff)
  qed
  have "hm_shape ?m" using R(1) by (auto simp: hm_shape_def entry_size_def)
  then have rep: "hm_rep owned w' h3 ?m bs'"
    using R(3,5-7) h(3,4) len D' e out b p(3) by (simp add: hm_rep_def D_def block_at_def)
  have bl: "hm_blocks ?m bs' = insert p (hm_blocks m bs)" using D' by (auto simp: hm_blocks_def D_def)
  have "hlinks_at h3 q = hlinks_at h q" if "heap w q \<noteq> None" "q \<notin> hm_blocks m bs" for q
  proof -
    have "q \<noteq> p" "q \<noteq> b" using that p(2) b(1) by (auto simp: hm_blocks_def)
    then show ?thesis using h(5,6) by (simp add: hlinks_at_def h1)
  qed
  then have "hm_frame w h (hm_blocks m bs) w' h3 (hm_blocks ?m bs')"
    unfolding bl node_frame_def using frame_acquire [OF p(2,3)] by blast
  then have "hm_did owned w h m bs w' h3 ?m bs' (map_put (hm_eq m) k v (hm_map w m (concat bs)))"
    using rep f by (simp add: hm_did_def hm_same_def)
  moreover have "bucket_get h1 m ?i = Some (hd_or (bs ! ?i) None)"
    using slot_get_ok [OF hd] i(1) b(1) by (simp add: bucket_get_def)
  ultimately show ?thesis using that b(1) K(2) h(1,2) kv D' by blast
qed

context node_allocator
begin

lemma add_node_spec:
  assumes w: "inv w" and r: "hm_rep owned w h m bs" "hm_al m = al" and k: "entry_args m k v" and f: "hm_map w m (concat bs) k = None"
  shows "\<exists>st res w' h' m' bs'. add_node k v (hm_hasher m k) w h m = Some (st, res, w', h', m') \<and> inv w'
    \<and> hm_did owned w h m bs w' h' m' bs'
        (if st = TDA_STATUS_OK then map_put (hm_eq m) k (val_of v) (hm_map w m (concat bs)) else hm_map w m (concat bs))
    \<and> (if st = TDA_STATUS_OK then \<exists>p. res = Some p \<and> p \<in> set (concat bs') \<and> hm_key w' m' p = k \<and> hm_val w' m' p = val_of v else res = None)"
proof -
  obtain st w1 h1 m1 bs1 where s: "hm_reserve_one w h m = Some (st, w1, h1, m1)" "inv w1"
    "hm_did owned w h m bs w1 h1 m1 bs1 (hm_map w m (concat bs))" "st = TDA_STATUS_OK \<longrightarrow> 0 < hm_bucket_count m1"
    using hm_reserve_one_spec [OF w r] by blast
  show ?thesis
  proof (cases st)
    case TDA_STATUS_ERR_NO_MEM
    then show ?thesis using s by (auto simp: add_node_def TDA_STATUS_IS_ERR_def)
  next
    case TDA_STATUS_OK
    have r1: "hm_rep owned w1 h1 m1 bs1" and sm: "hm_same m1 m" and mp: "hm_map w1 m1 (concat bs1) = hm_map w m (concat bs)"
      using s(3) by (simp_all add: hm_did_def)
    have s1: "hm_shape m1" "hm_al m1 = al" "entry_args m1 k v" and eqs: "hm_eq m1 = hm_eq m" "hm_hasher m1 = hm_hasher m"
      using r1 sm r(2) k by (simp_all add: hm_rep_def hm_same_def entry_args_def)
    have n1: "0 < hm_bucket_count m1" using s(4) TDA_STATUS_OK by simp
    have "hm_map w1 m1 (concat bs1) k = None" by (simp add: mp f)
    then have no: "\<not> hm_eq m1 (hm_key w1 m1 q) k" if "q \<in> set (concat bs1)" for q using that unfolding hm_map_none_iff by blast
    show ?thesis
    proof (rule hm_node_new_ok [OF s(2) s1, of "hm_hasher m k" h1])
      fix w2 assume n: "hm_node_new m1 k v (hm_hasher m k) w1 h1 = Some (TDA_STATUS_ERR_NO_MEM, None, w2, h1)" "inv w2" "heap w2 = heap w1"
      have "hm_did owned w h m bs w2 h1 m1 bs1 (hm_map w m (concat bs))"
        using hm_did_trans [OF s(3) hm_did_refl [OF r1 n(3)]] by (simp add: mp)
      then show ?thesis using s(1) TDA_STATUS_OK n(1,2) by (auto simp: add_node_def TDA_STATUS_IS_ERR_def)
    next
      fix p w2 xs
      let ?h = "h1\<lparr>hl_nodes := (hl_nodes h1)(p \<mapsto> \<lparr>hn_next = None, hn_hash = hm_hasher m k\<rparr>)\<rparr>"
      assume n: "hm_node_new m1 k v (hm_hasher m k) w1 h1 = Some (TDA_STATUS_OK, Some p, w2, ?h)"
        "inv w2" "owned p" "heap w1 p = None" "heap w2 = (heap w1)(p \<mapsto> xs)" "length xs = entry_size m1"
        "slice 16 (hm_key_size m1) xs = k" "slice (16 + hm_val_offset m1) (hm_val_size m1) xs = val_of v"
      have h: "?h = h1\<lparr>hl_nodes := (hl_nodes h1)(p \<mapsto> \<lparr>hn_next = None, hn_hash = hm_hasher m1 k\<rparr>)\<rparr>" by (simp add: eqs)
      let ?m = "m1\<lparr>hm_len := hm_len m1 + 1\<rparr>"
      obtain b h2 h3 bs' where q: "hm_buckets m1 = Some b" "bucket_of m1 (hm_hasher m1 k) = Some (key_slot m1 k)"
        "bucket_get ?h m1 (key_slot m1 k) = Some (hd_or (bs1 ! key_slot m1 k) None)"
        "set_hnext p (hd_or (bs1 ! key_slot m1 k) None) ?h = Some h2" "slot_set b (key_slot m1 k) (Some p) h2 = Some h3"
        "hm_did owned w1 h1 m1 bs1 w2 h3 ?m bs' (map_put (hm_eq m1) k (val_of v) (hm_map w1 m1 (concat bs1)))"
        "p \<in> set (concat bs')" "hm_key w2 m1 p = k" "hm_val w2 m1 p = val_of v"
        by (rule push_entry_ok [OF r1 n1 no n(3-8) h]) blast
      have "hm_rep owned w2 h3 ?m bs'" using q(6) by (simp add: hm_did_def)
      note as = hm_rep_assert [OF this]
      have "add_node k v (hm_hasher m k) w h m = Some (TDA_STATUS_OK, Some p, w2, h3, ?m)"
        using s(1) TDA_STATUS_OK n(1) q(1-5) as by (simp add: add_node_def TDA_STATUS_IS_ERR_def eqs)
      moreover have "hm_did owned w h m bs w2 h3 ?m bs' (map_put (hm_eq m) k (val_of v) (hm_map w m (concat bs)))"
        using hm_did_trans [OF s(3) q(6)] by (simp add: mp eqs)
      ultimately show ?thesis using n(2) q(7-9) by auto
    qed
  qed
qed


text \<open>The value of an entry that is there is overwritten.\<close>

lemma overwrite_spec:
  assumes w: "inv w" and r: "hm_rep owned w h m bs" and k: "length (val_of v) = hm_val_size m"
    and p: "p \<in> set (concat bs)" "hm_eq m (hm_key w m p) k"
  shows "\<exists>w'. put_val m p v w = Some w' \<and> inv w' \<and> hm_did owned w h m bs w' h m bs (map_put (hm_eq m) k (val_of v) (hm_map w m (concat bs)))"
proof -
  have s: "hm_shape m" and e: "entries_ok owned w h m (set (concat bs))" and a: "agree (hm_hasher m) (hm_eq m)"
    and out: "p \<noteq> hm_self m" "\<And>b. hm_buckets m = Some b \<Longrightarrow> p \<noteq> b"
    using r p(1) by (auto simp: hm_rep_def hm_shape_def)
  obtain xs where x: "heap w p = Some xs" "length xs = entry_size m" using entry_block [OF e p(1)] by blast
  let ?xs = "blit (16 + hm_val_offset m) (val_of v) xs"
  define w' where "w' = w\<lparr>heap := (heap w)(p \<mapsto> ?xs)\<rparr>"
  have len: "length ?xs = length xs" using x(2) k by (simp add: length_blit entry_size_def)
  have i: "inv w'" unfolding w'_def by (rule write_law [OF w x(1) len])
  have keep: "heap w' q = heap w q" if "q \<noteq> p" for q using that by (simp add: w'_def)
  have "slice 16 (hm_key_size m) ?xs = slice 16 (hm_key_size m) xs"
    by (rule slice_blit_before) (use s x(2) in \<open>simp_all add: hm_shape_def entry_size_def\<close>)
  then have keys: "hm_key w' m q = hm_key w m q" for q using x(1) by (cases "q = p") (simp_all add: hm_key_def w'_def)
  have val: "hm_val w' m p = val_of v"
    using slice_blit_same [of "16 + hm_val_offset m" "val_of v" xs] x(2) k by (simp add: hm_val_def w'_def entry_size_def)
  have vals: "hm_val w' m q = hm_val w m q" if "q \<noteq> p" for q using keep [OF that] by (simp add: hm_val_def)
  have "block_at w' q n = block_at w q n" for q n using len x(1) by (cases "q = p") (simp_all add: block_at_def w'_def)
  then have e': "entries_ok owned w' h m (set (concat bs))" and r': "hm_rep owned w' h m bs"
    using e r by (simp_all add: entries_ok_def keys hm_rep_def)
  have "hm_eq m (hm_key w m p) k' = hm_eq m k k'" for k' using p(2) agree_sym [OF a] agree_trans [OF a] by blast
  then have "hm_map w' m (concat bs) = map_put (hm_eq m) k (val_of v) (hm_map w m (concat bs))"
    using hm_map_change [OF e a p(1) keys vals e'] by (simp add: map_put_def val fun_eq_iff)
  moreover have "p \<in> hm_blocks m bs" using p(1) by (simp add: hm_blocks_def)
  from frame_write [OF this, of w' w "Some ?xs"] have "hm_frame w h (hm_blocks m bs) w' h (hm_blocks m bs)"
    by (simp add: node_frame_def w'_def)
  ultimately show ?thesis using put_val_ok [OF s x k] i r' by (auto simp: hm_did_def hm_same_refl w'_def [symmetric])
qed

lemma hmap_insert_spec:
  assumes w: "inv w" and r: "hm_rep owned w h m bs" "hm_al m = al" and k: "entry_args m k v"
  shows "\<exists>st new w' h' m' bs'. tda_hmap_insert w h m k v = Some (st, new, w', h', m') \<and> inv w'
    \<and> hm_did owned w h m bs w' h' m' bs'
        (if st = TDA_STATUS_OK then map_put (hm_eq m) k (val_of v) (hm_map w m (concat bs)) else hm_map w m (concat bs))
    \<and> (if st = TDA_STATUS_OK then new = Some (hm_map w m (concat bs) k = None) else new = None)"
proof -
  note A = hm_rep_assert [OF r(1)]
  have v: "c_assert (v \<noteq> None \<or> hm_val_size m = 0) = Some ()" using k by (auto simp: entry_args_def val_of_def c_simps split: option.splits)
  show ?thesis
  proof (rule hm_find_cases [OF r(1), of k])
    assume f: "hm_find_node w h m k (hm_hasher m k) = Some None" "hm_map w m (concat bs) k = None"
    show ?thesis
      using add_node_spec [OF w r k f(2)] A v f by (fastforce simp: tda_hmap_insert_def TDA_STATUS_IS_ERR_def)
  next
    fix p assume f: "hm_find_node w h m k (hm_hasher m k) = Some (Some p)" "p \<in> set (concat bs)" "hm_eq m (hm_key w m p) k"
      "hm_map w m (concat bs) k = Some (hm_val w m p)"
    show ?thesis using overwrite_spec [OF w r(1) _ f(2,3), of v] k A v f by (auto simp: tda_hmap_insert_def entry_args_def)
  qed
qed

lemma hmap_get_or_insert_spec:
  assumes w: "inv w" and r: "hm_rep owned w h m bs" "hm_al m = al" and k: "entry_args m k v"
  shows "\<exists>st res w' h' m' bs'. tda_hmap_get_or_insert w h m k v = Some (st, res, w', h', m') \<and> inv w'
    \<and> hm_did owned w h m bs w' h' m' bs'
        (if st = TDA_STATUS_OK \<and> hm_map w m (concat bs) k = None then map_put (hm_eq m) k (val_of v) (hm_map w m (concat bs))
         else hm_map w m (concat bs))
    \<and> (if st = TDA_STATUS_OK then \<exists>p. res = Some p \<and> p \<in> set (concat bs') \<and> hm_eq m (hm_key w' m' p) k else res = None)"
proof -
  note A = hm_rep_assert [OF r(1)]
  have eq: "hm_eq m k k" using r(1) agree_refl by (auto simp: hm_rep_def hm_shape_def)
  have v: "c_assert (v \<noteq> None \<or> hm_val_size m = 0) = Some ()" using k by (auto simp: entry_args_def val_of_def c_simps split: option.splits)
  show ?thesis
  proof (rule hm_find_cases [OF r(1), of k])
    assume f: "hm_find_node w h m k (hm_hasher m k) = Some None" "hm_map w m (concat bs) k = None"
    show ?thesis
      using add_node_spec [OF w r k f(2)] A v f eq by (fastforce simp: tda_hmap_get_or_insert_def)
  next
    fix p assume f: "hm_find_node w h m k (hm_hasher m k) = Some (Some p)" "p \<in> set (concat bs)" "hm_eq m (hm_key w m p) k"
      "hm_map w m (concat bs) k = Some (hm_val w m p)"
    show ?thesis using hm_did_refl [OF r(1) refl] w A v f by (auto simp: tda_hmap_get_or_insert_def)
  qed
qed

end


section \<open>Removing\<close>

context node_allocator
begin

lemma cut_node_spec:
  assumes w: "inv w" and r: "hm_rep owned w h m bs" "hm_al m = al" and i: "i < hm_bucket_count m" and c: "bs ! i = as @ p # cs"
  shows "\<exists>w' h' bs'. cut_node m i (last_or as None) p w h = Some (w', h', m\<lparr>hm_len := hm_len m - 1\<rparr>) \<and> inv w'
    \<and> hm_did owned w h m bs w' h' (m\<lparr>hm_len := hm_len m - 1\<rparr>) bs' (map_del (hm_eq m) (hm_key w m p) (hm_map w m (concat bs)))"
proof -
  let ?m = "m\<lparr>hm_len := hm_len m - 1\<rparr>"
  define bs' where "bs' = bs[i := as @ cs]"
  define D where "D = set (concat bs)"
  have R: "hm_shape m" "placed h (hm_bucket_count m) bs" "hm_len m = length (concat bs)" "entries_ok owned w h m D"
    "owned (hm_self m)" "block_at w (hm_self m) sizeof_tda_HMap" "hm_self m \<notin> D" using r(1) by (simp_all add: hm_rep_def D_def)
  have a: "agree (hm_hasher m) (hm_eq m)" using R(1) by (simp add: hm_shape_def)
  obtain b where b: "hm_buckets m = Some b" "headed h b bs" "owned b" "block_at w b (hm_bucket_count m * 8)" "b \<notin> D" "b \<noteq> hm_self m"
    using r(1) i by (auto simp: hm_rep_def hm_shape_def D_def)
  have ib: "i < length bs" "distinct (concat bs)" using R(2) i by (simp_all add: placed_def)
  have bi: "bs ! i \<in> set bs" by (rule nth_mem [OF ib(1)])
  then have sub: "set (bs ! i) \<subseteq> D" by (auto simp: D_def)
  have dc: "distinct (bs ! i)" using ib(2) bi by (simp add: distinct_concat_iff)
  have p: "p \<in> D" using sub c by auto
  obtain h1 where h1: "hnext h p = Some (hd_or cs None)" "store_link m i (last_or as None) (hd_or cs None) h = Some h1"
    "placed h1 (hm_bucket_count m) bs'" "headed h1 b bs'" "\<forall>q. q \<notin> set as \<longrightarrow> hl_nodes h1 q = hl_nodes h q"
    "\<forall>q. hash_of h1 q = hash_of h q" "\<forall>q. q \<noteq> b \<longrightarrow> hl_arrays h1 q = hl_arrays h q"
    unfolding bs'_def by (rule store_link_ok [OF R(2) b(2,1) i c])
  have pb: "owned p" "block_at w p (entry_size m)" using R(4) p by (simp_all add: entries_ok_def)
  define h2 where "h2 = h1\<lparr>hl_nodes := (hl_nodes h1)(p := None)\<rparr>"
  obtain w2 where w2: "hm_node_drop m p w h1 = Some (w2, h2)" "inv w2" "heap w2 = (heap w)(p := None)"
    unfolding h2_def by (rule hm_node_drop_ok [OF w R(1) r(2) pb, of h1])
  have D': "set (concat bs') = D - {p}"
    using set_concat_update [OF ib, of "as @ cs"] c sub dc by (auto simp: bs'_def D_def)
  have len: "Suc (length (concat bs')) = length (concat bs)"
    using length_concat_update [OF ib(1), of "as @ cs"] c by (simp add: bs'_def)
  have keep: "heap w2 q = heap w q" if "q \<noteq> p" for q using that w2(3) by simp
  have "placed h2 (hm_bucket_count m) bs' = placed h1 (hm_bucket_count m) bs'"
    by (rule placed_cong) (use D' in \<open>auto simp: h2_def\<close>)
  moreover have "entries_ok owned w2 h2 m (D - {p}) = entries_ok owned w h m (D - {p})"
    by (rule entries_ok_cong) (use keep h1(6) in \<open>auto simp: h2_def hash_of_def\<close>)
  moreover have "hm_shape ?m" using R(1) by (auto simp: hm_shape_def entry_size_def)
  moreover have "headed h2 b bs'" using h1(4) by (simp add: headed_def h2_def)
  moreover have "p \<noteq> b" "p \<noteq> hm_self m" using b(5) R(7) p by auto
  moreover have "hm_len m - 1 = length (concat bs')" using len R(3) by simp
  ultimately have rep: "hm_rep owned w2 h2 ?m bs'"
    using R(5-7) h1(3) entries_ok_subset [OF R(4), of "D - {p}"] b D' w2(3) by (simp add: hm_rep_def block_at_def)
  have bl: "hm_blocks ?m bs' = hm_blocks m bs - {p}" using D' R(7) b(1,5) p by (auto simp: hm_blocks_def D_def)
  have pin: "p \<in> hm_blocks m bs" using p by (auto simp: hm_blocks_def D_def)
  have "hlinks_at h2 q = hlinks_at h q" if "q \<notin> hm_blocks m bs" for q
  proof -
    have "q \<noteq> p" "q \<noteq> b" "q \<notin> set as" using that p b(1) sub c by (auto simp: hm_blocks_def D_def)
    then show ?thesis using h1(5,7) by (simp add: hlinks_at_def h2_def)
  qed
  then have "hm_frame w h (hm_blocks m bs) w2 h2 (hm_blocks ?m bs')"
    unfolding bl node_frame_def using frame_release [OF pin w2(3)] by blast
  moreover have "hm_map w2 m (concat bs') = map_del (hm_eq m) (hm_key w m p) (hm_map w m (concat bs))"
  proof -
    have "hm_map w2 m (concat bs') = hm_map w m (concat bs')" by (rule hm_map_keep, rule keep) (use D' in auto)
    then show ?thesis
      using hm_map_remove [OF R(4) [unfolded D_def] a p [unfolded D_def] D' [unfolded D_def]] by (simp add: map_del_def)
  qed
  ultimately have "hm_did owned w h m bs w2 h2 ?m bs' (map_del (hm_eq m) (hm_key w m p) (hm_map w m (concat bs)))"
    using rep by (simp add: hm_did_def hm_same_def)
  then show ?thesis using h1(1,2) w2(1,2) hm_rep_assert [OF rep] by (auto simp: cut_node_def)
qed

lemma hmap_remove_spec:
  assumes w: "inv w" and r: "hm_rep owned w h m bs" "hm_al m = al"
  shows "\<exists>gone w' h' m' bs'. tda_hmap_remove w h m k = Some (gone, w', h', m') \<and> inv w'
    \<and> hm_did owned w h m bs w' h' m' bs' (map_del (hm_eq m) k (hm_map w m (concat bs))) \<and> gone = (hm_map w m (concat bs) k \<noteq> None)"
proof -
  note A = hm_rep_assert [OF r(1)]
  have a: "agree (hm_hasher m) (hm_eq m)" and e: "entries_ok owned w h m (set (concat bs))" using r(1) by (simp_all add: hm_rep_def hm_shape_def)
  have same: "map_del (hm_eq m) k (hm_map w m (concat bs)) = hm_map w m (concat bs)" if no: "hm_map w m (concat bs) k = None"
  proof
    fix x
    have "hm_map w m (concat bs) x = None" if "hm_eq m k x"
      using no that agree_sym [OF a] agree_trans [OF a] unfolding hm_map_none_iff by blast
    then show "map_del (hm_eq m) k (hm_map w m (concat bs)) x = hm_map w m (concat bs) x" by (simp add: map_del_def)
  qed
  show ?thesis
  proof (cases "hm_bucket_count m = 0")
    case True
    then have "bs = []" using r(1) by (simp add: hm_rep_def placed_def)
    then have "hm_map w m (concat bs) k = None" by (simp add: hm_map_def)
    then show ?thesis using True A w hm_did_refl [OF r(1) refl] same by (auto simp: tda_hmap_remove_def)
  next
    case False
    note K = key_slot_ok [where k = k, OF r(1) False]
    let ?c = "bs ! key_slot m k" and ?P = "\<lambda>p. hm_eq m (hm_key w m p) k"
    let ?s = "link_seek (node_matches w h m k (hm_hasher m k)) (hnext h) (None, hd_or ?c None)"
    have R: "tda_hmap_remove w h m k = do { (lnk, cur) \<leftarrow> ?s; (case cur of None \<Rightarrow> Some (False, w, h, m)
        | Some dead \<Rightarrow> do { (w1, h1, m1) \<leftarrow> cut_node m (key_slot m k) lnk dead w h; Some (True, w1, h1, m1) }) }"
      using False A K(2,3) by (simp add: tda_hmap_remove_def)
    have mt: "node_matches w h m k (hm_hasher m k) p = Some (?P p)" if "p \<in> set ?c" for p by (rule matches_in_chain [OF r(1) False that])
    consider "\<forall>p \<in> set ?c. \<not> ?P p" "?s = Some (last_or ?c None, None)"
      | as p cs where "?c = as @ p # cs" "?P p" "?s = Some (last_or as None, Some p)"
      using link_seek_ok [where P = ?P and lnk = None, OF K(4) mt] by blast
    then show ?thesis
    proof cases
      case 1
      then have "hm_map w m (concat bs) k = None" using K(6) hm_map_none by blast
      then show ?thesis unfolding R using 1(2) w hm_did_refl [OF r(1) refl] same by auto
    next
      case (2 as p cs)
      have p: "p \<in> set (concat bs)" using K(5) 2(1) by auto
      have "map_del (hm_eq m) (hm_key w m p) (hm_map w m (concat bs)) = map_del (hm_eq m) k (hm_map w m (concat bs))"
        using 2(2) agree_sym [OF a] agree_trans [OF a] unfolding map_del_def by metis
      with cut_node_spec [OF w r K(1) 2(1)] obtain w' h' bs' where
        c: "cut_node m (key_slot m k) (last_or as None) p w h = Some (w', h', m\<lparr>hm_len := hm_len m - 1\<rparr>)" "inv w'"
          "hm_did owned w h m bs w' h' (m\<lparr>hm_len := hm_len m - 1\<rparr>) bs' (map_del (hm_eq m) k (hm_map w m (concat bs)))" by auto
      show ?thesis
        by (intro exI [of _ True] exI [of _ w'] exI [of _ h'] exI [of _ "m\<lparr>hm_len := hm_len m - 1\<rparr>"] exI [of _ bs'])
          (use c 2(3) R hm_map_at [OF e a p 2(2)] in simp)
    qed
  qed
qed

lemma hmap_remove_node_spec:
  assumes w: "inv w" and r: "hm_rep owned w h m bs" "hm_al m = al" and p: "p \<in> set (concat bs)"
  shows "\<exists>w' h' m' bs'. tda_hmap_remove_node w h m p = Some (w', h', m') \<and> inv w'
    \<and> hm_did owned w h m bs w' h' m' bs' (map_del (hm_eq m) (hm_key w m p) (hm_map w m (concat bs)))"
proof -
  have n0: "hm_bucket_count m \<noteq> 0"
  proof
    assume "hm_bucket_count m = 0"
    then have "bs = []" using r(1) by (simp add: hm_rep_def placed_def)
    then show False using p by simp
  qed
  have n: "0 < hm_len m" using r(1) length_pos_if_in_set [OF p] by (simp add: hm_rep_def)
  let ?k = "hm_key w m p" and ?i = "key_slot m (hm_key w m p)"
  note K = key_slot_ok [where k = ?k, OF r(1) n0]
  have e: "entries_ok owned w h m (set (concat bs))" and pl: "placed h (hm_bucket_count m) bs" and eq: "hm_eq m ?k ?k"
    using r(1) agree_refl by (auto simp: hm_rep_def hm_shape_def)
  obtain x where x: "hl_nodes h p = Some x" using placed_node [OF pl p] by blast
  have "hash_of h p = hm_hasher m ?k" using entry_block [OF e p] by blast
  then have hash: "hn_hash x = hm_hasher m ?k" using x by (simp add: hash_of_def)
  have pin: "p \<in> set (bs ! ?i)" using K(6) [OF p eq] .
  obtain as cs where c: "bs ! ?i = as @ p # cs"
    and s: "link_seek (\<lambda>q. Some (q = p)) (hnext h) (None, hd_or (bs ! ?i) None) = Some (last_or as None, Some p)"
    using link_seek_ok [OF K(4), of "\<lambda>q. Some (q = p)" "\<lambda>q. q = p" None] pin by blast
  have "tda_hmap_remove_node w h m p = cut_node m ?i (last_or as None) p w h"
    using hm_rep_assert [OF r(1)] n x hash K(2,3) s by (simp add: tda_hmap_remove_node_def c_simps)
  then show ?thesis using cut_node_spec [OF w r K(1) c] by auto
qed

end

end
