(* ===== verification/Tda_HMap_Life.thy ===== *)
theory Tda_HMap_Life
  imports Tda_HMap_Ops
begin

text \<open>
  Whole maps: every entry freed, the bucket array given back, resized or asked for, a map made and
  dropped. \<open>without\<close> is a heap, or the links beside it, with some blocks gone.
\<close>

section \<open>Freeing every entry\<close>

definition without :: "(ptr \<Rightarrow> 'x option) \<Rightarrow> ptr set \<Rightarrow> ptr \<Rightarrow> 'x option" where
  "without f D = (\<lambda>q. if q \<in> D then None else f q)"

lemma without_simps [simp]: "without f {} = f" "without (without f D) E = without f (D \<union> E)"
  by (auto simp: without_def)

lemma without_out: "q \<notin> D \<Longrightarrow> without f D q = f q"
  and without_one: "f(p := None) = without f {p}"
  by (auto simp: without_def)

text \<open>\<open>buckets[i] = nullptr\<close> for every \<open>i\<close>.\<close>

lemma empty_slots_ok:
  assumes s: "hm_shape m" and hd: "\<And>b. hm_buckets m = Some b \<Longrightarrow> headed h b bs" and len: "length bs = hm_bucket_count m"
  obtains h2 where "for_loop [0..<hm_bucket_count m] (\<lambda>i h. do { b \<leftarrow> hm_buckets m; slot_set b i None h }) h = Some h2"
    "hl_nodes h2 = hl_nodes h" "\<forall>q. hm_buckets m \<noteq> Some q \<longrightarrow> hl_arrays h2 q = hl_arrays h q"
    "\<forall>b. hm_buckets m = Some b \<longrightarrow> hl_arrays h2 b = Some (replicate (hm_bucket_count m) None)"
proof (cases "hm_buckets m")
  case None
  then have "hm_bucket_count m = 0" using s by (simp add: hm_shape_def)
  then show ?thesis using that [of h] None by simp
next
  case (Some b)
  let ?n = "hm_bucket_count m" and ?xs = "map (\<lambda>c. hd_or c None) bs"
  have xs: "hl_arrays h b = Some ?xs" "length ?xs = ?n" using hd [OF Some] len by (simp_all add: headed_def)
  define Q where "Q i h' \<longleftrightarrow> h' = h\<lparr>hl_arrays := (hl_arrays h)(b \<mapsto> replicate i None @ drop i ?xs)\<rparr>" for i and h' :: hlinks
  have "\<exists>h2. for_loop [0..<?n] (\<lambda>i h. do { b \<leftarrow> hm_buckets m; slot_set b i None h }) h = Some h2 \<and> Q ?n h2"
  proof (rule for_loop_inv)
    have "(hl_arrays h)(b \<mapsto> ?xs) = hl_arrays h" using xs(1) by auto
    then show "Q 0 h" by (simp add: Q_def)
  next
    fix i h' assume i: "i < ?n" and q: "Q i h'"
    have "(replicate i None @ drop i ?xs)[i := None] = replicate (Suc i) None @ drop (Suc i) ?xs"
      using i xs(2) by (simp add: list_update_append Cons_nth_drop_Suc [symmetric] replicate_append_same [symmetric] del: drop_map)
    then show "\<exists>s'. (do { b \<leftarrow> hm_buckets m; slot_set b i None h' }) = Some s' \<and> Q (Suc i) s'"
      using q i xs(2) Some by (simp add: Q_def slot_set_def)
  qed
  then obtain h2 where "for_loop [0..<?n] (\<lambda>i h. do { b \<leftarrow> hm_buckets m; slot_set b i None h }) h = Some h2" "Q ?n h2" by blast
  then show ?thesis using that [of h2] Some xs(2) by (simp add: Q_def)
qed

context node_allocator
begin

lemma free_chain:
  assumes s: "hm_shape m" "hm_al m = al"
  shows "inv w \<Longrightarrow> hchain h ps \<Longrightarrow> distinct ps \<Longrightarrow> (\<forall>p \<in> set ps. owned p \<and> block_at w p (entry_size m)) \<Longrightarrow>
    \<exists>w' h'. node_loop (\<lambda>p (w, h). do { q \<leftarrow> hnext h p; s \<leftarrow> hm_node_drop m p w h; Some (s, q) }) (hd_or ps None) (w, h) = Some (w', h')
      \<and> inv w' \<and> heap w' = without (heap w) (set ps) \<and> hl_nodes h' = without (hl_nodes h) (set ps) \<and> hl_arrays h' = hl_arrays h"
proof (induction ps arbitrary: w h)
  case Nil
  then show ?case by (simp add: node_loop.simps)
next
  case (Cons p ps)
  define h1 where "h1 = h\<lparr>hl_nodes := (hl_nodes h)(p := None)\<rparr>"
  have p: "owned p" "block_at w p (entry_size m)" "p \<notin> set ps" using Cons.prems by simp_all
  obtain w1 where w1: "hm_node_drop m p w h = Some (w1, h1)" "inv w1" "heap w1 = (heap w)(p := None)"
    unfolding h1_def by (rule hm_node_drop_ok [OF Cons.prems(1) s p(1,2), of h])
  have "hchain h1 ps = hchain h ps" by (rule hchain_cong) (use p(3) in \<open>auto simp: h1_def\<close>)
  moreover have "\<forall>q \<in> set ps. owned q \<and> block_at w1 q (entry_size m)"
    using Cons.prems(4) p(3) w1(3) by (auto simp: block_at_def)
  ultimately obtain w2 h2 where r: "node_loop (\<lambda>p (w, h). do { q \<leftarrow> hnext h p; s \<leftarrow> hm_node_drop m p w h; Some (s, q) }) (hd_or ps None) (w1, h1) = Some (w2, h2)"
    "inv w2" "heap w2 = without (heap w1) (set ps)" "hl_nodes h2 = without (hl_nodes h1) (set ps)" "hl_arrays h2 = hl_arrays h1"
    using Cons.IH [OF w1(2), of h1] Cons.prems(2,3) by auto
  have "hnext h p = Some (hd_or ps None)" using Cons.prems(2) by simp
  then have "node_loop (\<lambda>p (w, h). do { q \<leftarrow> hnext h p; s \<leftarrow> hm_node_drop m p w h; Some (s, q) }) (hd_or (p # ps) None) (w, h) = Some (w2, h2)"
    using w1(1) r(1) by (subst node_loop.simps) simp
  then show ?case using r(2-5) w1(3) by (simp add: h1_def without_one)
qed

lemma hm_clear_nodes_spec:
  assumes w: "inv w" and r: "hm_rep owned w h m bs" "hm_al m = al"
  obtains w' h' where "hm_clear_nodes w h m = Some (w', h')" "inv w'" "heap w' = without (heap w) (set (concat bs))"
    "hl_nodes h' = without (hl_nodes h) (set (concat bs))" "hl_arrays h' = hl_arrays h"
proof -
  let ?n = "hm_bucket_count m"
  have s: "hm_shape m" and pl: "placed h ?n bs" and e: "entries_ok owned w h m (set (concat bs))" using r(1) by (simp_all add: hm_rep_def)
  have len: "length bs = ?n" and d: "distinct (concat bs)" using pl by (simp_all add: placed_def)
  define f where "f = (\<lambda>i (w, h). do {
     p \<leftarrow> bucket_get h m i;
     node_loop (\<lambda>p (w, h). do { q \<leftarrow> hnext h p; s \<leftarrow> hm_node_drop m p w h; Some (s, q) }) p (w, h) })"
  define Q where "Q i st \<longleftrightarrow> inv (fst st) \<and> heap (fst st) = without (heap w) (set (concat (take i bs)))
     \<and> hl_nodes (snd st) = without (hl_nodes h) (set (concat (take i bs))) \<and> hl_arrays (snd st) = hl_arrays h" for i and st :: "'a world \<times> hlinks"
  have "\<exists>st. for_loop [0..<?n] f (w, h) = Some st \<and> Q ?n st"
  proof (rule for_loop_inv)
    show "Q 0 (w, h)" using w by (simp add: Q_def)
  next
    fix i st assume i: "i < ?n" and q: "Q i st"
    obtain w1 h1 where st: "st = (w1, h1)" by (cases st)
    have Q1: "inv w1" "heap w1 = without (heap w) (set (concat (take i bs)))"
      "hl_nodes h1 = without (hl_nodes h) (set (concat (take i bs)))" "hl_arrays h1 = hl_arrays h" using q by (simp_all add: Q_def st)
    have t: "take (Suc i) bs = take i bs @ [bs ! i]" using i len by (simp add: take_Suc_conv_app_nth)
    have "distinct (concat (take (Suc i) bs))" using d concat_append [of "take (Suc i) bs" "drop (Suc i) bs"] by simp
    then have dj: "set (bs ! i) \<inter> set (concat (take i bs)) = {}" "distinct (bs ! i)" unfolding t by auto
    have bi: "bs ! i \<in> set bs" using i len by simp
    have "bucket_get h1 m i = bucket_get h m i" using Q1(4) by (simp add: bucket_get_def slot_get_def)
    then have g: "bucket_get h1 m i = Some (hd_or (bs ! i) None)" using bucket_get_ok [OF r(1) i] by simp
    have out: "q \<notin> set (concat (take i bs))" if "q \<in> set (bs ! i)" for q using that dj(1) by blast
    have "hchain h1 (bs ! i) = hchain h (bs ! i)" by (rule hchain_cong) (simp only: Q1(3) without_out [OF out])
    then have ch: "hchain h1 (bs ! i)" using pl bi by (simp add: placed_def)
    have "owned q \<and> block_at w1 q (entry_size m)" if "q \<in> set (bs ! i)" for q
    proof -
      have "q \<in> set (concat bs)" using that bi by auto
      then have "owned q" "block_at w q (entry_size m)" using e by (simp_all add: entries_ok_def del: set_concat)
      then show ?thesis using without_out [OF out [OF that], of "heap w"] by (simp add: block_at_def Q1(2))
    qed
    then obtain w2 h2 where n: "node_loop (\<lambda>p (w, h). do { q \<leftarrow> hnext h p; s \<leftarrow> hm_node_drop m p w h; Some (s, q) }) (hd_or (bs ! i) None) (w1, h1)
        = Some (w2, h2)" "inv w2" "heap w2 = without (heap w1) (set (bs ! i))"
      "hl_nodes h2 = without (hl_nodes h1) (set (bs ! i))" "hl_arrays h2 = hl_arrays h1"
      using free_chain [OF s r(2) Q1(1) ch dj(2)] by blast
    have "Q (Suc i) (w2, h2)" using n(2-5) Q1(2-4) by (simp add: Q_def t)
    then show "\<exists>st'. f i st = Some st' \<and> Q (Suc i) st'" using g n(1) by (simp add: f_def st)
  qed
  then obtain st where st: "for_loop [0..<?n] f (w, h) = Some st" "Q ?n st" by blast
  then have "hm_clear_nodes w h m = Some (fst st, snd st)" by (simp add: hm_clear_nodes_def f_def)
  then show ?thesis using that [of "fst st" "snd st"] st(2) len by (simp add: Q_def)
qed

text \<open>A map without entries, with the array it has or with none.\<close>

lemma empty_rep:
  assumes s: "hm_shape m" and o: "owned (hm_self m)" "block_at w (hm_self m) sizeof_tda_HMap"
    and b: "\<And>b. hm_buckets m = Some b \<Longrightarrow> hl_arrays h b = Some (replicate (hm_bucket_count m) None) \<and> owned b
      \<and> block_at w b (hm_bucket_count m * 8) \<and> b \<noteq> hm_self m"
    and l: "hm_len m = 0"
  shows "hm_rep owned w h m (replicate (hm_bucket_count m) [])" and "hm_map w m (concat (replicate (hm_bucket_count m) [])) = Map.empty"
proof -
  have c: "concat (replicate (hm_bucket_count m) []) = []" by simp
  have "placed h (hm_bucket_count m) (replicate (hm_bucket_count m) [])" by (simp add: placed_def)
  then show "hm_rep owned w h m (replicate (hm_bucket_count m) [])"
    using s o b l by (simp add: hm_rep_def c headed_def entries_ok_def)
  show "hm_map w m (concat (replicate (hm_bucket_count m) [])) = Map.empty" by (simp add: c hm_map_def fun_eq_iff)
qed

lemma hmap_clear_spec:
  assumes w: "inv w" and r: "hm_rep owned w h m bs" "hm_al m = al"
  shows "\<exists>w' h' m' bs'. tda_hmap_clear w h m = Some (w', h', m') \<and> inv w' \<and> hm_did owned w h m bs w' h' m' bs' Map.empty"
proof -
  let ?n = "hm_bucket_count m" and ?m = "m\<lparr>hm_len := 0\<rparr>"
  obtain w1 h1 where c: "hm_clear_nodes w h m = Some (w1, h1)" "inv w1" "heap w1 = without (heap w) (set (concat bs))"
    "hl_nodes h1 = without (hl_nodes h) (set (concat bs))" "hl_arrays h1 = hl_arrays h" by (rule hm_clear_nodes_spec [OF w r])
  have s: "hm_shape m" and self: "owned (hm_self m)" "block_at w (hm_self m) sizeof_tda_HMap" "hm_self m \<notin> set (concat bs)"
    and len: "length bs = ?n"
    and B: "\<And>b. hm_buckets m = Some b \<Longrightarrow> headed h b bs \<and> owned b \<and> block_at w b (?n * 8) \<and> b \<notin> set (concat bs) \<and> b \<noteq> hm_self m"
    using r(1) by (simp_all add: hm_rep_def placed_def)
  have hd: "headed h1 b bs" if "hm_buckets m = Some b" for b using B [OF that] c(5) by (simp add: headed_def)
  obtain h2 where h2: "for_loop [0..<?n] (\<lambda>i h. do { b \<leftarrow> hm_buckets m; slot_set b i None h }) h1 = Some h2"
    "hl_nodes h2 = hl_nodes h1" "\<forall>q. hm_buckets m \<noteq> Some q \<longrightarrow> hl_arrays h2 q = hl_arrays h1 q"
    and arr: "\<forall>b. hm_buckets m = Some b \<longrightarrow> hl_arrays h2 b = Some (replicate ?n None)"
    by (rule empty_slots_ok [OF s hd len])
  have shape: "hm_shape ?m" using s by (auto simp: hm_shape_def entry_size_def)
  have keep: "heap w1 q = heap w q" if "q \<notin> set (concat bs)" for q using that c(3) by (simp add: without_out)
  have rep: "hm_rep owned w1 h2 ?m (replicate ?n [])" and f: "hm_map w1 ?m (concat (replicate ?n [])) = Map.empty"
    using empty_rep [OF shape, of w1 h2] self B arr keep by (simp_all add: block_at_def)
  have bl: "hm_blocks ?m (replicate ?n []) = hm_blocks m bs - set (concat bs)" using self(3) B by (auto simp: hm_blocks_def)
  have "frame w (hm_blocks m bs) w1 (hm_blocks ?m (replicate ?n []))"
    unfolding bl frame_def c(3) without_def by (auto simp: hm_blocks_def)
  moreover have "hlinks_at h2 q = hlinks_at h q" if "q \<notin> hm_blocks m bs" for q
    using that h2(2,3) c(4,5) by (simp add: hlinks_at_def hm_blocks_def without_def)
  ultimately have "hm_did owned w h m bs w1 h2 ?m (replicate ?n []) Map.empty"
    using rep f by (simp add: hm_did_def hm_same_def node_frame_def)
  then show ?thesis
    using c(1,2) h2(1) hm_rep_assert [OF r(1)] hm_rep_assert [OF rep] by (auto simp: tda_hmap_clear_def)
qed


section \<open>The bucket array given back, and the map\<close>

lemma hm_emptied:
  assumes w: "inv w" and r: "hm_rep owned w h m bs" "hm_al m = al"
  obtains w1 h1 w2 h2 where "hm_clear_nodes w h m = Some (w1, h1)" "drop_buckets w1 h1 m = Some (w2, h2)" "inv w2"
    "heap w2 = without (heap w) (hm_blocks m bs - {hm_self m})" "\<forall>q. q \<notin> hm_blocks m bs \<longrightarrow> hlinks_at h2 q = hlinks_at h q"
proof -
  obtain w1 h1 where c: "hm_clear_nodes w h m = Some (w1, h1)" "inv w1" "heap w1 = without (heap w) (set (concat bs))"
    "hl_nodes h1 = without (hl_nodes h) (set (concat bs))" "hl_arrays h1 = hl_arrays h" by (rule hm_clear_nodes_spec [OF w r])
  have s: "hm_shape m" and self: "hm_self m \<notin> set (concat bs)"
    and B: "\<And>b. hm_buckets m = Some b \<Longrightarrow> owned b \<and> block_at w b (hm_bucket_count m * 8) \<and> b \<notin> set (concat bs) \<and> b \<noteq> hm_self m"
    using r(1) by (simp_all add: hm_rep_def)
  have "owned b \<and> block_at w1 b (hm_bucket_count m * 8)" if "hm_buckets m = Some b" for b
    using B [OF that] without_out [of b "set (concat bs)" "heap w"] by (simp add: block_at_def c(3))
  from free_buckets [OF c(2) s this] obtain w2 where w2: "inv w2"
    "tda_dealloc al w1 (hm_buckets m) (size_mul (hm_bucket_count m) sizeof_bucket) = Some w2"
    "heap w2 = (\<lambda>q. if q \<in> set_option (hm_buckets m) then None else heap w1 q)" by auto
  have "hm_self m \<notin> set_option (hm_buckets m)" using B by auto
  then have "hm_blocks m bs - {hm_self m} = set (concat bs) \<union> set_option (hm_buckets m)"
    using self unfolding hm_blocks_def by blast
  moreover have "heap w2 = without (without (heap w) (set (concat bs))) (set_option (hm_buckets m))"
    unfolding w2(3) c(3) by (simp only: without_def)
  ultimately have "heap w2 = without (heap w) (hm_blocks m bs - {hm_self m})" by (simp only: without_simps)
  moreover have "hlinks_at (forget_buckets (hm_buckets m) h1) q = hlinks_at h q" if "q \<notin> hm_blocks m bs" for q
  proof -
    have "q \<notin> set (concat bs)" "hm_buckets m \<noteq> Some q" using that by (auto simp: hm_blocks_def)
    then show ?thesis using c(4,5) by (simp add: hlinks_at_def without_out del: set_concat)
  qed
  ultimately show ?thesis using that [of w1 h1 w2 "forget_buckets (hm_buckets m) h1"] c(1) w2(1,2) r(2) by (simp add: drop_buckets_def)
qed

lemma release_buckets_spec:
  assumes w: "inv w" and r: "hm_rep owned w h m bs" "hm_al m = al"
  shows "\<exists>w' h' m'. release_buckets w h m = Some (w', h', m') \<and> inv w' \<and> hm_did owned w h m bs w' h' m' [] Map.empty"
proof -
  let ?m = "m\<lparr>hm_buckets := None, hm_bucket_count := 0, hm_len := 0\<rparr>"
  obtain w1 h1 w2 h2 where c: "hm_clear_nodes w h m = Some (w1, h1)" "drop_buckets w1 h1 m = Some (w2, h2)" "inv w2"
    "heap w2 = without (heap w) (hm_blocks m bs - {hm_self m})" "\<forall>q. q \<notin> hm_blocks m bs \<longrightarrow> hlinks_at h2 q = hlinks_at h q"
    by (rule hm_emptied [OF w r])
  have self: "owned (hm_self m)" "block_at w2 (hm_self m) sizeof_tda_HMap"
    using r(1) c(4) by (simp_all add: hm_rep_def block_at_def without_def)
  have shape: "hm_shape ?m" using r(1) by (auto simp: hm_rep_def hm_shape_def entry_size_def)
  have rep: "hm_rep owned w2 h2 ?m []" and f: "hm_map w2 ?m [] = Map.empty" using empty_rep [OF shape, of w2 h2] self by simp_all
  have bl: "hm_blocks ?m [] = {hm_self m}" "hm_self m \<in> hm_blocks m bs" by (simp_all add: hm_blocks_def)
  have "frame w (hm_blocks m bs) w2 {hm_self m}" unfolding frame_def c(4) without_def using bl(2) by auto
  then have "hm_did owned w h m bs w2 h2 ?m [] Map.empty"
    using rep f c(5) by (simp add: hm_did_def hm_same_def node_frame_def bl(1))
  then show ?thesis using c(1-3) by (auto simp: release_buckets_def)
qed

lemma hmap_drop_spec:
  assumes w: "inv w" and r: "hm_rep owned w h m bs" "hm_al m = al"
  shows "\<exists>w' h'. tda_hmap_drop w h (Some m) = Some (w', h') \<and> inv w' \<and> heap w' = without (heap w) (hm_blocks m bs)
    \<and> (\<forall>q. q \<notin> hm_blocks m bs \<longrightarrow> hlinks_at h' q = hlinks_at h q)"
proof -
  obtain w1 h1 w2 h2 where c: "hm_clear_nodes w h m = Some (w1, h1)" "drop_buckets w1 h1 m = Some (w2, h2)" "inv w2"
    "heap w2 = without (heap w) (hm_blocks m bs - {hm_self m})" "\<forall>q. q \<notin> hm_blocks m bs \<longrightarrow> hlinks_at h2 q = hlinks_at h q"
    by (rule hm_emptied [OF w r])
  obtain xs where x: "owned (hm_self m)" "heap w2 (hm_self m) = Some xs" "length xs = sizeof_tda_HMap"
    using r(1) c(4) by (auto simp: hm_rep_def block_at_def without_def)
  from dealloc_some [OF c(3) x] obtain w3 where w3: "tda_dealloc al w2 (Some (hm_self m)) sizeof_tda_HMap = Some w3" "inv w3"
    "heap w3 = (heap w2)(hm_self m := None)" .
  have "hm_blocks m bs - {hm_self m} \<union> {hm_self m} = hm_blocks m bs" by (auto simp: hm_blocks_def)
  then have "heap w3 = without (heap w) (hm_blocks m bs)" by (simp add: w3(3) c(4) without_one)
  then show ?thesis using c w3(1,2) hm_rep_assert [OF r(1)] r(2) by (auto simp: tda_hmap_drop_def)
qed

section \<open>Resizing\<close>

lemma hmap_reserve_spec:
  assumes w: "inv w" and r: "hm_rep owned w h m bs" "hm_al m = al"
  shows "\<exists>st w' h' m' bs'. tda_hmap_reserve w h m cap = Some (st, w', h', m') \<and> inv w'
    \<and> hm_did owned w h m bs w' h' m' bs' (hm_map w m (concat bs))
    \<and> (if st = TDA_STATUS_OK then cap \<le> hm_bucket_count m' else heap w' = heap w \<and> h' = h \<and> m' = m)"
proof (cases "cap \<le> hm_bucket_count m")
  case True
  then show ?thesis using hm_did_refl [OF r(1) refl] w hm_rep_assert [OF r(1)] by (auto simp: tda_hmap_reserve_def)
next
  case False
  obtain n where n: "round_up_pow2 cap = Some n" "n = 0 \<or> pow2_size n \<and> cap \<le> n" by (rule round_up_pow2_ok [of cap]) blast
  show ?thesis
  proof (cases "n = 0")
    case True
    then show ?thesis
      using False n(1) hm_did_refl [OF r(1) refl] w hm_rep_assert [OF r(1)] by (auto simp: tda_hmap_reserve_def)
  next
    case n0: False
    then have p: "pow2_size n" "cap \<le> n" using n(2) by simp_all
    obtain st w' h' m' bs' where k: "rehash n w h m = Some (st, w', h', m')" "inv w'"
      "hm_did owned w h m bs w' h' m' bs' (hm_map w m (concat bs))"
      "if st = TDA_STATUS_OK then hm_bucket_count m' = n else heap w' = heap w \<and> h' = h \<and> m' = m"
      using rehash_spec [OF w r p(1)] by blast
    have "tda_hmap_reserve w h m cap = Some (st, w', h', m')"
      using False n(1) n0 k(1) hm_rep_assert [OF r(1)] by (simp add: tda_hmap_reserve_def)
    moreover have "if st = TDA_STATUS_OK then cap \<le> hm_bucket_count m' else heap w' = heap w \<and> h' = h \<and> m' = m"
      using k(4) p(2) by (cases st) simp_all
    ultimately show ?thesis using k(2,3) by blast
  qed
qed

lemma hmap_shrink_spec:
  assumes w: "inv w" and r: "hm_rep owned w h m bs" "hm_al m = al"
  shows "\<exists>st w' h' m' bs'. tda_hmap_shrink_to_fit w h m = Some (st, w', h', m') \<and> inv w'
    \<and> hm_did owned w h m bs w' h' m' bs' (hm_map w m (concat bs)) \<and> hm_bucket_count m' \<le> hm_bucket_count m"
proof (cases "hm_len m = 0")
  case True
  then have e: "concat bs = []" using r(1) by (simp add: hm_rep_def del: concat_eq_Nil_conv)
  obtain w' h' m' where k: "release_buckets w h m = Some (w', h', m')" "inv w'" "hm_did owned w h m bs w' h' m' [] Map.empty"
    using release_buckets_spec [OF w r] by blast
  have rep: "hm_rep owned w' h' m' []" using k(3) by (simp add: hm_did_def)
  then have "hm_bucket_count m' = 0" by (simp add: hm_rep_def placed_def)
  moreover have "hm_map w m (concat bs) = Map.empty" unfolding e by (simp add: hm_map_def fun_eq_iff)
  moreover have "tda_hmap_shrink_to_fit w h m = Some (TDA_STATUS_OK, w', h', m')"
    using True k(1) hm_rep_assert [OF r(1)] hm_rep_assert [OF rep] by (simp add: tda_hmap_shrink_to_fit_def)
  ultimately show ?thesis using k(2,3) by auto
next
  case False
  obtain n where n: "round_up_pow2 (hm_len m) = Some n" "n = 0 \<or> pow2_size n" by (rule round_up_pow2_ok [of "hm_len m"]) blast
  note A = hm_rep_assert [OF r(1)]
  show ?thesis
  proof (cases "n = 0 \<or> hm_bucket_count m \<le> n")
    case True
    then show ?thesis using False n(1) hm_did_refl [OF r(1) refl] w A by (auto simp: tda_hmap_shrink_to_fit_def)
  next
    case n0: False
    then have p: "pow2_size n" using n(2) by simp
    obtain st w' h' m' bs' where k: "rehash n w h m = Some (st, w', h', m')" "inv w'"
      "hm_did owned w h m bs w' h' m' bs' (hm_map w m (concat bs))"
      "if st = TDA_STATUS_OK then hm_bucket_count m' = n else heap w' = heap w \<and> h' = h \<and> m' = m"
      using rehash_spec [OF w r p(1)] by blast
    have "tda_hmap_shrink_to_fit w h m = Some (st, w', h', m')"
      using False n(1) n0 k(1) A by (simp add: tda_hmap_shrink_to_fit_def)
    moreover have "hm_bucket_count m' \<le> hm_bucket_count m" using k(4) n0 by (cases st) auto
    ultimately show ?thesis using k(2,3) by blast
  qed
qed

end

end
