(* ===== verification/Tda_HMap_Copies.thy ===== *)
theory Tda_HMap_Copies
  imports Tda_HMap_Life
begin

text \<open>
  Walking over a map by \<open>tda_hmap_first_node\<close> and \<open>tda_hmap_node_next\<close>, making a map, copying one
  and comparing two. A walk meets every node once, in the order of \<open>concat bs\<close>; a copy inserts
  the entries one by one; a comparison looks every entry of one map up in the other.
\<close>

section \<open>Walking\<close>

lemma first_bucket_ok:
  assumes r: "hm_rep owned w h m bs"
  shows "i \<le> hm_bucket_count m \<Longrightarrow> first_from h m i = Some (hd_or (concat (drop i bs)) None)"
proof (induction "hm_bucket_count m - i" arbitrary: i)
  case 0
  moreover have "length bs = hm_bucket_count m" using r by (simp add: hm_rep_def placed_def)
  ultimately show ?case by (simp add: first_from_def)
next
  case (Suc n)
  then have i: "i < hm_bucket_count m" by simp
  have len: "length bs = hm_bucket_count m" using r by (simp add: hm_rep_def placed_def)
  have u: "[i..<hm_bucket_count m] = i # [Suc i..<hm_bucket_count m]" using i by (simp add: upt_conv_Cons)
  have d: "concat (drop i bs) = bs ! i @ concat (drop (Suc i) bs)" using i len by (simp add: Cons_nth_drop_Suc [symmetric])
  have "first_from h m (Suc i) = Some (hd_or (concat (drop (Suc i) bs)) None)" by (rule Suc.hyps(1)) (use Suc.hyps(2) i in simp_all)
  then show ?case
    using bucket_get_ok [OF r i] unfolding d by (cases "bs ! i") (simp_all add: first_from_def u)
qed

lemma node_next_ok:
  assumes r: "hm_rep owned w h m bs" and c: "concat bs = as @ p # cs"
  shows "tda_hmap_node_next h m p = Some (hd_or cs None)"
proof -
  have pl: "placed h (hm_bucket_count m) bs" using r by (simp add: hm_rep_def)
  have p: "p \<in> set (concat bs)" unfolding c by simp
  obtain x where x: "hl_nodes h p = Some x" using placed_node [OF pl p] by blast
  let ?i = "hash_slot (hm_bucket_count m) (hash_of h p)"
  have i: "?i < hm_bucket_count m" "p \<in> set (bs ! ?i)" using placed_slot [OF pl p] by simp_all
  have hash: "hash_of h p = hn_hash x" using x by (simp add: hash_of_def)
  have len: "?i < length bs" using pl i(1) by (simp add: placed_def)
  obtain as' cs' where s: "bs ! ?i = as' @ p # cs'" using i(2) by (meson split_list)
  have "hchain h (bs ! ?i)" using pl len by (simp add: placed_def)
  then have "hn_next x = hd_or cs' None" using hchain_append [of h as' p cs'] x s by (simp add: hnext_def)
  have "concat bs = concat (take ?i bs) @ bs ! ?i @ concat (drop (Suc ?i) bs)"
    using id_take_nth_drop [OF len] by (metis append.assoc concat.simps(2) concat_append)
  then have e: "as @ p # cs = (concat (take ?i bs) @ as') @ p # (cs' @ concat (drop (Suc ?i) bs))" using c s by simp
  have "distinct (as @ p # cs)" using pl unfolding placed_def c [symmetric] by simp
  then have "p \<notin> set as" "p \<notin> set cs" by simp_all
  with e have "cs = cs' @ concat (drop (Suc ?i) bs)" by (simp only: append_Cons_eq_iff simp_thms)
  moreover have "first_from h m (Suc ?i) = Some (hd_or (concat (drop (Suc ?i) bs)) None)"
    by (rule first_bucket_ok [OF r]) (use i(1) in simp)
  moreover have "bucket_of m (hn_hash x) = Some ?i" using i(1) hash by (simp add: bucket_of_def c_simps)
  ultimately show ?thesis
    using x \<open>hn_next x = _\<close> hm_rep_assert [OF r] by (cases cs') (simp_all add: tda_hmap_node_next_def)
qed

lemma first_node_ok: "hm_rep owned w h m bs \<Longrightarrow> tda_hmap_first_node h m = Some (hd_or (concat bs) None)"
  using first_bucket_ok [of owned w h m bs 0] hm_rep_assert [of owned w h m bs] by (simp add: tda_hmap_first_node_def)

section \<open>Making a map\<close>

definition hm_like :: "'s hmap \<Rightarrow> 's hmap \<Rightarrow> bool" where
  "hm_like m' m \<longleftrightarrow> hm_key_size m' = hm_key_size m \<and> hm_val_size m' = hm_val_size m \<and> hm_val_offset m' = hm_val_offset m
     \<and> hm_hasher m' = hm_hasher m \<and> hm_eq m' = hm_eq m"

text \<open>A new map: nothing that was there has changed, and the map stands for \<open>f\<close>.\<close>

definition hm_made ::
  "(ptr \<Rightarrow> bool) \<Rightarrow> 's al \<Rightarrow> 's world \<Rightarrow> hlinks \<Rightarrow> 's world \<Rightarrow> hlinks \<Rightarrow> 's hmap \<Rightarrow> ptr list list \<Rightarrow> (byte list \<Rightarrow> byte list option) \<Rightarrow> bool"
where
  "hm_made owned al w h w' h' m bs f \<longleftrightarrow> hm_rep owned w' h' m bs \<and> hm_al m = al
     \<and> hm_frame w h {} w' h' (hm_blocks m bs) \<and> hm_map w' m (concat bs) = f"

lemma hm_made_did:
  assumes "hm_made owned al w h w1 h1 m bs f" "hm_did owned w1 h1 m bs w2 h2 m2 bs2 g"
  shows "hm_made owned al w h w2 h2 m2 bs2 g"
  using assms node_frame_trans unfolding hm_made_def hm_did_def hm_same_def by metis

lemma hm_made_old:
  assumes "hm_made owned al w h w' h' m bs f" "heap w q \<noteq> None"
  shows "heap w' q = heap w q \<and> hl_nodes h' q = hl_nodes h q \<and> hl_arrays h' q = hl_arrays h q \<and> q \<notin> hm_blocks m bs"
  using assms by (auto simp: hm_made_def node_frame_def frame_def hlinks_at_def)

text \<open>A map that was there before is as it was.\<close>

lemma hm_made_keeps:
  assumes n: "hm_made owned al w h w' h' m bs f" and r: "hm_rep owned' w h m0 bs0"
  shows "hm_rep owned' w' h' m0 bs0" and "\<And>p. p \<in> set (concat bs0) \<Longrightarrow> hm_key w' m0 p = hm_key w m0 p \<and> hm_val w' m0 p = hm_val w m0 p"
proof -
  have k: "heap w' q = heap w q \<and> hl_nodes h' q = hl_nodes h q \<and> hl_arrays h' q = hl_arrays h q" if "q \<in> hm_blocks m0 bs0" for q
    using hm_made_old [OF n, of q] hm_rep_live [OF r that] by simp
  show "hm_rep owned' w' h' m0 bs0" by (rule hm_rep_stable(1) [OF r]) (use k in blast)+
  fix p assume "p \<in> set (concat bs0)"
  then have "heap w' p = heap w p" using k [of p] by (simp add: hm_blocks_def)
  then show "hm_key w' m0 p = hm_key w m0 p \<and> hm_val w' m0 p = hm_val w m0 p" by (rule entry_cong)
qed

context node_allocator
begin

lemma hm_made_drop:
  assumes w: "inv w'" and n: "hm_made owned al w h w' h' m bs f"
  shows "\<exists>w2 h2. tda_hmap_drop w' h' (Some m) = Some (w2, h2) \<and> inv w2 \<and> heap w2 = heap w \<and> hm_frame w h {} w2 h2 {}"
proof -
  have r: "hm_rep owned w' h' m bs" "hm_al m = al" and fr: "frame w {} w' (hm_blocks m bs)"
    and l: "\<And>q. heap w q \<noteq> None \<Longrightarrow> hlinks_at h' q = hlinks_at h q \<and> q \<notin> hm_blocks m bs"
    using n by (auto simp: hm_made_def node_frame_def frame_def)
  obtain w2 h2 where d: "tda_hmap_drop w' h' (Some m) = Some (w2, h2)" "inv w2" "heap w2 = without (heap w') (hm_blocks m bs)"
    "\<forall>q. q \<notin> hm_blocks m bs \<longrightarrow> hlinks_at h2 q = hlinks_at h' q" using hmap_drop_spec [OF w r] by blast
  have "without (heap w') (hm_blocks m bs) = heap w" using fr by (auto simp: frame_def without_def)
  then have "heap w2 = heap w" using d(3) by simp
  moreover have "hlinks_at h2 q = hlinks_at h q" if "heap w q \<noteq> None" for q using l [OF that] d(4) by simp
  ultimately have "hm_frame w h {} w2 h2 {}" by (simp add: node_frame_def frame_refl)
  then show ?thesis using d(1,2) \<open>heap w2 = heap w\<close> by blast
qed

lemma hmap_new_raw_spec:
  assumes w: "inv w" and ks: "0 < ks" and vo: "(if vs = 0 then Some ks else tda_align_up ks 16) = Some vo"
    and sz: "ks \<le> vo" "16 + vo + vs \<le> SIZE_MAX" and ag: "agree hash eq"
  shows "\<exists>st r w' h'. tda_hmap_new_raw cap ks vs hash eq al w h = Some (st, r, w', h') \<and> inv w'
    \<and> (case r of None \<Rightarrow> st = TDA_STATUS_ERR_NO_MEM \<and> heap w' = heap w \<and> h' = h
       | Some m \<Rightarrow> st = TDA_STATUS_OK \<and> (\<exists>bs. hm_made owned al w h w' h' m bs Map.empty)
           \<and> hm_key_size m = ks \<and> hm_val_size m = vs \<and> hm_val_offset m = vo \<and> hm_hasher m = hash \<and> hm_eq m = eq)"
proof (rule alloc_cases [OF w, of sizeof_tda_HMap])
  show "sizeof_tda_HMap \<le> SIZE_MAX" by (simp add: sizeof_tda_HMap_def SIZE_MAX_def)
next
  fix w1 assume "tda_alloc al w sizeof_tda_HMap = Some (None, w1)" "inv w1" "heap w1 = heap w"
  then show ?thesis using ks sz vo by (simp add: tda_hmap_new_raw_def ckd_add_def c_simps)
next
  fix p w1 xs assume a: "tda_alloc al w sizeof_tda_HMap = Some (Some p, w1)" "inv w1" "owned p" "heap w p = None"
    "length xs = sizeof_tda_HMap" "heap w1 = (heap w)(p \<mapsto> xs)"
  define m where "m = \<lparr>hm_self = p, hm_buckets = None, hm_bucket_count = 0, hm_len = 0, hm_key_size = ks,
    hm_val_size = vs, hm_val_offset = vo, hm_hasher = hash, hm_eq = eq, hm_al = al\<rparr>"
  have m: "hm_self m = p" "hm_buckets m = None" "hm_bucket_count m = 0" "hm_len m = 0" "hm_key_size m = ks" "hm_val_size m = vs"
    "hm_val_offset m = vo" "hm_hasher m = hash" "hm_eq m = eq" "hm_al m = al" by (simp_all add: m_def)
  have shape: "hm_shape m" using ks sz ag vo by (auto simp: hm_shape_def entry_size_def m)
  have rep: "hm_rep owned w1 h m []" and f: "hm_map w1 m [] = Map.empty"
    using empty_rep [OF shape, of w1 h] a(3,5,6) by (simp_all add: m block_at_def)
  have "hm_blocks m [] = insert p {}" by (simp add: hm_blocks_def m)
  then have "hm_frame w h {} w1 h (hm_blocks m [])"
    unfolding node_frame_def using frame_acquire [OF a(4,6)] by simp
  then have made: "hm_made owned al w h w1 h m [] Map.empty" using rep f m(10) by (simp add: hm_made_def)
  have start: "tda_hmap_new_raw cap ks vs hash eq al w h = do {
      (st, w2, h2, m2) \<leftarrow> (if cap > 0 then tda_hmap_reserve w1 h m cap else Some (TDA_STATUS_OK, w1, h, m));
      if TDA_STATUS_IS_ERR st then do { w3 \<leftarrow> tda_dealloc al w2 (Some p) sizeof_tda_HMap; Some (st, None, w3, h2) }
      else do { ASSERT_HMAP m2; Some (TDA_STATUS_OK, Some m2, w2, h2) } }"
    using ks sz vo a(1) by (simp add: tda_hmap_new_raw_def ckd_add_def c_simps m_def Let_def)
  obtain st w2 h2 m2 bs2 where r: "(if cap > 0 then tda_hmap_reserve w1 h m cap else Some (TDA_STATUS_OK, w1, h, m)) = Some (st, w2, h2, m2)"
    "inv w2" "hm_did owned w1 h m [] w2 h2 m2 bs2 Map.empty" "st \<noteq> TDA_STATUS_OK \<longrightarrow> heap w2 = heap w1 \<and> h2 = h"
  proof (cases "cap > 0")
    case True
    then show ?thesis using hmap_reserve_spec [OF a(2) rep m(10), of cap] that f by (auto split: if_splits)
  next
    case False
    then show ?thesis using that [of TDA_STATUS_OK w1 h m "[]"] hm_did_refl [OF rep refl] a(2) f by simp
  qed
  show ?thesis
  proof (cases st)
    case TDA_STATUS_OK
    have r2: "hm_rep owned w2 h2 m2 bs2" "hm_same m2 m" using r(3) by (simp_all add: hm_did_def)
    show ?thesis
      unfolding start r(1) using TDA_STATUS_OK r(2) hm_made_did [OF made r(3)] r2(2) hm_rep_assert [OF r2(1)]
      by (auto simp: TDA_STATUS_IS_ERR_def hm_same_def m)
  next
    case TDA_STATUS_ERR_NO_MEM
    then have "heap w2 p = Some xs" "heap w2 = (heap w)(p \<mapsto> xs)" and h2: "h2 = h" using r(4) a(6) by simp_all
    from dealloc_some [OF r(2) a(3) this(1) a(5)] this(2) obtain w3 where
      "tda_dealloc al w2 (Some p) sizeof_tda_HMap = Some w3" "inv w3" "heap w3 = ((heap w)(p \<mapsto> xs))(p := None)" by metis
    moreover have "((heap w)(p \<mapsto> xs))(p := None) = heap w" using a(4) by auto
    ultimately show ?thesis unfolding start r(1) using TDA_STATUS_ERR_NO_MEM h2 by (simp add: TDA_STATUS_IS_ERR_def)
  qed
qed

end


section \<open>Copying\<close>

lemma hm_map_snoc:
  assumes e: "entries_ok owned w h m (set ps)" and a: "agree (hm_hasher m) (hm_eq m)" and c: "ps = as @ p # cs" and d: "distinct ps"
  shows "hm_map w m as (hm_key w m p) = None"
    and "hm_map w m (as @ [p]) = map_put (hm_eq m) (hm_key w m p) (hm_val w m p) (hm_map w m as)"
proof -
  have sub: "set (as @ [p]) \<subseteq> set ps" using c by auto
  have "\<not> hm_eq m (hm_key w m q) (hm_key w m p)" if "q \<in> set as" for q using that e c d by (auto simp: entries_ok_def)
  then show "hm_map w m as (hm_key w m p) = None" by (simp add: hm_map_none)
  have "entries_ok owned w h m (insert p (set as))" by (rule entries_ok_subset [OF e]) (use sub in auto)
  from hm_map_insert [OF this a, of "as @ [p]"] show "hm_map w m (as @ [p]) = map_put (hm_eq m) (hm_key w m p) (hm_val w m p) (hm_map w m as)"
    by (simp add: map_put_def)
qed

context node_allocator
begin

lemma insert_entry_of_ok:
  assumes w: "inv w1" and r: "hm_rep owned0 w h m bs" and n: "hm_made owned al w h w1 h1 c bs1 (hm_map w m as)"
    and k: "hm_like c m" and s: "concat bs = as @ p # cs"
  shows "\<exists>st w2 h2 c2 bs2. insert_entry_of m p (w1, h1, c) = Some (st, (w2, h2, c2), hd_or cs None) \<and> inv w2
    \<and> hm_made owned al w h w2 h2 c2 bs2 (if st = TDA_STATUS_OK then hm_map w m (as @ [p]) else hm_map w m as) \<and> hm_like c2 m"
proof -
  have p: "p \<in> set (concat bs)" unfolding s by simp
  have m: "hm_shape m" "entries_ok owned0 w h m (set (concat bs))" using r by (simp_all add: hm_rep_def)
  then have m': "agree (hm_hasher m) (hm_eq m)" "distinct (concat bs)" using r by (simp_all add: hm_rep_def hm_shape_def placed_def)
  have r1: "hm_rep owned0 w1 h1 m bs" and kv: "hm_key w1 m p = hm_key w m p" "hm_val w1 m p = hm_val w m p"
    using hm_made_keeps [OF n r] p by simp_all
  have e1: "entries_ok owned0 w1 h1 m (set (concat bs))" using r1 by (simp add: hm_rep_def)
  note b = entry_bytes [OF m(1) e1 p, unfolded kv]
  have c: "hm_rep owned w1 h1 c bs1" "hm_al c = al" "hm_map w1 c (concat bs1) = hm_map w m as" using n by (simp_all add: hm_made_def)
  define v where "v = (if hm_val_size m > 0 then Some (hm_val w m p) else None)"
  have v: "val_of v = hm_val w m p" using b(4) by (auto simp: v_def val_of_def)
  have "entry_args c (hm_key w m p) v" using b(3,4) k v by (simp add: entry_args_def hm_like_def)
  from hmap_insert_spec [OF w c(1,2) this] obtain st new w2 h2 c2 bs2 where
    i: "tda_hmap_insert w1 h1 c (hm_key w m p) v = Some (st, new, w2, h2, c2)" "inv w2"
      "hm_did owned w1 h1 c bs1 w2 h2 c2 bs2
        (if st = TDA_STATUS_OK then map_put (hm_eq c) (hm_key w m p) (val_of v) (hm_map w m as) else hm_map w m as)" unfolding c(3) by blast
  have eq: "hm_eq c = hm_eq m" using k by (simp add: hm_like_def)
  have made: "hm_made owned al w h w2 h2 c2 bs2 (if st = TDA_STATUS_OK then hm_map w m (as @ [p]) else hm_map w m as)"
    using hm_made_did [OF n i(3)] unfolding v eq hm_map_snoc(2) [OF m(2) m'(1) s m'(2)] .
  have "hm_like c2 m" using i(3) k by (simp add: hm_did_def hm_same_def hm_like_def)
  moreover have "tda_hmap_node_next h2 m p = Some (hd_or cs None)" by (rule node_next_ok [OF hm_made_keeps(1) [OF made r] s])
  moreover have "(if hm_val_size m > 0 then do { v \<leftarrow> val_bytes w1 m p; Some (Some v) } else Some None) = Some v" using b(2) by (simp add: v_def)
  ultimately show ?thesis using i(1,2) made b(1) unfolding insert_entry_of_def by (auto simp del: set_concat)
qed

lemma hmap_copy_with_spec:
  assumes w: "inv w" and r: "hm_rep owned0 w h m bs"
  shows "\<exists>st res w' h'. tda_hmap_copy_with w h m al = Some (st, res, w', h') \<and> inv w'
    \<and> (case res of None \<Rightarrow> st = TDA_STATUS_ERR_NO_MEM \<and> heap w' = heap w \<and> hm_frame w h {} w' h' {}
       | Some c \<Rightarrow> st = TDA_STATUS_OK \<and> hm_like c m \<and> (\<exists>cs. hm_made owned al w h w' h' c cs (hm_map w m (concat bs))))"
proof -
  have m: "hm_shape m" and A: "ASSERT_HMAP m = Some ()" using r hm_rep_assert [OF r] by (simp_all add: hm_rep_def)
  have ks: "0 < hm_key_size m" "(if hm_val_size m = 0 then Some (hm_key_size m) else tda_align_up (hm_key_size m) 16) = Some (hm_val_offset m)"
    "hm_key_size m \<le> hm_val_offset m" "16 + hm_val_offset m + hm_val_size m \<le> SIZE_MAX" "agree (hm_hasher m) (hm_eq m)"
    using m by (simp_all only: hm_shape_def entry_size_def)
  obtain st res w1 h1 where n: "tda_hmap_new_raw (hm_len m) (hm_key_size m) (hm_val_size m) (hm_hasher m) (hm_eq m) al w h = Some (st, res, w1, h1)"
    "inv w1" "case res of None \<Rightarrow> st = TDA_STATUS_ERR_NO_MEM \<and> heap w1 = heap w \<and> h1 = h
       | Some c \<Rightarrow> st = TDA_STATUS_OK \<and> (\<exists>bs. hm_made owned al w h w1 h1 c bs Map.empty)
           \<and> hm_key_size c = hm_key_size m \<and> hm_val_size c = hm_val_size m \<and> hm_val_offset c = hm_val_offset m \<and> hm_hasher c = hm_hasher m \<and> hm_eq c = hm_eq m"
    using hmap_new_raw_spec [OF w ks, of "hm_len m" h] by blast
  show ?thesis
  proof (cases res)
    case None
    then show ?thesis using n A node_frame_refl [of w1 w "hlinks_at h" "{}"] by (simp add: tda_hmap_copy_with_def)
  next
    case (Some c)
    then obtain bs1 where c: "hm_made owned al w h w1 h1 c bs1 Map.empty" "hm_like c m" using n(3) by (auto simp: hm_like_def)
    define Q where "Q rest s \<longleftrightarrow> inv (fst s) \<and> (\<exists>as bs'. concat bs = as @ rest
      \<and> hm_made owned al w h (fst s) (fst (snd s)) (snd (snd s)) bs' (hm_map w m as)) \<and> hm_like (snd (snd s)) m" for rest s
    define E where "E s \<longleftrightarrow> inv (fst s) \<and> (\<exists>bs' f. hm_made owned al w h (fst s) (fst (snd s)) (snd (snd s)) bs' f)" for s
    have "\<exists>st s' nxt. insert_entry_of m p s = Some (st, s', nxt) \<and> (if st = TDA_STATUS_OK then nxt = hd_or rest None \<and> Q rest s' else E s')"
      if q: "Q (p # rest) s" for p rest s
    proof -
      obtain w2 h2 c2 where s: "s = (w2, h2, c2)" by (cases s)
      obtain as bs' where a: "concat bs = as @ p # rest" "hm_made owned al w h w2 h2 c2 bs' (hm_map w m as)" "inv w2" "hm_like c2 m"
        using q by (auto simp: Q_def s)
      obtain st w3 h3 c3 bs3 where i: "insert_entry_of m p s = Some (st, (w3, h3, c3), hd_or rest None)" "inv w3" "hm_like c3 m"
        "hm_made owned al w h w3 h3 c3 bs3 (if st = TDA_STATUS_OK then hm_map w m (as @ [p]) else hm_map w m as)"
        using insert_entry_of_ok [OF a(3) r a(2,4,1)] unfolding s by blast
      have "if st = TDA_STATUS_OK then Q rest (w3, h3, c3) else E (w3, h3, c3)"
      proof (cases st)
        case TDA_STATUS_OK
        have "concat bs = (as @ [p]) @ rest" using a(1) by simp
        then show ?thesis using TDA_STATUS_OK i(2-4) unfolding Q_def fst_conv snd_conv by auto
      next
        case TDA_STATUS_ERR_NO_MEM
        then show ?thesis using i(2,4) by (auto simp: E_def)
      qed
      then show ?thesis using i(1) by auto
    qed
    moreover have "hm_map w m [] = Map.empty" by (simp add: hm_map_def fun_eq_iff)
    then have "Q (concat bs) (w1, h1, c)" using c n(2) by (auto simp: Q_def)
    ultimately obtain st2 s2 where t: "node_try (insert_entry_of m) (hd_or (concat bs) None) (w1, h1, c) = Some (st2, s2)"
      "if st2 = TDA_STATUS_OK then Q [] s2 else E s2"
      using node_try_rule [where Q = Q and E = E and step = "insert_entry_of m" and ps = "concat bs" and st = "(w1, h1, c)"] by blast
    have f: "first_from h1 m 0 = Some (hd_or (concat bs) None)" using first_bucket_ok [OF hm_made_keeps(1) [OF c(1) r], of 0] by simp
    obtain w2 h2 c2 where s2: "s2 = (w2, h2, c2)" by (cases s2)
    show ?thesis
    proof (cases st2)
      case TDA_STATUS_OK
      then have "tda_hmap_copy_with w h m al = Some (TDA_STATUS_OK, Some c2, w2, h2)"
        using A n(1) Some f t(1) by (simp add: tda_hmap_copy_with_def TDA_STATUS_IS_ERR_def s2)
      then show ?thesis using t(2) TDA_STATUS_OK by (auto simp: Q_def s2)
    next
      case TDA_STATUS_ERR_NO_MEM
      then obtain bs' g where e: "inv w2" "hm_made owned al w h w2 h2 c2 bs' g" using t(2) by (auto simp: E_def s2)
      from hm_made_drop [OF this] obtain w3 h3 where "tda_hmap_drop w2 h2 (Some c2) = Some (w3, h3)" "inv w3" "heap w3 = heap w"
        "hm_frame w h {} w3 h3 {}" by blast
      then show ?thesis
        using A n(1) Some f t(1) TDA_STATUS_ERR_NO_MEM by (simp add: tda_hmap_copy_with_def TDA_STATUS_IS_ERR_def s2)
    qed
  qed
qed

end


section \<open>Comparing\<close>

text \<open>Every key of \<open>ps\<close> has its own entry among \<open>qs\<close>, so there are no more of the ones than of the others.\<close>

lemma keys_into:
  assumes ea: "entries_ok oa w h a (set ps)" and d: "distinct ps" "distinct qs"
    and ag: "agree (hm_hasher b) (hm_eq b)" and eq: "hm_eq a = hm_eq b"
    and k: "\<And>p. p \<in> set ps \<Longrightarrow> hm_map w b qs (hm_key w a p) \<noteq> None"
  obtains g where "g ` set ps \<subseteq> set qs" "inj_on g (set ps)" "\<And>p. p \<in> set ps \<Longrightarrow> hm_eq b (hm_key w b (g p)) (hm_key w a p)"
proof -
  have "\<forall>p \<in> set ps. \<exists>q. q \<in> set qs \<and> hm_eq b (hm_key w b q) (hm_key w a p)" using k by (auto simp: hm_map_none_iff)
  then obtain g where g: "\<forall>p \<in> set ps. g p \<in> set qs \<and> hm_eq b (hm_key w b (g p)) (hm_key w a p)" by metis
  have "p = p'" if "p \<in> set ps" "p' \<in> set ps" "g p = g p'" for p p'
  proof -
    have "hm_eq b (hm_key w a p) (hm_key w a p')" using g that agree_sym [OF ag] agree_trans [OF ag] by metis
    then show ?thesis using ea that(1,2) eq by (simp add: entries_ok_def)
  qed
  then have "inj_on g (set ps)" by (auto simp: inj_on_def)
  then show ?thesis using that g by blast
qed

lemma hm_map_eq_key: "agree (hm_hasher m) (hm_eq m) \<Longrightarrow> hm_eq m x y \<Longrightarrow> hm_map w m ps x = hm_map w m ps y"
proof -
  assume "agree (hm_hasher m) (hm_eq m)" "hm_eq m x y"
  then have "hm_eq m k x = hm_eq m k y" for k using agree_sym agree_trans by blast
  then show ?thesis by (simp add: hm_map_def)
qed

lemma maps_equal_iff:
  assumes ea: "entries_ok oa w h a (set ps)" and eb: "entries_ok ob w h b (set qs)" and d: "distinct ps" "distinct qs"
    and ag: "agree (hm_hasher a) (hm_eq a)" "agree (hm_hasher b) (hm_eq b)" and eq: "hm_eq a = hm_eq b"
  shows "length ps = length qs \<and> (\<forall>p \<in> set ps. hm_map w b qs (hm_key w a p) = Some (hm_val w a p)) \<longleftrightarrow> hm_map w a ps = hm_map w b qs"
proof
  assume "length ps = length qs \<and> (\<forall>p \<in> set ps. hm_map w b qs (hm_key w a p) = Some (hm_val w a p))"
  then have l: "length ps = length qs" and v: "\<And>p. p \<in> set ps \<Longrightarrow> hm_map w b qs (hm_key w a p) = Some (hm_val w a p)" by simp_all
  obtain g where g: "g ` set ps \<subseteq> set qs" "inj_on g (set ps)" "\<And>p. p \<in> set ps \<Longrightarrow> hm_eq b (hm_key w b (g p)) (hm_key w a p)"
    by (rule keys_into [OF ea d ag(2) eq]) (use v in auto)
  have "card (g ` set ps) = card (set qs)" using g(2) l d by (simp add: card_image distinct_card)
  then have sur: "g ` set ps = set qs" using g(1) by (simp add: card_subset_eq)
  show "hm_map w a ps = hm_map w b qs"
  proof
    fix k
    show "hm_map w a ps k = hm_map w b qs k"
    proof (cases "\<exists>p \<in> set ps. hm_eq a (hm_key w a p) k")
      case True
      then obtain p where p: "p \<in> set ps" "hm_eq a (hm_key w a p) k" by blast
      then have "hm_eq b (hm_key w a p) k" using eq by simp
      from hm_map_eq_key [OF ag(2) this] have "hm_map w b qs k = Some (hm_val w a p)" using v [OF p(1)] by (simp only:)
      then show ?thesis using hm_map_at [OF ea ag(1) p] by (simp only:)
    next
      case False
      have "\<not> hm_eq b (hm_key w b q) k" if "q \<in> set qs" for q
      proof
        assume q: "hm_eq b (hm_key w b q) k"
        have "q \<in> g ` set ps" unfolding sur by (rule that)
        then obtain p where p: "p \<in> set ps" "q = g p" by blast
        have "hm_eq b (hm_key w a p) (hm_key w b q)" using g(3) [OF p(1)] unfolding p(2) agree_sym [OF ag(2), of "hm_key w a p"] .
        from agree_trans [OF ag(2) this q] have "hm_eq a (hm_key w a p) k" using eq by simp
        then show False using False p(1) by blast
      qed
      then show ?thesis using False by (simp add: hm_map_none)
    qed
  qed
next
  assume m: "hm_map w a ps = hm_map w b qs"
  have va: "hm_map w a ps (hm_key w a p) = Some (hm_val w a p)" if "p \<in> set ps" for p
    by (rule hm_map_at [OF ea ag(1) that agree_refl [OF ag(1)]])
  have vb: "hm_map w b qs (hm_key w b q) = Some (hm_val w b q)" if "q \<in> set qs" for q
    by (rule hm_map_at [OF eb ag(2) that agree_refl [OF ag(2)]])
  obtain f where "f ` set ps \<subseteq> set qs" "inj_on f (set ps)" by (rule keys_into [OF ea d ag(2) eq]) (use va m in auto)
  moreover obtain g where "g ` set qs \<subseteq> set ps" "inj_on g (set qs)" by (rule keys_into [OF eb d(2,1) ag(1) eq [symmetric]]) (use vb m in auto)
  ultimately have "card (set ps) = card (set qs)" by (meson List.finite_set card_inj_on_le le_antisym)
  then show "length ps = length qs \<and> (\<forall>p \<in> set ps. hm_map w b qs (hm_key w a p) = Some (hm_val w a p))"
    using d va m by (simp add: distinct_card)
qed

lemma entry_in_ok:
  assumes a: "hm_rep oa w h a as" and b: "hm_rep ob w h b bs" and v: "hm_val_size a = hm_val_size b" and p: "p \<in> set (concat as)"
  shows "entry_in w h a b None p = Some (hm_map w b (concat bs) (hm_key w a p) = Some (hm_val w a p))"
proof -
  have sa: "hm_shape a" "entries_ok oa w h a (set (concat as))" and sb: "hm_shape b" "entries_ok ob w h b (set (concat bs))"
    using a b by (simp_all add: hm_rep_def)
  note ra = entry_bytes(1,2) [OF sa p]
  show ?thesis
  proof (rule hm_find_cases [OF b, of "hm_key w a p"])
    assume "hm_find_node w h b (hm_key w a p) (hm_hasher b (hm_key w a p)) = Some None" "hm_map w b (concat bs) (hm_key w a p) = None"
    then show ?thesis using ra by (simp add: entry_in_def)
  next
    fix q assume q: "hm_find_node w h b (hm_key w a p) (hm_hasher b (hm_key w a p)) = Some (Some q)" "q \<in> set (concat bs)"
      "hm_map w b (concat bs) (hm_key w a p) = Some (hm_val w b q)"
    have "(do { (r, off) \<leftarrow> hm_node_val b q; mem_read w r off (hm_val_size a) }) = Some (hm_val w b q)"
      using entry_bytes(2) [OF sb q(2)] by (simp add: val_bytes_def v)
    then obtain r off where "hm_node_val b q = Some (r, off)" "mem_read w r off (hm_val_size a) = Some (hm_val w b q)"
      by (auto simp: bind_eq_Some_conv)
    then show ?thesis using ra q(1,3) by (auto simp: entry_in_def)
  qed
qed

lemma range_all_ok: "(\<And>i. i \<in> set is \<Longrightarrow> f i = Some (P i)) \<Longrightarrow> range_all is f = Some (\<forall>i \<in> set is. P i)"
  by (induction "is") auto

lemma hmap_eq_spec:
  assumes a: "hm_rep oa w h a as" and b: "hm_rep ob w h b bs" and s: "hm_key_size a = hm_key_size b" "hm_val_size a = hm_val_size b"
    and eq: "hm_eq a = hm_eq b" and ne: "hm_self a \<noteq> hm_self b"
  shows "tda_hmap_eq w h a b = Some (hm_map w a (concat as) = hm_map w b (concat bs))"
proof -
  let ?n = "hm_bucket_count a" and ?P = "\<lambda>p. hm_map w b (concat bs) (hm_key w a p) = Some (hm_val w a p)"
  have pa: "placed h ?n as" "hm_len a = length (concat as)" "entries_ok oa w h a (set (concat as))" "agree (hm_hasher a) (hm_eq a)"
    and pb: "placed h (hm_bucket_count b) bs" "hm_len b = length (concat bs)" "entries_ok ob w h b (set (concat bs))" "agree (hm_hasher b) (hm_eq b)"
    using a b unfolding hm_rep_def hm_shape_def by blast+
  have d: "distinct (concat as)" "distinct (concat bs)" "length as = ?n" using pa(1) pb(1) by (simp_all add: placed_def)
  have "(do { p \<leftarrow> bucket_get h a i; node_all (entry_in w h a b None) (hnext h) p }) = Some (\<forall>p \<in> set (as ! i). ?P p)" if "i \<in> set [0..<?n]" for i
  proof -
    have i: "i < ?n" using that by simp
    then have mem: "as ! i \<in> set as" using d(3) by simp
    then have "hchain h (as ! i)" using pa(1) by (simp add: placed_def)
    then have "node_all (entry_in w h a b None) (hnext h) (hd_or (as ! i) None) = Some (\<forall>p \<in> set (as ! i). ?P p)"
      by (rule node_all_ok) (rule entry_in_ok [OF a b s(2)], use mem in auto)
    then show ?thesis using bucket_get_ok [OF a i] by simp
  qed
  from range_all_ok [OF this] have "range_all [0..<?n] (\<lambda>i. do { p \<leftarrow> bucket_get h a i; node_all (entry_in w h a b None) (hnext h) p })
      = Some (\<forall>i \<in> set [0..<?n]. \<forall>p \<in> set (as ! i). ?P p)" .
  moreover have "(\<forall>i \<in> set [0..<?n]. \<forall>p \<in> set (as ! i). ?P p) \<longleftrightarrow> (\<forall>p \<in> set (concat as). ?P p)"
    using d(3) by (fastforce simp: in_set_conv_nth)
  ultimately have "eq_impl w h a b None = Some (length (concat as) = length (concat bs) \<and> (\<forall>p \<in> set (concat as). ?P p))"
    using ne pa(2) pb(2) by (simp add: eq_impl_def del: set_concat)
  then show ?thesis
    using maps_equal_iff [OF pa(3) pb(3) d(1,2) pa(4) pb(4) eq] hm_rep_assert [OF a] hm_rep_assert [OF b] s
    by (simp add: tda_hmap_eq_def c_simps del: set_concat)
qed

end
