(* ===== verification/Tda_HMap_Assign.thy ===== *)
theory Tda_HMap_Assign
  imports Tda_HMap_Copies
begin

text \<open>
  \<open>tda_hmap_copy_assign\<close>, \<open>tda_hmap_move_assign\<close> and \<open>tda_hmap_swap\<close>: the contents of two structs
  change place, and what the target held is freed through the allocator that made it.
\<close>

section \<open>Changing the place of a struct\<close>

lemma hm_rep_self:
  assumes r: "hm_rep owned w h m bs" and p: "owned p" "block_at w p sizeof_tda_HMap" "p \<notin> hm_blocks m bs - {hm_self m}"
  shows "hm_rep owned w h (m\<lparr>hm_self := p\<rparr>) bs"
proof -
  have s: "hm_shape (m\<lparr>hm_self := p\<rparr>)" using r by (auto simp: hm_rep_def hm_shape_def entry_size_def)
  have e: "hm_key w (m\<lparr>hm_self := p\<rparr>) = hm_key w m" "entry_size (m\<lparr>hm_self := p\<rparr>) = entry_size m"
    by (simp_all add: fun_eq_iff hm_key_def entry_size_def)
  have out: "p \<notin> set (concat bs)" "hm_buckets m \<noteq> Some p" using p(3) r by (auto simp: hm_blocks_def hm_rep_def)
  have "entries_ok owned w h (m\<lparr>hm_self := p\<rparr>) (set (concat bs)) = entries_ok owned w h m (set (concat bs))"
    by (simp add: entries_ok_def e)
  then show ?thesis using r s p(1,2) out by (simp add: hm_rep_def) blast
qed

lemma hm_map_self [simp]: "hm_map w (m\<lparr>hm_self := p\<rparr>) = hm_map w m"
proof -
  have "hm_key w (m\<lparr>hm_self := p\<rparr>) = hm_key w m" "hm_val w (m\<lparr>hm_self := p\<rparr>) = hm_val w m"
    by (simp_all add: fun_eq_iff hm_key_def hm_val_def)
  then show ?thesis by (intro ext) (simp add: hm_map_def)
qed

lemma hm_blocks_moved: "hm_rep owned w h m bs \<Longrightarrow> hm_blocks (m\<lparr>hm_self := p\<rparr>) bs = insert p (hm_blocks m bs - {hm_self m})"
proof -
  assume "hm_rep owned w h m bs"
  then have "hm_self m \<notin> set (concat bs)" "hm_self m \<notin> set_option (hm_buckets m)" by (auto simp: hm_rep_def)
  then have "hm_blocks m bs - {hm_self m} = set (concat bs) \<union> set_option (hm_buckets m)" unfolding hm_blocks_def by blast
  then show ?thesis by (simp add: hm_blocks_def)
qed

text \<open>Both structs of a swap are maps again, with each other's contents.\<close>

lemma hm_swap_structs_ok:
  assumes a: "hm_rep owned w h a as" and b: "hm_rep owned w h b bs" and d: "hm_blocks a as \<inter> hm_blocks b bs = {}"
  obtains a' b' where "hm_swap_structs a b = (a', b')" "hm_rep owned w h a' bs" "hm_rep owned w h b' as"
    "hm_blocks a' bs = insert (hm_self a) (hm_blocks b bs - {hm_self b})" "hm_blocks b' as = insert (hm_self b) (hm_blocks a as - {hm_self a})"
    "hm_map w a' = hm_map w b" "hm_map w b' = hm_map w a" "hm_al a' = hm_al b" "hm_al b' = hm_al a" "hm_self a' = hm_self a" "hm_self b' = hm_self b"
proof -
  let ?a = "b\<lparr>hm_self := hm_self a\<rparr>" and ?b = "a\<lparr>hm_self := hm_self b\<rparr>"
  have sa: "hm_self a \<in> hm_blocks a as" "owned (hm_self a)" "block_at w (hm_self a) sizeof_tda_HMap"
    and sb: "hm_self b \<in> hm_blocks b bs" "owned (hm_self b)" "block_at w (hm_self b) sizeof_tda_HMap"
    using a b by (simp_all add: hm_rep_def hm_blocks_def)
  have "hm_rep owned w h ?a bs" by (rule hm_rep_self [OF b sa(2,3)]) (use d sa(1) in blast)
  moreover have "hm_rep owned w h ?b as" by (rule hm_rep_self [OF a sb(2,3)]) (use d sb(1) in blast)
  ultimately show ?thesis
    by (intro that [of ?a ?b]) (simp_all add: hm_swap_structs_def hm_blocks_moved [OF a] hm_blocks_moved [OF b])
qed

lemma hmap_swap_spec:
  assumes a: "hm_rep owned w h a as" and b: "hm_rep owned w h b bs" and d: "hm_blocks a as \<inter> hm_blocks b bs = {}"
    and s: "hm_key_size a = hm_key_size b" "hm_val_size a = hm_val_size b" "al_self (hm_al a) = al_self (hm_al b)"
  obtains a' b' where "tda_hmap_swap a b = Some (a', b')" "hm_rep owned w h a' bs" "hm_rep owned w h b' as"
    "hm_map w a' = hm_map w b" "hm_map w b' = hm_map w a"
proof -
  obtain a' b' where r: "hm_swap_structs a b = (a', b')" "hm_rep owned w h a' bs" "hm_rep owned w h b' as"
    "hm_map w a' = hm_map w b" "hm_map w b' = hm_map w a" by (rule hm_swap_structs_ok [OF a b d])
  have "hm_self a \<noteq> hm_self b" using d by (auto simp: hm_blocks_def)
  then have "tda_hmap_swap a b = Some (a', b')"
    using s r(1) hm_rep_assert [OF a] hm_rep_assert [OF b] hm_rep_assert [OF r(2)] hm_rep_assert [OF r(3)]
    by (simp add: tda_hmap_swap_def c_simps)
  then show ?thesis using that r(2-5) by blast
qed

section \<open>Copy assignment\<close>

text \<open>What an assignment to \<open>t\<close> leaves: its contents are \<open>f\<close>, or, refused, what they were.\<close>

definition hm_assigned ::
  "(ptr \<Rightarrow> bool) \<Rightarrow> 's world \<Rightarrow> hlinks \<Rightarrow> 's hmap \<Rightarrow> ptr list list \<Rightarrow> (byte list \<Rightarrow> byte list option) \<Rightarrow>
    tda_Status \<Rightarrow> 's world \<Rightarrow> hlinks \<Rightarrow> 's hmap \<Rightarrow> ptr list list \<Rightarrow> bool" where
  "hm_assigned owned w h t ts f st w' h' t' ts' \<longleftrightarrow> hm_rep owned w' h' t' ts' \<and> hm_self t' = hm_self t \<and> hm_al t' = hm_al t
     \<and> hm_frame w h (hm_blocks t ts) w' h' (hm_blocks t' ts')
     \<and> hm_map w' t' (concat ts') = (if st = TDA_STATUS_OK then f else hm_map w t (concat ts))"

lemma hm_rep_away:
  assumes r: "hm_rep owned w h m bs" and f: "hm_frame w h B w' h' B'" and d: "hm_blocks m bs \<inter> B = {}"
  shows "hm_rep owned w' h' m bs" "hm_map w' m (concat bs) = hm_map w m (concat bs)" "hm_blocks m bs \<inter> B' = {}"
proof -
  have k: "heap w' q = heap w q \<and> hl_nodes h' q = hl_nodes h q \<and> hl_arrays h' q = hl_arrays h q \<and> q \<notin> B'" if q: "q \<in> hm_blocks m bs" for q
  proof -
    obtain xs where x: "heap w q = Some xs" "q \<notin> B" using hm_rep_live [OF r q] d q by blast
    have "frame w B w' B'" "hlinks_at h' q = hlinks_at h q" using f x by (simp_all add: node_frame_def)
    then show ?thesis using frame_other [OF _ x] x(1) by (simp add: hlinks_at_def)
  qed
  show "hm_rep owned w' h' m bs" "hm_map w' m (concat bs) = hm_map w m (concat bs)"
    by (rule hm_rep_stable [OF r]; use k in blast)+
  show "hm_blocks m bs \<inter> B' = {}" using k by blast
qed

context node_allocator
begin

text \<open>The clone is swapped in and what the target held is dropped.\<close>

lemma swap_in_spec:
  assumes w: "inv w1" and t: "hm_rep owned w h t ts" "hm_al t = al" and n: "hm_made owned al w h w1 h1 c cs f"
  shows "\<exists>t' c' w2 h2. hm_swap_structs t c = (t', c') \<and> tda_hmap_drop w1 h1 (Some c') = Some (w2, h2) \<and> inv w2
    \<and> hm_assigned owned w h t ts f TDA_STATUS_OK w2 h2 t' cs"
proof -
  have c: "hm_rep owned w1 h1 c cs" "hm_al c = al" "hm_map w1 c (concat cs) = f" "hm_frame w h {} w1 h1 (hm_blocks c cs)"
    using n by (simp_all add: hm_made_def)
  have t1: "hm_rep owned w1 h1 t ts" "hm_blocks t ts \<inter> hm_blocks c cs = {}" using hm_rep_away [OF t(1) c(4)] by simp_all
  obtain t' c' where s: "hm_swap_structs t c = (t', c')" "hm_rep owned w1 h1 t' cs" "hm_rep owned w1 h1 c' ts"
    "hm_blocks t' cs = insert (hm_self t) (hm_blocks c cs - {hm_self c})" "hm_blocks c' ts = insert (hm_self c) (hm_blocks t ts - {hm_self t})"
    "hm_map w1 t' = hm_map w1 c" "hm_al t' = hm_al c" "hm_al c' = hm_al t" "hm_self t' = hm_self t"
    by (rule hm_swap_structs_ok [OF t1(1) c(1) t1(2)])
  have "hm_al c' = al" using s(8) t(2) by simp
  from hmap_drop_spec [OF w s(3) this] obtain w2 h2 where dr: "tda_hmap_drop w1 h1 (Some c') = Some (w2, h2)" "inv w2"
    "heap w2 = without (heap w1) (hm_blocks c' ts)" "\<forall>q. q \<notin> hm_blocks c' ts \<longrightarrow> hlinks_at h2 q = hlinks_at h1 q" by blast
  have self: "hm_self t \<in> hm_blocks t ts" "hm_self c \<in> hm_blocks c cs" by (simp_all add: hm_blocks_def)
  have dj: "hm_blocks t' cs \<inter> hm_blocks c' ts = {}" unfolding s(4,5) using t1(2) self by (auto simp del: set_concat)
  have fr: "hm_frame w1 h1 (hm_blocks c' ts) w2 h2 {}" using dr(3,4) by (auto simp: node_frame_def frame_def without_def)
  note k = hm_rep_away [OF s(2) fr dj]
  have old: "heap w q = None" if "q \<in> hm_blocks c cs" for q using c(4) that by (simp add: node_frame_def frame_def)
  have "frame w (hm_blocks t ts) w2 (hm_blocks t' cs)"
    unfolding frame_def
  proof (intro conjI allI impI)
    fix q assume q: "q \<notin> hm_blocks t ts \<union> hm_blocks t' cs"
    show "heap w2 q = heap w q"
    proof (cases "q = hm_self c")
      case True
      then show ?thesis using old [OF self(2)] by (simp add: dr(3) s(5) without_def)
    next
      case False
      then have "q \<notin> hm_blocks c cs" "q \<notin> hm_blocks c' ts" using q unfolding s(4,5) by blast+
      then show ?thesis using c(4) by (simp add: dr(3) without_def node_frame_def frame_def)
    qed
  next
    fix q assume "q \<in> hm_blocks t' cs - hm_blocks t ts"
    then show "heap w q = None" using old self(1) unfolding s(4) by blast
  next
    fix q assume "q \<in> hm_blocks t ts - hm_blocks t' cs"
    then have "q \<in> hm_blocks c' ts" unfolding s(4,5) by blast
    then show "heap w2 q = None" by (simp add: dr(3) without_def)
  qed
  moreover have "hlinks_at h2 q = hlinks_at h q" if "heap w q \<noteq> None" "q \<notin> hm_blocks t ts" for q
  proof -
    have "q \<noteq> hm_self c" using old [OF self(2)] that(1) by auto
    then have "q \<notin> hm_blocks c' ts" unfolding s(5) using that(2) by blast
    then show ?thesis using dr(4) c(4) that(1) by (simp add: node_frame_def)
  qed
  ultimately have "hm_assigned owned w h t ts f TDA_STATUS_OK w2 h2 t' cs"
    using k(1,2) s(6,7,9) c(2,3) t(2) by (simp add: hm_assigned_def node_frame_def)
  then show ?thesis using s(1) dr(1,2) by blast
qed

lemma hmap_copy_assign_spec:
  assumes w: "inv w" and t: "hm_rep owned w h t ts" "hm_al t = al" and s: "hm_rep owned0 w h s ss"
    and e: "hm_key_size s = hm_key_size t" "hm_val_size s = hm_val_size t" and d: "hm_self s \<noteq> hm_self t"
  shows "\<exists>st w' h' t' ts'. tda_hmap_copy_assign w h s t = Some (st, w', h', t') \<and> inv w'
    \<and> hm_assigned owned w h t ts (hm_map w s (concat ss)) st w' h' t' ts'"
proof -
  have A: "ASSERT_HMAP s = Some ()" "ASSERT_HMAP t = Some ()" using hm_rep_assert [OF s] hm_rep_assert [OF t(1)] by simp_all
  obtain st res w1 h1 where c: "tda_hmap_copy_with w h s al = Some (st, res, w1, h1)" "inv w1"
    "case res of None \<Rightarrow> st = TDA_STATUS_ERR_NO_MEM \<and> heap w1 = heap w \<and> hm_frame w h {} w1 h1 {}
       | Some c \<Rightarrow> st = TDA_STATUS_OK \<and> hm_like c s \<and> (\<exists>cs. hm_made owned al w h w1 h1 c cs (hm_map w s (concat ss)))"
    using hmap_copy_with_spec [OF w s] by blast
  show ?thesis
  proof (cases res)
    case None
    have st: "st = TDA_STATUS_ERR_NO_MEM" "heap w1 = heap w" and fr: "hm_frame w h {} w1 h1 {}" using None c(3) by simp_all
    note k = hm_rep_away [OF t(1) fr]
    have "hm_frame w h (hm_blocks t ts) w1 h1 (hm_blocks t ts)" using st(2) fr by (simp add: node_frame_def frame_refl)
    then have "hm_assigned owned w h t ts (hm_map w s (concat ss)) st w1 h1 t ts" using k(1,2) st(1) by (simp add: hm_assigned_def)
    moreover have "tda_hmap_copy_assign w h s t = Some (st, w1, h1, t)"
      using A e d c(1) None t(2) by (simp add: tda_hmap_copy_assign_def c_simps)
    ultimately show ?thesis using c(2) by blast
  next
    case (Some cl)
    then obtain cs where n: "hm_made owned al w h w1 h1 cl cs (hm_map w s (concat ss))" and st: "st = TDA_STATUS_OK" using c(3) by auto
    obtain t' c' w2 h2 where i: "hm_swap_structs t cl = (t', c')" "tda_hmap_drop w1 h1 (Some c') = Some (w2, h2)" "inv w2"
      "hm_assigned owned w h t ts (hm_map w s (concat ss)) TDA_STATUS_OK w2 h2 t' cs" using swap_in_spec [OF c(2) t n] by blast
    have "hm_rep owned w2 h2 t' cs" using i(4) by (simp add: hm_assigned_def)
    note A' = hm_rep_assert [OF this]
    have "tda_hmap_copy_assign w h s t = Some (TDA_STATUS_OK, w2, h2, t')"
      using A e d c(1) Some t(2) i(1,2) A' by (simp add: tda_hmap_copy_assign_def c_simps)
    then show ?thesis using i(3,4) by blast
  qed
qed

end


section \<open>Move assignment\<close>

text \<open>What a move from \<open>s\<close> to \<open>t\<close> leaves: the target has what the source had, and the source nothing; or both are as they were.\<close>

definition hm_moved ::
  "(ptr \<Rightarrow> bool) \<Rightarrow> (ptr \<Rightarrow> bool) \<Rightarrow> 's world \<Rightarrow> 's hmap \<Rightarrow> ptr list list \<Rightarrow> 's hmap \<Rightarrow> ptr list list \<Rightarrow>
    tda_Status \<Rightarrow> 's world \<Rightarrow> hlinks \<Rightarrow> 's hmap \<Rightarrow> 's hmap \<Rightarrow> bool" where
  "hm_moved owned o2 w s ss t ts st w' h' s' t' \<longleftrightarrow> (\<exists>ss' ts'. hm_rep o2 w' h' s' ss' \<and> hm_rep owned w' h' t' ts'
     \<and> hm_self s' = hm_self s \<and> hm_self t' = hm_self t \<and> hm_al s' = hm_al s \<and> hm_al t' = hm_al t
     \<and> (hm_map w' t' (concat ts'), hm_map w' s' (concat ss')) = (if st = TDA_STATUS_OK then (hm_map w s (concat ss), Map.empty)
         else (hm_map w t (concat ts), hm_map w s (concat ss))))"

lemma hm_did_away:
  assumes m: "hm_rep owned w h m bs" and r: "hm_did o2 w h a as w' h' a' as' f" and d: "hm_blocks m bs \<inter> hm_blocks a as = {}"
  shows "hm_rep owned w' h' m bs" "hm_map w' m (concat bs) = hm_map w m (concat bs)"
  using hm_rep_away [OF m _ d, of w' h' "hm_blocks a' as'"] r by (simp_all add: hm_did_def)

context node_allocator
begin

lemma hmap_move_assign_same:
  assumes w: "inv w" and s: "hm_rep owned w h s ss" "hm_al s = al" and t: "hm_rep owned w h t ts" "hm_al t = al"
    and e: "hm_key_size s = hm_key_size t" "hm_val_size s = hm_val_size t" and d: "hm_blocks s ss \<inter> hm_blocks t ts = {}"
  shows "\<exists>w' h' s' t'. tda_hmap_move_assign w h s t = Some (TDA_STATUS_OK, w', h', s', t') \<and> inv w'
    \<and> hm_moved owned owned w s ss t ts TDA_STATUS_OK w' h' s' t'"
proof -
  obtain s1 t1 where c: "hm_swap_structs s t = (s1, t1)" "hm_rep owned w h s1 ts" "hm_rep owned w h t1 ss"
    "hm_blocks s1 ts = insert (hm_self s) (hm_blocks t ts - {hm_self t})" "hm_blocks t1 ss = insert (hm_self t) (hm_blocks s ss - {hm_self s})"
    "hm_map w t1 = hm_map w s" "hm_al s1 = hm_al t" "hm_al t1 = hm_al s" "hm_self s1 = hm_self s" "hm_self t1 = hm_self t"
    by (rule hm_swap_structs_ok [OF s(1) t(1) d])
  have self: "hm_self s \<in> hm_blocks s ss" "hm_self t \<in> hm_blocks t ts" by (simp_all add: hm_blocks_def)
  then have ne: "hm_self s \<noteq> hm_self t" using d by auto
  have dj: "hm_blocks t1 ss \<inter> hm_blocks s1 ts = {}" unfolding c(4,5) using d self by (auto simp del: set_concat)
  have "hm_al s1 = al" using c(7) t(2) by simp
  from release_buckets_spec [OF w c(2) this] obtain w2 h2 s2 where r: "release_buckets w h s1 = Some (w2, h2, s2)" "inv w2"
    "hm_did owned w h s1 ts w2 h2 s2 [] Map.empty" by blast
  note k = hm_did_away [OF c(3) r(3) dj]
  have s2: "hm_rep owned w2 h2 s2 []" "hm_same s2 s1" "hm_map w2 s2 (concat []) = Map.empty" using r(3) by (simp_all add: hm_did_def)
  have "hm_moved owned owned w s ss t ts TDA_STATUS_OK w2 h2 s2 t1"
    unfolding hm_moved_def
    by (intro exI [of _ "[]"] exI [of _ ss]) (use k s2 c(6-10) s(2) t(2) in \<open>simp add: hm_same_def\<close>)
  moreover have "tda_hmap_move_assign w h s t = Some (TDA_STATUS_OK, w2, h2, s2, t1)"
    using ne e s(2) t(2) c(1) r(1) hm_rep_assert [OF s(1)] hm_rep_assert [OF t(1)] hm_rep_assert [OF s2(1)] hm_rep_assert [OF k(1)]
    by (simp add: tda_hmap_move_assign_def c_simps)
  ultimately show ?thesis using r(2) by blast
qed

lemma hmap_move_assign_across:
  assumes B: "node_allocator (hm_al s) inv o2" and w: "inv w" and s: "hm_rep o2 w h s ss" and t: "hm_rep owned w h t ts" "hm_al t = al"
    and e: "hm_key_size s = hm_key_size t" "hm_val_size s = hm_val_size t" and d: "hm_blocks s ss \<inter> hm_blocks t ts = {}"
    and ne: "al_self (hm_al s) \<noteq> al_self al"
  shows "\<exists>st w' h' s' t'. tda_hmap_move_assign w h s t = Some (st, w', h', s', t') \<and> inv w'
    \<and> hm_moved owned o2 w s ss t ts st w' h' s' t'"
proof -
  have self: "hm_self s \<noteq> hm_self t" using d by (auto simp: hm_blocks_def)
  have A: "ASSERT_HMAP s = Some ()" "ASSERT_HMAP t = Some ()" using hm_rep_assert [OF s] hm_rep_assert [OF t(1)] by simp_all
  obtain st res w1 h1 where c: "tda_hmap_copy_with w h s al = Some (st, res, w1, h1)" "inv w1"
    "case res of None \<Rightarrow> st = TDA_STATUS_ERR_NO_MEM \<and> heap w1 = heap w \<and> hm_frame w h {} w1 h1 {}
       | Some c \<Rightarrow> st = TDA_STATUS_OK \<and> hm_like c s \<and> (\<exists>cs. hm_made owned al w h w1 h1 c cs (hm_map w s (concat ss)))"
    using hmap_copy_with_spec [OF w s] by blast
  show ?thesis
  proof (cases res)
    case None
    have st: "st = TDA_STATUS_ERR_NO_MEM" and fr: "hm_frame w h {} w1 h1 {}" using None c(3) by simp_all
    have "hm_moved owned o2 w s ss t ts st w1 h1 s t"
      unfolding hm_moved_def by (intro exI [of _ ss] exI [of _ ts]) (use hm_rep_away [OF t(1) fr] hm_rep_away [OF s fr] st in simp)
    moreover have "tda_hmap_move_assign w h s t = Some (st, w1, h1, s, t)"
      using A e self ne c(1) None t(2) by (simp add: tda_hmap_move_assign_def c_simps)
    ultimately show ?thesis using c(2) by blast
  next
    case (Some cl)
    then obtain cs where n: "hm_made owned al w h w1 h1 cl cs (hm_map w s (concat ss))" and st: "st = TDA_STATUS_OK" using c(3) by auto
    obtain t' c' w2 h2 where i: "hm_swap_structs t cl = (t', c')" "tda_hmap_drop w1 h1 (Some c') = Some (w2, h2)" "inv w2"
      "hm_assigned owned w h t ts (hm_map w s (concat ss)) TDA_STATUS_OK w2 h2 t' cs" using swap_in_spec [OF c(2) t n] by blast
    have t2: "hm_rep owned w2 h2 t' cs" "hm_self t' = hm_self t" "hm_al t' = hm_al t" "hm_map w2 t' (concat cs) = hm_map w s (concat ss)"
      "hm_frame w h (hm_blocks t ts) w2 h2 (hm_blocks t' cs)" using i(4) by (simp_all add: hm_assigned_def)
    note s2 = hm_rep_away [OF s t2(5) d]
    from node_allocator.release_buckets_spec [OF B i(3) s2(1) refl] obtain w3 h3 s3 where r: "release_buckets w2 h2 s = Some (w3, h3, s3)" "inv w3"
      "hm_did o2 w2 h2 s ss w3 h3 s3 [] Map.empty" by blast
    have s3: "hm_rep o2 w3 h3 s3 []" "hm_same s3 s" "hm_map w3 s3 (concat []) = Map.empty" using r(3) by (simp_all add: hm_did_def)
    have "hm_blocks t' cs \<inter> hm_blocks s ss = {}" using s2(3) by blast
    note k = hm_did_away [OF t2(1) r(3) this]
    have "hm_moved owned o2 w s ss t ts TDA_STATUS_OK w3 h3 s3 t'"
      unfolding hm_moved_def by (intro exI [of _ "[]"] exI [of _ cs]) (use k s3 t2(2-4) in \<open>simp add: hm_same_def\<close>)
    moreover have "tda_hmap_move_assign w h s t = Some (TDA_STATUS_OK, w3, h3, s3, t')"
      using A e self ne c(1) Some t(2) i(1,2) r(1) hm_rep_assert [OF s3(1)] hm_rep_assert [OF k(1)]
      by (simp add: tda_hmap_move_assign_def c_simps)
    ultimately show ?thesis using r(2) by blast
  qed
qed

end

end
