(* ===== verification/Tda_HMap_Calls.thy ===== *)
theory Tda_HMap_Calls
  imports Tda_HMap_Life Tda_Calls
begin

text \<open>
  The hash map as an abstract dictionary: \<open>hmap_step\<close> runs one call of \<open>src/ds/hmap.c\<close> on the
  model, \<open>dict_step\<close> is what the call means. The contract \<open>refined_calls\<close> holds of the two over
  every allocator of nodes.
\<close>

section \<open>The chains of a map\<close>

primrec hwalk :: "hlinks \<Rightarrow> nat \<Rightarrow> ptr option \<Rightarrow> ptr list" where
  "hwalk h 0 cur = []"
| "hwalk h (Suc n) cur = (case cur of None \<Rightarrow> [] | Some p \<Rightarrow> p # hwalk h n (Option.bind (hl_nodes h p) hn_next))"

definition hm_chains :: "hlinks \<Rightarrow> 's hmap \<Rightarrow> ptr list list" where
  "hm_chains h m = map (hwalk h (hm_len m)) (case Option.bind (hm_buckets m) (hl_arrays h) of None \<Rightarrow> [] | Some xs \<Rightarrow> xs)"

lemma hwalk_chain: "hchain h ps \<Longrightarrow> length ps \<le> n \<Longrightarrow> hwalk h n (hd_or ps None) = ps"
proof (induction ps arbitrary: n)
  case Nil
  then show ?case by (cases n) simp_all
next
  case (Cons p ps)
  then obtain k where "n = Suc k" by (cases n) auto
  then show ?case using Cons by (auto simp: hnext_def bind_eq_Some_conv)
qed

lemma length_concat_mem: "c \<in> set bs \<Longrightarrow> length c \<le> length (concat bs)"
  by (induction bs) auto

lemma hm_chains_eq: "hm_rep owned w h m bs \<Longrightarrow> hm_chains h m = bs"
proof -
  assume r: "hm_rep owned w h m bs"
  then have pl: "placed h (hm_bucket_count m) bs" and len: "hm_len m = length (concat bs)" by (simp_all add: hm_rep_def)
  show ?thesis
  proof (cases "hm_buckets m")
    case None
    then have "hm_bucket_count m = 0" using r by (simp add: hm_rep_def hm_shape_def)
    then have "bs = []" using pl by (simp add: placed_def)
    then show ?thesis using None by (simp add: hm_chains_def)
  next
    case (Some b)
    then have "hl_arrays h b = Some (map (\<lambda>c. hd_or c None) bs)" using r by (simp add: hm_rep_def headed_def)
    moreover have "hwalk h (hm_len m) (hd_or c None) = c" if "c \<in> set bs" for c
      by (rule hwalk_chain) (use pl that len length_concat_mem [OF that] in \<open>simp_all add: placed_def\<close>)
    ultimately show ?thesis using Some by (simp add: hm_chains_def map_idI)
  qed
qed

section \<open>Calls on a map\<close>

datatype hmap_op = HInsert "byte list" "byte list option" | HGetOrInsert "byte list" "byte list option"
  | HRemove "byte list" | HRemoveNode "byte list" | HClear | HReserve nat | HShrink

type_synonym 's hmemory = "'s world \<times> hlinks"

text \<open>A node is named by its key, and reached by \<open>tda_hmap_find\<close>.\<close>

definition hmap_step :: "hmap_op \<Rightarrow> 's hmemory \<Rightarrow> 's hmap \<Rightarrow> (tda_Status \<times> 's hmemory \<times> 's hmap) option" where
  "hmap_step op s m = (case s of (w, h) \<Rightarrow> (case op of
      HInsert k v \<Rightarrow> do { (st, new, w1, h1, m1) \<leftarrow> tda_hmap_insert w h m k v; Some (st, (w1, h1), m1) }
    | HGetOrInsert k v \<Rightarrow> do { (st, p, w1, h1, m1) \<leftarrow> tda_hmap_get_or_insert w h m k v; Some (st, (w1, h1), m1) }
    | HRemove k \<Rightarrow> do { (gone, w1, h1, m1) \<leftarrow> tda_hmap_remove w h m k; Some (TDA_STATUS_OK, (w1, h1), m1) }
    | HRemoveNode k \<Rightarrow> do {
        r \<leftarrow> tda_hmap_find w h m k;
        p \<leftarrow> r;
        (w1, h1, m1) \<leftarrow> tda_hmap_remove_node w h m p;
        Some (TDA_STATUS_OK, (w1, h1), m1)
      }
    | HClear \<Rightarrow> do { (w1, h1, m1) \<leftarrow> tda_hmap_clear w h m; Some (TDA_STATUS_OK, (w1, h1), m1) }
    | HReserve n \<Rightarrow> do { (st, w1, h1, m1) \<leftarrow> tda_hmap_reserve w h m n; Some (st, (w1, h1), m1) }
    | HShrink \<Rightarrow> do { (st, w1, h1, m1) \<leftarrow> tda_hmap_shrink_to_fit w h m; Some (st, (w1, h1), m1) }))"

record dict =
  dc_key_size :: nat
  dc_val_size :: nat
  dc_eq :: "byte list \<Rightarrow> byte list \<Rightarrow> bool"
  dc_map :: "byte list \<Rightarrow> byte list option"

definition dict_allowed :: "hmap_op \<Rightarrow> dict \<Rightarrow> bool" where
  "dict_allowed op d = (case op of
      HInsert k v \<Rightarrow> length k = dc_key_size d \<and> length (val_of v) = dc_val_size d
    | HGetOrInsert k v \<Rightarrow> length k = dc_key_size d \<and> length (val_of v) = dc_val_size d
    | HRemoveNode k \<Rightarrow> dc_map d k \<noteq> None
    | _ \<Rightarrow> True)"

definition dict_after :: "hmap_op \<Rightarrow> dict \<Rightarrow> byte list \<Rightarrow> byte list option" where
  "dict_after op d = (case op of
      HInsert k v \<Rightarrow> map_put (dc_eq d) k (val_of v) (dc_map d)
    | HGetOrInsert k v \<Rightarrow> (if dc_map d k = None then map_put (dc_eq d) k (val_of v) (dc_map d) else dc_map d)
    | HRemove k \<Rightarrow> map_del (dc_eq d) k (dc_map d)
    | HRemoveNode k \<Rightarrow> map_del (dc_eq d) k (dc_map d)
    | HClear \<Rightarrow> Map.empty
    | _ \<Rightarrow> dc_map d)"

definition dict_step :: "hmap_op \<Rightarrow> dict \<Rightarrow> dict \<Rightarrow> bool" where
  "dict_step op d d' \<longleftrightarrow> d' = d\<lparr>dc_map := dict_after op d\<rparr>"

definition hm_abs :: "'s hmemory \<Rightarrow> 's hmap \<Rightarrow> dict" where
  "hm_abs s m = \<lparr>dc_key_size = hm_key_size m, dc_val_size = hm_val_size m, dc_eq = hm_eq m,
     dc_map = hm_map (fst s) m (concat (hm_chains (snd s) m))\<rparr>"

definition hm_ok :: "'s al \<Rightarrow> ('s world \<Rightarrow> bool) \<Rightarrow> (ptr \<Rightarrow> bool) \<Rightarrow> 's hmemory \<Rightarrow> 's hmap \<Rightarrow> bool" where
  "hm_ok al I owned s m \<longleftrightarrow> I (fst s) \<and> hm_rep owned (fst s) (snd s) m (hm_chains (snd s) m) \<and> hm_al m = al"

definition hm_apart :: "'s hmemory \<Rightarrow> 's hmap \<Rightarrow> 's hmemory \<Rightarrow> 's hmap \<Rightarrow> bool" where
  "hm_apart s m s' m' \<longleftrightarrow> hm_same m' m
     \<and> hm_frame (fst s) (snd s) (hm_blocks m (hm_chains (snd s) m)) (fst s') (snd s') (hm_blocks m' (hm_chains (snd s') m'))"

lemma hm_apart_refl: "hm_apart s m s m"
  and hm_apart_trans: "hm_apart s m s1 m1 \<Longrightarrow> hm_apart s1 m1 s2 m2 \<Longrightarrow> hm_apart s m s2 m2"
  unfolding hm_apart_def by (simp_all add: hm_same_refl node_frame_refl) (blast intro: hm_same_trans node_frame_trans)

text \<open>What \<open>hm_did\<close> says, in terms of the abstract state.\<close>

definition hm_call ::
  "'s al \<Rightarrow> ('s world \<Rightarrow> bool) \<Rightarrow> (ptr \<Rightarrow> bool) \<Rightarrow> 's hmemory \<Rightarrow> 's hmap \<Rightarrow> 's hmemory \<Rightarrow> 's hmap \<Rightarrow> (byte list \<Rightarrow> byte list option) \<Rightarrow> bool" where
  "hm_call al I owned s m s' m' f \<longleftrightarrow> hm_ok al I owned s' m' \<and> hm_apart s m s' m' \<and> hm_abs s' m' = (hm_abs s m)\<lparr>dc_map := f\<rparr>"

lemma hm_did_call:
  assumes "hm_did owned w h m bs w' h' m' bs' f" "hm_rep owned w h m bs" "hm_al m = al" "I w'"
  shows "hm_call al I owned (w, h) m (w', h') m' f"
proof -
  have r: "hm_rep owned w' h' m' bs'" "hm_same m' m" "hm_map w' m' (concat bs') = f" using assms(1) by (simp_all add: hm_did_def)
  then show ?thesis
    using assms hm_chains_eq [OF r(1)] hm_chains_eq [OF assms(2)]
    by (simp add: hm_call_def hm_ok_def hm_apart_def hm_abs_def hm_did_def hm_same_def)
qed

context node_allocator
begin

lemma hmap_step_refines:
  assumes k: "hm_ok al inv owned s m" and ok: "dict_allowed op (hm_abs s m)"
  shows "\<exists>st s' m'. hmap_step op s m = Some (st, s', m') \<and> hm_ok al inv owned s' m' \<and> hm_apart s m s' m'
    \<and> call_refines dict_step op st (hm_abs s m) (hm_abs s' m')"
proof -
  obtain w h where s: "s = (w, h)" by (cases s)
  define bs where "bs = hm_chains h m"
  define f where "f = hm_map w m (concat bs)"
  have w: "inv w" and r: "hm_rep owned w h m bs" "hm_al m = al" using k by (simp_all add: hm_ok_def s bs_def)
  have d: "dc_key_size (hm_abs s m) = hm_key_size m" "dc_val_size (hm_abs s m) = hm_val_size m" "dc_eq (hm_abs s m) = hm_eq m"
    "dc_map (hm_abs s m) = f" by (simp_all add: hm_abs_def s f_def bs_def)
  have fin: ?thesis if "hmap_step op s m = Some (st, (w', h'), m')" "inv w'"
    "hm_did owned w h m bs w' h' m' bs' (if st = TDA_STATUS_OK then dict_after op (hm_abs s m) else f)" for st w' h' m' bs'
  proof -
    have c: "hm_call al inv owned s m (w', h') m' (if st = TDA_STATUS_OK then dict_after op (hm_abs s m) else f)"
      using hm_did_call [where I = inv, OF that(3) r that(2)] by (simp add: s)
    have "(hm_abs s m)\<lparr>dc_map := f\<rparr> = hm_abs s m" using d(4) by simp
    then have "call_refines dict_step op st (hm_abs s m) (hm_abs (w', h') m')"
      using c by (cases st) (simp_all add: hm_call_def call_refines_def dict_step_def)
    then show ?thesis using that(1) c by (auto simp: hm_call_def)
  qed
  have fin_ok: ?thesis if "hmap_step op s m = Some (TDA_STATUS_OK, (w', h'), m')" "inv w'"
    "hm_did owned w h m bs w' h' m' bs' (dict_after op (hm_abs s m))" for w' h' m' bs'
    by (rule fin [OF that(1,2), of bs']) (use that(3) in simp)
  have fin_same: ?thesis if "hmap_step op s m = Some (st, (w', h'), m')" "inv w'" "dict_after op (hm_abs s m) = f"
    "hm_did owned w h m bs w' h' m' bs' f" for st w' h' m' bs'
    by (rule fin [OF that(1,2), of bs']) (use that(3,4) in simp)
  show ?thesis
  proof (cases op)
    case (HInsert x v)
    then have "entry_args m x v" using ok d by (simp add: dict_allowed_def entry_args_def)
    from hmap_insert_spec [OF w r this] obtain st new w' h' m' bs' where "tda_hmap_insert w h m x v = Some (st, new, w', h', m')" "inv w'"
      "hm_did owned w h m bs w' h' m' bs' (if st = TDA_STATUS_OK then map_put (hm_eq m) x (val_of v) f else f)" unfolding f_def by blast
    then show ?thesis
      by (intro fin [of st w' h' m' bs']) (cases st; simp add: hmap_step_def s HInsert dict_after_def d [unfolded s])+
  next
    case (HGetOrInsert x v)
    then have "entry_args m x v" using ok d by (simp add: dict_allowed_def entry_args_def)
    from hmap_get_or_insert_spec [OF w r this] obtain st p w' h' m' bs' where
      g: "tda_hmap_get_or_insert w h m x v = Some (st, p, w', h', m')" "inv w'"
        "hm_did owned w h m bs w' h' m' bs' (if st = TDA_STATUS_OK \<and> f x = None then map_put (hm_eq m) x (val_of v) f else f)" unfolding f_def by blast
    have "(if st = TDA_STATUS_OK \<and> f x = None then map_put (hm_eq m) x (val_of v) f else f)
        = (if st = TDA_STATUS_OK then dict_after op (hm_abs s m) else f)" by (cases st) (simp_all add: HGetOrInsert dict_after_def d)
    from g(3) [unfolded this] show ?thesis by (intro fin [of st w' h' m' bs']) (simp_all add: hmap_step_def s HGetOrInsert g(1,2))
  next
    case (HRemove x)
    from hmap_remove_spec [OF w r, of x] obtain gone w' h' m' bs' where "tda_hmap_remove w h m x = Some (gone, w', h', m')" "inv w'"
      "hm_did owned w h m bs w' h' m' bs' (map_del (hm_eq m) x f)" unfolding f_def by blast
    then show ?thesis by (intro fin_ok [of w' h' m' bs']) (simp_all add: hmap_step_def s HRemove dict_after_def d [unfolded s])
  next
    case (HRemoveNode x)
    then have fx: "f x \<noteq> None" using ok d by (simp add: dict_allowed_def)
    have a: "agree (hm_hasher m) (hm_eq m)" using r(1) by (simp add: hm_rep_def hm_shape_def)
    show ?thesis
    proof (rule hm_find_cases [OF r(1), of x])
      assume "hm_map w m (concat bs) x = None"
      then show ?thesis using fx by (simp add: f_def)
    next
      fix p assume p: "hm_find_node w h m x (hm_hasher m x) = Some (Some p)" "p \<in> set (concat bs)" "hm_eq m (hm_key w m p) x"
      obtain w' h' m' bs' where "tda_hmap_remove_node w h m p = Some (w', h', m')" "inv w'"
        "hm_did owned w h m bs w' h' m' bs' (map_del (hm_eq m) (hm_key w m p) f)" using hmap_remove_node_spec [OF w r p(2)] unfolding f_def by blast
      moreover have "map_del (hm_eq m) (hm_key w m p) f = map_del (hm_eq m) x f"
        using p(3) agree_sym [OF a] agree_trans [OF a] unfolding map_del_def by metis
      ultimately show ?thesis
        using p(1) hm_rep_assert [OF r(1)]
        by (intro fin_ok [of w' h' m' bs']) (simp_all add: hmap_step_def s HRemoveNode dict_after_def d [unfolded s] tda_hmap_find_def)
    qed
  next
    case HClear
    from hmap_clear_spec [OF w r] obtain w' h' m' bs' where "tda_hmap_clear w h m = Some (w', h', m')" "inv w'"
      "hm_did owned w h m bs w' h' m' bs' Map.empty" by blast
    then show ?thesis by (intro fin_ok [of w' h' m' bs']) (simp_all add: hmap_step_def s HClear dict_after_def)
  next
    case (HReserve n)
    from hmap_reserve_spec [OF w r, of n] obtain st w' h' m' bs' where "tda_hmap_reserve w h m n = Some (st, w', h', m')" "inv w'"
      "hm_did owned w h m bs w' h' m' bs' f" unfolding f_def by blast
    then show ?thesis by (intro fin_same [of st w' h' m' bs']) (simp_all add: hmap_step_def s HReserve dict_after_def d [unfolded s])
  next
    case HShrink
    from hmap_shrink_spec [OF w r] obtain st w' h' m' bs' where "tda_hmap_shrink_to_fit w h m = Some (st, w', h', m')" "inv w'"
      "hm_did owned w h m bs w' h' m' bs' f" unfolding f_def by blast
    then show ?thesis by (intro fin_same [of st w' h' m' bs']) (simp_all add: hmap_step_def s HShrink dict_after_def d [unfolded s])
  qed
qed

end

sublocale node_allocator \<subseteq> hmap_calls: refined_calls hmap_step "hm_ok al inv owned" hm_apart hm_abs dict_allowed dict_step
  by unfold_locales (blast intro: hm_apart_refl hm_apart_trans hmap_step_refines)+

context node_allocator
begin

lemmas hmap_run_refines = hmap_calls.run_refines

end

end
