(* ===== verification/Tda_HSet.thy ===== *)
theory Tda_HSet
  imports Tda_HMap
begin

text \<open>
  \<open>src/ds/hset.c\<close>: the hash set, a hash map whose values have no bytes. \<open>hset\<close> is \<open>struct tda_HSet\<close>
  with its own address and the map it keeps; every operation is the map's, the loop of the
  comparison apart.
\<close>

record 's hset =
  hset_self :: ptr
  hset_map :: "'s hmap"

definition sizeof_tda_HSet :: nat where
  "sizeof_tda_HSet = 8"

section \<open>Lifetime and copies\<close>

definition hset_wrap :: "'s hmap \<Rightarrow> 's world \<Rightarrow> hlinks \<Rightarrow> (tda_Status \<times> 's hset option \<times> 's world \<times> hlinks) option" where
  "hset_wrap m w h = do {
     al \<leftarrow> tda_hmap_al m;
     (r, w1) \<leftarrow> tda_alloc al w sizeof_tda_HSet;
     (case r of
        None \<Rightarrow> do { (w2, h2) \<leftarrow> tda_hmap_drop w1 h (Some m); Some (TDA_STATUS_ERR_NO_MEM, None, w2, h2) }
      | Some obj \<Rightarrow> Some (TDA_STATUS_OK, Some \<lparr>hset_self = obj, hset_map = m\<rparr>, w1, h))
   }"

definition tda_hset_new_cap ::
  "nat \<Rightarrow> nat \<Rightarrow> hasher \<Rightarrow> (byte list \<Rightarrow> byte list \<Rightarrow> bool) \<Rightarrow> 's al \<Rightarrow> 's world \<Rightarrow> hlinks \<Rightarrow>
    (tda_Status \<times> 's hset option \<times> 's world \<times> hlinks) option" where
  "tda_hset_new_cap cap key_size hasher eq al w h = do {
     c_assert (key_size > 0);
     (st, r, w1, h1) \<leftarrow> tda_hmap_new_raw cap key_size 0 hasher eq al w h;
     (case r of None \<Rightarrow> Some (st, None, w1, h1) | Some m \<Rightarrow> hset_wrap m w1 h1)
   }"

definition tda_hset_new ::
  "nat \<Rightarrow> hasher \<Rightarrow> (byte list \<Rightarrow> byte list \<Rightarrow> bool) \<Rightarrow> 's al \<Rightarrow> 's world \<Rightarrow> hlinks \<Rightarrow>
    (tda_Status \<times> 's hset option \<times> 's world \<times> hlinks) option" where
  "tda_hset_new key_size hasher eq al w h = tda_hset_new_cap 0 key_size hasher eq al w h"

definition tda_hset_drop :: "'s world \<Rightarrow> hlinks \<Rightarrow> 's hset option \<Rightarrow> ('s world \<times> hlinks) option" where
  "tda_hset_drop w h self = (case self of
      None \<Rightarrow> Some (w, h)
    | Some s \<Rightarrow> do {
        al \<leftarrow> tda_hmap_al (hset_map s);
        (w1, h1) \<leftarrow> tda_hmap_drop w h (Some (hset_map s));
        w2 \<leftarrow> tda_dealloc al w1 (Some (hset_self s)) sizeof_tda_HSet;
        Some (w2, h1)
      })"

definition tda_hset_copy_with ::
  "'s world \<Rightarrow> hlinks \<Rightarrow> 's hset \<Rightarrow> 's al \<Rightarrow> (tda_Status \<times> 's hset option \<times> 's world \<times> hlinks) option" where
  "tda_hset_copy_with w h self al = do {
     (st, r, w1, h1) \<leftarrow> tda_hmap_copy_with w h (hset_map self) al;
     (case r of None \<Rightarrow> Some (st, None, w1, h1) | Some m \<Rightarrow> hset_wrap m w1 h1)
   }"

definition tda_hset_copy ::
  "'s world \<Rightarrow> hlinks \<Rightarrow> 's hset \<Rightarrow> (tda_Status \<times> 's hset option \<times> 's world \<times> hlinks) option" where
  "tda_hset_copy w h self = do { al \<leftarrow> tda_hmap_al (hset_map self); tda_hset_copy_with w h self al }"

definition tda_hset_copy_assign ::
  "'s world \<Rightarrow> hlinks \<Rightarrow> 's hset \<Rightarrow> 's hset \<Rightarrow> (tda_Status \<times> 's world \<times> hlinks \<times> 's hset) option" where
  "tda_hset_copy_assign w h self other = do {
     (st, w1, h1, m) \<leftarrow> tda_hmap_copy_assign w h (hset_map self) (hset_map other);
     Some (st, w1, h1, other\<lparr>hset_map := m\<rparr>)
   }"

definition tda_hset_move_assign ::
  "'s world \<Rightarrow> hlinks \<Rightarrow> 's hset \<Rightarrow> 's hset \<Rightarrow> (tda_Status \<times> 's world \<times> hlinks \<times> 's hset \<times> 's hset) option" where
  "tda_hset_move_assign w h self other = do {
     (st, w1, h1, m, n) \<leftarrow> tda_hmap_move_assign w h (hset_map self) (hset_map other);
     Some (st, w1, h1, self\<lparr>hset_map := m\<rparr>, other\<lparr>hset_map := n\<rparr>)
   }"

section \<open>Information\<close>

definition tda_hset_len :: "'s hset \<Rightarrow> nat option" where
  "tda_hset_len s = tda_hmap_len (hset_map s)"

definition tda_hset_bucket_count :: "'s hset \<Rightarrow> nat option" where
  "tda_hset_bucket_count s = tda_hmap_bucket_count (hset_map s)"

definition tda_hset_key_size :: "'s hset \<Rightarrow> nat option" where
  "tda_hset_key_size s = tda_hmap_key_size (hset_map s)"

definition tda_hset_al :: "'s hset \<Rightarrow> 's al option" where
  "tda_hset_al s = tda_hmap_al (hset_map s)"

definition tda_hset_hasher :: "'s hset \<Rightarrow> hasher option" where
  "tda_hset_hasher s = tda_hmap_hasher (hset_map s)"

definition tda_hset_key_eq :: "'s hset \<Rightarrow> (byte list \<Rightarrow> byte list \<Rightarrow> bool) option" where
  "tda_hset_key_eq s = tda_hmap_key_eq (hset_map s)"

section \<open>Lookup and nodes\<close>

definition tda_hset_contains :: "'s world \<Rightarrow> hlinks \<Rightarrow> 's hset \<Rightarrow> byte list \<Rightarrow> bool option" where
  "tda_hset_contains w h s key = tda_hmap_contains w h (hset_map s) key"

definition tda_hset_find :: "'s world \<Rightarrow> hlinks \<Rightarrow> 's hset \<Rightarrow> byte list \<Rightarrow> ptr option option" where
  "tda_hset_find w h s key = tda_hmap_find w h (hset_map s) key"

definition tda_hset_first_node :: "hlinks \<Rightarrow> 's hset \<Rightarrow> ptr option option" where
  "tda_hset_first_node h s = tda_hmap_first_node h (hset_map s)"

definition tda_hset_node_next :: "hlinks \<Rightarrow> 's hset \<Rightarrow> ptr \<Rightarrow> ptr option option" where
  "tda_hset_node_next h s p = tda_hmap_node_next h (hset_map s) p"

definition tda_hset_node_key :: "ptr \<Rightarrow> ptr \<times> nat" where
  "tda_hset_node_key p = tda_hmap_node_key p"

definition tda_hset_eq :: "'s world \<Rightarrow> hlinks \<Rightarrow> 's hset \<Rightarrow> 's hset \<Rightarrow> bool option" where
  "tda_hset_eq w h a b = do {
     ka \<leftarrow> tda_hmap_key_size (hset_map a);
     kb \<leftarrow> tda_hmap_key_size (hset_map b);
     c_assert (ka = kb);
     if hset_self a = hset_self b then Some True
     else do {
       la \<leftarrow> tda_hmap_len (hset_map a);
       lb \<leftarrow> tda_hmap_len (hset_map b);
       if la \<noteq> lb then Some False
       else do {
         p \<leftarrow> tda_hmap_first_node h (hset_map a);
         node_all (\<lambda>p. do { k \<leftarrow> key_bytes w (hset_map a) p; tda_hmap_contains w h (hset_map b) k })
           (tda_hmap_node_next h (hset_map a)) p
       }
     }
   }"

section \<open>Inserting, removing and room\<close>

definition hset_put :: "'s hset \<Rightarrow> 's hmap \<Rightarrow> 's hset" where
  "hset_put s m = s\<lparr>hset_map := m\<rparr>"

definition tda_hset_insert ::
  "'s world \<Rightarrow> hlinks \<Rightarrow> 's hset \<Rightarrow> byte list \<Rightarrow> (tda_Status \<times> bool option \<times> 's world \<times> hlinks \<times> 's hset) option" where
  "tda_hset_insert w h s key = do {
     (st, new, w1, h1, m) \<leftarrow> tda_hmap_insert w h (hset_map s) key None;
     Some (st, new, w1, h1, hset_put s m)
   }"

definition tda_hset_remove ::
  "'s world \<Rightarrow> hlinks \<Rightarrow> 's hset \<Rightarrow> byte list \<Rightarrow> (bool \<times> 's world \<times> hlinks \<times> 's hset) option" where
  "tda_hset_remove w h s key = do {
     (b, w1, h1, m) \<leftarrow> tda_hmap_remove w h (hset_map s) key;
     Some (b, w1, h1, hset_put s m)
   }"

definition tda_hset_remove_node :: "'s world \<Rightarrow> hlinks \<Rightarrow> 's hset \<Rightarrow> ptr \<Rightarrow> ('s world \<times> hlinks \<times> 's hset) option" where
  "tda_hset_remove_node w h s node = do {
     (w1, h1, m) \<leftarrow> tda_hmap_remove_node w h (hset_map s) node;
     Some (w1, h1, hset_put s m)
   }"

definition tda_hset_clear :: "'s world \<Rightarrow> hlinks \<Rightarrow> 's hset \<Rightarrow> ('s world \<times> hlinks \<times> 's hset) option" where
  "tda_hset_clear w h s = do { (w1, h1, m) \<leftarrow> tda_hmap_clear w h (hset_map s); Some (w1, h1, hset_put s m) }"

definition tda_hset_reserve ::
  "'s world \<Rightarrow> hlinks \<Rightarrow> 's hset \<Rightarrow> nat \<Rightarrow> (tda_Status \<times> 's world \<times> hlinks \<times> 's hset) option" where
  "tda_hset_reserve w h s cap = do {
     (st, w1, h1, m) \<leftarrow> tda_hmap_reserve w h (hset_map s) cap;
     Some (st, w1, h1, hset_put s m)
   }"

definition tda_hset_shrink_to_fit ::
  "'s world \<Rightarrow> hlinks \<Rightarrow> 's hset \<Rightarrow> (tda_Status \<times> 's world \<times> hlinks \<times> 's hset) option" where
  "tda_hset_shrink_to_fit w h s = do {
     (st, w1, h1, m) \<leftarrow> tda_hmap_shrink_to_fit w h (hset_map s);
     Some (st, w1, h1, hset_put s m)
   }"

definition tda_hset_swap :: "'s hset \<Rightarrow> 's hset \<Rightarrow> ('s hset \<times> 's hset) option" where
  "tda_hset_swap self other = do {
     (a, b) \<leftarrow> tda_hmap_swap (hset_map self) (hset_map other);
     Some (hset_put self a, hset_put other b)
   }"

end
