(* ===== verification/Tda_HSet_Calls.thy ===== *)
theory Tda_HSet_Calls
  imports Tda_HMap_Calls Tda_HSet
begin

text \<open>
  The hash set as an abstract set of keys. Every call of \<open>src/ds/hset.c\<close> is one on the map the
  set keeps, whose entries have no value; what is a set of keys is the domain of that map, and it
  is closed under the equality of the set.
\<close>

datatype hset_op = SInsert "byte list" | SRemove "byte list" | SRemoveNode "byte list" | SClear | SReserve nat | SShrink

definition hset_step :: "hset_op \<Rightarrow> 's hmemory \<Rightarrow> 's hset \<Rightarrow> (tda_Status \<times> 's hmemory \<times> 's hset) option" where
  "hset_step op s t = (case s of (w, h) \<Rightarrow> (case op of
      SInsert k \<Rightarrow> do { (st, new, w1, h1, t1) \<leftarrow> tda_hset_insert w h t k; Some (st, (w1, h1), t1) }
    | SRemove k \<Rightarrow> do { (gone, w1, h1, t1) \<leftarrow> tda_hset_remove w h t k; Some (TDA_STATUS_OK, (w1, h1), t1) }
    | SRemoveNode k \<Rightarrow> do {
        r \<leftarrow> tda_hset_find w h t k;
        p \<leftarrow> r;
        (w1, h1, t1) \<leftarrow> tda_hset_remove_node w h t p;
        Some (TDA_STATUS_OK, (w1, h1), t1)
      }
    | SClear \<Rightarrow> do { (w1, h1, t1) \<leftarrow> tda_hset_clear w h t; Some (TDA_STATUS_OK, (w1, h1), t1) }
    | SReserve n \<Rightarrow> do { (st, w1, h1, t1) \<leftarrow> tda_hset_reserve w h t n; Some (st, (w1, h1), t1) }
    | SShrink \<Rightarrow> do { (st, w1, h1, t1) \<leftarrow> tda_hset_shrink_to_fit w h t; Some (st, (w1, h1), t1) }))"

record keys =
  ks_size :: nat
  ks_eq :: "byte list \<Rightarrow> byte list \<Rightarrow> bool"
  ks_set :: "byte list set"

definition keys_allowed :: "hset_op \<Rightarrow> keys \<Rightarrow> bool" where
  "keys_allowed op d = (case op of SInsert k \<Rightarrow> length k = ks_size d | SRemoveNode k \<Rightarrow> k \<in> ks_set d | _ \<Rightarrow> True)"

definition keys_after :: "hset_op \<Rightarrow> keys \<Rightarrow> byte list set" where
  "keys_after op d = (case op of
      SInsert k \<Rightarrow> ks_set d \<union> {x. ks_eq d k x}
    | SRemove k \<Rightarrow> ks_set d - {x. ks_eq d k x}
    | SRemoveNode k \<Rightarrow> ks_set d - {x. ks_eq d k x}
    | SClear \<Rightarrow> {}
    | _ \<Rightarrow> ks_set d)"

definition keys_step :: "hset_op \<Rightarrow> keys \<Rightarrow> keys \<Rightarrow> bool" where
  "keys_step op d d' \<longleftrightarrow> d' = d\<lparr>ks_set := keys_after op d\<rparr>"

definition keys_of :: "dict \<Rightarrow> keys" where
  "keys_of d = \<lparr>ks_size = dc_key_size d, ks_eq = dc_eq d, ks_set = dom (dc_map d)\<rparr>"

definition hs_abs :: "'s hmemory \<Rightarrow> 's hset \<Rightarrow> keys" where
  "hs_abs s t = keys_of (hm_abs s (hset_map t))"

definition hs_ok :: "'s al \<Rightarrow> ('s world \<Rightarrow> bool) \<Rightarrow> (ptr \<Rightarrow> bool) \<Rightarrow> 's hmemory \<Rightarrow> 's hset \<Rightarrow> bool" where
  "hs_ok al I owned s t \<longleftrightarrow> hm_ok al I owned s (hset_map t) \<and> hm_val_size (hset_map t) = 0
     \<and> owned (hset_self t) \<and> block_at (fst s) (hset_self t) sizeof_tda_HSet
     \<and> hset_self t \<notin> hm_blocks (hset_map t) (hm_chains (snd s) (hset_map t))"

definition hs_apart :: "'s hmemory \<Rightarrow> 's hset \<Rightarrow> 's hmemory \<Rightarrow> 's hset \<Rightarrow> bool" where
  "hs_apart s t s' t' \<longleftrightarrow> hset_self t' = hset_self t \<and> hm_apart s (hset_map t) s' (hset_map t')"

section \<open>A call on the set is one on the map\<close>

primrec map_op :: "hset_op \<Rightarrow> hmap_op" where
  "map_op (SInsert k) = HInsert k None"
| "map_op (SRemove k) = HRemove k"
| "map_op (SRemoveNode k) = HRemoveNode k"
| "map_op SClear = HClear"
| "map_op (SReserve n) = HReserve n"
| "map_op SShrink = HShrink"

lemma hset_step_map:
  "hset_step op s t = do { (st, s', m) \<leftarrow> hmap_step (map_op op) s (hset_map t); Some (st, s', hset_put t m) }"
  by (cases s; cases op)
    (simp_all add: hset_step_def hmap_step_def tda_hset_insert_def tda_hset_remove_def tda_hset_find_def tda_hset_remove_node_def
      tda_hset_clear_def tda_hset_reserve_def tda_hset_shrink_to_fit_def split_beta bind_assoc)

lemma keys_step_of: "dict_step (map_op op) d d' \<Longrightarrow> keys_step op (keys_of d) (keys_of d')"
  by (cases op) (auto simp: dict_step_def keys_step_def keys_of_def keys_after_def dict_after_def map_put_def map_del_def split: if_splits)

lemma keys_allowed_of: "keys_allowed op (keys_of d) \<Longrightarrow> dc_val_size d = 0 \<Longrightarrow> dict_allowed (map_op op) d"
  by (cases op) (auto simp: keys_allowed_def keys_of_def dict_allowed_def val_of_def)

context node_allocator
begin

lemma hset_step_refines:
  assumes k: "hs_ok al inv owned s t" and ok: "keys_allowed op (hs_abs s t)"
  shows "\<exists>st s' t'. hset_step op s t = Some (st, s', t') \<and> hs_ok al inv owned s' t' \<and> hs_apart s t s' t'
    \<and> call_refines keys_step op st (hs_abs s t) (hs_abs s' t')"
proof -
  let ?m = "hset_map t"
  have m: "hm_ok al inv owned s ?m" "hm_val_size ?m = 0" using k by (simp_all add: hs_ok_def)
  have "dict_allowed (map_op op) (hm_abs s ?m)"
    by (rule keys_allowed_of) (use ok m(2) in \<open>simp_all add: hs_abs_def hm_abs_def\<close>)
  from hmap_step_refines [OF m(1) this] obtain st s' m' where r: "hmap_step (map_op op) s ?m = Some (st, s', m')"
    "hm_ok al inv owned s' m'" "hm_apart s ?m s' m'" "call_refines dict_step (map_op op) st (hm_abs s ?m) (hm_abs s' m')" by blast
  obtain bs where self: "heap (fst s) (hset_self t) = Some bs" "length bs = sizeof_tda_HSet"
    "hset_self t \<notin> hm_blocks ?m (hm_chains (snd s) ?m)" "owned (hset_self t)" using k by (auto simp: hs_ok_def block_at_def)
  have "frame (fst s) (hm_blocks ?m (hm_chains (snd s) ?m)) (fst s') (hm_blocks m' (hm_chains (snd s') m'))"
    using r(3) by (simp add: hm_apart_def node_frame_def)
  from frame_other [OF this self(1,3)] have "hs_ok al inv owned s' (hset_put t m')"
    using r(2,3) m(2) self(2,4) by (simp add: hs_ok_def hset_put_def block_at_def hm_apart_def hm_same_def)
  moreover have "call_refines keys_step op st (hs_abs s t) (hs_abs s' (hset_put t m'))"
    using r(4) keys_step_of by (auto simp: call_refines_def hs_abs_def hset_put_def)
  moreover have "hs_apart s t s' (hset_put t m')" using r(3) by (simp add: hs_apart_def hset_put_def)
  ultimately show ?thesis using r(1) by (simp add: hset_step_map)
qed

end

lemma hs_apart_refl: "hs_apart s t s t"
  and hs_apart_trans: "hs_apart s t s1 t1 \<Longrightarrow> hs_apart s1 t1 s2 t2 \<Longrightarrow> hs_apart s t s2 t2"
  unfolding hs_apart_def by (simp_all add: hm_apart_refl) (blast intro: hm_apart_trans)

sublocale node_allocator \<subseteq> hset_calls: refined_calls hset_step "hs_ok al inv owned" hs_apart hs_abs keys_allowed keys_step
  by unfold_locales (blast intro: hs_apart_refl hs_apart_trans hset_step_refines)+

context node_allocator
begin

lemmas hset_run_refines = hset_calls.run_refines

end

end
