(* ===== verification/Tda_HSet_Copies.thy ===== *)
theory Tda_HSet_Copies
  imports Tda_HSet_Calls Tda_HMap_Copies
begin

text \<open>
  Making, copying and comparing hash sets: the struct around the map is one block more, and two
  sets are equal when they have the same keys.
\<close>

section \<open>Comparing\<close>

lemma node_all_list:
  "(\<And>as p cs. ps = as @ p # cs \<Longrightarrow> nxt p = Some (hd_or cs None) \<and> test p = Some (P p)) \<Longrightarrow>
    node_all test nxt (hd_or ps None) = Some (\<forall>p \<in> set ps. P p)"
proof (induction ps)
  case Nil
  then show ?case by (simp add: node_all.simps)
next
  case (Cons p ps)
  have "nxt p = Some (hd_or ps None) \<and> test p = Some (P p)" using Cons.prems [of "[]" p ps] by simp
  moreover have "node_all test nxt (hd_or ps None) = Some (\<forall>p \<in> set ps. P p)"
    by (rule Cons.IH) (use Cons.prems in \<open>metis append_Cons\<close>)
  ultimately show ?case by (subst node_all.simps) simp
qed

text \<open>Without bytes, the values of a map say nothing: it is its domain.\<close>

lemma hm_map_no_values: "hm_val_size m = 0 \<Longrightarrow> hm_map w m ps k = (if k \<in> dom (hm_map w m ps) then Some [] else None)"
  by (auto simp: hm_map_def hm_val_def)

lemma hm_map_dom_eq:
  assumes "hm_val_size a = 0" "hm_val_size b = 0"
  shows "hm_map w a ps = hm_map w b qs \<longleftrightarrow> dom (hm_map w a ps) = dom (hm_map w b qs)"
proof
  assume d: "dom (hm_map w a ps) = dom (hm_map w b qs)"
  show "hm_map w a ps = hm_map w b qs"
    by (rule ext) (use hm_map_no_values [OF assms(1), of w ps] hm_map_no_values [OF assms(2), of w qs] d in metis)
qed simp

lemma hset_eq_spec:
  assumes a: "hm_rep oa w h (hset_map a) as" and b: "hm_rep ob w h (hset_map b) bs"
    and z: "hm_val_size (hset_map a) = 0" "hm_val_size (hset_map b) = 0"
    and s: "hm_key_size (hset_map a) = hm_key_size (hset_map b)" "hm_eq (hset_map a) = hm_eq (hset_map b)" "hset_self a \<noteq> hset_self b"
  shows "tda_hset_eq w h a b = Some (dom (hm_map w (hset_map a) (concat as)) = dom (hm_map w (hset_map b) (concat bs)))"
proof -
  let ?a = "hset_map a" and ?b = "hset_map b"
  have pa: "hm_shape ?a" "hm_len ?a = length (concat as)" "entries_ok oa w h ?a (set (concat as))" "distinct (concat as)"
    and pb: "hm_shape ?b" "hm_len ?b = length (concat bs)" "entries_ok ob w h ?b (set (concat bs))" "distinct (concat bs)"
    using a b by (simp_all add: hm_rep_def placed_def)
  have ag: "agree (hm_hasher ?a) (hm_eq ?a)" "agree (hm_hasher ?b) (hm_eq ?b)" using pa(1) pb(1) by (simp_all add: hm_shape_def)
  let ?P = "\<lambda>p. hm_map w ?b (concat bs) (hm_key w ?a p) \<noteq> None"
  let ?test = "\<lambda>p. do { k \<leftarrow> key_bytes w ?a p; tda_hmap_contains w h ?b k }"
  have "node_all ?test (tda_hmap_node_next h ?a) (hd_or (concat as) None) = Some (\<forall>p \<in> set (concat as). ?P p)"
  proof (rule node_all_list)
    fix xs p ys assume c: "concat as = xs @ p # ys"
    then have "p \<in> set (concat as)" by simp
    from entry_bytes(1) [OF pa(1,3) this] show "tda_hmap_node_next h ?a p = Some (hd_or ys None) \<and> ?test p = Some (?P p)"
      using node_next_ok [OF a c] hmap_lookup_ok(1) [OF b] by simp
  qed
  moreover have "hm_map w ?b (concat bs) k \<noteq> None \<longleftrightarrow> hm_map w ?b (concat bs) k = Some (hm_val w ?a p)" for k p
    using z by (auto simp: hm_map_def hm_val_def)
  ultimately have "node_all ?test (tda_hmap_node_next h ?a) (hd_or (concat as) None)
      = Some (\<forall>p \<in> set (concat as). hm_map w ?b (concat bs) (hm_key w ?a p) = Some (hm_val w ?a p))" by simp
  moreover have "tda_hset_eq w h a b = (if length (concat as) \<noteq> length (concat bs) then Some False
      else node_all ?test (tda_hmap_node_next h ?a) (hd_or (concat as) None))"
    using hm_rep_assert [OF a] hm_rep_assert [OF b] s pa(2) pb(2) first_node_ok [OF a]
    by (simp add: tda_hset_eq_def tda_hmap_key_size_def tda_hmap_len_def c_simps del: set_concat)
  ultimately have "tda_hset_eq w h a b = Some (length (concat as) = length (concat bs)
      \<and> (\<forall>p \<in> set (concat as). hm_map w ?b (concat bs) (hm_key w ?a p) = Some (hm_val w ?a p)))" by simp
  then show ?thesis
    unfolding maps_equal_iff [OF pa(3) pb(3) pa(4) pb(4) ag s(2)] hm_map_dom_eq [OF z] .
qed

section \<open>Making and copying\<close>

text \<open>A new set: its blocks are fresh, nothing that was there has changed, and its keys are \<open>ks\<close>.\<close>

definition hs_made ::
  "(ptr \<Rightarrow> bool) \<Rightarrow> 's al \<Rightarrow> ('s world \<Rightarrow> bool) \<Rightarrow> 's world \<Rightarrow> hlinks \<Rightarrow> 's hmemory \<Rightarrow> 's hset \<Rightarrow> byte list set \<Rightarrow> bool" where
  "hs_made owned al I w h s t ks \<longleftrightarrow> hs_ok al I owned s t \<and> ks_set (hs_abs s t) = ks
     \<and> hm_frame w h {} (fst s) (snd s) (insert (hset_self t) (hm_blocks (hset_map t) (hm_chains (snd s) (hset_map t))))"

context node_allocator
begin

lemma hset_wrap_spec:
  assumes w: "inv w1" and n: "hm_made owned al w h w1 h1 m bs f" and z: "hm_val_size m = 0"
  shows "\<exists>st r w' h'. hset_wrap m w1 h1 = Some (st, r, w', h') \<and> inv w'
    \<and> (case r of None \<Rightarrow> st = TDA_STATUS_ERR_NO_MEM \<and> heap w' = heap w
       | Some t \<Rightarrow> st = TDA_STATUS_OK \<and> hset_map t = m \<and> hs_made owned al inv w h (w', h') t (dom f))"
proof -
  have m: "hm_rep owned w1 h1 m bs" "hm_al m = al" "hm_map w1 m (concat bs) = f" "hm_frame w h {} w1 h1 (hm_blocks m bs)"
    using n by (simp_all add: hm_made_def)
  have start: "hset_wrap m w1 h1 = do { (r, w2) \<leftarrow> tda_alloc al w1 sizeof_tda_HSet; (case r of
        None \<Rightarrow> do { (w3, h2) \<leftarrow> tda_hmap_drop w2 h1 (Some m); Some (TDA_STATUS_ERR_NO_MEM, None, w3, h2) }
      | Some obj \<Rightarrow> Some (TDA_STATUS_OK, Some \<lparr>hset_self = obj, hset_map = m\<rparr>, w2, h1)) }"
    using hm_rep_assert [OF m(1)] m(2) by (simp add: hset_wrap_def tda_hmap_al_def)
  show ?thesis
  proof (rule alloc_cases [OF w, of sizeof_tda_HSet])
    show "sizeof_tda_HSet \<le> SIZE_MAX" by (simp add: sizeof_tda_HSet_def SIZE_MAX_def)
  next
    fix w2 assume a: "tda_alloc al w1 sizeof_tda_HSet = Some (None, w2)" "inv w2" "heap w2 = heap w1"
    have "hm_made owned al w h w2 h1 m bs f" by (rule hm_made_did [OF n]) (use hm_did_refl [OF m(1) a(3)] m(3) in simp)
    from hm_made_drop [OF a(2) this] show ?thesis unfolding start a(1) by auto
  next
    fix p w2 xs assume a: "tda_alloc al w1 sizeof_tda_HSet = Some (Some p, w2)" "inv w2" "owned p" "heap w1 p = None"
      "length xs = sizeof_tda_HSet" "heap w2 = (heap w1)(p \<mapsto> xs)"
    let ?t = "\<lparr>hset_self = p, hset_map = m\<rparr>"
    have out: "p \<notin> hm_blocks m bs" using hm_rep_live [OF m(1), of p] a(4) by auto
    have k: "heap w2 q = heap w1 q" if "q \<in> hm_blocks m bs" for q using that out a(6) by auto
    have r2: "hm_rep owned w2 h1 m bs" "hm_map w2 m (concat bs) = f"
      using hm_rep_stable [OF m(1) k, of h1] m(3) by simp_all
    have ch: "hm_chains h1 m = bs" by (rule hm_chains_eq [OF r2(1)])
    have "hm_frame w1 h1 (hm_blocks m bs) w2 h1 (insert p (hm_blocks m bs))"
      unfolding node_frame_def using frame_acquire [OF a(4,6)] by simp
    then have "hm_frame w h {} w2 h1 (insert p (hm_blocks m bs))" by (rule node_frame_trans [OF m(4)])
    moreover have "hs_ok al inv owned (w2, h1) ?t"
      using a r2(1) m(2) z out by (simp add: hs_ok_def hm_ok_def ch block_at_def)
    moreover have "ks_set (hs_abs (w2, h1) ?t) = dom f" by (simp add: hs_abs_def keys_of_def hm_abs_def ch r2(2))
    ultimately have "hs_made owned al inv w h (w2, h1) ?t (dom f)" by (simp add: hs_made_def ch)
    then show ?thesis unfolding start a(1) using a(2) by auto
  qed
qed

lemma hset_new_cap_spec:
  assumes w: "inv w" and ks: "0 < ks" "16 + ks \<le> SIZE_MAX" and ag: "agree hash eq"
  shows "\<exists>st r w' h'. tda_hset_new_cap cap ks hash eq al w h = Some (st, r, w', h') \<and> inv w'
    \<and> (case r of None \<Rightarrow> st = TDA_STATUS_ERR_NO_MEM \<and> heap w' = heap w
       | Some t \<Rightarrow> st = TDA_STATUS_OK \<and> hs_made owned al inv w h (w', h') t {})"
proof -
  obtain st r w1 h1 where n: "tda_hmap_new_raw cap ks 0 hash eq al w h = Some (st, r, w1, h1)" "inv w1"
    "case r of None \<Rightarrow> st = TDA_STATUS_ERR_NO_MEM \<and> heap w1 = heap w \<and> h1 = h
       | Some m \<Rightarrow> st = TDA_STATUS_OK \<and> (\<exists>bs. hm_made owned al w h w1 h1 m bs Map.empty) \<and> hm_key_size m = ks \<and> hm_val_size m = 0
           \<and> hm_val_offset m = ks \<and> hm_hasher m = hash \<and> hm_eq m = eq"
    using hmap_new_raw_spec [OF w ks(1), of 0 ks hash eq cap h] ks(2) ag by auto
  show ?thesis
  proof (cases r)
    case None
    then show ?thesis using n ks(1) by (simp add: tda_hset_new_cap_def c_simps)
  next
    case (Some m)
    then obtain bs where m: "hm_made owned al w h w1 h1 m bs Map.empty" "hm_val_size m = 0" using n(3) by auto
    have "tda_hset_new_cap cap ks hash eq al w h = hset_wrap m w1 h1" using n(1) Some ks(1) by (simp add: tda_hset_new_cap_def c_simps)
    moreover obtain st2 r2 w2 h2 where k: "hset_wrap m w1 h1 = Some (st2, r2, w2, h2)" "inv w2"
      "case r2 of None \<Rightarrow> st2 = TDA_STATUS_ERR_NO_MEM \<and> heap w2 = heap w
       | Some t \<Rightarrow> st2 = TDA_STATUS_OK \<and> hset_map t = m \<and> hs_made owned al inv w h (w2, h2) t {}"
      using hset_wrap_spec [OF n(2) m] unfolding dom_empty by blast
    ultimately show ?thesis by (cases r2) auto
  qed
qed

lemma hset_copy_with_spec:
  assumes w: "inv w" and r: "hm_rep owned0 w h (hset_map s) bs" "hm_val_size (hset_map s) = 0"
  shows "\<exists>st res w' h'. tda_hset_copy_with w h s al = Some (st, res, w', h') \<and> inv w'
    \<and> (case res of None \<Rightarrow> st = TDA_STATUS_ERR_NO_MEM \<and> heap w' = heap w
       | Some t \<Rightarrow> st = TDA_STATUS_OK \<and> hm_like (hset_map t) (hset_map s)
           \<and> hs_made owned al inv w h (w', h') t (dom (hm_map w (hset_map s) (concat bs))))"
proof -
  obtain st res w1 h1 where c: "tda_hmap_copy_with w h (hset_map s) al = Some (st, res, w1, h1)" "inv w1"
    "case res of None \<Rightarrow> st = TDA_STATUS_ERR_NO_MEM \<and> heap w1 = heap w \<and> hm_frame w h {} w1 h1 {}
       | Some c \<Rightarrow> st = TDA_STATUS_OK \<and> hm_like c (hset_map s) \<and> (\<exists>cs. hm_made owned al w h w1 h1 c cs (hm_map w (hset_map s) (concat bs)))"
    using hmap_copy_with_spec [OF w r(1)] by blast
  show ?thesis
  proof (cases res)
    case None
    then show ?thesis using c by (simp add: tda_hset_copy_with_def)
  next
    case (Some m)
    then obtain cs where m: "hm_made owned al w h w1 h1 m cs (hm_map w (hset_map s) (concat bs))" "hm_like m (hset_map s)" using c(3) by auto
    have z: "hm_val_size m = 0" using m(2) r(2) by (simp add: hm_like_def)
    have "tda_hset_copy_with w h s al = hset_wrap m w1 h1" using c(1) Some by (simp add: tda_hset_copy_with_def)
    moreover obtain st2 r2 w2 h2 where k: "hset_wrap m w1 h1 = Some (st2, r2, w2, h2)" "inv w2"
      "case r2 of None \<Rightarrow> st2 = TDA_STATUS_ERR_NO_MEM \<and> heap w2 = heap w
       | Some t \<Rightarrow> st2 = TDA_STATUS_OK \<and> hset_map t = m \<and> hs_made owned al inv w h (w2, h2) t (dom (hm_map w (hset_map s) (concat bs)))"
      using hset_wrap_spec [OF c(2) m(1) z] by blast
    ultimately show ?thesis using m(2) by (cases r2) auto
  qed
qed

end

end
