(* ===== verification/Tda_HMap_Properties.thy ===== *)
theory Tda_HMap_Properties
  imports Tda_HMap_Assign Tda_HSet_Copies Tda_List_Properties
begin

text \<open>
  The properties of the hash map and the hash set: runs of calls refine runs on a dictionary and
  on a set of keys, a lookup finds what was put in, a walk meets every entry once, copies compare
  equal, and comparison is that of the maps.
\<close>

section \<open>Objects for the instances\<close>

text \<open>A map from bytes to bytes with two entries in one bucket, and a set of no keys.\<close>

definition jar_hash :: hasher where
  "jar_hash k = (case k of [] \<Rightarrow> 0 | x # xs \<Rightarrow> word_of_nat (unat x))"

definition jar_node :: "byte \<Rightarrow> byte \<Rightarrow> byte list" where
  "jar_node k v = replicate 16 0 @ [k] @ replicate 15 0 @ [v]"

definition jar_world :: "nat world" where
  "jar_world = empty_world\<lparr>heap := [Base 256 \<mapsto> replicate 72 0, Base 336 \<mapsto> replicate 64 0,
     Base 400 \<mapsto> jar_node 5 50, Base 448 \<mapsto> jar_node 13 130, Base 496 \<mapsto> replicate 72 0, Base 576 \<mapsto> replicate 8 0]\<rparr>"

definition jar_links :: hlinks where
  "jar_links = \<lparr>hl_nodes = [Base 400 \<mapsto> \<lparr>hn_next = Some (Base 448), hn_hash = 5\<rparr>, Base 448 \<mapsto> \<lparr>hn_next = None, hn_hash = 13\<rparr>],
     hl_arrays = [Base 336 \<mapsto> [None, None, None, None, None, Some (Base 400), None, None]]\<rparr>"

definition jar_map :: "nat hmap" where
  "jar_map = \<lparr>hm_self = Base 256, hm_buckets = Some (Base 336), hm_bucket_count = 8, hm_len = 2, hm_key_size = 1, hm_val_size = 1,
     hm_val_offset = 16, hm_hasher = jar_hash, hm_eq = (=), hm_al = c_heap\<rparr>"

definition jar_set :: "nat hset" where
  "jar_set = \<lparr>hset_self = Base 576, hset_map = \<lparr>hm_self = Base 496, hm_buckets = None, hm_bucket_count = 0, hm_len = 0,
     hm_key_size = 1, hm_val_size = 0, hm_val_offset = 1, hm_hasher = jar_hash, hm_eq = (=), hm_al = c_heap\<rparr>\<rparr>"

definition jar_chains :: "ptr list list" where
  "jar_chains = [[], [], [], [], [], [Base 400, Base 448], [], []]"

lemmas jar_defs = jar_world_def jar_links_def jar_map_def jar_set_def jar_node_def jar_chains_def empty_world_def libc_owned_def
  block_at_def PTRDIFF_MAX_num SIZE_MAX_num sizeof_tda_HMap_def sizeof_tda_HSet_def

lemma jar_agree: "agree jar_hash (=)"
  by (simp add: agree_def identity_equivp)

lemma jar_world_ok: "bump_ok jar_world"
  by (simp add: bump_ok_def jar_defs)

lemma jar_shape: "hm_shape jar_map" "hm_shape (hset_map jar_set)"
proof -
  have a: "tda_align_up 1 16 = Some 16" using tda_align_up_pow2 [of 4 1] by (simp add: SIZE_MAX_num)
  have p: "pow2_size 8" unfolding pow2_size_def by (rule exI [of _ 3]) simp
  show "hm_shape jar_map" "hm_shape (hset_map jar_set)"
    using a p jar_agree by (simp_all add: hm_shape_def entry_size_def jar_defs)
qed

lemma jar_entries: "entries_ok libc_owned jar_world jar_links jar_map (set (concat jar_chains))"
  by (simp add: entries_ok_def jar_defs entry_size_def hash_of_def hm_key_def jar_hash_def slice_def)

lemma all_below_8: "(\<forall>i < (8 :: nat). P i) \<longleftrightarrow> P 0 \<and> P 1 \<and> P 2 \<and> P 3 \<and> P 4 \<and> P 5 \<and> P 6 \<and> P 7"
  by (auto simp: All_less_Suc eval_nat_numeral)

lemma jar_placed: "placed jar_links 8 jar_chains"
  by (simp add: placed_def all_below_8 jar_defs hnext_def hash_of_def hash_slot_def)

lemma jar_ok: "hm_rep libc_owned jar_world jar_links jar_map jar_chains"
  using jar_shape jar_entries jar_placed by (simp add: hm_rep_def headed_def jar_defs)

lemma jar_set_ok: "hm_rep libc_owned jar_world jar_links (hset_map jar_set) []"
  using jar_shape by (simp add: hm_rep_def placed_def entries_ok_def jar_defs)

text \<open>An empty map beside it.\<close>

definition jar_other :: "nat hmap" where
  "jar_other = jar_map\<lparr>hm_self := Base 496, hm_buckets := None, hm_bucket_count := 0, hm_len := 0\<rparr>"

lemma jar_other_ok: "hm_rep libc_owned jar_world jar_links jar_other []"
proof -
  have "hm_shape jar_other" using jar_shape(1) by (auto simp: hm_shape_def entry_size_def jar_other_def)
  then show ?thesis by (simp add: hm_rep_def placed_def entries_ok_def jar_other_def) (simp add: jar_defs)
qed

lemma jar_vals: "hm_map jar_world jar_map (concat jar_chains) = [[5] \<mapsto> [50], [13] \<mapsto> [130]]"
  by (simp add: hm_map_def hm_key_def hm_val_def jar_defs slice_def fun_eq_iff)

lemma round_up_pow2_bounds:
  obtains r where "round_up_pow2 want = Some r" "if want \<le> 2 ^ 63 then (\<exists>k < 64. r = 2 ^ k) \<and> max 8 want \<le> r \<and> (r = 8 \<or> r < 2 * want) else r = 0"
proof -
  have "pow2_size 8" unfolding pow2_size_def by (rule exI [of _ 3]) simp
  from pow2_loop_ok [OF this, of want] obtain r where r: "pow2_loop 8 want = Some r"
    "r = 0 \<or> pow2_size r \<and> want \<le> r \<and> 8 \<le> r \<and> (8 < r \<longrightarrow> r < 2 * want)" "want \<le> 2 ^ 63 \<longrightarrow> r \<noteq> 0" by blast
  have "want \<le> 2 ^ 63" if r0: "r \<noteq> 0"
  proof -
    have "pow2_size r" using r(2) r0 by blast
    then obtain k where k: "k < 64" "r = 2 ^ k" by (auto simp: pow2_size_def)
    have "(2::nat) ^ k \<le> 2 ^ 63" using k(1) by (intro power_increasing) auto
    moreover have "want \<le> r" using r(2) r0 by blast
    ultimately show ?thesis using k(2) by simp
  qed
  then have z: "\<not> want \<le> 2 ^ 63 \<Longrightarrow> r = 0" by blast
  have "round_up_pow2 want = Some r" using r(1) by (simp add: round_up_pow2_def HMAP_BUCKETS_BASE_def)
  moreover have "if want \<le> 2 ^ 63 then (\<exists>k < 64. r = 2 ^ k) \<and> max 8 want \<le> r \<and> (r = 8 \<or> r < 2 * want) else r = 0"
  proof (cases "want \<le> 2 ^ 63")
    case True
    then have "pow2_size r" "want \<le> r" "8 \<le> r" "8 < r \<longrightarrow> r < 2 * want" using r(2,3) by blast+
    then show ?thesis using True by (auto simp: pow2_size_def)
  next
    case False
    then show ?thesis using z by simp
  qed
  ultimately show ?thesis by (rule that)
qed

lemma hmap_walk:
  assumes r: "hm_rep owned w h m bs"
  shows "tda_hmap_first_node h m = Some (hd_or (concat bs) None)"
    and "node_loop (\<lambda>p acc. do { q \<leftarrow> tda_hmap_node_next h m p; Some (acc @ [p], q) }) (hd_or (concat bs) None) [] = Some (concat bs)"
proof -
  show "tda_hmap_first_node h m = Some (hd_or (concat bs) None)" by (rule first_node_ok [OF r])
  have "\<exists>ps. node_loop (\<lambda>p acc. do { q \<leftarrow> tda_hmap_node_next h m p; Some (acc @ [p], q) }) (hd_or (concat bs) None) [] = Some ps \<and> concat bs = ps @ []"
    by (rule node_loop_rule [where Q = "\<lambda>rest acc. concat bs = acc @ rest"]) (use node_next_ok [OF r] in auto)
  then show "node_loop (\<lambda>p acc. do { q \<leftarrow> tda_hmap_node_next h m p; Some (acc @ [p], q) }) (hd_or (concat bs) None) [] = Some (concat bs)"
    by simp
qed

section \<open>Sizes at the limit\<close>

text \<open>
  The constructors for sizes of any kind, also those no well-formed map has (\<open>hm_shape\<close>): an array
  of buckets for a map without one does not depend on them.
\<close>

lemma node_bytes_mod: "hm_node_bytes m = (sizeof_tda_HMapNode + hm_val_offset m + hm_val_size m) mod (SIZE_MAX + 1)"
  by (simp add: hm_node_bytes_def size_add_def mod_add_left_eq)

lemma node_bytes_wrap:
  assumes "hm_val_offset m + hm_val_size m \<le> SIZE_MAX"
  shows "hm_node_bytes m < sizeof_tda_HMapNode \<longleftrightarrow> SIZE_MAX < sizeof_tda_HMapNode + hm_val_offset m + hm_val_size m"
proof (cases "SIZE_MAX < sizeof_tda_HMapNode + hm_val_offset m + hm_val_size m")
  case True
  then have "hm_node_bytes m = sizeof_tda_HMapNode + hm_val_offset m + hm_val_size m - (SIZE_MAX + 1)"
    using assms unfolding node_bytes_mod by (subst le_mod_geq) (simp_all add: sizeof_tda_HMapNode_def SIZE_MAX_num)
  then show ?thesis using True assms by simp
next
  case False
  then show ?thesis by (simp add: node_bytes_mod)
qed

lemma align_up_key:
  "tda_align_up ks 16 = (if SIZE_MAX < ks + 15 then None else Some (al16 ks))"
  using align_up_16 [of ks] is_pow2_c_pow2 [of 4]
  by (auto simp: TDA_DEFAULT_ALIGNMENT_def tda_align_up_def c_assert_def SIZE_MAX_num)

context allocator
begin

lemma hmap_reserve_fresh:
  assumes w: "inv w" and m: "hm_buckets m = None" "hm_bucket_count m = 0" "hm_len m = 0" "0 < hm_key_size m" "hm_al m = al"
  obtains (none) w' where "tda_hmap_reserve w h m cap = Some (TDA_STATUS_ERR_NO_MEM, w', h, m)" "inv w'" "heap w' = heap w"
  | (ok) w' h' b n where "tda_hmap_reserve w h m cap = Some (TDA_STATUS_OK, w', h', m\<lparr>hm_buckets := b, hm_bucket_count := n\<rparr>)"
      "inv w'" "\<And>q. heap w q \<noteq> None \<Longrightarrow> heap w' q = heap w q" "ASSERT_HMAP (m\<lparr>hm_buckets := b, hm_bucket_count := n\<rparr>) = Some ()"
proof -
  have A: "ASSERT_HMAP m = Some ()" using m by (simp add: ASSERT_HMAP_def c_simps)
  obtain n where n: "round_up_pow2 cap = Some n" "n = 0 \<or> pow2_size n" by (rule round_up_pow2_ok [of cap]) blast
  show thesis
  proof (cases "cap = 0 \<or> n = 0")
    case True
    have "m\<lparr>hm_buckets := None, hm_bucket_count := 0\<rparr> = m" using m by simp
    note ok = ok [where w' = w and h' = h and b = None and n = 0, unfolded this]
    show thesis using True ok none [of w] w n A m by (cases "cap = 0") (simp_all add: tda_hmap_reserve_def)
  next
    case False
    note p = pow2_size_facts [of n]
    show thesis
    proof (rule calloc_cases [OF w, of n sizeof_bucket])
      fix w1 assume "tda_calloc al w n sizeof_bucket = Some (None, w1)" "inv w1" "heap w1 = heap w"
      then show thesis using none [of w1] False n p A m by (simp add: tda_hmap_reserve_def rehash_def c_simps)
    next
      fix b w1 assume c: "tda_calloc al w n sizeof_bucket = Some (Some b, w1)" "inv w1" "heap w b = None"
        "heap w1 = (heap w)(b \<mapsto> replicate (n * sizeof_bucket) 0)"
      have "ASSERT_HMAP (m\<lparr>hm_buckets := Some b, hm_bucket_count := n\<rparr>) = Some ()"
        using False n p m by (simp add: ASSERT_HMAP_def c_simps)
      moreover have "tda_hmap_reserve w h m cap = Some (TDA_STATUS_OK, w1, h\<lparr>hl_arrays := (hl_arrays h)(b \<mapsto> replicate n None)\<rparr>,
          m\<lparr>hm_buckets := Some b, hm_bucket_count := n\<rparr>)"
        using calculation c(1) False n p A m by (simp add: tda_hmap_reserve_def rehash_def dealloc_null forget_buckets_def c_simps)
      moreover have "heap w1 q = heap w q" if "heap w q \<noteq> None" for q using that c(3,4) by auto
      ultimately show thesis using ok c(2) by metis
    qed
  qed
qed

lemma hmap_new_sizes:
  assumes w: "inv w" and ks: "0 < ks" and vo: "(if vs = 0 then Some ks else tda_align_up ks 16) = Some vo" "vo + vs \<le> SIZE_MAX"
  shows "\<exists>st r w' h'. tda_hmap_new_raw cap ks vs hash eq al w h = Some (st, r, w', h') \<and> inv w'
    \<and> (case r of None \<Rightarrow> st = TDA_STATUS_ERR_NO_MEM \<and> heap w' = heap w \<and> h' = h
       | Some m \<Rightarrow> st = TDA_STATUS_OK \<and> owned (hm_self m) \<and> heap w (hm_self m) = None \<and> block_at w' (hm_self m) sizeof_tda_HMap
           \<and> hm_len m = 0 \<and> hm_key_size m = ks \<and> hm_val_size m = vs \<and> hm_val_offset m = vo \<and> hm_al m = al)"
proof (rule alloc_cases [OF w, of sizeof_tda_HMap])
  show "sizeof_tda_HMap \<le> SIZE_MAX" by (simp add: sizeof_tda_HMap_def SIZE_MAX_def)
next
  fix w1 assume "tda_alloc al w sizeof_tda_HMap = Some (None, w1)" "inv w1" "heap w1 = heap w"
  then show ?thesis using ks vo by (simp add: tda_hmap_new_raw_def ckd_add_def c_simps)
next
  fix p w1 xs assume a: "tda_alloc al w sizeof_tda_HMap = Some (Some p, w1)" "inv w1" "owned p" "heap w p = None"
    "length xs = sizeof_tda_HMap" "heap w1 = (heap w)(p \<mapsto> xs)"
  define m where "m = \<lparr>hm_self = p, hm_buckets = None, hm_bucket_count = 0, hm_len = 0, hm_key_size = ks,
    hm_val_size = vs, hm_val_offset = vo, hm_hasher = hash, hm_eq = eq, hm_al = al\<rparr>"
  have m: "hm_buckets m = None" "hm_bucket_count m = 0" "hm_len m = 0" "0 < hm_key_size m" "hm_al m = al"
    using ks by (simp_all add: m_def)
  have start: "tda_hmap_new_raw cap ks vs hash eq al w h = do {
      (st, w2, h2, m2) \<leftarrow> (if cap > 0 then tda_hmap_reserve w1 h m cap else Some (TDA_STATUS_OK, w1, h, m));
      if TDA_STATUS_IS_ERR st then do { w3 \<leftarrow> tda_dealloc al w2 (Some p) sizeof_tda_HMap; Some (st, None, w3, h2) }
      else do { ASSERT_HMAP m2; Some (TDA_STATUS_OK, Some m2, w2, h2) } }"
    using ks vo a(1) by (simp add: tda_hmap_new_raw_def ckd_add_def c_simps m_def Let_def)
  have z: "tda_hmap_reserve w1 h m 0 = Some (TDA_STATUS_OK, w1, h, m)"
    using m by (simp add: tda_hmap_reserve_def ASSERT_HMAP_def c_simps)
  then have start: "tda_hmap_new_raw cap ks vs hash eq al w h = do {
      (st, w2, h2, m2) \<leftarrow> tda_hmap_reserve w1 h m cap;
      if TDA_STATUS_IS_ERR st then do { w3 \<leftarrow> tda_dealloc al w2 (Some p) sizeof_tda_HMap; Some (st, None, w3, h2) }
      else do { ASSERT_HMAP m2; Some (TDA_STATUS_OK, Some m2, w2, h2) } }"
    unfolding start by simp
  show ?thesis
  proof (rule hmap_reserve_fresh [OF a(2) m, of h cap])
    fix w2 assume r: "tda_hmap_reserve w1 h m cap = Some (TDA_STATUS_ERR_NO_MEM, w2, h, m)" "inv w2" "heap w2 = heap w1"
    then have "heap w2 p = Some xs" using a(6) by simp
    from dealloc_some [OF r(2) a(3) this a(5)] obtain w3 where
      "tda_dealloc al w2 (Some p) sizeof_tda_HMap = Some w3" "inv w3" "heap w3 = (heap w2)(p := None)" .
    moreover have "(heap w2)(p := None) = heap w" using r(3) a(4,6) by auto
    ultimately show ?thesis unfolding start r(1) by (simp add: TDA_STATUS_IS_ERR_def)
  next
    fix w2 h2 b n assume r: "tda_hmap_reserve w1 h m cap = Some (TDA_STATUS_OK, w2, h2, m\<lparr>hm_buckets := b, hm_bucket_count := n\<rparr>)"
      "inv w2" "\<And>q. heap w1 q \<noteq> None \<Longrightarrow> heap w2 q = heap w1 q"
      "ASSERT_HMAP (m\<lparr>hm_buckets := b, hm_bucket_count := n\<rparr>) = Some ()"
    then show ?thesis unfolding start r(1) using a(3-6) r(3) [of p]
      by (simp add: TDA_STATUS_IS_ERR_def m_def block_at_def)
  qed
qed

text \<open>A node that wraps is smaller than its header, so the first write into it is outside its block.\<close>

lemma hm_node_new_wraps:
  assumes w: "inv w" and m: "hm_al m = al" "hm_node_bytes m < sizeof_tda_HMapNode"
  shows "\<exists>r w1. tda_alloc al w (hm_node_bytes m) = Some (r, w1)
    \<and> hm_node_new m key val hv w h = (if r = None then Some (TDA_STATUS_ERR_NO_MEM, None, w1, h) else None)"
proof (rule alloc_cases [OF w, of "hm_node_bytes m"])
  show "hm_node_bytes m \<le> SIZE_MAX" using m(2) by (simp add: sizeof_tda_HMapNode_def SIZE_MAX_num)
next
  fix w1 assume "tda_alloc al w (hm_node_bytes m) = Some (None, w1)"
  then show ?thesis using m(1) by (simp add: hm_node_new_def)
next
  fix p w1 bs assume a: "tda_alloc al w (hm_node_bytes m) = Some (Some p, w1)" "length bs = hm_node_bytes m" "heap w1 = (heap w)(p \<mapsto> bs)"
  then have "mem_write w1 p sizeof_tda_HMapNode xs = None" for xs using m(2) by (simp add: mem_write_def)
  then show ?thesis using a(1) m(1) by (auto simp: hm_node_new_def hm_node_key_def Let_def bind_eq_None_conv)
qed

end

section \<open>Properties\<close>

text \<open>C4: any sequence of calls on a hash map (insertions, lookups that insert, removals by key and by node,
  clearing, reserving, shrinking), over any allocator of aligned blocks and whatever of it is refused, never
  aborts and ends; the chains stay whole, every entry in the bucket of its hash, foreign blocks and links
  are left alone, and the map stands for what the same calls make of a dictionary.\<close>

theorem hmap_refines_map:
  assumes A: "node_allocator al I owned" and w: "I w" and m: "hm_rep owned w h m bs" "hm_al m = al"
    and ok: "calls_allowed dict_allowed dict_step ops (hm_abs (w, h) m)"
  shows "\<exists>sts w' h' m' bs'. calls_run hmap_step ops (w, h) m = Some (sts, (w', h'), m') \<and> I w' \<and> hm_rep owned w' h' m' bs'
    \<and> hm_frame w h (hm_blocks m bs) w' h' (hm_blocks m' bs')
    \<and> abstract_run dict_step ops sts (hm_abs (w, h) m) (hm_abs (w', h') m') \<and> dc_map (hm_abs (w', h') m') = hm_map w' m' (concat bs')"
proof -
  have n: "hm_chains h m = bs" by (rule hm_chains_eq [OF m(1)])
  have k: "hm_ok al I owned (w, h) m" using w m by (simp add: hm_ok_def n)
  from node_allocator.hmap_run_refines [OF A k ok] obtain sts s' m' where
    "calls_run hmap_step ops (w, h) m = Some (sts, s', m')" "hm_ok al I owned s' m'" "hm_apart (w, h) m s' m'"
    "abstract_run dict_step ops sts (hm_abs (w, h) m) (hm_abs s' m')" by blast
  then show ?thesis by (cases s') (auto simp: hm_ok_def hm_apart_def hm_abs_def n)
qed

theorem hmap_refines_map_witness:
  "\<exists>sts w' h' m' bs'. calls_run hmap_step [HInsert [5] (Some [51]), HInsert [8] (Some [80]), HRemove [13], HShrink] (jar_world, jar_links) jar_map
       = Some (sts, (w', h'), m') \<and> hm_rep libc_owned w' h' m' bs'"
proof -
  have "calls_allowed dict_allowed dict_step [HInsert [5] (Some [51]), HInsert [8] (Some [80]), HRemove [13], HShrink] (hm_abs (jar_world, jar_links) jar_map)"
    by (auto simp: dict_allowed_def dict_step_def hm_abs_def jar_map_def val_of_def)
  from hmap_refines_map [OF bump_nodes.node_allocator_axioms jar_world_ok jar_ok _ this] show ?thesis
    by (simp add: jar_map_def) blast
qed

text \<open>C23: looking a key up, in a well-formed map whose hasher agrees with its equality, finds its entry if and
  only if there is one, wherever collisions put it, and the value read there is the one the map has for the
  key; nothing is allocated and the loop along the chain ends.\<close>

theorem hmap_lookup_finds:
  assumes "hm_rep owned w h m bs"
  shows "tda_hmap_contains w h m k = Some (hm_map w m (concat bs) k \<noteq> None)
    \<and> (\<exists>r. tda_hmap_get w h m k = Some r \<and> (case r of None \<Rightarrow> hm_map w m (concat bs) k = None
      | Some (p, off) \<Rightarrow> hm_map w m (concat bs) k \<noteq> None \<and> mem_read w p off (hm_val_size m) = hm_map w m (concat bs) k))"
  by (intro conjI hmap_lookup_ok [OF assms])

theorem hmap_lookup_finds_witness:
  "tda_hmap_contains jar_world jar_links jar_map [13] = Some True \<and> tda_hmap_contains jar_world jar_links jar_map [21] = Some False"
  using hmap_lookup_finds [OF jar_ok, of "[13]"] hmap_lookup_finds [OF jar_ok, of "[21]"] unfolding jar_vals by simp

text \<open>C24: a walk from \<open>tda_hmap_first_node\<close> by \<open>tda_hmap_node_next\<close> ends after as many nodes as the map has
  entries, all different; the keys it meets are pairwise different to the map's equality, and a key has an
  entry if and only if the walk meets one equal to it, with the value the map has for it.\<close>

theorem hmap_walk_meets_all:
  assumes r: "hm_rep owned w h m bs"
  shows "\<exists>start ps. tda_hmap_first_node h m = Some start
    \<and> node_loop (\<lambda>p acc. do { q \<leftarrow> tda_hmap_node_next h m p; Some (acc @ [p], q) }) start [] = Some ps
    \<and> tda_hmap_len m = Some (length ps) \<and> distinct ps
    \<and> (\<forall>p \<in> set ps. \<forall>q \<in> set ps. hm_eq m (hm_key w m p) (hm_key w m q) \<longrightarrow> p = q)
    \<and> (\<forall>p \<in> set ps. key_bytes w m p = Some (hm_key w m p) \<and> val_bytes w m p = hm_map w m (concat bs) (hm_key w m p))
    \<and> (\<forall>k. hm_map w m (concat bs) k \<noteq> None \<longleftrightarrow> (\<exists>p \<in> set ps. hm_eq m (hm_key w m p) k))"
proof -
  have s: "hm_shape m" and e: "entries_ok owned w h m (set (concat bs))" and d: "distinct (concat bs)" "hm_len m = length (concat bs)"
    using r by (simp_all add: hm_rep_def placed_def)
  have a: "agree (hm_hasher m) (hm_eq m)" using s by (simp add: hm_shape_def)
  have kv: "key_bytes w m p = Some (hm_key w m p) \<and> val_bytes w m p = hm_map w m (concat bs) (hm_key w m p)" if "p \<in> set (concat bs)" for p
    using entry_bytes(1,2) [OF s e that] hm_map_at [OF e a that agree_refl [OF a]] by (simp only: simp_thms)
  have "tda_hmap_len m = Some (length (concat bs))" using d(2) hm_rep_assert [OF r] by (simp add: tda_hmap_len_def)
  then show ?thesis
    by (intro exI [of _ "hd_or (concat bs) None"] exI [of _ "concat bs"] conjI hmap_walk [OF r] d(1) ballI kv)
      (use e hm_map_none_iff [of w m "concat bs"] in \<open>auto simp: entries_ok_def\<close>)
qed

theorem hmap_walk_meets_all_witness:
  "\<exists>start ps. tda_hmap_first_node jar_links jar_map = Some start
     \<and> node_loop (\<lambda>p acc. do { q \<leftarrow> tda_hmap_node_next jar_links jar_map p; Some (acc @ [p], q) }) start [] = Some ps
     \<and> tda_hmap_len jar_map = Some (length ps)"
  using hmap_walk_meets_all [OF jar_ok] by blast

text \<open>C25: a copy of a hash map, made on any allocator, compares equal to it by \<open>tda_hmap_eq\<close> and has blocks of
  its own, while the map that was copied has changed in nothing; a copy that runs out of memory leaves no
  block behind.\<close>

theorem hmap_copy_compares_equal:
  assumes A: "node_allocator al I owned" and w: "I w" and r: "hm_rep o2 w h m bs"
  shows "\<exists>st c w' h'. tda_hmap_copy_with w h m al = Some (st, c, w', h') \<and> I w' \<and> (case c of
      None \<Rightarrow> st = TDA_STATUS_ERR_NO_MEM \<and> heap w' = heap w
    | Some c \<Rightarrow> st = TDA_STATUS_OK \<and> tda_hmap_eq w' h' m c = Some True \<and> hm_rep o2 w' h' m bs
        \<and> (\<exists>cs. hm_rep owned w' h' c cs \<and> hm_map w' c (concat cs) = hm_map w m (concat bs) \<and> (\<forall>q \<in> hm_blocks c cs. heap w q = None)))"
proof -
  obtain st res w' h' where c: "tda_hmap_copy_with w h m al = Some (st, res, w', h')" "I w'" "case res of
      None \<Rightarrow> st = TDA_STATUS_ERR_NO_MEM \<and> heap w' = heap w \<and> hm_frame w h {} w' h' {}
    | Some c \<Rightarrow> st = TDA_STATUS_OK \<and> hm_like c m \<and> (\<exists>cs. hm_made owned al w h w' h' c cs (hm_map w m (concat bs)))"
    using node_allocator.hmap_copy_with_spec [OF A w r] by blast
  show ?thesis
  proof (cases res)
    case None
    then show ?thesis using c by auto
  next
    case (Some d)
    then obtain cs where n: "hm_made owned al w h w' h' d cs (hm_map w m (concat bs))" and l: "hm_like d m" "st = TDA_STATUS_OK" using c(3) by auto
    have rd: "hm_rep owned w' h' d cs" "hm_map w' d (concat cs) = hm_map w m (concat bs)" "\<forall>q \<in> hm_blocks d cs. heap w q = None"
      using n by (auto simp: hm_made_def node_frame_def frame_def)
    have keep: "hm_rep o2 w' h' m bs" "hm_map w' m (concat bs) = hm_map w m (concat bs)"
      using hm_made_keeps [OF n r] by (auto intro!: hm_map_cong)
    have "hm_self m \<noteq> hm_self d" using rd(3) hm_rep_live [OF r, of "hm_self m"] by (auto simp: hm_blocks_def)
    from hmap_eq_spec [OF keep(1) rd(1) _ _ _ this] have "tda_hmap_eq w' h' m d = Some True"
      using l(1) keep(2) rd(2) by (simp add: hm_like_def)
    then show ?thesis using Some c(1,2) l(2) keep(1) rd by auto
  qed
qed

theorem hmap_copy_compares_equal_witness:
  "\<exists>st c w' h'. tda_hmap_copy_with jar_world jar_links jar_map c_heap = Some (st, c, w', h')
     \<and> (\<forall>d. c = Some d \<longrightarrow> tda_hmap_eq w' h' jar_map d = Some True)"
  using hmap_copy_compares_equal [OF bump_nodes.node_allocator_axioms jar_world_ok jar_ok] by fastforce

text \<open>C26: comparing two hash maps of the same sizes and equality answers whether they are the same map from
  keys to values, however their entries lie in their buckets and whatever the two bucket counts are.\<close>

theorem hmap_eq_is_extensional:
  assumes "hm_rep oa w h a as" "hm_rep ob w h b bs" "hm_key_size a = hm_key_size b" "hm_val_size a = hm_val_size b"
    "hm_eq a = hm_eq b" "hm_self a \<noteq> hm_self b"
  shows "tda_hmap_eq w h a b = Some (hm_map w a (concat as) = hm_map w b (concat bs))"
  by (rule hmap_eq_spec [OF assms])

theorem hmap_eq_is_extensional_witness:
  "tda_hmap_eq jar_world jar_links (jar_map\<lparr>hm_self := Base 496\<rparr>) jar_map = Some True"
proof -
  have "hm_rep libc_owned jar_world jar_links (jar_map\<lparr>hm_self := Base 496\<rparr>) jar_chains"
    using jar_ok by (auto simp: hm_rep_def hm_shape_def entry_size_def entries_ok_def hm_key_def jar_defs)
  note eq = hmap_eq_is_extensional [OF this jar_ok]
  have "hm_key jar_world (jar_map\<lparr>hm_self := Base 496\<rparr>) = hm_key jar_world jar_map" "hm_val jar_world (jar_map\<lparr>hm_self := Base 496\<rparr>) = hm_val jar_world jar_map"
    by (simp_all add: fun_eq_iff hm_key_def hm_val_def)
  then have "hm_map jar_world (jar_map\<lparr>hm_self := Base 496\<rparr>) ps = hm_map jar_world jar_map ps" for ps
    by (intro ext) (simp add: hm_map_def)
  moreover have "hm_self jar_map \<noteq> Base 496" by (simp add: jar_map_def)
  ultimately show ?thesis using eq by simp
qed

text \<open>C5: any sequence of calls on a hash set, over any allocator of aligned blocks and whatever of it is
  refused, never aborts and ends, keeps the set well-formed, touches no foreign block, and leaves the set
  of keys the same calls make of an abstract set.\<close>

theorem hset_refines_set:
  assumes A: "node_allocator al I owned" and s: "hs_ok al I owned s t" and ok: "calls_allowed keys_allowed keys_step ops (hs_abs s t)"
  shows "\<exists>sts s' t'. calls_run hset_step ops s t = Some (sts, s', t') \<and> hs_ok al I owned s' t' \<and> hs_apart s t s' t'
    \<and> abstract_run keys_step ops sts (hs_abs s t) (hs_abs s' t')"
  using node_allocator.hset_run_refines [OF A s ok] by blast

theorem hset_refines_set_witness:
  "\<exists>sts s' t'. calls_run hset_step [SInsert [7], SRemove [9], SInsert [15], SClear] (jar_world, jar_links) jar_set = Some (sts, s', t')"
proof -
  have "hm_chains jar_links (hset_map jar_set) = []" by (rule hm_chains_eq [OF jar_set_ok])
  then have k: "hs_ok c_heap bump_ok libc_owned (jar_world, jar_links) jar_set"
    using jar_set_ok jar_world_ok by (simp add: hs_ok_def hm_ok_def hm_blocks_def) (simp add: jar_defs)
  have "calls_allowed keys_allowed keys_step [SInsert [7], SRemove [9], SInsert [15], SClear] (hs_abs (jar_world, jar_links) jar_set)"
    by (auto simp: keys_allowed_def keys_step_def hs_abs_def keys_of_def hm_abs_def jar_set_def)
  from hset_refines_set [OF bump_nodes.node_allocator_axioms k this] show ?thesis by blast
qed

text \<open>C27: after move assignment of one hash map to another, of one allocator or of two that share the memory,
  the target stands for what the source stood for and the source is empty, both well-formed and where they
  were; or memory ran out and both stand for what they did.\<close>

theorem hmap_move_assign_takes_all:
  assumes A: "node_allocator al I owned" and B: "node_allocator (hm_al s) I o2" and w: "I w"
    and s: "hm_rep o2 w h s ss" and t: "hm_rep owned w h t ts" "hm_al t = al"
    and e: "hm_key_size s = hm_key_size t" "hm_val_size s = hm_val_size t" and d: "hm_blocks s ss \<inter> hm_blocks t ts = {}"
    and one: "(al_self (hm_al s) = al_self al) = (hm_al s = al \<and> o2 = owned)"
  shows "\<exists>st w' h' s' t'. tda_hmap_move_assign w h s t = Some (st, w', h', s', t') \<and> I w'
    \<and> hm_moved owned o2 w s ss t ts st w' h' s' t'"
proof (cases "hm_al s = al \<and> o2 = owned")
  case True
  then have o: "hm_rep owned w h s ss" "hm_al s = al" "o2 = owned" using s by simp_all
  from node_allocator.hmap_move_assign_same [OF A w o(1,2) t e d] show ?thesis unfolding o(3) by (elim exE) (intro exI)
next
  case False
  then have "al_self (hm_al s) \<noteq> al_self al" unfolding one [symmetric] .
  from node_allocator.hmap_move_assign_across [OF A B w s t e d this] show ?thesis .
qed

theorem hmap_move_assign_takes_all_witness:
  "\<exists>st w' h' s' t'. tda_hmap_move_assign jar_world jar_links jar_map jar_other = Some (st, w', h', s', t')"
proof -
  have d: "hm_blocks jar_map jar_chains \<inter> hm_blocks jar_other [] = {}" by (simp add: hm_blocks_def jar_other_def jar_defs)
  have B: "node_allocator (hm_al jar_map) bump_ok libc_owned" using bump_nodes.node_allocator_axioms by (simp add: jar_map_def)
  have e: "hm_al jar_other = c_heap" "hm_key_size jar_map = hm_key_size jar_other" "hm_val_size jar_map = hm_val_size jar_other"
    "(al_self (hm_al jar_map) = al_self c_heap) = (hm_al jar_map = c_heap \<and> libc_owned = libc_owned)"
    by (simp_all add: jar_map_def jar_other_def)
  from hmap_move_assign_takes_all [OF bump_nodes.node_allocator_axioms B jar_world_ok jar_ok jar_other_ok e(1-3) d e(4)] show ?thesis by blast
qed

text \<open>Comparing two hash sets of the same key size and equality answers whether they have the same keys,
  whatever their buckets are.\<close>

lemma hset_eq_compares_sets:
  assumes "hm_rep oa w h (hset_map a) as" "hm_rep ob w h (hset_map b) bs" "hm_val_size (hset_map a) = 0" "hm_val_size (hset_map b) = 0"
    "hm_key_size (hset_map a) = hm_key_size (hset_map b)" "hm_eq (hset_map a) = hm_eq (hset_map b)" "hset_self a \<noteq> hset_self b"
  shows "tda_hset_eq w h a b = Some (ks_set (hs_abs (w, h) a) = ks_set (hs_abs (w, h) b))"
  using hset_eq_spec [OF assms] hm_chains_eq [OF assms(1)] hm_chains_eq [OF assms(2)]
  by (simp add: hs_abs_def keys_of_def hm_abs_def)

text \<open>C30: the constructor of a hash map for keys and values of any size. When rounding the size of the key up
  to the alignment passes \<open>SIZE_MAX\<close>, it aborts instead of returning an error. When key and value
  together pass it, the error is \<open>NO_MEM\<close> and nothing is touched. Otherwise it makes the map or is
  refused the memory, with the heap restored; but the size of the node around key and value is not checked,
  it is taken modulo \<open>SIZE_MAX + 1\<close>: when the header no longer fits in, the size of a node is less than
  that of its header, and making a node writes outside the block whenever the allocator grants it.\<close>

theorem hmap_sizes_at_limit:
  assumes A: "allocator al I owned" and w: "I w" and ks: "0 < ks" and vo: "vo = (if vs = 0 then ks else al16 ks)"
  shows "if 0 < vs \<and> SIZE_MAX < ks + 15 then tda_hmap_new_raw cap ks vs hash eq al w h = None
    else if SIZE_MAX < vo + vs then tda_hmap_new_raw cap ks vs hash eq al w h = Some (TDA_STATUS_ERR_NO_MEM, None, w, h)
    else \<exists>st r w' h'. tda_hmap_new_raw cap ks vs hash eq al w h = Some (st, r, w', h') \<and> I w'
      \<and> (case r of
           None \<Rightarrow> st = TDA_STATUS_ERR_NO_MEM \<and> heap w' = heap w \<and> h' = h
         | Some m \<Rightarrow> st = TDA_STATUS_OK \<and> block_at w' (hm_self m) sizeof_tda_HMap \<and> hm_len m = 0
             \<and> hm_node_bytes m = (sizeof_tda_HMapNode + vo + vs) mod (SIZE_MAX + 1)
             \<and> (SIZE_MAX < sizeof_tda_HMapNode + vo + vs \<longrightarrow> hm_node_bytes m < sizeof_tda_HMapNode
                 \<and> (\<forall>key val hv w1 h1. I w1 \<longrightarrow> (\<exists>p w2. tda_alloc al w1 (hm_node_bytes m) = Some (p, w2)
                      \<and> hm_node_new m key val hv w1 h1
                        = (if p = None then Some (TDA_STATUS_ERR_NO_MEM, None, w2, h1) else None)))))"
    (is "if ?large then _ else if ?over then _ else ?made")
proof (cases ?large)
  case True
  then show ?thesis using ks by (simp add: tda_hmap_new_raw_def align_up_key c_simps)
next
  case large: False
  then have v: "(if vs = 0 then Some ks else tda_align_up ks 16) = Some vo" using vo by (auto simp: align_up_key)
  have ?made if "\<not> ?over"
  proof -
    have fits: "vo + vs \<le> SIZE_MAX" using that by simp
    obtain st r w' h' where n: "tda_hmap_new_raw cap ks vs hash eq al w h = Some (st, r, w', h')" "I w'"
      "case r of None \<Rightarrow> st = TDA_STATUS_ERR_NO_MEM \<and> heap w' = heap w \<and> h' = h
       | Some m \<Rightarrow> st = TDA_STATUS_OK \<and> owned (hm_self m) \<and> heap w (hm_self m) = None \<and> block_at w' (hm_self m) sizeof_tda_HMap
           \<and> hm_len m = 0 \<and> hm_key_size m = ks \<and> hm_val_size m = vs \<and> hm_val_offset m = vo \<and> hm_al m = al"
      using allocator.hmap_new_sizes [OF A w ks v fits, of cap hash eq h] by blast
    show ?thesis
    proof (cases r)
      case None
      then show ?thesis using n by simp
    next
      case (Some m)
      then have m: "hm_al m = al" "hm_val_size m = vs" "hm_val_offset m = vo" using n(3) by simp_all
      note b = node_bytes_mod [of m, unfolded m] node_bytes_wrap [of m, unfolded m, OF fits]
      have "\<exists>p w2. tda_alloc al w1 (hm_node_bytes m) = Some (p, w2)
          \<and> hm_node_new m key val hv w1 h1 = (if p = None then Some (TDA_STATUS_ERR_NO_MEM, None, w2, h1) else None)"
        if "I w1" "SIZE_MAX < sizeof_tda_HMapNode + vo + vs" for key val hv w1 h1
        by (rule allocator.hm_node_new_wraps [OF A that(1) m(1)]) (simp only: b(2) that(2))
      moreover have "SIZE_MAX < sizeof_tda_HMapNode + vo + vs \<Longrightarrow> hm_node_bytes m < sizeof_tda_HMapNode" by (simp only: b(2))
      ultimately show ?thesis using n Some b(1) by (intro exI [of _ st] exI [of _ r] exI [of _ w'] exI [of _ h']) simp
    qed
  qed
  then show ?thesis using large ks v by (auto simp: tda_hmap_new_raw_def ckd_add_def c_simps)
qed

theorem hmap_sizes_at_limit_witness:
  "\<exists>st r w' h'. tda_hmap_new_raw 8 16 (SIZE_MAX - 16) jar_hash (=) c_heap empty_world jar_links = Some (st, r, w', h')
    \<and> (case r of None \<Rightarrow> heap w' = heap empty_world | Some m \<Rightarrow> hm_node_bytes m < sizeof_tda_HMapNode)"
proof -
  have b: "bump_ok empty_world" by (simp add: bump_ok_def empty_world_def PTRDIFF_MAX_num)
  have k: "16 = (if SIZE_MAX - 16 = 0 then 16 else al16 16)" "\<not> (0 < SIZE_MAX - 16 \<and> SIZE_MAX < 16 + 15)"
    "\<not> SIZE_MAX < 16 + (SIZE_MAX - 16)" "SIZE_MAX < sizeof_tda_HMapNode + 16 + (SIZE_MAX - 16)"
    by (simp_all add: al16_def SIZE_MAX_num sizeof_tda_HMapNode_def)
  from hmap_sizes_at_limit [OF bump.allocator_axioms b _ k(1), of 8 jar_hash "(=)" jar_links]
  show ?thesis
    unfolding if_not_P [OF k(2)] if_not_P [OF k(3)]
  proof (rule revcut_rl, goal_cases)
    case 2
    then show ?case
    proof (elim exE conjE, goal_cases)
      case (1 st r w' h')
      have "case r of None \<Rightarrow> heap w' = heap empty_world | Some m \<Rightarrow> hm_node_bytes m < sizeof_tda_HMapNode"
        using 1(3) k(4) by (cases r) (simp_all add: SIZE_MAX_num sizeof_tda_HMapNode_def)
      then show ?case using 1(1) by blast
    qed
  qed simp
qed

text \<open>C31: the loop that doubles the number of buckets ends, at the least power of two from eight on that is
  at least what is asked for, or at zero when no power of two of 64 bits is.\<close>

theorem round_up_pow2_is_least:
  "\<exists>r. round_up_pow2 want = Some r
    \<and> (if want \<le> 2 ^ 63 then (\<exists>k < 64. r = 2 ^ k) \<and> max 8 want \<le> r \<and> (r = 8 \<or> r < 2 * want) else r = 0)"
  using round_up_pow2_bounds [of want] by blast

end
