(* ===== verification/Tda_Print.thy ===== *)
theory Tda_Print
  imports Tda_Log Tda_Arr Tda_Stack Tda_Queue Tda_PQueue Tda_Bitset Tda_List Tda_HSet
begin

text \<open>
  Printing: \<open>src/core/print.c\<close>, the printing of \<open>include/tda/core/span.h\<close> and the \<open>fprint\<close> and
  \<open>print\<close> functions of the containers. A \<open>FILE\<close> is what has been written to it, a \<open>string\<close>; the
  \<open>print\<close> functions are given what has been written to \<open>stdout\<close>. A printer (\<open>tda_FPrint\<close>) is
  handed the bytes of an element and writes to the stream. Whether the C library could write is
  not asked by the code. The two printers of floating-point numbers hand over to \<open>%g\<close> and are
  not modelled.
\<close>

type_synonym stream = string

type_synonym tda_FPrint = "byte list \<Rightarrow> stream \<Rightarrow> stream option"

definition fputs :: "string \<Rightarrow> stream \<Rightarrow> stream" where
  "fputs txt stream = stream @ txt"

section \<open>The formats of the C library the printers use\<close>

text \<open>Reading a number of so many bytes, lowest byte first, unsigned and in two's complement.\<close>

definition le_uint :: "byte list \<Rightarrow> nat" where
  "le_uint bs = horner_sum unat 256 bs"

definition le_sint :: "byte list \<Rightarrow> int" where
  "le_sint bs = (if 2 * le_uint bs < 256 ^ length bs then int (le_uint bs) else int (le_uint bs) - 256 ^ length bs)"

text \<open>\<open>%d\<close> and its like, and \<open>%02x\<close> of a byte.\<close>

definition show_int :: "int \<Rightarrow> string" where
  "show_int i = (if i < 0 then ''-'' @ show_size (nat (- i)) else show_size (nat i))"

definition hex_digit :: "nat \<Rightarrow> char" where
  "hex_digit d = (if d < 10 then char_of (48 + d) else char_of (87 + d))"

definition show_hex2 :: "nat \<Rightarrow> string" where
  "show_hex2 n = [hex_digit (n div 16), hex_digit (n mod 16)]"

text \<open>\<open>isprint\<close> in the "C" locale, the one a program starts in.\<close>

definition c_isprint :: "byte \<Rightarrow> bool" where
  "c_isprint c \<longleftrightarrow> 32 \<le> unat c \<and> unat c < 127"

section \<open>The printers\<close>

text \<open>\<open>DEFINE_FPRINT\<close> at an unsigned and at a signed type of \<open>n\<close> bytes.\<close>

definition fprint_uint :: "nat \<Rightarrow> tda_FPrint" where
  "fprint_uint n val stream = do {
     c_assert (n \<le> length val);
     Some (fputs (show_size (le_uint (take n val))) stream)
   }"

definition fprint_sint :: "nat \<Rightarrow> tda_FPrint" where
  "fprint_sint n val stream = do {
     c_assert (n \<le> length val);
     Some (fputs (show_int (le_sint (take n val))) stream)
   }"

definition tda_fprint_i8 :: tda_FPrint where "tda_fprint_i8 = fprint_sint 1"

definition tda_fprint_i16 :: tda_FPrint where "tda_fprint_i16 = fprint_sint 2"

definition tda_fprint_i32 :: tda_FPrint where "tda_fprint_i32 = fprint_sint 4"

definition tda_fprint_i64 :: tda_FPrint where "tda_fprint_i64 = fprint_sint 8"

definition tda_fprint_u8 :: tda_FPrint where "tda_fprint_u8 = fprint_uint 1"

definition tda_fprint_u16 :: tda_FPrint where "tda_fprint_u16 = fprint_uint 2"

definition tda_fprint_u32 :: tda_FPrint where "tda_fprint_u32 = fprint_uint 4"

definition tda_fprint_u64 :: tda_FPrint where "tda_fprint_u64 = fprint_uint 8"

definition tda_fprint_size :: tda_FPrint where "tda_fprint_size = fprint_uint 8"

definition tda_fprint_ptrdiff :: tda_FPrint where "tda_fprint_ptrdiff = fprint_sint 8"

definition tda_fprint_bool :: tda_FPrint where
  "tda_fprint_bool val stream = do {
     c_assert (val \<noteq> []);
     Some (fputs (if hd val \<noteq> 0 then ''true'' else ''false'') stream)
   }"

definition tda_fprint_char :: tda_FPrint where
  "tda_fprint_char val stream = do {
     c_assert (val \<noteq> []);
     let c = hd val;
     Some (fputs (if c_isprint c then [char_of (unat c)] else char_of (92 :: nat) # ''x'' @ show_hex2 (unat c)) stream)
   }"

text \<open>The operand is a pointer, null or not, and \<open>str p\<close> the bytes of the string at \<open>p\<close>.\<close>

definition tda_fprint_cstr :: "(nat \<Rightarrow> byte list) \<Rightarrow> nat option \<Rightarrow> stream \<Rightarrow> stream" where
  "tda_fprint_cstr str val stream = (case val of
      None \<Rightarrow> fputs ''null'' stream
    | Some p \<Rightarrow> fputs ([char_of (34 :: nat)] @ map (\<lambda>c. char_of (unat c)) (str p) @ [char_of (34 :: nat)]) stream)"

section \<open>Spans\<close>

text \<open>The body of the loops over indices: a comma between two elements, then the element.\<close>

definition print_sep :: "bool \<Rightarrow> stream \<Rightarrow> stream" where
  "print_sep first stream = (if first then stream else fputs '', '' stream)"

definition tda_span_fprint :: "'s world \<Rightarrow> tda_Span \<Rightarrow> stream \<Rightarrow> tda_FPrint \<Rightarrow> stream option" where
  "tda_span_fprint w self stream fprint = do {
     TDA_SPAN_ASSERT self;
     s \<leftarrow> for_loop [0..<sp_len self] (\<lambda>i s. do {
         (p, off) \<leftarrow> tda_span_get self i;
         x \<leftarrow> mem_read w p off (sp_elem_size self);
         fprint x (print_sep (i = 0) s)
       }) (fputs ''['' stream);
     Some (fputs ('']'' @ newline) s)
   }"

definition tda_span_mut_fprint :: "'s world \<Rightarrow> tda_Span \<Rightarrow> stream \<Rightarrow> tda_FPrint \<Rightarrow> stream option" where
  "tda_span_mut_fprint w self stream fprint = do {
     TDA_SPAN_ASSERT self;
     s \<leftarrow> tda_span_mut_to_span self;
     tda_span_fprint w s stream fprint
   }"

definition tda_span_print :: "'s world \<Rightarrow> tda_Span \<Rightarrow> tda_FPrint \<Rightarrow> stream \<Rightarrow> stream option" where
  "tda_span_print w self fprint stdout = do { TDA_SPAN_ASSERT self; tda_span_fprint w self stdout fprint }"

definition tda_span_mut_print :: "'s world \<Rightarrow> tda_Span \<Rightarrow> tda_FPrint \<Rightarrow> stream \<Rightarrow> stream option" where
  "tda_span_mut_print w self fprint stdout = do {
     TDA_SPAN_ASSERT self;
     s \<leftarrow> tda_span_mut_to_span self;
     tda_span_fprint w s stdout fprint
   }"

section \<open>Containers in one block, and the adapters\<close>

definition tda_vec_fprint :: "'s world \<Rightarrow> 's vec \<Rightarrow> stream \<Rightarrow> tda_FPrint \<Rightarrow> stream option" where
  "tda_vec_fprint w self stream fprint = do {
     ASSERT_VEC self;
     s \<leftarrow> tda_vec_to_span self;
     tda_span_fprint w s stream fprint
   }"

definition tda_vec_print :: "'s world \<Rightarrow> 's vec \<Rightarrow> tda_FPrint \<Rightarrow> stream \<Rightarrow> stream option" where
  "tda_vec_print w self fprint stdout = do { ASSERT_VEC self; tda_vec_fprint w self stdout fprint }"

definition tda_arr_fprint :: "'s world \<Rightarrow> 's arr \<Rightarrow> stream \<Rightarrow> tda_FPrint \<Rightarrow> stream option" where
  "tda_arr_fprint w self stream fprint = do {
     ASSERT_ARR self;
     s \<leftarrow> tda_arr_to_span self;
     tda_span_fprint w s stream fprint
   }"

definition tda_arr_print :: "'s world \<Rightarrow> 's arr \<Rightarrow> tda_FPrint \<Rightarrow> stream \<Rightarrow> stream option" where
  "tda_arr_print w self fprint stdout = do { ASSERT_ARR self; tda_arr_fprint w self stdout fprint }"

definition tda_deque_fprint :: "'s world \<Rightarrow> 's deque \<Rightarrow> stream \<Rightarrow> tda_FPrint \<Rightarrow> stream option" where
  "tda_deque_fprint w self stream fprint = do {
     ASSERT_DEQUE self;
     s \<leftarrow> for_loop [0..<deque_len self] (\<lambda>i s. do {
         (p, off) \<leftarrow> deque_elem_at self i;
         x \<leftarrow> mem_read w p off (deque_elem_size self);
         fprint x (print_sep (i = 0) s)
       }) (fputs ''['' stream);
     Some (fputs ('']'' @ newline) s)
   }"

definition tda_deque_print :: "'s world \<Rightarrow> 's deque \<Rightarrow> tda_FPrint \<Rightarrow> stream \<Rightarrow> stream option" where
  "tda_deque_print w self fprint stdout = do { ASSERT_DEQUE self; tda_deque_fprint w self stdout fprint }"

definition tda_queue_fprint :: "'s world \<Rightarrow> 's queue \<Rightarrow> stream \<Rightarrow> tda_FPrint \<Rightarrow> stream option" where
  "tda_queue_fprint w self stream fprint = tda_deque_fprint w (queue_deque self) stream fprint"

definition tda_queue_print :: "'s world \<Rightarrow> 's queue \<Rightarrow> tda_FPrint \<Rightarrow> stream \<Rightarrow> stream option" where
  "tda_queue_print w self fprint stdout = tda_deque_print w (queue_deque self) fprint stdout"

definition tda_stack_fprint :: "'s world \<Rightarrow> 's stack \<Rightarrow> stream \<Rightarrow> tda_FPrint \<Rightarrow> stream option" where
  "tda_stack_fprint w self stream fprint = tda_vec_fprint w (stack_vec self) stream fprint"

definition tda_stack_print :: "'s world \<Rightarrow> 's stack \<Rightarrow> tda_FPrint \<Rightarrow> stream \<Rightarrow> stream option" where
  "tda_stack_print w self fprint stdout = tda_vec_print w (stack_vec self) fprint stdout"

definition tda_pqueue_fprint :: "'s world \<Rightarrow> 's pqueue \<Rightarrow> stream \<Rightarrow> tda_FPrint \<Rightarrow> stream option" where
  "tda_pqueue_fprint w self stream fprint = tda_vec_fprint w (pqueue_vec self) stream fprint"

definition tda_pqueue_print :: "'s world \<Rightarrow> 's pqueue \<Rightarrow> tda_FPrint \<Rightarrow> stream \<Rightarrow> stream option" where
  "tda_pqueue_print w self fprint stdout = tda_vec_print w (pqueue_vec self) fprint stdout"

section \<open>Sets of indices\<close>

text \<open>The state of the loop is the flag \<open>first\<close> and the stream.\<close>

partial_function (option) bits_print_loop ::
  "'s world \<Rightarrow> 's bitset \<Rightarrow> nat \<Rightarrow> bool \<times> stream \<Rightarrow> (bool \<times> stream) option" where
  "bits_print_loop w self from st = do {
     r \<leftarrow> tda_bitset_find_next w self from;
     (case r of
        None \<Rightarrow> Some st
      | Some idx \<Rightarrow> bits_print_loop w self (idx + 1) (False, fputs (show_size idx) (print_sep (fst st) (snd st))))
   }"

definition tda_bitset_fprint :: "'s world \<Rightarrow> 's bitset \<Rightarrow> stream \<Rightarrow> stream option" where
  "tda_bitset_fprint w self stream = do {
     ASSERT_BITSET w self;
     (first, s) \<leftarrow> bits_print_loop w self 0 (True, fputs ''{'' stream);
     Some (fputs (''}'' @ newline) s)
   }"

definition tda_bitset_print :: "'s world \<Rightarrow> 's bitset \<Rightarrow> stream \<Rightarrow> stream option" where
  "tda_bitset_print w self stdout = tda_bitset_fprint w self stdout"

section \<open>Containers of nodes\<close>

definition tda_list_fprint :: "'s world \<Rightarrow> nodes \<Rightarrow> 's llist \<Rightarrow> stream \<Rightarrow> tda_FPrint \<Rightarrow> stream option" where
  "tda_list_fprint w ns self stream fprint = do {
     ASSERT_LIST self;
     s \<leftarrow> node_loop (\<lambda>p s. do {
         x \<leftarrow> node_elem w (list_elem_size self) p;
         s1 \<leftarrow> fprint x (print_sep (Some p = list_head self) s);
         n \<leftarrow> ns p;
         Some (s1, ln_next n)
       }) (list_head self) (fputs ''['' stream);
     Some (fputs ('']'' @ newline) s)
   }"

definition tda_list_print :: "'s world \<Rightarrow> nodes \<Rightarrow> 's llist \<Rightarrow> tda_FPrint \<Rightarrow> stream \<Rightarrow> stream option" where
  "tda_list_print w ns self fprint stdout = do { ASSERT_LIST self; tda_list_fprint w ns self stdout fprint }"

definition tda_hmap_fprint ::
  "'s world \<Rightarrow> hlinks \<Rightarrow> 's hmap \<Rightarrow> stream \<Rightarrow> tda_FPrint \<Rightarrow> tda_FPrint \<Rightarrow> stream option" where
  "tda_hmap_fprint w h self stream key_fprint val_fprint = do {
     ASSERT_HMAP self;
     node \<leftarrow> first_from h self 0;
     (first, s) \<leftarrow> node_loop (\<lambda>p (first, s). do {
         k \<leftarrow> key_bytes w self p;
         s1 \<leftarrow> key_fprint k (print_sep first s);
         v \<leftarrow> val_bytes w self p;
         s2 \<leftarrow> val_fprint v (fputs '': '' s1);
         nxt \<leftarrow> tda_hmap_node_next h self p;
         Some ((False, s2), nxt)
       }) node (True, fputs ''{'' stream);
     Some (fputs (''}'' @ newline) s)
   }"

definition tda_hmap_print :: "'s world \<Rightarrow> hlinks \<Rightarrow> 's hmap \<Rightarrow> tda_FPrint \<Rightarrow> tda_FPrint \<Rightarrow> stream \<Rightarrow> stream option" where
  "tda_hmap_print w h self key_fprint val_fprint stdout = tda_hmap_fprint w h self stdout key_fprint val_fprint"

definition tda_hset_fprint :: "'s world \<Rightarrow> hlinks \<Rightarrow> 's hset \<Rightarrow> stream \<Rightarrow> tda_FPrint \<Rightarrow> stream option" where
  "tda_hset_fprint w h self stream fprint = do {
     node \<leftarrow> tda_hset_first_node h self;
     (first, s) \<leftarrow> node_loop (\<lambda>p (first, s). do {
         k \<leftarrow> key_bytes w (hset_map self) p;
         s1 \<leftarrow> fprint k (print_sep first s);
         nxt \<leftarrow> tda_hset_node_next h self p;
         Some ((False, s1), nxt)
       }) node (True, fputs ''{'' stream);
     Some (fputs (''}'' @ newline) s)
   }"

definition tda_hset_print :: "'s world \<Rightarrow> hlinks \<Rightarrow> 's hset \<Rightarrow> tda_FPrint \<Rightarrow> stream \<Rightarrow> stream option" where
  "tda_hset_print w h self fprint stdout = tda_hset_fprint w h self stdout fprint"

end
