(* ===== verification/Tda_Print_Laws.thy ===== *)
theory Tda_Print_Laws
  imports Tda_Print Tda_Bitset_Laws Tda_Deque_Laws Tda_List_Laws Tda_HSet_Copies
begin

text \<open>
  What printing writes. A printer that appends the text of an element (\<open>printer\<close>) is all a
  container needs to print its elements between brackets with commas between them; of a printer
  whose texts differ and hold no comma (\<open>token_printer\<close>) the line tells the elements. The
  printers of the integers are such.
\<close>

section \<open>Lines\<close>

fun commas :: "string list \<Rightarrow> string" where
  "commas [] = []"
| "commas [t] = t"
| "commas (t # u # ts) = t @ '', '' @ commas (u # ts)"

definition bracketed :: "string \<Rightarrow> string list \<Rightarrow> string \<Rightarrow> string" where
  "bracketed l ts r = l @ commas ts @ r @ newline"

lemma commas_Cons: "commas (t # ts) = (if ts = [] then t else t @ '', '' @ commas ts)"
  by (cases ts) simp_all

lemma commas_snoc: "commas (ts @ [t]) = print_sep (ts = []) (commas ts) @ t"
  by (induction ts) (simp_all add: commas_Cons print_sep_def fputs_def)

lemma print_sep_append: "print_sep b (s @ t) = s @ print_sep b t"
  by (simp add: print_sep_def fputs_def)

lemma print_sep_Cons: "print_sep b (c # t) = c # print_sep b t"
  by (simp add: print_sep_def fputs_def)

text \<open>The first text of a line ends before the first comma, so a line tells its texts apart.\<close>

lemma takeWhile_commas: "CHR '','' \<notin> set t \<Longrightarrow> takeWhile (\<lambda>c. c \<noteq> CHR '','') (commas (t # ts)) = t"
  by (cases ts) (auto simp: takeWhile_append takeWhile_eq_all_conv)

lemma commas_inj:
  assumes "\<forall>t \<in> set ts \<union> set us. t \<noteq> [] \<and> CHR '','' \<notin> set t" "commas ts = commas us"
  shows "ts = us"
  using assms
proof (induction ts arbitrary: us)
  case Nil
  then show ?case by (cases us) (auto simp: commas_Cons split: if_splits)
next
  case (Cons t ts)
  then obtain u vs where us: "us = u # vs" by (cases us) (auto simp: commas_Cons split: if_splits)
  have "t = u" using takeWhile_commas [of t ts] takeWhile_commas [of u vs] Cons.prems us by auto
  moreover have "commas ts = commas vs"
    using Cons.prems us \<open>t = u\<close> by (auto simp: commas_Cons split: if_splits)
  then have "ts = vs" using Cons.prems us by (intro Cons.IH) auto
  ultimately show ?case by (simp add: us)
qed

section \<open>Numbers\<close>

text \<open>Reading a line of digits.\<close>

definition read_dec :: "string \<Rightarrow> nat" where
  "read_dec cs = foldl (\<lambda>n c. 10 * n + (of_char c - 48)) 0 cs"

definition is_digit :: "char \<Rightarrow> bool" where
  "is_digit c \<longleftrightarrow> 48 \<le> (of_char c :: nat) \<and> (of_char c :: nat) < 58"

lemma digit_char: "d < 10 \<Longrightarrow> (of_char (char_of (48 + d)) :: nat) = 48 + d"
  by simp

lemma read_show_size: "read_dec (show_size n) = n"
proof (induction n rule: show_size.induct)
  case (1 n)
  show ?case
  proof (cases "n < 10")
    case True
    then show ?thesis using digit_char [of n] by (subst show_size.simps) (simp add: read_dec_def)
  next
    case False
    then have "read_dec (show_size (n div 10)) = n div 10" by (rule 1)
    then show ?thesis using False digit_char [of "n mod 10"] by (subst show_size.simps) (simp add: read_dec_def)
  qed
qed

lemma show_size_digits: "c \<in> set (show_size n) \<Longrightarrow> is_digit c"
proof (induction n rule: show_size.induct)
  case (1 n)
  show ?case
  proof (cases "n < 10")
    case True
    then show ?thesis using 1(2) digit_char [of n] by (subst (asm) show_size.simps) (auto simp: is_digit_def)
  next
    case False
    then have "c \<in> set (show_size (n div 10)) \<or> c = char_of (48 + n mod 10)"
      using 1(2) by (subst (asm) show_size.simps) auto
    then show ?thesis using 1(1) False digit_char [of "n mod 10"] by (auto simp: is_digit_def)
  qed
qed

lemma show_size_nonempty [simp]: "show_size n \<noteq> []"
  by (subst show_size.simps) simp

lemma show_size_inj: "show_size m = show_size n \<Longrightarrow> m = n"
  by (metis read_show_size)

lemma show_size_no: "\<not> is_digit c \<Longrightarrow> c \<notin> set (show_size n)"
  using show_size_digits by blast

lemma not_digits: "\<not> is_digit CHR '',''" "\<not> is_digit CHR ''-''"
  by (simp_all add: is_digit_def)

lemma show_int_inj:
  assumes "show_int i = show_int j"
  shows "i = j"
proof -
  have "hd (show_size n) \<noteq> CHR ''-''" for n
    using show_size_no [OF not_digits(2), of n] hd_in_set [OF show_size_nonempty, of n] by metis
  then have "(i < 0) = (j < 0)" using assms by (auto simp: show_int_def split: if_splits) (metis list.sel(1))+
  then show ?thesis using assms by (auto simp: show_int_def dest: show_size_inj split: if_splits)
qed

lemma byte_bound: "unat (b :: byte) < 256"
proof -
  have "unat b < 2 ^ LENGTH(8)" by (rule unsigned_less)
  then show ?thesis by simp
qed

lemma le_uint_bound: "le_uint bs < 256 ^ length bs"
proof (induction bs)
  case (Cons b bs)
  have "unat b < 256" by (rule byte_bound)
  then show ?case using Cons by (simp add: le_uint_def)
qed (simp add: le_uint_def)

lemma base_digits: "x < 256 \<Longrightarrow> y < 256 \<Longrightarrow> x + 256 * a = y + 256 * b \<Longrightarrow> x = y \<and> a = (b :: nat)"
proof -
  assume e: "x < 256" "y < 256" "x + 256 * a = y + 256 * b"
  have "(x + 256 * a) mod 256 = (y + 256 * b) mod 256" using e(3) by simp
  then have "x = y" using e(1,2) by simp
  then show ?thesis using e(3) by simp
qed

lemma le_uint_inj: "length a = length b \<Longrightarrow> le_uint a = le_uint b \<Longrightarrow> a = b"
proof (induction a b rule: list_induct2)
  case (Cons x xs y ys)
  have "unat x < 256" "unat y < 256" by (rule byte_bound)+
  moreover have "unat x + 256 * le_uint xs = unat y + 256 * le_uint ys" using Cons.prems by (simp add: le_uint_def)
  ultimately have "unat x = unat y \<and> le_uint xs = le_uint ys" by (intro base_digits)
  then show ?case using Cons.IH by (auto intro: unsigned_word_eqI)
qed simp

lemma le_sint_inj:
  assumes "length a = length b" "le_sint a = le_sint b"
  shows "a = b"
proof -
  define M :: nat where "M = 256 ^ length a"
  have M: "le_uint a < M" "le_uint b < M" "256 ^ length b = int M" "256 ^ length a = int M" "256 ^ length b = M" "256 ^ length a = M"
    using le_uint_bound [of a] le_uint_bound [of b] assms(1) by (simp_all add: M_def)
  have "le_uint a = le_uint b" using assms(2) M(1,2) unfolding le_sint_def M(3-6) by (auto split: if_splits)
  then show ?thesis by (rule le_uint_inj [OF assms(1)])
qed

section \<open>Printers\<close>

locale printer =
  fixes fprint :: tda_FPrint and tok :: "byte list \<Rightarrow> string" and es :: nat
  assumes prints: "length x = es \<Longrightarrow> fprint x s = Some (s @ tok x)"
begin

lemma print_loop:
  assumes at: "\<And>i. i < length xs \<Longrightarrow> \<exists>p off. at i = Some (p, off) \<and> mem_read w p off es = Some (xs ! i)"
    and x: "\<And>x. x \<in> set xs \<Longrightarrow> length x = es"
  shows "for_loop [0..<length xs] (\<lambda>i s. do { (p, off) \<leftarrow> at i; x \<leftarrow> mem_read w p off es; fprint x (print_sep (i = 0) s) }) s
    = Some (s @ commas (map tok xs))"
proof -
  let ?Q = "\<lambda>i t. t = s @ commas (map tok (take i xs))"
  let ?f = "\<lambda>i s. do { (p, off) \<leftarrow> at i; x \<leftarrow> mem_read w p off es; fprint x (print_sep (i = 0) s) }"
  have "\<exists>t. for_loop [0..<length xs] ?f s = Some t \<and> ?Q (length xs) t"
  proof (rule for_loop_inv [of ?Q])
    fix i t assume i: "i < length xs" and t: "?Q i t"
    obtain p off where "at i = Some (p, off)" "mem_read w p off es = Some (xs ! i)" using at [OF i] by blast
    moreover have "take i xs = [] \<longleftrightarrow> i = 0" using i by (cases xs) auto
    ultimately show "\<exists>t'. ?f i t = Some t' \<and> ?Q (Suc i) t'"
      using i t x [of "xs ! i"] by (simp add: prints take_Suc_conv_app_nth commas_snoc print_sep_append)
  qed simp
  then show ?thesis by simp
qed

lemma span_fprint_ok:
  assumes s: "span_ok w s" "sp_elem_size s = es"
  shows "tda_span_fprint w s stream fprint = Some (stream @ bracketed ''['' (map tok (span_elems w s)) '']'')"
proof -
  have l: "length (span_elems w s) = sp_len s" by (rule length_span_elems [OF s(1)])
  have "for_loop [0..<length (span_elems w s)]
      (\<lambda>i t. do { (p, off) \<leftarrow> tda_span_get s i; x \<leftarrow> mem_read w p off es; fprint x (print_sep (i = 0) t) }) (stream @ ''['')
    = Some ((stream @ ''['') @ commas (map tok (span_elems w s)))"
  proof (rule print_loop)
    fix i assume "i < length (span_elems w s)"
    then show "\<exists>p off. tda_span_get s i = Some (p, off) \<and> mem_read w p off es = Some (span_elems w s ! i)"
      using span_get_reads [OF s(1), of i] s(2) l by simp
  qed (use s(2) elems_in_length in \<open>auto simp: span_elems_def\<close>)
  then show ?thesis using s l by (simp add: tda_span_fprint_def span_assert_ok [OF s(1)] fputs_def bracketed_def)
qed

lemma vec_fprint_ok:
  assumes v: "vec_inv owned w v" "vec_elem_size v = es"
  shows "tda_vec_fprint w v stream fprint = Some (stream @ bracketed ''['' (map tok (vec_list w v)) '']'')"
proof -
  obtain s where "tda_vec_to_span v = Some s" "span_ok w s" "sp_elem_size s = es" "span_elems w s = vec_list w v"
    using vec_to_span_ok [OF v(1)] v(2) by auto
  then show ?thesis using span_fprint_ok [of w s] by (simp add: tda_vec_fprint_def assert_vec_ok [OF v(1)])
qed

lemma arr_fprint_ok:
  assumes a: "arr_inv owned w a" "arr_elem_size a = es"
  shows "tda_arr_fprint w a stream fprint = Some (stream @ bracketed ''['' (map tok (arr_list w a)) '']'')"
proof -
  obtain s where "tda_arr_to_span a = Some s" "span_ok w s" "sp_elem_size s = es" "span_elems w s = arr_list w a"
    using arr_to_span_ok [OF a(1)] a(2) by auto
  then show ?thesis using span_fprint_ok [of w s] by (simp add: tda_arr_fprint_def assert_arr_ok [OF a(1)])
qed

lemma deque_fprint_ok:
  assumes d: "deque_inv owned w d" "deque_elem_size d = es"
  shows "tda_deque_fprint w d stream fprint = Some (stream @ bracketed ''['' (map tok (deque_list w d)) '']'')"
proof -
  have n: "deque_len d \<le> deque_cap d" using d(1) by (simp add: deque_inv_def)
  have l: "length (deque_list w d) = deque_len d" by (rule length_deque_list [OF d(1)])
  have at: "deque_list w d ! i = deque_ring w d ! i" if "i < deque_len d" for i using that by (simp add: deque_list_def)
  have "for_loop [0..<length (deque_list w d)]
      (\<lambda>i t. do { (p, off) \<leftarrow> deque_elem_at d i; x \<leftarrow> mem_read w p off es; fprint x (print_sep (i = 0) t) }) (stream @ ''['')
    = Some ((stream @ ''['') @ commas (map tok (deque_list w d)))"
  proof (rule print_loop)
    fix i assume i: "i < length (deque_list w d)"
    then have c: "i < deque_cap d" using n l by simp
    show "\<exists>p off. deque_elem_at d i = Some (p, off) \<and> mem_read w p off es = Some (deque_list w d ! i)"
      by (rule deque_elem_reads [OF d(1) c]) (use i l at d(2) in simp)
  next
    fix x assume "x \<in> set (deque_list w d)"
    then show "length x = es" using deque_list_elem_length d(2) by metis
  qed
  then show ?thesis using d l by (simp add: tda_deque_fprint_def assert_deque_ok [OF d(1)] fputs_def bracketed_def)
qed

lemma list_fprint_ok:
  assumes r: "list_rep owned w ns l ps" "list_elem_size l = es"
  shows "tda_list_fprint w ns l stream fprint = Some (stream @ bracketed ''['' (map tok (list_vals w ps)) '']'')"
proof -
  have hd: "list_head l = hd_or ps None" "distinct ps" using r(1) by (simp_all add: list_rep_def spans_def)
  let ?step = "\<lambda>p s. do { x \<leftarrow> node_elem w (list_elem_size l) p; s1 \<leftarrow> fprint x (print_sep (Some p = list_head l) s);
      n \<leftarrow> ns p; Some (s1, ln_next n) }"
  let ?Q = "\<lambda>rest s. \<exists>ds. ps = ds @ rest \<and> s = (stream @ ''['') @ commas (map tok (list_vals w ds))"
  have "\<exists>s. node_loop ?step (hd_or ps None) (stream @ ''['') = Some s \<and> ?Q [] s"
  proof (rule node_loop_rule [where Q = ?Q])
    fix p rest s assume "?Q (p # rest) s"
    then obtain ds where ds: "ps = ds @ p # rest" "s = (stream @ ''['') @ commas (map tok (list_vals w ds))" by blast
    obtain n where n: "ns p = Some n" "ln_next n = hd_or rest None" using r(1) list_rep_node [of owned w ns l ds p rest] ds(1) by auto
    have "Some p = list_head l \<longleftrightarrow> ds = []" using hd ds(1) by (cases ds) auto
    moreover have "p \<in> set ps" using ds(1) by simp
    ultimately have "?step p s = Some ((stream @ ''['') @ commas (map tok (list_vals w (ds @ [p]))), hd_or rest None)"
      using node_elem_ok [OF r(1), of p] r(2) n ds(2) by (simp add: prints commas_snoc print_sep_append print_sep_Cons list_vals_def)
    then show "\<exists>s'. ?step p s = Some (s', hd_or rest None) \<and> ?Q rest s'" using ds(1) by (intro exI conjI) auto
  qed (simp add: list_vals_def)
  then show ?thesis using hd(1) by (auto simp: tda_list_fprint_def list_rep_assert [OF r(1)] fputs_def bracketed_def)
qed

end

text \<open>A printer whose texts are not empty, hold no comma and differ where the elements do.\<close>

locale token_printer = printer +
  assumes token: "length x = es \<Longrightarrow> tok x \<noteq> [] \<and> CHR '','' \<notin> set (tok x)"
    and token_inj: "length x = es \<Longrightarrow> length y = es \<Longrightarrow> tok x = tok y \<Longrightarrow> x = y"
begin

lemma bracketed_inj:
  assumes x: "\<forall>x \<in> set xs \<union> set ys. length x = es"
  shows "bracketed l (map tok xs) r = bracketed l (map tok ys) r \<longleftrightarrow> xs = ys"
proof
  assume "bracketed l (map tok xs) r = bracketed l (map tok ys) r"
  then have "commas (map tok xs) = commas (map tok ys)" by (simp add: bracketed_def)
  then have "map tok xs = map tok ys" by (rule commas_inj [rotated]) (use x token in auto)
  moreover have "inj_on tok (set xs \<union> set ys)" using x token_inj by (intro inj_onI) blast
  ultimately show "xs = ys" by (meson inj_on_map_eq_map)
qed simp

end

text \<open>The printers of the integers, at any width, and those of \<open>bool\<close> and \<open>char\<close>.\<close>

interpretation printed_uint: token_printer "fprint_uint n" "\<lambda>x. show_size (le_uint x)" n for n
proof
  fix x y :: "byte list" and s
  show "length x = n \<Longrightarrow> fprint_uint n x s = Some (s @ show_size (le_uint x))" by (simp add: fprint_uint_def fputs_def)
  show "show_size (le_uint x) \<noteq> [] \<and> CHR '','' \<notin> set (show_size (le_uint x))" using show_size_no [OF not_digits(1)] by simp
  show "length x = n \<Longrightarrow> length y = n \<Longrightarrow> show_size (le_uint x) = show_size (le_uint y) \<Longrightarrow> x = y"
    using show_size_inj le_uint_inj by metis
qed

interpretation printed_sint: token_printer "fprint_sint n" "\<lambda>x. show_int (le_sint x)" n for n
proof
  fix x y :: "byte list" and s
  show "length x = n \<Longrightarrow> fprint_sint n x s = Some (s @ show_int (le_sint x))" by (simp add: fprint_sint_def fputs_def)
  show "show_int (le_sint x) \<noteq> [] \<and> CHR '','' \<notin> set (show_int (le_sint x))"
    using show_size_no [OF not_digits(1)] by (simp add: show_int_def)
  show "length x = n \<Longrightarrow> length y = n \<Longrightarrow> show_int (le_sint x) = show_int (le_sint y) \<Longrightarrow> x = y"
    using show_int_inj le_sint_inj by metis
qed

interpretation printed_bool: printer tda_fprint_bool "\<lambda>x. if hd x \<noteq> 0 then ''true'' else ''false''" 1
  by unfold_locales (auto simp: tda_fprint_bool_def fputs_def)

interpretation printed_char: printer tda_fprint_char
  "\<lambda>x. if c_isprint (hd x) then [char_of (unat (hd x))] else char_of (92 :: nat) # ''x'' @ show_hex2 (unat (hd x))" 1
  by unfold_locales (auto simp: tda_fprint_char_def fputs_def Let_def)

section \<open>Sets of indices\<close>

text \<open>A bitset prints its members, in increasing order.\<close>

lemma bits_print_loop_ok:
  assumes b: "bs_inv owned w b"
  defines "M \<equiv> \<lambda>n. filter (\<lambda>i. i \<in> bits w b) [0..<n]"
  shows "\<exists>first. bits_print_loop w b from (M from = [], s @ commas (map show_size (M from)))
    = Some (first, s @ commas (map show_size (M (max from (bs_nbits b)))))"
proof (induction "bs_nbits b - from" arbitrary: "from" rule: less_induct)
  case less
  have sub: "i < bs_nbits b" if "i \<in> bits w b" for i using b that by (auto simp: bs_inv_def)
  obtain r where r: "tda_bitset_find_next w b from = Some r" "is_next (bits w b) from r" using bitset_find_next_spec [OF b] by blast
  have add: "M (from + k) = M from @ filter (\<lambda>i. i \<in> bits w b) [from..<from + k]" for k
    by (simp add: M_def upt_add_eq_append [of 0])
  show ?case
  proof (cases r)
    case None
    then have "filter (\<lambda>i. i \<in> bits w b) [from..<from + (bs_nbits b - from)] = []" using r(2) by (auto simp: is_next_def filter_empty_conv)
    then have "M (max from (bs_nbits b)) = M from" using add [of "bs_nbits b - from"] by (cases "from \<le> bs_nbits b") (simp_all add: max_def)
    then show ?thesis using r(1) None by (subst bits_print_loop.simps) simp
  next
    case (Some k)
    then have k: "from \<le> k" "k \<in> bits w b" "\<forall>i. from \<le> i \<longrightarrow> i < k \<longrightarrow> i \<notin> bits w b" using r(2) by (auto simp: is_next_def)
    have "M (Suc k) = M from @ [k]"
    proof -
      have "filter (\<lambda>i. i \<in> bits w b) [from..<k] = []" using k(3) by (auto simp: filter_empty_conv)
      then show ?thesis using add [of "k - from"] k(1,2) by (simp add: M_def)
    qed
    then have m: "M (Suc k) \<noteq> []" "s @ commas (map show_size (M (Suc k)))
        = fputs (show_size k) (print_sep (M from = []) (s @ commas (map show_size (M from))))"
      by (simp_all add: commas_snoc print_sep_append fputs_def)
    have "bs_nbits b - Suc k < bs_nbits b - from" using sub [OF k(2)] k(1) by simp
    from less [OF this] have "\<exists>first. bits_print_loop w b (Suc k) (False, s @ commas (map show_size (M (Suc k))))
        = Some (first, s @ commas (map show_size (M (max from (bs_nbits b)))))"
      using m(1) sub [OF k(2)] k(1) by (simp add: max_def)
    then show ?thesis using r(1) Some m(2) by (subst bits_print_loop.simps) simp
  qed
qed

lemma bitset_fprint_ok:
  assumes b: "bs_inv owned w b"
  shows "tda_bitset_fprint w b stream = Some (stream @ bracketed ''{'' (map show_size (sorted_list_of_set (bits w b))) ''}'')"
proof -
  let ?L = "filter (\<lambda>i. i \<in> bits w b) [0..<bs_nbits b]"
  have "set ?L = bits w b" using b by (auto simp: bs_inv_def)
  moreover have "sorted ?L" "distinct ?L" by (simp_all add: sorted_wrt_filter)
  ultimately have "sorted_list_of_set (bits w b) = ?L" by (metis sorted_list_of_set_sort_remdups distinct_remdups_id sorted_sort_id)
  then show ?thesis using bits_print_loop_ok [OF b, of 0 "stream @ ''{''"]
    by (auto simp: tda_bitset_fprint_def assert_bitset_ok [OF b] fputs_def bracketed_def)
qed

section \<open>Maps and sets of keys\<close>

text \<open>The loop over the entries: the flag \<open>first\<close> is whether one has been printed.\<close>

lemma print_nodes:
  assumes step: "\<And>ds p rest s. ps = ds @ p # rest \<Longrightarrow> step p (ds = [], s) = Some ((False, print_sep (ds = []) s @ f p), hd_or rest None)"
  shows "node_loop step (hd_or ps None) (True, s) = Some (ps = [], s @ commas (map f ps))"
proof -
  let ?Q = "\<lambda>rest st. \<exists>ds. ps = ds @ rest \<and> st = (ds = [], s @ commas (map f ds))"
  have "\<exists>st. node_loop step (hd_or ps None) (True, s) = Some st \<and> ?Q [] st"
  proof (rule node_loop_rule [where Q = ?Q])
    fix p rest st assume "?Q (p # rest) st"
    then obtain ds where ds: "ps = ds @ p # rest" "st = (ds = [], s @ commas (map f ds))" by blast
    have "step p st = Some ((False, s @ commas (map f (ds @ [p]))), hd_or rest None)"
      unfolding ds(2) step [OF ds(1)] by (simp add: commas_snoc print_sep_append)
    then show "\<exists>st'. step p st = Some (st', hd_or rest None) \<and> ?Q rest st'" using ds(1) by (intro exI conjI) auto
  qed simp
  then show ?thesis by auto
qed

definition entry_text :: "(byte list \<Rightarrow> string) \<Rightarrow> (byte list \<Rightarrow> string) \<Rightarrow> byte list \<times> byte list \<Rightarrow> string" where
  "entry_text ktok vtok e = ktok (fst e) @ '': '' @ vtok (snd e)"

lemma hmap_fprint_ok:
  assumes K: "printer kf ktok (hm_key_size m)" and V: "printer vf vtok (hm_val_size m)" and r: "hm_rep owned w h m bs"
  shows "tda_hmap_fprint w h m stream kf vf
    = Some (stream @ bracketed ''{'' (map (\<lambda>p. entry_text ktok vtok (hm_key w m p, hm_val w m p)) (concat bs)) ''}'')"
proof -
  have s: "hm_shape m" and e: "entries_ok owned w h m (set (concat bs))" using r by (simp_all add: hm_rep_def placed_def)
  have start: "first_from h m 0 = Some (hd_or (concat bs) None)" using first_bucket_ok [OF r, of 0] by simp
  let ?step = "\<lambda>p (first, s). do { k \<leftarrow> key_bytes w m p; s1 \<leftarrow> kf k (print_sep first s); v \<leftarrow> val_bytes w m p;
      s2 \<leftarrow> vf v (fputs '': '' s1); nxt \<leftarrow> tda_hmap_node_next h m p; Some ((False, s2), nxt) }"
  have "node_loop ?step (hd_or (concat bs) None) (True, stream @ ''{'')
    = Some (concat bs = [], (stream @ ''{'') @ commas (map (\<lambda>p. entry_text ktok vtok (hm_key w m p, hm_val w m p)) (concat bs)))"
  proof (rule print_nodes)
    fix ds p rest t assume c: "concat bs = ds @ p # rest"
    then have p: "p \<in> set (concat bs)" by simp
    note b = entry_bytes [OF s e p]
    show "?step p (ds = [], t) = Some ((False, print_sep (ds = []) t @ entry_text ktok vtok (hm_key w m p, hm_val w m p)), hd_or rest None)"
      using printer.prints [OF K b(3)] printer.prints [OF V b(4)]
      by (simp add: b(1,2) node_next_ok [OF r c] entry_text_def fputs_def)
  qed
  then show ?thesis
    by (simp add: tda_hmap_fprint_def hm_rep_assert [OF r] start fputs_def bracketed_def del: set_concat map_concat)
qed

lemma hset_fprint_ok:
  assumes K: "printer kf ktok (hm_key_size (hset_map t))" and r: "hm_rep owned w h (hset_map t) bs"
  shows "tda_hset_fprint w h t stream kf = Some (stream @ bracketed ''{'' (map (\<lambda>p. ktok (hm_key w (hset_map t) p)) (concat bs)) ''}'')"
proof -
  let ?m = "hset_map t"
  have s: "hm_shape ?m" and e: "entries_ok owned w h ?m (set (concat bs))" using r by (simp_all add: hm_rep_def placed_def)
  let ?step = "\<lambda>p (first, s). do { k \<leftarrow> key_bytes w ?m p; s1 \<leftarrow> kf k (print_sep first s);
      nxt \<leftarrow> tda_hset_node_next h t p; Some ((False, s1), nxt) }"
  have "node_loop ?step (hd_or (concat bs) None) (True, stream @ ''{'')
    = Some (concat bs = [], (stream @ ''{'') @ commas (map (\<lambda>p. ktok (hm_key w ?m p)) (concat bs)))"
  proof (rule print_nodes)
    fix ds p rest u assume c: "concat bs = ds @ p # rest"
    then have p: "p \<in> set (concat bs)" by simp
    note b = entry_bytes [OF s e p]
    show "?step p (ds = [], u) = Some ((False, print_sep (ds = []) u @ ktok (hm_key w ?m p)), hd_or rest None)"
      using printer.prints [OF K b(3)] by (simp add: b(1) node_next_ok [OF r c] tda_hset_node_next_def)
  qed
  then show ?thesis
    using first_node_ok [OF r] by (simp add: tda_hset_fprint_def tda_hset_first_node_def fputs_def bracketed_def del: set_concat map_concat)
qed

end
