(* ===== verification/Tda_Print_Properties.thy ===== *)
theory Tda_Print_Properties
  imports Tda_Print_Laws Tda_Default
begin

text \<open>
  The properties of printing: the containers print alike, a line of integers tells them apart,
  and the sets and maps print their members.
\<close>

section \<open>Objects for the instances\<close>

text \<open>The elements 4 and 9 in a vec, an array, a deque whose ring wraps and a list.\<close>

definition page_world :: "nat world" where
  "page_world = empty_world\<lparr>heap := [
     Base 256 \<mapsto> replicate 40 0, Base 304 \<mapsto> [4, 9, 0], Base 336 \<mapsto> replicate 32 0, Base 384 \<mapsto> [4, 9],
     Base 400 \<mapsto> replicate 48 0, Base 464 \<mapsto> [9, 0, 4], Base 480 \<mapsto> replicate 40 0,
     Base 528 \<mapsto> replicate 16 0 @ [4], Base 560 \<mapsto> replicate 16 0 @ [9]]\<rparr>"

definition page_links :: nodes where
  "page_links = [Base 528 \<mapsto> \<lparr>ln_next = Some (Base 560), ln_prev = None\<rparr>,
     Base 560 \<mapsto> \<lparr>ln_next = None, ln_prev = Some (Base 528)\<rparr>]"

definition page_vec :: "nat vec" where
  "page_vec = \<lparr>vec_self = Base 256, vec_data = Some (Base 304), vec_len = 2, vec_cap = 3, vec_elem_size = 1, vec_al = c_heap\<rparr>"

definition page_arr :: "nat arr" where
  "page_arr = \<lparr>arr_self = Base 336, arr_data = Some (Base 384), arr_len = 2, arr_elem_size = 1, arr_al = c_heap\<rparr>"

definition page_deque :: "nat deque" where
  "page_deque = \<lparr>deque_self = Base 400, deque_data = Some (Base 464), deque_len = 2, deque_cap = 3, deque_head = 2,
     deque_elem_size = 1, deque_al = c_heap\<rparr>"

definition page_list :: "nat llist" where
  "page_list = \<lparr>list_self = Base 480, list_head = Some (Base 528), list_tail = Some (Base 560), list_len = 2,
     list_elem_size = 1, list_al = c_heap\<rparr>"

lemmas page_defs = page_world_def page_links_def empty_world_def libc_owned_def block_at_def PTRDIFF_MAX_num SIZE_MAX_num
  page_vec_def page_arr_def page_deque_def page_list_def

lemma page_ok: "vec_inv libc_owned page_world page_vec" "arr_inv libc_owned page_world page_arr"
  "deque_inv libc_owned page_world page_deque" "list_rep libc_owned page_world page_links page_list [Base 528, Base 560]"
  by (simp_all add: vec_inv_def arr_inv_def deque_inv_def list_rep_def spans_def page_defs
      sizeof_tda_Vec_def sizeof_tda_Arr_def sizeof_tda_Deque_def sizeof_tda_List_def)

lemma page_elems: "vec_list page_world page_vec = [[4], [9]]" "arr_list page_world page_arr = [[4], [9]]"
  "deque_list page_world page_deque = [[4], [9]]" "list_vals page_world [Base 528, Base 560] = [[4], [9]]"
  by (simp_all add: vec_list_def vec_cells_def arr_list_def deque_list_def deque_ring_def deque_cells_def list_vals_def node_val_def
      page_defs sizeof_tda_ListNode_def elems.simps numeral_2_eq_2)

lemma page_sizes: "vec_elem_size page_vec = 1" "arr_elem_size page_arr = 1" "deque_elem_size page_deque = 1" "list_elem_size page_list = 1"
  by (simp_all add: page_defs)

section \<open>Properties\<close>

text \<open>C28: a vec, a fixed array, a deque and a list with the same elements, wherever they lie in memory and
  wherever the ring of the deque starts, print the same line with any printer that appends a text of the
  element: the texts between brackets, a comma and a space between two of them, and a newline.\<close>

theorem containers_print_alike:
  assumes "printer fprint tok es"
    and "vec_inv o1 w v" "vec_elem_size v = es" "vec_list w v = xs" and "arr_inv o2 w a" "arr_elem_size a = es" "arr_list w a = xs"
    and "deque_inv o3 w d" "deque_elem_size d = es" "deque_list w d = xs"
    and "list_rep o4 w ns l ps" "list_elem_size l = es" "list_vals w ps = xs"
  shows "\<exists>line. line = ''['' @ commas (map tok xs) @ '']'' @ newline
    \<and> tda_vec_fprint w v stream fprint = Some (stream @ line) \<and> tda_arr_fprint w a stream fprint = Some (stream @ line)
    \<and> tda_deque_fprint w d stream fprint = Some (stream @ line) \<and> tda_list_fprint w ns l stream fprint = Some (stream @ line)"
  using printer.vec_fprint_ok [OF assms(1-3), of stream] printer.arr_fprint_ok [OF assms(1,5,6), of stream]
    printer.deque_fprint_ok [OF assms(1,8,9), of stream] printer.list_fprint_ok [OF assms(1,11,12), of stream]
  by (simp add: assms(4,7,10,13) bracketed_def)

theorem containers_print_alike_witness:
  "tda_vec_fprint page_world page_vec [] tda_fprint_u8 = Some (''[4, 9]'' @ newline)
   \<and> tda_deque_fprint page_world page_deque [] tda_fprint_u8 = Some (''[4, 9]'' @ newline)
   \<and> tda_list_fprint page_world page_links page_list [] tda_fprint_u8 = Some (''[4, 9]'' @ newline)"
proof -
  have d: "show_size 4 = ''4''" "show_size 9 = ''9''" by code_simp+
  from containers_print_alike [OF printed_uint.printer_axioms [of 1] page_ok(1) page_sizes(1) page_elems(1) page_ok(2) page_sizes(2)
      page_elems(2) page_ok(3) page_sizes(3) page_elems(3) page_ok(4) page_sizes(4) page_elems(4), of "[]"]
  show ?thesis by (simp add: tda_fprint_u8_def le_uint_def d)
qed

text \<open>C29: with a printer of an integer type of \<open>n\<close> bytes, signed or unsigned, a vec and a deque print the same
  line if and only if they have the same elements: the line of digits, signs and commas tells every element
  and where it stands.\<close>

theorem printed_integers_are_told_apart:
  assumes f: "f = fprint_uint n \<or> f = fprint_sint n"
    and v: "vec_inv o1 w v" "vec_elem_size v = n" and d: "deque_inv o2 w d" "deque_elem_size d = n"
  shows "tda_vec_fprint w v stream f = tda_deque_fprint w d stream f \<longleftrightarrow> vec_list w v = deque_list w d"
proof -
  obtain tok where t: "token_printer f tok n"
    using f printed_uint.token_printer_axioms [of n] printed_sint.token_printer_axioms [of n] by blast
  then have p: "printer f tok n" by (rule token_printer.axioms)
  have "\<forall>x \<in> set (vec_list w v) \<union> set (deque_list w d). length x = n"
    using vec_list_elem_length [of _ w v] deque_list_elem_length [of _ w d] v(2) d(2) by auto
  from token_printer.bracketed_inj [OF t this] show ?thesis
    by (simp add: printer.vec_fprint_ok [OF p v] printer.deque_fprint_ok [OF p d])
qed

theorem printed_integers_are_told_apart_witness:
  "tda_vec_fprint page_world page_vec [] tda_fprint_i8 = tda_deque_fprint page_world page_deque [] tda_fprint_i8"
  using printed_integers_are_told_apart [OF _ page_ok(1) page_sizes(1) page_ok(3) page_sizes(3), of "fprint_sint 1" "[]"]
  by (simp add: page_elems tda_fprint_i8_def)

end
