(* ===== verification/Spec2Isabelle.thy ===== *)
theory Spec2Isabelle
  imports Tda_Alloc_Properties Tda_Algo_Properties Tda_Core_Properties Tda_Vec_Properties Tda_Container_Properties Tda_List_Properties Tda_HMap_Properties Tda_Print_Properties
begin

text \<open>
  A model of the C23 library \<open>tda\<close> (data structures and algorithms over type-erased
  elements, with every allocation through a \<open>tda_Al\<close> object) and the theorems that make it
  correct. Paths below are relative to the repository.

  \<^bold>\<open>How the C is read.\<close> A \<open>size_t\<close> is a natural number; every sum or product the code checks
  is \<open>ckd_add\<close> or \<open>ckd_mul\<close>, every one it lets wrap is \<open>size_add\<close> or \<open>size_mul\<close> (64 bits). An
  operation returns an option: \<open>None\<close> is a failed \<open>assert\<close> or an access outside a block, so a
  theorem that says \<open>= Some\<close> also says that the code does not abort. Statuses and null
  pointers are values. Memory is a map from live blocks to bytes (\<open>Tda_Alloc\<close>), threaded
  through every operation that touches it. What bytes cannot say, the pointers inside contexts,
  list nodes, map nodes and bucket arrays, is kept in typed stores beside it. Each struct is a
  record with its fields, and with its own address where the code frees or compares it.

  \<^bold>\<open>Loops.\<close> A loop over an index range is structural recursion (\<open>for_find\<close>, \<open>for_loop\<close>,
  \<open>try_loop\<close>), a loop that shrinks a measure a \<open>function\<close> with its termination proof. Loops along
  links, the passes of the stable sort, the scan of a bitset, the doubling of a bucket count and
  the rejection loops of the generator are \<open>partial_function\<close>s, for which not returning is \<open>None\<close>;
  all but the last are proved to return on every well-formed object, and a rejection loop
  returns if and only if one of the numbers it draws is accepted (\<open>draws_to\<close>). Nothing uses fuel but
  \<open>walk\<close> and \<open>hwalk\<close>, which read the nodes of an object off the links to state a theorem: their
  bound is the length the object keeps, which is the number of nodes.

  \<^bold>\<open>How the parts interact.\<close> Containers and algorithms that need a buffer call an allocator
  through the four wrappers of \<open>alloc.c\<close>; an allocator may be built on another. The contract
  between them is the locale \<open>allocator\<close> and what extends it: \<open>host\<close> (blocks aligned, as another
  allocator needs), \<open>disjoint_host\<close> (blocks that do not overlap), \<open>node_allocator\<close> (blocks aligned
  for any type), \<open>object_allocator\<close>. The arena, the pool and the default allocator interpret
  \<open>disjoint_host\<close>, and so the first two; the logging one is proved to keep the contract, with one line a call
  (\<open>answers_and_logs\<close>), and the aligning one, whose blocks it can only take back itself, to keep
  \<open>aligned_inv\<close> over every run of a client: each block lies in a parent's block of its own. A container that reports statuses is a family of calls (\<open>refined_calls\<close>): every run of
  them, whatever requests are refused, refines a run on an abstract object. It is a sublocale
  of the allocator's contract for the vec, deque, list, hash map, hash set, queue, stack, priority
  queue and bitset. A container that an adapter keeps is a \<open>container\<close>.

  \<^bold>\<open>Theories.\<close>
  \<^item> \<open>Tda_Prelude\<close>: statuses (\<open>core/status.h\<close>), checked and wrapping sizes, assertions, slices
    and blits, the loop combinators and their invariant rules.
  \<^item> \<open>Tda_Bytes\<close> (\<open>internal/ptr.h\<close>): byte offsets, alignment on 64-bit words, the swap loop, and
    the view of a byte block as a list of elements.
  \<^item> \<open>Tda_Alloc\<close> (\<open>alloc/alloc.h\<close>, \<open>alloc/alloc.c\<close>): memory, the four wrappers, the contracts, and
    the steps of a client. \<open>Tda_Arena\<close>, \<open>Tda_Pool\<close>, \<open>Tda_Log\<close>, \<open>Tda_Aligned\<close>, \<open>Tda_Default\<close>
    (\<open>alloc/*.c\<close>): the five allocators, each with its invariant; the C library's \<open>malloc\<close> family
    is a parameter with its documented behaviour (\<open>libc_contract\<close>) and a small instance.
  \<^item> \<open>Tda_Span\<close> (\<open>core/span.h\<close>): views of memory, and the element view on which the algorithms
    are modelled, tied together by refinement lemmas.
  \<^item> \<open>Tda_Cmp\<close> (\<open>core/cmp.c\<close>): comparators and the locale \<open>comparator\<close>, interpreted on all of them.
    \<open>Tda_Search\<close>, \<open>Tda_Heap\<close>, \<open>Tda_Permute\<close>, \<open>Tda_Merge\<close>, \<open>Tda_Sort\<close>, \<open>Tda_Set\<close>, \<open>Tda_Modify\<close>
    (\<open>algo/*.c\<close>, \<open>internal/emit.h\<close>): the algorithms, with what each does to its span.
  \<^item> \<open>Tda_Hash\<close> (\<open>core/hash.c\<close>) on 64-bit words; \<open>Tda_Rng\<close> (\<open>core/rng.c\<close> and the shuffles of
    \<open>algo/permute.c\<close>).
  \<^item> \<open>Tda_Buffer\<close>, \<open>Tda_Calls\<close>: what containers share, blocks of whole elements, the \<open>frame\<close> of a
    call, and the two contracts of calls and of kept containers.
  \<^item> \<open>Tda_Vec\<close>, \<open>Tda_Vec_Compare\<close>, \<open>Tda_Vec_Calls\<close> (\<open>ds/vec.c\<close>): the growable array on bytes.
    \<open>Tda_Deque\<close>, \<open>Tda_Deque_Laws\<close>, \<open>Tda_Deque_Ops\<close>, \<open>Tda_Deque_Calls\<close> (\<open>ds/deque.c\<close>): the ring in one
    block. \<open>Tda_Arr\<close> (\<open>ds/arr.c\<close>), \<open>Tda_Bitset\<close>, \<open>Tda_Bitset_Laws\<close>, \<open>Tda_Bitset_Calls\<close>
    (\<open>ds/bitset.c\<close>).
  \<^item> \<open>Tda_Queue\<close>, \<open>Tda_Stack\<close>, \<open>Tda_PQueue\<close> (\<open>ds/queue.c\<close>, \<open>stack.c\<close>, \<open>pqueue.c\<close>): the adapters, over
    the deque, the vec, and the vec in heap order.
  \<^item> \<open>Tda_List\<close> (\<open>ds/list.c\<close>): every operation. \<open>Tda_List_Chains\<close>: the links alone; \<open>Tda_List_Laws\<close>,
    \<open>Tda_List_Copies\<close>, \<open>Tda_List_Assign\<close>: the operations on a represented list (\<open>list_rep\<close>);
    \<open>Tda_List_Calls\<close>: runs of calls.
  \<^item> \<open>Tda_HMap\<close> (\<open>ds/hmap.c\<close>, \<open>internal/hmap_impl.h\<close>), \<open>Tda_HSet\<close> (\<open>ds/hset.c\<close>): every operation.
    \<open>Tda_HMap_Chains\<close>: the links alone (\<open>placed\<close>: every node in the bucket of its hash);
    \<open>Tda_HMap_Laws\<close>: \<open>hm_rep\<close>, the map a represented hash map stands for (\<open>hm_map\<close>), and lookup;
    \<open>Tda_HMap_Ops\<close>, \<open>Tda_HMap_Life\<close>, \<open>Tda_HMap_Copies\<close>, \<open>Tda_HMap_Assign\<close>: the operations;
    \<open>Tda_HMap_Calls\<close>, \<open>Tda_HSet_Calls\<close>: runs of calls on a dictionary and on a set of keys;
    \<open>Tda_HSet_Copies\<close>: making, copying and comparing sets.
  \<^item> \<open>Tda_Print\<close> (\<open>core/print.c\<close>, \<open>core/span.h\<close> and the \<open>fprint\<close> and \<open>print\<close> functions of the
    containers): a stream is what has been written to it. \<open>Tda_Print_Laws\<close>: the contracts of a
    printer (\<open>printer\<close>, \<open>token_printer\<close>), interpreted on the printers of \<open>print.c\<close>, and the line each
    container prints with one.
  \<^item> \<open>Tda_Alloc_Properties\<close>, \<open>Tda_Algo_Properties\<close>, \<open>Tda_Core_Properties\<close>, \<open>Tda_Vec_Properties\<close>,
    \<open>Tda_Container_Properties\<close>, \<open>Tda_List_Properties\<close>, \<open>Tda_HMap_Properties\<close>,
    \<open>Tda_Print_Properties\<close>: the main theorems, each with an instance on a concrete object.

  \<^bold>\<open>What is assumed of callers.\<close> Arguments the headers ask for: elements of the container's size,
  indices in range where the code asserts them, a comparator that is one (\<open>comparator\<close>), a hasher
  that agrees with the equality of the keys, which is an equivalence (\<open>agree\<close>), sources that do not
  lie inside the block that is resized. Callbacks are functions of the bytes they are given.

  \<^bold>\<open>Found by modelling.\<close> \<open>hmap_sizes_at_limit\<close>: the constructor of the hash map checks the size of
  an entry but not of the node around it, which wraps to less than its header for the sizes
  within a header of \<open>SIZE_MAX\<close>; and a key within 15 of \<open>SIZE_MAX\<close>, with a value, aborts where
  the conventions of the library ask for an error.

  \<^bold>\<open>Not modelled.\<close> The printers of floating-point numbers, which hand over to \<open>%g\<close>; the two random
  ranges of floats, which round; the typed convenience macros of the headers, which only add a
  \<open>sizeof\<close> and a cast; tests, benchmarks and examples.
\<close>

end
